(* ===== verification/Prelude.thy ===== *)
theory Prelude
  imports Main "HOL-Library.Word"
begin

text \<open>
  Shared vocabulary of the development: the type names of the machine integers the code
  uses, results with an error value, the little-endian byte encodings that the bytecode
  file and the wire format have in common, and generic lemmas on lists, maps and words.
\<close>

unbundle bit_operations_syntax

named_theorems nanbox_simps \<open>evaluation of the NaN-box accessors on boxed values\<close>
named_theorems codec \<open>a reader applied to what its writer produced\<close>
named_theorems heap_frame \<open>what an operation leaves unchanged\<close>

section \<open>Machine integers\<close>

type_synonym u8 = "8 word"
type_synonym u16 = "16 word"
type_synonym u32 = "32 word"
type_synonym u64 = "64 word"
type_synonym bytes = "8 word list"

text \<open>A signed 64-bit integer is kept as its bit pattern; \<open>sint\<close> reads it.\<close>

type_synonym i64 = "64 word"

definition INT64_MIN :: int where "INT64_MIN = - (2 ^ 63)"
definition INT64_MAX :: int where "INT64_MAX = 2 ^ 63 - 1"

lemma sint_u64_bounds: "INT64_MIN \<le> sint (x :: 64 word)" "sint (x :: 64 word) \<le> INT64_MAX"
  using sint_range_size [of x] by (simp_all add: INT64_MIN_def INT64_MAX_def word_size)

lemma unat_u64_less: "unat (x :: 64 word) < 18446744073709551616"
  using unsigned_less [of x] by simp

lemma unat_u32_less: "unat (x :: 32 word) < 4294967296"
  using unsigned_less [of x] by simp

section \<open>Results\<close>

text \<open>\<^verbatim>\<open>std::expected<T, E>\<close> is the sum \<open>'e + 'a\<close>: \<open>Inl\<close> the error, \<open>Inr\<close> the value.\<close>

definition is_ok :: "'e + 'a \<Rightarrow> bool" where
  "is_ok r = (case r of Inl _ \<Rightarrow> False | Inr _ \<Rightarrow> True)"

lemma is_ok_simps [simp]: "is_ok (Inr x)" "\<not> is_ok (Inl e)"
  by (simp_all add: is_ok_def)

lemma is_ok_iff: "is_ok r \<longleftrightarrow> (\<exists>x. r = Inr x)"
  by (cases r) auto

section \<open>Decimal numerals\<close>

text \<open>\<^verbatim>\<open>std::to_string\<close> of an unsigned 32-bit integer, which has at most ten digits.\<close>

fun decimal_digits :: "nat \<Rightarrow> nat \<Rightarrow> string" where
  "decimal_digits 0 n = []"
| "decimal_digits (Suc k) n = (if n < 10 then [char_of (48 + n)] else decimal_digits k (n div 10) @ [char_of (48 + n mod 10)])"

definition to_decimal :: "u32 \<Rightarrow> string" where
  "to_decimal w = decimal_digits 10 (unat w)"

section \<open>Little-endian encodings\<close>

text \<open>
  \<open>le_bytes n w\<close> are the \<open>n\<close> low bytes of \<open>w\<close>, least significant first;
  \<open>le_word\<close> reads them back.
\<close>

fun le_bytes :: "nat \<Rightarrow> 'a::len word \<Rightarrow> bytes" where
  "le_bytes 0 w = []"
| "le_bytes (Suc n) w = ucast w # le_bytes n (drop_bit 8 w)"

fun le_word :: "bytes \<Rightarrow> 'a::len word" where
  "le_word [] = 0"
| "le_word (b # bs) = ucast b OR push_bit 8 (le_word bs)"

lemma length_le_bytes [simp]: "length (le_bytes n w) = n"
  by (induction n arbitrary: w) auto

lemma bit_le_word_le_bytes:
  "bit (le_word (le_bytes n w) :: 'a::len word) k \<longleftrightarrow> k < 8 * n \<and> bit (w :: 'a word) k"
proof (induction n arbitrary: w k)
  case 0
  then show ?case by simp
next
  case (Suc n)
  show ?case
  proof (cases "k < 8")
    case True
    then show ?thesis
      by (auto simp: bit_simps dest: bit_imp_le_length)
  next
    case False
    then have "bit (le_word (le_bytes n (drop_bit 8 w)) :: 'a word) (k - 8)
        \<longleftrightarrow> k - 8 < 8 * n \<and> bit w k"
      by (simp add: Suc.IH bit_simps)
    with False show ?thesis
      by (auto simp: bit_simps dest: bit_imp_le_length)
  qed
qed

lemma le_word_le_bytes:
  "LENGTH('a) \<le> 8 * n \<Longrightarrow> le_word (le_bytes n w) = (w :: 'a::len word)"
  by (rule bit_word_eqI) (simp add: bit_le_word_le_bytes)

lemma le_word_le_bytes_32 [codec]: "le_word (le_bytes 4 w) = (w :: 32 word)"
  by (rule le_word_le_bytes) simp

lemma le_word_le_bytes_64 [codec]: "le_word (le_bytes 8 w) = (w :: 64 word)"
  by (rule le_word_le_bytes) simp

lemma le_word_le_bytes_16 [codec]: "le_word (le_bytes 2 w) = (w :: 16 word)"
  by (rule le_word_le_bytes) simp

end
