(* ===== verification/NanBox.thy ===== *)
theory NanBox
  imports Prelude
begin

text \<open>
  The value representation of the runtime, \<^verbatim>\<open>eta/core/src/eta/runtime/nanbox.h\<close>: every
  Lisp value is one 64-bit word. A double is its IEEE-754 bit pattern; every other value
  is a quiet NaN with a marker bit, a three bit tag and a 47 bit payload. The overflow
  checks of \<^verbatim>\<open>overflow.h\<close> and the tag dispatch of \<^verbatim>\<open>value_visit.h\<close> follow. Arithmetic on
  doubles is not modelled: a double is only ever moved, compared bitwise or classified.
\<close>

section \<open>Layout\<close>

type_synonym lispval = "64 word"

datatype tag = Nil_tag | Char_tag | Fixnum_tag | String_tag | Symbol_tag | Nan_tag
  | HeapObject_tag | TapeRef_tag

datatype nanbox_error = InvalidTag | OutOfRange

definition EXPONENT_MASK :: u64 where "EXPONENT_MASK = 0x7ff"
definition MANTISSA_MASK :: u64 where "MANTISSA_MASK = 0x000fffffffffffff"
definition QNAN_EXP_BITS :: u64 where "QNAN_EXP_BITS = push_bit 52 0x7ff"
definition QNAN_BIT :: u64 where "QNAN_BIT = push_bit 51 1"
definition MARKER_BIT :: u64 where "MARKER_BIT = push_bit 50 1"
definition TAG_SHIFT :: nat where "TAG_SHIFT = 47"
definition TAG_MASK :: u64 where "TAG_MASK = 7"
definition PAYLOAD_MASK :: u64 where "PAYLOAD_MASK = 0x00007fffffffffff"
definition BOXED_PATTERN_MASK :: u64 where
  "BOXED_PATTERN_MASK = QNAN_EXP_BITS OR QNAN_BIT OR MARKER_BIT"
definition FIXNUM_MIN :: int where "FIXNUM_MIN = - (2 ^ 46)"
definition FIXNUM_MAX :: int where "FIXNUM_MAX = 2 ^ 46 - 1"
definition UNICODE_MAX :: u32 where "UNICODE_MAX = 0x10FFFF"
definition FIXNUM_SIGN_BIT :: u64 where "FIXNUM_SIGN_BIT = push_bit 46 1"
definition FIXNUM_SIGN_EXTEND_MASK :: u64 where "FIXNUM_SIGN_EXTEND_MASK = NOT PAYLOAD_MASK"

fun tag_code :: "tag \<Rightarrow> u64" where
  "tag_code Nil_tag = 0"
| "tag_code Char_tag = 1"
| "tag_code Fixnum_tag = 2"
| "tag_code String_tag = 3"
| "tag_code Symbol_tag = 4"
| "tag_code Nan_tag = 5"
| "tag_code HeapObject_tag = 6"
| "tag_code TapeRef_tag = 7"

text \<open>The cast \<^verbatim>\<open>static_cast<Tag>(x)\<close> of a three bit number.\<close>

definition tag_of_code :: "u64 \<Rightarrow> tag" where
  "tag_of_code c =
     (if c = 0 then Nil_tag else if c = 1 then Char_tag else if c = 2 then Fixnum_tag
      else if c = 3 then String_tag else if c = 4 then Symbol_tag else if c = 5 then Nan_tag
      else if c = 6 then HeapObject_tag else TapeRef_tag)"

section \<open>Boxing\<close>

definition box :: "tag \<Rightarrow> u64 \<Rightarrow> lispval" where
  "box t p = BOXED_PATTERN_MASK OR push_bit TAG_SHIFT (tag_code t) OR (p AND PAYLOAD_MASK)"

definition is_boxed :: "u64 \<Rightarrow> bool" where
  "is_boxed b \<longleftrightarrow> b AND BOXED_PATTERN_MASK = BOXED_PATTERN_MASK"

definition tag :: "lispval \<Rightarrow> tag" where
  "tag v = tag_of_code (drop_bit TAG_SHIFT v AND TAG_MASK)"

definition payload :: "lispval \<Rightarrow> u64" where
  "payload v = v AND PAYLOAD_MASK"

definition sign_extend_fixnum :: "u64 \<Rightarrow> i64" where
  "sign_extend_fixnum raw =
     (if raw AND FIXNUM_SIGN_BIT \<noteq> 0 then raw OR FIXNUM_SIGN_EXTEND_MASK else raw)"

definition Nil_val :: lispval where "Nil_val = box Nil_tag 0"
definition True_val :: lispval where "True_val = box Nil_tag 1"
definition False_val :: lispval where "False_val = box Nil_tag 2"

section \<open>Encoding and decoding the C++ types\<close>

text \<open>\<^verbatim>\<open>std::isnan\<close> on the bit pattern: all exponent bits set and a mantissa that is not 0.\<close>

definition is_nan_bits :: "u64 \<Rightarrow> bool" where
  "is_nan_bits d \<longleftrightarrow> drop_bit 52 d AND EXPONENT_MASK = EXPONENT_MASK \<and> d AND MANTISSA_MASK \<noteq> 0"

text \<open>The bit pattern of \<^verbatim>\<open>std::numeric_limits<double>::quiet_NaN()\<close>.\<close>

definition quiet_NaN :: u64 where "quiet_NaN = QNAN_EXP_BITS OR QNAN_BIT"

definition encode_double :: "u64 \<Rightarrow> nanbox_error + lispval" where
  "encode_double d = (if is_nan_bits d then Inr (box Nan_tag 0) else Inr d)"

definition encode_char8 :: "u8 \<Rightarrow> nanbox_error + lispval" where
  "encode_char8 c = Inr (box Char_tag (ucast c))"

definition encode_char32 :: "u32 \<Rightarrow> nanbox_error + lispval" where
  "encode_char32 c = (if c > UNICODE_MAX then Inl OutOfRange else Inr (box Char_tag (ucast c)))"

definition encode_i64 :: "i64 \<Rightarrow> nanbox_error + lispval" where
  "encode_i64 v = (if sint v < FIXNUM_MIN \<or> sint v > FIXNUM_MAX then Inl OutOfRange
                   else Inr (box Fixnum_tag (v AND PAYLOAD_MASK)))"

definition encode_u64 :: "u64 \<Rightarrow> nanbox_error + lispval" where
  "encode_u64 v = (if v > word_of_int FIXNUM_MAX then Inl OutOfRange
                   else Inr (box Fixnum_tag (v AND PAYLOAD_MASK)))"

text \<open>The last branch of \<^verbatim>\<open>encode\<close>, at the signed 32-bit type: the cast to 64 bits sign-extends.\<close>

definition encode_i32 :: "u32 \<Rightarrow> nanbox_error + lispval" where
  "encode_i32 v = Inr (box Fixnum_tag (scast v))"

definition decode_double :: "lispval \<Rightarrow> nanbox_error + u64" where
  "decode_double v = (if is_boxed v then (if tag v = Nan_tag then Inr quiet_NaN else Inl InvalidTag)
                      else Inr v)"

definition decode_char8 :: "lispval \<Rightarrow> nanbox_error + u8" where
  "decode_char8 v = (if \<not> is_boxed v \<or> tag v \<noteq> Char_tag then Inl InvalidTag
                     else Inr (ucast (payload v AND 0xFF)))"

definition decode_char32 :: "lispval \<Rightarrow> nanbox_error + u32" where
  "decode_char32 v = (if \<not> is_boxed v \<or> tag v \<noteq> Char_tag then Inl InvalidTag
                      else Inr (ucast (payload v)))"

definition decode_i64 :: "lispval \<Rightarrow> nanbox_error + i64" where
  "decode_i64 v = (if \<not> is_boxed v \<or> tag v \<noteq> Fixnum_tag then Inl InvalidTag
                   else Inr (sign_extend_fixnum (payload v)))"

definition decode_u64 :: "lispval \<Rightarrow> nanbox_error + u64" where
  "decode_u64 v = (if \<not> is_boxed v \<or> tag v \<noteq> Fixnum_tag then Inl InvalidTag
                   else Inr (payload v))"

definition decode_i32 :: "lispval \<Rightarrow> nanbox_error + u32" where
  "decode_i32 v = (if \<not> is_boxed v \<or> tag v \<noteq> Fixnum_tag then Inl InvalidTag
                   else Inr (ucast (payload v)))"

section \<open>Bit-level characterisation\<close>

lemma PAYLOAD_MASK_mask: "PAYLOAD_MASK = mask 47"
  by (simp add: PAYLOAD_MASK_def mask_eq_exp_minus_1)

lemma BOXED_PATTERN_MASK_mask: "BOXED_PATTERN_MASK = push_bit 50 (mask 13)"
  by (simp add: BOXED_PATTERN_MASK_def QNAN_EXP_BITS_def QNAN_BIT_def MARKER_BIT_def
      mask_eq_exp_minus_1)

lemma tag_code_less: "tag_code t < 8"
  by (cases t) simp_all

lemma tag_of_code_tag_code [simp]: "tag_of_code (tag_code t) = t"
  by (cases t) (simp_all add: tag_of_code_def)

lemma tag_code_inject [simp]: "tag_code s = tag_code t \<longleftrightarrow> s = t"
  by (cases s; cases t) simp_all

lemma bit_tag_code: "bit (tag_code t) n \<Longrightarrow> n < 3"
proof -
  assume n: "bit (tag_code t) n"
  have "tag_code t = take_bit 3 (tag_code t)"
    by (cases t) simp_all
  with n have "bit (take_bit 3 (tag_code t)) n" by simp
  then show ?thesis by (simp add: bit_take_bit_iff)
qed

lemma bit_box:
  "bit (box t p) n \<longleftrightarrow>
     (n < 47 \<and> bit p n) \<or> (47 \<le> n \<and> n < 50 \<and> bit (tag_code t) (n - 47)) \<or> (50 \<le> n \<and> n < 63)"
  by (auto simp: box_def BOXED_PATTERN_MASK_mask PAYLOAD_MASK_mask TAG_SHIFT_def bit_simps
      dest: bit_tag_code bit_imp_le_length)

lemma is_boxed_iff_bits: "is_boxed v \<longleftrightarrow> (\<forall>n. 50 \<le> n \<and> n < 63 \<longrightarrow> bit v n)"
proof
  assume b: "is_boxed v"
  show "\<forall>n. 50 \<le> n \<and> n < 63 \<longrightarrow> bit v n"
  proof (intro allI impI)
    fix n :: nat assume n: "50 \<le> n \<and> n < 63"
    then have "bit BOXED_PATTERN_MASK n"
      by (auto simp: BOXED_PATTERN_MASK_mask bit_simps)
    with b have "bit (v AND BOXED_PATTERN_MASK) n"
      by (simp add: is_boxed_def)
    then show "bit v n" by (simp add: bit_simps)
  qed
next
  assume "\<forall>n. 50 \<le> n \<and> n < 63 \<longrightarrow> bit v n"
  then show "is_boxed v"
    unfolding is_boxed_def
    by (intro bit_word_eqI) (auto simp: BOXED_PATTERN_MASK_mask bit_simps)
qed

lemma is_boxed_box [simp, nanbox_simps]: "is_boxed (box t p)"
  by (simp add: is_boxed_iff_bits bit_box)

lemma drop_bit_box: "drop_bit TAG_SHIFT (box t p) AND TAG_MASK = tag_code t"
proof (rule bit_word_eqI)
  fix n assume n: "n < LENGTH(64)"
  have M: "TAG_MASK = mask 3" by (simp add: TAG_MASK_def mask_eq_exp_minus_1)
  show "bit (drop_bit TAG_SHIFT (box t p) AND TAG_MASK) n \<longleftrightarrow> bit (tag_code t) n"
    unfolding M by (auto simp: bit_simps bit_box TAG_SHIFT_def dest: bit_tag_code)
qed

lemma tag_box [simp, nanbox_simps]: "tag (box t p) = t"
  by (simp add: tag_def drop_bit_box)

lemma payload_box [simp, nanbox_simps]: "payload (box t p) = p AND PAYLOAD_MASK"
  by (rule bit_word_eqI)
    (auto simp: payload_def bit_box PAYLOAD_MASK_mask bit_simps)

lemma payload_mask_idem [simp]: "payload v AND PAYLOAD_MASK = payload v"
  by (simp add: payload_def and.assoc)

lemma box_mask [simp]: "box t (p AND PAYLOAD_MASK) = box t p"
  by (simp add: box_def and.assoc)

lemma and_PAYLOAD_MASK: "p \<le> PAYLOAD_MASK \<Longrightarrow> p AND PAYLOAD_MASK = p"
proof -
  assume p: "p \<le> PAYLOAD_MASK"
  moreover have "PAYLOAD_MASK < 2 ^ 47" by (simp add: PAYLOAD_MASK_def)
  ultimately have "p < 2 ^ 47" by (rule le_less_trans)
  then show ?thesis by (simp add: PAYLOAD_MASK_mask less_mask_eq)
qed

lemma box_inject: "box s p = box t q \<longleftrightarrow> s = t \<and> p AND PAYLOAD_MASK = q AND PAYLOAD_MASK"
  by (metis box_mask payload_box tag_box)

lemma payload_le: "payload v \<le> PAYLOAD_MASK"
  by (simp add: payload_def word_and_le1)

text \<open>A word that is boxed is determined by its tag, its payload and its sign bit.\<close>

lemma is_nan_bits_iff:
  "is_nan_bits d \<longleftrightarrow> (\<forall>n. 52 \<le> n \<and> n < 63 \<longrightarrow> bit d n) \<and> (\<exists>n<52. bit d n)"
proof -
  have E: "EXPONENT_MASK = mask 11" and M: "MANTISSA_MASK = mask 52"
    by (simp_all add: EXPONENT_MASK_def MANTISSA_MASK_def mask_eq_exp_minus_1)
  have "(drop_bit 52 d AND EXPONENT_MASK = EXPONENT_MASK) \<longleftrightarrow> (\<forall>n. 52 \<le> n \<and> n < 63 \<longrightarrow> bit d n)"
  proof
    assume a: "drop_bit 52 d AND EXPONENT_MASK = EXPONENT_MASK"
    show "\<forall>n. 52 \<le> n \<and> n < 63 \<longrightarrow> bit d n"
    proof (intro allI impI)
      fix n :: nat assume n: "52 \<le> n \<and> n < 63"
      then have "bit EXPONENT_MASK (n - 52)" by (auto simp: E bit_simps)
      with a have "bit (drop_bit 52 d AND EXPONENT_MASK) (n - 52)" by simp
      with n show "bit d n" by (simp add: bit_simps)
    qed
  next
    assume "\<forall>n. 52 \<le> n \<and> n < 63 \<longrightarrow> bit d n"
    then show "drop_bit 52 d AND EXPONENT_MASK = EXPONENT_MASK"
      by (intro bit_word_eqI) (auto simp: E bit_simps)
  qed
  moreover have "(d AND MANTISSA_MASK \<noteq> 0) \<longleftrightarrow> (\<exists>n<52. bit d n)"
  proof -
    have "d AND MANTISSA_MASK = 0 \<longleftrightarrow> (\<forall>n. \<not> (bit d n \<and> n < 52))"
    proof
      assume z: "d AND MANTISSA_MASK = 0"
      show "\<forall>n. \<not> (bit d n \<and> n < 52)"
      proof (intro allI notI)
        fix n assume "bit d n \<and> n < 52"
        then have "bit (d AND MANTISSA_MASK) n" by (auto simp: M bit_simps)
        with z show False by simp
      qed
    qed (unfold M, rule bit_word_eqI, auto simp: bit_simps)
    then show ?thesis by auto
  qed
  ultimately show ?thesis by (simp add: is_nan_bits_def)
qed

lemma is_boxed_imp_is_nan: "is_boxed d \<Longrightarrow> is_nan_bits d"
proof -
  assume b: "is_boxed d"
  then have "\<forall>n. 52 \<le> n \<and> n < 63 \<longrightarrow> bit d n" and "bit d 50"
    by (simp_all add: is_boxed_iff_bits)
  moreover have "\<exists>n<52. bit d n"
    by (rule exI [of _ 50]) (simp add: calculation)
  ultimately show "is_nan_bits d" by (simp add: is_nan_bits_iff)
qed

section \<open>Round trips\<close>

lemma decode_encode_double:
  "encode_double d = Inr v \<Longrightarrow> decode_double v = Inr (if is_nan_bits d then quiet_NaN else d)"
  using is_boxed_imp_is_nan [of d]
  by (auto simp: encode_double_def decode_double_def split: if_splits)

lemma sign_bit_47: "sign_extend_fixnum p = (if bit p 46 then p OR NOT (mask 47) else p)"
proof -
  have "p AND FIXNUM_SIGN_BIT \<noteq> 0 \<longleftrightarrow> bit p 46"
    unfolding FIXNUM_SIGN_BIT_def push_bit_of_1 and_exp_eq_0_iff_not_bit by simp
  then show ?thesis
    by (simp add: sign_extend_fixnum_def FIXNUM_SIGN_EXTEND_MASK_def PAYLOAD_MASK_mask)
qed

lemma sign_extend_fixnum_eq: "sign_extend_fixnum (v AND PAYLOAD_MASK) = word_of_int (signed_take_bit 46 (uint v))"
  unfolding sign_bit_47 PAYLOAD_MASK_mask
  by (rule bit_word_eqI) (auto simp: bit_simps min_def le_antisym dest: le_neq_implies_less)

lemma fixnum_range_word: "FIXNUM_MIN \<le> sint v \<Longrightarrow> sint v \<le> FIXNUM_MAX \<Longrightarrow>
  sign_extend_fixnum (v AND PAYLOAD_MASK) = v"
proof -
  assume "FIXNUM_MIN \<le> sint v" "sint v \<le> FIXNUM_MAX"
  then have "signed_take_bit 46 (sint v) = sint v"
    by (simp add: signed_take_bit_int_eq_self_iff FIXNUM_MIN_def FIXNUM_MAX_def)
  moreover have "signed_take_bit 46 (sint v) = signed_take_bit 46 (uint v)"
    by (simp add: sint_uint signed_take_bit_signed_take_bit)
  ultimately show ?thesis
    by (simp add: sign_extend_fixnum_eq)
qed

lemma decode_encode_i64: "encode_i64 v = Inr w \<Longrightarrow> decode_i64 w = Inr v"
  by (auto simp: encode_i64_def decode_i64_def fixnum_range_word split: if_splits)

lemma encode_i64_error: "encode_i64 v = Inl e \<longleftrightarrow>
    e = OutOfRange \<and> (sint v < FIXNUM_MIN \<or> FIXNUM_MAX < sint v)"
  by (auto simp: encode_i64_def)

lemma char32_payload: "c \<le> UNICODE_MAX \<Longrightarrow> ucast (payload (box Char_tag (ucast c))) = (c :: u32)"
proof -
  have "ucast (ucast c AND PAYLOAD_MASK :: 64 word) = (c :: 32 word)"
    by (rule bit_word_eqI) (auto simp: PAYLOAD_MASK_mask bit_simps)
  then show ?thesis by simp
qed

lemma decode_encode_char32: "encode_char32 c = Inr w \<Longrightarrow> decode_char32 w = Inr c"
  by (auto simp: encode_char32_def decode_char32_def char32_payload not_less
      simp del: payload_box split: if_splits)

lemma decode_encode_char8: "encode_char8 c = Inr w \<Longrightarrow> decode_char8 w = Inr c"
proof -
  have F: "(0xFF :: 64 word) = mask 8" by (simp add: mask_eq_exp_minus_1)
  have "ucast ((ucast c AND PAYLOAD_MASK) AND 0xFF :: 64 word) = (c :: 8 word)"
    unfolding F PAYLOAD_MASK_mask by (rule bit_word_eqI) (auto simp: bit_simps)
  then show "encode_char8 c = Inr w \<Longrightarrow> decode_char8 w = Inr c"
    by (auto simp: encode_char8_def decode_char8_def)
qed

lemma decode_encode_i32: "encode_i32 c = Inr w \<Longrightarrow> decode_i32 w = Inr c"
proof -
  have "ucast (scast c AND PAYLOAD_MASK :: 64 word) = (c :: 32 word)"
    by (rule bit_word_eqI) (auto simp: PAYLOAD_MASK_mask bit_simps)
  then show "encode_i32 c = Inr w \<Longrightarrow> decode_i32 w = Inr c"
    by (auto simp: encode_i32_def decode_i32_def)
qed

lemma decode_encode_u64: "encode_u64 v = Inr w \<Longrightarrow> decode_u64 w = Inr v"
proof -
  assume e: "encode_u64 v = Inr w"
  then have "v \<le> word_of_int FIXNUM_MAX" by (auto simp: encode_u64_def split: if_splits)
  moreover have "(word_of_int FIXNUM_MAX :: 64 word) \<le> PAYLOAD_MASK"
    by (simp add: FIXNUM_MAX_def PAYLOAD_MASK_def)
  ultimately have "v AND PAYLOAD_MASK = v" by (intro and_PAYLOAD_MASK) (rule order_trans)
  with e show ?thesis by (auto simp: encode_u64_def decode_u64_def split: if_splits)
qed

section \<open>Dispatch on a value\<close>

text \<open>
  \<^verbatim>\<open>visit_value\<close> of \<^verbatim>\<open>value_visit.h\<close> calls one method of the visitor; the model returns
  which one, with its argument.
\<close>

datatype visit = Visit_fixnum i64 | Visit_flonum u64 | Visit_char u32 | Visit_string u64
  | Visit_symbol u64 | Visit_nan | Visit_heapref u64 | Visit_nil

definition visit_value :: "lispval \<Rightarrow> visit" where
  "visit_value v =
     (if \<not> is_boxed v then Visit_flonum v
      else case tag v of
        Fixnum_tag \<Rightarrow> Visit_fixnum (sign_extend_fixnum (payload v))
      | Char_tag \<Rightarrow> Visit_char (ucast (payload v))
      | String_tag \<Rightarrow> Visit_string (payload v)
      | Symbol_tag \<Rightarrow> Visit_symbol (payload v)
      | Nan_tag \<Rightarrow> Visit_nan
      | HeapObject_tag \<Rightarrow> Visit_heapref (payload v)
      | TapeRef_tag \<Rightarrow> Visit_nil
      | Nil_tag \<Rightarrow> Visit_nil)"

section \<open>Overflow-checked arithmetic\<close>

text \<open>
  The portable branch of \<^verbatim>\<open>overflow.h\<close>: \<open>None\<close> where the C++ function returns true,
  \<open>Some r\<close> where it returns false and stores \<open>r\<close>. The comparisons are on the signed
  values; no intermediate of the guards leaves the 64-bit range, so they are written on
  \<open>int\<close>, with the truncating division of C++.
\<close>

definition cdiv :: "int \<Rightarrow> int \<Rightarrow> int" where
  "cdiv a b = sgn a * sgn b * (\<bar>a\<bar> div \<bar>b\<bar>)"

definition add_overflow :: "i64 \<Rightarrow> i64 \<Rightarrow> i64 option" where
  "add_overflow a b =
     (if sint b > 0 \<and> sint a > INT64_MAX - sint b then None
      else if sint b < 0 \<and> sint a < INT64_MIN - sint b then None
      else Some (a + b))"

definition sub_overflow :: "i64 \<Rightarrow> i64 \<Rightarrow> i64 option" where
  "sub_overflow a b =
     (if sint b < 0 \<and> sint a > INT64_MAX + sint b then None
      else if sint b > 0 \<and> sint a < INT64_MIN + sint b then None
      else Some (a - b))"

definition mul_overflow :: "i64 \<Rightarrow> i64 \<Rightarrow> i64 option" where
  "mul_overflow a b =
     (if a = 0 \<or> b = 0 then Some 0
      else if sint a > 0 \<and> sint b > 0 \<and> sint a > cdiv INT64_MAX (sint b) then None
      else if sint a < 0 \<and> sint b < 0 \<and> sint a < cdiv INT64_MAX (sint b) then None
      else if sint a > 0 \<and> sint b < 0 \<and> sint b < cdiv INT64_MIN (sint a) then None
      else if sint a < 0 \<and> sint b > 0 \<and> sint a < cdiv INT64_MIN (sint b) then None
      else Some (a * b))"

text \<open>
  The other branch uses the compiler builtins: exact arithmetic, overflow exactly when the
  result is not representable.
\<close>

definition fits_i64 :: "int \<Rightarrow> bool" where
  "fits_i64 r \<longleftrightarrow> INT64_MIN \<le> r \<and> r \<le> INT64_MAX"

definition builtin_overflow :: "int \<Rightarrow> i64 option" where
  "builtin_overflow r = (if fits_i64 r then Some (word_of_int r) else None)"

lemma add_overflow_builtin: "add_overflow a b = builtin_overflow (sint a + sint b)"
  using sint_u64_bounds [of a] sint_u64_bounds [of b]
  by (auto simp: add_overflow_def builtin_overflow_def fits_i64_def INT64_MIN_def INT64_MAX_def)

lemma sub_overflow_builtin: "sub_overflow a b = builtin_overflow (sint a - sint b)"
  using sint_u64_bounds [of a] sint_u64_bounds [of b]
  by (auto simp: sub_overflow_def builtin_overflow_def fits_i64_def INT64_MIN_def INT64_MAX_def)

lemma less_div_iff_mult: "0 < (b :: int) \<Longrightarrow> m div b < a \<longleftrightarrow> m < a * b"
proof -
  assume b: "0 < b"
  have m: "m = b * (m div b) + m mod b" by simp
  have r: "0 \<le> m mod b" "m mod b < b" using b by simp_all
  show "m div b < a \<longleftrightarrow> m < a * b"
  proof
    assume "m div b < a"
    then have "b * (m div b + 1) \<le> b * a" using b by (intro mult_left_mono) simp_all
    then have "b * (m div b) + b \<le> a * b" by (simp add: algebra_simps)
    then show "m < a * b" using m r by linarith
  next
    assume lt: "m < a * b"
    show "m div b < a"
    proof (rule ccontr)
      assume "\<not> m div b < a"
      then have "b * a \<le> b * (m div b)" using b by (intro mult_left_mono) simp_all
      then have "a * b \<le> b * (m div b)" by (simp add: algebra_simps)
      then show False using m r lt by linarith
    qed
  qed
qed

lemma mul_overflow_guard:
  fixes a b :: int
  assumes "a \<noteq> 0" "b \<noteq> 0"
  shows "((a > 0 \<and> b > 0 \<and> a > cdiv INT64_MAX b) \<or> (a < 0 \<and> b < 0 \<and> a < cdiv INT64_MAX b)
      \<or> (a > 0 \<and> b < 0 \<and> b < cdiv INT64_MIN a) \<or> (a < 0 \<and> b > 0 \<and> a < cdiv INT64_MIN b))
    \<longleftrightarrow> \<not> fits_i64 (a * b)"
proof -
  have pp: "a > cdiv INT64_MAX b \<longleftrightarrow> a * b > INT64_MAX" if "b > 0"
    using that by (simp add: cdiv_def less_div_iff_mult INT64_MAX_def)
  have nn: "a < cdiv INT64_MAX b \<longleftrightarrow> a * b > INT64_MAX" if "b < 0"
    using that less_div_iff_mult [of "- b" INT64_MAX "- a"]
    by (simp add: cdiv_def INT64_MAX_def) linarith
  have np: "x < cdiv INT64_MIN y \<longleftrightarrow> x * y < INT64_MIN" if "y > 0" for x y
    using that less_div_iff_mult [of y "- INT64_MIN" "- x"]
    by (simp add: cdiv_def INT64_MIN_def) linarith
  have mm: "INT64_MIN < 0" "0 < INT64_MAX" by (simp_all add: INT64_MIN_def INT64_MAX_def)
  consider "a > 0" "b > 0" | "a < 0" "b < 0" | "a > 0" "b < 0" | "a < 0" "b > 0"
    using assms by linarith
  then show ?thesis
  proof cases
    case 1
    have "a * b > 0" using 1 by (rule mult_pos_pos)
    then have "INT64_MIN \<le> a * b" using mm by linarith
    with 1 pp mm show ?thesis by (auto simp: fits_i64_def)
  next
    case 2
    have "a * b > 0" using 2 by (rule mult_neg_neg)
    then have "INT64_MIN \<le> a * b" using mm by linarith
    with 2 nn mm show ?thesis by (auto simp: fits_i64_def)
  next
    case 3
    have "a * b < 0" using 3 by (rule mult_pos_neg)
    then have "a * b \<le> INT64_MAX" using mm by linarith
    with 3 np [of a b] mm show ?thesis
      by (auto simp: fits_i64_def mult.commute)
  next
    case 4
    have "a * b < 0" using 4 by (rule mult_neg_pos)
    then have "a * b \<le> INT64_MAX" using mm by linarith
    with 4 np [of b a] mm show ?thesis
      by (auto simp: fits_i64_def mult.commute)
  qed
qed

lemma mul_overflow_builtin: "mul_overflow a b = builtin_overflow (sint a * sint b)"
proof (cases "a = 0 \<or> b = 0")
  case True
  then show ?thesis
    by (auto simp: mul_overflow_def builtin_overflow_def fits_i64_def INT64_MIN_def INT64_MAX_def)
next
  case False
  then have "sint a \<noteq> 0" "sint b \<noteq> 0" by (simp_all add: signed_eq_0_iff)
  from mul_overflow_guard [OF this] False show ?thesis
    by (auto simp: mul_overflow_def builtin_overflow_def)
qed


section \<open>Properties\<close>

text \<open>C16: A signed 64-bit integer in the 47-bit fixnum range is boxed as a fixnum that decodes,
  and is visited, as that integer, sign included; any other integer is refused.\<close>

theorem fixnum_roundtrip:
  "case encode_i64 v of
     Inr w \<Rightarrow> is_boxed w \<and> tag w = Fixnum_tag \<and> decode_i64 w = Inr v \<and> visit_value w = Visit_fixnum v
   | Inl e \<Rightarrow> e = OutOfRange \<and> (sint v < FIXNUM_MIN \<or> FIXNUM_MAX < sint v)"
  by (auto simp: encode_i64_def decode_i64_def visit_value_def fixnum_range_word split: sum.splits)

text \<open>Every double is its own value and is never mistaken for a boxed one, except that all
  NaNs become the one boxed NaN, which decodes to the quiet NaN.\<close>

lemma flonum_roundtrip:
  "case encode_double d of
     Inr w \<Rightarrow> (is_boxed w \<longleftrightarrow> is_nan_bits d) \<and> decode_double w = Inr (if is_nan_bits d then quiet_NaN else d) \<and>
       visit_value w = (if is_nan_bits d then Visit_nan else Visit_flonum d)
   | Inl _ \<Rightarrow> False"
  using is_boxed_imp_is_nan [of d] decode_encode_double [of d]
  by (auto simp: encode_double_def visit_value_def)

text \<open>C17: The portable overflow checks agree with the compiler builtins they replace: each
  returns the exact sum, difference or product when it fits 64 signed bits and fails
  otherwise, at every boundary.\<close>

theorem overflow_checks_exact:
  "add_overflow a b = builtin_overflow (sint a + sint b) \<and>
   sub_overflow a b = builtin_overflow (sint a - sint b) \<and>
   mul_overflow a b = builtin_overflow (sint a * sint b)"
  by (simp add: add_overflow_builtin sub_overflow_builtin mul_overflow_builtin)

end
