(* ===== verification/HeapObject.thy ===== *)
theory HeapObject
  imports NanBox
begin

text \<open>
  What the heap stores: the object kinds, headers and errors of
  \<^verbatim>\<open>eta/core/src/eta/runtime/memory/heap.h\<close>, the payload structs under
  \<^verbatim>\<open>runtime/types/\<close> as one tagged union, and the visitor that enumerates the values a
  heap object refers to (\<^verbatim>\<open>heap_visit.h\<close> and \<^verbatim>\<open>LambdaHeapVisitor\<close> of \<^verbatim>\<open>mark_sweep_gc.h\<close>).
  Of payloads whose contents the collector never reads (ports, tensors, sockets, compiled
  regular expressions) only the kind is kept.
\<close>

type_synonym object_id = u64

datatype object_kind =
    Unknown_kind | Cons_kind | Atom_kind | Fixnum_kind | Vector_kind | ByteVector_kind
  | Closure_kind | Continuation_kind | Primitive_kind | Guardian_kind | MultipleValues_kind
  | Port_kind | LogicVar_kind | Tape_kind | Tensor_kind | NNModule_kind | Optimizer_kind
  | FactTable_kind | HashMap_kind | HashSet_kind | CsvReader_kind | CsvWriter_kind | Regex_kind
  | LogSink_kind | LogLogger_kind | ProcessHandle_kind | NngSocket_kind | CompoundTerm_kind

datatype heap_error =
    HeapObjectIdExhausted | FailedToAllocateMemory | FailedToDeallocateMemory | ObjectIdNotFound
  | NullPtrReference | SoftHeapLimitExceeded | UnexpectedObjectKind | GCInProgress

section \<open>Headers\<close>

text \<open>\<^verbatim>\<open>flags\<close> is a three bit field: bit 0 is the mark, bit 1 marks an allocated pool slot.\<close>

type_synonym flags = "3 word"

definition MARK_BIT :: flags where "MARK_BIT = 1"
definition POOL_ALLOCATED_BIT :: flags where "POOL_ALLOCATED_BIT = 2"

record obj_header =
  kind :: object_kind
  flags :: flags

definition is_marked_flag :: "flags \<Rightarrow> bool" where
  "is_marked_flag f \<longleftrightarrow> f AND MARK_BIT \<noteq> 0"

definition is_allocated_flag :: "flags \<Rightarrow> bool" where
  "is_allocated_flag f \<longleftrightarrow> f AND POOL_ALLOCATED_BIT \<noteq> 0"

definition set_mark :: "flags \<Rightarrow> flags" where
  "set_mark f = f OR MARK_BIT"

definition clear_mark :: "flags \<Rightarrow> flags" where
  "clear_mark f = f AND NOT MARK_BIT"

lemma is_marked_flag_bit: "is_marked_flag f \<longleftrightarrow> bit f 0"
  using and_exp_eq_0_iff_not_bit [of f 0] by (simp add: is_marked_flag_def MARK_BIT_def)

lemma is_allocated_flag_bit: "is_allocated_flag f \<longleftrightarrow> bit f 1"
  using and_exp_eq_0_iff_not_bit [of f 1]
  by (simp add: is_allocated_flag_def POOL_ALLOCATED_BIT_def)

lemma flag_simps [simp]:
  "is_marked_flag (set_mark f)" "\<not> is_marked_flag (clear_mark f)"
  "is_allocated_flag (set_mark f) = is_allocated_flag f"
  "is_allocated_flag (clear_mark f) = is_allocated_flag f"
  "\<not> is_marked_flag 0" "\<not> is_allocated_flag 0"
  "\<not> is_marked_flag POOL_ALLOCATED_BIT" "is_allocated_flag POOL_ALLOCATED_BIT"
  by (simp_all add: is_marked_flag_bit is_allocated_flag_bit set_mark_def clear_mark_def
      MARK_BIT_def POOL_ALLOCATED_BIT_def bit_simps)

section \<open>Payloads\<close>

text \<open>
  A saved call frame and a \<^verbatim>\<open>dynamic-wind\<close> frame of \<^verbatim>\<open>vm.h\<close>, as far as a continuation object
  keeps values in them.
\<close>

record vm_frame =
  frame_pc :: u32
  frame_fp :: u32
  frame_closure :: lispval
  frame_extra :: lispval

record wind_frame =
  wind_before :: lispval
  wind_body :: lispval
  wind_after :: lispval

datatype hash_slot = Empty_slot | Occupied_slot | Tombstone_slot

record hash_table =
  ht_keys :: "lispval list"
  ht_values :: "lispval list"
  ht_state :: "hash_slot list"

text \<open>
  One constructor per payload struct. A closure's function pointer may be null; of the
  function only its constant pool matters here. The port values of a process handle are
  behind a shared pointer that may be empty.
\<close>

datatype heap_obj =
    Cons_obj lispval lispval
  | Atom_obj lispval
  | Fixnum_obj i64
  | Vector_obj "lispval list"
  | ByteVector_obj bytes
  | Closure_obj (func_constants: "lispval list option") (upvals: "lispval list") (parent: lispval)
  | Continuation_obj "lispval list" "vm_frame list" "wind_frame list"
  | Primitive_obj "lispval list"
  | Guardian_obj "lispval list"
  | MultipleValues_obj "lispval list"
  | LogicVar_obj "lispval option" string "(u64 \<times> lispval) list"
  | Tape_obj
  | FactTable_obj "lispval list list" "lispval list"
  | HashMap_obj hash_table
  | HashSet_obj hash_table
  | CsvReader_obj "lispval list"
  | CompoundTerm_obj lispval "lispval list"
  | ProcessHandle_obj "(lispval \<times> lispval \<times> lispval) option"
  | Leaf_obj object_kind

fun kind_of :: "heap_obj \<Rightarrow> object_kind" where
  "kind_of (Cons_obj _ _) = Cons_kind"
| "kind_of (Atom_obj _) = Atom_kind"
| "kind_of (Fixnum_obj _) = Fixnum_kind"
| "kind_of (Vector_obj _) = Vector_kind"
| "kind_of (ByteVector_obj _) = ByteVector_kind"
| "kind_of (Closure_obj _ _ _) = Closure_kind"
| "kind_of (Continuation_obj _ _ _) = Continuation_kind"
| "kind_of (Primitive_obj _) = Primitive_kind"
| "kind_of (Guardian_obj _) = Guardian_kind"
| "kind_of (MultipleValues_obj _) = MultipleValues_kind"
| "kind_of (LogicVar_obj _ _ _) = LogicVar_kind"
| "kind_of Tape_obj = Tape_kind"
| "kind_of (FactTable_obj _ _) = FactTable_kind"
| "kind_of (HashMap_obj _) = HashMap_kind"
| "kind_of (HashSet_obj _) = HashSet_kind"
| "kind_of (CsvReader_obj _) = CsvReader_kind"
| "kind_of (CompoundTerm_obj _ _) = CompoundTerm_kind"
| "kind_of (ProcessHandle_obj _) = ProcessHandle_kind"
| "kind_of (Leaf_obj k) = k"

section \<open>The values an object refers to\<close>

text \<open>
  Occupied slots of the parallel arrays of a hash table, in slot order; \<open>with_values\<close> also
  lists the value of each key, as the hash-map visitor does and the hash-set visitor does not.
\<close>

fun occupied_refs :: "bool \<Rightarrow> hash_slot list \<Rightarrow> lispval list \<Rightarrow> lispval list \<Rightarrow> lispval list" where
  "occupied_refs with_values (st # sts) (k # ks) (v # vs) =
     (if st = Occupied_slot then (if with_values then [k, v] else [k]) else [])
       @ occupied_refs with_values sts ks vs"
| "occupied_refs _ _ _ _ = []"

text \<open>
  \<^verbatim>\<open>visit_heap_refs\<close>: the values passed to the callback, in order. The parent of a closure is
  not visited.
\<close>

fun heap_refs :: "heap_obj \<Rightarrow> lispval list" where
  "heap_refs (Cons_obj a d) = [a, d]"
| "heap_refs (Atom_obj v) = [v]"
| "heap_refs (Closure_obj fc us p) = us @ (case fc of None \<Rightarrow> [] | Some cs \<Rightarrow> cs)"
| "heap_refs (Vector_obj vs) = vs"
| "heap_refs (Continuation_obj st fs ws) =
     st @ concat (map (\<lambda>f. [frame_closure f, frame_extra f]) fs)
        @ concat (map (\<lambda>w. [wind_before w, wind_body w, wind_after w]) ws)"
| "heap_refs (MultipleValues_obj vs) = vs"
| "heap_refs (LogicVar_obj b n as) = (case b of None \<Rightarrow> [] | Some v \<Rightarrow> [v]) @ map snd as"
| "heap_refs Tape_obj = []"
| "heap_refs (Primitive_obj vs) = vs"
| "heap_refs (Guardian_obj q) = q"
| "heap_refs (FactTable_obj cols rules) = concat cols @ rules"
| "heap_refs (HashMap_obj h) = occupied_refs True (ht_state h) (ht_keys h) (ht_values h)"
| "heap_refs (HashSet_obj h) = occupied_refs False (ht_state h) (ht_keys h) (ht_values h)"
| "heap_refs (CsvReader_obj syms) = syms"
| "heap_refs (CompoundTerm_obj f as) = f # as"
| "heap_refs (ProcessHandle_obj h) = (case h of None \<Rightarrow> [] | Some (i, out, err) \<Rightarrow> [i, out, err])"
| "heap_refs (Fixnum_obj _) = []"
| "heap_refs (ByteVector_obj _) = []"
| "heap_refs (Leaf_obj _) = []"

text \<open>A value is a heap reference when it is boxed with the heap tag; its payload is the id.\<close>

definition is_heap_ref :: "lispval \<Rightarrow> bool" where
  "is_heap_ref v \<longleftrightarrow> is_boxed v \<and> tag v = HeapObject_tag"

definition heap_ref_ids :: "lispval list \<Rightarrow> object_id list" where
  "heap_ref_ids vs = map payload (filter is_heap_ref vs)"

lemma heap_ref_ids_append [simp]: "heap_ref_ids (xs @ ys) = heap_ref_ids xs @ heap_ref_ids ys"
  by (simp add: heap_ref_ids_def)

lemma heap_ref_ids_Nil [simp]: "heap_ref_ids [] = []"
  by (simp add: heap_ref_ids_def)

lemma is_heap_ref_box [simp]: "is_heap_ref (box t p) \<longleftrightarrow> t = HeapObject_tag"
  by (simp add: is_heap_ref_def)

end
