(* ===== verification/ObjectStore.thy ===== *)
theory ObjectStore
  imports HeapObject
begin

text \<open>
  The interface between the collector and the stores it sweeps: a map from ids to objects
  with a deallocation, a mark per object, and an allocator. The cons pool and the heap
  provide it; the batch operations of the collector are clients.
\<close>

locale object_store =
  fixes inv :: "'s \<Rightarrow> bool" and get :: "'s \<Rightarrow> object_id \<Rightarrow> 'o option" and free :: "object_id \<Rightarrow> 's \<Rightarrow> 's"
  assumes free_inv: "inv s \<Longrightarrow> inv (free i s)"
    and free_get: "inv s \<Longrightarrow> get (free i s) = (get s)(i := None)"
begin

text \<open>Freeing a batch removes exactly the batch, in whatever order and with whatever repetition.\<close>

lemma free_all_inv: "inv s \<Longrightarrow> inv (fold free is s)"
  by (induction "is" arbitrary: s) (auto intro: free_inv)

lemma free_all_get: "inv s \<Longrightarrow> get (fold free is s) = (\<lambda>i. if i \<in> set is then None else get s i)"
  by (induction "is" arbitrary: s) (auto simp: free_inv free_get)

lemma free_all_perm:
  "inv s \<Longrightarrow> set is = set js \<Longrightarrow> get (fold free is s) = get (fold free js s)"
  by (simp add: free_all_get)

end

text \<open>A store with a mark on each live object.\<close>

locale marked_store = object_store +
  fixes marked :: "'a \<Rightarrow> object_id \<Rightarrow> bool" and mark :: "object_id \<Rightarrow> 'a \<Rightarrow> 'a"
  assumes marked_live: "inv s \<Longrightarrow> marked s i \<Longrightarrow> get s i \<noteq> None"
    and mark_inv: "inv s \<Longrightarrow> get s i \<noteq> None \<Longrightarrow> inv (mark i s)"
    and mark_get: "inv s \<Longrightarrow> get s i \<noteq> None \<Longrightarrow> get (mark i s) = get s"
    and mark_marked: "inv s \<Longrightarrow> get s i \<noteq> None \<Longrightarrow> marked (mark i s) = (marked s)(i := True)"
begin

lemma mark_all:
  "inv s \<Longrightarrow> \<forall>i \<in> set is. get s i \<noteq> None \<Longrightarrow>
   inv (fold mark is s) \<and> get (fold mark is s) = get s \<and>
   marked (fold mark is s) = (\<lambda>i. i \<in> set is \<or> marked s i)"
proof (induction "is" arbitrary: s)
  case (Cons i "is")
  then have "inv (mark i s)" "get (mark i s) = get s" "marked (mark i s) = (marked s)(i := True)"
    by (auto intro: mark_inv mark_get mark_marked)
  with Cons.IH [of "mark i s"] Cons.prems(2) show ?case by (auto simp: fun_eq_iff)
qed simp

end

text \<open>
  An allocator: a successful allocation returns an id that was not live and adds exactly that
  binding, a failed one changes no object.
\<close>

locale allocator =
  fixes inv :: "'s \<Rightarrow> bool" and get :: "'s \<Rightarrow> object_id \<Rightarrow> 'o option"
    and room :: "'s \<Rightarrow> bool" and alloc :: "'o \<Rightarrow> 's \<Rightarrow> (heap_error + object_id) \<times> 's"
  assumes alloc_ok: "inv s \<Longrightarrow> room s \<Longrightarrow> alloc ob s = (Inr i, s') \<Longrightarrow>
      inv s' \<and> get s i = None \<and> get s' = (get s)(i \<mapsto> ob)"
    and alloc_error: "inv s \<Longrightarrow> room s \<Longrightarrow> alloc ob s = (Inl e, s') \<Longrightarrow> inv s' \<and> get s' = get s"
begin

lemma alloc_inv:
  assumes "inv s" "room s"
  shows "inv (snd (alloc ob s))"
proof -
  obtain r s' where a: "alloc ob s = (r, s')" by (cases "alloc ob s")
  with alloc_ok [OF assms] alloc_error [OF assms] show ?thesis by (cases r) auto
qed

lemma alloc_keeps:
  assumes "inv s" "room s" "get s j = Some ob'"
  shows "get (snd (alloc ob s)) j = Some ob'"
proof -
  obtain r s' where a: "alloc ob s = (r, s')" by (cases "alloc ob s")
  show ?thesis
  proof (cases r)
    case (Inl e)
    with alloc_error [OF assms(1,2)] a assms(3) show ?thesis by simp
  next
    case (Inr i)
    with alloc_ok [OF assms(1,2)] a assms(3) show ?thesis by auto
  qed
qed

lemma alloc_get: "inv s \<Longrightarrow> room s \<Longrightarrow> alloc ob s = (Inr i, s') \<Longrightarrow> get s' i = Some ob"
  using alloc_ok by fastforce

text \<open>Two allocations in a row return different ids.\<close>

lemma alloc_distinct:
  "inv s \<Longrightarrow> room s \<Longrightarrow> alloc ob s = (Inr i, s') \<Longrightarrow> room s' \<Longrightarrow> alloc ob' s' = (Inr j, s'') \<Longrightarrow> i \<noteq> j"
  using alloc_ok [of s ob i s'] alloc_ok [of s' ob' j s''] by auto

end

end
