(* ===== verification/ConsPool.thy ===== *)
theory ConsPool
  imports ObjectStore
begin

text \<open>
  The slab pool for cons cells, \<^verbatim>\<open>eta/core/src/eta/runtime/memory/cons_pool.h\<close>. A slot is
  addressed by its slab number and its index in the slab; the memory behind those addresses
  is the function \<open>slot_mem\<close>, so that pointers into it (the free list) stay valid when the
  vector of slabs grows, as they do in the code. The atomic id counter belongs to the heap
  and is passed in and out.
\<close>

section \<open>State\<close>

datatype slot_ptr = Slot (slab_no: nat) (slot_no: nat)

text \<open>The union of a live cell and a free-list link.\<close>

datatype slot_body = Cell lispval lispval | Next_free "slot_ptr option"

record cons_slot =
  slot_header :: obj_header
  slot_id :: object_id
  slot_body :: slot_body

record slab =
  slab_capacity :: nat
  slab_base :: object_id

record cons_pool =
  slot_mem :: "slot_ptr \<Rightarrow> cons_slot"
  slabs :: "slab list"
  free_head :: "slot_ptr option"
  live_count :: nat
  total_capacity :: nat

definition null_slot :: cons_slot where
  "null_slot = \<lparr>slot_header = \<lparr>kind = Cons_kind, flags = 0\<rparr>, slot_id = 0, slot_body = Next_free None\<rparr>"

definition empty_pool :: cons_pool where
  "empty_pool = \<lparr>slot_mem = (\<lambda>_. null_slot), slabs = [], free_head = None, live_count = 0, total_capacity = 0\<rparr>"

abbreviation slot_allocated :: "cons_slot \<Rightarrow> bool" where
  "slot_allocated s \<equiv> is_allocated_flag (flags (slot_header s))"

abbreviation slot_marked :: "cons_slot \<Rightarrow> bool" where
  "slot_marked s \<equiv> is_marked_flag (flags (slot_header s))"

definition set_flags :: "flags \<Rightarrow> cons_slot \<Rightarrow> cons_slot" where
  "set_flags f s = s\<lparr>slot_header := (slot_header s)\<lparr>flags := f\<rparr>\<rparr>"

definition write_slot :: "slot_ptr \<Rightarrow> cons_slot \<Rightarrow> cons_pool \<Rightarrow> cons_pool" where
  "write_slot r s p = p\<lparr>slot_mem := (slot_mem p)(r := s)\<rparr>"

section \<open>Lookup\<close>

definition in_slab :: "object_id \<Rightarrow> slab \<Rightarrow> bool" where
  "in_slab i sl \<longleftrightarrow> i \<ge> slab_base sl \<and> i < slab_base sl + of_nat (slab_capacity sl)"

fun find_slot_from :: "nat \<Rightarrow> slab list \<Rightarrow> object_id \<Rightarrow> slot_ptr option" where
  "find_slot_from n [] i = None"
| "find_slot_from n (sl # sls) i =
     (if in_slab i sl then Some (Slot n (unat (i - slab_base sl))) else find_slot_from (Suc n) sls i)"

definition find_slot :: "cons_pool \<Rightarrow> object_id \<Rightarrow> slot_ptr option" where
  "find_slot p i = find_slot_from 0 (slabs p) i"

definition owns :: "cons_pool \<Rightarrow> object_id \<Rightarrow> bool" where
  "owns p i \<longleftrightarrow> find_slot p i \<noteq> None"

text \<open>The allocated slot of an id, the guard every access starts with.\<close>

definition live_slot :: "cons_pool \<Rightarrow> object_id \<Rightarrow> slot_ptr option" where
  "live_slot p i = (case find_slot p i of None \<Rightarrow> None
     | Some r \<Rightarrow> if slot_allocated (slot_mem p r) then Some r else None)"

definition slot_cell :: "cons_slot \<Rightarrow> lispval \<times> lispval" where
  "slot_cell s = (case slot_body s of Cell a d \<Rightarrow> (a, d) | Next_free _ \<Rightarrow> (0, 0))"

definition pool_try_get :: "cons_pool \<Rightarrow> object_id \<Rightarrow> (lispval \<times> lispval) option" where
  "pool_try_get p i = map_option (\<lambda>r. slot_cell (slot_mem p r)) (live_slot p i)"

definition pool_header :: "cons_pool \<Rightarrow> object_id \<Rightarrow> obj_header option" where
  "pool_header p i = map_option (\<lambda>r. slot_header (slot_mem p r)) (live_slot p i)"

section \<open>Allocation\<close>

text \<open>
  \<^verbatim>\<open>grow\<close>: claim a range of ids, refuse when it leaves the payload range, link the new slots
  in front of the free list.
\<close>

definition new_slot :: "cons_pool \<Rightarrow> object_id \<Rightarrow> nat \<Rightarrow> nat \<Rightarrow> cons_slot" where
  "new_slot p base capacity i =
     \<lparr>slot_header = \<lparr>kind = Cons_kind, flags = 0\<rparr>, slot_id = base + of_nat i,
      slot_body = Next_free (if i + 1 < capacity then Some (Slot (length (slabs p)) (i + 1)) else free_head p)\<rparr>"

definition grow :: "nat \<Rightarrow> cons_pool \<times> u64 \<Rightarrow> bool \<times> cons_pool \<times> u64" where
  "grow capacity = (\<lambda>(p, next).
     let base = next; next' = next + of_nat capacity in
     if base + of_nat capacity > PAYLOAD_MASK then (False, p, next')
     else (True,
       p\<lparr>slot_mem := (\<lambda>r. if slab_no r = length (slabs p) \<and> slot_no r < capacity
                          then new_slot p base capacity (slot_no r) else slot_mem p r),
         free_head := Some (Slot (length (slabs p)) 0),
         total_capacity := total_capacity p + capacity,
         slabs := slabs p @ [\<lparr>slab_capacity = capacity, slab_base = base\<rparr>]\<rparr>,
       next'))"

definition POOL_INITIAL_CAPACITY :: nat where "POOL_INITIAL_CAPACITY = 8192"

definition pop_free :: "slot_ptr \<Rightarrow> lispval \<Rightarrow> lispval \<Rightarrow> cons_pool \<Rightarrow> object_id \<times> cons_pool" where
  "pop_free r car cdr p =
     (let s = slot_mem p r;
          nxt = (case slot_body s of Next_free n \<Rightarrow> n | Cell _ _ \<Rightarrow> None);
          s' = s\<lparr>slot_header := \<lparr>kind = Cons_kind, flags = POOL_ALLOCATED_BIT\<rparr>,
                 slot_body := Cell car cdr\<rparr>
      in (slot_id s, (write_slot r s' p)\<lparr>free_head := nxt, live_count := live_count p + 1\<rparr>))"

definition pool_alloc :: "lispval \<Rightarrow> lispval \<Rightarrow> cons_pool \<times> u64 \<Rightarrow>
    (heap_error + object_id) \<times> cons_pool \<times> u64" where
  "pool_alloc car cdr = (\<lambda>(p, next).
     case free_head p of
       Some r \<Rightarrow> (let (i, p') = pop_free r car cdr p in (Inr i, p', next))
     | None \<Rightarrow>
         (case grow (if total_capacity p > 0 then total_capacity p else 8192) (p, next) of
            (False, p1, next1) \<Rightarrow> (Inl FailedToAllocateMemory, p1, next1)
          | (True, p1, next1) \<Rightarrow>
              (case free_head p1 of
                 Some r \<Rightarrow> (let (i, p') = pop_free r car cdr p1 in (Inr i, p', next1))
               | None \<Rightarrow> (Inl NullPtrReference, p1, next1))))"

section \<open>Deallocation and the collector's operations\<close>

definition push_free :: "slot_ptr \<Rightarrow> cons_pool \<Rightarrow> cons_pool" where
  "push_free r p =
     (write_slot r ((set_flags 0 (slot_mem p r))\<lparr>slot_body := Next_free (free_head p)\<rparr>) p)
       \<lparr>free_head := Some r, live_count := live_count p - 1\<rparr>"

definition free_slot :: "object_id \<Rightarrow> cons_pool \<Rightarrow> cons_pool" where
  "free_slot i p = (case live_slot p i of None \<Rightarrow> p | Some r \<Rightarrow> push_free r p)"

text \<open>The addresses of all slots, slab by slab, in index order: the order of the dense walks.\<close>

definition slab_ptrs :: "nat \<Rightarrow> slab \<Rightarrow> slot_ptr list" where
  "slab_ptrs n sl = map (Slot n) [0..<slab_capacity sl]"

definition all_ptrs :: "cons_pool \<Rightarrow> slot_ptr list" where
  "all_ptrs p = concat (map (\<lambda>n. slab_ptrs n (slabs p ! n)) [0..<length (slabs p)])"

definition flags_at :: "(flags \<Rightarrow> flags) \<Rightarrow> slot_ptr \<Rightarrow> cons_pool \<Rightarrow> cons_pool" where
  "flags_at f r p = (let s = slot_mem p r in
     if slot_allocated s then write_slot r (set_flags (f (flags (slot_header s))) s) p else p)"

definition pool_for_each_flags :: "(flags \<Rightarrow> flags) \<Rightarrow> cons_pool \<Rightarrow> cons_pool" where
  "pool_for_each_flags f p = fold (flags_at f) (all_ptrs p) p"

definition clear_mark_at :: "slot_ptr \<Rightarrow> cons_pool \<Rightarrow> cons_pool" where
  "clear_mark_at r p = (let s = slot_mem p r in
     if slot_allocated s then write_slot r (set_flags (clear_mark (flags (slot_header s))) s) p else p)"

definition pool_clear_marks :: "cons_pool \<Rightarrow> cons_pool" where
  "pool_clear_marks p = fold clear_mark_at (all_ptrs p) p"

definition pool_mark :: "object_id \<Rightarrow> cons_pool \<Rightarrow> cons_pool" where
  "pool_mark i p = (case find_slot p i of None \<Rightarrow> p
     | Some r \<Rightarrow> write_slot r (set_flags (set_mark (flags (slot_header (slot_mem p r)))) (slot_mem p r)) p)"

definition pool_try_mark :: "object_id \<Rightarrow> cons_pool \<Rightarrow> (lispval \<times> lispval) option \<times> cons_pool" where
  "pool_try_mark i p = (case live_slot p i of
       None \<Rightarrow> (None, p)
     | Some r \<Rightarrow> let s = slot_mem p r in
         if slot_marked s then (None, p)
         else (Some (slot_cell s), write_slot r (set_flags (set_mark (flags (slot_header s))) s) p))"

definition sweep_at :: "slot_ptr \<Rightarrow> cons_pool \<times> nat \<Rightarrow> cons_pool \<times> nat" where
  "sweep_at r = (\<lambda>(p, freed). let s = slot_mem p r in
     if slot_allocated s \<and> \<not> slot_marked s then (push_free r p, freed + 1) else (p, freed))"

definition pool_sweep :: "cons_pool \<Rightarrow> cons_pool \<times> nat" where
  "pool_sweep p = fold sweep_at (all_ptrs p) (p, 0)"

text \<open>\<^verbatim>\<open>with_entry\<close> and \<^verbatim>\<open>for_each_live_entry\<close>: only the flags of a live slot can change.\<close>

definition pool_with_entry :: "object_id \<Rightarrow> (flags \<Rightarrow> flags) \<Rightarrow> cons_pool \<Rightarrow> bool \<times> cons_pool" where
  "pool_with_entry i f p = (case live_slot p i of
       None \<Rightarrow> (False, p)
     | Some r \<Rightarrow> (True, write_slot r (set_flags (f (flags (slot_header (slot_mem p r)))) (slot_mem p r)) p))"

record pool_stats =
  stats_capacity :: nat
  stats_live :: nat
  stats_free :: nat
  stats_bytes :: nat

definition CONS_SIZE :: nat where "CONS_SIZE = 16"

definition stats :: "cons_pool \<Rightarrow> pool_stats" where
  "stats p = \<lparr>stats_capacity = total_capacity p, stats_live = live_count p,
     stats_free = total_capacity p - live_count p, stats_bytes = live_count p * CONS_SIZE\<rparr>"

section \<open>Invariant\<close>

definition valid_ptr :: "cons_pool \<Rightarrow> slot_ptr \<Rightarrow> bool" where
  "valid_ptr p r \<longleftrightarrow> slab_no r < length (slabs p) \<and> slot_no r < slab_capacity (slabs p ! slab_no r)"

definition slab_end :: "slab \<Rightarrow> nat" where
  "slab_end sl = unat (slab_base sl) + slab_capacity sl"

text \<open>
  Slabs hold disjoint, increasing id ranges inside the payload range and below the counter;
  a slot's id is its position in its slab's range.
\<close>

definition slabs_ok :: "cons_pool \<Rightarrow> u64 \<Rightarrow> bool" where
  "slabs_ok p next \<longleftrightarrow>
     (\<forall>sl \<in> set (slabs p). 0 < slab_capacity sl \<and> slab_end sl \<le> unat PAYLOAD_MASK \<and> slab_end sl \<le> unat next) \<and>
     sorted_wrt (\<lambda>a b. slab_end a \<le> unat (slab_base b)) (slabs p) \<and>
     (\<forall>r. valid_ptr p r \<longrightarrow> slot_id (slot_mem p r) = slab_base (slabs p ! slab_no r) + of_nat (slot_no r))"

fun free_chain :: "(slot_ptr \<Rightarrow> cons_slot) \<Rightarrow> slot_ptr option \<Rightarrow> slot_ptr list \<Rightarrow> bool" where
  "free_chain m h [] \<longleftrightarrow> h = None"
| "free_chain m h (r # rs) \<longleftrightarrow> h = Some r \<and>
     (case slot_body (m r) of Next_free n \<Rightarrow> free_chain m n rs | Cell _ _ \<Rightarrow> False)"

definition free_slots :: "cons_pool \<Rightarrow> slot_ptr set" where
  "free_slots p = {r. valid_ptr p r \<and> \<not> slot_allocated (slot_mem p r)}"

definition live_slots :: "cons_pool \<Rightarrow> slot_ptr set" where
  "live_slots p = {r. valid_ptr p r \<and> slot_allocated (slot_mem p r)}"

definition pool_wf :: "cons_pool \<Rightarrow> u64 \<Rightarrow> bool" where
  "pool_wf p next \<longleftrightarrow> slabs_ok p next \<and>
     (\<exists>fl. free_chain (slot_mem p) (free_head p) fl \<and> distinct fl \<and> set fl = free_slots p) \<and>
     live_count p = card (live_slots p) \<and>
     total_capacity p = sum_list (map slab_capacity (slabs p)) \<and>
     (\<forall>r \<in> live_slots p. \<exists>a d. slot_body (slot_mem p r) = Cell a d)"

section \<open>Addresses and ids\<close>

lemma set_all_ptrs: "set (all_ptrs p) = {r. valid_ptr p r}"
proof (intro set_eqI)
  fix r
  show "r \<in> set (all_ptrs p) \<longleftrightarrow> r \<in> {r. valid_ptr p r}"
    by (cases r) (auto simp: all_ptrs_def slab_ptrs_def valid_ptr_def image_iff intro!: bexI)
qed

lemma distinct_all_ptrs: "distinct (all_ptrs p)"
proof -
  have "distinct (concat (map (\<lambda>n. slab_ptrs n (sl n)) [0..<k]))" for sl k
  proof (induction k)
    case (Suc k)
    have "distinct (slab_ptrs k (sl k))"
      by (simp add: slab_ptrs_def distinct_map inj_on_def)
    with Suc show ?case by (auto simp: slab_ptrs_def)
  qed simp
  then show ?thesis by (simp add: all_ptrs_def)
qed

lemma finite_valid: "finite {r. valid_ptr p r}"
  by (metis List.finite_set set_all_ptrs)

lemma finite_live_slots [simp]: "finite (live_slots p)"
  by (rule finite_subset [OF _ finite_valid [of p]]) (auto simp: live_slots_def)

lemma slot_id_unat:
  assumes "slab_end sl \<le> unat PAYLOAD_MASK" "k < slab_capacity sl"
  shows "unat (slab_base sl + of_nat k) = unat (slab_base sl) + k"
    "unat (slab_base sl + of_nat k) < slab_end sl"
proof -
  have "unat (slab_base sl) + k < 2 ^ 64"
    using assms by (simp add: slab_end_def PAYLOAD_MASK_def)
  then show "unat (slab_base sl + of_nat k) = unat (slab_base sl) + k"
    by (simp add: unat_word_ariths unat_of_nat)
  with assms show "unat (slab_base sl + of_nat k) < slab_end sl" by (simp add: slab_end_def)
qed

lemma in_slab_iff:
  assumes "slab_end sl \<le> unat PAYLOAD_MASK"
  shows "in_slab i sl \<longleftrightarrow> unat (slab_base sl) \<le> unat i \<and> unat i < slab_end sl"
proof -
  have "unat (slab_base sl) + slab_capacity sl < 2 ^ 64"
    using assms by (simp add: slab_end_def PAYLOAD_MASK_def)
  then have "unat (slab_base sl + of_nat (slab_capacity sl)) = slab_end sl"
    by (simp add: unat_word_ariths unat_of_nat slab_end_def)
  then show ?thesis by (simp add: in_slab_def word_le_nat_alt word_less_nat_alt)
qed

lemma find_slot_from_Some:
  "find_slot_from n sls i = Some (Slot m k) \<Longrightarrow>
   n \<le> m \<and> m - n < length sls \<and> in_slab i (sls ! (m - n)) \<and> k = unat (i - slab_base (sls ! (m - n)))"
proof (induction sls arbitrary: n)
  case (Cons sl sls)
  show ?case
  proof (cases "in_slab i sl")
    case False
    with Cons.prems Cons.IH [of "Suc n"] have "Suc n \<le> m \<and> m - Suc n < length sls \<and>
        in_slab i (sls ! (m - Suc n)) \<and> k = unat (i - slab_base (sls ! (m - Suc n)))" by simp
    then show ?thesis by (auto simp: nth_Cons' Suc_diff_Suc)
  qed (use Cons.prems in auto)
qed simp

lemma find_slot_from_None: "find_slot_from n sls i = None \<longleftrightarrow> (\<forall>sl \<in> set sls. \<not> in_slab i sl)"
  by (induction sls arbitrary: n) auto

lemma slabs_okD:
  assumes "slabs_ok p next" "n < length (slabs p)"
  shows "0 < slab_capacity (slabs p ! n)" "slab_end (slabs p ! n) \<le> unat PAYLOAD_MASK"
    "slab_end (slabs p ! n) \<le> unat next"
  using assms by (auto simp: slabs_ok_def)

lemma slabs_ok_ordered:
  assumes "slabs_ok p next" "m < n" "n < length (slabs p)"
  shows "slab_end (slabs p ! m) \<le> unat (slab_base (slabs p ! n))"
  using assms by (auto simp: slabs_ok_def dest: sorted_wrt_nth_less)

text \<open>\<^verbatim>\<open>find_slot\<close> finds exactly the slot that carries the id.\<close>

lemma find_slot_iff:
  assumes ok: "slabs_ok p next"
  shows "find_slot p i = Some r \<longleftrightarrow> valid_ptr p r \<and> slot_id (slot_mem p r) = i"
proof
  assume f: "find_slot p i = Some r"
  obtain m k where r: "r = Slot m k" by (cases r)
  have m: "m < length (slabs p)" and ins: "in_slab i (slabs p ! m)"
    and k: "k = unat (i - slab_base (slabs p ! m))"
    using find_slot_from_Some [of 0 "slabs p" i m k] f by (auto simp: find_slot_def r)
  note e = slabs_okD(2) [OF ok m]
  have "unat (slab_base (slabs p ! m)) \<le> unat i" "unat i < slab_end (slabs p ! m)"
    using ins in_slab_iff [OF e] by auto
  then have ki: "k = unat i - unat (slab_base (slabs p ! m))"
    and "k < slab_capacity (slabs p ! m)"
    by (auto simp: k unat_sub word_le_nat_alt slab_end_def)
  then have v: "valid_ptr p r" using m by (simp add: valid_ptr_def r)
  have "slab_base (slabs p ! m) + of_nat k = i" by (simp add: k)
  with ok v show "valid_ptr p r \<and> slot_id (slot_mem p r) = i" by (simp add: slabs_ok_def r)
next
  assume a: "valid_ptr p r \<and> slot_id (slot_mem p r) = i"
  obtain m k where r: "r = Slot m k" by (cases r)
  have m: "m < length (slabs p)" and k: "k < slab_capacity (slabs p ! m)"
    using a by (auto simp: valid_ptr_def r)
  have i: "i = slab_base (slabs p ! m) + of_nat k" using a ok by (auto simp: slabs_ok_def r)
  note e = slabs_okD(2) [OF ok m]
  note u = slot_id_unat [OF e k]
  have ins: "in_slab i (slabs p ! m)" using u in_slab_iff [OF e] by (simp add: i)
  then have "find_slot p i \<noteq> None"
    using m by (auto simp: find_slot_def find_slot_from_None)
  then obtain m' k' where f: "find_slot p i = Some (Slot m' k')" by (metis not_None_eq slot_ptr.exhaust)
  then have m': "m' < length (slabs p)" and ins': "in_slab i (slabs p ! m')"
    and k': "k' = unat (i - slab_base (slabs p ! m'))"
    using find_slot_from_Some [of 0 "slabs p" i m' k'] by (auto simp: find_slot_def)
  have "m' = m"
  proof (rule ccontr)
    assume "m' \<noteq> m"
    then consider "m' < m" | "m < m'" by linarith
    then show False
      using slabs_ok_ordered [OF ok, of m' m] slabs_ok_ordered [OF ok, of m m'] m m'
        in_slab_iff [OF slabs_okD(2) [OF ok m'], of i] in_slab_iff [OF e, of i] ins ins'
      by cases auto
  qed
  moreover have "k < 2 ^ 64" using e k by (simp add: slab_end_def PAYLOAD_MASK_def)
  ultimately have "k' = k" using k' by (simp add: i unat_of_nat)
  with f \<open>m' = m\<close> show "find_slot p i = Some r" by (simp add: r)
qed

lemma slot_id_inj:
  "slabs_ok p next \<Longrightarrow> valid_ptr p r \<Longrightarrow> valid_ptr p q \<Longrightarrow>
   slot_id (slot_mem p r) = slot_id (slot_mem p q) \<Longrightarrow> r = q"
  by (metis find_slot_iff option.inject)

lemma live_slot_iff:
  assumes "slabs_ok p next"
  shows "live_slot p i = Some r \<longleftrightarrow> r \<in> live_slots p \<and> slot_id (slot_mem p r) = i"
proof (cases "find_slot p i")
  case None
  with find_slot_iff [OF assms, of i r] show ?thesis by (simp add: live_slot_def live_slots_def)
next
  case (Some q)
  then have "valid_ptr p r \<and> slot_id (slot_mem p r) = i \<longleftrightarrow> q = r"
    and "valid_ptr p q \<and> slot_id (slot_mem p q) = i"
    using find_slot_iff [OF assms, of i r] find_slot_iff [OF assms, of i q] by simp_all
  then show ?thesis by (cases "q = r") (auto simp: live_slot_def Some live_slots_def)
qed

lemma pool_try_get_iff:
  "slabs_ok p next \<Longrightarrow> pool_try_get p i = Some c \<longleftrightarrow>
   (\<exists>r \<in> live_slots p. slot_id (slot_mem p r) = i \<and> slot_cell (slot_mem p r) = c)"
  by (auto simp: pool_try_get_def live_slot_iff)

lemma pool_try_get_None_iff:
  "slabs_ok p next \<Longrightarrow> pool_try_get p i = None \<longleftrightarrow> (\<forall>r \<in> live_slots p. slot_id (slot_mem p r) \<noteq> i)"
  by (metis (no_types, lifting) not_None_eq pool_try_get_iff)

lemma pool_try_get_owns: "pool_try_get p i = Some c \<Longrightarrow> owns p i"
  by (auto simp: pool_try_get_def live_slot_def owns_def split: option.splits)

text \<open>The live cells as a map from ids: what the rest of the runtime sees of the pool.\<close>

lemma pool_map_eqI:
  assumes "slabs_ok p next" "slabs_ok q next'"
    and "\<And>i c. (\<exists>r \<in> live_slots q. slot_id (slot_mem q r) = i \<and> slot_cell (slot_mem q r) = c)
      \<longleftrightarrow> m i = Some c"
  shows "pool_try_get q = m"
proof
  fix i
  have "pool_try_get q i = Some c \<longleftrightarrow> m i = Some c" for c
    using assms pool_try_get_iff by blast
  then show "pool_try_get q i = m i" by (metis not_None_eq)
qed

section \<open>Allocation\<close>

lemma write_slot_simps [simp]:
  "slabs (write_slot r s p) = slabs p" "free_head (write_slot r s p) = free_head p"
  "live_count (write_slot r s p) = live_count p" "total_capacity (write_slot r s p) = total_capacity p"
  "slot_mem (write_slot r s p) = (slot_mem p)(r := s)"
  "valid_ptr (write_slot r s p) = valid_ptr p"
  by (auto simp: write_slot_def valid_ptr_def)

lemma valid_ptr_upd [simp]:
  "valid_ptr (p\<lparr>free_head := h\<rparr>) = valid_ptr p" "valid_ptr (p\<lparr>live_count := n\<rparr>) = valid_ptr p"
  by (auto simp: valid_ptr_def)

lemma free_chain_frame:
  "r \<notin> set fl \<Longrightarrow> free_chain (m(r := s)) h fl = free_chain m h fl"
  by (induction fl arbitrary: h) (auto split: slot_body.splits)

lemma slabs_ok_write:
  "slabs_ok p next \<Longrightarrow> slot_id s = slot_id (slot_mem p r) \<Longrightarrow> slabs_ok (write_slot r s p) next"
  by (auto simp: slabs_ok_def)

lemma slabs_ok_upd [simp]:
  "slabs_ok (p\<lparr>free_head := h\<rparr>) = slabs_ok p" "slabs_ok (p\<lparr>live_count := n\<rparr>) = slabs_ok p"
  by (auto simp: slabs_ok_def fun_eq_iff)

lemma pool_wf_freeE:
  assumes "pool_wf p next" "free_head p = Some r"
  obtains n rs where "slot_body (slot_mem p r) = Next_free n" "free_chain (slot_mem p) n rs"
    "distinct (r # rs)" "set (r # rs) = free_slots p"
proof -
  from assms obtain fl where fl: "free_chain (slot_mem p) (free_head p) fl" "distinct fl"
    "set fl = free_slots p" by (auto simp: pool_wf_def)
  with assms(2) obtain rs where "fl = r # rs" by (cases fl) auto
  with fl assms(2) that show thesis by (auto split: slot_body.splits)
qed

lemma pool_wf_full: "pool_wf p next \<Longrightarrow> free_head p = None \<longleftrightarrow> free_slots p = {}"
proof -
  assume "pool_wf p next"
  then obtain fl where "free_chain (slot_mem p) (free_head p) fl" "set fl = free_slots p"
    by (auto simp: pool_wf_def)
  then show ?thesis by (cases fl) auto
qed

lemma pop_free_correct:
  assumes wf: "pool_wf p next" and h: "free_head p = Some r" and pop: "pop_free r a d p = (i, p')"
  shows "pool_wf p' next" "pool_try_get p i = None" "pool_try_get p' = (pool_try_get p)(i \<mapsto> (a, d))"
    "owns p i"
proof -
  obtain n rs where n: "slot_body (slot_mem p r) = Next_free n" and ch: "free_chain (slot_mem p) n rs"
    and dist: "distinct (r # rs)" and fr: "set (r # rs) = free_slots p"
    using wf h by (rule pool_wf_freeE)
  have ok: "slabs_ok p next" using wf by (simp add: pool_wf_def)
  from fr have vr: "valid_ptr p r" and nr: "\<not> slot_allocated (slot_mem p r)"
    by (auto simp: free_slots_def)
  let ?s = "slot_mem p r"
  let ?s' = "?s\<lparr>slot_header := \<lparr>kind = Cons_kind, flags = POOL_ALLOCATED_BIT\<rparr>, slot_body := Cell a d\<rparr>"
  have i: "i = slot_id ?s"
    and p': "p' = (write_slot r ?s' p)\<lparr>free_head := n, live_count := live_count p + 1\<rparr>"
    using pop n by (auto simp: pop_free_def Let_def)
  have ok': "slabs_ok p' next" using ok by (simp add: p' slabs_ok_write)
  have live': "live_slots p' = insert r (live_slots p)"
    using vr by (auto simp: live_slots_def p')
  have free': "free_slots p' = set rs"
    using fr dist vr nr by (auto simp: free_slots_def p')
  have "r \<notin> live_slots p" using nr by (simp add: live_slots_def)
  then show "pool_wf p' next"
    using wf ok' live' free' ch dist free_chain_frame [of r rs]
    by (auto simp: pool_wf_def p' intro!: exI [of _ rs])
  show None: "pool_try_get p i = None"
    using slot_id_inj [OF ok _ vr] \<open>r \<notin> live_slots p\<close>
    unfolding pool_try_get_None_iff [OF ok] i live_slots_def by blast
  show "pool_try_get p' = (pool_try_get p)(i \<mapsto> (a, d))"
    by (rule pool_map_eqI [OF ok ok'])
      (use None \<open>r \<notin> live_slots p\<close> in \<open>unfold live', auto simp: p' i slot_cell_def pool_try_get_iff [OF ok]
          pool_try_get_None_iff [OF ok]\<close>)
  show "owns p i" using find_slot_iff [OF ok] vr by (auto simp: owns_def i)
qed

lemma free_chain_upto:
  "free_chain m h [] \<Longrightarrow> (\<And>i. k \<le> i \<Longrightarrow> i < n \<Longrightarrow>
     slot_body (m (Slot b i)) = Next_free (if i + 1 < n then Some (Slot b (i + 1)) else h)) \<Longrightarrow>
   k < n \<Longrightarrow> free_chain m (Some (Slot b k)) (map (Slot b) [k..<n])"
proof (induction "n - k" arbitrary: k)
  case (Suc d)
  show ?case
  proof (cases "Suc k < n")
    case True
    with Suc have "free_chain m (Some (Slot b (Suc k))) (map (Slot b) [Suc k..<n])" by simp
    with Suc.prems(2) [of k] True Suc.prems(3) show ?thesis by (simp add: upt_conv_Cons)
  next
    case False
    with Suc.prems have "[k..<n] = [k]" by (simp add: upt_conv_Cons)
    with False Suc.prems show ?thesis by simp
  qed
qed simp

text \<open>
  Growing a full pool: every new slot is free, and the ids they carry are the range claimed
  from the counter.
\<close>

lemma grow_correct:
  assumes wf: "pool_wf p next" and full: "free_head p = None" and cap: "0 < c"
    and nowrap: "unat next + c < 2 ^ 64" and g: "grow c (p, next) = (True, p', next')"
  shows "pool_wf p' next'" "pool_try_get p' = pool_try_get p" "free_head p' \<noteq> None"
    "next' = next + of_nat c"
proof -
  let ?b = "length (slabs p)"
  let ?sl = "\<lparr>slab_capacity = c, slab_base = next\<rparr>"
  have le: "\<not> next + of_nat c > PAYLOAD_MASK" and n': "next' = next + of_nat c"
    and p': "p' = p\<lparr>slot_mem := (\<lambda>r. if slab_no r = ?b \<and> slot_no r < c
        then new_slot p next c (slot_no r) else slot_mem p r),
      free_head := Some (Slot ?b 0), total_capacity := total_capacity p + c, slabs := slabs p @ [?sl]\<rparr>"
    using g by (auto simp: grow_def Let_def split: if_splits)
  have un: "unat next' = unat next + c" using nowrap by (simp add: n' unat_word_ariths unat_of_nat)
  have e: "slab_end ?sl \<le> unat PAYLOAD_MASK" "slab_end ?sl = unat next'"
    using le un by (simp_all add: slab_end_def n' word_le_nat_alt not_less)
  have ok: "slabs_ok p next" using wf by (simp add: pool_wf_def)
  have valid': "valid_ptr p' r \<longleftrightarrow> valid_ptr p r \<or> (slab_no r = ?b \<and> slot_no r < c)" for r
    by (auto simp: valid_ptr_def p' nth_append)
  have old: "slab_no r \<noteq> ?b" if "valid_ptr p r" for r
    using that by (simp add: valid_ptr_def)
  have ok': "slabs_ok p' next'"
    using ok e un cap old valid'
    by (force simp: slabs_ok_def p' sorted_wrt_append nth_append valid_ptr_def new_slot_def)
  have live': "live_slots p' = live_slots p"
    using valid' old by (auto simp: live_slots_def p' new_slot_def)
  have mem': "slot_mem p' r = slot_mem p r" if "r \<in> live_slots p" for r
    using that old by (auto simp: live_slots_def p')
  have "free_slots p = {}" using pool_wf_full [OF wf] full by simp
  then have alloc: "slot_allocated (slot_mem p r)" if "valid_ptr p r" for r
    using that by (auto simp: free_slots_def)
  have free': "free_slots p' = Slot ?b ` {0..<c}"
  proof (intro set_eqI iffI)
    fix r assume r: "r \<in> free_slots p'"
    have "slab_no r = ?b \<and> slot_no r < c"
    proof (rule ccontr)
      assume n: "\<not> (slab_no r = ?b \<and> slot_no r < c)"
      with r valid' have "valid_ptr p r" by (simp add: free_slots_def)
      with alloc n r show False by (auto simp: free_slots_def p')
    qed
    then show "r \<in> Slot ?b ` {0..<c}" by (cases r) simp
  next
    fix r assume "r \<in> Slot ?b ` {0..<c}"
    then have "slab_no r = ?b \<and> slot_no r < c" by auto
    with valid' show "r \<in> free_slots p'" by (simp add: free_slots_def) (simp add: p' new_slot_def)
  qed
  have "free_chain (slot_mem p') (free_head p') (map (Slot ?b) [0..<c])"
    using free_chain_upto [of "slot_mem p'" None 0 c ?b] cap full by (simp add: p' new_slot_def)
  moreover have "distinct (map (Slot ?b) [0..<c])" by (simp add: distinct_map inj_on_def)
  moreover have "set (map (Slot ?b) [0..<c]) = free_slots p'" by (simp add: free')
  ultimately have "\<exists>fl. free_chain (slot_mem p') (free_head p') fl \<and> distinct fl \<and> set fl = free_slots p'"
    by blast
  moreover have "live_count p' = card (live_slots p')"
    using wf by (simp add: live', simp add: p' pool_wf_def)
  moreover have "total_capacity p' = sum_list (map slab_capacity (slabs p'))"
    using wf by (simp add: p' pool_wf_def)
  moreover have "\<exists>a d. slot_body (slot_mem p' r) = Cell a d" if "r \<in> live_slots p'" for r
    using wf that by (simp add: live' mem' pool_wf_def)
  ultimately show "pool_wf p' next'" using ok' by (simp add: pool_wf_def)
  show "pool_try_get p' = pool_try_get p"
    by (rule pool_map_eqI [OF ok ok']) (auto simp: live' mem' pool_try_get_iff [OF ok])
  show "free_head p' \<noteq> None" by (simp add: p')
  show "next' = next + of_nat c" by (rule n')
qed

lemma slabs_ok_mono: "slabs_ok p next \<Longrightarrow> unat next \<le> unat next' \<Longrightarrow> slabs_ok p next'"
  unfolding slabs_ok_def by fastforce

lemma pool_wf_mono: "pool_wf p next \<Longrightarrow> unat next \<le> unat next' \<Longrightarrow> pool_wf p next'"
  unfolding pool_wf_def using slabs_ok_mono by blast

text \<open>The number of slots the next growth would add.\<close>

definition growth :: "cons_pool \<Rightarrow> nat" where
  "growth p = (if total_capacity p > 0 then total_capacity p else 8192)"

lemma pool_alloc_ok:
  assumes wf: "pool_wf p next" and room: "unat next + growth p < 2 ^ 64"
    and al: "pool_alloc a d (p, next) = (Inr i, p', next')"
  shows "pool_wf p' next'" "pool_try_get p i = None" "pool_try_get p' = (pool_try_get p)(i \<mapsto> (a, d))"
    "owns p' i" "unat next \<le> unat next'"
proof -
  have "pool_wf p' next' \<and> pool_try_get p i = None \<and> pool_try_get p' = (pool_try_get p)(i \<mapsto> (a, d))
      \<and> owns p' i \<and> unat next \<le> unat next'"
  proof (cases "free_head p")
    case (Some r)
    obtain j q where pop: "pop_free r a d p = (j, q)" by (cases "pop_free r a d p")
    with Some al have "i = j" "p' = q" "next' = next" by (simp_all add: pool_alloc_def)
    then show ?thesis using pop_free_correct [OF wf Some pop] by (auto intro: pool_try_get_owns)
  next
    case None
    have c: "0 < growth p" by (simp add: growth_def)
    obtain b q n1 where g: "grow (growth p) (p, next) = (b, q, n1)" by (cases "grow (growth p) (p, next)")
    with None al have b: b by (cases b) (simp_all add: pool_alloc_def growth_def)
    with g have gt: "grow (growth p) (p, next) = (True, q, n1)" by simp
    note G = grow_correct [OF wf None c room gt]
    then obtain r where r: "free_head q = Some r" by auto
    obtain j q' where pop: "pop_free r a d q = (j, q')" by (cases "pop_free r a d q")
    have eq: "i = j" "p' = q'" "next' = n1"
      using al None gt r pop by (simp_all add: pool_alloc_def growth_def split: if_splits)
    have "unat n1 = unat next + growth p"
      using G(4) room by (simp add: unat_word_ariths unat_of_nat)
    then show ?thesis using pop_free_correct [OF G(1) r pop] G(2) eq
      by (auto intro: pool_try_get_owns)
  qed
  then show "pool_wf p' next'" "pool_try_get p i = None" "pool_try_get p' = (pool_try_get p)(i \<mapsto> (a, d))"
    "owns p' i" "unat next \<le> unat next'" by auto
qed

lemma pool_alloc_error:
  assumes wf: "pool_wf p next" and room: "unat next + growth p < 2 ^ 64"
    and al: "pool_alloc a d (p, next) = (Inl e, p', next')"
  shows "e = FailedToAllocateMemory" "p' = p" "pool_wf p' next'" "unat next \<le> unat next'"
    "free_head p = None" "next + of_nat (growth p) > PAYLOAD_MASK"
proof -
  have f: "free_head p = None" using al by (cases "free_head p") (auto simp: pool_alloc_def split: prod.splits)
  have c: "0 < growth p" by (simp add: growth_def)
  obtain b q n1 where g: "grow (growth p) (p, next) = (b, q, n1)" by (cases "grow (growth p) (p, next)")
  have "\<not> b"
  proof
    assume b
    with g have gt: "grow (growth p) (p, next) = (True, q, n1)" by simp
    from grow_correct(3) [OF wf f c room gt] al f gt show False
      by (auto simp: pool_alloc_def growth_def split: prod.splits if_splits)
  qed
  with g have q: "q = p" "n1 = next + of_nat (growth p)" "next + of_nat (growth p) > PAYLOAD_MASK"
    by (auto simp: grow_def Let_def split: if_splits)
  moreover have "e = FailedToAllocateMemory" "p' = q" "next' = n1"
    using al f g \<open>\<not> b\<close> by (auto simp: pool_alloc_def growth_def split: if_splits)
  moreover have "unat n1 = unat next + growth p"
    using q(2) room by (simp add: unat_word_ariths unat_of_nat)
  ultimately show "e = FailedToAllocateMemory" "p' = p" "pool_wf p' next'" "unat next \<le> unat next'"
    "free_head p = None" "next + of_nat (growth p) > PAYLOAD_MASK"
    using f pool_wf_mono [OF wf, of n1] by auto
qed

section \<open>Freeing\<close>

lemma push_free_correct:
  assumes wf: "pool_wf p next" and r: "r \<in> live_slots p"
  shows "pool_wf (push_free r p) next" "live_slots (push_free r p) = live_slots p - {r}"
    "\<And>q. q \<noteq> r \<Longrightarrow> slot_mem (push_free r p) q = slot_mem p q"
    "slot_id (slot_mem (push_free r p) r) = slot_id (slot_mem p r)"
    "slabs (push_free r p) = slabs p" "total_capacity (push_free r p) = total_capacity p"
proof -
  let ?p = "push_free r p"
  have ok: "slabs_ok p next" using wf by (simp add: pool_wf_def)
  from r have vr: "valid_ptr p r" and ar: "slot_allocated (slot_mem p r)" by (auto simp: live_slots_def)
  have ok': "slabs_ok ?p next" using ok by (simp add: push_free_def slabs_ok_write set_flags_def)
  show live': "live_slots ?p = live_slots p - {r}"
    by (auto simp: live_slots_def push_free_def set_flags_def split: if_splits)
  have free': "free_slots ?p = insert r (free_slots p)"
    using vr by (auto simp: free_slots_def push_free_def set_flags_def split: if_splits)
  obtain fl where fl: "free_chain (slot_mem p) (free_head p) fl" "distinct fl" "set fl = free_slots p"
    using wf by (auto simp: pool_wf_def)
  have "r \<notin> set fl" using fl(3) ar by (simp add: free_slots_def)
  then have "free_chain (slot_mem ?p) (free_head ?p) (r # fl) \<and> distinct (r # fl) \<and> set (r # fl) = free_slots ?p"
    using fl free' by (simp add: push_free_def free_chain_frame)
  then have "\<exists>fl. free_chain (slot_mem ?p) (free_head ?p) fl \<and> distinct fl \<and> set fl = free_slots ?p" by blast
  moreover have "live_count ?p = card (live_slots ?p)"
    using wf r by (simp add: live', simp add: push_free_def pool_wf_def)
  moreover have "total_capacity ?p = sum_list (map slab_capacity (slabs ?p))"
    using wf by (simp add: push_free_def pool_wf_def)
  moreover have "\<forall>q \<in> live_slots ?p. \<exists>a d. slot_body (slot_mem ?p q) = Cell a d"
    using wf by (simp add: live', simp add: push_free_def pool_wf_def)
  ultimately show "pool_wf ?p next" using ok' by (simp add: pool_wf_def)
qed (auto simp: push_free_def set_flags_def)

lemma free_slot_correct:
  assumes wf: "pool_wf p next"
  shows "pool_wf (free_slot i p) next" "pool_try_get (free_slot i p) = (pool_try_get p)(i := None)"
proof -
  have ok: "slabs_ok p next" using wf by (simp add: pool_wf_def)
  show wf': "pool_wf (free_slot i p) next"
    using wf push_free_correct(1) [OF wf] live_slot_iff [OF ok]
    by (auto simp: free_slot_def split: option.splits)
  show "pool_try_get (free_slot i p) = (pool_try_get p)(i := None)"
  proof (cases "live_slot p i")
    case None
    then show ?thesis by (auto simp: free_slot_def pool_try_get_def)
  next
    case (Some r)
    then have r: "r \<in> live_slots p" "slot_id (slot_mem p r) = i" using live_slot_iff [OF ok] by auto
    note P = push_free_correct [OF wf r(1)]
    have ok': "slabs_ok (push_free r p) next" using P(1) by (simp add: pool_wf_def)
    have ne: "slot_id (slot_mem p q) \<noteq> i" if "q \<in> live_slots p" "q \<noteq> r" for q
      using slot_id_inj [OF ok, of q r] that r by (auto simp: live_slots_def)
    have "pool_try_get (push_free r p) = (pool_try_get p)(i := None)"
    proof (rule pool_map_eqI [OF ok ok'])
      fix j c
      show "(\<exists>q \<in> live_slots (push_free r p). slot_id (slot_mem (push_free r p) q) = j \<and>
          slot_cell (slot_mem (push_free r p) q) = c) \<longleftrightarrow> ((pool_try_get p)(i := None)) j = Some c"
        using ne r by (auto simp: P(2,3) pool_try_get_iff [OF ok])
    qed
    with Some show ?thesis by (simp add: free_slot_def)
  qed
qed

section \<open>Marking and sweeping\<close>

definition pool_marked :: "cons_pool \<Rightarrow> object_id \<Rightarrow> bool" where
  "pool_marked p i = (case live_slot p i of None \<Rightarrow> False | Some r \<Rightarrow> slot_marked (slot_mem p r))"

lemma pool_marked_iff:
  assumes ok: "slabs_ok p next"
  shows "pool_marked p i \<longleftrightarrow>
   (\<exists>r \<in> live_slots p. slot_id (slot_mem p r) = i \<and> slot_marked (slot_mem p r))"
proof (cases "live_slot p i")
  case None
  then have "\<not> (r \<in> live_slots p \<and> slot_id (slot_mem p r) = i)" for r
    using live_slot_iff [OF ok, of i r] by simp
  with None show ?thesis by (auto simp: pool_marked_def)
next
  case (Some q)
  then have "r \<in> live_slots p \<and> slot_id (slot_mem p r) = i \<longleftrightarrow> r = q" for r
    using live_slot_iff [OF ok, of i r] by auto
  then have "(\<exists>r \<in> live_slots p. slot_id (slot_mem p r) = i \<and> slot_marked (slot_mem p r)) \<longleftrightarrow>
      slot_marked (slot_mem p q)"
    unfolding Bex_def conj_assoc [symmetric] by simp
  with Some show ?thesis by (simp add: pool_marked_def)
qed

lemma pool_marked_live: "pool_marked p i \<Longrightarrow> pool_try_get p i \<noteq> None"
  by (auto simp: pool_marked_def pool_try_get_def split: option.splits)

text \<open>Rewriting the flags of a live slot without freeing it: the cells stay, one mark changes.\<close>

lemma flag_write_correct:
  assumes wf: "pool_wf p next" and r: "r \<in> live_slots p" and f: "is_allocated_flag f"
  defines "q \<equiv> write_slot r (set_flags f (slot_mem p r)) p"
  shows "pool_wf q next" "pool_try_get q = pool_try_get p" "live_slots q = live_slots p"
    "pool_marked q = (pool_marked p)(slot_id (slot_mem p r) := is_marked_flag f)"
    "find_slot q = find_slot p"
proof -
  have ok: "slabs_ok p next" using wf by (simp add: pool_wf_def)
  have m: "slot_body (slot_mem q x) = slot_body (slot_mem p x)"
    "slot_id (slot_mem q x) = slot_id (slot_mem p x)" for x
    by (auto simp: q_def set_flags_def)
  have sl: "slabs q = slabs p" by (simp add: q_def)
  have v: "valid_ptr q = valid_ptr p" by (simp add: q_def)
  have ok': "slabs_ok q next" unfolding q_def by (rule slabs_ok_write [OF ok]) (simp add: set_flags_def)
  show live: "live_slots q = live_slots p"
    using r f by (auto simp: live_slots_def q_def set_flags_def split: if_splits)
  have free: "free_slots q = free_slots p"
    using r f by (auto simp: live_slots_def free_slots_def q_def set_flags_def split: if_splits)
  have "free_chain (slot_mem q) h fl = free_chain (slot_mem p) h fl" for h fl
    by (induction fl arbitrary: h) (auto simp: m split: slot_body.splits)
  then show "pool_wf q next"
    using wf ok' live free m sl by (simp add: pool_wf_def, simp add: q_def)
  have c: "slot_cell (slot_mem q x) = slot_cell (slot_mem p x)" for x by (simp add: slot_cell_def m)
  show "pool_try_get q = pool_try_get p"
    by (rule pool_map_eqI [OF ok ok']) (simp add: live m c pool_try_get_iff [OF ok])
  show "find_slot q = find_slot p" by (simp add: fun_eq_iff find_slot_def sl)
  show "pool_marked q = (pool_marked p)(slot_id (slot_mem p r) := is_marked_flag f)"
  proof
    fix i
    have same: "x = r" if "x \<in> live_slots p" "slot_id (slot_mem p x) = slot_id (slot_mem p r)" for x
      using slot_id_inj [OF ok] that r by (auto simp: live_slots_def)
    have fr: "slot_marked (slot_mem q x) = (if x = r then is_marked_flag f else slot_marked (slot_mem p x))" for x
      by (simp add: q_def set_flags_def)
    show "pool_marked q i = ((pool_marked p)(slot_id (slot_mem p r) := is_marked_flag f)) i"
    proof (cases "i = slot_id (slot_mem p r)")
      case True
      then show ?thesis
        unfolding pool_marked_iff [OF ok'] live m fr using same r by auto
    next
      case False
      then show ?thesis
        unfolding pool_marked_iff [OF ok'] live m fr fun_upd_apply pool_marked_iff [OF ok]
        using same r by (metis (full_types))
    qed
  qed
qed

lemma pool_try_mark_Some:
  assumes wf: "pool_wf p next" and t: "pool_try_mark i p = (Some c, p')"
  shows "pool_wf p' next" "pool_try_get p' = pool_try_get p" "pool_try_get p i = Some c"
    "\<not> pool_marked p i" "pool_marked p' = (pool_marked p)(i := True)" "find_slot p' = find_slot p"
proof -
  have ok: "slabs_ok p next" using wf by (simp add: pool_wf_def)
  obtain r where l: "live_slot p i = Some r" and nm: "\<not> slot_marked (slot_mem p r)"
    and c: "c = slot_cell (slot_mem p r)"
    and p': "p' = write_slot r (set_flags (set_mark (flags (slot_header (slot_mem p r)))) (slot_mem p r)) p"
    using t by (auto simp: pool_try_mark_def Let_def split: option.splits if_splits)
  have r: "r \<in> live_slots p" "slot_id (slot_mem p r) = i" using l live_slot_iff [OF ok] by auto
  then have "is_allocated_flag (set_mark (flags (slot_header (slot_mem p r))))"
    by (simp add: live_slots_def)
  note F = flag_write_correct [OF wf r(1) this, folded p']
  show "pool_wf p' next" "pool_try_get p' = pool_try_get p" "find_slot p' = find_slot p" by (fact F)+
  show "pool_marked p' = (pool_marked p)(i := True)" using F(4) r(2) by simp
  show "pool_try_get p i = Some c" by (simp add: pool_try_get_def l c)
  show "\<not> pool_marked p i" by (simp add: pool_marked_def l nm)
qed

lemma pool_try_mark_None:
  "pool_try_mark i p = (None, p') \<Longrightarrow> p' = p \<and> (pool_try_get p i = None \<or> pool_marked p i)"
  by (auto simp: pool_try_mark_def pool_try_get_def pool_marked_def Let_def split: option.splits if_splits)

text \<open>The dense walks, as folds over distinct addresses.\<close>

lemma clear_mark_fold:
  assumes "pool_wf p next" "q = fold clear_mark_at rs p" "\<forall>r \<in> set rs. valid_ptr p r"
  shows "pool_wf q next \<and> pool_try_get q = pool_try_get p \<and> find_slot q = find_slot p \<and>
    (\<forall>i. pool_marked q i \<longleftrightarrow> pool_marked p i \<and> i \<notin> (\<lambda>r. slot_id (slot_mem p r)) ` set rs)"
  using assms
proof (induction rs arbitrary: p)
  case (Cons r rs)
  have ok: "slabs_ok p next" using Cons.prems by (simp add: pool_wf_def)
  show ?case
  proof (cases "slot_allocated (slot_mem p r)")
    case True
    then have r: "r \<in> live_slots p" using Cons.prems by (simp add: live_slots_def)
    let ?p = "clear_mark_at r p"
    have p': "?p = write_slot r (set_flags (clear_mark (flags (slot_header (slot_mem p r)))) (slot_mem p r)) p"
      using True by (simp add: clear_mark_at_def Let_def)
    have "is_allocated_flag (clear_mark (flags (slot_header (slot_mem p r))))" using True by simp
    note F = flag_write_correct [OF Cons.prems(1) r this, folded p']
    have id: "slot_id (slot_mem ?p x) = slot_id (slot_mem p x)" for x by (simp add: p' set_flags_def)
    have "valid_ptr ?p = valid_ptr p" by (simp add: p')
    with Cons.IH [OF F(1)] Cons.prems F id show ?thesis by auto
  next
    case False
    then have eq: "clear_mark_at r p = p" by (simp add: clear_mark_at_def Let_def)
    have "\<not> pool_marked p (slot_id (slot_mem p r))"
      using False slot_id_inj [OF ok, of r] Cons.prems(3)
      by (auto simp: pool_marked_iff [OF ok] live_slots_def) metis
    with eq Cons.IH [OF Cons.prems(1)] Cons.prems show ?thesis by auto
  qed
qed simp

lemma pool_clear_marks_correct:
  assumes "pool_wf p next"
  shows "pool_wf (pool_clear_marks p) next" "pool_try_get (pool_clear_marks p) = pool_try_get p"
    "\<not> pool_marked (pool_clear_marks p) i" "find_slot (pool_clear_marks p) = find_slot p"
proof -
  have ok: "slabs_ok p next" using assms by (simp add: pool_wf_def)
  note F = clear_mark_fold [OF assms refl, of "all_ptrs p", folded pool_clear_marks_def, simplified set_all_ptrs]
  then show "pool_wf (pool_clear_marks p) next" "pool_try_get (pool_clear_marks p) = pool_try_get p"
    "find_slot (pool_clear_marks p) = find_slot p" by auto
  show "\<not> pool_marked (pool_clear_marks p) i"
    using F by (auto simp: pool_marked_iff [OF ok] live_slots_def)
qed

definition dead_slots :: "cons_pool \<Rightarrow> slot_ptr list \<Rightarrow> slot_ptr set" where
  "dead_slots p rs = {r \<in> set rs. r \<in> live_slots p \<and> \<not> slot_marked (slot_mem p r)}"

lemma sweep_fold:
  assumes "pool_wf p next" "distinct rs" "\<forall>r \<in> set rs. valid_ptr p r" "fold sweep_at rs (p, n) = (q, m)"
  shows "pool_wf q next \<and> live_slots q = live_slots p - dead_slots p rs \<and>
    (\<forall>r \<in> live_slots q. slot_mem q r = slot_mem p r) \<and> slabs q = slabs p \<and>
    total_capacity q = total_capacity p \<and> m = n + card (dead_slots p rs)"
  using assms
proof (induction rs arbitrary: p n)
  case Nil
  then show ?case by (simp add: dead_slots_def)
next
  case (Cons r rs)
  show ?case
  proof (cases "slot_allocated (slot_mem p r) \<and> \<not> slot_marked (slot_mem p r)")
    case True
    then have r: "r \<in> live_slots p" using Cons.prems by (simp add: live_slots_def)
    note P = push_free_correct [OF Cons.prems(1) r]
    have v: "valid_ptr (push_free r p) = valid_ptr p" using P(5) by (simp add: valid_ptr_def fun_eq_iff)
    have st: "fold sweep_at rs (push_free r p, n + 1) = (q, m)"
      using Cons.prems(4) True unfolding fold.simps comp_def by (simp add: sweep_at_def [of r] Let_def)
    have d: "dead_slots (push_free r p) rs = dead_slots p rs"
      using P(2,3) Cons.prems(2) by (auto simp: dead_slots_def) metis+
    have d': "dead_slots p (r # rs) = insert r (dead_slots p rs)" "r \<notin> dead_slots p rs" "finite (dead_slots p rs)"
      using True r Cons.prems(2) by (auto simp: dead_slots_def)
    have "pool_wf q next \<and> live_slots q = live_slots p - {r} - dead_slots p rs \<and>
      (\<forall>x \<in> live_slots q. slot_mem q x = slot_mem (push_free r p) x) \<and> slabs q = slabs p \<and>
      total_capacity q = total_capacity p \<and> m = n + 1 + card (dead_slots p rs)"
      using Cons.IH [OF P(1) _ _ st] Cons.prems v d P by simp
    then show ?thesis using d' P(3) by auto
  next
    case False
    then have "sweep_at r (p, n) = (p, n)" "dead_slots p (r # rs) = dead_slots p rs"
      by (auto simp: sweep_at_def Let_def dead_slots_def live_slots_def)
    with Cons.IH [OF Cons.prems(1)] Cons.prems show ?thesis by simp
  qed
qed

text \<open>A sweep keeps exactly the marked cells and reports how many it freed.\<close>

lemma pool_sweep_correct:
  assumes wf: "pool_wf p next" and sw: "pool_sweep p = (q, freed)"
  shows "pool_wf q next" "pool_try_get q i = (if pool_marked p i then pool_try_get p i else None)"
    "freed = live_count p - live_count q" "live_count q \<le> live_count p" "find_slot q = find_slot p"
proof -
  have ok: "slabs_ok p next" using wf by (simp add: pool_wf_def)
  note F = sweep_fold [OF wf distinct_all_ptrs _ sw [unfolded pool_sweep_def], unfolded set_all_ptrs, simplified]
  then show wf': "pool_wf q next" and "find_slot q = find_slot p" by (auto simp: find_slot_def fun_eq_iff)
  have ok': "slabs_ok q next" using wf' by (simp add: pool_wf_def)
  have d: "dead_slots p (all_ptrs p) \<subseteq> live_slots p" by (auto simp: dead_slots_def)
  have "card (live_slots q) = card (live_slots p) - card (dead_slots p (all_ptrs p))"
    using F card_Diff_subset [OF finite_subset [OF d finite_live_slots] d] by simp
  moreover have "card (dead_slots p (all_ptrs p)) \<le> card (live_slots p)"
    by (rule card_mono [OF finite_live_slots d])
  ultimately show "freed = live_count p - live_count q" "live_count q \<le> live_count p"
    using F wf wf' by (auto simp: pool_wf_def)
  have live: "live_slots q = {r \<in> live_slots p. slot_marked (slot_mem p r)}"
    using F by (auto simp: dead_slots_def set_all_ptrs live_slots_def)
  have "pool_try_get q = (\<lambda>i. if pool_marked p i then pool_try_get p i else None)"
  proof (rule pool_map_eqI [OF ok ok'])
    fix i c
    have same: "slot_mem q r = slot_mem p r" if "r \<in> live_slots q" for r using F that by blast
    have "(\<exists>r \<in> live_slots q. slot_id (slot_mem q r) = i \<and> slot_cell (slot_mem q r) = c) \<longleftrightarrow>
        (\<exists>r \<in> live_slots p. slot_marked (slot_mem p r) \<and> slot_id (slot_mem p r) = i \<and> slot_cell (slot_mem p r) = c)"
      using same unfolding live by auto
    also have "\<dots> \<longleftrightarrow> pool_marked p i \<and> pool_try_get p i = Some c"
      unfolding pool_marked_iff [OF ok] pool_try_get_iff [OF ok]
      using slot_id_inj [OF ok] by (auto simp: live_slots_def)
    finally show "(\<exists>r \<in> live_slots q. slot_id (slot_mem q r) = i \<and> slot_cell (slot_mem q r) = c) \<longleftrightarrow>
        (if pool_marked p i then pool_try_get p i else None) = Some c" by simp
  qed
  then show "pool_try_get q i = (if pool_marked p i then pool_try_get p i else None)" by simp
qed


section \<open>The pool as a store\<close>

text \<open>\<^verbatim>\<open>mark\<close> on a live slot; the code calls it on live ids only.\<close>

lemma pool_mark_correct:
  assumes wf: "pool_wf p next" and live: "pool_try_get p i \<noteq> None"
  shows "pool_wf (pool_mark i p) next" "pool_try_get (pool_mark i p) = pool_try_get p"
    "pool_marked (pool_mark i p) = (pool_marked p)(i := True)"
proof -
  have ok: "slabs_ok p next" using wf by (simp add: pool_wf_def)
  obtain r where l: "live_slot p i = Some r" using live by (auto simp: pool_try_get_def)
  then have f: "find_slot p i = Some r" by (auto simp: live_slot_def split: option.splits if_splits)
  have r: "r \<in> live_slots p" "slot_id (slot_mem p r) = i" using l live_slot_iff [OF ok] by auto
  then have "is_allocated_flag (set_mark (flags (slot_header (slot_mem p r))))"
    by (simp add: live_slots_def)
  note F = flag_write_correct [OF wf r(1) this]
  show "pool_wf (pool_mark i p) next" "pool_try_get (pool_mark i p) = pool_try_get p"
    using F f by (simp_all add: pool_mark_def)
  show "pool_marked (pool_mark i p) = (pool_marked p)(i := True)"
    using F(4) f r(2) by (simp add: pool_mark_def)
qed

interpretation pool_store: marked_store "\<lambda>p. pool_wf p next" pool_try_get free_slot pool_marked pool_mark for "next"
  by unfold_locales (simp_all add: free_slot_correct pool_mark_correct pool_marked_live)

definition pool_room :: "cons_pool \<times> u64 \<Rightarrow> bool" where
  "pool_room = (\<lambda>(p, next). unat next + growth p < 2 ^ 64)"

interpretation pool_allocator: allocator "\<lambda>(p, next). pool_wf p next" "\<lambda>(p, next). pool_try_get p"
    pool_room "\<lambda>(a, d). pool_alloc a d"
proof unfold_locales
  fix s s' :: "cons_pool \<times> u64" and ob i
  assume a: "case s of (p, next) \<Rightarrow> pool_wf p next" "pool_room s" "(case ob of (a, d) \<Rightarrow> pool_alloc a d) s = (Inr i, s')"
  obtain p "next" p' next' a d where "s = (p, next)" "s' = (p', next')" "ob = (a, d)"
    by (cases s, cases s', cases ob)
  then show "(case s' of (p, next) \<Rightarrow> pool_wf p next) \<and> (case s of (p, next) \<Rightarrow> pool_try_get p) i = None \<and>
      (case s' of (p, next) \<Rightarrow> pool_try_get p) = (case s of (p, next) \<Rightarrow> pool_try_get p)(i \<mapsto> ob)"
    using pool_alloc_ok [of p "next" a d i p' next'] a by (simp add: pool_room_def)
next
  fix s s' :: "cons_pool \<times> u64" and ob e
  assume a: "case s of (p, next) \<Rightarrow> pool_wf p next" "pool_room s" "(case ob of (a, d) \<Rightarrow> pool_alloc a d) s = (Inl e, s')"
  obtain p "next" p' next' a d where "s = (p, next)" "s' = (p', next')" "ob = (a, d)"
    by (cases s, cases s', cases ob)
  then show "(case s' of (p, next) \<Rightarrow> pool_wf p next) \<and>
      (case s' of (p, next) \<Rightarrow> pool_try_get p) = (case s of (p, next) \<Rightarrow> pool_try_get p)"
    using pool_alloc_error [of p "next" a d e p' next'] a by (simp add: pool_room_def)
qed

text \<open>Ids handed out by the pool come from the ranges it claimed.\<close>

lemma owns_below: "slabs_ok p next \<Longrightarrow> owns p i \<Longrightarrow> unat i < unat next"
proof -
  assume ok: "slabs_ok p next" and "owns p i"
  then obtain r where "find_slot p i = Some r" by (auto simp: owns_def)
  then have v: "valid_ptr p r" and i: "slot_id (slot_mem p r) = i" using find_slot_iff [OF ok] by auto
  then have n: "slab_no r < length (slabs p)" "slot_no r < slab_capacity (slabs p ! slab_no r)"
    by (auto simp: valid_ptr_def)
  have "i = slab_base (slabs p ! slab_no r) + of_nat (slot_no r)" using ok v i by (auto simp: slabs_ok_def)
  then show "unat i < unat next"
    using slot_id_unat(2) [OF slabs_okD(2) [OF ok n(1)] n(2)] slabs_okD(3) [OF ok n(1)] by simp
qed

lemma grow_owns:
  assumes "unat next + c < 2 ^ 64" "unat i < unat next" "grow c (p, next) = (b, p', next')"
  shows "owns p' i = owns p i"
proof (cases b)
  case True
  have "find_slot_from n (sls @ [sl]) i =
      (case find_slot_from n sls i of Some r \<Rightarrow> Some r
       | None \<Rightarrow> if in_slab i sl then Some (Slot (n + length sls) (unat (i - slab_base sl))) else None)" for n sls sl
    by (induction sls arbitrary: n) (auto split: option.splits)
  moreover have "\<not> in_slab i \<lparr>slab_capacity = c, slab_base = next\<rparr>"
    using assms(2) by (simp add: in_slab_def word_le_nat_alt)
  ultimately have "find_slot p' i = find_slot p i"
    using assms(3) True by (auto simp: find_slot_def grow_def Let_def split: if_splits option.splits)
  then show ?thesis by (simp add: owns_def)
next
  case False
  then show ?thesis using assms(3) by (auto simp: grow_def Let_def split: if_splits)
qed

lemma pop_free_owns: "pop_free r a d p = (j, p') \<Longrightarrow> owns p' i = owns p i"
  by (auto simp: pop_free_def Let_def owns_def find_slot_def)

lemma pool_alloc_owns:
  assumes "unat next + growth p < 2 ^ 64" "unat i < unat next" "pool_alloc a d (p, next) = (res, p', next')"
  shows "owns p' i = owns p i"
proof (cases "free_head p")
  case (Some r)
  then show ?thesis using assms(3) pop_free_owns by (fastforce simp: pool_alloc_def split: prod.splits)
next
  case None
  obtain b q n1 where g: "grow (growth p) (p, next) = (b, q, n1)" by (cases "grow (growth p) (p, next)")
  then have "owns q i = owns p i" using assms grow_owns by blast
  then show ?thesis using None assms(3) g pop_free_owns [of _ a d q _ p' i]
    by (auto simp: pool_alloc_def growth_def split: prod.splits if_splits bool.splits option.splits)
qed

lemma free_slot_owns [simp]: "owns (free_slot i p) j = owns p j"
  by (auto simp: free_slot_def push_free_def owns_def find_slot_def split: option.splits)

lemma free_slot_count:
  assumes "pool_wf p next" "pool_try_get p i \<noteq> None"
  shows "live_count p = live_count (free_slot i p) + 1"
proof -
  have ok: "slabs_ok p next" using assms by (simp add: pool_wf_def)
  obtain r where l: "live_slot p i = Some r" using assms(2) by (auto simp: pool_try_get_def)
  then have "r \<in> live_slots p" using live_slot_iff [OF ok] by auto
  then have "0 < card (live_slots p)" by (auto simp: card_gt_0_iff)
  with assms(1) l show ?thesis by (simp add: free_slot_def push_free_def pool_wf_def)
qed

lemma free_slot_marked:
  assumes wf: "pool_wf p next"
  shows "pool_marked (free_slot i p) = (pool_marked p)(i := False)"
proof (cases "live_slot p i")
  case None
  then show ?thesis by (simp add: free_slot_def fun_eq_iff pool_marked_def)
next
  case (Some r)
  have ok: "slabs_ok p next" using wf by (simp add: pool_wf_def)
  have r: "r \<in> live_slots p" "slot_id (slot_mem p r) = i" using Some live_slot_iff [OF ok] by auto
  note P = push_free_correct [OF wf r(1)]
  have ok': "slabs_ok (push_free r p) next" using P(1) by (simp add: pool_wf_def)
  have "slot_id (slot_mem p q) \<noteq> i" if "q \<in> live_slots p" "q \<noteq> r" for q
    using slot_id_inj [OF ok, of q r] that r by (auto simp: live_slots_def)
  then have "pool_marked (push_free r p) j = ((pool_marked p)(i := False)) j" for j
    unfolding pool_marked_iff [OF ok'] fun_upd_apply pool_marked_iff [OF ok] P(2)
    using P(3) r by auto
  with Some show ?thesis by (simp add: free_slot_def fun_eq_iff)
qed

lemma pool_alloc_count:
  assumes "pool_wf p next" "unat next + growth p < 2 ^ 64" "pool_alloc a d (p, next) = (Inr i, p', next')"
  shows "live_count p' = live_count p + 1"
  using assms(3) by (auto simp: pool_alloc_def pop_free_def grow_def Let_def split: option.splits prod.splits if_splits bool.splits)


section \<open>Properties\<close>

text \<open>Allocating a cons cell either returns an id no live cell has and adds exactly that
  cell, growing the pool when the free list is empty, or fails because the new id range would
  leave the payload range, and then changes nothing.\<close>

theorem pool_alloc_fresh:
  assumes "pool_wf p next" "unat next + growth p < 2 ^ 64"
  shows "case pool_alloc a d (p, next) of
      (Inr i, p', next') \<Rightarrow> pool_wf p' next' \<and> pool_try_get p i = None \<and> pool_try_get p' = (pool_try_get p)(i \<mapsto> (a, d))
    | (Inl e, p', next') \<Rightarrow> e = FailedToAllocateMemory \<and> p' = p \<and> free_head p = None \<and>
        next + of_nat (growth p) > PAYLOAD_MASK \<and> pool_wf p next'"
proof -
  obtain r p' n where al: "pool_alloc a d (p, next) = (r, p', n)" by (cases "pool_alloc a d (p, next)")
  show ?thesis
  proof (cases r)
    case (Inl e)
    with pool_alloc_error [OF assms, of a d e p' n] al show ?thesis by simp
  next
    case (Inr i)
    with pool_alloc_ok [OF assms, of a d i p' n] al show ?thesis by simp
  qed
qed

text \<open>A pool of two slots, the first allocated and marked, the second allocated.\<close>

definition sample_pool0 :: "cons_pool \<times> u64" where "sample_pool0 = snd (grow 2 (empty_pool, 1))"
definition sample_pool1 :: "cons_pool \<times> u64" where "sample_pool1 = snd (pool_alloc 5 6 sample_pool0)"
definition sample_pool2 :: "cons_pool \<times> u64" where "sample_pool2 = snd (pool_alloc 7 8 sample_pool1)"
definition sample_pool3 :: cons_pool where "sample_pool3 = snd (pool_try_mark 1 (fst sample_pool2))"

lemma empty_pool_wf: "pool_wf empty_pool n"
  by (auto simp: pool_wf_def slabs_ok_def empty_pool_def valid_ptr_def free_slots_def live_slots_def
      intro!: exI [of _ "[]"])

lemma sample_pools_wf:
  "pool_wf (fst sample_pool0) (snd sample_pool0)" "growth (fst sample_pool0) = 2" "snd sample_pool0 = 3"
  "pool_wf (fst sample_pool2) 3" "pool_wf sample_pool3 3"
proof -
  have g: "grow 2 (empty_pool, 1) = (True, sample_pool0)"
  proof -
    have "fst (grow 2 (empty_pool, 1))" by code_simp
    then show ?thesis by (cases "grow 2 (empty_pool, 1)") (simp add: sample_pool0_def)
  qed
  have f: "free_head empty_pool = None" by (simp add: empty_pool_def)
  show 0: "pool_wf (fst sample_pool0) (snd sample_pool0)"
    using grow_correct(1) [OF empty_pool_wf f, of 2 1 "fst sample_pool0" "snd sample_pool0"] g by simp
  show gr: "growth (fst sample_pool0) = 2" and n: "snd sample_pool0 = 3" by code_simp+
  have inv: "pool_wf (fst (snd (pool_alloc a d s))) (snd (snd (pool_alloc a d s)))"
    if "pool_wf (fst s) (snd s)" "snd s = 3" "growth (fst s) = 2" for a d s
    using pool_allocator.alloc_inv [of s "(a, d)"] that by (simp add: case_prod_beta pool_room_def)
  have 1: "pool_wf (fst sample_pool1) (snd sample_pool1)" unfolding sample_pool1_def by (rule inv [OF 0 n gr])
  have "growth (fst sample_pool1) = 2" "snd sample_pool1 = 3" by code_simp+
  then have 2: "pool_wf (fst sample_pool2) (snd sample_pool2)" unfolding sample_pool2_def by (intro inv [OF 1])
  have "snd sample_pool2 = 3" by code_simp
  with 2 show 2: "pool_wf (fst sample_pool2) 3" by simp
  have "fst (pool_try_mark 1 (fst sample_pool2)) = Some (5, 6)" by code_simp
  then have "pool_try_mark 1 (fst sample_pool2) = (Some (5, 6), sample_pool3)"
    by (cases "pool_try_mark 1 (fst sample_pool2)") (simp add: sample_pool3_def)
  then show "pool_wf sample_pool3 3" by (rule pool_try_mark_Some(1) [OF 2])
qed

theorem pool_alloc_fresh_witness:
  "pool_try_get (fst sample_pool0) 1 = None \<and>
   pool_try_get (fst (snd (pool_alloc 5 6 sample_pool0))) 1 = Some (5, 6)"
proof -
  have r: "unat (snd sample_pool0) + growth (fst sample_pool0) < 2 ^ 64"
    using sample_pools_wf(2,3) by simp
  have "fst (pool_alloc 5 6 sample_pool0) = Inr 1" by code_simp
  then show ?thesis using pool_alloc_fresh [OF sample_pools_wf(1) r, of 5 6]
    by (cases "pool_alloc 5 6 sample_pool0") auto
qed

text \<open>C11: A sweep of the pool keeps exactly the marked cells, unchanged, returns every other
  slot to the free list, and reports how many cells it freed.\<close>

theorem pool_sweep_exact:
  assumes "pool_wf p next"
  shows "pool_wf (fst (pool_sweep p)) next \<and>
    pool_try_get (fst (pool_sweep p)) = (\<lambda>i. if pool_marked p i then pool_try_get p i else None) \<and>
    snd (pool_sweep p) + live_count (fst (pool_sweep p)) = live_count p"
  using pool_sweep_correct [OF assms prod.collapse [symmetric]] by (simp add: fun_eq_iff)

theorem pool_sweep_exact_witness:
  "snd (pool_sweep sample_pool3) = 1 \<and> pool_try_get (fst (pool_sweep sample_pool3)) 1 = Some (5, 6) \<and>
   pool_try_get (fst (pool_sweep sample_pool3)) 2 = None"
proof -
  have "pool_marked sample_pool3 1" "\<not> pool_marked sample_pool3 2" "pool_try_get sample_pool3 1 = Some (5, 6)"
    "snd (pool_sweep sample_pool3) = 1" by code_simp+
  with pool_sweep_exact [OF sample_pools_wf(5)] show ?thesis by (simp add: fun_eq_iff)
qed

end
