(* ===== verification/Heap.thy ===== *)
theory Heap
  imports ConsPool "HOL-Library.AList"
begin

text \<open>
  The runtime heap, \<^verbatim>\<open>eta/core/src/eta/runtime/memory/heap.h\<close> and \<^verbatim>\<open>heap.cpp\<close>: sixteen
  shards of entries plus the cons pool, one id counter, byte accounting with a soft limit,
  finalizers, guardians and external roots. Every operation runs to completion; the locks and
  atomics of the code are not modelled here.

  The array of shards is a function of which the indices below \<open>NUM_SHARDS\<close> are used. A hash table of the code is an association list whose order is the table's iteration order.
  Byte counts are natural numbers. Two things the code does not decide are arguments: whether
  \<^verbatim>\<open>operator new\<close> and the payload's constructor succeed, and the collection callback.
\<close>

section \<open>State\<close>

record heap_entry =
  entry_header :: obj_header
  entry_ptr :: "heap_obj option"
  entry_size :: nat

record shard =
  heap_objects :: "(object_id \<times> heap_entry) list"
  num_objects :: nat
  heap_bytes :: nat

type_synonym relation = "(object_id \<times> object_id list) list"

record heap =
  shards :: "nat \<Rightarrow> shard"
  pool :: cons_pool
  next_id :: u64
  total_heap_bytes :: nat
  max_heap_soft_limit :: nat
  gc_in_progress :: bool
  external_roots :: "lispval list"
  finalizer_table :: "(object_id \<times> lispval) list"
  pending_finalizers :: "(lispval \<times> lispval) list"
  guardian_to_tracked :: relation
  tracked_to_guardians :: relation

definition NUM_SHARDS :: nat where "NUM_SHARDS = 16"

definition heap_with_pool :: "nat \<Rightarrow> nat \<Rightarrow> heap" where
  "heap_with_pool capacity soft_limit =
     (case grow capacity (empty_pool, 1) of (_, p, next) \<Rightarrow>
       \<lparr>shards = (\<lambda>_. \<lparr>heap_objects = [], num_objects = 0, heap_bytes = 0\<rparr>),
        pool = p, next_id = next, total_heap_bytes = 0, max_heap_soft_limit = soft_limit,
        gc_in_progress = False, external_roots = [], finalizer_table = [], pending_finalizers = [],
        guardian_to_tracked = [], tracked_to_guardians = []\<rparr>)"

definition new_heap :: "nat \<Rightarrow> heap" where
  "new_heap soft_limit = heap_with_pool 8192 soft_limit"

definition split_mix_64 :: "u64 \<Rightarrow> u64" where
  "split_mix_64 x0 =
     (let x1 = x0 + 0x9e3779b97f4a7c15;
          x2 = (x1 XOR drop_bit 30 x1) * 0xbf58476d1ce4e5b9;
          x3 = (x2 XOR drop_bit 27 x2) * 0x94d049bb133111eb
      in x3 XOR drop_bit 31 x3)"

definition select_shard :: "object_id \<Rightarrow> nat" where
  "select_shard i = unat (split_mix_64 i AND (of_nat NUM_SHARDS - 1))"

section \<open>Lookup\<close>

definition pool_try_get_entry :: "cons_pool \<Rightarrow> object_id \<Rightarrow> heap_entry option" where
  "pool_try_get_entry p i = (case live_slot p i of None \<Rightarrow> None
     | Some r \<Rightarrow> let s = slot_mem p r in
         Some \<lparr>entry_header = slot_header s,
               entry_ptr = Some (case slot_cell s of (a, d) \<Rightarrow> Cons_obj a d), entry_size = CONS_SIZE\<rparr>)"

definition shard_of :: "heap \<Rightarrow> object_id \<Rightarrow> shard" where
  "shard_of h i = shards h (select_shard i)"

definition general_entry :: "heap \<Rightarrow> object_id \<Rightarrow> heap_entry option" where
  "general_entry h i = map_of (heap_objects (shard_of h i)) i"

definition heap_try_get :: "heap \<Rightarrow> object_id \<Rightarrow> heap_entry option" where
  "heap_try_get h i = (if owns (pool h) i then pool_try_get_entry (pool h) i else general_entry h i)"

definition try_get_as :: "object_kind \<Rightarrow> heap \<Rightarrow> object_id \<Rightarrow> heap_obj option" where
  "try_get_as k h i = (case heap_try_get h i of None \<Rightarrow> None
     | Some e \<Rightarrow> if kind (entry_header e) \<noteq> k then None else entry_ptr e)"

section \<open>Updates of the shards\<close>

definition update_shard :: "(shard \<Rightarrow> shard) \<Rightarrow> object_id \<Rightarrow> heap \<Rightarrow> heap" where
  "update_shard f i h = h\<lparr>shards := (shards h)(select_shard i := f (shard_of h i))\<rparr>"

definition map_entry :: "(heap_entry \<Rightarrow> heap_entry) \<Rightarrow> object_id \<Rightarrow> shard \<Rightarrow> shard" where
  "map_entry f i sh = sh\<lparr>heap_objects := map (\<lambda>(k, e). (k, if k = i then f e else e)) (heap_objects sh)\<rparr>"

definition entry_flags :: "(flags \<Rightarrow> flags) \<Rightarrow> heap_entry \<Rightarrow> heap_entry" where
  "entry_flags f e = e\<lparr>entry_header := (entry_header e)\<lparr>flags := f (flags (entry_header e))\<rparr>\<rparr>"

text \<open>\<^verbatim>\<open>with_entry\<close> with a callback that changes the flags.\<close>

definition with_entry :: "object_id \<Rightarrow> (flags \<Rightarrow> flags) \<Rightarrow> heap \<Rightarrow> bool \<times> heap" where
  "with_entry i f h =
     (if owns (pool h) i
      then (case pool_with_entry i f (pool h) of (found, p) \<Rightarrow> (found, h\<lparr>pool := p\<rparr>))
      else (case general_entry h i of None \<Rightarrow> (False, h)
        | Some _ \<Rightarrow> (True, update_shard (map_entry (entry_flags f) i) i h)))"

text \<open>\<^verbatim>\<open>for_each_entry\<close>: the flags pass over every entry, and the list of what is visited.\<close>

definition shard_flags :: "(flags \<Rightarrow> flags) \<Rightarrow> shard \<Rightarrow> shard" where
  "shard_flags f sh = sh\<lparr>heap_objects := map (\<lambda>(k, e). (k, entry_flags f e)) (heap_objects sh)\<rparr>"

definition for_each_flags :: "(flags \<Rightarrow> flags) \<Rightarrow> heap \<Rightarrow> heap" where
  "for_each_flags f h = h\<lparr>pool := pool_for_each_flags f (pool h), shards := (\<lambda>n. shard_flags f (shards h n))\<rparr>"

definition pool_entries :: "cons_pool \<Rightarrow> (object_id \<times> heap_entry) list" where
  "pool_entries p = map (\<lambda>r. let s = slot_mem p r in
       (slot_id s, \<lparr>entry_header = slot_header s,
          entry_ptr = Some (case slot_cell s of (a, d) \<Rightarrow> Cons_obj a d), entry_size = CONS_SIZE\<rparr>))
     (filter (\<lambda>r. slot_allocated (slot_mem p r)) (all_ptrs p))"

definition visited_entries :: "heap \<Rightarrow> (object_id \<times> heap_entry) list" where
  "visited_entries h = pool_entries (pool h) @ concat (map (\<lambda>n. heap_objects (shards h n)) [0..<NUM_SHARDS])"

section \<open>Allocation\<close>

text \<open>The soft-limit test both allocators start with; it may run a collection.\<close>

definition soft_limit_check :: "(heap \<Rightarrow> heap) option \<Rightarrow> nat \<Rightarrow> heap \<Rightarrow> bool \<times> heap" where
  "soft_limit_check gc sz h =
     (if total_heap_bytes h + sz > max_heap_soft_limit h
      then (case gc of
              Some f \<Rightarrow> let h' = f h in (\<not> total_heap_bytes h' + sz > max_heap_soft_limit h', h')
            | None \<Rightarrow> (False, h))
      else (True, h))"

definition emplace_entry :: "object_id \<Rightarrow> heap_entry \<Rightarrow> shard \<Rightarrow> shard" where
  "emplace_entry i e sh = sh\<lparr>heap_objects := heap_objects sh @ [(i, e)],
     num_objects := num_objects sh + 1, heap_bytes := heap_bytes sh + entry_size e\<rparr>"

definition insert_object :: "bool \<Rightarrow> nat \<Rightarrow> heap_obj \<Rightarrow> object_id \<Rightarrow> heap \<Rightarrow>
    (heap_error + object_id) \<times> heap" where
  "insert_object memory_ok sz ob i h =
     (if \<not> memory_ok then (Inl FailedToAllocateMemory, h)
      else if i \<in> fst ` set (heap_objects (shard_of h i)) then (Inl FailedToAllocateMemory, h)
      else let e = \<lparr>entry_header = \<lparr>kind = kind_of ob, flags = 0\<rparr>, entry_ptr = Some ob, entry_size = sz\<rparr>;
               h' = update_shard (emplace_entry i e) i h
           in (Inr i, h'\<lparr>total_heap_bytes := total_heap_bytes h' + sz\<rparr>))"

definition allocate :: "(heap \<Rightarrow> heap) option \<Rightarrow> bool \<Rightarrow> nat \<Rightarrow> heap_obj \<Rightarrow> heap \<Rightarrow>
    (heap_error + object_id) \<times> heap" where
  "allocate gc memory_ok sz ob h =
     (if gc_in_progress h then (Inl GCInProgress, h)
      else let i = next_id h; h1 = h\<lparr>next_id := next_id h + 1\<rparr> in
        if i > PAYLOAD_MASK then (Inl HeapObjectIdExhausted, h1)
        else (case soft_limit_check gc sz h1 of
                (False, h2) \<Rightarrow> (Inl SoftHeapLimitExceeded, h2)
              | (True, h2) \<Rightarrow> insert_object memory_ok sz ob i h2))"

definition alloc_cons :: "(heap \<Rightarrow> heap) option \<Rightarrow> lispval \<Rightarrow> lispval \<Rightarrow> heap \<Rightarrow>
    (heap_error + object_id) \<times> heap" where
  "alloc_cons gc car cdr h =
     (if gc_in_progress h then (Inl GCInProgress, h)
      else (case soft_limit_check gc CONS_SIZE h of
              (False, h1) \<Rightarrow> (Inl SoftHeapLimitExceeded, h1)
            | (True, h1) \<Rightarrow>
                (case pool_alloc car cdr (pool h1, next_id h1) of
                   (Inl e, p, n) \<Rightarrow> (Inl e, h1\<lparr>pool := p, next_id := n\<rparr>)
                 | (Inr i, p, n) \<Rightarrow> (Inr i, h1\<lparr>pool := p, next_id := n,
                                          total_heap_bytes := total_heap_bytes h1 + CONS_SIZE\<rparr>))))"

section \<open>Finalizers\<close>

definition register_finalizer :: "object_id \<Rightarrow> lispval \<Rightarrow> heap \<Rightarrow> (heap_error + unit) \<times> heap" where
  "register_finalizer i pr h =
     (if owns (pool h) i then (Inl UnexpectedObjectKind, h)
      else if heap_try_get h i = None then (Inl ObjectIdNotFound, h)
      else (Inr (), h\<lparr>finalizer_table := AList.update i pr (finalizer_table h)\<rparr>))"

definition remove_finalizer :: "object_id \<Rightarrow> heap \<Rightarrow> bool \<times> heap" where
  "remove_finalizer i h =
     (map_of (finalizer_table h) i \<noteq> None, h\<lparr>finalizer_table := AList.delete i (finalizer_table h)\<rparr>)"

definition fetch_finalizer :: "object_id \<Rightarrow> heap \<Rightarrow> lispval option" where
  "fetch_finalizer i h = map_of (finalizer_table h) i"

definition enqueue_pending_finalizer :: "lispval \<Rightarrow> lispval \<Rightarrow> heap \<Rightarrow> heap" where
  "enqueue_pending_finalizer ob pr h = h\<lparr>pending_finalizers := pending_finalizers h @ [(ob, pr)]\<rparr>"

definition dequeue_pending_finalizer :: "heap \<Rightarrow> (lispval \<times> lispval) option \<times> heap" where
  "dequeue_pending_finalizer h = (case pending_finalizers h of
       [] \<Rightarrow> (None, h) | p # ps \<Rightarrow> (Some p, h\<lparr>pending_finalizers := ps\<rparr>))"

definition pending_finalizer_count :: "heap \<Rightarrow> nat" where
  "pending_finalizer_count h = length (pending_finalizers h)"

definition erase_pending_finalizers_for_object :: "object_id \<Rightarrow> heap \<Rightarrow> heap" where
  "erase_pending_finalizers_for_object i h = h\<lparr>pending_finalizers :=
     filter (\<lambda>(ob, _). \<not> (is_heap_ref ob \<and> payload ob = i)) (pending_finalizers h)\<rparr>"

section \<open>Guardians\<close>

definition related :: "relation \<Rightarrow> object_id \<Rightarrow> object_id list" where
  "related m k = (case map_of m k of None \<Rightarrow> [] | Some vs \<Rightarrow> vs)"

definition rel_insert :: "object_id \<Rightarrow> object_id \<Rightarrow> relation \<Rightarrow> relation" where
  "rel_insert k v m = AList.update k (List.insert v (related m k)) m"

text \<open>Erase one pair; a key whose set becomes empty is erased too.\<close>

definition rel_erase :: "object_id \<Rightarrow> object_id \<Rightarrow> relation \<Rightarrow> bool \<times> relation" where
  "rel_erase k v m = (case map_of m k of None \<Rightarrow> (False, m)
     | Some vs \<Rightarrow> let vs' = removeAll v vs in
         (v \<in> set vs, if vs' = [] then AList.delete k m else AList.update k vs' m))"

definition guardian_track :: "object_id \<Rightarrow> object_id \<Rightarrow> heap \<Rightarrow> (heap_error + unit) \<times> heap" where
  "guardian_track g t h =
     (case heap_try_get h g of
        None \<Rightarrow> (Inl ObjectIdNotFound, h)
      | Some e \<Rightarrow>
          if kind (entry_header e) \<noteq> Guardian_kind then (Inl UnexpectedObjectKind, h)
          else if owns (pool h) t then (Inl UnexpectedObjectKind, h)
          else if heap_try_get h t = None then (Inl ObjectIdNotFound, h)
          else (Inr (), h\<lparr>guardian_to_tracked := rel_insert g t (guardian_to_tracked h),
                          tracked_to_guardians := rel_insert t g (tracked_to_guardians h)\<rparr>))"

definition remove_guardian_tracking :: "object_id \<Rightarrow> object_id \<Rightarrow> heap \<Rightarrow> bool \<times> heap" where
  "remove_guardian_tracking g t h =
     (let (r1, m1) = rel_erase g t (guardian_to_tracked h);
          (r2, m2) = rel_erase t g (tracked_to_guardians h)
      in (r1 \<or> r2, h\<lparr>guardian_to_tracked := m1, tracked_to_guardians := m2\<rparr>))"

definition guardian_tracking_snapshot :: "heap \<Rightarrow> (object_id \<times> object_id) list" where
  "guardian_tracking_snapshot h =
     concat (map (\<lambda>(g, ts). map (Pair g) ts) (guardian_to_tracked h))"

definition set_object :: "object_id \<Rightarrow> heap_obj \<Rightarrow> heap \<Rightarrow> heap" where
  "set_object i ob h = update_shard (map_entry (\<lambda>e. e\<lparr>entry_ptr := Some ob\<rparr>) i) i h"

definition enqueue_guardian_ready :: "object_id \<Rightarrow> lispval \<Rightarrow> heap \<Rightarrow> bool \<times> heap" where
  "enqueue_guardian_ready g v h = (case try_get_as Guardian_kind h g of
       Some (Guardian_obj q) \<Rightarrow> (True, set_object g (Guardian_obj (q @ [v])) h)
     | _ \<Rightarrow> (False, h))"

definition dequeue_guardian_ready :: "object_id \<Rightarrow> heap \<Rightarrow> lispval option \<times> heap" where
  "dequeue_guardian_ready g h = (case try_get_as Guardian_kind h g of
       Some (Guardian_obj (v # q)) \<Rightarrow> (Some v, set_object g (Guardian_obj q) h)
     | _ \<Rightarrow> (None, h))"

definition rel_erase_all :: "object_id list \<Rightarrow> object_id \<Rightarrow> relation \<Rightarrow> relation" where
  "rel_erase_all ks v m = fold (\<lambda>k m. snd (rel_erase k v m)) ks m"

definition erase_guardian_tracking_for_object :: "object_id \<Rightarrow> heap \<Rightarrow> heap" where
  "erase_guardian_tracking_for_object i h = (case map_of (tracked_to_guardians h) i of
       None \<Rightarrow> h
     | Some gs \<Rightarrow> h\<lparr>guardian_to_tracked := rel_erase_all gs i (guardian_to_tracked h),
                     tracked_to_guardians := AList.delete i (tracked_to_guardians h)\<rparr>)"

definition erase_guardian_tracking_for_guardian :: "object_id \<Rightarrow> heap \<Rightarrow> heap" where
  "erase_guardian_tracking_for_guardian i h = (case map_of (guardian_to_tracked h) i of
       None \<Rightarrow> h
     | Some ts \<Rightarrow> h\<lparr>tracked_to_guardians := rel_erase_all ts i (tracked_to_guardians h),
                     guardian_to_tracked := AList.delete i (guardian_to_tracked h)\<rparr>)"

section \<open>Deallocation\<close>

text \<open>
  The destructors of the payload types are implicit and cannot throw, so the branch that
  reports \<^verbatim>\<open>FailedToDeallocateMemory\<close> is not reached.
\<close>

definition erase_finalizers :: "object_id \<Rightarrow> heap \<Rightarrow> heap" where
  "erase_finalizers i h = erase_pending_finalizers_for_object i (snd (remove_finalizer i h))"

definition erase_entry :: "object_id \<Rightarrow> nat \<Rightarrow> shard \<Rightarrow> shard" where
  "erase_entry i sz sh = sh\<lparr>heap_objects := AList.delete i (heap_objects sh),
     num_objects := num_objects sh - 1, heap_bytes := heap_bytes sh - sz\<rparr>"

definition deallocate :: "object_id \<Rightarrow> heap \<Rightarrow> (heap_error + unit) \<times> heap" where
  "deallocate i h =
     (if owns (pool h) i then
        (if pool_try_get (pool h) i = None then (Inl ObjectIdNotFound, h)
         else (Inr (), erase_guardian_tracking_for_object i (erase_finalizers i
                 (h\<lparr>pool := free_slot i (pool h), total_heap_bytes := total_heap_bytes h - CONS_SIZE\<rparr>))))
      else (case general_entry h i of
          None \<Rightarrow> (Inl ObjectIdNotFound, h)
        | Some e \<Rightarrow>
            if entry_ptr e = None then (Inl NullPtrReference, h)
            else let h1 = update_shard (erase_entry i (entry_size e)) i
                            (h\<lparr>total_heap_bytes := total_heap_bytes h - entry_size e\<rparr>);
                     h2 = erase_finalizers i h1
                 in (Inr (), if kind (entry_header e) = Guardian_kind
                             then erase_guardian_tracking_for_guardian i h2
                             else erase_guardian_tracking_for_object i h2)))"

definition sweep_cons_pool :: "heap \<Rightarrow> nat \<times> heap" where
  "sweep_cons_pool h = (case pool_sweep (pool h) of (p, freed) \<Rightarrow>
     (freed, h\<lparr>pool := p, total_heap_bytes := total_heap_bytes h - freed * CONS_SIZE\<rparr>))"

section \<open>External roots\<close>

text \<open>
  A root frame remembers the number of roots when it was made; its destructor resizes the
  vector back to it.
\<close>

definition make_root_frame :: "heap \<Rightarrow> nat" where
  "make_root_frame h = length (external_roots h)"

definition push_root :: "lispval \<Rightarrow> heap \<Rightarrow> heap" where
  "push_root v h = h\<lparr>external_roots := external_roots h @ [v]\<rparr>"

definition close_root_frame :: "nat \<Rightarrow> heap \<Rightarrow> heap" where
  "close_root_frame n h = h\<lparr>external_roots :=
     take n (external_roots h) @ replicate (n - length (external_roots h)) 0\<rparr>"

definition pause_for_gc :: "heap \<Rightarrow> heap" where
  "pause_for_gc h = h\<lparr>gc_in_progress := True\<rparr>"

definition resume_after_gc :: "heap \<Rightarrow> heap" where
  "resume_after_gc h = h\<lparr>gc_in_progress := False\<rparr>"


section \<open>Invariant\<close>

definition entry_ok :: "heap_entry \<Rightarrow> bool" where
  "entry_ok e \<longleftrightarrow> (case entry_ptr e of None \<Rightarrow> False | Some ob \<Rightarrow> kind (entry_header e) = kind_of ob)"

definition shard_wf :: "nat \<Rightarrow> shard \<Rightarrow> bool" where
  "shard_wf n sh \<longleftrightarrow> distinct (map fst (heap_objects sh)) \<and>
     num_objects sh = length (heap_objects sh) \<and>
     heap_bytes sh = sum_list (map (\<lambda>(i, e). entry_size e) (heap_objects sh)) \<and>
     (\<forall>(i, e) \<in> set (heap_objects sh). select_shard i = n \<and> entry_ok e)"

definition shards_wf :: "(nat \<Rightarrow> shard) \<Rightarrow> bool" where
  "shards_wf ss \<longleftrightarrow> (\<forall>n < NUM_SHARDS. shard_wf n (ss n))"

definition shard_bytes :: "heap \<Rightarrow> nat" where
  "shard_bytes h = (\<Sum>n < NUM_SHARDS. heap_bytes (shards h n))"

text \<open>
  Every entry is in the shard its id selects, the general heap and the pool share no id, all
  ids are below the counter, and the byte counters add up.
\<close>

definition heap_wf :: "heap \<Rightarrow> bool" where
  "heap_wf h \<longleftrightarrow> shards_wf (shards h) \<and> pool_wf (pool h) (next_id h) \<and>
     (\<forall>i e. general_entry h i = Some e \<longrightarrow> \<not> owns (pool h) i \<and> i \<le> PAYLOAD_MASK \<and> i < next_id h) \<and>
     total_heap_bytes h = shard_bytes h + live_count (pool h) * CONS_SIZE"

text \<open>What the rest of the runtime sees: objects by id, and which of them carry the mark.\<close>

definition objects :: "heap \<Rightarrow> object_id \<Rightarrow> heap_obj option" where
  "objects h i = Option.bind (heap_try_get h i) entry_ptr"

definition heap_marked :: "heap \<Rightarrow> object_id \<Rightarrow> bool" where
  "heap_marked h i = (case heap_try_get h i of None \<Rightarrow> False
     | Some e \<Rightarrow> is_marked_flag (flags (entry_header e)))"

lemma entry_ok_iff: "entry_ok e \<longleftrightarrow> (\<exists>ob. entry_ptr e = Some ob \<and> kind (entry_header e) = kind_of ob)"
  by (auto simp: entry_ok_def split: option.splits)

lemma select_shard_less: "select_shard i < NUM_SHARDS"
proof -
  have "split_mix_64 i AND (of_nat NUM_SHARDS - 1) \<le> (15 :: 64 word)"
    by (simp add: NUM_SHARDS_def word_and_le1)
  then show ?thesis by (simp add: select_shard_def NUM_SHARDS_def word_le_nat_alt)
qed

lemma heap_try_get_pool: "heap_try_get h i = (if owns (pool h) i then pool_try_get_entry (pool h) i else general_entry h i)"
  by (simp add: heap_try_get_def)

lemma pool_try_get_entry_iff: "pool_try_get_entry p i = None \<longleftrightarrow> pool_try_get p i = None"
  by (auto simp: pool_try_get_entry_def pool_try_get_def Let_def split: option.splits)

lemma pool_entry_obj:
  "Option.bind (pool_try_get_entry p i) entry_ptr = map_option (\<lambda>(a, d). Cons_obj a d) (pool_try_get p i)"
  by (auto simp: pool_try_get_entry_def pool_try_get_def Let_def split: option.splits)

lemma pool_entry_marked:
  "(case pool_try_get_entry p i of None \<Rightarrow> False | Some e \<Rightarrow> is_marked_flag (flags (entry_header e))) = pool_marked p i"
  by (auto simp: pool_try_get_entry_def pool_marked_def Let_def split: option.splits)

lemma objects_owned: "owns (pool h) i \<Longrightarrow> objects h i = map_option (\<lambda>(a, d). Cons_obj a d) (pool_try_get (pool h) i)"
  by (simp add: objects_def heap_try_get_def pool_entry_obj)

lemma objects_general: "\<not> owns (pool h) i \<Longrightarrow> objects h i = Option.bind (general_entry h i) entry_ptr"
  by (simp add: objects_def heap_try_get_def)

lemma marked_owned: "owns (pool h) i \<Longrightarrow> heap_marked h i = pool_marked (pool h) i"
  by (simp add: heap_marked_def heap_try_get_def pool_entry_marked)

lemma marked_general: "\<not> owns (pool h) i \<Longrightarrow> heap_marked h i =
   (case general_entry h i of None \<Rightarrow> False | Some e \<Rightarrow> is_marked_flag (flags (entry_header e)))"
  by (simp add: heap_marked_def heap_try_get_def)

lemma general_entry_ok:
  assumes "shards_wf (shards h)" "general_entry h i = Some e"
  shows "entry_ok e"
proof -
  have "shard_wf (select_shard i) (shard_of h i)"
    using assms(1) select_shard_less by (simp add: shards_wf_def shard_of_def)
  moreover have "(i, e) \<in> set (heap_objects (shard_of h i))"
    using assms(2) by (auto simp: general_entry_def dest: map_of_SomeD)
  ultimately show ?thesis by (auto simp: shard_wf_def)
qed

lemma objects_None_iff:
  assumes "shards_wf (shards h)"
  shows "objects h i = None \<longleftrightarrow> heap_try_get h i = None"
proof (cases "owns (pool h) i")
  case True
  then show ?thesis by (simp add: objects_owned heap_try_get_def pool_try_get_entry_iff)
next
  case False
  then show ?thesis using general_entry_ok [OF assms]
    by (cases "general_entry h i") (auto simp: objects_general heap_try_get_def entry_ok_iff)
qed

section \<open>Updates of one shard\<close>

lemma general_entry_update:
  assumes "\<And>j. j \<noteq> i \<Longrightarrow> map_of (heap_objects (f (shard_of h i))) j = map_of (heap_objects (shard_of h i)) j"
  shows "general_entry (update_shard f i h) =
    (general_entry h)(i := map_of (heap_objects (f (shard_of h i))) i)"
proof
  fix j
  show "general_entry (update_shard f i h) j =
    ((general_entry h)(i := map_of (heap_objects (f (shard_of h i))) i)) j"
    using assms select_shard_less [of i]
    by (cases "select_shard j = select_shard i") (auto simp: general_entry_def update_shard_def shard_of_def)
qed

lemma shards_wf_update:
  assumes "shards_wf (shards h)" "shard_wf (select_shard i) (f (shard_of h i))"
  shows "shards_wf (shards (update_shard f i h))"
  using assms select_shard_less [of i]
  by (auto simp: shards_wf_def update_shard_def)

lemma shard_bytes_update:
  shows "shard_bytes (update_shard f i h) + heap_bytes (shard_of h i) = shard_bytes h + heap_bytes (f (shard_of h i))"
proof -
  let ?s = "select_shard i"
  have s: "?s \<in> {..<NUM_SHARDS}" using select_shard_less by simp
  have "shard_bytes (update_shard f i h) = heap_bytes (f (shard_of h i)) + (\<Sum>n \<in> {..<NUM_SHARDS} - {?s}. heap_bytes (shards h n))"
    using s by (simp add: shard_bytes_def update_shard_def sum.remove [of _ ?s])
  moreover have "shard_bytes h = heap_bytes (shard_of h i) + (\<Sum>n \<in> {..<NUM_SHARDS} - {?s}. heap_bytes (shards h n))"
    using s by (simp add: shard_bytes_def shard_of_def sum.remove [of _ ?s])
  ultimately show ?thesis by simp
qed

lemma update_shard_simps [simp]:
  "pool (update_shard f i h) = pool h" "next_id (update_shard f i h) = next_id h"
  "total_heap_bytes (update_shard f i h) = total_heap_bytes h"
  "finalizer_table (update_shard f i h) = finalizer_table h"
  "pending_finalizers (update_shard f i h) = pending_finalizers h"
  "guardian_to_tracked (update_shard f i h) = guardian_to_tracked h"
  "tracked_to_guardians (update_shard f i h) = tracked_to_guardians h"
  "external_roots (update_shard f i h) = external_roots h"
  "gc_in_progress (update_shard f i h) = gc_in_progress h"
  "max_heap_soft_limit (update_shard f i h) = max_heap_soft_limit h"
  by (simp_all add: update_shard_def)

text \<open>Fields the object map does not depend on.\<close>

lemma frame_objects [heap_frame]:
  "general_entry (h\<lparr>total_heap_bytes := n\<rparr>) = general_entry h"
  "general_entry (h\<lparr>next_id := k\<rparr>) = general_entry h"
  "general_entry (h\<lparr>pool := p\<rparr>) = general_entry h"
  "general_entry (h\<lparr>finalizer_table := ft\<rparr>) = general_entry h"
  "general_entry (h\<lparr>pending_finalizers := pf\<rparr>) = general_entry h"
  "general_entry (h\<lparr>guardian_to_tracked := r\<rparr>) = general_entry h"
  "general_entry (h\<lparr>tracked_to_guardians := r\<rparr>) = general_entry h"
  "general_entry (h\<lparr>external_roots := rs\<rparr>) = general_entry h"
  "general_entry (h\<lparr>gc_in_progress := b\<rparr>) = general_entry h"
  by (simp_all add: fun_eq_iff general_entry_def shard_of_def)

text \<open>Two heaps that differ only outside the shards, the pool, the counter and the byte count.\<close>

definition same_store :: "heap \<Rightarrow> heap \<Rightarrow> bool" where
  "same_store h h' \<longleftrightarrow> shards h' = shards h \<and> pool h' = pool h \<and> next_id h' = next_id h \<and>
     total_heap_bytes h' = total_heap_bytes h"

lemma same_store_wf: "same_store h h' \<Longrightarrow> heap_wf h' = heap_wf h"
  by (simp add: same_store_def heap_wf_def general_entry_def shard_of_def shard_bytes_def)

lemma same_store_get: "same_store h h' \<Longrightarrow> heap_try_get h' = heap_try_get h"
  by (simp add: same_store_def fun_eq_iff heap_try_get_def general_entry_def shard_of_def)

lemma same_store_objects: "same_store h h' \<Longrightarrow> objects h' = objects h"
  by (simp add: fun_eq_iff objects_def same_store_get)

lemma same_store_marked: "same_store h h' \<Longrightarrow> heap_marked h' = heap_marked h"
  by (simp add: fun_eq_iff heap_marked_def same_store_get)

lemma same_store_refl [simp]: "same_store h h"
  by (simp add: same_store_def)

lemma same_store_trans: "same_store h h' \<Longrightarrow> same_store h' h'' \<Longrightarrow> same_store h h''"
  by (simp add: same_store_def)

lemma same_store_bookkeeping [simp]:
  "same_store h (snd (register_finalizer i v h))" "same_store h (snd (remove_finalizer i h))"
  "same_store h (enqueue_pending_finalizer v w h)" "same_store h (snd (dequeue_pending_finalizer h))"
  "same_store h (erase_finalizers i h)"
  "same_store h (snd (guardian_track i j h))" "same_store h (snd (remove_guardian_tracking i j h))"
  "same_store h (erase_guardian_tracking_for_object i h)"
  "same_store h (erase_guardian_tracking_for_guardian i h)"
  "same_store h (push_root v h)" "same_store h (close_root_frame n h)"
  "same_store h (pause_for_gc h)" "same_store h (resume_after_gc h)"
  by (auto simp: same_store_def register_finalizer_def remove_finalizer_def enqueue_pending_finalizer_def
      dequeue_pending_finalizer_def erase_finalizers_def erase_pending_finalizers_for_object_def
      guardian_track_def remove_guardian_tracking_def erase_guardian_tracking_for_object_def
      erase_guardian_tracking_for_guardian_def push_root_def close_root_frame_def pause_for_gc_def
      resume_after_gc_def split: option.splits list.splits prod.splits)


section \<open>Flags\<close>

lemma map_of_map_entry:
  "map_of (heap_objects (map_entry f i sh)) j =
   (if j = i then map_option f (map_of (heap_objects sh) j) else map_of (heap_objects sh) j)"
proof -
  have "map_of (map (\<lambda>(k, e). (k, if k = i then f e else e)) xs) j =
      (if j = i then map_option f (map_of xs j) else map_of xs j)" for xs
    by (induction xs) auto
  then show ?thesis by (simp add: map_entry_def)
qed

lemma shard_wf_map_entry:
  assumes "shard_wf n sh" "\<And>e. entry_size (f e) = entry_size e"
    "\<And>e. map_of (heap_objects sh) i = Some e \<Longrightarrow> entry_ok e \<Longrightarrow> entry_ok (f e)"
  shows "shard_wf n (map_entry f i sh)" "heap_bytes (map_entry f i sh) = heap_bytes sh"
proof -
  have [simp]: "map fst (map (\<lambda>(k, e). (k, if k = i then f e else e)) xs) = map fst xs" for xs
    by (induction xs) auto
  have [simp]: "map (\<lambda>(i, e). entry_size e) (map (\<lambda>(k, e). (k, if k = i then f e else e)) xs) =
      map (\<lambda>(i, e). entry_size e) xs" for xs
    by (induction xs) (auto simp: assms(2))
  have "entry_ok (f e)" if "(i, e) \<in> set (heap_objects sh)" for e
    using that assms(1) assms(3) by (auto simp: shard_wf_def map_of_eq_Some_iff)
  then have "\<forall>(k, e) \<in> set (map (\<lambda>(k, e). (k, if k = i then f e else e)) (heap_objects sh)).
      select_shard k = n \<and> entry_ok e"
    using assms(1) by (auto simp: shard_wf_def)
  then show "shard_wf n (map_entry f i sh)"
    using assms(1) by (simp add: shard_wf_def map_entry_def del: map_map set_map)
  show "heap_bytes (map_entry f i sh) = heap_bytes sh" by (simp add: map_entry_def)
qed

text \<open>Rewriting the entry of one id in place.\<close>

lemma update_entry_correct:
  assumes wf: "heap_wf h" and e: "general_entry h i = Some e"
    and size: "\<And>e. entry_size (f e) = entry_size e" and ok: "entry_ok e \<Longrightarrow> entry_ok (f e)"
  defines "h' \<equiv> update_shard (map_entry f i) i h"
  shows "heap_wf h'" "general_entry h' = (general_entry h)(i \<mapsto> f e)"
proof -
  have sw: "shards_wf (shards h)" using wf by (simp add: heap_wf_def)
  have shw: "shard_wf (select_shard i) (shard_of h i)"
    using sw select_shard_less by (simp add: shards_wf_def shard_of_def)
  have E: "map_of (heap_objects (shard_of h i)) i = Some e" using e by (simp add: general_entry_def)
  note M = shard_wf_map_entry [OF shw, of f i, OF size]
  show g: "general_entry h' = (general_entry h)(i \<mapsto> f e)"
    unfolding h'_def by (subst general_entry_update) (simp_all add: map_of_map_entry E)
  have "shard_bytes h' = shard_bytes h"
    using shard_bytes_update [of "map_entry f i" i h] M(2) ok E by (simp add: h'_def)
  moreover have "shards_wf (shards h')"
    unfolding h'_def by (rule shards_wf_update [OF sw]) (use M(1) ok E in auto)
  ultimately show "heap_wf h'"
    using wf e by (auto simp: heap_wf_def g) (auto simp: h'_def)
qed

lemma with_entry_correct:
  assumes wf: "heap_wf h" and live: "objects h i \<noteq> None"
  shows "heap_wf (snd (with_entry i set_mark h))" "objects (snd (with_entry i set_mark h)) = objects h"
    "heap_marked (snd (with_entry i set_mark h)) = (heap_marked h)(i := True)"
    "fst (with_entry i set_mark h)"
proof -
  let ?h = "snd (with_entry i set_mark h)"
  have sw: "shards_wf (shards h)" and pw: "pool_wf (pool h) (next_id h)" using wf by (simp_all add: heap_wf_def)
  have "heap_wf ?h \<and> objects ?h = objects h \<and> heap_marked ?h = (heap_marked h)(i := True) \<and> fst (with_entry i set_mark h)"
  proof (cases "owns (pool h) i")
    case True
    then obtain r where l: "live_slot (pool h) i = Some r"
      using live by (auto simp: objects_owned pool_try_get_def)
    have ok: "slabs_ok (pool h) (next_id h)" using pw by (simp add: pool_wf_def)
    have r: "r \<in> live_slots (pool h)" "slot_id (slot_mem (pool h) r) = i" using l live_slot_iff [OF ok] by auto
    then have "is_allocated_flag (set_mark (flags (slot_header (slot_mem (pool h) r))))" by (simp add: live_slots_def)
    note F = flag_write_correct [OF pw r(1) this]
    let ?p = "write_slot r (set_flags (set_mark (flags (slot_header (slot_mem (pool h) r)))) (slot_mem (pool h) r)) (pool h)"
    have h': "?h = h\<lparr>pool := ?p\<rparr>" "fst (with_entry i set_mark h)"
      using True l by (simp_all add: with_entry_def pool_with_entry_def)
    have own: "owns ?p = owns (pool h)" using F(5) by (simp add: owns_def fun_eq_iff)
    have "heap_wf ?h"
      using wf F(1) own by (simp add: heap_wf_def h' heap_frame shard_bytes_def)
    moreover have "objects ?h j = objects h j" for j
      using F(2) own by (cases "owns (pool h) j") (simp_all add: h' objects_owned objects_general heap_frame)
    moreover have "heap_marked ?h j = ((heap_marked h)(i := True)) j" for j
      using F(4) own r(2) True
      by (cases "owns (pool h) j") (simp_all add: h' marked_owned marked_general heap_frame, auto)
    ultimately show ?thesis using h' by (simp add: fun_eq_iff)
  next
    case False
    then obtain e where e: "general_entry h i = Some e" using live
      by (cases "general_entry h i") (simp_all add: objects_general)
    have h': "?h = update_shard (map_entry (entry_flags set_mark) i) i h" "fst (with_entry i set_mark h)"
      using False e by (simp_all add: with_entry_def)
    have ok: "entry_ok e \<Longrightarrow> entry_ok (entry_flags set_mark e)" by (simp add: entry_ok_iff entry_flags_def)
    have sz: "entry_size (entry_flags set_mark e) = entry_size e" for e by (simp add: entry_flags_def)
    note U = update_entry_correct [OF wf e, where f = "entry_flags set_mark", OF sz ok, folded h'(1)]
    have p: "pool ?h = pool h" by (simp add: h')
    have "objects ?h j = objects h j" for j
      using e False by (cases "owns (pool h) j") (auto simp: objects_owned objects_general p U(2) entry_flags_def)
    moreover have "heap_marked ?h j = ((heap_marked h)(i := True)) j" for j
      using e False by (cases "owns (pool h) j") (auto simp: marked_owned marked_general p U(2) entry_flags_def)
    ultimately show ?thesis using U(1) h' by (simp add: fun_eq_iff)
  qed
  then show "heap_wf ?h" "objects ?h = objects h" "heap_marked ?h = (heap_marked h)(i := True)"
    "fst (with_entry i set_mark h)" by auto
qed

text \<open>The in-place update of a guardian's queue.\<close>

lemma set_object_correct:
  assumes wf: "heap_wf h" and own: "\<not> owns (pool h) i" and e: "general_entry h i = Some e"
    and k: "kind (entry_header e) = kind_of ob"
  shows "heap_wf (set_object i ob h)" "objects (set_object i ob h) = (objects h)(i \<mapsto> ob)"
    "heap_marked (set_object i ob h) = heap_marked h"
proof -
  let ?f = "\<lambda>e :: heap_entry. e\<lparr>entry_ptr := Some ob\<rparr>"
  have ok: "entry_ok e \<Longrightarrow> entry_ok (?f e)" using k by (simp add: entry_ok_iff)
  note U = update_entry_correct [OF wf e, of ?f, OF _ ok, folded set_object_def, simplified]
  have p: "pool (set_object i ob h) = pool h" by (simp add: set_object_def)
  show "heap_wf (set_object i ob h)" by (rule U(1))
  show "objects (set_object i ob h) = (objects h)(i \<mapsto> ob)"
  proof
    fix j
    show "objects (set_object i ob h) j = ((objects h)(i \<mapsto> ob)) j"
      using own by (cases "owns (pool h) j") (auto simp: objects_owned objects_general p U(2))
  qed
  show "heap_marked (set_object i ob h) = heap_marked h"
  proof
    fix j
    show "heap_marked (set_object i ob h) j = heap_marked h j"
      using own e by (cases "owns (pool h) j") (auto simp: marked_owned marked_general p U(2))
  qed
qed


section \<open>Allocation\<close>

definition heap_room :: "heap \<Rightarrow> bool" where
  "heap_room h \<longleftrightarrow> unat (next_id h) + growth (pool h) + 1 < 2 ^ 64"

lemma insert_object_correct:
  assumes wf: "heap_wf h" and i: "\<not> owns (pool h) i" "general_entry h i = None" "i \<le> PAYLOAD_MASK" "i < next_id h"
    and ins: "insert_object mem sz ob i h = (r, h')"
  shows "case r of Inl e \<Rightarrow> e = FailedToAllocateMemory \<and> \<not> mem \<and> h' = h
    | Inr j \<Rightarrow> j = i \<and> heap_wf h' \<and> objects h' = (objects h)(i \<mapsto> ob) \<and>
        heap_marked h' = (heap_marked h)(i := False) \<and> total_heap_bytes h' = total_heap_bytes h + sz"
proof (cases mem)
  case False
  then show ?thesis using ins by (auto simp: insert_object_def)
next
  case True
  have sw: "shards_wf (shards h)" using wf by (simp add: heap_wf_def)
  have shw: "shard_wf (select_shard i) (shard_of h i)"
    using sw select_shard_less by (simp add: shards_wf_def shard_of_def)
  have new: "map_of (heap_objects (shard_of h i)) i = None" using i(2) by (simp add: general_entry_def)
  then have fresh: "i \<notin> fst ` set (heap_objects (shard_of h i))" by (simp add: map_of_eq_None_iff)
  define e where "e = \<lparr>entry_header = \<lparr>kind = kind_of ob, flags = 0\<rparr>, entry_ptr = Some ob, entry_size = sz\<rparr>"
  let ?h = "update_shard (emplace_entry i e) i h"
  have r: "r = Inr i" and h': "h' = ?h\<lparr>total_heap_bytes := total_heap_bytes h + sz\<rparr>"
    using ins True fresh by (auto simp: insert_object_def e_def Let_def)
  have "shard_wf (select_shard i) (emplace_entry i e (shard_of h i))"
    using shw fresh by (auto simp: shard_wf_def emplace_entry_def e_def entry_ok_def)
  then have sw': "shards_wf (shards h')" using shards_wf_update [OF sw, of i "emplace_entry i e"] by (simp add: h')
  have "shard_bytes ?h = shard_bytes h + sz"
    using shard_bytes_update [of "emplace_entry i e" i h] by (simp add: emplace_entry_def e_def)
  then have bytes: "shard_bytes h' = shard_bytes h + sz" by (simp add: shard_bytes_def h')
  have "general_entry ?h = (general_entry h)(i \<mapsto> e)"
    by (subst general_entry_update) (use new in \<open>auto simp: emplace_entry_def map_add_def split: option.splits\<close>)
  then have g: "general_entry h' = (general_entry h)(i \<mapsto> e)" by (simp add: h' heap_frame)
  have p: "pool h' = pool h" "next_id h' = next_id h" by (simp_all add: h')
  have "heap_wf h'" using wf sw' bytes i by (auto simp: heap_wf_def g p) (simp add: h')
  moreover have "objects h' j = ((objects h)(i \<mapsto> ob)) j" for j
    using i(1) by (cases "owns (pool h) j") (auto simp: objects_owned objects_general p g e_def)
  moreover have "heap_marked h' j = ((heap_marked h)(i := False)) j" for j
    using i(1) by (cases "owns (pool h) j") (auto simp: marked_owned marked_general p g e_def)
  ultimately show ?thesis using r by (simp add: fun_eq_iff h')
qed

lemma heap_wf_bump:
  assumes "heap_wf h" "heap_room h"
  shows "heap_wf (h\<lparr>next_id := next_id h + 1\<rparr>)"
proof -
  have "unat (next_id h + 1) = unat (next_id h) + 1"
    using assms(2) by (simp add: heap_room_def unat_word_ariths)
  with assms(1) pool_wf_mono [of "pool h" "next_id h" "next_id h + 1"] show ?thesis
    by (auto simp: heap_wf_def heap_frame shard_bytes_def word_less_nat_alt)
qed

text \<open>The next id is in no table and in no slab.\<close>

lemma next_id_fresh:
  assumes "heap_wf h"
  shows "\<not> owns (pool h) (next_id h)" "general_entry h (next_id h) = None" "objects h (next_id h) = None"
proof -
  show n: "\<not> owns (pool h) (next_id h)"
    using assms owns_below [of "pool h" "next_id h" "next_id h"] by (auto simp: heap_wf_def pool_wf_def)
  show "general_entry h (next_id h) = None" using assms by (cases "general_entry h (next_id h)") (auto simp: heap_wf_def)
  with n show "objects h (next_id h) = None" by (simp add: objects_general)
qed

text \<open>What an allocation needs of the collection callback.\<close>

definition gc_ok :: "(heap \<Rightarrow> heap) option \<Rightarrow> heap \<Rightarrow> bool" where
  "gc_ok gc h \<longleftrightarrow> (\<forall>f. gc = Some f \<longrightarrow>
     heap_wf (f h) \<and> next_id (f h) = next_id h \<and> slabs (pool (f h)) = slabs (pool h) \<and>
     total_capacity (pool (f h)) = total_capacity (pool h) \<and>
     max_heap_soft_limit (f h) = max_heap_soft_limit h \<and> dom (objects (f h)) \<subseteq> dom (objects h))"

lemma gc_ok_None [simp]: "gc_ok None h"
  by (simp add: gc_ok_def)

lemma owns_slabs: "slabs p = slabs q \<Longrightarrow> owns p = owns q"
  by (simp add: owns_def find_slot_def fun_eq_iff)

lemma soft_limit_check_correct:
  assumes "heap_wf h" "gc_ok gc h" "soft_limit_check gc sz h = (b, h')"
  shows "heap_wf h'" "next_id h' = next_id h" "slabs (pool h') = slabs (pool h)"
    "total_capacity (pool h') = total_capacity (pool h)"
    "max_heap_soft_limit h' = max_heap_soft_limit h" "dom (objects h') \<subseteq> dom (objects h)"
    "b \<longleftrightarrow> total_heap_bytes h' + sz \<le> max_heap_soft_limit h"
    "gc = None \<Longrightarrow> h' = h"
proof -
  have "heap_wf h' \<and> next_id h' = next_id h \<and> slabs (pool h') = slabs (pool h) \<and>
    total_capacity (pool h') = total_capacity (pool h) \<and>
    max_heap_soft_limit h' = max_heap_soft_limit h \<and> dom (objects h') \<subseteq> dom (objects h) \<and>
    (b \<longleftrightarrow> total_heap_bytes h' + sz \<le> max_heap_soft_limit h) \<and> (gc = None \<longrightarrow> h' = h)"
  proof (cases "total_heap_bytes h + sz > max_heap_soft_limit h")
    case True
    show ?thesis
    proof (cases gc)
      case None
      then show ?thesis using assms True by (auto simp: soft_limit_check_def)
    next
      case (Some f)
      then have "h' = f h" "b \<longleftrightarrow> \<not> total_heap_bytes (f h) + sz > max_heap_soft_limit (f h)"
        using assms(3) True by (auto simp: soft_limit_check_def Let_def)
      with assms(1,2) Some show ?thesis unfolding gc_ok_def by (simp add: not_less)
    qed
  next
    case False
    then show ?thesis using assms by (auto simp: soft_limit_check_def)
  qed
  then show "heap_wf h'" "next_id h' = next_id h" "slabs (pool h') = slabs (pool h)"
    "total_capacity (pool h') = total_capacity (pool h)"
    "max_heap_soft_limit h' = max_heap_soft_limit h" "dom (objects h') \<subseteq> dom (objects h)"
    "b \<longleftrightarrow> total_heap_bytes h' + sz \<le> max_heap_soft_limit h" "gc = None \<Longrightarrow> h' = h" by blast+
qed

lemma allocate_correct:
  assumes wf: "heap_wf h" and room: "heap_room h" and gc: "gc_ok gc (h\<lparr>next_id := next_id h + 1\<rparr>)" and al: "allocate gc mem sz ob h = (r, h')"
  shows "case r of
      Inr i \<Rightarrow> heap_wf h' \<and> i = next_id h \<and> i \<le> PAYLOAD_MASK \<and> objects h i = None
        \<and> objects h' = (objects (snd (soft_limit_check gc sz (h\<lparr>next_id := next_id h + 1\<rparr>))))(i \<mapsto> ob)
        \<and> total_heap_bytes h' \<le> max_heap_soft_limit h \<and> \<not> heap_marked h' i
    | Inl e \<Rightarrow> heap_wf h' \<and> dom (objects h') \<subseteq> dom (objects h)"
proof -
  let ?h = "h\<lparr>next_id := next_id h + 1\<rparr>"
  note wf1 = heap_wf_bump [OF wf room]
  have eq: "objects ?h = objects h" by (simp add: fun_eq_iff objects_def heap_try_get_def general_entry_def shard_of_def)
  note N = next_id_fresh [OF wf]
  obtain b h2 where sc: "soft_limit_check gc sz ?h = (b, h2)" by (cases "soft_limit_check gc sz ?h")
  note S = soft_limit_check_correct [OF wf1 gc sc]
  have lt: "next_id h < next_id h + 1"
    using room by (simp add: heap_room_def word_less_nat_alt unat_word_ariths)
  have "owns (pool h2) = owns (pool h)" using owns_slabs [OF S(3)] by simp
  with N(1) have n: "\<not> owns (pool h2) (next_id h)" by simp
  have "objects h2 (next_id h) = None" using S(6) N(3) by (auto simp: eq)
  then have g: "general_entry h2 (next_id h) = None"
    using S(1) n objects_None_iff [of h2] by (simp add: heap_wf_def heap_try_get_def)
  consider "gc_in_progress h" | "\<not> gc_in_progress h" "next_id h > PAYLOAD_MASK"
    | "\<not> gc_in_progress h" "next_id h \<le> PAYLOAD_MASK" "\<not> b" | "\<not> gc_in_progress h" "next_id h \<le> PAYLOAD_MASK" b
    by fastforce
  then show ?thesis
  proof cases
    case 4
    have "insert_object mem sz ob (next_id h) h2 = (r, h')"
      using al 4 leD [OF 4(2)] sc by (simp add: allocate_def Let_def)
    moreover have "next_id h < next_id h2" using S(2) lt by simp
    ultimately show ?thesis using insert_object_correct [OF S(1) n g 4(2), of mem sz ob r h'] 4(2,3) S N(3) eq sc
      by (auto split: sum.splits)
  qed (use al wf wf1 eq S sc in \<open>auto simp: allocate_def Let_def dest: leD split: if_splits\<close>)
qed

text \<open>The object map, read off the pool and the tables.\<close>

lemma objects_split:
  assumes "heap_wf h"
  shows "objects h j = (if pool_try_get (pool h) j \<noteq> None then map_option (\<lambda>(a, d). Cons_obj a d) (pool_try_get (pool h) j)
      else Option.bind (general_entry h j) entry_ptr)"
  using assms pool_try_get_owns [of "pool h" j]
  by (cases "owns (pool h) j"; cases "general_entry h j"; cases "pool_try_get (pool h) j")
    (simp_all add: objects_owned objects_general heap_wf_def)

lemma general_below: "heap_wf h \<Longrightarrow> general_entry h i = Some e \<Longrightarrow> unat i < unat (next_id h)"
  by (auto simp: heap_wf_def word_less_nat_alt)

lemma alloc_cons_correct:
  assumes wf: "heap_wf h" and room: "heap_room h" and gc: "gc_ok gc h" and al: "alloc_cons gc a d h = (r, h')"
  shows "case r of
      Inr i \<Rightarrow> heap_wf h' \<and> owns (pool h') i \<and> total_heap_bytes h' \<le> max_heap_soft_limit h
        \<and> objects (snd (soft_limit_check gc CONS_SIZE h)) i = None
        \<and> objects h' = (objects (snd (soft_limit_check gc CONS_SIZE h)))(i \<mapsto> Cons_obj a d)
    | Inl e \<Rightarrow> heap_wf h' \<and> dom (objects h') \<subseteq> dom (objects h)"
proof -
  obtain b h1 where sc: "soft_limit_check gc CONS_SIZE h = (b, h1)" by (cases "soft_limit_check gc CONS_SIZE h")
  note S = soft_limit_check_correct [OF wf gc sc]
  show ?thesis
  proof (cases "gc_in_progress h \<or> \<not> b")
    case True
    then show ?thesis using al wf sc S by (auto simp: alloc_cons_def split: if_splits)
  next
    case False
    have pw: "pool_wf (pool h1) (next_id h1)" using S(1) by (simp add: heap_wf_def)
    have pr: "unat (next_id h1) + growth (pool h1) < 2 ^ 64"
      using room S(2,4) by (simp add: heap_room_def growth_def split: if_splits)
    obtain q p n where pa: "pool_alloc a d (pool h1, next_id h1) = (q, p, n)"
      by (cases "pool_alloc a d (pool h1, next_id h1)")
    have own: "owns p i = owns (pool h1) i" if "general_entry h1 i = Some e" for i e
      using pool_alloc_owns [OF pr general_below [OF S(1) that] pa] .
    have mono: "unat (next_id h1) \<le> unat n"
      using pool_alloc_ok(5) [OF pw pr] pool_alloc_error(4) [OF pw pr] pa by (cases q) auto
    have g_all: "\<forall>i e. general_entry h1 i = Some e \<longrightarrow> \<not> owns p i \<and> i \<le> PAYLOAD_MASK \<and> i < n"
      using S(1) own general_below [OF S(1)] mono by (fastforce simp: heap_wf_def word_less_nat_alt)
    show ?thesis
    proof (cases q)
      case (Inl e)
      note E = pool_alloc_error [OF pw pr pa [unfolded Inl]]
      have h': "r = Inl e" "h' = h1\<lparr>pool := p, next_id := n\<rparr>"
        using al False pa Inl sc by (auto simp: alloc_cons_def)
      have wf': "heap_wf h'" using S(1) E g_all by (simp add: heap_wf_def h' heap_frame shard_bytes_def)
      have "objects h' = objects h1"
        unfolding fun_eq_iff objects_split [OF wf'] objects_split [OF S(1)] by (simp add: h' heap_frame E(2))
      with h' wf' S(6) show ?thesis by simp
    next
      case (Inr i)
      note E = pool_alloc_ok [OF pw pr pa [unfolded Inr]]
      have h': "r = Inr i" "h' = h1\<lparr>pool := p, next_id := n, total_heap_bytes := total_heap_bytes h1 + CONS_SIZE\<rparr>"
        using al False pa Inr sc by (auto simp: alloc_cons_def)
      have wf': "heap_wf h'" using S(1) E g_all pool_alloc_count [OF pw pr pa [unfolded Inr]]
        by (simp add: heap_wf_def h' heap_frame shard_bytes_def)
      have gi: "general_entry h1 i = None" using E(4) g_all by (cases "general_entry h1 i") auto
      have "objects h1 i = None" using E(2) gi by (simp add: objects_split [OF S(1)])
      moreover have "objects h' = (objects h1)(i \<mapsto> Cons_obj a d)"
        unfolding fun_eq_iff fun_upd_apply objects_split [OF wf'] objects_split [OF S(1)]
        by (simp add: h' heap_frame E(3))
      ultimately show ?thesis using h' wf' E(4) False S(7) sc by simp
    qed
  qed
qed


section \<open>Deallocation and the pool sweep\<close>

lemma sum_list_delete_entry:
  "distinct (map fst xs) \<Longrightarrow> map_of xs i = Some e \<Longrightarrow>
   sum_list (map (\<lambda>(i, e). entry_size e) (AList.delete i xs)) + entry_size e = sum_list (map (\<lambda>(i, e). entry_size e) xs)"
proof (induction xs)
  case (Cons x xs)
  obtain k v where x: "x = (k, v)" by (cases x)
  show ?case
  proof (cases "k = i")
    case True
    then have "i \<notin> fst ` set xs" using Cons.prems(1) x by auto
    then have "AList.delete i xs = xs" by (rule delete_id)
    then show ?thesis using Cons.prems True x by simp
  next
    case False
    then show ?thesis using Cons x by simp
  qed
qed simp

lemma length_delete_entry:
  "distinct (map fst xs) \<Longrightarrow> map_of xs i = Some e \<Longrightarrow> length (AList.delete i xs) + 1 = length xs"
proof (induction xs)
  case (Cons x xs)
  obtain k v where x: "x = (k, v)" by (cases x)
  show ?case
  proof (cases "k = i")
    case True
    then have "i \<notin> fst ` set xs" using Cons.prems(1) x by auto
    then have "AList.delete i xs = xs" by (rule delete_id)
    then show ?thesis using Cons.prems True x by simp
  next
    case False
    then show ?thesis using Cons x by simp
  qed
qed simp

lemma erase_entry_wf:
  assumes "shard_wf n sh" "map_of (heap_objects sh) i = Some e"
  shows "shard_wf n (erase_entry i (entry_size e) sh)"
    "heap_bytes (erase_entry i (entry_size e) sh) + entry_size e = heap_bytes sh"
  using assms sum_list_delete_entry [of "heap_objects sh" i e] length_delete_entry [of "heap_objects sh" i e]
    distinct_delete [of "heap_objects sh" i]
  by (auto simp: shard_wf_def erase_entry_def AList.delete_eq)

lemma deallocate_correct:
  assumes wf: "heap_wf h" and d: "deallocate i h = (r, h')"
  shows "heap_wf h'" "objects h' = (objects h)(i := None)"
    "heap_marked h' = (heap_marked h)(i := False)"
    "is_ok r \<longleftrightarrow> objects h i \<noteq> None"
    "slabs (pool h') = slabs (pool h)" "next_id h' = next_id h"
proof -
  have sw: "shards_wf (shards h)" using wf by (simp add: heap_wf_def)
  have pw: "pool_wf (pool h) (next_id h)" using wf by (simp add: heap_wf_def)
  have "heap_wf h' \<and> objects h' = (objects h)(i := None) \<and> heap_marked h' = (heap_marked h)(i := False) \<and>
    (is_ok r \<longleftrightarrow> objects h i \<noteq> None) \<and> slabs (pool h') = slabs (pool h) \<and> next_id h' = next_id h"
  proof (cases "owns (pool h) i")
    case own: True
    show ?thesis
    proof (cases "pool_try_get (pool h) i")
      case None
      then have "objects h i = None" using own by (simp add: objects_owned)
      moreover have "\<not> heap_marked h i" using own None pool_marked_live [of "pool h" i] by (auto simp: marked_owned)
      moreover have "h' = h" "r = Inl ObjectIdNotFound" using d own None by (simp_all add: deallocate_def)
      ultimately show ?thesis using wf by (simp add: fun_eq_iff)
    next
      case (Some c)
      let ?h = "h\<lparr>pool := free_slot i (pool h), total_heap_bytes := total_heap_bytes h - CONS_SIZE\<rparr>"
      have h': "h' = erase_guardian_tracking_for_object i (erase_finalizers i ?h)" "r = Inr ()"
        using d own Some by (simp_all add: deallocate_def)
      have st: "same_store ?h h'" unfolding h'(1) by (rule same_store_trans [of _ "erase_finalizers i ?h"]) simp_all
      note F = free_slot_correct [OF pw, of i]
      have wf1: "heap_wf ?h"
        using wf F(1) free_slot_count [OF pw, of i] Some
        by (auto simp: heap_wf_def heap_frame shard_bytes_def)
      have "objects ?h = (objects h)(i := None)"
        using F(2) own by (auto simp: fun_eq_iff objects_def heap_try_get_def heap_frame pool_entry_obj)
      moreover have "heap_marked ?h = (heap_marked h)(i := False)"
        using free_slot_marked [OF pw] own by (auto simp: fun_eq_iff heap_marked_def heap_try_get_def heap_frame pool_entry_marked)
      moreover have "objects h i \<noteq> None" using own Some by (simp add: objects_owned)
      ultimately show ?thesis
        using st wf1 h'(2) same_store_wf [OF st] same_store_objects [OF st] same_store_marked [OF st]
        by (simp add: same_store_def) (simp add: free_slot_def push_free_def split: option.splits)
    qed
  next
    case nown: False
    show ?thesis
    proof (cases "general_entry h i")
      case None
      then have "objects h i = None" "\<not> heap_marked h i" using nown by (simp_all add: objects_general marked_general)
      moreover have "h' = h" "r = Inl ObjectIdNotFound" using d nown None by (simp_all add: deallocate_def)
      ultimately show ?thesis using wf by (simp add: fun_eq_iff)
    next
      case (Some e)
      obtain ob where ob: "entry_ptr e = Some ob" using general_entry_ok [OF sw Some] by (auto simp: entry_ok_iff)
      have E: "map_of (heap_objects (shard_of h i)) i = Some e" using Some by (simp add: general_entry_def)
      let ?base = "h\<lparr>total_heap_bytes := total_heap_bytes h - entry_size e\<rparr>"
      let ?h = "update_shard (erase_entry i (entry_size e)) i ?base"
      have st: "same_store ?h h'" and r: "r = Inr ()"
        using d nown Some ob same_store_trans [of ?h "erase_finalizers i ?h"]
        by (auto simp: deallocate_def Let_def)
      have s0: "shards_wf (shards ?base)" "shard_of ?base i = shard_of h i"
        using sw by (simp_all add: shard_of_def)
      have shw: "shard_wf (select_shard i) (shard_of h i)"
        using sw select_shard_less by (simp add: shards_wf_def shard_of_def)
      note X = erase_entry_wf [OF shw E]
      have sw1: "shards_wf (shards ?h)" by (rule shards_wf_update [OF s0(1)]) (simp add: s0(2) X(1))
      have g: "general_entry ?h = (general_entry h)(i := None)"
        by (subst general_entry_update) (simp_all add: s0(2) erase_entry_def delete_conv' heap_frame)
      have "shard_bytes ?h + heap_bytes (shard_of h i) = shard_bytes h + heap_bytes (erase_entry i (entry_size e) (shard_of h i))"
        using shard_bytes_update [of "erase_entry i (entry_size e)" i ?base] by (simp add: s0(2) shard_bytes_def)
      then have b: "shard_bytes ?h + entry_size e = shard_bytes h" using X(2) by simp
      have wf1: "heap_wf ?h" using wf sw1 b unfolding heap_wf_def g by auto
      have "objects ?h = (objects h)(i := None)"
        using nown by (auto simp: fun_eq_iff objects_def heap_try_get_def g)
      moreover have "heap_marked ?h = (heap_marked h)(i := False)"
        using nown by (auto simp: fun_eq_iff heap_marked_def heap_try_get_def g)
      moreover have "objects h i \<noteq> None" using nown Some ob by (simp add: objects_general)
      ultimately show ?thesis
        using st wf1 r same_store_wf [OF st] same_store_objects [OF st] same_store_marked [OF st]
        by (simp add: same_store_def)
    qed
  qed
  then show "heap_wf h'" "objects h' = (objects h)(i := None)"
    "heap_marked h' = (heap_marked h)(i := False)"
    "is_ok r \<longleftrightarrow> objects h i \<noteq> None"
    "slabs (pool h') = slabs (pool h)" "next_id h' = next_id h" by auto
qed

lemma sweep_cons_pool_correct:
  assumes wf: "heap_wf h" and sw: "sweep_cons_pool h = (freed, h')"
  shows "heap_wf h'"
    "objects h' i = (if owns (pool h) i \<and> \<not> heap_marked h i then None else objects h i)"
    "owns (pool h') = owns (pool h)" "general_entry h' = general_entry h"
    "total_heap_bytes h' + freed * CONS_SIZE = total_heap_bytes h"
proof -
  have pw: "pool_wf (pool h) (next_id h)" using wf by (simp add: heap_wf_def)
  obtain p where p: "pool_sweep (pool h) = (p, freed)"
    and h': "h' = h\<lparr>pool := p, total_heap_bytes := total_heap_bytes h - freed * CONS_SIZE\<rparr>"
    using sw by (auto simp: sweep_cons_pool_def split: prod.splits)
  note P = pool_sweep_correct [OF pw p]
  show own: "owns (pool h') = owns (pool h)" using P(5) by (simp add: h' owns_def fun_eq_iff)
  show g: "general_entry h' = general_entry h" by (simp add: h' heap_frame)
  have t: "total_heap_bytes h = shard_bytes h + live_count p * CONS_SIZE + freed * CONS_SIZE"
    using wf P(3,4) by (simp add: heap_wf_def flip: add_mult_distrib)
  then show "total_heap_bytes h' + freed * CONS_SIZE = total_heap_bytes h" by (simp add: h')
  have "total_heap_bytes h' = shard_bytes h + live_count p * CONS_SIZE" using t by (simp add: h')
  then show "heap_wf h'" using wf P(1) own unfolding heap_wf_def g by (simp add: h' shard_bytes_def)
  show "objects h' i = (if owns (pool h) i \<and> \<not> heap_marked h i then None else objects h i)"
    using P(2) own g
    by (cases "owns (pool h) i") (simp_all add: objects_owned objects_general marked_owned h' fun_eq_iff)
qed


section \<open>Flag passes over the whole heap\<close>

lemma general_entry_for_each:
  shows "general_entry (for_each_flags f h) i = map_option (entry_flags f) (general_entry h i)"
proof -
  have "map_of (map (\<lambda>(k, e). (k, entry_flags f e)) xs) i = map_option (entry_flags f) (map_of xs i)" for xs
    by (induction xs) auto
  then show ?thesis
    by (simp add: general_entry_def shard_of_def for_each_flags_def shard_flags_def)
qed

lemma shard_flags_wf: "shard_wf n sh \<Longrightarrow> shard_wf n (shard_flags f sh)"
proof -
  assume w: "shard_wf n sh"
  have [simp]: "map fst (map (\<lambda>(k, e). (k, entry_flags f e)) xs) = map fst xs"
    "map (\<lambda>(i, e). entry_size e) (map (\<lambda>(k, e). (k, entry_flags f e)) xs) = map (\<lambda>(i, e). entry_size e) xs" for xs
    by (induction xs) (auto simp: entry_flags_def)
  have "\<forall>(i, e) \<in> set (map (\<lambda>(k, e). (k, entry_flags f e)) (heap_objects sh)). select_shard i = n \<and> entry_ok e"
    using w by (fastforce simp: shard_wf_def entry_ok_iff entry_flags_def)
  with w show ?thesis by (simp add: shard_wf_def shard_flags_def del: map_map set_map)
qed

lemma flags_at_clear: "flags_at clear_mark = clear_mark_at"
  by (simp add: fun_eq_iff flags_at_def clear_mark_at_def)

lemma pool_for_each_clear: "pool_for_each_flags clear_mark p = pool_clear_marks p"
  by (simp add: pool_for_each_flags_def pool_clear_marks_def flags_at_clear)

lemma for_each_clear_correct:
  assumes wf: "heap_wf h"
  defines "h' \<equiv> for_each_flags clear_mark h"
  shows "heap_wf h'" "objects h' = objects h" "\<not> heap_marked h' i" "owns (pool h') = owns (pool h)"
proof -
  have sw: "shards_wf (shards h)" and pw: "pool_wf (pool h) (next_id h)" using wf by (simp_all add: heap_wf_def)
  note C = pool_clear_marks_correct [OF pw]
  have p: "pool h' = pool_clear_marks (pool h)" by (simp add: h'_def for_each_flags_def pool_for_each_clear)
  have g: "general_entry h' i = map_option (entry_flags clear_mark) (general_entry h i)" for i
    unfolding h'_def by (rule general_entry_for_each)
  show own: "owns (pool h') = owns (pool h)" by (simp add: p owns_def fun_eq_iff C(4))
  have "live_count (pool h') = live_count (pool h)"
  proof -
    have "live_count (fold clear_mark_at rs q) = live_count q" for rs q
      by (induction rs arbitrary: q) (auto simp: clear_mark_at_def Let_def)
    then show ?thesis by (simp add: p pool_clear_marks_def)
  qed
  moreover have "shard_bytes h' = shard_bytes h"
    by (simp add: shard_bytes_def h'_def for_each_flags_def comp_def shard_flags_def)
  moreover have "shards_wf (shards h')"
    using sw by (simp add: shards_wf_def h'_def for_each_flags_def shard_flags_wf)
  ultimately show "heap_wf h'" using wf C(1) own unfolding heap_wf_def
    by (auto simp: g p) (auto simp: h'_def for_each_flags_def)
  show "objects h' = objects h"
  proof
    fix j
    show "objects h' j = objects h j"
      using C(2) own by (cases "owns (pool h) j"; cases "general_entry h j")
        (simp_all add: objects_owned objects_general g p entry_flags_def)
  qed
  show "\<not> heap_marked h' i"
    using C(3) own by (cases "owns (pool h) i"; cases "general_entry h i")
      (simp_all add: marked_owned marked_general g p entry_flags_def)
qed

section \<open>The initial heap\<close>

lemma heap_with_pool_wf:
  assumes c: "0 < c" "c < 2 ^ 46"
  shows "heap_wf (heap_with_pool c n)" "objects (heap_with_pool c n) = Map.empty"
proof -
  obtain b p k where g: "grow c (empty_pool, 1) = (b, p, k)" by (cases "grow c (empty_pool, 1)")
  have "unat (1 + of_nat c :: u64) = 1 + c" using c(2) by (simp add: unat_word_ariths unat_of_nat)
  then have "(1 + of_nat c :: u64) \<le> PAYLOAD_MASK"
    using c(2) by (simp add: word_le_nat_alt PAYLOAD_MASK_def)
  then have b: "b" using g by (simp add: grow_def Let_def split: if_splits)
  have r: "unat (1 :: u64) + c < 2 ^ 64" using c by simp
  have G: "pool_wf p k" "pool_try_get p = pool_try_get empty_pool"
    using grow_correct [OF empty_pool_wf [of 1] _ c(1) r, of p k] g b by (simp_all add: empty_pool_def)
  have l: "live_count p = 0" using g by (auto simp: grow_def Let_def empty_pool_def split: if_splits)
  have h: "heap_with_pool c n = \<lparr>shards = (\<lambda>_. \<lparr>heap_objects = [], num_objects = 0, heap_bytes = 0\<rparr>),
      pool = p, next_id = k, total_heap_bytes = 0, max_heap_soft_limit = n, gc_in_progress = False,
      external_roots = [], finalizer_table = [], pending_finalizers = [], guardian_to_tracked = [],
      tracked_to_guardians = []\<rparr>" (is "_ = ?h")
    using g by (simp add: heap_with_pool_def)
  have ge: "general_entry ?h i = None" for i
    using select_shard_less [of i] by (simp add: general_entry_def shard_of_def)
  show wf: "heap_wf (heap_with_pool c n)"
    unfolding h heap_wf_def ge using G(1) l by (simp add: shards_wf_def shard_wf_def shard_bytes_def)
  have "pool_try_get empty_pool i = None" for i
    by (simp add: pool_try_get_def live_slot_def find_slot_def empty_pool_def)
  then show "objects (heap_with_pool c n) = Map.empty"
    unfolding fun_eq_iff objects_split [OF wf] unfolding h ge by (simp add: G(2))
qed

lemma new_heap_wf: "heap_wf (new_heap n)" "objects (new_heap n) = Map.empty"
  unfolding new_heap_def by (rule heap_with_pool_wf; simp)+

section \<open>The heap as a store\<close>

interpretation heap_store: marked_store heap_wf objects "\<lambda>i h. snd (deallocate i h)" heap_marked
    "\<lambda>i h. snd (with_entry i set_mark h)"
proof unfold_locales
  show "heap_wf h \<Longrightarrow> heap_wf (snd (deallocate i h))" for h i
    by (rule deallocate_correct(1) [OF _ prod.collapse [symmetric]])
  show "heap_wf h \<Longrightarrow> objects (snd (deallocate i h)) = (objects h)(i := None)" for h i
    by (rule deallocate_correct(2) [OF _ prod.collapse [symmetric]])
  show "objects h i \<noteq> None" if "heap_wf h" "heap_marked h i" for h i
    using that objects_None_iff [of h i] by (auto simp: heap_wf_def heap_marked_def)
qed (simp_all add: with_entry_correct)

interpretation heap_allocator: allocator heap_wf objects heap_room "allocate None mem sz" for mem sz
proof unfold_locales
  fix h h' ob i
  assume "heap_wf h" "heap_room h" "allocate None mem sz ob h = (Inr i, h')"
  from allocate_correct [OF this(1,2) gc_ok_None this(3)]
  show "heap_wf h' \<and> objects h i = None \<and> objects h' = (objects h)(i \<mapsto> ob)"
    using soft_limit_check_correct(8) [OF heap_wf_bump [OF \<open>heap_wf h\<close> \<open>heap_room h\<close>] gc_ok_None prod.collapse [symmetric], of sz]
    by (auto simp: objects_def heap_try_get_def general_entry_def shard_of_def)
next
  fix h h' ob e
  assume a: "heap_wf h" "heap_room h" "allocate None mem sz ob h = (Inl e, h')"
  have "objects h' = objects h"
    using a(3) by (auto simp: allocate_def soft_limit_check_def Let_def insert_object_def objects_def
        heap_try_get_def general_entry_def shard_of_def fun_eq_iff split: if_splits)
  with allocate_correct [OF a(1,2) gc_ok_None a(3)] show "heap_wf h' \<and> objects h' = objects h" by simp
qed


section \<open>Guardian relations\<close>

text \<open>
  The two maps hold the same relation, one in each direction; keys are unique and no set is
  empty.
\<close>

definition relation_ok :: "relation \<Rightarrow> bool" where
  "relation_ok m \<longleftrightarrow> distinct (map fst m) \<and> (\<forall>(k, vs) \<in> set m. vs \<noteq> [] \<and> distinct vs)"

definition tracking_wf :: "heap \<Rightarrow> bool" where
  "tracking_wf h \<longleftrightarrow> relation_ok (guardian_to_tracked h) \<and> relation_ok (tracked_to_guardians h) \<and>
     (\<forall>g t. t \<in> set (related (guardian_to_tracked h) g) \<longleftrightarrow> g \<in> set (related (tracked_to_guardians h) t))"

definition tracking :: "heap \<Rightarrow> (object_id \<times> object_id) set" where
  "tracking h = {(g, t). t \<in> set (related (guardian_to_tracked h) g)}"

lemma related_update [simp]: "related (AList.update k vs m) j = (if j = k then vs else related m j)"
  by (simp add: related_def update_conv')

lemma related_delete [simp]: "related (AList.delete k m) j = (if j = k then [] else related m j)"
  by (simp add: related_def delete_conv')

lemma set_related_insert [simp]:
  "set (related (rel_insert k v m) j) = (if j = k then insert v (set (related m j)) else set (related m j))"
  by (simp add: rel_insert_def)

lemma rel_erase_eq:
  "rel_erase k v m = (v \<in> set (related m k), if map_of m k = None then m
     else if removeAll v (related m k) = [] then AList.delete k m else AList.update k (removeAll v (related m k)) m)"
  by (auto simp: rel_erase_def related_def Let_def split: option.splits)

lemma set_related_erase [simp]:
  "set (related (snd (rel_erase k v m)) j) = (if j = k then set (related m j) - {v} else set (related m j))"
proof (cases "map_of m k")
  case None
  then show ?thesis by (auto simp: rel_erase_eq) (simp add: related_def)
next
  case (Some vs)
  then have r: "related m k = vs" by (simp add: related_def)
  have e: "set vs - {v} = set (removeAll v vs)" by simp
  show ?thesis
  proof (cases "removeAll v vs = []")
    case True
    then have "set vs - {v} = {}" unfolding e by simp
    then show ?thesis using Some True r by (simp add: rel_erase_eq)
  next
    case False
    then show ?thesis using Some r by (simp add: rel_erase_eq)
  qed
qed

lemma relation_ok_related: "relation_ok m \<Longrightarrow> distinct (related m k)"
  by (auto simp: related_def relation_ok_def split: option.splits dest: map_of_SomeD)

lemma relation_ok_update: "relation_ok m \<Longrightarrow> vs \<noteq> [] \<Longrightarrow> distinct vs \<Longrightarrow> relation_ok (AList.update k vs m)"
proof -
  assume ok: "relation_ok m" and vs: "vs \<noteq> []" "distinct vs"
  have "set (AList.update k vs m) \<subseteq> insert (k, vs) (set m)" by (induction m) auto
  then have "\<forall>(k, vs) \<in> set (AList.update k vs m). vs \<noteq> [] \<and> distinct vs"
    using ok vs unfolding relation_ok_def by blast
  moreover have "distinct (map fst (AList.update k vs m))"
    using ok by (simp add: relation_ok_def distinct_update)
  ultimately show ?thesis by (simp add: relation_ok_def)
qed

lemma relation_ok_insert: "relation_ok m \<Longrightarrow> relation_ok (rel_insert k v m)"
  unfolding rel_insert_def by (rule relation_ok_update) (auto simp: List.insert_def relation_ok_related)

lemma relation_ok_delete: "relation_ok m \<Longrightarrow> relation_ok (AList.delete k m)"
  using distinct_delete [of m k] by (auto simp: relation_ok_def AList.delete_eq)

lemma relation_ok_erase: "relation_ok m \<Longrightarrow> relation_ok (snd (rel_erase k v m))"
  by (simp add: rel_erase_eq relation_ok_delete relation_ok_update relation_ok_related distinct_removeAll)

lemma delete_absent: "map_of m k = None \<Longrightarrow> AList.delete k m = m"
  by (simp add: map_of_eq_None_iff)

lemma rel_erase_all_correct:
  "relation_ok m \<Longrightarrow> relation_ok (rel_erase_all ks v m) \<and>
   (\<forall>j. set (related (rel_erase_all ks v m) j) = (if j \<in> set ks then set (related m j) - {v} else set (related m j)))"
  unfolding rel_erase_all_def by (induction ks arbitrary: m) (auto simp: relation_ok_erase)

lemma tracking_snapshot: "tracking_wf h \<Longrightarrow> set (guardian_tracking_snapshot h) = tracking h"
  by (fastforce simp: guardian_tracking_snapshot_def tracking_def tracking_wf_def relation_ok_def related_def
      map_of_eq_Some_iff dest: map_of_SomeD split: option.splits)

lemma guardian_track_correct:
  assumes "tracking_wf h" "guardian_track g t h = (r, h')"
  shows "tracking_wf h'" "tracking h' = (if is_ok r then insert (g, t) (tracking h) else tracking h)"
proof -
  have "tracking_wf h' \<and> tracking h' = (if is_ok r then insert (g, t) (tracking h) else tracking h)"
  proof (cases "is_ok r")
    case True
    then have "h' = h\<lparr>guardian_to_tracked := rel_insert g t (guardian_to_tracked h),
        tracked_to_guardians := rel_insert t g (tracked_to_guardians h)\<rparr>"
      using assms(2) by (auto simp: guardian_track_def split: option.splits if_splits)
    then show ?thesis using True assms(1) by (auto simp: tracking_wf_def tracking_def relation_ok_insert split: if_splits)
  next
    case False
    then have "h' = h" using assms(2) by (auto simp: guardian_track_def split: option.splits if_splits)
    then show ?thesis using False assms(1) by simp
  qed
  then show "tracking_wf h'" "tracking h' = (if is_ok r then insert (g, t) (tracking h) else tracking h)" by auto
qed

lemma remove_guardian_tracking_correct:
  assumes "tracking_wf h" "remove_guardian_tracking g t h = (b, h')"
  shows "tracking_wf h'" "tracking h' = tracking h - {(g, t)}" "b \<longleftrightarrow> (g, t) \<in> tracking h"
proof -
  have h': "h' = h\<lparr>guardian_to_tracked := snd (rel_erase g t (guardian_to_tracked h)),
      tracked_to_guardians := snd (rel_erase t g (tracked_to_guardians h))\<rparr>"
    "b = (fst (rel_erase g t (guardian_to_tracked h)) \<or> fst (rel_erase t g (tracked_to_guardians h)))"
    using assms(2) by (auto simp: remove_guardian_tracking_def split: prod.splits)
  then show "tracking_wf h'" "tracking h' = tracking h - {(g, t)}"
    using assms(1) by (auto simp: tracking_wf_def tracking_def relation_ok_erase split: if_splits)
  show "b \<longleftrightarrow> (g, t) \<in> tracking h"
    using assms(1) by (auto simp: h'(2) rel_erase_eq tracking_wf_def tracking_def)
qed

lemma erase_tracking_for_object:
  assumes "tracking_wf h"
  shows "tracking_wf (erase_guardian_tracking_for_object i h)"
    "tracking (erase_guardian_tracking_for_object i h) = {(g, t) \<in> tracking h. t \<noteq> i}"
proof -
  let ?gs = "related (tracked_to_guardians h) i"
  have inv: "t \<in> set (related (guardian_to_tracked h) g) \<longleftrightarrow> g \<in> set (related (tracked_to_guardians h) t)" for g t
    using assms by (simp add: tracking_wf_def)
  have eq: "erase_guardian_tracking_for_object i h = h\<lparr>guardian_to_tracked := rel_erase_all ?gs i (guardian_to_tracked h),
      tracked_to_guardians := AList.delete i (tracked_to_guardians h)\<rparr>"
    by (cases "map_of (tracked_to_guardians h) i")
      (simp_all add: erase_guardian_tracking_for_object_def related_def rel_erase_all_def delete_absent)
  note R = rel_erase_all_correct [of "guardian_to_tracked h" ?gs i]
  show "tracking_wf (erase_guardian_tracking_for_object i h)"
    using assms R inv unfolding eq by (auto simp: tracking_wf_def relation_ok_delete split: if_splits)
  show "tracking (erase_guardian_tracking_for_object i h) = {(g, t) \<in> tracking h. t \<noteq> i}"
    using assms R inv unfolding eq by (auto simp: tracking_wf_def tracking_def split: if_splits)
qed

lemma erase_tracking_for_guardian:
  assumes "tracking_wf h"
  shows "tracking_wf (erase_guardian_tracking_for_guardian i h)"
    "tracking (erase_guardian_tracking_for_guardian i h) = {(g, t) \<in> tracking h. g \<noteq> i}"
proof -
  let ?ts = "related (guardian_to_tracked h) i"
  have inv: "t \<in> set (related (guardian_to_tracked h) g) \<longleftrightarrow> g \<in> set (related (tracked_to_guardians h) t)" for g t
    using assms by (simp add: tracking_wf_def)
  have eq: "erase_guardian_tracking_for_guardian i h = h\<lparr>tracked_to_guardians := rel_erase_all ?ts i (tracked_to_guardians h),
      guardian_to_tracked := AList.delete i (guardian_to_tracked h)\<rparr>"
    by (cases "map_of (guardian_to_tracked h) i")
      (simp_all add: erase_guardian_tracking_for_guardian_def related_def rel_erase_all_def delete_absent)
  note R = rel_erase_all_correct [of "tracked_to_guardians h" ?ts i]
  show "tracking_wf (erase_guardian_tracking_for_guardian i h)"
    using assms R inv unfolding eq by (auto simp: tracking_wf_def relation_ok_delete split: if_splits)
  show "tracking (erase_guardian_tracking_for_guardian i h) = {(g, t) \<in> tracking h. g \<noteq> i}"
    using assms R inv unfolding eq by (auto simp: tracking_wf_def tracking_def split: if_splits)
qed


section \<open>Properties\<close>

text \<open>C10: An allocation that succeeds returns the next id, which was in no shard and in no slab
  of the pool, binds exactly that id on top of what the soft-limit check (and the collection
  it may run) left, and stays below the limit; one that fails adds no object. The byte
  counters stay the sum of the live sizes.\<close>

theorem allocate_fresh:
  assumes "heap_wf h" "heap_room h" "gc_ok gc (h\<lparr>next_id := next_id h + 1\<rparr>)"
  shows "heap_wf (snd (allocate gc mem sz ob h)) \<and> (case fst (allocate gc mem sz ob h) of
      Inr i \<Rightarrow> i = next_id h \<and> i \<le> PAYLOAD_MASK \<and> objects h i = None \<and>
        objects (snd (allocate gc mem sz ob h)) =
          (objects (snd (soft_limit_check gc sz (h\<lparr>next_id := next_id h + 1\<rparr>))))(i \<mapsto> ob) \<and>
        total_heap_bytes (snd (allocate gc mem sz ob h)) \<le> max_heap_soft_limit h
    | Inl e \<Rightarrow> dom (objects (snd (allocate gc mem sz ob h))) \<subseteq> dom (objects h))"
  using allocate_correct [OF assms prod.collapse [symmetric], of mem sz ob]
  by (cases "fst (allocate gc mem sz ob h)") simp_all

theorem allocate_fresh_witness:
  "fst (allocate None True 24 (Vector_obj []) (heap_with_pool 2 1000)) = Inr 3 \<and>
   objects (snd (allocate None True 24 (Vector_obj []) (heap_with_pool 2 1000))) 3 = Some (Vector_obj [])"
proof -
  let ?h = "heap_with_pool 2 1000"
  have wf: "heap_wf ?h" by (rule heap_with_pool_wf) simp_all
  have n: "next_id ?h = 3" "growth (pool ?h) = 2" "fst (allocate None True 24 (Vector_obj []) ?h) = Inr 3" by code_simp+
  then have "heap_room ?h" by (simp add: heap_room_def)
  from allocate_fresh [OF wf this gc_ok_None, of True 24 "Vector_obj []"] n show ?thesis by simp
qed

text \<open>C14: Deallocation succeeds exactly on live ids, removes exactly that object from the pool or
  its shard with its mark, and keeps the invariant, so no byte is counted twice or lost.\<close>

theorem deallocate_exact:
  assumes "heap_wf h"
  shows "heap_wf (snd (deallocate i h)) \<and> objects (snd (deallocate i h)) = (objects h)(i := None) \<and>
    heap_marked (snd (deallocate i h)) = (heap_marked h)(i := False) \<and>
    (is_ok (fst (deallocate i h)) \<longleftrightarrow> objects h i \<noteq> None)"
  using deallocate_correct(1-4) [OF assms prod.collapse [symmetric], of i] by simp

theorem deallocate_exact_witness:
  "objects (snd (deallocate 1 (snd (alloc_cons None Nil_val Nil_val (heap_with_pool 2 1000))))) 1 = None"
proof -
  let ?h = "heap_with_pool 2 1000"
  have wf: "heap_wf ?h" by (rule heap_with_pool_wf) simp_all
  have "next_id ?h = 3" "growth (pool ?h) = 2" by code_simp+
  then have "heap_room ?h" by (simp add: heap_room_def)
  then have "heap_wf (snd (alloc_cons None Nil_val Nil_val ?h))"
    using alloc_cons_correct [OF wf _ gc_ok_None prod.collapse [symmetric], of Nil_val Nil_val] by (simp split: sum.splits)
  from deallocate_exact [OF this, of 1] show ?thesis by simp
qed

text \<open>C15: The two directions of the guardian relation stay inverse to each other under
  deallocation, which drops the pairs of a deallocated guardian, or the pairs in which a
  deallocated other object is tracked. A guardian that is itself tracked keeps that pair.\<close>

theorem deallocate_tracking:
  assumes "heap_wf h" "tracking_wf h" "objects h i = Some ob"
  shows "tracking_wf (snd (deallocate i h)) \<and>
    tracking (snd (deallocate i h)) =
      {(g, t) \<in> tracking h. if kind_of ob = Guardian_kind then g \<noteq> i else t \<noteq> i}"
proof -
  have eq: "tracking_wf h' = tracking_wf h" "tracking h' = tracking h"
    if "guardian_to_tracked h' = guardian_to_tracked h" "tracked_to_guardians h' = tracked_to_guardians h" for h'
    using that by (simp_all add: tracking_wf_def tracking_def)
  have q: "guardian_to_tracked (erase_finalizers i k) = guardian_to_tracked k"
    "tracked_to_guardians (erase_finalizers i k) = tracked_to_guardians k" for k
    by (simp_all add: erase_finalizers_def erase_pending_finalizers_for_object_def remove_finalizer_def)
  note eqf = eq [of "erase_finalizers i k" for k, unfolded q]
  show ?thesis
  proof (cases "owns (pool h) i")
    case True
    then have "kind_of ob = Cons_kind" "pool_try_get (pool h) i \<noteq> None"
      using assms(3) by (auto simp: objects_owned)
    moreover define k where "k = erase_finalizers i (h\<lparr>pool := free_slot i (pool h), total_heap_bytes := total_heap_bytes h - CONS_SIZE\<rparr>)"
    moreover have "tracking_wf k = tracking_wf h" "tracking k = tracking h"
      by (rule eq; simp add: k_def q)+
    ultimately show ?thesis
      using True erase_tracking_for_object [of k i] assms(2) by (simp add: deallocate_def flip: k_def del: not_None_eq)
  next
    case False
    then obtain e where e: "general_entry h i = Some e" "entry_ptr e = Some ob"
      using assms(3) by (cases "general_entry h i") (auto simp: objects_general)
    have "kind (entry_header e) = kind_of ob"
      using general_entry_ok [OF _ e(1)] assms(1) e(2) by (simp add: heap_wf_def entry_ok_iff)
    moreover define k where "k = erase_finalizers i (update_shard (erase_entry i (entry_size e)) i
      (h\<lparr>total_heap_bytes := total_heap_bytes h - entry_size e\<rparr>))"
    moreover have "tracking_wf k = tracking_wf h" "tracking k = tracking h"
      by (rule eq; simp add: k_def q)+
    ultimately show ?thesis
      using False e erase_tracking_for_object [of k i] erase_tracking_for_guardian [of k i] assms(2)
      by (simp add: deallocate_def Let_def flip: k_def)
  qed
qed

text \<open>Two guardians, the first tracking the second; deallocating the second leaves the pair behind.\<close>

definition sample_guardians :: heap where
  "sample_guardians = snd (guardian_track 3 4 (snd (allocate None True 32 (Guardian_obj [])
     (snd (allocate None True 32 (Guardian_obj []) (heap_with_pool 2 1000))))))"

lemma sample_guardians_wf: "heap_wf sample_guardians" "tracking_wf sample_guardians"
proof -
  let ?h = "heap_with_pool 2 1000" and ?al = "\<lambda>h. snd (allocate None True 32 (Guardian_obj []) h)"
  have 0: "heap_wf ?h" by (rule heap_with_pool_wf) simp_all
  have n: "next_id ?h = 3" "growth (pool ?h) = 2" "next_id (?al ?h) = 4" "growth (pool (?al ?h)) = 2" by code_simp+
  have "heap_room ?h" using n by (simp add: heap_room_def)
  with 0 have 1: "heap_wf (?al ?h)" by (rule heap_allocator.alloc_inv)
  have "heap_room (?al ?h)" using n by (simp add: heap_room_def)
  with 1 have 2: "heap_wf (?al (?al ?h))" by (rule heap_allocator.alloc_inv)
  then show "heap_wf sample_guardians"
    using same_store_wf [of "?al (?al ?h)" sample_guardians] by (simp add: sample_guardians_def)
  have e: "guardian_to_tracked (?al (?al ?h)) = []" "tracked_to_guardians (?al (?al ?h)) = []" by code_simp+
  have "tracking_wf (?al (?al ?h))" unfolding tracking_wf_def e by (simp add: relation_ok_def related_def)
  then show "tracking_wf sample_guardians"
    unfolding sample_guardians_def by (rule guardian_track_correct(1)) (rule prod.collapse [symmetric])
qed

theorem deallocate_tracking_witness:
  "(3, 4) \<in> tracking (snd (deallocate 4 sample_guardians)) \<and> objects (snd (deallocate 4 sample_guardians)) 4 = None"
proof -
  have o: "objects sample_guardians 4 = Some (Guardian_obj [])" "objects (snd (deallocate 4 sample_guardians)) 4 = None"
    "4 \<in> set (related (guardian_to_tracked sample_guardians) 3)" by code_simp+
  from deallocate_tracking [OF sample_guardians_wf o(1)] o show ?thesis by (simp add: tracking_def)
qed

end
