(* ===== verification/MarkSweep.thy ===== *)
theory MarkSweep
  imports Heap
begin

text \<open>
  The collector, \<^verbatim>\<open>eta/core/src/eta/runtime/memory/mark_sweep_gc.h\<close> and \<^verbatim>\<open>mark_sweep_gc.cpp\<close>:
  marking with an explicit worklist, the finalizer fixpoint, delivery to finalizers and
  guardians, and the sweep. The root enumeration callback is the list of the roots it visits.
  The worklist vector is a list whose head is the vector's back.
\<close>

section \<open>Marking\<close>

definition push_refs :: "lispval list \<Rightarrow> object_id list \<Rightarrow> object_id list" where
  "push_refs vs work = rev (heap_ref_ids vs) @ work"

definition entry_refs :: "heap_entry \<Rightarrow> lispval list" where
  "entry_refs e = (case entry_ptr e of None \<Rightarrow> [] | Some ob \<Rightarrow> heap_refs ob)"

definition entry_marked :: "heap_entry \<Rightarrow> bool" where
  "entry_marked e = is_marked_flag (flags (entry_header e))"

definition gc_is_marked :: "heap \<Rightarrow> object_id \<Rightarrow> bool" where
  "gc_is_marked h i =
     (if owns (pool h) i
      then (case pool_try_get_entry (pool h) i of None \<Rightarrow> False | Some e \<Rightarrow> entry_marked e)
      else (case heap_try_get h i of None \<Rightarrow> False | Some e \<Rightarrow> entry_marked e))"

text \<open>The number of live unmarked objects, which every round of marking lowers.\<close>

definition unmarked_slots :: "cons_pool \<Rightarrow> nat" where
  "unmarked_slots p = length (filter (\<lambda>r. slot_allocated (slot_mem p r) \<and> \<not> slot_marked (slot_mem p r)) (all_ptrs p))"

definition unmarked_in_shard :: "shard \<Rightarrow> nat" where
  "unmarked_in_shard sh = length (filter (\<lambda>(i, e). \<not> entry_marked e) (heap_objects sh))"

definition unmarked :: "heap \<Rightarrow> nat" where
  "unmarked h = unmarked_slots (pool h) + (\<Sum>n < NUM_SHARDS. unmarked_in_shard (shards h n))"

lemma find_slot_valid: "find_slot p i = Some r \<Longrightarrow> valid_ptr p r"
proof -
  assume f: "find_slot p i = Some r"
  obtain m k where r: "r = Slot m k" by (cases r)
  from f find_slot_from_Some [of 0 "slabs p" i m k]
  have m: "m < length (slabs p)" and ins: "in_slab i (slabs p ! m)" and k: "k = unat (i - slab_base (slabs p ! m))"
    by (auto simp: find_slot_def r)
  let ?b = "slab_base (slabs p ! m)" and ?c = "slab_capacity (slabs p ! m)"
  have "unat (?b + of_nat ?c) \<le> unat ?b + ?c"
    by (simp add: unat_word_ariths unat_of_nat)
  then have "unat i < unat ?b + ?c" "unat ?b \<le> unat i"
    using ins by (auto simp: in_slab_def word_less_nat_alt word_le_nat_alt)
  then have "k < ?c" by (simp add: k unat_sub word_le_nat_alt)
  with m show "valid_ptr p r" by (simp add: valid_ptr_def r)
qed

lemma length_filter_strict:
  assumes "\<And>x. x \<in> set xs \<Longrightarrow> Q x \<Longrightarrow> P x" "y \<in> set xs" "P y" "\<not> Q y"
  shows "length (filter Q xs) < length (filter P xs)"
  using assms
proof (induction xs)
  case (Cons x xs)
  have "length (filter Q ys) \<le> length (filter P ys)" if "\<forall>x \<in> set ys. Q x \<longrightarrow> P x" for ys
    using that by (induction ys) auto
  then have le: "length (filter Q xs) \<le> length (filter P xs)" using Cons.prems(1) by simp
  show ?case
  proof (cases "x = y")
    case True
    with le Cons.prems show ?thesis by simp
  next
    case False
    with Cons.IH Cons.prems le show ?thesis by auto
  qed
qed simp

lemma all_ptrs_write [simp]: "all_ptrs (write_slot r s p) = all_ptrs p"
  by (simp add: all_ptrs_def)

lemma unmarked_try_mark: "pool_try_mark i p = (Some c, p') \<Longrightarrow> unmarked_slots p' < unmarked_slots p"
proof -
  assume t: "pool_try_mark i p = (Some c, p')"
  then obtain r where l: "live_slot p i = Some r" and nm: "\<not> slot_marked (slot_mem p r)"
    and p': "p' = write_slot r (set_flags (set_mark (flags (slot_header (slot_mem p r)))) (slot_mem p r)) p"
    by (auto simp: pool_try_mark_def Let_def split: option.splits if_splits)
  have "r \<in> set (all_ptrs p)" "slot_allocated (slot_mem p r)"
    using l find_slot_valid by (auto simp: set_all_ptrs live_slot_def split: option.splits if_splits)
  with nm show "unmarked_slots p' < unmarked_slots p"
    by (auto simp: unmarked_slots_def p' set_flags_def intro!: length_filter_strict [where y = r])
qed

lemma unmarked_with_entry:
  assumes "\<not> owns (pool h) i" "general_entry h i = Some e" "\<not> entry_marked e" "with_entry i set_mark h = (b, h')"
  shows "unmarked h' < unmarked h"
proof -
  let ?sh = "shard_of h i" and ?s = "select_shard i"
  have h': "h' = update_shard (map_entry (entry_flags set_mark) i) i h"
    using assms by (simp add: with_entry_def)
  have m: "entry_marked (entry_flags set_mark e)" for e by (simp add: entry_marked_def entry_flags_def)
  have "(i, e) \<in> set (heap_objects ?sh)" using assms(2) by (auto simp: general_entry_def dest: map_of_SomeD)
  then have "length (filter ((\<lambda>(i, e). \<not> entry_marked e) \<circ> (\<lambda>(k, e). (k, if k = i then entry_flags set_mark e else e))) (heap_objects ?sh))
      < length (filter (\<lambda>(i, e). \<not> entry_marked e) (heap_objects ?sh))"
    using assms(3) m by (auto intro!: length_filter_strict [where y = "(i, e)"] split: if_splits)
  then have lt: "unmarked_in_shard (map_entry (entry_flags set_mark) i ?sh) < unmarked_in_shard ?sh"
    by (simp add: unmarked_in_shard_def map_entry_def filter_map)
  have "(\<Sum>n < NUM_SHARDS. unmarked_in_shard (shards h' n)) < (\<Sum>n < NUM_SHARDS. unmarked_in_shard (shards h n))"
    by (rule sum_strict_mono_ex1) (use lt select_shard_less in \<open>auto simp: h' update_shard_def shard_of_def intro!: bexI [of _ ?s]\<close>)
  then show ?thesis by (simp add: unmarked_def h')
qed

lemma mark_worklist_decreases:
  "(x, p) = pool_try_mark i (pool h) \<Longrightarrow> x = Some c \<Longrightarrow> unmarked (h\<lparr>pool := p\<rparr>) < unmarked h"
  "\<not> owns (pool h) i \<Longrightarrow> heap_try_get h i = Some e \<Longrightarrow> \<not> entry_marked e \<Longrightarrow>
   (b, h') = with_entry i set_mark h \<Longrightarrow> unmarked h' < unmarked h"
  using unmarked_try_mark [of i "pool h" c p] unmarked_with_entry [of h i e b h', OF _ _ _ sym]
  by (auto simp: heap_try_get_def dest: sym) (simp add: unmarked_def)

function mark_worklist :: "heap \<Rightarrow> object_id list \<Rightarrow> bool \<times> heap" where
  "mark_worklist h [] = (False, h)"
| "mark_worklist h (i # work) =
     (case pool_try_mark i (pool h) of
        (Some (a, d), p) \<Rightarrow> (True, snd (mark_worklist (h\<lparr>pool := p\<rparr>) (push_refs [a, d] work)))
      | (None, _) \<Rightarrow>
          if owns (pool h) i then mark_worklist h work
          else (case heap_try_get h i of
              None \<Rightarrow> mark_worklist h work
            | Some e \<Rightarrow>
                if entry_marked e then mark_worklist h work
                else (case with_entry i set_mark h of
                    (False, _) \<Rightarrow> mark_worklist h work
                  | (True, h') \<Rightarrow> (True, snd (mark_worklist h' (push_refs (entry_refs e) work))))))"
  by pat_completeness auto

termination
  by (relation "measures [\<lambda>(h, work). unmarked h, \<lambda>(h, work). length work]")
    (use mark_worklist_decreases in auto)

definition mark_from_values :: "heap \<Rightarrow> lispval list \<Rightarrow> bool \<times> heap" where
  "mark_from_values h vs = mark_worklist h (push_refs vs [])"

definition mark_value :: "heap \<Rightarrow> lispval \<Rightarrow> bool \<times> heap" where
  "mark_value h v = mark_from_values h [v]"

definition mark_from_roots :: "lispval list \<Rightarrow> heap \<Rightarrow> heap" where
  "mark_from_roots roots h = snd (mark_from_values h roots)"

definition mark_pending_finalizers :: "heap \<Rightarrow> heap" where
  "mark_pending_finalizers h =
     (if pending_finalizers h = [] then h
      else snd (mark_from_values h (concat (map (\<lambda>(ob, pr). [ob, pr]) (pending_finalizers h)))))"


text \<open>Marking never unmarks, and reports whether it marked anything.\<close>

lemma mark_worklist_unmarked:
  "mark_worklist h work = (b, h') \<Longrightarrow> unmarked h' \<le> unmarked h \<and> (b \<longrightarrow> unmarked h' < unmarked h)"
proof (induction h work arbitrary: b h' rule: mark_worklist.induct)
  case (2 h i work)
  show ?case
  proof (cases "pool_try_mark i (pool h)")
    case (Pair x p)
    show ?thesis
    proof (cases x)
      case (Some c)
      obtain a d where c: "c = (a, d)" by (cases c)
      obtain b1 h1 where m: "mark_worklist (h\<lparr>pool := p\<rparr>) (push_refs [a, d] work) = (b1, h1)"
        by (cases "mark_worklist (h\<lparr>pool := p\<rparr>) (push_refs [a, d] work)")
      have "unmarked (h\<lparr>pool := p\<rparr>) < unmarked h"
        by (rule mark_worklist_decreases(1) [OF Pair [symmetric]]) (rule Some)
      moreover have "unmarked h1 \<le> unmarked (h\<lparr>pool := p\<rparr>)"
        using "2.IH"(6) [OF Pair [symmetric] Some] c m by auto
      moreover have "h' = h1" using "2.prems" Pair Some c m by simp
      ultimately show ?thesis by simp
    next
      case None
      consider "owns (pool h) i" | "\<not> owns (pool h) i" "heap_try_get h i = None"
        | e where "\<not> owns (pool h) i" "heap_try_get h i = Some e" "entry_marked e"
        | e h1 where "\<not> owns (pool h) i" "heap_try_get h i = Some e" "\<not> entry_marked e" "with_entry i set_mark h = (False, h1)"
        | e h1 where "\<not> owns (pool h) i" "heap_try_get h i = Some e" "\<not> entry_marked e" "with_entry i set_mark h = (True, h1)"
        by (metis (full_types) not_None_eq surj_pair)
      then show ?thesis
      proof cases
        case (5 e h1)
        obtain b2 h2 where m: "mark_worklist h1 (push_refs (entry_refs e) work) = (b2, h2)"
          by (cases "mark_worklist h1 (push_refs (entry_refs e) work)")
        have "unmarked h1 < unmarked h"
          using mark_worklist_decreases(2) [OF 5(1,2,3) 5(4) [symmetric]] .
        moreover have "unmarked h2 \<le> unmarked h1"
          using "2.IH"(4) [OF Pair [symmetric] None 5(1,2,3) 5(4) [symmetric] refl m] by simp
        moreover have "h' = h2" using "2.prems" Pair None 5 m by simp
        ultimately show ?thesis by simp
      qed (use "2.prems" "2.IH"(1,2,3,5) Pair None in auto)
    qed
  qed
qed simp

section \<open>Finalizers\<close>

text \<open>One pass over a snapshot of the table, and passes until one marks nothing.\<close>

fun finalizer_pass :: "(object_id \<times> lispval) list \<Rightarrow> heap \<Rightarrow> bool \<times> heap" where
  "finalizer_pass [] h = (False, h)"
| "finalizer_pass ((i, pr) # fs) h =
     (if \<not> gc_is_marked h i then finalizer_pass fs h
      else (case mark_value h pr of (m, h1) \<Rightarrow>
              (case finalizer_pass fs h1 of (c, h2) \<Rightarrow> (m \<or> c, h2))))"

lemma finalizer_pass_unmarked:
  "finalizer_pass fs h = (b, h') \<Longrightarrow> unmarked h' \<le> unmarked h \<and> (b \<longrightarrow> unmarked h' < unmarked h)"
proof (induction fs h arbitrary: b h' rule: finalizer_pass.induct)
  case (2 i pr fs h)
  show ?case
  proof (cases "gc_is_marked h i")
    case True
    obtain m h1 where m: "mark_value h pr = (m, h1)" by (cases "mark_value h pr")
    obtain c h2 where c: "finalizer_pass fs h1 = (c, h2)" by (cases "finalizer_pass fs h1")
    have "unmarked h1 \<le> unmarked h \<and> (m \<longrightarrow> unmarked h1 < unmarked h)"
      using m mark_worklist_unmarked by (simp add: mark_value_def mark_from_values_def)
    moreover have "unmarked h2 \<le> unmarked h1 \<and> (c \<longrightarrow> unmarked h2 < unmarked h1)"
      using "2.IH"(2) True m c by simp
    ultimately show ?thesis using "2.prems" True m c by auto
  qed (use 2 in simp)
qed simp

function mark_live_finalizer_procs_fixpoint :: "heap \<Rightarrow> heap" where
  "mark_live_finalizer_procs_fixpoint h =
     (case finalizer_pass (finalizer_table h) h of
        (True, h') \<Rightarrow> mark_live_finalizer_procs_fixpoint h'
      | (False, h') \<Rightarrow> h')"
  by pat_completeness auto

termination
  by (relation "measure unmarked") (use finalizer_pass_unmarked in \<open>auto dest!: sym [of "(True, _)"]\<close>)

declare mark_live_finalizer_procs_fixpoint.simps [simp del]

definition snapshot_dead_finalizer_keys :: "heap \<Rightarrow> object_id list" where
  "snapshot_dead_finalizer_keys h = map fst (filter (\<lambda>(i, _). \<not> gc_is_marked h i) (finalizer_table h))"

definition snapshot_dead_guarded_objects :: "heap \<Rightarrow> object_id list" where
  "snapshot_dead_guarded_objects h =
     map snd (filter (\<lambda>(_, i). \<not> gc_is_marked h i) (guardian_tracking_snapshot h))"

definition enqueue_dead_finalizer :: "object_id list \<Rightarrow> object_id \<times> lispval \<Rightarrow> heap \<Rightarrow> heap" where
  "enqueue_dead_finalizer dead = (\<lambda>(i, pr) h.
     if i \<notin> set dead then h
     else if heap_try_get h i = None then snd (remove_finalizer i h)
     else let boxed = box HeapObject_tag i;
              h1 = snd (remove_finalizer i (enqueue_pending_finalizer boxed pr h))
          in snd (mark_value (snd (mark_value h1 boxed)) pr))"

definition enqueue_dead_finalizers :: "object_id list \<Rightarrow> heap \<Rightarrow> heap" where
  "enqueue_dead_finalizers dead h = fold (enqueue_dead_finalizer dead) (finalizer_table h) h"

definition enqueue_dead_guardian :: "object_id list \<Rightarrow> object_id \<times> object_id \<Rightarrow> heap \<Rightarrow> heap" where
  "enqueue_dead_guardian dead = (\<lambda>(g, t) h.
     if \<not> gc_is_marked h g then snd (remove_guardian_tracking g t h)
     else if t \<notin> set dead then h
     else if heap_try_get h t = None then snd (remove_guardian_tracking g t h)
     else let boxed = box HeapObject_tag t in
       (case enqueue_guardian_ready g boxed h of
          (False, h1) \<Rightarrow> snd (remove_guardian_tracking g t h1)
        | (True, h1) \<Rightarrow> snd (mark_value (snd (remove_guardian_tracking g t h1)) boxed)))"

definition enqueue_dead_guardians :: "object_id list \<Rightarrow> heap \<Rightarrow> heap" where
  "enqueue_dead_guardians dead h = fold (enqueue_dead_guardian dead) (guardian_tracking_snapshot h) h"

section \<open>Sweep and collection\<close>

definition gc_clear_marks :: "heap \<Rightarrow> heap" where
  "gc_clear_marks h = for_each_flags clear_mark (h\<lparr>pool := pool_clear_marks (pool h)\<rparr>)"

definition garbage_ids :: "heap \<Rightarrow> object_id list" where
  "garbage_ids h = map fst (filter (\<lambda>(i, e). \<not> owns (pool h) i \<and> \<not> entry_marked e) (visited_entries h))"

fun deallocate_all :: "object_id list \<Rightarrow> nat \<times> heap \<Rightarrow> nat \<times> heap" where
  "deallocate_all [] s = s"
| "deallocate_all (i # is) (n, h) =
     (case deallocate i h of (r, h') \<Rightarrow> deallocate_all is (if is_ok r then n + 1 else n, h'))"

definition gc_sweep :: "heap \<Rightarrow> nat \<times> heap" where
  "gc_sweep h = (case sweep_cons_pool h of (freed, h1) \<Rightarrow> deallocate_all (garbage_ids h1) (freed, h1))"

record gc_stats =
  bytes_before :: nat
  bytes_after :: nat
  objects_freed :: nat

text \<open>The marking phases of \<^verbatim>\<open>collect\<close>, then the sweep with allocation paused.\<close>

definition gc_mark_phase :: "lispval list \<Rightarrow> heap \<Rightarrow> heap" where
  "gc_mark_phase roots h =
     (let h1 = mark_from_roots roots (gc_clear_marks h);
          h2 = mark_live_finalizer_procs_fixpoint (mark_pending_finalizers h1);
          dead_keys = snapshot_dead_finalizer_keys h2;
          dead_guarded = snapshot_dead_guarded_objects h2;
          h3 = enqueue_dead_guardians dead_guarded (enqueue_dead_finalizers dead_keys h2)
      in mark_live_finalizer_procs_fixpoint (mark_pending_finalizers h3))"

definition collect :: "lispval list \<Rightarrow> heap \<Rightarrow> gc_stats \<times> heap" where
  "collect roots h =
     (case gc_sweep (pause_for_gc (gc_mark_phase roots h)) of (freed, h') \<Rightarrow>
       (\<lparr>bytes_before = total_heap_bytes h, bytes_after = total_heap_bytes h', objects_freed = freed\<rparr>,
        resume_after_gc h'))"


section \<open>Reachability\<close>

type_synonym obj_map = "object_id \<Rightarrow> heap_obj option"

definition succs :: "obj_map \<Rightarrow> object_id \<Rightarrow> object_id list" where
  "succs ob i = (case ob i of None \<Rightarrow> [] | Some x \<Rightarrow> heap_ref_ids (heap_refs x))"

text \<open>The live objects reachable from a set of ids along the references the visitor lists.\<close>

inductive_set reach :: "obj_map \<Rightarrow> object_id set \<Rightarrow> object_id set" for ob R where
  root: "i \<in> R \<Longrightarrow> ob i \<noteq> None \<Longrightarrow> i \<in> reach ob R"
| step: "i \<in> reach ob R \<Longrightarrow> j \<in> set (succs ob i) \<Longrightarrow> ob j \<noteq> None \<Longrightarrow> j \<in> reach ob R"

text \<open>
  What a collection has to keep: everything reachable from the roots, and the procedure of
  every finalizer whose object is kept.
\<close>

inductive_set retained :: "obj_map \<Rightarrow> object_id set \<Rightarrow> (object_id \<times> lispval) set \<Rightarrow> object_id set"
  for ob R F where
  root: "i \<in> R \<Longrightarrow> ob i \<noteq> None \<Longrightarrow> i \<in> retained ob R F"
| step: "i \<in> retained ob R F \<Longrightarrow> j \<in> set (succs ob i) \<Longrightarrow> ob j \<noteq> None \<Longrightarrow> j \<in> retained ob R F"
| finalizer: "i \<in> retained ob R F \<Longrightarrow> (i, pr) \<in> F \<Longrightarrow> j \<in> set (heap_ref_ids [pr]) \<Longrightarrow> ob j \<noteq> None \<Longrightarrow>
    j \<in> retained ob R F"

lemma reach_live: "i \<in> reach ob R \<Longrightarrow> ob i \<noteq> None"
  by (induction rule: reach.induct) auto

lemma retained_live: "i \<in> retained ob R F \<Longrightarrow> ob i \<noteq> None"
  by (induction rule: retained.induct) auto

lemma reach_mono: "i \<in> reach ob R \<Longrightarrow> R \<subseteq> R' \<Longrightarrow> i \<in> reach ob R'"
  by (induction rule: reach.induct) (auto intro: reach.intros)

lemma reach_from:
  assumes "i \<in> reach ob (set (succs ob j) \<union> R)" "ob j \<noteq> None"
  shows "i \<in> reach ob (insert j R)"
  using assms
proof (induction rule: reach.induct)
  case (root i)
  then show ?case by (metis UnE insertI1 insertI2 reach.root reach.step)
qed (auto intro: reach.intros)

lemma reach_retained: "i \<in> reach ob V \<Longrightarrow> V \<inter> dom ob \<subseteq> retained ob R F \<Longrightarrow> i \<in> retained ob R F"
proof (induction rule: reach.induct)
  case (root i)
  then show ?case by auto
qed (auto intro: retained.step)

lemma retained_mono:
  assumes "i \<in> retained ob R F" "R \<subseteq> R'" "\<And>i. ob' i = None \<longleftrightarrow> ob i = None"
    "\<And>i. set (succs ob i) \<subseteq> set (succs ob' i)"
    "\<And>i pr. (i, pr) \<in> F \<Longrightarrow> ob i \<noteq> None \<Longrightarrow> (i, pr) \<in> F' \<or> set (heap_ref_ids [pr]) \<subseteq> R'"
  shows "i \<in> retained ob' R' F'"
  using assms(1)
proof (induction rule: retained.induct)
  case (root i)
  then show ?case using assms(2,3) by (intro retained.root) auto
next
  case (step i j)
  then show ?case using assms(3,4) by (meson retained.step subsetD)
next
  case (finalizer i pr j)
  show ?case
  proof (cases "(i, pr) \<in> F'")
    case True
    with finalizer assms(3) show ?thesis by (meson retained.finalizer)
  next
    case False
    then have "j \<in> R'" using assms(5) finalizer retained_live by blast
    with finalizer assms(3) show ?thesis by (intro retained.root) auto
  qed
qed

section \<open>What a marking does\<close>

definition marks :: "heap \<Rightarrow> object_id set" where
  "marks h = {i. heap_marked h i}"

text \<open>Everything but objects and marks.\<close>

definition gc_frame :: "heap \<Rightarrow> heap \<Rightarrow> bool" where
  "gc_frame h h' \<longleftrightarrow> next_id h' = next_id h \<and> slabs (pool h') = slabs (pool h) \<and>
     total_capacity (pool h') = total_capacity (pool h) \<and>
     total_heap_bytes h' = total_heap_bytes h \<and> max_heap_soft_limit h' = max_heap_soft_limit h \<and>
     external_roots h' = external_roots h"

definition queues_frame :: "heap \<Rightarrow> heap \<Rightarrow> bool" where
  "queues_frame h h' \<longleftrightarrow> finalizer_table h' = finalizer_table h \<and> pending_finalizers h' = pending_finalizers h \<and>
     guardian_to_tracked h' = guardian_to_tracked h \<and> tracked_to_guardians h' = tracked_to_guardians h"

lemma gc_frame_refl [simp]: "gc_frame h h" and queues_frame_refl [simp]: "queues_frame h h"
  by (simp_all add: gc_frame_def queues_frame_def)

lemma gc_frame_trans: "gc_frame h h' \<Longrightarrow> gc_frame h' h'' \<Longrightarrow> gc_frame h h''"
  and queues_frame_trans: "queues_frame h h' \<Longrightarrow> queues_frame h' h'' \<Longrightarrow> queues_frame h h''"
  by (simp_all add: gc_frame_def queues_frame_def)

lemma gc_is_marked_eq: "gc_is_marked h i = heap_marked h i"
  by (simp add: gc_is_marked_def heap_marked_def heap_try_get_def entry_marked_def split: option.split)

definition marked_one :: "heap \<Rightarrow> object_id \<Rightarrow> heap \<Rightarrow> bool" where
  "marked_one h i h' \<longleftrightarrow> heap_wf h' \<and> objects h' = objects h \<and> heap_marked h' = (heap_marked h)(i := True) \<and>
     gc_frame h h' \<and> queues_frame h h' \<and> unmarked h' < unmarked h"

lemma pool_try_mark_heap:
  assumes wf: "heap_wf h" and t: "pool_try_mark i (pool h) = (Some (a, d), p)"
  shows "marked_one h i (h\<lparr>pool := p\<rparr>)" "objects h i = Some (Cons_obj a d)" "\<not> heap_marked h i"
proof -
  have pw: "pool_wf (pool h) (next_id h)" using wf by (simp add: heap_wf_def)
  note T = pool_try_mark_Some [OF pw t]
  have own: "owns p = owns (pool h)" using T(6) by (simp add: owns_def fun_eq_iff)
  have oi: "owns (pool h) i" using T(3) by (rule pool_try_get_owns)
  have f: "slabs p = slabs (pool h)" "live_count p = live_count (pool h)" "total_capacity p = total_capacity (pool h)"
    using t by (auto simp: pool_try_mark_def Let_def split: option.splits if_splits)
  let ?h = "h\<lparr>pool := p\<rparr>"
  have wf': "heap_wf ?h" using wf T(1) own f by (simp add: heap_wf_def heap_frame shard_bytes_def)
  moreover have "objects ?h = objects h"
    unfolding fun_eq_iff objects_split [OF wf'] objects_split [OF wf] by (simp add: T(2) heap_frame)
  moreover have "heap_marked ?h j = ((heap_marked h)(i := True)) j" for j
    using T(5) own oi by (cases "owns (pool h) j") (auto simp: marked_owned marked_general heap_frame)
  moreover have "unmarked ?h < unmarked h" using mark_worklist_decreases(1) [OF t [symmetric] refl] .
  ultimately show "marked_one h i ?h"
    by (simp add: marked_one_def fun_eq_iff gc_frame_def queues_frame_def f)
  show "objects h i = Some (Cons_obj a d)" using T(3) oi by (simp add: objects_owned)
  show "\<not> heap_marked h i" using T(4) oi by (simp add: marked_owned)
qed

lemma with_entry_heap:
  assumes wf: "heap_wf h" and e: "\<not> owns (pool h) i" "general_entry h i = Some e" "\<not> entry_marked e"
  shows "\<exists>h'. with_entry i set_mark h = (True, h') \<and> marked_one h i h'"
proof -
  obtain ob where "entry_ptr e = Some ob"
    using general_entry_ok [OF _ e(2)] wf by (auto simp: heap_wf_def entry_ok_iff)
  then have "objects h i \<noteq> None" using e by (simp add: objects_general)
  note W = with_entry_correct [OF wf this]
  obtain h' where h': "with_entry i set_mark h = (True, h')" using W(4) by (cases "with_entry i set_mark h") auto
  moreover have "gc_frame h h' \<and> queues_frame h h'"
    using h' e by (auto simp: with_entry_def gc_frame_def queues_frame_def)
  moreover have "unmarked h' < unmarked h"
    using mark_worklist_decreases(2) [OF e(1) _ e(3) h' [symmetric]] e by (simp add: heap_try_get_def)
  ultimately show ?thesis using W by (auto simp: marked_one_def)
qed

text \<open>The loop, seen from a well-formed heap: an id is skipped, or marked and its references pushed.\<close>

lemma mark_worklist_skip:
  assumes wf: "heap_wf h" and i: "objects h i = None \<or> heap_marked h i"
  shows "mark_worklist h (i # work) = mark_worklist h work"
proof -
  obtain x p where t: "pool_try_mark i (pool h) = (x, p)" by (cases "pool_try_mark i (pool h)")
  have x: "x = None" using pool_try_mark_heap [OF wf] t i by (cases x) fastforce+
  show ?thesis
  proof (cases "owns (pool h) i")
    case False
    have "heap_try_get h i = None \<or> (\<exists>e. heap_try_get h i = Some e \<and> entry_marked e)"
      using i objects_None_iff [of h i] wf by (auto simp: heap_wf_def heap_marked_def entry_marked_def split: option.splits)
    then show ?thesis using t x False by auto
  qed (use t x in simp)
qed

lemma mark_worklist_mark:
  assumes wf: "heap_wf h" and i: "objects h i \<noteq> None" "\<not> heap_marked h i"
  shows "\<exists>h'. marked_one h i h' \<and>
    mark_worklist h (i # work) = (True, snd (mark_worklist h' (rev (succs (objects h) i) @ work)))"
proof -
  have pw: "pool_wf (pool h) (next_id h)" using wf by (simp add: heap_wf_def)
  obtain x p where t: "pool_try_mark i (pool h) = (x, p)" by (cases "pool_try_mark i (pool h)")
  show ?thesis
  proof (cases x)
    case (Some c)
    obtain a d where c: "c = (a, d)" by (cases c)
    have t': "pool_try_mark i (pool h) = (Some (a, d), p)" using t Some c by simp
    note P = pool_try_mark_heap [OF wf t']
    have "push_refs [a, d] work = rev (succs (objects h) i) @ work"
      by (simp add: push_refs_def succs_def P(2))
    then show ?thesis using P(1) t' by (intro exI [of _ "h\<lparr>pool := p\<rparr>"]) simp
  next
    case None
    have n: "\<not> owns (pool h) i"
      using pool_try_mark_None [of i "pool h" p] t None i by (auto simp: objects_owned marked_owned)
    then obtain e where e: "general_entry h i = Some e" "entry_ptr e = objects h i"
      using i(1) by (cases "general_entry h i") (auto simp: objects_general)
    have m: "\<not> entry_marked e" using i(2) n e by (simp add: marked_general entry_marked_def)
    obtain h' where h': "with_entry i set_mark h = (True, h')" "marked_one h i h'"
      using with_entry_heap [OF wf n e(1) m] by auto
    have "push_refs (entry_refs e) work = rev (succs (objects h) i) @ work"
      using i(1) by (auto simp: push_refs_def succs_def entry_refs_def e(2))
    with h' show ?thesis using t None n e m by (intro exI [of _ h']) (simp add: heap_try_get_def)
  qed
qed

lemma mark_worklist_rule [consumes 1, case_names empty skip mark]:
  assumes wf: "heap_wf h"
    and empty: "\<And>h. heap_wf h \<Longrightarrow> P h [] (False, h)"
    and skip: "\<And>h i w r. heap_wf h \<Longrightarrow> objects h i = None \<or> heap_marked h i \<Longrightarrow> P h w r \<Longrightarrow> P h (i # w) r"
    and mark: "\<And>h i w h' r. heap_wf h \<Longrightarrow> objects h i \<noteq> None \<Longrightarrow> \<not> heap_marked h i \<Longrightarrow> marked_one h i h' \<Longrightarrow>
      P h' (rev (succs (objects h) i) @ w) r \<Longrightarrow> P h (i # w) (True, snd r)"
  shows "P h work (mark_worklist h work)"
  using wf
proof (induction "(h, work)" arbitrary: h work
    rule: wf_induct_rule [OF wf_measures [of "[\<lambda>(h, work). unmarked h, \<lambda>(h, work). length work]"]])
  case 1
  show ?case
  proof (cases work)
    case Nil
    then show ?thesis using 1 empty by simp
  next
    case (Cons i w)
    show ?thesis
    proof (cases "objects h i = None \<or> heap_marked h i")
      case True
      have "P h w (mark_worklist h w)" by (rule "1.hyps") (use 1 Cons in simp_all)
      then show ?thesis using mark_worklist_skip [OF 1(2) True] skip [OF 1(2) True] Cons by simp
    next
      case False
      then obtain h' where h': "marked_one h i h'"
        "mark_worklist h (i # w) = (True, snd (mark_worklist h' (rev (succs (objects h) i) @ w)))"
        using mark_worklist_mark [OF 1(2)] by blast
      have "P h' (rev (succs (objects h) i) @ w) (mark_worklist h' (rev (succs (objects h) i) @ w))"
        by (rule "1.hyps") (use h'(1) in \<open>simp_all add: marked_one_def\<close>)
      then show ?thesis using mark [OF 1(2) _ _ h'(1)] False h'(2) Cons by simp
    qed
  qed
qed


text \<open>
  The result of a marking from the ids \<open>V\<close>: exactly what is reachable from them is added, and
  the references of what was added are marked too.
\<close>

definition marked_from :: "heap \<Rightarrow> object_id set \<Rightarrow> heap \<Rightarrow> bool" where
  "marked_from h V h' \<longleftrightarrow> heap_wf h' \<and> objects h' = objects h \<and> gc_frame h h' \<and> queues_frame h h' \<and>
     marks h \<subseteq> marks h' \<and> marks h' \<subseteq> marks h \<union> reach (objects h) V \<and> V \<inter> dom (objects h) \<subseteq> marks h' \<and>
     (\<forall>i \<in> marks h' - marks h. set (succs (objects h) i) \<inter> dom (objects h) \<subseteq> marks h')"

lemma mark_worklist_correct:
  assumes wf: "heap_wf h"
  shows "marked_from h (set work) (snd (mark_worklist h work)) \<and>
    (\<not> fst (mark_worklist h work) \<longrightarrow> marks (snd (mark_worklist h work)) = marks h)"
  using wf
proof (induction rule: mark_worklist_rule)
  case (empty h)
  then show ?case by (simp add: marked_from_def)
next
  case (skip h i w r)
  then have live: "objects h i \<noteq> None \<Longrightarrow> i \<in> marks h" by (auto simp: marks_def)
  have "reach (objects h) (set w) \<subseteq> reach (objects h) (set (i # w))" by (auto intro: reach_mono)
  with skip(3) live show ?case by (auto simp: marked_from_def)
next
  case (mark h i w h' r)
  let ?ob = "objects h" and ?w = "rev (succs (objects h) i) @ w" and ?g = "snd r"
  have h': "heap_wf h'" "objects h' = ?ob" "marks h' = insert i (marks h)" "gc_frame h h'" "queues_frame h h'"
    using mark(4) by (auto simp: marked_one_def marks_def)
  have g: "heap_wf ?g" "objects ?g = ?ob" "gc_frame h' ?g" "queues_frame h' ?g" "marks h' \<subseteq> marks ?g"
    "marks ?g \<subseteq> marks h' \<union> reach ?ob (set ?w)" "set ?w \<inter> dom ?ob \<subseteq> marks ?g"
    "\<forall>j \<in> marks ?g - marks h'. set (succs ?ob j) \<inter> dom ?ob \<subseteq> marks ?g"
    using mark(5) by (auto simp: marked_from_def h')
  have "reach ?ob (set ?w) \<subseteq> reach ?ob (insert i (set w))"
    using reach_from [of _ ?ob i "set w"] mark(2) by auto
  moreover have "i \<in> reach ?ob (insert i (set w))" using mark(2) by (auto intro: reach.root)
  ultimately have "marks ?g \<subseteq> marks h \<union> reach ?ob (insert i (set w))" using g(6) h'(3) by auto
  moreover have "set (succs ?ob i) \<inter> dom ?ob \<subseteq> marks ?g" using g(7) by auto
  moreover have "\<forall>j \<in> marks ?g - marks h. set (succs ?ob j) \<inter> dom ?ob \<subseteq> marks ?g"
    using g(8) h'(3) calculation(2) by (metis Diff_iff insert_iff)
  ultimately show ?case
    using g(1,2,5,7) h'(3) gc_frame_trans [OF h'(4) g(3)] queues_frame_trans [OF h'(5) g(4)]
    by (simp add: marked_from_def) auto
qed

definition val_ids :: "lispval list \<Rightarrow> object_id set" where
  "val_ids vs = set (heap_ref_ids vs)"

lemma val_ids_simps [simp]:
  "val_ids [] = {}" "val_ids (v # vs) = val_ids [v] \<union> val_ids vs" "val_ids (vs @ ws) = val_ids vs \<union> val_ids ws"
  by (auto simp: val_ids_def heap_ref_ids_def)

declare val_ids_simps(2) [simp del]

lemma mark_from_values_correct:
  assumes "heap_wf h"
  shows "marked_from h (val_ids vs) (snd (mark_from_values h vs))"
    "\<not> fst (mark_from_values h vs) \<Longrightarrow> marks (snd (mark_from_values h vs)) = marks h"
  using mark_worklist_correct [OF assms, of "push_refs vs []"]
  by (auto simp: mark_from_values_def push_refs_def val_ids_def)

text \<open>A mark set is closed when the live references of marked objects are marked.\<close>

definition closed_marks :: "heap \<Rightarrow> bool" where
  "closed_marks h \<longleftrightarrow> (\<forall>i \<in> marks h. set (succs (objects h) i) \<inter> dom (objects h) \<subseteq> marks h)"

lemma marked_from_closed: "closed_marks h \<Longrightarrow> marked_from h V h' \<Longrightarrow> closed_marks h'"
  unfolding closed_marks_def marked_from_def by (metis DiffI subset_trans)

lemma closed_reach: "closed_marks h \<Longrightarrow> V \<inter> dom (objects h) \<subseteq> marks h \<Longrightarrow> reach (objects h) V \<subseteq> marks h"
proof
  fix i
  assume c: "closed_marks h" "V \<inter> dom (objects h) \<subseteq> marks h" and "i \<in> reach (objects h) V"
  from this(3) show "i \<in> marks h"
    by (induction rule: reach.induct) (use c in \<open>auto simp: closed_marks_def\<close>)
qed

text \<open>From a closed mark set, marking adds exactly the reachable objects.\<close>

lemma mark_from_values_exact:
  assumes "heap_wf h" "closed_marks h"
  shows "marks (snd (mark_from_values h vs)) = marks h \<union> reach (objects h) (val_ids vs)"
proof -
  let ?h = "snd (mark_from_values h vs)"
  note M = mark_from_values_correct(1) [OF assms(1), of vs]
  have ob: "objects ?h = objects h" using M by (simp add: marked_from_def)
  have "reach (objects ?h) (val_ids vs) \<subseteq> marks ?h"
    by (rule closed_reach [OF marked_from_closed [OF assms(2) M]]) (use M in \<open>simp add: marked_from_def ob\<close>)
  with M show ?thesis by (auto simp: marked_from_def ob)
qed

lemma marks_live: "heap_wf h \<Longrightarrow> marks h \<subseteq> dom (objects h)"
  using heap_store.marked_live by (auto simp: marks_def)

section \<open>The finalizer fixpoint\<close>

text \<open>
  A collection state: closed marks, and no mark outside what has to be retained for the roots,
  the pending queue and the finalizers still registered.
\<close>

definition root_ids :: "lispval list \<Rightarrow> heap \<Rightarrow> object_id set" where
  "root_ids roots h = val_ids roots \<union> val_ids (concat (map (\<lambda>(ob, pr). [ob, pr]) (pending_finalizers h)))"

definition keep :: "lispval list \<Rightarrow> heap \<Rightarrow> object_id set" where
  "keep roots h = retained (objects h) (root_ids roots h) (set (finalizer_table h))"

definition gc_inv :: "lispval list \<Rightarrow> heap \<Rightarrow> bool" where
  "gc_inv roots h \<longleftrightarrow> heap_wf h \<and> closed_marks h \<and> marks h \<subseteq> keep roots h"

lemma gc_inv_mark:
  assumes inv: "gc_inv roots h" and m: "marked_from h V h'" and V: "V \<inter> dom (objects h) \<subseteq> keep roots h"
  shows "gc_inv roots h'" "keep roots h' = keep roots h"
proof -
  show k: "keep roots h' = keep roots h"
    using m by (simp add: keep_def root_ids_def marked_from_def queues_frame_def)
  have "reach (objects h) V \<subseteq> keep roots h"
    using V by (auto simp: keep_def intro: reach_retained)
  then show "gc_inv roots h'"
    using inv m marked_from_closed [OF _ m] k by (auto simp: gc_inv_def marked_from_def)
qed

lemma finalizer_in_keep:
  assumes "gc_inv roots h" "heap_marked h i" "(i, pr) \<in> set (finalizer_table h)"
  shows "val_ids [pr] \<inter> dom (objects h) \<subseteq> keep roots h"
  using assms by (auto simp: gc_inv_def keep_def marks_def val_ids_def intro: retained.finalizer)

definition mark_frame :: "heap \<Rightarrow> heap \<Rightarrow> bool" where
  "mark_frame h h' \<longleftrightarrow> objects h' = objects h \<and> gc_frame h h' \<and> queues_frame h h' \<and> marks h \<subseteq> marks h'"

lemma mark_frame_refl [simp]: "mark_frame h h"
  by (simp add: mark_frame_def)

lemma mark_frame_trans: "mark_frame h h' \<Longrightarrow> mark_frame h' h'' \<Longrightarrow> mark_frame h h''"
  unfolding mark_frame_def using gc_frame_trans queues_frame_trans by auto

lemma marked_from_frame: "marked_from h V h' \<Longrightarrow> mark_frame h h'"
  by (simp add: marked_from_def mark_frame_def)

lemma finalizer_pass_correct:
  assumes "gc_inv roots h" "finalizer_pass fs h = (b, h')" "set fs \<subseteq> set (finalizer_table h)"
  shows "gc_inv roots h' \<and> mark_frame h h' \<and>
    (\<not> b \<longrightarrow> marks h' = marks h \<and> (\<forall>(i, pr) \<in> set fs. heap_marked h i \<longrightarrow> val_ids [pr] \<inter> dom (objects h) \<subseteq> marks h))"
  using assms
proof (induction fs h arbitrary: b h' rule: finalizer_pass.induct)
  case (2 i pr fs h)
  have wf: "heap_wf h" using "2.prems" by (simp add: gc_inv_def)
  show ?case
  proof (cases "heap_marked h i")
    case False
    then show ?thesis using 2 by (simp add: gc_is_marked_eq)
  next
    case True
    obtain m h1 where m: "mark_value h pr = (m, h1)" by (cases "mark_value h pr")
    obtain c h2 where c: "finalizer_pass fs h1 = (c, h2)" by (cases "finalizer_pass fs h1")
    have h1: "h1 = snd (mark_from_values h [pr])" "m = fst (mark_from_values h [pr])"
      using m by (simp_all add: mark_value_def)
    note M = mark_from_values_correct [OF wf, of "[pr]", folded h1]
    have I: "gc_inv roots h1"
      using gc_inv_mark(1) [OF "2.prems"(1) M(1)] finalizer_in_keep [OF "2.prems"(1) True] "2.prems"(3) by auto
    note F1 = marked_from_frame [OF M(1)]
    have sub: "set fs \<subseteq> set (finalizer_table h1)"
      using "2.prems"(3) F1 by (simp add: mark_frame_def queues_frame_def)
    have r: "b = (m \<or> c)" "h' = h2" using "2.prems"(2) True m c by (simp_all add: gc_is_marked_eq)
    have IH: "gc_inv roots h2 \<and> mark_frame h1 h2 \<and>
      (\<not> c \<longrightarrow> marks h2 = marks h1 \<and> (\<forall>(i, pr) \<in> set fs. heap_marked h1 i \<longrightarrow> val_ids [pr] \<inter> dom (objects h1) \<subseteq> marks h1))"
      using "2.IH"(2) [OF _ m [symmetric] I c sub] True by (simp add: gc_is_marked_eq)
    have hm: "heap_marked h1 = heap_marked h" if "\<not> m" using M(2) that by (auto simp: marks_def set_eq_iff)
    show ?thesis
    proof (intro conjI impI)
      show "gc_inv roots h'" "mark_frame h h'" using IH F1 r mark_frame_trans by auto
      assume nb: "\<not> b"
      then show "marks h' = marks h" using IH r M(2) by simp
      show "\<forall>(i, pr) \<in> set ((i, pr) # fs). heap_marked h i \<longrightarrow> val_ids [pr] \<inter> dom (objects h) \<subseteq> marks h"
        using nb IH r hm M F1 by (auto simp: mark_frame_def marked_from_def)
    qed
  qed
qed simp

lemma mark_live_finalizer_procs_fixpoint_correct:
  assumes "gc_inv roots h"
  shows "gc_inv roots (mark_live_finalizer_procs_fixpoint h) \<and>
    mark_frame h (mark_live_finalizer_procs_fixpoint h) \<and>
    (\<forall>(i, pr) \<in> set (finalizer_table h). heap_marked (mark_live_finalizer_procs_fixpoint h) i \<longrightarrow>
       val_ids [pr] \<inter> dom (objects h) \<subseteq> marks (mark_live_finalizer_procs_fixpoint h))"
  using assms
proof (induction h rule: mark_live_finalizer_procs_fixpoint.induct)
  case (1 h)
  obtain b h' where p: "finalizer_pass (finalizer_table h) h = (b, h')"
    by (cases "finalizer_pass (finalizer_table h) h")
  note P = finalizer_pass_correct [OF "1.prems" p order_refl]
  show ?case
  proof (cases b)
    case True
    have inv: "gc_inv roots h'" and bt: "b = True" using P True by simp_all
    note IH = "1.IH" [OF p [symmetric] bt inv]
    have eq: "mark_live_finalizer_procs_fixpoint h = mark_live_finalizer_procs_fixpoint h'"
      using p True by (subst mark_live_finalizer_procs_fixpoint.simps) simp
    have "finalizer_table h' = finalizer_table h" "objects h' = objects h"
      using P by (auto simp: mark_frame_def queues_frame_def)
    then show ?thesis using IH P unfolding eq by (auto intro: mark_frame_trans)
  next
    case False
    have eq: "mark_live_finalizer_procs_fixpoint h = h'"
      using p False by (subst mark_live_finalizer_procs_fixpoint.simps) simp
    have "heap_marked h' = heap_marked h" using P False by (auto simp: marks_def set_eq_iff)
    then show ?thesis using P False unfolding eq by auto
  qed
qed


section \<open>Delivery to finalizers\<close>

lemma live_id_bound:
  assumes "heap_wf h" "objects h i \<noteq> None"
  shows "i \<le> PAYLOAD_MASK"
proof (cases "owns (pool h) i")
  case True
  then obtain r where f: "find_slot (pool h) i = Some r" by (auto simp: owns_def)
  have ok: "slabs_ok (pool h) (next_id h)" using assms by (simp add: heap_wf_def pool_wf_def)
  have v: "valid_ptr (pool h) r" "slot_id (slot_mem (pool h) r) = i" using find_slot_iff [OF ok] f by auto
  then have n: "slab_no r < length (slabs (pool h))" "slot_no r < slab_capacity (slabs (pool h) ! slab_no r)"
    by (auto simp: valid_ptr_def)
  have "i = slab_base (slabs (pool h) ! slab_no r) + of_nat (slot_no r)" using ok v by (auto simp: slabs_ok_def)
  then show ?thesis
    using slot_id_unat(2) [OF slabs_okD(2) [OF ok n(1)] n(2)] slabs_okD(2) [OF ok n(1)] by (simp add: word_le_nat_alt)
next
  case False
  then show ?thesis using assms by (cases "general_entry h i") (auto simp: objects_general heap_wf_def)
qed

lemma live_id_mask: "heap_wf h \<Longrightarrow> objects h i \<noteq> None \<Longrightarrow> i AND PAYLOAD_MASK = i"
  by (rule and_PAYLOAD_MASK) (rule live_id_bound)

lemma val_ids_boxed: "heap_wf h \<Longrightarrow> objects h i \<noteq> None \<Longrightarrow> val_ids [box HeapObject_tag i] = {i}"
  by (simp add: val_ids_def heap_ref_ids_def live_id_mask del: not_None_eq)

lemma val_ids_concat: "val_ids (concat vss) = (\<Union>vs \<in> set vss. val_ids vs)"
  by (induction vss) simp_all

lemma root_ids_pending:
  "root_ids roots h = val_ids roots \<union> (\<Union>(ob, pr) \<in> set (pending_finalizers h). val_ids [ob, pr])"
  by (simp add: root_ids_def val_ids_concat case_prod_beta)

text \<open>Moving a registration to the pending queue loses nothing that has to be kept.\<close>

lemma gc_inv_move_finalizer:
  assumes inv: "gc_inv roots h" and d: "distinct (map fst (finalizer_table h))" "(i, pr) \<in> set (finalizer_table h)"
    and live: "objects h i \<noteq> None"
  defines "h1 \<equiv> snd (remove_finalizer i (enqueue_pending_finalizer (box HeapObject_tag i) pr h))"
  shows "gc_inv roots h1" "i \<in> keep roots h1" "val_ids [pr] \<inter> dom (objects h1) \<subseteq> keep roots h1"
    "objects h1 = objects h" "marks h1 = marks h"
proof -
  have wf: "heap_wf h" using inv by (simp add: gc_inv_def)
  have st: "same_store h h1" unfolding h1_def
    by (rule same_store_trans [of _ "enqueue_pending_finalizer (box HeapObject_tag i) pr h"]) simp_all
  show ob: "objects h1 = objects h" using st by (rule same_store_objects)
  show mk: "marks h1 = marks h" using same_store_marked [OF st] by (simp add: marks_def)
  have pend: "pending_finalizers h1 = pending_finalizers h @ [(box HeapObject_tag i, pr)]"
    and tab: "finalizer_table h1 = AList.delete i (finalizer_table h)"
    by (simp_all add: h1_def remove_finalizer_def enqueue_pending_finalizer_def)
  have R: "root_ids roots h1 = root_ids roots h \<union> {i} \<union> val_ids [pr]"
    using val_ids_boxed [OF wf live] val_ids_simps(2) [of "box HeapObject_tag i" "[pr]"]
    by (auto simp: root_ids_pending pend)
  have "keep roots h \<subseteq> keep roots h1"
  proof
    fix j
    assume "j \<in> keep roots h"
    then show "j \<in> keep roots h1"
      unfolding keep_def
    proof (rule retained_mono)
      fix k p
      assume "(k, p) \<in> set (finalizer_table h)"
      then show "(k, p) \<in> set (finalizer_table h1) \<or> set (heap_ref_ids [p]) \<subseteq> root_ids roots h1"
        using d eq_key_imp_eq_value [OF d(1), of k p pr] by (auto simp: tab AList.delete_eq R val_ids_def)
    qed (use R ob in auto)
  qed
  then show "gc_inv roots h1"
    using inv same_store_wf [OF st] by (auto simp: gc_inv_def closed_marks_def ob mk)
  show "i \<in> keep roots h1" using R live by (auto simp: keep_def ob intro: retained.root)
  show "val_ids [pr] \<inter> dom (objects h1) \<subseteq> keep roots h1" using R by (auto simp: keep_def ob intro: retained.root)
qed

definition store_frame :: "heap \<Rightarrow> heap \<Rightarrow> bool" where
  "store_frame h h' \<longleftrightarrow> gc_frame h h' \<and> marks h \<subseteq> marks h' \<and> dom (objects h') = dom (objects h)"

lemma store_frame_refl [simp]: "store_frame h h"
  by (simp add: store_frame_def)

lemma store_frame_trans: "store_frame h h' \<Longrightarrow> store_frame h' h'' \<Longrightarrow> store_frame h h''"
  unfolding store_frame_def using gc_frame_trans by blast

lemma mark_frame_store: "mark_frame h h' \<Longrightarrow> store_frame h h'"
  by (simp add: mark_frame_def store_frame_def)

lemma enqueue_dead_finalizer_correct:
  fixes dead :: "object_id list"
  assumes inv: "gc_inv roots h" and d: "distinct (map fst (finalizer_table h))" "(i, pr) \<in> set (finalizer_table h)"
  defines "h' \<equiv> enqueue_dead_finalizer dead (i, pr) h"
  shows "gc_inv roots h' \<and> store_frame h h' \<and> objects h' = objects h \<and>
    guardian_to_tracked h' = guardian_to_tracked h \<and> tracked_to_guardians h' = tracked_to_guardians h \<and>
    finalizer_table h' = (if i \<in> set dead then AList.delete i (finalizer_table h) else finalizer_table h) \<and>
    pending_finalizers h' = pending_finalizers h @
      (if i \<in> set dead \<and> objects h i \<noteq> None then [(box HeapObject_tag i, pr)] else [])"
proof -
  have wf: "heap_wf h" using inv by (simp add: gc_inv_def)
  then have sw: "shards_wf (shards h)" by (simp add: heap_wf_def)
  consider "i \<notin> set dead" | "i \<in> set dead" "objects h i = None" | "i \<in> set dead" "objects h i \<noteq> None" by blast
  then show ?thesis
  proof cases
    case 1
    then show ?thesis using inv by (simp add: h'_def enqueue_dead_finalizer_def)
  next
    case 2
    have e: "h' = snd (remove_finalizer i h)"
      using 2 objects_None_iff [OF sw] by (simp add: h'_def enqueue_dead_finalizer_def)
    have st: "same_store h h'" by (simp add: e)
    have f: "finalizer_table h' = AList.delete i (finalizer_table h)" "pending_finalizers h' = pending_finalizers h"
      "guardian_to_tracked h' = guardian_to_tracked h" "tracked_to_guardians h' = tracked_to_guardians h" "gc_frame h h'"
      by (simp_all add: e remove_finalizer_def gc_frame_def)
    have ob: "objects h' = objects h" and mk: "marks h' = marks h"
      using st same_store_objects same_store_marked by (auto simp: marks_def)
    have "j \<in> keep roots h'" if "j \<in> keep roots h" for j
      using that unfolding keep_def
    proof (rule retained_mono)
      fix k p
      assume "(k, p) \<in> set (finalizer_table h)" "objects h k \<noteq> None"
      then show "(k, p) \<in> set (finalizer_table h') \<or> set (heap_ref_ids [p]) \<subseteq> root_ids roots h'"
        using 2 by (auto simp: f AList.delete_eq)
    qed (auto simp: ob root_ids_def f)
    then have "gc_inv roots h'"
      using inv same_store_wf [OF st] by (auto simp: gc_inv_def closed_marks_def ob mk)
    then show ?thesis using 2 f ob mk by (simp add: store_frame_def)
  next
    case 3
    let ?b = "box HeapObject_tag i"
    let ?h1 = "snd (remove_finalizer i (enqueue_pending_finalizer ?b pr h))"
    let ?h2 = "snd (mark_value ?h1 ?b)"
    have e: "h' = snd (mark_value ?h2 pr)"
      using 3 objects_None_iff [OF sw, of i] unfolding h'_def enqueue_dead_finalizer_def Let_def
      by (simp del: not_None_eq)
    note V = gc_inv_move_finalizer [OF inv d 3(2)]
    have wf1: "heap_wf ?h1" using V(1) by (simp add: gc_inv_def)
    have M1: "marked_from ?h1 {i} ?h2"
      using mark_from_values_correct(1) [OF wf1, of "[?b]"] val_ids_boxed [OF wf 3(2)] by (simp add: mark_value_def)
    note I2 = gc_inv_mark [OF V(1) M1]
    have I2': "gc_inv roots ?h2" "keep roots ?h2 = keep roots ?h1" using I2 V(2) by auto
    have ob2: "objects ?h2 = objects ?h1" using M1 by (simp add: marked_from_def)
    have wf2: "heap_wf ?h2" using I2'(1) by (simp add: gc_inv_def)
    have M2: "marked_from ?h2 (val_ids [pr]) h'"
      using mark_from_values_correct(1) [OF wf2, of "[pr]"] by (simp add: e mark_value_def [of ?h2])
    have I3: "gc_inv roots h'" using gc_inv_mark(1) [OF I2'(1) M2] V(3) I2'(2) ob2 by auto
    have fr: "mark_frame ?h1 h'" using marked_from_frame [OF M1] marked_from_frame [OF M2] by (rule mark_frame_trans)
    have "gc_frame h ?h1" by (simp add: gc_frame_def remove_finalizer_def enqueue_pending_finalizer_def)
    then have "store_frame h h'"
      using fr V(4,5) gc_frame_trans by (auto simp: store_frame_def mark_frame_def)
    then show ?thesis using I3 fr V(4) 3
      by (simp add: mark_frame_def queues_frame_def remove_finalizer_def enqueue_pending_finalizer_def)
  qed
qed

lemma enqueue_dead_finalizers_fold:
  fixes dead :: "object_id list"
  assumes "gc_inv roots h" "distinct (map fst (finalizer_table h))" "set xs \<subseteq> set (finalizer_table h)"
    "distinct (map fst xs)"
  defines "h' \<equiv> fold (enqueue_dead_finalizer dead) xs h"
  shows "gc_inv roots h' \<and> store_frame h h' \<and> objects h' = objects h \<and>
    guardian_to_tracked h' = guardian_to_tracked h \<and> tracked_to_guardians h' = tracked_to_guardians h \<and>
    finalizer_table h' = filter (\<lambda>(i, _). \<not> (i \<in> set dead \<and> i \<in> fst ` set xs)) (finalizer_table h) \<and>
    pending_finalizers h' = pending_finalizers h @
      map (\<lambda>(i, pr). (box HeapObject_tag i, pr)) (filter (\<lambda>(i, _). i \<in> set dead \<and> objects h i \<noteq> None) xs)"
  unfolding h'_def using assms(1-4)
proof (induction xs arbitrary: h)
  case Nil
  then show ?case by (simp add: case_prod_beta)
next
  case (Cons x xs)
  obtain i pr where x: "x = (i, pr)" by (cases x)
  let ?h = "enqueue_dead_finalizer dead (i, pr) h"
  have "(i, pr) \<in> set (finalizer_table h)" using Cons.prems(3) x by simp
  note E = enqueue_dead_finalizer_correct [OF Cons.prems(1,2) this, of dead]
  have t: "finalizer_table ?h = filter (\<lambda>(k, _). \<not> (k \<in> set dead \<and> k = i)) (finalizer_table h)"
    using E by (cases "i \<in> set dead") (auto simp: AList.delete_eq filter_id_conv eq_commute [of "finalizer_table h"] intro!: filter_cong)
  have "distinct (map fst (finalizer_table ?h))" unfolding t
    using Cons.prems(2) by (rule distinct_map_filter)
  moreover have "set xs \<subseteq> set (finalizer_table ?h)"
    using Cons.prems(3,4) x unfolding t by (force simp: image_iff)
  ultimately have IH: "gc_inv roots (fold (enqueue_dead_finalizer dead) xs ?h) \<and>
    store_frame ?h (fold (enqueue_dead_finalizer dead) xs ?h) \<and>
    objects (fold (enqueue_dead_finalizer dead) xs ?h) = objects ?h \<and>
    guardian_to_tracked (fold (enqueue_dead_finalizer dead) xs ?h) = guardian_to_tracked ?h \<and>
    tracked_to_guardians (fold (enqueue_dead_finalizer dead) xs ?h) = tracked_to_guardians ?h \<and>
    finalizer_table (fold (enqueue_dead_finalizer dead) xs ?h) =
      filter (\<lambda>(i, _). \<not> (i \<in> set dead \<and> i \<in> fst ` set xs)) (finalizer_table ?h) \<and>
    pending_finalizers (fold (enqueue_dead_finalizer dead) xs ?h) = pending_finalizers ?h @
      map (\<lambda>(i, pr). (box HeapObject_tag i, pr)) (filter (\<lambda>(i, _). i \<in> set dead \<and> objects ?h i \<noteq> None) xs)"
    using Cons.IH [of ?h] E Cons.prems(4) by simp
  have t': "filter (\<lambda>(i, _). \<not> (i \<in> set dead \<and> i \<in> fst ` set xs)) (finalizer_table ?h) =
      filter (\<lambda>(k, _). \<not> (k \<in> set dead \<and> k \<in> fst ` set (x # xs))) (finalizer_table h)"
    unfolding t x by (auto intro!: filter_cong)
  show ?case
    using IH E store_frame_trans [of h ?h] t' by (simp add: x)
qed

lemma enqueue_dead_finalizers_correct:
  fixes dead :: "object_id list"
  assumes "gc_inv roots h" "distinct (map fst (finalizer_table h))"
  defines "h' \<equiv> enqueue_dead_finalizers dead h"
  shows "gc_inv roots h'" "store_frame h h'" "objects h' = objects h"
    "guardian_to_tracked h' = guardian_to_tracked h" "tracked_to_guardians h' = tracked_to_guardians h"
    "finalizer_table h' = filter (\<lambda>(i, _). i \<notin> set dead) (finalizer_table h)"
    "pending_finalizers h' = pending_finalizers h @
      map (\<lambda>(i, pr). (box HeapObject_tag i, pr)) (filter (\<lambda>(i, _). i \<in> set dead \<and> objects h i \<noteq> None) (finalizer_table h))"
proof -
  note F = enqueue_dead_finalizers_fold [OF assms(1,2) order_refl assms(2), of dead, folded enqueue_dead_finalizers_def, folded h'_def]
  have "filter (\<lambda>(i, _). \<not> (i \<in> set dead \<and> i \<in> fst ` set (finalizer_table h))) (finalizer_table h) =
      filter (\<lambda>(i, _). i \<notin> set dead) (finalizer_table h)"
    by (rule filter_cong) (auto simp: image_iff)
  then show "finalizer_table h' = filter (\<lambda>(i, _). i \<notin> set dead) (finalizer_table h)" using F by simp
qed (use enqueue_dead_finalizers_fold [OF assms(1,2) order_refl assms(2), of dead, folded enqueue_dead_finalizers_def, folded h'_def] in simp_all)


section \<open>Delivery to guardians\<close>

text \<open>Delivery changes objects only by appending to the queues of guardians.\<close>

definition queue_ext :: "obj_map \<Rightarrow> obj_map \<Rightarrow> bool" where
  "queue_ext ob ob' \<longleftrightarrow> (\<forall>i. ob' i = ob i \<or>
     (\<exists>q q'. ob i = Some (Guardian_obj q) \<and> ob' i = Some (Guardian_obj (q @ q'))))"

lemma queue_ext_refl [simp]: "queue_ext ob ob"
  by (simp add: queue_ext_def)

lemma queue_ext_trans: "queue_ext a b \<Longrightarrow> queue_ext b c \<Longrightarrow> queue_ext a c"
  unfolding queue_ext_def
proof (intro allI)
  fix i
  assume ab: "\<forall>i. b i = a i \<or> (\<exists>q q'. a i = Some (Guardian_obj q) \<and> b i = Some (Guardian_obj (q @ q')))"
    and bc: "\<forall>i. c i = b i \<or> (\<exists>q q'. b i = Some (Guardian_obj q) \<and> c i = Some (Guardian_obj (q @ q')))"
  show "c i = a i \<or> (\<exists>q q'. a i = Some (Guardian_obj q) \<and> c i = Some (Guardian_obj (q @ q')))"
  proof (cases "b i = a i")
    case True
    with bc [rule_format, of i] show ?thesis by simp
  next
    case False
    then obtain q q' where "a i = Some (Guardian_obj q)" "b i = Some (Guardian_obj (q @ q'))"
      using ab [rule_format, of i] by auto
    with bc [rule_format, of i] show ?thesis by auto
  qed
qed

lemma queue_ext_None: "queue_ext ob ob' \<Longrightarrow> ob' i = None \<longleftrightarrow> ob i = None"
  by (auto simp: queue_ext_def) (metis option.distinct(1))+

lemma queue_ext_dom: "queue_ext ob ob' \<Longrightarrow> dom ob' = dom ob"
  unfolding dom_def by (simp add: queue_ext_None del: not_None_eq)

lemma queue_ext_succs: "queue_ext ob ob' \<Longrightarrow> set (succs ob i) \<subseteq> set (succs ob' i)"
  unfolding queue_ext_def succs_def by (drule spec [of _ i]) auto

lemma enqueue_guardian_ready_correct:
  assumes wf: "heap_wf h" and e: "enqueue_guardian_ready g v h = (b, h')"
  shows "if b then (\<exists>q. objects h g = Some (Guardian_obj q) \<and> objects h' = (objects h)(g \<mapsto> Guardian_obj (q @ [v])))
      \<and> heap_wf h' \<and> heap_marked h' = heap_marked h \<and> gc_frame h h' \<and> queues_frame h h'
    else h' = h"
proof (cases b)
  case True
  then obtain q where q: "try_get_as Guardian_kind h g = Some (Guardian_obj q)"
    and h': "h' = set_object g (Guardian_obj (q @ [v])) h"
    using e by (auto simp: enqueue_guardian_ready_def split: option.splits heap_obj.splits)
  then obtain x where x: "heap_try_get h g = Some x" "entry_ptr x = Some (Guardian_obj q)" "kind (entry_header x) = Guardian_kind"
    by (auto simp: try_get_as_def split: option.splits if_splits)
  have n: "\<not> owns (pool h) g"
    using x(1,2) by (auto simp: heap_try_get_def pool_try_get_entry_def Let_def split: if_splits option.splits prod.splits)
  with x(1) have gx: "general_entry h g = Some x" by (simp add: heap_try_get_def)
  note S = set_object_correct [OF wf n gx, of "Guardian_obj (q @ [v])"]
  have "objects h g = Some (Guardian_obj q)" using gx n x(2) by (simp add: objects_general)
  moreover have "gc_frame h h' \<and> queues_frame h h'" by (simp add: h' set_object_def gc_frame_def queues_frame_def)
  ultimately show ?thesis using True S x(3) by (auto simp: h')
next
  case False
  then show ?thesis using e by (auto simp: enqueue_guardian_ready_def split: option.splits heap_obj.splits)
qed

lemma same_store_gc_inv:
  assumes "same_store h h'" "finalizer_table h' = finalizer_table h" "pending_finalizers h' = pending_finalizers h"
    "gc_inv roots h"
  shows "gc_inv roots h'"
  using assms same_store_wf [OF assms(1)] same_store_objects [OF assms(1)] same_store_marked [OF assms(1)]
  by (simp add: gc_inv_def closed_marks_def keep_def root_ids_def marks_def)

lemma remove_guardian_tracking_frame:
  "gc_frame h (snd (remove_guardian_tracking g t h))"
  "finalizer_table (snd (remove_guardian_tracking g t h)) = finalizer_table h"
  "pending_finalizers (snd (remove_guardian_tracking g t h)) = pending_finalizers h"
  by (simp_all add: remove_guardian_tracking_def gc_frame_def case_prod_beta)

lemma gc_inv_deliver:
  assumes inv: "gc_inv roots h" and g: "objects h g = Some (Guardian_obj q)" "heap_marked h g"
    and t: "objects h t \<noteq> None"
    and h1: "heap_wf h1" "objects h1 = (objects h)(g \<mapsto> Guardian_obj (q @ [box HeapObject_tag t]))" "marks h1 = marks h"
      "finalizer_table h1 = finalizer_table h" "pending_finalizers h1 = pending_finalizers h"
    and m: "marked_from h1 {t} h2"
  shows "gc_inv roots h2" "queue_ext (objects h) (objects h2)"
proof -
  have wf: "heap_wf h" using inv by (simp add: gc_inv_def)
  have ob2: "objects h2 = objects h1" using m by (simp add: marked_from_def)
  show ext: "queue_ext (objects h) (objects h2)" unfolding ob2 h1(2) using g(1) by (simp add: queue_ext_def)
  have ext1: "queue_ext (objects h) (objects h1)" using ext ob2 by simp
  have dom: "dom (objects h1) = dom (objects h)" using g(1) by (auto simp: h1(2))
  have vt: "val_ids [box HeapObject_tag t] = {t}" by (rule val_ids_boxed [OF wf t])
  have sg: "succs (objects h1) g = succs (objects h) g @ [t]"
    using vt by (auto simp: succs_def h1(2) g(1) val_ids_def heap_ref_ids_def)
  have so: "succs (objects h1) i = succs (objects h) i" if "i \<noteq> g" for i using that by (simp add: succs_def h1(2))
  have cl: "set (succs (objects h) i) \<inter> dom (objects h) \<subseteq> marks h" if "i \<in> marks h" for i
    using inv that by (auto simp: gc_inv_def closed_marks_def)
  have tm: "t \<in> marks h2" using m t dom by (auto simp: marked_from_def)
  have sub: "marks h \<subseteq> marks h2" using m h1(3) by (simp add: marked_from_def)
  have "set (succs (objects h1) i) \<inter> dom (objects h1) \<subseteq> marks h2" if "i \<in> marks h2" for i
  proof (cases "i \<in> marks h")
    case True
    then show ?thesis using cl [OF True] so [of i] sg tm sub by (cases "i = g") (auto simp: dom)
  next
    case False
    then show ?thesis using m that h1(3) by (simp add: marked_from_def)
  qed
  then have closed: "closed_marks h2" by (simp add: closed_marks_def ob2)
  have k1: "keep roots h \<subseteq> keep roots h1"
    unfolding keep_def root_ids_def h1(4,5)
    by (rule subsetI, erule retained_mono) (simp_all add: queue_ext_None [OF ext1] queue_ext_succs [OF ext1])
  have "g \<in> keep roots h" using inv g(2) by (auto simp: gc_inv_def marks_def)
  then have "g \<in> keep roots h1" using k1 by auto
  moreover have "objects h1 t \<noteq> None" using t dom by auto
  moreover have "t \<in> set (succs (objects h1) g)" by (simp add: sg)
  ultimately have "t \<in> keep roots h1" unfolding keep_def by (meson retained.step)
  then have "reach (objects h1) {t} \<subseteq> keep roots h1" by (auto simp: keep_def intro: reach_retained)
  moreover have "keep roots h2 = keep roots h1"
    using m by (simp add: keep_def root_ids_def marked_from_def queues_frame_def)
  moreover have "marks h2 \<subseteq> marks h \<union> reach (objects h1) {t}" using m h1(3) by (simp add: marked_from_def)
  moreover have "marks h \<subseteq> keep roots h" using inv by (simp add: gc_inv_def)
  ultimately have "marks h2 \<subseteq> keep roots h2" using k1 by blast
  with closed m show "gc_inv roots h2" by (simp add: gc_inv_def marked_from_def)
qed

lemma enqueue_dead_guardian_correct:
  fixes dead :: "object_id list" and g t :: object_id
  assumes inv: "gc_inv roots h"
  defines "h' \<equiv> enqueue_dead_guardian dead (g, t) h"
  shows "gc_inv roots h' \<and> store_frame h h' \<and> queue_ext (objects h) (objects h') \<and>
    finalizer_table h' = finalizer_table h \<and> pending_finalizers h' = pending_finalizers h"
proof -
  have wf: "heap_wf h" using inv by (simp add: gc_inv_def)
  then have sw: "shards_wf (shards h)" by (simp add: heap_wf_def)
  let ?rm = "snd (remove_guardian_tracking g t h)"
  have rm: "gc_inv roots ?rm" "objects ?rm = objects h" "marks ?rm = marks h"
    using same_store_gc_inv [OF _ _ _ inv, of ?rm] same_store_objects [of h ?rm] same_store_marked [of h ?rm]
    by (simp_all add: remove_guardian_tracking_frame marks_def)
  have done_rm: ?thesis if "h' = ?rm"
    using that rm remove_guardian_tracking_frame [where h = h and g = g and t = t] by (simp add: store_frame_def)
  obtain b h1 where e: "enqueue_guardian_ready g (box HeapObject_tag t) h = (b, h1)"
    by (cases "enqueue_guardian_ready g (box HeapObject_tag t) h")
  note E = enqueue_guardian_ready_correct [OF wf e]
  consider "\<not> heap_marked h g" | "heap_marked h g" "t \<notin> set dead" | "heap_marked h g" "t \<in> set dead" "heap_try_get h t = None"
    | "heap_marked h g" "t \<in> set dead" "heap_try_get h t \<noteq> None" "\<not> b"
    | "heap_marked h g" "t \<in> set dead" "heap_try_get h t \<noteq> None" b by blast
  then show ?thesis
  proof cases
    case 2
    then show ?thesis using inv by (simp add: h'_def enqueue_dead_guardian_def gc_is_marked_eq)
  next
    case 4
    then show ?thesis
      using e E by (intro done_rm) (simp add: h'_def enqueue_dead_guardian_def gc_is_marked_eq Let_def del: not_None_eq)
  next
    case 5
    let ?h2 = "snd (remove_guardian_tracking g t h1)"
    have h': "h' = snd (mark_value ?h2 (box HeapObject_tag t))"
      using e 5 by (simp add: h'_def enqueue_dead_guardian_def gc_is_marked_eq Let_def del: not_None_eq)
    obtain q where q: "objects h g = Some (Guardian_obj q)"
      "objects h1 = (objects h)(g \<mapsto> Guardian_obj (q @ [box HeapObject_tag t]))"
      and h1: "heap_wf h1" "heap_marked h1 = heap_marked h" "gc_frame h h1" "queues_frame h h1"
      using E 5(4) by auto
    have t: "objects h t \<noteq> None" using 5(3) objects_None_iff [OF sw] by simp
    have st: "same_store h1 ?h2" by simp
    have h2: "heap_wf ?h2" "objects ?h2 = objects h1" "marks ?h2 = marks h"
      "finalizer_table ?h2 = finalizer_table h" "pending_finalizers ?h2 = pending_finalizers h" "gc_frame h ?h2"
      using same_store_wf [OF st] same_store_objects [OF st] same_store_marked [OF st] h1
        remove_guardian_tracking_frame [where h = h1 and g = g and t = t] gc_frame_trans [OF h1(3)]
      by (simp_all add: marks_def queues_frame_def)
    have m: "marked_from ?h2 {t} h'"
      using mark_from_values_correct(1) [OF h2(1), of "[box HeapObject_tag t]"] val_ids_boxed [OF wf t]
      by (simp add: h' mark_value_def)
    note D = gc_inv_deliver [OF inv q(1) 5(1) t h2(1) h2(2) [unfolded q(2)] h2(3-5) m]
    have "store_frame h h'"
      using m h2 gc_frame_trans [OF h2(6)] queue_ext_dom [OF D(2)]
      by (simp add: store_frame_def marked_from_def)
    then show ?thesis using D m h2 by (simp add: marked_from_def queues_frame_def)
  qed (rule done_rm, simp add: h'_def enqueue_dead_guardian_def gc_is_marked_eq)+
qed

lemma enqueue_dead_guardians_correct:
  assumes "gc_inv roots h"
  shows "gc_inv roots (enqueue_dead_guardians dead h) \<and> store_frame h (enqueue_dead_guardians dead h) \<and>
    queue_ext (objects h) (objects (enqueue_dead_guardians dead h)) \<and>
    finalizer_table (enqueue_dead_guardians dead h) = finalizer_table h \<and>
    pending_finalizers (enqueue_dead_guardians dead h) = pending_finalizers h"
proof -
  have "gc_inv roots (fold (enqueue_dead_guardian dead) xs h) \<and> store_frame h (fold (enqueue_dead_guardian dead) xs h) \<and>
    queue_ext (objects h) (objects (fold (enqueue_dead_guardian dead) xs h)) \<and>
    finalizer_table (fold (enqueue_dead_guardian dead) xs h) = finalizer_table h \<and>
    pending_finalizers (fold (enqueue_dead_guardian dead) xs h) = pending_finalizers h" for xs
    using assms
  proof (induction xs arbitrary: h)
    case (Cons x xs)
    obtain g t where x: "x = (g, t)" by (cases x)
    note E = enqueue_dead_guardian_correct [OF Cons.prems, of dead g t]
    with Cons.IH [of "enqueue_dead_guardian dead (g, t) h"]
    show ?case using store_frame_trans queue_ext_trans by (fastforce simp: x)
  qed simp
  then show ?thesis by (simp add: enqueue_dead_guardians_def)
qed


section \<open>The mark phase\<close>

lemma gc_clear_marks_correct:
  assumes wf: "heap_wf h"
  shows "heap_wf (gc_clear_marks h)" "objects (gc_clear_marks h) = objects h" "marks (gc_clear_marks h) = {}"
    "gc_frame h (gc_clear_marks h)" "queues_frame h (gc_clear_marks h)"
proof -
  let ?p = "pool_clear_marks (pool h)"
  let ?h = "h\<lparr>pool := ?p\<rparr>"
  have pw: "pool_wf (pool h) (next_id h)" using wf by (simp add: heap_wf_def)
  note C = pool_clear_marks_correct [OF pw]
  have own: "owns ?p = owns (pool h)" using C(4) by (simp add: owns_def fun_eq_iff)
  have keep: "live_count (fold clear_mark_at rs q) = live_count q \<and> slabs (fold clear_mark_at rs q) = slabs q \<and>
      total_capacity (fold clear_mark_at rs q) = total_capacity q" for rs q
    by (induction rs arbitrary: q) (auto simp: clear_mark_at_def Let_def)
  then have lc: "live_count (pool_clear_marks q) = live_count q" "slabs (pool_clear_marks q) = slabs q"
    "total_capacity (pool_clear_marks q) = total_capacity q" for q
    by (simp_all add: pool_clear_marks_def)
  have wf1: "heap_wf ?h" using wf C(1) own lc by (simp add: heap_wf_def heap_frame shard_bytes_def)
  have "objects ?h = objects h"
    unfolding fun_eq_iff objects_split [OF wf1] objects_split [OF wf] by (simp add: C(2) heap_frame)
  with for_each_clear_correct [OF wf1] show "heap_wf (gc_clear_marks h)" "objects (gc_clear_marks h) = objects h"
    "marks (gc_clear_marks h) = {}"
    by (simp_all add: gc_clear_marks_def marks_def)
  show "gc_frame h (gc_clear_marks h)" "queues_frame h (gc_clear_marks h)"
    by (simp_all add: gc_clear_marks_def for_each_flags_def gc_frame_def queues_frame_def pool_for_each_clear lc)
qed

lemma mark_pending_finalizers_correct:
  assumes inv: "gc_inv roots h"
  shows "gc_inv roots (mark_pending_finalizers h)" "mark_frame h (mark_pending_finalizers h)"
    "val_ids (concat (map (\<lambda>(ob, pr). [ob, pr]) (pending_finalizers h))) \<inter> dom (objects h)
      \<subseteq> marks (mark_pending_finalizers h)"
proof -
  let ?vs = "concat (map (\<lambda>(ob, pr). [ob, pr]) (pending_finalizers h))"
  have wf: "heap_wf h" using inv by (simp add: gc_inv_def)
  note M = mark_from_values_correct(1) [OF wf, of ?vs]
  have V: "val_ids ?vs \<inter> dom (objects h) \<subseteq> keep roots h"
    by (auto simp: keep_def root_ids_def intro: retained.root)
  have "gc_inv roots (mark_pending_finalizers h) \<and> mark_frame h (mark_pending_finalizers h) \<and>
    val_ids ?vs \<inter> dom (objects h) \<subseteq> marks (mark_pending_finalizers h)"
    using gc_inv_mark(1) [OF inv M V] marked_from_frame [OF M] M inv
    by (simp add: mark_pending_finalizers_def marked_from_def)
  then show "gc_inv roots (mark_pending_finalizers h)" "mark_frame h (mark_pending_finalizers h)"
    "val_ids ?vs \<inter> dom (objects h) \<subseteq> marks (mark_pending_finalizers h)" by auto
qed

lemma mark_from_roots_correct:
  assumes wf: "heap_wf h" and m: "marks h = {}"
  shows "gc_inv roots (mark_from_roots roots h)" "mark_frame h (mark_from_roots roots h)"
    "val_ids roots \<inter> dom (objects h) \<subseteq> marks (mark_from_roots roots h)"
proof -
  have inv: "gc_inv roots h" using wf m by (simp add: gc_inv_def closed_marks_def)
  note M = mark_from_values_correct(1) [OF wf, of roots]
  have V: "val_ids roots \<inter> dom (objects h) \<subseteq> keep roots h"
    by (auto simp: keep_def root_ids_def intro: retained.root)
  show "gc_inv roots (mark_from_roots roots h)" "mark_frame h (mark_from_roots roots h)"
    "val_ids roots \<inter> dom (objects h) \<subseteq> marks (mark_from_roots roots h)"
    using gc_inv_mark(1) [OF inv M V] marked_from_frame [OF M] M
    by (simp_all add: mark_from_roots_def marked_from_def)
qed

text \<open>
  At the end of the mark phase the marked objects are exactly those to retain; the
  registrations of the others have moved, in order, to the pending queue.
\<close>

definition dead_registrations :: "lispval list \<Rightarrow> heap \<Rightarrow> (object_id \<times> lispval) list" where
  "dead_registrations roots h = filter (\<lambda>(i, _). i \<notin> keep roots h) (finalizer_table h)"

lemma gc_inv_complete:
  assumes inv: "gc_inv roots h" and root: "root_ids roots h \<inter> dom (objects h) \<subseteq> marks h"
    and fin: "\<forall>(i, pr) \<in> set (finalizer_table h). heap_marked h i \<longrightarrow> val_ids [pr] \<inter> dom (objects h) \<subseteq> marks h"
  shows "marks h = keep roots h"
proof
  show "marks h \<subseteq> keep roots h" using inv by (simp add: gc_inv_def)
  show "keep roots h \<subseteq> marks h"
  proof
    fix i
    assume "i \<in> keep roots h"
    then show "i \<in> marks h" unfolding keep_def
    proof (induction rule: retained.induct)
      case (root i)
      then show ?case using assms(2) by auto
    next
      case (step i j)
      then show ?case using inv by (auto simp: gc_inv_def closed_marks_def)
    next
      case (finalizer i pr j)
      then show ?case using fin by (fastforce simp: marks_def val_ids_def)
    qed
  qed
qed

section \<open>What survives\<close>

text \<open>
  The survivors of a collection, in terms of the heap before it: what has to be kept; the objects
  whose finalizers are delivered, with the procedures; and the guarded objects that are delivered
  to their guardians, in the order of the tracked pairs, each with all that it reaches.
\<close>

definition finalized_ids :: "lispval list \<Rightarrow> heap \<Rightarrow> object_id set" where
  "finalized_ids roots h = (\<Union>(i, pr) \<in> {x \<in> set (dead_registrations roots h). objects h (fst x) \<noteq> None}. insert i (val_ids [pr]))"

fun guardian_rescue :: "obj_map \<Rightarrow> object_id set \<Rightarrow> (object_id \<times> object_id) list \<Rightarrow> object_id set \<Rightarrow> object_id set" where
  "guardian_rescue ob K [] M = M"
| "guardian_rescue ob K ((g, t) # ps) M = guardian_rescue ob K ps
     (if g \<in> M \<and> (\<exists>q. ob g = Some (Guardian_obj q)) \<and> t \<notin> K \<and> ob t \<noteq> None then M \<union> reach ob {t} else M)"

definition survivors :: "lispval list \<Rightarrow> heap \<Rightarrow> object_id set" where
  "survivors roots h = guardian_rescue (objects h) (keep roots h) (guardian_tracking_snapshot h)
     (keep roots h \<union> reach (objects h) (finalized_ids roots h))"

lemma reach_Un: "reach ob (A \<union> B) = reach ob A \<union> reach ob B"
proof
  show "reach ob (A \<union> B) \<subseteq> reach ob A \<union> reach ob B"
  proof
    fix i assume "i \<in> reach ob (A \<union> B)"
    then show "i \<in> reach ob A \<union> reach ob B" by (induction rule: reach.induct) (auto intro: reach.intros)
  qed
qed (auto intro: reach_mono)

lemma reach_empty [simp]: "reach ob {} = {}"
proof -
  have False if "i \<in> reach ob {}" for i using that by (induction rule: reach.induct) auto
  then show ?thesis by blast
qed

lemma rescue_mono: "M \<subseteq> guardian_rescue ob K ps M"
proof (induction ps arbitrary: M)
  case (Cons p ps)
  obtain g t where "p = (g, t)" by (cases p)
  then show ?case using Cons [of M] Cons [of "M \<union> reach ob {t}"] by auto
qed simp

lemma enqueue_dead_finalizer_marks:
  fixes dead :: "object_id list"
  assumes inv: "gc_inv roots h" and d: "distinct (map fst (finalizer_table h))" "(i, pr) \<in> set (finalizer_table h)"
  shows "marks (enqueue_dead_finalizer dead (i, pr) h) =
    marks h \<union> (if i \<in> set dead \<and> objects h i \<noteq> None then reach (objects h) (insert i (val_ids [pr])) else {})"
proof -
  have wf: "heap_wf h" using inv by (simp add: gc_inv_def)
  then have sw: "shards_wf (shards h)" by (simp add: heap_wf_def)
  consider "i \<notin> set dead" | "i \<in> set dead" "objects h i = None" | "i \<in> set dead" "objects h i \<noteq> None" by blast
  then show ?thesis
  proof cases
    case 1
    then show ?thesis by (simp add: enqueue_dead_finalizer_def)
  next
    case 2
    have e: "enqueue_dead_finalizer dead (i, pr) h = snd (remove_finalizer i h)"
      using 2 objects_None_iff [OF sw] by (simp add: enqueue_dead_finalizer_def)
    then show ?thesis using 2 same_store_marked [of h "snd (remove_finalizer i h)"] by (simp add: marks_def)
  next
    case 3
    let ?b = "box HeapObject_tag i"
    let ?h1 = "snd (remove_finalizer i (enqueue_pending_finalizer ?b pr h))"
    let ?h2 = "snd (mark_value ?h1 ?b)"
    have e: "enqueue_dead_finalizer dead (i, pr) h = snd (mark_value ?h2 pr)"
      using 3 objects_None_iff [OF sw, of i] unfolding enqueue_dead_finalizer_def Let_def
      by (simp del: not_None_eq)
    note V = gc_inv_move_finalizer [OF inv d 3(2)]
    have wf1: "heap_wf ?h1" and c1: "closed_marks ?h1" using V(1) by (simp_all add: gc_inv_def)
    have M1: "marked_from ?h1 {i} ?h2"
      using mark_from_values_correct(1) [OF wf1, of "[?b]"] val_ids_boxed [OF wf 3(2)] by (simp add: mark_value_def)
    have m2: "marks ?h2 = marks h \<union> reach (objects h) {i}"
      using mark_from_values_exact [OF wf1 c1, of "[?b]"] val_ids_boxed [OF wf 3(2)] V(4,5) by (simp add: mark_value_def)
    have h2: "heap_wf ?h2" "objects ?h2 = objects h" using M1 V(4) by (simp_all add: marked_from_def)
    have "marks (snd (mark_value ?h2 pr)) = marks ?h2 \<union> reach (objects h) (val_ids [pr])"
      using mark_from_values_exact [OF h2(1) marked_from_closed [OF c1 M1], of "[pr]"] h2(2) by (simp add: mark_value_def [of ?h2])
    then show ?thesis using 3 m2 reach_Un [of "objects h" "{i}" "val_ids [pr]"] unfolding e by auto
  qed
qed

lemma enqueue_dead_finalizers_marks_fold:
  fixes dead :: "object_id list"
  assumes "gc_inv roots h" "distinct (map fst (finalizer_table h))" "set xs \<subseteq> set (finalizer_table h)"
    "distinct (map fst xs)"
  shows "marks (fold (enqueue_dead_finalizer dead) xs h) = marks h
    \<union> reach (objects h) (\<Union>(i, pr) \<in> {x \<in> set xs. fst x \<in> set dead \<and> objects h (fst x) \<noteq> None}. insert i (val_ids [pr]))"
  using assms
proof (induction xs arbitrary: h)
  case (Cons x xs)
  obtain i pr where x: "x = (i, pr)" by (cases x)
  let ?h = "enqueue_dead_finalizer dead (i, pr) h"
  have m: "(i, pr) \<in> set (finalizer_table h)" using Cons.prems(3) x by simp
  note E = enqueue_dead_finalizer_correct [OF Cons.prems(1,2) m, of dead]
  have t: "finalizer_table ?h = filter (\<lambda>(k, _). \<not> (k \<in> set dead \<and> k = i)) (finalizer_table h)"
    using E by (cases "i \<in> set dead") (auto simp: AList.delete_eq filter_id_conv eq_commute [of "finalizer_table h"] intro!: filter_cong)
  have "distinct (map fst (finalizer_table ?h))" unfolding t
    using Cons.prems(2) by (rule distinct_map_filter)
  moreover have "set xs \<subseteq> set (finalizer_table ?h)"
    using Cons.prems(3,4) x unfolding t by (force simp: image_iff)
  ultimately have IH: "marks (fold (enqueue_dead_finalizer dead) xs ?h) = marks ?h
    \<union> reach (objects h) (\<Union>(i, pr) \<in> {x \<in> set xs. fst x \<in> set dead \<and> objects h (fst x) \<noteq> None}. insert i (val_ids [pr]))"
    using Cons.IH [of ?h] E Cons.prems(4) by simp
  have "{x \<in> set ((i, pr) # xs). fst x \<in> set dead \<and> objects h (fst x) \<noteq> None}
      = (if i \<in> set dead \<and> objects h i \<noteq> None then {(i, pr)} else {}) \<union> {x \<in> set xs. fst x \<in> set dead \<and> objects h (fst x) \<noteq> None}"
    by auto
  then show ?case using IH enqueue_dead_finalizer_marks [OF Cons.prems(1,2) m, of dead]
    by (simp add: x reach_Un Un_assoc del: not_None_eq)
qed simp

text \<open>Delivery to guardians changes objects of marked ids only, the queues.\<close>

definition delivered_from :: "obj_map \<Rightarrow> heap \<Rightarrow> bool" where
  "delivered_from ob h \<longleftrightarrow> queue_ext ob (objects h) \<and> (\<forall>i. i \<notin> marks h \<longrightarrow> objects h i = ob i)"

lemma reach_delivered:
  assumes d: "delivered_from ob h" and c: "closed_marks h" and g: "g \<in> marks h"
    and q: "objects h g = Some (Guardian_obj q)" and b: "val_ids [v] = {t}"
  shows "marks h \<union> reach ((objects h)(g \<mapsto> Guardian_obj (q @ [v]))) {t} = marks h \<union> reach ob {t}"
proof -
  let ?o = "(objects h)(g \<mapsto> Guardian_obj (q @ [v]))"
  have ext: "queue_ext ob ?o"
  proof (rule queue_ext_trans)
    show "queue_ext ob (objects h)" using d by (simp add: delivered_from_def)
    show "queue_ext (objects h) ?o" using q by (simp add: queue_ext_def)
  qed
  have dom: "?o i = None \<longleftrightarrow> ob i = None" for i using queue_ext_None [OF ext] .
  have dom': "objects h i = None \<longleftrightarrow> ob i = None" for i
    using d queue_ext_None by (simp add: delivered_from_def)
  have old: "succs ?o i = succs ob i" if "i \<notin> marks h" for i
    using that d g by (auto simp: delivered_from_def succs_def)
  have new: "set (succs ?o i) \<subseteq> set (succs (objects h) i) \<union> {t}" for i
    using q b by (auto simp: succs_def val_ids_def heap_ref_ids_def)
  have "i \<in> marks h \<union> reach ob {t}" if "i \<in> reach ?o {t}" for i
    using that
  proof (induction rule: reach.induct)
    case (root i)
    have "ob i \<noteq> None" using root(2) unfolding dom .
    then show ?case using root(1) by (intro UnI2 reach.root)
  next
    case (step i j)
    have j: "ob j \<noteq> None" using step(3) unfolding dom .
    show ?case
    proof (cases "i \<in> marks h")
      case True
      then have "set (succs (objects h) i) \<inter> dom (objects h) \<subseteq> marks h" using c by (simp add: closed_marks_def)
      moreover have "j \<in> dom (objects h)" using j unfolding dom' [symmetric] by auto
      ultimately show ?thesis using new [of i] step(2) j by (auto intro: reach.root)
    next
      case False
      then show ?thesis using step old [OF False] j by (auto intro: reach.step)
    qed
  qed
  moreover have "i \<in> reach ?o {t}" if "i \<in> reach ob {t}" for i
    using that
  proof (induction rule: reach.induct)
    case (root i)
    have "?o i \<noteq> None" using root(2) unfolding dom .
    then show ?case using root(1) by (intro reach.root)
  next
    case (step i j)
    have j: "?o j \<noteq> None" using step(3) unfolding dom .
    have "j \<in> set (succs ?o i)" using step(2) queue_ext_succs [OF ext, of i] by blast
    then show ?case by (rule reach.step [OF step(4) _ j])
  qed
  ultimately show ?thesis by blast
qed

lemma enqueue_guardian_ready_iff:
  assumes "heap_wf h"
  shows "fst (enqueue_guardian_ready g v h) \<longleftrightarrow> (\<exists>q. objects h g = Some (Guardian_obj q))"
proof
  assume "fst (enqueue_guardian_ready g v h)"
  then show "\<exists>q. objects h g = Some (Guardian_obj q)"
    using enqueue_guardian_ready_correct [OF assms prod.collapse [symmetric], of g v] by auto
next
  assume "\<exists>q. objects h g = Some (Guardian_obj q)"
  then obtain q where q: "objects h g = Some (Guardian_obj q)" by blast
  have n: "\<not> owns (pool h) g"
  proof
    assume "owns (pool h) g"
    with q show False by (auto simp: objects_owned)
  qed
  then obtain e where e: "general_entry h g = Some e" "entry_ptr e = Some (Guardian_obj q)"
    using q by (cases "general_entry h g") (auto simp: objects_general)
  then have "kind (entry_header e) = Guardian_kind"
    using general_entry_ok [OF _ e(1)] assms by (auto simp: heap_wf_def entry_ok_iff)
  then show "fst (enqueue_guardian_ready g v h)"
    using n e by (simp add: enqueue_guardian_ready_def try_get_as_def heap_try_get_def)
qed

lemma enqueue_dead_guardian_marks:
  fixes dead :: "object_id list" and g t :: object_id
  assumes inv: "gc_inv roots h" and d: "delivered_from ob h"
  defines "h' \<equiv> enqueue_dead_guardian dead (g, t) h"
  shows "marks h' = (if g \<in> marks h \<and> (\<exists>q. ob g = Some (Guardian_obj q)) \<and> t \<in> set dead \<and> ob t \<noteq> None
      then marks h \<union> reach ob {t} else marks h)" (is "_ = (if ?c then _ else _)")
    and "delivered_from ob h'"
proof -
  have wf: "heap_wf h" using inv by (simp add: gc_inv_def)
  then have sw: "shards_wf (shards h)" by (simp add: heap_wf_def)
  have ext: "queue_ext ob (objects h)" using d by (simp add: delivered_from_def)
  have gq: "(\<exists>q. ob g = Some (Guardian_obj q)) \<longleftrightarrow> (\<exists>q. objects h g = Some (Guardian_obj q))"
    using ext [unfolded queue_ext_def, rule_format, of g] by (elim disjE exE conjE) simp_all
  have live: "heap_try_get h t = None \<longleftrightarrow> ob t = None" using objects_None_iff [OF sw, of t] queue_ext_None [OF ext, of t] by simp
  have gm: "gc_is_marked h g \<longleftrightarrow> g \<in> marks h" by (simp add: gc_is_marked_eq marks_def)
  obtain b h1 where e: "enqueue_guardian_ready g (box HeapObject_tag t) h = (b, h1)"
    by (cases "enqueue_guardian_ready g (box HeapObject_tag t) h")
  note E = enqueue_guardian_ready_correct [OF wf e]
  have b: "b \<longleftrightarrow> (\<exists>q. ob g = Some (Guardian_obj q))"
    using enqueue_guardian_ready_iff [OF wf, of g "box HeapObject_tag t"] by (simp add: e gq)
  have rm: "marks (snd (remove_guardian_tracking g t k)) = marks k" "objects (snd (remove_guardian_tracking g t k)) = objects k" for k
    using same_store_objects [of k "snd (remove_guardian_tracking g t k)"] same_store_marked [of k "snd (remove_guardian_tracking g t k)"]
    by (simp_all add: marks_def)
  have "marks h' = (if ?c then marks h \<union> reach ob {t} else marks h) \<and> delivered_from ob h'"
  proof (cases ?c)
    case True
    then have bT: "b" "g \<in> marks h" "objects h t \<noteq> None" using b live objects_None_iff [OF sw, of t] by auto
    let ?h2 = "snd (remove_guardian_tracking g t h1)"
    have h': "h' = snd (mark_value ?h2 (box HeapObject_tag t))"
      using e bT True live by (simp add: h'_def enqueue_dead_guardian_def gm Let_def del: not_None_eq)
    obtain q where q: "objects h g = Some (Guardian_obj q)"
      "objects h1 = (objects h)(g \<mapsto> Guardian_obj (q @ [box HeapObject_tag t]))"
      and h1: "heap_wf h1" "heap_marked h1 = heap_marked h"
      using E bT(1) by auto
    have vt: "val_ids [box HeapObject_tag t] = {t}" by (rule val_ids_boxed [OF wf bT(3)])
    have h2: "heap_wf ?h2" "objects ?h2 = objects h1" "marks ?h2 = marks h"
      using same_store_wf [of h1 ?h2] h1 rm [of h1] by (simp_all add: marks_def)
    have m: "marked_from ?h2 {t} h'"
      using mark_from_values_correct(1) [OF h2(1), of "[box HeapObject_tag t]"] vt by (simp add: h' mark_value_def)
    have c: "closed_marks h" using inv by (simp add: gc_inv_def)
    note D = gc_inv_deliver [OF inv q(1) _ bT(3) h2(1) h2(2) [unfolded q(2)] h2(3) _ _ m]
    have R: "marks h \<union> reach (objects ?h2) {t} = marks h \<union> reach ob {t}"
      using reach_delivered [OF d c bT(2) q(1) vt] by (simp add: h2(2) q(2))
    have fz: "finalizer_table ?h2 = finalizer_table h" "pending_finalizers ?h2 = pending_finalizers h"
      using E bT(1) remove_guardian_tracking_frame [where h = h1 and g = g and t = t] by (auto simp: queues_frame_def)
    have inv': "gc_inv roots h'" using D(1) bT(2) fz by (simp add: marks_def)
    have sub: "marks h' \<subseteq> marks h \<union> reach (objects ?h2) {t}" using m h2(3) by (simp add: marked_from_def)
    have "reach (objects h') {t} \<subseteq> marks h'"
      by (rule closed_reach) (use inv' m in \<open>auto simp: gc_inv_def marked_from_def\<close>)
    then have "marks h' = marks h \<union> reach (objects ?h2) {t}"
      using sub m h2(3) by (auto simp: marked_from_def)
    then have mk: "marks h' = marks h \<union> reach ob {t}" using R by simp
    have ob': "objects h' = (objects h)(g \<mapsto> Guardian_obj (q @ [box HeapObject_tag t]))"
      using m by (simp add: marked_from_def h2(2) q(2))
    have "queue_ext (objects h) (objects h')" using q(1) by (simp add: ob' queue_ext_def)
    then have "delivered_from ob h'"
      using d bT(2) queue_ext_trans [OF ext] by (auto simp: delivered_from_def mk ob')
    with mk True show ?thesis by simp
  next
    case False
    have "h' = h \<or> h' = snd (remove_guardian_tracking g t h)"
    proof (cases "gc_is_marked h g \<and> t \<in> set dead \<and> heap_try_get h t \<noteq> None")
      case True
      then have "\<not> b" using False b live gm by auto
      then show ?thesis using e E True by (simp add: h'_def enqueue_dead_guardian_def Let_def del: not_None_eq)
    next
      case F: False
      then show ?thesis by (auto simp: h'_def enqueue_dead_guardian_def)
    qed
    then have "marks h' = marks h" "objects h' = objects h" using rm [of h] by auto
    with False d show ?thesis by (auto simp: delivered_from_def)
  qed
  then show "marks h' = (if ?c then marks h \<union> reach ob {t} else marks h)" "delivered_from ob h'" by simp_all
qed

lemma enqueue_dead_guardians_marks_fold:
  fixes dead :: "object_id list"
  assumes "gc_inv roots h" "delivered_from ob h" "\<And>t. t \<in> snd ` set ps \<Longrightarrow> t \<in> set dead \<longleftrightarrow> t \<notin> K"
  shows "marks (fold (enqueue_dead_guardian dead) ps h) = guardian_rescue ob K ps (marks h)"
  using assms
proof (induction ps arbitrary: h)
  case (Cons p ps)
  obtain g t where p: "p = (g, t)" by (cases p)
  let ?h = "enqueue_dead_guardian dead (g, t) h"
  have "gc_inv roots ?h" using enqueue_dead_guardian_correct [OF Cons.prems(1)] by simp
  moreover note E = enqueue_dead_guardian_marks [OF Cons.prems(1,2), of dead g t]
  ultimately have "marks (fold (enqueue_dead_guardian dead) ps ?h) = guardian_rescue ob K ps (marks ?h)"
    using Cons.IH Cons.prems(3) by simp
  moreover have "t \<in> set dead \<longleftrightarrow> t \<notin> K" using Cons.prems(3) p by simp
  ultimately show ?case using E(1) by (simp add: p)
qed simp

lemma gc_mark_phase_correct:
  fixes roots :: "lispval list"
  assumes wf: "heap_wf h" and d: "distinct (map fst (finalizer_table h))"
  defines "h' \<equiv> gc_mark_phase roots h"
  shows "gc_inv roots h'" "marks h' = keep roots h'" "queue_ext (objects h) (objects h')" "gc_frame h h'"
    "finalizer_table h' = filter (\<lambda>(i, _). i \<in> keep roots h) (finalizer_table h)"
    "pending_finalizers h' = pending_finalizers h @
      map (\<lambda>(i, pr). (box HeapObject_tag i, pr)) (filter (\<lambda>(i, _). objects h i \<noteq> None) (dead_registrations roots h))"
    "keep roots h \<subseteq> marks h'" "marks h' = survivors roots h"
proof -
  define c where "c = gc_clear_marks h"
  define r where "r = mark_from_roots roots c"
  define p where "p = mark_pending_finalizers r"
  define h2 where "h2 = mark_live_finalizer_procs_fixpoint p"
  define dk where "dk = snapshot_dead_finalizer_keys h2"
  define dg where "dg = snapshot_dead_guarded_objects h2"
  define h3 where "h3 = enqueue_dead_finalizers dk h2"
  define h4 where "h4 = enqueue_dead_guardians dg h3"
  define q where "q = mark_pending_finalizers h4"
  have h': "h' = mark_live_finalizer_procs_fixpoint q"
    by (simp add: h'_def gc_mark_phase_def Let_def c_def r_def p_def h2_def dk_def dg_def h3_def h4_def q_def)
  note C = gc_clear_marks_correct [OF wf, folded c_def]
  note R = mark_from_roots_correct [OF C(1,3), of roots, folded r_def]
  note P = mark_pending_finalizers_correct [OF R(1), folded p_def]
  note F = mark_live_finalizer_procs_fixpoint_correct [OF P(1), folded h2_def]
  have fr2: "mark_frame r h2" using P(2) F mark_frame_trans by blast
  have crf: "mark_frame c h2" using R(2) fr2 mark_frame_trans by blast
  have h2: "objects h2 = objects h" "finalizer_table h2 = finalizer_table h" "pending_finalizers h2 = pending_finalizers h"
    "gc_frame h h2"
    using crf C gc_frame_trans [OF C(4)] by (simp_all add: mark_frame_def queues_frame_def)
  have pc: "finalizer_table p = finalizer_table h" "objects p = objects h" "objects r = objects h"
    "pending_finalizers r = pending_finalizers h" "objects c = objects h"
    using R(2) P(2) C by (simp_all add: mark_frame_def queues_frame_def)
  have m2: "marks h2 = keep roots h2"
  proof (rule gc_inv_complete)
    show "gc_inv roots h2" using F by simp
    show "root_ids roots h2 \<inter> dom (objects h2) \<subseteq> marks h2"
      using R(3) P(3) F P(2) by (auto simp: root_ids_def h2 pc mark_frame_def)
    show "\<forall>(i, pr) \<in> set (finalizer_table h2). heap_marked h2 i \<longrightarrow> val_ids [pr] \<inter> dom (objects h2) \<subseteq> marks h2"
      using F by (simp add: h2 pc)
  qed
  have k2: "keep roots h2 = keep roots h" by (simp add: keep_def root_ids_def h2)
  have dk: "set dk = {i. \<exists>pr. (i, pr) \<in> set (finalizer_table h) \<and> i \<notin> keep roots h}"
    using m2 k2 by (force simp: dk_def snapshot_dead_finalizer_keys_def gc_is_marked_eq h2 marks_def)
  have inv2: "gc_inv roots h2" using F by simp
  note E = enqueue_dead_finalizers_correct [OF inv2 d [folded h2(2)], of dk, folded h3_def]
  note G = enqueue_dead_guardians_correct [OF E(1), of dg, folded h4_def]
  have inv4: "gc_inv roots h4" using G by simp
  note Q = mark_pending_finalizers_correct [OF inv4, folded q_def]
  note X = mark_live_finalizer_procs_fixpoint_correct [OF Q(1), folded h']
  have fr: "mark_frame h4 h'" using Q(2) X mark_frame_trans by blast
  have sub: "marks h2 \<subseteq> marks h'" using E(2) G fr by (auto simp: store_frame_def mark_frame_def)
  show "keep roots h \<subseteq> marks h'" using sub m2 k2 by simp
  show inv': "gc_inv roots h'" using X by simp
  have ob': "objects h' = objects h4" "finalizer_table h' = finalizer_table h4" "pending_finalizers h' = pending_finalizers h4"
    "objects q = objects h4" "finalizer_table q = finalizer_table h4"
    using fr Q(2) by (simp_all add: mark_frame_def queues_frame_def)
  have dom: "dom (objects h') = dom (objects h2)" using E(3) G by (simp add: ob' store_frame_def)
  show "marks h' = keep roots h'"
  proof (rule gc_inv_complete [OF inv'])
    have "val_ids roots \<inter> dom (objects h') \<subseteq> marks h'"
      using R(3) fr2 sub dom by (auto simp: mark_frame_def h2 pc)
    then show "root_ids roots h' \<inter> dom (objects h') \<subseteq> marks h'"
      using Q(3) X by (auto simp: root_ids_def ob' mark_frame_def)
    show "\<forall>(i, pr) \<in> set (finalizer_table h'). heap_marked h' i \<longrightarrow> val_ids [pr] \<inter> dom (objects h') \<subseteq> marks h'"
      using X by (simp add: ob')
  qed
  show "queue_ext (objects h) (objects h')" using G E(3) h2(1) by (simp add: ob')
  have "{x \<in> set (finalizer_table h). fst x \<in> set dk \<and> objects h (fst x) \<noteq> None}
      = {x \<in> set (dead_registrations roots h). objects h (fst x) \<noteq> None}"
    by (auto simp: dk dead_registrations_def)
  then have m3: "marks h3 = keep roots h \<union> reach (objects h) (finalized_ids roots h)"
    using enqueue_dead_finalizers_marks_fold [OF inv2 d [folded h2(2)] order_refl d [folded h2(2)], of dk] m2 k2
    by (simp only: h3_def enqueue_dead_finalizers_def finalized_ids_def h2)
  have sn: "guardian_tracking_snapshot h3 = guardian_tracking_snapshot h" "guardian_tracking_snapshot h2 = guardian_tracking_snapshot h"
    using crf C(5) E(4) by (simp_all add: guardian_tracking_snapshot_def mark_frame_def queues_frame_def)
  have dg: "t \<in> set dg \<longleftrightarrow> t \<notin> keep roots h" if "t \<in> snd ` set (guardian_tracking_snapshot h)" for t
    using that m2 k2 by (force simp: dg_def snapshot_dead_guarded_objects_def gc_is_marked_eq sn marks_def)
  have "delivered_from (objects h) h3" using E(3) h2(1) by (simp add: delivered_from_def)
  then have m4: "marks h4 = survivors roots h"
    using enqueue_dead_guardians_marks_fold [OF E(1) _ dg] m3
    by (simp add: h4_def enqueue_dead_guardians_def sn survivors_def)
  have s24: "marks h2 \<subseteq> marks h4" using E(2) G by (auto simp: store_frame_def)
  have "marks h4 = keep roots h4"
  proof (rule gc_inv_complete [OF inv4])
    have o4: "dom (objects h4) = dom (objects h)" using dom by (simp add: ob' h2)
    have p4: "pending_finalizers h4 = pending_finalizers h @
        map (\<lambda>(i, pr). (box HeapObject_tag i, pr)) (filter (\<lambda>(i, _). i \<in> set dk \<and> objects h i \<noteq> None) (finalizer_table h))"
      using G E(7) by (simp add: h2)
    have v: "val_ids [box HeapObject_tag i, pr] \<inter> dom (objects h) \<subseteq> marks h4"
      if x: "(i, pr) \<in> set (finalizer_table h)" "i \<in> set dk" "objects h i \<noteq> None" for i pr
    proof -
      have "insert i (val_ids [pr]) \<subseteq> finalized_ids roots h"
        using x dk by (force simp: finalized_ids_def dead_registrations_def)
      then have "insert i (val_ids [pr]) \<inter> dom (objects h) \<subseteq> marks h3" unfolding m3 by (auto intro: reach.root)
      moreover have "val_ids [box HeapObject_tag i, pr] = insert i (val_ids [pr])"
        using val_ids_boxed [OF wf x(3)] val_ids_simps(2) [of "box HeapObject_tag i" "[pr]"] by simp
      ultimately show ?thesis using G by (auto simp: store_frame_def)
    qed
    have v': "x \<in> marks h4"
      if "(i, pr) \<in> set (finalizer_table h)" "i \<in> set dk" "objects h i = Some z" "objects h x = Some y"
        "x \<in> val_ids [box HeapObject_tag i, pr]" for i pr x y z
      using v [OF that(1,2)] that(3-5) by blast
    have "val_ids roots \<inter> dom (objects h) \<subseteq> marks h2" using R(3) fr2 by (auto simp: mark_frame_def pc)
    moreover have "val_ids (concat (map (\<lambda>(ob, pr). [ob, pr]) (pending_finalizers h))) \<inter> dom (objects h) \<subseteq> marks h2"
      using P(3) F by (auto simp: mark_frame_def pc)
    ultimately show "root_ids roots h4 \<inter> dom (objects h4) \<subseteq> marks h4"
      using s24 unfolding root_ids_def o4 p4 by (auto simp: val_ids_concat intro: v')
    have "j \<in> marks h4" if x: "(i, pr) \<in> set (finalizer_table h4)" "j \<in> val_ids [pr]" "objects h j \<noteq> None" for i pr j
    proof -
      have "(i, pr) \<in> set (finalizer_table h)" "i \<in> keep roots h" using x(1) G E(6) dk by (auto simp: h2)
      then have "j \<in> keep roots h" using x(2,3) by (auto simp: keep_def val_ids_def intro: retained.finalizer)
      then show "j \<in> marks h4" using s24 m2 k2 by auto
    qed
    then show "\<forall>(i, pr) \<in> set (finalizer_table h4). heap_marked h4 i \<longrightarrow> val_ids [pr] \<inter> dom (objects h4) \<subseteq> marks h4"
      unfolding o4 by (auto simp: dom_def)
  qed
  moreover have "keep roots h' = keep roots h4" using fr by (simp add: keep_def root_ids_def mark_frame_def queues_frame_def)
  ultimately show "marks h' = survivors roots h" using m4 \<open>marks h' = keep roots h'\<close> by simp
  have "gc_frame h2 h3" using E(2) by (simp add: store_frame_def)
  moreover have "gc_frame h3 h4" using G by (simp add: store_frame_def)
  moreover have "gc_frame h4 h'" using fr by (simp add: mark_frame_def)
  ultimately show "gc_frame h h'" using h2(4) gc_frame_trans by blast
  have "finalizer_table h' = filter (\<lambda>(i, _). i \<notin> set dk) (finalizer_table h)" using G E(6) by (simp add: ob' h2)
  also have "\<dots> = filter (\<lambda>(i, _). i \<in> keep roots h) (finalizer_table h)"
    by (rule filter_cong) (auto simp: dk)
  finally show "finalizer_table h' = filter (\<lambda>(i, _). i \<in> keep roots h) (finalizer_table h)" .
  have "filter (\<lambda>(i, _). i \<in> set dk \<and> objects h i \<noteq> None) (finalizer_table h) =
      filter (\<lambda>(i, _). objects h i \<noteq> None) (dead_registrations roots h)"
    by (auto simp: dead_registrations_def dk case_prod_beta intro!: filter_cong)
  then show "pending_finalizers h' = pending_finalizers h @
      map (\<lambda>(i, pr). (box HeapObject_tag i, pr)) (filter (\<lambda>(i, _). objects h i \<noteq> None) (dead_registrations roots h))"
    using G E(7) by (simp add: ob' h2)
qed


section \<open>The sweep\<close>

lemma pool_entries_owned:
  assumes "heap_wf h" "(i, e) \<in> set (pool_entries (pool h))"
  shows "owns (pool h) i"
proof -
  have ok: "slabs_ok (pool h) (next_id h)" using assms(1) by (simp add: heap_wf_def pool_wf_def)
  obtain r where "r \<in> set (all_ptrs (pool h))" "slot_id (slot_mem (pool h) r) = i"
    using assms(2) by (auto simp: pool_entries_def Let_def)
  then have "find_slot (pool h) i = Some r" using find_slot_iff [OF ok] by (simp add: set_all_ptrs)
  then show ?thesis by (simp add: owns_def)
qed

lemma shard_entries_iff:
  assumes "shards_wf (shards h)"
  shows "(i, e) \<in> set (concat (map (\<lambda>n. heap_objects (shards h n)) [0..<NUM_SHARDS])) \<longleftrightarrow> general_entry h i = Some e"
proof
  assume "(i, e) \<in> set (concat (map (\<lambda>n. heap_objects (shards h n)) [0..<NUM_SHARDS]))"
  then obtain n where n: "n < NUM_SHARDS" "(i, e) \<in> set (heap_objects (shards h n))" by auto
  then have w: "shard_wf n (shards h n)" using assms by (simp add: shards_wf_def)
  then have "select_shard i = n" using n by (auto simp: shard_wf_def)
  with w n show "general_entry h i = Some e"
    by (simp add: general_entry_def shard_of_def shard_wf_def map_of_eq_Some_iff)
next
  assume "general_entry h i = Some e"
  then have "(i, e) \<in> set (heap_objects (shards h (select_shard i)))"
    by (auto simp: general_entry_def shard_of_def dest: map_of_SomeD)
  then show "(i, e) \<in> set (concat (map (\<lambda>n. heap_objects (shards h n)) [0..<NUM_SHARDS]))"
    using select_shard_less [of i] by auto
qed

lemma set_garbage_ids:
  assumes wf: "heap_wf h"
  shows "set (garbage_ids h) = {i. \<not> owns (pool h) i \<and> objects h i \<noteq> None \<and> \<not> heap_marked h i}"
proof -
  have sw: "shards_wf (shards h)" using wf by (simp add: heap_wf_def)
  have "i \<in> set (garbage_ids h) \<longleftrightarrow> \<not> owns (pool h) i \<and> (\<exists>e. general_entry h i = Some e \<and> \<not> entry_marked e)" for i
    using pool_entries_owned [OF wf, of i] shard_entries_iff [OF sw, of i]
    unfolding garbage_ids_def visited_entries_def by (fastforce simp: image_iff)
  moreover have "\<not> owns (pool h) i \<Longrightarrow> (\<exists>e. general_entry h i = Some e \<and> \<not> entry_marked e) \<longleftrightarrow>
      objects h i \<noteq> None \<and> \<not> heap_marked h i" for i
    using objects_None_iff [OF sw, of i] by (auto simp: heap_try_get_def marked_general entry_marked_def split: option.splits)
  ultimately show ?thesis by blast
qed

lemma distinct_garbage_ids:
  assumes wf: "heap_wf h"
  shows "distinct (garbage_ids h)"
proof -
  have sw: "shards_wf (shards h)" using wf by (simp add: heap_wf_def)
  let ?Q = "\<lambda>(i, e). \<not> owns (pool h) i \<and> \<not> entry_marked e"
  let ?g = "\<lambda>k. concat (map (\<lambda>n. heap_objects (shards h n)) [0..<k])"
  have "filter ?Q (pool_entries (pool h)) = []"
    using pool_entries_owned [OF wf] by (auto simp: filter_empty_conv)
  then have eq: "garbage_ids h = map fst (filter ?Q (?g NUM_SHARDS))"
    by (simp add: garbage_ids_def visited_entries_def)
  have shard: "select_shard i = n" if "n < NUM_SHARDS" "(i, e) \<in> set (heap_objects (shards h n))" for i e n
    using sw that by (auto simp: shards_wf_def shard_wf_def)
  have "k \<le> NUM_SHARDS \<Longrightarrow> distinct (map fst (?g k))" for k
  proof (induction k)
    case (Suc k)
    have "distinct (map fst (heap_objects (shards h k)))" using sw Suc.prems by (simp add: shards_wf_def shard_wf_def)
    moreover have "select_shard i < k" if "i \<in> fst ` set (?g k)" for i
    proof -
      from that obtain n e where "n < k" "(i, e) \<in> set (heap_objects (shards h n))" by auto
      with shard [of n i e] Suc.prems show ?thesis by simp
    qed
    moreover have "select_shard i = k" if "i \<in> fst ` set (heap_objects (shards h k))" for i
    proof -
      from that obtain e where "(i, e) \<in> set (heap_objects (shards h k))" by auto
      with shard [of k i e] Suc.prems show ?thesis by simp
    qed
    ultimately have "fst ` set (?g k) \<inter> fst ` set (heap_objects (shards h k)) = {}"
      "distinct (map fst (heap_objects (shards h k)))" by (blast dest: less_imp_neq)+
    moreover have "distinct (map fst (?g k))" using Suc by simp
    ultimately show ?case by simp
  qed simp
  then have "distinct (map fst (?g NUM_SHARDS))" by simp
  then show ?thesis unfolding eq by (rule distinct_map_filter)
qed

lemma deallocate_all_fold:
  "snd (deallocate_all is (n, h)) = fold (\<lambda>i h. snd (deallocate i h)) is h"
  by (induction "is" arbitrary: n h) (auto split: prod.splits)

lemma deallocate_all_count:
  "heap_wf h \<Longrightarrow> distinct is \<Longrightarrow> \<forall>i \<in> set is. objects h i \<noteq> None \<Longrightarrow> fst (deallocate_all is (n, h)) = n + length is"
proof (induction "is" arbitrary: n h)
  case (Cons i "is")
  obtain r h' where d: "deallocate i h = (r, h')" by (cases "deallocate i h")
  note D = deallocate_correct [OF Cons.prems(1) d]
  have "\<forall>j \<in> set is. objects h' j \<noteq> None" using Cons.prems by (auto simp: D(2))
  then show ?case using Cons.IH [OF D(1)] Cons.prems d D(4) by simp
qed simp

text \<open>What the sweep leaves alone when nothing it frees is registered or pending.\<close>

definition sweep_frame :: "heap \<Rightarrow> heap \<Rightarrow> bool" where
  "sweep_frame h h' \<longleftrightarrow> slabs (pool h') = slabs (pool h) \<and> next_id h' = next_id h \<and>
     total_capacity (pool h') = total_capacity (pool h) \<and>
     max_heap_soft_limit h' = max_heap_soft_limit h \<and> external_roots h' = external_roots h \<and>
     gc_in_progress h' = gc_in_progress h"

lemma sweep_frame_trans: "sweep_frame h h' \<Longrightarrow> sweep_frame h' h'' \<Longrightarrow> sweep_frame h h''"
  by (simp add: sweep_frame_def)

lemma free_slot_frame: "slabs (free_slot i p) = slabs p" "total_capacity (free_slot i p) = total_capacity p"
  by (simp_all add: free_slot_def push_free_def split: option.splits)

lemma erase_fields [simp]:
  "pool (erase_finalizers i h) = pool h" "next_id (erase_finalizers i h) = next_id h" "max_heap_soft_limit (erase_finalizers i h) = max_heap_soft_limit h"
    "external_roots (erase_finalizers i h) = external_roots h" "gc_in_progress (erase_finalizers i h) = gc_in_progress h"
  "pool (erase_guardian_tracking_for_object i h) = pool h" "next_id (erase_guardian_tracking_for_object i h) = next_id h" "max_heap_soft_limit (erase_guardian_tracking_for_object i h) = max_heap_soft_limit h"
    "external_roots (erase_guardian_tracking_for_object i h) = external_roots h" "gc_in_progress (erase_guardian_tracking_for_object i h) = gc_in_progress h"
  "pool (erase_guardian_tracking_for_guardian i h) = pool h" "next_id (erase_guardian_tracking_for_guardian i h) = next_id h" "max_heap_soft_limit (erase_guardian_tracking_for_guardian i h) = max_heap_soft_limit h"
    "external_roots (erase_guardian_tracking_for_guardian i h) = external_roots h" "gc_in_progress (erase_guardian_tracking_for_guardian i h) = gc_in_progress h"
  by (simp_all add: erase_finalizers_def erase_pending_finalizers_for_object_def remove_finalizer_def
      erase_guardian_tracking_for_object_def erase_guardian_tracking_for_guardian_def split: option.splits)

lemma deallocate_frame: "sweep_frame h (snd (deallocate i h))"
  by (simp add: deallocate_def Let_def sweep_frame_def free_slot_frame split: option.splits)

lemma erase_finalizers_absent:
  assumes "i \<notin> fst ` set (finalizer_table h)"
    "\<forall>(ob, pr) \<in> set (pending_finalizers h). \<not> (is_heap_ref ob \<and> payload ob = i)"
  shows "finalizer_table (erase_finalizers i h) = finalizer_table h"
    "pending_finalizers (erase_finalizers i h) = pending_finalizers h"
  using assms by (auto simp: erase_finalizers_def erase_pending_finalizers_for_object_def remove_finalizer_def
      intro!: filter_True)

lemma erase_tracking_queues [simp]:
  "finalizer_table (erase_guardian_tracking_for_object i h) = finalizer_table h"
  "pending_finalizers (erase_guardian_tracking_for_object i h) = pending_finalizers h"
  "finalizer_table (erase_guardian_tracking_for_guardian i h) = finalizer_table h"
  "pending_finalizers (erase_guardian_tracking_for_guardian i h) = pending_finalizers h"
  by (simp_all add: erase_guardian_tracking_for_object_def erase_guardian_tracking_for_guardian_def split: option.splits)

lemma deallocate_queues:
  assumes "i \<notin> fst ` set (finalizer_table h)"
    "\<forall>(ob, pr) \<in> set (pending_finalizers h). \<not> (is_heap_ref ob \<and> payload ob = i)"
  shows "finalizer_table (snd (deallocate i h)) = finalizer_table h"
    "pending_finalizers (snd (deallocate i h)) = pending_finalizers h"
  using assms by (simp_all add: deallocate_def Let_def erase_finalizers_absent split: option.splits)

lemma deallocate_fold_queues:
  assumes "set is \<inter> fst ` set (finalizer_table h) = {}"
    "\<forall>(ob, pr) \<in> set (pending_finalizers h). is_heap_ref ob \<longrightarrow> payload ob \<notin> set is"
  shows "finalizer_table (fold (\<lambda>i h. snd (deallocate i h)) is h) = finalizer_table h \<and>
    pending_finalizers (fold (\<lambda>i h. snd (deallocate i h)) is h) = pending_finalizers h \<and>
    sweep_frame h (fold (\<lambda>i h. snd (deallocate i h)) is h)"
  using assms
proof (induction "is" arbitrary: h)
  case (Cons i "is")
  have q: "finalizer_table (snd (deallocate i h)) = finalizer_table h"
    "pending_finalizers (snd (deallocate i h)) = pending_finalizers h"
    by (rule deallocate_queues; use Cons.prems in force)+
  show ?case using Cons.IH [of "snd (deallocate i h)"] Cons.prems q deallocate_frame [of h i] sweep_frame_trans
    by (simp add: q) blast
qed (simp add: sweep_frame_def)


lemma gc_sweep_correct:
  assumes wf: "heap_wf h" and sw: "gc_sweep h = (freed, h')"
    and tab: "fst ` set (finalizer_table h) \<subseteq> marks h"
    and pend: "\<forall>(ob, pr) \<in> set (pending_finalizers h). is_heap_ref ob \<longrightarrow> objects h (payload ob) \<noteq> None \<longrightarrow> heap_marked h (payload ob)"
  shows "heap_wf h'" "objects h' = objects h |` marks h" "sweep_frame h h'"
    "finalizer_table h' = finalizer_table h" "pending_finalizers h' = pending_finalizers h"
proof -
  obtain n h1 where s1: "sweep_cons_pool h = (n, h1)" by (cases "sweep_cons_pool h")
  note S = sweep_cons_pool_correct [OF wf s1]
  have h': "h' = fold (\<lambda>i h. snd (deallocate i h)) (garbage_ids h1) h1"
    using sw s1 deallocate_all_fold [of "garbage_ids h1" n h1] by (simp add: gc_sweep_def)
  have q1: "finalizer_table h1 = finalizer_table h" "pending_finalizers h1 = pending_finalizers h" "sweep_frame h h1"
  proof -
    obtain p where p: "pool_sweep (pool h) = (p, n)" "h1 = h\<lparr>pool := p, total_heap_bytes := total_heap_bytes h - n * CONS_SIZE\<rparr>"
      using s1 by (auto simp: sweep_cons_pool_def split: prod.splits)
    have "slabs q = slabs q' \<and> total_capacity q = total_capacity q'" if "fold sweep_at rs (q', k) = (q, j)" for rs q q' k j
      using that by (induction rs arbitrary: q' k) (auto simp: sweep_at_def push_free_def Let_def split: if_splits)
    then have "slabs p = slabs (pool h) \<and> total_capacity p = total_capacity (pool h)"
      using p(1) unfolding pool_sweep_def by blast
    then show "finalizer_table h1 = finalizer_table h" "pending_finalizers h1 = pending_finalizers h" "sweep_frame h h1"
      by (simp_all add: p(2) sweep_frame_def)
  qed
  have m1: "heap_marked h1 i = heap_marked h i" if "\<not> owns (pool h) i" for i
    using that S(3,4) by (simp add: marked_general)
  have G: "set (garbage_ids h1) = {i. \<not> owns (pool h) i \<and> objects h i \<noteq> None \<and> \<not> heap_marked h i}"
    using set_garbage_ids [OF S(1)] S(2,3) m1 by auto
  have live: "heap_marked h i \<Longrightarrow> objects h i \<noteq> None" for i using marks_live [OF wf] by (auto simp: marks_def)
  show "heap_wf h'" unfolding h' by (rule heap_store.free_all_inv [OF S(1)])
  show "objects h' = objects h |` marks h"
  proof
    fix i
    show "objects h' i = (objects h |` marks h) i"
      unfolding h' heap_store.free_all_get [OF S(1)] using G live [of i] S(2) [of i]
      by (cases "objects h i") (auto simp: restrict_map_def marks_def)
  qed
  have "set (garbage_ids h1) \<inter> fst ` set (finalizer_table h1) = {}"
    using G tab by (auto simp: q1 marks_def)
  moreover have "\<forall>(ob, pr) \<in> set (pending_finalizers h1). is_heap_ref ob \<longrightarrow> payload ob \<notin> set (garbage_ids h1)"
    using G pend by (auto simp: q1)
  ultimately have D: "finalizer_table h' = finalizer_table h1 \<and> pending_finalizers h' = pending_finalizers h1 \<and> sweep_frame h1 h'"
    unfolding h' by (rule deallocate_fold_queues)
  then show "sweep_frame h h'" "finalizer_table h' = finalizer_table h" "pending_finalizers h' = pending_finalizers h"
    using q1 sweep_frame_trans by auto
qed

section \<open>Collection\<close>

definition collect_wf :: "heap \<Rightarrow> bool" where
  "collect_wf h \<longleftrightarrow> heap_wf h \<and> distinct (map fst (finalizer_table h))"

lemma retained_restrict:
  assumes "S = retained ob R F"
  shows "retained (ob |` S) R F = S"
proof
  show "retained (ob |` S) R F \<subseteq> S"
  proof
    fix i
    assume "i \<in> retained (ob |` S) R F"
    then have "(ob |` S) i \<noteq> None" by (rule retained_live)
    then show "i \<in> S" by (simp add: restrict_map_def split: if_splits)
  qed
  have succ: "succs (ob |` S) i = succs ob i" if "i \<in> S" for i using that by (simp add: succs_def)
  have dom: "(ob |` S) i \<noteq> None" if "i \<in> S" for i using that assms retained_live by (auto simp: restrict_map_def)
  show "S \<subseteq> retained (ob |` S) R F"
  proof
    fix i
    assume "i \<in> S"
    then have "i \<in> retained ob R F" using assms by simp
    then show "i \<in> retained (ob |` S) R F"
    proof (induction rule: retained.induct)
      case (root i)
      then have "i \<in> S" using assms by (auto intro: retained.root)
      then show ?case using root dom by (blast intro: retained.root)
    next
      case (step i j)
      then have "i \<in> S" "j \<in> S" using assms by (auto intro: retained.step)
      then show ?case using step succ dom by (metis retained.step)
    next
      case (finalizer i pr j)
      then have "j \<in> S" using assms by (auto intro: retained.finalizer)
      then show ?case using finalizer dom by (metis retained.finalizer)
    qed
  qed
qed

lemma collect_correct:
  fixes roots :: "lispval list"
  assumes wf: "collect_wf h" and c: "collect roots h = (st, h')"
  shows "collect_wf h'" "dom (objects h') = keep roots h'" "keep roots h \<subseteq> dom (objects h')"
    "\<exists>ob. queue_ext (objects h) ob \<and> objects h' = ob |` dom (objects h') \<and>
       (\<forall>i j. i \<in> dom (objects h') \<longrightarrow> j \<in> set (succs ob i) \<longrightarrow> objects h j \<noteq> None \<longrightarrow> j \<in> dom (objects h'))"
    "finalizer_table h' = filter (\<lambda>(i, _). i \<in> keep roots h) (finalizer_table h)"
    "pending_finalizers h' = pending_finalizers h @
      map (\<lambda>(i, pr). (box HeapObject_tag i, pr)) (filter (\<lambda>(i, _). objects h i \<noteq> None) (dead_registrations roots h))"
    "next_id h' = next_id h" "slabs (pool h') = slabs (pool h)" "total_capacity (pool h') = total_capacity (pool h)"
    "max_heap_soft_limit h' = max_heap_soft_limit h" "\<not> gc_in_progress h'"
    "bytes_before st = total_heap_bytes h" "bytes_after st = total_heap_bytes h'"
    "root_ids roots h' \<inter> dom (objects h) \<subseteq> dom (objects h')" "dom (objects h') = survivors roots h"
proof -
  have hw: "heap_wf h" and d: "distinct (map fst (finalizer_table h))" using wf by (simp_all add: collect_wf_def)
  define m where "m = gc_mark_phase roots h"
  define p where "p = pause_for_gc m"
  obtain freed s where s: "gc_sweep p = (freed, s)" by (cases "gc_sweep p")
  have h': "h' = resume_after_gc s" and st: "bytes_before st = total_heap_bytes h" "bytes_after st = total_heap_bytes s"
    using c s by (auto simp: collect_def p_def m_def)
  note M = gc_mark_phase_correct [OF hw d, of roots, folded m_def]
  have sp: "same_store m p" by (simp add: p_def)
  have pw: "heap_wf p" using M(1) same_store_wf [OF sp] by (simp add: gc_inv_def)
  have pf: "objects p = objects m" "marks p = marks m" "finalizer_table p = finalizer_table m" "pending_finalizers p = pending_finalizers m"
    "heap_marked p = heap_marked m"
    using same_store_objects [OF sp] same_store_marked [OF sp] by (simp_all add: marks_def p_def pause_for_gc_def)
  have tab: "fst ` set (finalizer_table p) \<subseteq> marks p" using M(5,7) by (auto simp: pf)
  have pend: "\<forall>(ob, pr) \<in> set (pending_finalizers p). is_heap_ref ob \<longrightarrow> objects p (payload ob) \<noteq> None \<longrightarrow> heap_marked p (payload ob)"
  proof (clarify)
    fix ob pr y
    assume a: "(ob, pr) \<in> set (pending_finalizers p)" "is_heap_ref ob" "objects p (payload ob) = Some y"
    then have "payload ob \<in> root_ids roots m"
      by (force simp: root_ids_pending pf val_ids_def heap_ref_ids_def)
    then have "payload ob \<in> keep roots m" using a(3) by (auto simp: keep_def pf intro: retained.root)
    then show "heap_marked p (payload ob)" using M(2) by (auto simp: pf marks_def)
  qed
  note S = gc_sweep_correct [OF pw s tab pend]
  have ss: "same_store s h'" by (simp add: h')
  have ob: "objects h' = objects m |` marks m" using same_store_objects [OF ss] S(2) by (simp add: pf)
  have tp: "finalizer_table h' = finalizer_table m" "pending_finalizers h' = pending_finalizers m"
    using S(4,5) by (simp_all add: h' resume_after_gc_def pf)
  have live: "marks m \<subseteq> dom (objects m)" using M(1) marks_live by (simp add: gc_inv_def)
  then have dom: "dom (objects h') = marks m" by (simp add: ob) blast
  show "collect_wf h'"
    using S(1) same_store_wf [OF ss] M(5) d by (simp add: collect_wf_def tp distinct_map_filter)
  have "keep roots h' = retained (objects m |` marks m) (root_ids roots m) (set (finalizer_table m))"
    by (simp add: keep_def root_ids_def ob tp)
  also have "\<dots> = marks m" by (rule retained_restrict) (simp add: M(2) keep_def)
  finally show "dom (objects h') = keep roots h'" by (simp add: dom)
  show "keep roots h \<subseteq> dom (objects h')" using M(7) by (simp add: dom)
  show "dom (objects h') = survivors roots h" using M(8) by (simp add: dom)
  have "\<forall>i j. i \<in> marks m \<longrightarrow> j \<in> set (succs (objects m) i) \<longrightarrow> objects h j \<noteq> None \<longrightarrow> j \<in> marks m"
  proof (intro allI impI)
    fix i j
    assume a: "i \<in> marks m" "j \<in> set (succs (objects m) i)" "objects h j \<noteq> None"
    then have "j \<in> dom (objects m)" using queue_ext_dom [OF M(3)] by auto
    moreover have "closed_marks m" using M(1) by (simp add: gc_inv_def)
    ultimately show "j \<in> marks m" using a(1,2) by (auto simp: closed_marks_def)
  qed
  then show "\<exists>ob. queue_ext (objects h) ob \<and> objects h' = ob |` dom (objects h') \<and>
       (\<forall>i j. i \<in> dom (objects h') \<longrightarrow> j \<in> set (succs ob i) \<longrightarrow> objects h j \<noteq> None \<longrightarrow> j \<in> dom (objects h'))"
    unfolding dom using M(3) ob by blast
  show "finalizer_table h' = filter (\<lambda>(i, _). i \<in> keep roots h) (finalizer_table h)"
    "pending_finalizers h' = pending_finalizers h @
      map (\<lambda>(i, pr). (box HeapObject_tag i, pr)) (filter (\<lambda>(i, _). objects h i \<noteq> None) (dead_registrations roots h))"
    using M(5,6) by (simp_all add: tp)
  show "next_id h' = next_id h" "slabs (pool h') = slabs (pool h)" "total_capacity (pool h') = total_capacity (pool h)"
    "max_heap_soft_limit h' = max_heap_soft_limit h"
    using M(4) S(3) by (simp_all add: gc_frame_def sweep_frame_def h' resume_after_gc_def p_def pause_for_gc_def)
  show "root_ids roots h' \<inter> dom (objects h) \<subseteq> dom (objects h')"
    unfolding dom M(2) queue_ext_dom [OF M(3), symmetric]
    by (auto simp: root_ids_def tp keep_def intro: retained.root)
  show "\<not> gc_in_progress h'" by (simp add: h' resume_after_gc_def)
  show "bytes_before st = total_heap_bytes h" "bytes_after st = total_heap_bytes h'"
    using st by (simp_all add: h' resume_after_gc_def)
qed


text \<open>A collection is what the allocators need of their callback.\<close>

lemma collect_gc_ok: "collect_wf h \<Longrightarrow> gc_ok (Some (\<lambda>h. snd (collect roots h))) h"
proof -
  assume wf: "collect_wf h"
  obtain st h' where c: "collect roots h = (st, h')" by (cases "collect roots h")
  note C = collect_correct [OF wf c]
  obtain ob where ob: "queue_ext (objects h) ob" "objects h' = ob |` dom (objects h')" using C(4) by auto
  have "dom (objects h') \<subseteq> dom ob"
  proof
    fix i
    assume "i \<in> dom (objects h')"
    then have "(ob |` dom (objects h')) i \<noteq> None" using ob(2) by auto
    then show "i \<in> dom ob" by (auto simp: restrict_map_def split: if_splits)
  qed
  then have "dom (objects h') \<subseteq> dom (objects h)" using queue_ext_dom [OF ob(1)] by simp
  then show ?thesis using C(1,7-10) c by (simp add: gc_ok_def collect_wf_def)
qed

section \<open>Properties\<close>

text \<open>
  A heap for the witnesses: a pool of two cells, a pair that refers to the first, a vector
  that refers to it too and has the pair as its finalizer procedure.
\<close>

definition sample1 :: heap where "sample1 = snd (alloc_cons None Nil_val Nil_val (heap_with_pool 2 1000))"
definition sample2 :: heap where "sample2 = snd (alloc_cons None (box HeapObject_tag 1) Nil_val sample1)"
definition sample3 :: heap where
  "sample3 = snd (allocate None True 24 (Vector_obj [box HeapObject_tag 1]) sample2)"
definition sample_heap :: heap where
  "sample_heap = snd (register_finalizer 3 (box HeapObject_tag 2) sample3)"

lemma alloc_cons_wf: "heap_wf h \<Longrightarrow> heap_room h \<Longrightarrow> heap_wf (snd (alloc_cons None a d h))"
  using alloc_cons_correct [of h None a d] by (cases "alloc_cons None a d h") (auto split: sum.splits)

lemma sample_wf: "heap_wf sample1" "heap_wf sample2" "heap_wf sample3" "collect_wf sample_heap"
proof -
  have "heap_wf (heap_with_pool 2 1000)" by (rule heap_with_pool_wf) simp_all
  moreover have "next_id (heap_with_pool 2 1000) = 3" "growth (pool (heap_with_pool 2 1000)) = 2" by code_simp+
  then have "heap_room (heap_with_pool 2 1000)" by (simp add: heap_room_def)
  ultimately show 1: "heap_wf sample1" unfolding sample1_def by (rule alloc_cons_wf)
  have "next_id sample1 = 3" "growth (pool sample1) = 2" by code_simp+
  then have "heap_room sample1" by (simp add: heap_room_def)
  with 1 show 2: "heap_wf sample2" unfolding sample2_def by (rule alloc_cons_wf)
  have "next_id sample2 = 3" "growth (pool sample2) = 2" by code_simp+
  then have "heap_room sample2" by (simp add: heap_room_def)
  with 2 show 3: "heap_wf sample3" unfolding sample3_def by (rule heap_allocator.alloc_inv)
  then have "heap_wf sample_heap" using same_store_wf [of sample3 sample_heap] by (simp add: sample_heap_def)
  moreover have "distinct (map fst (finalizer_table sample_heap))" by code_simp
  ultimately show "collect_wf sample_heap" by (simp add: collect_wf_def)
qed

text \<open>C6: A collection frees exactly the objects that are not its survivors, computed from the heap
  before it: the objects reachable from the roots and the pending finalizers, with what the
  finalizer procedures of those objects reach (\<open>keep\<close>); the objects whose finalizers are due, their
  procedures, and what these reach; and, in the order of the tracked pairs, each object outside \<open>keep\<close>
  whose guardian survives at its turn, with what it reaches. All of these stay and nothing else
  does; the heap invariant holds again.\<close>

theorem collect_exact:
  assumes "collect_wf h"
  shows "collect_wf (snd (collect roots h)) \<and> dom (objects (snd (collect roots h))) = survivors roots h"
  using collect_correct(1,15) [OF assms prod.collapse [symmetric]] by blast

text \<open>
  Without roots nothing of \<open>sample3\<close> survives; with a finalizer registered for its vector, the vector,
  the procedure and the pair that both refer to do.
\<close>

theorem collect_exact_witness:
  "objects sample3 3 \<noteq> None \<and> dom (objects (snd (collect [] sample3))) = {} \<and>
   {1, 2, 3} \<subseteq> survivors [] sample_heap \<and> dom (objects (snd (collect [] sample_heap))) = survivors [] sample_heap"
proof (intro conjI)
  have f: "finalizer_table sample3 = []" "guardian_tracking_snapshot sample3 = []" "root_ids [] sample3 = {}" by code_simp+
  have "i \<notin> keep [] sample3" for i
  proof
    assume "i \<in> keep [] sample3"
    then show False unfolding keep_def f(3) by (induction rule: retained.induct) (auto simp: f(1))
  qed
  then have k: "keep [] sample3 = {}" by blast
  have "finalized_ids [] sample3 = {}" by (simp add: finalized_ids_def dead_registrations_def f(1))
  then have s: "survivors [] sample3 = {}" by (simp add: survivors_def f(2) k)
  have "collect_wf sample3" using sample_wf(3) by (simp add: collect_wf_def f(1))
  from collect_exact [OF this, of "[]"] show "dom (objects (snd (collect [] sample3))) = {}" by (simp add: s)
  show e: "dom (objects (snd (collect [] sample_heap))) = survivors [] sample_heap"
    using collect_exact [OF sample_wf(4)] by blast
  have t: "finalizer_table sample_heap = [(3, box HeapObject_tag 2)]" "root_ids [] sample_heap = {}"
    "objects sample_heap 3 = Some (Vector_obj [box HeapObject_tag 1])" "objects sample_heap 1 = Some (Cons_obj Nil_val Nil_val)"
    "objects sample_heap 2 = Some (Cons_obj (box HeapObject_tag 1) Nil_val)" "heap_ref_ids [box HeapObject_tag 2] = [2]"
    "heap_ref_ids [box HeapObject_tag 1] = [1]" by code_simp+
  have "i \<notin> keep [] sample_heap" for i
  proof
    assume "i \<in> keep [] sample_heap"
    then show False unfolding keep_def t(2) by (induction rule: retained.induct) auto
  qed
  then have "finalized_ids [] sample_heap = {3, 2}"
    by (auto simp: finalized_ids_def dead_registrations_def t val_ids_def)
  then have r: "3 \<in> reach (objects sample_heap) (finalized_ids [] sample_heap)" "2 \<in> reach (objects sample_heap) (finalized_ids [] sample_heap)"
    by (auto intro!: reach.root simp: t)
  moreover have "1 \<in> reach (objects sample_heap) (finalized_ids [] sample_heap)"
    by (rule reach.step [OF r(1)]) (simp_all add: succs_def t)
  ultimately show "{1, 2, 3} \<subseteq> survivors [] sample_heap"
    using rescue_mono [of "keep [] sample_heap \<union> reach (objects sample_heap) (finalized_ids [] sample_heap)"]
    unfolding survivors_def by blast
  show "objects sample3 3 \<noteq> None" by code_simp
qed

text \<open>C7: A collection frees no object that was reachable from the roots, from pending
  finalizers or from the procedures of live finalizers, and it changes no survivor except by
  appending delivered objects to the queue of a guardian.\<close>

theorem collect_safe:
  assumes "collect_wf h" "i \<in> keep roots h"
  shows "\<exists>x. objects (snd (collect roots h)) i = Some x \<and>
    (objects h i = Some x \<or> (\<exists>q q'. objects h i = Some (Guardian_obj q) \<and> x = Guardian_obj (q @ q')))"
proof -
  note C = collect_correct(3,4) [OF assms(1) prod.collapse [symmetric], of roots]
  have i: "i \<in> dom (objects (snd (collect roots h)))" using C(1) assms(2) by blast
  then obtain x where x: "objects (snd (collect roots h)) i = Some x" by auto
  obtain ob where ob: "queue_ext (objects h) ob" "objects (snd (collect roots h)) = ob |` dom (objects (snd (collect roots h)))"
    using C(2) by auto
  have "ob i = Some x" using x ob(2) i by (metis restrict_in)
  then show ?thesis using ob(1) x unfolding queue_ext_def by (metis option.inject)
qed

theorem collect_safe_witness:
  "2 \<in> keep [box HeapObject_tag 2] sample_heap \<and>
   (\<exists>x. objects (snd (collect [box HeapObject_tag 2] sample_heap)) 2 = Some x)"
proof -
  have r: "2 \<in> root_ids [box HeapObject_tag 2] sample_heap" "objects sample_heap 2 \<noteq> None" by code_simp+
  have "2 \<in> keep [box HeapObject_tag 2] sample_heap"
    unfolding keep_def by (rule retained.root) (use r in auto)
  with collect_safe [OF sample_wf(4) this] show ?thesis by blast
qed

text \<open>C8: No survivor of a collection refers to an object the collection freed.\<close>

theorem collect_no_dangling:
  assumes "collect_wf h" "objects (snd (collect roots h)) i = Some x"
    and "v \<in> set (heap_refs x)" "is_heap_ref v" "objects h (payload v) \<noteq> None"
  shows "objects (snd (collect roots h)) (payload v) \<noteq> None"
proof -
  note C = collect_correct(4) [OF assms(1) prod.collapse [symmetric], of roots]
  obtain ob where ob: "objects (snd (collect roots h)) = ob |` dom (objects (snd (collect roots h)))"
    "\<forall>i j. i \<in> dom (objects (snd (collect roots h))) \<longrightarrow> j \<in> set (succs ob i) \<longrightarrow> objects h j \<noteq> None \<longrightarrow>
      j \<in> dom (objects (snd (collect roots h)))"
    using C by auto
  have i: "i \<in> dom (objects (snd (collect roots h)))" using assms(2) by auto
  have "ob i = Some x" using assms(2) ob(1) i by (metis restrict_in)
  then have "payload v \<in> set (succs ob i)" using assms(3,4) by (auto simp: succs_def heap_ref_ids_def)
  with ob(2) i assms(5) show ?thesis by auto
qed

theorem collect_no_dangling_witness:
  "objects (snd (collect [box HeapObject_tag 2] sample_heap)) 1 \<noteq> None"
proof -
  have "objects (snd (collect [box HeapObject_tag 2] sample_heap)) 2 = Some (Cons_obj (box HeapObject_tag 1) Nil_val)"
    "box HeapObject_tag 1 \<in> set (heap_refs (Cons_obj (box HeapObject_tag 1) Nil_val))"
    "is_heap_ref (box HeapObject_tag 1)" "objects sample_heap (payload (box HeapObject_tag 1)) \<noteq> None"
    "payload (box HeapObject_tag 1) = 1" by code_simp+
  with collect_no_dangling [OF sample_wf(4), of "[box HeapObject_tag 2]" 2] show ?thesis by metis
qed

text \<open>C9: Finalizers are delivered exactly once. A collection leaves the registrations of the
  retained objects in the table, moves those of the others to the back of the pending queue
  in table order, each with its object boxed, and the objects it moved stay live.\<close>

theorem collect_delivers_finalizers:
  assumes "collect_wf h" "\<forall>(i, pr) \<in> set (finalizer_table h). objects h i \<noteq> None"
  shows "finalizer_table (snd (collect roots h)) = filter (\<lambda>(i, _). i \<in> keep roots h) (finalizer_table h) \<and>
    pending_finalizers (snd (collect roots h)) = pending_finalizers h @
      map (\<lambda>(i, pr). (box HeapObject_tag i, pr)) (filter (\<lambda>(i, _). i \<notin> keep roots h) (finalizer_table h)) \<and>
    (\<forall>(i, pr) \<in> set (finalizer_table h). objects (snd (collect roots h)) i \<noteq> None)"
proof -
  note C = collect_correct [OF assms(1) prod.collapse [symmetric], of roots]
  let ?h = "snd (collect roots h)"
  have f: "filter (\<lambda>(i, _). objects h i \<noteq> None) (dead_registrations roots h) = dead_registrations roots h"
    using assms(2) by (intro filter_True) (auto simp: dead_registrations_def)
  have hw: "heap_wf h" using assms(1) by (simp add: collect_wf_def)
  have "objects ?h i \<noteq> None" if a: "(i, pr) \<in> set (finalizer_table h)" for i pr
  proof (cases "i \<in> keep roots h")
    case True
    then show ?thesis using C(3) by auto
  next
    case False
    then have p: "(box HeapObject_tag i, pr) \<in> set (pending_finalizers ?h)"
      using a C(6) f by (force simp: dead_registrations_def)
    have "objects h i \<noteq> None" using a assms(2) by auto
    then have vi: "val_ids [box HeapObject_tag i] = {i}" by (rule val_ids_boxed [OF hw])
    have "i \<in> root_ids roots ?h"
      using p vi unfolding root_ids_pending val_ids_simps(2) [of _ "[_]"] by fastforce
    then show ?thesis using C(14) \<open>objects h i \<noteq> None\<close> by auto
  qed
  with C(5,6) f show ?thesis by (auto simp: dead_registrations_def)
qed


theorem collect_delivers_finalizers_witness:
  "pending_finalizers (snd (collect [] sample_heap)) = [(box HeapObject_tag 3, box HeapObject_tag 2)] \<and>
   finalizer_table (snd (collect [] sample_heap)) = [] \<and> objects (snd (collect [] sample_heap)) 3 \<noteq> None"
proof -
  have s: "finalizer_table sample_heap = [(3, box HeapObject_tag 2)]" "pending_finalizers sample_heap = []"
    "root_ids [] sample_heap = {}" by code_simp+
  have "objects sample_heap 3 \<noteq> None" by code_simp
  then have a: "\<forall>(i, pr) \<in> set (finalizer_table sample_heap). objects sample_heap i \<noteq> None" by (simp add: s)
  have "i \<notin> keep [] sample_heap" for i
  proof
    assume "i \<in> keep [] sample_heap"
    then show False unfolding keep_def s(3) by (induction rule: retained.induct) auto
  qed
  with collect_delivers_finalizers [OF sample_wf(4) a, of "[]"] show ?thesis by (simp add: s del: not_None_eq)
qed

end
