(* ===== verification/FactTable.thy ===== *)
theory FactTable
  imports NanBox "HOL-Library.Multiset"
begin

text \<open>
  The fact table of the relation layer, \<^verbatim>\<open>eta/core/src/eta/runtime/types/fact_table.h\<close>: rows
  stored by column, deleted by tombstone, with optional hash indexes per column. A
  \<^verbatim>\<open>std::unordered_multimap\<close> is the multiset of its pairs: which of two pairs with equal keys
  comes first is the hash table's choice, so the rows a query returns are a multiset too.
\<close>

section \<open>The table\<close>

type_synonym index = "(lispval \<times> nat) multiset"

record fact_table =
  col_names :: "string list"
  columns :: "lispval list list"
  indexes :: "index list"
  rule_column :: "lispval list"
  ground_mask :: "bool list"
  live_mask :: "bool list"
  row_count :: nat
  live_count :: nat
  predicate_functor :: "u64 option"
  predicate_arity :: u8

text \<open>\<^verbatim>\<open>make_fact_table\<close> sizes the columns and the indexes by the names.\<close>

definition make_fact_table :: "string list \<Rightarrow> fact_table" where
  "make_fact_table names =
     \<lparr> col_names = names, columns = replicate (length names) [], indexes = replicate (length names) {#},
       rule_column = [], ground_mask = [], live_mask = [], row_count = 0, live_count = 0,
       predicate_functor = None, predicate_arity = 0 \<rparr>"

definition add_value :: "lispval list \<Rightarrow> nat \<Rightarrow> fact_table \<Rightarrow> fact_table" where
  "add_value values i t =
     (let t = t\<lparr> columns := (columns t)[i := columns t ! i @ [values ! i]] \<rparr> in
      if indexes t ! i \<noteq> {#}
      then t\<lparr> indexes := (indexes t)[i := add_mset (values ! i, row_count t) (indexes t ! i)] \<rparr>
      else t)"

definition add_row :: "lispval list \<Rightarrow> lispval \<Rightarrow> bool \<Rightarrow> fact_table \<Rightarrow> bool \<times> fact_table" where
  "add_row values rule ground t =
     (if length values \<noteq> length (columns t) then (False, t)
      else let t = fold (add_value values) [0..<length (columns t)] t in
        (True, t\<lparr> rule_column := rule_column t @ [rule], ground_mask := ground_mask t @ [ground],
                  live_mask := live_mask t @ [True], row_count := row_count t + 1,
                  live_count := live_count t + 1 \<rparr>))"

text \<open>\<^verbatim>\<open>equal_range\<close> of the row's value, and the first pair in it with that row erased.\<close>

definition index_erase :: "nat \<Rightarrow> nat \<Rightarrow> fact_table \<Rightarrow> fact_table" where
  "index_erase row col t =
     (let idx = indexes t ! col in
      if idx = {#} then t
      else t\<lparr> indexes := (indexes t)[col := idx - {# (columns t ! col ! row, row) #}] \<rparr>)"

definition delete_row :: "nat \<Rightarrow> fact_table \<Rightarrow> bool \<times> fact_table" where
  "delete_row row t =
     (if row \<ge> row_count t then (False, t)
      else if \<not> live_mask t ! row then (False, t)
      else let t = t\<lparr> live_mask := (live_mask t)[row := False],
                      live_count := (if live_count t > 0 then live_count t - 1 else live_count t) \<rparr>
        in (True, fold (index_erase row) [0..<length (indexes t)] t))"

definition set_predicate_header :: "u64 \<Rightarrow> u8 \<Rightarrow> fact_table \<Rightarrow> fact_table" where
  "set_predicate_header functor arity t =
     t\<lparr> predicate_functor := Some functor, predicate_arity := arity \<rparr>"

definition build_index :: "nat \<Rightarrow> fact_table \<Rightarrow> fact_table" where
  "build_index col t =
     (if col \<ge> length (columns t) then t
      else t\<lparr> indexes := (indexes t)[col :=
        fold (\<lambda>r idx. if \<not> live_mask t ! r then idx else add_mset (columns t ! col ! r, r) idx)
          [0..<row_count t] {#}] \<rparr>)"

definition query :: "nat \<Rightarrow> lispval \<Rightarrow> fact_table \<Rightarrow> nat multiset" where
  "query col key t =
     (if col \<ge> length (columns t) then {#}
      else if indexes t ! col \<noteq> {#}
      then filter_mset (\<lambda>r. r < row_count t \<and> live_mask t ! r)
             (image_mset snd (filter_mset (\<lambda>(v, r). v = key) (indexes t ! col)))
      else mset (filter (\<lambda>r. live_mask t ! r \<and> columns t ! col ! r = key) [0..<row_count t]))"

definition live_rows :: "fact_table \<Rightarrow> nat list" where
  "live_rows t = filter (\<lambda>r. live_mask t ! r) [0..<row_count t]"

definition active_row_count :: "fact_table \<Rightarrow> nat" where
  "active_row_count t = live_count t"

definition is_live_row :: "nat \<Rightarrow> fact_table \<Rightarrow> bool" where
  "is_live_row row t \<longleftrightarrow> row < row_count t \<and> live_mask t ! row"

definition is_ground_row :: "nat \<Rightarrow> fact_table \<Rightarrow> bool" where
  "is_ground_row row t \<longleftrightarrow> row < row_count t \<and> live_mask t ! row \<and> ground_mask t ! row"

definition get_rule :: "nat \<Rightarrow> fact_table \<Rightarrow> lispval" where
  "get_rule row t =
     (if row \<ge> row_count t \<or> \<not> live_mask t ! row then False_val
      else let rule = rule_column t ! row in if rule = Nil_val then False_val else rule)"

definition get_cell :: "nat \<Rightarrow> nat \<Rightarrow> fact_table \<Rightarrow> lispval" where
  "get_cell row col t =
     (if col \<ge> length (columns t) \<or> row \<ge> row_count t \<or> \<not> live_mask t ! row then Nil_val
      else columns t ! col ! row)"

section \<open>The relation a table represents\<close>

text \<open>
  A relation is the list of the rows ever added, each its values, its rule and whether it is
  ground, with \<open>None\<close> where a row was deleted.
\<close>

type_synonym relation_row = "lispval list \<times> lispval \<times> bool"

definition rel_row :: "fact_table \<Rightarrow> nat \<Rightarrow> relation_row option" where
  "rel_row t r = (if live_mask t ! r
     then Some (map (\<lambda>c. c ! r) (columns t), rule_column t ! r, ground_mask t ! r) else None)"

definition rel_of :: "fact_table \<Rightarrow> relation_row option list" where
  "rel_of t = map (rel_row t) [0..<row_count t]"

text \<open>The pairs a complete index of a column holds.\<close>

definition live_pairs :: "fact_table \<Rightarrow> nat \<Rightarrow> index" where
  "live_pairs t col = mset (map (\<lambda>r. (columns t ! col ! r, r)) (live_rows t))"

definition table_wf :: "fact_table \<Rightarrow> bool" where
  "table_wf t \<longleftrightarrow> length (columns t) = length (col_names t) \<and> length (indexes t) = length (columns t)
     \<and> list_all (\<lambda>c. length c = row_count t) (columns t)
     \<and> length (rule_column t) = row_count t \<and> length (ground_mask t) = row_count t
     \<and> length (live_mask t) = row_count t \<and> live_count t = length (live_rows t)
     \<and> list_all (\<lambda>i. indexes t ! i = {#} \<or> indexes t ! i = live_pairs t i) [0..<length (indexes t)]"

section \<open>The column loops\<close>

definition add_values :: "lispval list \<Rightarrow> nat \<Rightarrow> fact_table \<Rightarrow> fact_table" where
  "add_values values k t =
     t\<lparr> columns := map (\<lambda>i. if i < k then columns t ! i @ [values ! i] else columns t ! i) [0..<length (columns t)],
        indexes := map (\<lambda>i. if i < k \<and> indexes t ! i \<noteq> {#}
                       then add_mset (values ! i, row_count t) (indexes t ! i) else indexes t ! i)
                     [0..<length (indexes t)] \<rparr>"

lemma map_upt_update: "(map f [0..<n])[k := v] = map (f(k := v)) [0..<n]"
  by (rule nth_equalityI) (auto simp: nth_list_update)

lemma fold_add_value:
  "k \<le> length (columns t) \<Longrightarrow> length (indexes t) = length (columns t)
     \<Longrightarrow> fold (add_value values) [0..<k] t = add_values values k t"
proof (induction k)
  case 0
  have "map ((!) (indexes t)) [0..<length (columns t)] = indexes t"
    by (simp add: 0(2) [symmetric] map_nth)
  then show ?case by (simp add: add_values_def map_nth 0)
next
  case (Suc k)
  let ?u = "add_values values k t"
  have k: "k < length (columns t)" "k < length (indexes t)" using Suc.prems by auto
  have u: "columns ?u ! k = columns t ! k" "indexes ?u ! k = indexes t ! k" "row_count ?u = row_count t"
    using k by (simp_all add: add_values_def)
  have c: "(columns ?u)[k := columns t ! k @ [values ! k]] = columns (add_values values (Suc k) t)"
    by (auto simp: add_values_def map_upt_update less_Suc_eq)
  have i: "(indexes ?u)[k := add_mset (values ! k, row_count t) (indexes t ! k)]
             = indexes (add_values values (Suc k) t)" if "indexes t ! k \<noteq> {#}"
    using that by (auto simp: add_values_def map_upt_update less_Suc_eq)
  have i': "indexes ?u = indexes (add_values values (Suc k) t)" if "indexes t ! k = {#}"
    using that by (auto simp: add_values_def less_Suc_eq)
  have "add_value values k ?u = add_values values (Suc k) t"
  proof (cases "indexes t ! k = {#}")
    case True
    then have "add_value values k ?u = ?u\<lparr> columns := columns (add_values values (Suc k) t) \<rparr>"
      by (simp add: add_value_def Let_def u c)
    also have "\<dots> = add_values values (Suc k) t"
      using i' [OF True] by (intro fact_table.equality) (simp_all add: add_values_def)
    finally show ?thesis .
  next
    case False
    then have "add_value values k ?u = ?u\<lparr> columns := columns (add_values values (Suc k) t),
        indexes := indexes (add_values values (Suc k) t) \<rparr>"
      by (simp add: add_value_def Let_def u c i)
    also have "\<dots> = add_values values (Suc k) t"
      by (intro fact_table.equality) (simp_all add: add_values_def)
    finally show ?thesis .
  qed
  then show ?case using Suc by simp
qed

lemma fold_index_erase:
  "k \<le> length (indexes t)
     \<Longrightarrow> fold (index_erase row) [0..<k] t
        = t\<lparr> indexes := map (\<lambda>i. if i < k then indexes t ! i - {# (columns t ! i ! row, row) #} else indexes t ! i)
                     [0..<length (indexes t)] \<rparr>"
proof (induction k)
  case 0
  then show ?case by (simp add: map_nth)
next
  case (Suc k)
  let ?f = "\<lambda>k i. if i < k then indexes t ! i - {# (columns t ! i ! row, row) #} else indexes t ! i"
  have e: "(?f k)(k := indexes t ! k - {# (columns t ! k ! row, row) #}) = ?f (Suc k)"
    by (auto simp: less_Suc_eq)
  have e': "?f (Suc k) = ?f k" if "indexes t ! k = {#}" using that by (auto simp: less_Suc_eq)
  have "fold (index_erase row) [0..<Suc k] t
      = index_erase row k (t\<lparr> indexes := map (?f k) [0..<length (indexes t)] \<rparr>)" using Suc by simp
  also have "\<dots> = t\<lparr> indexes := map (?f (Suc k)) [0..<length (indexes t)] \<rparr>"
    using Suc.prems unfolding index_erase_def Let_def
    by (cases "indexes t ! k = {#}") (simp_all add: map_upt_update e e' del: fun_upd_apply)
  finally show ?case .
qed

section \<open>The invariant and the refinement\<close>

lemma table_wfD:
  assumes "table_wf t"
  shows "length (columns t) = length (col_names t)" "length (indexes t) = length (columns t)"
    "i < length (columns t) \<Longrightarrow> length (columns t ! i) = row_count t"
    "length (rule_column t) = row_count t" "length (ground_mask t) = row_count t"
    "length (live_mask t) = row_count t" "live_count t = length (live_rows t)"
    "i < length (columns t) \<Longrightarrow> indexes t ! i = {#} \<or> indexes t ! i = live_pairs t i"
  using assms by (auto simp: table_wf_def list_all_length)

lemma table_wfI:
  assumes "length (columns t) = length (col_names t)" "length (indexes t) = length (columns t)"
    "\<And>i. i < length (columns t) \<Longrightarrow> length (columns t ! i) = row_count t"
    "length (rule_column t) = row_count t" "length (ground_mask t) = row_count t"
    "length (live_mask t) = row_count t" "live_count t = length (live_rows t)"
    "\<And>i. i < length (columns t) \<Longrightarrow> indexes t ! i = {#} \<or> indexes t ! i = live_pairs t i"
  shows "table_wf t"
  using assms by (auto simp: table_wf_def list_all_length)

lemma make_fact_table_wf: "table_wf (make_fact_table names)"
  by (rule table_wfI) (auto simp: make_fact_table_def live_rows_def live_pairs_def)

text \<open>What \<^verbatim>\<open>add_row\<close> leaves, in closed form.\<close>

lemma add_row_ok:
  assumes wf: "table_wf t" and len: "length values = length (columns t)"
    and add: "add_row values rule ground t = (b, t')"
  shows "b" "row_count t' = Suc (row_count t)" "live_count t' = Suc (live_count t)"
    "col_names t' = col_names t"
    "columns t' = map (\<lambda>i. columns t ! i @ [values ! i]) [0..<length (columns t)]"
    "indexes t' = map (\<lambda>i. if indexes t ! i \<noteq> {#}
                       then add_mset (values ! i, row_count t) (indexes t ! i) else {#}) [0..<length (columns t)]"
    "rule_column t' = rule_column t @ [rule]" "ground_mask t' = ground_mask t @ [ground]"
    "live_mask t' = live_mask t @ [True]"
  using add len table_wfD(2) [OF wf]
  by (auto simp: add_row_def fold_add_value add_values_def Let_def intro!: map_cong)

lemma live_rows_add:
  assumes wf: "table_wf t" and len: "length values = length (columns t)"
    and add: "add_row values rule ground t = (b, t')"
  shows "live_rows t' = live_rows t @ [row_count t]"
proof -
  note A = add_row_ok [OF assms] and W = table_wfD [OF wf]
  have "filter (\<lambda>r. (live_mask t @ [True]) ! r) [0..<row_count t] = filter (\<lambda>r. live_mask t ! r) [0..<row_count t]"
    using W(6) by (intro filter_cong) (auto simp: nth_append)
  moreover have "(live_mask t @ [True]) ! row_count t" using W(6) by (metis nth_append_length)
  ultimately show ?thesis unfolding live_rows_def A by simp
qed

lemma live_rows_less: "r \<in> set (live_rows t) \<Longrightarrow> r < row_count t"
  by (simp add: live_rows_def)

lemma add_row_wf:
  assumes wf: "table_wf t" and len: "length values = length (columns t)"
    and add: "add_row values rule ground t = (b, t')"
  shows "table_wf t'"
proof -
  note A = add_row_ok [OF assms] and W = table_wfD [OF wf] and L = live_rows_add [OF assms]
  have P: "live_pairs t' i = add_mset (values ! i, row_count t) (live_pairs t i)" if "i < length (columns t)" for i
  proof -
    have e: "image_mset (\<lambda>r. (columns t' ! i ! r, r)) (mset (live_rows t))
            = image_mset (\<lambda>r. (columns t ! i ! r, r)) (mset (live_rows t))"
      using that W(3) live_rows_less unfolding A by (intro image_mset_cong) (auto simp: nth_append)
    moreover have "columns t' ! i ! row_count t = values ! i"
      using that W(3) [OF that] unfolding A by (simp add: nth_append)
    ultimately show ?thesis unfolding live_pairs_def L by (simp add: e)
  qed
  show ?thesis
  proof (rule table_wfI)
    fix i assume i: "i < length (columns t')"
    then show "indexes t' ! i = {#} \<or> indexes t' ! i = live_pairs t' i"
      using W(8) [of i] P [of i] unfolding A by auto
  qed (use W A L in auto)
qed

lemma rel_of_add:
  assumes wf: "table_wf t" and len: "length values = length (columns t)"
    and add: "add_row values rule ground t = (b, t')"
  shows "rel_of t' = rel_of t @ [Some (values, rule, ground)]"
proof -
  note A = add_row_ok [OF assms] and W = table_wfD [OF wf]
  have "rel_row t' r = rel_row t r" if "r < row_count t" for r
  proof -
    have "map (\<lambda>c. c ! r) (columns t') = map (\<lambda>c. c ! r) (columns t)"
    proof (rule nth_equalityI)
      fix i assume "i < length (map (\<lambda>c. c ! r) (columns t'))"
      then have "i < length (columns t)" unfolding A by simp
      then show "map (\<lambda>c. c ! r) (columns t') ! i = map (\<lambda>c. c ! r) (columns t) ! i"
        using that W(3) [of i] unfolding A by (simp add: nth_append)
    qed (simp add: A)
    then show ?thesis using that W(4,5,6) unfolding rel_row_def by (simp add: A nth_append)
  qed
  moreover have "rel_row t' (row_count t) = Some (values, rule, ground)"
  proof -
    have "map (\<lambda>c. c ! row_count t) (columns t') = values"
    proof (rule nth_equalityI)
      fix i assume "i < length (map (\<lambda>c. c ! row_count t) (columns t'))"
      then have "i < length (columns t)" unfolding A by simp
      then show "map (\<lambda>c. c ! row_count t) (columns t') ! i = values ! i"
        using W(3) [of i] unfolding A by (simp add: nth_append)
    qed (simp add: A len)
    then show ?thesis using W(4,5,6) unfolding rel_row_def by (simp add: A nth_append)
  qed
  ultimately show ?thesis unfolding rel_of_def A by simp
qed

lemma delete_row_ok:
  assumes wf: "table_wf t" and live: "is_live_row row t" and del: "delete_row row t = (b, t')"
  shows "b" "row_count t' = row_count t" "live_count t' = live_count t - 1" "col_names t' = col_names t"
    "columns t' = columns t" "rule_column t' = rule_column t" "ground_mask t' = ground_mask t"
    "live_mask t' = (live_mask t)[row := False]"
    "indexes t' = map (\<lambda>i. indexes t ! i - {# (columns t ! i ! row, row) #}) [0..<length (columns t)]"
  using del live table_wfD(2) [OF wf]
  by (auto simp: delete_row_def is_live_row_def fold_index_erase Let_def intro!: map_cong)

lemma live_rows_delete:
  assumes wf: "table_wf t" and live: "is_live_row row t" and del: "delete_row row t = (b, t')"
  shows "live_rows t' = remove1 row (live_rows t)"
proof -
  note A = delete_row_ok [OF assms] and W = table_wfD [OF wf]
  have "live_rows t' = filter (\<lambda>r. live_mask t ! r \<and> r \<noteq> row) [0..<row_count t]"
    unfolding live_rows_def A using W(6) live by (intro filter_cong refl) (auto simp: nth_list_update is_live_row_def)
  also have "\<dots> = removeAll row (live_rows t)"
    by (simp add: live_rows_def removeAll_filter_not_eq) (metis (mono_tags, lifting))
  also have "\<dots> = remove1 row (live_rows t)"
    by (rule distinct_remove1_removeAll [symmetric]) (simp add: live_rows_def)
  finally show ?thesis .
qed

lemma delete_row_wf:
  assumes wf: "table_wf t" and live: "is_live_row row t" and del: "delete_row row t = (b, t')"
  shows "table_wf t'"
proof -
  note A = delete_row_ok [OF assms] and W = table_wfD [OF wf] and L = live_rows_delete [OF assms]
  have row: "row \<in> set (live_rows t)" using live by (simp add: live_rows_def is_live_row_def)
  have P: "live_pairs t i = add_mset (columns t ! i ! row, row) (live_pairs t' i)" for i
  proof -
    let ?f = "\<lambda>r. (columns t ! i ! r, r)"
    have "mset (live_rows t) = add_mset row (mset (remove1 row (live_rows t)))" using row by simp
    then have "image_mset ?f (mset (live_rows t)) = add_mset (?f row) (image_mset ?f (mset (remove1 row (live_rows t))))"
      by (simp only: image_mset_add_mset)
    then show ?thesis unfolding live_pairs_def L A mset_map .
  qed
  show ?thesis
  proof (rule table_wfI)
    fix i assume i: "i < length (columns t')"
    then have "indexes t' ! i = indexes t ! i - {# (columns t ! i ! row, row) #}" by (simp add: A)
    then show "indexes t' ! i = {#} \<or> indexes t' ! i = live_pairs t' i"
      using W(8) [of i] P [of i] i by (auto simp: A)
    show "length (columns t' ! i) = row_count t'" using i W(3) [of i] by (simp add: A)
  qed (use W(1-2) W(4-7) in \<open>simp_all add: A L length_remove1 row\<close>)
qed

lemma rel_of_delete:
  assumes wf: "table_wf t" and live: "is_live_row row t" and del: "delete_row row t = (b, t')"
  shows "rel_of t' = (rel_of t)[row := None]"
proof -
  note A = delete_row_ok [OF assms]
  have "rel_row t' r = (if r = row then None else rel_row t r)" if "r < row_count t" for r
    using that live table_wfD(6) [OF wf] by (simp add: rel_row_def A is_live_row_def)
  then show ?thesis using live
    by (auto simp: rel_of_def A list_eq_iff_nth_eq nth_list_update)
qed

lemma build_index_all: "fold (\<lambda>r idx. if \<not> P r then idx else add_mset (f r) idx) rs idx
    = idx + mset (map f (filter P rs))"
  by (induction rs arbitrary: idx) auto

lemma build_index_wf:
  assumes wf: "table_wf t"
  shows "table_wf (build_index col t)" "rel_of (build_index col t) = rel_of t"
proof -
  note W = table_wfD [OF wf]
  let ?t = "build_index col t"
  have same: "live_rows ?t = live_rows t" "live_pairs ?t i = live_pairs t i" "rel_row ?t r = rel_row t r"
    "row_count ?t = row_count t" for i r
    by (simp_all add: build_index_def live_rows_def live_pairs_def rel_row_def)
  then show "rel_of ?t = rel_of t" by (simp add: rel_of_def)
  have f: "columns ?t = columns t" "col_names ?t = col_names t" "rule_column ?t = rule_column t"
    "ground_mask ?t = ground_mask t" "live_mask ?t = live_mask t" "live_count ?t = live_count t"
    "length (indexes ?t) = length (indexes t)"
    by (simp_all add: build_index_def)
  have i: "indexes ?t ! i = {#} \<or> indexes ?t ! i = live_pairs ?t i" if "i < length (columns t)" for i
    using that W(2) W(8) [OF that]
    by (cases "i = col") (auto simp: same build_index_def build_index_all live_pairs_def live_rows_def)
  show "table_wf ?t"
    by (rule table_wfI) (simp_all add: same W(1-2) W(4-7) f W(3) i [unfolded W(1) same])
qed

text \<open>The rows of a relation that hold a value in a column.\<close>

definition rel_query :: "nat \<Rightarrow> lispval \<Rightarrow> relation_row option list \<Rightarrow> nat list" where
  "rel_query col key rel = filter (\<lambda>r. case rel ! r of None \<Rightarrow> False | Some (values, _) \<Rightarrow> values ! col = key)
     [0..<length rel]"

lemma query_rel:
  assumes wf: "table_wf t" and col: "col < length (columns t)"
  shows "query col key t = mset (rel_query col key (rel_of t))"
proof -
  note W = table_wfD [OF wf]
  have r: "rel_query col key (rel_of t)
      = filter (\<lambda>r. live_mask t ! r \<and> columns t ! col ! r = key) [0..<row_count t]"
    using col by (auto simp: rel_query_def rel_of_def rel_row_def split: if_splits intro!: filter_cong)
  show ?thesis
  proof (cases "indexes t ! col = {#}")
    case True
    then show ?thesis using col by (simp add: query_def r)
  next
    case False
    then have "indexes t ! col = live_pairs t col" using W(8) [OF col] by blast
    then have "filter_mset (\<lambda>(v, r). v = key) (indexes t ! col)
        = mset (map (\<lambda>r. (columns t ! col ! r, r)) (filter (\<lambda>r. columns t ! col ! r = key) (live_rows t)))"
      by (simp add: live_pairs_def filter_mset_image_mset)
    then have "query col key t
        = mset (filter (\<lambda>r. r < row_count t \<and> live_mask t ! r) (filter (\<lambda>r. columns t ! col ! r = key) (live_rows t)))"
      using False col by (simp add: query_def image_mset.compositionality o_def filter_filter_mset conj_commute)
    also have "filter (\<lambda>r. r < row_count t \<and> live_mask t ! r) (filter (\<lambda>r. columns t ! col ! r = key) (live_rows t))
        = rel_query col key (rel_of t)"
      by (auto simp: r live_rows_def intro!: filter_cong)
    finally show ?thesis .
  qed
qed

section \<open>The relation interface\<close>

text \<open>
  What the relation layer relies on: a store of rows with stable ids, each operation a step on
  the abstract list of rows.
\<close>

locale relation_store =
  fixes inv :: "'t \<Rightarrow> bool"
    and rel :: "'t \<Rightarrow> 'r option list"
    and fits :: "'t \<Rightarrow> 'r \<Rightarrow> bool"
    and add :: "'r \<Rightarrow> 't \<Rightarrow> bool \<times> 't"
    and del :: "nat \<Rightarrow> 't \<Rightarrow> bool \<times> 't"
  assumes add_inv: "inv t \<Longrightarrow> inv (snd (add r t))"
    and add_ok: "inv t \<Longrightarrow> fst (add r t) \<longleftrightarrow> fits t r"
    and add_rel: "inv t \<Longrightarrow> rel (snd (add r t)) = (if fits t r then rel t @ [Some r] else rel t)"
    and del_inv: "inv t \<Longrightarrow> inv (snd (del i t))"
    and del_ok: "inv t \<Longrightarrow> fst (del i t) \<longleftrightarrow> i < length (rel t) \<and> rel t ! i \<noteq> None"
    and del_rel: "inv t \<Longrightarrow> rel (snd (del i t)) = (rel t)[i := None]"
begin

text \<open>A row id stays the row's until that row is deleted, whatever else happens.\<close>

lemma add_stable: "inv t \<Longrightarrow> i < length (rel t) \<Longrightarrow> rel (snd (add r t)) ! i = rel t ! i"
  by (simp add: add_rel nth_append)

lemma del_stable: "inv t \<Longrightarrow> i \<noteq> j \<Longrightarrow> rel (snd (del j t)) ! i = rel t ! i"
  by (simp add: del_rel)

lemma del_twice: "inv t \<Longrightarrow> \<not> fst (del i (snd (del i t)))"
  by (auto simp: del_ok del_inv del_rel)

end

definition row_fits :: "fact_table \<Rightarrow> relation_row \<Rightarrow> bool" where
  "row_fits t r \<longleftrightarrow> length (fst r) = length (columns t)"

definition add_relation_row :: "relation_row \<Rightarrow> fact_table \<Rightarrow> bool \<times> fact_table" where
  "add_relation_row r = (case r of (values, rule, ground) \<Rightarrow> add_row values rule ground)"

lemma add_row_misfit: "length values \<noteq> length (columns t) \<Longrightarrow> add_row values rule ground t = (False, t)"
  by (simp add: add_row_def)

lemma delete_row_dead: "\<not> is_live_row row t \<Longrightarrow> delete_row row t = (False, t)"
  by (auto simp: delete_row_def is_live_row_def)

lemma rel_of_live: "is_live_row i t \<longleftrightarrow> i < length (rel_of t) \<and> rel_of t ! i \<noteq> None"
  by (auto simp: is_live_row_def rel_of_def rel_row_def split: if_splits)

interpretation ft: relation_store table_wf rel_of row_fits add_relation_row delete_row
proof
  fix t :: fact_table and r :: relation_row and i assume wf: "table_wf t"
  obtain vs rl g where r: "r = (vs, rl, g)" by (cases r)
  obtain b t' where a: "add_row vs rl g t = (b, t')" by fastforce
  obtain c t'' where d: "delete_row i t = (c, t'')" by fastforce
  show "table_wf (snd (add_relation_row r t))" "fst (add_relation_row r t) \<longleftrightarrow> row_fits t r"
    "rel_of (snd (add_relation_row r t)) = (if row_fits t r then rel_of t @ [Some r] else rel_of t)"
    using add_row_wf [OF wf _ a] add_row_ok(1) [OF wf _ a] rel_of_add [OF wf _ a] add_row_misfit [of vs t] wf a
    by (cases "length vs = length (columns t)"; simp add: add_relation_row_def row_fits_def r)+
  have dead: "(rel_of t)[i := None] = rel_of t" if "\<not> is_live_row i t"
    using that unfolding rel_of_live by (metis list_update_beyond list_update_id not_less)
  have "table_wf (snd (delete_row i t)) \<and> (fst (delete_row i t) \<longleftrightarrow> is_live_row i t)
      \<and> rel_of (snd (delete_row i t)) = (rel_of t)[i := None]"
  proof (cases "is_live_row i t")
    case True
    show ?thesis
      using delete_row_wf [OF wf True d] delete_row_ok(1) [OF wf True d] rel_of_delete [OF wf True d] True
      unfolding d by simp
  next
    case False
    then show ?thesis using delete_row_dead [OF False] dead wf by simp
  qed
  then show "table_wf (snd (delete_row i t))" "fst (delete_row i t) \<longleftrightarrow> i < length (rel_of t) \<and> rel_of t ! i \<noteq> None"
    "rel_of (snd (delete_row i t)) = (rel_of t)[i := None]"
    unfolding rel_of_live [symmetric] by blast+
qed

section \<open>Properties\<close>

text \<open>C22: The table refines the relation: adding a row appends it exactly when its width fits, deleting
  a row blanks it and succeeds exactly when it was there, rebuilding an index changes nothing,
  and each keeps the invariant that an index is empty or holds exactly the live rows.\<close>

theorem fact_table_refines:
  assumes "table_wf t"
  shows "table_wf (snd (add_row values rule ground t)) \<and> table_wf (snd (delete_row i t)) \<and> table_wf (build_index col t)
    \<and> (fst (add_row values rule ground t) \<longleftrightarrow> length values = length (columns t))
    \<and> rel_of (snd (add_row values rule ground t))
           = (if length values = length (columns t) then rel_of t @ [Some (values, rule, ground)] else rel_of t)
    \<and> (fst (delete_row i t) \<longleftrightarrow> i < length (rel_of t) \<and> rel_of t ! i \<noteq> None)
    \<and> rel_of (snd (delete_row i t)) = (rel_of t)[i := None]
    \<and> rel_of (build_index col t) = rel_of t"
  using ft.add_inv [OF assms, of "(values, rule, ground)"] ft.del_inv [OF assms] build_index_wf [OF assms]
    ft.add_ok [OF assms, of "(values, rule, ground)"] ft.add_rel [OF assms, of "(values, rule, ground)"]
    ft.del_ok [OF assms] ft.del_rel [OF assms]
  by (simp_all add: add_relation_row_def row_fits_def)

text \<open>C23: A query returns the rows that hold the key in the column, each once, whether the column is
  indexed or scanned, and none for a column out of range; cells, rules and liveness read the same
  relation.\<close>

theorem fact_table_query:
  assumes "table_wf t"
  shows "query col key t = (if col < length (columns t) then mset (rel_query col key (rel_of t)) else {#})
    \<and> query col key (build_index c t) = query col key t
    \<and> set (live_rows t) = {i. i < length (rel_of t) \<and> rel_of t ! i \<noteq> None}
    \<and> active_row_count t = length (live_rows t)
    \<and> get_cell i col t = (if i < length (rel_of t) \<and> col < length (columns t)
           then case rel_of t ! i of None \<Rightarrow> Nil_val | Some (values, _) \<Rightarrow> values ! col else Nil_val)
    \<and> get_rule i t = (if i < length (rel_of t)
           then case rel_of t ! i of None \<Rightarrow> False_val | Some (_, rule, _) \<Rightarrow> if rule = Nil_val then False_val else rule
           else False_val)"
proof (intro conjI)
  have out: "query col key t = {#}" if "\<not> col < length (columns t)" for t :: fact_table
    using that by (simp add: query_def)
  show q: "query col key t = (if col < length (columns t) then mset (rel_query col key (rel_of t)) else {#})"
    using query_rel [OF assms] out by simp
  have "length (columns (build_index c t)) = length (columns t)" by (simp add: build_index_def)
  then show "query col key (build_index c t) = query col key t"
    using query_rel [OF build_index_wf(1) [OF assms]] build_index_wf(2) [OF assms] out [of "build_index c t"]
    unfolding q by simp
  show "set (live_rows t) = {i. i < length (rel_of t) \<and> rel_of t ! i \<noteq> None}"
    by (auto simp: live_rows_def rel_of_def rel_row_def split: if_splits)
  show "active_row_count t = length (live_rows t)"
    using table_wfD(7) [OF assms] by (simp add: active_row_count_def)
  show "get_cell i col t = (if i < length (rel_of t) \<and> col < length (columns t)
           then case rel_of t ! i of None \<Rightarrow> Nil_val | Some (values, _) \<Rightarrow> values ! col else Nil_val)"
    by (simp add: get_cell_def rel_of_def rel_row_def)
  show "get_rule i t = (if i < length (rel_of t)
           then case rel_of t ! i of None \<Rightarrow> False_val | Some (_, rule, _) \<Rightarrow> if rule = Nil_val then False_val else rule
           else False_val)"
    by (simp add: get_rule_def rel_of_def rel_row_def Let_def)
qed

lemma fact_table_refines_witness:
  "rel_of (snd (add_row [5, 6] 0 True (make_fact_table [''a'', ''b'']))) = [Some ([5, 6], 0, True)]"
  using fact_table_refines [OF make_fact_table_wf, of "[5, 6]" 0 True "[''a'', ''b'']"]
  by (simp add: make_fact_table_def rel_of_def)

lemma fact_table_query_witness:
  "query 1 6 (build_index 1 (snd (add_row [5, 6] 0 True (make_fact_table [''a'', ''b''])))) = {#0#}"
proof -
  let ?t = "make_fact_table [''a'', ''b'']"
  obtain b t where t: "add_row [5, 6] 0 True ?t = (b, t)" by fastforce
  have len: "length [5, 6 :: lispval] = length (columns ?t)" by (simp add: make_fact_table_def)
  have wf: "table_wf t" by (rule add_row_wf [OF make_fact_table_wf len t])
  have r: "rel_of t = [Some ([5, 6], 0, True)]" "length (columns t) = 2"
    using rel_of_add [OF make_fact_table_wf len t] add_row_ok(5) [OF make_fact_table_wf len t]
    by (simp_all add: make_fact_table_def rel_of_def)
  have "query 1 6 t = {#0#}"
    using fact_table_query [OF wf, where col = 1 and key = 6] by (simp add: r rel_query_def)
  then show ?thesis using fact_table_query [OF wf, where col = 1 and key = 6 and c = 1] by (simp add: t)
qed

end
