(* ===== verification/Source.thy ===== *)
theory Source
  imports Prelude
begin

text \<open>
  Source positions and spans, \<^verbatim>\<open>eta/core/src/eta/reader/lexer.h\<close>: shared by the reader, the
  bytecode and the debugger.
\<close>

record position =
  offset :: u64
  line :: u32
  column :: u32

definition default_position :: position where
  "default_position = \<lparr> offset = 0, line = 1, column = 1 \<rparr>"

record span =
  file_id :: u32
  span_start :: position
  span_end :: position

definition default_span :: span where
  "default_span = \<lparr> file_id = 0, span_start = default_position, span_end = default_position \<rparr>"

definition span_valid :: "span \<Rightarrow> bool" where
  "span_valid s \<longleftrightarrow> offset (span_start s) \<le> offset (span_end s)"

end
