(* ===== verification/Bytecode.thy ===== *)
theory Bytecode
  imports NanBox Source
begin

text \<open>
  The bytecode format, \<^verbatim>\<open>eta/core/src/eta/runtime/vm/bytecode.h\<close>, the function registry of
  \<^verbatim>\<open>eta/core/src/eta/semantics/emitter.h\<close>, and the structural verifier of
  \<^verbatim>\<open>bytecode_serializer.cpp\<close>. An \<^verbatim>\<open>OpCode\<close> variable may hold any byte, so the
  opcodes have a constructor for the bytes without a name.
\<close>

section \<open>Function indices in the constant pool\<close>

definition FUNC_INDEX_TAG :: u64 where "FUNC_INDEX_TAG = push_bit 63 1"
definition FUNC_INDEX_UPPER_ZERO_MASK :: u64 where "FUNC_INDEX_UPPER_ZERO_MASK = 0x7FFFFFFF00000000"

definition encode_func_index :: "u32 \<Rightarrow> lispval" where
  "encode_func_index i = FUNC_INDEX_TAG OR ucast i"

definition is_func_index :: "lispval \<Rightarrow> bool" where
  "is_func_index v \<longleftrightarrow> v AND FUNC_INDEX_TAG \<noteq> 0 \<and> v AND FUNC_INDEX_UPPER_ZERO_MASK = 0"

definition decode_func_index :: "lispval \<Rightarrow> u32" where
  "decode_func_index v = ucast (v AND NOT FUNC_INDEX_TAG)"

section \<open>Opcodes\<close>

datatype opcode =
    Nop_op | LoadConst_op | LoadLocal_op | StoreLocal_op | LoadUpval_op | StoreUpval_op | LoadGlobal_op | StoreGlobal_op
  | Pop_op | Dup_op | Jump_op | JumpIfFalse_op | Call_op | TailCall_op | Return_op | MakeClosure_op
  | Cons_op | Car_op | Cdr_op | Add_op | Sub_op | Mul_op | Div_op | Eq_op
  | Values_op | CallWithValues_op | DynamicWind_op | CallCC_op | PatchClosureUpval_op | Apply_op | TailApply_op | SetupCatch_op
  | PopCatch_op | Throw_op | MakeLogicVar_op | Unify_op | DerefLogicVar_op | TrailMark_op | UnwindTrail_op | CopyTerm_op
  | Reserved1_op | Reserved2_op | WamGetVar_op | WamGetVal_op | WamGetConst_op | WamGetStruct_op | WamGetList_op | WamPutVar_op
  | WamPutVal_op | WamPutConst_op | WamPutStruct_op | WamPutList_op | WamUnifyVar_op | WamUnifyVal_op | WamUnifyConst_op | WamUnifyVoid_op
  | WamAllocate_op | WamDeallocate_op | WamCall_op | WamExecute_op | WamProceed_op | WamTryMeElse_op | WamRetryMeElse_op | WamTrustMe_op
  | WamSwitchOnTerm_op | WamSwitchOnConst_op | WamSwitchOnStruct_op
  | Other_op u8

primrec op_code :: "opcode \<Rightarrow> u8" where
  "op_code Nop_op = 0"
| "op_code LoadConst_op = 1"
| "op_code LoadLocal_op = 2"
| "op_code StoreLocal_op = 3"
| "op_code LoadUpval_op = 4"
| "op_code StoreUpval_op = 5"
| "op_code LoadGlobal_op = 6"
| "op_code StoreGlobal_op = 7"
| "op_code Pop_op = 8"
| "op_code Dup_op = 9"
| "op_code Jump_op = 10"
| "op_code JumpIfFalse_op = 11"
| "op_code Call_op = 12"
| "op_code TailCall_op = 13"
| "op_code Return_op = 14"
| "op_code MakeClosure_op = 15"
| "op_code Cons_op = 16"
| "op_code Car_op = 17"
| "op_code Cdr_op = 18"
| "op_code Add_op = 19"
| "op_code Sub_op = 20"
| "op_code Mul_op = 21"
| "op_code Div_op = 22"
| "op_code Eq_op = 23"
| "op_code Values_op = 24"
| "op_code CallWithValues_op = 25"
| "op_code DynamicWind_op = 26"
| "op_code CallCC_op = 27"
| "op_code PatchClosureUpval_op = 28"
| "op_code Apply_op = 29"
| "op_code TailApply_op = 30"
| "op_code SetupCatch_op = 31"
| "op_code PopCatch_op = 32"
| "op_code Throw_op = 33"
| "op_code MakeLogicVar_op = 34"
| "op_code Unify_op = 35"
| "op_code DerefLogicVar_op = 36"
| "op_code TrailMark_op = 37"
| "op_code UnwindTrail_op = 38"
| "op_code CopyTerm_op = 39"
| "op_code Reserved1_op = 40"
| "op_code Reserved2_op = 41"
| "op_code WamGetVar_op = 128"
| "op_code WamGetVal_op = 129"
| "op_code WamGetConst_op = 130"
| "op_code WamGetStruct_op = 131"
| "op_code WamGetList_op = 132"
| "op_code WamPutVar_op = 133"
| "op_code WamPutVal_op = 134"
| "op_code WamPutConst_op = 135"
| "op_code WamPutStruct_op = 136"
| "op_code WamPutList_op = 137"
| "op_code WamUnifyVar_op = 138"
| "op_code WamUnifyVal_op = 139"
| "op_code WamUnifyConst_op = 140"
| "op_code WamUnifyVoid_op = 141"
| "op_code WamAllocate_op = 142"
| "op_code WamDeallocate_op = 143"
| "op_code WamCall_op = 144"
| "op_code WamExecute_op = 145"
| "op_code WamProceed_op = 146"
| "op_code WamTryMeElse_op = 147"
| "op_code WamRetryMeElse_op = 148"
| "op_code WamTrustMe_op = 149"
| "op_code WamSwitchOnTerm_op = 150"
| "op_code WamSwitchOnConst_op = 151"
| "op_code WamSwitchOnStruct_op = 152"
| "op_code (Other_op b) = b"

definition named_ops :: "opcode list" where
  "named_ops = [Nop_op, LoadConst_op, LoadLocal_op, StoreLocal_op, LoadUpval_op, StoreUpval_op, LoadGlobal_op, StoreGlobal_op,
     Pop_op, Dup_op, Jump_op, JumpIfFalse_op, Call_op, TailCall_op, Return_op, MakeClosure_op,
     Cons_op, Car_op, Cdr_op, Add_op, Sub_op, Mul_op, Div_op, Eq_op,
     Values_op, CallWithValues_op, DynamicWind_op, CallCC_op, PatchClosureUpval_op, Apply_op, TailApply_op, SetupCatch_op,
     PopCatch_op, Throw_op, MakeLogicVar_op, Unify_op, DerefLogicVar_op, TrailMark_op, UnwindTrail_op, CopyTerm_op,
     Reserved1_op, Reserved2_op, WamGetVar_op, WamGetVal_op, WamGetConst_op, WamGetStruct_op, WamGetList_op, WamPutVar_op,
     WamPutVal_op, WamPutConst_op, WamPutStruct_op, WamPutList_op, WamUnifyVar_op, WamUnifyVal_op, WamUnifyConst_op, WamUnifyVoid_op,
     WamAllocate_op, WamDeallocate_op, WamCall_op, WamExecute_op, WamProceed_op, WamTryMeElse_op, WamRetryMeElse_op, WamTrustMe_op,
     WamSwitchOnTerm_op, WamSwitchOnConst_op, WamSwitchOnStruct_op]"

text \<open>\<^verbatim>\<open>static_cast<OpCode>(byte)\<close>\<close>

definition op_of_code :: "u8 \<Rightarrow> opcode" where
  "op_of_code b = (case List.find (\<lambda>op. op_code op = b) named_ops of Some op \<Rightarrow> op | None \<Rightarrow> Other_op b)"

primrec op_to_string :: "opcode \<Rightarrow> string" where
  "op_to_string Nop_op = ''Nop''"
| "op_to_string LoadConst_op = ''LoadConst''"
| "op_to_string LoadLocal_op = ''LoadLocal''"
| "op_to_string StoreLocal_op = ''StoreLocal''"
| "op_to_string LoadUpval_op = ''LoadUpval''"
| "op_to_string StoreUpval_op = ''StoreUpval''"
| "op_to_string LoadGlobal_op = ''LoadGlobal''"
| "op_to_string StoreGlobal_op = ''StoreGlobal''"
| "op_to_string Pop_op = ''Pop''"
| "op_to_string Dup_op = ''Dup''"
| "op_to_string Jump_op = ''Jump''"
| "op_to_string JumpIfFalse_op = ''JumpIfFalse''"
| "op_to_string Call_op = ''Call''"
| "op_to_string TailCall_op = ''TailCall''"
| "op_to_string Return_op = ''Return''"
| "op_to_string MakeClosure_op = ''MakeClosure''"
| "op_to_string Cons_op = ''Cons''"
| "op_to_string Car_op = ''Car''"
| "op_to_string Cdr_op = ''Cdr''"
| "op_to_string Add_op = ''Add''"
| "op_to_string Sub_op = ''Sub''"
| "op_to_string Mul_op = ''Mul''"
| "op_to_string Div_op = ''Div''"
| "op_to_string Eq_op = ''Eq''"
| "op_to_string Values_op = ''Values''"
| "op_to_string CallWithValues_op = ''CallWithValues''"
| "op_to_string DynamicWind_op = ''DynamicWind''"
| "op_to_string CallCC_op = ''CallCC''"
| "op_to_string PatchClosureUpval_op = ''PatchClosureUpval''"
| "op_to_string Apply_op = ''Apply''"
| "op_to_string TailApply_op = ''TailApply''"
| "op_to_string SetupCatch_op = ''SetupCatch''"
| "op_to_string PopCatch_op = ''PopCatch''"
| "op_to_string Throw_op = ''Throw''"
| "op_to_string MakeLogicVar_op = ''MakeLogicVar''"
| "op_to_string Unify_op = ''Unify''"
| "op_to_string DerefLogicVar_op = ''DerefLogicVar''"
| "op_to_string TrailMark_op = ''TrailMark''"
| "op_to_string UnwindTrail_op = ''UnwindTrail''"
| "op_to_string CopyTerm_op = ''CopyTerm''"
| "op_to_string Reserved1_op = ''_Reserved1''"
| "op_to_string Reserved2_op = ''_Reserved2''"
| "op_to_string WamGetVar_op = ''WamGetVar''"
| "op_to_string WamGetVal_op = ''WamGetVal''"
| "op_to_string WamGetConst_op = ''WamGetConst''"
| "op_to_string WamGetStruct_op = ''WamGetStruct''"
| "op_to_string WamGetList_op = ''WamGetList''"
| "op_to_string WamPutVar_op = ''WamPutVar''"
| "op_to_string WamPutVal_op = ''WamPutVal''"
| "op_to_string WamPutConst_op = ''WamPutConst''"
| "op_to_string WamPutStruct_op = ''WamPutStruct''"
| "op_to_string WamPutList_op = ''WamPutList''"
| "op_to_string WamUnifyVar_op = ''WamUnifyVar''"
| "op_to_string WamUnifyVal_op = ''WamUnifyVal''"
| "op_to_string WamUnifyConst_op = ''WamUnifyConst''"
| "op_to_string WamUnifyVoid_op = ''WamUnifyVoid''"
| "op_to_string WamAllocate_op = ''WamAllocate''"
| "op_to_string WamDeallocate_op = ''WamDeallocate''"
| "op_to_string WamCall_op = ''WamCall''"
| "op_to_string WamExecute_op = ''WamExecute''"
| "op_to_string WamProceed_op = ''WamProceed''"
| "op_to_string WamTryMeElse_op = ''WamTryMeElse''"
| "op_to_string WamRetryMeElse_op = ''WamRetryMeElse''"
| "op_to_string WamTrustMe_op = ''WamTrustMe''"
| "op_to_string WamSwitchOnTerm_op = ''WamSwitchOnTerm''"
| "op_to_string WamSwitchOnConst_op = ''WamSwitchOnConst''"
| "op_to_string WamSwitchOnStruct_op = ''WamSwitchOnStruct''"
| "op_to_string (Other_op b) = ''Unknown''"

lemma op_code_of_code [simp]: "op_code (op_of_code b) = b"
  by (auto simp: op_of_code_def find_Some_iff split: option.splits)

lemma op_of_code_other: "op_of_code b = Other_op c \<Longrightarrow> c = b"
  by (metis op_code.simps(68) op_code_of_code)

section \<open>Functions and their registry\<close>

record instruction =
  opcode :: opcode
  arg :: u32

record bytecode_function =
  fn_code :: "instruction list"
  source_map :: "span list"
  constants :: "lispval list"
  fn_arity :: u32
  has_rest :: bool
  stack_size :: u32
  fn_name :: string
  local_names :: "string list"
  upval_names :: "string list"

definition empty_function :: bytecode_function where
  "empty_function = \<lparr> fn_code = [], source_map = [], constants = [], fn_arity = 0, has_rest = False,
     stack_size = 0, fn_name = [], local_names = [], upval_names = [] \<rparr>"

text \<open>The offset is a signed 32-bit number; the sum wraps as the cast to \<^verbatim>\<open>uint32_t\<close> has it.\<close>

definition rebase_const :: "u32 \<Rightarrow> lispval \<Rightarrow> lispval" where
  "rebase_const off c =
     (if is_func_index c then encode_func_index (decode_func_index c + off) else c)"

definition rebase_func_indices :: "u32 \<Rightarrow> bytecode_function \<Rightarrow> bytecode_function" where
  "rebase_func_indices off f = f\<lparr> constants := map (rebase_const off) (constants f) \<rparr>"

definition span_at :: "bytecode_function \<Rightarrow> nat \<Rightarrow> span" where
  "span_at f pc = (if pc < length (source_map f) then source_map f ! pc else default_span)"

type_synonym registry = "bytecode_function list"

definition registry_add :: "bytecode_function \<Rightarrow> registry \<Rightarrow> nat \<times> registry" where
  "registry_add f fs = (length fs, fs @ [f])"

definition registry_get :: "registry \<Rightarrow> nat \<Rightarrow> bytecode_function option" where
  "registry_get fs i = (if i < length fs then Some (fs ! i) else None)"

section \<open>The verifier\<close>

text \<open>One turn of the loop of \<^verbatim>\<open>verify_function\<close>: whether the instruction passes.\<close>

definition verify_instruction :: "nat \<Rightarrow> u32 \<Rightarrow> instruction \<Rightarrow> bool" where
  "verify_instruction nconsts stack i =
     (if op_to_string (opcode i) = ''Unknown'' then False
      else if opcode i = LoadConst_op then \<not> (nconsts = 0 \<or> unat (arg i) \<ge> nconsts)
      else if opcode i = LoadLocal_op \<or> opcode i = StoreLocal_op then \<not> (stack > 0 \<and> arg i \<ge> stack)
      else if opcode i = MakeClosure_op then \<not> (nconsts = 0 \<or> unat (drop_bit 16 (arg i)) \<ge> nconsts)
      else True)"

definition verify_function :: "bytecode_function \<Rightarrow> bool" where
  "verify_function f = list_all (verify_instruction (length (constants f)) (stack_size f)) (fn_code f)"

section \<open>Function indices\<close>

lemma bit_FUNC_INDEX_TAG [simp]: "bit FUNC_INDEX_TAG n \<longleftrightarrow> n = 63"
  by (simp only: FUNC_INDEX_TAG_def bit_push_bit_iff bit_1_iff) (auto simp: possible_bit_def)

lemma func_index_simps [simp]:
  "is_func_index (encode_func_index i)" "decode_func_index (encode_func_index i) = i"
  "encode_func_index i = encode_func_index j \<longleftrightarrow> i = j"
proof -
  have m: "FUNC_INDEX_UPPER_ZERO_MASK = push_bit 32 (mask 31)"
    by (simp add: FUNC_INDEX_UPPER_ZERO_MASK_def mask_eq_exp_minus_1)
  have b: "bit (encode_func_index i) n \<longleftrightarrow> n = 63 \<or> (n < 32 \<and> bit i n)" for n i
    by (auto simp: encode_func_index_def bit_or_iff bit_ucast_iff
        dest: bit_imp_le_length)
  have "bit (encode_func_index i AND FUNC_INDEX_TAG) 63"
    by (simp add: bit_and_iff b)
  then have "encode_func_index i AND FUNC_INDEX_TAG \<noteq> 0" by (metis bit_0_eq bot_apply bot_bool_def)
  moreover have "encode_func_index i AND FUNC_INDEX_UPPER_ZERO_MASK = 0"
    by (rule bit_word_eqI) (auto simp: b m bit_and_iff bit_push_bit_iff bit_mask_iff)
  ultimately show "is_func_index (encode_func_index i)" by (simp add: is_func_index_def)
  show d: "decode_func_index (encode_func_index i) = i" for i
    by (rule bit_word_eqI)
      (auto simp: decode_func_index_def bit_ucast_iff bit_and_iff b bit_not_iff)
  then show "encode_func_index i = encode_func_index j \<longleftrightarrow> i = j" by metis
qed

lemma bit_FUNC_INDEX_UPPER: "bit FUNC_INDEX_UPPER_ZERO_MASK n \<longleftrightarrow> 32 \<le> n \<and> n < 63"
proof -
  have m: "FUNC_INDEX_UPPER_ZERO_MASK = push_bit 32 (mask 31)"
    by (simp add: FUNC_INDEX_UPPER_ZERO_MASK_def mask_eq_exp_minus_1)
  show ?thesis unfolding m by (auto simp: bit_push_bit_iff bit_mask_iff)
qed

text \<open>The constants taken for function indices are exactly the encodings of function indices.\<close>

lemma is_func_index_iff: "is_func_index v \<longleftrightarrow> (\<exists>i. v = encode_func_index i)"
proof
  assume v: "is_func_index v"
  have s: "bit v 63"
  proof (rule ccontr)
    assume "\<not> bit v 63"
    then have "v AND FUNC_INDEX_TAG = 0" by (intro bit_word_eqI) (auto simp: bit_and_iff)
    with v show False by (simp add: is_func_index_def)
  qed
  have z: "\<not> bit v n" if "32 \<le> n" "n < 63" for n
  proof
    assume "bit v n"
    then have "bit (v AND FUNC_INDEX_UPPER_ZERO_MASK) n" using that by (simp add: bit_and_iff bit_FUNC_INDEX_UPPER)
    moreover have "v AND FUNC_INDEX_UPPER_ZERO_MASK = 0" using v by (simp add: is_func_index_def)
    ultimately show False by simp
  qed
  have "v = encode_func_index (ucast v)"
  proof (rule bit_word_eqI)
    fix n assume "n < LENGTH(64)"
    then show "bit v n \<longleftrightarrow> bit (encode_func_index (ucast v)) n"
      using s z [of n] by (cases "n = 63"; cases "n < 32") (auto simp: encode_func_index_def bit_or_iff bit_ucast_iff)
  qed
  then show "\<exists>i. v = encode_func_index i" ..
qed auto

lemma encode_decode_func_index: "is_func_index v \<Longrightarrow> encode_func_index (decode_func_index v) = v"
  by (auto simp: is_func_index_iff)

lemma func_index_not_boxed: "is_func_index v \<Longrightarrow> \<not> is_boxed v"
proof
  assume "is_func_index v" "is_boxed v"
  then obtain i where "v = encode_func_index i" by (auto simp: is_func_index_iff)
  moreover have "bit v 50" using \<open>is_boxed v\<close> by (simp add: is_boxed_iff_bits)
  ultimately show False using bit_imp_le_length [of i 50] by (simp add: encode_func_index_def bit_or_iff bit_ucast_iff)
qed

lemma rebase_const_back: "rebase_const (- off) (rebase_const off c) = c"
  by (simp add: rebase_const_def encode_decode_func_index)

text \<open>C28: Rebasing a function's constants by an offset and back restores it; it moves exactly the
  function indices, each by the offset. The pattern of the double -0.0 is one of them, so that
  constant is moved too, although no function index was written for it.\<close>

theorem rebase_exact:
  "rebase_func_indices (- off) (rebase_func_indices off f) = f
   \<and> constants (rebase_func_indices off f)
     = map (\<lambda>c. if is_func_index c then encode_func_index (decode_func_index c + off) else c) (constants f)
   \<and> fn_code (rebase_func_indices off f) = fn_code f
   \<and> rebase_const off (push_bit 63 1) = encode_func_index off
   \<and> (off \<noteq> 0 \<longrightarrow> rebase_const off (push_bit 63 1) \<noteq> push_bit 63 1)"
proof (intro conjI impI)
  show "rebase_func_indices (- off) (rebase_func_indices off f) = f"
    by (simp add: rebase_func_indices_def o_def rebase_const_back)
  show "constants (rebase_func_indices off f)
     = map (\<lambda>c. if is_func_index c then encode_func_index (decode_func_index c + off) else c) (constants f)"
    by (simp add: rebase_func_indices_def rebase_const_def)
  show "fn_code (rebase_func_indices off f) = fn_code f" by (simp add: rebase_func_indices_def)
  have z: "push_bit 63 1 = encode_func_index 0" by (simp add: encode_func_index_def FUNC_INDEX_TAG_def)
  show r: "rebase_const off (push_bit 63 1) = encode_func_index off"
    unfolding z rebase_const_def by simp
  show "rebase_const off (push_bit 63 1) \<noteq> push_bit 63 1" if "off \<noteq> 0"
    unfolding r unfolding z using that by simp
qed

theorem rebase_exact_witness: "rebase_const 3 (push_bit 63 1) \<noteq> push_bit 63 1"
proof -
  have "(3 :: u32) \<noteq> 0" by simp
  then show ?thesis using rebase_exact [of 3] by blast
qed

section \<open>What the verifier promises\<close>

definition instruction_ok :: "nat \<Rightarrow> nat \<Rightarrow> instruction \<Rightarrow> bool" where
  "instruction_ok nconsts stack i \<longleftrightarrow> opcode i \<in> set named_ops
     \<and> (opcode i = LoadConst_op \<longrightarrow> unat (arg i) < nconsts)
     \<and> (opcode i = MakeClosure_op \<longrightarrow> unat (drop_bit 16 (arg i)) < nconsts)
     \<and> (opcode i \<in> {LoadLocal_op, StoreLocal_op} \<and> stack > 0 \<longrightarrow> unat (arg i) < stack)"

lemma op_named: "op \<in> set named_ops \<longleftrightarrow> op_to_string op \<noteq> ''Unknown''"
  by (cases op) (simp_all add: named_ops_def)

lemma verify_instruction_iff:
  "verify_instruction n stack i \<longleftrightarrow> instruction_ok n (unat stack) i"
  by (cases "opcode i = LoadConst_op"; cases "opcode i = MakeClosure_op";
      cases "opcode i = LoadLocal_op"; cases "opcode i = StoreLocal_op")
    (auto simp: verify_instruction_def instruction_ok_def op_named word_le_nat_alt word_less_nat_alt not_le)

lemma verify_function_iff:
  "verify_function f \<longleftrightarrow> list_all (instruction_ok (length (constants f)) (unat (stack_size f))) (fn_code f)"
  by (simp add: verify_function_def verify_instruction_iff list_all_iff)

lemma op_of_code_named: "op \<in> set named_ops \<Longrightarrow> op_of_code (op_code op) = op"
  by (cases op) (simp_all add: op_of_code_def named_ops_def)

end
