(* ===== verification/Interning.thy ===== *)
theory Interning
  imports NanBox
begin

text \<open>
  The intern table, \<^verbatim>\<open>eta/core/src/eta/runtime/memory/intern_table.{h,cpp}\<close>: two concurrent
  maps and an atomic counter. First the operations run by one thread, then the same
  operation cut into its atomic steps and interleaved by any number of threads. The hash
  functions only place keys in the concurrent maps and are not modelled.
\<close>

section \<open>State and sequential operations\<close>

datatype intern_error = MissingId | MissingString | IdOutOfRange

record intern_table =
  str_to_id :: "string \<rightharpoonup> u64"
  id_to_str :: "u64 \<rightharpoonup> string"
  next_intern_id :: u64

definition empty_intern :: intern_table where
  "empty_intern = \<lparr>str_to_id = Map.empty, id_to_str = Map.empty, next_intern_id = 0\<rparr>"

text \<open>\<^verbatim>\<open>emplace\<close> of a concurrent map: a key that is present keeps its value.\<close>

definition emplace :: "('k \<rightharpoonup> 'v) \<Rightarrow> 'k \<Rightarrow> 'v \<Rightarrow> ('k \<rightharpoonup> 'v)" where
  "emplace m k v = (case m k of None \<Rightarrow> m(k \<mapsto> v) | Some _ \<Rightarrow> m)"

definition intern :: "string \<Rightarrow> intern_table \<Rightarrow> (intern_error + u64) \<times> intern_table" where
  "intern s t =
     (case str_to_id t s of
        Some existing \<Rightarrow> (Inr existing, t)
      | None \<Rightarrow>
          (let i = next_intern_id t;
               t1 = t\<lparr>next_intern_id := i + 1\<rparr>
           in if i > PAYLOAD_MASK then (Inl IdOutOfRange, t1)
              else let t2 = t1\<lparr>id_to_str := emplace (id_to_str t1) i s\<rparr>
                   in case str_to_id t2 s of
                        None \<Rightarrow> (Inr i, t2\<lparr>str_to_id := (str_to_id t2)(s \<mapsto> i)\<rparr>)
                      | Some r \<Rightarrow> (Inr r, t2\<lparr>id_to_str := (id_to_str t2)(i := None)\<rparr>)))"

definition get_id :: "string \<Rightarrow> intern_table \<Rightarrow> intern_error + u64" where
  "get_id s t = (case str_to_id t s of Some i \<Rightarrow> Inr i | None \<Rightarrow> Inl MissingId)"

definition get_string :: "u64 \<Rightarrow> intern_table \<Rightarrow> intern_error + string" where
  "get_string i t = (case id_to_str t i of Some s \<Rightarrow> Inr s | None \<Rightarrow> Inl MissingString)"

section \<open>Invariant\<close>

text \<open>
  Both maps agree, and every id in use is below the counter. The counter is a 64-bit
  atomic; ids above \<open>PAYLOAD_MASK\<close> are refused, so it stays within the payload range by
  at most the number of refused calls. \<open>intern_wf\<close> states the range as what the table
  holds: no id in use is at or above the counter.
\<close>

definition intern_wf :: "intern_table \<Rightarrow> bool" where
  "intern_wf t \<longleftrightarrow>
     (\<forall>s i. str_to_id t s = Some i \<longleftrightarrow> id_to_str t i = Some s) \<and>
     (\<forall>i s. id_to_str t i = Some s \<longrightarrow> i < next_intern_id t \<and> i \<le> PAYLOAD_MASK)"

text \<open>There is room for one more id: the counter has not run past the payload range.\<close>

definition intern_room :: "intern_table \<Rightarrow> bool" where
  "intern_room t \<longleftrightarrow> next_intern_id t \<le> PAYLOAD_MASK"

lemma intern_wf_empty: "intern_wf empty_intern"
  by (simp add: intern_wf_def empty_intern_def)

lemma payload_succ_less: "i \<le> PAYLOAD_MASK \<Longrightarrow> i < i + 1"
proof -
  assume i: "i \<le> PAYLOAD_MASK"
  moreover have "PAYLOAD_MASK < - 1" by (simp add: PAYLOAD_MASK_def)
  ultimately have "i \<noteq> - 1" by auto
  then show ?thesis by (metis add_eq_0_iff2 inc_less_eq_triv_imp not_less add.commute add_cancel_right_right eq_neg_iff_add_eq_0)
qed

lemma fresh_intern_id: "intern_wf t \<Longrightarrow> id_to_str t (next_intern_id t) = None"
  by (cases "id_to_str t (next_intern_id t)") (auto simp: intern_wf_def)

lemma intern_hit: "str_to_id t s = Some i \<Longrightarrow> intern s t = (Inr i, t)"
  by (simp add: intern_def)

lemma intern_miss:
  assumes "str_to_id t s = None" "intern_wf t" "intern_room t"
  shows "intern s t = (Inr (next_intern_id t),
    t\<lparr>str_to_id := (str_to_id t)(s \<mapsto> next_intern_id t),
      id_to_str := (id_to_str t)(next_intern_id t \<mapsto> s), next_intern_id := next_intern_id t + 1\<rparr>)"
  using assms fresh_intern_id [OF assms(2)]
  by (simp add: intern_def emplace_def intern_room_def Let_def)

lemma intern_full:
  "str_to_id t s = None \<Longrightarrow> \<not> intern_room t \<Longrightarrow>
   intern s t = (Inl IdOutOfRange, t\<lparr>next_intern_id := next_intern_id t + 1\<rparr>)"
  by (simp add: intern_def intern_room_def Let_def)

lemma intern_wf_intern:
  assumes wf: "intern_wf t" and ok: "intern s t = (Inr i, t')"
  shows "intern_wf t'"
proof (cases "str_to_id t s")
  case (Some j)
  with wf ok show ?thesis by (simp add: intern_hit)
next
  case None
  with ok have room: "intern_room t" by (cases "intern_room t") (auto simp: intern_full)
  let ?n = "next_intern_id t"
  have t': "t' = t\<lparr>str_to_id := (str_to_id t)(s \<mapsto> ?n),
      id_to_str := (id_to_str t)(?n \<mapsto> s), next_intern_id := ?n + 1\<rparr>"
    using ok intern_miss [OF None wf room] by auto
  have lt: "?n < ?n + 1" using room by (simp add: intern_room_def payload_succ_less)
  have old: "j < ?n + 1 \<and> j \<le> PAYLOAD_MASK \<and> u \<noteq> s" if "id_to_str t j = Some u" for j u
    using wf that None lt by (force simp: intern_wf_def)
  show ?thesis
    using wf None fresh_intern_id [OF wf] room lt old
    by (auto simp: t' intern_wf_def intern_room_def split: if_splits)
qed

lemma intern_get_string:
  assumes "intern_wf t" "intern s t = (Inr i, t')"
  shows "get_string i t' = Inr s"
proof (cases "str_to_id t s")
  case (Some j)
  with assms show ?thesis by (auto simp: intern_hit get_string_def intern_wf_def)
next
  case None
  with assms have "intern_room t" by (cases "intern_room t") (auto simp: intern_full)
  with None assms show ?thesis by (auto simp: intern_miss get_string_def)
qed

lemma intern_preserves_strings:
  assumes "intern_wf t" "intern s t = (r, t')" "get_string j t = Inr u"
  shows "get_string j t' = Inr u"
proof (cases "str_to_id t s")
  case (Some k)
  with assms show ?thesis by (auto simp: intern_hit)
next
  case None
  show ?thesis
  proof (cases "intern_room t")
    case True
    from assms(3) have "j \<noteq> next_intern_id t"
      using fresh_intern_id [OF assms(1)] by (auto simp: get_string_def)
    with None True assms show ?thesis by (auto simp: intern_miss get_string_def)
  next
    case False
    with None assms show ?thesis by (auto simp: intern_full get_string_def)
  qed
qed

section \<open>The interface the clients rely on\<close>

text \<open>
  The readers and writers of strings (the \<^verbatim>\<open>.etac\<close> serializer, the wire format) use an
  intern table through these three laws.
\<close>

locale interner =
  fixes intern_op :: "string \<Rightarrow> 't \<Rightarrow> ('e + 'i) \<times> 't"
    and string_of :: "'i \<Rightarrow> 't \<Rightarrow> 'e + string"
    and ok :: "'t \<Rightarrow> bool"
  assumes ok_intern: "ok t \<Longrightarrow> intern_op s t = (Inr i, t') \<Longrightarrow> ok t'"
    and string_of_intern: "ok t \<Longrightarrow> intern_op s t = (Inr i, t') \<Longrightarrow> string_of i t' = Inr s"
    and string_of_mono: "ok t \<Longrightarrow> intern_op s t = (r, t') \<Longrightarrow> string_of j t = Inr u \<Longrightarrow>
      string_of j t' = Inr u"
begin

text \<open>Two strings interned one after the other get the same id only if they are equal.\<close>

lemma intern_injective:
  assumes "ok t" "intern_op s t = (Inr i, t1)" "intern_op u t1 = (Inr j, t2)" "i = j"
  shows "s = u"
proof -
  from assms(1,2) have "ok t1" by (rule ok_intern)
  from \<open>ok t1\<close> assms(3) string_of_intern [OF assms(1,2)]
  have "string_of i t2 = Inr s" by (rule string_of_mono)
  moreover from \<open>ok t1\<close> assms(3) have "string_of j t2 = Inr u" by (rule string_of_intern)
  ultimately show ?thesis using assms(4) by simp
qed

text \<open>A table that only grows by interning keeps every string it had.\<close>

fun intern_all :: "string list \<Rightarrow> 't \<Rightarrow> 't" where
  "intern_all [] t = t"
| "intern_all (s # ss) t = (case intern_op s t of
      (Inl e, t') \<Rightarrow> t | (Inr i, t') \<Rightarrow> intern_all ss t')"

lemma intern_all_keeps:
  "ok t \<Longrightarrow> string_of j t = Inr u \<Longrightarrow> ok (intern_all ss t) \<and> string_of j (intern_all ss t) = Inr u"
proof (induction ss arbitrary: t)
  case Nil
  then show ?case by simp
next
  case (Cons s ss)
  then show ?case
    by (auto split: prod.splits sum.splits intro: ok_intern string_of_mono)
qed

end

interpretation table: interner intern get_string intern_wf
  by unfold_locales (auto intro: intern_wf_intern intern_get_string intern_preserves_strings)

section \<open>The same operation, interleaved\<close>

text \<open>
  \<^verbatim>\<open>InternTable::intern\<close> is called by many threads on one table; only the single map
  operations and the \<^verbatim>\<open>fetch_add\<close> are atomic. A thread is at one of the points between
  them. \<open>Done s r\<close> is a thread that returned \<open>r\<close> from \<^verbatim>\<open>intern(s)\<close>; it may call again.
\<close>

datatype intern_pc =
    Idle
  | Called string                   \<comment> \<open>before the fast-path visit\<close>
  | Missed string                   \<comment> \<open>the fast path found nothing\<close>
  | Claimed string u64              \<comment> \<open>an id within range was fetched\<close>
  | Registered string u64           \<comment> \<open>the id maps to the string\<close>
  | Collided string u64 u64         \<comment> \<open>the string already had an id; the own id is to be erased\<close>
  | Done string "intern_error + u64"

type_synonym intern_sys = "intern_table \<times> (nat \<Rightarrow> intern_pc)"

inductive intern_step :: "intern_sys \<Rightarrow> intern_sys \<Rightarrow> bool" where
  call: "pcs p = Idle \<or> pcs p = Done u r \<Longrightarrow>
    intern_step (t, pcs) (t, pcs(p := Called s))"
| fast_hit: "pcs p = Called s \<Longrightarrow> str_to_id t s = Some i \<Longrightarrow>
    intern_step (t, pcs) (t, pcs(p := Done s (Inr i)))"
| fast_miss: "pcs p = Called s \<Longrightarrow> str_to_id t s = None \<Longrightarrow>
    intern_step (t, pcs) (t, pcs(p := Missed s))"
| fetch: "pcs p = Missed s \<Longrightarrow> i = next_intern_id t \<Longrightarrow> i \<le> PAYLOAD_MASK \<Longrightarrow>
    intern_step (t, pcs) (t\<lparr>next_intern_id := i + 1\<rparr>, pcs(p := Claimed s i))"
| exhausted: "pcs p = Missed s \<Longrightarrow> i = next_intern_id t \<Longrightarrow> i > PAYLOAD_MASK \<Longrightarrow>
    intern_step (t, pcs) (t\<lparr>next_intern_id := i + 1\<rparr>, pcs(p := Done s (Inl IdOutOfRange)))"
| register: "pcs p = Claimed s i \<Longrightarrow>
    intern_step (t, pcs) (t\<lparr>id_to_str := emplace (id_to_str t) i s\<rparr>, pcs(p := Registered s i))"
| publish: "pcs p = Registered s i \<Longrightarrow> str_to_id t s = None \<Longrightarrow>
    intern_step (t, pcs) (t\<lparr>str_to_id := (str_to_id t)(s \<mapsto> i)\<rparr>, pcs(p := Done s (Inr i)))"
| collide: "pcs p = Registered s i \<Longrightarrow> str_to_id t s = Some r \<Longrightarrow>
    intern_step (t, pcs) (t, pcs(p := Collided s i r))"
| clean_up: "pcs p = Collided s i r \<Longrightarrow>
    intern_step (t, pcs) (t\<lparr>id_to_str := (id_to_str t)(i := None)\<rparr>, pcs(p := Done s (Inr r)))"

inductive intern_reach :: "nat \<Rightarrow> intern_sys \<Rightarrow> bool" where
  start: "intern_reach 0 (empty_intern, \<lambda>_. Idle)"
| more: "intern_reach n c \<Longrightarrow> intern_step c c' \<Longrightarrow> intern_reach (Suc n) c'"

text \<open>
  The id a thread holds between the fetch and its return. Such an id is nobody else's, is
  below the counter, and is not yet published.
\<close>

fun held :: "intern_pc \<Rightarrow> u64 option" where
  "held (Claimed s i) = Some i"
| "held (Registered s i) = Some i"
| "held (Collided s i r) = Some i"
| "held _ = None"

fun pc_ok :: "intern_table \<Rightarrow> intern_pc \<Rightarrow> bool" where
  "pc_ok t (Claimed s i) \<longleftrightarrow> id_to_str t i = None"
| "pc_ok t (Registered s i) \<longleftrightarrow> id_to_str t i = Some s"
| "pc_ok t (Collided s i r) \<longleftrightarrow> id_to_str t i = Some s \<and> str_to_id t s = Some r"
| "pc_ok t (Done s (Inr i)) \<longleftrightarrow> str_to_id t s = Some i"
| "pc_ok t _ \<longleftrightarrow> True"

definition table_ok :: "intern_table \<Rightarrow> bool" where
  "table_ok t \<longleftrightarrow> (\<forall>s i. str_to_id t s = Some i \<longrightarrow> id_to_str t i = Some s) \<and>
     (\<forall>i s. id_to_str t i = Some s \<longrightarrow> i < next_intern_id t)"

definition held_ok :: "intern_table \<Rightarrow> (nat \<Rightarrow> u64 option) \<Rightarrow> bool" where
  "held_ok t h \<longleftrightarrow>
     (\<forall>p i. h p = Some i \<longrightarrow> i < next_intern_id t \<and> (\<forall>s. str_to_id t s \<noteq> Some i)) \<and>
     (\<forall>p q i. h p = Some i \<longrightarrow> h q = Some i \<longrightarrow> p = q)"

definition intern_inv :: "nat \<Rightarrow> intern_sys \<Rightarrow> bool" where
  "intern_inv n c \<longleftrightarrow> (case c of (t, pcs) \<Rightarrow>
     unat (next_intern_id t) \<le> n \<and> table_ok t \<and> held_ok t (\<lambda>p. held (pcs p)) \<and>
     (\<forall>p. pc_ok t (pcs p)))"

lemma intern_inv_start: "intern_inv 0 (empty_intern, \<lambda>_. Idle)"
  by (simp add: intern_inv_def empty_intern_def table_ok_def held_ok_def)

lemma counter_step:
  assumes "unat (k :: u64) \<le> n" "Suc n < 2 ^ 64"
  shows "unat (k + 1) = Suc (unat k)" "i < k \<Longrightarrow> i < k + 1" "k < k + 1"
proof -
  have "unat k + 1 < 2 ^ 64" using assms by simp
  then show u: "unat (k + 1) = Suc (unat k)" by (simp add: unat_word_ariths)
  then show "k < k + 1" by (simp add: word_less_nat_alt)
  with u show "i < k \<Longrightarrow> i < k + 1" by (simp add: word_less_nat_alt)
qed

text \<open>
  How a step rebuilds the invariant: the table part, the ids held (fewer than before, on a
  table that published none of them), the threads that did not move and the one that did.
\<close>

lemma held_ok_shrink:
  "held_ok t h \<Longrightarrow> (\<And>q i. h' q = Some i \<Longrightarrow> h q = Some i) \<Longrightarrow>
   (\<And>q i s. h' q = Some i \<Longrightarrow> str_to_id t' s \<noteq> Some i) \<Longrightarrow>
   (\<And>i. i < next_intern_id t \<Longrightarrow> i < next_intern_id t') \<Longrightarrow> held_ok t' h'"
  unfolding held_ok_def by metis

lemma held_upd:
  "held c = None \<or> held c = held (pcs p) \<Longrightarrow> held ((pcs(p := c)) q) = Some i \<Longrightarrow> held (pcs q) = Some i"
  by (auto split: if_splits)

lemma intern_inv_pc:
  assumes "intern_inv n (t, pcs)" "pc_ok t c" "held c = None \<or> held c = held (pcs p)"
  shows "intern_inv (Suc n) (t, pcs(p := c))"
proof -
  note up = held_upd [where p = p and pcs = pcs and c = c, OF assms(3)]
  from assms(1) have H: "held_ok t (\<lambda>p. held (pcs p))" by (simp add: intern_inv_def)
  have "held_ok t (\<lambda>q. held ((pcs(p := c)) q))"
    by (rule held_ok_shrink [OF H]) (use up H in \<open>unfold held_ok_def, blast\<close>)+
  with assms show ?thesis by (auto simp: intern_inv_def)
qed

lemma pc_ok_counter [simp]: "pc_ok (t\<lparr>next_intern_id := k\<rparr>) c = pc_ok t c"
  by (cases "(t, c)" rule: pc_ok.cases) simp_all

lemma intern_inv_fetch:
  assumes I: "intern_inv n (t, pcs)" and n: "Suc n < 2 ^ 64"
    and c: "held c = None \<or> held c = Some (next_intern_id t)"
    and ok: "pc_ok t c"
  shows "intern_inv (Suc n) (t\<lparr>next_intern_id := next_intern_id t + 1\<rparr>, pcs(p := c))"
proof -
  from I have u: "unat (next_intern_id t) \<le> n" and T: "table_ok t"
    and H: "held_ok t (\<lambda>p. held (pcs p))" and P: "\<And>q. pc_ok t (pcs q)"
    by (auto simp: intern_inv_def)
  note cs = counter_step [OF u n]
  have "table_ok (t\<lparr>next_intern_id := next_intern_id t + 1\<rparr>)"
    using T cs(2) by (auto simp: table_ok_def)
  moreover have "held_ok (t\<lparr>next_intern_id := next_intern_id t + 1\<rparr>) (\<lambda>q. held ((pcs(p := c)) q))"
    using H T c cs(2,3) by (fastforce simp: held_ok_def table_ok_def)
  ultimately show ?thesis
    using u cs(1) P ok by (simp add: intern_inv_def)
qed

lemma intern_inv_register:
  assumes I: "intern_inv n (t, pcs)" and p: "pcs p = Claimed s i"
  shows "intern_inv (Suc n) (t\<lparr>id_to_str := emplace (id_to_str t) i s\<rparr>, pcs(p := Registered s i))"
proof -
  from I have u: "unat (next_intern_id t) \<le> n" and T: "table_ok t"
    and H: "held_ok t (\<lambda>p. held (pcs p))" and P: "\<And>q. pc_ok t (pcs q)"
    by (auto simp: intern_inv_def)
  from P [of p] p have f: "id_to_str t i = None" by simp
  from H p have h: "i < next_intern_id t" "\<And>q. q \<noteq> p \<Longrightarrow> held (pcs q) \<noteq> Some i"
    "\<And>u. str_to_id t u \<noteq> Some i"
    unfolding held_ok_def by (metis held.simps(1))+
  let ?t = "t\<lparr>id_to_str := (id_to_str t)(i \<mapsto> s)\<rparr>"
  have "pc_ok ?t (pcs q)" if "q \<noteq> p" for q
    using P [of q] h(2) [OF that] f by (cases "(t, pcs q)" rule: pc_ok.cases) auto
  moreover have "table_ok ?t" using T h by (auto simp: table_ok_def)
  moreover have "held_ok ?t (\<lambda>q. held ((pcs(p := Registered s i)) q))"
    by (rule held_ok_shrink [OF H]) (use p H h in \<open>auto simp: held_ok_def split: if_splits\<close>)
  ultimately show ?thesis using u f by (simp add: intern_inv_def emplace_def)
qed

lemma intern_inv_publish:
  assumes I: "intern_inv n (t, pcs)" and p: "pcs p = Registered s i" and f: "str_to_id t s = None"
  shows "intern_inv (Suc n) (t\<lparr>str_to_id := (str_to_id t)(s \<mapsto> i)\<rparr>, pcs(p := Done s (Inr i)))"
proof -
  from I have u: "unat (next_intern_id t) \<le> n" and T: "table_ok t"
    and H: "held_ok t (\<lambda>p. held (pcs p))" and P: "\<And>q. pc_ok t (pcs q)"
    by (auto simp: intern_inv_def)
  from P [of p] p have r: "id_to_str t i = Some s" by simp
  from H p have h: "\<And>q. q \<noteq> p \<Longrightarrow> held (pcs q) \<noteq> Some i"
    unfolding held_ok_def by (metis held.simps(2))
  let ?t = "t\<lparr>str_to_id := (str_to_id t)(s \<mapsto> i)\<rparr>"
  have "pc_ok ?t (pcs q)" if "q \<noteq> p" for q
    using P [of q] f by (cases "(t, pcs q)" rule: pc_ok.cases) auto
  moreover have "table_ok ?t" using T r by (auto simp: table_ok_def)
  moreover have "held_ok ?t (\<lambda>q. held ((pcs(p := Done s (Inr i))) q))"
    by (rule held_ok_shrink [OF H]) (use p H h in \<open>auto simp: held_ok_def split: if_splits\<close>)
  ultimately show ?thesis using u by (simp add: intern_inv_def)
qed

lemma intern_inv_clean_up:
  assumes I: "intern_inv n (t, pcs)" and p: "pcs p = Collided s i r"
  shows "intern_inv (Suc n) (t\<lparr>id_to_str := (id_to_str t)(i := None)\<rparr>, pcs(p := Done s (Inr r)))"
proof -
  from I have u: "unat (next_intern_id t) \<le> n" and T: "table_ok t"
    and H: "held_ok t (\<lambda>p. held (pcs p))" and P: "\<And>q. pc_ok t (pcs q)"
    by (auto simp: intern_inv_def)
  from P [of p] p have r: "str_to_id t s = Some r" by simp
  from H p have h: "\<And>q. q \<noteq> p \<Longrightarrow> held (pcs q) \<noteq> Some i" "\<And>u. str_to_id t u \<noteq> Some i"
    unfolding held_ok_def by (metis held.simps(3))+
  let ?t = "t\<lparr>id_to_str := (id_to_str t)(i := None)\<rparr>"
  have "pc_ok ?t (pcs q)" if "q \<noteq> p" for q
    using P [of q] h(1) [OF that] by (cases "(t, pcs q)" rule: pc_ok.cases) auto
  moreover have "table_ok ?t" using T h by (auto simp: table_ok_def)
  moreover have "held_ok ?t (\<lambda>q. held ((pcs(p := Done s (Inr r))) q))"
    by (rule held_ok_shrink [OF H]) (use p H h in \<open>auto simp: held_ok_def split: if_splits\<close>)
  ultimately show ?thesis using u r by (simp add: intern_inv_def)
qed

lemma intern_inv_step:
  assumes "intern_step c c'" "intern_inv n c" "Suc n < 2 ^ 64"
  shows "intern_inv (Suc n) c'"
  using assms
proof (induction rule: intern_step.induct)
  case (collide pcs p s i t r)
  then have "pc_ok t (Registered s i)" by (auto simp: intern_inv_def dest!: spec [of _ p])
  with collide show ?case by (intro intern_inv_pc) auto
next
  case (fetch pcs p s i t)
  then have "id_to_str t i = None"
    by (cases "id_to_str t i") (auto simp: intern_inv_def table_ok_def)
  with fetch show ?case
    using intern_inv_fetch [OF fetch.prems, of "Claimed s i" p] by simp
next
  case (exhausted pcs p s i t)
  then show ?case
    using intern_inv_fetch [OF exhausted.prems, of "Done s (Inl IdOutOfRange)" p] by simp
qed (auto intro: intern_inv_pc intern_inv_register intern_inv_publish
      intern_inv_clean_up)

lemma intern_reach_inv: "intern_reach n c \<Longrightarrow> n < 2 ^ 64 \<Longrightarrow> intern_inv n c"
  by (induction rule: intern_reach.induct) (auto intro: intern_inv_start intern_inv_step)

section \<open>Properties\<close>

text \<open>C12: However the threads interleave, once \<^verbatim>\<open>intern(s)\<close> has returned an id to a thread,
  \<^verbatim>\<open>get_string\<close> of that id is \<open>s\<close> and \<^verbatim>\<open>get_id\<close> of \<open>s\<close> is that id: no interleaving with
  colliding calls, nor their clean-up, makes a returned id dangle. The bound is on the number
  of atomic steps, since the 64-bit counter would wrap after \<open>2 ^ 64\<close> of them.\<close>

theorem concurrent_intern_lookup:
  assumes "intern_reach n (t, pcs)" "n < 2 ^ 64" "pcs p = Done s (Inr i)"
  shows "get_string i t = Inr s \<and> get_id s t = Inr i"
proof -
  have inv: "intern_inv n (t, pcs)" using assms(1,2) by (rule intern_reach_inv)
  then have "pc_ok t (Done s (Inr i))" using assms(3) by (auto simp: intern_inv_def dest!: spec [of _ p])
  with inv show ?thesis by (auto simp: intern_inv_def table_ok_def get_string_def get_id_def)
qed

text \<open>C13: Two calls that have returned agree: equal strings were given equal ids and different
  strings different ids, on whichever threads they ran.\<close>

theorem concurrent_intern_agree:
  assumes "intern_reach n (t, pcs)" "n < 2 ^ 64"
    and "pcs p = Done s (Inr i)" "pcs q = Done u (Inr j)"
  shows "i = j \<longleftrightarrow> s = u"
proof -
  have inv: "intern_inv n (t, pcs)" using assms(1,2) by (rule intern_reach_inv)
  then have "pc_ok t (Done s (Inr i))" "pc_ok t (Done u (Inr j))"
    using assms(3,4) by (metis (no_types, lifting) case_prodD intern_inv_def)+
  then have "str_to_id t s = Some i" "str_to_id t u = Some j" by simp_all
  moreover have "\<forall>s i. str_to_id t s = Some i \<longrightarrow> id_to_str t i = Some s"
    using inv by (simp add: intern_inv_def table_ok_def)
  ultimately show ?thesis by (metis option.inject)
qed

text \<open>A run in which two threads intern the same string and collide.\<close>

definition collision_run :: intern_sys where
  "collision_run =
     (\<lparr>str_to_id = [''x'' \<mapsto> 0], id_to_str = [0 \<mapsto> ''x''], next_intern_id = 2\<rparr>,
      (\<lambda>_. Idle)(0 := Done ''x'' (Inr 0), 1 := Done ''x'' (Inr 0)))"

lemma reach_step:
  "intern_reach n c \<Longrightarrow> intern_step c c' \<Longrightarrow> c' = d \<Longrightarrow> m = Suc n \<Longrightarrow> intern_reach m d"
  by (auto intro: intern_reach.more)

lemma collision_reach: "intern_reach 11 collision_run"
proof -
  let ?x = "''x''"
  let ?pc = "\<lambda>a b. (\<lambda>_. Idle)(0 := a, 1 := b)"
  let ?T = "\<lambda>m1 m2 k. \<lparr>str_to_id = m1, id_to_str = m2, next_intern_id = k\<rparr>"
  have "intern_reach 1 (?T Map.empty Map.empty 0, ?pc (Called ?x) Idle)"
    by (rule reach_step [OF intern_reach.start intern_step.call [of _ 0 _ _ _ ?x]])
      (auto simp: empty_intern_def)
  then have "intern_reach 2 (?T Map.empty Map.empty 0, ?pc (Called ?x) (Called ?x))"
    by (rule reach_step [OF _ intern_step.call [of _ 1 _ _ _ ?x]]) auto
  then have "intern_reach 3 (?T Map.empty Map.empty 0, ?pc (Missed ?x) (Called ?x))"
    by (rule reach_step [OF _ intern_step.fast_miss [of _ 0 ?x]]) auto
  then have "intern_reach 4 (?T Map.empty Map.empty 0, ?pc (Missed ?x) (Missed ?x))"
    by (rule reach_step [OF _ intern_step.fast_miss [of _ 1 ?x]]) auto
  then have "intern_reach 5 (?T Map.empty Map.empty 1, ?pc (Claimed ?x 0) (Missed ?x))"
    by (rule reach_step [OF _ intern_step.fetch [of _ 0 ?x 0]]) (auto simp: PAYLOAD_MASK_def)
  then have "intern_reach 6 (?T Map.empty Map.empty 2, ?pc (Claimed ?x 0) (Claimed ?x 1))"
    by (rule reach_step [OF _ intern_step.fetch [of _ 1 ?x 1]]) (auto simp: PAYLOAD_MASK_def)
  then have "intern_reach 7 (?T Map.empty [0 \<mapsto> ?x] 2, ?pc (Registered ?x 0) (Claimed ?x 1))"
    by (rule reach_step [OF _ intern_step.register [of _ 0 ?x 0]]) (auto simp: emplace_def)
  then have "intern_reach 8 (?T Map.empty [0 \<mapsto> ?x, 1 \<mapsto> ?x] 2, ?pc (Registered ?x 0) (Registered ?x 1))"
    by (rule reach_step [OF _ intern_step.register [of _ 1 ?x 1]]) (auto simp: emplace_def)
  then have "intern_reach 9 (?T [?x \<mapsto> 0] [0 \<mapsto> ?x, 1 \<mapsto> ?x] 2, ?pc (Done ?x (Inr 0)) (Registered ?x 1))"
    by (rule reach_step [OF _ intern_step.publish [of _ 0 ?x 0]]) auto
  then have "intern_reach 10 (?T [?x \<mapsto> 0] [0 \<mapsto> ?x, 1 \<mapsto> ?x] 2, ?pc (Done ?x (Inr 0)) (Collided ?x 1 0))"
    by (rule reach_step [OF _ intern_step.collide [of _ 1 ?x 1 _ 0]]) auto
  then show ?thesis
    by (rule reach_step [OF _ intern_step.clean_up [of _ 1 ?x 1 0]]) (auto simp: collision_run_def)
qed

theorem concurrent_intern_lookup_witness:
  "get_string 0 (fst collision_run) = Inr ''x'' \<and> get_id ''x'' (fst collision_run) = Inr 0"
  using concurrent_intern_lookup [of 11 "fst collision_run" "snd collision_run" 1 "''x''" 0]
    collision_reach
  by (simp add: collision_run_def)

theorem concurrent_intern_agree_witness:
  "snd collision_run 0 = Done ''x'' (Inr 0) \<and> snd collision_run 1 = Done ''x'' (Inr 0) \<and>
   ((0 :: u64) = 0 \<longleftrightarrow> ''x'' = ''x'')"
  using concurrent_intern_agree [of 11 "fst collision_run" "snd collision_run" 0 "''x''" 0 1 "''x''" 0]
    collision_reach
  by (simp add: collision_run_def)

end
