(* ===== verification/Serializer.thy ===== *)
theory Serializer
  imports Bytecode Interning Heap
begin

text \<open>
  The bytecode file, \<^verbatim>\<open>eta/core/src/eta/runtime/vm/bytecode_serializer.{h,cpp}\<close>. An output
  stream is the bytes written; an input stream is the bytes left, with the heap and the intern
  table the constants are built in. Every reader is a state transformer over the input; a
  short read is reported at once as \<open>Truncated\<close> by every caller, so the readers return that
  error themselves. Strings are their bytes; a double is its bit pattern.
\<close>

section \<open>Errors and file contents\<close>

datatype serializer_error = BadMagic | VersionMismatch | Truncated | CorruptConstant
  | HashMismatch | IOError | BuiltinCountMismatch | InvalidBytecode

record import_binding =
  local_slot :: u32
  from_module :: string
  remote_name :: string

record export_binding =
  export_name :: string
  export_slot :: u32

record module_entry =
  mod_name :: string
  init_func_index :: u32
  total_globals :: u32
  main_func_slot :: "u32 option"
  first_func_index :: u32
  func_count :: u32
  owned_global_slots :: "u32 list"
  import_bindings :: "import_binding list"
  export_bindings :: "export_binding list"

record package_metadata =
  package_name :: string
  package_version :: string
  manifest_hash :: u64

record dependency_hash =
  dependency :: string
  etac_hash :: u64

record etac_file =
  format_version :: u16
  file_flags :: u16
  source_hash :: u64
  builtin_count :: u32
  has_compiler_id :: bool
  compiler_id :: bytes
  package_meta :: "package_metadata option"
  dependency_hashes :: "dependency_hash list"
  file_imports :: "string list"
  modules :: "module_entry list"
  file_functions :: registry

definition empty_file :: etac_file where
  "empty_file = \<lparr> format_version = 0, file_flags = 0, source_hash = 0, builtin_count = 0,
     has_compiler_id = False, compiler_id = replicate 16 0, package_meta = None,
     dependency_hashes = [], file_imports = [], modules = [], file_functions = [] \<rparr>"

definition MAGIC :: bytes where "MAGIC = [0x45, 0x54, 0x41, 0x43]"
definition FORMAT_VERSION_V3 :: u16 where "FORMAT_VERSION_V3 = 3"
definition FORMAT_VERSION_V4 :: u16 where "FORMAT_VERSION_V4 = 4"
definition FORMAT_VERSION :: u16 where "FORMAT_VERSION = 5"
definition FLAG_HAS_DEBUG :: u16 where "FLAG_HAS_DEBUG = 1"
definition FLAG_HAS_PACKAGE_META :: u16 where "FLAG_HAS_PACKAGE_META = 2"
definition FLAG_HAS_DEPHASH :: u16 where "FLAG_HAS_DEPHASH = 4"
definition MAX_STRING_LEN :: u32 where "MAX_STRING_LEN = 65536"
definition MAX_VEC_LEN :: u32 where "MAX_VEC_LEN = 65535"
definition MAX_DEP_HASH_ENTRIES :: u32 where "MAX_DEP_HASH_ENTRIES = 65535"

section \<open>Fingerprints\<close>

definition FNV_OFFSET_BASIS :: u64 where "FNV_OFFSET_BASIS = 14695981039346656037"
definition FNV_PRIME :: u64 where "FNV_PRIME = 1099511628211"

definition fnv1a64 :: "string \<Rightarrow> u64 \<Rightarrow> u64" where
  "fnv1a64 s seed = fold (\<lambda>c h. (h XOR of_char c) * FNV_PRIME) s seed"

text \<open>The text that describes the build is fixed by the preprocessor: it is an argument.\<close>

definition make_fingerprint128 :: "string \<Rightarrow> bytes" where
  "make_fingerprint128 s = le_bytes 8 (fnv1a64 s FNV_OFFSET_BASIS)
     @ le_bytes 8 (fnv1a64 s (FNV_OFFSET_BASIS XOR 0x9e3779b97f4a7c15))"

section \<open>Writers\<close>

definition write_str :: "string \<Rightarrow> bytes" where
  "write_str s = le_bytes 4 (of_nat (length s) :: u32) @ map of_char s"

definition write_list :: "('a \<Rightarrow> bytes) \<Rightarrow> 'a list \<Rightarrow> bytes" where
  "write_list wr xs = le_bytes 4 (of_nat (length xs) :: u32) @ concat (map wr xs)"

text \<open>
  Constants. The recursion follows the heap, where a quoted datum may be of any depth; with
  too little fuel, or on a cyclic datum, there is no result.
\<close>

definition write_heap_value :: "(lispval \<Rightarrow> bytes option) \<Rightarrow> heap \<Rightarrow> lispval \<Rightarrow> bytes option" where
  "write_heap_value wr h v =
     (let i = payload v in
      case try_get_as Cons_kind h i of
        Some (Cons_obj car cdr) \<Rightarrow>
          (case (wr car, wr cdr) of (Some a, Some d) \<Rightarrow> Some (8 # a @ d) | _ \<Rightarrow> None)
      | _ \<Rightarrow>
        (case try_get_as Vector_kind h i of
          Some (Vector_obj elems) \<Rightarrow>
            (case those (map wr elems) of
               Some bs \<Rightarrow> Some (9 # le_bytes 4 (of_nat (length elems) :: u32) @ concat bs)
             | None \<Rightarrow> None)
        | _ \<Rightarrow> Some (10 # le_bytes 8 v)))"

fun write_constant :: "nat \<Rightarrow> heap \<Rightarrow> intern_table \<Rightarrow> lispval \<Rightarrow> bytes option" where
  "write_constant 0 h t v = None"
| "write_constant (Suc n) h t v =
     (if v = Nil_val then Some [0]
      else if v = True_val then Some [1]
      else if v = False_val then Some [12]
      else if \<not> is_boxed v then
        (if is_func_index v then Some (7 # le_bytes 4 (decode_func_index v)) else Some (3 # le_bytes 8 v))
      else case tag v of
        Fixnum_tag \<Rightarrow> Some (2 # le_bytes 8 (case decode_i64 v of Inr x \<Rightarrow> x | Inl _ \<Rightarrow> 0))
      | Char_tag \<Rightarrow> Some (4 # le_bytes 4 (case decode_char32 v of Inr x \<Rightarrow> x | Inl _ \<Rightarrow> 0))
      | String_tag \<Rightarrow> Some (5 # write_str (case get_string (payload v) t of Inr s \<Rightarrow> s | Inl _ \<Rightarrow> []))
      | Symbol_tag \<Rightarrow> Some (6 # write_str (case get_string (payload v) t of Inr s \<Rightarrow> s | Inl _ \<Rightarrow> []))
      | HeapObject_tag \<Rightarrow> write_heap_value (write_constant n h t) h v
      | Nan_tag \<Rightarrow> Some (3 # le_bytes 8 quiet_NaN)
      | Nil_tag \<Rightarrow> Some [0]
      | TapeRef_tag \<Rightarrow> Some [0])"

definition write_dep :: "dependency_hash \<Rightarrow> bytes" where
  "write_dep d = write_str (dependency d) @ le_bytes 8 (etac_hash d)"

definition write_package :: "package_metadata \<Rightarrow> bytes" where
  "write_package m = write_str (package_name m) @ write_str (package_version m) @ le_bytes 8 (manifest_hash m)"

definition write_import_binding :: "import_binding \<Rightarrow> bytes" where
  "write_import_binding i = le_bytes 4 (local_slot i) @ write_str (from_module i) @ write_str (remote_name i)"

definition write_export_binding :: "export_binding \<Rightarrow> bytes" where
  "write_export_binding e = write_str (export_name e) @ le_bytes 4 (export_slot e)"

definition write_module :: "module_entry \<Rightarrow> bytes" where
  "write_module m =
     write_str (mod_name m) @ le_bytes 4 (init_func_index m) @ le_bytes 4 (total_globals m)
     @ [if main_func_slot m \<noteq> None then 1 else 0]
     @ le_bytes 4 (case main_func_slot m of Some s \<Rightarrow> s | None \<Rightarrow> 0xFFFFFFFF)
     @ le_bytes 4 (first_func_index m) @ le_bytes 4 (func_count m)
     @ write_list (le_bytes 4) (owned_global_slots m)
     @ write_list write_import_binding (import_bindings m)
     @ write_list write_export_binding (export_bindings m)"

definition write_instruction :: "instruction \<Rightarrow> bytes" where
  "write_instruction i = op_code (opcode i) # le_bytes 4 (arg i)"

definition write_span :: "span \<Rightarrow> bytes" where
  "write_span s = le_bytes 4 (file_id s) @ le_bytes 4 (line (span_start s)) @ le_bytes 4 (column (span_start s))
     @ le_bytes 4 (line (span_end s)) @ le_bytes 4 (column (span_end s))"

definition write_function :: "(lispval \<Rightarrow> bytes option) \<Rightarrow> bool \<Rightarrow> bytecode_function \<Rightarrow> bytes option" where
  "write_function wr debug f =
     (case those (map wr (constants f)) of None \<Rightarrow> None
      | Some cs \<Rightarrow> Some (write_str (fn_name f) @ le_bytes 4 (fn_arity f) @ [if has_rest f then 1 else 0]
          @ le_bytes 4 (stack_size f)
          @ le_bytes 4 (of_nat (length (constants f)) :: u32) @ concat cs
          @ write_list write_instruction (fn_code f)
          @ (if debug then concat (map (\<lambda>i. write_span (span_at f i)) [0..<length (fn_code f)]) else [])
          @ write_list write_str (local_names f)
          @ write_list write_str (upval_names f)))"

record serialize_args =
  arg_modules :: "module_entry list"
  arg_registry :: registry
  arg_source_hash :: u64
  arg_debug :: bool
  arg_imports :: "string list"
  arg_builtins :: u32
  arg_package :: "package_metadata option"
  arg_deps :: "dependency_hash list"
  arg_compiler_id :: bytes

definition header_flags :: "serialize_args \<Rightarrow> u16" where
  "header_flags a = (if arg_debug a then FLAG_HAS_DEBUG else 0)
     OR (if arg_package a \<noteq> None then FLAG_HAS_PACKAGE_META else 0)
     OR (if arg_deps a \<noteq> [] then FLAG_HAS_DEPHASH else 0)"

definition write_header :: "serialize_args \<Rightarrow> bytes" where
  "write_header a =
     MAGIC @ le_bytes 2 FORMAT_VERSION @ le_bytes 2 (header_flags a)
     @ le_bytes 8 (arg_source_hash a) @ le_bytes 4 (arg_builtins a) @ arg_compiler_id a
     @ (case arg_package a of Some m \<Rightarrow> write_package m | None \<Rightarrow> [])
     @ (if arg_deps a \<noteq> [] then write_list write_dep (arg_deps a) else [])"

definition serialize :: "nat \<Rightarrow> heap \<Rightarrow> intern_table \<Rightarrow> serialize_args \<Rightarrow> bytes option" where
  "serialize fuel h t a =
     (case those (map (write_function (write_constant fuel h t) (arg_debug a)) (arg_registry a)) of
        None \<Rightarrow> None
      | Some fs \<Rightarrow> Some (write_header a
          @ le_bytes 4 (of_nat (length (arg_modules a)) :: u32)
          @ le_bytes 4 (of_nat (length (arg_registry a)) :: u32)
          @ write_list write_str (arg_imports a)
          @ concat (map write_module (arg_modules a))
          @ concat fs))"

section \<open>Readers\<close>

record etac_in =
  inb :: bytes
  in_heap :: heap
  in_intern :: intern_table

type_synonym 'a rd = "etac_in \<Rightarrow> (serializer_error + 'a) \<times> etac_in"

definition rd_return :: "'a \<Rightarrow> 'a rd" where
  "rd_return x s = (Inr x, s)"

definition rd_fail :: "serializer_error \<Rightarrow> 'a rd" where
  "rd_fail e s = (Inl e, s)"

definition rd_bind :: "'a rd \<Rightarrow> ('a \<Rightarrow> 'b rd) \<Rightarrow> 'b rd" where
  "rd_bind m f s = (case m s of (Inl e, s') \<Rightarrow> (Inl e, s') | (Inr x, s') \<Rightarrow> f x s')"

fun rd_times :: "nat \<Rightarrow> 'a rd \<Rightarrow> 'a list rd" where
  "rd_times 0 m = rd_return []"
| "rd_times (Suc n) m = rd_bind m (\<lambda>x. rd_bind (rd_times n m) (\<lambda>xs. rd_return (x # xs)))"

definition read_bytes :: "nat \<Rightarrow> bytes rd" where
  "read_bytes n s = (if n \<le> length (inb s) then (Inr (take n (inb s)), s\<lparr> inb := drop n (inb s) \<rparr>)
                     else (Inl Truncated, s\<lparr> inb := [] \<rparr>))"

definition read_u8 :: "u8 rd" where "read_u8 = rd_bind (read_bytes 1) (\<lambda>bs. rd_return (le_word bs))"
definition read_u16 :: "u16 rd" where "read_u16 = rd_bind (read_bytes 2) (\<lambda>bs. rd_return (le_word bs))"
definition read_u32 :: "u32 rd" where "read_u32 = rd_bind (read_bytes 4) (\<lambda>bs. rd_return (le_word bs))"
definition read_u64 :: "u64 rd" where "read_u64 = rd_bind (read_bytes 8) (\<lambda>bs. rd_return (le_word bs))"

definition char_of_byte :: "u8 \<Rightarrow> char" where
  "char_of_byte b = char_of (unat b)"

definition read_str :: "string rd" where
  "read_str = rd_bind read_u32 (\<lambda>len. if len > MAX_STRING_LEN then rd_fail Truncated
     else rd_bind (read_bytes (unat len)) (\<lambda>bs. rd_return (map char_of_byte bs)))"

definition read_list :: "'a rd \<Rightarrow> 'a list rd" where
  "read_list m = rd_bind read_u32 (\<lambda>n. rd_times (unat n) m)"

text \<open>
  The allocations of the reader: the collection callback, whether \<^verbatim>\<open>new\<close> succeeds, and the size
  of a vector object. A cons goes to the pool, and to the general heap when the pool fails.
\<close>

record alloc_env =
  env_gc :: "(heap \<Rightarrow> heap) option"
  env_mem :: bool
  env_vec_size :: nat

definition make_cons :: "alloc_env \<Rightarrow> lispval \<Rightarrow> lispval \<Rightarrow> heap \<Rightarrow> (heap_error + object_id) \<times> heap" where
  "make_cons env car cdr h =
     (case alloc_cons (env_gc env) car cdr h of
        (Inr i, h') \<Rightarrow> (Inr i, h')
      | (Inl _, h') \<Rightarrow> allocate (env_gc env) (env_mem env) CONS_SIZE (Cons_obj car cdr) h')"

definition make_vector :: "alloc_env \<Rightarrow> lispval list \<Rightarrow> heap \<Rightarrow> (heap_error + object_id) \<times> heap" where
  "make_vector env elems = allocate (env_gc env) (env_mem env) (env_vec_size env) (Vector_obj elems)"

definition rd_alloc :: "(heap \<Rightarrow> (heap_error + object_id) \<times> heap) \<Rightarrow> lispval rd" where
  "rd_alloc f s = (case f (in_heap s) of
       (Inr i, h') \<Rightarrow> (Inr (box HeapObject_tag i), s\<lparr> in_heap := h' \<rparr>)
     | (Inl _, h') \<Rightarrow> (Inl CorruptConstant, s\<lparr> in_heap := h' \<rparr>))"

definition rd_intern :: "tag \<Rightarrow> string \<Rightarrow> lispval rd" where
  "rd_intern tg str s = (case intern str (in_intern s) of
       (Inr i, t') \<Rightarrow> (Inr (box tg i), s\<lparr> in_intern := t' \<rparr>)
     | (Inl _, t') \<Rightarrow> (Inl CorruptConstant, s\<lparr> in_intern := t' \<rparr>))"

definition rd_enc :: "(nanbox_error + lispval) \<Rightarrow> lispval rd" where
  "rd_enc r = (case r of Inl _ \<Rightarrow> rd_fail CorruptConstant | Inr v \<Rightarrow> rd_return v)"

definition rd_push_root :: "lispval \<Rightarrow> unit rd" where
  "rd_push_root v s = (Inr (), s\<lparr> in_heap := push_root v (in_heap s) \<rparr>)"

text \<open>The frame is closed when the scope is left, on the error returns too.\<close>

definition with_root_frame :: "'a rd \<Rightarrow> 'a rd" where
  "with_root_frame m s =
     (let k = make_root_frame (in_heap s) in
      case m s of (r, s') \<Rightarrow> (r, s'\<lparr> in_heap := close_root_frame k (in_heap s') \<rparr>))"

text \<open>Every byte of the constant is read once: fuel above the length of the input never runs out.\<close>

fun read_constant :: "alloc_env \<Rightarrow> nat \<Rightarrow> lispval rd" where
  "read_constant env 0 = rd_fail Truncated"
| "read_constant env (Suc n) = rd_bind read_u8 (\<lambda>tg.
     if tg = 0 then rd_return Nil_val
     else if tg = 1 then rd_return True_val
     else if tg = 12 then rd_return False_val
     else if tg = 2 then rd_bind read_u64 (\<lambda>x. rd_enc (encode_i64 x))
     else if tg = 3 then rd_bind read_u64 (\<lambda>x. rd_enc (encode_double x))
     else if tg = 4 then rd_bind read_u32 (\<lambda>x. rd_enc (encode_char32 x))
     else if tg = 5 then rd_bind read_str (rd_intern String_tag)
     else if tg = 6 then rd_bind read_str (rd_intern Symbol_tag)
     else if tg = 7 then rd_bind read_u32 (\<lambda>i. rd_return (encode_func_index i))
     else if tg = 8 then with_root_frame (
       rd_bind (read_constant env n) (\<lambda>car. rd_bind (rd_push_root car) (\<lambda>_.
       rd_bind (read_constant env n) (\<lambda>cdr. rd_bind (rd_push_root cdr) (\<lambda>_.
       rd_alloc (make_cons env car cdr))))))
     else if tg = 9 then rd_bind read_u32 (\<lambda>len.
       if len > MAX_VEC_LEN then rd_fail CorruptConstant
       else with_root_frame (
         rd_bind (rd_times (unat len) (rd_bind (read_constant env n) (\<lambda>e. rd_bind (rd_push_root e) (\<lambda>_. rd_return e))))
           (\<lambda>elems. rd_alloc (make_vector env elems))))
     else if tg = 11 then rd_return Nil_val
     else if tg = 10 then read_u64
     else rd_fail CorruptConstant)"

section \<open>Reading a file\<close>

definition read_dep :: "dependency_hash rd" where
  "read_dep = rd_bind read_str (\<lambda>d. rd_bind read_u64 (\<lambda>h. rd_return \<lparr> dependency = d, etac_hash = h \<rparr>))"

definition read_package :: "package_metadata rd" where
  "read_package = rd_bind read_str (\<lambda>n. rd_bind read_str (\<lambda>v. rd_bind read_u64 (\<lambda>h.
     rd_return \<lparr> package_name = n, package_version = v, manifest_hash = h \<rparr>)))"

definition read_import_binding :: "import_binding rd" where
  "read_import_binding = rd_bind read_u32 (\<lambda>l. rd_bind read_str (\<lambda>m. rd_bind read_str (\<lambda>r.
     rd_return \<lparr> local_slot = l, from_module = m, remote_name = r \<rparr>)))"

definition read_export_binding :: "export_binding rd" where
  "read_export_binding = rd_bind read_str (\<lambda>n. rd_bind read_u32 (\<lambda>sl.
     rd_return \<lparr> export_name = n, export_slot = sl \<rparr>))"

definition read_module :: "u16 \<Rightarrow> module_entry rd" where
  "read_module version =
     rd_bind read_str (\<lambda>name. rd_bind read_u32 (\<lambda>init. rd_bind read_u32 (\<lambda>globals.
     rd_bind read_u8 (\<lambda>has_main. rd_bind read_u32 (\<lambda>main_slot.
     let m = \<lparr> mod_name = name, init_func_index = init, total_globals = globals,
               main_func_slot = (if has_main \<noteq> 0 then Some main_slot else None),
               first_func_index = 0, func_count = 0, owned_global_slots = [],
               import_bindings = [], export_bindings = [] \<rparr> in
     if version \<ge> FORMAT_VERSION then
       rd_bind read_u32 (\<lambda>first. rd_bind read_u32 (\<lambda>count.
       rd_bind (read_list read_u32) (\<lambda>owned. rd_bind (read_list read_import_binding) (\<lambda>is.
       rd_bind (read_list read_export_binding) (\<lambda>es.
         rd_return (m\<lparr> first_func_index := first, func_count := count, owned_global_slots := owned,
                       import_bindings := is, export_bindings := es \<rparr>))))))
     else rd_return m)))))"

text \<open>The function ranges of older files are inferred from the init functions.\<close>

fun infer_ranges :: "u32 \<Rightarrow> module_entry list \<Rightarrow> module_entry list" where
  "infer_ranges start [] = []"
| "infer_ranges start (m # ms) =
     m\<lparr> first_func_index := start,
        func_count := (if init_func_index m \<ge> start then (init_func_index m - start) + 1 else 0) \<rparr>
     # infer_ranges (init_func_index m + 1) ms"

definition read_instruction :: "instruction rd" where
  "read_instruction = rd_bind read_u8 (\<lambda>op. rd_bind read_u32 (\<lambda>a.
     rd_return \<lparr> opcode = op_of_code op, arg = a \<rparr>))"

definition read_span :: "span rd" where
  "read_span = rd_bind read_u32 (\<lambda>fid. rd_bind read_u32 (\<lambda>sl. rd_bind read_u32 (\<lambda>sc.
     rd_bind read_u32 (\<lambda>el. rd_bind read_u32 (\<lambda>ec.
     rd_return \<lparr> file_id = fid, span_start = \<lparr> offset = 0, line = sl, column = sc \<rparr>,
                 span_end = \<lparr> offset = 0, line = el, column = ec \<rparr> \<rparr>)))))"

definition read_function :: "lispval rd \<Rightarrow> bool \<Rightarrow> bytecode_function rd" where
  "read_function rdc debug =
     rd_bind read_str (\<lambda>name. rd_bind read_u32 (\<lambda>arity. rd_bind read_u8 (\<lambda>rest.
     rd_bind read_u32 (\<lambda>stack.
     rd_bind (read_list rdc) (\<lambda>pool.
     rd_bind (read_list read_instruction) (\<lambda>code.
     rd_bind (if debug then rd_times (length code) read_span else rd_return []) (\<lambda>spans.
     rd_bind (read_list read_str) (\<lambda>locals.
     rd_bind (read_list read_str) (\<lambda>upvals.
       rd_return \<lparr> fn_code = code, source_map = spans, constants = pool, fn_arity = arity,
         has_rest = (rest \<noteq> 0), stack_size = stack, fn_name = name,
         local_names = locals, upval_names = upvals \<rparr>)))))))))"

definition read_magic :: "unit rd" where
  "read_magic s = (case read_bytes 4 s of
      (Inl _, s') \<Rightarrow> (Inl BadMagic, s')
    | (Inr m, s') \<Rightarrow> if m \<noteq> MAGIC then (Inl BadMagic, s') else (Inr (), s'))"

definition version_known :: "u16 \<Rightarrow> bool" where
  "version_known v \<longleftrightarrow> v = FORMAT_VERSION_V3 \<or> v = FORMAT_VERSION_V4 \<or> v = FORMAT_VERSION"

definition read_deps :: "dependency_hash list rd" where
  "read_deps = rd_bind read_u32 (\<lambda>n.
     if n > MAX_DEP_HASH_ENTRIES then rd_fail CorruptConstant else rd_times (unat n) read_dep)"

text \<open>The part of the header that version 4 added.\<close>

definition read_extended :: "etac_file \<Rightarrow> etac_file rd" where
  "read_extended file =
     (if format_version file \<ge> FORMAT_VERSION_V4 then
        rd_bind (read_bytes 16) (\<lambda>cid.
        rd_bind (if file_flags file AND FLAG_HAS_PACKAGE_META \<noteq> 0
                 then rd_bind read_package (\<lambda>m. rd_return (Some m)) else rd_return None) (\<lambda>meta.
        rd_bind (if file_flags file AND FLAG_HAS_DEPHASH \<noteq> 0 then read_deps else rd_return []) (\<lambda>deps.
        rd_return (file\<lparr> compiler_id := cid, has_compiler_id := True, package_meta := meta,
                         dependency_hashes := deps \<rparr>))))
      else rd_return file)"

definition read_header :: "u32 \<Rightarrow> etac_file rd" where
  "read_header expected =
     rd_bind read_magic (\<lambda>_.
     rd_bind read_u16 (\<lambda>version.
     if \<not> version_known version then rd_fail VersionMismatch
     else rd_bind read_u16 (\<lambda>fl. rd_bind read_u64 (\<lambda>hash. rd_bind read_u32 (\<lambda>builtins.
       if expected \<noteq> 0 \<and> builtins \<noteq> expected then rd_fail BuiltinCountMismatch
       else read_extended (empty_file\<lparr> format_version := version, file_flags := fl,
              source_hash := hash, builtin_count := builtins \<rparr>))))))"

definition read_body :: "alloc_env \<Rightarrow> nat \<Rightarrow> etac_file \<Rightarrow> etac_file rd" where
  "read_body env fuel file =
     rd_bind read_u32 (\<lambda>nmods. rd_bind read_u32 (\<lambda>nfuncs.
     rd_bind (read_list read_str) (\<lambda>imps.
     rd_bind (rd_times (unat nmods) (read_module (format_version file))) (\<lambda>mods.
     rd_bind (rd_times (unat nfuncs)
                (read_function (read_constant env fuel) (file_flags file AND FLAG_HAS_DEBUG \<noteq> 0))) (\<lambda>funcs.
     rd_return (file\<lparr> file_imports := imps,
        modules := (if format_version file < FORMAT_VERSION then infer_ranges 0 mods else mods),
        file_functions := funcs \<rparr>))))))"

definition deserialize :: "alloc_env \<Rightarrow> u32 \<Rightarrow> etac_file rd" where
  "deserialize env expected s =
     rd_bind (read_header expected) (\<lambda>file.
     rd_bind (read_body env (Suc (length (inb s))) file) (\<lambda>file.
     if list_all verify_function (file_functions file) then rd_return file else rd_fail InvalidBytecode)) s"

section \<open>Freshness\<close>

datatype freshness_status = Fresh | UnsupportedFormat | MissingCompilerId | CompilerIdMismatch
  | Builtin_count_mismatch | SourceHashMismatch | ManifestHashMismatch | DependencyHashMismatch

record freshness_context =
  expected_compiler_id :: "bytes option"
  expected_builtin_count :: "u32 option"
  expected_source_hash :: "u64 option"
  expected_manifest_hash :: "u64 option"
  expected_dependency_hashes :: "dependency_hash list"

record freshness_result =
  status :: freshness_status
  detail :: string

fun decimal :: "nat \<Rightarrow> string" where
  "decimal n = (if n < 10 then [char_of (48 + n)] else decimal (n div 10) @ [char_of (48 + n mod 10)])"

declare decimal.simps [simp del]

fun check_deps :: "dependency_hash list \<Rightarrow> dependency_hash list \<Rightarrow> freshness_result option" where
  "check_deps actuals [] = None"
| "check_deps actuals (e # es) =
     (case List.find (\<lambda>a. dependency a = dependency e) actuals of
        None \<Rightarrow> Some \<lparr> status = DependencyHashMismatch,
                       detail = ''missing dependency hash for '' @ [CHR 0x27] @ dependency e @ [CHR 0x27] \<rparr>
      | Some a \<Rightarrow> if etac_hash a \<noteq> etac_hash e
          then Some \<lparr> status = DependencyHashMismatch,
                      detail = ''dependency hash mismatch for '' @ [CHR 0x27] @ dependency e @ [CHR 0x27] \<rparr>
          else check_deps actuals es)"

definition check_freshness :: "etac_file \<Rightarrow> freshness_context \<Rightarrow> freshness_result" where
  "check_freshness f c =
     (if \<not> version_known (format_version f)
      then \<lparr> status = UnsupportedFormat, detail = ''format version '' @ decimal (unat (format_version f)) \<rparr>
      else if expected_compiler_id c \<noteq> None \<and> \<not> has_compiler_id f
      then \<lparr> status = MissingCompilerId, detail = ''legacy artifact has no compiler fingerprint'' \<rparr>
      else if expected_compiler_id c \<noteq> None \<and> compiler_id f \<noteq> the (expected_compiler_id c)
      then \<lparr> status = CompilerIdMismatch, detail = ''artifact compiler fingerprint does not match runtime'' \<rparr>
      else if expected_builtin_count c \<noteq> None \<and> builtin_count f \<noteq> the (expected_builtin_count c)
      then \<lparr> status = Builtin_count_mismatch,
             detail = ''artifact builtins='' @ decimal (unat (builtin_count f))
                @ '', runtime builtins='' @ decimal (unat (the (expected_builtin_count c))) \<rparr>
      else if expected_source_hash c \<noteq> None \<and> source_hash f \<noteq> the (expected_source_hash c)
      then \<lparr> status = SourceHashMismatch, detail = ''artifact source hash mismatch'' \<rparr>
      else if expected_manifest_hash c \<noteq> None \<and> package_meta f = None
      then \<lparr> status = ManifestHashMismatch, detail = ''artifact has no package metadata'' \<rparr>
      else if expected_manifest_hash c \<noteq> None
        \<and> manifest_hash (the (package_meta f)) \<noteq> the (expected_manifest_hash c)
      then \<lparr> status = ManifestHashMismatch, detail = ''artifact manifest hash mismatch'' \<rparr>
      else (case check_deps (dependency_hashes f) (expected_dependency_hashes c) of
              Some r \<Rightarrow> r
            | None \<Rightarrow> \<lparr> status = Fresh, detail = [] \<rparr>))"

definition fresh :: "freshness_result \<Rightarrow> bool" where
  "fresh r \<longleftrightarrow> status r = Fresh"

section \<open>Readers undo writers\<close>

locale codec =
  fixes wr :: "'a \<Rightarrow> bytes" and rd :: "'a rd" and ok :: "'a \<Rightarrow> bool"
  assumes law: "ok x \<Longrightarrow> rd (s\<lparr> inb := wr x @ rest \<rparr>) = (Inr x, s\<lparr> inb := rest \<rparr>)"
begin

lemma times_law:
  "list_all ok xs \<Longrightarrow> rd_times (length xs) rd (s\<lparr> inb := concat (map wr xs) @ rest \<rparr>) = (Inr xs, s\<lparr> inb := rest \<rparr>)"
  by (induction xs) (simp_all add: rd_return_def rd_bind_def law)

end

lemma read_bytes_append [codec]:
  "n = length bs \<Longrightarrow> read_bytes n (s\<lparr> inb := bs @ rest \<rparr>) = (Inr bs, s\<lparr> inb := rest \<rparr>)"
  by (simp add: read_bytes_def)

lemma read_u8_law [codec]: "read_u8 (s\<lparr> inb := b # rest \<rparr>) = (Inr b, s\<lparr> inb := rest \<rparr>)"
  by (simp add: read_u8_def rd_bind_def rd_return_def read_bytes_def)

lemma read_word_laws [codec]:
  "read_u16 (s\<lparr> inb := le_bytes 2 h @ rest \<rparr>) = (Inr h, s\<lparr> inb := rest \<rparr>)"
  "read_u32 (s\<lparr> inb := le_bytes 4 w @ rest \<rparr>) = (Inr w, s\<lparr> inb := rest \<rparr>)"
  "read_u64 (s\<lparr> inb := le_bytes 8 d @ rest \<rparr>) = (Inr d, s\<lparr> inb := rest \<rparr>)"
  using read_bytes_append [of 2 "le_bytes 2 h"] read_bytes_append [of 4 "le_bytes 4 w"] read_bytes_append [of 8 "le_bytes 8 d"]
  by (simp_all add: read_u16_def read_u32_def read_u64_def rd_bind_def rd_return_def
      le_word_le_bytes_16 le_word_le_bytes_32 le_word_le_bytes_64)

lemma char_of_byte_of_char [simp]: "char_of_byte (of_char c) = c"
proof -
  have "(of_char c :: nat) < 256" by (rule nat_of_char_less_256)
  then have "unat (of_nat (of_char c :: nat) :: u8) = (of_char c :: nat)"
    by (simp add: unsigned_of_nat take_bit_nat_eq_self)
  then show ?thesis by (simp add: char_of_byte_def of_nat_of_char)
qed

definition str_ok :: "string \<Rightarrow> bool" where
  "str_ok s \<longleftrightarrow> length s \<le> 65536"

lemma read_str_law [codec]:
  assumes "str_ok x"
  shows "read_str (s\<lparr> inb := write_str x @ rest \<rparr>) = (Inr x, s\<lparr> inb := rest \<rparr>)"
proof -
  have n: "unat (of_nat (length x) :: u32) = length x" "\<not> (of_nat (length x) :: u32) > MAX_STRING_LEN"
    using assms by (simp_all add: str_ok_def MAX_STRING_LEN_def word_less_nat_alt unsigned_of_nat take_bit_nat_eq_self)
  have "map char_of_byte (map of_char x) = x" by (simp add: o_def)
  then show ?thesis
    using read_bytes_append [of "length x" "map of_char x"] n
    by (simp add: read_str_def write_str_def rd_bind_def rd_return_def codec)
qed

context codec
begin

definition list_ok :: "'a list \<Rightarrow> bool" where
  "list_ok xs \<longleftrightarrow> length xs < 2 ^ 32 \<and> list_all ok xs"

lemma list_law:
  assumes "list_ok xs"
  shows "read_list rd (s\<lparr> inb := write_list wr xs @ rest \<rparr>) = (Inr xs, s\<lparr> inb := rest \<rparr>)"
proof -
  have "unat (of_nat (length xs) :: u32) = length xs"
    using assms by (simp add: list_ok_def unsigned_of_nat take_bit_nat_eq_self)
  then show ?thesis
    using assms times_law [of xs] by (simp add: list_ok_def read_list_def write_list_def rd_bind_def codec)
qed

end

interpretation u32c: codec "le_bytes 4" read_u32 "\<lambda>_. True"
  by unfold_locales (simp add: codec)

interpretation strc: codec write_str read_str str_ok
  by unfold_locales (simp add: codec)

definition dep_ok :: "dependency_hash \<Rightarrow> bool" where
  "dep_ok d \<longleftrightarrow> str_ok (dependency d)"

interpretation depc: codec write_dep read_dep dep_ok
  by unfold_locales (simp add: dep_ok_def write_dep_def read_dep_def rd_bind_def rd_return_def codec)

definition package_ok :: "package_metadata \<Rightarrow> bool" where
  "package_ok m \<longleftrightarrow> str_ok (package_name m) \<and> str_ok (package_version m)"

interpretation packagec: codec write_package read_package package_ok
  by unfold_locales (simp add: package_ok_def write_package_def read_package_def rd_bind_def rd_return_def codec)

definition import_ok :: "import_binding \<Rightarrow> bool" where
  "import_ok i \<longleftrightarrow> str_ok (from_module i) \<and> str_ok (remote_name i)"

interpretation importc: codec write_import_binding read_import_binding import_ok
  by unfold_locales (simp add: import_ok_def write_import_binding_def read_import_binding_def rd_bind_def rd_return_def codec)

definition export_ok :: "export_binding \<Rightarrow> bool" where
  "export_ok e \<longleftrightarrow> str_ok (export_name e)"

interpretation exportc: codec write_export_binding read_export_binding export_ok
  by unfold_locales (simp add: export_ok_def write_export_binding_def read_export_binding_def rd_bind_def rd_return_def codec)

definition module_ok :: "module_entry \<Rightarrow> bool" where
  "module_ok m \<longleftrightarrow> str_ok (mod_name m) \<and> u32c.list_ok (owned_global_slots m)
     \<and> importc.list_ok (import_bindings m) \<and> exportc.list_ok (export_bindings m)"

interpretation modulec: codec write_module "read_module FORMAT_VERSION" module_ok
  by unfold_locales
    (auto simp: module_ok_def write_module_def read_module_def rd_bind_def rd_return_def codec Let_def
      u32c.list_law importc.list_law exportc.list_law split: option.splits)

definition instruction_wf :: "instruction \<Rightarrow> bool" where
  "instruction_wf i \<longleftrightarrow> opcode i \<in> set named_ops"

interpretation instructionc: codec write_instruction read_instruction instruction_wf
  by unfold_locales (simp add: instruction_wf_def write_instruction_def read_instruction_def rd_bind_def
      rd_return_def codec op_of_code_named)

text \<open>Offsets are not stored: a span comes back with both offsets zero.\<close>

definition span_wf :: "span \<Rightarrow> bool" where
  "span_wf s \<longleftrightarrow> offset (span_start s) = 0 \<and> offset (span_end s) = 0"

interpretation spanc: codec write_span read_span span_wf
  by unfold_locales (simp add: span_wf_def write_span_def read_span_def rd_bind_def rd_return_def codec)

section \<open>Constants as data\<close>

text \<open>
  What a constant means apart from the heap and the intern table it lives in, its bytes, and
  when a value in a heap and an intern table denotes it.
\<close>

datatype datum = DNil | DTrue | DFalse | DFix i64 | DDouble u64 | DChar u32 | DString string
  | DSymbol string | DFunc u32 | DCons datum datum | DVector "datum list"

fun datum_bytes :: "datum \<Rightarrow> bytes" where
  "datum_bytes DNil = [0]"
| "datum_bytes DTrue = [1]"
| "datum_bytes DFalse = [12]"
| "datum_bytes (DFix x) = 2 # le_bytes 8 x"
| "datum_bytes (DDouble x) = 3 # le_bytes 8 x"
| "datum_bytes (DChar c) = 4 # le_bytes 4 c"
| "datum_bytes (DString s) = 5 # write_str s"
| "datum_bytes (DSymbol s) = 6 # write_str s"
| "datum_bytes (DFunc i) = 7 # le_bytes 4 i"
| "datum_bytes (DCons a d) = 8 # datum_bytes a @ datum_bytes d"
| "datum_bytes (DVector ts) = 9 # le_bytes 4 (of_nat (length ts) :: u32) @ concat (map datum_bytes ts)"

text \<open>The limits of the format; NaNs are written as one pattern, and -0.0 as a function index.\<close>

fun datum_ok :: "datum \<Rightarrow> bool" where
  "datum_ok (DString s) = str_ok s"
| "datum_ok (DSymbol s) = str_ok s"
| "datum_ok (DFix x) = is_ok (encode_i64 x)"
| "datum_ok (DChar c) = is_ok (encode_char32 c)"
| "datum_ok (DDouble x) = (\<not> is_func_index x \<and> (is_nan_bits x \<longrightarrow> x = quiet_NaN))"
| "datum_ok (DCons a d) = (datum_ok a \<and> datum_ok d)"
| "datum_ok (DVector ts) = (length ts \<le> 65535 \<and> list_all datum_ok ts)"
| "datum_ok _ = True"

function (sequential) denotes :: "(object_id \<Rightarrow> heap_obj option) \<Rightarrow> (u64 \<Rightarrow> string option) \<Rightarrow> lispval \<Rightarrow> datum \<Rightarrow> bool" where
  "denotes ob st v DNil \<longleftrightarrow> v = Nil_val"
| "denotes ob st v DTrue \<longleftrightarrow> v = True_val"
| "denotes ob st v DFalse \<longleftrightarrow> v = False_val"
| "denotes ob st v (DFix x) \<longleftrightarrow> encode_i64 x = Inr v"
| "denotes ob st v (DDouble x) \<longleftrightarrow> encode_double x = Inr v"
| "denotes ob st v (DChar c) \<longleftrightarrow> encode_char32 c = Inr v"
| "denotes ob st v (DString s) \<longleftrightarrow> v = box String_tag (payload v) \<and> st (payload v) = Some s"
| "denotes ob st v (DSymbol s) \<longleftrightarrow> v = box Symbol_tag (payload v) \<and> st (payload v) = Some s"
| "denotes ob st v (DFunc i) \<longleftrightarrow> v = encode_func_index i"
| "denotes ob st v (DCons ta td) \<longleftrightarrow> v = box HeapObject_tag (payload v) \<and>
     (case ob (payload v) of Some (Cons_obj a d) \<Rightarrow> denotes ob st a ta \<and> denotes ob st d td | _ \<Rightarrow> False)"
| "denotes ob st v (DVector ts) \<longleftrightarrow> v = box HeapObject_tag (payload v) \<and>
     (case ob (payload v) of Some (Vector_obj es) \<Rightarrow>
        length es = length ts \<and> (\<forall>i < length ts. denotes ob st (es ! i) (ts ! i)) | _ \<Rightarrow> False)"
  by pat_completeness auto

termination
  by (relation "measure (\<lambda>(_, _, _, t). size t)")
    (auto simp: less_Suc_eq_le intro: size_list_estimation' [OF nth_mem order_refl])

fun datum_depth :: "datum \<Rightarrow> nat" where
  "datum_depth (DCons a d) = Suc (max (datum_depth a) (datum_depth d))"
| "datum_depth (DVector ts) = Suc (fold max (map datum_depth ts) 0)"
| "datum_depth _ = 0"

fun datum_objects :: "datum \<Rightarrow> nat" where
  "datum_objects (DCons a d) = Suc (datum_objects a + datum_objects d)"
| "datum_objects (DVector ts) = Suc (sum_list (map datum_objects ts))"
| "datum_objects _ = 0"

fun datum_strings :: "datum \<Rightarrow> nat" where
  "datum_strings (DCons a d) = datum_strings a + datum_strings d"
| "datum_strings (DVector ts) = sum_list (map datum_strings ts)"
| "datum_strings (DString s) = 1"
| "datum_strings (DSymbol s) = 1"
| "datum_strings _ = 0"

lemma denotes_mono:
  assumes "\<And>i x. ob i = Some x \<Longrightarrow> ob' i = Some x" "\<And>i x. st i = Some x \<Longrightarrow> st' i = Some x"
  shows "denotes ob st v t \<Longrightarrow> denotes ob' st' v t"
proof (induction t arbitrary: v)
  case (DCons t1 t2)
  then show ?case using assms(1) [of "payload v"] by (auto split: option.splits heap_obj.splits)
next
  case (DVector ts)
  then show ?case using assms(1) [of "payload v"] nth_mem by (force split: option.splits heap_obj.splits)
qed (use assms in auto)

lemma fold_max_le: "x \<in> set xs \<Longrightarrow> (x :: nat) \<le> fold max xs m"
proof -
  have "m \<le> fold max xs m" for xs and m :: nat
    by (induction xs arbitrary: m) (auto intro: order_trans [OF max.cobounded2])
  then show "x \<in> set xs \<Longrightarrow> x \<le> fold max xs m"
    by (induction xs arbitrary: m) (auto intro: order_trans [OF max.cobounded1])
qed

text \<open>Every slot of the pool keeps the kind it was constructed with.\<close>

definition pool_kinds :: "cons_pool \<Rightarrow> bool" where
  "pool_kinds p \<longleftrightarrow> (\<forall>r. kind (slot_header (slot_mem p r)) = Cons_kind)"

definition typed_heap :: "heap \<Rightarrow> bool" where
  "typed_heap h \<longleftrightarrow> heap_wf h \<and> pool_kinds (pool h)"

lemma try_get_as_objects:
  assumes "typed_heap h"
  shows "try_get_as k h i = (case objects h i of Some x \<Rightarrow> if kind_of x = k then Some x else None | None \<Rightarrow> None)"
proof (cases "heap_try_get h i")
  case None
  then show ?thesis by (simp add: try_get_as_def objects_def)
next
  case (Some e)
  have "entry_ok e"
  proof (cases "owns (pool h) i")
    case True
    then obtain r where r: "live_slot (pool h) i = Some r" "e = \<lparr>entry_header = slot_header (slot_mem (pool h) r),
               entry_ptr = Some (case slot_cell (slot_mem (pool h) r) of (a, d) \<Rightarrow> Cons_obj a d), entry_size = CONS_SIZE\<rparr>"
      using Some by (auto simp: heap_try_get_pool pool_try_get_entry_def Let_def split: option.splits)
    then have "kind (slot_header (slot_mem (pool h) r)) = Cons_kind"
      using assms by (simp add: typed_heap_def pool_kinds_def)
    then show ?thesis using r by (simp add: entry_ok_iff split: prod.splits)
  next
    case False
    then show ?thesis using Some assms general_entry_ok [of h i e]
      by (auto simp: heap_try_get_pool typed_heap_def heap_wf_def)
  qed
  then obtain x where "entry_ptr e = Some x" "kind (entry_header e) = kind_of x" by (auto simp: entry_ok_iff)
  with Some show ?thesis by (auto simp: try_get_as_def objects_def)
qed

lemma those_Some: "(\<And>i. i < length xs \<Longrightarrow> f (xs ! i) = Some (ys ! i)) \<Longrightarrow> length xs = length ys
     \<Longrightarrow> those (map f xs) = Some ys"
  by (induction xs ys rule: list_induct2') (force simp: nth_Cons split: nat.splits)+

lemma encode_double_class:
  "encode_double x = Inr v \<Longrightarrow> \<not> is_func_index x \<Longrightarrow> is_nan_bits x \<longrightarrow> x = quiet_NaN \<Longrightarrow>
     (v = box Nan_tag 0 \<and> x = quiet_NaN) \<or> (v = x \<and> \<not> is_boxed v \<and> \<not> is_func_index v)"
  using is_boxed_imp_is_nan [of x] by (auto simp: encode_double_def split: if_splits)

lemma special_vals:
  "Nil_val = box Nil_tag 0" "True_val = box Nil_tag 1" "False_val = box Nil_tag 2"
  by (simp_all add: Nil_val_def True_val_def False_val_def)

lemma special_distinct [simp]:
  "tg \<noteq> Nil_tag \<Longrightarrow> box tg p \<noteq> Nil_val" "tg \<noteq> Nil_tag \<Longrightarrow> box tg p \<noteq> True_val" "tg \<noteq> Nil_tag \<Longrightarrow> box tg p \<noteq> False_val"
  "\<not> is_boxed v \<Longrightarrow> v \<noteq> Nil_val" "\<not> is_boxed v \<Longrightarrow> v \<noteq> True_val" "\<not> is_boxed v \<Longrightarrow> v \<noteq> False_val"
  by (auto simp: special_vals box_inject)

lemma True_False_distinct [simp]: "True_val \<noteq> Nil_val" "False_val \<noteq> Nil_val" "False_val \<noteq> True_val"
  by (simp_all add: special_vals box_inject PAYLOAD_MASK_def)

lemma fixnum_codes: "encode_i64 x = Inr v \<Longrightarrow> \<exists>p. v = box Fixnum_tag p"
  by (auto simp: encode_i64_def split: if_splits)

lemma char_codes: "encode_char32 c = Inr v \<Longrightarrow> \<exists>p. v = box Char_tag p"
  by (auto simp: encode_char32_def split: if_splits)

lemma boxed_facts:
  assumes "v = box tg p" "tg \<noteq> Nil_tag"
  shows "is_boxed v" "tag v = tg" "v \<noteq> Nil_val" "v \<noteq> True_val" "v \<noteq> False_val"
  using assms by simp_all

lemma write_constant_datum:
  assumes h: "typed_heap h"
  shows "denotes (objects h) (id_to_str it) v d \<Longrightarrow> datum_ok d \<Longrightarrow> datum_depth d < n
    \<Longrightarrow> write_constant n h it v = Some (datum_bytes d)"
proof (induction d arbitrary: v n)
  case (DFix x)
  then obtain m where "n = Suc m" by (cases n) auto
  moreover obtain p where "v = box Fixnum_tag p" using DFix fixnum_codes [of x v] by auto
  note boxed_facts [OF this, simplified]
  ultimately show ?case using DFix decode_encode_i64 [of x v] by simp
next
  case (DDouble x)
  then obtain m where "n = Suc m" by (cases n) auto
  with DDouble encode_double_class [of x v] show ?case by auto
next
  case (DChar c)
  then obtain m where "n = Suc m" by (cases n) auto
  moreover obtain p where "v = box Char_tag p" using DChar char_codes [of c v] by auto
  note boxed_facts [OF this, simplified]
  ultimately show ?case using DChar decode_encode_char32 [of c v] by simp
next
  case (DString s)
  then obtain m where n: "n = Suc m" by (cases n) auto
  have "v = box String_tag (payload v)" using DString.prems(1) by simp
  note boxed_facts [OF this, simplified]
  with DString.prems(1) show ?case by (simp add: n get_string_def)
next
  case (DSymbol s)
  then obtain m where n: "n = Suc m" by (cases n) auto
  have "v = box Symbol_tag (payload v)" using DSymbol.prems(1) by simp
  note boxed_facts [OF this, simplified]
  with DSymbol.prems(1) show ?case by (simp add: n get_string_def)
next
  case (DFunc i)
  then obtain m where "n = Suc m" by (cases n) auto
  with DFunc func_index_not_boxed [of v] show ?case by simp
next
  case (DCons d1 d2)
  then obtain m where n: "n = Suc m" by (cases n) auto
  obtain a b where v: "v = box HeapObject_tag (payload v)" and ob: "objects h (payload v) = Some (Cons_obj a b)"
    and ab: "denotes (objects h) (id_to_str it) a d1" "denotes (objects h) (id_to_str it) b d2"
    using DCons.prems(1) by (auto split: option.splits heap_obj.splits)
  note c = boxed_facts [OF v, simplified]
  have "write_constant m h it a = Some (datum_bytes d1)" "write_constant m h it b = Some (datum_bytes d2)"
    using DCons ab n by auto
  then have "write_heap_value (write_constant m h it) h v = Some (datum_bytes (DCons d1 d2))"
    by (simp add: write_heap_value_def Let_def try_get_as_objects [OF h] ob)
  with c show ?case by (simp add: n)
next
  case (DVector ts)
  then obtain m where n: "n = Suc m" by (cases n) auto
  obtain es where v: "v = box HeapObject_tag (payload v)" and ob: "objects h (payload v) = Some (Vector_obj es)"
    and es: "length es = length ts" "\<And>i. i < length ts \<Longrightarrow> denotes (objects h) (id_to_str it) (es ! i) (ts ! i)"
    using DVector.prems(1) by (auto split: option.splits heap_obj.splits)
  note c = boxed_facts [OF v, simplified]
  have "write_constant m h it (es ! i) = Some (datum_bytes (ts ! i))" if "i < length ts" for i
  proof -
    have "datum_depth (ts ! i) \<le> fold max (map datum_depth ts) 0" by (rule fold_max_le) (use that in auto)
    then show ?thesis
      using DVector.IH [OF nth_mem [OF that] es(2) [OF that], of m] DVector.prems(2,3) that n
      by (simp add: list_all_length)
  qed
  then have "those (map (write_constant m h it) es) = Some (map datum_bytes ts)"
    using es(1) by (intro those_Some) auto
  then have "write_heap_value (write_constant m h it) h v = Some (datum_bytes (DVector ts))"
    by (simp add: write_heap_value_def Let_def try_get_as_objects [OF h] ob es(1))
  with c show ?case by (simp add: n)
qed (case_tac n; simp)+

section \<open>Room for the constants\<close>

definition ser_room :: "alloc_env \<Rightarrow> nat \<Rightarrow> heap \<Rightarrow> bool" where
  "ser_room env n h \<longleftrightarrow> typed_heap h \<and> env_mem env \<and> \<not> gc_in_progress h
     \<and> total_heap_bytes h + n * max CONS_SIZE (env_vec_size env) \<le> max_heap_soft_limit h
     \<and> live_count (pool h) + n \<le> total_capacity (pool h)
     \<and> unat (next_id h) + n \<le> unat PAYLOAD_MASK
     \<and> unat (next_id h) + n + growth (pool h) + 1 < 2 ^ 64"

text \<open>
  A store with room for a number of allocations: each succeeds, binds a fresh id and leaves
  room for one less.
\<close>

locale budgeted_store =
  fixes room :: "nat \<Rightarrow> 's \<Rightarrow> bool" and get :: "'s \<Rightarrow> object_id \<Rightarrow> 'o option"
    and fits :: "'o \<Rightarrow> bool" and alloc :: "'o \<Rightarrow> 's \<Rightarrow> (heap_error + object_id) \<times> 's"
  assumes alloc_total: "room (Suc n) s \<Longrightarrow> fits ob \<Longrightarrow>
      \<exists>i s'. alloc ob s = (Inr i, s') \<and> room n s' \<and> i \<le> PAYLOAD_MASK \<and> get s i = None \<and> get s' = (get s)(i \<mapsto> ob)"
begin

lemma alloc_extends:
  assumes "room (Suc n) s" "fits ob"
  obtains i s' where "alloc ob s = (Inr i, s')" "room n s'" "i \<le> PAYLOAD_MASK" "get s' i = Some ob"
    "\<And>j x. get s j = Some x \<Longrightarrow> get s' j = Some x"
  using alloc_total [OF assms] by fastforce

end

lemma pool_has_free:
  assumes "pool_wf p n" "live_count p < total_capacity p"
  shows "free_head p \<noteq> None"
proof
  assume f: "free_head p = None"
  obtain fl where fl: "free_chain (slot_mem p) (free_head p) fl" "set fl = free_slots p"
    using assms(1) by (auto simp: pool_wf_def)
  then have "free_slots p = {}" using f by (cases fl) auto
  then have "live_slots p = {r. valid_ptr p r}" by (auto simp: free_slots_def live_slots_def)
  then have "card (live_slots p) = length (all_ptrs p)"
    by (simp add: set_all_ptrs [symmetric] distinct_card distinct_all_ptrs)
  also have "\<dots> = total_capacity p"
    using assms(1) by (simp add: all_ptrs_def slab_ptrs_def pool_wf_def length_concat o_def sum_list_sum_nth atLeast0LessThan)
  finally show False using assms by (simp add: pool_wf_def)
qed

lemma kind_pop_free: "pool_kinds p \<Longrightarrow> pop_free r a d p = (i, p') \<Longrightarrow> pool_kinds p'"
  by (auto simp: pop_free_def Let_def pool_kinds_def write_slot_def)

lemma make_cons_total:
  assumes "ser_room env (Suc n) h"
  shows "\<exists>i h'. make_cons env a d h = (Inr i, h') \<and> ser_room env n h' \<and> i \<le> PAYLOAD_MASK
     \<and> objects h i = None \<and> objects h' = (objects h)(i \<mapsto> Cons_obj a d)"
proof -
  note R = assms [unfolded ser_room_def]
  have wf: "heap_wf h" and room: "heap_room h" and pw: "pool_wf (pool h) (next_id h)"
    using R by (auto simp: typed_heap_def heap_room_def heap_wf_def)
  have fit: "total_heap_bytes h + CONS_SIZE \<le> max_heap_soft_limit h"
    using R by (simp add: max_def split: if_splits)
  then have sc: "soft_limit_check (env_gc env) CONS_SIZE h = (True, h)" by (simp add: soft_limit_check_def)
  obtain r where r: "free_head (pool h) = Some r" using pool_has_free [OF pw] R by auto
  obtain i p where p: "pop_free r a d (pool h) = (i, p)" by (cases "pop_free r a d (pool h)")
  let ?h = "h\<lparr>pool := p, next_id := next_id h, total_heap_bytes := total_heap_bytes h + CONS_SIZE\<rparr>"
  have al: "alloc_cons (env_gc env) a d h = (Inr i, ?h)"
    using R sc r p by (simp add: alloc_cons_def pool_alloc_def)
  have sc': "soft_limit_check None CONS_SIZE h = (True, h)" using fit by (simp add: soft_limit_check_def)
  have al': "alloc_cons None a d h = (Inr i, ?h)"
    using R sc' r p by (simp add: alloc_cons_def pool_alloc_def)
  note C = alloc_cons_correct [OF wf room gc_ok_None al', simplified sc' sum.case snd_conv]
  have "live_count p = live_count (pool h) + 1" "total_capacity p = total_capacity (pool h)"
    using p by (auto simp: pop_free_def Let_def write_slot_def)
  moreover have "pool_kinds p" using kind_pop_free [OF _ p] R by (simp add: typed_heap_def)
  ultimately have "ser_room env n ?h" using R C by (auto simp: ser_room_def typed_heap_def growth_def max_def split: if_splits)
  moreover have "i \<le> PAYLOAD_MASK"
    using C owns_below [of "pool ?h" "next_id ?h" i] R by (simp add: heap_wf_def pool_wf_def word_le_nat_alt)
  ultimately show ?thesis using al C by (auto simp: make_cons_def)
qed

lemma make_vector_total:
  assumes "ser_room env (Suc n) h"
  shows "\<exists>i h'. make_vector env es h = (Inr i, h') \<and> ser_room env n h' \<and> i \<le> PAYLOAD_MASK
     \<and> objects h i = None \<and> objects h' = (objects h)(i \<mapsto> Vector_obj es)"
proof -
  note R = assms [unfolded ser_room_def]
  have wf: "heap_wf h" and room: "heap_room h" using R by (auto simp: typed_heap_def heap_room_def)
  let ?h = "h\<lparr>next_id := next_id h + 1\<rparr>"
  have fit: "total_heap_bytes h + env_vec_size env \<le> max_heap_soft_limit h"
    using R by (simp add: max_def split: if_splits)
  then have sc: "soft_limit_check gc (env_vec_size env) ?h = (True, ?h)" for gc by (simp add: soft_limit_check_def)
  have le: "next_id h \<le> PAYLOAD_MASK" using R by (simp add: word_le_nat_alt)
  have un: "unat (next_id h + 1) = unat (next_id h) + 1" using room by (simp add: heap_room_def unat_word_ariths)
  have lt: "next_id h < next_id h + 1" by (simp add: word_less_nat_alt un)
  note wf1 = heap_wf_bump [OF wf room] and N = next_id_fresh [OF wf]
  obtain r h' where ins: "insert_object True (env_vec_size env) (Vector_obj es) (next_id h) ?h = (r, h')"
    by (cases "insert_object True (env_vec_size env) (Vector_obj es) (next_id h) ?h")
  have "\<not> owns (pool ?h) (next_id h)" "general_entry ?h (next_id h) = None" "next_id h < next_id ?h"
    using N lt by (simp_all add: heap_frame)
  note I = insert_object_correct [OF wf1 this(1,2) le this(3) ins]
  have frame: "pool h' = pool h \<and> next_id h' = next_id h + 1 \<and> gc_in_progress h' = gc_in_progress h
      \<and> max_heap_soft_limit h' = max_heap_soft_limit h"
    using ins by (auto simp: insert_object_def Let_def split: if_splits)
  obtain i where r: "r = Inr i" using I by (cases r) auto
  have "make_vector env es h = (r, h')"
    using R sc le ins by (simp add: make_vector_def allocate_def Let_def not_less [symmetric])
  moreover have "ser_room env n h'"
    using I R frame r un by (auto simp: ser_room_def typed_heap_def max_def split: if_splits)
  moreover have "objects ?h = objects h"
    by (simp add: fun_eq_iff objects_def heap_try_get_def general_entry_def shard_of_def)
  ultimately show ?thesis using I r le N by auto
qed

definition make_object :: "alloc_env \<Rightarrow> heap_obj \<Rightarrow> heap \<Rightarrow> (heap_error + object_id) \<times> heap" where
  "make_object env ob = (case ob of Cons_obj a d \<Rightarrow> make_cons env a d | Vector_obj es \<Rightarrow> make_vector env es
     | _ \<Rightarrow> (\<lambda>h. (Inl FailedToAllocateMemory, h)))"

definition constant_object :: "heap_obj \<Rightarrow> bool" where
  "constant_object ob = (case ob of Cons_obj _ _ \<Rightarrow> True | Vector_obj _ \<Rightarrow> True | _ \<Rightarrow> False)"

interpretation ser_heap: budgeted_store "ser_room env" objects constant_object "make_object env" for env
proof
  fix n s ob assume "ser_room env (Suc n) s" "constant_object ob"
  then show "\<exists>i s'. make_object env ob s = (Inr i, s') \<and> ser_room env n s' \<and> i \<le> PAYLOAD_MASK
      \<and> objects s i = None \<and> objects s' = (objects s)(i \<mapsto> ob)"
    using make_cons_total make_vector_total
    by (cases ob) (auto simp: make_object_def constant_object_def)
qed

lemma ser_room_mono: "ser_room env n h \<Longrightarrow> m \<le> n \<Longrightarrow> ser_room env m h"
proof -
  assume r: "ser_room env n h" and m: "m \<le> n"
  have "m * max CONS_SIZE (env_vec_size env) \<le> n * max CONS_SIZE (env_vec_size env)" using m by (rule mult_le_mono1)
  with r m show ?thesis unfolding ser_room_def by linarith
qed

lemma root_frame_room [simp]:
  "ser_room env n (push_root v h) = ser_room env n h" "ser_room env n (close_root_frame k h) = ser_room env n h"
  "objects (push_root v h) = objects h" "objects (close_root_frame k h) = objects h"
  using same_store_wf [of h "push_root v h"] same_store_wf [of h "close_root_frame k h"]
    same_store_objects [of h "push_root v h"] same_store_objects [of h "close_root_frame k h"]
  by (simp_all add: ser_room_def typed_heap_def) (simp_all add: push_root_def close_root_frame_def)

section \<open>Room for the strings\<close>

definition intern_budget :: "nat \<Rightarrow> intern_table \<Rightarrow> bool" where
  "intern_budget n t \<longleftrightarrow> intern_wf t \<and> unat (next_intern_id t) + n \<le> unat PAYLOAD_MASK + 1"

lemma intern_total:
  assumes "intern_budget (Suc n) t"
  shows "\<exists>i t'. intern s t = (Inr i, t') \<and> intern_budget n t' \<and> i \<le> PAYLOAD_MASK
     \<and> id_to_str t' i = Some s \<and> (\<forall>j x. id_to_str t j = Some x \<longrightarrow> id_to_str t' j = Some x)"
proof (cases "str_to_id t s")
  case (Some i)
  then show ?thesis using assms by (auto simp: intern_hit intern_budget_def intern_wf_def)
next
  case None
  let ?n = "next_intern_id t"
  have wf: "intern_wf t" and room: "intern_room t"
    using assms by (auto simp: intern_budget_def intern_room_def word_le_nat_alt)
  note M = intern_miss [OF None wf room]
  have "unat (?n + 1) = unat ?n + 1"
    using room by (simp add: intern_room_def PAYLOAD_MASK_def word_le_nat_alt unat_word_ariths)
  then show ?thesis
    using M assms intern_wf_intern [OF wf M] fresh_intern_id [OF wf] room
    by (auto simp: intern_budget_def intern_room_def)
qed

section \<open>Reading constants back\<close>

definition extends :: "etac_in \<Rightarrow> etac_in \<Rightarrow> bool" where
  "extends s s' \<longleftrightarrow> (\<forall>i x. objects (in_heap s) i = Some x \<longrightarrow> objects (in_heap s') i = Some x)
     \<and> (\<forall>i x. id_to_str (in_intern s) i = Some x \<longrightarrow> id_to_str (in_intern s') i = Some x)"

definition holds :: "etac_in \<Rightarrow> lispval \<Rightarrow> datum \<Rightarrow> bool" where
  "holds s v d \<longleftrightarrow> denotes (objects (in_heap s)) (id_to_str (in_intern s)) v d"

definition room_for :: "alloc_env \<Rightarrow> nat \<Rightarrow> nat \<Rightarrow> etac_in \<Rightarrow> bool" where
  "room_for env k j s \<longleftrightarrow> ser_room env k (in_heap s) \<and> intern_budget j (in_intern s)"

text \<open>A reader returns a result and the rest of the input, and keeps what it was given.\<close>

definition yields :: "alloc_env \<Rightarrow> 'a rd \<Rightarrow> etac_in \<Rightarrow> nat \<Rightarrow> nat \<Rightarrow> bytes \<Rightarrow> ('a \<Rightarrow> etac_in \<Rightarrow> bool) \<Rightarrow> bool" where
  "yields env m s k j rest Q \<longleftrightarrow> (\<exists>x s'. m s = (Inr x, s') \<and> inb s' = rest \<and> room_for env k j s' \<and> extends s s' \<and> Q x s')"

lemma extends_refl [simp]: "extends s s" "extends s (s\<lparr> inb := bs \<rparr>)" "extends (s\<lparr> inb := bs \<rparr>) s' \<longleftrightarrow> extends s s'"
  by (simp_all add: extends_def)

lemma extends_trans: "extends s s' \<Longrightarrow> extends s' s'' \<Longrightarrow> extends s s''"
  by (simp add: extends_def)

lemma holds_extends: "holds s v d \<Longrightarrow> extends s s' \<Longrightarrow> holds s' v d"
  unfolding holds_def extends_def by (rule denotes_mono) auto

lemma room_for_inb [simp]: "room_for env k j (s\<lparr> inb := bs \<rparr>) = room_for env k j s"
  by (simp add: room_for_def)

lemma yields_bind:
  assumes "yields env m s k1 j1 rest1 Q1"
    and "\<And>x s'. inb s' = rest1 \<Longrightarrow> room_for env k1 j1 s' \<Longrightarrow> extends s s' \<Longrightarrow> Q1 x s' \<Longrightarrow> yields env (f x) s' k j rest Q"
  shows "yields env (rd_bind m f) s k j rest Q"
proof -
  obtain x s' where m: "m s = (Inr x, s')" "inb s' = rest1" "room_for env k1 j1 s'" "extends s s'" "Q1 x s'"
    using assms(1) by (auto simp: yields_def)
  obtain y s'' where f: "f x s' = (Inr y, s'')" "inb s'' = rest" "room_for env k j s''" "extends s' s''" "Q y s''"
    using assms(2) [OF m(2-5)] by (auto simp: yields_def)
  then show ?thesis using m extends_trans [OF m(4) f(4)] by (auto simp: yields_def rd_bind_def)
qed

lemma yields_return: "inb s = rest \<Longrightarrow> room_for env k j s \<Longrightarrow> Q x s \<Longrightarrow> yields env (rd_return x) s k j rest Q"
  by (simp add: yields_def rd_return_def)

lemma yields_weaken: "yields env m s k j rest Q \<Longrightarrow> (\<And>x s'. Q x s' \<Longrightarrow> Q' x s') \<Longrightarrow> yields env m s k j rest Q'"
  by (auto simp: yields_def)

text \<open>The readers that touch only the input.\<close>

lemma yields_pure:
  assumes "\<And>s. m (s\<lparr> inb := bs @ rest \<rparr>) = (Inr x, s\<lparr> inb := rest \<rparr>)" "inb s = bs @ rest" "room_for env k j s"
  shows "yields env m s k j rest (\<lambda>y s'. y = x \<and> objects (in_heap s') = objects (in_heap s) \<and> in_intern s' = in_intern s)"
proof -
  have "s\<lparr> inb := bs @ rest \<rparr> = s" using assms(2) by (cases s) simp
  then have "m s = (Inr x, s\<lparr> inb := rest \<rparr>)" using assms(1) [of s] by simp
  with assms(3) show ?thesis by (simp add: yields_def)
qed

lemma yields_push_root:
  "inb s = rest \<Longrightarrow> room_for env k j s \<Longrightarrow> yields env (rd_push_root v) s k j rest (\<lambda>_ _. True)"
  by (simp add: yields_def rd_push_root_def room_for_def extends_def)

lemma yields_root_frame:
  assumes "yields env m s k j rest (\<lambda>v s'. holds s' v d)"
  shows "yields env (with_root_frame m) s k j rest (\<lambda>v s'. holds s' v d)"
  using assms by (auto simp: yields_def with_root_frame_def Let_def room_for_def extends_def holds_def)

lemma yields_alloc:
  assumes "inb s = rest" "room_for env (Suc k) j s" "constant_object ob" "f = make_object env ob"
    and "\<And>i. i \<le> PAYLOAD_MASK \<Longrightarrow> objects (in_heap s) i = None \<Longrightarrow> denotes ((objects (in_heap s))(i \<mapsto> ob)) (id_to_str (in_intern s)) (box HeapObject_tag i) d"
  shows "yields env (rd_alloc f) s k j rest (\<lambda>v s'. holds s' v d)"
proof -
  obtain i h where "make_object env ob (in_heap s) = (Inr i, h)" "ser_room env k h" "i \<le> PAYLOAD_MASK"
    "objects (in_heap s) i = None" "objects h = (objects (in_heap s))(i \<mapsto> ob)"
    using ser_heap.alloc_total [of env k "in_heap s" ob] assms(2,3) by (auto simp: room_for_def)
  then show ?thesis using assms by (auto simp: yields_def rd_alloc_def room_for_def extends_def holds_def)
qed

lemma yields_tag:
  assumes "inb s = tg # bs" "yields env (f tg) (s\<lparr> inb := bs \<rparr>) k j rest Q"
  shows "yields env (rd_bind read_u8 f) s k j rest Q"
proof -
  have "s\<lparr> inb := tg # bs \<rparr> = s" using assms(1) by (cases s) simp
  then have "read_u8 s = (Inr tg, s\<lparr> inb := bs \<rparr>)" using read_u8_law [where s = s and b = tg and rest = bs] by simp
  with assms(2) show ?thesis by (simp add: yields_def rd_bind_def)
qed

definition reads :: "alloc_env \<Rightarrow> datum \<Rightarrow> bool" where
  "reads env d \<longleftrightarrow> (\<forall>n s rest k j. datum_depth d < n \<longrightarrow> inb s = datum_bytes d @ rest
     \<longrightarrow> room_for env (datum_objects d + k) (datum_strings d + j) s
     \<longrightarrow> yields env (read_constant env n) s k j rest (\<lambda>v s'. holds s' v d))"

lemma read_constant_tag:
  "read_constant env (Suc m) (s\<lparr> inb := tg # bs \<rparr>) =
    (if tg = 0 then rd_return Nil_val
     else if tg = 1 then rd_return True_val
     else if tg = 12 then rd_return False_val
     else if tg = 2 then rd_bind read_u64 (\<lambda>x. rd_enc (encode_i64 x))
     else if tg = 3 then rd_bind read_u64 (\<lambda>x. rd_enc (encode_double x))
     else if tg = 4 then rd_bind read_u32 (\<lambda>x. rd_enc (encode_char32 x))
     else if tg = 5 then rd_bind read_str (rd_intern String_tag)
     else if tg = 6 then rd_bind read_str (rd_intern Symbol_tag)
     else if tg = 7 then rd_bind read_u32 (\<lambda>i. rd_return (encode_func_index i))
     else if tg = 8 then with_root_frame (
       rd_bind (read_constant env m) (\<lambda>car. rd_bind (rd_push_root car) (\<lambda>_.
       rd_bind (read_constant env m) (\<lambda>cdr. rd_bind (rd_push_root cdr) (\<lambda>_.
       rd_alloc (make_cons env car cdr))))))
     else if tg = 9 then rd_bind read_u32 (\<lambda>len.
       if len > MAX_VEC_LEN then rd_fail CorruptConstant
       else with_root_frame (
         rd_bind (rd_times (unat len) (rd_bind (read_constant env m) (\<lambda>e. rd_bind (rd_push_root e) (\<lambda>_. rd_return e))))
           (\<lambda>elems. rd_alloc (make_vector env elems))))
     else if tg = 11 then rd_return Nil_val
     else if tg = 10 then read_u64
     else rd_fail CorruptConstant) (s\<lparr> inb := bs \<rparr>)"
  by (simp add: rd_bind_def codec del: rd_times.simps)

declare read_constant.simps [simp del]

lemma reads_leafI:
  assumes "datum_bytes d = tg # bs" "datum_objects d = 0"
    and "\<And>m s bs'. read_constant env (Suc m) (s\<lparr> inb := tg # bs' \<rparr>) = B (s\<lparr> inb := bs' \<rparr>)"
    and "\<And>s rest k j. inb s = bs @ rest \<Longrightarrow> room_for env k (datum_strings d + j) s
       \<Longrightarrow> yields env B s k j rest (\<lambda>v s'. holds s' v d)"
  shows "reads env d"
  unfolding reads_def
proof (intro allI impI)
  fix n s rest k j
  assume a: "datum_depth d < n" "inb s = datum_bytes d @ rest" "room_for env (datum_objects d + k) (datum_strings d + j) s"
  obtain m where n: "n = Suc m" using a(1) by (cases n) auto
  have i: "inb s = tg # bs @ rest" using a(2) assms(1) by simp
  have "s\<lparr> inb := tg # bs @ rest \<rparr> = s" using i by (cases s) simp
  then show "yields env (read_constant env n) s k j rest (\<lambda>v s'. holds s' v d)"
    using assms(4) [of "s\<lparr> inb := bs @ rest \<rparr>" rest k j] assms(3) [where m = m and s = s and bs' = "bs @ rest"] a(3) assms(2)
    by (simp add: yields_def n)
qed

lemma intern_holds:
  assumes "room_for env k (Suc j) s" "inb s = rest"
  shows "yields env (rd_intern String_tag x) s k j rest (\<lambda>v s'. holds s' v (DString x))"
    "yields env (rd_intern Symbol_tag x) s k j rest (\<lambda>v s'. holds s' v (DSymbol x))"
proof -
  obtain i t where i: "intern x (in_intern s) = (Inr i, t)" "intern_budget j t" "i \<le> PAYLOAD_MASK"
    "id_to_str t i = Some x" "\<forall>j y. id_to_str (in_intern s) j = Some y \<longrightarrow> id_to_str t j = Some y"
    using intern_total [of j "in_intern s" x] assms(1) by (auto simp: room_for_def)
  then show "yields env (rd_intern String_tag x) s k j rest (\<lambda>v s'. holds s' v (DString x))"
    "yields env (rd_intern Symbol_tag x) s k j rest (\<lambda>v s'. holds s' v (DSymbol x))"
    using assms by (simp_all add: yields_def rd_intern_def room_for_def extends_def holds_def and_PAYLOAD_MASK)
qed

lemma reads_leaf:
  "reads env DNil" "reads env DTrue" "reads env DFalse" "reads env (DFunc i)"
  "datum_ok (DFix x) \<Longrightarrow> reads env (DFix x)" "reads env (DDouble x)" "datum_ok (DChar c) \<Longrightarrow> reads env (DChar c)"
proof -
  show "reads env DNil"
    by (rule reads_leafI [where tg = 0 and bs = "[]" and B = "rd_return Nil_val"])
      (auto simp: read_constant_tag holds_def intro!: yields_return)
  show "reads env DTrue"
    by (rule reads_leafI [where tg = 1 and bs = "[]" and B = "rd_return True_val"])
      (auto simp: read_constant_tag holds_def intro!: yields_return)
  show "reads env DFalse"
    by (rule reads_leafI [where tg = 12 and bs = "[]" and B = "rd_return False_val"])
      (auto simp: read_constant_tag holds_def intro!: yields_return)
  show "reads env (DFunc i)"
  proof (rule reads_leafI [where tg = 7 and B = "rd_bind read_u32 (\<lambda>i. rd_return (encode_func_index i))"])
    fix s rest k j assume a: "inb s = le_bytes 4 i @ rest" "room_for env k (datum_strings (DFunc i) + j) s"
    show "yields env (rd_bind read_u32 (\<lambda>i. rd_return (encode_func_index i))) s k j rest (\<lambda>v s'. holds s' v (DFunc i))"
      by (rule yields_bind [OF yields_pure [OF read_word_laws(2) a]], rule yields_return) (simp_all add: holds_def)
  qed (simp_all add: read_constant_tag)
  have enc: "yields env (rd_bind m (\<lambda>x. rd_enc (f x))) s k j rest (\<lambda>v s'. holds s' v d)"
    if "\<And>s. m (s\<lparr> inb := bs @ rest \<rparr>) = (Inr x, s\<lparr> inb := rest \<rparr>)" "inb s = bs @ rest" "room_for env k j s"
      "f x = Inr v" "\<And>ob st. denotes ob st v d" for m :: "'b rd" and f s k j rest d bs x v
    by (rule yields_bind [OF yields_pure [OF that(1-3)]])
      (use that(4,5) in \<open>auto simp: rd_enc_def holds_def intro!: yields_return\<close>)
  show "reads env (DFix x)" if "datum_ok (DFix x)"
  proof (rule reads_leafI [where tg = 2 and B = "rd_bind read_u64 (\<lambda>x. rd_enc (encode_i64 x))"])
    fix s rest k j assume a: "inb s = le_bytes 8 x @ rest" "room_for env k (datum_strings (DFix x) + j) s"
    obtain v where "encode_i64 x = Inr v" using \<open>datum_ok (DFix x)\<close> by (auto simp: is_ok_iff)
    then show "yields env (rd_bind read_u64 (\<lambda>x. rd_enc (encode_i64 x))) s k j rest (\<lambda>v s'. holds s' v (DFix x))"
      by (intro enc [OF read_word_laws(3) a(1)]) (use a(2) in auto)
  qed (simp_all add: read_constant_tag)
  show "reads env (DDouble x)"
  proof (rule reads_leafI [where tg = 3 and B = "rd_bind read_u64 (\<lambda>x. rd_enc (encode_double x))"])
    fix s rest k j assume a: "inb s = le_bytes 8 x @ rest" "room_for env k (datum_strings (DDouble x) + j) s"
    obtain v where "encode_double x = Inr v" by (cases "is_nan_bits x") (auto simp: encode_double_def)
    then show "yields env (rd_bind read_u64 (\<lambda>x. rd_enc (encode_double x))) s k j rest (\<lambda>v s'. holds s' v (DDouble x))"
      by (intro enc [OF read_word_laws(3) a(1)]) (use a(2) in auto)
  qed (simp_all add: read_constant_tag)
  show "reads env (DChar c)" if "datum_ok (DChar c)"
  proof (rule reads_leafI [where tg = 4 and B = "rd_bind read_u32 (\<lambda>x. rd_enc (encode_char32 x))"])
    fix s rest k j assume a: "inb s = le_bytes 4 c @ rest" "room_for env k (datum_strings (DChar c) + j) s"
    obtain v where "encode_char32 c = Inr v" using \<open>datum_ok (DChar c)\<close> by (auto simp: is_ok_iff)
    then show "yields env (rd_bind read_u32 (\<lambda>x. rd_enc (encode_char32 x))) s k j rest (\<lambda>v s'. holds s' v (DChar c))"
      by (intro enc [OF read_word_laws(2) a(1)]) (use a(2) in auto)
  qed (simp_all add: read_constant_tag)
qed

lemma reads_strings:
  "str_ok x \<Longrightarrow> reads env (DString x)" "str_ok x \<Longrightarrow> reads env (DSymbol x)"
proof -
  assume x: "str_ok x"
  show "reads env (DString x)"
  proof (rule reads_leafI [where tg = 5 and B = "rd_bind read_str (rd_intern String_tag)"])
    fix s rest k j assume a: "inb s = write_str x @ rest" "room_for env k (datum_strings (DString x) + j) s"
    show "yields env (rd_bind read_str (rd_intern String_tag)) s k j rest (\<lambda>v s'. holds s' v (DString x))"
      by (rule yields_bind [OF yields_pure [OF read_str_law [OF x] a]]) (auto intro!: intern_holds)
  qed (simp_all add: read_constant_tag)
  show "reads env (DSymbol x)"
  proof (rule reads_leafI [where tg = 6 and B = "rd_bind read_str (rd_intern Symbol_tag)"])
    fix s rest k j assume a: "inb s = write_str x @ rest" "room_for env k (datum_strings (DSymbol x) + j) s"
    show "yields env (rd_bind read_str (rd_intern Symbol_tag)) s k j rest (\<lambda>v s'. holds s' v (DSymbol x))"
      by (rule yields_bind [OF yields_pure [OF read_str_law [OF x] a]]) (auto intro!: intern_holds)
  qed (simp_all add: read_constant_tag)
qed

lemma yields_extends: "yields env m s k j rest Q \<Longrightarrow> yields env m s k j rest (\<lambda>x s'. Q x s' \<and> extends s s')"
  by (auto simp: yields_def)

text \<open>A counted loop of readers, each building part of the result.\<close>

lemma yields_times:
  assumes step: "\<And>x s rest k j. x \<in> set xs \<Longrightarrow> inb s = bytes x @ rest \<Longrightarrow> room_for env (ko x + k) (jo x + j) s
      \<Longrightarrow> yields env m s k j rest (Q x)"
    and mono: "\<And>x v s s'. Q x v s \<Longrightarrow> extends s s' \<Longrightarrow> Q x v s'"
    and "inb s = concat (map bytes xs) @ rest"
    and "room_for env (sum_list (map ko xs) + k) (sum_list (map jo xs) + j) s"
  shows "yields env (rd_times (length xs) m) s k j rest (\<lambda>vs s'. length vs = length xs \<and> (\<forall>i < length xs. Q (xs ! i) (vs ! i) s'))"
  using step assms(3,4)
proof (induction xs arbitrary: s)
  case Nil
  then show ?case by (simp add: yields_return)
next
  case (Cons x xs)
  let ?rest = "concat (map bytes xs) @ rest"
  let ?k = "sum_list (map ko xs) + k" and ?j = "sum_list (map jo xs) + j"
  have x: "inb s = bytes x @ ?rest" "room_for env (ko x + ?k) (jo x + ?j) s"
    using Cons.prems(2,3) by (simp_all add: add.assoc)
  have one: "yields env m s ?k ?j ?rest (Q x)" by (rule Cons.prems(1) [OF _ x]) simp
  show ?case unfolding length_Cons rd_times.simps
  proof (rule yields_bind [OF one])
    fix v s' assume a: "inb s' = ?rest" "room_for env ?k ?j s'" "Q x v s'"
    have "yields env (rd_times (length xs) m) s' k j rest (\<lambda>vs s'. length vs = length xs \<and> (\<forall>i < length xs. Q (xs ! i) (vs ! i) s'))"
      using a Cons.prems(1) by (intro Cons.IH) auto
    from yields_extends [OF this]
    show "yields env (rd_bind (rd_times (length xs) m) (\<lambda>xs. rd_return (v # xs))) s' k j rest
       (\<lambda>vs s'. length vs = Suc (length xs) \<and> (\<forall>i < Suc (length xs). Q ((x # xs) ! i) (vs ! i) s'))"
    proof (rule yields_bind)
      fix vs s'' assume "inb s'' = rest" "room_for env k j s''"
        "(length vs = length xs \<and> (\<forall>i < length xs. Q (xs ! i) (vs ! i) s'')) \<and> extends s' s''"
      then show "yields env (rd_return (v # vs)) s'' k j rest
         (\<lambda>vs s'. length vs = Suc (length xs) \<and> (\<forall>i < Suc (length xs). Q ((x # xs) ! i) (vs ! i) s'))"
        using mono [OF a(3)] by (intro yields_return) (auto simp: nth_Cons split: nat.splits)
    qed
  qed
qed

lemma reads_elems:
  assumes "list_all (reads env) ts" "\<And>t. t \<in> set ts \<Longrightarrow> datum_depth t < n"
    and "inb s = concat (map datum_bytes ts) @ rest"
    and "room_for env (sum_list (map datum_objects ts) + k) (sum_list (map datum_strings ts) + j) s"
  shows "yields env (rd_times (length ts) (rd_bind (read_constant env n) (\<lambda>e. rd_bind (rd_push_root e) (\<lambda>_. rd_return e))))
     s k j rest (\<lambda>vs s'. length vs = length ts \<and> (\<forall>i < length ts. holds s' (vs ! i) (ts ! i)))"
proof (rule yields_times [where ko = datum_objects and jo = datum_strings and bytes = datum_bytes, OF _ _ assms(3,4)])
  fix t s rest k j
  assume t: "t \<in> set ts" "inb s = datum_bytes t @ rest" "room_for env (datum_objects t + k) (datum_strings t + j) s"
  have "yields env (read_constant env n) s k j rest (\<lambda>v s'. holds s' v t)"
    using t assms(1,2) unfolding reads_def list_all_iff by blast
  then show "yields env (rd_bind (read_constant env n) (\<lambda>e. rd_bind (rd_push_root e) (\<lambda>_. rd_return e))) s k j rest (\<lambda>v s'. holds s' v t)"
  proof (rule yields_bind)
    fix v s' assume a: "inb s' = rest" "room_for env k j s'" "holds s' v t"
    show "yields env (rd_bind (rd_push_root v) (\<lambda>_. rd_return v)) s' k j rest (\<lambda>v s'. holds s' v t)"
    proof (rule yields_bind [OF yields_extends [OF yields_push_root [OF a(1,2)]]])
      fix u s'' assume "inb s'' = rest" "room_for env k j s''" "True \<and> extends s' s''"
      then show "yields env (rd_return v) s'' k j rest (\<lambda>v s'. holds s' v t)"
        using holds_extends [OF a(3)] by (intro yields_return) auto
    qed
  qed
qed (rule holds_extends)

lemma holds_bound:
  "objects (in_heap s) i = None \<Longrightarrow> holds s v d
     \<Longrightarrow> denotes ((objects (in_heap s))(i \<mapsto> ob)) (id_to_str (in_intern s)) v d"
  unfolding holds_def by (rule denotes_mono) auto

lemma reads_vector:
  assumes "list_all (reads env) ts" "length ts \<le> 65535"
  shows "reads env (DVector ts)"
  unfolding reads_def
proof (intro allI impI)
  fix n s rest k j
  assume a: "datum_depth (DVector ts) < n" "inb s = datum_bytes (DVector ts) @ rest"
    "room_for env (datum_objects (DVector ts) + k) (datum_strings (DVector ts) + j) s"
  obtain m where n: "n = Suc m" using a(1) by (cases n) auto
  let ?bs = "concat (map datum_bytes ts) @ rest"
  let ?len = "of_nat (length ts) :: u32"
  have len: "unat ?len = length ts" "\<not> ?len > MAX_VEC_LEN"
    using assms(2) by (simp_all add: MAX_VEC_LEN_def word_less_nat_alt unsigned_of_nat take_bit_nat_eq_self)
  have depth: "datum_depth t < m" if "t \<in> set ts" for t
    using a(1) n fold_max_le [of "datum_depth t" "map datum_depth ts" 0] that by simp
  have s: "s = s\<lparr> inb := 9 # le_bytes 4 ?len @ ?bs \<rparr>" using a(2) by (cases s) simp
  let ?s = "s\<lparr> inb := ?bs \<rparr>"
  have r: "room_for env (sum_list (map datum_objects ts) + Suc k) (sum_list (map datum_strings ts) + j) ?s"
    using a(3) by (simp add: add.commute)
  let ?B = "rd_bind (rd_times (unat ?len) (rd_bind (read_constant env m) (\<lambda>e. rd_bind (rd_push_root e) (\<lambda>_. rd_return e))))
           (\<lambda>elems. rd_alloc (make_vector env elems))"
  have "read_constant env n s = with_root_frame ?B ?s"
    unfolding n by (subst s) (simp add: read_constant_tag rd_bind_def codec len)
  moreover have "yields env ?B ?s k j rest (\<lambda>v s'. holds s' v (DVector ts))"
    unfolding len
  proof (rule yields_bind [OF reads_elems [OF assms(1) depth _ r]])
    fix vs s' assume b: "inb s' = rest" "room_for env (Suc k) j s'"
      "length vs = length ts \<and> (\<forall>i < length ts. holds s' (vs ! i) (ts ! i))"
    show "yields env (rd_alloc (make_vector env vs)) s' k j rest (\<lambda>v s'. holds s' v (DVector ts))"
    proof (rule yields_alloc [OF b(1,2), where ob = "Vector_obj vs"])
      fix i assume i: "i \<le> PAYLOAD_MASK" "objects (in_heap s') i = None"
      show "denotes ((objects (in_heap s'))(i \<mapsto> Vector_obj vs)) (id_to_str (in_intern s')) (box HeapObject_tag i) (DVector ts)"
        using b(3) i holds_bound [OF i(2)] by (simp add: and_PAYLOAD_MASK)
    qed (simp_all add: constant_object_def make_object_def)
  qed simp_all
  ultimately show "yields env (read_constant env n) s k j rest (\<lambda>v s'. holds s' v (DVector ts))"
    using yields_root_frame [of env ?B ?s k j rest "DVector ts"] by (simp add: yields_def)
qed

lemma reads_cons:
  assumes "reads env a" "reads env d"
  shows "reads env (DCons a d)"
  unfolding reads_def
proof (intro allI impI)
  fix n s rest k j
  assume p: "datum_depth (DCons a d) < n" "inb s = datum_bytes (DCons a d) @ rest"
    "room_for env (datum_objects (DCons a d) + k) (datum_strings (DCons a d) + j) s"
  obtain m where n: "n = Suc m" using p(1) by (cases n) auto
  let ?s = "s\<lparr> inb := datum_bytes a @ datum_bytes d @ rest \<rparr>"
  have s: "s = s\<lparr> inb := 8 # datum_bytes a @ datum_bytes d @ rest \<rparr>" using p(2) by (cases s) simp
  let ?B = "rd_bind (read_constant env m) (\<lambda>car. rd_bind (rd_push_root car) (\<lambda>_.
       rd_bind (read_constant env m) (\<lambda>cdr. rd_bind (rd_push_root cdr) (\<lambda>_.
       rd_alloc (make_cons env car cdr)))))"
  let ?k = "datum_objects d + Suc k" and ?j = "datum_strings d + j"
  have "room_for env (datum_objects a + ?k) (datum_strings a + ?j) ?s"
    using p(3) by (simp add: add.assoc add.commute add.left_commute)
  then have A: "yields env (read_constant env m) ?s ?k ?j (datum_bytes d @ rest) (\<lambda>v s'. holds s' v a)"
    using assms(1) p(1) n unfolding reads_def by simp
  have "yields env ?B ?s k j rest (\<lambda>v s'. holds s' v (DCons a d))"
  proof (rule yields_bind [OF A])
    fix car s1 assume c1: "inb s1 = datum_bytes d @ rest" "room_for env ?k ?j s1" "holds s1 car a"
    show "yields env (rd_bind (rd_push_root car) (\<lambda>_. rd_bind (read_constant env m) (\<lambda>cdr. rd_bind (rd_push_root cdr) (\<lambda>_.
       rd_alloc (make_cons env car cdr))))) s1 k j rest (\<lambda>v s'. holds s' v (DCons a d))"
    proof (rule yields_bind [OF yields_extends [OF yields_push_root [OF c1(1,2)]]])
      fix u s2 assume c2: "inb s2 = datum_bytes d @ rest" "room_for env ?k ?j s2" "True \<and> extends s1 s2"
      have D: "yields env (read_constant env m) s2 (Suc k) j rest (\<lambda>v s'. holds s' v d)"
        using assms(2) p(1) n c2 unfolding reads_def by simp
      show "yields env (rd_bind (read_constant env m) (\<lambda>cdr. rd_bind (rd_push_root cdr) (\<lambda>_.
         rd_alloc (make_cons env car cdr)))) s2 k j rest (\<lambda>v s'. holds s' v (DCons a d))"
      proof (rule yields_bind [OF yields_extends [OF D]])
        fix cdr s3 assume c3: "inb s3 = rest" "room_for env (Suc k) j s3" "holds s3 cdr d \<and> extends s2 s3"
        show "yields env (rd_bind (rd_push_root cdr) (\<lambda>_. rd_alloc (make_cons env car cdr))) s3 k j rest
           (\<lambda>v s'. holds s' v (DCons a d))"
        proof (rule yields_bind [OF yields_extends [OF yields_push_root [OF c3(1,2)]]])
          fix u s4 assume c4: "inb s4 = rest" "room_for env (Suc k) j s4" "True \<and> extends s3 s4"
          have h: "holds s4 car a" "holds s4 cdr d"
            using c1(3) c2(3) c3(3) c4(3) holds_extends extends_trans by blast+
          show "yields env (rd_alloc (make_cons env car cdr)) s4 k j rest (\<lambda>v s'. holds s' v (DCons a d))"
          proof (rule yields_alloc [OF c4(1,2), where ob = "Cons_obj car cdr"])
            fix i assume i: "i \<le> PAYLOAD_MASK" "objects (in_heap s4) i = None"
            show "denotes ((objects (in_heap s4))(i \<mapsto> Cons_obj car cdr)) (id_to_str (in_intern s4)) (box HeapObject_tag i) (DCons a d)"
              using h i holds_bound [OF i(2)] by (simp add: and_PAYLOAD_MASK)
          qed (simp_all add: constant_object_def make_object_def)
        qed
      qed
    qed
  qed
  moreover have "read_constant env n s = with_root_frame ?B ?s"
    unfolding n by (subst s) (simp add: read_constant_tag)
  ultimately show "yields env (read_constant env n) s k j rest (\<lambda>v s'. holds s' v (DCons a d))"
    using yields_root_frame [of env ?B ?s k j rest "DCons a d"] by (simp add: yields_def)
qed

lemma reads_datum: "datum_ok d \<Longrightarrow> reads env d"
  by (induction d) (auto intro: reads_leaf reads_strings reads_cons reads_vector simp: list_all_iff)

lemma datum_depth_bytes: "datum_depth d < length (datum_bytes d)"
proof (induction d)
  case (DVector ts)
  have t: "datum_depth t \<le> sum_list (map (length \<circ> datum_bytes) ts)" if "t \<in> set ts" for t
  proof -
    have "length (datum_bytes t) \<le> sum_list (map (length \<circ> datum_bytes) ts)"
      using that by (intro member_le_sum_list) auto
    with DVector.IH [OF that] show ?thesis by simp
  qed
  have f: "fold max xs 0 \<le> n" if "\<And>x. x \<in> set xs \<Longrightarrow> x \<le> n" for xs and n :: nat
  proof -
    have "fold max xs m \<le> n" if "m \<le> n" "\<And>x. x \<in> set xs \<Longrightarrow> x \<le> n" for m
      using that by (induction xs arbitrary: m) auto
    then show ?thesis using that by simp
  qed
  have "fold max (map datum_depth ts) 0 \<le> sum_list (map (length \<circ> datum_bytes) ts)"
    by (rule f) (use t in auto)
  then show ?case by (simp add: length_concat)
qed auto

section \<open>Functions\<close>

text \<open>A function as it is written: with the data its constants denote.\<close>

definition strip_offsets :: "span \<Rightarrow> span" where
  "strip_offsets s = s\<lparr> span_start := (span_start s)\<lparr> offset := 0 \<rparr>, span_end := (span_end s)\<lparr> offset := 0 \<rparr> \<rparr>"

definition stored_spans :: "bool \<Rightarrow> bytecode_function \<Rightarrow> span list" where
  "stored_spans debug f = (if debug then map (\<lambda>i. strip_offsets (span_at f i)) [0..<length (fn_code f)] else [])"

definition function_bytes :: "bool \<Rightarrow> bytecode_function \<times> datum list \<Rightarrow> bytes" where
  "function_bytes debug = (\<lambda>(f, ds). write_str (fn_name f) @ le_bytes 4 (fn_arity f) @ [if has_rest f then 1 else 0]
     @ le_bytes 4 (stack_size f) @ write_list datum_bytes ds @ write_list write_instruction (fn_code f)
     @ concat (map write_span (stored_spans debug f))
     @ write_list write_str (local_names f) @ write_list write_str (upval_names f))"

definition function_ok :: "bytecode_function \<times> datum list \<Rightarrow> bool" where
  "function_ok = (\<lambda>(f, ds). str_ok (fn_name f) \<and> instructionc.list_ok (fn_code f) \<and> strc.list_ok (local_names f)
     \<and> strc.list_ok (upval_names f) \<and> length (constants f) = length ds \<and> length ds < 2 ^ 32 \<and> list_all datum_ok ds)"

definition function_objects :: "bytecode_function \<times> datum list \<Rightarrow> nat" where
  "function_objects = (\<lambda>(f, ds). sum_list (map datum_objects ds))"

definition function_strings :: "bytecode_function \<times> datum list \<Rightarrow> nat" where
  "function_strings = (\<lambda>(f, ds). sum_list (map datum_strings ds))"

text \<open>What is read back: everything but the constants' bits and the spans' offsets is the same.\<close>

definition function_read :: "bool \<Rightarrow> bytecode_function \<times> datum list \<Rightarrow> bytecode_function \<Rightarrow> etac_in \<Rightarrow> bool" where
  "function_read debug = (\<lambda>(f, ds) g s. g = f\<lparr> constants := constants g, source_map := stored_spans debug f \<rparr>
     \<and> length (constants g) = length ds \<and> (\<forall>i < length ds. holds s (constants g ! i) (ds ! i)))"

lemma function_read_extends: "function_read debug x g s \<Longrightarrow> extends s s' \<Longrightarrow> function_read debug x g s'"
  using holds_extends by (auto simp: function_read_def split: prod.splits)

lemma yields_law:
  assumes "m (s\<lparr> inb := bs @ rest \<rparr>) = (Inr x, s\<lparr> inb := rest \<rparr>)" "inb s = bs @ rest" "room_for env k j s"
  shows "yields env m s k j rest (\<lambda>y s'. y = x)"
proof -
  have "s\<lparr> inb := bs @ rest \<rparr> = s" using assms(2) by (cases s) simp
  then have "m s = (Inr x, s\<lparr> inb := rest \<rparr>)" using assms(1) by simp
  with assms(3) show ?thesis by (simp add: yields_def)
qed

lemma yields_bind_law:
  assumes "\<And>s rest. m (s\<lparr> inb := bs @ rest \<rparr>) = (Inr x, s\<lparr> inb := rest \<rparr>)"
    and "inb s = bs @ rest" "yields env (f x) (s\<lparr> inb := rest \<rparr>) k j rest' Q"
  shows "yields env (rd_bind m f) s k j rest' Q"
proof -
  have "s\<lparr> inb := bs @ rest \<rparr> = s" using assms(2) by (cases s) simp
  then have "m s = (Inr x, s\<lparr> inb := rest \<rparr>)" using assms(1) [where s = s and rest = rest] by simp
  with assms(3) show ?thesis by (auto simp: yields_def rd_bind_def)
qed

lemma reads_constants:
  assumes "list_all datum_ok ds" "length ds < 2 ^ 32" and fuel: "\<And>d. d \<in> set ds \<Longrightarrow> datum_depth d < n"
    and "inb s = write_list datum_bytes ds @ rest"
    and "room_for env (sum_list (map datum_objects ds) + k) (sum_list (map datum_strings ds) + j) s"
  shows "yields env (read_list (read_constant env n)) s k j rest
     (\<lambda>vs s'. length vs = length ds \<and> (\<forall>i < length ds. holds s' (vs ! i) (ds ! i)))"
proof -
  let ?len = "of_nat (length ds) :: u32"
  have len: "unat ?len = length ds" using assms(2) by (simp add: unsigned_of_nat take_bit_nat_eq_self)
  have i: "inb s = le_bytes 4 ?len @ concat (map datum_bytes ds) @ rest"
    using assms(4) by (simp add: write_list_def)
  show ?thesis unfolding read_list_def
  proof (rule yields_bind_law [OF read_word_laws(2) i], unfold len)
    show "yields env (rd_times (length ds) (read_constant env n)) (s\<lparr> inb := concat (map datum_bytes ds) @ rest \<rparr>) k j rest
     (\<lambda>vs s'. length vs = length ds \<and> (\<forall>i < length ds. holds s' (vs ! i) (ds ! i)))"
    proof (rule yields_times [where ko = datum_objects and jo = datum_strings and bytes = datum_bytes])
      fix d s rest k j
      assume "d \<in> set ds" "inb s = datum_bytes d @ rest" "room_for env (datum_objects d + k) (datum_strings d + j) s"
      then show "yields env (read_constant env n) s k j rest (\<lambda>v s'. holds s' v d)"
        using reads_datum [of d env] assms(1) fuel unfolding reads_def list_all_iff by blast
    qed (use assms(5) holds_extends in auto)
  qed
qed

lemma read_u8_law_append: "read_u8 (s\<lparr> inb := [b] @ rest \<rparr>) = (Inr b, s\<lparr> inb := rest \<rparr>)"
  by (simp add: codec)

lemma read_spans_law:
  "rd_bind (if debug then rd_times (length (fn_code f)) read_span else rd_return []) g
     (s\<lparr> inb := concat (map write_span (stored_spans debug f)) @ rest \<rparr>) = g (stored_spans debug f) (s\<lparr> inb := rest \<rparr>)"
proof -
  have "list_all span_wf (stored_spans True f)"
    by (simp add: list_all_iff stored_spans_def span_wf_def strip_offsets_def)
  from spanc.times_law [OF this] show ?thesis
    by (cases debug) (auto simp: stored_spans_def rd_bind_def rd_return_def)
qed

lemma reads_function:
  assumes ok: "function_ok (f, ds)" and fuel: "\<And>d. d \<in> set ds \<Longrightarrow> datum_depth d < n"
    and i: "inb s = function_bytes debug (f, ds) @ rest"
    and room: "room_for env (function_objects (f, ds) + k) (function_strings (f, ds) + j) s"
  shows "yields env (read_function (read_constant env n) debug) s k j rest (function_read debug (f, ds))"
proof -
  let ?tail = "write_list write_instruction (fn_code f) @ concat (map write_span (stored_spans debug f))
     @ write_list write_str (local_names f) @ write_list write_str (upval_names f) @ rest"
  have o: "str_ok (fn_name f)" "instructionc.list_ok (fn_code f)" "strc.list_ok (local_names f)"
    "strc.list_ok (upval_names f)" "length (constants f) = length ds" "length ds < 2 ^ 32" "list_all datum_ok ds"
    using ok by (simp_all add: function_ok_def)
  define tail where "tail cs = rd_bind (read_list read_instruction) (\<lambda>code.
     rd_bind (if debug then rd_times (length code) read_span else rd_return []) (\<lambda>spans.
     rd_bind (read_list read_str) (\<lambda>locals.
     rd_bind (read_list read_str) (\<lambda>upvals.
       rd_return \<lparr> fn_code = code, source_map = spans, constants = cs, fn_arity = fn_arity f,
         has_rest = ((if has_rest f then 1 else 0 :: u8) \<noteq> 0), stack_size = stack_size f, fn_name = fn_name f,
         local_names = locals, upval_names = upvals \<rparr>))))" for cs
  have T: "yields env (tail vs) s' k j rest (function_read debug (f, ds))"
    if "inb s' = ?tail" "room_for env k j s'" "length vs = length ds \<and> (\<forall>i < length ds. holds s' (vs ! i) (ds ! i))" for vs s'
  proof -
    have "tail vs (s'\<lparr> inb := ?tail \<rparr>) = (Inr (f\<lparr> constants := vs, source_map := stored_spans debug f \<rparr>), s'\<lparr> inb := rest \<rparr>)"
      unfolding tail_def
      by (subst rd_bind_def, simp only: instructionc.list_law [OF o(2)] prod.case sum.case read_spans_law)
        (simp add: rd_bind_def rd_return_def strc.list_law [OF o(3)] strc.list_law [OF o(4)])
    moreover have "s'\<lparr> inb := ?tail \<rparr> = s'" using that(1) by (cases s') simp
    ultimately show ?thesis
      using that by (simp add: yields_def function_read_def holds_def)
  qed
  let ?pool = "write_list datum_bytes ds @ ?tail"
  have i': "inb s = write_str (fn_name f) @ le_bytes 4 (fn_arity f) @ [if has_rest f then 1 else 0]
     @ le_bytes 4 (stack_size f) @ ?pool"
    using i by (simp add: function_bytes_def)
  have C: "yields env (read_list (read_constant env n)) (s\<lparr> inb := ?pool \<rparr>)
     k j ?tail (\<lambda>vs s'. length vs = length ds \<and> (\<forall>i < length ds. holds s' (vs ! i) (ds ! i)))"
    by (rule reads_constants [OF o(7,6)])
      (use i' fuel room in \<open>auto simp: function_objects_def function_strings_def\<close>)
  show ?thesis unfolding read_function_def
    apply (rule yields_bind_law [OF read_str_law [OF o(1)] i'])
    apply (rule yields_bind_law [OF read_word_laws(2)], simp)
    apply (rule yields_bind_law [OF read_u8_law_append], simp)
    apply (rule yields_bind_law [OF read_word_laws(2)], simp)
    apply (fold tail_def)
    apply simp
    apply (rule yields_bind [OF C])
    apply (erule (1) T)
    apply simp
    done
qed

lemma function_bytes_depth: "d \<in> set ds \<Longrightarrow> datum_depth d < length (function_bytes debug (f, ds))"
proof -
  assume d: "d \<in> set ds"
  have "length (datum_bytes d) \<le> length (concat (map datum_bytes ds))"
    using d member_le_sum_list [of "length (datum_bytes d)" "map (length \<circ> datum_bytes) ds"]
    by (simp add: length_concat)
  then show ?thesis using datum_depth_bytes [of d] by (simp add: function_bytes_def write_list_def)
qed

text \<open>The constants of a function, in the heap and the intern table it is written from.\<close>

definition described :: "heap \<Rightarrow> intern_table \<Rightarrow> bytecode_function \<times> datum list \<Rightarrow> bool" where
  "described h it = (\<lambda>(f, ds). length (constants f) = length ds
     \<and> (\<forall>i < length ds. denotes (objects h) (id_to_str it) (constants f ! i) (ds ! i)))"

lemma write_span_strip [simp]: "write_span (strip_offsets x) = write_span x"
  by (simp add: write_span_def strip_offsets_def)

lemma write_function_bytes:
  assumes "typed_heap h" "described h it (f, ds)" "function_ok (f, ds)" "\<And>d. d \<in> set ds \<Longrightarrow> datum_depth d < n"
  shows "write_function (write_constant n h it) debug f = Some (function_bytes debug (f, ds))"
proof -
  have "those (map (write_constant n h it) (constants f)) = Some (map datum_bytes ds)"
  proof (rule those_Some)
    fix i assume "i < length (constants f)"
    then show "write_constant n h it (constants f ! i) = Some (map datum_bytes ds ! i)"
      using assms by (auto simp: described_def function_ok_def list_all_length intro!: write_constant_datum)
  qed (use assms(2) in \<open>simp add: described_def\<close>)
  moreover have "length (constants f) = length ds" using assms(2) by (simp add: described_def)
  ultimately show ?thesis
    by (simp add: write_function_def function_bytes_def write_list_def stored_spans_def o_def)
qed

section \<open>Whole files\<close>

definition args_ok :: "serialize_args \<Rightarrow> bool" where
  "args_ok a \<longleftrightarrow> modulec.list_ok (arg_modules a) \<and> strc.list_ok (arg_imports a) \<and> length (arg_registry a) < 2 ^ 32
     \<and> (case arg_package a of Some m \<Rightarrow> package_ok m | None \<Rightarrow> True)
     \<and> length (arg_deps a) \<le> 65535 \<and> list_all dep_ok (arg_deps a) \<and> length (arg_compiler_id a) = 16"

definition header_of :: "serialize_args \<Rightarrow> etac_file" where
  "header_of a = empty_file\<lparr> format_version := FORMAT_VERSION, file_flags := header_flags a,
     source_hash := arg_source_hash a, builtin_count := arg_builtins a, compiler_id := arg_compiler_id a,
     has_compiler_id := True, package_meta := arg_package a, dependency_hashes := arg_deps a \<rparr>"

lemma header_flags_bits:
  "header_flags a AND FLAG_HAS_DEBUG \<noteq> 0 \<longleftrightarrow> arg_debug a"
  "header_flags a AND FLAG_HAS_PACKAGE_META \<noteq> 0 \<longleftrightarrow> arg_package a \<noteq> None"
  "header_flags a AND FLAG_HAS_DEPHASH \<noteq> 0 \<longleftrightarrow> arg_deps a \<noteq> []"
  by (cases "arg_debug a"; cases "arg_package a"; cases "arg_deps a";
      simp add: header_flags_def FLAG_HAS_DEBUG_def FLAG_HAS_PACKAGE_META_def FLAG_HAS_DEPHASH_def)+

lemma read_deps_law:
  assumes "length ds \<le> 65535" "list_all dep_ok ds"
  shows "read_deps (s\<lparr> inb := write_list write_dep ds @ rest \<rparr>) = (Inr ds, s\<lparr> inb := rest \<rparr>)"
proof -
  have "unat (of_nat (length ds) :: u32) = length ds" "\<not> (of_nat (length ds) :: u32) > MAX_DEP_HASH_ENTRIES"
    using assms(1) by (simp_all add: MAX_DEP_HASH_ENTRIES_def word_less_nat_alt unsigned_of_nat take_bit_nat_eq_self)
  then show ?thesis
    using depc.times_law [OF assms(2)] by (simp add: read_deps_def write_list_def rd_bind_def codec)
qed

lemma read_extended_law:
  assumes "args_ok a" "format_version file = FORMAT_VERSION" "file_flags file = header_flags a"
    "package_meta file = None" "dependency_hashes file = []"
  shows "read_extended file (s\<lparr> inb := arg_compiler_id a
     @ (case arg_package a of Some m \<Rightarrow> write_package m | None \<Rightarrow> [])
     @ (if arg_deps a \<noteq> [] then write_list write_dep (arg_deps a) else []) @ rest \<rparr>)
   = (Inr (file\<lparr> compiler_id := arg_compiler_id a, has_compiler_id := True, package_meta := arg_package a,
        dependency_hashes := arg_deps a \<rparr>), s\<lparr> inb := rest \<rparr>)"
proof -
  have v: "FORMAT_VERSION_V4 \<le> FORMAT_VERSION" by (simp add: FORMAT_VERSION_def FORMAT_VERSION_V4_def)
  have c: "length (arg_compiler_id a) = 16" and p: "case arg_package a of Some m \<Rightarrow> package_ok m | None \<Rightarrow> True"
    and d: "length (arg_deps a) \<le> 65535" "list_all dep_ok (arg_deps a)"
    using assms(1) by (simp_all add: args_ok_def)
  have 1: "read_bytes 16 (s\<lparr> inb := arg_compiler_id a @ bs \<rparr>) = (Inr (arg_compiler_id a), s\<lparr> inb := bs \<rparr>)" for bs
    by (rule read_bytes_append) (simp add: c)
  have 2: "(if arg_package a \<noteq> None then rd_bind read_package (\<lambda>m. rd_return (Some m)) else rd_return None)
      (s\<lparr> inb := (case arg_package a of Some m \<Rightarrow> write_package m | None \<Rightarrow> []) @ bs \<rparr>) = (Inr (arg_package a), s\<lparr> inb := bs \<rparr>)" for bs
    using p by (auto simp: rd_bind_def rd_return_def packagec.law split: option.splits)
  have 3: "(if arg_deps a \<noteq> [] then read_deps else rd_return [])
      (s\<lparr> inb := (if arg_deps a \<noteq> [] then write_list write_dep (arg_deps a) else []) @ bs \<rparr>) = (Inr (arg_deps a), s\<lparr> inb := bs \<rparr>)" for bs
    by (simp add: rd_return_def read_deps_law [OF d])
  show ?thesis
    unfolding read_extended_def assms(2,3) header_flags_bits if_P [OF v]
    by (simp only: rd_bind_def [of "read_bytes 16"] 1 prod.case sum.case,
        subst rd_bind_def, simp only: 2 prod.case sum.case,
        subst rd_bind_def, simp only: 3 prod.case sum.case rd_return_def)
qed

lemma read_header_law:
  assumes "args_ok a" "expected = 0 \<or> expected = arg_builtins a"
  shows "read_header expected (s\<lparr> inb := write_header a @ rest \<rparr>) = (Inr (header_of a), s\<lparr> inb := rest \<rparr>)"
proof -
  have m: "read_magic (s\<lparr> inb := MAGIC @ bs \<rparr>) = (Inr (), s\<lparr> inb := bs \<rparr>)" for bs
    using read_bytes_append [where n = 4 and bs = MAGIC and s = s and rest = bs] by (simp add: read_magic_def MAGIC_def)
  have v: "version_known FORMAT_VERSION" by (simp add: version_known_def)
  have e: "\<not> (expected \<noteq> 0 \<and> arg_builtins a \<noteq> expected)" using assms(2) by auto
  show ?thesis
    using e v by (auto simp: read_header_def write_header_def rd_bind_def m codec header_of_def
      read_extended_law [OF assms(1)] empty_file_def)
qed

definition file_bytes :: "serialize_args \<Rightarrow> (bytecode_function \<times> datum list) list \<Rightarrow> bytes" where
  "file_bytes a fds = write_header a @ le_bytes 4 (of_nat (length (arg_modules a)) :: u32)
     @ le_bytes 4 (of_nat (length fds) :: u32) @ write_list write_str (arg_imports a)
     @ concat (map write_module (arg_modules a)) @ concat (map (function_bytes (arg_debug a)) fds)"

lemma serialize_bytes:
  assumes "typed_heap h" "arg_registry a = map fst fds" "list_all (described h it) fds" "list_all function_ok fds"
    and "\<And>f ds d. (f, ds) \<in> set fds \<Longrightarrow> d \<in> set ds \<Longrightarrow> datum_depth d < fuel"
  shows "serialize fuel h it a = Some (file_bytes a fds)"
proof -
  have "those (map (write_function (write_constant fuel h it) (arg_debug a)) (arg_registry a))
     = Some (map (function_bytes (arg_debug a)) fds)"
  proof (rule those_Some)
    fix i assume i: "i < length (arg_registry a)"
    obtain f ds where fd: "fds ! i = (f, ds)" by (cases "fds ! i")
    then have m: "(f, ds) \<in> set fds" using i assms(2) by (metis length_map nth_mem)
    then have "described h it (f, ds)" "function_ok (f, ds)" using assms(3,4) by (auto simp: list_all_iff)
    from write_function_bytes [OF assms(1) this assms(5) [OF m]]
    show "write_function (write_constant fuel h it) (arg_debug a) (arg_registry a ! i)
       = Some (map (function_bytes (arg_debug a)) fds ! i)"
      using i fd assms(2) by simp
  qed (simp add: assms(2))
  then show ?thesis by (simp add: serialize_def file_bytes_def assms(2))
qed

definition objects_needed :: "(bytecode_function \<times> datum list) list \<Rightarrow> nat" where
  "objects_needed fds = sum_list (map function_objects fds)"

definition strings_needed :: "(bytecode_function \<times> datum list) list \<Rightarrow> nat" where
  "strings_needed fds = sum_list (map function_strings fds)"

definition file_read :: "serialize_args \<Rightarrow> (bytecode_function \<times> datum list) list \<Rightarrow> etac_file \<Rightarrow> etac_in \<Rightarrow> bool" where
  "file_read a fds file s \<longleftrightarrow>
     file = (header_of a)\<lparr> file_imports := arg_imports a, modules := arg_modules a, file_functions := file_functions file \<rparr>
     \<and> length (file_functions file) = length fds
     \<and> (\<forall>i < length fds. function_read (arg_debug a) (fds ! i) (file_functions file ! i) s)"

lemma reads_body:
  assumes ok: "args_ok a" "length fds < 2 ^ 32" "list_all function_ok fds"
    and fuel: "\<And>f ds d. (f, ds) \<in> set fds \<Longrightarrow> d \<in> set ds \<Longrightarrow> datum_depth d < n"
    and i: "inb s = le_bytes 4 (of_nat (length (arg_modules a)) :: u32) @ le_bytes 4 (of_nat (length fds) :: u32)
        @ write_list write_str (arg_imports a) @ concat (map write_module (arg_modules a))
        @ concat (map (function_bytes (arg_debug a)) fds) @ rest"
    and room: "room_for env (objects_needed fds + k) (strings_needed fds + j) s"
  shows "yields env (read_body env n (header_of a)) s k j rest (file_read a fds)"
proof -
  have h: "format_version (header_of a) = FORMAT_VERSION" "file_flags (header_of a) = header_flags a"
    by (simp_all add: header_of_def)
  have o: "modulec.list_ok (arg_modules a)" "strc.list_ok (arg_imports a)" using ok by (simp_all add: args_ok_def)
  have un: "unat (of_nat (length (arg_modules a)) :: u32) = length (arg_modules a)" "unat (of_nat (length fds) :: u32) = length fds"
    using o(1) ok(2) by (simp_all add: modulec.list_ok_def unsigned_of_nat take_bit_nat_eq_self)
  let ?F = "concat (map (function_bytes (arg_debug a)) fds) @ rest"
  have F: "yields env (rd_times (length fds) (read_function (read_constant env n) (arg_debug a))) (s\<lparr> inb := ?F \<rparr>) k j rest
     (\<lambda>gs s'. length gs = length fds \<and> (\<forall>i < length fds. function_read (arg_debug a) (fds ! i) (gs ! i) s'))"
  proof (rule yields_times [where ko = function_objects and jo = function_strings and bytes = "function_bytes (arg_debug a)"])
    fix x s rest k j
    assume x: "x \<in> set fds" "inb s = function_bytes (arg_debug a) x @ rest"
      "room_for env (function_objects x + k) (function_strings x + j) s"
    obtain f ds where fd: "x = (f, ds)" by (cases x)
    show "yields env (read_function (read_constant env n) (arg_debug a)) s k j rest (function_read (arg_debug a) x)"
      using x ok(3) fuel unfolding fd by (intro reads_function) (auto simp: list_all_iff)
  qed (use room in \<open>simp_all add: function_read_extends objects_needed_def strings_needed_def\<close>)
  show ?thesis unfolding read_body_def h header_flags_bits
    apply (rule yields_bind_law [OF read_word_laws(2) i])
    apply (rule yields_bind_law [OF read_word_laws(2)], simp)
    apply (rule yields_bind_law [OF strc.list_law [OF o(2)]], simp)
    apply (unfold un)
    apply (rule yields_bind_law [OF modulec.times_law], use o(1) in \<open>simp add: modulec.list_ok_def\<close>, simp)
    apply simp
    apply (rule yields_bind [OF F])
    apply (rule yields_return)
    apply (simp_all add: file_read_def)
    done
qed

lemma verify_read: "function_read debug (f, ds) g s \<Longrightarrow> length (constants f) = length ds \<Longrightarrow> verify_function g = verify_function f"
proof -
  assume r: "function_read debug (f, ds) g s" "length (constants f) = length ds"
  then have "g = f\<lparr> constants := constants g, source_map := stored_spans debug f \<rparr>" "length (constants g) = length (constants f)"
    by (auto simp: function_read_def)
  moreover have "verify_function (f\<lparr> constants := cs, source_map := sp \<rparr>) = verify_function f"
    if "length cs = length (constants f)" for cs sp
    using that by (simp add: verify_function_def)
  ultimately show ?thesis by metis
qed

lemma deserialize_serialized:
  assumes "typed_heap h" "arg_registry a = map fst fds" "args_ok a"
    and "list_all (described h it) fds" "list_all function_ok fds" "list_all verify_function (arg_registry a)"
    and "\<And>f ds d. (f, ds) \<in> set fds \<Longrightarrow> d \<in> set ds \<Longrightarrow> datum_depth d < fuel"
    and "expected = 0 \<or> expected = arg_builtins a"
    and "room_for env (objects_needed fds) (strings_needed fds) s"
  shows "\<exists>bs file s'. serialize fuel h it a = Some bs
    \<and> deserialize env expected (s\<lparr> inb := bs @ rest \<rparr>) = (Inr file, s') \<and> inb s' = rest \<and> file_read a fds file s'"
proof -
  let ?bs = "file_bytes a fds" and ?s = "s\<lparr> inb := file_bytes a fds @ rest \<rparr>"
  let ?n = "Suc (length (inb ?s))"
  have len: "length fds < 2 ^ 32" using assms(2,3) by (auto simp: args_ok_def)
  have depth: "datum_depth d < ?n" if "(f, ds) \<in> set fds" "d \<in> set ds" for f ds d
  proof -
    have "length (function_bytes (arg_debug a) (f, ds)) \<le> length (concat (map (function_bytes (arg_debug a)) fds))"
      using that(1) member_le_sum_list [of "length (function_bytes (arg_debug a) (f, ds))" "map (length \<circ> function_bytes (arg_debug a)) fds"]
      by (force simp: length_concat)
    then show ?thesis using function_bytes_depth [OF that(2), of "arg_debug a" f] by (simp add: file_bytes_def)
  qed
  obtain bs' where bs': "?bs = write_header a @ bs'" by (simp add: file_bytes_def)
  have hd: "read_header expected ?s = (Inr (header_of a), s\<lparr> inb := bs' @ rest \<rparr>)"
    using read_header_law [OF assms(3,8)] by (simp add: bs')
  have "yields env (read_body env ?n (header_of a)) (s\<lparr> inb := bs' @ rest \<rparr>) 0 0 rest (file_read a fds)"
    by (rule reads_body [OF assms(3) len assms(5) depth]) (use assms(9) bs' in \<open>auto simp: file_bytes_def\<close>)
  then obtain fl s' where b: "read_body env ?n (header_of a) (s\<lparr> inb := bs' @ rest \<rparr>) = (Inr fl, s')"
    "inb s' = rest" "file_read a fds fl s'"
    by (auto simp: yields_def)
  have "verify_function g" if "g \<in> set (file_functions fl)" for g
  proof -
    from that obtain i where i: "i < length fds" "g = file_functions fl ! i"
      using b(3) by (auto simp: in_set_conv_nth file_read_def)
    obtain f ds where fd: "fds ! i = (f, ds)" by (cases "fds ! i")
    then have "(f, ds) \<in> set fds" using i by (metis nth_mem)
    then have "length (constants f) = length ds" "verify_function f"
      using assms(2,4,6) by (auto simp: list_all_iff described_def)
    moreover have "function_read (arg_debug a) (f, ds) g s'" using b(3) i fd by (auto simp: file_read_def)
    ultimately show ?thesis using verify_read by metis
  qed
  then have "list_all verify_function (file_functions fl)" by (simp add: list_all_iff)
  then have "deserialize env expected ?s = (Inr fl, s')"
    using hd b(1) by (simp add: deserialize_def rd_bind_def rd_return_def)
  moreover have "serialize fuel h it a = Some ?bs" by (rule serialize_bytes [OF assms(1,2,4,5)]) (rule assms(7))
  ultimately show ?thesis using b(2,3) by blast
qed

section \<open>Any input\<close>

named_theorems consumes \<open>readers take their bytes from the front of the input\<close>
named_theorems same_upto \<open>readers that agree on short inputs\<close>
named_theorems framed \<open>readers that succeed whatever follows what they take\<close>

text \<open>Every reader takes its bytes from the front of the input.\<close>

definition consumes :: "'a rd \<Rightarrow> bool" where
  "consumes m \<longleftrightarrow> (\<forall>s. \<exists>u. inb s = u @ inb (snd (m s)))"

lemma consumes_basic [consumes]:
  "consumes (rd_return x)" "consumes (rd_fail e)" "consumes (read_bytes n)" "consumes (rd_push_root v)"
  "consumes (rd_alloc f)" "consumes (rd_intern tg str)" "consumes (rd_enc r)"
  by (auto simp: consumes_def rd_return_def rd_fail_def read_bytes_def rd_push_root_def rd_alloc_def rd_intern_def rd_enc_def
      split: sum.splits prod.splits intro: append_take_drop_id [symmetric])

lemma consumes_bind [consumes]: "consumes m \<Longrightarrow> (\<And>x. consumes (f x)) \<Longrightarrow> consumes (rd_bind m f)"
  unfolding consumes_def rd_bind_def
  by (intro allI, split prod.split, split sum.split) (metis append_assoc snd_conv)

lemma consumes_if [consumes]: "(b \<Longrightarrow> consumes m) \<Longrightarrow> (\<not> b \<Longrightarrow> consumes m') \<Longrightarrow> consumes (if b then m else m')"
  by simp

lemma consumes_times [consumes]: "consumes m \<Longrightarrow> consumes (rd_times n m)"
  by (induction n) (simp_all add: consumes)

lemma consumes_frame [consumes]: "consumes m \<Longrightarrow> consumes (with_root_frame m)"
  by (auto simp: consumes_def with_root_frame_def Let_def split: prod.splits) (metis snd_conv)

lemma consumes_words [consumes]: "consumes read_u8" "consumes read_u16" "consumes read_u32" "consumes read_u64"
  unfolding read_u8_def read_u16_def read_u32_def read_u64_def by (intro consumes)+

lemma consumes_str [consumes]: "consumes read_str"
  unfolding read_str_def by (intro consumes)

lemma consumes_list [consumes]: "consumes m \<Longrightarrow> consumes (read_list m)"
  unfolding read_list_def by (intro consumes)

lemma consumes_constant [consumes]: "consumes (read_constant env n)"
  by (induction n) (simp_all only: read_constant.simps, (intro consumes | assumption)+)

text \<open>Two readers that agree up to a length of input.\<close>

definition same_upto :: "nat \<Rightarrow> 'a rd \<Rightarrow> 'a rd \<Rightarrow> bool" where
  "same_upto n m m' \<longleftrightarrow> (\<forall>s. length (inb s) \<le> n \<longrightarrow> m s = m' s)"

lemma same_upto_refl [same_upto]: "same_upto n m m"
  by (simp add: same_upto_def)

lemma same_upto_bind [same_upto]:
  assumes "consumes m" "same_upto n m m'" "\<And>x. same_upto n (f x) (f' x)"
  shows "same_upto n (rd_bind m f) (rd_bind m' f')"
  unfolding same_upto_def
proof (intro allI impI)
  fix s :: etac_in assume l: "length (inb s) \<le> n"
  obtain r s' where m: "m s = (r, s')" by (cases "m s")
  obtain u where "inb s = u @ inb s'" using assms(1) m unfolding consumes_def by (metis snd_conv)
  then have "length (inb s') \<le> n" using l by simp
  then show "rd_bind m f s = rd_bind m' f' s"
    using assms(2,3) l m by (auto simp: rd_bind_def same_upto_def split: sum.splits)
qed

lemma same_upto_if [same_upto]:
  "(b \<Longrightarrow> same_upto n m1 m1') \<Longrightarrow> (\<not> b \<Longrightarrow> same_upto n m2 m2') \<Longrightarrow> same_upto n (if b then m1 else m2) (if b then m1' else m2')"
  by simp

lemma same_upto_times [same_upto]: "consumes m \<Longrightarrow> same_upto n m m' \<Longrightarrow> same_upto n (rd_times k m) (rd_times k m')"
  by (induction k) (auto intro!: same_upto consumes simp del: rd_times.simps(2) simp: rd_times.simps(2) [of _ m] rd_times.simps(2) [of _ m'])

lemma same_upto_frame [same_upto]: "same_upto n m m' \<Longrightarrow> same_upto n (with_root_frame m) (with_root_frame m')"
  by (simp add: same_upto_def with_root_frame_def)

text \<open>After a byte has been read less input is left.\<close>

lemma same_upto_tag:
  assumes "\<And>x. same_upto n (f x) (f' x)"
  shows "same_upto (Suc n) (rd_bind read_u8 f) (rd_bind read_u8 f')"
  using assms
  by (auto simp: same_upto_def rd_bind_def read_u8_def read_bytes_def rd_return_def)

lemma read_constant_fuel: "same_upto n (read_constant env (Suc n + a)) (read_constant env (Suc n + b))"
proof (induction n)
  case 0
  have "read_constant env (Suc a) s = (Inl Truncated, s\<lparr> inb := [] \<rparr>)" if "inb s = []" for a s
    using that by (simp add: read_constant.simps rd_bind_def read_u8_def read_bytes_def)
  then show ?case by (simp add: same_upto_def)
next
  case (Suc n)
  have "same_upto (Suc n) (read_constant env (Suc (Suc n + a))) (read_constant env (Suc (Suc n + b)))"
    unfolding read_constant.simps(2)
    by (rule same_upto_tag) (intro same_upto consumes Suc.IH)
  then show ?case by simp
qed

lemma consumes_parts [consumes]:
  "consumes read_dep" "consumes read_package" "consumes read_import_binding" "consumes read_export_binding"
  "consumes (read_module version)" "consumes read_instruction" "consumes read_span" "consumes read_deps"
  "consumes (read_extended file)" "consumes read_magic"
proof -
  show d: "consumes read_dep" unfolding read_dep_def by (intro consumes)
  show "consumes read_package" unfolding read_package_def by (intro consumes)
  show i: "consumes read_import_binding" unfolding read_import_binding_def by (intro consumes)
  show e: "consumes read_export_binding" unfolding read_export_binding_def by (intro consumes)
  show "consumes (read_module version)" unfolding read_module_def Let_def by (intro consumes i e)
  show "consumes read_instruction" unfolding read_instruction_def by (intro consumes)
  show "consumes read_span" unfolding read_span_def by (intro consumes)
  show ds: "consumes read_deps" unfolding read_deps_def by (intro consumes d)
  show "consumes (read_extended file)"
    unfolding read_extended_def by (intro consumes ds) (auto simp: read_package_def intro!: consumes)
  show "consumes read_magic"
    using consumes_basic(3) [of 4] by (auto simp: consumes_def read_magic_def split: prod.splits sum.splits) (metis snd_conv)+
qed

lemma consumes_function [consumes]: "consumes rdc \<Longrightarrow> consumes (read_function rdc debug)"
  unfolding read_function_def by (intro consumes)

lemma consumes_header [consumes]: "consumes (read_header expected)"
  unfolding read_header_def by (intro consumes)

lemma consumes_body [consumes]: "consumes (read_body env n file)"
  unfolding read_body_def by (intro consumes)

definition deserialize_at :: "nat \<Rightarrow> alloc_env \<Rightarrow> u32 \<Rightarrow> etac_file rd" where
  "deserialize_at n env expected =
     rd_bind (read_header expected) (\<lambda>fl. rd_bind (read_body env n fl) (\<lambda>fl.
     if list_all verify_function (file_functions fl) then rd_return fl else rd_fail InvalidBytecode))"

lemma deserialize_at: "deserialize env expected s = deserialize_at (Suc (length (inb s))) env expected s"
  by (simp add: deserialize_def deserialize_at_def)

lemma consumes_deserialize: "consumes (deserialize env expected)"
proof -
  have "consumes (deserialize_at n env expected)" for n
    unfolding deserialize_at_def by (intro consumes)
  then show ?thesis unfolding consumes_def deserialize_at by blast
qed

lemma deserialize_at_fuel:
  assumes "length (inb s) \<le> n"
  shows "deserialize_at (Suc n) env expected s = deserialize env expected s"
proof -
  obtain a where a: "n = length (inb s) + a" using assms le_Suc_ex by blast
  let ?m = "length (inb s)"
  have c: "same_upto ?m (read_constant env (Suc n)) (read_constant env (Suc ?m))"
    using read_constant_fuel [of ?m env a 0] a by simp
  have l: "same_upto ?m (read_list (read_constant env (Suc n))) (read_list (read_constant env (Suc ?m)))"
    unfolding read_list_def by (intro same_upto consumes c)
  have fn: "same_upto ?m (read_function (read_constant env (Suc n)) debug) (read_function (read_constant env (Suc ?m)) debug)" for debug
    unfolding read_function_def by (intro same_upto consumes l)
  have "same_upto ?m (deserialize_at (Suc n) env expected) (deserialize_at (Suc ?m) env expected)"
    unfolding deserialize_at_def read_body_def by (intro same_upto consumes fn)
  then show ?thesis by (simp add: same_upto_def deserialize_at)
qed

section \<open>Truncated input\<close>

text \<open>A reader that succeeds does not look past what it takes.\<close>

definition framed :: "'a rd \<Rightarrow> bool" where
  "framed m \<longleftrightarrow> (\<forall>s x s' t. m s = (Inr x, s') \<longrightarrow> m (s\<lparr> inb := inb s @ t \<rparr>) = (Inr x, s'\<lparr> inb := inb s' @ t \<rparr>))"

lemma framed_basic [framed]:
  "framed (rd_return x)" "framed (rd_fail e)" "framed (read_bytes n)" "framed (rd_push_root v)"
  "framed (rd_alloc f)" "framed (rd_intern tg str)" "framed (rd_enc r)"
  by (auto simp: framed_def rd_return_def rd_fail_def read_bytes_def rd_push_root_def rd_alloc_def rd_intern_def rd_enc_def
      split: sum.splits prod.splits if_splits)

lemma framed_bind [framed]: "framed m \<Longrightarrow> (\<And>x. framed (f x)) \<Longrightarrow> framed (rd_bind m f)"
  unfolding framed_def rd_bind_def by (auto split: prod.splits sum.splits)

lemma framed_if [framed]: "(b \<Longrightarrow> framed m) \<Longrightarrow> (\<not> b \<Longrightarrow> framed m') \<Longrightarrow> framed (if b then m else m')"
  by simp

lemma framed_times [framed]: "framed m \<Longrightarrow> framed (rd_times n m)"
  by (induction n) (simp_all add: framed)

lemma framed_frame [framed]: "framed m \<Longrightarrow> framed (with_root_frame m)"
  by (fastforce simp: framed_def with_root_frame_def Let_def split: prod.splits)

lemma framed_words [framed]: "framed read_u8" "framed read_u16" "framed read_u32" "framed read_u64"
  unfolding read_u8_def read_u16_def read_u32_def read_u64_def by (intro framed)+

lemma framed_str [framed]: "framed read_str"
  unfolding read_str_def by (intro framed)

lemma framed_list [framed]: "framed m \<Longrightarrow> framed (read_list m)"
  unfolding read_list_def by (intro framed)

lemma framed_constant [framed]: "framed (read_constant env n)"
  by (induction n) (simp_all only: read_constant.simps, (intro framed | assumption)+)

lemma framed_parts [framed]:
  "framed read_dep" "framed read_package" "framed read_import_binding" "framed read_export_binding"
  "framed (read_module version)" "framed read_instruction" "framed read_span" "framed read_deps"
  "framed (read_extended file)" "framed read_magic"
proof -
  show d: "framed read_dep" unfolding read_dep_def by (intro framed)
  show "framed read_package" unfolding read_package_def by (intro framed)
  show i: "framed read_import_binding" unfolding read_import_binding_def by (intro framed)
  show e: "framed read_export_binding" unfolding read_export_binding_def by (intro framed)
  show "framed (read_module version)" unfolding read_module_def Let_def by (intro framed i e)
  show "framed read_instruction" unfolding read_instruction_def by (intro framed)
  show "framed read_span" unfolding read_span_def by (intro framed)
  show ds: "framed read_deps" unfolding read_deps_def by (intro framed d)
  show "framed (read_extended file)"
    unfolding read_extended_def by (intro framed ds) (auto simp: read_package_def intro!: framed)
  show "framed read_magic"
    by (auto simp: framed_def read_magic_def read_bytes_def split: if_splits)
qed

lemma framed_deserialize_at: "framed (deserialize_at n env expected)"
  unfolding deserialize_at_def read_header_def read_body_def read_function_def by (intro framed)

lemma framed_deserialize: "framed (deserialize env expected)"
  unfolding framed_def
proof (intro allI impI)
  fix s x s' t assume d: "deserialize env expected s = (Inr x, s')"
  let ?n = "length (inb s @ t)"
  have "deserialize_at (Suc ?n) env expected s = (Inr x, s')" using d deserialize_at_fuel [of s ?n] by simp
  then have "deserialize_at (Suc ?n) env expected (s\<lparr> inb := inb s @ t \<rparr>) = (Inr x, s'\<lparr> inb := inb s' @ t \<rparr>)"
    using framed_deserialize_at [of "Suc ?n"] by (simp add: framed_def)
  then show "deserialize env expected (s\<lparr> inb := inb s @ t \<rparr>) = (Inr x, s'\<lparr> inb := inb s' @ t \<rparr>)"
    by (simp add: deserialize_at)
qed

text \<open>C21: The nesting of a constant is bounded by the input: with any fuel above the number of bytes left
  the reader returns the same result, so the recursion of \<^verbatim>\<open>read_constant\<close> always ends; and it takes
  at least one byte, from the front of the input.\<close>

theorem read_constant_terminates:
  assumes "length (inb s) < n"
  shows "read_constant env n s = read_constant env (Suc (length (inb s))) s
    \<and> (\<exists>u. inb s = u @ inb (snd (read_constant env n s)) \<and> (u = [] \<longrightarrow> inb s = []))"
proof (intro conjI)
  obtain a where n: "n = Suc (length (inb s)) + a" using assms [folded Suc_le_eq] le_Suc_ex by blast
  show "read_constant env n s = read_constant env (Suc (length (inb s))) s"
    using read_constant_fuel [of "length (inb s)" env a 0] by (simp add: n same_upto_def)
  show "\<exists>u. inb s = u @ inb (snd (read_constant env n s)) \<and> (u = [] \<longrightarrow> inb s = [])"
  proof (cases "inb s")
    case Nil
    then show ?thesis using consumes_constant [unfolded consumes_def, rule_format, of s env n] by auto
  next
    case (Cons b bs)
    obtain m where m: "n = Suc m" using assms by (cases n) auto
    have s: "s = s\<lparr> inb := b # bs \<rparr>" using Cons by (cases s) simp
    have "\<exists>g. consumes g \<and> read_constant env n s = g (s\<lparr> inb := bs \<rparr>)"
      unfolding m by (subst s, subst read_constant_tag) (rule exI, rule conjI [OF _ refl], intro consumes)
    then obtain g where g: "consumes g" "read_constant env n s = g (s\<lparr> inb := bs \<rparr>)" by blast
    obtain u where "bs = u @ inb (snd (g (s\<lparr> inb := bs \<rparr>)))"
      using g(1) [unfolded consumes_def, rule_format, of "s\<lparr> inb := bs \<rparr>"] by auto
    then have "inb s = (b # u) @ inb (snd (read_constant env n s))" using Cons g(2) by simp
    then show ?thesis by blast
  qed
qed

lemma rd_bind_Inr: "rd_bind m f s = (Inr y, s'') \<longleftrightarrow> (\<exists>x s'. m s = (Inr x, s') \<and> f x s' = (Inr y, s''))"
  by (auto simp: rd_bind_def split: prod.splits sum.splits)

lemma read_extended_keeps:
  "read_extended fl s = (Inr fl', s') \<Longrightarrow> format_version fl' = format_version fl \<and> builtin_count fl' = builtin_count fl"
  by (auto simp: read_extended_def rd_bind_Inr rd_return_def split: if_splits)

lemma read_header_ok:
  assumes "read_header expected s = (Inr fl, s')"
  shows "take 4 (inb s) = MAGIC" "version_known (format_version fl)" "expected \<noteq> 0 \<Longrightarrow> builtin_count fl = expected"
  using assms read_extended_keeps
  by (fastforce simp: read_header_def rd_bind_Inr read_magic_def read_bytes_def rd_fail_def split: if_splits sum.splits prod.splits)+

text \<open>C19: Whatever the bytes, a file that loads starts with the magic number, has a known version and the
  expected number of builtins, and every function in it has only named opcodes, constant
  indices within its constants and local slots within its stack.\<close>

theorem deserialize_safe:
  assumes "deserialize env expected s = (Inr fl, s')"
  shows "take 4 (inb s) = MAGIC \<and> version_known (format_version fl)
    \<and> (expected \<noteq> 0 \<longrightarrow> builtin_count fl = expected)
    \<and> (\<forall>f \<in> set (file_functions fl). \<forall>i \<in> set (fn_code f). instruction_ok (length (constants f)) (unat (stack_size f)) i)"
proof -
  obtain hd s1 where h: "read_header expected s = (Inr hd, s1)"
    and b: "\<exists>n. read_body env n hd s1 = (Inr fl, s')" and v: "list_all verify_function (file_functions fl)"
    using assms by (auto simp: deserialize_def rd_bind_Inr rd_return_def rd_fail_def split: if_splits)
  have "format_version fl = format_version hd" "builtin_count fl = builtin_count hd"
    using b by (auto simp: read_body_def rd_bind_Inr rd_return_def)
  then show ?thesis using read_header_ok [OF h] v by (auto simp: list_all_iff verify_function_iff)
qed

text \<open>C20: A truncated file is always refused: cut anywhere before the end of what a successful load
  takes, the bytes give an error.\<close>

theorem deserialize_truncated:
  assumes "deserialize env expected s = (Inr fl, s')" "inb s = p @ q @ inb s'" "q \<noteq> []"
  shows "\<exists>e s''. deserialize env expected (s\<lparr> inb := p \<rparr>) = (Inl e, s'')"
proof (cases "deserialize env expected (s\<lparr> inb := p \<rparr>)")
  case (Pair r s'')
  show ?thesis
  proof (cases r)
    case (Inr fl')
    then have "deserialize env expected (s\<lparr> inb := inb s \<rparr>) = (Inr fl', s''\<lparr> inb := inb s'' @ q @ inb s' \<rparr>)"
      using framed_deserialize [unfolded framed_def, rule_format, of env expected "s\<lparr> inb := p \<rparr>" fl' s'' "q @ inb s'"] Pair assms(2)
      by simp
    then have "s' = s''\<lparr> inb := inb s'' @ q @ inb s' \<rparr>" using assms(1) by simp
    from arg_cong [OF this, of "length \<circ> inb"] show ?thesis using assms(3) by simp
  qed (use Pair in simp)
qed

text \<open>An artifact is fresh exactly when its version is known and every expectation of the context
  holds: compiler, builtins, source and manifest hash where they are given, and for every
  expected dependency the first entry of that name has the expected hash.\<close>

theorem fresh_exact:
  "fresh (check_freshness f c) \<longleftrightarrow> version_known (format_version f)
     \<and> (expected_compiler_id c = None \<or> has_compiler_id f \<and> expected_compiler_id c = Some (compiler_id f))
     \<and> expected_builtin_count c \<in> {None, Some (builtin_count f)}
     \<and> expected_source_hash c \<in> {None, Some (source_hash f)}
     \<and> (expected_manifest_hash c = None
        \<or> package_meta f \<noteq> None \<and> expected_manifest_hash c = map_option manifest_hash (package_meta f))
     \<and> list_all (\<lambda>e. map_option etac_hash (List.find (\<lambda>a. dependency a = dependency e) (dependency_hashes f))
                    = Some (etac_hash e)) (expected_dependency_hashes c)"
proof -
  have d: "check_deps as es = None \<longleftrightarrow>
      list_all (\<lambda>e. map_option etac_hash (List.find (\<lambda>a. dependency a = dependency e) as) = Some (etac_hash e)) es" for as es
    by (induction es) (simp_all split: option.splits)
  have n: "(case check_deps as es of Some r \<Rightarrow> status r = Fresh | None \<Rightarrow> True) \<longleftrightarrow> check_deps as es = None" for as es
    by (induction es) (simp_all split: option.splits)
  have "status (case x of Some r \<Rightarrow> r | None \<Rightarrow> \<lparr> status = Fresh, detail = [] \<rparr>) = Fresh
      \<longleftrightarrow> (case x of Some r \<Rightarrow> status r = Fresh | None \<Rightarrow> True)" for x
    by (cases x) simp_all
  then have "status (case check_deps as es of Some r \<Rightarrow> r | None \<Rightarrow> \<lparr> status = Fresh, detail = [] \<rparr>) = Fresh
      \<longleftrightarrow> check_deps as es = None" for as es
    by (simp add: n)
  then show ?thesis unfolding d [symmetric]
    by (cases "expected_compiler_id c"; cases "expected_builtin_count c"; cases "expected_source_hash c";
        cases "expected_manifest_hash c"; cases "package_meta f")
      (simp_all add: fresh_def check_freshness_def, safe?)
qed

text \<open>C18: A file round trip. Whatever data the constants denote in the writer's heap, the bytes written
  are read back, in any store with room for them, as the same header, imports, modules and
  functions; each constant denotes the same datum in the reader's store; only the offsets of
  spans are lost; and the input after the file is left untouched.\<close>

theorem serialize_roundtrip:
  assumes "typed_heap h" "arg_registry a = map fst fds" "args_ok a"
    and "list_all (described h it) fds" "list_all function_ok fds" "list_all verify_function (arg_registry a)"
    and "\<And>f ds d. (f, ds) \<in> set fds \<Longrightarrow> d \<in> set ds \<Longrightarrow> datum_depth d < fuel"
    and "expected = 0 \<or> expected = arg_builtins a"
    and "room_for env (objects_needed fds) (strings_needed fds) s"
  shows "\<exists>bs file s'. serialize fuel h it a = Some bs
    \<and> deserialize env expected (s\<lparr> inb := bs @ rest \<rparr>) = (Inr file, s') \<and> inb s' = rest \<and> file_read a fds file s'"
  using assms by (rule deserialize_serialized)

section \<open>Witnesses\<close>

definition sample_env :: alloc_env where
  "sample_env = \<lparr> env_gc = None, env_mem = True, env_vec_size = 24 \<rparr>"

definition sample_start :: heap where "sample_start = heap_with_pool 4 1000"

definition sample_store :: heap where
  "sample_store = snd (make_cons sample_env (box Fixnum_tag 1) Nil_val sample_start)"

definition sample_strings :: intern_table where
  "sample_strings = snd (intern ''hi'' empty_intern)"

definition sample_function :: bytecode_function where
  "sample_function = empty_function\<lparr> fn_code := [\<lparr> opcode = LoadConst_op, arg = 0 \<rparr>, \<lparr> opcode = Return_op, arg = 0 \<rparr>],
     constants := [box HeapObject_tag 1, box String_tag (the (str_to_id sample_strings ''hi''))],
     stack_size := 1, fn_name := ''f'', local_names := [''x''] \<rparr>"

definition sample_data :: "datum list" where
  "sample_data = [DCons (DFix 1) DNil, DString ''hi'']"

definition sample_args :: serialize_args where
  "sample_args = \<lparr> arg_modules = [\<lparr> mod_name = ''m'', init_func_index = 0, total_globals = 1, main_func_slot = None,
       first_func_index = 0, func_count = 1, owned_global_slots = [0], import_bindings = [],
       export_bindings = [\<lparr> export_name = ''e'', export_slot = 0 \<rparr>] \<rparr>],
     arg_registry = [sample_function], arg_source_hash = 7, arg_debug = True, arg_imports = [''std.io''],
     arg_builtins = 3, arg_package = Some \<lparr> package_name = ''p'', package_version = ''1'', manifest_hash = 5 \<rparr>,
     arg_deps = [\<lparr> dependency = ''q'', etac_hash = 9 \<rparr>], arg_compiler_id = make_fingerprint128 ''eta'' \<rparr>"

definition sample_in :: "bytes \<Rightarrow> etac_in" where
  "sample_in bs = \<lparr> inb = bs, in_heap = sample_start, in_intern = empty_intern \<rparr>"

lemma sample_room: "ser_room sample_env 2 sample_start" "objects sample_start = Map.empty"
proof -
  have w: "heap_wf sample_start" and e: "objects sample_start = Map.empty"
    unfolding sample_start_def by (rule heap_with_pool_wf; simp)+
  have "pool_kinds (pool sample_start)"
    by (auto simp: pool_kinds_def sample_start_def heap_with_pool_def grow_def Let_def empty_pool_def null_slot_def new_slot_def)
  moreover have "total_heap_bytes sample_start = 0" "max_heap_soft_limit sample_start = 1000"
    "live_count (pool sample_start) = 0" "total_capacity (pool sample_start) = 4" "next_id sample_start = 5"
    "gc_in_progress sample_start = False" "growth (pool sample_start) = 4"
    by code_simp+
  ultimately show "ser_room sample_env 2 sample_start"
    using w by (simp add: ser_room_def typed_heap_def sample_env_def CONS_SIZE_def PAYLOAD_MASK_def)
  show "objects sample_start = Map.empty" by (rule e)
qed

lemma sample_objects: "typed_heap sample_store" "objects sample_store = [1 \<mapsto> Cons_obj (box Fixnum_tag 1) Nil_val]"
proof -
  obtain i h' where m: "make_cons sample_env (box Fixnum_tag 1) Nil_val sample_start = (Inr i, h')"
    "ser_room sample_env 1 h'" "objects h' = (objects sample_start)(i \<mapsto> Cons_obj (box Fixnum_tag 1) Nil_val)"
    using make_cons_total [of sample_env 1 sample_start "box Fixnum_tag 1" Nil_val] sample_room(1) by (auto simp: numeral_2_eq_2)
  have "fst (make_cons sample_env (box Fixnum_tag 1) Nil_val sample_start) = Inr 1" by code_simp
  then have "i = 1" using m(1) by simp
  then show "typed_heap sample_store" "objects sample_store = [1 \<mapsto> Cons_obj (box Fixnum_tag 1) Nil_val]"
    using m sample_room(2) by (simp_all add: sample_store_def ser_room_def)
qed

lemma sample_strings_intern: "id_to_str sample_strings = [0 \<mapsto> ''hi'']" "str_to_id sample_strings = [''hi'' \<mapsto> 0]"
  by (simp_all add: sample_strings_def intern_def empty_intern_def emplace_def Let_def PAYLOAD_MASK_def)

lemma sample_described: "described sample_store sample_strings (sample_function, sample_data)"
proof -
  have "encode_i64 1 = Inr (box Fixnum_tag 1)" by code_simp
  then show ?thesis
    by (auto simp: described_def sample_function_def sample_data_def sample_objects sample_strings_intern less_Suc_eq
        PAYLOAD_MASK_def)
qed

lemma sample_function_ok: "function_ok (sample_function, sample_data)" "verify_function sample_function"
proof -
  have e: "is_ok (encode_i64 1)" by code_simp
  show "function_ok (sample_function, sample_data)"
    by (simp add: function_ok_def sample_function_def sample_data_def empty_function_def str_ok_def e
        instructionc.list_ok_def strc.list_ok_def instruction_wf_def named_ops_def)
  show "verify_function sample_function"
    by (simp add: verify_function_iff sample_function_def empty_function_def instruction_ok_def named_ops_def)
qed

lemma sample_args_ok: "args_ok sample_args"
  by (simp add: args_ok_def sample_args_def modulec.list_ok_def module_ok_def strc.list_ok_def u32c.list_ok_def
      importc.list_ok_def exportc.list_ok_def str_ok_def export_ok_def package_ok_def dep_ok_def make_fingerprint128_def)

lemma sample_room_for: "room_for sample_env (objects_needed [(sample_function, sample_data)])
    (strings_needed [(sample_function, sample_data)]) (sample_in bs)"
proof -
  have "intern_budget 1 empty_intern"
    using intern_wf_empty by (simp add: intern_budget_def empty_intern_def PAYLOAD_MASK_def)
  moreover have "ser_room sample_env 1 sample_start" by (rule ser_room_mono [OF sample_room(1)]) simp
  ultimately show ?thesis
    by (simp add: room_for_def sample_in_def objects_needed_def strings_needed_def function_objects_def
        function_strings_def sample_data_def)
qed

lemma serialize_roundtrip_witness:
  "\<exists>bs fl s'. serialize 9 sample_store sample_strings sample_args = Some bs
    \<and> deserialize sample_env 3 (sample_in [] \<lparr> inb := bs @ [1, 2] \<rparr>) = (Inr fl, s') \<and> inb s' = [1, 2]
    \<and> file_read sample_args [(sample_function, sample_data)] fl s'"
  by (rule serialize_roundtrip)
    (auto simp: sample_objects sample_described sample_function_ok sample_args_ok sample_room_for, auto simp: sample_args_def sample_data_def sample_function_ok)

lemma read_constant_terminates_witness:
  "read_constant sample_env 100 (sample_in [8, 1, 8, 0]) = read_constant sample_env (Suc 4) (sample_in [8, 1, 8, 0])"
  using read_constant_terminates [of "sample_in [8, 1, 8, 0]" 100 sample_env]
  by (simp add: sample_in_def numeral_eq_Suc)

text \<open>The sample file loads.\<close>

lemma sample_load:
  obtains bs fl s' where "deserialize sample_env 3 (sample_in (bs @ [1, 2])) = (Inr fl, s')" "inb s' = [1, 2]"
    "file_functions fl \<noteq> []" "bs \<noteq> []"
proof -
  let ?P = "\<lambda>bs fl s'. serialize 9 sample_store sample_strings sample_args = Some bs
    \<and> deserialize sample_env 3 (sample_in [] \<lparr> inb := bs @ [1, 2] \<rparr>) = (Inr fl, s') \<and> inb s' = [1, 2]
    \<and> file_read sample_args [(sample_function, sample_data)] fl s'"
  have "\<exists>bs fl s'. ?P bs fl s'"
    by (rule deserialize_serialized)
      (auto simp: sample_objects sample_described sample_function_ok sample_args_ok sample_room_for,
        auto simp: sample_args_def sample_data_def sample_function_ok)
  then obtain bs fl s' where p: "?P bs fl s'" by blast
  have "file_functions fl \<noteq> []" using p by (auto simp: file_read_def)
  moreover have "bs \<noteq> []" using p by (auto simp: serialize_def write_header_def MAGIC_def split: option.splits)
  ultimately show ?thesis using p that [of bs fl s'] by (simp add: sample_in_def)
qed

lemma deserialize_safe_witness:
  "\<exists>bs fl s'. deserialize sample_env 3 (sample_in bs) = (Inr fl, s') \<and> file_functions fl \<noteq> []
    \<and> take 4 bs = MAGIC \<and> builtin_count fl = 3"
proof -
  obtain bs fl s' where d: "deserialize sample_env 3 (sample_in (bs @ [1, 2])) = (Inr fl, s')" "file_functions fl \<noteq> []"
    by (rule sample_load)
  then show ?thesis using deserialize_safe [OF d(1)] by (auto simp: sample_in_def intro!: exI)
qed

lemma deserialize_truncated_witness:
  "\<exists>bs fl s'. deserialize sample_env 3 (sample_in (bs @ [1, 2])) = (Inr fl, s') \<and> bs \<noteq> []
    \<and> (\<exists>e s''. deserialize sample_env 3 (sample_in (butlast bs)) = (Inl e, s''))"
proof -
  obtain bs fl s' where d: "deserialize sample_env 3 (sample_in (bs @ [1, 2])) = (Inr fl, s')" "inb s' = [1, 2]" "bs \<noteq> []"
    by (rule sample_load)
  have "bs = butlast bs @ [last bs]" using d(3) by simp
  then have "inb (sample_in (bs @ [1, 2])) = butlast bs @ [last bs] @ inb s'" using d(2) by (simp add: sample_in_def)
  from deserialize_truncated [OF d(1) this] have "\<exists>e s''. deserialize sample_env 3 (sample_in (butlast bs)) = (Inl e, s'')"
    by (simp add: sample_in_def)
  then show ?thesis using d by blast
qed

end
