(* ===== verification/Domain.thy ===== *)
theory Domain
  imports NanBox
begin

text \<open>
  The domains of constrained logic variables, \<^verbatim>\<open>eta/core/src/eta/runtime/clp/domain.h\<close> and
  \<^verbatim>\<open>constraint_store.h\<close>: integer intervals, chunked bit sets and real intervals. Values of
  type \<^verbatim>\<open>int64_t\<close> are integers; signed overflow is undefined in the code, and the results
  below state the window inside which no operation leaves the 64-bit range. A double is its
  bit pattern.
\<close>

section \<open>Words as sets of bit numbers\<close>

definition countr_zero :: "u64 \<Rightarrow> nat" where
  "countr_zero w = length (takeWhile (\<lambda>n. \<not> bit w n) [0..<64])"

definition countl_zero :: "u64 \<Rightarrow> nat" where
  "countl_zero w = length (takeWhile (\<lambda>n. \<not> bit w (63 - n)) [0..<64])"

definition popcount :: "u64 \<Rightarrow> nat" where
  "popcount w = length (filter (bit w) [0..<64])"

lemma takeWhile_upt:
  "k < n \<Longrightarrow> P k \<Longrightarrow> (\<And>j. j < k \<Longrightarrow> \<not> P j) \<Longrightarrow> takeWhile (\<lambda>n. \<not> P n) [0..<n] = [0..<k]"
proof -
  assume k: "k < n" "P k" "\<And>j. j < k \<Longrightarrow> \<not> P j"
  then have "[0..<n] = [0..<k] @ k # [Suc k..<n]"
    by (metis le0 less_imp_le_nat upt_add_eq_append upt_conv_Cons le_add_diff_inverse plus_nat.add_0)
  with k show ?thesis by (simp add: takeWhile_append)
qed

lemma word_has_bit: "w \<noteq> 0 \<Longrightarrow> \<exists>n < 64. bit (w :: u64) n"
proof (rule ccontr)
  assume w: "w \<noteq> 0" and n: "\<not> (\<exists>n < 64. bit w n)"
  have "w = 0" by (rule bit_word_eqI) (use n in auto)
  with w show False by simp
qed

lemma countr_zero_correct:
  assumes "w \<noteq> 0"
  shows "bit w (countr_zero w)" "countr_zero w < 64" "j < countr_zero w \<Longrightarrow> \<not> bit w j"
proof -
  define k where "k = (LEAST n. bit w n)"
  obtain n where n: "n < 64" "bit w n" using word_has_bit [OF assms] by auto
  have k: "bit w k" "\<And>j. j < k \<Longrightarrow> \<not> bit w j"
    unfolding k_def using n(2) by (auto intro: LeastI dest: not_less_Least)
  have "k \<le> n" unfolding k_def using n(2) by (rule Least_le)
  then have "k < 64" using n(1) by simp
  then have "countr_zero w = k" using k by (simp add: countr_zero_def takeWhile_upt)
  with k \<open>k < 64\<close> show "bit w (countr_zero w)" "countr_zero w < 64" "j < countr_zero w \<Longrightarrow> \<not> bit w j" by auto
qed

lemma countl_zero_correct:
  assumes "w \<noteq> 0"
  shows "bit w (63 - countl_zero w)" "countl_zero w < 64" "63 - countl_zero w < j \<Longrightarrow> \<not> bit w j"
proof -
  define k where "k = (LEAST n. bit w (63 - n))"
  obtain n where n: "n < 64" "bit w n" using word_has_bit [OF assms] by auto
  then have b: "bit w (63 - (63 - n))" by simp
  have k: "bit w (63 - k)" "\<And>j. j < k \<Longrightarrow> \<not> bit w (63 - j)"
    unfolding k_def using b by (auto intro: LeastI dest: not_less_Least)
  have "k \<le> 63 - n" unfolding k_def using b by (rule Least_le)
  then have "k < 64" by simp
  then have e: "countl_zero w = k" using k by (simp add: countl_zero_def takeWhile_upt [where P = "\<lambda>n. bit w (63 - n)"])
  show "bit w (63 - countl_zero w)" "countl_zero w < 64" using k \<open>k < 64\<close> e by auto
  assume j: "63 - countl_zero w < j"
  show "\<not> bit w j"
  proof (cases "j < 64")
    case True
    then have "63 - j < k" "63 - (63 - j) = j" using j e \<open>k < 64\<close> by auto
    with k(2) [of "63 - j"] show ?thesis by simp
  next
    case False
    then show ?thesis using bit_imp_le_length [of w j] by auto
  qed
qed

text \<open>\<^verbatim>\<open>w &= w - 1\<close> clears the lowest set bit.\<close>

lemma bit_clear_lowest:
  fixes w :: u64
  assumes "w \<noteq> 0"
  shows "bit (w AND (w - 1)) n \<longleftrightarrow> bit w n \<and> n \<noteq> countr_zero w"
proof -
  let ?k = "countr_zero w"
  note k = countr_zero_correct [OF assms]
  let ?v = "w AND NOT (push_bit ?k 1)"
  have v: "bit ?v m \<longleftrightarrow> bit w m \<and> m \<noteq> ?k" for m
    using bit_imp_le_length [of w m] by (auto simp: bit_simps)
  have "?v + push_bit ?k 1 = ?v OR push_bit ?k 1"
    by (rule disjunctive_add_eq_or) (auto intro!: bit_word_eqI simp: bit_simps)
  also have "\<dots> = w" using k(1,2) by (auto intro!: bit_word_eqI simp: bit_simps)
  finally have w: "w = ?v + push_bit ?k 1" by simp
  have "?v + mask ?k = ?v OR mask ?k"
    by (rule disjunctive_add_eq_or) (auto intro!: bit_word_eqI simp: bit_simps dest: k(3))
  moreover have "w - 1 = ?v + mask ?k"
    by (subst w) (simp add: mask_eq_exp_minus_1 push_bit_of_1)
  ultimately have "w - 1 = ?v OR mask ?k" by simp
  then have "bit (w - 1) n \<longleftrightarrow> bit ?v n \<or> bit (mask ?k :: u64) n" by (simp add: bit_or_iff)
  then show ?thesis using v [of n] k(3) [of n] by (auto simp: bit_and_iff bit_mask_iff)
qed

lemma clear_lowest_less:
  fixes w :: u64
  assumes "w \<noteq> 0"
  shows "unat (w AND (w - 1)) < unat w"
proof -
  have "w AND (w - 1) \<le> w - 1" by (rule word_and_le1)
  moreover have "w - 1 < w" using assms by (simp add: word_less_nat_alt unat_minus_one unat_gt_0)
  ultimately show ?thesis by (meson le_less_trans word_less_nat_alt)
qed

text \<open>The inner loop of \<^verbatim>\<open>for_each\<close>: the numbers of the set bits, ascending.\<close>

function word_members :: "u64 \<Rightarrow> nat list" where
  "word_members w = (if w = 0 then [] else countr_zero w # word_members (w AND (w - 1)))"
  by pat_completeness auto

termination by (relation "measure unat") (auto intro: clear_lowest_less)

declare word_members.simps [simp del]

lemma filter_upt_least:
  assumes "k < n" "P k" "\<And>j. j < k \<Longrightarrow> \<not> P j"
  shows "filter P [0..<n] = k # filter (\<lambda>j. P j \<and> j \<noteq> k) [0..<n]"
proof -
  have "[0..<n] = [0..<k] @ k # [Suc k..<n]"
    using assms(1) by (metis le0 less_imp_le_nat upt_add_eq_append upt_conv_Cons le_add_diff_inverse plus_nat.add_0)
  moreover have "filter P [0..<k] = []" "filter (\<lambda>j. P j \<and> j \<noteq> k) [0..<k] = []"
    using assms(3) by (auto simp: filter_empty_conv)
  moreover have "filter P [Suc k..<n] = filter (\<lambda>j. P j \<and> j \<noteq> k) [Suc k..<n]"
    by (rule filter_cong) auto
  ultimately show ?thesis using assms(2) by simp
qed

lemma word_members_eq: "word_members w = filter (bit w) [0..<64]"
proof (induction w rule: word_members.induct)
  case (1 w)
  show ?case
  proof (cases "w = 0")
    case True
    then show ?thesis by (simp add: word_members.simps)
  next
    case False
    note k = countr_zero_correct [OF False]
    have "filter (bit (w AND (w - 1))) [0..<64] = filter (\<lambda>j. bit w j \<and> j \<noteq> countr_zero w) [0..<64]"
      by (rule filter_cong [OF refl]) (rule bit_clear_lowest [OF False])
    then show ?thesis
      using False 1 filter_upt_least [of "countr_zero w" 64 "bit w"] k
      by (subst word_members.simps) simp
  qed
qed

section \<open>clp(Z): closed integer intervals\<close>

text \<open>
  \<^verbatim>\<open>int64_t\<close> arithmetic that can leave its range goes through \<open>wrap64\<close>, the two's-complement
  reading of the result; the results on ranges carry the hypothesis that nothing wraps.
\<close>

definition wrap64 :: "int \<Rightarrow> int" where
  "wrap64 x = sint (word_of_int x :: 64 word)"

lemma wrap64_id [simp]: "INT64_MIN \<le> x \<Longrightarrow> x \<le> INT64_MAX \<Longrightarrow> wrap64 x = x"
  by (simp add: wrap64_def INT64_MIN_def INT64_MAX_def signed_of_int signed_take_bit_int_eq_self)

definition in_int64 :: "int \<Rightarrow> bool" where
  "in_int64 x \<longleftrightarrow> INT64_MIN \<le> x \<and> x \<le> INT64_MAX"

record z_domain =
  z_lo :: int
  z_hi :: int

definition z_empty :: "z_domain \<Rightarrow> bool" where
  "z_empty d \<longleftrightarrow> z_lo d > z_hi d"

definition z_contains :: "z_domain \<Rightarrow> int \<Rightarrow> bool" where
  "z_contains d v \<longleftrightarrow> v \<ge> z_lo d \<and> v \<le> z_hi d"

definition z_intersect :: "z_domain \<Rightarrow> z_domain \<Rightarrow> z_domain" where
  "z_intersect d e = \<lparr> z_lo = max (z_lo d) (z_lo e), z_hi = min (z_hi d) (z_hi e) \<rparr>"

definition z_size :: "z_domain \<Rightarrow> int" where
  "z_size d = (if z_empty d then 0 else wrap64 (wrap64 (z_hi d - z_lo d) + 1))"

lemma z_contains_intersect: "z_contains (z_intersect d e) v \<longleftrightarrow> z_contains d v \<and> z_contains e v"
  by (auto simp: z_contains_def z_intersect_def)

lemma z_empty_iff: "z_empty d \<longleftrightarrow> (\<forall>v. \<not> z_contains d v)"
  by (force simp: z_empty_def z_contains_def)

lemma z_size_card:
  "z_hi d - z_lo d < INT64_MAX \<Longrightarrow> z_size d = int (card {v. z_contains d v})"
proof -
  assume "z_hi d - z_lo d < INT64_MAX"
  moreover have "{v. z_contains d v} = {z_lo d..z_hi d}" by (auto simp: z_contains_def)
  ultimately show ?thesis
    by (auto simp: z_size_def z_empty_def INT64_MIN_def)
qed

section \<open>clp(FD): chunked bit sets\<close>

record fd_domain =
  fd_base :: int
  fd_bits :: "u64 list"
  fd_count :: int

definition fd_none :: fd_domain where
  "fd_none = \<lparr> fd_base = 0, fd_bits = [], fd_count = 0 \<rparr>"

definition fd_empty :: "fd_domain \<Rightarrow> bool" where
  "fd_empty d \<longleftrightarrow> fd_count d = 0"

definition fd_size :: "fd_domain \<Rightarrow> int" where
  "fd_size d = fd_count d"

text \<open>\<^verbatim>\<open>static_cast<uint64_t>(v - base)\<close>, and the word and bit it selects.\<close>

definition fd_off :: "int \<Rightarrow> int \<Rightarrow> nat" where
  "fd_off base v = unat (word_of_int (v - base) :: u64)"

definition fd_contains :: "fd_domain \<Rightarrow> int \<Rightarrow> bool" where
  "fd_contains d v =
     (if fd_count d = 0 then False
      else if v < fd_base d then False
      else let off = fd_off (fd_base d) v; w = off div 64 in
        if w \<ge> length (fd_bits d) then False
        else (drop_bit (off mod 64) (fd_bits d ! w)) AND 1 \<noteq> 0)"

fun fd_min_from :: "int \<Rightarrow> u64 list \<Rightarrow> int" where
  "fd_min_from wb [] = 0"
| "fd_min_from wb (w # ws) = (if w \<noteq> 0 then wb + int (countr_zero w) else fd_min_from (wb + 64) ws)"

definition fd_min :: "fd_domain \<Rightarrow> int" where
  "fd_min d = fd_min_from (fd_base d) (fd_bits d)"

fun fd_max_to :: "fd_domain \<Rightarrow> nat \<Rightarrow> int" where
  "fd_max_to d 0 = 0"
| "fd_max_to d (Suc i) =
     (if fd_bits d ! i \<noteq> 0 then fd_base d + int i * 64 + int (63 - countl_zero (fd_bits d ! i))
      else fd_max_to d i)"

definition fd_max :: "fd_domain \<Rightarrow> int" where
  "fd_max d = fd_max_to d (length (fd_bits d))"

text \<open>\<^verbatim>\<open>for_each\<close>: the values the callback receives, in order; the callback folds over them.\<close>

fun each_from :: "int \<Rightarrow> u64 list \<Rightarrow> int list" where
  "each_from wb [] = []"
| "each_from wb (w # ws) = map (\<lambda>b. wb + int b) (word_members w) @ each_from (wb + 64) ws"

definition fd_for_each :: "fd_domain \<Rightarrow> (int \<Rightarrow> 's \<Rightarrow> 's) \<Rightarrow> 's \<Rightarrow> 's" where
  "fd_for_each d f s = fold f (each_from (fd_base d) (fd_bits d)) s"

definition fd_to_vector :: "fd_domain \<Rightarrow> int list" where
  "fd_to_vector d = fd_for_each d (\<lambda>v r. r @ [v]) []"

definition fd_recount :: "fd_domain \<Rightarrow> fd_domain" where
  "fd_recount d = d\<lparr> fd_count := fold (\<lambda>w c. c + int (popcount w)) (fd_bits d) 0 \<rparr>"

fun trail_words :: "u64 list \<Rightarrow> nat \<Rightarrow> nat \<Rightarrow> nat" where
  "trail_words ws lead 0 = 0"
| "trail_words ws lead (Suc t) = (if Suc t > lead \<and> ws ! t = 0 then trail_words ws lead t else Suc t)"

definition fd_shrink_to_fit :: "fd_domain \<Rightarrow> fd_domain" where
  "fd_shrink_to_fit d =
     (let ws = fd_bits d; lead = length (takeWhile (\<lambda>w. w = 0) ws) in
      if lead = length ws then \<lparr> fd_base = 0, fd_bits = [], fd_count = 0 \<rparr>
      else let trail = trail_words ws lead (length ws) in
        if lead \<noteq> 0 \<or> trail \<noteq> length ws
        then d\<lparr> fd_bits := drop lead (take trail ws), fd_base := fd_base d + int lead * 64 \<rparr>
        else d)"

text \<open>\<^verbatim>\<open>bits[off / W] |= 1ull << (off % W)\<close>\<close>

definition set_off :: "nat \<Rightarrow> u64 list \<Rightarrow> u64 list" where
  "set_off off ws = ws[off div 64 := ws ! (off div 64) OR push_bit (off mod 64) 1]"

definition fd_from_sorted_unique :: "int list \<Rightarrow> fd_domain" where
  "fd_from_sorted_unique vs =
     (if vs = [] then fd_none
      else let base = hd vs; span = wrap64 (last vs - hd vs) in
        \<lparr> fd_base = base,
          fd_bits = fold (\<lambda>v. set_off (fd_off base v)) vs (replicate (nat (span div 64 + 1)) 0),
          fd_count = int (length vs) \<rparr>)"

definition fd_from_unsorted :: "int list \<Rightarrow> fd_domain" where
  "fd_from_unsorted vs = fd_from_sorted_unique (remdups_adj (sort vs))"

definition fd_from_range :: "int \<Rightarrow> int \<Rightarrow> fd_domain" where
  "fd_from_range lo hi =
     (if lo > hi then fd_none
      else let total = wrap64 (wrap64 (hi - lo) + 1);
               nwords = nat (wrap64 (total + 64 - 1) div 64);
               ws = replicate nwords (- 1);
               used = total - (int nwords - 1) * 64
        in \<lparr> fd_base = lo,
             fd_bits = (if used < 64
               then ws[nwords - 1 := if used \<le> 0 then 0 else push_bit (nat used) 1 - 1]
               else ws),
             fd_count = total \<rparr>)"

definition fd_singleton :: "int \<Rightarrow> fd_domain" where
  "fd_singleton v = \<lparr> fd_base = v, fd_bits = [1], fd_count = 1 \<rparr>"

definition fd_intersect :: "fd_domain \<Rightarrow> fd_domain \<Rightarrow> fd_domain" where
  "fd_intersect d e =
     (if fd_empty d \<or> fd_empty e then fd_none
      else let lo = max (fd_min d) (fd_min e); hi = min (fd_max d) (fd_max e) in
        if lo > hi then fd_none
        else let ws = replicate (nat (wrap64 (hi - lo) div 64 + 1)) 0;
                 small = (if fd_count d \<le> fd_count e then d else e);
                 large = (if fd_count d \<le> fd_count e then e else d);
                 ws' = fd_for_each small
                   (\<lambda>v ws. if v < lo \<or> v > hi then ws
                          else if \<not> fd_contains large v then ws
                          else set_off (fd_off lo v) ws) ws
             in fd_shrink_to_fit (fd_recount \<lparr> fd_base = lo, fd_bits = ws', fd_count = 0 \<rparr>))"

definition fd_intersect_z :: "fd_domain \<Rightarrow> int \<Rightarrow> int \<Rightarrow> fd_domain" where
  "fd_intersect_z d lo hi =
     (if fd_empty d \<or> lo > hi then fd_none
      else let nlo = max (fd_min d) lo; nhi = min (fd_max d) hi in
        if nlo > nhi then fd_none
        else let ws = replicate (nat (wrap64 (nhi - nlo) div 64 + 1)) 0;
                 ws' = fd_for_each d
                   (\<lambda>v ws. if v < lo \<or> v > hi then ws else set_off (fd_off nlo v) ws) ws
             in fd_shrink_to_fit (fd_recount \<lparr> fd_base = nlo, fd_bits = ws', fd_count = 0 \<rparr>))"

subsection \<open>What a bit set denotes\<close>

definition flat_bit :: "u64 list \<Rightarrow> nat \<Rightarrow> bool" where
  "flat_bit ws n \<longleftrightarrow> n div 64 < length ws \<and> bit (ws ! (n div 64)) (n mod 64)"

definition fd_set :: "fd_domain \<Rightarrow> int set" where
  "fd_set d = {fd_base d + int n |n. flat_bit (fd_bits d) n}"

text \<open>
  The cached count is the number of members, every member is an \<^verbatim>\<open>int64_t\<close>, and the window
  is one a vector of words can have.
\<close>

definition fd_wf :: "fd_domain \<Rightarrow> bool" where
  "fd_wf d \<longleftrightarrow> fd_count d = int (card (fd_set d)) \<and> in_int64 (fd_base d)
     \<and> (\<forall>v \<in> fd_set d. in_int64 v) \<and> length (fd_bits d) < 2 ^ 56"

lemma flat_bit_Nil [simp]: "\<not> flat_bit [] n"
  by (simp add: flat_bit_def)

lemma flat_bit_Cons:
  "flat_bit (w # ws) n \<longleftrightarrow> (if n < 64 then bit w n else flat_bit ws (n - 64))"
proof (cases "n < 64")
  case False
  then obtain m where "n = 64 + m" using le_Suc_ex not_less by blast
  moreover have "(64 + m) div 64 = Suc (m div 64)" "(64 + m) mod 64 = m mod 64" by simp_all
  ultimately show ?thesis by (simp add: flat_bit_def)
qed (simp add: flat_bit_def)

lemma flat_bit_bound: "flat_bit ws n \<Longrightarrow> n < 64 * length ws"
  by (auto simp: flat_bit_def)

lemma fd_set_mem: "v \<in> fd_set d \<longleftrightarrow> fd_base d \<le> v \<and> flat_bit (fd_bits d) (nat (v - fd_base d))"
  by (force simp: fd_set_def)

lemma finite_fd_set [simp]: "finite (fd_set d)"
proof (rule finite_subset)
  show "fd_set d \<subseteq> (\<lambda>n. fd_base d + int n) ` {..<64 * length (fd_bits d)}"
    using flat_bit_bound by (auto simp: fd_set_def)
qed simp

lemma set_each_from: "set (each_from wb ws) = {wb + int n |n. flat_bit ws n}"
proof (induction ws arbitrary: wb)
  case (Cons w ws)
  have "{wb + int n |n. flat_bit (w # ws) n}
      = {wb + int n |n. n < 64 \<and> bit w n} \<union> {wb + 64 + int n |n. flat_bit ws n}"
    (is "?l = ?a \<union> ?b")
  proof (intro set_eqI iffI)
    fix x assume "x \<in> ?l"
    then obtain n where n: "x = wb + int n" "flat_bit (w # ws) n" by auto
    show "x \<in> ?a \<union> ?b"
    proof (cases "n < 64")
      case True
      then show ?thesis using n by (auto simp: flat_bit_Cons)
    next
      case False
      then have "x = wb + 64 + int (n - 64)" "flat_bit ws (n - 64)" using n by (auto simp: flat_bit_Cons)
      then show ?thesis by auto
    qed
  next
    fix x assume "x \<in> ?a \<union> ?b"
    then show "x \<in> ?l"
    proof
      assume "x \<in> ?a" then show ?thesis by (auto simp: flat_bit_Cons)
    next
      assume "x \<in> ?b"
      then obtain n where "x = wb + int (n + 64)" "flat_bit (w # ws) (n + 64)" by (auto simp: flat_bit_Cons)
      then show ?thesis by blast
    qed
  qed
  moreover have "set (map (\<lambda>b. wb + int b) (word_members w)) = {wb + int n |n. n < 64 \<and> bit w n}"
    by (auto simp: word_members_eq)
  ultimately show ?case using Cons.IH [of "wb + 64"] by simp
qed simp

lemma set_each: "set (each_from (fd_base d) (fd_bits d)) = fd_set d"
  by (simp add: set_each_from fd_set_def)

lemma each_from_ge: "x \<in> set (each_from wb ws) \<Longrightarrow> wb \<le> x"
  by (auto simp: set_each_from)

lemma sorted_each_from: "sorted (each_from wb ws) \<and> distinct (each_from wb ws)"
proof (induction ws arbitrary: wb)
  case (Cons w ws)
  let ?m = "map (\<lambda>b. wb + int b) (word_members w)"
  have "sorted (word_members w)" "distinct (word_members w)"
    by (simp_all add: word_members_eq sorted_wrt_filter)
  then have "sorted ?m" "distinct ?m"
    by (auto simp: sorted_map distinct_map inj_on_def sorted_wrt_iff_nth_less)
  moreover have "x < y" if "x \<in> set ?m" "y \<in> set (each_from (wb + 64) ws)" for x y
    using that each_from_ge [of y "wb + 64" ws] by (auto simp: word_members_eq)
  ultimately show ?case using Cons.IH [of "wb + 64"]
    by (force simp: sorted_append less_imp_le)
qed simp

lemma length_each_from: "length (each_from wb ws) = sum_list (map popcount ws)"
  by (induction ws arbitrary: wb) (simp_all add: word_members_eq popcount_def)

lemma card_fd_set: "card (fd_set d) = sum_list (map popcount (fd_bits d))"
proof -
  have "card (set (each_from (fd_base d) (fd_bits d))) = length (each_from (fd_base d) (fd_bits d))"
    using sorted_each_from by (intro distinct_card) blast
  then show ?thesis by (simp add: set_each length_each_from)
qed

lemma fd_recount_count: "fd_count (fd_recount d) = int (card (fd_set d))"
proof -
  have "fold (\<lambda>w c. c + int (popcount w)) ws c = c + int (sum_list (map popcount ws))" for ws c
    by (induction ws arbitrary: c) simp_all
  then show ?thesis by (simp add: fd_recount_def card_fd_set)
qed

lemma fd_recount_set [simp]: "fd_set (fd_recount d) = fd_set d"
  by (simp add: fd_recount_def fd_set_def)

lemma fd_recount_sel [simp]: "fd_base (fd_recount d) = fd_base d" "fd_bits (fd_recount d) = fd_bits d"
  by (simp_all add: fd_recount_def)

lemma fd_for_each_set: "fd_for_each d f s = fold f (sorted_list_of_set (fd_set d)) s"
  using sorted_each_from [of "fd_base d" "fd_bits d"]
  by (simp add: fd_for_each_def set_each [symmetric] sorted_list_of_set.idem_if_sorted_distinct)

lemma fd_empty_iff: "fd_wf d \<Longrightarrow> fd_empty d \<longleftrightarrow> fd_set d = {}"
  by (simp add: fd_empty_def fd_wf_def)

lemma fd_set_window: "v \<in> fd_set d \<Longrightarrow> fd_base d \<le> v \<and> v < fd_base d + 64 * int (length (fd_bits d))"
  using flat_bit_bound [of "fd_bits d" "nat (v - fd_base d)"] by (auto simp: fd_set_mem)

lemma fd_off_le:
  "b \<le> v \<Longrightarrow> v - b < 2 ^ 64 \<Longrightarrow> fd_off b v = nat (v - b)"
  unfolding fd_off_def by (subst unsigned_of_int) (simp add: take_bit_int_eq_self)

lemma fd_contains_iff:
  assumes wf: "fd_wf d" and v: "in_int64 v"
  shows "fd_contains d v \<longleftrightarrow> v \<in> fd_set d"
proof (cases "fd_count d = 0 \<or> v < fd_base d")
  case True
  have "fd_count d = 0 \<Longrightarrow> v \<notin> fd_set d" using fd_empty_iff [OF wf] by (auto simp: fd_empty_def)
  with True show ?thesis using fd_set_window [of v d] by (auto simp: fd_contains_def)
next
  case False
  have o: "fd_off (fd_base d) v = nat (v - fd_base d)"
    using False v wf by (intro fd_off_le) (auto simp: in_int64_def fd_wf_def INT64_MIN_def INT64_MAX_def)
  have "(drop_bit k w AND 1 \<noteq> 0) \<longleftrightarrow> bit w k" for k and w :: u64
    by (simp add: and_one_eq bit_iff_odd_drop_bit mod2_eq_if)
  with False show ?thesis
    by (auto simp: fd_contains_def fd_set_mem flat_bit_def o Let_def not_le)
qed

subsection \<open>Setting members\<close>

lemma length_set_off [simp]: "length (set_off k ws) = length ws"
  by (simp add: set_off_def Let_def)

lemma flat_bit_set_off:
  "k < 64 * length ws \<Longrightarrow> flat_bit (set_off k ws) n \<longleftrightarrow> flat_bit ws n \<or> n = k"
proof -
  assume k: "k < 64 * length ws"
  then have kl: "k div 64 < length ws" by (simp add: div_less_iff_less_mult mult.commute)
  have "n = k \<longleftrightarrow> n div 64 = k div 64 \<and> n mod 64 = k mod 64"
    by (metis div_mult_mod_eq)
  then show ?thesis using kl
    by (cases "n div 64 = k div 64") (auto simp: flat_bit_def set_off_def bit_simps)
qed

lemma flat_bit_zero [simp]: "\<not> flat_bit (replicate m 0) n"
  by (simp add: flat_bit_def)

text \<open>A pass over values that sets those satisfying a test.\<close>

lemma fold_set_off:
  assumes "\<And>v. v \<in> set vs \<Longrightarrow> P v \<Longrightarrow> off v < 64 * length ws"
  shows "flat_bit (fold (\<lambda>v ws. if P v then set_off (off v) ws else ws) vs ws) n
          \<longleftrightarrow> flat_bit ws n \<or> (\<exists>v \<in> set vs. P v \<and> n = off v)"
    and "length (fold (\<lambda>v ws. if P v then set_off (off v) ws else ws) vs ws) = length ws"
  using assms by (induction vs arbitrary: ws) (auto simp: flat_bit_set_off)

text \<open>The fresh bit set over a window \<open>lo..hi\<close> holding the values of \<open>vs\<close> that pass the test.\<close>

lemma fresh_window:
  assumes lohi: "lo \<le> hi" "hi - lo < 2 ^ 62"
    and P: "\<And>v. v \<in> set vs \<Longrightarrow> P v \<Longrightarrow> lo \<le> v \<and> v \<le> hi"
  defines "ws \<equiv> fold (\<lambda>v ws. if P v then set_off (fd_off lo v) ws else ws) vs
                    (replicate (nat (wrap64 (hi - lo) div 64 + 1)) 0)"
  shows "fd_set \<lparr> fd_base = lo, fd_bits = ws, fd_count = c \<rparr> = {v \<in> set vs. P v}"
    and "length ws = nat ((hi - lo) div 64 + 1)"
proof -
  have span: "wrap64 (hi - lo) = hi - lo" using lohi by (simp add: INT64_MIN_def INT64_MAX_def)
  have off: "fd_off lo v = nat (v - lo)" if "v \<in> set vs" "P v" for v
    using P [OF that] lohi by (intro fd_off_le) auto
  let ?n = "nat ((hi - lo) div 64 + 1)"
  have bound: "fd_off lo v < 64 * length (replicate ?n (0 :: u64))" if "v \<in> set vs" "P v" for v
  proof -
    have "v - lo \<le> hi - lo" using P [OF that] by simp
    also have "hi - lo < 64 * ((hi - lo) div 64 + 1)" by simp
    finally have "v - lo < 64 * ((hi - lo) div 64 + 1)" .
    moreover have "0 \<le> (hi - lo) div 64" using lohi(1) by simp
    ultimately show ?thesis using P [OF that] off [OF that] by (simp add: nat_less_iff)
  qed
  have fb: "flat_bit ws n \<longleftrightarrow> (\<exists>v \<in> set vs. P v \<and> n = fd_off lo v)" for n
    unfolding ws_def span using fold_set_off(1) [OF bound] by simp
  show "length ws = ?n" unfolding ws_def span using fold_set_off(2) [OF bound] by simp
  show "fd_set \<lparr> fd_base = lo, fd_bits = ws, fd_count = c \<rparr> = {v \<in> set vs. P v}"
  proof (intro set_eqI iffI)
    fix x assume "x \<in> fd_set \<lparr> fd_base = lo, fd_bits = ws, fd_count = c \<rparr>"
    then obtain v where v: "lo \<le> x" "v \<in> set vs" "P v" "nat (x - lo) = fd_off lo v"
      by (auto simp: fd_set_mem fb)
    then have "x = v" using P [OF v(2,3)] off [OF v(2,3)] by (simp add: eq_nat_nat_iff)
    then show "x \<in> {v \<in> set vs. P v}" using v by simp
  next
    fix x assume "x \<in> {v \<in> set vs. P v}"
    then show "x \<in> fd_set \<lparr> fd_base = lo, fd_bits = ws, fd_count = c \<rparr>"
      using P [of x] off [of x] by (auto simp: fd_set_mem fb)
  qed
qed

subsection \<open>Compaction\<close>

lemma flat_bit_drop: "flat_bit (drop k ws) n \<longleftrightarrow> flat_bit ws (n + 64 * k)"
  by (auto simp: flat_bit_def add.commute)

lemma flat_bit_take: "flat_bit (take k ws) n \<longleftrightarrow> flat_bit ws n \<and> n div 64 < k"
  by (auto simp: flat_bit_def)

lemma trail_words:
  "t \<le> length ws \<Longrightarrow> trail_words ws lead t \<le> t
     \<and> (\<forall>i. trail_words ws lead t \<le> i \<and> i < t \<longrightarrow> ws ! i = 0)"
  by (induction t) (auto simp: less_Suc_eq)

lemma fd_shrink_exact:
  "fd_set (fd_shrink_to_fit d) = fd_set d"
  "fd_count d = int (card (fd_set d)) \<Longrightarrow> fd_count (fd_shrink_to_fit d) = fd_count d"
  "length (fd_bits (fd_shrink_to_fit d)) \<le> length (fd_bits d)"
proof -
  let ?ws = "fd_bits d"
  let ?lead = "length (takeWhile (\<lambda>w. w = 0) ?ws)"
  let ?trail = "trail_words ?ws ?lead (length ?ws)"
  have lead: "?ws ! i = 0" if "i < ?lead" for i
    using set_takeWhileD [OF nth_mem [OF that]] takeWhile_nth [OF that] by simp
  have low: "64 * ?lead \<le> n" if "flat_bit ?ws n" for n
  proof (rule ccontr)
    assume "\<not> 64 * ?lead \<le> n"
    then have "n div 64 < ?lead" by (simp add: div_less_iff_less_mult mult.commute)
    from lead [OF this] that show False by (simp add: flat_bit_def)
  qed
  have high: "n div 64 < ?trail" if "flat_bit ?ws n" for n
  proof (rule ccontr)
    assume t: "\<not> n div 64 < ?trail"
    have "\<forall>i. ?trail \<le> i \<and> i < length ?ws \<longrightarrow> ?ws ! i = 0" by (rule trail_words [THEN conjunct2]) simp
    moreover have "n div 64 < length ?ws" using that by (simp add: flat_bit_def)
    ultimately have "?ws ! (n div 64) = 0" using t by (meson not_less)
    with that show False by (simp add: flat_bit_def)
  qed
  have "?lead = length ?ws \<Longrightarrow> fd_set d = {}"
    using low flat_bit_bound by (fastforce simp: fd_set_def)
  moreover have "fd_set (d\<lparr> fd_bits := drop ?lead (take ?trail ?ws), fd_base := fd_base d + int ?lead * 64 \<rparr>)
      = fd_set d"
  proof (intro set_eqI iffI)
    fix x assume "x \<in> fd_set (d\<lparr> fd_bits := drop ?lead (take ?trail ?ws), fd_base := fd_base d + int ?lead * 64 \<rparr>)"
    then obtain n where "x = fd_base d + int (n + 64 * ?lead)" "flat_bit ?ws (n + 64 * ?lead)"
      by (auto simp: fd_set_def flat_bit_drop flat_bit_take)
    then show "x \<in> fd_set d" unfolding fd_set_def by blast
  next
    fix x assume "x \<in> fd_set d"
    then obtain n where n: "x = fd_base d + int n" "flat_bit ?ws n" by (auto simp: fd_set_def)
    let ?m = "n - 64 * ?lead"
    have m: "?m + 64 * ?lead = n" using low [OF n(2)] by simp
    have "flat_bit (drop ?lead (take ?trail ?ws)) ?m"
      using n(2) high [OF n(2)] by (simp only: flat_bit_drop flat_bit_take m)
    moreover have "x = fd_base d + int ?lead * 64 + int ?m"
    proof -
      have "int n = int ?m + 64 * int ?lead"
        using arg_cong [OF m, of int] by (simp only: of_nat_add of_nat_mult of_nat_numeral)
      with n(1) show ?thesis by linarith
    qed
    ultimately show "x \<in> fd_set (d\<lparr> fd_bits := drop ?lead (take ?trail ?ws), fd_base := fd_base d + int ?lead * 64 \<rparr>)"
      unfolding fd_set_def by force
  qed
  ultimately show "fd_set (fd_shrink_to_fit d) = fd_set d"
    "fd_count d = int (card (fd_set d)) \<Longrightarrow> fd_count (fd_shrink_to_fit d) = fd_count d"
    "length (fd_bits (fd_shrink_to_fit d)) \<le> length ?ws"
    by (auto simp: fd_shrink_to_fit_def Let_def) (simp_all add: fd_set_def)
qed

subsection \<open>Least and greatest members\<close>

lemma fd_min_from_hd: "fd_min_from wb ws = (case each_from wb ws of [] \<Rightarrow> 0 | v # _ \<Rightarrow> v)"
proof (induction wb ws rule: fd_min_from.induct)
  case (2 wb w ws)
  then show ?case by (cases "w = 0") (simp_all add: word_members.simps)
qed simp

lemma fd_min_least:
  assumes "fd_set d \<noteq> {}"
  shows "fd_min d \<in> fd_set d" "v \<in> fd_set d \<Longrightarrow> fd_min d \<le> v"
proof -
  obtain x xs where x: "each_from (fd_base d) (fd_bits d) = x # xs"
    using assms set_each [of d] by (cases "each_from (fd_base d) (fd_bits d)") auto
  then have "fd_min d = x" by (simp add: fd_min_def fd_min_from_hd)
  moreover have "sorted (x # xs)" "set (x # xs) = fd_set d"
    using x sorted_each_from [of "fd_base d" "fd_bits d"] set_each [of d] by simp_all
  ultimately show "fd_min d \<in> fd_set d" "v \<in> fd_set d \<Longrightarrow> fd_min d \<le> v"
    by (metis list.set_intros(1)) (metis \<open>fd_min d = x\<close> \<open>set (x # xs) = fd_set d\<close> \<open>sorted (x # xs)\<close> set_ConsD order_refl sorted_simps(2))
qed

lemma fd_max_to_greatest:
  assumes "k \<le> length (fd_bits d)" "flat_bit (fd_bits d) n" "n div 64 < k"
  shows "fd_max_to d k \<in> fd_set d \<and> fd_base d + int n \<le> fd_max_to d k"
  using assms
proof (induction k)
  case (Suc i)
  let ?w = "fd_bits d ! i"
  show ?case
  proof (cases "?w = 0")
    case True
    then have "n div 64 \<noteq> i" using Suc.prems(2) by (auto simp: flat_bit_def)
    then show ?thesis using True Suc by simp
  next
    case False
    note z = countl_zero_correct [OF False]
    let ?m = "63 - countl_zero ?w"
    have "(64 * i + ?m) div 64 = i" "(64 * i + ?m) mod 64 = ?m"
      using div_mult_self4 [of 64 ?m i] mod_mult_self4 [of 64 i ?m] by simp_all
    then have "flat_bit (fd_bits d) (64 * i + ?m)"
      using z(1) Suc.prems(1) by (simp add: flat_bit_def)
    moreover have "fd_base d + int (64 * i + ?m) = fd_max_to d (Suc i)"
      using False by simp
    ultimately have "fd_max_to d (Suc i) \<in> fd_set d" unfolding fd_set_def by (metis (mono_tags, lifting) mem_Collect_eq)
    moreover have "n \<le> 64 * i + ?m"
    proof (cases "n div 64 = i")
      case True
      then have "bit ?w (n mod 64)" using Suc.prems(2) by (simp add: flat_bit_def)
      then have "n mod 64 \<le> ?m" using z(3) [of "n mod 64"] by (meson not_less)
      then show ?thesis using True div_mult_mod_eq [of n 64] by linarith
    next
      case False
      then have "n div 64 < i" using Suc.prems(3) by simp
      then have "n < 64 * i" by (simp add: div_less_iff_less_mult mult.commute)
      then show ?thesis by linarith
    qed
    ultimately show ?thesis using False by (auto simp: of_nat_diff)
  qed
qed simp

lemma fd_max_greatest:
  assumes "fd_set d \<noteq> {}"
  shows "fd_max d \<in> fd_set d" "v \<in> fd_set d \<Longrightarrow> v \<le> fd_max d"
  using assms fd_max_to_greatest [of "length (fd_bits d)" d]
  by (auto simp: fd_set_def fd_max_def flat_bit_def)

lemma fd_min_Min: "fd_set d \<noteq> {} \<Longrightarrow> fd_min d = Min (fd_set d)"
  using fd_min_least by (intro Min_eqI [symmetric]) auto

lemma fd_max_Max: "fd_set d \<noteq> {} \<Longrightarrow> fd_max d = Max (fd_set d)"
  using fd_max_greatest by (intro Max_eqI [symmetric]) auto

lemma fd_span:
  assumes "fd_wf d" "x \<in> fd_set d" "y \<in> fd_set d"
  shows "y - x < 2 ^ 62" "y - x < 64 * int (length (fd_bits d))"
  using assms fd_set_window [of x d] fd_set_window [of y d] by (auto simp: fd_wf_def)

subsection \<open>Intersections\<close>

lemma fd_none_wf [simp]: "fd_wf fd_none" "fd_set fd_none = {}"
  by (simp_all add: fd_wf_def fd_none_def fd_set_def in_int64_def INT64_MIN_def INT64_MAX_def)

lemma fd_finish_wf:
  assumes "fd_set d \<subseteq> S" "\<And>v. v \<in> S \<Longrightarrow> in_int64 v" "length (fd_bits d) < 2 ^ 56" "in_int64 (fd_base d)"
  shows "fd_wf (fd_shrink_to_fit (fd_recount d))" "fd_set (fd_shrink_to_fit (fd_recount d)) = fd_set d"
proof -
  let ?r = "fd_shrink_to_fit (fd_recount d)"
  show s: "fd_set ?r = fd_set d" by (simp add: fd_shrink_exact(1))
  have "fd_count ?r = int (card (fd_set ?r))"
    using fd_shrink_exact(2) [of "fd_recount d"] by (simp add: fd_recount_count fd_shrink_exact(1))
  moreover have "length (fd_bits ?r) < 2 ^ 56"
    using fd_shrink_exact(3) [of "fd_recount d"] assms(3) by simp
  moreover have "in_int64 (fd_base ?r)"
  proof -
    let ?ws = "fd_bits (fd_recount d)"
    let ?lead = "length (takeWhile (\<lambda>w. w = 0) ?ws)"
    show ?thesis
    proof (cases "?lead = length ?ws")
      case True
      then show ?thesis
        by (simp add: fd_shrink_to_fit_def Let_def in_int64_def INT64_MIN_def INT64_MAX_def)
    next
      case False
      then have "?lead < length ?ws" using length_takeWhile_le [of _ ?ws] le_neq_implies_less by blast
      then have nz: "?ws ! ?lead \<noteq> 0" using nth_length_takeWhile by fastforce
      obtain b where b: "b < 64" "bit (?ws ! ?lead) b" using word_has_bit [OF nz] by auto
      have "flat_bit ?ws (64 * ?lead + b)"
        using b \<open>?lead < length ?ws\<close> by (simp add: flat_bit_def)
      then have "fd_base d + int (64 * ?lead + b) \<in> fd_set d" unfolding fd_set_def fd_recount_sel by blast
      then have "in_int64 (fd_base d + int (64 * ?lead + b))" using assms(1,2) by auto
      then have "in_int64 (fd_base d + int ?lead * 64)" using assms(4)
        by (auto simp: in_int64_def)
      then show ?thesis using assms(4) False by (simp add: fd_shrink_to_fit_def Let_def)
    qed
  qed
  ultimately show "fd_wf ?r" using assms(1,2) by (auto simp: fd_wf_def s)
qed

lemma fresh_finish:
  assumes lohi: "lo \<le> hi" "hi - lo < 64 * int n" "n < 2 ^ 56"
    and P: "\<And>v. v \<in> set vs \<Longrightarrow> P v \<Longrightarrow> lo \<le> v \<and> v \<le> hi"
    and i64: "in_int64 lo" "in_int64 hi"
  defines "r \<equiv> fd_shrink_to_fit (fd_recount \<lparr> fd_base = lo,
     fd_bits = fold (\<lambda>v ws. if P v then set_off (fd_off lo v) ws else ws) vs
                    (replicate (nat (wrap64 (hi - lo) div 64 + 1)) 0), fd_count = 0 \<rparr>)"
  shows "fd_wf r" "fd_set r = {v \<in> set vs. P v}"
proof -
  let ?ws = "fold (\<lambda>v ws. if P v then set_off (fd_off lo v) ws else ws) vs
                    (replicate (nat (wrap64 (hi - lo) div 64 + 1)) 0)"
  let ?r = "\<lparr> fd_base = lo, fd_bits = ?ws, fd_count = 0 \<rparr>"
  have h: "hi - lo < 2 ^ 62" using lohi(2,3) by simp
  have S: "fd_set ?r = {v \<in> set vs. P v}" by (rule fresh_window(1) [OF lohi(1) h P])
  have L: "length ?ws = nat ((hi - lo) div 64 + 1)" by (rule fresh_window(2) [OF lohi(1) h P])
  have "(hi - lo) div 64 < int n" using lohi(2) by linarith
  then have "length (fd_bits ?r) < 2 ^ 56" using L lohi(3) by simp
  moreover have "fd_set ?r \<subseteq> {lo..hi}" unfolding S using P by auto
  moreover have "\<And>v. v \<in> {lo..hi} \<Longrightarrow> in_int64 v" using i64 by (auto simp: in_int64_def)
  ultimately show "fd_wf r" "fd_set r = {v \<in> set vs. P v}"
    using fd_finish_wf [of ?r "{lo..hi}"] i64(1) S unfolding r_def by auto
qed

lemma fd_member_int64: "fd_wf d \<Longrightarrow> v \<in> fd_set d \<Longrightarrow> in_int64 v"
  by (simp add: fd_wf_def)

lemma fd_intersect_both:
  assumes d: "fd_wf d" and e: "fd_wf e"
  shows "fd_wf (fd_intersect d e) \<and> fd_set (fd_intersect d e) = fd_set d \<inter> fd_set e"
proof (cases "fd_empty d \<or> fd_empty e")
  case True
  then show ?thesis using fd_empty_iff [OF d] fd_empty_iff [OF e] by (auto simp: fd_intersect_def)
next
  case False
  let ?lo = "max (fd_min d) (fd_min e)" and ?hi = "min (fd_max d) (fd_max e)"
  from False have ne: "fd_set d \<noteq> {}" "fd_set e \<noteq> {}"
    using fd_empty_iff [OF d] fd_empty_iff [OF e] by auto
  note mm = fd_min_least [OF ne(1)] fd_min_least [OF ne(2)] fd_max_greatest [OF ne(1)] fd_max_greatest [OF ne(2)]
  have window: "?lo \<le> v \<and> v \<le> ?hi" if "v \<in> fd_set d" "v \<in> fd_set e" for v
    using that mm by simp
  show ?thesis
  proof (cases "?lo > ?hi")
    case True
    then have "fd_set d \<inter> fd_set e = {}" using window by fastforce
    then show ?thesis using True False by (simp add: fd_intersect_def)
  next
    case lohi: False
    let ?small = "if fd_count d \<le> fd_count e then d else e"
    let ?large = "if fd_count d \<le> fd_count e then e else d"
    let ?P = "\<lambda>v. ?lo \<le> v \<and> v \<le> ?hi \<and> fd_contains ?large v"
    have step: "(\<lambda>v ws. if v < ?lo \<or> v > ?hi then ws
                        else if \<not> fd_contains ?large v then ws
                        else set_off (fd_off ?lo v) ws)
           = (\<lambda>v ws. if ?P v then set_off (fd_off ?lo v) ws else ws)"
      by (intro ext) auto
    have "?hi - ?lo < 64 * int (length (fd_bits d))"
      using fd_span(2) [OF d mm(1) mm(5)] by auto
    moreover have "in_int64 ?lo" "in_int64 ?hi"
      using fd_member_int64 [OF d mm(1)] fd_member_int64 [OF e mm(3)]
        fd_member_int64 [OF d mm(5)] fd_member_int64 [OF e mm(7)] by (auto simp: max_def min_def)
    moreover have "length (fd_bits d) < 2 ^ 56" using d by (simp add: fd_wf_def)
    ultimately have "fd_wf (fd_intersect d e)
        \<and> fd_set (fd_intersect d e) = {v \<in> set (each_from (fd_base ?small) (fd_bits ?small)). ?P v}"
      using lohi False unfolding fd_intersect_def Let_def fd_for_each_def step
      by (simp only: if_False) (intro conjI fresh_finish; auto)
    moreover have "fd_contains ?large v \<longleftrightarrow> v \<in> fd_set ?large" if "v \<in> fd_set ?small" for v
      by (rule fd_contains_iff) (use that d e in \<open>auto simp: fd_wf_def split: if_splits\<close>)
    ultimately show ?thesis using window unfolding set_each by (auto split: if_splits)
  qed
qed

lemma fd_intersect_z_both:
  assumes d: "fd_wf d" and z: "in_int64 lo" "in_int64 hi"
  shows "fd_wf (fd_intersect_z d lo hi) \<and> fd_set (fd_intersect_z d lo hi) = {v \<in> fd_set d. lo \<le> v \<and> v \<le> hi}"
proof (cases "fd_empty d \<or> lo > hi")
  case True
  then show ?thesis using fd_empty_iff [OF d] by (auto simp: fd_intersect_z_def)
next
  case False
  let ?lo = "max (fd_min d) lo" and ?hi = "min (fd_max d) hi"
  from False have ne: "fd_set d \<noteq> {}" using fd_empty_iff [OF d] by auto
  note mm = fd_min_least [OF ne] fd_max_greatest [OF ne]
  have window: "?lo \<le> v \<and> v \<le> ?hi" if "v \<in> fd_set d" "lo \<le> v" "v \<le> hi" for v
    using that mm by simp
  show ?thesis
  proof (cases "?lo > ?hi")
    case True
    then have "{v \<in> fd_set d. lo \<le> v \<and> v \<le> hi} = {}" using window by fastforce
    then show ?thesis using True False by (simp add: fd_intersect_z_def)
  next
    case lohi: False
    let ?P = "\<lambda>v. lo \<le> v \<and> v \<le> hi"
    have step: "(\<lambda>v ws. if v < lo \<or> v > hi then ws else set_off (fd_off ?lo v) ws)
           = (\<lambda>v ws. if ?P v then set_off (fd_off ?lo v) ws else ws)"
      by (intro ext) auto
    have "?hi - ?lo < 64 * int (length (fd_bits d))" using fd_span(2) [OF d mm(1,3)] by auto
    moreover have "in_int64 ?lo" "in_int64 ?hi"
      using fd_member_int64 [OF d mm(1)] fd_member_int64 [OF d mm(3)] z by (auto simp: max_def min_def)
    moreover have "length (fd_bits d) < 2 ^ 56" using d by (simp add: fd_wf_def)
    moreover have "\<And>v. v \<in> set (each_from (fd_base d) (fd_bits d)) \<Longrightarrow> ?P v \<Longrightarrow> ?lo \<le> v \<and> v \<le> ?hi"
      unfolding set_each using window by simp
    ultimately have "fd_wf (fd_intersect_z d lo hi)
        \<and> fd_set (fd_intersect_z d lo hi) = {v \<in> set (each_from (fd_base d) (fd_bits d)). ?P v}"
      using lohi False unfolding fd_intersect_z_def Let_def fd_for_each_def step
      by (simp only: if_False) (intro conjI fresh_finish; auto)
    then show ?thesis unfolding set_each by simp
  qed
qed

subsection \<open>Constructors\<close>

lemma fd_singleton_exact:
  "in_int64 v \<Longrightarrow> fd_wf (fd_singleton v) \<and> fd_set (fd_singleton v) = {v}"
proof -
  assume v: "in_int64 v"
  have "flat_bit [1] n \<longleftrightarrow> n = 0" for n by (auto simp: flat_bit_Cons bit_1_iff)
  then have "fd_set (fd_singleton v) = {v}" by (auto simp: fd_set_def fd_singleton_def)
  with v show ?thesis by (simp add: fd_wf_def fd_singleton_def)
qed

lemma sorted_hd_last:
  assumes "sorted vs" "v \<in> set vs"
  shows "hd vs \<le> v" "v \<le> last vs"
proof -
  show "hd vs \<le> v" using assms by (cases vs) auto
  have "vs \<noteq> []" using assms(2) by auto
  then have e: "butlast vs @ [last vs] = vs" by simp
  have "sorted (butlast vs @ [last vs])" "v \<in> set (butlast vs @ [last vs])" using assms unfolding e by auto
  then show "v \<le> last vs" by (auto simp: sorted_append)
qed

lemma fd_from_sorted_unique_both:
  assumes vs: "sorted vs" "distinct vs" "\<And>v. v \<in> set vs \<Longrightarrow> in_int64 v"
    and span: "vs \<noteq> [] \<Longrightarrow> last vs - hd vs < 2 ^ 61"
  shows "fd_wf (fd_from_sorted_unique vs) \<and> fd_set (fd_from_sorted_unique vs) = set vs"
proof (cases "vs = []")
  case False
  note between = conjI [OF sorted_hd_last [OF vs(1)]]
  have lohi: "hd vs \<le> last vs" using between [of "last vs"] False by simp
  have h: "last vs - hd vs < 2 ^ 62" using span [OF False] by simp
  note W = fresh_window [where P = "\<lambda>_. True" and vs = vs, OF lohi h between]
  have S: "fd_set (fd_from_sorted_unique vs) = set vs"
    using W(1) False by (simp add: fd_from_sorted_unique_def Let_def)
  have "(last vs - hd vs) div 64 < 2 ^ 55"
    using span [OF False] by (simp add: div_less_iff_less_mult)
  then have "length (fd_bits (fd_from_sorted_unique vs)) < 2 ^ 56"
    using W(2) False by (simp add: fd_from_sorted_unique_def Let_def)
  moreover have "fd_count (fd_from_sorted_unique vs) = int (card (set vs))"
    using False vs(2) by (simp add: fd_from_sorted_unique_def distinct_card Let_def)
  moreover have "fd_base (fd_from_sorted_unique vs) = hd vs"
    using False by (simp add: fd_from_sorted_unique_def Let_def)
  ultimately show ?thesis using S vs(3) False by (simp add: fd_wf_def)
qed (simp add: fd_from_sorted_unique_def)

lemma fd_from_unsorted_both:
  assumes "\<And>v. v \<in> set vs \<Longrightarrow> in_int64 v" "\<And>x y. x \<in> set vs \<Longrightarrow> y \<in> set vs \<Longrightarrow> y - x < 2 ^ 61"
  shows "fd_wf (fd_from_unsorted vs) \<and> fd_set (fd_from_unsorted vs) = set vs"
proof -
  let ?vs = "remdups_adj (sort vs)"
  have s: "set ?vs = set vs" "sorted ?vs" by simp_all
  have "sorted xs \<Longrightarrow> distinct (remdups_adj xs)" for xs :: "int list"
    by (induction xs rule: remdups_adj.induct) auto
  then have "distinct ?vs" by simp
  then show ?thesis
    using fd_from_sorted_unique_both [of ?vs] assms s
    unfolding fd_from_unsorted_def by (metis hd_in_set last_in_set)
qed

lemma flat_bit_replicate_ones: "flat_bit (replicate m (- 1)) n \<longleftrightarrow> n < 64 * m"
  by (auto simp: flat_bit_def div_less_iff_less_mult mult.commute)

lemma window_index:
  "b < 64 \<Longrightarrow> 0 < used \<Longrightarrow> used \<le> 64
     \<Longrightarrow> (a < Suc q \<and> (a = q \<longrightarrow> b < used)) = (64 * a + b < 64 * q + (used :: nat))"
  by (rule linorder_cases [of a q]) simp_all

lemma fd_from_range_both:
  assumes i64: "in_int64 lo" "in_int64 hi" and span: "hi - lo < 2 ^ 61"
  shows "fd_wf (fd_from_range lo hi) \<and> fd_set (fd_from_range lo hi) = {lo..hi}"
proof (cases "lo > hi")
  case False
  define total where "total = nat (hi - lo + 1)"
  define m where "m = (total + 63) div 64"
  have t: "wrap64 (wrap64 (hi - lo) + 1) = int total" "wrap64 (int total + 64 - 1) = int (total + 63)"
    using False span by (simp_all add: total_def INT64_MIN_def INT64_MAX_def)
  have m: "nat (int (total + 63) div 64) = m" by (simp add: m_def nat_div_distrib)
  have pos: "0 < total" "0 < m" using False by (simp_all add: total_def m_def)
  define used where "used = total - (m - 1) * 64"
  have used: "int total - (int m - 1) * 64 = int used" "0 < used" "used \<le> 64" "total = 64 * (m - 1) + used"
    using pos by (auto simp: used_def m_def of_nat_diff algebra_simps)
  let ?ws = "replicate m (- 1 :: u64)"
  let ?bits = "if used < 64 then ?ws[m - 1 := push_bit used 1 - 1] else ?ws"
  have R: "fd_from_range lo hi = \<lparr> fd_base = lo, fd_bits = ?bits, fd_count = int total \<rparr>"
    using False used(2) unfolding fd_from_range_def Let_def t m used(1) by simp
  have fb: "flat_bit ?bits n \<longleftrightarrow> n < total" for n
  proof (cases "used < 64")
    case True
    have "(push_bit used 1 :: u64) - 1 = mask used" by (simp add: mask_eq_exp_minus_1 push_bit_of_1)
    then have "flat_bit ?bits n \<longleftrightarrow> n div 64 < m \<and> (n div 64 = m - 1 \<longrightarrow> n mod 64 < used)"
      using True pos by (auto simp: flat_bit_def bit_mask_iff nth_list_update)
    also have "\<dots> \<longleftrightarrow> n < total"
    proof -
      obtain q where q: "m = Suc q" using pos by (cases m) auto
      show ?thesis
        using window_index [of "n mod 64" used "n div 64" q] used(2,3) unfolding used(4) q by simp
    qed
    finally show ?thesis .
  next
    case False
    then have "total = 64 * m" using used(3,4) pos by (cases m) auto
    then show ?thesis using False by (simp add: flat_bit_replicate_ones)
  qed
  have "x \<in> fd_set (fd_from_range lo hi) \<longleftrightarrow> x \<in> {lo..hi}" for x
  proof -
    have "x \<in> fd_set (fd_from_range lo hi) \<longleftrightarrow> lo \<le> x \<and> nat (x - lo) < total"
      by (simp only: R fd_set_mem fd_domain.select_convs fb)
    also have "\<dots> \<longleftrightarrow> x \<in> {lo..hi}" unfolding total_def by auto
    finally show ?thesis .
  qed
  then have "fd_set (fd_from_range lo hi) = {lo..hi}" by blast
  moreover have "length ?bits < 2 ^ 56"
  proof -
    have "total \<le> 2 ^ 61" using span by (simp add: total_def)
    then have "m < 2 ^ 56" by (simp add: m_def div_less_iff_less_mult)
    then show ?thesis by simp
  qed
  moreover have "card {lo..hi} = total" by (simp add: total_def)
  ultimately show ?thesis using i64 unfolding R by (auto simp: fd_wf_def in_int64_def)
qed (simp add: fd_from_range_def)

section \<open>clp(R): real intervals\<close>

text \<open>
  Doubles are bit patterns. \<open>dbl_key\<close> orders the patterns that are not NaN as IEEE 754
  compares the numbers: sign and magnitude, the two zeros equal.
\<close>

definition dbl_key :: "u64 \<Rightarrow> int" where
  "dbl_key w = (if bit w 63 then - int (unat (w AND mask 63)) else int (unat (w AND mask 63)))"

definition dbl_less :: "u64 \<Rightarrow> u64 \<Rightarrow> bool" where
  "dbl_less a b \<longleftrightarrow> \<not> is_nan_bits a \<and> \<not> is_nan_bits b \<and> dbl_key a < dbl_key b"

definition dbl_le :: "u64 \<Rightarrow> u64 \<Rightarrow> bool" where
  "dbl_le a b \<longleftrightarrow> \<not> is_nan_bits a \<and> \<not> is_nan_bits b \<and> dbl_key a \<le> dbl_key b"

definition dbl_eq :: "u64 \<Rightarrow> u64 \<Rightarrow> bool" where
  "dbl_eq a b \<longleftrightarrow> \<not> is_nan_bits a \<and> \<not> is_nan_bits b \<and> dbl_key a = dbl_key b"

text \<open>
  The conversion of an \<^verbatim>\<open>int64_t\<close> to \<^verbatim>\<open>double\<close>, rounding to nearest, ties to even: the position of
  the leading bit gives the exponent; a rounding that carries into it is right as it stands.
\<close>

fun msb :: "nat \<Rightarrow> nat" where
  "msb n = (if n < 2 then 0 else Suc (msb (n div 2)))"

declare msb.simps [simp del]

definition round_shift :: "nat \<Rightarrow> nat \<Rightarrow> nat" where
  "round_shift s m =
     (let q = m div 2 ^ s; r = m mod 2 ^ s in
      if 2 * r > 2 ^ s \<or> (2 * r = 2 ^ s \<and> odd q) then q + 1 else q)"

definition dbl_mag :: "nat \<Rightarrow> nat" where
  "dbl_mag m =
     (if m = 0 then 0
      else let e = msb m in
        (e + 1022) * 2 ^ 52 + (if e \<le> 52 then m * 2 ^ (52 - e) else round_shift (e - 52) m))"

definition int_to_double :: "int \<Rightarrow> u64" where
  "int_to_double v =
     (let w = word_of_int (int (dbl_mag (nat \<bar>v\<bar>))) in if v < 0 then w OR push_bit 63 1 else w)"

record r_domain =
  r_lo :: u64
  r_hi :: u64
  r_lo_open :: bool
  r_hi_open :: bool

definition r_empty :: "r_domain \<Rightarrow> bool" where
  "r_empty d =
     (if dbl_less (r_hi d) (r_lo d) then True
      else if dbl_eq (r_lo d) (r_hi d) \<and> (r_lo_open d \<or> r_hi_open d) then True
      else False)"

definition r_contains :: "r_domain \<Rightarrow> u64 \<Rightarrow> bool" where
  "r_contains d v =
     (if is_nan_bits v then False
      else if (if r_lo_open d then \<not> dbl_less (r_lo d) v else \<not> dbl_le (r_lo d) v) then False
      else if (if r_hi_open d then \<not> dbl_less v (r_hi d) else \<not> dbl_le v (r_hi d)) then False
      else True)"

definition r_size :: "r_domain \<Rightarrow> int" where
  "r_size d = (if r_empty d then 0 else INT64_MAX)"

definition r_intersect :: "r_domain \<Rightarrow> r_domain \<Rightarrow> r_domain" where
  "r_intersect d e =
     (let (lo, lo_open) =
            (if dbl_less (r_lo e) (r_lo d) then (r_lo d, r_lo_open d)
             else if dbl_less (r_lo d) (r_lo e) then (r_lo e, r_lo_open e)
             else (r_lo d, r_lo_open d \<or> r_lo_open e));
          (hi, hi_open) =
            (if dbl_less (r_hi d) (r_hi e) then (r_hi d, r_hi_open d)
             else if dbl_less (r_hi e) (r_hi d) then (r_hi e, r_hi_open e)
             else (r_hi d, r_hi_open d \<or> r_hi_open e))
      in \<lparr> r_lo = lo, r_hi = hi, r_lo_open = lo_open, r_hi_open = hi_open \<rparr>)"

definition r_none :: r_domain where
  "r_none = \<lparr> r_lo = int_to_double 1, r_hi = int_to_double 0, r_lo_open = False, r_hi_open = False \<rparr>"

definition r_intersect_z :: "r_domain \<Rightarrow> z_domain \<Rightarrow> r_domain" where
  "r_intersect_z d z =
     (if z_empty z then r_none
      else let zlo = int_to_double (z_lo z); zhi = int_to_double (z_hi z);
          (lo, lo_open) =
            (if dbl_less zlo (r_lo d) then (r_lo d, r_lo_open d)
             else if dbl_less (r_lo d) zlo then (zlo, False)
             else (r_lo d, r_lo_open d));
          (hi, hi_open) =
            (if dbl_less (r_hi d) zhi then (r_hi d, r_hi_open d)
             else if dbl_less zhi (r_hi d) then (zhi, False)
             else (r_hi d, r_hi_open d))
      in \<lparr> r_lo = lo, r_hi = hi, r_lo_open = lo_open, r_hi_open = hi_open \<rparr>)"

section \<open>Domains\<close>

datatype domain = DZ z_domain | DFD fd_domain | is_DR: DR (the_real: r_domain)

definition domain_empty :: "domain \<Rightarrow> bool" where
  "domain_empty d = (case d of DZ z \<Rightarrow> z_empty z | DFD f \<Rightarrow> fd_empty f | DR r \<Rightarrow> r_empty r)"

definition domain_contains_int :: "domain \<Rightarrow> int \<Rightarrow> bool" where
  "domain_contains_int d v =
     (case d of DR r \<Rightarrow> r_contains r (int_to_double v)
      | DZ z \<Rightarrow> z_contains z v
      | DFD f \<Rightarrow> fd_contains f v)"

text \<open>
  The integer a finite double equals, if any: \<^verbatim>\<open>std::round(v) == v\<close> holds for exactly these
  doubles and the infinities. \<open>domain_contains_double\<close> is \<open>None\<close> where the conversion back to
  \<^verbatim>\<open>int64_t\<close> is undefined.
\<close>

definition dbl_exact_int :: "u64 \<Rightarrow> int option" where
  "dbl_exact_int w =
     (let ex = unat (drop_bit 52 w AND 0x7FF); frac = unat (w AND mask 52);
          m = (if ex = 0 then frac else frac + 2 ^ 52); ex' = max 1 ex;
          sgn = (if bit w 63 then - 1 else 1)
      in if ex = 0x7FF then None
         else if ex' \<ge> 1075 then Some (sgn * int (m * 2 ^ (ex' - 1075)))
         else if 2 ^ (1075 - ex') dvd m then Some (sgn * int (m div 2 ^ (1075 - ex')))
         else None)"

definition domain_contains_double :: "domain \<Rightarrow> u64 \<Rightarrow> bool option" where
  "domain_contains_double d v =
     (case d of DR r \<Rightarrow> Some (r_contains r v)
      | _ \<Rightarrow>
        (case dbl_exact_int v of None \<Rightarrow> Some False
         | Some iv \<Rightarrow>
           if iv < INT64_MIN then Some False
           else if iv > INT64_MAX + 1 then Some False
           else if \<not> in_int64 iv then None
           else (case d of DZ z \<Rightarrow> Some (z_contains z iv)
                 | DFD f \<Rightarrow> Some (fd_contains f iv)
                 | DR r \<Rightarrow> Some False)))"

fun domain_intersect :: "domain \<Rightarrow> domain \<Rightarrow> domain" where
  "domain_intersect (DR a) (DR b) = DR (r_intersect a b)"
| "domain_intersect (DR a) (DZ b) = DR (r_intersect_z a b)"
| "domain_intersect (DR a) (DFD b) =
     (if fd_empty b then DR r_none
      else DR (r_intersect_z a \<lparr> z_lo = fd_min b, z_hi = fd_max b \<rparr>))"
| "domain_intersect (DZ a) (DR b) = DR (r_intersect_z b a)"
| "domain_intersect (DFD a) (DR b) =
     (if fd_empty a then DR r_none
      else DR (r_intersect_z b \<lparr> z_lo = fd_min a, z_hi = fd_max a \<rparr>))"
| "domain_intersect (DZ a) (DZ b) = DZ (z_intersect a b)"
| "domain_intersect (DZ a) (DFD b) = DFD (fd_intersect_z b (z_lo a) (z_hi a))"
| "domain_intersect (DFD a) (DZ b) = DFD (fd_intersect_z a (z_lo b) (z_hi b))"
| "domain_intersect (DFD a) (DFD b) = DFD (fd_intersect a b)"

section \<open>The constraint store\<close>

type_synonym constraint_store = "u64 \<rightharpoonup> domain"

definition get_domain :: "constraint_store \<Rightarrow> u64 \<Rightarrow> domain option" where
  "get_domain s i = s i"

definition set_domain_no_trail :: "constraint_store \<Rightarrow> u64 \<Rightarrow> domain \<Rightarrow> constraint_store" where
  "set_domain_no_trail s i d = s(i \<mapsto> d)"

definition erase_domain_no_trail :: "constraint_store \<Rightarrow> u64 \<Rightarrow> constraint_store" where
  "erase_domain_no_trail s i = s(i := None)"

definition clear_store :: "constraint_store \<Rightarrow> constraint_store" where
  "clear_store s = Map.empty"

section \<open>The conversion is monotone\<close>

lemma msb_bounds: "0 < n \<Longrightarrow> 2 ^ msb n \<le> n \<and> n < 2 ^ Suc (msb n)"
proof (induction n rule: msb.induct)
  case (1 n)
  show ?case
  proof (cases "n < 2")
    case True
    with 1 show ?thesis by (auto simp: msb.simps)
  next
    case False
    then have "2 ^ msb (n div 2) \<le> n div 2 \<and> n div 2 < 2 ^ Suc (msb (n div 2))"
      using 1 by simp
    with False show ?thesis by (subst (1 2) msb.simps) auto
  qed
qed

lemma msb_mono: "0 < m \<Longrightarrow> m \<le> n \<Longrightarrow> msb m \<le> msb n"
proof (rule ccontr)
  assume m: "0 < m" "m \<le> n" and "\<not> msb m \<le> msb n"
  then have "(2::nat) ^ Suc (msb n) \<le> 2 ^ msb m" by (intro power_increasing) auto
  then show False using msb_bounds [of m] msb_bounds [of n] m by linarith
qed

lemma round_shift_mono: "m \<le> n \<Longrightarrow> round_shift s m \<le> round_shift s n"
proof -
  assume mn: "m \<le> n"
  then have q: "m div 2 ^ s \<le> n div 2 ^ s" by (rule div_le_mono)
  show ?thesis
  proof (cases "m div 2 ^ s = n div 2 ^ s")
    case True
    have "m div 2 ^ s * 2 ^ s + m mod 2 ^ s = m" by (rule div_mult_mod_eq)
    moreover have "m div 2 ^ s * 2 ^ s + n mod 2 ^ s = n" unfolding True by (rule div_mult_mod_eq)
    ultimately have "m mod 2 ^ s \<le> n mod 2 ^ s" using mn by linarith
    with True show ?thesis by (auto simp: round_shift_def Let_def)
  next
    case False
    with q show ?thesis by (auto simp: round_shift_def Let_def)
  qed
qed

lemma dbl_mag_range:
  assumes "0 < m"
  shows "(msb m + 1023) * 2 ^ 52 \<le> dbl_mag m" "dbl_mag m \<le> (msb m + 1024) * 2 ^ 52"
proof -
  note b = msb_bounds [OF assms]
  let ?e = "msb m"
  let ?q = "if ?e \<le> 52 then m * 2 ^ (52 - ?e) else round_shift (?e - 52) m"
  have "2 ^ 52 \<le> ?q \<and> ?q \<le> 2 ^ 53"
  proof (cases "?e \<le> 52")
    case True
    have "(2::nat) ^ 52 = 2 ^ ?e * 2 ^ (52 - ?e)" using True by (simp flip: power_add)
    moreover have "(2::nat) ^ 53 = 2 ^ Suc ?e * 2 ^ (52 - ?e)" using True by (simp flip: power_add power_Suc)
    ultimately show ?thesis using b True by (simp only: if_True) (intro conjI mult_le_mono1; simp)
  next
    case False
    have "(2::nat) ^ ?e = 2 ^ 52 * 2 ^ (?e - 52)" using False power_add [of "2 :: nat" 52 "?e - 52"] by simp
    then have "2 ^ 52 \<le> m div 2 ^ (?e - 52)" using b by (simp add: less_eq_div_iff_mult_less_eq)
    moreover have "(2::nat) ^ Suc ?e = 2 ^ 53 * 2 ^ (?e - 52)"
      using False power_add [of "2 :: nat" 53 "?e - 52"] by (simp del: power_Suc add: Suc_diff_le [symmetric])
    then have "m div 2 ^ (?e - 52) < 2 ^ 53" using b by (simp add: div_less_iff_less_mult)
    ultimately show ?thesis using False by (auto simp: round_shift_def Let_def)
  qed
  moreover have "dbl_mag m = (?e + 1022) * 2 ^ 52 + ?q" using assms by (simp add: dbl_mag_def Let_def)
  ultimately show "(msb m + 1023) * 2 ^ 52 \<le> dbl_mag m" "dbl_mag m \<le> (msb m + 1024) * 2 ^ 52"
    by (simp_all add: algebra_simps)
qed

lemma dbl_mag_mono: "m \<le> n \<Longrightarrow> dbl_mag m \<le> dbl_mag n"
proof (cases "m = 0")
  case False
  assume mn: "m \<le> n"
  then have pos: "0 < m" "0 < n" using False by auto
  show ?thesis
  proof (cases "msb m = msb n")
    case True
    then show ?thesis
      using mn pos by (auto simp: dbl_mag_def Let_def round_shift_mono)
  next
    case False
    then have "msb m + 1024 \<le> msb n + 1023" using msb_mono [OF pos(1) mn] by simp
    then have "(msb m + 1024) * 2 ^ 52 \<le> (msb n + 1023) * 2 ^ 52" by (rule mult_le_mono1)
    then show ?thesis using dbl_mag_range(2) [OF pos(1)] dbl_mag_range(1) [OF pos(2)] by linarith
  qed
qed (simp add: dbl_mag_def)

lemma dbl_mag_bound: "m \<le> 2 ^ 63 \<Longrightarrow> dbl_mag m \<le> 1087 * 2 ^ 52"
proof -
  assume m: "m \<le> 2 ^ 63"
  have "msb (2 ^ 63) = 63"
    using msb_bounds [of "2 ^ 63"] power_less_imp_less_exp [of "2 :: nat" 63 "Suc (msb (2 ^ 63))"]
      power_le_imp_le_exp [of "2 :: nat" "msb (2 ^ 63)" 63] by simp
  then have "dbl_mag (2 ^ 63) \<le> 1087 * 2 ^ 52" using dbl_mag_range(2) [of "2 ^ 63"] by simp
  then show ?thesis using dbl_mag_mono [OF m] by linarith
qed

lemma or_bit_and_mask: "k \<le> n \<Longrightarrow> ((w :: u64) OR push_bit n 1) AND mask k = w AND mask k"
  by (rule bit_word_eqI) (auto simp: bit_simps)

lemma int_to_double_key:
  assumes "in_int64 v"
  shows "dbl_key (int_to_double v) = (if v < 0 then - int (dbl_mag (nat \<bar>v\<bar>)) else int (dbl_mag (nat \<bar>v\<bar>)))"
    and "\<not> is_nan_bits (int_to_double v)"
proof -
  let ?m = "dbl_mag (nat \<bar>v\<bar>)"
  define w where "w = (word_of_int (int ?m) :: u64)"
  have "nat \<bar>v\<bar> \<le> 2 ^ 63" using assms by (auto simp: in_int64_def INT64_MIN_def INT64_MAX_def)
  then have b: "?m \<le> 1087 * 2 ^ 52" by (rule dbl_mag_bound)
  have uw: "unat w = ?m"
    unfolding w_def using b by (simp add: unsigned_of_nat take_bit_nat_eq_self)
  have w63: "w AND mask 63 = w"
  proof -
    have "unat (take_bit 63 w) = unat w"
      using b uw by (simp add: unsigned_take_bit_eq take_bit_nat_eq_self_iff)
    then show ?thesis by (simp add: take_bit_eq_mask flip: word_unat_eq_iff)
  qed
  have s63: "(w OR push_bit 63 1) AND mask 63 = w AND mask 63"
    by (rule or_bit_and_mask) simp
  have I: "int_to_double v = (if v < 0 then w OR push_bit 63 1 else w)"
    unfolding int_to_double_def w_def Let_def by (rule refl)
  have sb: "bit (w OR push_bit 63 1) 63" by (simp add: bit_or_iff)
  have nb: "\<not> bit w 63"
  proof
    assume "bit w 63"
    then have "bit (w AND mask 63) 63" unfolding w63 .
    then show False by (simp add: bit_simps)
  qed
  show "dbl_key (int_to_double v) = (if v < 0 then - int ?m else int ?m)"
    using nb sb unfolding I dbl_key_def by (simp only: s63 w63 uw if_True if_False split: if_split) simp
  have e: "drop_bit 52 (w OR push_bit 63 1) AND EXPONENT_MASK = drop_bit 52 w AND EXPONENT_MASK"
  proof -
    have x: "EXPONENT_MASK = (mask 11 :: u64)" by (simp add: EXPONENT_MASK_def mask_eq_exp_minus_1)
    have p: "drop_bit 52 (push_bit 63 1) = (push_bit 11 1 :: u64)" by simp
    show ?thesis unfolding drop_bit_or p x by (rule or_bit_and_mask) simp
  qed
  have "drop_bit 52 w AND EXPONENT_MASK \<noteq> EXPONENT_MASK"
  proof
    assume "drop_bit 52 w AND EXPONENT_MASK = EXPONENT_MASK"
    then have "EXPONENT_MASK \<le> drop_bit 52 w" by (metis word_and_le1 and.commute)
    then have "unat EXPONENT_MASK \<le> unat w div 2 ^ 52"
      by (simp add: word_le_nat_alt unsigned_drop_bit_eq drop_bit_nat_def take_bit_nat_eq_self unat_u64_less)
    also have "\<dots> \<le> 1087" using b uw by (simp add: div_le_mono div_le_dividend) 
    finally show False by (simp add: EXPONENT_MASK_def)
  qed
  then show "\<not> is_nan_bits (int_to_double v)"
    unfolding I is_nan_bits_def by (simp only: e if_True if_False split: if_split) simp
qed

lemma int_to_double_mono:
  assumes "in_int64 v" "in_int64 w" "v \<le> w"
  shows "dbl_le (int_to_double v) (int_to_double w)"
proof -
  have "dbl_mag (nat \<bar>v\<bar>) \<le> dbl_mag (nat \<bar>w\<bar>)" if "0 \<le> v" using that assms(3) by (intro dbl_mag_mono) simp
  moreover have "dbl_mag (nat \<bar>w\<bar>) \<le> dbl_mag (nat \<bar>v\<bar>)" if "w < 0" using that assms(3) by (intro dbl_mag_mono) simp
  ultimately show ?thesis using assms by (auto simp: dbl_le_def int_to_double_key)
qed

section \<open>Intersection of domains\<close>

definition domain_wf :: "domain \<Rightarrow> bool" where
  "domain_wf d = (case d of DZ z \<Rightarrow> in_int64 (z_lo z) \<and> in_int64 (z_hi z) | DFD f \<Rightarrow> fd_wf f
     | DR r \<Rightarrow> \<not> is_nan_bits (r_lo r) \<and> \<not> is_nan_bits (r_hi r))"

lemma r_contains_iff:
  "r_contains d v \<longleftrightarrow> \<not> is_nan_bits v
     \<and> (if r_lo_open d then dbl_less (r_lo d) v else dbl_le (r_lo d) v)
     \<and> (if r_hi_open d then dbl_less v (r_hi d) else dbl_le v (r_hi d))"
  by (simp add: r_contains_def)

lemma r_intersect_contains:
  assumes "domain_wf (DR a)" "domain_wf (DR b)"
  shows "r_contains (r_intersect a b) v \<longleftrightarrow> r_contains a v \<and> r_contains b v"
  using assms
  by (auto simp: r_contains_iff r_intersect_def domain_wf_def dbl_less_def dbl_le_def Let_def)

lemma r_intersect_z_contains:
  assumes "domain_wf (DR a)" "domain_wf (DZ z)" "in_int64 v"
    "r_contains a (int_to_double v)" "z_contains z v"
  shows "r_contains (r_intersect_z a z) (int_to_double v)"
proof -
  have "dbl_le (int_to_double (z_lo z)) (int_to_double v)" "dbl_le (int_to_double v) (int_to_double (z_hi z))"
    using assms by (auto intro!: int_to_double_mono simp: z_contains_def domain_wf_def)
  moreover have "\<not> z_empty z" using assms(5) by (auto simp: z_empty_iff)
  ultimately show ?thesis using assms(1,4)
    by (auto simp: r_contains_iff r_intersect_z_def domain_wf_def dbl_less_def dbl_le_def Let_def)
qed

lemma r_none_contains [simp]: "\<not> r_contains r_none v"
proof -
  have "in_int64 1" "in_int64 0" by (simp_all add: in_int64_def INT64_MIN_def INT64_MAX_def)
  moreover have "dbl_mag 0 = 0" "0 < dbl_mag 1" using dbl_mag_range(1) [of 1] by (simp_all add: dbl_mag_def)
  ultimately show ?thesis
    by (auto simp: r_contains_iff r_none_def dbl_le_def int_to_double_key)
qed

lemma fd_hull:
  assumes "fd_wf f" "v \<in> fd_set f"
  shows "z_contains \<lparr> z_lo = fd_min f, z_hi = fd_max f \<rparr> v"
    "domain_wf (DZ \<lparr> z_lo = fd_min f, z_hi = fd_max f \<rparr>)"
proof -
  have ne: "fd_set f \<noteq> {}" using assms by auto
  show "z_contains \<lparr> z_lo = fd_min f, z_hi = fd_max f \<rparr> v"
    using assms fd_min_least(2) [OF ne] fd_max_greatest(2) [OF ne] by (simp add: z_contains_def)
  show "domain_wf (DZ \<lparr> z_lo = fd_min f, z_hi = fd_max f \<rparr>)"
    using fd_member_int64 [OF assms(1)] fd_min_least(1) [OF ne] fd_max_greatest(1) [OF ne]
    by (simp add: domain_wf_def)
qed

text \<open>C24: Intersecting two finite domains gives a well-formed bit set (its cached count right, its
  window compact) that holds exactly the common members, and \<^verbatim>\<open>contains\<close> answers membership in it.\<close>

theorem fd_intersect_exact:
  assumes "fd_wf d" "fd_wf e"
  shows "fd_wf (fd_intersect d e)
    \<and> fd_set (fd_intersect d e) = fd_set d \<inter> fd_set e
    \<and> (in_int64 v \<longrightarrow> (fd_contains (fd_intersect d e) v \<longleftrightarrow> fd_contains d v \<and> fd_contains e v))"
  using fd_intersect_both [OF assms] by (auto simp: assms fd_contains_iff)

text \<open>C27: The constructors build the set they name: a range, a list of values in any order with
  repetitions, a singleton; the result is well formed, and enumerating it gives the members in
  ascending order, each once.\<close>

theorem fd_build_exact:
  assumes "in_int64 lo" "in_int64 hi" "hi - lo < 2 ^ 61"
    and "\<And>v. v \<in> set vs \<Longrightarrow> lo \<le> v \<and> v \<le> hi"
  shows "fd_wf (fd_from_range lo hi) \<and> fd_set (fd_from_range lo hi) = {lo..hi}
    \<and> fd_wf (fd_from_unsorted vs) \<and> fd_set (fd_from_unsorted vs) = set vs
    \<and> fd_to_vector (fd_from_unsorted vs) = sorted_list_of_set (set vs)
    \<and> fd_size (fd_from_unsorted vs) = int (card (set vs))"
proof (intro conjI)
  show "fd_wf (fd_from_range lo hi)" "fd_set (fd_from_range lo hi) = {lo..hi}"
    using fd_from_range_both assms by auto
  have i: "in_int64 v" if "v \<in> set vs" for v
    using assms(1,2) assms(4) [OF that] by (auto simp: in_int64_def)
  have s: "y - x < 2 ^ 61" if "x \<in> set vs" "y \<in> set vs" for x y
    using assms(3) assms(4) [OF that(1)] assms(4) [OF that(2)] by linarith
  note B = fd_from_unsorted_both [of vs, OF i s]
  then show w: "fd_wf (fd_from_unsorted vs)" and e: "fd_set (fd_from_unsorted vs) = set vs" by auto
  have "fold (\<lambda>v r. r @ [v]) xs ys = ys @ xs" for xs ys :: "int list"
    by (induction xs arbitrary: ys) auto
  then show "fd_to_vector (fd_from_unsorted vs) = sorted_list_of_set (set vs)"
    by (simp add: fd_to_vector_def fd_for_each_set e)
  show "fd_size (fd_from_unsorted vs) = int (card (set vs))"
    using w e by (simp add: fd_wf_def fd_size_def)
qed

text \<open>C25: Propagation never loses a solution: an integer in both domains is in the result of
  \<^verbatim>\<open>domain_intersect\<close>, for every pair of kinds, real intervals included.\<close>

theorem domain_intersect_keeps:
  assumes "domain_wf a" "domain_wf b" "in_int64 v"
    and "domain_contains_int a v" "domain_contains_int b v"
  shows "domain_contains_int (domain_intersect a b) v"
proof (cases a; cases b)
  fix r f assume "a = DR r" "b = DFD f"
  then show ?thesis using assms fd_hull [of f v] fd_empty_iff [of f]
    by (auto simp: domain_contains_int_def domain_wf_def fd_contains_iff intro!: r_intersect_z_contains)
next
  fix r f assume "a = DFD f" "b = DR r"
  then show ?thesis using assms fd_hull [of f v] fd_empty_iff [of f]
    by (auto simp: domain_contains_int_def domain_wf_def fd_contains_iff intro!: r_intersect_z_contains)
qed (use assms in \<open>auto simp: domain_contains_int_def domain_wf_def r_intersect_contains
    z_contains_intersect fd_contains_iff fd_intersect_both fd_intersect_z_both z_contains_def z_intersect_def
    intro!: r_intersect_z_contains\<close>)

text \<open>C26: Between integer domains the intersection is exact and stays an integer domain; between
  two real intervals it is exact on every double, open bounds included; and an integer domain is
  reported empty exactly when no \<^verbatim>\<open>int64_t\<close> is a member.\<close>

theorem domain_intersect_exact:
  assumes "domain_wf a" "domain_wf b" "is_DR a \<longleftrightarrow> is_DR b"
  shows "domain_wf (domain_intersect a b)
    \<and> (is_DR (domain_intersect a b) \<longleftrightarrow> is_DR a)
    \<and> (in_int64 v \<longrightarrow> (domain_contains_int (domain_intersect a b) v
           \<longleftrightarrow> domain_contains_int a v \<and> domain_contains_int b v))
    \<and> (is_DR a \<longrightarrow> (r_contains (the_real (domain_intersect a b)) w
           \<longleftrightarrow> r_contains (the_real a) w \<and> r_contains (the_real b) w))
    \<and> (\<not> is_DR a \<longrightarrow> (domain_empty a \<longleftrightarrow> {v. in_int64 v \<and> domain_contains_int a v} = {}))"
proof (intro conjI impI)
  show "domain_wf (domain_intersect a b)"
    using assms
    by (cases a; cases b) (auto simp: domain_wf_def fd_intersect_both fd_intersect_z_both z_intersect_def
        max_def min_def r_intersect_def)
  show "is_DR (domain_intersect a b) \<longleftrightarrow> is_DR a"
    using assms(3) by (cases a; cases b) auto
  show "domain_contains_int (domain_intersect a b) v \<longleftrightarrow> domain_contains_int a v \<and> domain_contains_int b v"
    if "in_int64 v"
    using assms that
    by (cases a; cases b) (auto simp: domain_contains_int_def domain_wf_def z_contains_intersect
        fd_contains_iff fd_intersect_both fd_intersect_z_both z_contains_def z_intersect_def r_intersect_contains)
  show "r_contains (the_real (domain_intersect a b)) w
       \<longleftrightarrow> r_contains (the_real a) w \<and> r_contains (the_real b) w" if "is_DR a"
    using assms that by (cases a; cases b) (auto simp: r_intersect_contains)
  show "domain_empty a \<longleftrightarrow> {v. in_int64 v \<and> domain_contains_int a v} = {}" if "\<not> is_DR a"
  proof (cases a)
    case (DZ z)
    then show ?thesis using assms(1)
      by (auto simp: domain_empty_def domain_contains_int_def domain_wf_def z_empty_def z_contains_def in_int64_def)
  next
    case (DFD f)
    then show ?thesis using assms(1) fd_member_int64 [of f]
      by (auto simp: domain_empty_def domain_contains_int_def domain_wf_def fd_empty_iff fd_contains_iff)
  qed (use that in simp)
qed

section \<open>Witnesses\<close>

lemma fd_intersect_exact_witness:
  "fd_set (fd_intersect (fd_singleton 3) (fd_from_range 1 5)) = {3}
   \<and> fd_contains (fd_intersect (fd_singleton 3) (fd_from_range 1 5)) 3"
proof -
  have i: "in_int64 1" "in_int64 3" "in_int64 5" by (simp_all add: in_int64_def INT64_MIN_def INT64_MAX_def)
  have a: "fd_wf (fd_singleton 3)" "fd_set (fd_singleton 3) = {3}" using fd_singleton_exact [OF i(2)] by auto
  have b: "fd_wf (fd_from_range 1 5)" "fd_set (fd_from_range 1 5) = {1..5}"
    using fd_from_range_both [OF i(1,3)] by auto
  show ?thesis
    using fd_intersect_exact [OF a(1) b(1), of 3] a b i
    by (simp add: fd_contains_iff)
qed

lemma fd_build_exact_witness:
  "fd_to_vector (fd_from_unsorted [7, 2, 7, 200]) = [2, 7, 200]
   \<and> fd_size (fd_from_unsorted [7, 2, 7, 200]) = 3
   \<and> fd_set (fd_from_range 2 200) = {2..200}"
proof -
  have i: "in_int64 2" "in_int64 200" by (simp_all add: in_int64_def INT64_MIN_def INT64_MAX_def)
  have r: "2 \<le> v \<and> v \<le> 200" if "v \<in> set [7, 2, 7, 200]" for v :: int using that by auto
  note B = fd_build_exact [of 2 200 "[7, 2, 7, 200]", OF i _ r]
  have e: "set [7, 2, 7, 200] = {2, 7, 200 :: int}" by auto
  show ?thesis using B unfolding e by simp
qed

lemma domain_intersect_keeps_witness:
  "domain_contains_int (domain_intersect (DZ \<lparr> z_lo = 0, z_hi = 9 \<rparr>)
     (DR \<lparr> r_lo = int_to_double 2, r_hi = int_to_double 7, r_lo_open = False, r_hi_open = True \<rparr>)) 4"
proof -
  have i: "in_int64 0" "in_int64 9" "in_int64 2" "in_int64 7" "in_int64 4"
    by (simp_all add: in_int64_def INT64_MIN_def INT64_MAX_def)
  have "dbl_mag 4 < dbl_mag 7" "dbl_mag 2 \<le> dbl_mag 4"
    by (simp_all add: dbl_mag_def msb.simps)
  then show ?thesis
    by (intro domain_intersect_keeps)
      (simp_all add: i domain_wf_def int_to_double_key domain_contains_int_def z_contains_def r_contains_iff
        dbl_le_def dbl_less_def)
qed

lemma domain_intersect_exact_witness:
  "domain_wf (domain_intersect (DZ \<lparr> z_lo = 0, z_hi = 9 \<rparr>) (DFD (fd_singleton 3)))
   \<and> domain_contains_int (domain_intersect (DZ \<lparr> z_lo = 0, z_hi = 9 \<rparr>) (DFD (fd_singleton 3))) 3"
proof -
  have i: "in_int64 0" "in_int64 9" "in_int64 3" by (simp_all add: in_int64_def INT64_MIN_def INT64_MAX_def)
  have a: "domain_wf (DZ \<lparr> z_lo = 0, z_hi = 9 \<rparr>)" using i by (simp add: domain_wf_def)
  have b: "domain_wf (DFD (fd_singleton 3))" "fd_set (fd_singleton 3) = {3}"
    using fd_singleton_exact [OF i(3)] by (simp_all add: domain_wf_def)
  have c: "domain_contains_int (DFD (fd_singleton 3)) 3" "domain_contains_int (DZ \<lparr> z_lo = 0, z_hi = 9 \<rparr>) 3"
    using b i by (simp_all add: domain_contains_int_def fd_contains_iff domain_wf_def z_contains_def)
  have d: "is_DR (DZ \<lparr> z_lo = 0, z_hi = 9 \<rparr>) \<longleftrightarrow> is_DR (DFD (fd_singleton 3))" by simp
  show ?thesis
    using domain_intersect_exact [OF a b(1) d, of 3] i(3) c by simp
qed

end
