(* ===== verification/Trail.thy ===== *)
theory Trail
  imports HeapObject Domain "HOL-Library.AList"
begin

text \<open>
  The logic state of the machine and its trail: \<^verbatim>\<open>TrailEntry\<close> and the trail fields of
  \<^verbatim>\<open>VM\<close> in \<^verbatim>\<open>vm.h\<close>, \<^verbatim>\<open>rollback_one\<close>, \<^verbatim>\<open>rollback_trail_to\<close> and the trailed writes of
  \<^verbatim>\<open>vm.cpp\<close>, \<^verbatim>\<open>clp/real_store.{h,cpp}\<close>, and the attribute primitives of
  \<^verbatim>\<open>core_primitives.h\<close>. The heap is the map from ids to the objects a lookup finds; the
  attributes of a variable are an association list in the order in which the code iterates
  over them.
\<close>

section \<open>The real store\<close>

record bound =
  bound_value :: u64
  bound_strict :: bool

definition bound_eq :: "bound \<Rightarrow> bound \<Rightarrow> bool" where
  "bound_eq a b \<longleftrightarrow> dbl_eq (bound_value a) (bound_value b) \<and> bound_strict a = bound_strict b"

record linear_term =
  var_id :: object_id
  coef :: u64

record linear_expr =
  lin_terms :: "linear_term list"
  lin_constant :: u64

datatype real_relation = Leq_rel | Eq_rel

record real_constraint =
  rc_relation :: real_relation
  rc_expr :: linear_expr
  rc_vars :: "object_id list"

type_synonym bound_pair = "bound option \<times> bound option"

record real_store =
  real_entries :: "real_constraint list"
  real_bounds :: "object_id \<rightharpoonup> bound_pair"

definition real_size :: "real_store \<Rightarrow> nat" where
  "real_size r = length (real_entries r)"

definition real_clear :: "real_store \<Rightarrow> real_store" where
  "real_clear r = \<lparr> real_entries = [], real_bounds = Map.empty \<rparr>"

definition real_truncate :: "nat \<Rightarrow> real_store \<Rightarrow> real_store" where
  "real_truncate n r = (if n < length (real_entries r) then r\<lparr> real_entries := take n (real_entries r) \<rparr> else r)"

text \<open>The ids of a canonical expression: consecutive equal ids once.\<close>

definition collect_vars :: "linear_expr \<Rightarrow> object_id list" where
  "collect_vars e = fold (\<lambda>t vars. if vars = [] \<or> last vars \<noteq> var_id t then vars @ [var_id t] else vars) (lin_terms e) []"

text \<open>The expression is appended in canonical form, which the caller's sums of doubles give.\<close>

definition append_constraint :: "real_relation \<Rightarrow> linear_expr \<Rightarrow> real_store \<Rightarrow> real_store" where
  "append_constraint rel e r = r\<lparr> real_entries := real_entries r @ [\<lparr> rc_relation = rel, rc_expr = e, rc_vars = collect_vars e \<rparr>] \<rparr>"

definition to_fm_system :: "real_store \<Rightarrow> linear_expr list \<times> linear_expr list" where
  "to_fm_system r = (map rc_expr (filter (\<lambda>e. rc_relation e = Leq_rel) (real_entries r)),
                     map rc_expr (filter (\<lambda>e. rc_relation e \<noteq> Leq_rel) (real_entries r)))"

definition participating_vars :: "real_store \<Rightarrow> object_id list" where
  "participating_vars r = remdups_adj (sort (concat (map rc_vars (real_entries r))))"

definition simplex_bounds :: "object_id \<Rightarrow> real_store \<Rightarrow> bound_pair option" where
  "simplex_bounds i r = real_bounds r i"

definition erase_simplex_bounds_no_trail :: "object_id \<Rightarrow> real_store \<Rightarrow> real_store" where
  "erase_simplex_bounds_no_trail i r = r\<lparr> real_bounds := (real_bounds r)(i := None) \<rparr>"

definition set_simplex_bounds_no_trail :: "object_id \<Rightarrow> bound option \<Rightarrow> bound option \<Rightarrow> real_store \<Rightarrow> real_store" where
  "set_simplex_bounds_no_trail i lo hi r =
     (if lo = None \<and> hi = None then r\<lparr> real_bounds := (real_bounds r)(i := None) \<rparr>
      else r\<lparr> real_bounds := (real_bounds r)(i \<mapsto> (lo, hi)) \<rparr>)"

section \<open>The machine's logic state\<close>

datatype trail_kind = Bind_trail | Attr_trail | Domain_trail | RealStore_trail | SimplexBound_trail

record trail_entry =
  te_kind :: trail_kind
  te_var :: lispval
  prev_value :: lispval
  module_key :: u64
  had_prev :: bool
  prev_domain :: "domain option"
  prev_real_store_size :: nat
  prev_simplex_lo :: "bound option"
  prev_simplex_hi :: "bound option"

definition trail_entry0 :: "trail_kind \<Rightarrow> lispval \<Rightarrow> trail_entry" where
  "trail_entry0 k v = \<lparr> te_kind = k, te_var = v, prev_value = Nil_val, module_key = 0, had_prev = False,
     prev_domain = None, prev_real_store_size = 0, prev_simplex_lo = None, prev_simplex_hi = None \<rparr>"

datatype occurs_check_mode = Occurs_always | Occurs_never | Occurs_error

record logic_vm =
  lstore :: "object_id \<rightharpoonup> heap_obj"
  trail_stack :: "trail_entry list"
  constraints :: constraint_store
  reals :: real_store
  attr_unify_hooks :: "u64 \<rightharpoonup> lispval"
  async_thunk_attrs :: "u64 set"
  prop_queue :: "lispval list"
  prop_queued_set :: "object_id set"
  unify_depth :: nat
  occurs_mode :: occurs_check_mode
  last_unify_cycle_error :: bool

text \<open>\<^verbatim>\<open>try_get_as\<close> at the four kinds of object that the logic operations look at.\<close>

definition lookup :: "logic_vm \<Rightarrow> lispval \<Rightarrow> heap_obj option" where
  "lookup s v = (if is_heap_ref v then lstore s (payload v) else None)"

definition as_logic_var :: "logic_vm \<Rightarrow> lispval \<Rightarrow> (lispval option \<times> string \<times> (u64 \<times> lispval) list) option" where
  "as_logic_var s v = (case lookup s v of Some (LogicVar_obj b n as) \<Rightarrow> Some (b, n, as) | _ \<Rightarrow> None)"

definition as_cons :: "logic_vm \<Rightarrow> lispval \<Rightarrow> (lispval \<times> lispval) option" where
  "as_cons s v = (case lookup s v of Some (Cons_obj a d) \<Rightarrow> Some (a, d) | _ \<Rightarrow> None)"

definition as_vector :: "logic_vm \<Rightarrow> lispval \<Rightarrow> lispval list option" where
  "as_vector s v = (case lookup s v of Some (Vector_obj es) \<Rightarrow> Some es | _ \<Rightarrow> None)"

definition as_compound :: "logic_vm \<Rightarrow> lispval \<Rightarrow> (lispval \<times> lispval list) option" where
  "as_compound s v = (case lookup s v of Some (CompoundTerm_obj f as) \<Rightarrow> Some (f, as) | _ \<Rightarrow> None)"

definition put_object :: "lispval \<Rightarrow> heap_obj \<Rightarrow> logic_vm \<Rightarrow> logic_vm" where
  "put_object v ob s = s\<lparr> lstore := (lstore s)(payload v \<mapsto> ob) \<rparr>"

definition push_trail :: "trail_entry \<Rightarrow> logic_vm \<Rightarrow> logic_vm" where
  "push_trail e s = s\<lparr> trail_stack := trail_stack s @ [e] \<rparr>"

section \<open>Trailed writes\<close>

text \<open>A variable is bound in place, and then the binding is trailed.\<close>

definition bind_var :: "lispval \<Rightarrow> lispval \<Rightarrow> logic_vm \<Rightarrow> logic_vm" where
  "bind_var v w s = (case as_logic_var s v of None \<Rightarrow> s
     | Some (b, n, as) \<Rightarrow> push_trail (trail_entry0 Bind_trail v) (put_object v (LogicVar_obj (Some w) n as) s))"

definition trail_set_domain :: "object_id \<Rightarrow> domain \<Rightarrow> logic_vm \<Rightarrow> logic_vm" where
  "trail_set_domain i d s =
     (let e = trail_entry0 Domain_trail (box HeapObject_tag i);
          e' = (case get_domain (constraints s) i of
                  Some prev \<Rightarrow> e\<lparr> had_prev := True, prev_domain := Some prev \<rparr>
                | None \<Rightarrow> e\<lparr> had_prev := False, prev_domain := None \<rparr>);
          s' = push_trail e' s
      in s'\<lparr> constraints := set_domain_no_trail (constraints s') i d \<rparr>)"

definition trail_erase_domain :: "object_id \<Rightarrow> logic_vm \<Rightarrow> logic_vm" where
  "trail_erase_domain i s =
     (case get_domain (constraints s) i of None \<Rightarrow> s
      | Some prev \<Rightarrow>
        let s' = push_trail ((trail_entry0 Domain_trail (box HeapObject_tag i))
                   \<lparr> had_prev := True, prev_domain := Some prev \<rparr>) s
        in s'\<lparr> constraints := erase_domain_no_trail (constraints s') i \<rparr>)"

definition trail_mark_real_store :: "logic_vm \<Rightarrow> logic_vm" where
  "trail_mark_real_store s =
     push_trail ((trail_entry0 RealStore_trail Nil_val)\<lparr> prev_real_store_size := real_size (reals s) \<rparr>) s"

definition same_bound :: "bound option \<Rightarrow> bound option \<Rightarrow> bool" where
  "same_bound x y = (case (x, y) of (Some a, Some b) \<Rightarrow> bound_eq a b | (None, None) \<Rightarrow> True | _ \<Rightarrow> False)"

definition trail_assert_simplex_bound :: "object_id \<Rightarrow> bound option \<Rightarrow> bound option \<Rightarrow> logic_vm \<Rightarrow> logic_vm" where
  "trail_assert_simplex_bound i lo hi s =
     (let prev = simplex_bounds i (reals s) in
      if (case prev of Some (l, h) \<Rightarrow> same_bound l lo \<and> same_bound h hi | None \<Rightarrow> False) then s
      else if prev = None \<and> lo = None \<and> hi = None then s
      else
        let e = trail_entry0 SimplexBound_trail (box HeapObject_tag i);
            e' = (case prev of
                    Some (l, h) \<Rightarrow> e\<lparr> had_prev := True, prev_simplex_lo := l, prev_simplex_hi := h \<rparr>
                  | None \<Rightarrow> e\<lparr> had_prev := False, prev_simplex_lo := None, prev_simplex_hi := None \<rparr>);
            s' = push_trail e' s
        in if lo = None \<and> hi = None then s'\<lparr> reals := erase_simplex_bounds_no_trail i (reals s') \<rparr>
           else s'\<lparr> reals := set_simplex_bounds_no_trail i lo hi (reals s') \<rparr>)"

text \<open>Posting a real constraint marks the log and appends to it.\<close>

definition post_real :: "real_relation \<Rightarrow> linear_expr \<Rightarrow> logic_vm \<Rightarrow> logic_vm" where
  "post_real rel e s = (let s' = trail_mark_real_store s in s'\<lparr> reals := append_constraint rel e (reals s') \<rparr>)"

section \<open>Undoing\<close>

definition rollback_one :: "trail_entry \<Rightarrow> logic_vm \<Rightarrow> logic_vm" where
  "rollback_one e s =
     (case te_kind e of
        Bind_trail \<Rightarrow>
          (case as_logic_var s (te_var e) of
             Some (b, n, as) \<Rightarrow> put_object (te_var e) (LogicVar_obj None n as) s | None \<Rightarrow> s)
      | Attr_trail \<Rightarrow>
          (case as_logic_var s (te_var e) of
             Some (b, n, as) \<Rightarrow>
               put_object (te_var e) (LogicVar_obj b n
                 (if had_prev e then AList.update (module_key e) (prev_value e) as else AList.delete (module_key e) as)) s
           | None \<Rightarrow> s)
      | Domain_trail \<Rightarrow>
          let i = payload (te_var e) in
          s\<lparr> constraints := (case (had_prev e, prev_domain e) of
               (True, Some d) \<Rightarrow> set_domain_no_trail (constraints s) i d
             | _ \<Rightarrow> erase_domain_no_trail (constraints s) i) \<rparr>
      | RealStore_trail \<Rightarrow> s\<lparr> reals := real_truncate (prev_real_store_size e) (reals s) \<rparr>
      | SimplexBound_trail \<Rightarrow>
          let i = payload (te_var e) in
          s\<lparr> reals := (if had_prev e
               then set_simplex_bounds_no_trail i (prev_simplex_lo e) (prev_simplex_hi e) (reals s)
               else erase_simplex_bounds_no_trail i (reals s)) \<rparr>)"

lemma rollback_one_trail [simp]: "trail_stack (rollback_one e s) = trail_stack s"
  by (auto simp: rollback_one_def put_object_def Let_def split: trail_kind.splits option.splits)

function rollback_trail_to :: "nat \<Rightarrow> logic_vm \<Rightarrow> logic_vm" where
  "rollback_trail_to m s =
     (if length (trail_stack s) > m
      then rollback_trail_to m ((rollback_one (last (trail_stack s)) s)\<lparr> trail_stack := butlast (trail_stack s) \<rparr>)
      else s)"
  by pat_completeness auto

termination
  by (relation "measure (\<lambda>(m, s). length (trail_stack s))") auto

declare rollback_trail_to.simps [simp del]

section \<open>Attribute primitives\<close>

datatype rt_error = Type_error string | User_error string

definition get_symbol_id :: "lispval \<Rightarrow> u64 option" where
  "get_symbol_id v = (if \<not> is_boxed v \<or> tag v \<noteq> Symbol_tag then None else Some (payload v))"

definition put_attr :: "bool \<Rightarrow> lispval \<Rightarrow> lispval \<Rightarrow> lispval \<Rightarrow> logic_vm \<Rightarrow> (rt_error + lispval) \<times> logic_vm" where
  "put_attr has_vm v m val s =
     (case as_logic_var s v of
        None \<Rightarrow> (Inl (Type_error ''put-attr: first arg must be a logic variable''), s)
      | Some (b, n, as) \<Rightarrow>
        (case get_symbol_id m of
           None \<Rightarrow> (Inl (Type_error ''put-attr: second arg must be a symbol (module name)''), s)
         | Some k \<Rightarrow>
           let e = (trail_entry0 Attr_trail v)\<lparr> module_key := k \<rparr>;
               e' = (case map_of as k of
                       Some old \<Rightarrow> e\<lparr> had_prev := True, prev_value := old \<rparr>
                     | None \<Rightarrow> e\<lparr> had_prev := False, prev_value := Nil_val \<rparr>);
               s' = (if has_vm then push_trail e' s else s)
           in (Inr True_val, put_object v (LogicVar_obj b n (AList.update k val as)) s')))"

definition get_attr :: "lispval \<Rightarrow> lispval \<Rightarrow> logic_vm \<Rightarrow> rt_error + lispval" where
  "get_attr v m s =
     (case as_logic_var s v of None \<Rightarrow> Inr False_val
      | Some (b, n, as) \<Rightarrow>
        (case get_symbol_id m of
           None \<Rightarrow> Inl (Type_error ''get-attr: second arg must be a symbol (module name)'')
         | Some k \<Rightarrow> Inr (case map_of as k of None \<Rightarrow> False_val | Some x \<Rightarrow> x)))"

definition del_attr :: "bool \<Rightarrow> lispval \<Rightarrow> lispval \<Rightarrow> logic_vm \<Rightarrow> (rt_error + lispval) \<times> logic_vm" where
  "del_attr has_vm v m s =
     (case as_logic_var s v of None \<Rightarrow> (Inr False_val, s)
      | Some (b, n, as) \<Rightarrow>
        (case get_symbol_id m of
           None \<Rightarrow> (Inl (Type_error ''del-attr: second arg must be a symbol (module name)''), s)
         | Some k \<Rightarrow>
           (case map_of as k of None \<Rightarrow> (Inr False_val, s)
            | Some old \<Rightarrow>
              let s' = (if has_vm then push_trail ((trail_entry0 Attr_trail v)
                          \<lparr> module_key := k, had_prev := True, prev_value := old \<rparr>) s else s)
              in (Inr True_val, put_object v (LogicVar_obj b n (AList.delete k as)) s'))))"

definition is_attr_var :: "lispval \<Rightarrow> logic_vm \<Rightarrow> bool" where
  "is_attr_var v s = (case as_logic_var s v of Some (None, _, as) \<Rightarrow> as \<noteq> [] | _ \<Rightarrow> False)"

definition register_attr_hook :: "bool \<Rightarrow> lispval \<Rightarrow> lispval \<Rightarrow> logic_vm \<Rightarrow> (rt_error + lispval) \<times> logic_vm" where
  "register_attr_hook has_vm m proc s =
     (if \<not> has_vm then (Inl (Type_error ''register-attr-hook!: requires a running VM''), s)
      else case get_symbol_id m of
        None \<Rightarrow> (Inl (Type_error ''register-attr-hook!: first arg must be a symbol (module name)''), s)
      | Some k \<Rightarrow> (Inr True_val, s\<lparr> attr_unify_hooks := (attr_unify_hooks s)(k \<mapsto> proc) \<rparr>))"

section \<open>What is restored\<close>

text \<open>The order in which a variable's attributes are kept is not observable.\<close>

definition obj_view :: "heap_obj \<Rightarrow> heap_obj \<times> (u64 \<rightharpoonup> lispval)" where
  "obj_view ob = (case ob of LogicVar_obj b n as \<Rightarrow> (LogicVar_obj b n [], map_of as) | _ \<Rightarrow> (ob, Map.empty))"

definition same_on :: "object_id set \<Rightarrow> logic_vm \<Rightarrow> logic_vm \<Rightarrow> bool" where
  "same_on D s t \<longleftrightarrow> (\<forall>i \<in> D. map_option obj_view (lstore s i) = map_option obj_view (lstore t i))
     \<and> constraints s = constraints t \<and> reals s = reals t \<and> trail_stack s = trail_stack t"

definition bounds_ok :: "logic_vm \<Rightarrow> bool" where
  "bounds_ok s \<longleftrightarrow> (\<forall>i. real_bounds (reals s) i \<noteq> Some (None, None))"

lemma obj_view_simps [simp]:
  "obj_view (LogicVar_obj b n as) = (LogicVar_obj b n [], map_of as)"
  "obj_view ob = (LogicVar_obj b n [], m) \<longleftrightarrow> (\<exists>as. ob = LogicVar_obj b n as \<and> map_of as = m)"
  "(LogicVar_obj b n [], m) = obj_view ob \<longleftrightarrow> (\<exists>as. ob = LogicVar_obj b n as \<and> map_of as = m)"
  by (cases ob; auto simp: obj_view_def)+

lemma same_on_refl [simp]: "same_on D s s"
  by (simp add: same_on_def)

lemma same_on_trans: "same_on D s t \<Longrightarrow> same_on D t u \<Longrightarrow> same_on D s u"
  by (simp add: same_on_def)

lemma same_on_sym: "same_on D s t \<Longrightarrow> same_on D t s"
  by (simp add: same_on_def)

lemma same_on_subset: "same_on D s t \<Longrightarrow> E \<subseteq> D \<Longrightarrow> same_on E s t"
  by (auto simp: same_on_def)

lemma as_logic_var_Some: "as_logic_var s v = Some (b, n, as) \<longleftrightarrow> is_heap_ref v \<and> lstore s (payload v) = Some (LogicVar_obj b n as)"
  by (auto simp: as_logic_var_def lookup_def split: option.splits heap_obj.splits)

lemma same_on_logic_var:
  assumes "same_on D s t" "payload v \<in> D"
  shows "as_logic_var s v = Some (b, n, as) \<Longrightarrow> \<exists>as'. as_logic_var t v = Some (b, n, as') \<and> map_of as' = map_of as"
    and "as_logic_var s v = None \<Longrightarrow> as_logic_var t v = None"
proof -
  have e: "map_option obj_view (lstore s (payload v)) = map_option obj_view (lstore t (payload v))"
    using assms by (simp add: same_on_def)
  show "as_logic_var s v = Some (b, n, as) \<Longrightarrow> \<exists>as'. as_logic_var t v = Some (b, n, as') \<and> map_of as' = map_of as"
    using e by (auto simp: as_logic_var_Some map_option_case split: option.splits)
  show "as_logic_var t v = None" if n: "as_logic_var s v = None"
  proof (cases "as_logic_var t v")
    case (Some x)
    then obtain b n as where "is_heap_ref v" "lstore t (payload v) = Some (LogicVar_obj b n as)"
      by (cases x) (auto simp: as_logic_var_Some)
    then have "\<exists>as'. as_logic_var s v = Some (b, n, as')"
      using e by (auto simp: as_logic_var_Some)
    then show ?thesis using n by simp
  qed
qed

lemma same_on_put:
  assumes "same_on D s t" "payload v \<in> D \<Longrightarrow> obj_view x = obj_view y"
  shows "same_on D (put_object v x s) (put_object v y t)"
  using assms by (auto simp: same_on_def put_object_def)

lemma same_on_put_outside:
  "same_on D s t \<Longrightarrow> payload v \<notin> D \<Longrightarrow> same_on D (put_object v x s) t"
  "same_on D s t \<Longrightarrow> payload v \<notin> D \<Longrightarrow> same_on D s (put_object v x t)"
  by (auto simp: same_on_def put_object_def)

text \<open>Undoing an entry does the same to states that are the same.\<close>

lemma rollback_one_same:
  assumes "same_on D s t"
  shows "same_on D (rollback_one e s) (rollback_one e t)"
proof -
  have put: "same_on D
      (case as_logic_var s v of Some (b, n, as) \<Rightarrow> put_object v (f b n as) s | None \<Rightarrow> s)
      (case as_logic_var t v of Some (b, n, as) \<Rightarrow> put_object v (f b n as) t | None \<Rightarrow> t)"
    if f: "\<And>b n as as'. map_of as = map_of as' \<Longrightarrow> obj_view (f b n as) = obj_view (f b n as')" for v f
  proof (cases "payload v \<in> D")
    case True
    show ?thesis
    proof (cases "as_logic_var s v")
      case None
      then show ?thesis using same_on_logic_var(2) [OF assms True] assms by simp
    next
      case (Some x)
      obtain b n as where x: "x = (b, n, as)" by (cases x)
      obtain as' where "as_logic_var t v = Some (b, n, as')" "map_of as' = map_of as"
        using same_on_logic_var(1) [OF assms True] Some x by blast
      then show ?thesis using Some x f [of as as'] by (simp add: same_on_put [OF assms])
    qed
  next
    case False
    have 1: "same_on D (case as_logic_var s v of Some (b, n, as) \<Rightarrow> put_object v (f b n as) s | None \<Rightarrow> s) t"
      using same_on_put_outside(1) [OF assms False] assms by (auto split: option.splits)
    from same_on_put_outside(2) [OF 1 False] show ?thesis using 1
      by (cases "as_logic_var t v") auto
  qed
  have simple: "same_on D (s\<lparr> constraints := c \<rparr>) (t\<lparr> constraints := c \<rparr>)" "same_on D (s\<lparr> reals := r \<rparr>) (t\<lparr> reals := r \<rparr>)" for c r
    using assms by (simp_all add: same_on_def)
  have eq: "constraints s = constraints t" "reals s = reals t" using assms by (simp_all add: same_on_def)
  show ?thesis
  proof (cases "te_kind e")
    case Bind_trail
    then show ?thesis using put [of "\<lambda>b n as. LogicVar_obj None n as" "te_var e"] by (simp add: rollback_one_def)
  next
    case Attr_trail
    then show ?thesis
      using put [of "\<lambda>b n as. LogicVar_obj b n (if had_prev e then AList.update (module_key e) (prev_value e) as
          else AList.delete (module_key e) as)" "te_var e"]
      by (simp add: rollback_one_def update_conv' delete_conv')
  qed (simp_all add: rollback_one_def Let_def simple eq split: bool.splits option.splits)
qed

lemma rollback_trail_to_trail: "trail_stack (rollback_trail_to m s) = take m (trail_stack s)"
  by (induction m s rule: rollback_trail_to.induct)
    (subst rollback_trail_to.simps, auto simp: butlast_conv_take min_def)

lemma rollback_trail_to_same: "same_on D s t \<Longrightarrow> same_on D (rollback_trail_to m s) (rollback_trail_to m t)"
proof (induction m s arbitrary: t rule: rollback_trail_to.induct)
  case (1 m s)
  have tr: "trail_stack t = trail_stack s" using 1(2) by (simp add: same_on_def)
  show ?case
  proof (cases "length (trail_stack s) > m")
    case True
    let ?u = "\<lambda>s. (rollback_one (last (trail_stack s)) s)\<lparr> trail_stack := butlast (trail_stack s) \<rparr>"
    have "same_on D (?u s) (?u t)"
      using rollback_one_same [OF 1(2), of "last (trail_stack s)"] by (simp add: same_on_def tr)
    then show ?thesis
      using 1(1) [OF True] True tr by (subst (1 2) rollback_trail_to.simps) simp
  next
    case False
    then show ?thesis using 1(2) tr by (subst (1 2) rollback_trail_to.simps) simp
  qed
qed

lemma rollback_trail_to_twice: "m \<le> k \<Longrightarrow> rollback_trail_to m (rollback_trail_to k s) = rollback_trail_to m s"
proof (induction k s rule: rollback_trail_to.induct)
  case (1 k s)
  show ?case
  proof (cases "length (trail_stack s) > k")
    case True
    then show ?thesis using 1 by (subst (2 3) rollback_trail_to.simps) simp
  next
    case False
    then show ?thesis by (subst (2) rollback_trail_to.simps) simp
  qed
qed

text \<open>A change that rolling back to the old length of the trail undoes.\<close>

definition undoable :: "logic_vm \<Rightarrow> logic_vm \<Rightarrow> bool" where
  "undoable s s' \<longleftrightarrow> (\<exists>es. trail_stack s' = trail_stack s @ es)
     \<and> same_on (dom (lstore s)) (rollback_trail_to (length (trail_stack s)) s') s
     \<and> dom (lstore s) \<subseteq> dom (lstore s') \<and> (bounds_ok s \<longrightarrow> bounds_ok s')"

lemma undoable_trans:
  assumes "undoable s t" "undoable t u"
  shows "undoable s u"
proof -
  let ?m = "length (trail_stack s)" and ?k = "length (trail_stack t)"
  have le: "?m \<le> ?k" using assms(1) by (auto simp: undoable_def)
  have "same_on (dom (lstore t)) (rollback_trail_to ?k u) t" using assms(2) by (simp add: undoable_def)
  from rollback_trail_to_same [OF this, of ?m]
  have "same_on (dom (lstore t)) (rollback_trail_to ?m u) (rollback_trail_to ?m t)"
    by (simp add: rollback_trail_to_twice [OF le])
  moreover have "dom (lstore s) \<subseteq> dom (lstore t)" using assms(1) by (simp add: undoable_def)
  ultimately have "same_on (dom (lstore s)) (rollback_trail_to ?m u) (rollback_trail_to ?m t)"
    by (rule same_on_subset)
  moreover have "same_on (dom (lstore s)) (rollback_trail_to ?m t) s" using assms(1) by (simp add: undoable_def)
  ultimately have "same_on (dom (lstore s)) (rollback_trail_to ?m u) s" by (rule same_on_trans)
  then show ?thesis using assms unfolding undoable_def by auto
qed

lemma undoable_none:
  assumes "trail_stack s' = trail_stack s" "constraints s' = constraints s" "reals s' = reals s"
    and "\<And>i. i \<in> dom (lstore s) \<Longrightarrow> lstore s' i = lstore s i"
  shows "undoable s s'"
proof -
  have "rollback_trail_to (length (trail_stack s)) s' = s'"
    using assms(1) by (subst rollback_trail_to.simps) simp
  moreover have "dom (lstore s) \<subseteq> dom (lstore s')" using assms(4) by force
  ultimately show ?thesis using assms by (auto simp: undoable_def same_on_def bounds_ok_def)
qed

lemma undoable_refl [simp]: "undoable s s"
  by (rule undoable_none) simp_all

lemma undoable_one:
  assumes "trail_stack s' = trail_stack s @ [e]" "dom (lstore s) \<subseteq> dom (lstore s')" "bounds_ok s \<longrightarrow> bounds_ok s'"
    and "same_on (dom (lstore s)) ((rollback_one e s')\<lparr> trail_stack := trail_stack s \<rparr>) s"
  shows "undoable s s'"
proof -
  have "rollback_trail_to (length (trail_stack s)) s' = (rollback_one e s')\<lparr> trail_stack := trail_stack s \<rparr>"
    using assms(1) by (subst rollback_trail_to.simps, simp) (subst rollback_trail_to.simps, simp)
  then show ?thesis using assms by (simp add: undoable_def)
qed

text \<open>Every trailed write is undone by its entry.\<close>

lemma trail_entry0_simps [simp]:
  "te_kind (trail_entry0 k v) = k" "te_var (trail_entry0 k v) = v" "had_prev (trail_entry0 k v) = False"
  by (simp_all add: trail_entry0_def)

lemma put_object_simps [simp]:
  "trail_stack (put_object v x s) = trail_stack s" "constraints (put_object v x s) = constraints s"
  "reals (put_object v x s) = reals s" "lstore (put_object v x s) = (lstore s)(payload v \<mapsto> x)"
  "unify_depth (put_object v x s) = unify_depth s"
  by (simp_all add: put_object_def)

lemma push_trail_simps [simp]:
  "trail_stack (push_trail e s) = trail_stack s @ [e]" "constraints (push_trail e s) = constraints s"
  "reals (push_trail e s) = reals s" "lstore (push_trail e s) = lstore s" "unify_depth (push_trail e s) = unify_depth s"
  by (simp_all add: push_trail_def)

lemma undoable_var_write:
  assumes v: "as_logic_var s v = Some (b, n, as)"
    and t: "t = push_trail e (put_object v (LogicVar_obj b' n as') s) \<or> t = put_object v (LogicVar_obj b' n as') (push_trail e s)"
    and e: "te_var e = v" "te_kind e = Bind_trail \<and> b = None \<and> map_of as' = map_of as
      \<or> te_kind e = Attr_trail \<and> b' = b \<and>
        (if had_prev e then (map_of as')(module_key e \<mapsto> prev_value e) else (map_of as')(module_key e := None)) = map_of as"
  shows "undoable s t"
proof (rule undoable_one)
  have l: "is_heap_ref v" "lstore s (payload v) = Some (LogicVar_obj b n as)" using v by (simp_all add: as_logic_var_Some)
  have st: "lstore t = (lstore s)(payload v \<mapsto> LogicVar_obj b' n as')" "trail_stack t = trail_stack s @ [e]"
    "constraints t = constraints s" "reals t = reals s"
    using t by auto
  have tv: "as_logic_var t v = Some (b', n, as')" using l by (simp add: as_logic_var_Some st)
  show "trail_stack t = trail_stack s @ [e]" by (rule st)
  show "dom (lstore s) \<subseteq> dom (lstore t)" by (auto simp: st)
  show "bounds_ok s \<longrightarrow> bounds_ok t" by (simp add: bounds_ok_def st)
  show "same_on (dom (lstore s)) ((rollback_one e t)\<lparr> trail_stack := trail_stack s \<rparr>) s"
    using e(2)
  proof
    assume "te_kind e = Bind_trail \<and> b = None \<and> map_of as' = map_of as"
    then show ?thesis using l tv by (auto simp: rollback_one_def e(1) same_on_def st)
  next
    assume "te_kind e = Attr_trail \<and> b' = b \<and>
        (if had_prev e then (map_of as')(module_key e \<mapsto> prev_value e) else (map_of as')(module_key e := None)) = map_of as"
    then show ?thesis using l tv
      by (auto simp: rollback_one_def e(1) same_on_def st update_conv' delete_conv' split: if_splits)
  qed
qed

lemma undoable_bind: "as_logic_var s v = Some (None, n, as) \<Longrightarrow> undoable s (bind_var v w s)"
  by (rule undoable_var_write [where e = "trail_entry0 Bind_trail v"]) (auto simp: bind_var_def)

lemma undoable_put_attr: "undoable s (snd (put_attr True v m val s))"
proof (cases "as_logic_var s v")
  case (Some x)
  obtain b n as where x: "x = (b, n, as)" by (cases x)
  show ?thesis
  proof (cases "get_symbol_id m")
    case sym: (Some k)
    let ?e = "(trail_entry0 Attr_trail v)\<lparr> module_key := k \<rparr>"
    let ?e' = "case map_of as k of Some old \<Rightarrow> ?e\<lparr> had_prev := True, prev_value := old \<rparr> | None \<Rightarrow> ?e\<lparr> had_prev := False, prev_value := Nil_val \<rparr>"
    show ?thesis
      by (rule undoable_var_write [where e = ?e', OF Some [unfolded x]])
        (auto simp: put_attr_def Some x sym Let_def update_conv' fun_eq_iff split: option.splits)
  qed (simp add: put_attr_def Some x)
qed (simp add: put_attr_def)

lemma undoable_del_attr: "undoable s (snd (del_attr True v m s))"
proof (cases "as_logic_var s v")
  case (Some x)
  obtain b n as where x: "x = (b, n, as)" by (cases x)
  show ?thesis
  proof (cases "get_symbol_id m")
    case sym: (Some k)
    show ?thesis
    proof (cases "map_of as k")
      case old: (Some ov)
      let ?e = "(trail_entry0 Attr_trail v)\<lparr> module_key := k, had_prev := True, prev_value := ov \<rparr>"
      show ?thesis
        by (rule undoable_var_write [where e = ?e, OF Some [unfolded x]])
          (auto simp: del_attr_def Some x sym old Let_def delete_conv' fun_eq_iff)
    qed (simp add: del_attr_def Some x sym)
  qed (simp add: del_attr_def Some x)
qed (simp add: del_attr_def)

text \<open>Writes to the two constraint stores.\<close>

lemma same_on_stores:
  "lstore s = lstore t \<Longrightarrow> constraints s = constraints t \<Longrightarrow> reals s = reals t \<Longrightarrow> trail_stack s = trail_stack t \<Longrightarrow> same_on D s t"
  by (simp add: same_on_def)

lemma undoable_set_domain:
  assumes "i \<le> PAYLOAD_MASK"
  shows "undoable s (trail_set_domain i d s)"
proof (rule undoable_one)
  let ?e = "(trail_entry0 Domain_trail (box HeapObject_tag i))\<lparr> had_prev := get_domain (constraints s) i \<noteq> None, prev_domain := get_domain (constraints s) i \<rparr>"
  show t: "trail_stack (trail_set_domain i d s) = trail_stack s @ [?e]"
    by (simp add: trail_set_domain_def Let_def trail_entry0_def split: option.splits)
  show "dom (lstore s) \<subseteq> dom (lstore (trail_set_domain i d s))" "bounds_ok s \<longrightarrow> bounds_ok (trail_set_domain i d s)"
    by (simp_all add: trail_set_domain_def Let_def bounds_ok_def)
  show "same_on (dom (lstore s)) ((rollback_one ?e (trail_set_domain i d s))\<lparr> trail_stack := trail_stack s \<rparr>) s"
    using assms
    by (intro same_on_stores)
      (auto simp: rollback_one_def trail_set_domain_def Let_def and_PAYLOAD_MASK get_domain_def set_domain_no_trail_def
        erase_domain_no_trail_def fun_eq_iff split: option.splits)
qed

lemma undoable_erase_domain:
  assumes "i \<le> PAYLOAD_MASK"
  shows "undoable s (trail_erase_domain i s)"
proof (cases "constraints s i")
  case None
  then show ?thesis by (simp add: trail_erase_domain_def get_domain_def)
next
  case (Some d)
  let ?e = "(trail_entry0 Domain_trail (box HeapObject_tag i))\<lparr> had_prev := True, prev_domain := Some d \<rparr>"
  show ?thesis
  proof (rule undoable_one [where e = ?e])
    show "same_on (dom (lstore s)) ((rollback_one ?e (trail_erase_domain i s))\<lparr> trail_stack := trail_stack s \<rparr>) s"
      using assms Some
      by (intro same_on_stores)
        (auto simp: rollback_one_def trail_erase_domain_def Let_def and_PAYLOAD_MASK get_domain_def set_domain_no_trail_def
          erase_domain_no_trail_def fun_eq_iff)
  qed (simp_all add: trail_erase_domain_def Let_def get_domain_def Some bounds_ok_def)
qed

lemma undoable_post_real: "undoable s (post_real rel e s)"
proof (rule undoable_one)
  let ?e = "(trail_entry0 RealStore_trail Nil_val)\<lparr> prev_real_store_size := real_size (reals s) \<rparr>"
  show "trail_stack (post_real rel e s) = trail_stack s @ [?e]"
    by (simp add: post_real_def Let_def trail_mark_real_store_def)
  show "same_on (dom (lstore s)) ((rollback_one ?e (post_real rel e s))\<lparr> trail_stack := trail_stack s \<rparr>) s"
    by (intro same_on_stores)
      (simp_all add: rollback_one_def post_real_def Let_def trail_mark_real_store_def append_constraint_def
        real_truncate_def real_size_def)
qed (simp_all add: post_real_def Let_def trail_mark_real_store_def append_constraint_def bounds_ok_def)

lemma undoable_assert_bound:
  assumes "i \<le> PAYLOAD_MASK" "bounds_ok s"
  shows "undoable s (trail_assert_simplex_bound i lo hi s)"
proof (cases "trail_assert_simplex_bound i lo hi s = s")
  case False
  let ?p = "real_bounds (reals s) i"
  let ?e = "(trail_entry0 SimplexBound_trail (box HeapObject_tag i))\<lparr> had_prev := ?p \<noteq> None,
     prev_simplex_lo := (case ?p of Some (l, h) \<Rightarrow> l | None \<Rightarrow> None), prev_simplex_hi := (case ?p of Some (l, h) \<Rightarrow> h | None \<Rightarrow> None) \<rparr>"
  have r: "trail_assert_simplex_bound i lo hi s = (push_trail ?e s)\<lparr> reals :=
      (reals s)\<lparr> real_bounds := (real_bounds (reals s))(i := if lo = None \<and> hi = None then None else Some (lo, hi)) \<rparr> \<rparr>"
    using False
    by (auto simp: trail_assert_simplex_bound_def Let_def simplex_bounds_def erase_simplex_bounds_no_trail_def
        set_simplex_bounds_no_trail_def trail_entry0_def push_trail_def split: option.splits if_splits)
  have p: "?p \<noteq> Some (None, None)" using assms(2) by (simp add: bounds_ok_def)
  show ?thesis unfolding r
  proof (rule undoable_one)
    show "same_on (dom (lstore s)) ((rollback_one ?e ((push_trail ?e s)\<lparr> reals :=
      (reals s)\<lparr> real_bounds := (real_bounds (reals s))(i := if lo = None \<and> hi = None then None else Some (lo, hi)) \<rparr> \<rparr>))
        \<lparr> trail_stack := trail_stack s \<rparr>) s"
      using assms(1) p
      by (intro same_on_stores)
        (auto simp: rollback_one_def Let_def and_PAYLOAD_MASK set_simplex_bounds_no_trail_def
          erase_simplex_bounds_no_trail_def fun_upd_idem split: option.splits)
    show "bounds_ok s \<longrightarrow> bounds_ok ((push_trail ?e s)\<lparr> reals :=
      (reals s)\<lparr> real_bounds := (real_bounds (reals s))(i := if lo = None \<and> hi = None then None else Some (lo, hi)) \<rparr> \<rparr>)"
      by (auto simp: bounds_ok_def)
  qed simp_all
qed simp

section \<open>Runs of the machine between a mark and its unwinding\<close>

inductive trailed_step :: "logic_vm \<Rightarrow> logic_vm \<Rightarrow> bool" where
  bind: "as_logic_var s v = Some (None, n, as) \<Longrightarrow> trailed_step s (bind_var v w s)"
| put: "trailed_step s (snd (put_attr True v m val s))"
| del: "trailed_step s (snd (del_attr True v m s))"
| set_dom: "i \<le> PAYLOAD_MASK \<Longrightarrow> trailed_step s (trail_set_domain i d s)"
| erase_dom: "i \<le> PAYLOAD_MASK \<Longrightarrow> trailed_step s (trail_erase_domain i s)"
| post: "trailed_step s (post_real rel e s)"
| assert_bound: "i \<le> PAYLOAD_MASK \<Longrightarrow> trailed_step s (trail_assert_simplex_bound i lo hi s)"
| alloc: "lstore s i = None \<Longrightarrow> trailed_step s (s\<lparr> lstore := (lstore s)(i \<mapsto> ob) \<rparr>)"

text \<open>A run may set marks of its own and unwind to them.\<close>

inductive trailed_run :: "logic_vm \<Rightarrow> logic_vm \<Rightarrow> bool" where
  stop: "trailed_run s s"
| step: "trailed_run s t \<Longrightarrow> trailed_step t u \<Longrightarrow> trailed_run s u"
| backtrack: "trailed_run s t \<Longrightarrow> trailed_run t u \<Longrightarrow> trailed_run s (rollback_trail_to (length (trail_stack t)) u)"

lemma trailed_step_undoable: "trailed_step s t \<Longrightarrow> bounds_ok s \<Longrightarrow> undoable s t"
proof (induction rule: trailed_step.induct)
  case (alloc s i ob)
  then show ?case by (intro undoable_none) auto
qed (simp_all add: undoable_bind undoable_put_attr undoable_del_attr undoable_set_domain undoable_erase_domain
    undoable_post_real undoable_assert_bound)

lemma undoable_bounds: "undoable s t \<Longrightarrow> bounds_ok s \<Longrightarrow> bounds_ok t"
  by (simp add: undoable_def)

lemma rollback_one_dom: "dom (lstore (rollback_one e s)) = dom (lstore s)"
  by (auto simp: rollback_one_def as_logic_var_Some Let_def split: trail_kind.splits option.splits)

lemma rollback_trail_to_dom: "dom (lstore (rollback_trail_to m s)) = dom (lstore s)"
  by (induction m s rule: rollback_trail_to.induct)
    (subst rollback_trail_to.simps, simp add: rollback_one_dom)

lemma undoable_backtrack:
  assumes "undoable s t" "undoable t u"
  shows "undoable s (rollback_trail_to (length (trail_stack t)) u)"
proof -
  let ?u = "rollback_trail_to (length (trail_stack t)) u"
  have le: "length (trail_stack s) \<le> length (trail_stack t)" using assms(1) by (auto simp: undoable_def)
  have tu: "same_on (dom (lstore t)) ?u t" using assms(2) by (simp add: undoable_def)
  then have "trail_stack ?u = trail_stack t" "reals ?u = reals t" by (simp_all add: same_on_def)
  moreover have "same_on (dom (lstore s)) (rollback_trail_to (length (trail_stack s)) ?u) s"
    using undoable_trans [OF assms] by (simp add: rollback_trail_to_twice [OF le] undoable_def)
  moreover have "dom (lstore s) \<subseteq> dom (lstore ?u)"
    using undoable_trans [OF assms] by (simp add: rollback_trail_to_dom undoable_def)
  ultimately show ?thesis using assms(1) by (simp add: undoable_def bounds_ok_def)
qed

lemma trailed_run_undoable: "trailed_run s t \<Longrightarrow> bounds_ok s \<Longrightarrow> undoable s t"
proof (induction rule: trailed_run.induct)
  case (step s t u)
  then show ?case using undoable_trans [OF step.IH] trailed_step_undoable undoable_bounds by blast
next
  case (backtrack s t u)
  then show ?case using undoable_backtrack undoable_bounds by blast
qed simp

text \<open>C29: Backtracking is exact. After any run of bindings, attribute writes and deletions, domain
  writes and erasures, posted constraints, asserted bounds and allocations, with inner marks and
  unwindings of its own, rolling the trail back to a mark gives every object that existed at the
  mark its binding and attributes, both constraint stores and the trail as they were.\<close>

theorem backtracking_exact:
  assumes "trailed_run s t" "bounds_ok s"
  shows "same_on (dom (lstore s)) (rollback_trail_to (length (trail_stack s)) t) s"
  using trailed_run_undoable [OF assms] by (simp add: undoable_def)

definition logic_vm0 :: logic_vm where
  "logic_vm0 = \<lparr> lstore = Map.empty, trail_stack = [], constraints = Map.empty,
     reals = \<lparr> real_entries = [], real_bounds = Map.empty \<rparr>, attr_unify_hooks = Map.empty, async_thunk_attrs = {},
     prop_queue = [], prop_queued_set = {}, unify_depth = 0, occurs_mode = Occurs_always, last_unify_cycle_error = False \<rparr>"

definition sample_vm :: logic_vm where
  "sample_vm = logic_vm0\<lparr> lstore := [1 \<mapsto> LogicVar_obj None ''x'' [(4, True_val)], 2 \<mapsto> LogicVar_obj None ''y'' []] \<rparr>"

lemma backtracking_exact_witness:
  "\<exists>t. t = snd (del_attr True (box HeapObject_tag 1) (box Symbol_tag 4)
              (bind_var (box HeapObject_tag 1) (box HeapObject_tag 2) sample_vm))
     \<and> as_logic_var t (box HeapObject_tag 1) = Some (Some (box HeapObject_tag 2), ''x'', [])
     \<and> same_on {1, 2} (rollback_trail_to 0 t) sample_vm"
proof -
  let ?x = "box HeapObject_tag 1" and ?y = "box HeapObject_tag 2"
  let ?b = "bind_var ?x ?y sample_vm" and ?t = "snd (del_attr True ?x (box Symbol_tag 4) (bind_var ?x ?y sample_vm))"
  have v: "as_logic_var sample_vm ?x = Some (None, ''x'', [(4, True_val)])"
    by (simp add: as_logic_var_Some sample_vm_def PAYLOAD_MASK_def)
  have run: "trailed_run sample_vm ?t"
    by (intro trailed_run.step [OF trailed_run.step [OF trailed_run.stop trailed_step.bind [OF v]] trailed_step.del])
  have b: "bounds_ok sample_vm" by (simp add: bounds_ok_def sample_vm_def logic_vm0_def)
  have bx: "as_logic_var ?b ?x = Some (Some ?y, ''x'', [(4, True_val)])"
    by (simp add: bind_var_def v) (simp add: as_logic_var_Some)
  have "as_logic_var ?t ?x = Some (Some ?y, ''x'', [])"
    by (simp add: del_attr_def bx get_symbol_id_def PAYLOAD_MASK_def Let_def)
      (simp add: as_logic_var_Some PAYLOAD_MASK_def)
  moreover have "dom (lstore sample_vm) = {1, 2}" by (auto simp: sample_vm_def)
  moreover have "trail_stack sample_vm = []" by (simp add: sample_vm_def logic_vm0_def)
  ultimately show ?thesis using backtracking_exact [OF run b] by simp
qed

end
