(* ===== verification/Unify.thy ===== *)
theory Unify
  imports Trail
begin

text \<open>
  Unification, \<^verbatim>\<open>VM::deref\<close>, \<^verbatim>\<open>occurs_check\<close>, \<^verbatim>\<open>unify\<close>, \<^verbatim>\<open>unify_internal\<close>, the propagation queue
  and the logic opcodes of \<^verbatim>\<open>vm.cpp\<close>, with the numeric classifier of \<^verbatim>\<open>numeric_value.h\<close>.
  A binding chain or a term may be cyclic, so the walks take fuel; \<open>None\<close> means that the fuel
  ran out. A hook or a propagator is a procedure of the running program: its effect is the
  argument \<open>call\<close>, which gives \<open>None\<close> when it does not return, and otherwise its result (\<open>Inl\<close>
  an error) and the state it leaves. The parts of a compound object are read when its
  unification starts.
\<close>

section \<open>Numbers\<close>

datatype numeric_value = Num_fixnum i64 | Num_flonum u64 | Num_invalid

definition classify_numeric :: "logic_vm \<Rightarrow> lispval \<Rightarrow> numeric_value" where
  "classify_numeric s v =
     (case visit_value v of
        Visit_fixnum i \<Rightarrow> Num_fixnum i
      | Visit_flonum d \<Rightarrow> Num_flonum d
      | Visit_heapref i \<Rightarrow> (case lstore s i of Some (Fixnum_obj n) \<Rightarrow> Num_fixnum n | _ \<Rightarrow> Num_invalid)
      | Visit_nan \<Rightarrow> Num_flonum quiet_NaN
      | _ \<Rightarrow> Num_invalid)"

definition as_double :: "numeric_value \<Rightarrow> u64" where
  "as_double n = (case n of Num_flonum d \<Rightarrow> d | Num_fixnum i \<Rightarrow> int_to_double (sint i) | Num_invalid \<Rightarrow> int_to_double 0)"

section \<open>Dereferencing and the occurs check\<close>

fun deref :: "nat \<Rightarrow> logic_vm \<Rightarrow> lispval \<Rightarrow> lispval option" where
  "deref 0 s v = None"
| "deref (Suc n) s v = (case as_logic_var s v of Some (Some b, _, _) \<Rightarrow> deref n s b | _ \<Rightarrow> Some v)"

fun any_opt :: "('a \<Rightarrow> bool option) \<Rightarrow> 'a list \<Rightarrow> bool option" where
  "any_opt f [] = Some False"
| "any_opt f (x # xs) = (case f x of None \<Rightarrow> None | Some True \<Rightarrow> Some True | Some False \<Rightarrow> any_opt f xs)"

definition term_parts :: "logic_vm \<Rightarrow> lispval \<Rightarrow> lispval list" where
  "term_parts s t =
     (case as_cons s t of Some (a, d) \<Rightarrow> [a, d] | None \<Rightarrow>
      (case as_vector s t of Some es \<Rightarrow> es | None \<Rightarrow>
       (case as_compound s t of Some (f, args) \<Rightarrow> args | None \<Rightarrow> [])))"

fun occurs_check :: "nat \<Rightarrow> logic_vm \<Rightarrow> lispval \<Rightarrow> lispval \<Rightarrow> bool option" where
  "occurs_check 0 s x t = None"
| "occurs_check (Suc n) s x t =
     (case deref n s t of None \<Rightarrow> None
      | Some t' \<Rightarrow> if t' = x then Some True else any_opt (occurs_check n s x) (term_parts s t'))"

section \<open>The propagation queue\<close>

definition enqueue_propagator :: "lispval \<Rightarrow> logic_vm \<Rightarrow> logic_vm" where
  "enqueue_propagator thunk s =
     (if \<not> is_heap_ref thunk then s
      else if payload thunk \<in> prop_queued_set s then s
      else s\<lparr> prop_queued_set := insert (payload thunk) (prop_queued_set s), prop_queue := prop_queue s @ [thunk] \<rparr>)"

fun enqueue_list :: "nat \<Rightarrow> lispval \<Rightarrow> logic_vm \<Rightarrow> logic_vm option" where
  "enqueue_list 0 cur s = None"
| "enqueue_list (Suc n) cur s =
     (case as_cons s cur of None \<Rightarrow> Some s | Some (a, d) \<Rightarrow> enqueue_list n d (enqueue_propagator a s))"

type_synonym run_proc = "lispval \<Rightarrow> lispval list \<Rightarrow> logic_vm \<Rightarrow> ((rt_error + lispval) \<times> logic_vm) option"

definition clear_queue :: "logic_vm \<Rightarrow> logic_vm" where
  "clear_queue s = s\<lparr> prop_queue := [], prop_queued_set := {} \<rparr>"

definition pop_propagator :: "lispval \<Rightarrow> lispval list \<Rightarrow> logic_vm \<Rightarrow> logic_vm" where
  "pop_propagator thunk rest s =
     (let s' = s\<lparr> prop_queue := rest \<rparr>
      in if is_heap_ref thunk then s'\<lparr> prop_queued_set := prop_queued_set s' - {payload thunk} \<rparr> else s')"

fun drain_propagators :: "run_proc \<Rightarrow> nat \<Rightarrow> logic_vm \<Rightarrow> (bool \<times> logic_vm) option" where
  "drain_propagators call 0 s = None"
| "drain_propagators call (Suc n) s =
     (case prop_queue s of [] \<Rightarrow> Some (True, s)
      | thunk # rest \<Rightarrow>
        (case call thunk [] (pop_propagator thunk rest s) of
           None \<Rightarrow> None
         | Some (Inl _, s') \<Rightarrow> Some (False, clear_queue s')
         | Some (Inr r, s') \<Rightarrow> if r = False_val then Some (False, clear_queue s') else drain_propagators call n s'))"

section \<open>Unification\<close>

definition check_domain :: "nat \<Rightarrow> lispval \<Rightarrow> lispval \<Rightarrow> logic_vm \<Rightarrow> bool option" where
  "check_domain n lvar candidate s =
     (case deref n s candidate of None \<Rightarrow> None
      | Some ground \<Rightarrow>
        if as_logic_var s ground \<noteq> None then Some True
        else case get_domain (constraints s) (payload lvar) of None \<Rightarrow> Some True
        | Some dm \<Rightarrow>
          (let c = classify_numeric s ground in
           case c of Num_invalid \<Rightarrow> Some False
           | _ \<Rightarrow> if is_DR dm then domain_contains_double dm (as_double c)
                  else (case c of Num_fixnum i \<Rightarrow> Some (domain_contains_int dm (sint i)) | _ \<Rightarrow> Some False)))"

fun fire_pairs :: "run_proc \<Rightarrow> nat \<Rightarrow> lispval \<Rightarrow> lispval \<Rightarrow> (u64 \<times> lispval) list \<Rightarrow> logic_vm \<Rightarrow> (bool \<times> logic_vm) option" where
  "fire_pairs call n var w [] s = Some (True, s)"
| "fire_pairs call n var w ((key, attr) # ps) s =
     (if key \<in> async_thunk_attrs s then
        (case enqueue_list n attr s of None \<Rightarrow> None | Some s' \<Rightarrow> fire_pairs call n var w ps s')
      else case attr_unify_hooks s key of None \<Rightarrow> fire_pairs call n var w ps s
      | Some hook \<Rightarrow>
        (case call hook [var, w, attr] s of
           None \<Rightarrow> None
         | Some (Inl _, s') \<Rightarrow> Some (False, s')
         | Some (Inr r, s') \<Rightarrow> if r = False_val then Some (False, s') else fire_pairs call n var w ps s'))"

definition fire_attr_hooks :: "run_proc \<Rightarrow> nat \<Rightarrow> lispval \<Rightarrow> lispval \<Rightarrow> logic_vm \<Rightarrow> (bool \<times> logic_vm) option" where
  "fire_attr_hooks call n var w s =
     (case as_logic_var s var of None \<Rightarrow> Some (True, s)
      | Some (_, _, as) \<Rightarrow>
        if as = [] then Some (True, s)
        else if attr_unify_hooks s = Map.empty \<and> async_thunk_attrs s = {} then Some (True, s)
        else fire_pairs call n var w as s)"

definition unbound :: "logic_vm \<Rightarrow> lispval \<Rightarrow> bool" where
  "unbound s v = (case as_logic_var s v of Some (None, _, _) \<Rightarrow> True | _ \<Rightarrow> False)"

text \<open>Both domained: the surviving variable gets the intersection; \<open>None\<close> when it is empty.\<close>

definition merge_domains :: "lispval \<Rightarrow> lispval \<Rightarrow> logic_vm \<Rightarrow> logic_vm option" where
  "merge_domains a b s =
     (if \<not> unbound s b then Some s
      else case (get_domain (constraints s) (payload a), get_domain (constraints s) (payload b)) of
        (Some da, Some db) \<Rightarrow>
          (let d = domain_intersect da db in if domain_empty d then None else Some (trail_set_domain (payload b) d s))
      | (Some da, None) \<Rightarrow> Some (trail_set_domain (payload b) da s)
      | _ \<Rightarrow> Some s)"

definition bind_checked :: "run_proc \<Rightarrow> nat \<Rightarrow> (logic_vm \<Rightarrow> logic_vm option) \<Rightarrow> lispval \<Rightarrow> lispval \<Rightarrow> logic_vm \<Rightarrow> (bool \<times> logic_vm) option" where
  "bind_checked call n merge x t s =
     (case (if occurs_mode s \<noteq> Occurs_never then occurs_check n s x t else Some False) of
        None \<Rightarrow> None
      | Some True \<Rightarrow> Some (False, if occurs_mode s = Occurs_error then s\<lparr> last_unify_cycle_error := True \<rparr> else s)
      | Some False \<Rightarrow>
        (case check_domain n x t s of
           None \<Rightarrow> None
         | Some False \<Rightarrow> Some (False, s)
         | Some True \<Rightarrow>
           (case merge s of
              None \<Rightarrow> Some (False, s)
            | Some s' \<Rightarrow>
              (case fire_attr_hooks call n x t (bind_var x t s') of
                 None \<Rightarrow> None
               | Some (True, s'') \<Rightarrow> Some (True, s'')
               | Some (False, s'') \<Rightarrow> Some (False, rollback_trail_to (length (trail_stack s)) s'')))))"

fun unify_list :: "(lispval \<Rightarrow> lispval \<Rightarrow> logic_vm \<Rightarrow> (bool \<times> logic_vm) option) \<Rightarrow> lispval list \<Rightarrow> lispval list \<Rightarrow> logic_vm \<Rightarrow> (bool \<times> logic_vm) option" where
  "unify_list u (x # xs) (y # ys) s =
     (case u x y s of None \<Rightarrow> None | Some (True, s') \<Rightarrow> unify_list u xs ys s' | Some (False, s') \<Rightarrow> Some (False, s'))"
| "unify_list u _ _ s = Some (True, s)"

text \<open>
  A nested call of \<^verbatim>\<open>unify\<close> finds the depth above zero and goes straight to the inner step, so
  the inner step calls itself.
\<close>

fun unify_internal :: "run_proc \<Rightarrow> nat \<Rightarrow> lispval \<Rightarrow> lispval \<Rightarrow> logic_vm \<Rightarrow> (bool \<times> logic_vm) option" where
  "unify_internal call 0 a0 b0 s = None"
| "unify_internal call (Suc n) a0 b0 s =
     (case (deref n s a0, deref n s b0) of
        (Some a, Some b) \<Rightarrow>
          if a = b then Some (True, s)
          else if unbound s a then bind_checked call n (merge_domains a b) a b s
          else if unbound s b then bind_checked call n Some b a s
          else if as_cons s a \<noteq> None then
            (case (as_cons s a, as_cons s b) of
               (Some (a1, a2), Some (b1, b2)) \<Rightarrow> unify_list (unify_internal call n) [a1, a2] [b1, b2] s
             | _ \<Rightarrow> Some (False, s))
          else if as_vector s a \<noteq> None then
            (case (as_vector s a, as_vector s b) of
               (Some xs, Some ys) \<Rightarrow>
                 if length xs \<noteq> length ys then Some (False, s) else unify_list (unify_internal call n) xs ys s
             | _ \<Rightarrow> Some (False, s))
          else (case (as_compound s a, as_compound s b) of
               (Some (f, xs), Some (g, ys)) \<Rightarrow>
                 if f \<noteq> g then Some (False, s)
                 else if length xs \<noteq> length ys then Some (False, s)
                 else unify_list (unify_internal call n) xs ys s
             | _ \<Rightarrow> Some (False, s))
      | _ \<Rightarrow> None)"

definition unify :: "run_proc \<Rightarrow> nat \<Rightarrow> lispval \<Rightarrow> lispval \<Rightarrow> logic_vm \<Rightarrow> (bool \<times> logic_vm) option" where
  "unify call n a b s =
     (if unify_depth s > 0 then unify_internal call n a b s
      else
        let s1 = s\<lparr> unify_depth := unify_depth s + 1 \<rparr>; snap = length (trail_stack s1) in
        (case unify_internal call n a b s1 of
           None \<Rightarrow> None
         | Some (ok, s2) \<Rightarrow>
           (case (if ok then drain_propagators call n s2 else Some (False, s2)) of
              None \<Rightarrow> None
            | Some (ok', s3) \<Rightarrow>
              let s4 = (if ok' then s3 else clear_queue (rollback_trail_to snap s3))
              in Some (ok', s4\<lparr> unify_depth := unify_depth s4 - 1 \<rparr>))))"

section \<open>The logic opcodes\<close>

text \<open>The operand stack has its top at the end; popping an empty stack gives nil.\<close>

definition pop_val :: "lispval list \<Rightarrow> lispval \<times> lispval list" where
  "pop_val st = (if st = [] then (Nil_val, st) else (last st, butlast st))"

definition op_unify :: "run_proc \<Rightarrow> nat \<Rightarrow> lispval list \<Rightarrow> logic_vm \<Rightarrow> ((rt_error + lispval list) \<times> logic_vm) option" where
  "op_unify call n st s =
     (let (b, st1) = pop_val st; (a, st2) = pop_val st1; s1 = s\<lparr> last_unify_cycle_error := False \<rparr> in
      case unify call n a b s1 of None \<Rightarrow> None
      | Some (ok, s2) \<Rightarrow>
        if \<not> ok \<and> last_unify_cycle_error s2
        then Some (Inl (User_error ''unify: occurs-check violation (cyclic term)''), s2\<lparr> last_unify_cycle_error := False \<rparr>)
        else Some (Inr (st2 @ [if ok then True_val else False_val]), s2))"

definition op_deref :: "nat \<Rightarrow> lispval list \<Rightarrow> logic_vm \<Rightarrow> lispval list option" where
  "op_deref n st s = (let (v, st1) = pop_val st in map_option (\<lambda>w. st1 @ [w]) (deref n s v))"

definition op_trail_mark :: "lispval list \<Rightarrow> logic_vm \<Rightarrow> rt_error + lispval list" where
  "op_trail_mark st s =
     (case encode_i64 (of_nat (length (trail_stack s))) of
        Inl _ \<Rightarrow> Inl (Type_error ''trail-mark: trail too deep'')
      | Inr m \<Rightarrow> Inr (st @ [m]))"

definition op_unwind_trail :: "lispval list \<Rightarrow> logic_vm \<Rightarrow> (rt_error + lispval list) \<times> logic_vm" where
  "op_unwind_trail st s =
     (let (m, st1) = pop_val st in
      if \<not> is_boxed m \<or> tag m \<noteq> Fixnum_tag then (Inl (Type_error ''unwind-trail: mark must be a fixnum''), s)
      else case decode_i64 m of Inl _ \<Rightarrow> (Inl (Type_error ''unwind-trail: invalid mark''), s)
      | Inr i \<Rightarrow> (Inr (st1 @ [Nil_val]), rollback_trail_to (unat i) s))"

section \<open>Relations every step of unification respects\<close>

text \<open>
  A reflexive and transitive relation between states that each elementary step respects is
  respected by a whole unification that succeeds, and, when rolling back respects it too
  (\<open>undo\<close>), by one that fails. The steps may rely on an invariant \<open>inv v s\<close> of the values
  they meet.
\<close>

lemma lookup_cong:
  assumes "lstore s' = lstore s"
  shows "as_logic_var s' v = as_logic_var s v" "as_cons s' v = as_cons s v" "as_vector s' v = as_vector s v"
    "as_compound s' v = as_compound s v" "unbound s' v = unbound s v"
  using assms by (simp_all add: as_logic_var_def as_cons_def as_vector_def as_compound_def unbound_def lookup_def)

lemma deref_cong: "lstore s' = lstore s \<Longrightarrow> deref n s' v = deref n s v"
  by (induction n arbitrary: v) (auto simp: as_logic_var_def lookup_def split: option.splits)

lemma occurs_check_cong:
  assumes "lstore s' = lstore s"
  shows "occurs_check n s' x v = occurs_check n s x v"
proof (induction n arbitrary: v)
  case (Suc n)
  have "term_parts s' = term_parts s"
    by (rule ext) (simp only: term_parts_def lookup_cong [OF assms])
  moreover have "occurs_check n s' x = occurs_check n s x" using Suc by (simp add: fun_eq_iff)
  ultimately show ?case by (simp only: occurs_check.simps deref_cong [OF assms])
qed simp

lemma term_parts_simps [simp]:
  "as_cons s t = Some (a, d) \<Longrightarrow> term_parts s t = [a, d]"
  "as_vector s t = Some es \<Longrightarrow> term_parts s t = es"
  "as_compound s t = Some (f, es) \<Longrightarrow> term_parts s t = es"
  by (auto simp: term_parts_def as_cons_def as_vector_def as_compound_def split: option.splits heap_obj.splits)

lemma unboundE:
  assumes "unbound s v"
  obtains n as where "as_logic_var s v = Some (None, n, as)"
  using assms by (auto simp: unbound_def split: option.splits)

lemma trail_set_domain_simps [simp]:
  "lstore (trail_set_domain i d s) = lstore s" "unify_depth (trail_set_domain i d s) = unify_depth s"
  "occurs_mode (trail_set_domain i d s) = occurs_mode s"
  by (simp_all add: trail_set_domain_def Let_def push_trail_def)

lemma merge_domains_cases:
  assumes "merge_domains a b s = Some s'"
  shows "s' = s \<or> (\<exists>d. s' = trail_set_domain (payload b) d s)"
  using assms by (auto simp: merge_domains_def Let_def split: if_splits option.splits)

lemma bind_checked_cases:
  assumes "bind_checked call n m x w s = Some (ok, s')"
  shows "\<not> ok \<and> (s' = s \<or> s' = s\<lparr> last_unify_cycle_error := True \<rparr>)
    \<or> (occurs_mode s \<noteq> Occurs_never \<longrightarrow> occurs_check n s x w = Some False)
      \<and> (\<exists>t u. m s = Some t \<and> fire_attr_hooks call n x w (bind_var x w t) = Some (ok, u)
          \<and> s' = (if ok then u else rollback_trail_to (length (trail_stack s)) u))"
proof -
  obtain oc where oc: "(if occurs_mode s \<noteq> Occurs_never then occurs_check n s x w else Some False) = Some oc"
    using assms by (auto simp: bind_checked_def split: option.splits)
  note A = assms [unfolded bind_checked_def oc option.case]
  show ?thesis
  proof (cases oc)
    case True
    then show ?thesis using A by (auto split: if_splits)
  next
    case False
    then have oF: "oc = False" by simp
    note B = A [unfolded oF bool.case]
    obtain cd where cd: "check_domain n x w s = Some cd" using B by (auto split: option.splits)
    show ?thesis
    proof (cases cd)
      case True
      then have cT: "cd = True" by simp
      note C = B [unfolded cd option.case cT bool.case]
      show ?thesis
      proof (cases "m s")
        case (Some t)
        note D = C [unfolded Some option.case]
        obtain b u where u: "fire_attr_hooks call n x w (bind_var x w t) = Some (b, u)"
          using D by (auto split: option.splits)
        have "occurs_mode s \<noteq> Occurs_never \<longrightarrow> occurs_check n s x w = Some False"
          using oc oF by (auto split: if_splits)
        then show ?thesis using D u Some by (cases b) auto
      qed (use C in simp)
    qed (use B cd in simp)
  qed
qed

locale logic_frame =
  fixes call :: run_proc and rel :: "logic_vm \<Rightarrow> logic_vm \<Rightarrow> bool" and undo :: bool
    and inv :: "lispval \<Rightarrow> logic_vm \<Rightarrow> bool"
  assumes refl: "rel s s"
    and trans: "rel s t \<Longrightarrow> rel t u \<Longrightarrow> rel s u"
    and frame: "lstore s' = lstore s \<Longrightarrow> trail_stack s' = trail_stack s \<Longrightarrow> constraints s' = constraints s
       \<Longrightarrow> reals s' = reals s \<Longrightarrow> unify_depth s' = unify_depth s \<Longrightarrow> occurs_mode s' = occurs_mode s \<Longrightarrow> rel s s'"
    and bind: "unbound s x \<Longrightarrow> w \<noteq> x \<Longrightarrow> deref k s v = Some w \<Longrightarrow> inv x s \<Longrightarrow> inv w s
       \<Longrightarrow> (occurs_mode s \<noteq> Occurs_never \<Longrightarrow> \<exists>n. occurs_check n s x w = Some False) \<Longrightarrow> rel s (bind_var x w s)"
    and set_domain: "rel s (trail_set_domain (payload v) d s)"
    and rollback: "undo \<Longrightarrow> rel s u \<Longrightarrow> rel s (rollback_trail_to (length (trail_stack s)) u)"
    and call: "call p args s = Some (r, s') \<Longrightarrow> rel s s'"
    and inv_rel: "inv v s \<Longrightarrow> rel s s' \<Longrightarrow> inv v s'"
    and inv_deref: "inv v s \<Longrightarrow> deref n s v = Some w \<Longrightarrow> inv w s"
    and inv_parts: "inv v s \<Longrightarrow> p \<in> set (term_parts s v) \<Longrightarrow> inv p s"
begin

lemma enqueue: "rel s (enqueue_propagator t s)"
  by (rule frame) (simp_all add: enqueue_propagator_def)

lemma enqueue_list: "enqueue_list n cur s = Some s' \<Longrightarrow> rel s s'"
proof (induction n arbitrary: cur s)
  case (Suc n)
  then show ?case using refl trans [OF enqueue Suc.IH] by (auto split: option.splits)
qed simp

lemma fire_pairs: "fire_pairs call n x w ps s = Some (ok, s') \<Longrightarrow> rel s s'"
proof (induction ps arbitrary: s)
  case (Cons p ps)
  obtain key attr where p: "p = (key, attr)" by (cases p)
  consider (async) t where "key \<in> async_thunk_attrs s" "Unify.enqueue_list n attr s = Some t" "Unify.fire_pairs call n x w ps t = Some (ok, s')"
    | (skip) "Unify.fire_pairs call n x w ps s = Some (ok, s')"
    | (stop) hook r where "call hook [x, w, attr] s = Some (r, s')"
    | (hook) hook r t where "call hook [x, w, attr] s = Some (r, t)" "Unify.fire_pairs call n x w ps t = Some (ok, s')"
    using Cons.prems unfolding p by (auto split: option.splits if_splits sum.splits)
  then show ?case
  proof cases
    case async
    then show ?thesis using trans [OF enqueue_list Cons.IH] by blast
  next
    case hook
    then show ?thesis using trans [OF call Cons.IH] by blast
  qed (use Cons.IH call in blast)+
qed (simp add: refl)

lemma fire_attr_hooks: "fire_attr_hooks call n x w s = Some (ok, s') \<Longrightarrow> rel s s'"
  using refl fire_pairs by (auto simp: fire_attr_hooks_def split: option.splits if_splits)

lemma merge: "merge_domains a b s = Some s' \<Longrightarrow> rel s s' \<and> lstore s' = lstore s \<and> occurs_mode s' = occurs_mode s"
proof -
  assume "merge_domains a b s = Some s'"
  from merge_domains_cases [OF this] show ?thesis using refl set_domain by auto
qed

lemma bind_checked:
  assumes x: "unbound s x" "w \<noteq> x" "deref k s v = Some w" "inv x s" "inv w s"
    and m: "\<And>s'. m s = Some s' \<Longrightarrow> rel s s' \<and> lstore s' = lstore s \<and> occurs_mode s' = occurs_mode s"
    and r: "bind_checked call n m x w s = Some (ok, s')" and ok: "ok \<or> undo"
  shows "rel s s'"
proof -
  consider (fail) "s' = s" | (cycle) "s' = s\<lparr> last_unify_cycle_error := True \<rparr>"
    | (hooks) t u where "m s = Some t" "Unify.fire_attr_hooks call n x w (bind_var x w t) = Some (ok, u)"
        "s' = (if ok then u else rollback_trail_to (length (trail_stack s)) u)"
        "occurs_mode s \<noteq> Occurs_never \<longrightarrow> occurs_check n s x w = Some False"
    using bind_checked_cases [OF r] by metis
  then show ?thesis
  proof cases
    case hooks
    have l: "lstore t = lstore s" and st: "rel s t" and om: "occurs_mode t = occurs_mode s"
      using m [OF hooks(1)] by auto
    have "rel t (bind_var x w t)"
      using x inv_rel [OF _ st] by (intro bind [of t x w k v]) (auto simp: lookup_cong [OF l] deref_cong [OF l] occurs_check_cong [OF l] om intro: hooks(4) [rule_format])
    then have "rel s u" using st fire_attr_hooks [OF hooks(2)] trans by blast
    then show ?thesis using hooks(3) ok rollback by auto
  next
    case cycle
    then show ?thesis by (intro frame) simp_all
  qed (simp add: refl)
qed

lemma unify_list:
  assumes "\<And>x y s ok s'. u x y s = Some (ok, s') \<Longrightarrow> ok \<or> undo \<Longrightarrow> inv x s \<Longrightarrow> inv y s \<Longrightarrow> rel s s'"
  shows "unify_list u xs ys s = Some (ok, s') \<Longrightarrow> ok \<or> undo \<Longrightarrow> (\<And>v. v \<in> set xs \<union> set ys \<Longrightarrow> inv v s) \<Longrightarrow> rel s s'"
proof (induction xs ys arbitrary: s rule: list_induct2')
  case (4 x xs y ys)
  have xy: "inv x s" "inv y s" using 4(4) by simp_all
  consider (stop) "u x y s = Some (False, s')" "\<not> ok"
    | (more) t where "u x y s = Some (True, t)" "Unify.unify_list u xs ys t = Some (ok, s')"
    using 4(2) by (auto split: option.splits bool.splits)
  then show ?case
  proof cases
    case stop
    then show ?thesis using assms [OF stop(1) _ xy] 4(3) by blast
  next
    case more
    have st: "rel s t" using assms [OF more(1) _ xy] by simp
    then have "rel t s'" using 4(1) [OF more(2) 4(3)] 4(4) inv_rel [OF _ st] by simp
    with st show ?thesis by (rule trans)
  qed
qed (auto simp: refl)

lemma unify_internal:
  "unify_internal call n a0 b0 s = Some (ok, s') \<Longrightarrow> ok \<or> undo \<Longrightarrow> inv a0 s \<Longrightarrow> inv b0 s \<Longrightarrow> rel s s'"
proof (induction n arbitrary: a0 b0 s ok s')
  case (Suc n)
  obtain a b where d: "deref n s a0 = Some a" "deref n s b0 = Some b"
    using Suc.prems(1) by (auto split: option.splits)
  note iab = inv_deref [OF Suc.prems(3) d(1)] inv_deref [OF Suc.prems(4) d(2)]
  consider (same) "s' = s" | (left) "a \<noteq> b" "unbound s a" "Unify.bind_checked call n (merge_domains a b) a b s = Some (ok, s')"
    | (right) "a \<noteq> b" "unbound s b" "Unify.bind_checked call n Some b a s = Some (ok, s')"
    | (parts) "Unify.unify_list (Unify.unify_internal call n) (term_parts s a) (term_parts s b) s = Some (ok, s')"
    using Suc.prems(1) d by (auto split: if_splits option.splits prod.splits simp del: unify_list.simps)
  then show ?case
  proof cases
    case left
    show ?thesis
      by (rule bind_checked [OF left(2) _ d(2) iab _ left(3) Suc.prems(2)]) (use left merge in auto)
  next
    case right
    show ?thesis
      by (rule bind_checked [OF right(2) right(1) d(1) iab(2,1) _ right(3) Suc.prems(2)]) (simp add: refl)
  next
    case parts
    show ?thesis
      by (rule unify_list [OF _ parts Suc.prems(2)]) (use Suc.IH iab inv_parts in blast)+
  qed (simp add: refl)
qed simp

lemma drain: "drain_propagators call n s = Some (ok, s') \<Longrightarrow> rel s s'"
proof (induction n arbitrary: s)
  case (Suc n)
  have pop: "rel s (pop_propagator t rest s)" for t rest
    by (rule frame) (simp_all add: pop_propagator_def Let_def)
  have clear: "rel u (clear_queue u)" for u by (rule frame) (simp_all add: clear_queue_def)
  show ?case
  proof (cases "prop_queue s")
    case (Cons t rest)
    then obtain r u where c: "call t [] (pop_propagator t rest s) = Some (r, u)"
      using Suc.prems by (auto split: option.splits)
    have "s' = clear_queue u \<or> drain_propagators call n u = Some (ok, s')"
      using Suc.prems Cons c by (auto split: sum.splits if_splits)
    then show ?thesis using trans [OF trans [OF pop call [OF c]]] clear Suc.IH by blast
  qed (use Suc.prems refl in simp)
qed simp

end

section \<open>A failed unification leaves no trace\<close>

text \<open>
  What unification relies on when it runs a procedure of the program: it writes logic state only
  through the trail, and leaves the nesting depth as it was.
\<close>

definition call_trails :: "run_proc \<Rightarrow> bool" where
  "call_trails call \<longleftrightarrow> (\<forall>p args s r s'. bounds_ok s \<longrightarrow> call p args s = Some (r, s')
     \<longrightarrow> undoable s s' \<and> unify_depth s' = unify_depth s)"

definition keeps :: "run_proc \<Rightarrow> logic_vm \<Rightarrow> logic_vm \<Rightarrow> bool" where
  "keeps call s s' \<longleftrightarrow> (call_trails call \<longrightarrow> bounds_ok s \<longrightarrow> undoable s s' \<and> unify_depth s' = unify_depth s)"

lemma rollback_one_depth [simp]: "unify_depth (rollback_one e s) = unify_depth s"
  by (auto simp: rollback_one_def Let_def split: trail_kind.splits option.splits)

lemma rollback_trail_to_depth [simp]: "unify_depth (rollback_trail_to m s) = unify_depth s"
  by (induction m s rule: rollback_trail_to.induct) (subst rollback_trail_to.simps, simp)

interpretation keeps: logic_frame call "keeps call" True "\<lambda>_ _. True" for call
proof
  fix s t u assume "keeps call s t" "keeps call t u"
  then show "keeps call s u" using undoable_trans undoable_bounds unfolding keeps_def by metis
next
  fix s x w assume "unbound s x"
  then obtain n as where v: "as_logic_var s x = Some (None, n, as)" by (rule unboundE)
  then show "keeps call s (bind_var x w s)" using undoable_bind [OF v] by (simp add: keeps_def bind_var_def v)
next
  fix s u assume "keeps call s u"
  then show "keeps call s (rollback_trail_to (length (trail_stack s)) u)"
    using undoable_backtrack [of s s u] by (simp add: keeps_def)
qed (auto simp: keeps_def undoable_none call_trails_def undoable_set_domain [OF payload_le])

text \<open>C31: A top-level unification that fails leaves no trace: every variable that existed is bound and
  attributed as before, both constraint stores and the trail are as before, the depth is back at
  zero and no propagator is pending, whatever part of the terms was unified, whichever hooks and
  propagators ran first, and in every occurs-check mode.\<close>

theorem unify_failure_restores:
  assumes "call_trails call" "bounds_ok s" "unify_depth s = 0"
    and "unify call n a b s = Some (False, s')"
  shows "same_on (dom (lstore s)) s' s \<and> unify_depth s' = 0 \<and> prop_queue s' = [] \<and> prop_queued_set s' = {}"
proof -
  let ?s = "s\<lparr> unify_depth := 1 \<rparr>"
  have b: "bounds_ok ?s" using assms(2) by (simp add: bounds_ok_def)
  obtain ok s2 where u: "unify_internal call n a b ?s = Some (ok, s2)"
    using assms(3,4) by (auto simp: unify_def Let_def split: option.splits)
  obtain s3 where d: "(if ok then drain_propagators call n s2 else Some (False, s2)) = Some (False, s3)"
    and s': "s' = (clear_queue (rollback_trail_to (length (trail_stack s)) s3))\<lparr> unify_depth := unify_depth s3 - 1 \<rparr>"
    using assms(3,4) u by (auto simp: unify_def Let_def clear_queue_def split: option.splits if_splits)
  have "keeps call ?s s3"
    using keeps.unify_internal [OF u] keeps.drain d keeps.trans by (auto split: if_splits)
  then have "undoable ?s s3" "unify_depth s3 = 1" using b assms(1) by (simp_all add: keeps_def)
  then show ?thesis by (simp add: undoable_def s' clear_queue_def same_on_def)
qed

section \<open>Unified terms are equal\<close>

text \<open>
  A reference has one bit pattern when the sign bit of the box is clear, which every reference
  the code makes is. Two patterns for one variable would let it be bound to itself.
\<close>

definition canon :: "lispval \<Rightarrow> bool" where
  "canon v \<longleftrightarrow> (is_heap_ref v \<longrightarrow> v = box HeapObject_tag (payload v))"

definition canon_store :: "logic_vm \<Rightarrow> bool" where
  "canon_store s \<longleftrightarrow> (\<forall>i ob. lstore s i = Some ob \<longrightarrow> list_all canon (heap_refs ob))"

definition chain_ok :: "logic_vm \<Rightarrow> bool" where
  "chain_ok s \<longleftrightarrow> canon_store s \<and> (\<forall>v. \<exists>n. deref n s v \<noteq> None)"

text \<open>Objects stay, bound variables stay bound to the same value, and only variables change.\<close>

definition obj_grows :: "heap_obj \<Rightarrow> heap_obj \<Rightarrow> bool" where
  "obj_grows ob ob' \<longleftrightarrow> (case ob of
       LogicVar_obj b n as \<Rightarrow> (\<exists>b' n' as'. ob' = LogicVar_obj b' n' as' \<and> (b = None \<or> b' = b))
     | _ \<Rightarrow> ob' = ob)"

definition grows :: "logic_vm \<Rightarrow> logic_vm \<Rightarrow> bool" where
  "grows s s' \<longleftrightarrow> (\<forall>i ob. lstore s i = Some ob \<longrightarrow> (\<exists>ob'. lstore s' i = Some ob' \<and> obj_grows ob ob'))"

definition narrows :: "logic_vm \<Rightarrow> logic_vm \<Rightarrow> bool" where
  "narrows s s' \<longleftrightarrow> grows s s' \<and> (chain_ok s \<longrightarrow> chain_ok s')"

text \<open>What soundness needs of the procedures that run: they only constrain further.\<close>

definition call_narrows :: "run_proc \<Rightarrow> bool" where
  "call_narrows call \<longleftrightarrow> (\<forall>p args s r s'. call p args s = Some (r, s') \<longrightarrow> narrows s s')"

lemma obj_grows_refl [simp]: "obj_grows ob ob"
  by (cases ob) (simp_all add: obj_grows_def)

lemma obj_grows_trans: "obj_grows a b \<Longrightarrow> obj_grows b c \<Longrightarrow> obj_grows a c"
  by (cases a; cases b) (auto simp: obj_grows_def)

lemma grows_refl [simp]: "grows s s"
  by (simp add: grows_def)

lemma grows_trans: "grows s t \<Longrightarrow> grows t u \<Longrightarrow> grows s u"
  unfolding grows_def using obj_grows_trans by meson

lemma as_iff:
  "as_logic_var s v = Some (b, n, as) \<longleftrightarrow> lookup s v = Some (LogicVar_obj b n as)"
  "as_cons s v = Some (x, y) \<longleftrightarrow> lookup s v = Some (Cons_obj x y)"
  "as_vector s v = Some es \<longleftrightarrow> lookup s v = Some (Vector_obj es)"
  "as_compound s v = Some (f, es) \<longleftrightarrow> lookup s v = Some (CompoundTerm_obj f es)"
  by (auto simp: as_logic_var_def as_cons_def as_vector_def as_compound_def split: option.splits heap_obj.splits)

lemma grows_lookup_obj: "grows s s' \<Longrightarrow> lookup s v = Some ob \<Longrightarrow> \<exists>ob'. lookup s' v = Some ob' \<and> obj_grows ob ob'"
  by (auto simp: grows_def lookup_def split: if_splits)

lemma grows_lookup:
  assumes "grows s s'"
  shows "as_logic_var s v = Some (Some b, n, as) \<Longrightarrow> \<exists>n' as'. as_logic_var s' v = Some (Some b, n', as')"
    and "as_cons s v = Some (x, y) \<Longrightarrow> as_cons s' v = Some (x, y)"
    and "as_vector s v = Some es \<Longrightarrow> as_vector s' v = Some es"
    and "as_compound s v = Some (f, es) \<Longrightarrow> as_compound s' v = Some (f, es)"
  unfolding as_iff using grows_lookup_obj [OF assms, of v] by (force simp: obj_grows_def)+

definition walks :: "logic_vm \<Rightarrow> lispval \<Rightarrow> lispval \<Rightarrow> bool" where
  "walks s v w \<longleftrightarrow> (\<exists>n. deref n s v = Some w)"

lemma deref_mono: "deref n s v = Some w \<Longrightarrow> n \<le> m \<Longrightarrow> deref m s v = Some w"
proof (induction n arbitrary: v m)
  case (Suc n)
  then obtain k where "m = Suc k" "n \<le> k" by (cases m) auto
  with Suc show ?case by (auto split: option.splits)
qed simp

lemma walks_unique: "walks s v w \<Longrightarrow> walks s v w' \<Longrightarrow> w = w'"
  unfolding walks_def by (metis deref_mono linear option.inject)

lemma deref_stops: "deref n s v = Some w \<Longrightarrow> as_logic_var s w = Some (b, m, as) \<Longrightarrow> b = None"
  by (induction n arbitrary: v) (auto split: option.splits)

lemma walks_self: "(\<And>b n as. as_logic_var s w = Some (b, n, as) \<Longrightarrow> b = None) \<Longrightarrow> walks s w w"
  unfolding walks_def by (rule exI [of _ 1]) (auto split: option.splits)

lemma walks_again: "walks s v w \<Longrightarrow> walks s w w"
  by (rule walks_self) (auto simp: walks_def dest: deref_stops)

lemma walks_step: "as_logic_var s v = Some (Some b, n, as) \<Longrightarrow> walks s b w \<Longrightarrow> walks s v w"
  unfolding walks_def by (elim exE, rule_tac x = "Suc na" in exI) simp

lemma walks_grows:
  assumes "grows s s'" "walks s' w w'"
  shows "walks s v w \<Longrightarrow> walks s' v w'"
proof -
  have "deref n s v = Some w \<Longrightarrow> walks s' v w'" for n
  proof (induction n arbitrary: v)
    case (Suc n)
    show ?case
    proof (cases "\<exists>b m as. as_logic_var s v = Some (Some b, m, as)")
      case True
      then obtain b m as where v: "as_logic_var s v = Some (Some b, m, as)" by blast
      then have "walks s' b w'" using Suc by simp
      with grows_lookup(1) [OF assms(1) v] walks_step show ?thesis by blast
    next
      case False
      then have "v = w" using Suc.prems by (auto split: option.splits)
      then show ?thesis using assms(2) by simp
    qed
  qed simp
  then show "walks s v w \<Longrightarrow> walks s' v w'" by (auto simp: walks_def)
qed

lemma walks_canon: "canon_store s \<Longrightarrow> canon v \<Longrightarrow> deref n s v = Some w \<Longrightarrow> canon w"
proof (induction n arbitrary: v)
  case (Suc n)
  show ?case
  proof (cases "\<exists>b m as. as_logic_var s v = Some (Some b, m, as)")
    case True
    then obtain b m as where v: "as_logic_var s v = Some (Some b, m, as)" by blast
    then have "canon b" using Suc.prems(1) by (fastforce simp: as_logic_var_Some canon_store_def)
    then show ?thesis using Suc v by simp
  qed (use Suc.prems in \<open>auto split: option.splits\<close>)
qed simp

lemma bind_var_lookup:
  assumes "as_logic_var s x = Some (None, n, as)"
  shows "lstore (bind_var x w s) = (lstore s)(payload x \<mapsto> LogicVar_obj (Some w) n as)"
    and "as_logic_var (bind_var x w s) u
      = (if is_heap_ref u \<and> payload u = payload x then Some (Some w, n, as) else as_logic_var s u)"
proof -
  show l: "lstore (bind_var x w s) = (lstore s)(payload x \<mapsto> LogicVar_obj (Some w) n as)"
    by (simp add: bind_var_def assms)
  show "as_logic_var (bind_var x w s) u
      = (if is_heap_ref u \<and> payload u = payload x then Some (Some w, n, as) else as_logic_var s u)"
    by (simp add: as_logic_var_def lookup_def l)
qed

lemma bind_narrows:
  assumes "unbound s x" "w \<noteq> x" "deref k s v = Some w" "canon x" "canon w"
  shows "narrows s (bind_var x w s)"
proof -
  obtain n as where x: "as_logic_var s x = Some (None, n, as)" using assms(1) by (rule unboundE)
  note L = bind_var_lookup [OF x]
  have xr: "is_heap_ref x" "lstore s (payload x) = Some (LogicVar_obj None n as)" using x by (simp_all add: as_logic_var_Some)
  have "obj_grows (LogicVar_obj None n as) (LogicVar_obj (Some w) n as)" by (simp add: obj_grows_def)
  then have "grows s (bind_var x w s)" using xr by (auto simp: grows_def L)
  moreover have "chain_ok (bind_var x w s)" if ok: "chain_ok s"
  proof -
    have c: "canon_store s" using ok by (simp add: chain_ok_def)
    then have "list_all canon (heap_refs (LogicVar_obj None n as))" using xr(2) unfolding canon_store_def by blast
    then have "canon_store (bind_var x w s)" using c assms(5) by (auto simp: canon_store_def L)
    moreover have "\<exists>m. deref m (bind_var x w s) u \<noteq> None" if "deref m s u = Some z" for m u z
      using that
    proof (induction m arbitrary: u)
      case (Suc m)
      have "\<not> (is_heap_ref w \<and> payload w = payload x)" using assms(2,4,5) xr(1) by (auto simp: canon_def)
      then have w: "deref (Suc 0) (bind_var x w s) w = Some w"
        using deref_stops [OF assms(3)] by (auto simp: L split: option.splits)
      show ?case
      proof (cases "is_heap_ref u \<and> payload u = payload x")
        case True
        then have "deref (Suc (Suc 0)) (bind_var x w s) u = Some w"
          using w by (subst deref.simps(2)) (simp add: L del: deref.simps)
        then show ?thesis by (metis option.distinct(1))
      next
        case other: False
        show ?thesis
        proof (cases "\<exists>b n as. as_logic_var s u = Some (Some b, n, as)")
          case True
          then obtain b n' as' where u: "as_logic_var s u = Some (Some b, n', as')" by blast
          then have "deref m s b = Some z" using Suc.prems by simp
          then obtain m' where "deref m' (bind_var x w s) b \<noteq> None" using Suc.IH by blast
          then have "deref (Suc m') (bind_var x w s) u \<noteq> None" using u other by (auto simp: L)
          then show ?thesis by blast
        next
          case False
          then have "deref 1 (bind_var x w s) u \<noteq> None" using other by (auto simp: L split: option.splits)
          then show ?thesis by blast
        qed
      qed
    qed simp
    ultimately show ?thesis using ok unfolding chain_ok_def by (metis option.exhaust)
  qed
  ultimately show ?thesis by (simp add: narrows_def)
qed

lemma narrows_frame: "lstore s' = lstore s \<Longrightarrow> narrows s s'"
  by (simp add: narrows_def grows_def chain_ok_def canon_store_def deref_cong [of s' s])

lemma narrows_chain: "narrows s s' \<Longrightarrow> chain_ok s \<Longrightarrow> chain_ok s'"
  by (simp add: narrows_def)

definition sound_val :: "run_proc \<Rightarrow> lispval \<Rightarrow> logic_vm \<Rightarrow> bool" where
  "sound_val call v s \<longleftrightarrow> (call_narrows call \<longrightarrow> canon v \<and> chain_ok s)"

lemma term_parts_refs:
  assumes "p \<in> set (term_parts s v)"
  obtains ob where "lookup s v = Some ob" "p \<in> set (heap_refs ob)"
proof (cases "lookup s v")
  case (Some ob)
  then show ?thesis using that assms
    by (cases ob) (auto simp: term_parts_def as_cons_def as_vector_def as_compound_def)
qed (use assms in \<open>simp add: term_parts_def as_cons_def as_vector_def as_compound_def\<close>)

lemma parts_canon: "canon_store s \<Longrightarrow> p \<in> set (term_parts s v) \<Longrightarrow> canon p"
  by (erule term_parts_refs) (auto simp: lookup_def canon_store_def list_all_iff split: if_splits)

interpretation sound: logic_frame call "\<lambda>s s'. call_narrows call \<longrightarrow> narrows s s'" False "sound_val call" for call
proof
  fix s t u assume "call_narrows call \<longrightarrow> narrows s t" "call_narrows call \<longrightarrow> narrows t u"
  then show "call_narrows call \<longrightarrow> narrows s u" using grows_trans unfolding narrows_def by blast
next
  fix s x w k v
  assume "unbound s x" "w \<noteq> x" "deref k s v = Some w" "sound_val call x s" "sound_val call w s"
  then show "call_narrows call \<longrightarrow> narrows s (bind_var x w s)" using bind_narrows by (auto simp: sound_val_def)
next
  fix v s n w assume "sound_val call v s" "deref n s v = Some w"
  then show "sound_val call w s" using walks_canon by (auto simp: sound_val_def chain_ok_def)
next
  fix v s p assume "sound_val call v s" "p \<in> set (term_parts s v)"
  then show "sound_val call p s" using parts_canon by (auto simp: sound_val_def chain_ok_def)
qed (auto simp: call_narrows_def sound_val_def narrows_chain intro: narrows_frame)

text \<open>
  Equal terms, up to the order in which chains of variables are followed. Terms may be cyclic
  (with the occurs check off), so equality is coinductive.
\<close>

definition same_shape :: "logic_vm \<Rightarrow> lispval \<Rightarrow> lispval \<Rightarrow> bool" where
  "same_shape s a b \<longleftrightarrow> as_cons s a \<noteq> None \<and> as_cons s b \<noteq> None \<or> as_vector s a \<noteq> None \<and> as_vector s b \<noteq> None
     \<or> (\<exists>f xs ys. as_compound s a = Some (f, xs) \<and> as_compound s b = Some (f, ys))"

coinductive same_term :: "logic_vm \<Rightarrow> lispval \<Rightarrow> lispval \<Rightarrow> bool" for s where
  ident: "walks s a c \<Longrightarrow> walks s b c \<Longrightarrow> same_term s a b"
| parts: "walks s a a' \<Longrightarrow> walks s b b' \<Longrightarrow> same_shape s a' b'
    \<Longrightarrow> list_all2 (same_term s) (term_parts s a') (term_parts s b') \<Longrightarrow> same_term s a b"

lemma same_shape_grows:
  assumes "grows s s'" "same_shape s a b"
  shows "same_shape s' a b" "term_parts s' a = term_parts s a" "term_parts s' b = term_parts s b"
    "walks s' a a" "walks s' b b"
proof -
  note G = grows_lookup(2-4) [OF assms(1)]
  show "same_shape s' a b" "term_parts s' a = term_parts s a" "term_parts s' b = term_parts s b"
    using assms(2) G by (fastforce simp: same_shape_def)+
  have "walks s' v v" if "as_cons s v \<noteq> None \<or> as_vector s v \<noteq> None \<or> as_compound s v \<noteq> None" for v
    using that G(1) [of v] G(2) [of v] G(3) [of v] by (intro walks_self) (force simp: as_iff)
  then show "walks s' a a" "walks s' b b" using assms(2) by (auto simp: same_shape_def)
qed

lemma same_term_grows:
  assumes "grows s s'" "chain_ok s'"
  shows "same_term s a b \<Longrightarrow> same_term s' a b"
proof (coinduction arbitrary: a b)
  case (same_term a b)
  then show ?case
  proof cases
    case (ident c)
    obtain n c' where "deref n s' c = Some c'" using assms(2) unfolding chain_ok_def by blast
    then have "walks s' c c'" by (auto simp: walks_def)
    then show ?thesis using walks_grows [OF assms(1)] ident by blast
  next
    case (parts a' b')
    note S = same_shape_grows [OF assms(1) parts(3)]
    have "walks s' a a'" "walks s' b b'"
      using walks_grows [OF assms(1) S(4) parts(1)] walks_grows [OF assms(1) S(5) parts(2)] .
    moreover have "list_all2 (\<lambda>x y. (\<exists>a b. x = a \<and> y = b \<and> same_term s a b) \<or> same_term s' x y)
        (term_parts s' a') (term_parts s' b')"
      unfolding S(2,3) by (rule list_all2_mono [OF parts(4)]) simp
    ultimately show ?thesis using S(1) by blast
  qed
qed

lemma bind_walks:
  assumes "unbound s x" "w \<noteq> x" "deref k s v = Some w" "canon x" "canon w"
  shows "walks (bind_var x w s) w w" "walks (bind_var x w s) x w"
proof -
  obtain n as where x: "as_logic_var s x = Some (None, n, as)" using assms(1) by (rule unboundE)
  note L = bind_var_lookup [OF x]
  have xr: "is_heap_ref x" using x by (simp add: as_logic_var_Some)
  have "\<not> (is_heap_ref w \<and> payload w = payload x)" using assms(2,4,5) xr by (auto simp: canon_def)
  then show w: "walks (bind_var x w s) w w"
    by (intro walks_self) (use deref_stops [OF assms(3)] in \<open>auto simp: L\<close>)
  show "walks (bind_var x w s) x w" by (rule walks_step [OF _ w]) (simp add: L xr)
qed

lemma unify_list_sound:
  assumes step: "\<And>x y s s'. u x y s = Some (True, s') \<Longrightarrow> chain_ok s \<Longrightarrow> canon x \<Longrightarrow> canon y \<Longrightarrow> narrows s s' \<and> same_term s' x y"
  shows "unify_list u xs ys s = Some (True, s') \<Longrightarrow> length xs = length ys \<Longrightarrow> chain_ok s
    \<Longrightarrow> (\<And>v. v \<in> set xs \<union> set ys \<Longrightarrow> canon v) \<Longrightarrow> narrows s s' \<and> list_all2 (same_term s') xs ys"
proof (induction xs ys arbitrary: s rule: list_induct2')
  case (4 x xs y ys)
  obtain t where t: "u x y s = Some (True, t)" "unify_list u xs ys t = Some (True, s')"
    using 4(2) by (auto split: option.splits bool.splits)
  have 1: "narrows s t" "same_term t x y" using step [OF t(1) 4(4)] 4(5) by simp_all
  have 2: "narrows t s'" "list_all2 (same_term s') xs ys"
    using 4(1) [OF t(2)] 4(3,5) narrows_chain [OF 1(1) 4(4)] by simp_all
  have "same_term s' x y"
    using same_term_grows [OF _ narrows_chain [OF 2(1) narrows_chain [OF 1(1) 4(4)]] 1(2)] 2(1) by (simp add: narrows_def)
  with 1 2 show ?case using grows_trans by (auto simp: narrows_def)
qed (simp_all add: narrows_frame)

lemma unify_internal_sound:
  assumes call: "call_narrows call"
  shows "unify_internal call n a0 b0 s = Some (True, s') \<Longrightarrow> chain_ok s \<Longrightarrow> canon a0 \<Longrightarrow> canon b0
     \<Longrightarrow> narrows s s' \<and> same_term s' a0 b0"
proof (induction n arbitrary: a0 b0 s s')
  case (Suc n)
  obtain a b where d: "deref n s a0 = Some a" "deref n s b0 = Some b"
    using Suc.prems(1) by (auto split: option.splits)
  have cs: "canon_store s" using Suc.prems(2) by (simp add: chain_ok_def)
  have c: "canon a" "canon b" using walks_canon [OF cs] Suc.prems(3,4) d by blast+
  have w: "walks s a0 a" "walks s b0 b" using d by (auto simp: walks_def)
  have nar: "narrows s s'"
    using sound.unify_internal [OF Suc.prems(1)] Suc.prems call by (simp add: sound_val_def)
  have bound: "same_term s' x0 y0 \<and> same_term s' y0 x0"
    if x: "walks s x0 x" "walks s y0 y" "deref n s y0 = Some y" "unbound s x" "y \<noteq> x" "canon x" "canon y"
      and m: "\<And>t. m s = Some t \<Longrightarrow> lstore t = lstore s" and r: "bind_checked call n m x y s = Some (True, s')" for x0 x y0 y m
  proof -
    obtain t where t: "m s = Some t" "fire_attr_hooks call n x y (bind_var x y t) = Some (True, s')"
      using bind_checked_cases [OF r] by auto
    note l = m [OF t(1)]
    let ?s = "bind_var x y t"
    have tx: "unbound t x" "deref n t y0 = Some y" "chain_ok t"
      using x l Suc.prems(2) narrows_chain [OF narrows_frame [OF l]] by (simp_all add: lookup_cong(5) [OF l] deref_cong [OF l])
    note B = bind_walks [OF tx(1) x(5) tx(2) x(6,7)]
    have st: "narrows t ?s" by (rule bind_narrows [OF tx(1) x(5) tx(2) x(6,7)])
    then have "grows s ?s" by (simp add: narrows_def grows_def l)
    then have "walks ?s x0 y" "walks ?s y0 y"
      using walks_grows [OF _ B(2) x(1)] walks_grows [OF _ B(1) x(2)] by auto
    then have "same_term ?s x0 y0" "same_term ?s y0 x0" by (auto intro: same_term.ident)
    moreover have n: "narrows ?s s'" using sound.fire_attr_hooks [OF t(2)] call by blast
    have "grows ?s s'" "chain_ok s'" using n narrows_chain [OF n narrows_chain [OF st tx(3)]] by (simp_all add: narrows_def)
    note same_term_grows [OF this]
    ultimately show ?thesis by blast
  qed
  consider (same) "a = b" "s' = s" | (left) "a \<noteq> b" "unbound s a" "bind_checked call n (merge_domains a b) a b s = Some (True, s')"
    | (right) "a \<noteq> b" "unbound s b" "bind_checked call n Some b a s = Some (True, s')"
    | (parts) "same_shape s a b" "length (term_parts s a) = length (term_parts s b)"
        "unify_list (unify_internal call n) (term_parts s a) (term_parts s b) s = Some (True, s')"
    using Suc.prems(1) d by (auto simp: same_shape_def split: if_splits option.splits prod.splits simp del: unify_list.simps)
  then have "same_term s' a0 b0"
  proof cases
    case same
    then show ?thesis using w by (intro same_term.ident) auto
  next
    case left
    have "lstore t = lstore s" if "merge_domains a b s = Some t" for t
      using merge_domains_cases [OF that] by auto
    then show ?thesis using bound [OF w d(2) left(2) _ c _ left(3)] left(1) by blast
  next
    case right
    then show ?thesis using bound [OF w(2,1) d(1) right(2,1) c(2,1) _ right(3)] by simp
  next
    case parts
    have L: "list_all2 (same_term s') (term_parts s a) (term_parts s b)"
      using unify_list_sound [OF Suc.IH parts(3,2) Suc.prems(2)] parts_canon [OF cs] by blast
    have g: "grows s s'" using nar by (simp add: narrows_def)
    note S = same_shape_grows [OF g parts(1)]
    have "list_all2 (same_term s') (term_parts s' a) (term_parts s' b)"
      unfolding S(2,3) by (rule L)
    with walks_grows [OF g S(4) w(1)] walks_grows [OF g S(5) w(2)] S(1) show ?thesis
      by (rule same_term.parts)
  qed
  with nar show ?case by simp
qed simp

section \<open>More fuel gives the same result\<close>

lemma any_opt_mono:
  "(\<And>x b. x \<in> set xs \<Longrightarrow> f x = Some b \<Longrightarrow> g x = Some b) \<Longrightarrow> any_opt f xs = Some r \<Longrightarrow> any_opt g xs = Some r"
  by (induction xs) (auto split: option.splits bool.splits)

lemma occurs_check_mono: "occurs_check n s x t = Some r \<Longrightarrow> n \<le> m \<Longrightarrow> occurs_check m s x t = Some r"
proof (induction n arbitrary: t r m)
  case (Suc n)
  then obtain k where k: "m = Suc k" "n \<le> k" by (cases m) auto
  obtain t' where t': "deref n s t = Some t'" using Suc.prems(1) by (auto split: option.splits)
  show ?case
  proof (cases "t' = x")
    case False
    then have "any_opt (occurs_check n s x) (term_parts s t') = Some r" using Suc.prems(1) t' by simp
    then have "any_opt (occurs_check k s x) (term_parts s t') = Some r"
      by (rule any_opt_mono [rotated]) (rule Suc.IH, assumption, rule k(2))
    then show ?thesis using False deref_mono [OF t' k(2)] k(1) by simp
  qed (use Suc.prems(1) t' deref_mono [OF t' k(2)] k(1) in simp)
qed simp

lemma enqueue_list_mono: "enqueue_list n cur s = Some r \<Longrightarrow> n \<le> m \<Longrightarrow> enqueue_list m cur s = Some r"
proof (induction n arbitrary: cur s m)
  case (Suc n)
  then obtain k where "m = Suc k" "n \<le> k" by (cases m) auto
  with Suc show ?case by (auto split: option.splits)
qed simp

lemma fire_pairs_mono: "fire_pairs call n x w ps s = Some r \<Longrightarrow> n \<le> m \<Longrightarrow> fire_pairs call m x w ps s = Some r"
proof (induction ps arbitrary: s)
  case (Cons p ps)
  obtain key attr where p: "p = (key, attr)" by (cases p)
  show ?case
  proof (cases "key \<in> async_thunk_attrs s")
    case True
    then obtain t where t: "enqueue_list n attr s = Some t" "fire_pairs call n x w ps t = Some r"
      using Cons.prems(1) unfolding p by (auto split: option.splits)
    then show ?thesis using True Cons.IH Cons.prems(2) enqueue_list_mono [OF t(1) Cons.prems(2)] p by simp
  next
    case False
    then show ?thesis using Cons unfolding p by (auto split: option.splits sum.splits)
  qed
qed simp

lemma fire_attr_hooks_mono:
  "fire_attr_hooks call n x w s = Some r \<Longrightarrow> n \<le> m \<Longrightarrow> fire_attr_hooks call m x w s = Some r"
  using fire_pairs_mono [of call n x w _ s r m] by (auto simp: fire_attr_hooks_def split: option.splits if_splits)

lemma check_domain_mono: "check_domain n x t s = Some r \<Longrightarrow> n \<le> m \<Longrightarrow> check_domain m x t s = Some r"
  by (auto simp: check_domain_def split: option.splits dest: deref_mono [of n _ _ _ m])

lemma bind_checked_mono:
  assumes "bind_checked call n m x w s = Some r" "n \<le> k"
  shows "bind_checked call k m x w s = Some r"
proof -
  obtain oc where oc: "(if occurs_mode s \<noteq> Occurs_never then occurs_check n s x w else Some False) = Some oc"
    using assms(1) by (auto simp: bind_checked_def split: option.splits)
  then have oc': "(if occurs_mode s \<noteq> Occurs_never then occurs_check k s x w else Some False) = Some oc"
    using occurs_check_mono [OF _ assms(2)] by (auto split: if_splits)
  note A = assms(1) [unfolded bind_checked_def oc option.case]
  show ?thesis unfolding bind_checked_def oc' option.case
  proof (cases oc)
    case False
    then have oF: "oc = False" by simp
    note B = A [unfolded oF bool.case]
    obtain cd where cd: "check_domain n x w s = Some cd" using B by (auto split: option.splits)
    note C = B [unfolded cd option.case]
    show "(case oc of True \<Rightarrow> Some (False, if occurs_mode s = Occurs_error then s\<lparr> last_unify_cycle_error := True \<rparr> else s)
      | False \<Rightarrow> (case check_domain k x w s of None \<Rightarrow> None | Some True \<Rightarrow>
          (case m s of None \<Rightarrow> Some (False, s)
           | Some s' \<Rightarrow> (case fire_attr_hooks call k x w (bind_var x w s') of None \<Rightarrow> None
               | Some (True, s'') \<Rightarrow> Some (True, s'')
               | Some (False, s'') \<Rightarrow> Some (False, rollback_trail_to (length (trail_stack s)) s'')))
         | Some False \<Rightarrow> Some (False, s))) = Some r"
      unfolding oF bool.case check_domain_mono [OF cd assms(2)] option.case
      using C fire_attr_hooks_mono [OF _ assms(2)]
      by (cases cd) (auto split: option.splits)
  qed (use A in simp)
qed

lemma unify_list_mono:
  assumes "\<And>x y s r. u x y s = Some r \<Longrightarrow> u' x y s = Some r"
  shows "unify_list u xs ys s = Some r \<Longrightarrow> unify_list u' xs ys s = Some r"
  by (induction xs ys arbitrary: s rule: list_induct2') (auto split: option.splits bool.splits dest: assms)

lemma unify_internal_mono: "unify_internal call n a b s = Some r \<Longrightarrow> n \<le> m \<Longrightarrow> unify_internal call m a b s = Some r"
proof (induction n arbitrary: a b s r m)
  case (Suc n)
  then obtain k where k: "m = Suc k" "n \<le> k" by (cases m) auto
  obtain a' b' where d: "deref n s a = Some a'" "deref n s b = Some b'"
    using Suc.prems(1) by (auto split: option.splits)
  have l: "unify_list (unify_internal call k) xs ys s = Some r" if "unify_list (unify_internal call n) xs ys s = Some r" for xs ys r
    by (rule unify_list_mono [OF _ that]) (use Suc.IH k(2) in blast)
  note d' = deref_mono [OF d(1) k(2)] deref_mono [OF d(2) k(2)]
  consider (left) "a' \<noteq> b'" "unbound s a'" "bind_checked call n (merge_domains a' b') a' b' s = Some r"
    | (right) "a' \<noteq> b'" "\<not> unbound s a'" "unbound s b'" "bind_checked call n Some b' a' s = Some r"
    | (other) "a' = b' \<or> \<not> unbound s a' \<and> \<not> unbound s b'"
    using Suc.prems(1) d by (auto split: if_splits)
  then show ?case
  proof cases
    case left
    then show ?thesis using bind_checked_mono [OF left(3) k(2)] d' k(1) by simp
  next
    case right
    then show ?thesis using bind_checked_mono [OF right(4) k(2)] d' k(1) by simp
  next
    case other
    show ?thesis using Suc.prems(1) other d d' k(1)
      by (auto split: if_splits option.splits prod.splits simp del: unify_list.simps intro!: l)
  qed
qed simp

lemma drain_mono: "drain_propagators call n s = Some r \<Longrightarrow> n \<le> m \<Longrightarrow> drain_propagators call m s = Some r"
proof (induction n arbitrary: s m)
  case (Suc n)
  then obtain k where "m = Suc k" "n \<le> k" by (cases m) auto
  with Suc show ?case by (auto split: list.splits option.splits sum.splits if_splits)
qed simp

lemma unify_mono: "unify call n a b s = Some r \<Longrightarrow> n \<le> m \<Longrightarrow> unify call m a b s = Some r"
proof -
  assume u: "unify call n a b s = Some r" and le: "n \<le> m"
  show ?thesis
  proof (cases "unify_depth s > 0")
    case True
    then show ?thesis using u unify_internal_mono [OF _ le] by (simp add: unify_def)
  next
    case False
    let ?s = "s\<lparr> unify_depth := unify_depth s + 1 \<rparr>"
    obtain ok s2 where i: "unify_internal call n a b ?s = Some (ok, s2)"
      using u False by (auto simp: unify_def Let_def split: option.splits)
    obtain q where q: "(if ok then drain_propagators call n s2 else Some (False, s2)) = Some q"
      using u False i by (auto simp: unify_def Let_def split: option.splits if_splits)
    have "(if ok then drain_propagators call m s2 else Some (False, s2)) = Some q"
      using q drain_mono [OF _ le] by (auto split: if_splits)
    then show ?thesis using u False i q unify_internal_mono [OF i le] by (cases q) (auto simp: unify_def Let_def)
  qed
qed

section \<open>Unification returns\<close>

text \<open>
  The subterms of a value: what a bound variable is bound to, or the parts of a compound object.
  The values of a state are finite trees when this relation is well founded.
\<close>

definition subterms :: "logic_vm \<Rightarrow> lispval \<Rightarrow> lispval list" where
  "subterms s v = (case as_logic_var s v of Some (Some b, _, _) \<Rightarrow> [b] | _ \<Rightarrow> term_parts s v)"

definition child :: "logic_vm \<Rightarrow> (lispval \<times> lispval) set" where
  "child s = {(c, v). canon c \<and> canon v \<and> c \<in> set (subterms s v)}"

definition finite_terms :: "logic_vm \<Rightarrow> bool" where
  "finite_terms s \<longleftrightarrow> finite (dom (lstore s)) \<and> canon_store s \<and> wf (child s)"

definition open_vars :: "logic_vm \<Rightarrow> u64 set" where
  "open_vars s = {i. \<exists>n as. lstore s i = Some (LogicVar_obj None n as)}"

lemma subterms_cong: "lstore s' = lstore s \<Longrightarrow> subterms s' v = subterms s v"
  by (simp only: subterms_def term_parts_def lookup_cong [of s' s])

lemma child_cong: "lstore s' = lstore s \<Longrightarrow> child s' = child s"
  by (simp only: child_def subterms_cong [of s' s])

lemma finite_terms_cong: "lstore s' = lstore s \<Longrightarrow> finite_terms s' = finite_terms s"
  by (simp only: finite_terms_def canon_store_def child_cong [of s' s])

lemma child_bound: "as_logic_var s v = Some (Some b, n, as) \<Longrightarrow> canon v \<Longrightarrow> canon b \<Longrightarrow> (b, v) \<in> child s"
  by (simp add: child_def subterms_def)

lemma var_no_parts: "as_logic_var s v \<noteq> None \<Longrightarrow> term_parts s v = []"
  by (auto simp: term_parts_def as_iff as_logic_var_Some as_cons_def as_vector_def as_compound_def lookup_def)

lemma child_part: "p \<in> set (term_parts s v) \<Longrightarrow> canon v \<Longrightarrow> canon p \<Longrightarrow> (p, v) \<in> child s"
  using var_no_parts [of s v] by (auto simp: child_def subterms_def split: option.splits)

lemma deref_child: "canon_store s \<Longrightarrow> canon v \<Longrightarrow> deref n s v = Some w \<Longrightarrow> (w, v) \<in> (child s)\<^sup>*"
proof (induction n arbitrary: v)
  case (Suc n)
  show ?case
  proof (cases "\<exists>b m as. as_logic_var s v = Some (Some b, m, as)")
    case True
    then obtain b m as where v: "as_logic_var s v = Some (Some b, m, as)" by blast
    then have "deref 2 s v = deref 1 s b" by (simp add: numeral_2_eq_2)
    have "canon b" using v Suc.prems(1) by (fastforce simp: as_logic_var_Some canon_store_def)
    then have "(w, b) \<in> (child s)\<^sup>*" using Suc v by simp
    moreover have "(b, v) \<in> child s" using child_bound [OF v Suc.prems(2) \<open>canon b\<close>] .
    ultimately show ?thesis by (rule rtrancl_into_rtrancl)
  qed (use Suc.prems in \<open>auto split: option.splits\<close>)
qed simp

lemma deref_total:
  assumes "finite_terms s"
  shows "canon v \<Longrightarrow> \<exists>n w. deref n s v = Some w"
  using assms [unfolded finite_terms_def, THEN conjunct2, THEN conjunct2]
proof (induction v)
  case (less v)
  show ?case
  proof (cases "\<exists>b m as. as_logic_var s v = Some (Some b, m, as)")
    case True
    then obtain b m as where v: "as_logic_var s v = Some (Some b, m, as)" by blast
    have b: "canon b" using v assms by (fastforce simp: as_logic_var_Some canon_store_def finite_terms_def)
    obtain n w where "deref n s b = Some w" using less.IH [OF child_bound [OF v less.prems b] b] by blast
    then have "deref (Suc n) s v = Some w" using v by simp
    then show ?thesis by blast
  next
    case False
    then have "deref 1 s v = Some v" by (auto split: option.splits)
    then show ?thesis by blast
  qed
qed

lemma any_opt_total:
  assumes "\<And>x. x \<in> set xs \<Longrightarrow> \<exists>n r. f n x = Some r"
    and mono: "\<And>(n :: nat) m x r. f n x = Some r \<Longrightarrow> n \<le> m \<Longrightarrow> f m x = Some (r :: bool)"
  shows "\<exists>n r. any_opt (f n) xs = Some r"
  using assms(1)
proof (induction xs)
  case (Cons x xs)
  obtain n b where x: "f n x = Some b" using Cons.prems [of x] by auto
  obtain m r where xs: "any_opt (f m) xs = Some r" using Cons by auto
  have "any_opt (f (max n m)) xs = Some r" by (rule any_opt_mono [OF _ xs]) (rule mono, assumption, simp)
  moreover have "f (max n m) x = Some b" by (rule mono [OF x]) simp
  ultimately have "any_opt (f (max n m)) (x # xs) = Some (b \<or> r)" by (cases b) auto
  then show ?case by blast
qed (auto intro: exI [of _ False])

lemma part_below:
  assumes "canon_store s" "canon v" "deref n s v = Some w" "p \<in> set (term_parts s w)"
  shows "(p, v) \<in> (child s)\<^sup>+" "canon p"
proof -
  show "canon p" using parts_canon assms by blast
  moreover have "canon w" using walks_canon assms by blast
  ultimately show "(p, v) \<in> (child s)\<^sup>+"
    using child_part [OF assms(4)] deref_child [OF assms(1-3)] by (meson rtrancl_into_trancl2)
qed

lemma occurs_check_total:
  assumes "finite_terms s"
  shows "canon t \<Longrightarrow> \<exists>n r. occurs_check n s x t = Some r"
  using wf_trancl [OF assms [unfolded finite_terms_def, THEN conjunct2, THEN conjunct2]]
proof (induction t)
  case (less t)
  have cs: "canon_store s" using assms by (simp add: finite_terms_def)
  obtain n t' where n: "deref n s t = Some t'" using deref_total [OF assms less.prems] by blast
  have "\<exists>m r. any_opt (occurs_check m s x) (term_parts s t') = Some r"
  proof (rule any_opt_total)
    show "\<exists>m r. occurs_check m s x p = Some r" if "p \<in> set (term_parts s t')" for p
      using less.IH part_below [OF cs less.prems n that] by blast
  qed (rule occurs_check_mono)
  then obtain m r where "any_opt (occurs_check m s x) (term_parts s t') = Some r" by blast
  then have "any_opt (occurs_check (max n m) s x) (term_parts s t') = Some r"
    by (rule any_opt_mono [rotated]) (erule occurs_check_mono, simp)
  moreover have "deref (max n m) s t = Some t'" by (rule deref_mono [OF n]) simp
  ultimately have "occurs_check (Suc (max n m)) s x t = Some (t' = x \<or> r)" by (cases "t' = x") auto
  then show ?case by blast
qed

lemma deref_skips:
  assumes x: "as_logic_var s x = Some (None, k, as)"
  shows "deref n s t = Some t' \<Longrightarrow> (x, t) \<in> (child s)\<^sup>* \<Longrightarrow> (x, t') \<in> (child s)\<^sup>*"
proof (induction n arbitrary: t)
  case (Suc n)
  show ?case
  proof (cases "\<exists>b m as. as_logic_var s t = Some (Some b, m, as)")
    case True
    then obtain b m as where t: "as_logic_var s t = Some (Some b, m, as)" by blast
    from Suc.prems(2) have "x = t \<or> (x, b) \<in> (child s)\<^sup>*"
      using t by (auto elim: rtranclE simp: child_def subterms_def)
    then show ?thesis using Suc t x by auto
  qed (use Suc.prems in \<open>auto split: option.splits\<close>)
qed simp

lemma occurs_check_False:
  assumes x: "as_logic_var s x = Some (None, k, as)"
  shows "occurs_check n s x t = Some False \<Longrightarrow> (x, t) \<notin> (child s)\<^sup>*"
proof (induction n arbitrary: t)
  case (Suc n)
  obtain t' where t': "deref n s t = Some t'" using Suc.prems by (auto split: option.splits)
  then have a: "t' \<noteq> x" "any_opt (occurs_check n s x) (term_parts s t') = Some False"
    using Suc.prems by (auto split: if_splits)
  have any: "any_opt f xs = Some False \<Longrightarrow> p \<in> set xs \<Longrightarrow> f p = Some False" for f :: "lispval \<Rightarrow> bool option" and xs p
    by (induction xs) (auto split: option.splits bool.splits)
  have "False" if "(x, t) \<in> (child s)\<^sup>*"
  proof -
    have "(x, t') \<in> (child s)\<^sup>*" using deref_skips [OF x t' that] .
    then obtain p where p: "(x, p) \<in> (child s)\<^sup>*" "(p, t') \<in> child s" using a(1) by (auto elim: rtranclE)
    have "p \<in> set (term_parts s t')"
      using p(2) deref_stops [OF t'] by (auto simp: child_def subterms_def split: option.splits)
    then show False using Suc.IH any [OF a(2)] p(1) by blast
  qed
  then show ?case by blast
qed simp

text \<open>
  A value is mentioned when it is one of \<open>P\<close>, the values that the caller holds, or a subterm of
  some value. What a run may do to the terms of a state: bind variables, change attributes, allocate
  objects under ids that nothing mentions; it leaves no new variable unbound and all terms finite.
\<close>

definition mentioned :: "lispval set \<Rightarrow> logic_vm \<Rightarrow> lispval \<Rightarrow> bool" where
  "mentioned P s v \<longleftrightarrow> v \<in> P \<or> (\<exists>u. v \<in> set (subterms s u))"

definition settles_to :: "lispval set \<Rightarrow> logic_vm \<Rightarrow> logic_vm \<Rightarrow> bool" where
  "settles_to P s s' \<longleftrightarrow> finite_terms s' \<and> occurs_mode s' = occurs_mode s \<and> grows s s' \<and> open_vars s' \<subseteq> open_vars s
     \<and> (\<forall>v. mentioned P s v \<longrightarrow> lookup s v = None \<longrightarrow> lookup s' v = None)"

text \<open>
  What the return of unification needs of hooks and propagators: from finite terms they return and
  settle, whatever they bind, narrow or enqueue, and a run that does not lower a rank of the objects
  and the two constraint stores (the number of open variables and the sizes of the domains, say)
  leaves no more propagators pending than it found.
\<close>

type_synonym ranking = "(object_id \<rightharpoonup> heap_obj) \<Rightarrow> constraint_store \<Rightarrow> real_store \<Rightarrow> nat"

definition rank_of :: "ranking \<Rightarrow> logic_vm \<Rightarrow> nat" where
  "rank_of f s = f (lstore s) (constraints s) (reals s)"

definition call_settles :: "ranking \<Rightarrow> lispval set \<Rightarrow> run_proc \<Rightarrow> bool" where
  "call_settles f P call \<longleftrightarrow> (\<forall>p args s. finite_terms s \<longrightarrow> occurs_mode s \<noteq> Occurs_never \<longrightarrow>
     (\<exists>r s'. call p args s = Some (r, s') \<and> settles_to P s s'
       \<and> (rank_of f s' < rank_of f s \<or> rank_of f s' = rank_of f s \<and> length (prop_queue s') \<le> length (prop_queue s))))"

lemma call_settlesE:
  assumes "call_settles f P call" "finite_terms s" "occurs_mode s \<noteq> Occurs_never"
  obtains r s' where "call p args s = Some (r, s')" "settles_to P s s'"
    "rank_of f s' < rank_of f s \<or> rank_of f s' = rank_of f s \<and> length (prop_queue s') \<le> length (prop_queue s)"
  using assms unfolding call_settles_def by blast

definition object_parts :: "heap_obj \<Rightarrow> lispval list" where
  "object_parts ob = (case ob of LogicVar_obj (Some b) _ _ \<Rightarrow> [b] | Cons_obj x y \<Rightarrow> [x, y] | Vector_obj es \<Rightarrow> es
     | CompoundTerm_obj f es \<Rightarrow> es | _ \<Rightarrow> [])"

lemma subterms_lookup: "subterms s v = (case lookup s v of None \<Rightarrow> [] | Some ob \<Rightarrow> object_parts ob)"
  by (auto simp: subterms_def term_parts_def as_logic_var_def as_cons_def as_vector_def as_compound_def object_parts_def
      split: option.split heap_obj.split)

lemma obj_grows_parts: "obj_grows ob ob' \<Longrightarrow> object_parts ob \<noteq> [] \<Longrightarrow> object_parts ob' = object_parts ob"
  by (cases ob) (auto simp: obj_grows_def object_parts_def split: option.splits)

lemma subterms_grows: "grows s s' \<Longrightarrow> subterms s v \<noteq> [] \<Longrightarrow> subterms s' v = subterms s v"
proof -
  assume g: "grows s s'" and n: "subterms s v \<noteq> []"
  obtain ob where ob: "lookup s v = Some ob" "object_parts ob \<noteq> []"
    using n by (cases "lookup s v") (simp_all add: subterms_lookup)
  obtain ob' where "lookup s' v = Some ob'" "obj_grows ob ob'" using grows_lookup_obj [OF g ob(1)] by blast
  then show ?thesis using ob obj_grows_parts by (simp add: subterms_lookup)
qed

lemma mentioned_subterm: "c \<in> set (subterms s v) \<Longrightarrow> mentioned P s c"
  by (auto simp: mentioned_def)

lemma mentioned_part: "p \<in> set (term_parts s v) \<Longrightarrow> mentioned P s p"
proof -
  assume p: "p \<in> set (term_parts s v)"
  then have "term_parts s v \<noteq> []" by (cases "term_parts s v") simp_all
  then have "as_logic_var s v = None" using var_no_parts [of s v] by blast
  then have "p \<in> set (subterms s v)" using p by (simp add: subterms_def)
  then show ?thesis by (rule mentioned_subterm)
qed

lemma mentioned_mono:
  assumes "settles_to P s t" "mentioned P s v"
  shows "mentioned P t v"
proof (cases "v \<in> P")
  case False
  then obtain u where u: "v \<in> set (subterms s u)" using assms(2) by (auto simp: mentioned_def)
  then have "subterms s u \<noteq> []" by force
  then have "subterms t u = subterms s u" using subterms_grows assms(1) by (simp add: settles_to_def)
  then show ?thesis using u mentioned_subterm [of v t u] by simp
qed (simp add: mentioned_def)

lemma settles_to_refl: "finite_terms s \<Longrightarrow> settles_to P s s"
  by (simp add: settles_to_def)

lemma settles_to_trans: "settles_to P s t \<Longrightarrow> settles_to P t u \<Longrightarrow> settles_to P s u"
  using mentioned_mono [of P s t] grows_trans [of s t u] by (auto simp: settles_to_def)

text \<open>As long as no variable is bound, the terms stay.\<close>

lemma settled_subterms:
  assumes "settles_to P s t" "open_vars t = open_vars s" "mentioned P s v"
  shows "subterms t v = subterms s v"
proof (cases "lookup s v")
  case None
  then have "lookup t v = None" using assms(1,3) by (simp add: settles_to_def)
  then show ?thesis using None by (simp add: subterms_lookup)
next
  case (Some ob)
  obtain ob' where ob': "lookup t v = Some ob'" "obj_grows ob ob'"
    using grows_lookup_obj Some assms(1) unfolding settles_to_def by blast
  have "object_parts ob' = object_parts ob"
  proof (cases "\<exists>n as. ob = LogicVar_obj None n as")
    case True
    then have "payload v \<in> open_vars t" using assms(2) Some by (auto simp: open_vars_def lookup_def split: if_splits)
    then have "\<exists>n as. ob' = LogicVar_obj None n as" using ob'(1) by (auto simp: open_vars_def lookup_def split: if_splits)
    then show ?thesis using True by (auto simp: object_parts_def)
  next
    case False
    then show ?thesis using ob'(2) by (cases ob) (auto simp: obj_grows_def object_parts_def)
  qed
  then show ?thesis using Some ob'(1) by (simp add: subterms_lookup)
qed

lemma settled_below:
  assumes "settles_to P s t" "open_vars t = open_vars s" "(c, v) \<in> (child t)\<^sup>+" "mentioned P s v"
  shows "(c, v) \<in> (child s)\<^sup>+ \<and> mentioned P s c"
  using assms(3)
proof (induction rule: converse_trancl_induct)
  case (base y)
  then have "(y, v) \<in> child s" using settled_subterms [OF assms(1,2,4)] by (simp add: child_def)
  then show ?case by (auto simp: child_def intro: mentioned_subterm)
next
  case (step y z)
  then have "(y, z) \<in> child s" using settled_subterms [OF assms(1,2), of z] by (simp add: child_def)
  then show ?case using step(3) by (auto simp: child_def intro: mentioned_subterm trancl_into_trancl2)
qed

definition settles :: "ranking \<Rightarrow> lispval set \<Rightarrow> run_proc \<Rightarrow> logic_vm \<Rightarrow> logic_vm \<Rightarrow> bool" where
  "settles f P call s s' \<longleftrightarrow>
     (call_settles f P call \<longrightarrow> occurs_mode s \<noteq> Occurs_never \<longrightarrow> finite_terms s \<longrightarrow> settles_to P s s')"

definition finite_val :: "ranking \<Rightarrow> lispval set \<Rightarrow> run_proc \<Rightarrow> lispval \<Rightarrow> logic_vm \<Rightarrow> bool" where
  "finite_val f P call v s \<longleftrightarrow> call_settles f P call \<and> occurs_mode s \<noteq> Occurs_never \<and> finite_terms s
     \<and> canon v \<and> mentioned P s v"

lemma open_vars_cong: "lstore s' = lstore s \<Longrightarrow> open_vars s' = open_vars s"
  by (simp add: open_vars_def)

lemma bind_finite_terms:
  assumes "as_logic_var s x = Some (None, n, as)" "canon x" "canon w" "finite_terms s" "(x, w) \<notin> (child s)\<^sup>*"
  shows "finite_terms (bind_var x w s)" "open_vars (bind_var x w s) \<subset> open_vars s"
proof -
  note L = bind_var_lookup [OF assms(1)]
  have xr: "is_heap_ref x" "lstore s (payload x) = Some (LogicVar_obj None n as)" using assms(1) by (simp_all add: as_logic_var_Some)
  have c: "canon_store s" using assms(4) by (simp add: finite_terms_def)
  then have "list_all canon (heap_refs (LogicVar_obj None n as))" using xr(2) unfolding canon_store_def by blast
  then have cs: "canon_store (bind_var x w s)" using c assms(3) by (auto simp: canon_store_def L)
  have "child (bind_var x w s) \<subseteq> insert (w, x) (child s)"
  proof
    fix p assume p: "p \<in> child (bind_var x w s)"
    obtain a u where au: "p = (a, u)" by (cases p)
    show "p \<in> insert (w, x) (child s)"
    proof (cases "is_heap_ref u \<and> payload u = payload x")
      case True
      then have "u = x" using p assms(2) xr(1) by (auto simp: au child_def canon_def)
      then show ?thesis using p True by (simp add: au child_def subterms_def L xr)
    next
      case False
      then have "lookup (bind_var x w s) u = lookup s u" by (auto simp: lookup_def L)
      then have "term_parts (bind_var x w s) u = term_parts s u" "as_logic_var (bind_var x w s) u = as_logic_var s u"
        by (simp_all only: term_parts_def as_logic_var_def as_cons_def as_vector_def as_compound_def)
      then have "subterms (bind_var x w s) u = subterms s u" by (simp only: subterms_def)
      then show ?thesis using p by (simp add: au child_def)
    qed
  qed
  moreover have "wf (insert (w, x) (child s))" using assms(4,5) unfolding finite_terms_def wf_insert by blast
  ultimately have "wf (child (bind_var x w s))" by (rule wf_subset [rotated])
  then show "finite_terms (bind_var x w s)" using assms(4) cs by (simp add: finite_terms_def L)
  show "open_vars (bind_var x w s) \<subset> open_vars s"
    using xr(2) by (auto simp: open_vars_def L split: if_splits)
qed

lemma deref_mentioned: "deref n s v = Some w \<Longrightarrow> mentioned P s v \<Longrightarrow> mentioned P s w"
proof (induction n arbitrary: v)
  case (Suc n)
  show ?case
  proof (cases "\<exists>b m as. as_logic_var s v = Some (Some b, m, as)")
    case True
    then obtain b m as where v: "as_logic_var s v = Some (Some b, m, as)" by blast
    then have "mentioned P s b" by (intro mentioned_subterm [of b s v]) (simp add: subterms_def)
    then show ?thesis using Suc v by simp
  qed (use Suc.prems in \<open>auto split: option.splits\<close>)
qed simp

lemma settles_to_cong: "finite_terms s \<Longrightarrow> lstore s' = lstore s \<Longrightarrow> occurs_mode s' = occurs_mode s \<Longrightarrow> settles_to P s s'"
  using finite_terms_cong [of s' s] narrows_frame [of s' s] by (simp add: settles_to_def open_vars_def lookup_def narrows_def)

lemma settles_frame: "lstore s' = lstore s \<Longrightarrow> occurs_mode s' = occurs_mode s \<Longrightarrow> settles f P call s s'"
  by (simp add: settles_def settles_to_cong)

lemma settles_bind:
  assumes v: "as_logic_var s x = Some (None, n, as)" and w: "w \<noteq> x" "deref k s u = Some w" "canon x" "canon w"
    and f: "finite_terms s" "(x, w) \<notin> (child s)\<^sup>*"
  shows "settles_to P s (bind_var x w s)"
proof -
  have "occurs_mode (bind_var x w s) = occurs_mode s" by (simp add: bind_var_def v put_object_def push_trail_def)
  moreover have "grows s (bind_var x w s)" using bind_narrows [OF _ w] v by (simp add: narrows_def unbound_def)
  moreover have "lookup (bind_var x w s) y = None" if "lookup s y = None" for y
    using that v by (auto simp: lookup_def bind_var_lookup [OF v] as_logic_var_Some split: if_splits)
  ultimately show ?thesis using bind_finite_terms [OF v w(3,4) f] by (auto simp: settles_to_def)
qed

interpretation returns: logic_frame call "settles f P call" False "finite_val f P call" for call f P
proof
  fix s t u assume "settles f P call s t" "settles f P call t u"
  then show "settles f P call s u" using settles_to_trans [of P s t u] by (simp add: settles_def settles_to_def [of P s t])
next
  fix s x w k v
  assume x: "unbound s x" "w \<noteq> x" "deref k s v = Some w" "finite_val f P call x s" "finite_val f P call w s"
    and oc: "occurs_mode s \<noteq> Occurs_never \<Longrightarrow> \<exists>n. occurs_check n s x w = Some False"
  obtain n as where v: "as_logic_var s x = Some (None, n, as)" using x(1) by (rule unboundE)
  have "(x, w) \<notin> (child s)\<^sup>*" using oc x(4) occurs_check_False [OF v] by (auto simp: finite_val_def)
  then show "settles f P call s (bind_var x w s)"
    using settles_bind [OF v x(2,3)] x(4,5) by (simp add: settles_def finite_val_def)
next
  fix v s n w assume v: "finite_val f P call v s" "deref n s v = Some w"
  have "canon w" using v walks_canon by (auto simp: finite_val_def finite_terms_def)
  moreover have "mentioned P s w" using v deref_mentioned by (auto simp: finite_val_def)
  ultimately show "finite_val f P call w s" using v(1) by (simp add: finite_val_def)
next
  fix v s p assume "finite_val f P call v s" "p \<in> set (term_parts s v)"
  then show "finite_val f P call p s" using parts_canon mentioned_part by (auto simp: finite_val_def finite_terms_def)
next
  fix p args s r s' assume c: "call p args s = Some (r, s')"
  show "settles f P call s s'" unfolding settles_def
  proof (intro impI)
    assume "call_settles f P call" "occurs_mode s \<noteq> Occurs_never" "finite_terms s"
    then obtain r2 s2 where "call p args s = Some (r2, s2)" "settles_to P s s2" unfolding call_settles_def by blast
    then show "settles_to P s s'" using c by simp
  qed
next
  fix v s s' assume "finite_val f P call v s" "settles f P call s s'"
  then show "finite_val f P call v s'"
    using mentioned_mono [of P s s' v] unfolding settles_def finite_val_def
    by (simp add: settles_to_def [of P s s'])
qed (simp_all add: settles_frame)

lemma enqueue_propagator_keeps [simp]:
  "lstore (enqueue_propagator a s) = lstore s" "async_thunk_attrs (enqueue_propagator a s) = async_thunk_attrs s"
  by (simp_all add: enqueue_propagator_def)

lemma enqueue_list_total:
  assumes "finite_terms s0"
  shows "canon cur \<Longrightarrow> lstore s = lstore s0 \<Longrightarrow> \<exists>n t. enqueue_list n cur s = Some t"
  using assms [unfolded finite_terms_def, THEN conjunct2, THEN conjunct2]
proof (induction cur arbitrary: s)
  case (less cur)
  have cs: "canon_store s" using assms less.prems(2) by (simp add: finite_terms_def canon_store_def)
  show ?case
  proof (cases "as_cons s cur")
    case None
    then have "enqueue_list 1 cur s = Some s" by simp
    then show ?thesis by blast
  next
    case (Some p)
    obtain a d where p: "p = (a, d)" by (cases p)
    have d: "d \<in> set (term_parts s cur)" using Some p by simp
    have cd: "canon d" using parts_canon [OF cs d] .
    have "(d, cur) \<in> child s0" using child_part [OF d less.prems(1) cd] child_cong [OF less.prems(2)] by simp
    then obtain n t where "enqueue_list n d (enqueue_propagator a s) = Some t"
      using less.IH [of d "enqueue_propagator a s"] cd less.prems(2) by auto
    then have "enqueue_list (Suc n) cur s = Some t" using Some p by simp
    then show ?thesis by blast
  qed
qed

lemma enqueue_list_lstore: "enqueue_list n cur s = Some t \<Longrightarrow> lstore t = lstore s \<and> async_thunk_attrs t = async_thunk_attrs s"
proof (induction n arbitrary: cur s)
  case (Suc n)
  then show ?case by (force split: option.splits)
qed simp

lemma enqueue_propagator_mode [simp]: "occurs_mode (enqueue_propagator a s) = occurs_mode s"
  by (simp add: enqueue_propagator_def)

lemma enqueue_list_mode: "enqueue_list n cur s = Some t \<Longrightarrow> occurs_mode t = occurs_mode s"
proof (induction n arbitrary: cur s)
  case (Suc n)
  then show ?case by (force split: option.splits)
qed simp

lemma fire_pairs_total:
  assumes "call_settles f P call"
  shows "list_all (\<lambda>p. canon (snd p)) ps \<Longrightarrow> finite_terms s \<Longrightarrow> occurs_mode s \<noteq> Occurs_never
    \<Longrightarrow> \<exists>n r. fire_pairs call n x w ps s = Some r"
proof (induction ps arbitrary: s)
  case (Cons p ps)
  obtain key attr where p: "p = (key, attr)" by (cases p)
  show ?case
  proof (cases "key \<in> async_thunk_attrs s")
    case True
    obtain n t where t: "enqueue_list n attr s = Some t"
      using enqueue_list_total [OF Cons.prems(2), of attr s] Cons.prems(1) p by auto
    have "finite_terms t" "occurs_mode t \<noteq> Occurs_never"
      using enqueue_list_lstore [OF t] enqueue_list_mode [OF t] finite_terms_cong [of t s] Cons.prems(2,3) by simp_all
    then obtain m r where r: "fire_pairs call m x w ps t = Some r" using Cons.IH [of t] Cons.prems(1) by auto
    have "fire_pairs call (max n m) x w (p # ps) s = Some r"
      using True p enqueue_list_mono [OF t, of "max n m"] fire_pairs_mono [OF r, of "max n m"] by simp
    then show ?thesis by blast
  next
    case False
    obtain n r where r: "fire_pairs call n x w ps s = Some r" using Cons.IH [of s] Cons.prems by auto
    show ?thesis
    proof (cases "attr_unify_hooks s key")
      case None
      then have "fire_pairs call n x w (p # ps) s = Some r" using False p r by simp
      then show ?thesis by blast
    next
      case (Some hook)
      obtain q t where q: "call hook [x, w, attr] s = Some (q, t)" "settles_to P s t"
        by (rule call_settlesE [OF assms Cons.prems(2,3), of hook "[x, w, attr]"])
      then have "finite_terms t" "occurs_mode t \<noteq> Occurs_never" using Cons.prems(3) by (simp_all add: settles_to_def)
      then obtain m r where "fire_pairs call m x w ps t = Some r" using Cons.IH [of t] Cons.prems(1) by auto
      then have "fire_pairs call m x w (p # ps) s \<noteq> None" using False p q(1) Some by (auto split: sum.splits)
      then show ?thesis by blast
    qed
  qed
qed auto

lemma fire_attr_hooks_total:
  assumes "call_settles f P call" "finite_terms s" "occurs_mode s \<noteq> Occurs_never"
  shows "\<exists>n r. fire_attr_hooks call n x w s = Some r"
proof (cases "as_logic_var s x")
  case (Some v)
  obtain b k as where v: "as_logic_var s x = Some (b, k, as)" using Some by (cases v) auto
  then have "lstore s (payload x) = Some (LogicVar_obj b k as)" by (simp add: as_logic_var_Some)
  then have "list_all canon (heap_refs (LogicVar_obj b k as))"
    using assms(2) unfolding finite_terms_def canon_store_def by blast
  then have "list_all (\<lambda>p. canon (snd p)) as" by (auto simp: list_all_iff)
  then obtain n r where "fire_pairs call n x w as s = Some r"
    using fire_pairs_total [OF assms(1), of as s x w] assms(2,3) by blast
  then have "fire_attr_hooks call n x w s \<noteq> None"
    by (cases r; cases "fst r") (auto simp: fire_attr_hooks_def v)
  then show ?thesis by blast
qed (simp add: fire_attr_hooks_def ex_bool_eq)

lemma check_domain_total:
  assumes "finite_terms s" "canon t"
  shows "\<exists>n r. check_domain n x t s = Some r"
proof -
  obtain n w where n: "deref n s t = Some w" using deref_total [OF assms] by blast
  have "domain_contains_double d r \<noteq> None" if "is_DR d" for d r
    using that by (cases d) (simp_all add: domain_contains_double_def)
  then have "check_domain n x t s \<noteq> None"
    using n by (auto simp: check_domain_def Let_def split: option.splits numeric_value.splits)
  then show ?thesis by blast
qed

lemma bind_checked_total:
  assumes s: "finite_terms s" "call_settles f P call" "occurs_mode s \<noteq> Occurs_never"
    and x: "as_logic_var s x = Some (None, k, as)" "canon x" "canon w"
    and m: "\<And>t. m s = Some t \<Longrightarrow> lstore t = lstore s \<and> occurs_mode t = occurs_mode s"
  shows "\<exists>n r. bind_checked call n m x w s = Some r"
proof -
  obtain n oc where oc: "occurs_check n s x w = Some oc" using occurs_check_total [OF s(1) x(3)] by blast
  show ?thesis
  proof (cases oc)
    case True
    then have "bind_checked call n m x w s \<noteq> None" using oc s(3) by (simp add: bind_checked_def)
    then show ?thesis by blast
  next
    case False
    obtain j cd where cd: "check_domain j x w s = Some cd" using check_domain_total [OF s(1) x(3)] by blast
    show ?thesis
    proof (cases "m s")
      case None
      have "bind_checked call (max n j) m x w s \<noteq> None"
        using occurs_check_mono [OF oc, of "max n j"] check_domain_mono [OF cd, of "max n j"] None
        by (cases oc; cases cd) (auto simp: bind_checked_def)
      then show ?thesis by blast
    next
      case (Some t)
      have l: "lstore t = lstore s" and om: "occurs_mode t = occurs_mode s" using m Some by blast+
      have "(x, w) \<notin> (child t)\<^sup>*" using occurs_check_False [OF x(1)] oc False child_cong [OF l] by simp
      then have "finite_terms (bind_var x w t)"
        using bind_finite_terms(1) [of t x k as w] x s(1) finite_terms_cong [OF l] lookup_cong(1) [OF l] by simp
      moreover have "occurs_mode (bind_var x w t) = occurs_mode t"
        using x(1) lookup_cong(1) [OF l] by (simp add: bind_var_def put_object_def push_trail_def)
      ultimately obtain i r where i: "fire_attr_hooks call i x w (bind_var x w t) = Some r"
        using fire_attr_hooks_total [OF s(2)] s(3) om by metis
      let ?n = "max n (max j i)"
      have "bind_checked call ?n m x w s \<noteq> None"
        using occurs_check_mono [OF oc, of ?n] check_domain_mono [OF cd, of ?n] fire_attr_hooks_mono [OF i, of ?n] Some
        by (cases oc; cases cd; cases r; cases "fst r") (auto simp: bind_checked_def)
      then show ?thesis by blast
    qed
  qed
qed

lemma unify_list_total:
  assumes step: "\<And>x y t. x \<in> set xs \<Longrightarrow> Q t \<Longrightarrow> y \<in> set ys \<Longrightarrow> \<exists>n r. u n x y t = Some r"
    and keeps: "\<And>n x y t t'. x \<in> set xs \<Longrightarrow> y \<in> set ys \<Longrightarrow> Q t \<Longrightarrow> u n x y t = Some (True, t') \<Longrightarrow> Q t'"
    and mono: "\<And>(n :: nat) m x y t r. u n x y t = Some r \<Longrightarrow> n \<le> m \<Longrightarrow> u m x y t = Some r"
  shows "Q s \<Longrightarrow> \<exists>n r. unify_list (u n) xs ys s = Some r"
  using step keeps
proof (induction xs ys arbitrary: s rule: list_induct2')
  case (4 x xs y ys)
  obtain n ok t where x: "u n x y s = Some (ok, t)" using 4(3) [of x s y] 4(2) by auto
  show ?case
  proof (cases ok)
    case True
    then have "Q t" using 4(4) [of x y s n t] 4(2) x by simp
    then obtain m r where r: "unify_list (u m) xs ys t = Some r" using 4(1) [of t] 4(3,4) by (metis list.set_intros(2))
    have "unify_list (u (max n m)) xs ys t = Some r" by (rule unify_list_mono [OF _ r]) (erule mono, simp)
    moreover have "u (max n m) x y s = Some (ok, t)" by (rule mono [OF x]) simp
    ultimately have "unify_list (u (max n m)) (x # xs) (y # ys) s = Some r" using True by simp
    then show ?thesis by blast
  next
    case False
    then have "unify_list (u n) (x # xs) (y # ys) s = Some (False, t)" using x by simp
    then show ?thesis by blast
  qed
qed (simp_all (no_asm) add: ex_bool_eq)

lemma unify_internal_total:
  assumes pure: "call_settles f P call"
  shows "card (open_vars s) = k \<Longrightarrow> finite_val f P call a0 s \<Longrightarrow> finite_val f P call b0 s
    \<Longrightarrow> \<exists>n r. unify_internal call n a0 b0 s = Some r"
proof (induction k arbitrary: s a0 b0 rule: less_induct)
  case (less k s0 a1 b1)
  have f0: "finite_terms s0" using less.prems(2) by (simp add: finite_val_def)
  have fin: "finite (open_vars s0)"
    by (rule finite_subset [of _ "dom (lstore s0)"]) (use f0 in \<open>auto simp: open_vars_def finite_terms_def\<close>)
  have "mentioned P s0 a0 \<longrightarrow> (\<forall>s b0. settles_to P s0 s \<longrightarrow> open_vars s = open_vars s0 \<longrightarrow> finite_val f P call a0 s
      \<longrightarrow> finite_val f P call b0 s \<longrightarrow> (\<exists>n r. unify_internal call n a0 b0 s = Some r))" for a0
    using wf_trancl [OF f0 [unfolded finite_terms_def, THEN conjunct2, THEN conjunct2]]
  proof (induction a0)
    case inner: (less a0)
    show ?case
    proof (intro allI impI)
      fix s b0 assume ma: "mentioned P s0 a0" and l: "settles_to P s0 s" and op: "open_vars s = open_vars s0"
        and va: "finite_val f P call a0 s" and vb: "finite_val f P call b0 s"
      have s: "finite_terms s" "occurs_mode s \<noteq> Occurs_never" "canon_store s" "canon a0" "canon b0"
        using va vb by (simp_all add: finite_val_def finite_terms_def)
      obtain i a where a: "deref i s a0 = Some a" using deref_total [OF s(1,4)] by blast
      obtain j b where b: "deref j s b0 = Some b" using deref_total [OF s(1,5)] by blast
      have c: "canon a" "canon b" using walks_canon [OF s(3)] s(4,5) a b by blast+
      have "\<exists>n r. unify_list (unify_internal call n) (term_parts s a) (term_parts s b) s = Some r"
      proof (rule unify_list_total [where Q = "settles_to P s"])
        fix x y t assume x: "x \<in> set (term_parts s a)" and y: "y \<in> set (term_parts s b)" and t: "settles_to P s t"
        note bx = part_below [OF s(3,4) a x]
        note b0 = settled_below [OF l op bx(1) ma]
        have ft: "finite_terms t" "occurs_mode t \<noteq> Occurs_never" using t s(2) by (simp_all add: settles_to_def)
        have v: "finite_val f P call x t" "finite_val f P call y t"
          using ft bx(2) parts_canon [OF s(3) y] pure mentioned_mono [OF t] mentioned_part [OF x] mentioned_part [OF y]
          by (simp_all add: finite_val_def)
        have st: "settles_to P s0 t" by (rule settles_to_trans [OF l t])
        show "\<exists>n r. unify_internal call n x y t = Some r"
        proof (cases "open_vars t = open_vars s0")
          case True
          then show ?thesis using inner.IH [of x] b0 v st by blast
        next
          case False
          then have "open_vars t \<subset> open_vars s0" using st by (auto simp: settles_to_def)
          then have "card (open_vars t) < k" using psubset_card_mono [OF fin] less.prems(1) by simp
          then show ?thesis using less.IH v by blast
        qed
        fix n t' assume u: "unify_internal call n x y t = Some (True, t')"
        have "settles f P call t t'" by (rule returns.unify_internal [OF u _ v]) simp
        then have "settles_to P t t'" using pure ft by (simp add: settles_def)
        then show "settles_to P s t'" by (rule settles_to_trans [OF t])
      qed (erule unify_internal_mono, assumption, rule settles_to_refl [OF s(1)])
      then obtain m r where m: "unify_list (unify_internal call m) (term_parts s a) (term_parts s b) s = Some r" by blast
      have bind: "\<exists>n r. bind_checked call n mg x w s = Some r"
        if "unbound s x" "canon x" "canon w" "\<And>t. mg s = Some t \<Longrightarrow> lstore t = lstore s \<and> occurs_mode t = occurs_mode s" for mg x w
        using that(1) by (rule unboundE) (rule bind_checked_total [OF s(1) pure s(2) _ that(2,3,4)])
      have mg: "lstore t = lstore s \<and> occurs_mode t = occurs_mode s" if "merge_domains a b s = Some t" for t
        using merge_domains_cases [OF that] by auto
      have "\<exists>n r. (unbound s a \<longrightarrow> bind_checked call n (merge_domains a b) a b s = Some r)"
        using bind [of a b "merge_domains a b"] mg c by blast
      then obtain n1 r1 where n1: "unbound s a \<Longrightarrow> bind_checked call n1 (merge_domains a b) a b s = Some r1" by blast
      have "\<exists>n r. (unbound s b \<longrightarrow> bind_checked call n Some b a s = Some r)"
        using bind [of b a Some] c by blast
      then obtain n2 r2 where n2: "unbound s b \<Longrightarrow> bind_checked call n2 Some b a s = Some r2" by blast
      define N where "N = max (max i j) (max m (max n1 n2))"
      have le: "i \<le> N" "j \<le> N" "m \<le> N" "n1 \<le> N" "n2 \<le> N" by (simp_all add: N_def)
      have "unify_list (unify_internal call N) (term_parts s a) (term_parts s b) s = Some r"
        by (rule unify_list_mono [OF _ m]) (erule unify_internal_mono, rule le)
      moreover have "unbound s a \<Longrightarrow> bind_checked call N (merge_domains a b) a b s = Some r1"
        using bind_checked_mono [OF n1 le(4)] .
      moreover have "unbound s b \<Longrightarrow> bind_checked call N Some b a s = Some r2"
        using bind_checked_mono [OF n2 le(5)] .
      ultimately have "unify_internal call (Suc N) a0 b0 s \<noteq> None"
        using deref_mono [OF a le(1)] deref_mono [OF b le(2)]
        by (auto split: option.splits prod.splits simp del: unify_list.simps)
      then show "\<exists>n r. unify_internal call n a0 b0 s = Some r" by blast
    qed
  qed
  then show ?case using less.prems settles_to_refl [OF f0] by (simp add: finite_val_def)
qed

lemma drain_total:
  assumes "call_settles f P call"
  shows "finite_terms s \<Longrightarrow> occurs_mode s \<noteq> Occurs_never \<Longrightarrow> \<exists>n r. drain_propagators call n s = Some r"
proof (induction s rule: wf_induct_rule [OF wf_measures [of "[rank_of f, \<lambda>s. length (prop_queue s)]"]])
  case (1 s)
  show ?case
  proof (cases "prop_queue s")
    case Nil
    then have "drain_propagators call 1 s = Some (True, s)" by simp
    then show ?thesis by blast
  next
    case (Cons t rest)
    let ?s = "pop_propagator t rest s"
    have p: "lstore ?s = lstore s" "occurs_mode ?s = occurs_mode s" "rank_of f ?s = rank_of f s" "prop_queue ?s = rest"
      by (simp_all add: pop_propagator_def Let_def rank_of_def)
    then have "finite_terms ?s" "occurs_mode ?s \<noteq> Occurs_never" using 1(2,3) finite_terms_cong [of ?s s] by simp_all
    then obtain r u where u: "call t [] ?s = Some (r, u)" "settles_to P ?s u"
      "rank_of f u < rank_of f ?s \<or> rank_of f u = rank_of f ?s \<and> length (prop_queue u) \<le> length (prop_queue ?s)"
      by (rule call_settlesE [OF assms, of ?s t "[]"])
    have "(u, s) \<in> measures [rank_of f, \<lambda>s. length (prop_queue s)]" using u(3) p Cons by auto
    moreover have "finite_terms u" "occurs_mode u \<noteq> Occurs_never" using u(2) p 1(3) by (simp_all add: settles_to_def)
    ultimately obtain n r' where "drain_propagators call n u = Some r'" using 1(1) by blast
    then have "drain_propagators call (Suc n) s \<noteq> None" using Cons u(1) by (auto split: sum.splits)
    then show ?thesis by blast
  qed
qed

text \<open>C30: A successful unification makes the two terms equal: following the chains of variables from
  the two terms afterwards leads to the same value or to compound objects of the same kind whose
  parts are pairwise equal again, and every variable that was bound before is bound to the same term
  as before. This is under the assumption \<open>call_narrows\<close> on every hook and propagator that runs
  meanwhile: each only constrains further, so that it keeps the objects and the bindings there are
  and leaves chains of variables that end. Cyclic terms are covered, so equality is the coinductive
  one. That bindings stay as they are is about the code, whose \<^verbatim>\<open>deref\<close> follows chains and writes nothing;
  the paths that the guide says it compresses are not compressed.\<close>

theorem unify_sound:
  assumes "call_narrows call" "chain_ok s" "canon a" "canon b" "unify call n a b s = Some (True, s')"
  shows "same_term s' a b \<and> grows s s' \<and> chain_ok s'"
proof -
  have depth: "same_term (t\<lparr> unify_depth := d \<rparr>) a b \<and> grows s (t\<lparr> unify_depth := d \<rparr>) \<and> chain_ok (t\<lparr> unify_depth := d \<rparr>)"
    if "unify_internal call n a b u = Some (True, v)" "lstore u = lstore s" "narrows v t" for u v t d
  proof -
    have 1: "narrows s u" using narrows_frame [OF that(2)] .
    have 2: "narrows u v" "same_term v a b"
      using unify_internal_sound [OF assms(1) that(1) narrows_chain [OF 1 assms(2)] assms(3,4)] by auto
    have 3: "narrows t (t\<lparr> unify_depth := d \<rparr>)" by (rule narrows_frame) simp
    have "narrows v (t\<lparr> unify_depth := d \<rparr>)" using that(3) 3 grows_trans unfolding narrows_def by blast
    moreover have "chain_ok v" using narrows_chain [OF 2(1) narrows_chain [OF 1 assms(2)]] .
    ultimately show ?thesis using same_term_grows [OF _ _ 2(2)] 1 2(1) grows_trans unfolding narrows_def by blast
  qed
  show ?thesis
  proof (cases "unify_depth s > 0")
    case True
    then have "unify_internal call n a b s = Some (True, s')" using assms(5) by (simp add: unify_def)
    from depth [OF this refl narrows_frame [OF refl], of "unify_depth s'"] show ?thesis by simp
  next
    case False
    let ?s = "s\<lparr> unify_depth := unify_depth s + 1 \<rparr>"
    obtain s2 s3 where i: "unify_internal call n a b ?s = Some (True, s2)"
      and d: "drain_propagators call n s2 = Some (True, s3)" and s': "s' = s3\<lparr> unify_depth := unify_depth s3 - 1 \<rparr>"
      using assms(5) False by (auto simp: unify_def Let_def split: option.splits if_splits)
    have "narrows s2 s3" using sound.drain [OF d] assms(1) by blast
    from depth [OF i _ this] show ?thesis unfolding s' by simp
  qed
qed

text \<open>C32: With the occurs check on, unification always returns: when the terms are finite trees, there
  is an amount of fuel from which every run gives one and the same result, whatever the sharing
  between the terms and the length of the variable chains. Hooks and propagators may bind
  variables, narrow domains, allocate and enqueue further propagators, as \<^verbatim>\<open>drain_propagators\<close>
  expects of them (\<open>call_settles\<close>): they return, keep the terms finite, leave no new variable unbound,
  and enqueue more than they found only when they lowered the rank.\<close>

theorem unify_returns:
  assumes "call_settles f P call" "a \<in> P" "b \<in> P"
    and "finite_terms s" "occurs_mode s \<noteq> Occurs_never" "canon a" "canon b"
  shows "\<exists>n r. \<forall>m\<ge>n. unify call m a b s = Some r"
proof -
  have fv: "finite_val f P call a t" "finite_val f P call b t" if "lstore t = lstore s" "occurs_mode t = occurs_mode s" for t
    using assms finite_terms_cong [OF that(1)] that by (simp_all add: finite_val_def mentioned_def)
  have "\<exists>n r. unify call n a b s = Some r"
  proof (cases "unify_depth s > 0")
    case True
    then show ?thesis using unify_internal_total [OF assms(1) refl fv [OF refl refl]] by (simp add: unify_def)
  next
    case False
    let ?s = "s\<lparr> unify_depth := unify_depth s + 1 \<rparr>"
    have fs: "finite_val f P call a ?s" "finite_val f P call b ?s" by (rule fv, simp_all)+
    obtain n ok s2 where i: "unify_internal call n a b ?s = Some (ok, s2)"
      using unify_internal_total [OF assms(1) refl fs] by auto
    have "\<exists>m q. ok \<longrightarrow> drain_propagators call m s2 = Some q"
    proof (cases ok)
      case True
      have "settles f P call ?s s2" by (rule returns.unify_internal [OF i _ fs]) (simp add: True)
      then have "settles_to P ?s s2" using fs(1) by (simp add: settles_def finite_val_def)
      then have "finite_terms s2" "occurs_mode s2 \<noteq> Occurs_never" using assms(5) by (simp_all add: settles_to_def)
      then show ?thesis using drain_total [OF assms(1)] by blast
    qed simp
    then obtain m q where d: "ok \<Longrightarrow> drain_propagators call m s2 = Some q" by blast
    have "unify call (max n m) a b s \<noteq> None"
      using False unify_internal_mono [OF i, of "max n m"] drain_mono [OF d, of "max n m"]
      by (cases q; cases ok) (auto simp: unify_def Let_def split: option.splits)
    then show ?thesis by blast
  qed
  then show ?thesis using unify_mono by blast
qed

section \<open>Marks and unwinding as opcodes\<close>

lemma encode_i64_fixnum: "encode_i64 v = Inr m \<Longrightarrow> is_boxed m \<and> tag m = Fixnum_tag"
  by (auto simp: encode_i64_def split: if_splits)

text \<open>The mark that the trail-mark opcode pushes is the one its unwind-trail opcode needs: however
  the machine ran in between, popping that mark and unwinding pushes nil and leaves
  the objects that existed at the mark, both constraint stores and the trail as they were.\<close>

lemma unwind_to_mark:
  assumes "op_trail_mark st s = Inr (st @ [m])" "length (trail_stack s) < 2 ^ 64" "trailed_run s t" "bounds_ok s"
  shows "\<exists>t'. op_unwind_trail (st' @ [m]) t = (Inr (st' @ [Nil_val]), t') \<and> same_on (dom (lstore s)) t' s"
proof -
  have m: "encode_i64 (of_nat (length (trail_stack s))) = Inr m"
    using assms(1) by (auto simp: op_trail_mark_def split: sum.splits)
  have "unat (of_nat (length (trail_stack s)) :: u64) = length (trail_stack s)"
    using assms(2) by (simp add: unsigned_of_nat take_bit_nat_eq_self_iff)
  then show ?thesis
    using encode_i64_fixnum [OF m] decode_encode_i64 [OF m] trailed_run_undoable [OF assms(3,4)]
    by (simp add: op_unwind_trail_def pop_val_def undoable_def)
qed

section \<open>Witnesses\<close>

text \<open>The terms \<open>(x . 1)\<close>, \<open>(2 . 3)\<close> and \<open>(2 . y)\<close>, and hooks that succeed.\<close>

definition sample_terms :: logic_vm where
  "sample_terms = logic_vm0\<lparr> lstore := [1 \<mapsto> LogicVar_obj None ''x'' [], 2 \<mapsto> LogicVar_obj None ''y'' [],
     3 \<mapsto> Cons_obj (box HeapObject_tag 1) (box Fixnum_tag 1), 4 \<mapsto> Cons_obj (box Fixnum_tag 2) (box Fixnum_tag 3),
     5 \<mapsto> Cons_obj (box Fixnum_tag 2) (box HeapObject_tag 2)] \<rparr>"

definition call_ok :: run_proc where
  "call_ok p args s = Some (Inr True_val, s)"

lemma fuel_6: "(6 :: nat) = Suc (Suc (Suc (Suc (Suc (Suc 0)))))"
  by simp

lemmas unify_steps = unify_def sample_terms_def logic_vm0_def fuel_6 as_logic_var_def as_cons_def lookup_def
  as_vector_def as_compound_def unbound_def PAYLOAD_MASK_def box_inject Let_def bind_checked_def merge_domains_def
  check_domain_def fire_attr_hooks_def bind_var_def push_trail_def put_object_def trail_entry0_def get_domain_def
  term_parts_def

lemma sample_object:
  assumes "lookup sample_terms v = Some ob"
  obtains x y where "ob = Cons_obj x y" "as_cons sample_terms x = None" "as_cons sample_terms y = None"
    | k where "ob = LogicVar_obj None k []"
proof -
  have "as_cons sample_terms (box HeapObject_tag i) = None" if "i \<in> {1, 2}" for i
    using that by (auto simp: as_cons_def lookup_def sample_terms_def PAYLOAD_MASK_def)
  moreover have "as_cons sample_terms (box Fixnum_tag i) = None" for i
    by (simp add: as_cons_def lookup_def)
  ultimately show thesis using assms that by (auto simp: lookup_def sample_terms_def split: if_splits)
qed

lemma canon_box [simp]: "canon (box t p)"
  by (simp add: canon_def is_heap_ref_def)

lemma sample_canon: "canon_store sample_terms"
  by (auto simp: canon_store_def sample_terms_def logic_vm0_def split: if_splits)

lemma sample_chain: "chain_ok sample_terms"
proof -
  have "deref 1 sample_terms v \<noteq> None" for v
    by (auto simp: as_iff elim: sample_object split: option.splits)
  then show ?thesis using sample_canon unfolding chain_ok_def by blast
qed

lemma subterms_of:
  assumes "lookup s v = Some ob"
  shows "ob = Cons_obj x y \<Longrightarrow> subterms s v = [x, y] \<and> as_cons s v = Some (x, y)"
    and "ob = LogicVar_obj None k as \<Longrightarrow> subterms s v = []"
  using assms by (simp_all add: subterms_def term_parts_def as_logic_var_def as_cons_def as_vector_def as_compound_def)

lemma sample_finite: "finite_terms sample_terms"
proof -
  have "as_cons sample_terms c = None \<and> as_cons sample_terms v \<noteq> None" if c: "c \<in> set (subterms sample_terms v)" for c v
  proof -
    obtain ob where ob: "lookup sample_terms v = Some ob"
      using c by (cases "lookup sample_terms v")
        (auto simp: subterms_def term_parts_def as_logic_var_def as_cons_def as_vector_def as_compound_def)
    then show ?thesis
      by (rule sample_object) (use c subterms_of [OF ob] in auto)
  qed
  then have "child sample_terms \<subseteq> measure (\<lambda>v. if as_cons sample_terms v = None then 0 else 1)"
    by (auto simp: child_def)
  then have "wf (child sample_terms)" by (rule wf_subset [OF wf_measure])
  moreover have "finite (dom (lstore sample_terms))" by (simp add: sample_terms_def)
  ultimately show ?thesis using sample_canon by (simp add: finite_terms_def)
qed

lemma call_ok_simps: "call_trails call_ok" "call_narrows call_ok"
  by (auto simp: call_trails_def call_narrows_def call_ok_def undoable_none narrows_frame)

text \<open>A propagator that gives the variable \<open>y\<close> a domain when it has none, and then runs again.\<close>

definition narrow_once :: run_proc where
  "narrow_once p args s =
     (if get_domain (constraints s) 2 = None
      then Some (Inr True_val, trail_set_domain 2 (DZ \<lparr> z_lo = 0, z_hi = 9 \<rparr>) (enqueue_propagator p s))
      else Some (Inr True_val, s))"

definition undomained :: ranking where
  "undomained st c r = (if get_domain c 2 = None then 1 else 0)"

lemma trail_set_domain_get: "get_domain (constraints (trail_set_domain i d s)) i = Some d"
  by (simp add: trail_set_domain_def Let_def get_domain_def set_domain_no_trail_def push_trail_def)

lemma narrow_once_settles: "call_settles undomained P narrow_once"
  unfolding call_settles_def
proof (intro allI impI)
  fix p :: lispval and args s assume f: "finite_terms s" "occurs_mode s \<noteq> Occurs_never"
  show "\<exists>r s'. narrow_once p args s = Some (r, s') \<and> settles_to P s s' \<and> (rank_of undomained s' < rank_of undomained s
      \<or> rank_of undomained s' = rank_of undomained s \<and> length (prop_queue s') \<le> length (prop_queue s))"
  proof (cases "get_domain (constraints s) 2")
    case None
    let ?s = "trail_set_domain 2 (DZ \<lparr> z_lo = 0, z_hi = 9 \<rparr>) (enqueue_propagator p s)"
    have "settles_to P s ?s" by (rule settles_to_cong [OF f(1)]) simp_all
    moreover have "rank_of undomained ?s < rank_of undomained s"
      by (simp add: rank_of_def undomained_def trail_set_domain_get None)
    ultimately show ?thesis using None by (simp add: narrow_once_def)
  next
    case (Some d)
    then show ?thesis using settles_to_refl [OF f(1)] by (simp add: narrow_once_def)
  qed
qed

lemma unify_failure_restores_witness:
  "\<exists>s'. unify call_ok 6 (box HeapObject_tag 3) (box HeapObject_tag 4) sample_terms = Some (False, s')
     \<and> same_on {1, 2, 3, 4, 5} s' sample_terms"
proof -
  obtain s' where u: "unify call_ok 6 (box HeapObject_tag 3) (box HeapObject_tag 4) sample_terms = Some (False, s')"
    by (simp add: unify_steps)
  have "bounds_ok sample_terms" "unify_depth sample_terms = 0" by (simp_all add: bounds_ok_def sample_terms_def logic_vm0_def)
  moreover have "dom (lstore sample_terms) = {1, 2, 3, 4, 5}" by (auto simp: sample_terms_def)
  ultimately show ?thesis using u unify_failure_restores [OF call_ok_simps(1) _ _ u] by auto
qed

lemma unify_sound_witness:
  "\<exists>s'. unify call_ok 6 (box HeapObject_tag 3) (box HeapObject_tag 5) sample_terms = Some (True, s')
     \<and> as_logic_var s' (box HeapObject_tag 1) = Some (Some (box Fixnum_tag 2), ''x'', [])
     \<and> same_term s' (box HeapObject_tag 3) (box HeapObject_tag 5)"
proof -
  have "\<exists>s'. unify call_ok 6 (box HeapObject_tag 3) (box HeapObject_tag 5) sample_terms = Some (True, s')
     \<and> as_logic_var s' (box HeapObject_tag 1) = Some (Some (box Fixnum_tag 2), ''x'', [])"
    by (simp add: unify_steps)
  then obtain s' where u: "unify call_ok 6 (box HeapObject_tag 3) (box HeapObject_tag 5) sample_terms = Some (True, s')"
    and x: "as_logic_var s' (box HeapObject_tag 1) = Some (Some (box Fixnum_tag 2), ''x'', [])" by blast
  show ?thesis using unify_sound [OF call_ok_simps(2) sample_chain _ _ u] u x by simp
qed

lemma unify_returns_witness:
  "\<exists>n r. \<forall>m\<ge>n. unify narrow_once m (box HeapObject_tag 3) (box HeapObject_tag 5)
     (sample_terms\<lparr> prop_queue := [box HeapObject_tag 9] \<rparr>) = Some r"
proof (rule unify_returns [OF narrow_once_settles, where P = UNIV])
  show "finite_terms (sample_terms\<lparr> prop_queue := [box HeapObject_tag 9] \<rparr>)"
    using sample_finite finite_terms_cong [of "sample_terms\<lparr> prop_queue := [box HeapObject_tag 9] \<rparr>" sample_terms] by simp
qed (simp_all add: sample_terms_def logic_vm0_def)

lemma unwind_to_mark_witness:
  "\<exists>t'. op_unwind_trail [True_val, box Fixnum_tag 0] (bind_var (box HeapObject_tag 1) True_val sample_terms)
      = (Inr [True_val, Nil_val], t') \<and> same_on {1, 2, 3, 4, 5} t' sample_terms"
proof -
  have m: "op_trail_mark [] sample_terms = Inr ([] @ [box Fixnum_tag 0])"
    by (simp add: op_trail_mark_def encode_i64_def sample_terms_def logic_vm0_def FIXNUM_MIN_def FIXNUM_MAX_def)
  have v: "as_logic_var sample_terms (box HeapObject_tag 1) = Some (None, ''x'', [])"
    by (simp add: as_logic_var_def lookup_def sample_terms_def PAYLOAD_MASK_def)
  have "dom (lstore sample_terms) = {1, 2, 3, 4, 5}" by (auto simp: sample_terms_def)
  then show ?thesis
    using unwind_to_mark [OF m _ trailed_run.step [OF trailed_run.stop trailed_step.bind [OF v]], of "[True_val]" True_val]
    by (simp add: sample_terms_def logic_vm0_def bounds_ok_def)
qed

end
