(* ===== verification/SExpr.thy ===== *)
theory SExpr
  imports Source
begin

text \<open>
  S-expressions, \<^verbatim>\<open>eta/core/src/eta/reader/parser.h\<close> and \<^verbatim>\<open>sexpr_utils.h\<close>: what the parser builds
  and what the expander and the module linker read. Owned pointers are the subterms themselves,
  so that a deep copy is the value. A dotted list carries its tail.
\<close>

datatype number = Int_num i64 | Dbl_num u64

datatype quote_kind = Quote_form | Quasiquote_form | Unquote_form | Unquote_splicing_form

datatype sexpr =
    Nil_sx span
  | Bool_sx span bool
  | Char_sx span u32
  | String_sx span string
  | Symbol_sx span string
  | Number_sx span number
  | List_sx span "sexpr list" "sexpr option"
  | Vector_sx span "sexpr list"
  | ByteVector_sx span "u8 list"
  | ReaderForm_sx span quote_kind sexpr
  | ModuleForm_sx span string "string list" "sexpr list"

fun sx_span :: "sexpr \<Rightarrow> span" where
  "sx_span (Nil_sx s) = s"
| "sx_span (Bool_sx s _) = s"
| "sx_span (Char_sx s _) = s"
| "sx_span (String_sx s _) = s"
| "sx_span (Symbol_sx s _) = s"
| "sx_span (Number_sx s _) = s"
| "sx_span (List_sx s _ _) = s"
| "sx_span (Vector_sx s _) = s"
| "sx_span (ByteVector_sx s _) = s"
| "sx_span (ReaderForm_sx s _ _) = s"
| "sx_span (ModuleForm_sx s _ _ _) = s"

text \<open>Where an imported name comes from (\<^verbatim>\<open>module_linker.h\<close>).\<close>

record import_origin =
  from_module :: string
  remote_name :: string
  origin_where :: span

definition as_symbol :: "sexpr \<Rightarrow> (span \<times> string) option" where
  "as_symbol e = (case e of Symbol_sx s n \<Rightarrow> Some (s, n) | _ \<Rightarrow> None)"

definition as_list :: "sexpr \<Rightarrow> (span \<times> sexpr list \<times> sexpr option) option" where
  "as_list e = (case e of List_sx s es t \<Rightarrow> Some (s, es, t) | _ \<Rightarrow> None)"

definition is_symbol_named :: "sexpr \<Rightarrow> string \<Rightarrow> bool" where
  "is_symbol_named e n = (case as_symbol e of Some (_, m) \<Rightarrow> m = n | None \<Rightarrow> False)"

text \<open>\<^verbatim>\<open>deep_copy\<close>: a new tree of the same nodes.\<close>

fun deep_copy :: "sexpr \<Rightarrow> sexpr" where
  "deep_copy (List_sx s es t) = List_sx s (map deep_copy es) (map_option deep_copy t)"
| "deep_copy (Vector_sx s es) = Vector_sx s (map deep_copy es)"
| "deep_copy (ReaderForm_sx s k e) = ReaderForm_sx s k (deep_copy e)"
| "deep_copy (ModuleForm_sx s n ex body) = ModuleForm_sx s n ex (map deep_copy body)"
| "deep_copy e = e"

lemma deep_copy_id: "deep_copy e = e"
  by (induction e rule: deep_copy.induct) (auto simp: map_idI split: option.split elim!: option.set_cases intro: option.map_ident_strong)

lemma as_symbol_Some [simp]: "as_symbol e = Some (s, n) \<longleftrightarrow> e = Symbol_sx s n"
  by (cases e) (auto simp: as_symbol_def)

lemma as_list_Some [simp]: "as_list e = Some (s, es, t) \<longleftrightarrow> e = List_sx s es t"
  by (cases e) (auto simp: as_list_def)

end
