(* ===== verification/ModuleLinker.thy ===== *)
theory ModuleLinker
  imports SExpr "HOL-Library.AList"
begin

text \<open>
  The module linker, \<^verbatim>\<open>eta/core/src/eta/reader/module_linker.{h,cpp}\<close>: indexing of module forms,
  import clauses, cycle detection, and the resolution of imports to the definitions they name.
  An unordered map is an association list and an unordered set a list without duplicates, in the
  order in which the container is iterated; every theorem holds for every such order. A step
  returns the error it stops with, if any, and the state it leaves, since an error keeps the
  tables written so far.
\<close>

section \<open>Tables\<close>

datatype link_error_kind = UnknownModule | ExportOfUnknownName | ConflictingImport | NameNotExported
  | DuplicateModule | CircularDependency

record link_error =
  le_kind :: link_error_kind
  le_span :: span
  le_message :: string

definition link_err :: "link_error_kind \<Rightarrow> span \<Rightarrow> string \<Rightarrow> link_error" where
  "link_err k s m = \<lparr> le_kind = k, le_span = s, le_message = m \<rparr>"

datatype module_state = Indexed | Linked

record module_table =
  mt_name :: string
  defined :: "string list"
  exports :: "string list"
  visible :: "string list"
  define_spans :: "(string \<times> span) list"
  export_spans :: "(string \<times> span) list"
  import_origins :: "(string \<times> import_origin) list"
  mt_state :: module_state

definition new_module_table :: "string \<Rightarrow> module_table" where
  "new_module_table n = \<lparr> mt_name = n, defined = [], exports = [], visible = [], define_spans = [],
     export_spans = [], import_origins = [], mt_state = Indexed \<rparr>"

datatype import_kind = Plain | Only | Except | Rename | Prefix

record import_spec =
  is_kind :: import_kind
  is_module :: string
  is_ids :: "string list"
  is_renames :: "(string \<times> string) list"
  is_prefix :: string
  is_span :: span

definition new_spec :: "import_kind \<Rightarrow> string \<Rightarrow> span \<Rightarrow> import_spec" where
  "new_spec k m s = \<lparr> is_kind = k, is_module = m, is_ids = [], is_renames = [], is_prefix = '''', is_span = s \<rparr>"

record pending_import =
  pi_target :: string
  pi_spec :: import_spec
  pi_where :: span

record linker =
  modules :: "(string \<times> module_table) list"
  pending :: "(string \<times> pending_import list) list"

definition new_linker :: linker where
  "new_linker = \<lparr> modules = [], pending = [] \<rparr>"

text \<open>Insertion into a set or a map that keeps what is there (\<^verbatim>\<open>insert\<close>, \<^verbatim>\<open>emplace\<close>).\<close>

definition set_insert :: "'a \<Rightarrow> 'a list \<Rightarrow> 'a list" where
  "set_insert x xs = (if x \<in> set xs then xs else xs @ [x])"

definition emplace_new :: "'a \<Rightarrow> 'b \<Rightarrow> ('a \<times> 'b) list \<Rightarrow> ('a \<times> 'b) list" where
  "emplace_new k v m = (if k \<in> fst ` set m then m else m @ [(k, v)])"

text \<open>A loop over a list that stops at the first error.\<close>

fun each :: "('a \<Rightarrow> 's \<Rightarrow> link_error option \<times> 's) \<Rightarrow> 'a list \<Rightarrow> 's \<Rightarrow> link_error option \<times> 's" where
  "each f [] s = (None, s)"
| "each f (x # xs) s = (case f x s of (Some e, s') \<Rightarrow> (Some e, s') | (None, s') \<Rightarrow> each f xs s')"

definition get_module :: "linker \<Rightarrow> string \<Rightarrow> module_table option" where
  "get_module l n = map_of (modules l) n"

section \<open>Indexing\<close>

definition ensure_unique_module_name :: "linker \<Rightarrow> string \<Rightarrow> span \<Rightarrow> link_error option" where
  "ensure_unique_module_name l n s =
     (if n \<in> fst ` set (modules l) then Some (link_err DuplicateModule s (''duplicate module: '' @ n)) else None)"

definition symbol_names :: "sexpr list \<Rightarrow> string list" where
  "symbol_names es = List.map_filter (\<lambda>e. map_option snd (as_symbol e)) es"

definition rename_pair :: "sexpr \<Rightarrow> (string \<times> string) option" where
  "rename_pair e =
     (case as_list e of Some (_, [x, y], _) \<Rightarrow>
        (case (as_symbol x, as_symbol y) of (Some (_, o'), Some (_, n)) \<Rightarrow> Some (o', n) | _ \<Rightarrow> None)
      | _ \<Rightarrow> None)"

definition nth_symbol :: "sexpr list \<Rightarrow> nat \<Rightarrow> string option" where
  "nth_symbol es i = (if i < length es then map_option snd (as_symbol (es ! i)) else None)"

definition parse_import_clause :: "sexpr \<Rightarrow> link_error + import_spec" where
  "parse_import_clause c =
     (case as_symbol c of Some (s, n) \<Rightarrow> Inr (new_spec Plain n s)
      | None \<Rightarrow>
        (case as_list c of
           Some (sp, h # es, _) \<Rightarrow>
             (case as_symbol h of
                None \<Rightarrow> Inl (link_err UnknownModule sp ''import: invalid clause'')
              | Some (hs, kw) \<Rightarrow>
                let bad = (\<lambda>m. Inl (link_err UnknownModule sp m)); m = nth_symbol (h # es) 1 in
                if kw = ''only'' then
                  (case m of None \<Rightarrow> bad ''(only m ids...) requires module symbol''
                   | Some n \<Rightarrow> Inr ((new_spec Only n sp)\<lparr> is_ids := symbol_names (drop 1 es) \<rparr>))
                else if kw = ''except'' then
                  (case m of None \<Rightarrow> bad ''(except m ids...) requires module symbol''
                   | Some n \<Rightarrow> Inr ((new_spec Except n sp)\<lparr> is_ids := symbol_names (drop 1 es) \<rparr>))
                else if kw = ''rename'' then
                  (case m of None \<Rightarrow> bad ''(rename m (old new) ...) requires module symbol''
                   | Some n \<Rightarrow> Inr ((new_spec Rename n sp)\<lparr> is_renames := List.map_filter rename_pair (drop 1 es) \<rparr>))
                else if kw = ''prefix'' then
                  (if length (h # es) \<noteq> 3 then bad ''(prefix mod prefix-string) requires exactly 2 arguments''
                   else case m of None \<Rightarrow> bad ''(prefix mod pfx) requires module symbol''
                   | Some n \<Rightarrow>
                     (case nth_symbol (h # es) 2 of None \<Rightarrow> bad ''(prefix mod pfx) requires prefix symbol''
                      | Some p \<Rightarrow> Inr ((new_spec Prefix n sp)\<lparr> is_prefix := p \<rparr>)))
                else if es = [] then Inr (new_spec Plain kw sp)
                else bad ''import: unknown clause kind'')
         | _ \<Rightarrow> Inl (link_err UnknownModule (sx_span c) ''import: invalid clause'')))"

definition add_pending :: "string \<Rightarrow> pending_import \<Rightarrow> linker \<Rightarrow> linker" where
  "add_pending n p l =
     l\<lparr> pending := (case map_of (pending l) n of
          None \<Rightarrow> pending l @ [(n, [p])]
        | Some ps \<Rightarrow> AList.update n (ps @ [p]) (pending l)) \<rparr>"

definition parse_import_form :: "string \<Rightarrow> sexpr list \<Rightarrow> linker \<Rightarrow> link_error option \<times> linker" where
  "parse_import_form n clauses =
     each (\<lambda>c l. case parse_import_clause c of Inl e \<Rightarrow> (Some e, l)
       | Inr spec \<Rightarrow> (None, add_pending n \<lparr> pi_target = n, pi_spec = spec, pi_where = is_span spec \<rparr> l)) clauses"

definition add_export :: "module_table \<Rightarrow> sexpr \<Rightarrow> module_table" where
  "add_export mt e =
     (case as_symbol e of None \<Rightarrow> mt
      | Some (sp, n) \<Rightarrow> mt\<lparr> exports := set_insert n (exports mt), export_spans := emplace_new n sp (export_spans mt) \<rparr>)"

definition scan_form :: "sexpr \<Rightarrow> module_table \<times> linker \<Rightarrow> link_error option \<times> module_table \<times> linker" where
  "scan_form f = (\<lambda>(mt, l).
     case as_list f of
       Some (_, h # es, _) \<Rightarrow>
         (case as_symbol h of None \<Rightarrow> (None, mt, l)
          | Some (_, kw) \<Rightarrow>
            if kw = ''define'' then
              (None, if length (h # es) \<ge> 3 then
                       (case as_symbol (hd es) of None \<Rightarrow> mt
                        | Some (sp, n) \<Rightarrow> mt\<lparr> defined := set_insert n (defined mt), define_spans := emplace_new n sp (define_spans mt) \<rparr>)
                     else mt, l)
            else if kw = ''export'' then (None, foldl add_export mt es, l)
            else if kw = ''import'' then
              (let (r, l') = parse_import_form (mt_name mt) es l in (r, mt, l'))
            else (None, mt, l))
     | _ \<Rightarrow> (None, mt, l))"

definition scan_module_body :: "sexpr list \<Rightarrow> module_table \<times> linker \<Rightarrow> link_error option \<times> module_table \<times> linker" where
  "scan_module_body es = each scan_form (drop 2 es)"

definition index_form :: "sexpr \<Rightarrow> linker \<Rightarrow> link_error option \<times> linker" where
  "index_form f l =
     (case as_list f of None \<Rightarrow> (None, l)
      | Some (sp, es, _) \<Rightarrow>
        if length es < 2 then (None, l)
        else if \<not> is_symbol_named (es ! 0) ''module'' then (None, l)
        else (case as_symbol (es ! 1) of
            None \<Rightarrow> (Some (link_err UnknownModule sp ''module: invalid module name (symbol required)''), l)
          | Some (nsp, n) \<Rightarrow>
            (case ensure_unique_module_name l n nsp of Some e \<Rightarrow> (Some e, l)
             | None \<Rightarrow>
               (case scan_module_body es (new_module_table n, l) of
                  (Some e, _, l') \<Rightarrow> (Some e, l')
                | (None, mt, l') \<Rightarrow> (None, l'\<lparr> modules := emplace_new n mt (modules l') \<rparr>)))))"

definition index_modules :: "sexpr list \<Rightarrow> linker \<Rightarrow> link_error option \<times> linker" where
  "index_modules forms l = each index_form forms new_linker"

definition index_compiled_module_exports :: "string \<Rightarrow> string list \<Rightarrow> linker \<Rightarrow> link_error option \<times> linker" where
  "index_compiled_module_exports n es l =
     (case ensure_unique_module_name l n default_span of Some e \<Rightarrow> (Some e, l)
      | None \<Rightarrow> (None, l\<lparr> modules := emplace_new n
          ((new_module_table n)\<lparr> exports := foldl (\<lambda>xs e. if e \<noteq> '''' then set_insert e xs else xs) [] es \<rparr>) (modules l) \<rparr>))"

section \<open>Cycle detection\<close>

datatype visit_state = Visiting | Visited

record detector =
  states :: "string \<rightharpoonup> visit_state"
  path :: "string list"
  topo_order :: "string list"

definition new_detector :: detector where
  "new_detector = \<lparr> states = Map.empty, path = [], topo_order = [] \<rparr>"

definition cycle_text :: "string list \<Rightarrow> string \<Rightarrow> string" where
  "cycle_text p n = concat (map (\<lambda>x. x @ '' -> '') (dropWhile (\<lambda>x. x \<noteq> n) p)) @ n"

definition enter_module :: "string \<Rightarrow> detector \<Rightarrow> detector" where
  "enter_module n d = d\<lparr> states := (states d)(n \<mapsto> Visiting), path := path d @ [n] \<rparr>"

definition leave_module :: "string \<Rightarrow> detector \<Rightarrow> detector" where
  "leave_module n d = d\<lparr> path := butlast (path d), states := (states d)(n \<mapsto> Visited), topo_order := topo_order d @ [n] \<rparr>"

text \<open>The modules that the imports of a module name, in order.\<close>

definition import_targets :: "(string \<times> pending_import list) list \<Rightarrow> string \<Rightarrow> string list" where
  "import_targets ps n = (case map_of ps n of None \<Rightarrow> [] | Some is \<Rightarrow> map (\<lambda>i. is_module (pi_spec i)) is)"

text \<open>
  The recursion is bounded by the number of modules not visited yet; \<open>None\<close> means that the fuel
  ran out, which it never does below.
\<close>

fun each_opt :: "('a \<Rightarrow> 's \<Rightarrow> (link_error option \<times> 's) option) \<Rightarrow> 'a list \<Rightarrow> 's \<Rightarrow> (link_error option \<times> 's) option" where
  "each_opt f [] s = Some (None, s)"
| "each_opt f (x # xs) s =
     (case f x s of None \<Rightarrow> None | Some (Some e, s') \<Rightarrow> Some (Some e, s') | Some (None, s') \<Rightarrow> each_opt f xs s')"

fun visit_module :: "(string \<times> pending_import list) list \<Rightarrow> nat \<Rightarrow> string \<Rightarrow> detector \<Rightarrow> (link_error option \<times> detector) option" where
  "visit_module ps 0 n d = None"
| "visit_module ps (Suc k) n d =
     (case states d n of
        Some Visiting \<Rightarrow> Some (Some (link_err CircularDependency default_span
            (''Circular module dependency detected: '' @ cycle_text (path d) n)), d)
      | Some Visited \<Rightarrow> Some (None, d)
      | None \<Rightarrow>
        (case each_opt (visit_module ps k) (import_targets ps n) (enter_module n d) of
           None \<Rightarrow> None
         | Some (Some e, d') \<Rightarrow> Some (Some e, d')
         | Some (None, d') \<Rightarrow> Some (None, leave_module n d')))"

definition module_names :: "linker \<Rightarrow> string list" where
  "module_names l = remdups (map fst (modules l) @ concat (map (\<lambda>(n, is). n # map (\<lambda>i. is_module (pi_spec i)) is) (pending l)))"

definition detect_cycles :: "linker \<Rightarrow> (link_error option \<times> detector) option" where
  "detect_cycles l = each_opt (visit_module (pending l) (Suc (length (module_names l)))) (map fst (modules l)) new_detector"

section \<open>Linking\<close>

definition all_exports :: "module_table \<Rightarrow> (string \<times> string) list" where
  "all_exports src = map (\<lambda>x. (x, x)) (exports src)"

definition not_exported :: "module_table \<Rightarrow> span \<Rightarrow> string \<Rightarrow> string \<Rightarrow> link_error" where
  "not_exported src wh n ctx = link_err NameNotExported wh
     (''import '' @ ctx @ '': name '' @ [CHR 39] @ n @ [CHR 39] @ '' is not exported by module '' @ [CHR 39] @ mt_name src @ [CHR 39])"

definition rename_step :: "span \<Rightarrow> string \<times> string \<Rightarrow> (string \<times> string) list \<Rightarrow> link_error option \<times> (string \<times> string) list" where
  "rename_step wh = (\<lambda>(old, new) m.
     case map_of m old of
       None \<Rightarrow> (Some (link_err NameNotExported wh (''rename: name '' @ [CHR 39] @ old @ [CHR 39] @ '' is not in the current import set'')), m)
     | Some remote \<Rightarrow>
       (let m' = AList.delete old m in
        if new \<in> fst ` set m' then (Some (link_err ConflictingImport wh (''rename produces duplicate local name '' @ [CHR 39] @ new @ [CHR 39])), m')
        else (None, m' @ [(new, remote)])))"

text \<open>The local names an import clause brings in, each with the name it has in the source module.\<close>

definition clause_map :: "pending_import \<Rightarrow> module_table \<Rightarrow> link_error option \<times> (string \<times> string) list" where
  "clause_map p src =
     (let spec = pi_spec p; wh = pi_where p; m = all_exports src;
          ensure = (\<lambda>ctx n m. if n \<in> set (exports src) then (None, m) else (Some (not_exported src wh n ctx), m))
      in case is_kind spec of
           Plain \<Rightarrow> (None, m)
         | Only \<Rightarrow>
           each (\<lambda>i m'. case ensure ''only'' i m' of (Some e, m') \<Rightarrow> (Some e, m') | (None, m') \<Rightarrow> (None, emplace_new i i m'))
             (is_ids spec) []
         | Except \<Rightarrow> (None, foldl (\<lambda>m i. AList.delete i m) m (is_ids spec))
         | Rename \<Rightarrow>
           (case each (\<lambda>(old, new). ensure ''rename'' old) (is_renames spec) m of
              (Some e, m') \<Rightarrow> (Some e, m')
            | (None, m') \<Rightarrow> each (rename_step wh) (is_renames spec) m')
         | Prefix \<Rightarrow> (None, foldl (\<lambda>m' (loc, remote). emplace_new (is_prefix spec @ loc) remote m') [] m))"

text \<open>Where a name that a module offers is defined, as far as the module knows.\<close>

definition canonical_origin :: "module_table \<Rightarrow> string \<Rightarrow> span \<Rightarrow> import_origin" where
  "canonical_origin src remote wh =
     (case map_of (import_origins src) remote of
        Some t \<Rightarrow> t\<lparr> origin_where := wh \<rparr>
      | None \<Rightarrow> \<lparr> from_module = mt_name src, remote_name = remote, origin_where = wh \<rparr>)"

definition commit_name :: "module_table \<Rightarrow> span \<Rightarrow> string \<times> string \<Rightarrow> module_table \<Rightarrow> link_error option \<times> module_table" where
  "commit_name src wh = (\<lambda>(loc, remote) tgt.
     if loc \<in> set (defined tgt) then
       (Some (link_err ConflictingImport wh (''imported name '' @ [CHR 39] @ loc @ [CHR 39]
          @ '' conflicts with local define in module '' @ [CHR 39] @ mt_name tgt @ [CHR 39])), tgt)
     else
       let c = canonical_origin src remote wh in
       (case map_of (import_origins tgt) loc of
          Some prev \<Rightarrow>
            if from_module prev = from_module c \<and> remote_name prev = remote_name c then (None, tgt)
            else (Some (link_err ConflictingImport wh (''conflicting imports for '' @ [CHR 39] @ loc @ [CHR 39] @ '' from ''
              @ [CHR 39] @ from_module prev @ [CHR 39] @ '' and '' @ [CHR 39] @ from_module c @ [CHR 39])), tgt)
        | None \<Rightarrow> (None, tgt\<lparr> visible := set_insert loc (visible tgt), import_origins := import_origins tgt @ [(loc, c)] \<rparr>)))"

definition link_import :: "(string \<times> module_table) list \<Rightarrow> pending_import \<Rightarrow> module_table \<Rightarrow> link_error option \<times> module_table" where
  "link_import ms p tgt =
     (case map_of ms (is_module (pi_spec p)) of
        None \<Rightarrow> (Some (link_err UnknownModule (pi_where p) (''unknown module in import: '' @ is_module (pi_spec p))), tgt)
      | Some src \<Rightarrow>
        (case clause_map p src of (Some e, _) \<Rightarrow> (Some e, tgt)
         | (None, m) \<Rightarrow> each (commit_name src (pi_where p)) m tgt))"

definition publish_locals :: "module_table \<Rightarrow> module_table" where
  "publish_locals t = t\<lparr> visible := foldl (\<lambda>v n. set_insert n v) (visible t) (defined t), mt_state := Linked \<rparr>"

definition link_target :: "string \<Rightarrow> linker \<Rightarrow> link_error option \<times> linker" where
  "link_target n l =
     (case map_of (modules l) n of None \<Rightarrow> (None, l)
      | Some tgt \<Rightarrow>
        (case each (link_import (modules l)) (case map_of (pending l) n of None \<Rightarrow> [] | Some is \<Rightarrow> is) tgt of
           (Some e, t) \<Rightarrow> (Some e, l\<lparr> modules := AList.update n t (modules l) \<rparr>)
         | (None, t) \<Rightarrow> (None, l\<lparr> modules := AList.update n (publish_locals t) (modules l) \<rparr>)))"

definition check_exports :: "string \<times> module_table \<Rightarrow> linker \<Rightarrow> link_error option \<times> linker" where
  "check_exports = (\<lambda>(n, mt) l.
     each (\<lambda>(ex, sp) l. if ex \<in> set (visible mt) then (None, l)
       else (Some (link_err ExportOfUnknownName sp (''export of unknown name '' @ [CHR 39] @ ex @ [CHR 39] @ '' in module '' @ n)), l))
       (export_spans mt) l)"

definition link_modules :: "linker \<Rightarrow> (link_error option \<times> linker) option" where
  "link_modules l =
     (case detect_cycles l of None \<Rightarrow> None
      | Some (Some e, _) \<Rightarrow> Some (Some e, l)
      | Some (None, d) \<Rightarrow>
        (case each link_target (topo_order d) l of
           (Some e, l') \<Rightarrow> Some (Some e, l')
         | (None, l') \<Rightarrow> Some (each check_exports (modules l') l')))"

section \<open>The detector finds exactly the cycles\<close>

definition import_edges :: "(string \<times> pending_import list) list \<Rightarrow> (string \<times> string) set" where
  "import_edges ps = {(n, t). t \<in> set (import_targets ps n)}"

lemma each_opt_rel:
  assumes "\<And>s. R s s" "\<And>s t u. R s t \<Longrightarrow> R t u \<Longrightarrow> R s u"
    and "\<And>x s r s'. x \<in> set xs \<Longrightarrow> f x s = Some (r, s') \<Longrightarrow> R s s'"
  shows "each_opt f xs s = Some (r, s') \<Longrightarrow> R s s'"
  using assms(3)
proof (induction xs arbitrary: s)
  case (Cons x xs)
  then obtain e t where x: "f x s = Some (e, t)" by (auto split: option.splits)
  then have "R s t" using Cons.prems(2) [of x s e t] by simp
  moreover have "R t s'" if "e = None"
  proof (rule Cons.IH)
    show "each_opt f xs t = Some (r, s')" using Cons.prems(1) x that by simp
    show "R u u'" if "y \<in> set xs" "f y u = Some (q, u')" for y u q u'
      using Cons.prems(2) [of y u q u'] that by simp
  qed
  ultimately show ?case using Cons.prems(1) x assms(2) by (auto split: option.splits)
qed (simp add: assms(1))

lemma each_opt_total:
  assumes "\<And>x s. x \<in> set xs \<Longrightarrow> Q s \<Longrightarrow> f x s \<noteq> None"
    and "\<And>x s s'. x \<in> set xs \<Longrightarrow> Q s \<Longrightarrow> f x s = Some (None, s') \<Longrightarrow> Q s'"
  shows "Q s \<Longrightarrow> each_opt f xs s \<noteq> None"
  using assms
proof (induction xs arbitrary: s)
  case (Cons x xs)
  obtain e t where x: "f x s = Some (e, t)" using Cons.prems(1) Cons.prems(2) [of x s] by auto
  show ?case
  proof (cases e)
    case None
    then have "Q t" using Cons.prems(3) [of x s t] Cons.prems(1) x by simp
    then have "each_opt f xs t \<noteq> None"
    proof (rule Cons.IH)
      show "f y u \<noteq> None" if "y \<in> set xs" "Q u" for y u using Cons.prems(2) [of y u] that by simp
      show "Q u'" if "y \<in> set xs" "Q u" "f y u = Some (None, u')" for y u u' using Cons.prems(3) [of y u u'] that by simp
    qed
    then show ?thesis using x None by simp
  qed (use x in simp)
qed simp

definition grown :: "detector \<Rightarrow> detector \<Rightarrow> bool" where
  "grown d d' \<longleftrightarrow> dom (states d) \<subseteq> dom (states d')"

lemma visit_grown: "visit_module ps k n d = Some (r, d') \<Longrightarrow> grown d d'"
proof (induction k arbitrary: n d r d')
  case (Suc k)
  show ?case
  proof (cases "states d n")
    case None
    obtain e t where t: "each_opt (visit_module ps k) (import_targets ps n) (enter_module n d) = Some (e, t)"
      using Suc.prems None by (auto split: option.splits)
    have "grown (enter_module n d) t"
      by (rule each_opt_rel [OF _ _ Suc.IH t]) (auto simp: grown_def)
    then have "grown d t" by (auto simp: grown_def enter_module_def)
    then show ?thesis using Suc.prems None t by (auto simp: grown_def leave_module_def split: option.splits)
  next
    case (Some v)
    then show ?thesis using Suc.prems by (cases v) (auto simp: grown_def)
  qed
qed simp

definition unvisited :: "string list \<Rightarrow> detector \<Rightarrow> nat" where
  "unvisited U d = length (filter (\<lambda>x. states d x = None) U)"

lemma unvisited_grown: "grown d d' \<Longrightarrow> unvisited U d' \<le> unvisited U d"
  unfolding unvisited_def grown_def by (induction U) (auto simp: subset_iff dom_def)

lemma unvisited_Cons: "unvisited (x # U) d = (if states d x = None then 1 else 0) + unvisited U d"
  by (simp add: unvisited_def)

lemma unvisited_enter: "n \<in> set U \<Longrightarrow> states d n = None \<Longrightarrow> unvisited U (enter_module n d) < unvisited U d"
proof (induction U)
  case (Cons x U)
  have "unvisited U (enter_module n d) \<le> unvisited U d"
    by (rule unvisited_grown) (auto simp: grown_def enter_module_def)
  moreover have "states (enter_module n d) x = (if x = n then Some Visiting else states d x)"
    by (simp add: enter_module_def)
  ultimately show ?case using Cons by (cases "x = n") (auto simp: unvisited_Cons)
qed simp

lemma visit_total:
  assumes "\<And>x. set (import_targets ps x) \<subseteq> set U"
  shows "unvisited U d < k \<Longrightarrow> n \<in> set U \<Longrightarrow> visit_module ps k n d \<noteq> None"
proof (induction k arbitrary: n d)
  case (Suc k)
  show ?case
  proof (cases "states d n")
    case None
    have "each_opt (visit_module ps k) (import_targets ps n) (enter_module n d) \<noteq> None"
    proof (rule each_opt_total [where Q = "\<lambda>d. unvisited U d < k"])
      show "unvisited U (enter_module n d) < k" using unvisited_enter [OF Suc.prems(2) None] Suc.prems(1) by simp
      show "visit_module ps k x s \<noteq> None" if "x \<in> set (import_targets ps n)" "unvisited U s < k" for x s
        using Suc.IH that assms by blast
      show "unvisited U s' < k" if "unvisited U s < k" "visit_module ps k x s = Some (None, s')" for x s s'
        using unvisited_grown [OF visit_grown [OF that(2)], of U] that(1) by simp
    qed
    then show ?thesis using None by (auto split: option.splits)
  next
    case (Some v)
    then show ?thesis by (cases v) simp_all
  qed
qed simp

lemma detect_cycles_total: "detect_cycles l \<noteq> None"
  unfolding detect_cycles_def
proof (rule each_opt_total [where Q = "\<lambda>d. unvisited (module_names l) d < Suc (length (module_names l))"])
  have "set (import_targets (pending l) x) \<subseteq> set (module_names l)" for x
  proof (cases "map_of (pending l) x")
    case (Some ims)
    then have "(x, ims) \<in> set (pending l)" by (rule map_of_SomeD)
    then show ?thesis using Some by (force simp: import_targets_def module_names_def)
  qed (simp add: import_targets_def)
  note sub = this
  show "visit_module (pending l) (Suc (length (module_names l))) x s \<noteq> None"
    if "x \<in> set (map fst (modules l))" "unvisited (module_names l) s < Suc (length (module_names l))" for x s
  proof (rule visit_total [OF sub that(2)])
    show "x \<in> set (module_names l)" using that(1) unfolding module_names_def set_remdups set_append by blast
  qed
  show "unvisited (module_names l) s < Suc (length (module_names l))" for s :: detector
    by (simp add: unvisited_def le_imp_less_Suc)
  then show "unvisited (module_names l) s' < Suc (length (module_names l))" for s' :: detector .
qed

text \<open>
  The invariant of the search: the nodes being visited are the path, those visited are the order,
  and in the order every import comes before the module that has it.
\<close>

definition search_ok :: "(string \<times> pending_import list) list \<Rightarrow> detector \<Rightarrow> bool" where
  "search_ok ps d \<longleftrightarrow>
     (\<forall>x. states d x = Some Visiting \<longleftrightarrow> x \<in> set (path d)) \<and> (\<forall>x. states d x = Some Visited \<longleftrightarrow> x \<in> set (topo_order d))
     \<and> distinct (topo_order d)
     \<and> (\<forall>i < length (topo_order d). set (import_targets ps (topo_order d ! i)) \<subseteq> set (take i (topo_order d)))"

definition extends_search :: "detector \<Rightarrow> detector \<Rightarrow> bool" where
  "extends_search d d' \<longleftrightarrow> path d' = path d \<and> (\<exists>new. topo_order d' = topo_order d @ new)"

definition chained :: "(string \<times> string) set \<Rightarrow> string list \<Rightarrow> string \<Rightarrow> bool" where
  "chained E p n \<longleftrightarrow> successively (\<lambda>x y. (x, y) \<in> E) (p @ [n])"

lemma each_opt_None_inv:
  assumes "\<And>x s s'. x \<in> set xs \<Longrightarrow> I s \<Longrightarrow> f x s = Some (None, s') \<Longrightarrow> I s' \<and> R s s' \<and> P x s'"
    and "\<And>s. R s s" "\<And>s t u. R s t \<Longrightarrow> R t u \<Longrightarrow> R s u" "\<And>x s s'. P x s \<Longrightarrow> R s s' \<Longrightarrow> P x s'"
  shows "I s \<Longrightarrow> each_opt f xs s = Some (None, s') \<Longrightarrow> I s' \<and> R s s' \<and> (\<forall>x \<in> set xs. P x s')"
  using assms(1)
proof (induction xs arbitrary: s)
  case (Cons x xs)
  obtain t where x: "f x s = Some (None, t)" and t: "each_opt f xs t = Some (None, s')"
    using Cons.prems(2) by (auto split: option.splits)
  have 1: "I t \<and> R s t \<and> P x t" using Cons.prems(3) [of x s t] Cons.prems(1) x by simp
  moreover have "I s' \<and> R t s' \<and> (\<forall>x \<in> set xs. P x s')"
  proof (rule Cons.IH)
    show "I u' \<and> R u u' \<and> P y u'" if "y \<in> set xs" "I u" "f y u = Some (None, u')" for y u u'
      using Cons.prems(3) [of y u u'] that by simp
  qed (use 1 t in auto)
  ultimately show ?case using assms(3,4) by auto
qed (simp add: assms(2))

lemma visit_search_ok:
  "visit_module ps k n d = Some (None, d') \<Longrightarrow> search_ok ps d \<Longrightarrow>
     search_ok ps d' \<and> extends_search d d' \<and> n \<in> set (topo_order d')"
proof (induction k arbitrary: n d d')
  case (Suc k)
  show ?case
  proof (cases "states d n")
    case None
    let ?e = "enter_module n d"
    obtain t where t: "each_opt (visit_module ps k) (import_targets ps n) ?e = Some (None, t)"
      and d': "d' = leave_module n t"
      using Suc.prems(1) None by (auto split: option.splits)
    have n: "n \<notin> set (path d)" "n \<notin> set (topo_order d)" using Suc.prems(2) None unfolding search_ok_def by (metis option.distinct(1))+
    have "search_ok ps ?e" using Suc.prems(2) n by (auto simp: search_ok_def enter_module_def)
    then have T: "search_ok ps t \<and> extends_search ?e t \<and> (\<forall>x \<in> set (import_targets ps n). x \<in> set (topo_order t))"
    proof (rule each_opt_None_inv [where I = "search_ok ps" and R = extends_search and P = "\<lambda>x d. x \<in> set (topo_order d)", rotated -2, OF _ t])
      show "search_ok ps s' \<and> extends_search s s' \<and> x \<in> set (topo_order s')"
        if "search_ok ps s" "visit_module ps k x s = Some (None, s')" for x s s'
        using Suc.IH [OF that(2,1)] .
    qed (auto simp: extends_search_def)
    obtain new where new: "topo_order t = topo_order d @ new" "path t = path d @ [n]"
      using T by (auto simp: extends_search_def enter_module_def)
    have nt: "n \<notin> set (topo_order t)"
      using T new(2) by (auto simp: search_ok_def) (metis in_set_conv_decomp option.inject visit_state.distinct(1))
    have "search_ok ps d'"
    proof -
      have vis: "states t x = Some Visiting \<longleftrightarrow> x = n \<or> x \<in> set (path d)" for x
        using T new(2) by (auto simp: search_ok_def)
      have ord: "set (import_targets ps (topo_order d' ! i)) \<subseteq> set (take i (topo_order d'))"
        if "i < length (topo_order d')" for i
        using T that by (auto simp: d' leave_module_def search_ok_def nth_append less_Suc_eq)
      have "distinct (topo_order d')" using T nt by (simp add: d' leave_module_def search_ok_def)
      moreover have "states d' x = Some Visited \<longleftrightarrow> x \<in> set (topo_order d')" for x
        using T by (auto simp: d' leave_module_def search_ok_def)
      moreover have "states d' x = Some Visiting \<longleftrightarrow> x \<in> set (path d')" for x
        using vis n(1) new(2) by (auto simp: d' leave_module_def)
      ultimately show ?thesis using ord unfolding search_ok_def by blast
    qed
    then show ?thesis using new by (simp add: extends_search_def d' leave_module_def)
  next
    case (Some v)
    then show ?thesis using Suc.prems by (cases v) (auto simp: extends_search_def search_ok_def)
  qed
qed simp

lemma chained_snoc: "chained E (p @ [n]) x \<longleftrightarrow> chained E p n \<and> (n, x) \<in> E"
  unfolding chained_def by (subst successively_append_iff) simp

lemma chained_reach: "chained E p n \<Longrightarrow> x \<in> set p \<Longrightarrow> (x, n) \<in> E\<^sup>+"
proof (induction p arbitrary: n rule: rev_induct)
  case (snoc y p)
  then have c: "chained E p y" "(y, n) \<in> E" by (simp_all add: chained_snoc)
  show ?case
  proof (cases "x = y")
    case False
    then have "(x, y) \<in> E\<^sup>+" using snoc c(1) by simp
    then show ?thesis using c(2) by (rule trancl_into_trancl)
  qed (use c(2) in simp)
qed simp

text \<open>An error names a module that reaches itself, and that the module the search started from reaches.\<close>

lemma each_opt_error:
  assumes "each_opt f xs s = Some (Some e, s')" "I s"
    and "\<And>x s s'. x \<in> set xs \<Longrightarrow> I s \<Longrightarrow> f x s = Some (None, s') \<Longrightarrow> I s'"
  obtains x t where "x \<in> set xs" "I t" "f x t = Some (Some e, s')"
  using assms
proof (induction xs arbitrary: s)
  case (Cons x xs)
  obtain q u where x: "f x s = Some (q, u)" using Cons.prems(2) by (auto split: option.splits)
  show ?case
  proof (cases q)
    case None
    have "I u" using Cons.prems(4) [of x s u] Cons.prems(3) x None by simp
    show ?thesis
    proof (rule Cons.IH [OF _ _ \<open>I u\<close>])
      show thesis if "y \<in> set xs" "I t" "f y t = Some (Some e, s')" for y t using Cons.prems(1) [of y t] that by simp
      show "each_opt f xs u = Some (Some e, s')" using Cons.prems(2) x None by simp
      show "I t'" if "y \<in> set xs" "I t" "f y t = Some (None, t')" for y t t' using Cons.prems(4) [of y t t'] that by simp
    qed
  next
    case (Some e')
    then show ?thesis using Cons.prems(1) [of x s] Cons.prems(2,3) x by simp
  qed
qed simp

lemma visit_error:
  "visit_module ps k n d = Some (Some e, d') \<Longrightarrow> search_ok ps d \<Longrightarrow> chained (import_edges ps) (path d) n
     \<Longrightarrow> le_kind e = CircularDependency \<and> (\<exists>x. (hd (path d @ [n]), x) \<in> (import_edges ps)\<^sup>* \<and> (x, x) \<in> (import_edges ps)\<^sup>+)"
proof (induction k arbitrary: n d d')
  case (Suc k)
  show ?case
  proof (cases "states d n")
    case None
    let ?e = "enter_module n d"
    obtain t where t: "each_opt (visit_module ps k) (import_targets ps n) ?e = Some (Some e, t)"
      using Suc.prems(1) None by (auto split: option.splits)
    have n: "n \<notin> set (path d)" "n \<notin> set (topo_order d)"
      using Suc.prems(2) None unfolding search_ok_def by (metis option.distinct(1))+
    have "search_ok ps ?e" using Suc.prems(2) n by (auto simp: search_ok_def enter_module_def)
    then have I: "search_ok ps ?e \<and> path ?e = path d @ [n]" by (simp add: enter_module_def)
    obtain x u where x: "x \<in> set (import_targets ps n)" "search_ok ps u \<and> path u = path d @ [n]"
      "visit_module ps k x u = Some (Some e, t)"
    proof (rule each_opt_error [where I = "\<lambda>u. search_ok ps u \<and> path u = path d @ [n]", OF t I])
      show "search_ok ps s' \<and> path s' = path d @ [n]"
        if "search_ok ps s \<and> path s = path d @ [n]" "visit_module ps k x s = Some (None, s')" for x s s'
        using visit_search_ok [OF that(2)] that(1) by (simp add: extends_search_def)
    qed blast
    have "chained (import_edges ps) (path u) x"
      using x(1,2) Suc.prems(3) by (simp add: chained_snoc import_edges_def)
    from Suc.IH [OF x(3) _ this] x(2) show ?thesis by (cases "path d") simp_all
  next
    case (Some v)
    show ?thesis
    proof (cases v)
      case Visiting
      then have n: "n \<in> set (path d)" using Suc.prems(2) Some by (simp add: search_ok_def)
      then have "(n, n) \<in> (import_edges ps)\<^sup>+" using chained_reach [OF Suc.prems(3)] by blast
      moreover have "hd (path d @ [n]) \<in> set (path d)" using n by (cases "path d") auto
      then have "(hd (path d @ [n]), n) \<in> (import_edges ps)\<^sup>+" using chained_reach [OF Suc.prems(3)] by blast
      ultimately show ?thesis using Suc.prems(1) Some Visiting by (auto simp: link_err_def dest: trancl_into_rtrancl)
    qed (use Suc.prems(1) Some in simp)
  qed
qed simp

lemma search_descends:
  assumes "search_ok ps d" "(x, y) \<in> (import_edges ps)\<^sup>+" "i < length (topo_order d)" "x = topo_order d ! i"
  shows "\<exists>j < i. y = topo_order d ! j"
proof -
  have "\<exists>j < k. z = topo_order d ! j" if "(w, z) \<in> import_edges ps" "k < length (topo_order d)" "w = topo_order d ! k" for w z k
  proof -
    have "z \<in> set (take k (topo_order d))" using assms(1) that by (auto simp: search_ok_def import_edges_def)
    then show ?thesis using that(2) by (auto simp: in_set_conv_nth)
  qed
  note edge = this
  show ?thesis using assms(2)
  proof (induction rule: trancl_induct)
    case (base y)
    then show ?case using edge assms(3,4) by blast
  next
    case (step y z)
    then obtain j where j: "j < i" "y = topo_order d ! j" by blast
    then obtain k where "k < j" "z = topo_order d ! k" using edge [OF step.hyps(2), of j] assms(3) by auto
    then show ?case using j(1) by (intro exI [of _ k]) simp
  qed
qed

lemma search_no_cycle: "search_ok ps d \<Longrightarrow> x \<in> set (topo_order d) \<Longrightarrow> (x, x) \<notin> (import_edges ps)\<^sup>+"
proof
  assume s: "search_ok ps d" and "x \<in> set (topo_order d)" and c: "(x, x) \<in> (import_edges ps)\<^sup>+"
  then obtain i where i: "i < length (topo_order d)" "x = topo_order d ! i" by (auto simp: in_set_conv_nth)
  from search_descends [OF s c i] obtain j where "j < i" "x = topo_order d ! j" by blast
  then show False using s i nth_eq_iff_index_eq [of "topo_order d" i j] by (auto simp: search_ok_def)
qed

lemma search_reach:
  assumes "search_ok ps d" "m \<in> set (topo_order d)" "(m, x) \<in> (import_edges ps)\<^sup>*"
  shows "x \<in> set (topo_order d)"
  using assms(3)
proof (cases rule: rtranclE)
  case base
  then show ?thesis using assms(2) by simp
next
  case (step y)
  then have "(m, x) \<in> (import_edges ps)\<^sup>+" using assms(3) by (auto intro: rtrancl_into_trancl1)
  moreover obtain i where i: "i < length (topo_order d)" "m = topo_order d ! i" using assms(2) by (auto simp: in_set_conv_nth)
  ultimately obtain j where "j < i" "x = topo_order d ! j" using search_descends [OF assms(1)] by blast
  then show ?thesis using i(1) by simp
qed

lemma new_detector_ok: "search_ok ps new_detector \<and> path new_detector = []"
  by (simp add: search_ok_def new_detector_def)

lemma detect_cycles_None:
  assumes "detect_cycles l = Some (None, d)"
  shows "search_ok (pending l) d" "fst ` set (modules l) \<subseteq> set (topo_order d)"
proof -
  let ?f = "visit_module (pending l) (Suc (length (module_names l)))"
  have "search_ok (pending l) d \<and> extends_search new_detector d \<and> (\<forall>x \<in> set (map fst (modules l)). x \<in> set (topo_order d))"
  proof (rule each_opt_None_inv [where f = ?f and I = "search_ok (pending l)" and R = extends_search
        and P = "\<lambda>x d. x \<in> set (topo_order d)" and s = new_detector])
    show "search_ok (pending l) s' \<and> extends_search s s' \<and> x \<in> set (topo_order s')"
      if "search_ok (pending l) s" "?f x s = Some (None, s')" for x s s'
      using visit_search_ok [OF that(2,1)] .
    show "each_opt ?f (map fst (modules l)) new_detector = Some (None, d)" using assms by (simp add: detect_cycles_def)
  qed (auto simp: extends_search_def new_detector_ok)
  then show "search_ok (pending l) d" "fst ` set (modules l) \<subseteq> set (topo_order d)" by auto
qed

lemma detect_cycles_error:
  assumes "detect_cycles l = Some (Some e, d)"
  shows "le_kind e = CircularDependency"
    "\<exists>m x. m \<in> fst ` set (modules l) \<and> (m, x) \<in> (import_edges (pending l))\<^sup>* \<and> (x, x) \<in> (import_edges (pending l))\<^sup>+"
proof -
  let ?f = "visit_module (pending l) (Suc (length (module_names l)))"
  have "each_opt ?f (map fst (modules l)) new_detector = Some (Some e, d)" using assms by (simp add: detect_cycles_def)
  then obtain m t where m: "m \<in> set (map fst (modules l))" "search_ok (pending l) t \<and> path t = []" "?f m t = Some (Some e, d)"
  proof (rule each_opt_error [where I = "\<lambda>u. search_ok (pending l) u \<and> path u = []", OF _ new_detector_ok])
    show "search_ok (pending l) s' \<and> path s' = []" if "search_ok (pending l) s \<and> path s = []" "?f x s = Some (None, s')" for x s s'
      using visit_search_ok [OF that(2)] that(1) by (simp add: extends_search_def)
  qed
  have "chained (import_edges (pending l)) (path t) m" using m(2) by (simp add: chained_def)
  from visit_error [OF m(3) _ this] m show "le_kind e = CircularDependency"
    "\<exists>m x. m \<in> fst ` set (modules l) \<and> (m, x) \<in> (import_edges (pending l))\<^sup>* \<and> (x, x) \<in> (import_edges (pending l))\<^sup>+"
    by auto
qed

section \<open>Errors of the other phases\<close>

lemma each_error:
  assumes "each f xs s = (Some e, s')"
  obtains x t where "x \<in> set xs" "fst (f x t) = Some e"
  using assms
proof (induction xs arbitrary: s)
  case (Cons x xs)
  obtain q u where x: "f x s = (q, u)" by (cases "f x s")
  show ?case
  proof (cases q)
    case None
    show ?thesis
    proof (rule Cons.IH)
      show thesis if "y \<in> set xs" "fst (f y t) = Some e" for y t using Cons.prems(1) [of y t] that by simp
      show "each f xs u = (Some e, s')" using Cons.prems(2) x None by simp
    qed
  next
    case (Some e')
    then show ?thesis using Cons.prems(1) [of x s] Cons.prems(2) x by simp
  qed
qed simp

definition no_cycle_error :: "link_error option \<Rightarrow> bool" where
  "no_cycle_error r \<longleftrightarrow> (\<forall>e. r = Some e \<longrightarrow> le_kind e \<noteq> CircularDependency)"

lemma no_cycle_error_simps [simp]:
  "no_cycle_error None" "no_cycle_error (Some (link_err k sp m)) \<longleftrightarrow> k \<noteq> CircularDependency"
  by (simp_all add: no_cycle_error_def link_err_def)

lemma each_no_cycle_error:
  assumes "\<forall>x t. no_cycle_error (fst (f x t))"
  shows "no_cycle_error (fst (each f xs s))"
proof (cases "each f xs s")
  case (Pair r s')
  have "le_kind e \<noteq> CircularDependency" if r: "r = Some e" for e
  proof -
    have "each f xs s = (Some e, s')" using Pair r by simp
    then obtain x t where "x \<in> set xs" "fst (f x t) = Some e" by (rule each_error)
    then show ?thesis using assms [THEN spec, of x, THEN spec, of t] by (simp add: no_cycle_error_def)
  qed
  then show ?thesis using Pair by (simp add: no_cycle_error_def)
qed

lemma clause_map_no_cycle: "no_cycle_error (fst (clause_map p src))"
proof -
  have R: "no_cycle_error (fst (each (rename_step wh) xs m))" for wh xs m
    by (intro each_no_cycle_error allI) (auto simp: rename_step_def Let_def split: option.splits)
  have O: "no_cycle_error (fst (each (\<lambda>i m'. case if i \<in> set (exports src) then (None, m') else (Some (not_exported src (pi_where p) i ''only''), m')
      of (None, m') \<Rightarrow> (None, emplace_new i i m') | (Some e, m') \<Rightarrow> (Some e, m')) xs s))" for xs s
    by (intro each_no_cycle_error allI) (simp add: not_exported_def)
  have N: "no_cycle_error (fst (each (\<lambda>(old, new) m. if old \<in> set (exports src) then (None, m) else (Some (not_exported src (pi_where p) old ''rename''), m)) xs s))"
    for xs and s :: "(string \<times> string) list"
    by (intro each_no_cycle_error allI) (simp add: not_exported_def split: prod.split)
  show ?thesis
  proof (cases "is_kind (pi_spec p)")
    case Rename
    obtain r m where r: "each (\<lambda>(old, new) m. if old \<in> set (exports src) then (None, m)
        else (Some (not_exported src (pi_where p) old ''rename''), m)) (is_renames (pi_spec p)) (all_exports src) = (r, m)"
      by (rule prod.exhaust)
    have "no_cycle_error r" using N [of "is_renames (pi_spec p)" "all_exports src"] r by simp
    then show ?thesis using Rename R r by (cases r) (simp_all add: clause_map_def Let_def)
  qed (use O in \<open>simp_all add: clause_map_def Let_def\<close>)
qed

lemma link_import_no_cycle: "no_cycle_error (fst (link_import ms p tgt))"
proof (cases "map_of ms (is_module (pi_spec p))")
  case (Some src)
  have C: "no_cycle_error (fst (each (commit_name src wh) xs t))" for wh xs t
    by (intro each_no_cycle_error allI) (auto simp: commit_name_def Let_def split: option.splits)
  obtain r m where r: "clause_map p src = (r, m)" by (rule prod.exhaust)
  then have "no_cycle_error r" using clause_map_no_cycle [of p src] by simp
  then show ?thesis using Some r C by (cases r) (simp_all add: link_import_def)
qed (simp add: link_import_def)

lemma link_target_no_cycle: "no_cycle_error (fst (link_target n l))"
proof (cases "map_of (modules l) n")
  case (Some tgt)
  obtain r t where r: "each (link_import (modules l)) (case map_of (pending l) n of None \<Rightarrow> [] | Some is \<Rightarrow> is) tgt = (r, t)"
    by (rule prod.exhaust)
  have "no_cycle_error (fst (each (link_import (modules l)) xs tgt))" for xs
    by (intro each_no_cycle_error allI link_import_no_cycle)
  then have "no_cycle_error r" using r by (metis fst_conv)
  then show ?thesis using Some r by (cases r) (simp_all add: link_target_def)
qed (simp add: link_target_def)

lemma check_exports_no_cycle: "no_cycle_error (fst (each check_exports ms l))"
  by (intro each_no_cycle_error allI) (auto simp: check_exports_def split: prod.split intro!: each_no_cycle_error)

text \<open>C35: The linker always finishes, and it reports a circular dependency exactly when some module
  reaches, along imports, a module that imports itself directly or through others, in whichever
  order the modules and the imports are visited.\<close>

theorem link_cycle_exact:
  "\<exists>r l'. link_modules l = Some (r, l') \<and>
     ((\<exists>e. r = Some e \<and> le_kind e = CircularDependency) \<longleftrightarrow>
      (\<exists>m x. m \<in> fst ` set (modules l) \<and> (m, x) \<in> (import_edges (pending l))\<^sup>* \<and> (x, x) \<in> (import_edges (pending l))\<^sup>+))"
proof -
  obtain q d where d: "detect_cycles l = Some (q, d)" using detect_cycles_total [of l] by auto
  show ?thesis
  proof (cases q)
    case None
    note D = detect_cycles_None [OF d [unfolded None]]
    have "\<not> (\<exists>m x. m \<in> fst ` set (modules l) \<and> (m, x) \<in> (import_edges (pending l))\<^sup>* \<and> (x, x) \<in> (import_edges (pending l))\<^sup>+)"
      using search_reach [OF D(1)] search_no_cycle [OF D(1)] D(2) by blast
    moreover obtain r l' where r: "link_modules l = Some (r, l')"
    proof -
      obtain q2 l2 where "each link_target (topo_order d) l = (q2, l2)" by (rule prod.exhaust)
      moreover obtain q3 l3 where "each check_exports (modules l2) l2 = (q3, l3)" by (rule prod.exhaust)
      ultimately show thesis using that d None by (cases q2) (simp_all add: link_modules_def)
    qed
    moreover have "no_cycle_error r"
    proof -
      obtain q2 l2 where l2: "each link_target (topo_order d) l = (q2, l2)" by (rule prod.exhaust)
      have "no_cycle_error (fst (each link_target (topo_order d) l))"
        by (intro each_no_cycle_error allI link_target_no_cycle)
      then have "no_cycle_error q2" using l2 by simp
      then show ?thesis using r d None l2 check_exports_no_cycle [of "modules l2" l2]
        by (cases q2) (auto simp: link_modules_def)
    qed
    ultimately show ?thesis by (auto simp: no_cycle_error_def)
  next
    case (Some e)
    then show ?thesis using d detect_cycles_error [OF d [unfolded Some]] by (auto simp: link_modules_def)
  qed
qed

section \<open>What a linked module sees\<close>

definition same_def :: "import_origin \<Rightarrow> import_origin \<Rightarrow> bool" where
  "same_def a b \<longleftrightarrow> from_module a = from_module b \<and> remote_name a = remote_name b"

text \<open>A clause brings in a local name from a table of modules.\<close>

definition brings :: "(string \<rightharpoonup> module_table) \<Rightarrow> pending_import \<Rightarrow> string \<Rightarrow> import_origin \<Rightarrow> bool" where
  "brings M p loc c \<longleftrightarrow> (\<exists>src m remote. M (is_module (pi_spec p)) = Some src \<and> clause_map p src = (None, m)
     \<and> (loc, remote) \<in> set m \<and> c = canonical_origin src remote (pi_where p))"

definition imports_of :: "linker \<Rightarrow> string \<Rightarrow> pending_import list" where
  "imports_of l n = (case map_of (pending l) n of None \<Rightarrow> [] | Some ims \<Rightarrow> ims)"

definition declared :: "module_table \<Rightarrow> string \<times> string list \<times> string list \<times> (string \<times> span) list \<times> (string \<times> span) list" where
  "declared t = (mt_name t, defined t, exports t, define_spans t, export_spans t)"

text \<open>A table whose imports were committed: what it had, and one origin for every name brought in.\<close>

definition committed :: "(string \<rightharpoonup> module_table) \<Rightarrow> pending_import set \<Rightarrow> module_table \<Rightarrow> module_table \<Rightarrow> bool" where
  "committed M ims t0 t \<longleftrightarrow>
     declared t = declared t0
     \<and> set (visible t) = fst ` set (import_origins t)
     \<and> (\<forall>loc c. map_of (import_origins t) loc = Some c \<longrightarrow> loc \<notin> set (defined t0) \<and> (\<exists>p \<in> ims. brings M p loc c))"

definition has_def :: "module_table \<Rightarrow> string \<Rightarrow> import_origin \<Rightarrow> bool" where
  "has_def t loc c \<longleftrightarrow> (\<exists>d. map_of (import_origins t) loc = Some d \<and> same_def d c)"

definition keeps_origins :: "module_table \<Rightarrow> module_table \<Rightarrow> bool" where
  "keeps_origins t t' \<longleftrightarrow> (\<forall>loc c. map_of (import_origins t) loc = Some c \<longrightarrow> map_of (import_origins t') loc = Some c)"

lemma keeps_origins_simps [simp]: "keeps_origins t t"
  by (simp add: keeps_origins_def)

lemma keeps_origins_trans: "keeps_origins s t \<Longrightarrow> keeps_origins t u \<Longrightarrow> keeps_origins s u"
  by (simp add: keeps_origins_def)

lemma has_def_keeps: "has_def t loc c \<Longrightarrow> keeps_origins t t' \<Longrightarrow> has_def t' loc c"
  by (auto simp: has_def_def keeps_origins_def)

lemma each_as_opt: "each_opt (\<lambda>x s. Some (f x s)) xs s = Some (each f xs s)"
  by (induction xs arbitrary: s) (auto split: prod.splits option.splits)

lemma each_None_inv:
  assumes "each f xs s = (None, s')" "I s"
    and "\<And>x s s'. x \<in> set xs \<Longrightarrow> I s \<Longrightarrow> f x s = (None, s') \<Longrightarrow> I s' \<and> R s s' \<and> P x s'"
    and "\<And>s. R s s" "\<And>s t u. R s t \<Longrightarrow> R t u \<Longrightarrow> R s u" "\<And>x s s'. P x s \<Longrightarrow> R s s' \<Longrightarrow> P x s'"
  shows "I s' \<and> R s s' \<and> (\<forall>x \<in> set xs. P x s')"
proof (rule each_opt_None_inv [where f = "\<lambda>x s. Some (f x s)" and I = I and R = R and P = P])
  show "each_opt (\<lambda>x s. Some (f x s)) xs s = Some (None, s')" using assms(1) by (simp add: each_as_opt)
qed (use assms in auto)

lemma committed_brings: "committed M ims t0 t \<Longrightarrow> map_of (import_origins t) loc = Some c \<Longrightarrow> \<exists>p \<in> ims. brings M p loc c"
  unfolding committed_def by blast

lemma commit_name_committed:
  assumes c: "commit_name src wh (loc, remote) t = (None, t')" and t: "committed M ims t0 t"
    and b: "p \<in> ims" "brings M p loc (canonical_origin src remote wh)"
  shows "committed M ims t0 t' \<and> keeps_origins t t' \<and> has_def t' loc (canonical_origin src remote wh)"
proof -
  let ?c = "canonical_origin src remote wh"
  have d: "loc \<notin> set (defined t0)"
    using c t by (auto simp: commit_name_def committed_def declared_def split: if_splits)
  show ?thesis
  proof (cases "map_of (import_origins t) loc")
    case None
    then have t': "t' = t\<lparr> visible := set_insert loc (visible t), import_origins := import_origins t @ [(loc, ?c)] \<rparr>"
      using c by (auto simp: commit_name_def Let_def split: if_splits)
    have "map_of (import_origins t') x = (if x = loc then Some ?c else map_of (import_origins t) x)" for x
      using None by (auto simp: t' map_add_def split: option.splits)
    moreover have "declared t' = declared t0" using t by (simp add: committed_def declared_def t')
    moreover have "set (visible t') = fst ` set (import_origins t')"
      using t by (auto simp: t' committed_def set_insert_def)
    ultimately show ?thesis using t b d None
      by (auto simp: committed_def keeps_origins_def has_def_def same_def_def)
  next
    case (Some prev)
    then have "t' = t" "same_def prev ?c" using c by (auto simp: commit_name_def Let_def same_def_def split: if_splits)
    then show ?thesis using t Some by (auto simp: has_def_def)
  qed
qed

definition clause_served :: "(string \<rightharpoonup> module_table) \<Rightarrow> pending_import \<Rightarrow> module_table \<Rightarrow> bool" where
  "clause_served M p t \<longleftrightarrow> (\<exists>src m. M (is_module (pi_spec p)) = Some src \<and> clause_map p src = (None, m)
     \<and> (\<forall>x \<in> set m. has_def t (fst x) (canonical_origin src (snd x) (pi_where p))))"

lemma link_import_committed:
  assumes l: "link_import ms p t = (None, t')" and t: "committed (map_of ms) ims t0 t" and p: "p \<in> ims"
  shows "committed (map_of ms) ims t0 t' \<and> keeps_origins t t' \<and> clause_served (map_of ms) p t'"
proof -
  obtain src m where src: "map_of ms (is_module (pi_spec p)) = Some src" "clause_map p src = (None, m)"
    "each (commit_name src (pi_where p)) m t = (None, t')"
    using l by (auto simp: link_import_def split: option.splits prod.splits)
  have "committed (map_of ms) ims t0 t' \<and> keeps_origins t t'
      \<and> (\<forall>x \<in> set m. has_def t' (fst x) (canonical_origin src (snd x) (pi_where p)))"
  proof (rule each_None_inv [where I = "committed (map_of ms) ims t0" and R = keeps_origins
        and P = "\<lambda>x t. has_def t (fst x) (canonical_origin src (snd x) (pi_where p))", OF src(3) t])
    show "committed (map_of ms) ims t0 s' \<and> keeps_origins s s' \<and> has_def s' (fst x) (canonical_origin src (snd x) (pi_where p))"
      if x: "x \<in> set m" and s: "committed (map_of ms) ims t0 s" and c: "commit_name src (pi_where p) x s = (None, s')" for x s s'
    proof (rule commit_name_committed [OF _ s p])
      show "commit_name src (pi_where p) (fst x, snd x) s = (None, s')" using c by simp
      show "brings (map_of ms) p (fst x) (canonical_origin src (snd x) (pi_where p))"
        using src x unfolding brings_def by (metis prod.collapse)
    qed
  qed (auto intro: keeps_origins_trans has_def_keeps)
  then show ?thesis using src by (auto simp: clause_served_def)
qed

definition linked_table :: "(string \<rightharpoonup> module_table) \<Rightarrow> pending_import list \<Rightarrow> module_table \<Rightarrow> module_table \<Rightarrow> bool" where
  "linked_table M ims t0 t \<longleftrightarrow> (\<exists>u. t = publish_locals u \<and> committed M (set ims) t0 u \<and> (\<forall>p \<in> set ims. clause_served M p u))"

lemma linked_table_cong:
  assumes "\<And>p. p \<in> set ims \<Longrightarrow> M' (is_module (pi_spec p)) = M (is_module (pi_spec p))"
  shows "linked_table M' ims t0 t \<longleftrightarrow> linked_table M ims t0 t"
proof -
  have "brings M' p loc c \<longleftrightarrow> brings M p loc c" "clause_served M' p u \<longleftrightarrow> clause_served M p u" if "p \<in> set ims" for p loc c u
    using assms [OF that] by (simp_all add: brings_def clause_served_def)
  then have "committed M' (set ims) t0 u \<longleftrightarrow> committed M (set ims) t0 u"
      "(\<forall>p \<in> set ims. clause_served M' p u) \<longleftrightarrow> (\<forall>p \<in> set ims. clause_served M p u)" for u
    by (auto simp: committed_def)
  then show ?thesis by (simp only: linked_table_def)
qed

lemma each_append: "each f (xs @ ys) s = (case each f xs s of (Some e, s') \<Rightarrow> (Some e, s') | (None, s') \<Rightarrow> each f ys s')"
  by (induction xs arbitrary: s) (auto split: prod.splits option.splits)

text \<open>The tables before linking, as indexing leaves them.\<close>

definition fresh_linker :: "linker \<Rightarrow> bool" where
  "fresh_linker l \<longleftrightarrow> distinct (map fst (modules l))
     \<and> (\<forall>(n, t) \<in> set (modules l). mt_name t = n \<and> visible t = [] \<and> import_origins t = [])"

definition linked_upto :: "linker \<Rightarrow> string set \<Rightarrow> linker \<Rightarrow> bool" where
  "linked_upto l D l' \<longleftrightarrow> map fst (modules l') = map fst (modules l) \<and> pending l' = pending l
     \<and> (\<forall>n. n \<notin> D \<longrightarrow> get_module l' n = get_module l n)
     \<and> (\<forall>n t0. n \<in> D \<longrightarrow> get_module l n = Some t0 \<longrightarrow>
          (\<exists>t. get_module l' n = Some t \<and> linked_table (get_module l') (imports_of l n) t0 t))"

lemma get_module_fun: "get_module l = map_of (modules l)"
  by (simp add: get_module_def fun_eq_iff)

lemma import_targets_of: "p \<in> set (imports_of l n) \<Longrightarrow> is_module (pi_spec p) \<in> set (import_targets (pending l) n)"
  by (auto simp: imports_of_def import_targets_def split: option.splits)

lemma link_target_step:
  assumes l: "linked_upto l D l'" "link_target n l' = (None, l'')" "fresh_linker l"
    and n: "n \<notin> D" "set (import_targets (pending l) n) \<subseteq> D"
    and D: "\<And>m. m \<in> D \<Longrightarrow> set (import_targets (pending l) m) \<subseteq> D"
  shows "linked_upto l (insert n D) l''"
proof (cases "get_module l n")
  case None
  then have "map_of (modules l') n = None" using l(1) n(1) unfolding linked_upto_def get_module_fun by metis
  then have "l'' = l'" using l(2) by (simp add: link_target_def)
  then show ?thesis using l(1) None by (auto simp: linked_upto_def)
next
  case (Some t0)
  have t0: "map_of (modules l') n = Some t0" using l(1) n(1) Some by (auto simp: linked_upto_def get_module_fun)
  obtain u where u: "each (link_import (modules l')) (imports_of l n) t0 = (None, u)"
    and l'': "l'' = l'\<lparr> modules := AList.update n (publish_locals u) (modules l') \<rparr>"
    using l(1,2) t0 by (auto simp: link_target_def linked_upto_def imports_of_def split: prod.splits option.splits)
  have fresh: "visible t0 = []" "import_origins t0 = []"
    using Some l(3) by (auto simp: fresh_linker_def get_module_def dest!: map_of_SomeD)
  let ?ims = "imports_of l n"
  have "committed (map_of (modules l')) (set ?ims) t0 u \<and> keeps_origins t0 u \<and> (\<forall>p \<in> set ?ims. clause_served (map_of (modules l')) p u)"
  proof (rule each_None_inv [where I = "committed (map_of (modules l')) (set ?ims) t0" and R = keeps_origins
        and P = "clause_served (map_of (modules l'))", OF u])
    show "committed (map_of (modules l')) (set ?ims) t0 t0" by (simp add: committed_def fresh)
    show "clause_served (map_of (modules l')) p s'" if "clause_served (map_of (modules l')) p s" "keeps_origins s s'" for p s s'
      using that unfolding clause_served_def by (meson has_def_keeps)
  qed (use link_import_committed keeps_origins_trans in auto)
  then have T: "linked_table (get_module l') ?ims t0 (publish_locals u)"
    unfolding linked_table_def get_module_fun by blast
  have "n \<in> set (map fst (modules l'))" using t0 by (force dest: map_of_SomeD)
  then have "map fst (modules l'') = map fst (modules l')" by (simp add: l'' AList.update_keys del: set_map)
  moreover have "map fst (modules l') = map fst (modules l)" using l(1) by (simp add: linked_upto_def)
  ultimately have keys: "map fst (modules l'') = map fst (modules l)" by simp
  have look: "get_module l'' m = (if m = n then Some (publish_locals u) else get_module l' m)" for m
    by (simp add: l'' get_module_def update_conv')
  have same: "linked_table (get_module l'') (imports_of l m) t t' \<longleftrightarrow> linked_table (get_module l') (imports_of l m) t t'"
    if "m \<in> insert n D" for m t t'
  proof (rule linked_table_cong)
    fix p assume "p \<in> set (imports_of l m)"
    then have "is_module (pi_spec p) \<in> D" using import_targets_of [of p l m] that n(2) D [of m] by blast
    then show "get_module l'' (is_module (pi_spec p)) = get_module l' (is_module (pi_spec p))" using n(1) look by metis
  qed
  show ?thesis unfolding linked_upto_def
  proof (intro conjI allI impI)
    show "pending l'' = pending l" using l(1) by (simp add: l'' linked_upto_def)
    show "get_module l'' m = get_module l m" if "m \<notin> insert n D" for m
      using l(1) that by (auto simp: look linked_upto_def)
    show "\<exists>t. get_module l'' m = Some t \<and> linked_table (get_module l'') (imports_of l m) t1 t"
      if "m \<in> insert n D" "get_module l m = Some t1" for m t1
    proof (cases "m = n")
      case True
      then show ?thesis using T same [of n] Some that(2) by (simp add: look)
    next
      case False
      then show ?thesis using l(1) that same [of m] by (auto simp: look linked_upto_def)
    qed
  qed (rule keys)
qed

lemma link_targets_upto:
  assumes "search_ok (pending l) d" "fresh_linker l"
  shows "k \<le> length (topo_order d) \<Longrightarrow> each link_target (take k (topo_order d)) l = (None, l')
    \<Longrightarrow> linked_upto l (set (take k (topo_order d))) l'"
proof (induction k arbitrary: l')
  case 0
  then show ?case by (simp add: linked_upto_def)
next
  case (Suc k)
  let ?n = "topo_order d ! k"
  have t: "take (Suc k) (topo_order d) = take k (topo_order d) @ [?n]"
    using Suc.prems(1) by (simp add: take_Suc_conv_app_nth)
  obtain l1 where l1: "each link_target (take k (topo_order d)) l = (None, l1)" "link_target ?n l1 = (None, l')"
    using Suc.prems(2) unfolding t each_append by (auto split: prod.splits option.splits)
  have T: "set (import_targets (pending l) (topo_order d ! i)) \<subseteq> set (take i (topo_order d))" if "i < length (topo_order d)" for i
    using assms(1) that by (simp add: search_ok_def)
  have "linked_upto l (insert ?n (set (take k (topo_order d)))) l'"
  proof (rule link_target_step [OF _ l1(2) assms(2)])
    show "linked_upto l (set (take k (topo_order d))) l1" using Suc.IH Suc.prems(1) l1(1) by simp
    show "?n \<notin> set (take k (topo_order d))"
      using assms(1) Suc.prems(1) by (auto simp: search_ok_def in_set_conv_nth nth_eq_iff_index_eq)
    show "set (import_targets (pending l) ?n) \<subseteq> set (take k (topo_order d))" using T [of k] Suc.prems(1) by simp
    show "set (import_targets (pending l) m) \<subseteq> set (take k (topo_order d))" if "m \<in> set (take k (topo_order d))" for m
    proof -
      obtain i where i: "i < k" "m = topo_order d ! i" using \<open>m \<in> _\<close> by (auto simp: in_set_conv_nth)
      then show ?thesis using T [of i] Suc.prems(1) set_take_subset_set_take [of i k] by fastforce
    qed
  qed
  then show ?case by (simp add: t)
qed

lemma each_keeps:
  assumes "\<And>x s. snd (f x s) = s"
  shows "snd (each f xs s) = s"
proof (induction xs)
  case (Cons x xs)
  have "f x s = (fst (f x s), s)" using assms [of x s] by (metis prod.collapse)
  with Cons show ?case by (cases "fst (f x s)") auto
qed simp

lemma link_modules_phases:
  assumes "link_modules l = Some (None, l')" "fresh_linker l"
  obtains d where "search_ok (pending l) d" "fst ` set (modules l) \<subseteq> set (topo_order d)"
    "linked_upto l (set (topo_order d)) l'" "each check_exports (modules l') l' = (None, l')"
proof -
  obtain d l1 where d: "detect_cycles l = Some (None, d)" "each link_target (topo_order d) l = (None, l1)"
    "each check_exports (modules l1) l1 = (None, l')"
    using assms(1) by (auto simp: link_modules_def split: option.splits prod.splits)
  note S = detect_cycles_None [OF d(1)]
  have "linked_upto l (set (topo_order d)) l1" using link_targets_upto [OF S(1) assms(2), of "length (topo_order d)" l1] d(2) by simp
  moreover have "l' = l1"
  proof -
    have "snd (check_exports x s) = s" for x s
      unfolding check_exports_def by (cases x) (auto intro: each_keeps)
    then have "snd (each check_exports (modules l1) l1) = l1" by (rule each_keeps)
    then show ?thesis using d(3) by (metis snd_conv)
  qed
  ultimately show ?thesis using that S d(3) by blast
qed

lemma each_None_all: "each f xs s = (None, s') \<Longrightarrow> (\<And>x s. snd (f x s) = s) \<Longrightarrow> x \<in> set xs \<Longrightarrow> fst (f x s) = None"
proof (induction xs)
  case (Cons y xs)
  have "f y s = (fst (f y s), s)" using Cons.prems(2) [of y s] by (metis prod.collapse)
  with Cons show ?case by (cases "fst (f y s)") auto
qed simp

lemma checked_exports:
  assumes "each check_exports ms l = (None, l')" "(n, t) \<in> set ms"
  shows "fst ` set (export_spans t) \<subseteq> set (visible t)"
proof
  fix x assume "x \<in> fst ` set (export_spans t)"
  then obtain sp where x: "(x, sp) \<in> set (export_spans t)" by auto
  let ?f = "\<lambda>(ex, sp) l. if ex \<in> set (visible t) then (None, l)
       else (Some (link_err ExportOfUnknownName sp (''export of unknown name '' @ [CHR 39] @ ex @ [CHR 39] @ '' in module '' @ n)), l)"
  have "snd (check_exports y s) = s" for y s unfolding check_exports_def by (cases y) (auto intro: each_keeps)
  then have "fst (check_exports (n, t) l) = None" using each_None_all [OF assms(1) _ assms(2)] by blast
  then have "fst (each ?f (export_spans t) l) = None" by (simp add: check_exports_def)
  then have "each ?f (export_spans t) l = (None, snd (each ?f (export_spans t) l))" by (intro prod_eqI) simp_all
  then have "fst (?f (x, sp) l) = None" by (rule each_None_all [OF _ _ x]) (auto split: prod.split)
  then show "x \<in> set (visible t)" by (auto split: if_splits)
qed

text \<open>The names that the imports of a module bring in, each with the place of its definition.\<close>

definition provides :: "linker \<Rightarrow> string \<Rightarrow> string \<Rightarrow> string \<times> string \<Rightarrow> bool" where
  "provides l n loc = (\<lambda>(f, r). \<exists>p \<in> set (imports_of l n). \<exists>c. brings (get_module l) p loc c \<and> from_module c = f \<and> remote_name c = r)"

lemma visible_publish: "set (visible (publish_locals t)) = set (visible t) \<union> set (defined t)"
proof -
  have "set (foldl (\<lambda>v n. set_insert n v) vs ns) = set vs \<union> set ns" for vs ns :: "string list"
    by (induction ns arbitrary: vs) (auto simp: set_insert_def)
  then show ?thesis by (simp add: publish_locals_def)
qed

lemma publish_locals_simps [simp]:
  "import_origins (publish_locals t) = import_origins t" "defined (publish_locals t) = defined t" "exports (publish_locals t) = exports t"
  "mt_name (publish_locals t) = mt_name t" "export_spans (publish_locals t) = export_spans t" "mt_state (publish_locals t) = Linked"
  by (simp_all add: publish_locals_def)

lemma linked_module:
  assumes "fresh_linker l" "link_modules l = Some (None, l')" "get_module l n = Some t0"
  obtains t where "get_module l' n = Some t" "linked_table (get_module l') (imports_of l' n) t0 t"
    "fst ` set (export_spans t) \<subseteq> set (visible t)"
proof -
  obtain d where "search_ok (pending l) d" and d: "fst ` set (modules l) \<subseteq> set (topo_order d)"
    "linked_upto l (set (topo_order d)) l'" "each check_exports (modules l') l' = (None, l')"
    by (rule link_modules_phases [OF assms(2,1)])
  have "(n, t0) \<in> set (modules l)" using assms(3) unfolding get_module_def by (rule map_of_SomeD)
  then have "n \<in> set (topo_order d)" using d(1) by force
  then obtain t where t: "get_module l' n = Some t" "linked_table (get_module l') (imports_of l n) t0 t"
    using d(2) assms(3) unfolding linked_upto_def by blast
  have "imports_of l n = imports_of l' n" using d(2) by (simp add: imports_of_def linked_upto_def)
  moreover have "fst ` set (export_spans t) \<subseteq> set (visible t)"
    by (rule checked_exports [OF d(3) map_of_SomeD [OF t(1) [unfolded get_module_def]]])
  ultimately show ?thesis using that t by simp
qed

section \<open>What indexing leaves\<close>

text \<open>
  The linkers that indexing makes: source forms and compiled modules, added one by one. A source
  module has a place for every name it exports; a compiled one has exports only, neither
  definitions nor imports.
\<close>

inductive indexed :: "linker \<Rightarrow> bool" where
  start: "indexed new_linker"
| form: "indexed l \<Longrightarrow> index_form f l = (None, l') \<Longrightarrow> indexed l'"
| compiled: "indexed l \<Longrightarrow> index_compiled_module_exports n es l = (None, l') \<Longrightarrow> indexed l'"

definition source_form :: "module_table \<Rightarrow> bool" where
  "source_form t \<longleftrightarrow> set (exports t) = fst ` set (export_spans t)"

definition compiled_form :: "module_table \<Rightarrow> bool" where
  "compiled_form t \<longleftrightarrow> defined t = [] \<and> define_spans t = [] \<and> export_spans t = []"

definition indexed_tables :: "linker \<Rightarrow> bool" where
  "indexed_tables l \<longleftrightarrow> fresh_linker l \<and> fst ` set (pending l) \<subseteq> fst ` set (modules l)
     \<and> (\<forall>(n, t) \<in> set (modules l). source_form t \<or> compiled_form t \<and> imports_of l n = [])"

text \<open>What scanning the body of the module \<open>n\<close> keeps, from the linker \<open>l\<close>.\<close>

definition scanning :: "string \<Rightarrow> linker \<Rightarrow> module_table \<times> linker \<Rightarrow> bool" where
  "scanning n l = (\<lambda>(mt, l'). mt_name mt = n \<and> visible mt = [] \<and> import_origins mt = [] \<and> source_form mt
     \<and> modules l' = modules l \<and> fst ` set (pending l') \<subseteq> insert n (fst ` set (pending l))
     \<and> (\<forall>m. m \<noteq> n \<longrightarrow> imports_of l' m = imports_of l m))"

lemma each_None_keeps:
  assumes "each f xs s = (None, s')" "I s" "\<And>x s s'. I s \<Longrightarrow> f x s = (None, s') \<Longrightarrow> I s'"
  shows "I s'"
  using each_None_inv [where R = "\<lambda>_ _. True" and P = "\<lambda>_ _. True" and I = I, OF assms(1,2)] assms(3) by blast

lemma add_pending_simps:
  "modules (add_pending n p l) = modules l"
  "fst ` set (pending (add_pending n p l)) = insert n (fst ` set (pending l))"
  "m \<noteq> n \<Longrightarrow> imports_of (add_pending n p l) m = imports_of l m"
proof -
  show "modules (add_pending n p l) = modules l" by (simp add: add_pending_def)
  show "fst ` set (pending (add_pending n p l)) = insert n (fst ` set (pending l))"
    by (auto simp: add_pending_def dom_update split: option.split)
  show "imports_of (add_pending n p l) m = imports_of l m" if "m \<noteq> n"
    using that by (cases "map_of (pending l) m") (auto simp: add_pending_def imports_of_def update_conv' map_add_def split: option.split)
qed

lemma scanning_pending:
  assumes "scanning n l (mt, l1)"
  shows "scanning n l (mt, add_pending n p l1)"
  using assms unfolding scanning_def prod.case add_pending_simps(1,2) by (simp add: add_pending_simps(3))

lemma parse_import_scanning:
  assumes "parse_import_form n cs l1 = (None, l2)" "scanning n l (mt, l1)"
  shows "scanning n l (mt, l2)"
  using assms(1) [unfolded parse_import_form_def]
proof (rule each_None_keeps [where I = "\<lambda>l1. scanning n l (mt, l1)"])
  fix c l1 l2
  assume i: "scanning n l (mt, l1)" and c: "(case parse_import_clause c of Inl e \<Rightarrow> (Some e, l1)
      | Inr spec \<Rightarrow> (None, add_pending n \<lparr>pi_target = n, pi_spec = spec, pi_where = is_span spec\<rparr> l1)) = (None, l2)"
  show "scanning n l (mt, l2)" using c scanning_pending [OF i] by (cases "parse_import_clause c") auto
qed (rule assms(2))

lemma add_export_source:
  "source_form mt \<Longrightarrow> source_form (add_export mt e) \<and> mt_name (add_export mt e) = mt_name mt
     \<and> visible (add_export mt e) = visible mt \<and> import_origins (add_export mt e) = import_origins mt"
  by (auto simp: source_form_def add_export_def set_insert_def emplace_new_def split: option.split)

lemma add_exports_scanning: "scanning n l (mt, l1) \<Longrightarrow> scanning n l (foldl add_export mt es, l1)"
  by (induction es arbitrary: mt) (auto simp: scanning_def add_export_source)

lemma scanning_defined: "scanning n l (mt\<lparr> defined := d, define_spans := ds \<rparr>, l1) = scanning n l (mt, l1)"
  by (simp add: scanning_def source_form_def)

lemma scan_form_scanning:
  assumes "scanning n l s" "scan_form f s = (None, s')"
  shows "scanning n l s'"
proof -
  obtain mt l1 where s: "s = (mt, l1)" by (cases s)
  have sc: "scanning n l (mt, l1)" using assms(1) s by simp
  then have n: "mt_name mt = n" by (simp add: scanning_def)
  consider "s' = (mt, l1)" | d ds where "s' = (mt\<lparr> defined := d, define_spans := ds \<rparr>, l1)"
    | es where "s' = (foldl add_export mt es, l1)" | es l2 where "s' = (mt, l2)" "parse_import_form n es l1 = (None, l2)"
    using assms(2) by (auto simp: s n scan_form_def Let_def split: option.splits list.splits if_splits prod.splits)
  then show ?thesis
    by cases (use sc in \<open>auto simp: scanning_defined intro: add_exports_scanning parse_import_scanning\<close>)
qed

lemma indexed_tables_if_indexed: "indexed l \<Longrightarrow> indexed_tables l"
proof (induction rule: indexed.induct)
  case start
  show ?case by (simp add: indexed_tables_def fresh_linker_def new_linker_def)
next
  case (form l f l')
  have start: "scanning n l (new_module_table n, l)" for n
    by (auto simp: scanning_def new_module_table_def source_form_def)
  show ?case
  proof (cases "l' = l")
    case True
    then show ?thesis using form.IH by simp
  next
    case False
    then obtain n nsp es mt l1 where n: "ensure_unique_module_name l n nsp = None"
      "scan_module_body es (new_module_table n, l) = (None, mt, l1)" "l' = l1\<lparr> modules := emplace_new n mt (modules l1) \<rparr>"
      using form(2) by (auto simp: index_form_def split: option.splits if_splits prod.splits)
    have sc: "scanning n l (mt, l1)"
      by (rule each_None_keeps [where I = "scanning n l", OF n(2) [unfolded scan_module_body_def] start]) (rule scan_form_scanning)
    have nm: "n \<notin> fst ` set (modules l)" using n(1) by (auto simp: ensure_unique_module_name_def split: if_splits)
    have m': "modules l' = modules l @ [(n, mt)]" using nm sc by (simp add: n(3) scanning_def emplace_new_def)
    have "imports_of l' = imports_of l1" by (simp add: n(3) imports_of_def fun_eq_iff)
    then have im: "imports_of l' k = imports_of l k" if "k \<in> fst ` set (modules l)" for k
      using that nm sc unfolding scanning_def prod.case by metis
    have "fst ` set (pending l') \<subseteq> insert n (fst ` set (pending l))" using sc by (simp add: n(3) scanning_def)
    then have "fst ` set (pending l') \<subseteq> fst ` set (modules l')" using form.IH m' by (auto simp: indexed_tables_def)
    moreover have mt: "mt_name mt = n" "visible mt = []" "import_origins mt = []" "source_form mt"
      using sc by (simp_all add: scanning_def)
    moreover have "source_form t \<or> compiled_form t \<and> imports_of l' k = []" if k: "(k, t) \<in> set (modules l)" for k t
    proof -
      have "source_form t \<or> compiled_form t \<and> imports_of l k = []"
        using form.IH k unfolding indexed_tables_def by blast
      moreover have "imports_of l' k = imports_of l k" by (rule im) (use k in force)
      ultimately show ?thesis by simp
    qed
    ultimately have "\<forall>(k, t) \<in> set (modules l'). source_form t \<or> compiled_form t \<and> imports_of l' k = []" by (auto simp: m')
    moreover have "fresh_linker l'" using form.IH mt nm by (auto simp: fresh_linker_def indexed_tables_def m')
    ultimately show ?thesis using \<open>fst ` set (pending l') \<subseteq> fst ` set (modules l')\<close> by (simp add: indexed_tables_def)
  qed
next
  case (compiled l n es l')
  define t where "t = (new_module_table n)\<lparr> exports := foldl (\<lambda>xs e. if e \<noteq> '''' then set_insert e xs else xs) [] es \<rparr>"
  have n: "n \<notin> fst ` set (modules l)" "l' = l\<lparr> modules := modules l @ [(n, t)] \<rparr>"
    using compiled(2) by (auto simp: index_compiled_module_exports_def ensure_unique_module_name_def emplace_new_def t_def
        split: option.splits if_splits)
  then have "n \<notin> fst ` set (pending l)" using compiled.IH by (auto simp: indexed_tables_def)
  then have "imports_of l n = []" by (simp add: imports_of_def map_of_eq_None_iff [THEN iffD2])
  moreover have "imports_of l' = imports_of l" by (simp add: n(2) imports_of_def fun_eq_iff)
  moreover have "compiled_form t" "mt_name t = n" "visible t = []" "import_origins t = []"
    by (simp_all add: t_def compiled_form_def new_module_table_def)
  ultimately show ?case using compiled.IH n(1)
    by (auto simp: indexed_tables_def fresh_linker_def n(2))
qed

lemma index_modules_indexed: "index_modules forms l = (None, l') \<Longrightarrow> indexed l'"
  unfolding index_modules_def by (erule each_None_keeps [where I = indexed, OF _ indexed.start]) (rule indexed.form)

text \<open>C33: After a successful link every module that was indexed is linked; what it sees is what it
  defines and what its imports bring in, and nothing it defines is imported; a name has an origin
  exactly when some import clause brings it in with that origin, so that all clauses that bring in
  one name agree on the definition it names. Every name that a module of source text exports is
  visible in it; a compiled module has exports only and sees nothing, so that its exports are taken
  on trust.\<close>

theorem link_resolves:
  assumes "indexed l" "link_modules l = Some (None, l')" "get_module l n = Some t0"
  shows "\<exists>t. get_module l' n = Some t \<and> mt_state t = Linked \<and> defined t = defined t0 \<and> exports t = exports t0
    \<and> set (visible t) = set (defined t) \<union> fst ` set (import_origins t)
    \<and> set (defined t) \<inter> fst ` set (import_origins t) = {}
    \<and> (\<forall>loc f r. provides l' n loc (f, r) \<longleftrightarrow>
         (\<exists>c. map_of (import_origins t) loc = Some c \<and> from_module c = f \<and> remote_name c = r))
    \<and> (set (exports t) \<subseteq> set (visible t) \<or> compiled_form t \<and> visible t = [])"
proof -
  note I = indexed_tables_if_indexed [OF assms(1), unfolded indexed_tables_def]
  obtain t where t: "get_module l' n = Some t" "linked_table (get_module l') (imports_of l' n) t0 t"
    "fst ` set (export_spans t) \<subseteq> set (visible t)"
    by (rule linked_module [OF conjunct1 [OF I] assms(2,3)])
  obtain u where u: "t = publish_locals u" "committed (get_module l') (set (imports_of l' n)) t0 u"
    "\<And>p. p \<in> set (imports_of l' n) \<Longrightarrow> clause_served (get_module l') p u"
    using t(2) by (auto simp: linked_table_def)
  have "provides l' n loc (f, r) \<longleftrightarrow> (\<exists>c. map_of (import_origins t) loc = Some c \<and> from_module c = f \<and> remote_name c = r)" for loc f r
  proof
    assume "provides l' n loc (f, r)"
    then obtain p c where p: "p \<in> set (imports_of l' n)" "brings (get_module l') p loc c" "from_module c = f" "remote_name c = r"
      by (auto simp: provides_def)
    then obtain src m remote where "get_module l' (is_module (pi_spec p)) = Some src" "clause_map p src = (None, m)"
      "(loc, remote) \<in> set m" "c = canonical_origin src remote (pi_where p)"
      by (auto simp: brings_def)
    then have "has_def u loc c" using u(3) [OF p(1)] by (force simp: clause_served_def)
    then show "\<exists>c. map_of (import_origins t) loc = Some c \<and> from_module c = f \<and> remote_name c = r"
      using p(3,4) by (auto simp: has_def_def same_def_def u(1))
  next
    assume "\<exists>c. map_of (import_origins t) loc = Some c \<and> from_module c = f \<and> remote_name c = r"
    then obtain c where c: "map_of (import_origins u) loc = Some c" "from_module c = f" "remote_name c = r" by (auto simp: u(1))
    from committed_brings [OF u(2) c(1)] show "provides l' n loc (f, r)" using c(2,3) unfolding provides_def by blast
  qed
  moreover have "set (defined t) \<inter> fst ` set (import_origins t) = {}"
  proof -
    have "x \<notin> set (defined t0)" if "x \<in> fst ` set (import_origins u)" for x
      using u(2) that weak_map_of_SomeI by (fastforce simp: committed_def)
    then show ?thesis using u(2) by (auto simp: committed_def declared_def u(1))
  qed
  moreover have "set (visible t) = set (defined t) \<union> fst ` set (import_origins t)"
    using u(2) by (auto simp: committed_def u(1) visible_publish)
  moreover have "set (exports t) \<subseteq> set (visible t) \<or> compiled_form t \<and> visible t = []"
  proof -
    have d: "declared t = declared t0" using u(2) by (simp add: committed_def declared_def u(1) publish_locals_def)
    have v: "set (visible t) = set (defined t) \<union> fst ` set (import_origins t)"
      using u(2) by (auto simp: committed_def u(1) visible_publish)
    have im: "imports_of l' n = imports_of l n"
      by (rule link_modules_phases [OF assms(2) conjunct1 [OF I]]) (simp add: linked_upto_def imports_of_def)
    have "source_form t0 \<or> compiled_form t0 \<and> imports_of l n = []"
      using bspec [OF conjunct2 [OF conjunct2 [OF I]] map_of_SomeD [OF assms(3) [unfolded get_module_def]]] by simp
    then show ?thesis
    proof
      assume "source_form t0"
      then have "set (exports t) = fst ` set (export_spans t)" using d by (simp add: source_form_def declared_def)
      then show ?thesis using t(3) by simp
    next
      assume c: "compiled_form t0 \<and> imports_of l n = []"
      then have "import_origins t = []"
        using u(2) im by (cases "import_origins u") (auto simp: committed_def u(1) split: if_splits)
      then show ?thesis using c v d by (simp add: compiled_form_def declared_def)
    qed
  qed
  ultimately show ?thesis using t(1) u(1,2) by (auto simp: committed_def declared_def)
qed

section \<open>Where an imported name leads\<close>

lemma clause_map_exported:
  assumes "clause_map p src = (None, m)" "(loc, remote) \<in> set m"
  shows "remote \<in> set (exports src)"
proof -
  let ?I = "\<lambda>m :: (string \<times> string) list. snd ` set m \<subseteq> set (exports src)"
  have all: "?I (all_exports src)" by (auto simp: all_exports_def)
  have del: "?I (AList.delete k m)" if "?I m" for k m
    using that by (force simp: AList.delete_eq)
  have "?I m"
  proof (cases "is_kind (pi_spec p)")
    case Plain
    then show ?thesis using assms(1) all by (auto simp: clause_map_def Let_def)
  next
    case Only
    then have "each (\<lambda>i m'. case if i \<in> set (exports src) then (None, m') else (Some (not_exported src (pi_where p) i ''only''), m')
       of (None, m') \<Rightarrow> (None, emplace_new i i m') | (Some e, m') \<Rightarrow> (Some e, m')) (is_ids (pi_spec p)) [] = (None, m)"
      using assms(1) by (simp add: clause_map_def Let_def)
    then show ?thesis
      by (rule each_None_keeps [where I = ?I]) (fastforce simp: emplace_new_def split: if_splits)+
  next
    case Except
    have "?I (foldl (\<lambda>m i. AList.delete i m) m ks)" if "?I m" for m and ks :: "string list"
      using that by (induction ks arbitrary: m) (auto intro!: del simp del: AList.delete_eq)
    then show ?thesis using Except assms(1) all by (auto simp: clause_map_def Let_def)
  next
    case Rename
    then obtain m' where m': "each (\<lambda>(old, new) m. if old \<in> set (exports src) then (None, m)
        else (Some (not_exported src (pi_where p) old ''rename''), m)) (is_renames (pi_spec p)) (all_exports src) = (None, m')"
      "each (rename_step (pi_where p)) (is_renames (pi_spec p)) m' = (None, m)"
      using assms(1) by (auto simp: clause_map_def Let_def split: prod.splits option.splits)
    have "?I m'"
      using m'(1) all by (rule each_None_keeps [where I = ?I]) (fastforce split: if_splits)
    with m'(2) show ?thesis
    proof (rule each_None_keeps [where I = ?I])
      fix x s s' assume s: "?I s" and r: "rename_step (pi_where p) x s = (None, s')"
      obtain old new where x: "x = (old, new)" by (cases x)
      then obtain remote where "map_of s old = Some remote" "s' = AList.delete old s @ [(new, remote)]"
        using r by (auto simp: rename_step_def Let_def split: option.splits if_splits)
      then show "?I s'" using s del [OF s, of old] by (force dest: map_of_SomeD)
    qed
  next
    case Prefix
    have "?I (foldl (\<lambda>m' (loc, remote). emplace_new (pre @ loc) remote m') a m)" if "?I a" "?I m" for a m and pre :: string
      using that
    proof (induction m arbitrary: a)
      case (Cons x m)
      have "?I (emplace_new (pre @ fst x) (snd x) a)" using Cons.prems by (auto simp: emplace_new_def)
      then show ?case using Cons by (simp add: case_prod_beta)
    qed simp
    from this [of "[]" "all_exports src" "is_prefix (pi_spec p)"] show ?thesis
      using Prefix assms(1) all by (simp add: clause_map_def Let_def)
  qed
  with assms(2) show ?thesis by force
qed

text \<open>C34: Resolution ends at a definition: after a successful link the origin of every imported
  name is a module of the program that exports the recorded name and does not itself import it,
  and that defines it when its exports were declared in source form, so re-exports, renamings
  and prefixes along any chain of modules lead to the one definition.\<close>

theorem link_origins:
  assumes "fresh_linker l" "link_modules l = Some (None, l')" "get_module l' n = Some t"
    and "map_of (import_origins t) loc = Some c"
  shows "\<exists>ft. get_module l' (from_module c) = Some ft \<and> remote_name c \<in> set (exports ft)
    \<and> map_of (import_origins ft) (remote_name c) = None
    \<and> (remote_name c \<in> fst ` set (export_spans ft) \<longrightarrow> remote_name c \<in> set (defined ft))"
proof -
  obtain d where d: "search_ok (pending l) d" "fst ` set (modules l) \<subseteq> set (topo_order d)"
    "linked_upto l (set (topo_order d)) l'" "each check_exports (modules l') l' = (None, l')"
    by (rule link_modules_phases [OF assms(2,1)])
  have keys: "fst ` set (modules l') = fst ` set (modules l)" "pending l' = pending l"
    using d(3) by (simp_all add: linked_upto_def) (metis list.set_map)
  have old: "\<exists>t0. get_module l m = Some t0" if "get_module l' m = Some t" for m t
  proof -
    have "m \<in> fst ` set (modules l)" using map_of_SomeD [OF that [unfolded get_module_def]] keys(1) by force
    then show ?thesis unfolding get_module_def by (metis map_of_eq_None_iff option.exhaust)
  qed
  have main: "get_module l' n = Some t \<Longrightarrow> map_of (import_origins t) loc = Some c \<Longrightarrow>
      \<exists>ft. get_module l' (from_module c) = Some ft \<and> remote_name c \<in> set (exports ft)
        \<and> map_of (import_origins ft) (remote_name c) = None"
    if "n = topo_order d ! i" "i < length (topo_order d)" for i n t loc c
    using that
  proof (induction i arbitrary: n t loc c rule: less_induct)
    case (less i)
    obtain t0 where t0: "get_module l n = Some t0" using old less.prems(1) by blast
    obtain t' where t': "get_module l' n = Some t'" "linked_table (get_module l') (imports_of l' n) t0 t'"
      "fst ` set (export_spans t') \<subseteq> set (visible t')"
      by (rule linked_module [OF assms(1,2) t0])
    then have "t' = t" using less.prems(1) by simp
    then obtain u where u: "committed (get_module l') (set (imports_of l' n)) t0 u" "map_of (import_origins u) loc = Some c"
      using t'(2) less.prems(2) by (auto simp: linked_table_def)
    obtain p where p: "p \<in> set (imports_of l' n)" "brings (get_module l') p loc c" using committed_brings [OF u] by blast
    then obtain src m remote where src: "get_module l' (is_module (pi_spec p)) = Some src" "clause_map p src = (None, m)"
      "(loc, remote) \<in> set m" "c = canonical_origin src remote (pi_where p)"
      by (auto simp: brings_def)
    have "p \<in> set (imports_of l n)" using p(1) keys(2) by (simp add: imports_of_def)
    then have "is_module (pi_spec p) \<in> set (import_targets (pending l) n)" by (rule import_targets_of)
    then have "is_module (pi_spec p) \<in> set (take i (topo_order d))"
      using d(1) less.prems(3,4) unfolding search_ok_def by blast
    then obtain j where j: "j < i" "is_module (pi_spec p) = topo_order d ! j"
      using less.prems(4) by (auto simp: in_set_conv_nth)
    show ?case
    proof (cases "map_of (import_origins src) remote")
      case None
      obtain s0 where s0: "get_module l (is_module (pi_spec p)) = Some s0" using old src(1) by blast
      obtain src' where "get_module l' (is_module (pi_spec p)) = Some src'"
        "linked_table (get_module l') (imports_of l' (is_module (pi_spec p))) s0 src'" "fst ` set (export_spans src') \<subseteq> set (visible src')"
        by (rule linked_module [OF assms(1,2) s0])
      then have "mt_name src = mt_name s0" using src(1) by (auto simp: linked_table_def committed_def declared_def)
      also have "\<dots> = is_module (pi_spec p)"
        using map_of_SomeD [OF s0 [unfolded get_module_def]] assms(1) by (auto simp: fresh_linker_def)
      finally show ?thesis using None src clause_map_exported [OF src(2,3)] by (simp add: canonical_origin_def)
    next
      case (Some o')
      then have "from_module c = from_module o'" "remote_name c = remote_name o'" using src(4) by (simp_all add: canonical_origin_def)
      then show ?thesis using less.IH [OF j(1) src(1) Some j(2)] j(1) less.prems(4) by simp
    qed
  qed
  have "n \<in> set (topo_order d)" using map_of_SomeD [OF assms(3) [unfolded get_module_def]] keys(1) d(2) by force
  then obtain i where "n = topo_order d ! i" "i < length (topo_order d)" by (auto simp: in_set_conv_nth)
  from main [OF this assms(3,4)] obtain ft where ft: "get_module l' (from_module c) = Some ft"
    "remote_name c \<in> set (exports ft)" "map_of (import_origins ft) (remote_name c) = None" by blast
  obtain f0 where f0: "get_module l (from_module c) = Some f0" using old ft(1) by blast
  obtain ft' where "get_module l' (from_module c) = Some ft'" "linked_table (get_module l') (imports_of l' (from_module c)) f0 ft'"
    "fst ` set (export_spans ft') \<subseteq> set (visible ft')"
    by (rule linked_module [OF assms(1,2) f0])
  then have "fst ` set (export_spans ft) \<subseteq> fst ` set (import_origins ft) \<union> set (defined ft)"
    using ft(1) by (auto simp: linked_table_def committed_def visible_publish)
  then show ?thesis using ft by (auto simp: map_of_eq_None_iff)
qed

section \<open>Witnesses\<close>

text \<open>
  \<^verbatim>\<open>(module lib (define f #t) (export f))\<close>, \<^verbatim>\<open>(module mid (import (prefix lib l-)) (export l-f))\<close>
  and \<^verbatim>\<open>(module main (import mid))\<close>.
\<close>

definition sy :: "string \<Rightarrow> sexpr" where
  "sy n = Symbol_sx default_span n"

definition li :: "sexpr list \<Rightarrow> sexpr" where
  "li es = List_sx default_span es None"

definition sample_forms :: "sexpr list" where
  "sample_forms =
     [li [sy ''module'', sy ''lib'', li [sy ''define'', sy ''f'', Bool_sx default_span True], li [sy ''export'', sy ''f'']],
      li [sy ''module'', sy ''mid'', li [sy ''import'', li [sy ''prefix'', sy ''lib'', sy ''l-'']], li [sy ''export'', sy ''l-f'']],
      li [sy ''module'', sy ''main'', li [sy ''import'', sy ''mid'']]]"

definition sample_modules :: linker where
  "sample_modules = snd (index_modules sample_forms new_linker)"

lemma sample_indexed: "indexed sample_modules"
proof -
  have "fst (index_modules sample_forms new_linker) = None" by code_simp
  then show ?thesis unfolding sample_modules_def by (metis index_modules_indexed prod.collapse)
qed

lemma sample_fresh: "fresh_linker sample_modules"
  by code_simp

lemma sample_links:
  "\<exists>l'. link_modules sample_modules = Some (None, l')
     \<and> map_option (\<lambda>t. map_option (\<lambda>c. (from_module c, remote_name c)) (map_of (import_origins t) ''l-f'')) (get_module l' ''main'')
       = Some (Some (''lib'', ''f''))"
proof -
  have "case link_modules sample_modules of Some (None, l') \<Rightarrow>
      map_option (\<lambda>t. map_option (\<lambda>c. (from_module c, remote_name c)) (map_of (import_origins t) ''l-f'')) (get_module l' ''main'')
        = Some (Some (''lib'', ''f'')) | _ \<Rightarrow> False"
    by code_simp
  then show ?thesis by (auto split: option.splits prod.splits)
qed

lemma link_resolves_witness:
  "\<exists>l' t. link_modules sample_modules = Some (None, l') \<and> get_module l' ''main'' = Some t
     \<and> ''l-f'' \<in> set (visible t) \<and> provides l' ''main'' ''l-f'' (''lib'', ''f'')"
proof -
  obtain l' where l': "link_modules sample_modules = Some (None, l')"
    "map_option (\<lambda>t. map_option (\<lambda>c. (from_module c, remote_name c)) (map_of (import_origins t) ''l-f'')) (get_module l' ''main'')
      = Some (Some (''lib'', ''f''))"
    using sample_links by blast
  have "get_module sample_modules ''main'' \<noteq> None" by code_simp
  then obtain t0 where "get_module sample_modules ''main'' = Some t0" by blast
  from link_resolves [OF sample_indexed l'(1) this] obtain t where t: "get_module l' ''main'' = Some t"
    "set (visible t) = set (defined t) \<union> fst ` set (import_origins t)"
    "\<And>loc f r. provides l' ''main'' loc (f, r) \<longleftrightarrow>
         (\<exists>c. map_of (import_origins t) loc = Some c \<and> from_module c = f \<and> remote_name c = r)" by auto
  then obtain c where c: "map_of (import_origins t) ''l-f'' = Some c" "from_module c = ''lib''" "remote_name c = ''f''"
    using l'(2) by auto
  have "''l-f'' \<in> set (visible t)" using t(2) map_of_SomeD [OF c(1)] by force
  then show ?thesis using l'(1) t(1,3) c by blast
qed

lemma link_origins_witness:
  "\<exists>l' ft. link_modules sample_modules = Some (None, l') \<and> get_module l' ''lib'' = Some ft \<and> ''f'' \<in> set (exports ft)
     \<and> map_of (import_origins ft) ''f'' = None"
proof -
  obtain l' where l': "link_modules sample_modules = Some (None, l')"
    "map_option (\<lambda>t. map_option (\<lambda>c. (from_module c, remote_name c)) (map_of (import_origins t) ''l-f'')) (get_module l' ''main'')
      = Some (Some (''lib'', ''f''))"
    using sample_links by blast
  then obtain t c where t: "get_module l' ''main'' = Some t" "map_of (import_origins t) ''l-f'' = Some c"
    "from_module c = ''lib''" "remote_name c = ''f''" by auto
  from link_origins [OF sample_fresh l'(1) t(1,2)] show ?thesis using l'(1) t(3,4) by auto
qed

end
