(* ===== verification/Double.thy ===== *)
theory Double
  imports Domain
begin

text \<open>
  IEEE 754 double arithmetic on bit patterns, rounding to nearest with ties to even, as the
  language defines \<^verbatim>\<open>+ - * /\<close> on \<^verbatim>\<open>double\<close>. A finite double is a number of units of
  \<open>2 ^ -1074\<close>. An operation that gives no number gives the quiet NaN.
\<close>

definition dbl_neg :: "u64 \<Rightarrow> bool" where
  "dbl_neg w \<longleftrightarrow> bit w 63"

definition dbl_exp :: "u64 \<Rightarrow> nat" where
  "dbl_exp w = unat (drop_bit 52 w AND 0x7FF)"

definition dbl_frac :: "u64 \<Rightarrow> nat" where
  "dbl_frac w = unat (w AND mask 52)"

definition dbl_units :: "u64 \<Rightarrow> nat" where
  "dbl_units w = (if dbl_exp w = 0 then dbl_frac w else (dbl_frac w + 2 ^ 52) * 2 ^ (dbl_exp w - 1))"

definition dbl_is_inf :: "u64 \<Rightarrow> bool" where
  "dbl_is_inf w \<longleftrightarrow> dbl_exp w = 0x7FF \<and> dbl_frac w = 0"

definition dbl_sign :: "bool \<Rightarrow> u64 \<Rightarrow> u64" where
  "dbl_sign neg w = (if neg then w OR push_bit 63 1 else w)"

definition dbl_inf :: "bool \<Rightarrow> u64" where
  "dbl_inf neg = dbl_sign neg (push_bit 52 0x7FF)"

definition dbl_zero :: "bool \<Rightarrow> u64" where
  "dbl_zero neg = dbl_sign neg 0"

text \<open>
  The pattern of the double nearest to \<open>a / b\<close> units: \<open>e\<close> is how far the last kept bit is above
  a unit; a rounding that carries into the exponent is right as it stands.
\<close>

definition round_units :: "nat \<Rightarrow> nat \<Rightarrow> nat" where
  "round_units a b =
     (let e = msb (a div b) - 52; d = b * 2 ^ e; q = a div d; r = a mod d in
      (if 2 * r > d \<or> (2 * r = d \<and> odd q) then q + 1 else q) + e * 2 ^ 52)"

definition dbl_round :: "bool \<Rightarrow> nat \<Rightarrow> nat \<Rightarrow> u64" where
  "dbl_round neg a b =
     (let p = round_units a b in if p \<ge> 0x7FF * 2 ^ 52 then dbl_inf neg else dbl_sign neg (of_nat p))"

definition dbl_uminus :: "u64 \<Rightarrow> u64" where
  "dbl_uminus w = w XOR push_bit 63 1"

definition dbl_abs :: "u64 \<Rightarrow> u64" where
  "dbl_abs w = w AND mask 63"

definition dbl_int :: "u64 \<Rightarrow> int" where
  "dbl_int w = (if dbl_neg w then - int (dbl_units w) else int (dbl_units w))"

definition dbl_add :: "u64 \<Rightarrow> u64 \<Rightarrow> u64" where
  "dbl_add x y =
     (if is_nan_bits x \<or> is_nan_bits y then quiet_NaN
      else if dbl_is_inf x then (if dbl_is_inf y \<and> dbl_neg x \<noteq> dbl_neg y then quiet_NaN else x)
      else if dbl_is_inf y then y
      else let s = dbl_int x + dbl_int y in
        if s = 0 then dbl_zero (dbl_neg x \<and> dbl_neg y) else dbl_round (s < 0) (nat \<bar>s\<bar>) 1)"

definition dbl_sub :: "u64 \<Rightarrow> u64 \<Rightarrow> u64" where
  "dbl_sub x y = (if is_nan_bits y then quiet_NaN else dbl_add x (dbl_uminus y))"

definition dbl_mul :: "u64 \<Rightarrow> u64 \<Rightarrow> u64" where
  "dbl_mul x y =
     (let neg = (dbl_neg x \<noteq> dbl_neg y) in
      if is_nan_bits x \<or> is_nan_bits y then quiet_NaN
      else if dbl_is_inf x \<or> dbl_is_inf y then
        (if dbl_units x = 0 \<or> dbl_units y = 0 then quiet_NaN else dbl_inf neg)
      else dbl_round neg (dbl_units x * dbl_units y) (2 ^ 1074))"

definition dbl_div :: "u64 \<Rightarrow> u64 \<Rightarrow> u64" where
  "dbl_div x y =
     (let neg = (dbl_neg x \<noteq> dbl_neg y) in
      if is_nan_bits x \<or> is_nan_bits y then quiet_NaN
      else if dbl_is_inf x then (if dbl_is_inf y then quiet_NaN else dbl_inf neg)
      else if dbl_is_inf y then dbl_zero neg
      else if dbl_units y = 0 then (if dbl_units x = 0 then quiet_NaN else dbl_inf neg)
      else dbl_round neg (dbl_units x * 2 ^ 1074) (dbl_units y))"

text \<open>\<^verbatim>\<open>std::min\<close> and \<^verbatim>\<open>std::max\<close>, which keep their first argument when neither is less.\<close>

definition dbl_min :: "u64 \<Rightarrow> u64 \<Rightarrow> u64" where
  "dbl_min x y = (if dbl_less y x then y else x)"

definition dbl_max :: "u64 \<Rightarrow> u64 \<Rightarrow> u64" where
  "dbl_max x y = (if dbl_less x y then y else x)"

end
