(* ===== verification/Tokens.thy ===== *)
theory Tokens
  imports Source
begin

text \<open>
  Tokens and lexical errors, \<^verbatim>\<open>eta/core/src/eta/reader/lexer.h\<close>, and the character classes of
  the C locale that the lexer and the numeric reader use. A source text is a list of bytes.
\<close>

section \<open>Tokens and errors\<close>

datatype numeric_kind = Fixnum_numeral | Flonum_numeral

record numeric_token =
  nt_kind :: numeric_kind
  nt_text :: string
  nt_radix :: nat

datatype token_kind = LParen | RParen | LBracket | RBracket | Quote | Backtick | Comma | CommaAt
  | Boolean bool | Char u32 | String string | Symbol string | Number numeric_token
  | Dot | VectorStart | ByteVectorStart | EOF

record token =
  tk_kind :: token_kind
  tk_span :: span

datatype lex_error_kind = Lex_UnexpectedEOF | UnterminatedString | UnterminatedComment | InvalidChar | InvalidToken
  | InvalidNumeric | InvalidUtf8 | MissingDelimiter | InvalidCodePoint | InvalidBoolean | InvalidDatum

record lex_error =
  lx_kind :: lex_error_kind
  lx_span :: span
  lx_message :: string

section \<open>Characters\<close>

abbreviation code :: "char \<Rightarrow> nat" where
  "code c \<equiv> of_char c"

definition isdigit :: "char \<Rightarrow> bool" where
  "isdigit c \<longleftrightarrow> 48 \<le> code c \<and> code c \<le> 57"

definition isalpha :: "char \<Rightarrow> bool" where
  "isalpha c \<longleftrightarrow> (65 \<le> code c \<and> code c \<le> 90) \<or> (97 \<le> code c \<and> code c \<le> 122)"

definition isspace :: "char \<Rightarrow> bool" where
  "isspace c \<longleftrightarrow> code c = 32 \<or> (9 \<le> code c \<and> code c \<le> 13)"

definition isxdigit :: "char \<Rightarrow> bool" where
  "isxdigit c \<longleftrightarrow> isdigit c \<or> (65 \<le> code c \<and> code c \<le> 70) \<or> (97 \<le> code c \<and> code c \<le> 102)"

definition tolower :: "char \<Rightarrow> char" where
  "tolower c = (if 65 \<le> code c \<and> code c \<le> 90 then char_of (code c + 32) else c)"

definition to_lower :: "string \<Rightarrow> string" where
  "to_lower s = map tolower s"

abbreviation newline :: char where
  "newline \<equiv> CHR 0x0A"

abbreviation nul :: char where
  "nul \<equiv> CHR 0x00"

section \<open>UTF-8\<close>

definition byte_char :: "u32 \<Rightarrow> char" where
  "byte_char w = char_of (unat w)"

text \<open>\<open>utf8 cp\<close> is what \<^verbatim>\<open>append_utf8\<close> appends: nothing beyond the last code point.\<close>

definition utf8 :: "u32 \<Rightarrow> string" where
  "utf8 cp =
     (if cp \<le> 0x7F then [byte_char cp]
      else if cp \<le> 0x7FF then [byte_char (0xC0 OR drop_bit 6 cp), byte_char (0x80 OR (cp AND 0x3F))]
      else if cp \<le> 0xFFFF then
        [byte_char (0xE0 OR drop_bit 12 cp), byte_char (0x80 OR (drop_bit 6 cp AND 0x3F)), byte_char (0x80 OR (cp AND 0x3F))]
      else if cp \<le> 0x10FFFF then
        [byte_char (0xF0 OR drop_bit 18 cp), byte_char (0x80 OR (drop_bit 12 cp AND 0x3F)),
         byte_char (0x80 OR (drop_bit 6 cp AND 0x3F)), byte_char (0x80 OR (cp AND 0x3F))]
      else [])"

end
