(* ===== verification/Lexer.thy ===== *)
theory Lexer
  imports Tokens
begin

text \<open>
  The numeric grammar, \<^verbatim>\<open>eta/core/src/eta/reader/numeric.h\<close>, and the lexer, \<^verbatim>\<open>lexer.{h,cpp}\<close>. The
  state is the source text with a position, a line and a column. Every routine returns its result
  and the state after it, also when it fails. Only the comment that skips a datum makes the main
  routine call itself; the fuel bounds the depth of these calls and \<open>None\<close> means that it ran out.
\<close>

section \<open>Numeric literals\<close>

datatype num_kind = Num_invalid | Num_fixnum | Num_flonum | Num_special

record numeric_result =
  np_kind :: num_kind
  np_text :: string
  np_radix :: nat
  np_error :: string

definition num_error :: "nat \<Rightarrow> string \<Rightarrow> numeric_result" where
  "num_error radix msg = \<lparr> np_kind = Num_invalid, np_text = [], np_radix = radix, np_error = msg \<rparr>"

definition is_valid_digit :: "char \<Rightarrow> nat \<Rightarrow> bool" where
  "is_valid_digit ch radix =
     (let c = tolower ch in
      if radix = 2 then c = CHR ''0'' \<or> c = CHR ''1''
      else if radix = 8 then 48 \<le> code c \<and> code c \<le> 55
      else if radix = 10 then 48 \<le> code c \<and> code c \<le> 57
      else if radix = 16 then isxdigit c
      else False)"

definition is_sign :: "char \<Rightarrow> bool" where
  "is_sign c \<longleftrightarrow> c = CHR ''+'' \<or> c = CHR ''-''"

definition is_special_float :: "string \<Rightarrow> bool" where
  "is_special_float s =
     (if length s < 5 then False
      else let start = (if is_sign (s ! 0) then 1 else 0) in
        if length s - start \<noteq> 5 then False
        else let lower = to_lower (drop start s) in lower = ''inf.0'' \<or> lower = ''nan.0'')"

text \<open>The loop that moves the characters in a class from the front of the input to the text.\<close>

definition take_class :: "(char \<Rightarrow> bool) \<Rightarrow> string \<Rightarrow> string \<times> string" where
  "take_class P s = (takeWhile P s, dropWhile P s)"

definition take_sign :: "string \<Rightarrow> string \<times> string" where
  "take_sign s = (case s of c # r \<Rightarrow> if is_sign c then ([c], r) else ([], s) | [] \<Rightarrow> ([], s))"

definition decimal_finish :: "bool \<Rightarrow> bool \<Rightarrow> string \<Rightarrow> string \<Rightarrow> numeric_result" where
  "decimal_finish has_digits inexact txt s =
     (if \<not> has_digits then num_error 10 ''no digits found''
      else if s \<noteq> [] then num_error 10 ''invalid character in number''
      else \<lparr> np_kind = (if inexact then Num_flonum else Num_fixnum), np_text = txt, np_radix = 10, np_error = [] \<rparr>)"

definition parse_decimal :: "string \<Rightarrow> string \<Rightarrow> numeric_result" where
  "parse_decimal txt s0 =
     (let (ip, s1) = take_class isdigit s0;
          (dot, fp, s2) = (case s1 of c # r \<Rightarrow> if c = CHR ''.'' then (''.'', take_class isdigit r) else ([], [], s1) | [] \<Rightarrow> ([], [], s1));
          has_digits = (ip \<noteq> [] \<or> fp \<noteq> []);
          txt' = txt @ ip @ dot @ fp
      in case s2 of
           [] \<Rightarrow> decimal_finish has_digits (dot \<noteq> []) txt' []
         | c # r \<Rightarrow>
           if c = CHR ''e'' \<or> c = CHR ''E'' then
             (let (sg, s3) = take_sign r; (ed, s4) = take_class isdigit s3 in
              if ed = [] then num_error 10 ''exponent requires digits''
              else decimal_finish has_digits True (txt' @ [c] @ sg @ ed) s4)
           else decimal_finish has_digits (dot \<noteq> []) txt' s2)"

definition parse_integer :: "nat \<Rightarrow> string \<Rightarrow> string \<Rightarrow> numeric_result" where
  "parse_integer radix txt s =
     (let (ds, r) = take_class (\<lambda>c. is_valid_digit c radix) s in
      if ds = [] then num_error radix ''no valid digits for radix''
      else if r \<noteq> [] then num_error radix ''invalid digit for radix''
      else \<lparr> np_kind = Num_fixnum, np_text = txt @ ds, np_radix = radix, np_error = [] \<rparr>)"

definition parse_numeric :: "string \<Rightarrow> nat \<Rightarrow> numeric_result" where
  "parse_numeric input radix =
     (if input = [] then num_error radix ''empty input''
      else if radix = 10 \<and> is_special_float input then
        \<lparr> np_kind = Num_special, np_text = input, np_radix = radix, np_error = [] \<rparr>
      else (let (txt, r) = take_sign input in
        if r = [] then num_error radix ''missing digits after sign''
        else if radix = 10 then parse_decimal txt r
        else parse_integer radix txt r))"

section \<open>The state\<close>

record lexer_state =
  lex_file :: u32
  source :: string
  pos :: nat
  cur_line :: u32
  cur_col :: u32
  at_bof :: bool

type_synonym 'a lex = "lexer_state \<Rightarrow> (lex_error + 'a) \<times> lexer_state"

definition new_lexer :: "u32 \<Rightarrow> string \<Rightarrow> lexer_state" where
  "new_lexer f s = \<lparr> lex_file = f, source = s, pos = 0, cur_line = 1, cur_col = 1, at_bof = True \<rparr>"

definition at_eof :: "lexer_state \<Rightarrow> bool" where
  "at_eof l \<longleftrightarrow> pos l \<ge> length (source l)"

definition peek_at :: "nat \<Rightarrow> lexer_state \<Rightarrow> char" where
  "peek_at k l = (if pos l + k < length (source l) then source l ! (pos l + k) else nul)"

definition peek_lower :: "nat \<Rightarrow> lexer_state \<Rightarrow> char" where
  "peek_lower k l = tolower (peek_at k l)"

definition adv :: "lexer_state \<Rightarrow> lexer_state" where
  "adv l =
     (if at_eof l then l
      else if source l ! pos l = newline then l\<lparr> pos := pos l + 1, cur_line := cur_line l + 1, cur_col := 1 \<rparr>
      else l\<lparr> pos := pos l + 1, cur_col := cur_col l + 1 \<rparr>)"

definition here :: "lexer_state \<Rightarrow> position" where
  "here l = \<lparr> offset = of_nat (pos l), line = cur_line l, column = cur_col l \<rparr>"

definition make_span :: "lexer_state \<Rightarrow> position \<Rightarrow> position \<Rightarrow> span" where
  "make_span l a b = \<lparr> file_id = lex_file l, span_start = a, span_end = b \<rparr>"

definition make_error :: "lex_error_kind \<Rightarrow> position \<Rightarrow> string \<Rightarrow> lexer_state \<Rightarrow> lex_error" where
  "make_error k start msg l = \<lparr> lx_kind = k, lx_span = make_span l start (here l), lx_message = msg \<rparr>"

text \<open>Sequencing with early return, the failing and the returning step.\<close>

definition lbind :: "'a lex \<Rightarrow> ('a \<Rightarrow> 'b lex) \<Rightarrow> 'b lex" where
  "lbind m k l = (case m l of (Inl e, l') \<Rightarrow> (Inl e, l') | (Inr x, l') \<Rightarrow> k x l')"

definition lfail :: "lex_error_kind \<Rightarrow> position \<Rightarrow> string \<Rightarrow> 'a lex" where
  "lfail k start msg l = (Inl (make_error k start msg l), l)"

definition lreturn :: "'a \<Rightarrow> 'a lex" where
  "lreturn x l = (Inr x, l)"

definition left_over :: "lexer_state \<Rightarrow> nat" where
  "left_over l = length (source l) - pos l"

lemma left_over_adv [simp]: "left_over (adv l) = left_over l - 1"
  by (simp add: adv_def left_over_def at_eof_def)

lemma left_over_pos: "\<not> at_eof l \<Longrightarrow> 0 < left_over l"
  by (simp add: at_eof_def left_over_def)

text \<open>The loops that push characters while they are in a class.\<close>

function collect_while :: "(char \<Rightarrow> bool) \<Rightarrow> lexer_state \<Rightarrow> string \<times> lexer_state" where
  "collect_while P l =
     (if at_eof l \<or> \<not> P (peek_at 0 l) then ([], l)
      else let (s, l') = collect_while P (adv l) in (peek_at 0 l # s, l'))"
  by auto
termination by (relation "measure (\<lambda>(P, l). left_over l)") (auto dest: left_over_pos)

declare collect_while.simps [simp del]

definition optional_sign :: "lexer_state \<Rightarrow> string \<times> lexer_state" where
  "optional_sign l = (if \<not> at_eof l \<and> is_sign (peek_at 0 l) then ([peek_at 0 l], adv l) else ([], l))"

section \<open>Delimiters\<close>

definition is_eof_char :: "char \<Rightarrow> bool" where
  "is_eof_char c \<longleftrightarrow> c = nul"

definition is_hard_delimiter :: "char \<Rightarrow> bool" where
  "is_hard_delimiter c \<longleftrightarrow> c = CHR ''('' \<or> c = CHR '')'' \<or> c = CHR ''['' \<or> c = CHR '']'' \<or>
     c = CHR 0x22 \<or> c = CHR '';'' \<or> c = CHR '','' \<or> c = CHR 0x60 \<or> c = CHR 0x27"

definition is_token_boundary :: "char \<Rightarrow> bool" where
  "is_token_boundary c \<longleftrightarrow> is_eof_char c \<or> is_hard_delimiter c \<or> isspace c"

definition is_identifier_initial :: "char \<Rightarrow> bool" where
  "is_identifier_initial c \<longleftrightarrow> isalpha c \<or> c \<in> set ''!$%&*/:<=>?^_~@''"

definition is_identifier_subsequent :: "char \<Rightarrow> bool" where
  "is_identifier_subsequent c \<longleftrightarrow> is_identifier_initial c \<or> isdigit c \<or> c \<in> set ''+-.@''"

definition require_token_boundary :: "position \<Rightarrow> string \<Rightarrow> unit lex" where
  "require_token_boundary start what l =
     (if source l = [] \<or> at_eof l then (Inr (), l)
      else if is_token_boundary (peek_at 0 l) then (Inr (), l)
      else (Inl (make_error MissingDelimiter start (what @ '' must be followed by a delimiter'') l), l))"

section \<open>Characters and strings\<close>

definition hex_value :: "char \<Rightarrow> u32" where
  "hex_value c =
     (if 48 \<le> code c \<and> code c \<le> 57 then of_nat (code c - 48)
      else if 97 \<le> code c \<and> code c \<le> 102 then of_nat (code c - 97 + 10)
      else if 65 \<le> code c \<and> code c \<le> 70 then of_nat (code c - 65 + 10)
      else 0)"

fun hex_code :: "u32 \<Rightarrow> string \<Rightarrow> u32 option" where
  "hex_code v [] = Some v"
| "hex_code v (c # cs) =
     (if v > (0x10FFFF - hex_value c) div 16 then None else hex_code (v * 16 + hex_value c) cs)"

definition is_surrogate :: "u32 \<Rightarrow> bool" where
  "is_surrogate c \<longleftrightarrow> 0xD800 \<le> c \<and> c \<le> 0xDFFF"

definition consume_hex_until_semicolon :: "u32 lex" where
  "consume_hex_until_semicolon l =
     (let start = here l; (hex, l1) = collect_while (\<lambda>c. c \<noteq> CHR '';'' \<and> isxdigit c) l in
      if \<not> at_eof l1 \<and> peek_at 0 l1 \<noteq> CHR '';'' then lfail InvalidToken start ''invalid hex digit'' l1
      else let l2 = (if \<not> at_eof l1 \<and> peek_at 0 l1 = CHR '';'' then adv l1 else l1) in
        if hex = [] then lfail InvalidToken start ''empty hex escape'' l2
        else case hex_code 0 hex of
          None \<Rightarrow> lfail InvalidCodePoint start ''Unicode escape exceeds maximum code point'' l2
        | Some v \<Rightarrow> if is_surrogate v then lfail InvalidCodePoint start ''surrogate not allowed'' l2 else (Inr v, l2))"

definition byte_at :: "nat \<Rightarrow> lexer_state \<Rightarrow> u32" where
  "byte_at k l = of_nat (code (peek_at k l))"

text \<open>The continuation bytes \<open>i\<close>, ..., \<open>need\<close>.\<close>

function utf8_tail :: "position \<Rightarrow> nat \<Rightarrow> nat \<Rightarrow> u32 \<Rightarrow> lexer_state \<Rightarrow> lex_error + u32" where
  "utf8_tail start i need v l =
     (if i > need then Inr v
      else if pos l + i \<ge> length (source l) then Inl (make_error InvalidUtf8 start ''truncated UTF-8 sequence'' l)
      else if byte_at i l AND 0xC0 \<noteq> 0x80 then Inl (make_error InvalidUtf8 start ''invalid UTF-8 sequence'' l)
      else utf8_tail start (i + 1) need (push_bit 6 v OR (byte_at i l AND 0x3F)) l)"
  by auto
termination by (relation "measure (\<lambda>(start, i, need, v, l). Suc need - i)") auto

declare utf8_tail.simps [simp del]

definition decode_utf8 :: "position \<Rightarrow> lexer_state \<Rightarrow> lex_error + u32" where
  "decode_utf8 start l =
     (if at_eof l then Inl (make_error Lex_UnexpectedEOF start [] l)
      else let b0 = byte_at 0 l; bad = Inl (make_error InvalidUtf8 start ''invalid UTF-8 sequence'' l) in
        if b0 < 0x80 then Inr b0
        else let tail_of = (\<lambda>need v. case utf8_tail start 1 need v l of Inl e \<Rightarrow> Inl e | Inr v \<Rightarrow>
            if v > 0x10FFFF \<or> is_surrogate v then Inl (make_error InvalidCodePoint start ''Unicode scalar value out of range'' l)
            else Inr v) in
        if b0 AND 0xE0 = 0xC0 then (if b0 AND 0x1F < 2 then bad else tail_of 1 (b0 AND 0x1F))
        else if b0 AND 0xF0 = 0xE0 then tail_of 2 (b0 AND 0x0F)
        else if b0 AND 0xF8 = 0xF0 then (if b0 AND 0x07 > 4 then bad else tail_of 3 (b0 AND 0x07))
        else bad)"

definition sequence_length :: "u32 \<Rightarrow> nat" where
  "sequence_length b0 = (if b0 < 0x80 then 1 else if b0 AND 0xE0 = 0xC0 then 2 else if b0 AND 0xF0 = 0xE0 then 3 else 4)"

definition escape_char :: "char \<Rightarrow> char option" where
  "escape_char c =
     (if c = CHR ''a'' then Some (CHR 0x07) else if c = CHR ''b'' then Some (CHR 0x08)
      else if c = CHR ''t'' then Some (CHR 0x09) else if c = CHR ''n'' then Some (CHR 0x0A)
      else if c = CHR ''r'' then Some (CHR 0x0D) else if c = CHR 0x22 then Some (CHR 0x22)
      else if c = CHR 0x5C then Some (CHR 0x5C) else None)"


text \<open>The body of a string literal, from the character after the opening quote.\<close>

lemma collect_while_left: "collect_while P l = (s, l') \<Longrightarrow> left_over l' \<le> left_over l"
proof (induction P l arbitrary: s l' rule: collect_while.induct)
  case (1 P l)
  show ?case
  proof (cases "at_eof l \<or> \<not> P (peek_at 0 l)")
    case True
    with "1.prems" show ?thesis by (simp add: collect_while.simps [of P l])
  next
    case False
    obtain s1 l1 where c: "collect_while P (adv l) = (s1, l1)" by fastforce
    have "left_over l1 \<le> left_over (adv l)" by (rule "1.IH" [OF False c])
    moreover have "l' = l1" using "1.prems" False c by (subst (asm) collect_while.simps) auto
    ultimately show ?thesis by simp
  qed
qed

lemma consume_hex_left: "left_over (snd (consume_hex_until_semicolon l)) \<le> left_over l"
proof -
  obtain h l1 where c: "collect_while (\<lambda>c. c \<noteq> CHR '';'' \<and> isxdigit c) l = (h, l1)" by fastforce
  from collect_while_left [OF c] show ?thesis
    by (auto simp: consume_hex_until_semicolon_def c Let_def lfail_def split: option.splits)
qed

lemma adv_pow_left: "left_over ((adv ^^ n) l) = left_over l - n"
  by (induction n) simp_all

function string_loop :: "position \<Rightarrow> string \<Rightarrow> string lex" where
  "string_loop start res l =
     (if at_eof l then lfail UnterminatedString start [] l
      else let c = peek_at 0 l in
        if c = CHR 0x22 then (Inr res, adv l)
        else if c = CHR 0x5C then
          (let l1 = adv l in
           if at_eof l1 then lfail UnterminatedString start [] l1
           else let x = peek_at 0 l1; l2 = adv l1 in
             case escape_char x of
               Some e \<Rightarrow> string_loop start (res @ [e]) l2
             | None \<Rightarrow>
                if x = CHR ''x'' \<or> x = CHR ''X'' then
                  (let h = consume_hex_until_semicolon l2 in
                   case fst h of Inl e \<Rightarrow> (Inl e, snd h)
                   | Inr v \<Rightarrow> string_loop start (res @ utf8 v) (snd h))
                else lfail InvalidToken start ''Invalid escape sequence'' l2)
        else if c = newline then lfail UnterminatedString start [] l
        else if code c < 0x80 then string_loop start (res @ [c]) (adv l)
        else (case decode_utf8 (here l) l of
            Inl e \<Rightarrow> (Inl e, l)
          | Inr v \<Rightarrow> string_loop start (res @ utf8 v) ((adv ^^ sequence_length (byte_at 0 l)) l)))"
  by auto
termination
proof (relation "measure (\<lambda>(start, res, l). left_over l)", goal_cases)
  case 1
  then show ?case by simp
next
  case (2 start res l c l1 x l2 h v)
  then show ?case using left_over_pos [of l] consume_hex_left [of "adv (adv l)"] by simp
next
  case (3 start res l c l1 x l2 e)
  then show ?case using left_over_pos [of l] by simp
next
  case (4 start res l c)
  then show ?case using left_over_pos [of l] by simp
next
  case (5 start res l c v)
  have "0 < sequence_length (byte_at 0 l)" by (simp add: sequence_length_def)
  with 5 show ?case using left_over_pos [of l] by (simp add: adv_pow_left)
qed

declare string_loop.simps [simp del]

definition consume_string :: "string lex" where
  "consume_string l = string_loop (here l) [] (adv l)"

function bar_loop :: "position \<Rightarrow> string \<Rightarrow> string lex" where
  "bar_loop start res l =
     (if at_eof l then lfail InvalidToken start ''unterminated bar identifier'' l
      else let c = peek_at 0 l in
        if c = CHR ''|'' then (Inr res, adv l)
        else if c = CHR 0x5C then
          (let l1 = adv l in
           if at_eof l1 then lfail InvalidToken start [] l1
           else let x = peek_at 0 l1; l2 = adv l1 in
             if x = CHR ''x'' \<or> x = CHR ''X'' then
               (let h = consume_hex_until_semicolon l2 in
                case fst h of Inl e \<Rightarrow> (Inl e, snd h)
                | Inr v \<Rightarrow> bar_loop start (res @ utf8 v) (snd h))
             else bar_loop start (res @ [x]) l2)
        else bar_loop start (res @ [c]) (adv l))"
  by auto
termination
proof (relation "measure (\<lambda>(start, res, l). left_over l)", goal_cases)
  case 1
  then show ?case by simp
next
  case (2 start res l c l1 x l2 h v)
  then show ?case using left_over_pos [of l] consume_hex_left [of "adv (adv l)"] by simp
next
  case (3 start res l c l1 x l2)
  then show ?case using left_over_pos [of l] by simp
next
  case (4 start res l c)
  then show ?case using left_over_pos [of l] by simp
qed

declare bar_loop.simps [simp del]

definition consume_bar_identifier :: "string lex" where
  "consume_bar_identifier l = bar_loop (here l) [] (adv l)"

text \<open>A named character; a name of one byte is the byte, as a signed character widened.\<close>

definition char_name :: "string \<Rightarrow> u32 option" where
  "char_name n =
     (if n = ''space'' then Some 0x20 else if n = ''newline'' then Some 0x0A else if n = ''tab'' then Some 0x09
      else if n = ''return'' then Some 0x0D else if n = ''linefeed'' then Some 0x0A else if n = ''backspace'' then Some 0x08
      else if n = ''alarm'' then Some 0x07 else if n = ''vtab'' then Some 0x0B else if n = ''page'' then Some 0x0C
      else if n = ''nul'' \<or> n = ''null'' then Some 0 else if n = ''escape'' then Some 0x1B
      else if n = ''delete'' \<or> n = ''del'' then Some 0x7F else None)"

definition signed_char_u32 :: "char \<Rightarrow> u32" where
  "signed_char_u32 c = (if code c < 128 then of_nat (code c) else word_of_int (int (code c) - 256))"

definition consume_char :: "u32 lex" where
  "consume_char l0 =
     (let start = here l0; l = adv l0 in
      if at_eof l then lfail InvalidChar start (''unexpected EOF after #'' @ [CHR 0x5C]) l
      else if peek_lower 0 l = CHR ''x'' then consume_hex_until_semicolon (adv l)
      else if is_hard_delimiter (peek_at 0 l) then (Inr (signed_char_u32 (peek_at 0 l)), adv l)
      else let (name, l1) = collect_while (\<lambda>c. \<not> is_hard_delimiter c \<and> \<not> isspace c) l in
        if name = [] then lfail InvalidChar start ''empty character name'' l1
        else case char_name (to_lower name) of
          Some v \<Rightarrow> (Inr v, l1)
        | None \<Rightarrow> if length name = 1 then (Inr (signed_char_u32 (name ! 0)), l1)
                   else lfail InvalidChar start (''unknown character name: '' @ name) l1)"

section \<open>Booleans and numbers\<close>

text \<open>On a mismatch the position, the line and the column are those of the call.\<close>

fun match_tail :: "string \<Rightarrow> lexer_state \<Rightarrow> lexer_state option" where
  "match_tail [] l = Some l"
| "match_tail (w # ws) l = (if at_eof l \<or> peek_lower 0 l \<noteq> w then None else match_tail ws (adv l))"

definition consume_exact_tail_icase :: "string \<Rightarrow> lexer_state \<Rightarrow> bool \<times> lexer_state" where
  "consume_exact_tail_icase w l = (case match_tail w l of None \<Rightarrow> (False, l) | Some l' \<Rightarrow> (True, l'))"

definition consume_boolean :: "bool lex" where
  "consume_boolean l =
     (let start = here l; c = peek_lower 0 l; l1 = adv l in
      if c = CHR ''t'' then
        lbind (require_token_boundary start ''boolean'') (\<lambda>_. lreturn True) (snd (consume_exact_tail_icase ''rue'' l1))
      else if c = CHR ''f'' then
        lbind (require_token_boundary start ''boolean'') (\<lambda>_. lreturn False) (snd (consume_exact_tail_icase ''alse'' l1))
      else lfail InvalidBoolean start [] l1)"

definition iequals_prefix :: "string \<Rightarrow> lexer_state \<Rightarrow> bool" where
  "iequals_prefix p l \<longleftrightarrow>
     pos l + length p \<le> length (source l) \<and> (\<forall>i < length p. peek_lower i l = p ! i)"

fun take_chars :: "nat \<Rightarrow> lexer_state \<Rightarrow> string \<times> lexer_state" where
  "take_chars 0 l = ([], l)"
| "take_chars (Suc n) l = (let (s, l') = take_chars n (adv l) in (peek_at 0 l # s, l'))"

text \<open>Without a match only the position goes back; the line and the column stay.\<close>

definition try_collect_inf_nan :: "lexer_state \<Rightarrow> string option \<times> lexer_state" where
  "try_collect_inf_nan l =
     (let saved = pos l; (sg, l1) = optional_sign l;
          (s2, l2) = (if iequals_prefix ''inf.0'' l1 then take_chars 5 l1 else ([], l1))
      in if s2 \<noteq> [] \<and> is_special_float (sg @ s2) then (Some (sg @ s2), l2)
         else let (s3, l3) = (if iequals_prefix ''nan.0'' l2 then take_chars 5 l2 else ([], l2))
           in if s3 \<noteq> [] \<and> is_special_float (sg @ s2 @ s3) then (Some (sg @ s2 @ s3), l3)
              else (None, l3\<lparr> pos := saved \<rparr>))"

function decimal_loop :: "bool \<Rightarrow> bool \<Rightarrow> lexer_state \<Rightarrow> string \<times> lexer_state" where
  "decimal_loop seen_dot seen_exp l =
     (if at_eof l then ([], l)
      else let c = peek_at 0 l in
        if is_hard_delimiter c then ([], l)
        else if isdigit c then (let r = decimal_loop seen_dot seen_exp (adv l) in (c # fst r, snd r))
        else if c = CHR ''.'' \<and> \<not> seen_dot \<and> \<not> seen_exp then (let r = decimal_loop True seen_exp (adv l) in (c # fst r, snd r))
        else if (c = CHR ''e'' \<or> c = CHR ''E'') \<and> \<not> seen_exp then
          (let sg = optional_sign (adv l); r = decimal_loop seen_dot True (snd sg) in (c # fst sg @ fst r, snd r))
        else ([], l))"
  by auto
termination
proof (relation "measure (\<lambda>(d, e, l). left_over l)", goal_cases)
  case 1
  then show ?case by simp
next
  case (2 d e l c)
  then show ?case using left_over_pos [of l] by simp
next
  case (3 d e l c)
  then show ?case using left_over_pos [of l] by simp
next
  case (4 d e l c sg)
  then show ?case using left_over_pos [of l] by (auto simp: optional_sign_def)
qed

declare decimal_loop.simps [simp del]

definition collect_number_decimal :: "lexer_state \<Rightarrow> string \<times> lexer_state" where
  "collect_number_decimal l =
     (case try_collect_inf_nan l of
        (Some s, l1) \<Rightarrow> (s, l1)
      | (None, l1) \<Rightarrow> (let (sg, l2) = optional_sign l1; (out, l3) = decimal_loop False False l2 in (sg @ out, l3)))"

definition collect_number_radix :: "nat \<Rightarrow> lexer_state \<Rightarrow> string \<times> lexer_state" where
  "collect_number_radix radix l =
     (let (sg, l1) = optional_sign l;
          (ds, l2) = collect_while (\<lambda>c. \<not> is_hard_delimiter c \<and> is_valid_digit c radix) l1
      in (sg @ ds, l2))"

definition classify_number :: "string \<Rightarrow> nat \<Rightarrow> position \<Rightarrow> token lex" where
  "classify_number body radix start l =
     (let r = parse_numeric body radix; sp = make_span l start (here l) in
      case np_kind r of
        Num_special \<Rightarrow> (Inr \<lparr> tk_kind = Number \<lparr> nt_kind = Flonum_numeral, nt_text = body, nt_radix = 10 \<rparr>, tk_span = sp \<rparr>, l)
      | Num_flonum \<Rightarrow> (Inr \<lparr> tk_kind = Number \<lparr> nt_kind = Flonum_numeral, nt_text = body, nt_radix = 10 \<rparr>, tk_span = sp \<rparr>, l)
      | Num_fixnum \<Rightarrow> (Inr \<lparr> tk_kind = Number \<lparr> nt_kind = Fixnum_numeral, nt_text = body, nt_radix = radix \<rparr>, tk_span = sp \<rparr>, l)
      | Num_invalid \<Rightarrow> lfail InvalidNumeric start (if np_error r = [] then ''unrecognized numeric format'' else np_error r) l)"

text \<open>\<open>Some\<close> the new radix when the letter is a prefix that may stand here.\<close>

definition consume_prefix :: "char \<Rightarrow> nat \<Rightarrow> nat option" where
  "consume_prefix c radix =
     (if c = CHR ''b'' \<and> radix = 10 then Some 2 else if c = CHR ''o'' \<and> radix = 10 then Some 8
      else if c = CHR ''d'' \<and> radix = 10 then Some 10 else if c = CHR ''x'' \<and> radix = 10 then Some 16
      else if c = CHR ''e'' \<or> c = CHR ''i'' then Some radix else None)"

definition number_body :: "position \<Rightarrow> nat \<Rightarrow> token lex" where
  "number_body start radix l =
     (let (body, l1) = (if radix = 10 then collect_number_decimal l else collect_number_radix radix l) in
      if body = [] then lfail InvalidNumeric start ''missing digits'' l1
      else if radix \<noteq> 10 \<and> \<not> at_eof l1 \<and> \<not> is_token_boundary (peek_at 0 l1) \<and> \<not> is_valid_digit (peek_at 0 l1) radix
      then lfail InvalidNumeric start ''invalid digit for radix'' l1
      else lbind (classify_number body radix start) (\<lambda>t.
             lbind (require_token_boundary start ''number'') (\<lambda>_. lreturn t)) l1)"

definition consume_number_with_prefixes :: "position \<Rightarrow> token lex" where
  "consume_number_with_prefixes start l =
     (let (radix, l1) = (if at_eof l then (10, l)
            else case consume_prefix (peek_lower 0 l) 10 of Some r \<Rightarrow> (r, adv l) | None \<Rightarrow> (10, l)) in
      if \<not> at_eof l1 \<and> peek_at 0 l1 = CHR ''#'' then
        (let l2 = adv l1 in
         if at_eof l2 then lfail InvalidNumeric start ''unexpected EOF after #'' l2
         else case consume_prefix (peek_lower 0 l2) radix of
           None \<Rightarrow> lfail InvalidNumeric start ''invalid number prefix'' l2
         | Some r \<Rightarrow> number_body start r (adv l2))
      else number_body start radix l1)"

section \<open>Sharp tokens and identifiers\<close>

definition consume_sharp :: "token lex" where
  "consume_sharp l0 =
     (let start = here l0; l = adv l0 in
      if at_eof l then lfail InvalidToken start [] l
      else let c = peek_lower 0 l in
        if c = CHR ''t'' \<or> c = CHR ''f'' then
          lbind consume_boolean (\<lambda>b l. (Inr \<lparr> tk_kind = Boolean b, tk_span = make_span l start (here l) \<rparr>, l)) l
        else if c = CHR 0x5C then
          lbind consume_char (\<lambda>v. lbind (require_token_boundary start ''character'') (\<lambda>_ l.
            (Inr \<lparr> tk_kind = Char v, tk_span = make_span l start (here l) \<rparr>, l))) l
        else if c = CHR ''('' then (Inr \<lparr> tk_kind = VectorStart, tk_span = make_span (adv l) start (here (adv l)) \<rparr>, adv l)
        else if c = CHR ''u'' then
          (if peek_at 1 l = CHR ''8'' \<and> peek_at 2 l = CHR ''('' then
             (let l' = adv (adv (adv l)) in (Inr \<lparr> tk_kind = ByteVectorStart, tk_span = make_span l' start (here l') \<rparr>, l'))
           else lfail InvalidToken start ''expected #u8( for bytevector'' l)
        else if c \<in> set ''bodxei'' then consume_number_with_prefixes start l
        else lfail InvalidToken start [] l)"

definition token_here :: "position \<Rightarrow> token_kind \<Rightarrow> token lex" where
  "token_here start k l = (Inr \<lparr> tk_kind = k, tk_span = make_span l start (here l) \<rparr>, l)"

definition consume_identifier :: "position \<Rightarrow> char \<Rightarrow> token lex" where
  "consume_identifier start c0 l =
     (if \<not> is_identifier_initial c0 \<and> \<not> is_sign c0 then lfail InvalidToken start [] l
      else let l1 = adv l in
        if is_sign c0 \<and> (at_eof l1 \<or> is_hard_delimiter (peek_at 0 l1) \<or> isspace (peek_at 0 l1))
        then token_here start (Symbol [c0]) l1
        else let (rest, l2) = collect_while is_identifier_subsequent l1 in
          lbind (require_token_boundary start ''identifier'') (\<lambda>_. token_here start (Symbol (c0 # rest))) l2)"

definition bare_number :: "position \<Rightarrow> token lex" where
  "bare_number start l =
     (let (body, l1) = collect_number_decimal l in
      lbind (classify_number body 10 start) (\<lambda>t. lbind (require_token_boundary start ''number'') (\<lambda>_. lreturn t)) l1)"

definition consume_bare_identifier_or_number :: "token lex" where
  "consume_bare_identifier_or_number l =
     (let start = here l; c0 = peek_at 0 l in
      if is_sign c0 then
        (if at_eof l then token_here start (Symbol [c0]) (adv l)
         else if isdigit (peek_at 1 l) \<or> peek_at 1 l = CHR ''.'' then bare_number start l
         else (case try_collect_inf_nan l of
             (Some s, l1) \<Rightarrow> classify_number s 10 start l1
           | (None, l1) \<Rightarrow> consume_identifier start c0 l1))
      else if c0 = CHR ''.'' then
        (if \<not> at_eof l \<and> isdigit (peek_at 1 l) then bare_number start l else consume_identifier start c0 l)
      else if isdigit c0 then bare_number start l
      else consume_identifier start c0 l)"


section \<open>Comments\<close>

function block_loop :: "nat \<Rightarrow> lexer_state \<Rightarrow> nat \<times> lexer_state" where
  "block_loop depth l =
     (if at_eof l \<or> depth = 0 then (depth, l)
      else if peek_at 0 l = CHR ''#'' \<and> peek_at 1 l = CHR ''|'' then block_loop (depth + 1) (adv (adv l))
      else if peek_at 0 l = CHR ''|'' \<and> peek_at 1 l = CHR ''#'' then block_loop (depth - 1) (adv (adv l))
      else block_loop depth (adv l))"
  by auto
termination
proof (relation "measure (\<lambda>(d, l). left_over l)", goal_cases)
  case 1
  then show ?case by simp
next
  case (2 d l)
  then show ?case using left_over_pos [of l] by simp
next
  case (3 d l)
  then show ?case using left_over_pos [of l] by simp
next
  case (4 d l)
  then show ?case using left_over_pos [of l] by simp
qed

declare block_loop.simps [simp del]

definition skip_block_comment :: "lexer_state \<Rightarrow> bool \<times> lexer_state" where
  "skip_block_comment l = (let (d, l') = block_loop 1 l in (d = 0, l'))"

definition skip_line :: "lexer_state \<Rightarrow> lexer_state" where
  "skip_line l = snd (collect_while (\<lambda>c. c \<noteq> newline) l)"

definition consume_directive_or_shebang :: "lexer_state \<Rightarrow> lexer_state" where
  "consume_directive_or_shebang l =
     (let was_at_line_start = (at_bof l \<and> cur_line l = 1 \<and> cur_col l \<le> 3);
          (word, l1) = collect_while (\<lambda>c. \<not> is_hard_delimiter c \<and> \<not> isspace c) l
      in if was_at_line_start \<and> to_lower word \<noteq> ''fold-case'' \<and> to_lower word \<noteq> ''no-fold-case'' then skip_line l1
         else l1)"

section \<open>Tokens\<close>

text \<open>\<^verbatim>\<open>next_token\<close> after the blanks.\<close>

definition simple_token :: "char \<Rightarrow> token_kind option" where
  "simple_token c =
     (if c = CHR ''('' then Some LParen else if c = CHR '')'' then Some RParen
      else if c = CHR ''['' then Some LBracket else if c = CHR '']'' then Some RBracket
      else if c = CHR 0x27 then Some Quote else if c = CHR 0x60 then Some Backtick else None)"

definition relabel :: "position \<Rightarrow> token \<Rightarrow> token lex" where
  "relabel start t l = (Inr (t\<lparr> tk_span := make_span l start (here l) \<rparr>), l\<lparr> at_bof := False \<rparr>)"

definition finish_token :: "position \<Rightarrow> token_kind \<Rightarrow> token lex" where
  "finish_token start k l = (Inr \<lparr> tk_kind = k, tk_span = make_span l start (here l) \<rparr>, l\<lparr> at_bof := False \<rparr>)"

definition scan_token :: "token lex" where
  "scan_token l =
     (let start = here l; c = peek_at 0 l in
      if at_eof l then finish_token start EOF l
      else case simple_token c of Some k \<Rightarrow> finish_token start k (adv l)
      | None \<Rightarrow>
        if c = CHR '','' then
          (let l1 = adv l in
           if \<not> at_eof l1 \<and> peek_at 0 l1 = CHR ''@'' then finish_token start CommaAt (adv l1)
           else finish_token start Comma l1)
        else if c = CHR 0x22 then lbind consume_string (\<lambda>s. finish_token start (String s)) l
        else if c = CHR ''#'' then lbind consume_sharp (relabel start) l
        else if c = CHR ''|'' then lbind consume_bar_identifier (\<lambda>s. finish_token start (Symbol s)) l
        else if c = CHR ''.'' then
          (if peek_at 1 l = CHR ''.'' \<and> peek_at 2 l = CHR ''.'' then finish_token start (Symbol ''...'') (adv (adv (adv l)))
           else if isdigit (peek_at 1 l) then lbind consume_bare_identifier_or_number (relabel start) l
           else finish_token start Dot (adv l))
        else lbind consume_bare_identifier_or_number (relabel start) l)"

definition opens :: "token_kind \<Rightarrow> bool" where
  "opens k \<longleftrightarrow> k \<in> {LParen, VectorStart, ByteVectorStart, LBracket}"

definition closes :: "token_kind \<Rightarrow> bool" where
  "closes k \<longleftrightarrow> k \<in> {RParen, RBracket}"

type_synonym 'a lex_opt = "lexer_state \<Rightarrow> ((lex_error + 'a) \<times> lexer_state) option"

text \<open>
  The routines that call each other. \<open>skip_close\<close> and \<open>skip_nested\<close> are the two loops of
  \<^verbatim>\<open>skip_datum\<close>: to the closer of the first delimiter, and through a nested group.
\<close>

fun next_token :: "nat \<Rightarrow> token lex_opt"
  and skip_blanks :: "nat \<Rightarrow> unit lex_opt"
  and skip_datum :: "nat \<Rightarrow> position \<Rightarrow> unit lex_opt"
  and skip_close :: "nat \<Rightarrow> token_kind \<Rightarrow> position \<Rightarrow> unit lex_opt"
  and skip_nested :: "nat \<Rightarrow> nat \<Rightarrow> position \<Rightarrow> unit lex_opt" where
  "next_token 0 l = None"
| "next_token (Suc n) l =
     (case skip_blanks n l of None \<Rightarrow> None
      | Some (Inl e, l1) \<Rightarrow> Some (Inl e, l1)
      | Some (Inr _, l1) \<Rightarrow> Some (scan_token l1))"
| "skip_blanks 0 l = None"
| "skip_blanks (Suc n) l =
     (if at_eof l then Some (Inr (), l)
      else let c = peek_at 0 l in
        if isspace c then skip_blanks n (adv l)
        else if c = CHR '';'' then skip_blanks n (skip_line l)
        else if c = CHR ''#'' \<and> peek_at 1 l = CHR ''|'' then
          (let (closed, l1) = skip_block_comment (adv (adv l)) in
           if closed then skip_blanks n l1 else Some (Inl (make_error UnterminatedComment (here l) [] l1), l1))
        else if c = CHR ''#'' \<and> peek_at 1 l = CHR '';'' then
          (case skip_datum n (here l) (adv (adv l)) of None \<Rightarrow> None
           | Some (Inl e, l1) \<Rightarrow> Some (Inl e, l1)
           | Some (Inr _, l1) \<Rightarrow> skip_blanks n l1)
        else if c = CHR ''#'' \<and> peek_at 1 l = CHR ''!'' then
          skip_blanks n (consume_directive_or_shebang (adv (adv l)))
        else Some (Inr (), l))"
| "skip_datum 0 start l = None"
| "skip_datum (Suc n) start l =
     (case next_token n l of None \<Rightarrow> None
      | Some (Inl e, l1) \<Rightarrow> Some (lfail Lex_UnexpectedEOF start ''unterminated datum comment'' l1)
      | Some (Inr t, l1) \<Rightarrow>
        (case tk_kind t of
           EOF \<Rightarrow> Some (lfail Lex_UnexpectedEOF start ''unterminated datum comment'' l1)
         | LParen \<Rightarrow> skip_close n RParen start l1
         | VectorStart \<Rightarrow> skip_close n RParen start l1
         | ByteVectorStart \<Rightarrow> skip_close n RParen start l1
         | LBracket \<Rightarrow> skip_close n RBracket start l1
         | Quote \<Rightarrow> skip_datum n start l1
         | Backtick \<Rightarrow> skip_datum n start l1
         | Comma \<Rightarrow> skip_datum n start l1
         | CommaAt \<Rightarrow> skip_datum n start l1
         | RParen \<Rightarrow> Some (lfail InvalidDatum start ''expected a datum after #; but found a delimiter'' l1)
         | RBracket \<Rightarrow> Some (lfail InvalidDatum start ''expected a datum after #; but found a delimiter'' l1)
         | Dot \<Rightarrow> Some (lfail InvalidDatum start ''expected a datum after #; but found a delimiter'' l1)
         | _ \<Rightarrow> Some (Inr (), l1)))"
| "skip_close 0 close start l = None"
| "skip_close (Suc n) close start l =
     (case next_token n l of None \<Rightarrow> None
      | Some (Inl e, l1) \<Rightarrow> Some (Inl e, l1)
      | Some (Inr t, l1) \<Rightarrow>
        if tk_kind t = EOF then Some (lfail Lex_UnexpectedEOF start ''unterminated datum comment'' l1)
        else if tk_kind t = close then Some (Inr (), l1)
        else if opens (tk_kind t) then
          (case skip_nested n 1 start l1 of None \<Rightarrow> None
           | Some (Inl e, l2) \<Rightarrow> Some (Inl e, l2)
           | Some (Inr _, l2) \<Rightarrow> skip_close n close start l2)
        else skip_close n close start l1)"
| "skip_nested 0 depth start l = None"
| "skip_nested (Suc n) depth start l =
     (if depth = 0 then Some (Inr (), l)
      else case next_token n l of None \<Rightarrow> None
      | Some (Inl e, l1) \<Rightarrow> Some (Inl e, l1)
      | Some (Inr t, l1) \<Rightarrow>
        if tk_kind t = EOF then Some (lfail Lex_UnexpectedEOF start ''unterminated datum comment'' l1)
        else if opens (tk_kind t) then skip_nested n (depth + 1) start l1
        else if closes (tk_kind t) then skip_nested n (depth - 1) start l1
        else skip_nested n depth start l1)"

text \<open>Enough fuel for the text that is left.\<close>

definition lex_fuel :: "lexer_state \<Rightarrow> nat" where
  "lex_fuel l = 3 * left_over l + 2"

definition lex_next :: "token lex" where
  "lex_next l = the (next_token (lex_fuel l) l)"


section \<open>Every routine moves forward\<close>

text \<open>
  \<open>placed\<close>: the position is in the text and the line counts the newlines before it. \<open>moved\<close>: the
  text is the same, the position did not go back and the state is still placed. \<open>reads l s l'\<close>:
  what was passed over is \<open>s\<close>.
\<close>

definition newlines :: "nat \<Rightarrow> string \<Rightarrow> nat" where
  "newlines n s = count_list (take n s) newline"

definition placed :: "lexer_state \<Rightarrow> bool" where
  "placed l \<longleftrightarrow> pos l \<le> length (source l) \<and> cur_line l = 1 + of_nat (newlines (pos l) (source l))"

definition moved :: "lexer_state \<Rightarrow> lexer_state \<Rightarrow> bool" where
  "moved l l' \<longleftrightarrow> source l' = source l \<and> lex_file l' = lex_file l \<and> pos l \<le> pos l' \<and> (placed l \<longrightarrow> placed l')"

definition reads :: "lexer_state \<Rightarrow> string \<Rightarrow> lexer_state \<Rightarrow> bool" where
  "reads l s l' \<longleftrightarrow> moved l l' \<and> pos l' = pos l + length s \<and> take (length s) (drop (pos l) (source l)) = s"

lemma moved_refl [simp, intro]: "moved l l"
  by (simp add: moved_def)

lemma moved_trans [trans]: "moved l l1 \<Longrightarrow> moved l1 l2 \<Longrightarrow> moved l l2"
  by (auto simp: moved_def)

lemma moved_bof [simp]: "moved l (l'\<lparr> at_bof := b \<rparr>) \<longleftrightarrow> moved l l'"
  by (simp add: moved_def placed_def)

lemma reads_moved: "reads l s l' \<Longrightarrow> moved l l'"
  by (simp add: reads_def)

lemma reads_nil [simp, intro]: "reads l [] l"
  by (simp add: reads_def)

lemma reads_append:
  assumes "reads l s l1" "reads l1 t l2"
  shows "reads l (s @ t) l2"
proof -
  have "source l1 = source l" "pos l1 = pos l + length s" using assms(1) by (auto simp: reads_def moved_def)
  moreover from this have "take (length t) (drop (length s) (drop (pos l) (source l))) = t"
    using assms(2) by (simp add: reads_def add.commute)
  ultimately show ?thesis
    using assms moved_trans [OF reads_moved [OF assms(1)] reads_moved [OF assms(2)]]
    by (simp add: reads_def take_add)
qed

lemma newlines_Suc: "n < length s \<Longrightarrow> newlines (Suc n) s = newlines n s + (if s ! n = newline then 1 else 0)"
  by (simp add: newlines_def take_Suc_conv_app_nth)

lemma moved_adv [simp, intro]: "moved l (adv l)"
  by (auto simp: moved_def adv_def placed_def at_eof_def newlines_Suc not_le)

lemma moved_adv_iff: "moved l l' \<Longrightarrow> moved l (adv l')"
  using moved_adv moved_trans by blast

lemma reads_adv: "\<not> at_eof l \<Longrightarrow> reads l [peek_at 0 l] (adv l)"
  using moved_adv [of l] by (simp add: reads_def adv_def at_eof_def peek_at_def take_Suc_conv_app_nth hd_drop_conv_nth take_Suc)

lemma moved_adv_pow [simp]: "moved l ((adv ^^ n) l)"
  by (induction n) (auto intro: moved_adv_iff)

lemma pos_adv: "\<not> at_eof l \<Longrightarrow> pos (adv l) = pos l + 1"
  by (simp add: adv_def)

lemma adv_line: "peek_at 0 l \<noteq> newline \<Longrightarrow> cur_line (adv l) = cur_line l"
  by (auto simp: adv_def peek_at_def at_eof_def split: if_splits)

text \<open>A routine that moves on both outcomes.\<close>

definition lex_ok :: "'a lex \<Rightarrow> bool" where
  "lex_ok m \<longleftrightarrow> (\<forall>l. moved l (snd (m l)))"

named_theorems lex_oks \<open>routines that move forward\<close>

lemma lex_okD: "lex_ok m \<Longrightarrow> moved l (snd (m l))"
  by (simp add: lex_ok_def)

lemma lex_okE: "lex_ok m \<Longrightarrow> m l = (r, l') \<Longrightarrow> moved l l'"
  by (metis lex_okD snd_conv)

lemma lex_ok_at: "lex_ok m \<Longrightarrow> moved l l' \<Longrightarrow> moved l (snd (m l'))"
  using lex_okD moved_trans by blast

lemma lex_ok_fail [lex_oks]: "lex_ok (lfail k start msg)"
  by (simp add: lex_ok_def lfail_def)

lemma moved_lfail [simp]: "snd (lfail k start msg l) = l" "fst (lfail k start msg l) = Inl (make_error k start msg l)"
  by (simp_all add: lfail_def)

lemma lex_ok_return [lex_oks]: "lex_ok (lreturn x)"
  by (simp add: lex_ok_def lreturn_def)

lemma lex_ok_bind [lex_oks]: "lex_ok m \<Longrightarrow> (\<And>x. lex_ok (k x)) \<Longrightarrow> lex_ok (lbind m k)"
  unfolding lex_ok_def lbind_def by (auto split: prod.splits sum.splits) (metis moved_trans snd_conv)+

lemma lex_ok_boundary [lex_oks]: "lex_ok (require_token_boundary start what)"
  by (simp add: lex_ok_def require_token_boundary_def)

lemma reads_collect: "collect_while P l = (s, l') \<Longrightarrow> reads l s l'"
proof (induction P l arbitrary: s l' rule: collect_while.induct)
  case (1 P l)
  show ?case
  proof (cases "at_eof l \<or> \<not> P (peek_at 0 l)")
    case True
    with "1.prems" show ?thesis by (simp add: collect_while.simps [of P l])
  next
    case False
    obtain s1 l1 where c: "collect_while P (adv l) = (s1, l1)" by fastforce
    have "reads (adv l) s1 l1" by (rule "1.IH" [OF False c])
    moreover have "s = [peek_at 0 l] @ s1" "l' = l1" using "1.prems" False c by (subst (asm) collect_while.simps, auto)+
    ultimately show ?thesis using reads_append [OF reads_adv] False by metis
  qed
qed

lemma reads_optional_sign: "optional_sign l = (s, l') \<Longrightarrow> reads l s l'"
  by (auto simp: optional_sign_def reads_adv split: if_splits)

lemma optional_sign_line: "optional_sign l = (s, l') \<Longrightarrow> cur_line l' = cur_line l"
  by (auto simp: optional_sign_def adv_line is_sign_def split: if_splits)

lemma lex_ok_hex [lex_oks]: "lex_ok consume_hex_until_semicolon"
  unfolding lex_ok_def consume_hex_until_semicolon_def
  by (auto simp: Let_def split: prod.splits option.splits
      intro: moved_adv_iff dest!: reads_collect [THEN reads_moved])

lemma moved_hex: "moved l0 l \<Longrightarrow> moved l0 (snd (consume_hex_until_semicolon l))"
  using lex_okD [OF lex_ok_hex] moved_trans by blast

lemma moved_string_loop: "moved l0 l \<Longrightarrow> moved l0 (snd (string_loop start res l))"
proof (induction start res l rule: string_loop.induct)
  case (1 start res l)
  define c where "c = peek_at 0 l"
  define l2 where "l2 = adv (adv l)"
  define x where "x = peek_at 0 (adv l)"
  have m2: "moved l0 l2" using "1.prems" by (simp add: l2_def moved_adv_iff)
  have mh: "moved l0 (snd (consume_hex_until_semicolon l2))" using m2 by (rule moved_hex)
  have mp: "moved l0 ((adv ^^ n) l)" for n using "1.prems" moved_adv_pow moved_trans by blast
  consider "at_eof l" | "\<not> at_eof l" "c = CHR 0x22" | "\<not> at_eof l" "c = CHR 0x5C" | "\<not> at_eof l" "c \<noteq> CHR 0x22" "c \<noteq> CHR 0x5C"
    by blast
  then show ?case
  proof cases
    case 3
    note ih = "1.IH"(1,2) [OF 3(1) refl _ _ refl _ refl refl, folded c_def x_def l2_def]
    show ?thesis
      by (subst string_loop.simps, cases "escape_char x")
        (auto simp: 3 Let_def m2 mh "1.prems" moved_adv_iff c_def [symmetric] x_def [symmetric] l2_def [symmetric]
          split: sum.splits intro: ih)
  next
    case 4
    note ih = "1.IH"(3,4) [OF 4(1) refl, folded c_def, OF 4(2,3)]
    show ?thesis
      by (subst string_loop.simps)
        (auto simp: 4 Let_def mp "1.prems" moved_adv_iff c_def [symmetric] split: sum.splits intro: ih)
  qed (subst string_loop.simps, simp add: "1.prems" moved_adv_iff c_def Let_def)+
qed


lemma lex_ok_string [lex_oks]: "lex_ok consume_string"
  by (simp add: lex_ok_def consume_string_def moved_string_loop)

lemma moved_bar_loop: "moved l0 l \<Longrightarrow> moved l0 (snd (bar_loop start res l))"
proof (induction start res l rule: bar_loop.induct)
  case (1 start res l)
  define c where "c = peek_at 0 l"
  define l2 where "l2 = adv (adv l)"
  define x where "x = peek_at 0 (adv l)"
  have m2: "moved l0 l2" using "1.prems" by (simp add: l2_def moved_adv_iff)
  have mh: "moved l0 (snd (consume_hex_until_semicolon l2))" using m2 by (rule moved_hex)
  consider "at_eof l" | "\<not> at_eof l" "c = CHR ''|''" | "\<not> at_eof l" "c = CHR 0x5C" | "\<not> at_eof l" "c \<noteq> CHR ''|''" "c \<noteq> CHR 0x5C"
    by blast
  then show ?case
  proof cases
    case 3
    note ih = "1.IH"(1,2) [OF 3(1) refl _ _ refl _ refl refl, folded c_def x_def l2_def]
    show ?thesis
      by (subst bar_loop.simps)
        (auto simp: 3 Let_def m2 mh "1.prems" moved_adv_iff c_def [symmetric] x_def [symmetric] l2_def [symmetric]
          split: sum.splits intro: ih)
  next
    case 4
    note ih = "1.IH"(3) [OF 4(1) refl, folded c_def, OF 4(2,3)]
    show ?thesis
      by (subst bar_loop.simps)
        (auto simp: 4 Let_def "1.prems" moved_adv_iff c_def [symmetric] split: sum.splits intro: ih)
  qed (subst bar_loop.simps, simp add: "1.prems" moved_adv_iff c_def Let_def)+
qed

lemma lex_ok_bar [lex_oks]: "lex_ok consume_bar_identifier"
  by (simp add: lex_ok_def consume_bar_identifier_def moved_bar_loop)

lemma collect_moved: "collect_while P l = (s, l') \<Longrightarrow> moved l l'"
  by (rule reads_moved [OF reads_collect])

lemma lex_ok_char [lex_oks]: "lex_ok consume_char"
  unfolding lex_ok_def consume_char_def
  by (auto simp: Let_def moved_adv_iff moved_hex split: prod.splits option.splits
      intro: moved_trans [OF moved_adv collect_moved])

lemma match_tail_moved: "match_tail w l = Some l' \<Longrightarrow> moved l l'"
  by (induction w l rule: match_tail.induct) (auto split: if_splits intro: moved_trans)

lemma lex_ok_boolean [lex_oks]: "lex_ok consume_boolean"
proof (unfold lex_ok_def, intro allI)
  fix l
  have t: "moved l (snd (consume_exact_tail_icase w (adv l)))" for w
    using match_tail_moved moved_trans by (fastforce simp: consume_exact_tail_icase_def split: option.split)
  have "lex_ok (lbind (require_token_boundary s w) (\<lambda>_. lreturn b))" for s w and b :: bool
    by (intro lex_oks)
  from lex_ok_at [OF this t] show "moved l (snd (consume_boolean l))"
    by (simp add: consume_boolean_def Let_def)
qed

lemma lex_ok_classify [lex_oks]: "lex_ok (classify_number body radix start)"
  by (simp add: lex_ok_def classify_number_def Let_def split: num_kind.split)

lemma reads_take_chars:
  "pos l + n \<le> length (source l) \<Longrightarrow> take_chars n l = (s, l') \<Longrightarrow> reads l s l' \<and> length s = n"
proof (induction n arbitrary: l s)
  case (Suc n)
  obtain s1 where s: "s = peek_at 0 l # s1" "take_chars n (adv l) = (s1, l')"
    using Suc.prems(2) by (auto split: prod.splits)
  have e: "\<not> at_eof l" using Suc.prems(1) by (simp add: at_eof_def)
  then have "pos (adv l) + n \<le> length (source (adv l))" using Suc.prems(1) by (simp add: adv_def)
  from Suc.IH [OF this s(2)] show ?case using reads_append [OF reads_adv [OF e]] s(1) by fastforce
qed simp

lemma take_chars_line:
  "(\<And>i. i < n \<Longrightarrow> peek_at i l \<noteq> newline) \<Longrightarrow> take_chars n l = (s, l') \<Longrightarrow> cur_line l' = cur_line l"
proof (induction n arbitrary: l s)
  case (Suc n)
  obtain s1 where s: "take_chars n (adv l) = (s1, l')"
    using Suc.prems(2) by (auto split: prod.splits)
  have z: "peek_at 0 l \<noteq> newline" using Suc.prems(1) [of 0] by simp
  have "peek_at i (adv l) \<noteq> newline" if "i < n" for i
    using Suc.prems(1) [of "Suc i"] that by (auto simp: adv_def peek_at_def at_eof_def split: if_splits)
  from Suc.IH [OF this s] show ?case using adv_line [OF z] by simp
qed simp

declare take_chars.simps [simp del]

lemma prefix_step:
  assumes "iequals_prefix p l" "set p \<subseteq> {c. c \<noteq> newline \<and> tolower c = c}" "take_chars k l = (s, l')" "k = length p"
  shows "reads l s l'" "length s = length p" "cur_line l' = cur_line l"
proof -
  have n: "peek_at i l \<noteq> newline" if "i < length p" for i
  proof -
    have "p ! i \<noteq> newline" using assms(2) nth_mem [OF that] by auto
    moreover have "tolower (peek_at i l) = p ! i" using assms(1) that by (simp add: iequals_prefix_def peek_lower_def)
    moreover have "tolower newline = newline" by (simp add: tolower_def)
    ultimately show ?thesis by metis
  qed
  show "cur_line l' = cur_line l" using take_chars_line [OF n assms(3) [unfolded assms(4)]] by simp
  have "pos l + length p \<le> length (source l)" using assms(1) by (simp add: iequals_prefix_def)
  from reads_take_chars [OF this assms(3) [unfolded assms(4)]] show "reads l s l'" "length s = length p" by simp_all
qed


lemma special_step:
  assumes "p = ''inf.0'' \<or> p = ''nan.0''" "(if iequals_prefix p l then take_chars 5 l else ([], l)) = (s, l')"
  shows "reads l s l'" "cur_line l' = cur_line l"
proof -
  have k: "5 = length p" and c: "set p \<subseteq> {c. c \<noteq> newline \<and> tolower c = c}"
    using assms(1) by (auto simp: tolower_def)
  have "reads l s l' \<and> cur_line l' = cur_line l"
  proof (cases "iequals_prefix p l")
    case True
    then have "take_chars 5 l = (s, l')" using assms(2) by simp
    from prefix_step [OF True c this k] show ?thesis by blast
  next
    case False
    with assms(2) show ?thesis by auto
  qed
  then show "reads l s l'" "cur_line l' = cur_line l" by simp_all
qed

lemma special_no_prefix:
  assumes "try_collect_inf_nan l = (r, l')"
  shows "case r of Some s \<Rightarrow> reads l s l' | None \<Rightarrow> moved l l' \<and> pos l' = pos l"
proof -
  obtain sg l1 where sg: "optional_sign l = (sg, l1)" by fastforce
  obtain s2 l2 where s2: "(if iequals_prefix ''inf.0'' l1 then take_chars 5 l1 else ([], l1)) = (s2, l2)" by fastforce
  obtain s3 l3 where s3: "(if iequals_prefix ''nan.0'' l2 then take_chars 5 l2 else ([], l2)) = (s3, l3)" by fastforce
  have r1: "reads l sg l1" "cur_line l1 = cur_line l" using sg reads_optional_sign optional_sign_line by auto
  have r2: "reads l1 s2 l2" "cur_line l2 = cur_line l1"
    by (rule special_step [OF _ s2], simp)+
  have r3: "reads l2 s3 l3" "cur_line l3 = cur_line l2"
    by (rule special_step [OF _ s3], simp)+
  have a2: "reads l (sg @ s2) l2" by (rule reads_append [OF r1(1) r2(1)])
  have a3: "reads l (sg @ s2 @ s3) l3" using reads_append [OF a2 r3(1)] by simp
  have "moved l (l3\<lparr> pos := pos l \<rparr>)"
    using reads_moved [OF a3] r1(2) r2(2) r3(2) by (auto simp: moved_def placed_def)
  then show ?thesis
    using assms a2 a3 by (auto simp: try_collect_inf_nan_def sg s2 s3 Let_def split: if_splits)
qed

lemma reads_special: "try_collect_inf_nan l = (Some s, l') \<Longrightarrow> reads l s l'"
  using special_no_prefix by fastforce

lemma special_none: "try_collect_inf_nan l = (None, l') \<Longrightarrow> reads l [] l'"
  using special_no_prefix by (fastforce simp: reads_def)

lemma reads_decimal_loop: "decimal_loop d e l = (s, l') \<Longrightarrow> reads l s l'"
proof (induction d e l arbitrary: s l' rule: decimal_loop.induct)
  case (1 d e l)
  define c where "c = peek_at 0 l"
  have step: "reads l (c # t) l2" if "\<not> at_eof l" "reads (adv l) t l2" for t l2
    using reads_append [OF reads_adv [OF that(1)] that(2)] by (simp add: c_def)
  note ih = "1.IH" [OF _ c_def]
  show ?case
  proof (cases "at_eof l \<or> is_hard_delimiter c")
    case True
    with "1.prems" show ?thesis by (subst (asm) decimal_loop.simps) (auto simp: c_def Let_def split: if_splits)
  next
    case False
    consider "isdigit c" | "\<not> isdigit c" "c = CHR ''.'' \<and> \<not> d \<and> \<not> e"
      | "\<not> isdigit c" "\<not> (c = CHR ''.'' \<and> \<not> d \<and> \<not> e)" "(c = CHR ''e'' \<or> c = CHR ''E'') \<and> \<not> e"
      | "\<not> isdigit c" "\<not> (c = CHR ''.'' \<and> \<not> d \<and> \<not> e)" "\<not> ((c = CHR ''e'' \<or> c = CHR ''E'') \<and> \<not> e)" by blast
    then show ?thesis
    proof cases
      case 1
      obtain t l2 where r: "decimal_loop d e (adv l) = (t, l2)" by fastforce
      have "reads (adv l) t l2" using ih(1) False 1 r by blast
      from step [OF _ this] show ?thesis
        using "1.prems" False 1 r by (subst (asm) decimal_loop.simps) (auto simp: c_def Let_def)
    next
      case 2
      obtain t l2 where r: "decimal_loop True e (adv l) = (t, l2)" by fastforce
      have "reads (adv l) t l2" using ih(2) False 2 r by blast
      from step [OF _ this] show ?thesis
        using "1.prems" False 2 r by (subst (asm) decimal_loop.simps) (auto simp: c_def Let_def)
    next
      case 3
      obtain sg l1 where sg: "optional_sign (adv l) = (sg, l1)" by fastforce
      obtain t l2 where r: "decimal_loop d True l1 = (t, l2)" by fastforce
      have "reads l1 t l2" using ih(3) False 3 r sg by (metis snd_conv)
      from step [OF _ reads_append [OF reads_optional_sign [OF sg] this]] show ?thesis
        using "1.prems" False 3 r sg by (subst (asm) decimal_loop.simps) (auto simp: c_def Let_def)
    next
      case 4
      with False "1.prems" show ?thesis
        by (subst (asm) decimal_loop.simps) (auto simp: c_def Let_def split: if_splits)
    qed
  qed
qed

lemma reads_number_decimal: "collect_number_decimal l = (s, l') \<Longrightarrow> reads l s l'"
  unfolding collect_number_decimal_def
  by (auto split: prod.splits option.splits
      dest!: reads_special special_none reads_optional_sign reads_decimal_loop dest: reads_append)

lemma reads_number_radix: "collect_number_radix r l = (s, l') \<Longrightarrow> reads l s l'"
  unfolding collect_number_radix_def
  by (auto split: prod.splits dest!: reads_optional_sign reads_collect dest: reads_append)

lemma lex_ok_number_body [lex_oks]: "lex_ok (number_body start radix)"
proof (unfold lex_ok_def, intro allI)
  fix l
  obtain b l1 where b: "(if radix = 10 then collect_number_decimal l else collect_number_radix radix l) = (b, l1)" by fastforce
  then have m: "moved l l1" by (auto split: if_splits dest: reads_number_decimal reads_number_radix reads_moved)
  have k: "lex_ok (lbind (classify_number b radix start) (\<lambda>t. lbind (require_token_boundary start ''number'') (\<lambda>_. lreturn t)))"
    by (intro lex_oks)
  show "moved l (snd (number_body start radix l))"
    unfolding number_body_def by (simp add: b m lex_ok_at [OF k m])
qed

lemma lex_ok_prefixes [lex_oks]: "lex_ok (consume_number_with_prefixes start)"
proof (unfold lex_ok_def, intro allI)
  fix l
  have n: "moved l l' \<Longrightarrow> moved l (snd (number_body start r l'))" for r l'
    by (rule lex_ok_at [OF lex_ok_number_body])
  show "moved l (snd (consume_number_with_prefixes start l))"
    unfolding consume_number_with_prefixes_def
    by (auto simp: Let_def moved_adv_iff n split: option.splits)
qed

lemma lex_ok_token_here [lex_oks]: "lex_ok (token_here start k)"
  by (simp add: lex_ok_def token_here_def)

lemma lex_ok_finish [lex_oks]: "lex_ok (finish_token start k)"
  by (simp add: lex_ok_def finish_token_def)

lemma lex_ok_relabel [lex_oks]: "lex_ok (relabel start t)"
  by (simp add: lex_ok_def relabel_def)


lemma lex_ok_sharp_tail:
  "lex_ok (lbind consume_boolean (\<lambda>b l. (Inr \<lparr> tk_kind = Boolean b, tk_span = make_span l start (here l) \<rparr>, l)))"
  "lex_ok (lbind consume_char (\<lambda>v. lbind (require_token_boundary start ''character'') (\<lambda>_ l.
     (Inr \<lparr> tk_kind = Char v, tk_span = make_span l start (here l) \<rparr>, l))))"
proof -
  have r: "lex_ok (\<lambda>l. (Inr \<lparr> tk_kind = k, tk_span = make_span l start (here l) \<rparr>, l))" for k
    by (simp add: lex_ok_def)
  show "lex_ok (lbind consume_boolean (\<lambda>b l. (Inr \<lparr> tk_kind = Boolean b, tk_span = make_span l start (here l) \<rparr>, l)))"
    by (intro lex_oks r)
  show "lex_ok (lbind consume_char (\<lambda>v. lbind (require_token_boundary start ''character'') (\<lambda>_ l.
     (Inr \<lparr> tk_kind = Char v, tk_span = make_span l start (here l) \<rparr>, l))))"
    by (intro lex_oks r)
qed

lemma moved_sharp: "moved (adv l) (snd (consume_sharp l))"
proof -
  have c: "lex_ok (consume_number_with_prefixes (here l))" by (intro lex_oks)
  show ?thesis
    unfolding consume_sharp_def Let_def
    using lex_okD [OF lex_ok_sharp_tail(1) [of "here l"], of "adv l"]
      lex_okD [OF lex_ok_sharp_tail(2) [of "here l"], of "adv l"] lex_okD [OF c, of "adv l"]
    by (simp add: moved_adv_iff)
qed

lemma lex_ok_sharp [lex_oks]: "lex_ok consume_sharp"
  unfolding lex_ok_def using moved_trans [OF moved_adv moved_sharp] by blast

lemma moved_string: "moved (adv l) (snd (consume_string l))"
  by (simp add: consume_string_def moved_string_loop)

lemma moved_bar: "moved (adv l) (snd (consume_bar_identifier l))"
  by (simp add: consume_bar_identifier_def moved_bar_loop)

lemma moved_identifier:
  "moved l (snd (consume_identifier start c l))"
  "fst (consume_identifier start c l) = Inr t \<Longrightarrow> moved (adv l) (snd (consume_identifier start c l))"
proof -
  obtain s l2 where c: "collect_while is_identifier_subsequent (adv l) = (s, l2)" by fastforce
  have k: "lex_ok (lbind (require_token_boundary start ''identifier'') (\<lambda>_. token_here start (Symbol (c # s))))"
    by (intro lex_oks)
  have m: "moved (adv l) l2" by (rule collect_moved [OF c])
  have "moved (adv l) (snd (consume_identifier start c l)) \<or> (consume_identifier start c l = lfail InvalidToken start [] l)"
    using lex_ok_at [OF k m] by (simp add: consume_identifier_def Let_def c token_here_def)
  then show "moved l (snd (consume_identifier start c l))"
    "fst (consume_identifier start c l) = Inr t \<Longrightarrow> moved (adv l) (snd (consume_identifier start c l))"
    using moved_trans [OF moved_adv] by (auto simp: lfail_def)
qed

lemma bind_Inr: "fst (lbind m k l) = Inr y \<Longrightarrow> \<exists>x. fst (m l) = Inr x \<and> lbind m k l = k x (snd (m l))"
  by (auto simp: lbind_def split: prod.splits sum.splits)

lemma classify_empty: "fst (classify_number [] r s l) \<noteq> Inr t"
  by (simp add: classify_number_def parse_numeric_def num_error_def Let_def)

lemma moved_bare_number:
  "moved l (snd (bare_number start l))"
  "fst (bare_number start l) = Inr t \<Longrightarrow> pos l < pos (snd (bare_number start l))"
proof -
  obtain b l1 where b: "collect_number_decimal l = (b, l1)" by fastforce
  let ?k = "lbind (classify_number b 10 start) (\<lambda>t. lbind (require_token_boundary start ''number'') (\<lambda>_. lreturn t))"
  have k: "lex_ok ?k" by (intro lex_oks)
  have r: "reads l b l1" by (rule reads_number_decimal [OF b])
  have e: "bare_number start l = ?k l1" by (simp add: bare_number_def b)
  show "moved l (snd (bare_number start l))" unfolding e by (rule lex_ok_at [OF k reads_moved [OF r]])
  assume "fst (bare_number start l) = Inr t"
  then have "b \<noteq> []" unfolding e using bind_Inr classify_empty by fastforce
  then have "0 < length b" by simp
  moreover have "pos l1 \<le> pos (snd (?k l1))" using lex_okD [OF k] by (simp add: moved_def)
  moreover have "pos l1 = pos l + length b" using r by (simp add: reads_def)
  ultimately show "pos l < pos (snd (bare_number start l))" unfolding e by linarith
qed

lemma moved_bare:
  "moved l (snd (consume_bare_identifier_or_number l))"
  "fst (consume_bare_identifier_or_number l) = Inr t \<Longrightarrow> \<not> at_eof l \<Longrightarrow>
     pos l < pos (snd (consume_bare_identifier_or_number l))"
proof -
  obtain r l1 where s: "try_collect_inf_nan l = (r, l1)" by fastforce
  have c: "moved l1 (snd (classify_number x 10 (here l) l1))" for x using lex_okD [OF lex_ok_classify] .
  have m1: "moved l l1" using special_no_prefix [OF s] by (auto split: option.splits dest: reads_moved)
  note i = moved_identifier(1) [of _ "here l" "peek_at 0 l"]
  show "moved l (snd (consume_bare_identifier_or_number l))"
    using m1 moved_trans [OF m1 c] moved_trans [OF m1 i] i moved_bare_number(1)
    by (auto simp: consume_bare_identifier_or_number_def Let_def s token_here_def split: option.splits)
  assume ok: "fst (consume_bare_identifier_or_number l) = Inr t" and e: "\<not> at_eof l"
  have "pos l < pos (adv l)" using e by (simp add: pos_adv)
  have n: "pos l < pos (snd (consume_identifier (here l) c l'))"
    if "fst (consume_identifier (here l) c l') = Inr t" "pos l' = pos l" "source l' = source l" for c l'
  proof -
    have "\<not> at_eof l'" using e that by (simp add: at_eof_def)
    then show ?thesis using moved_identifier(2) [OF that(1)] pos_adv [of l'] that(2) by (simp add: moved_def)
  qed
  have p: "pos l < pos (snd (classify_number x 10 (here l) l1))"
    if "r = Some x" "fst (classify_number x 10 (here l) l1) = Inr t" for x
  proof -
    have "x \<noteq> []" using that(2) classify_empty by blast
    moreover have "reads l x l1" using special_no_prefix [OF s] that(1) by simp
    ultimately show ?thesis using c [of x] by (simp add: reads_def moved_def) (metis length_greater_0_conv less_le_trans less_add_same_cancel1)
  qed
  have q: "r = None \<Longrightarrow> pos l1 = pos l \<and> source l1 = source l"
    using special_no_prefix [OF s] by (auto simp: moved_def)
  show "pos l < pos (snd (consume_bare_identifier_or_number l))"
    using ok e n p q moved_bare_number(2) \<open>pos l < pos (adv l)\<close>
    by (auto simp: consume_bare_identifier_or_number_def Let_def s split: option.splits if_splits)
qed

lemma lex_ok_bare [lex_oks]: "lex_ok consume_bare_identifier_or_number"
  by (simp add: lex_ok_def moved_bare)

text \<open>What a token that was read satisfies: it is not the end, and a numeral is one of the grammar.\<close>

definition valid_numeral :: "numeric_token \<Rightarrow> bool" where
  "valid_numeral n \<longleftrightarrow>
     (if nt_kind n = Fixnum_numeral then nt_radix n \<in> {2, 8, 10, 16} \<and> np_kind (parse_numeric (nt_text n) (nt_radix n)) = Num_fixnum
      else np_kind (parse_numeric (nt_text n) 10) \<in> {Num_flonum, Num_special})"

definition tok_ok :: "token \<Rightarrow> bool" where
  "tok_ok t \<longleftrightarrow> tk_kind t \<noteq> EOF \<and> (case tk_kind t of Number n \<Rightarrow> valid_numeral n | _ \<Rightarrow> True)"

definition gives_ok :: "token lex \<Rightarrow> bool" where
  "gives_ok m \<longleftrightarrow> (\<forall>l t. fst (m l) = Inr t \<longrightarrow> tok_ok t)"

named_theorems gives_oks \<open>routines that deliver only sound tokens\<close>

lemma gives_fail [gives_oks]: "gives_ok (lfail k start msg)"
  by (simp add: gives_ok_def lfail_def)

lemma gives_return [gives_oks]: "tok_ok t \<Longrightarrow> gives_ok (lreturn t)"
  by (simp add: gives_ok_def lreturn_def)

lemma gives_bind [gives_oks]: "(\<And>x. gives_ok (k x)) \<Longrightarrow> gives_ok (lbind m k)"
  unfolding gives_ok_def by (metis bind_Inr)

lemma gives_okD: "gives_ok m \<Longrightarrow> fst (m l) = Inr t \<Longrightarrow> tok_ok t"
  by (auto simp: gives_ok_def)

lemma gives_check [gives_oks]:
  assumes "gives_ok m"
  shows "gives_ok (lbind m (\<lambda>t. lbind c (\<lambda>_. lreturn t)))"
proof (unfold gives_ok_def, intro allI impI)
  fix l u
  assume "fst (lbind m (\<lambda>t. lbind c (\<lambda>_. lreturn t)) l) = Inr u"
  from bind_Inr [OF this] obtain t where t: "fst (m l) = Inr t" "fst (lbind c (\<lambda>_. lreturn t) (snd (m l))) = Inr u"
    using \<open>fst _ = Inr u\<close> by auto
  from bind_Inr [OF t(2)] t(2) have "u = t" by (auto simp: lreturn_def)
  with t(1) show "tok_ok u" using gives_okD [OF assms] by simp
qed

lemma gives_symbol [gives_oks]: "gives_ok (token_here start (Symbol s))"
  by (simp add: gives_ok_def token_here_def tok_ok_def)

lemma gives_classify [gives_oks]: "radix \<in> {2, 8, 10, 16} \<Longrightarrow> gives_ok (classify_number body radix start)"
proof -
  assume r: "radix \<in> {2, 8, 10, 16}"
  have s: "radix = 10" if "np_kind (parse_numeric body radix) \<in> {Num_flonum, Num_special}"
    using that by (auto simp: parse_numeric_def parse_integer_def num_error_def Let_def split: if_splits prod.splits)
  show ?thesis
    using r s by (auto simp: gives_ok_def classify_number_def Let_def tok_ok_def valid_numeral_def lfail_def split: num_kind.splits)
qed

lemma gives_number [gives_oks]:
  "radix \<in> {2, 8, 10, 16} \<Longrightarrow> gives_ok (lbind (classify_number body radix start) (\<lambda>t.
     lbind (require_token_boundary start what) (\<lambda>_. lreturn t)))"
  by (intro gives_check gives_classify)

lemma gives_number_body: "radix \<in> {2, 8, 10, 16} \<Longrightarrow> gives_ok (number_body start radix)"
proof (unfold gives_ok_def, intro allI impI)
  fix l t
  assume r: "radix \<in> {2, 8, 10, 16}" and ok: "fst (number_body start radix l) = Inr t"
  obtain b l1 where "(if radix = 10 then collect_number_decimal l else collect_number_radix radix l) = (b, l1)" by fastforce
  with ok have "fst (lbind (classify_number b radix start) (\<lambda>t. lbind (require_token_boundary start ''number'') (\<lambda>_. lreturn t)) l1) = Inr t"
    by (simp add: number_body_def split: if_splits)
  then show "tok_ok t" by (rule gives_okD [OF gives_number [OF r]])
qed

lemma consume_prefix_radix:
  "consume_prefix c r = Some r' \<Longrightarrow> r \<in> {2, 8, 10, 16} \<Longrightarrow> r' \<in> {2, 8, 10, 16}"
  by (auto simp: consume_prefix_def split: if_splits)

lemma gives_prefixes [gives_oks]: "gives_ok (consume_number_with_prefixes start)"
proof (unfold gives_ok_def, intro allI impI)
  fix l t
  assume ok: "fst (consume_number_with_prefixes start l) = Inr t"
  obtain r l1 where r: "(if at_eof l then (10, l)
            else case consume_prefix (peek_lower 0 l) 10 of Some r \<Rightarrow> (r, adv l) | None \<Rightarrow> (10, l)) = (r, l1)" by fastforce
  then have s: "r \<in> {2, 8, 10, 16}"
    using consume_prefix_radix [of "peek_lower 0 l" 10] by (auto split: if_splits option.splits)
  note g = gives_okD [OF gives_number_body]
  show "tok_ok t"
    using ok unfolding consume_number_with_prefixes_def r
    using g [OF s, of start l1 t] g [OF consume_prefix_radix [OF _ s], of _ _ start "adv (adv l1)" t]
    by (simp add: Let_def split: if_splits option.splits)
qed

lemma gives_sharp [gives_oks]: "gives_ok consume_sharp"
proof -
  have "gives_ok (\<lambda>l. (Inr \<lparr> tk_kind = Boolean b, tk_span = make_span l start (here l) \<rparr>, l))"
    "gives_ok (\<lambda>l. (Inr \<lparr> tk_kind = Char v, tk_span = make_span l start (here l) \<rparr>, l))" for b v start
    by (simp_all add: gives_ok_def tok_ok_def)
  then have "gives_ok (lbind consume_boolean (\<lambda>b l. (Inr \<lparr> tk_kind = Boolean b, tk_span = make_span l start (here l) \<rparr>, l)))"
    "gives_ok (lbind consume_char (\<lambda>v. lbind (require_token_boundary start ''character'') (\<lambda>_ l.
     (Inr \<lparr> tk_kind = Char v, tk_span = make_span l start (here l) \<rparr>, l))))" for start
    by (auto intro!: gives_oks)
  with gives_prefixes show ?thesis
    unfolding gives_ok_def consume_sharp_def Let_def by (auto simp: tok_ok_def split: if_splits)
qed

lemma gives_identifier [gives_oks]: "gives_ok (consume_identifier start c)"
  unfolding gives_ok_def consume_identifier_def
  using gives_bind [OF gives_symbol, of "require_token_boundary start ''identifier''" "\<lambda>_. start"] gives_symbol
  by (auto simp: Let_def gives_ok_def split: if_splits prod.splits)

lemma gives_bare_number [gives_oks]: "gives_ok (bare_number start)"
  unfolding gives_ok_def bare_number_def
  using gives_number [of 10] by (auto simp: gives_ok_def split: prod.splits)

lemma gives_bare [gives_oks]: "gives_ok consume_bare_identifier_or_number"
  unfolding gives_ok_def consume_bare_identifier_or_number_def
  using gives_bare_number gives_identifier gives_classify [of 10] gives_symbol
  by (auto simp: Let_def gives_ok_def split: if_splits prod.splits option.splits)

text \<open>
  A scanned token spans exactly the text between the position before and the position after it;
  only the end of the text gives an empty token.
\<close>

definition scanned :: "lexer_state \<Rightarrow> (lex_error + token) \<times> lexer_state \<Rightarrow> bool" where
  "scanned l = (\<lambda>(r, l'). moved l l' \<and>
     (\<forall>t. r = Inr t \<longrightarrow> tk_span t = make_span l' (here l) (here l') \<and>
       (if tk_kind t = EOF then at_eof l \<and> pos l' = pos l else \<not> at_eof l \<and> pos l < pos l' \<and> tok_ok t)))"

lemma span_bof [simp]: "here (l\<lparr> at_bof := b \<rparr>) = here l" "make_span (l\<lparr> at_bof := b \<rparr>) = make_span l"
  by (simp_all add: here_def make_span_def fun_eq_iff)

lemma scanned_finish:
  "\<not> at_eof l \<Longrightarrow> moved l l' \<Longrightarrow> pos l < pos l' \<Longrightarrow> k \<noteq> EOF \<Longrightarrow> (\<And>n. k \<noteq> Number n) \<Longrightarrow> scanned l (finish_token (here l) k l')"
  by (auto simp: scanned_def finish_token_def tok_ok_def split: token_kind.split)

lemma scanned_text:
  assumes "\<not> at_eof l" "moved (adv l) (snd (m l))" "\<And>s. K s \<noteq> EOF \<and> (\<forall>n. K s \<noteq> Number n)"
  shows "scanned l (lbind m (\<lambda>s. finish_token (here l) (K s)) l)"
proof -
  have m: "moved l (snd (m l))" using assms(2) moved_trans [OF moved_adv] by blast
  have p: "pos l < pos (snd (m l))" using assms(1,2) pos_adv [of l] by (simp add: moved_def)
  show ?thesis
  proof (cases "m l")
    case (Pair r l1)
    then show ?thesis using m scanned_finish [OF assms(1) m p] assms(3)
      by (cases r) (auto simp: lbind_def, simp add: scanned_def)
  qed
qed

lemma scanned_relabel:
  assumes "gives_ok m" "moved l (snd (m l))" "\<And>t. fst (m l) = Inr t \<Longrightarrow> pos l < pos (snd (m l))" "\<not> at_eof l"
  shows "scanned l (lbind m (relabel (here l)) l)"
proof (cases "m l")
  case (Pair r l1)
  show ?thesis
  proof (cases r)
    case (Inr t)
    then have "tok_ok t" "pos l < pos l1" "moved l l1"
      using gives_okD [OF assms(1), of l t] assms(2,3) Pair by simp_all
    then show ?thesis using Pair Inr assms(4) by (simp add: lbind_def relabel_def scanned_def tok_ok_def)
  next
    case (Inl e)
    then show ?thesis using Pair assms(2) by (simp add: lbind_def scanned_def)
  qed
qed

lemma scan_token_scanned: "scanned l (scan_token l)"
proof (cases "at_eof l")
  case True
  then show ?thesis by (simp add: scan_token_def Let_def finish_token_def scanned_def)
next
  case False
  have a: "moved l (adv l)" "pos l < pos (adv l)" using False by (simp_all add: pos_adv)
  have a2: "moved l (adv (adv l))" "pos l < pos (adv (adv l))" "moved l (adv (adv (adv l)))" "pos l < pos (adv (adv (adv l)))"
    using a moved_adv [of "adv l"] moved_adv [of "adv (adv l)"] by (auto intro: moved_adv_iff simp: moved_def)
  have p: "moved (adv l) l' \<Longrightarrow> pos l < pos l'" for l' using a(2) by (simp add: moved_def)
  have sh: "scanned l (lbind consume_sharp (relabel (here l)) l)"
    by (rule scanned_relabel [OF gives_sharp moved_trans [OF moved_adv moved_sharp] p [OF moved_sharp] False])
  have ba: "scanned l (lbind consume_bare_identifier_or_number (relabel (here l)) l)"
    by (rule scanned_relabel [OF gives_bare moved_bare(1) moved_bare(2) [OF _ False] False])
  have st: "scanned l (lbind consume_string (\<lambda>s. finish_token (here l) (String s)) l)"
    "scanned l (lbind consume_bar_identifier (\<lambda>s. finish_token (here l) (Symbol s)) l)"
    by (rule scanned_text [OF False]; simp add: moved_string moved_bar)+
  show ?thesis
    unfolding scan_token_def Let_def
    using False a a2 sh ba st by (auto simp: simple_token_def intro!: scanned_finish)
qed


section \<open>The lexer as a whole\<close>

lemma moved_block_loop: "moved l0 l \<Longrightarrow> moved l0 (snd (block_loop d l))"
proof (induction d l rule: block_loop.induct)
  case (1 d l)
  then show ?case by (subst block_loop.simps) (auto simp: moved_adv_iff)
qed

lemma moved_skip_block: "moved l (snd (skip_block_comment l))"
  using moved_block_loop [OF moved_refl] by (simp add: skip_block_comment_def split_beta)

lemma moved_skip_line: "moved l (skip_line l)"
  using collect_moved [of "\<lambda>c. c \<noteq> newline" l] by (metis prod.collapse skip_line_def)

lemma skip_line_progress: "\<not> at_eof l \<Longrightarrow> peek_at 0 l \<noteq> newline \<Longrightarrow> pos l < pos (skip_line l)"
proof -
  assume a: "\<not> at_eof l" "peek_at 0 l \<noteq> newline"
  have "skip_line l = snd (collect_while (\<lambda>c. c \<noteq> newline) (adv l))"
    unfolding skip_line_def using a by (subst collect_while.simps) (simp add: split_beta)
  then have "moved (adv l) (skip_line l)" using collect_moved [of "\<lambda>c. c \<noteq> newline" "adv l"] by (metis prod.collapse)
  then show ?thesis using pos_adv [OF a(1)] by (simp add: moved_def)
qed

lemma moved_directive: "moved l (consume_directive_or_shebang l)"
proof -
  obtain w l1 where c: "collect_while (\<lambda>c. \<not> is_hard_delimiter c \<and> \<not> isspace c) l = (w, l1)" by fastforce
  show ?thesis
    using collect_moved [OF c] moved_trans [OF collect_moved [OF c] moved_skip_line]
    by (simp add: consume_directive_or_shebang_def c Let_def)
qed

text \<open>
  The mutual routines: what a result tells, and that the fuel for the text that is left is enough.
\<close>

definition token_result :: "lexer_state \<Rightarrow> (lex_error + token) \<times> lexer_state \<Rightarrow> bool" where
  "token_result l = (\<lambda>(r, l'). moved l l' \<and>
     (\<forall>t. r = Inr t \<longrightarrow> (\<exists>l1. moved l l1 \<and> tk_span t = make_span l' (here l1) (here l') \<and>
       (if tk_kind t = EOF then at_eof l1 \<and> pos l1 = pos l' else \<not> at_eof l1 \<and> pos l1 < pos l' \<and> tok_ok t))))"

lemma token_result_moved: "token_result l (r, l') \<Longrightarrow> moved l l'"
  by (simp add: token_result_def)

lemma moved_left: "moved l l' \<Longrightarrow> left_over l' \<le> left_over l"
  by (auto simp: moved_def left_over_def)

lemma moved_left_less: "moved l l' \<Longrightarrow> pos l < pos l' \<Longrightarrow> \<not> at_eof l \<Longrightarrow> left_over l' < left_over l"
  by (auto simp: moved_def left_over_def at_eof_def)

lemma token_result_left: "token_result l (Inr t, l') \<Longrightarrow> tk_kind t \<noteq> EOF \<Longrightarrow> left_over l' < left_over l"
  by (auto simp: token_result_def moved_def left_over_def at_eof_def)

lemma token_result_scan: "moved l l1 \<Longrightarrow> scan_token l1 = r \<Longrightarrow> token_result l r"
  using scan_token_scanned [of l1] unfolding token_result_def scanned_def
  by (auto split: prod.splits intro: moved_trans) (metis+)?

lemma lexer_results_all:
  "(\<forall>l r. next_token n l = Some r \<longrightarrow> token_result l r) \<and>
   (\<forall>l u l'. skip_blanks n l = Some (u, l') \<longrightarrow> moved l l') \<and>
   (\<forall>s l u l'. skip_datum n s l = Some (u, l') \<longrightarrow> moved l l') \<and>
   (\<forall>c s l u l'. skip_close n c s l = Some (u, l') \<longrightarrow> moved l l') \<and>
   (\<forall>d s l u l'. skip_nested n d s l = Some (u, l') \<longrightarrow> moved l l')"
proof (induction n)
  case 0
  then show ?case by simp
next
  case (Suc n)
  have nt: "next_token n l = Some (r, l') \<Longrightarrow> token_result l (r, l')" for l r l' using Suc.IH by blast
  have nm: "next_token n l = Some (r, l') \<Longrightarrow> moved l l'" for l r l' using nt token_result_moved by blast
  have sb: "skip_blanks n l = Some (u, l') \<Longrightarrow> moved l l'" for l u l' using Suc.IH by blast
  have sd: "skip_datum n s l = Some (u, l') \<Longrightarrow> moved l l'" for s l u l' using Suc.IH by blast
  have sc: "skip_close n c s l = Some (u, l') \<Longrightarrow> moved l l'" for c s l u l' using Suc.IH by blast
  have sn: "skip_nested n d s l = Some (u, l') \<Longrightarrow> moved l l'" for d s l u l' using Suc.IH by blast
  have er: "moved l l' \<Longrightarrow> token_result l (Inl e, l')" for l l' e by (simp add: token_result_def)
  have a: "token_result l r" if "next_token (Suc n) l = Some r" for l r
    using that by (auto split: option.splits sum.splits prod.splits dest!: sb intro: token_result_scan er)
  have b: "moved l l'" if "skip_blanks (Suc n) l = Some (u, l')" for l u l'
  proof -
    have m2: "moved l (adv (adv l))" by (simp add: moved_adv_iff)
    have blk: "moved l (snd (skip_block_comment (adv (adv l))))" by (rule moved_trans [OF m2 moved_skip_block])
    have dir: "moved l (consume_directive_or_shebang (adv (adv l)))" by (rule moved_trans [OF m2 moved_directive])
    note t = moved_trans [OF moved_adv sb] moved_trans [OF moved_skip_line sb] moved_trans [OF blk sb]
      moved_trans [OF dir sb] moved_trans [OF m2 sd] moved_trans [OF moved_trans [OF m2 sd] sb]
    show ?thesis
      using that blk by (auto simp: Let_def split_beta split: if_splits option.splits sum.splits prod.splits dest: t)
  qed
  have c: "moved l l'" if "skip_datum (Suc n) s l = Some (u, l')" for s l u l'
    using that by (auto simp: lfail_def split: option.splits sum.splits prod.splits token_kind.splits dest: moved_trans [OF nm sc] moved_trans [OF nm sd] nm)
  have d: "moved l l'" if "skip_close (Suc n) c s l = Some (u, l')" for c s l u l'
    using that by (auto simp: lfail_def split: option.splits sum.splits prod.splits if_splits
        dest: nm moved_trans [OF nm sn] moved_trans [OF nm sc] moved_trans [OF moved_trans [OF nm sn] sc])
  have e: "moved l l'" if "skip_nested (Suc n) d s l = Some (u, l')" for d s l u l'
    using that by (auto simp: lfail_def split: option.splits sum.splits prod.splits if_splits dest: nm moved_trans [OF nm sn])
  from a b c d e show ?case by blast
qed

lemma lexer_results:
  "next_token n l = Some r \<Longrightarrow> token_result l r"
  "skip_blanks n l = Some (u, l') \<Longrightarrow> moved l l'"
  "skip_datum n s l = Some (u, l') \<Longrightarrow> moved l l'"
  "skip_close n c s l = Some (u, l') \<Longrightarrow> moved l l'"
  "skip_nested n d s l = Some (u, l') \<Longrightarrow> moved l l'"
  using lexer_results_all [of n] by blast+


lemma skip_blanks_cases:
  obtains (stop) r l' where "\<And>n. skip_blanks (Suc n) l = Some (r, l')"
  | (go) l' where "\<And>n. skip_blanks (Suc n) l = skip_blanks n l'" "left_over l' < left_over l"
  | (datum) s where "2 \<le> left_over l" "\<And>n. skip_blanks (Suc n) l =
      (case skip_datum n s (adv (adv l)) of None \<Rightarrow> None
       | Some (Inl e, l1) \<Rightarrow> Some (Inl e, l1) | Some (Inr _, l1) \<Rightarrow> skip_blanks n l1)"
proof (cases "at_eof l")
  case True
  then show ?thesis by (intro stop [of "Inr ()" l]) simp
next
  case False
  have p: "0 < left_over l" using False by (rule left_over_pos)
  define c where "c = peek_at 0 l"
  consider "isspace c" | "\<not> isspace c" "c = CHR '';''" | "c = CHR ''#''" "peek_at 1 l = CHR ''|''" | "c = CHR ''#''" "peek_at 1 l = CHR '';''"
    | "c = CHR ''#''" "peek_at 1 l = CHR ''!''"
    | "\<not> isspace c" "c \<noteq> CHR '';''" "c = CHR ''#'' \<longrightarrow> peek_at 1 l \<notin> {CHR ''|'', CHR '';'', CHR ''!''}"
    by blast
  then show ?thesis
  proof cases
    case 1
    with False p show ?thesis by (intro go [of "adv l"]) (simp_all add: c_def)
  next
    case 2
    then have "left_over (skip_line l) < left_over l"
      using moved_left_less [OF moved_skip_line skip_line_progress [OF False]] False by (simp add: c_def)
    with 2 False show ?thesis by (intro go [of "skip_line l"]) (simp_all add: c_def Let_def)
  next
    case 3
    have b: "left_over (snd (skip_block_comment (adv (adv l)))) < left_over l"
      using moved_left [OF moved_skip_block [of "adv (adv l)"]] p by simp
    have w: "\<not> isspace (CHR ''#'')" by (simp add: isspace_def)
    show ?thesis
    proof (cases "fst (skip_block_comment (adv (adv l)))")
      case True
      with 3 False b w show ?thesis
        by (intro go [of "snd (skip_block_comment (adv (adv l)))"]) (simp_all add: c_def split_beta)
    next
      case f: False
      show ?thesis by (rule stop) (use 3 False f w in \<open>simp add: c_def split_beta\<close>)
    qed
  next
    case 4
    have w: "\<not> isspace (CHR ''#'')" by (simp add: isspace_def)
    have "2 \<le> left_over l" using 4 by (auto simp: peek_at_def left_over_def split: if_splits)
    with 4 False w show ?thesis by (intro datum [of "here l"]) (simp_all add: c_def)
  next
    case 5
    have w: "\<not> isspace (CHR ''#'')" by (simp add: isspace_def)
    have "left_over (consume_directive_or_shebang (adv (adv l))) < left_over l"
      using moved_left [OF moved_directive [of "adv (adv l)"]] p by simp
    with 5 False w show ?thesis by (intro go [of "consume_directive_or_shebang (adv (adv l))"]) (simp_all add: c_def)
  next
    case 6
    with False show ?thesis by (intro stop [of "Inr ()" l]) (auto simp: c_def Let_def)
  qed
qed

lemma lexer_enough_all:
  "(\<forall>l. 3 * left_over l + 2 \<le> n \<longrightarrow> next_token n l \<noteq> None) \<and>
   (\<forall>l. 3 * left_over l + 1 \<le> n \<longrightarrow> skip_blanks n l \<noteq> None) \<and>
   (\<forall>s l. 3 * left_over l + 3 \<le> n \<longrightarrow> skip_datum n s l \<noteq> None) \<and>
   (\<forall>c s l. 3 * left_over l + 3 \<le> n \<longrightarrow> skip_close n c s l \<noteq> None) \<and>
   (\<forall>d s l. 3 * left_over l + 3 \<le> n \<longrightarrow> skip_nested n d s l \<noteq> None)"
proof (induction n)
  case 0
  then show ?case by simp
next
  case (Suc n)
  have nt: "3 * left_over l + 2 \<le> n \<Longrightarrow> \<exists>y. next_token n l = Some y" for l using Suc.IH by blast
  have sb: "3 * left_over l + 1 \<le> n \<Longrightarrow> \<exists>y. skip_blanks n l = Some y" for l using Suc.IH by blast
  have sd: "3 * left_over l + 3 \<le> n \<Longrightarrow> \<exists>y. skip_datum n s l = Some y" for s l using Suc.IH by blast
  have sc: "3 * left_over l + 3 \<le> n \<Longrightarrow> \<exists>y. skip_close n c s l = Some y" for c s l using Suc.IH by blast
  have sn: "3 * left_over l + 3 \<le> n \<Longrightarrow> \<exists>y. skip_nested n d s l = Some y" for d s l using Suc.IH by blast
  note less = token_result_left [OF lexer_results(1)]
  have a: "3 * left_over l + 2 \<le> Suc n \<Longrightarrow> next_token (Suc n) l \<noteq> None" for l
    using sb [of l] by (auto split: option.splits sum.splits)
  have b: "skip_blanks (Suc n) l \<noteq> None" if f: "3 * left_over l + 1 \<le> Suc n" for l
  proof (cases rule: skip_blanks_cases [of l])
    case (go l')
    then show ?thesis using sb [of l'] f by (simp del: skip_blanks.simps)
  next
    case (datum s)
    have "3 * left_over (adv (adv l)) + 3 \<le> n" using datum(1) f by simp
    then obtain u l1 where d: "skip_datum n s (adv (adv l)) = Some (u, l1)"
      using sd [of "adv (adv l)" s] by auto
    have "left_over l1 \<le> left_over l - 2" using moved_left [OF lexer_results(3) [OF d]] by simp
    then have "3 * left_over l1 + 1 \<le> n" using datum(1) f by linarith
    then obtain y where "skip_blanks n l1 = Some y" using sb [of l1] by blast
    then show ?thesis by (simp add: datum(2) d del: skip_blanks.simps split: sum.split)
  qed (simp del: skip_blanks.simps)
  have c: "skip_datum (Suc n) s l \<noteq> None" if f: "3 * left_over l + 3 \<le> Suc n" for s l
  proof -
    have "\<exists>y. skip_close n c s l' = Some y" "\<exists>y. skip_datum n s l' = Some y" if "left_over l' < left_over l" for c l'
      by (rule sc sd, use that f in linarith)+
    with less nt [of l] f show ?thesis by (fastforce split: option.splits sum.splits prod.splits token_kind.splits)
  qed
  have d: "skip_close (Suc n) c s l \<noteq> None" if f: "3 * left_over l + 3 \<le> Suc n" for c s l
  proof -
    have k: "\<exists>y. skip_close n c s l' = Some y" "\<exists>y. skip_nested n d s l' = Some y" if "left_over l' < left_over l" for d l'
      by (rule sc sn, use that f in linarith)+
    obtain r l1 where t: "next_token n l = Some (r, l1)" using nt [of l] f by auto
    show ?thesis
    proof (cases r)
      case (Inr t')
      show ?thesis
      proof (cases "tk_kind t' = EOF")
        case False
        have l1: "left_over l1 < left_over l" using less t Inr False by blast
        have "left_over l2 < left_over l" if "skip_nested n (Suc 0) s l1 = Some (u, l2)" for u l2
          using moved_left [OF lexer_results(5) [OF that]] l1 by linarith
        with k [OF l1] k(1) show ?thesis using t Inr False by (fastforce split: option.splits sum.splits prod.splits)
      qed (simp add: t Inr)
    qed (simp add: t)
  qed
  have e: "skip_nested (Suc n) d s l \<noteq> None" if f: "3 * left_over l + 3 \<le> Suc n" for d s l
  proof -
    have k: "\<exists>y. skip_nested n d s l' = Some y" if "left_over l' < left_over l" for d l'
      by (rule sn) (use that f in linarith)
    obtain r l1 where t: "next_token n l = Some (r, l1)" using nt [of l] f by auto
    show ?thesis
    proof (cases r)
      case (Inr t')
      have "tk_kind t' \<noteq> EOF \<Longrightarrow> left_over l1 < left_over l" using less t Inr by blast
      with k show ?thesis using t Inr by (auto dest: k)
    qed (simp add: t)
  qed
  from a b c d e show ?case by blast
qed

lemma lexer_mono_all:
  "(\<forall>l r. next_token n l = Some r \<longrightarrow> next_token (Suc n) l = Some r) \<and>
   (\<forall>l r. skip_blanks n l = Some r \<longrightarrow> skip_blanks (Suc n) l = Some r) \<and>
   (\<forall>s l r. skip_datum n s l = Some r \<longrightarrow> skip_datum (Suc n) s l = Some r) \<and>
   (\<forall>c s l r. skip_close n c s l = Some r \<longrightarrow> skip_close (Suc n) c s l = Some r) \<and>
   (\<forall>d s l r. skip_nested n d s l = Some r \<longrightarrow> skip_nested (Suc n) d s l = Some r)"
proof (induction n)
  case 0
  then show ?case by simp
next
  case (Suc n)
  have nt: "next_token n l = Some r \<Longrightarrow> next_token (Suc n) l = Some r" for l r using Suc.IH by blast
  have sb: "skip_blanks n l = Some r \<Longrightarrow> skip_blanks (Suc n) l = Some r" for l r using Suc.IH by blast
  have sd: "skip_datum n s l = Some r \<Longrightarrow> skip_datum (Suc n) s l = Some r" for s l r using Suc.IH by blast
  have sc: "skip_close n c s l = Some r \<Longrightarrow> skip_close (Suc n) c s l = Some r" for c s l r using Suc.IH by blast
  have sn: "skip_nested n d s l = Some r \<Longrightarrow> skip_nested (Suc n) d s l = Some r" for d s l r using Suc.IH by blast
  have a: "next_token (Suc n) l = Some r \<Longrightarrow> next_token (Suc (Suc n)) l = Some r" for l r
    unfolding next_token.simps(2) [of n] next_token.simps(2) [of "Suc n"]
    by (auto simp del: next_token.simps skip_blanks.simps skip_datum.simps skip_close.simps skip_nested.simps split: option.splits dest!: sb)
  have b: "skip_blanks (Suc (Suc n)) l = Some r" if "skip_blanks (Suc n) l = Some r" for l r
  proof (cases rule: skip_blanks_cases [of l])
    case (go l')
    then show ?thesis using sb [of l' r] that by metis
  next
    case (datum s)
    show ?thesis
    proof (cases "skip_datum n s (adv (adv l))")
      case None
      with that datum(2) show ?thesis by simp
    next
      case (Some y)
      with that sb sd [OF Some] datum(2) show ?thesis
        by (cases y; cases "fst y") (auto simp del: skip_blanks.simps skip_datum.simps)
    qed
  qed (use that in \<open>simp del: skip_blanks.simps\<close>)
  have c: "skip_datum (Suc (Suc n)) s l = Some r" if "skip_datum (Suc n) s l = Some r" for s l r
  proof (cases "next_token n l")
    case None
    with that show ?thesis by simp
  next
    case (Some y)
    obtain u l1 where y: "y = (u, l1)" by fastforce
    show ?thesis
    proof (cases u)
      case (Inl x)
      with that Some y nt [OF Some] show ?thesis by (simp only: skip_datum.simps option.simps prod.simps sum.simps)
    next
      case (Inr t)
      note k = that [unfolded skip_datum.simps, unfolded Some y Inr option.simps prod.simps sum.simps]
      show ?thesis
        unfolding skip_datum.simps(2) [of "Suc n"] nt [OF Some] y Inr option.simps prod.simps sum.simps
        using k by (cases "tk_kind t") (simp_all add: sd sc del: next_token.simps skip_blanks.simps skip_datum.simps skip_close.simps skip_nested.simps)
    qed
  qed
  have d: "skip_close (Suc (Suc n)) c s l = Some r" if "skip_close (Suc n) c s l = Some r" for c s l r
  proof (cases "next_token n l")
    case None
    with that show ?thesis by simp
  next
    case (Some y)
    obtain u l1 where y: "y = (u, l1)" by fastforce
    show ?thesis
    proof (cases u)
      case (Inl x)
      with that Some y nt [OF Some] show ?thesis by (simp only: skip_close.simps option.simps prod.simps sum.simps)
    next
      case (Inr t)
      note k = that [unfolded skip_close.simps, unfolded Some y Inr option.simps prod.simps sum.simps]
      show ?thesis
        unfolding skip_close.simps(2) [of "Suc n"] nt [OF Some] y Inr option.simps prod.simps sum.simps
        using k by (cases "skip_nested n 1 s l1") (auto simp: sc sn simp del: next_token.simps skip_blanks.simps skip_datum.simps skip_close.simps skip_nested.simps
            split: if_splits sum.splits dest: sn)
    qed
  qed
  have e: "skip_nested (Suc (Suc n)) d s l = Some r" if "skip_nested (Suc n) d s l = Some r" for d s l r
  proof (cases "next_token n l")
    case None
    with that show ?thesis by (cases "d = 0") (simp_all del: next_token.simps)
  next
    case (Some y)
    obtain u l1 where y: "y = (u, l1)" by fastforce
    show ?thesis
    proof (cases u)
      case (Inl x)
      with that Some y nt [OF Some] show ?thesis by (simp only: skip_nested.simps option.simps prod.simps sum.simps split: if_splits)
    next
      case (Inr t)
      note k = that [unfolded skip_nested.simps, unfolded Some y Inr option.simps prod.simps sum.simps]
      show ?thesis
        unfolding skip_nested.simps(2) [of "Suc n"] nt [OF Some] y Inr option.simps prod.simps sum.simps
        using k by (auto simp: sn simp del: next_token.simps skip_blanks.simps skip_datum.simps skip_close.simps skip_nested.simps
            split: if_splits)
    qed
  qed
  from a b c d e show ?case by blast
qed

lemma next_token_mono: "next_token n l = Some r \<Longrightarrow> next_token (n + k) l = Some r"
proof (induction k)
  case (Suc k)
  then have "next_token (n + k) l = Some r" by simp
  then have "next_token (Suc (n + k)) l = Some r" using lexer_mono_all [of "n + k"] by blast
  then show ?case by (simp del: next_token.simps)
qed simp

lemma next_token_enough: "next_token (lex_fuel l + k) l = Some (lex_next l)"
proof -
  obtain r where "next_token (lex_fuel l) l = Some r" using lexer_enough_all [of "lex_fuel l"] by (auto simp: lex_fuel_def)
  then show ?thesis by (simp add: lex_next_def next_token_mono)
qed

lemma lex_next_result: "token_result l (lex_next l)"
  using next_token_enough [of l 0] lexer_results(1) by simp


text \<open>C36: The lexer delivers a token or an error on every text and in every state: the calls for
  datum comments end, and more fuel than the text that is left calls for changes nothing.\<close>

theorem lex_terminates:
  "next_token (lex_fuel l + k) l = Some (lex_next l)"
  by (rule next_token_enough)

lemma unat_offset: "placed l \<Longrightarrow> length (source l) < 2 ^ 64 \<Longrightarrow> unat (offset (here l)) = pos l"
  by (simp add: here_def placed_def unsigned_of_nat take_bit_nat_eq_self)

text \<open>C37: The span of every token lies in the text: it starts where the blanks end, not before the
  position of the call, ends at the position after the call, is empty exactly for the end of the
  text, and both of its lines count the newlines before it.\<close>

theorem lex_token_spans:
  assumes "placed l" "length (source l) < 2 ^ 64" "lex_next l = (Inr t, l')"
  shows "placed l' \<and> source l' = source l \<and> lex_file l' = lex_file l \<and>
    (let a = unat (offset (span_start (tk_span t))); b = unat (offset (span_end (tk_span t))) in
     file_id (tk_span t) = lex_file l \<and> pos l \<le> a \<and> a \<le> b \<and> b = pos l' \<and> b \<le> length (source l) \<and>
     (tk_kind t = EOF \<longleftrightarrow> a = b) \<and> (tk_kind t = EOF \<longrightarrow> b = length (source l)) \<and>
     line (span_start (tk_span t)) = 1 + of_nat (newlines a (source l)) \<and>
     line (span_end (tk_span t)) = 1 + of_nat (newlines b (source l)))"
proof -
  have "token_result l (Inr t, l')" using lex_next_result [of l] assms(3) by simp
  then obtain l1 where m: "moved l l'" "moved l l1" and sp: "tk_span t = make_span l' (here l1) (here l')"
    and k: "if tk_kind t = EOF then at_eof l1 \<and> pos l1 = pos l' else pos l1 < pos l'"
    by (auto simp: token_result_def)
  have p: "placed l'" "placed l1" "source l' = source l" "source l1 = source l" "lex_file l' = lex_file l" "pos l \<le> pos l1"
    using m assms(1) by (auto simp: moved_def)
  have o: "unat (offset (here l1)) = pos l1" "unat (offset (here l')) = pos l'"
    using unat_offset p assms(2) by simp_all
  have ln: "line (here l1) = 1 + of_nat (newlines (pos l1) (source l))" "line (here l') = 1 + of_nat (newlines (pos l') (source l))"
    using p by (simp_all add: here_def placed_def)
  have b: "pos l' \<le> length (source l)" using p by (simp add: placed_def)
  have e: "tk_kind t = EOF \<Longrightarrow> length (source l) \<le> pos l1" using k p by (simp add: at_eof_def)
  show ?thesis
    using p o ln b k e by (auto simp: sp make_span_def Let_def split: if_splits)
qed

definition sample_lexer :: lexer_state where
  "sample_lexer = new_lexer 3 (''; x'' @ [newline] @ '' -a'')"

lemma sample_lexer_run:
  "lex_next sample_lexer =
     (Inr \<lparr> tk_kind = Symbol ''-a'', tk_span = make_span sample_lexer \<lparr> offset = 5, line = 2, column = 2 \<rparr> \<lparr> offset = 7, line = 2, column = 5 \<rparr> \<rparr>,
      sample_lexer\<lparr> pos := 7, cur_line := 2, cur_col := 5, at_bof := False \<rparr>)"
  by code_simp


theorem lex_token_spans_witness:
  "\<exists>t l'. lex_next sample_lexer = (Inr t, l') \<and> unat (offset (span_start (tk_span t))) = 5 \<and>
     line (span_start (tk_span t)) = 2 \<and> pos l' = 7 \<and> placed l'"
proof -
  have p: "placed sample_lexer" "length (source sample_lexer) < 2 ^ 64" by (simp_all add: placed_def sample_lexer_def new_lexer_def newlines_def)
  from lex_token_spans [OF p sample_lexer_run] show ?thesis
    unfolding sample_lexer_run by (simp add: make_span_def Let_def sample_lexer_def new_lexer_def)
qed

end
