(* ===== verification/Parser.thy ===== *)
theory Parser
  imports SExpr Double Lexer
begin

text \<open>
  Tokens and the parser, \<^verbatim>\<open>eta/core/src/eta/reader/lexer.h\<close> and \<^verbatim>\<open>parser.{h,cpp}\<close>. The lexer is
  a state and a function that delivers the next token, an argument of the parser. The parser
  keeps one token of lookahead and the quasiquote depth. Its routines call each other on parts of
  the input; the fuel bounds the depth of the calls, and \<open>None\<close> means that it ran out.
\<close>

section \<open>Errors\<close>

datatype parse_error_kind = FromLexer | UnexpectedEOF | UnexpectedClosingDelimiter | UnsupportedToken
  | UnclosedList | MisplacedDot | MultipleDotsInDottedList | DotAtListStart
  | UnclosedVector | DotInVector | ByteVectorNonInteger | InvalidByteLiteral
  | InvalidNumericLiteral | UnquoteOutsideQuasiquote | InternalNotAnAtom | InternalNotAReaderToken

datatype reader_error = Parse_error parse_error_kind span | Lex_error lex_error

definition merge_spans :: "span \<Rightarrow> span \<Rightarrow> span" where
  "merge_spans a b = a\<lparr> span_end := span_end b \<rparr>"

section \<open>Numerals\<close>

text \<open>\<^verbatim>\<open>std::stoll\<close> and \<^verbatim>\<open>std::from_chars\<close>: the digits of a base at the front of a text.\<close>

definition digit_value :: "char \<Rightarrow> nat option" where
  "digit_value c =
     (let n = of_char c :: nat in
      if 48 \<le> n \<and> n \<le> 57 then Some (n - 48)
      else if 97 \<le> n \<and> n \<le> 122 then Some (n - 87)
      else if 65 \<le> n \<and> n \<le> 90 then Some (n - 55)
      else None)"

definition is_digit_of :: "nat \<Rightarrow> char \<Rightarrow> bool" where
  "is_digit_of base c = (case digit_value c of Some d \<Rightarrow> d < base | None \<Rightarrow> False)"

definition digits_value :: "nat \<Rightarrow> string \<Rightarrow> nat" where
  "digits_value base ds = foldl (\<lambda>n c. n * base + the (digit_value c)) 0 ds"

definition is_space :: "char \<Rightarrow> bool" where
  "is_space c \<longleftrightarrow> (let n = of_char c :: nat in n = 32 \<or> (9 \<le> n \<and> n \<le> 13))"

definition split_sign :: "string \<Rightarrow> bool \<times> string" where
  "split_sign s = (case s of CHR ''-'' # r \<Rightarrow> (True, r) | CHR ''+'' # r \<Rightarrow> (False, r) | _ \<Rightarrow> (False, s))"

text \<open>\<open>None\<close>: the conversion throws, since there is no digit or the value does not fit.\<close>

definition stoll :: "string \<Rightarrow> nat \<Rightarrow> i64 option" where
  "stoll s base =
     (let (neg, r) = split_sign (dropWhile is_space s);
          r' = (if base = 16 \<and> length r \<ge> 3 \<and> r ! 0 = CHR ''0'' \<and> (r ! 1 = CHR ''x'' \<or> r ! 1 = CHR ''X'') \<and> is_digit_of 16 (r ! 2)
                then drop 2 r else r);
          ds = takeWhile (is_digit_of base) r'; v = (if neg then - int (digits_value base ds) else int (digits_value base ds))
      in if ds = [] then None else if v < INT64_MIN \<or> v > INT64_MAX then None else Some (word_of_int v))"

definition lower :: "string \<Rightarrow> string" where
  "lower s = map (\<lambda>c. let n = of_char c :: nat in if 65 \<le> n \<and> n \<le> 90 then char_of (n + 32) else c) s"

definition is_prefix_of :: "string \<Rightarrow> string \<Rightarrow> bool" where
  "is_prefix_of p s \<longleftrightarrow> take (length p) s = p"

text \<open>
  \<^verbatim>\<open>std::stod\<close> on decimal texts, infinities and NaNs: the nearest double; a value that is too
  large, or that is not zero and so small that the result is not exact, is refused.
  Hexadecimal texts do not reach it.
\<close>

definition stod_decimal :: "bool \<Rightarrow> string \<Rightarrow> u64 option" where
  "stod_decimal neg s =
     (let ip = takeWhile (is_digit_of 10) s; r1 = dropWhile (is_digit_of 10) s;
          (fp, r2) = (case r1 of CHR ''.'' # r \<Rightarrow> (takeWhile (is_digit_of 10) r, dropWhile (is_digit_of 10) r) | _ \<Rightarrow> ('''', r1));
          (eneg, er) = (case r2 of c # r \<Rightarrow> if c = CHR ''e'' \<or> c = CHR ''E'' then split_sign r else (False, '''') | [] \<Rightarrow> (False, ''''));
          e = digits_value 10 (takeWhile (is_digit_of 10) er);
          m = digits_value 10 (ip @ fp);
          num = (if eneg then m else m * 10 ^ e); den = (if eneg then 10 ^ (length fp + e) else 10 ^ length fp);
          w = dbl_round neg (num * 2 ^ 1074) den
      in if ip = [] \<and> fp = [] then None
         else if dbl_is_inf w then None
         else if m \<noteq> 0 \<and> dbl_exp w = 0 \<and> dbl_units w * den \<noteq> num * 2 ^ 1074 then None
         else Some w)"

definition stod :: "string \<Rightarrow> u64 option" where
  "stod s =
     (let (neg, r) = split_sign (dropWhile is_space s) in
      if is_prefix_of ''inf'' (lower r) then Some (dbl_inf neg)
      else if is_prefix_of ''nan'' (lower r) then Some (dbl_sign neg quiet_NaN)
      else stod_decimal neg r)"

definition parse_number :: "numeric_token \<Rightarrow> number option" where
  "parse_number n =
     (if nt_kind n = Fixnum_numeral then
        (case stoll (nt_text n) (nt_radix n) of Some v \<Rightarrow> Some (Int_num v)
         | None \<Rightarrow> if nt_radix n \<noteq> 10 then None else map_option Dbl_num (stod (nt_text n)))
      else map_option Dbl_num (stod (nt_text n)))"

fun byte_digits :: "nat \<Rightarrow> nat \<Rightarrow> string \<Rightarrow> nat option" where
  "byte_digits base v [] = Some v"
| "byte_digits base v (c # cs) =
     (let n = of_char c :: nat;
          d = (if 48 \<le> n \<and> n \<le> 57 then Some (n - 48)
               else if 97 \<le> n \<and> n \<le> 102 then Some (n - 87)
               else if 65 \<le> n \<and> n \<le> 70 then Some (n - 55) else None)
      in case d of None \<Rightarrow> None
         | Some d \<Rightarrow> if d \<ge> base then None
             else if v > (255 - d) div base then None
             else byte_digits base (v * base + d) cs)"

text \<open>\<^verbatim>\<open>parse_byte_literal\<close>; \<open>None\<close> is any of its error texts.\<close>

definition parse_byte_literal :: "numeric_token \<Rightarrow> u8 option" where
  "parse_byte_literal n =
     (if nt_kind n \<noteq> Fixnum_numeral then None
      else if nt_radix n = 10 \<or> nt_radix n = 16 then
        (let ds = takeWhile (is_digit_of (nt_radix n)) (nt_text n); v = digits_value (nt_radix n) ds in
         if ds = [] then None else if v \<ge> 2 ^ 64 then None else if v > 255 then None else Some (of_nat v))
      else (case byte_digits (nt_radix n) 0 (nt_text n) of None \<Rightarrow> None
            | Some v \<Rightarrow> if v > 255 then None else Some (of_nat v)))"

section \<open>The parser\<close>

record 'l parser =
  lexer :: 'l
  lookahead :: "token option"
  qq_depth :: int
  qq_strict :: bool

type_synonym ('l, 'a) parse = "'l parser \<Rightarrow> (reader_error + 'a) \<times> 'l parser"
type_synonym ('l, 'a) parse_opt = "'l parser \<Rightarrow> ((reader_error + 'a) \<times> 'l parser) option"
type_synonym 'l lexer = "'l \<Rightarrow> (lex_error + token) \<times> 'l"

definition new_parser :: "'l \<Rightarrow> bool \<Rightarrow> 'l parser" where
  "new_parser l strict = \<lparr> lexer = l, lookahead = None, qq_depth = 0, qq_strict = strict \<rparr>"

definition advance :: "'l lexer \<Rightarrow> ('l, token) parse" where
  "advance nxt p =
     (case lookahead p of Some t \<Rightarrow> (Inr t, p\<lparr> lookahead := None \<rparr>)
      | None \<Rightarrow> (case nxt (lexer p) of
          (Inl e, l) \<Rightarrow> (Inl (Lex_error e), p\<lparr> lexer := l \<rparr>)
        | (Inr t, l) \<Rightarrow> (Inr t, p\<lparr> lexer := l \<rparr>)))"

definition peek :: "'l lexer \<Rightarrow> ('l, token) parse" where
  "peek nxt p =
     (case lookahead p of Some t \<Rightarrow> (Inr t, p)
      | None \<Rightarrow> (case nxt (lexer p) of
          (Inl e, l) \<Rightarrow> (Inl (Lex_error e), p\<lparr> lexer := l \<rparr>)
        | (Inr t, l) \<Rightarrow> (Inr t, p\<lparr> lexer := l, lookahead := Some t \<rparr>)))"

definition pbind :: "('l, 'a) parse_opt \<Rightarrow> ('a \<Rightarrow> ('l, 'b) parse_opt) \<Rightarrow> ('l, 'b) parse_opt" where
  "pbind m k p = (case m p of None \<Rightarrow> None | Some (Inl e, p') \<Rightarrow> Some (Inl e, p') | Some (Inr x, p') \<Rightarrow> k x p')"

definition pstep :: "('l, 'a) parse \<Rightarrow> ('l, 'a) parse_opt" where
  "pstep m p = Some (m p)"

definition preturn :: "'a \<Rightarrow> ('l, 'a) parse_opt" where
  "preturn x p = Some (Inr x, p)"

definition pfail :: "parse_error_kind \<Rightarrow> span \<Rightarrow> ('l, 'a) parse_opt" where
  "pfail k s p = Some (Inl (Parse_error k s), p)"

definition parse_atom :: "token \<Rightarrow> reader_error + sexpr" where
  "parse_atom t =
     (let sp = tk_span t in
      case tk_kind t of
        Boolean b \<Rightarrow> Inr (Bool_sx sp b)
      | Char c \<Rightarrow> Inr (Char_sx sp c)
      | String s \<Rightarrow> Inr (String_sx sp s)
      | Symbol s \<Rightarrow> Inr (if s = ''Nil'' then Nil_sx sp else Symbol_sx sp s)
      | Number n \<Rightarrow> (case parse_number n of None \<Rightarrow> Inl (Parse_error InvalidNumericLiteral sp) | Some v \<Rightarrow> Inr (Number_sx sp v))
      | _ \<Rightarrow> Inl (Parse_error InternalNotAnAtom sp))"

definition quote_of :: "token_kind \<Rightarrow> quote_kind option" where
  "quote_of k = (case k of Quote \<Rightarrow> Some Quote_form | Backtick \<Rightarrow> Some Quasiquote_form
     | Comma \<Rightarrow> Some Unquote_form | CommaAt \<Rightarrow> Some Unquote_splicing_form | _ \<Rightarrow> None)"

fun parse_byte_vector :: "'l lexer \<Rightarrow> nat \<Rightarrow> span \<Rightarrow> u8 list \<Rightarrow> ('l, sexpr) parse_opt" where
  "parse_byte_vector nxt 0 op bs p = None"
| "parse_byte_vector nxt (Suc n) op bs p =
     pbind (pstep (peek nxt)) (\<lambda>t.
       case tk_kind t of
         EOF \<Rightarrow> pfail UnclosedVector op
       | RParen \<Rightarrow> pbind (pstep (advance nxt)) (\<lambda>c. preturn (ByteVector_sx (merge_spans op (tk_span c)) bs))
       | Number _ \<Rightarrow> pbind (pstep (advance nxt)) (\<lambda>t.
           case tk_kind t of
             Number num \<Rightarrow>
               (case parse_byte_literal num of None \<Rightarrow> pfail InvalidByteLiteral (tk_span t)
                | Some b \<Rightarrow> parse_byte_vector nxt n op (bs @ [b]))
           | _ \<Rightarrow> pfail InvalidByteLiteral (tk_span t))
       | _ \<Rightarrow> pfail ByteVectorNonInteger (tk_span t)) p"

text \<open>The state after the depth was counted up or down.\<close>

definition count_qq :: "quote_kind \<Rightarrow> int \<Rightarrow> 'l parser \<Rightarrow> 'l parser" where
  "count_qq k i p = (if k = Quasiquote_form then p\<lparr> qq_depth := qq_depth p + i \<rparr> else p)"

fun parse_datum :: "'l lexer \<Rightarrow> nat \<Rightarrow> ('l, sexpr) parse_opt"
  and parse_list :: "'l lexer \<Rightarrow> nat \<Rightarrow> token_kind \<Rightarrow> span \<Rightarrow> sexpr list \<Rightarrow> sexpr option \<Rightarrow> ('l, sexpr) parse_opt"
  and parse_vector :: "'l lexer \<Rightarrow> nat \<Rightarrow> span \<Rightarrow> sexpr list \<Rightarrow> ('l, sexpr) parse_opt"
  and parse_abbreviation :: "'l lexer \<Rightarrow> nat \<Rightarrow> token \<Rightarrow> ('l, sexpr) parse_opt" where
  "parse_datum nxt 0 p = None"
| "parse_datum nxt (Suc n) p =
     pbind (pstep (peek nxt)) (\<lambda>t.
       case tk_kind t of
         LParen \<Rightarrow> pbind (pstep (advance nxt)) (\<lambda>o'. parse_list nxt n RParen (tk_span o') [] None)
       | LBracket \<Rightarrow> pbind (pstep (advance nxt)) (\<lambda>o'. parse_list nxt n RBracket (tk_span o') [] None)
       | VectorStart \<Rightarrow> pbind (pstep (advance nxt)) (\<lambda>o'. parse_vector nxt n (tk_span o') [])
       | ByteVectorStart \<Rightarrow> pbind (pstep (advance nxt)) (\<lambda>o'. parse_byte_vector nxt n (tk_span o') [])
       | RParen \<Rightarrow> pfail UnexpectedClosingDelimiter (tk_span t)
       | RBracket \<Rightarrow> pfail UnexpectedClosingDelimiter (tk_span t)
       | Dot \<Rightarrow> pfail MisplacedDot (tk_span t)
       | EOF \<Rightarrow> pfail UnexpectedEOF (tk_span t)
       | k \<Rightarrow> pbind (pstep (advance nxt)) (\<lambda>a.
           if quote_of k \<noteq> None then parse_abbreviation nxt n a else (\<lambda>p. Some (parse_atom a, p)))) p"
| "parse_list nxt 0 close op es dt p = None"
| "parse_list nxt (Suc n) close op es dt p =
     pbind (pstep (peek nxt)) (\<lambda>t.
       if tk_kind t = EOF then pfail UnclosedList op
       else if tk_kind t = close then
         pbind (pstep (advance nxt)) (\<lambda>c. preturn (List_sx (merge_spans op (tk_span c)) es dt))
       else if tk_kind t = RParen \<or> tk_kind t = RBracket then pfail UnclosedList op
       else if tk_kind t = Dot then
         (if dt \<noteq> None then pfail MultipleDotsInDottedList (tk_span t)
          else if es = [] then pfail DotAtListStart (tk_span t)
          else pbind (pstep (advance nxt)) (\<lambda>_. pbind (parse_datum nxt n) (\<lambda>d. parse_list nxt n close op es (Some d))))
       else pbind (parse_datum nxt n) (\<lambda>d.
         if dt \<noteq> None then pfail MisplacedDot (sx_span d) else parse_list nxt n close op (es @ [d]) dt)) p"
| "parse_vector nxt 0 op es p = None"
| "parse_vector nxt (Suc n) op es p =
     pbind (pstep (peek nxt)) (\<lambda>t.
       if tk_kind t = EOF then pfail UnclosedVector op
       else if tk_kind t = RParen then
         pbind (pstep (advance nxt)) (\<lambda>c. preturn (Vector_sx (merge_spans op (tk_span c)) es))
       else if tk_kind t = Dot then pfail DotInVector (tk_span t)
       else pbind (parse_datum nxt n) (\<lambda>d. parse_vector nxt n op (es @ [d]))) p"
| "parse_abbreviation nxt 0 t p = None"
| "parse_abbreviation nxt (Suc n) t p =
     (case quote_of (tk_kind t) of
        None \<Rightarrow> pfail InternalNotAReaderToken (tk_span t) p
      | Some k \<Rightarrow>
        if qq_strict p \<and> (k = Unquote_form \<or> k = Unquote_splicing_form) \<and> qq_depth p = 0
        then pfail UnquoteOutsideQuasiquote (tk_span t) p
        else pbind (parse_datum nxt n) (\<lambda>d p.
          Some (Inr (ReaderForm_sx (merge_spans (tk_span t) (sx_span d)) k d), count_qq k (- 1) p)) (count_qq k 1 p))"

section \<open>Top-level forms\<close>

text \<open>A module body: exports, the contents of \<^verbatim>\<open>begin\<close> forms, and the other forms headed by a symbol.\<close>

definition module_form :: "sexpr \<Rightarrow> string list \<times> sexpr list \<Rightarrow> string list \<times> sexpr list" where
  "module_form e = (\<lambda>(ex, body).
     case as_list e of
       Some (_, h # es, _) \<Rightarrow>
         (case as_symbol h of None \<Rightarrow> (ex, body)
          | Some (_, tg) \<Rightarrow>
            if tg = ''export'' then (ex @ List.map_filter (\<lambda>e. map_option snd (as_symbol e)) es, body)
            else if tg = ''begin'' then (ex, body @ es)
            else (ex, body @ [e]))
     | _ \<Rightarrow> (ex, body))"

definition try_parse_module :: "span \<Rightarrow> sexpr list \<Rightarrow> sexpr option \<Rightarrow> sexpr option" where
  "try_parse_module sp es dt =
     (if dt \<noteq> None then None
      else if length es < 3 then None
      else if \<not> is_symbol_named (es ! 0) ''module'' then None
      else (case as_symbol (es ! 1) of None \<Rightarrow> None
        | Some (_, n) \<Rightarrow> (let (ex, body) = fold module_form (drop 2 es) ([], []) in Some (ModuleForm_sx sp n ex body))))"

definition recognise :: "sexpr \<Rightarrow> sexpr" where
  "recognise d = (case as_list d of None \<Rightarrow> d
     | Some (sp, es, dt) \<Rightarrow> (case try_parse_module sp es dt of None \<Rightarrow> d | Some m \<Rightarrow> m))"

fun parse_toplevel :: "'l lexer \<Rightarrow> nat \<Rightarrow> sexpr list \<Rightarrow> ('l, sexpr list) parse_opt" where
  "parse_toplevel nxt 0 out p = None"
| "parse_toplevel nxt (Suc n) out p =
     pbind (pstep (peek nxt)) (\<lambda>t.
       if tk_kind t = EOF then preturn out
       else pbind (parse_datum nxt n) (\<lambda>d. parse_toplevel nxt n (out @ [recognise d]))) p"


section \<open>The grammar\<close>

text \<open>
  The data that a sequence of tokens spells, as a grammar. The flag tells whether unquoting is
  allowed: outside strict mode, or inside a quasiquotation.
\<close>

definition is_atom :: "token_kind \<Rightarrow> bool" where
  "is_atom k = (case k of Boolean _ \<Rightarrow> True | Char _ \<Rightarrow> True | String _ \<Rightarrow> True | Symbol _ \<Rightarrow> True | Number _ \<Rightarrow> True | _ \<Rightarrow> False)"

definition brackets :: "token_kind \<Rightarrow> token_kind \<Rightarrow> bool" where
  "brackets a b \<longleftrightarrow> (a = LParen \<and> b = RParen) \<or> (a = LBracket \<and> b = RBracket)"

definition is_byte :: "token \<Rightarrow> u8 \<Rightarrow> bool" where
  "is_byte t b = (case tk_kind t of Number n \<Rightarrow> parse_byte_literal n = Some b | _ \<Rightarrow> False)"

inductive datum :: "bool \<Rightarrow> token list \<Rightarrow> sexpr \<Rightarrow> bool"
  and items :: "bool \<Rightarrow> token list \<Rightarrow> sexpr list \<Rightarrow> bool" where
  atom: "is_atom (tk_kind t) \<Longrightarrow> parse_atom t = Inr e \<Longrightarrow> datum q [t] e"
| proper: "brackets (tk_kind a) (tk_kind b) \<Longrightarrow> items q ts es \<Longrightarrow>
    datum q (a # ts @ [b]) (List_sx (merge_spans (tk_span a) (tk_span b)) es None)"
| dotted: "brackets (tk_kind a) (tk_kind b) \<Longrightarrow> items q ts es \<Longrightarrow> es \<noteq> [] \<Longrightarrow> tk_kind d = Dot \<Longrightarrow> datum q us e \<Longrightarrow>
    datum q (a # ts @ d # us @ [b]) (List_sx (merge_spans (tk_span a) (tk_span b)) es (Some e))"
| vector: "tk_kind a = VectorStart \<Longrightarrow> tk_kind b = RParen \<Longrightarrow> items q ts es \<Longrightarrow>
    datum q (a # ts @ [b]) (Vector_sx (merge_spans (tk_span a) (tk_span b)) es)"
| bytes: "tk_kind a = ByteVectorStart \<Longrightarrow> tk_kind b = RParen \<Longrightarrow> list_all2 is_byte ts bs \<Longrightarrow>
    datum q (a # ts @ [b]) (ByteVector_sx (merge_spans (tk_span a) (tk_span b)) bs)"
| quoted: "quote_of (tk_kind t) = Some k \<Longrightarrow> (k = Unquote_form \<or> k = Unquote_splicing_form \<Longrightarrow> q) \<Longrightarrow>
    datum (q \<or> k = Quasiquote_form) ts e \<Longrightarrow>
    datum q (t # ts) (ReaderForm_sx (merge_spans (tk_span t) (sx_span e)) k e)"
| none: "items q [] []"
| more: "datum q ts e \<Longrightarrow> items q us es \<Longrightarrow> items q (ts @ us) (e # es)"

inductive_cases datum_nilE [elim!]: "datum q [] e"

lemma items_append: "items q ts es \<Longrightarrow> items q us fs \<Longrightarrow> items q (ts @ us) (es @ fs)"
proof (induction q ts es rule: datum_items.inducts(2) [where ?P1.0 = "\<lambda>_ _ _. True"])
  case (more q ts e us' es)
  from datum_items.more [OF more.hyps(1) more.IH [OF more.prems]] show ?case by simp
qed simp_all

lemma items_snoc: "items q ts es \<Longrightarrow> datum q us e \<Longrightarrow> items q (ts @ us) (es @ [e])"
  using items_append [of q ts es us "[e]"] more [of q us e "[]" "[]"] none by simp

section \<open>Runs of the parser\<close>

text \<open>The lexer delivers these tokens, none of them the end, and is then in the last state.\<close>

fun feeds :: "'l lexer \<Rightarrow> 'l \<Rightarrow> token list \<Rightarrow> 'l \<Rightarrow> bool" where
  "feeds nxt l [] l' \<longleftrightarrow> l' = l"
| "feeds nxt l (t # ts) l' \<longleftrightarrow> tk_kind t \<noteq> EOF \<and> fst (nxt l) = Inr t \<and> feeds nxt (snd (nxt l)) ts l'"

lemma feeds_append: "feeds nxt l (ts @ us) l' \<longleftrightarrow> (\<exists>l1. feeds nxt l ts l1 \<and> feeds nxt l1 us l')"
  by (induction ts arbitrary: l) auto

definition front :: "'l lexer \<Rightarrow> 'l parser \<Rightarrow> token list \<Rightarrow> 'l \<Rightarrow> bool" where
  "front nxt p ts l' \<longleftrightarrow>
     (case lookahead p of None \<Rightarrow> feeds nxt (lexer p) ts l'
      | Some t \<Rightarrow> (case ts of [] \<Rightarrow> False | t' # us \<Rightarrow> t' = t \<and> tk_kind t \<noteq> EOF \<and> feeds nxt (lexer p) us l'))"

definition unquoting :: "'l parser \<Rightarrow> bool" where
  "unquoting p \<longleftrightarrow> \<not> qq_strict p \<or> qq_depth p \<noteq> 0"

text \<open>The parser consumed exactly these tokens and is otherwise as before.\<close>

definition consumed :: "'l lexer \<Rightarrow> 'l parser \<Rightarrow> token list \<Rightarrow> 'l parser \<Rightarrow> bool" where
  "consumed nxt p ts p' \<longleftrightarrow> front nxt p ts (lexer p') \<and> lookahead p' = None \<and>
     qq_depth p' = qq_depth p \<and> qq_strict p' = qq_strict p"

lemma front_append:
  "lookahead p1 = None \<Longrightarrow> front nxt p ts (lexer p1) \<Longrightarrow> front nxt p1 us l \<Longrightarrow> front nxt p (ts @ us) l"
  by (auto simp: front_def feeds_append split: option.splits list.splits)

lemma consumed_append: "consumed nxt p ts p1 \<Longrightarrow> consumed nxt p1 us p2 \<Longrightarrow> consumed nxt p (ts @ us) p2"
  by (auto simp: consumed_def intro: front_append)

lemma peek_cases:
  "peek nxt p = (r, p1) \<Longrightarrow> qq_depth p1 = qq_depth p \<and> qq_strict p1 = qq_strict p"
  by (auto simp: peek_def split: option.splits prod.splits sum.splits)

lemma peek_lookahead: "peek nxt p = (Inr t, p1) \<Longrightarrow> lookahead p1 = Some t"
  by (auto simp: peek_def split: option.splits prod.splits sum.splits)

lemma consumed_peek: "peek nxt p = (Inr t, p1) \<Longrightarrow> consumed nxt p1 ts p2 \<Longrightarrow> consumed nxt p ts p2"
  by (auto simp: peek_def consumed_def front_def split: option.splits prod.splits sum.splits list.splits)

lemma advance_peeked:
  "lookahead p = Some t \<Longrightarrow> advance nxt p = (Inr t, p\<lparr> lookahead := None \<rparr>)"
  by (simp add: advance_def)

lemma consumed_peeked: "lookahead p = Some t \<Longrightarrow> tk_kind t \<noteq> EOF \<Longrightarrow> consumed nxt p [t] (p\<lparr> lookahead := None \<rparr>)"
  by (simp add: consumed_def front_def)

lemma consumed_next:
  "peek nxt p = (Inr t, p1) \<Longrightarrow> tk_kind t \<noteq> EOF \<Longrightarrow> consumed nxt p [t] (p1\<lparr> lookahead := None \<rparr>)"
  using consumed_peek consumed_peeked peek_lookahead by blast

lemma consumed_unquoting: "consumed nxt p ts p' \<Longrightarrow> unquoting p' = unquoting p"
  by (simp add: consumed_def unquoting_def)

lemma pbind_Some: "pbind m k p = Some r \<longleftrightarrow>
    (\<exists>e p'. m p = Some (Inl e, p') \<and> r = (Inl e, p')) \<or> (\<exists>x p'. m p = Some (Inr x, p') \<and> k x p' = Some r)"
  by (auto simp: pbind_def split: option.splits prod.splits sum.splits)

lemma pbind_ok: "pbind m k p = Some (Inr y, p2) \<longleftrightarrow> (\<exists>x p'. m p = Some (Inr x, p') \<and> k x p' = Some (Inr y, p2))"
  by (auto simp: pbind_Some)

lemma pstep_Some [simp]: "pstep m p = Some r \<longleftrightarrow> m p = r"
  by (simp add: pstep_def)


text \<open>What the parser accepts is in the grammar.\<close>

lemma byte_vector_sound:
  "parse_byte_vector nxt n op bs p = Some (Inr e, p') \<Longrightarrow>
     \<exists>ts b cs. consumed nxt p (ts @ [b]) p' \<and> tk_kind b = RParen \<and> list_all2 is_byte ts cs \<and>
       e = ByteVector_sx (merge_spans op (tk_span b)) (bs @ cs)"
proof (induction n arbitrary: bs p)
  case (Suc n)
  obtain t p1 where pk: "peek nxt p = (Inr t, p1)" and
    k: "(case tk_kind t of
         EOF \<Rightarrow> pfail UnclosedVector op
       | RParen \<Rightarrow> pbind (pstep (advance nxt)) (\<lambda>c. preturn (ByteVector_sx (merge_spans op (tk_span c)) bs))
       | Number _ \<Rightarrow> pbind (pstep (advance nxt)) (\<lambda>t.
           case tk_kind t of
             Number num \<Rightarrow>
               (case parse_byte_literal num of None \<Rightarrow> pfail InvalidByteLiteral (tk_span t)
                | Some b \<Rightarrow> parse_byte_vector nxt n op (bs @ [b]))
           | _ \<Rightarrow> pfail InvalidByteLiteral (tk_span t))
       | _ \<Rightarrow> pfail ByteVectorNonInteger (tk_span t)) p1 = Some (Inr e, p')"
    using Suc.prems by (auto simp: pbind_ok)
  define p2 where "p2 = p1\<lparr> lookahead := None \<rparr>"
  have a: "advance nxt p1 = (Inr t, p2)" using advance_peeked [OF peek_lookahead [OF pk]] by (simp add: p2_def)
  show ?case
  proof (cases "tk_kind t")
    case RParen
    have "consumed nxt p [t] p2" using consumed_next [OF pk] RParen by (simp add: p2_def)
    then have "consumed nxt p ([] @ [t]) p' \<and> tk_kind t = RParen \<and> list_all2 is_byte [] [] \<and>
        e = ByteVector_sx (merge_spans op (tk_span t)) (bs @ [])"
      using k RParen a by (auto simp: pbind_ok preturn_def)
    then show ?thesis by blast
  next
    case (Number num)
    have c: "consumed nxt p [t] p2" using consumed_next [OF pk] Number by (simp add: p2_def)
    obtain b where b: "parse_byte_literal num = Some b" "parse_byte_vector nxt n op (bs @ [b]) p2 = Some (Inr e, p')"
      using k Number a by (auto simp: pbind_ok pfail_def split: option.splits)
    from Suc.IH [OF b(2)] obtain ts x cs where i: "consumed nxt p2 (ts @ [x]) p'" "tk_kind x = RParen"
      "list_all2 is_byte ts cs" "e = ByteVector_sx (merge_spans op (tk_span x)) ((bs @ [b]) @ cs)" by blast
    have "consumed nxt p ((t # ts) @ [x]) p'" using consumed_append [OF c i(1)] by simp
    moreover have "list_all2 is_byte (t # ts) (b # cs)" using i(3) b(1) Number by (simp add: is_byte_def)
    ultimately show ?thesis using i(2,4) by fastforce
  qed (use k in \<open>simp_all add: pfail_def\<close>)
qed simp

definition list_rest :: "bool \<Rightarrow> token list \<Rightarrow> sexpr list \<Rightarrow> sexpr option \<Rightarrow> sexpr list \<Rightarrow> sexpr option \<Rightarrow> bool" where
  "list_rest q us es dt fs dt' \<longleftrightarrow>
     (if dt = None then (items q us fs \<and> dt' = None) \<or>
        (\<exists>ts d vs e. us = ts @ d # vs \<and> items q ts fs \<and> es @ fs \<noteq> [] \<and> tk_kind d = Dot \<and> datum q vs e \<and> dt' = Some e)
      else us = [] \<and> fs = [] \<and> dt' = dt)"

lemma list_rest_cons:
  assumes "datum q ts e" "list_rest q us (es @ [e]) None fs dt'"
  shows "list_rest q (ts @ us) es None (e # fs) dt'"
proof -
  have m: "items q (ts @ vs) (e # gs)" if "items q vs gs" for vs gs by (rule more [OF assms(1) that])
  from assms(2) consider "items q us fs" "dt' = None"
    | ts' d vs e' where "us = ts' @ d # vs" "items q ts' fs" "tk_kind d = Dot" "datum q vs e'" "dt' = Some e'"
    unfolding list_rest_def by auto
  then show ?thesis
  proof cases
    case 1
    then show ?thesis using m by (simp add: list_rest_def)
  next
    case (2 ts' d vs e')
    then have "ts @ us = (ts @ ts') @ d # vs" "items q (ts @ ts') (e # fs)" using m by simp_all
    then have "\<exists>vs' d' ws e''. ts @ us = vs' @ d' # ws \<and> items q vs' (e # fs) \<and> es @ e # fs \<noteq> [] \<and> tk_kind d' = Dot \<and>
        datum q ws e'' \<and> dt' = Some e''" using 2(3-5) by blast
    then show ?thesis by (simp add: list_rest_def)
  qed
qed

lemma list_rest_dot:
  assumes "datum q ts e" "es \<noteq> []" "tk_kind d = Dot"
  shows "list_rest q ([] @ d # ts) es None [] (Some e)"
proof -
  have "\<exists>us d' vs e'. [] @ d # ts = us @ d' # vs \<and> items q us [] \<and> es @ [] \<noteq> [] \<and> tk_kind d' = Dot \<and> datum q vs e' \<and> Some e = Some e'"
    using none assms by blast
  then show ?thesis by (simp add: list_rest_def)
qed

lemma count_qq_frame [simp]:
  "front nxt (count_qq k i p) = front nxt p" "lexer (count_qq k i p) = lexer p" "lookahead (count_qq k i p) = lookahead p"
  "qq_strict (count_qq k i p) = qq_strict p"
  by (cases "lookahead p", auto simp: count_qq_def front_def fun_eq_iff split: list.split)

lemma parse_sound_all:
  "(\<forall>p e p'. 0 \<le> qq_depth p \<longrightarrow> parse_datum nxt n p = Some (Inr e, p') \<longrightarrow>
      (\<exists>ts. consumed nxt p ts p' \<and> datum (unquoting p) ts e)) \<and>
   (\<forall>close op es dt p e p'. close \<in> {RParen, RBracket} \<longrightarrow> 0 \<le> qq_depth p \<longrightarrow>
      parse_list nxt n close op es dt p = Some (Inr e, p') \<longrightarrow>
      (\<exists>us b fs dt'. consumed nxt p (us @ [b]) p' \<and> tk_kind b = close \<and> list_rest (unquoting p) us es dt fs dt' \<and>
         e = List_sx (merge_spans op (tk_span b)) (es @ fs) dt')) \<and>
   (\<forall>op es p e p'. 0 \<le> qq_depth p \<longrightarrow> parse_vector nxt n op es p = Some (Inr e, p') \<longrightarrow>
      (\<exists>us b fs. consumed nxt p (us @ [b]) p' \<and> tk_kind b = RParen \<and> items (unquoting p) us fs \<and>
         e = Vector_sx (merge_spans op (tk_span b)) (es @ fs))) \<and>
   (\<forall>t p e p'. 0 \<le> qq_depth p \<longrightarrow> parse_abbreviation nxt n t p = Some (Inr e, p') \<longrightarrow>
      (\<exists>ts. consumed nxt p ts p' \<and> datum (unquoting p) (t # ts) e))"
proof (induction n)
  case 0
  then show ?case by simp
next
  case (Suc n)
  have pd: "\<exists>ts. consumed nxt p ts p' \<and> datum (unquoting p) ts e"
    if "parse_datum nxt n p = Some (Inr e, p')" "0 \<le> qq_depth p" for p e p' using Suc.IH that by blast
  have pl: "\<exists>us b fs dt'. consumed nxt p (us @ [b]) p' \<and> tk_kind b = close \<and> list_rest (unquoting p) us es dt fs dt' \<and>
         e = List_sx (merge_spans op (tk_span b)) (es @ fs) dt'"
    if "parse_list nxt n close op es dt p = Some (Inr e, p')" "0 \<le> qq_depth p" "close \<in> {RParen, RBracket}" for close op es dt p e p'
    using Suc.IH that by blast
  have pv: "\<exists>us b fs. consumed nxt p (us @ [b]) p' \<and> tk_kind b = RParen \<and> items (unquoting p) us fs \<and>
         e = Vector_sx (merge_spans op (tk_span b)) (es @ fs)"
    if "parse_vector nxt n op es p = Some (Inr e, p')" "0 \<le> qq_depth p" for op es p e p' using Suc.IH that by blast
  have pa: "\<exists>ts. consumed nxt p ts p' \<and> datum (unquoting p) (t # ts) e"
    if "parse_abbreviation nxt n t p = Some (Inr e, p')" "0 \<le> qq_depth p" for t p e p' using Suc.IH that by blast

  have D: "\<exists>ts. consumed nxt p ts p' \<and> datum (unquoting p) ts e"
    if run: "parse_datum nxt (Suc n) p = Some (Inr e, p')" and q: "0 \<le> qq_depth p" for p e p'
  proof -
    obtain t p1 where pk: "peek nxt p = (Inr t, p1)" using run by (auto simp: pbind_ok)
    define p2 where "p2 = p1\<lparr> lookahead := None \<rparr>"
    have a: "advance nxt p1 = (Inr t, p2)" using advance_peeked [OF peek_lookahead [OF pk]] by (simp add: p2_def)
    have c: "consumed nxt p [t] p2" if "tk_kind t \<noteq> EOF" using consumed_next [OF pk that] by (simp add: p2_def)
    have q2: "qq_depth p2 = qq_depth p" "unquoting p2 = unquoting p"
      using peek_cases [OF pk] by (simp_all add: p2_def unquoting_def)
    have q2': "0 \<le> qq_depth p2" using q q2 by simp
    have lists: "\<exists>ts. consumed nxt p ts p' \<and> datum (unquoting p) ts e"
      if l: "parse_list nxt n close (tk_span t) [] None p2 = Some (Inr e, p')" and b: "brackets (tk_kind t) close" for close
    proof -
      from pl [OF l q2'] b obtain us x fs dt' where r: "consumed nxt p2 (us @ [x]) p'" "tk_kind x = close"
        "list_rest (unquoting p) us [] None fs dt'" "e = List_sx (merge_spans (tk_span t) (tk_span x)) fs dt'"
        using q2(2) by (auto simp: brackets_def)
      have "consumed nxt p (t # us @ [x]) p'" using consumed_append [OF c r(1)] b by (auto simp: brackets_def)
      moreover have "datum (unquoting p) (t # us @ [x]) e"
        using r(2-4) b proper dotted unfolding list_rest_def by (fastforce split: if_splits)
      ultimately show ?thesis by blast
    qed
    have atom: "\<exists>ts. consumed nxt p ts p' \<and> datum (unquoting p) ts e"
      if "Some (parse_atom t, p2) = Some (Inr e, p')" "is_atom (tk_kind t)"
    proof -
      have "tk_kind t \<noteq> EOF" using that(2) by (auto simp: is_atom_def)
      from c [OF this] that show ?thesis using datum_items.atom [OF that(2), of e] by auto
    qed
    have abbr: "\<exists>ts. consumed nxt p ts p' \<and> datum (unquoting p) ts e"
      if "parse_abbreviation nxt n t p2 = Some (Inr e, p')" "tk_kind t \<noteq> EOF"
    proof -
      from pa [OF that(1) q2'] obtain ts where r: "consumed nxt p2 ts p'" "datum (unquoting p) (t # ts) e" using q2(2) by auto
      with consumed_append [OF c [OF that(2)] r(1)] show ?thesis by auto
    qed
    show ?thesis
    proof (cases "tk_kind t")
      case VectorStart
      with run pk a have "parse_vector nxt n (tk_span t) [] p2 = Some (Inr e, p')" by (auto simp: pbind_ok)
      from pv [OF this q2'] obtain us x fs where r: "consumed nxt p2 (us @ [x]) p'" "tk_kind x = RParen"
        "items (unquoting p) us fs" "e = Vector_sx (merge_spans (tk_span t) (tk_span x)) fs" using q2(2) by auto
      have "consumed nxt p (t # us @ [x]) p'" using consumed_append [OF c r(1)] VectorStart by auto
      with vector [OF VectorStart r(2,3)] r(4) show ?thesis by blast
    next
      case ByteVectorStart
      with run pk a have "parse_byte_vector nxt n (tk_span t) [] p2 = Some (Inr e, p')" by (auto simp: pbind_ok)
      from byte_vector_sound [OF this] obtain us x bs where r: "consumed nxt p2 (us @ [x]) p'" "tk_kind x = RParen"
        "list_all2 is_byte us bs" "e = ByteVector_sx (merge_spans (tk_span t) (tk_span x)) bs" by auto
      have "consumed nxt p (t # us @ [x]) p'" using consumed_append [OF c r(1)] ByteVectorStart by auto
      with bytes [OF ByteVectorStart r(2,3)] r(4) show ?thesis by blast
    next
      case LParen
      with run pk a show ?thesis by (intro lists [of RParen]) (auto simp: pbind_ok brackets_def)
    next
      case LBracket
      with run pk a show ?thesis by (intro lists [of RBracket]) (auto simp: pbind_ok brackets_def)
    next
      case Quote
      with run pk a show ?thesis by (intro abbr) (auto simp: pbind_ok quote_of_def)
    next
      case Backtick
      with run pk a show ?thesis by (intro abbr) (auto simp: pbind_ok quote_of_def)
    next
      case Comma
      with run pk a show ?thesis by (intro abbr) (auto simp: pbind_ok quote_of_def)
    next
      case CommaAt
      with run pk a show ?thesis by (intro abbr) (auto simp: pbind_ok quote_of_def)
    qed (use run pk a in \<open>auto simp: pbind_ok pfail_def quote_of_def is_atom_def intro!: atom\<close>)
  qed
  have V: "\<exists>us b fs. consumed nxt p (us @ [b]) p' \<and> tk_kind b = RParen \<and> items (unquoting p) us fs \<and>
         e = Vector_sx (merge_spans op (tk_span b)) (es @ fs)"
    if run: "parse_vector nxt (Suc n) op es p = Some (Inr e, p')" and q: "0 \<le> qq_depth p" for op es p e p'
  proof -
    obtain t p1 where pk: "peek nxt p = (Inr t, p1)" using run by (auto simp: pbind_ok)
    define p2 where "p2 = p1\<lparr> lookahead := None \<rparr>"
    have a: "advance nxt p1 = (Inr t, p2)" using advance_peeked [OF peek_lookahead [OF pk]] by (simp add: p2_def)
    have q1: "0 \<le> qq_depth p1" "unquoting p1 = unquoting p"
      using peek_cases [OF pk] q by (simp_all add: unquoting_def)
    show ?thesis
    proof (cases "tk_kind t = RParen")
      case True
      with consumed_next [OF pk] have "consumed nxt p ([] @ [t]) p2" by (simp add: p2_def)
      moreover have "p' = p2" "e = Vector_sx (merge_spans op (tk_span t)) (es @ [])"
        using run pk a True by (auto simp: pbind_ok preturn_def)
      ultimately show ?thesis using True none by blast
    next
      case False
      obtain d p3 where d: "parse_datum nxt n p1 = Some (Inr d, p3)" "parse_vector nxt n op (es @ [d]) p3 = Some (Inr e, p')"
        using run pk False by (auto simp: pbind_ok pfail_def split: if_splits)
      from pd [OF d(1) q1(1)] obtain ts where ts: "consumed nxt p ts p3" "datum (unquoting p) ts d"
        using consumed_peek [OF pk] q1(2) by auto
      have "0 \<le> qq_depth p3" "unquoting p3 = unquoting p" using ts(1) q by (simp_all add: consumed_def unquoting_def)
      with pv [OF d(2)] obtain us b fs where r: "consumed nxt p3 (us @ [b]) p'" "tk_kind b = RParen" "items (unquoting p) us fs"
         "e = Vector_sx (merge_spans op (tk_span b)) ((es @ [d]) @ fs)" by auto
      have "consumed nxt p ((ts @ us) @ [b]) p'" using consumed_append [OF ts(1) r(1)] by simp
      moreover have "e = Vector_sx (merge_spans op (tk_span b)) (es @ d # fs)" using r(4) by simp
      ultimately show ?thesis using r(2) more [OF ts(2) r(3)] by blast
    qed
  qed
  have A: "\<exists>ts. consumed nxt p ts p' \<and> datum (unquoting p) (t # ts) e"
    if run: "parse_abbreviation nxt (Suc n) t p = Some (Inr e, p')" and q: "0 \<le> qq_depth p" for t p e p'
  proof -
    obtain k where k: "quote_of (tk_kind t) = Some k" using run by (auto simp: pfail_def split: option.splits)
    have uq: "k = Unquote_form \<or> k = Unquote_splicing_form \<Longrightarrow> unquoting p"
      using run k by (auto simp: pfail_def unquoting_def split: if_splits)
    let ?p = "count_qq k 1 p"
    obtain d p3 where d: "parse_datum nxt n ?p = Some (Inr d, p3)" "p' = count_qq k (- 1) p3"
      "e = ReaderForm_sx (merge_spans (tk_span t) (sx_span d)) k d"
      using run k by (auto simp: pbind_ok pfail_def split: if_splits)
    have "0 \<le> qq_depth ?p" "unquoting ?p = (unquoting p \<or> k = Quasiquote_form)"
      using q by (auto simp: count_qq_def unquoting_def)
    with pd [OF d(1)] obtain ts where ts: "consumed nxt ?p ts p3" "datum (unquoting p \<or> k = Quasiquote_form) ts d" by auto
    have "consumed nxt p ts p'" using ts(1) d(2) by (auto simp: consumed_def count_qq_def [of k _ "count_qq _ _ _"], auto simp: count_qq_def split: if_splits)
    with quoted [OF k uq ts(2)] d(3) show ?thesis by blast
  qed
  have L: "\<exists>us b fs dt'. consumed nxt p (us @ [b]) p' \<and> tk_kind b = close \<and> list_rest (unquoting p) us es dt fs dt' \<and>
         e = List_sx (merge_spans op (tk_span b)) (es @ fs) dt'"
    if run: "parse_list nxt (Suc n) close op es dt p = Some (Inr e, p')" and q: "0 \<le> qq_depth p"
      and cl: "close \<in> {RParen, RBracket}" for close op es dt p e p'
  proof -
    obtain t p1 where pk: "peek nxt p = (Inr t, p1)" using run by (auto simp: pbind_ok)
    define p2 where "p2 = p1\<lparr> lookahead := None \<rparr>"
    have a: "advance nxt p1 = (Inr t, p2)" using advance_peeked [OF peek_lookahead [OF pk]] by (simp add: p2_def)
    have q1: "0 \<le> qq_depth p1" "unquoting p1 = unquoting p" "qq_depth p2 = qq_depth p" "unquoting p2 = unquoting p"
      using peek_cases [OF pk] q by (simp_all add: unquoting_def p2_def)
    consider "tk_kind t = close" | "tk_kind t = Dot" "tk_kind t \<noteq> close" | "tk_kind t \<noteq> Dot" "tk_kind t \<noteq> close" by blast
    then show ?thesis
    proof cases
      case 1
      with consumed_next [OF pk] cl have "consumed nxt p ([] @ [t]) p2" by (auto simp: p2_def)
      moreover have "p' = p2" "e = List_sx (merge_spans op (tk_span t)) (es @ []) dt"
        using run pk a 1 cl by (auto simp: pbind_ok preturn_def split: if_splits)
      moreover have "list_rest (unquoting p) [] es dt [] dt" using none by (simp add: list_rest_def)
      ultimately show ?thesis using 1 by blast
    next
      case 2
      obtain d p3 where d: "dt = None" "es \<noteq> []" "parse_datum nxt n p2 = Some (Inr d, p3)"
        "parse_list nxt n close op es (Some d) p3 = Some (Inr e, p')"
        using run pk 2 a cl by (auto simp: pbind_ok pfail_def split: if_splits)
      have c: "consumed nxt p [t] p2" using consumed_next [OF pk] 2 by (simp add: p2_def)
      from pd [OF d(3)] q1 q obtain ts where ts: "consumed nxt p2 ts p3" "datum (unquoting p) ts d" by auto
      have "0 \<le> qq_depth p3" "unquoting p3 = unquoting p" using ts(1) q q1 by (simp_all add: consumed_def unquoting_def)
      with pl [OF d(4) _ cl] obtain b where r: "consumed nxt p3 [b] p'" "tk_kind b = close"
         "e = List_sx (merge_spans op (tk_span b)) (es @ []) (Some d)" by (auto simp: list_rest_def)
      have "consumed nxt p (([] @ t # ts) @ [b]) p'" using consumed_append [OF consumed_append [OF c ts(1)] r(1)] by simp
      moreover have "list_rest (unquoting p) ([] @ t # ts) es dt [] (Some d)"
        using list_rest_dot [OF ts(2) d(2) 2(1)] d(1) by simp
      ultimately show ?thesis using r(2,3) by blast
    next
      case 3
      obtain d p3 where d: "dt = None" "parse_datum nxt n p1 = Some (Inr d, p3)"
        "parse_list nxt n close op (es @ [d]) None p3 = Some (Inr e, p')"
        using run pk 3 by (auto simp: pbind_ok pfail_def split: if_splits)
      from pd [OF d(2) q1(1)] obtain ts where ts: "consumed nxt p ts p3" "datum (unquoting p) ts d"
        using consumed_peek [OF pk] q1(2) by auto
      have "0 \<le> qq_depth p3" "unquoting p3 = unquoting p" using ts(1) q by (simp_all add: consumed_def unquoting_def)
      with pl [OF d(3) _ cl] obtain us b fs dt' where r: "consumed nxt p3 (us @ [b]) p'" "tk_kind b = close"
         "list_rest (unquoting p) us (es @ [d]) None fs dt'" "e = List_sx (merge_spans op (tk_span b)) ((es @ [d]) @ fs) dt'" by auto
      have "consumed nxt p ((ts @ us) @ [b]) p'" using consumed_append [OF ts(1) r(1)] by simp
      moreover have "e = List_sx (merge_spans op (tk_span b)) (es @ d # fs) dt'" using r(4) by simp
      ultimately show ?thesis using r(2) list_rest_cons [OF ts(2) r(3)] d(1) by blast
    qed
  qed
  from D L V A show ?case by blast
qed


lemma parse_datum_sound:
  assumes "parse_datum nxt n p = Some (Inr e, p')" "0 \<le> qq_depth p"
  obtains ts where "consumed nxt p ts p'" "datum (unquoting p) ts e"
  using parse_sound_all [of nxt n] assms by blast

text \<open>More fuel does not change a result.\<close>

definition fuel_le :: "('l, 'a) parse_opt \<Rightarrow> ('l, 'a) parse_opt \<Rightarrow> bool" where
  "fuel_le m m' \<longleftrightarrow> (\<forall>p r. m p = Some r \<longrightarrow> m' p = Some r)"

lemma fuel_le_refl [simp, intro]: "fuel_le m m"
  by (simp add: fuel_le_def)

lemma fuel_le_none [simp]: "(\<And>p. m p = None) \<Longrightarrow> fuel_le m m'"
  by (simp add: fuel_le_def)

lemma fuel_le_bind [intro]: "fuel_le m m' \<Longrightarrow> (\<And>x. fuel_le (k x) (k' x)) \<Longrightarrow> fuel_le (pbind m k) (pbind m' k')"
  by (fastforce simp: fuel_le_def pbind_Some)

lemma fuel_leD: "fuel_le m m' \<Longrightarrow> m p = Some r \<Longrightarrow> m' p = Some r"
  unfolding fuel_le_def by blast

lemma byte_vector_fuel: "fuel_le (parse_byte_vector nxt n op bs) (parse_byte_vector nxt (Suc n) op bs)"
proof (induction n arbitrary: bs)
  case (Suc n)
  have e: "parse_byte_vector nxt (Suc m) op bs = pbind (pstep (peek nxt)) (\<lambda>t.
       case tk_kind t of
         EOF \<Rightarrow> pfail UnclosedVector op
       | RParen \<Rightarrow> pbind (pstep (advance nxt)) (\<lambda>c. preturn (ByteVector_sx (merge_spans op (tk_span c)) bs))
       | Number _ \<Rightarrow> pbind (pstep (advance nxt)) (\<lambda>t.
           case tk_kind t of
             Number num \<Rightarrow>
               (case parse_byte_literal num of None \<Rightarrow> pfail InvalidByteLiteral (tk_span t)
                | Some b \<Rightarrow> parse_byte_vector nxt m op (bs @ [b]))
           | _ \<Rightarrow> pfail InvalidByteLiteral (tk_span t))
       | _ \<Rightarrow> pfail ByteVectorNonInteger (tk_span t))" for m by (rule ext) simp
  show ?case unfolding e by (rule fuel_le_bind) (auto split: token_kind.split option.split intro!: Suc.IH fuel_le_bind)
qed simp

lemma parse_fuel_all:
  "fuel_le (parse_datum nxt n) (parse_datum nxt (Suc n)) \<and>
   (\<forall>close op es dt. fuel_le (parse_list nxt n close op es dt) (parse_list nxt (Suc n) close op es dt)) \<and>
   (\<forall>op es. fuel_le (parse_vector nxt n op es) (parse_vector nxt (Suc n) op es)) \<and>
   (\<forall>t. fuel_le (parse_abbreviation nxt n t) (parse_abbreviation nxt (Suc n) t))"
proof (induction n)
  case 0
  then show ?case by simp
next
  case (Suc n)
  have pd: "fuel_le (parse_datum nxt n) (parse_datum nxt (Suc n))"
    and pl: "fuel_le (parse_list nxt n close op es dt) (parse_list nxt (Suc n) close op es dt)"
    and pv: "fuel_le (parse_vector nxt n op es) (parse_vector nxt (Suc n) op es)"
    and pa: "fuel_le (parse_abbreviation nxt n t) (parse_abbreviation nxt (Suc n) t)" for close op es dt t
    using Suc.IH by blast+
  have d: "parse_datum nxt (Suc m) = pbind (pstep (peek nxt)) (\<lambda>t.
       case tk_kind t of
         LParen \<Rightarrow> pbind (pstep (advance nxt)) (\<lambda>o'. parse_list nxt m RParen (tk_span o') [] None)
       | LBracket \<Rightarrow> pbind (pstep (advance nxt)) (\<lambda>o'. parse_list nxt m RBracket (tk_span o') [] None)
       | VectorStart \<Rightarrow> pbind (pstep (advance nxt)) (\<lambda>o'. parse_vector nxt m (tk_span o') [])
       | ByteVectorStart \<Rightarrow> pbind (pstep (advance nxt)) (\<lambda>o'. parse_byte_vector nxt m (tk_span o') [])
       | RParen \<Rightarrow> pfail UnexpectedClosingDelimiter (tk_span t)
       | RBracket \<Rightarrow> pfail UnexpectedClosingDelimiter (tk_span t)
       | Dot \<Rightarrow> pfail MisplacedDot (tk_span t)
       | EOF \<Rightarrow> pfail UnexpectedEOF (tk_span t)
       | k \<Rightarrow> pbind (pstep (advance nxt)) (\<lambda>a.
           if quote_of k \<noteq> None then parse_abbreviation nxt m a else (\<lambda>p. Some (parse_atom a, p))))" for m
    by (rule ext) simp
  have l: "parse_list nxt (Suc m) close op es dt = pbind (pstep (peek nxt)) (\<lambda>t.
       if tk_kind t = EOF then pfail UnclosedList op
       else if tk_kind t = close then
         pbind (pstep (advance nxt)) (\<lambda>c. preturn (List_sx (merge_spans op (tk_span c)) es dt))
       else if tk_kind t = RParen \<or> tk_kind t = RBracket then pfail UnclosedList op
       else if tk_kind t = Dot then
         (if dt \<noteq> None then pfail MultipleDotsInDottedList (tk_span t)
          else if es = [] then pfail DotAtListStart (tk_span t)
          else pbind (pstep (advance nxt)) (\<lambda>_. pbind (parse_datum nxt m) (\<lambda>d. parse_list nxt m close op es (Some d))))
       else pbind (parse_datum nxt m) (\<lambda>d.
         if dt \<noteq> None then pfail MisplacedDot (sx_span d) else parse_list nxt m close op (es @ [d]) dt))" for m close op es dt
    by (rule ext) simp
  have v: "parse_vector nxt (Suc m) op es = pbind (pstep (peek nxt)) (\<lambda>t.
       if tk_kind t = EOF then pfail UnclosedVector op
       else if tk_kind t = RParen then
         pbind (pstep (advance nxt)) (\<lambda>c. preturn (Vector_sx (merge_spans op (tk_span c)) es))
       else if tk_kind t = Dot then pfail DotInVector (tk_span t)
       else pbind (parse_datum nxt m) (\<lambda>d. parse_vector nxt m op (es @ [d])))" for m op es
    by (rule ext) simp
  have "fuel_le (parse_datum nxt (Suc n)) (parse_datum nxt (Suc (Suc n)))"
    unfolding d by (rule fuel_le_bind) (auto split: token_kind.split intro!: pl pv pa byte_vector_fuel fuel_le_bind)
  moreover have "fuel_le (parse_list nxt (Suc n) close op es dt) (parse_list nxt (Suc (Suc n)) close op es dt)" for close op es dt
    by (subst l [of n], subst l [of "Suc n"], rule fuel_le_bind) (auto intro!: pd pl fuel_le_bind)
  moreover have "fuel_le (parse_vector nxt (Suc n) op es) (parse_vector nxt (Suc (Suc n)) op es)" for op es
    by (subst v [of n], subst v [of "Suc n"], rule fuel_le_bind) (auto intro!: pd pv fuel_le_bind)
  moreover have "fuel_le (parse_abbreviation nxt (Suc n) t) (parse_abbreviation nxt (Suc (Suc n)) t)" for t
  proof (cases "quote_of (tk_kind t)")
    case (Some k)
    have "fuel_le (pbind (parse_datum nxt n) f) (pbind (parse_datum nxt (Suc n)) f)" for f :: "sexpr \<Rightarrow> ('a, sexpr) parse_opt"
      by (intro fuel_le_bind pd fuel_le_refl)
    then show ?thesis using Some by (auto simp: fuel_le_def)
  qed (simp add: fuel_le_def)
  ultimately show ?case by blast
qed

lemma fuel_le_le:
  assumes "\<And>n. fuel_le (f n) (f (Suc n))" "n \<le> m" "f n p = Some r"
  shows "f m p = Some r"
  using assms(2) by (induction m rule: dec_induct) (use assms(3) fuel_leD [OF assms(1)] in blast)+

lemma parse_datum_le: "parse_datum nxt n p = Some r \<Longrightarrow> n \<le> m \<Longrightarrow> parse_datum nxt m p = Some r"
  by (rule fuel_le_le [of "parse_datum nxt"]) (use parse_fuel_all in blast)+

lemma parse_list_le:
  "parse_list nxt n close op es dt p = Some r \<Longrightarrow> n \<le> m \<Longrightarrow> parse_list nxt m close op es dt p = Some r"
  by (rule fuel_le_le [of "\<lambda>n. parse_list nxt n close op es dt"]) (use parse_fuel_all in blast)+

lemma parse_vector_le: "parse_vector nxt n op es p = Some r \<Longrightarrow> n \<le> m \<Longrightarrow> parse_vector nxt m op es p = Some r"
  by (rule fuel_le_le [of "\<lambda>n. parse_vector nxt n op es"]) (use parse_fuel_all in blast)+

lemma parse_toplevel_fuel: "fuel_le (parse_toplevel nxt n out) (parse_toplevel nxt (Suc n) out)"
proof (induction n arbitrary: out)
  case (Suc n)
  have e: "parse_toplevel nxt (Suc m) out = pbind (pstep (peek nxt)) (\<lambda>t.
       if tk_kind t = EOF then preturn out
       else pbind (parse_datum nxt m) (\<lambda>d. parse_toplevel nxt m (out @ [recognise d])))" for m out
    by (rule ext) simp
  show ?case
    by (subst e [of n], subst e [of "Suc n"], rule fuel_le_bind) (auto intro!: Suc.IH fuel_le_bind parse_fuel_all [THEN conjunct1])
qed simp

lemma parse_toplevel_le:
  "parse_toplevel nxt n out p = Some r \<Longrightarrow> n \<le> m \<Longrightarrow> parse_toplevel nxt m out p = Some r"
  by (rule fuel_le_le [of "\<lambda>n. parse_toplevel nxt n out"]) (use parse_toplevel_fuel in blast)+

section \<open>The interface to the lexer\<close>

text \<open>
  A source of tokens with a measure that every token but the last makes smaller. On such a source
  the parser returns with fuel twice the measure.
\<close>

locale token_source =
  fixes nxt :: "'l lexer" and left :: "'l \<Rightarrow> nat"
  assumes left_le: "nxt l = (r, l') \<Longrightarrow> left l' \<le> left l"
    and left_less: "nxt l = (Inr t, l') \<Longrightarrow> tk_kind t \<noteq> EOF \<Longrightarrow> left l' < left l"
begin

definition ahead :: "'l parser \<Rightarrow> nat" where
  "ahead p = left (lexer p) + (case lookahead p of Some t \<Rightarrow> if tk_kind t = EOF then 0 else 1 | None \<Rightarrow> 0)"

lemma feeds_left: "feeds nxt l ts l' \<Longrightarrow> left l' + length ts \<le> left l"
proof (induction ts arbitrary: l)
  case (Cons t ts)
  have "nxt l = (Inr t, snd (nxt l))" using Cons.prems by (metis feeds.simps(2) prod.collapse)
  from left_less [OF this] Cons.prems Cons.IH show ?case by fastforce
qed simp

lemma consumed_ahead: "consumed nxt p ts p' \<Longrightarrow> ahead p' + length ts \<le> ahead p"
  using feeds_left by (fastforce simp: consumed_def front_def ahead_def split: option.splits list.splits)

lemma peek_ahead: "peek nxt p = (r, p1) \<Longrightarrow> ahead p1 \<le> ahead p"
  using left_le left_less
  by (fastforce simp: peek_def ahead_def split: option.splits prod.splits sum.splits dest: left_le left_less)

lemma byte_vector_enough: "2 * ahead p + 1 \<le> n \<Longrightarrow> parse_byte_vector nxt n op bs p \<noteq> None"
proof (induction n arbitrary: bs p)
  case (Suc n)
  obtain r p1 where pk: "peek nxt p = (r, p1)" by fastforce
  show ?case
  proof (cases r)
    case (Inr t)
    let ?p = "p1\<lparr> lookahead := None \<rparr>"
    have a: "advance nxt p1 = (Inr t, ?p)" using advance_peeked [OF peek_lookahead] pk Inr by blast
    have "ahead ?p + 1 \<le> ahead p" if "tk_kind t \<noteq> EOF"
      using consumed_ahead [OF consumed_next] pk Inr that by fastforce
    then have "parse_byte_vector nxt n op b ?p \<noteq> None" if "tk_kind t \<noteq> EOF" for b
      using Suc.IH [of ?p b] Suc.prems that by fastforce
    then show ?thesis using pk Inr a
      by (auto simp: pbind_def pstep_def pfail_def preturn_def split: token_kind.split option.split)
  qed (simp add: pbind_def pstep_def pk)
qed simp

lemma parse_enough_all:
  "(\<forall>p. 0 \<le> qq_depth p \<longrightarrow> 2 * ahead p + 1 \<le> n \<longrightarrow> parse_datum nxt n p \<noteq> None) \<and>
   (\<forall>close op es dt p. 0 \<le> qq_depth p \<longrightarrow> close \<in> {RParen, RBracket} \<longrightarrow> 2 * ahead p + 2 \<le> n \<longrightarrow> parse_list nxt n close op es dt p \<noteq> None) \<and>
   (\<forall>op es p. 0 \<le> qq_depth p \<longrightarrow> 2 * ahead p + 2 \<le> n \<longrightarrow> parse_vector nxt n op es p \<noteq> None) \<and>
   (\<forall>t p. 0 \<le> qq_depth p \<longrightarrow> 2 * ahead p + 2 \<le> n \<longrightarrow> parse_abbreviation nxt n t p \<noteq> None)"
proof (induction n)
  case 0
  then show ?case by simp
next
  case (Suc n)
  have pd: "parse_datum nxt n p \<noteq> None" if "0 \<le> qq_depth p" "2 * ahead p + 1 \<le> n" for p using Suc.IH that by blast
  have pl: "parse_list nxt n close op es dt p \<noteq> None"
    if "0 \<le> qq_depth p" "close \<in> {RParen, RBracket}" "2 * ahead p + 2 \<le> n" for close op es dt p using Suc.IH that by blast
  have pv: "parse_vector nxt n op es p \<noteq> None" if "0 \<le> qq_depth p" "2 * ahead p + 2 \<le> n" for op es p using Suc.IH that by blast
  have pa: "parse_abbreviation nxt n t p \<noteq> None" if "0 \<le> qq_depth p" "2 * ahead p + 2 \<le> n" for t p using Suc.IH that by blast
  have got: "ahead p' + 1 \<le> ahead p \<and> 0 \<le> qq_depth p'"
    if "parse_datum nxt n p = Some (Inr d, p')" "0 \<le> qq_depth p" for p d p'
  proof -
    from parse_sound_all [of nxt n] that obtain ts where ts: "consumed nxt p ts p'" "datum (unquoting p) ts d" by blast
    then have "ts \<noteq> []" by auto
    then show ?thesis using consumed_ahead [OF ts(1)] ts(1) that(2) by (cases ts) (auto simp: consumed_def)
  qed
  have D: "parse_datum nxt (Suc n) p \<noteq> None" if q: "0 \<le> qq_depth p" and f: "2 * ahead p + 1 \<le> Suc n" for p
  proof -
    obtain r p1 where pk: "peek nxt p = (r, p1)" by fastforce
    show ?thesis
    proof (cases r)
      case (Inr t)
      let ?p = "p1\<lparr> lookahead := None \<rparr>"
      have a: "advance nxt p1 = (Inr t, ?p)" using advance_peeked [OF peek_lookahead] pk Inr by blast
      have q2: "0 \<le> qq_depth ?p" using peek_cases [OF pk] q by simp
      have c: "2 * ahead ?p + 2 \<le> n" if "tk_kind t \<noteq> EOF"
        using consumed_ahead [OF consumed_next, of p t p1] pk Inr that f by fastforce
      have "parse_list nxt n RParen op [] None ?p \<noteq> None" "parse_list nxt n RBracket op [] None ?p \<noteq> None"
        "parse_vector nxt n op [] ?p \<noteq> None" "parse_byte_vector nxt n op [] ?p \<noteq> None" "parse_abbreviation nxt n t ?p \<noteq> None"
        if "tk_kind t \<noteq> EOF" for op
        by (rule pl pv pa byte_vector_enough; use c [OF that] q2 in simp)+
      then show ?thesis using pk Inr a
        by (auto simp: pbind_def pstep_def pfail_def preturn_def split: token_kind.split)
    qed (simp add: pbind_def pstep_def pk)
  qed
  have L: "parse_list nxt (Suc n) close op es dt p \<noteq> None"
    if q: "0 \<le> qq_depth p" and cl: "close \<in> {RParen, RBracket}" and f: "2 * ahead p + 2 \<le> Suc n" for close op es dt p
  proof -
    obtain r p1 where pk: "peek nxt p = (r, p1)" by fastforce
    show ?thesis
    proof (cases r)
      case (Inr t)
      let ?p = "p1\<lparr> lookahead := None \<rparr>"
      have a: "advance nxt p1 = (Inr t, ?p)" using advance_peeked [OF peek_lookahead] pk Inr by blast
      have q1: "0 \<le> qq_depth p1" "0 \<le> qq_depth ?p" using peek_cases [OF pk] q by simp_all
      have c1: "ahead p1 \<le> ahead p" by (rule peek_ahead [OF pk])
      have c2: "ahead ?p + 1 \<le> ahead p" if "tk_kind t \<noteq> EOF"
        using consumed_ahead [OF consumed_next, of p t p1] pk Inr that by fastforce
      have n1: "parse_datum nxt n p1 \<noteq> None" using c1 q1 f by (intro pd) auto
      have n2: "parse_datum nxt n ?p \<noteq> None" if "tk_kind t \<noteq> EOF" using c2 [OF that] q1 f by (intro pd) auto
      have n3: "parse_list nxt n close op fs ds p' \<noteq> None" if "parse_datum nxt n p1 = Some (Inr d, p')" for d p' fs ds
        using got [OF that q1(1)] c1 f cl by (intro pl) auto
      have n4: "parse_list nxt n close op fs ds p' \<noteq> None" if "parse_datum nxt n ?p = Some (Inr d, p')" "tk_kind t \<noteq> EOF" for d p' fs ds
        using got [OF that(1) q1(2)] c2 [OF that(2)] f cl by (intro pl) auto
      consider "tk_kind t \<in> {EOF, close, RParen, RBracket}" | "tk_kind t = Dot" "tk_kind t \<notin> {EOF, close, RParen, RBracket}"
        | "tk_kind t \<notin> {EOF, close, RParen, RBracket, Dot}" by blast
      then show ?thesis
      proof cases
        case 1
        then show ?thesis using pk Inr a by (auto simp: pbind_def pstep_def pfail_def preturn_def)
      next
        case 2
        show ?thesis
        proof (cases "dt \<noteq> None \<or> es = []")
          case False
          obtain u p2 where u: "parse_datum nxt n ?p = Some (u, p2)" using n2 2 by auto
          show ?thesis using 2 False pk Inr a u n4 [of _ p2]
            by (cases u) (auto simp: pbind_def pstep_def)
        qed (use 2 pk Inr in \<open>auto simp: pbind_def pstep_def pfail_def\<close>)
      next
        case 3
        obtain u p2 where u: "parse_datum nxt n p1 = Some (u, p2)" using n1 by auto
        show ?thesis using 3 pk Inr a u n3 [of _ p2]
          by (cases u) (auto simp: pbind_def pstep_def pfail_def)
      qed
    qed (simp add: pbind_def pstep_def pk)
  qed
  have V: "parse_vector nxt (Suc n) op es p \<noteq> None"
    if q: "0 \<le> qq_depth p" and f: "2 * ahead p + 2 \<le> Suc n" for op es p
  proof -
    obtain r p1 where pk: "peek nxt p = (r, p1)" by fastforce
    show ?thesis
    proof (cases r)
      case (Inr t)
      let ?p = "p1\<lparr> lookahead := None \<rparr>"
      have a: "advance nxt p1 = (Inr t, ?p)" using advance_peeked [OF peek_lookahead] pk Inr by blast
      have q1: "0 \<le> qq_depth p1" using peek_cases [OF pk] q by simp
      have c1: "ahead p1 \<le> ahead p" by (rule peek_ahead [OF pk])
      obtain u p2 where u: "parse_datum nxt n p1 = Some (u, p2)" using pd [OF q1] c1 f by fastforce
      have "parse_vector nxt n op fs p2 \<noteq> None" if "u = Inr d" for d fs
        using got [of p1 d p2] u that q1 c1 f by (intro pv) auto
      then show ?thesis using pk Inr a u
        by (cases u) (auto simp: pbind_def pstep_def pfail_def preturn_def)
    qed (simp add: pbind_def pstep_def pk)
  qed
  have A: "parse_abbreviation nxt (Suc n) t p \<noteq> None"
    if q: "0 \<le> qq_depth p" and f: "2 * ahead p + 2 \<le> Suc n" for t p
  proof -
    have d: "parse_datum nxt n (count_qq k 1 p) \<noteq> None" for k
      by (rule pd) (use q f in \<open>auto simp: ahead_def count_qq_def\<close>)
    show ?thesis
    proof (cases "quote_of (tk_kind t)")
      case (Some k)
      obtain u p2 where "parse_datum nxt n (count_qq k 1 p) = Some (u, p2)" using d [of k] by auto
      then show ?thesis using Some by (cases u) (auto simp: pbind_def pfail_def)
    qed (simp add: pfail_def)
  qed
  from D L V A show ?case by blast
qed

lemma parse_toplevel_enough:
  "0 \<le> qq_depth p \<Longrightarrow> 2 * ahead p + 2 \<le> n \<Longrightarrow> parse_toplevel nxt n out p \<noteq> None"
proof (induction n arbitrary: out p)
  case (Suc n)
  obtain r p1 where pk: "peek nxt p = (r, p1)" by fastforce
  show ?case
  proof (cases r)
    case (Inr t)
    have q1: "0 \<le> qq_depth p1" using peek_cases [OF pk] Suc.prems by simp
    have c1: "ahead p1 \<le> ahead p" by (rule peek_ahead [OF pk])
    obtain u p2 where u: "parse_datum nxt n p1 = Some (u, p2)"
      using parse_enough_all [of n] q1 c1 Suc.prems by (fastforce dest!: spec [of _ p1] conjunct1)
    have "parse_toplevel nxt n fs p2 \<noteq> None" if d: "u = Inr d" for d fs
    proof -
      from parse_sound_all [of nxt n] u d q1 obtain ts where ts: "consumed nxt p1 ts p2" "datum (unquoting p1) ts d" by blast
      then have "ts \<noteq> []" by auto
      then have "ahead p2 + 1 \<le> ahead p1" using consumed_ahead [OF ts(1)] by (cases ts) auto
      moreover have "0 \<le> qq_depth p2" using ts(1) q1 by (simp add: consumed_def)
      ultimately show ?thesis using c1 Suc.prems(2) by (intro Suc.IH) auto
    qed
    then show ?thesis using pk Inr u by (cases u) (auto simp: pbind_def pstep_def preturn_def)
  qed (simp add: pbind_def pstep_def pk)
qed simp

end


section \<open>What the grammar holds is accepted\<close>

lemma front_peek:
  "front nxt p (t # ts) l \<Longrightarrow> \<exists>p1. peek nxt p = (Inr t, p1) \<and> front nxt p1 (t # ts) l \<and> lookahead p1 = Some t \<and>
     tk_kind t \<noteq> EOF \<and> qq_depth p1 = qq_depth p \<and> qq_strict p1 = qq_strict p \<and> feeds nxt (lexer p1) ts l"
proof (cases "lookahead p")
  case None
  assume "front nxt p (t # ts) l"
  with None obtain l1 where n: "nxt (lexer p) = (Inr t, l1)" "tk_kind t \<noteq> EOF" "feeds nxt l1 ts l"
    by (cases "nxt (lexer p)") (auto simp: front_def)
  then show ?thesis using None
    by (intro exI [of _ "p\<lparr> lexer := l1, lookahead := Some t \<rparr>"]) (simp add: front_def peek_def)
next
  case (Some t')
  assume "front nxt p (t # ts) l"
  with Some show ?thesis by (intro exI [of _ p]) (auto simp: front_def peek_def)
qed

lemma front_split:
  "front nxt p (ts @ us) l \<Longrightarrow> ts \<noteq> [] \<Longrightarrow> \<exists>l1. front nxt p ts l1 \<and> feeds nxt l1 us l"
  by (cases ts; cases "lookahead p") (auto simp: front_def feeds_append)

lemma feeds_front: "lookahead p = None \<Longrightarrow> front nxt p ts l = feeds nxt (lexer p) ts l"
  by (simp add: front_def)

lemma datum_first: "datum q ts e \<Longrightarrow> ts \<noteq> [] \<and> tk_kind (hd ts) \<notin> {RParen, RBracket, Dot, EOF}"
  by (erule datum.cases) (auto simp: is_atom_def brackets_def quote_of_def split: token_kind.splits)

text \<open>A closing token ends a list.\<close>

lemma parse_list_close:
  assumes "front nxt p [b] l" "tk_kind b = close"
  shows "\<exists>p'. parse_list nxt (Suc 0) close op es dt p = Some (Inr (List_sx (merge_spans op (tk_span b)) es dt), p') \<and> lexer p' = l"
proof -
  from front_peek [OF assms(1)] obtain p1 where p1: "peek nxt p = (Inr b, p1)" "lookahead p1 = Some b" "tk_kind b \<noteq> EOF" "lexer p1 = l"
    by (auto simp: feeds_front)
  then show ?thesis using assms(2) by (auto simp: pbind_def pstep_def preturn_def advance_peeked)
qed

lemma parse_vector_close:
  assumes "front nxt p [b] l" "tk_kind b = RParen"
  shows "\<exists>p'. parse_vector nxt (Suc 0) op es p = Some (Inr (Vector_sx (merge_spans op (tk_span b)) es), p') \<and> lexer p' = l"
proof -
  from front_peek [OF assms(1)] obtain p1 where p1: "peek nxt p = (Inr b, p1)" "lookahead p1 = Some b" "lexer p1 = l"
    by (auto simp: feeds_front)
  then show ?thesis using assms(2) by (auto simp: pbind_def pstep_def preturn_def advance_peeked)
qed

lemma parse_list_item:
  assumes "front nxt p ts l1" "datum q ts e"
    and "\<And>p1. peek nxt p = (Inr (hd ts), p1) \<Longrightarrow> parse_datum nxt n p1 = Some (Inr e, p2)"
    and "parse_list nxt n close op (es @ [e]) None p2 = Some r" "close \<in> {RParen, RBracket}"
  shows "parse_list nxt (Suc n) close op es None p = Some r"
proof -
  obtain t ts' where ts: "ts = t # ts'" using datum_first [OF assms(2)] by (cases ts) auto
  from front_peek [OF assms(1) [unfolded ts]] obtain p1 where "peek nxt p = (Inr t, p1)" by blast
  then show ?thesis using assms(3) [of p1] assms(4,5) datum_first [OF assms(2)] ts
    by (auto simp: pbind_def pstep_def)
qed

lemma parse_vector_item:
  assumes "front nxt p ts l1" "datum q ts e"
    and "\<And>p1. peek nxt p = (Inr (hd ts), p1) \<Longrightarrow> parse_datum nxt n p1 = Some (Inr e, p2)"
    and "parse_vector nxt n op (es @ [e]) p2 = Some r"
  shows "parse_vector nxt (Suc n) op es p = Some r"
proof -
  obtain t ts' where ts: "ts = t # ts'" using datum_first [OF assms(2)] by (cases ts) auto
  from front_peek [OF assms(1) [unfolded ts]] obtain p1 where "peek nxt p = (Inr t, p1)" by blast
  then show ?thesis using assms(3) [of p1] assms(4) datum_first [OF assms(2)] ts
    by (auto simp: pbind_def pstep_def)
qed

lemma byte_vector_complete:
  "list_all2 is_byte ts cs \<Longrightarrow> front nxt p (ts @ [b]) l \<Longrightarrow> tk_kind b = RParen \<Longrightarrow>
     \<exists>n p'. parse_byte_vector nxt n op bs p = Some (Inr (ByteVector_sx (merge_spans op (tk_span b)) (bs @ cs)), p') \<and> lexer p' = l"
proof (induction ts cs arbitrary: p bs rule: list_all2_induct)
  case Nil
  from front_peek [of nxt p b "[]" l] Nil(1) obtain p1 where p1: "peek nxt p = (Inr b, p1)" "lookahead p1 = Some b" "lexer p1 = l"
    by (auto simp: feeds_front)
  then have "\<exists>p'. parse_byte_vector nxt (Suc 0) op bs p = Some (Inr (ByteVector_sx (merge_spans op (tk_span b)) (bs @ [])), p') \<and> lexer p' = l"
    using Nil(2) by (auto simp: pbind_def pstep_def preturn_def advance_peeked)
  then show ?case by blast
next
  case (Cons t ts c cs)
  from front_peek [of nxt p t "ts @ [b]" l] Cons.prems(1) obtain p1 where p1: "peek nxt p = (Inr t, p1)" "lookahead p1 = Some t"
    "feeds nxt (lexer p1) (ts @ [b]) l" by auto
  let ?p = "p1\<lparr> lookahead := None \<rparr>"
  have "front nxt ?p (ts @ [b]) l" using p1(3) by (simp add: front_def)
  from Cons.IH [OF this Cons.prems(2), of "bs @ [c]"] obtain n p' where
    n: "parse_byte_vector nxt n op (bs @ [c]) ?p = Some (Inr (ByteVector_sx (merge_spans op (tk_span b)) (bs @ c # cs)), p')" "lexer p' = l" by auto
  obtain m where m: "tk_kind t = Number m" "parse_byte_literal m = Some c"
    using Cons.hyps(1) by (auto simp: is_byte_def split: token_kind.splits)
  have "parse_byte_vector nxt (Suc n) op bs p = Some (Inr (ByteVector_sx (merge_spans op (tk_span b)) (bs @ c # cs)), p')"
    using p1 m n by (auto simp: pbind_def pstep_def preturn_def advance_peeked)
  with n(2) show ?case by blast
qed

definition runs_through :: "'l lexer \<Rightarrow> 'l parser \<Rightarrow> sexpr list \<Rightarrow> 'l parser \<Rightarrow> bool" where
  "runs_through nxt p es p' \<longleftrightarrow>
     (\<forall>close op acc r n. close \<in> {RParen, RBracket} \<longrightarrow> parse_list nxt n close op (acc @ es) None p' = Some r \<longrightarrow>
        (\<exists>m. parse_list nxt m close op acc None p = Some r)) \<and>
     (\<forall>op acc r n. parse_vector nxt n op (acc @ es) p' = Some r \<longrightarrow> (\<exists>m. parse_vector nxt m op acc p = Some r))"

definition accepts :: "'l lexer \<Rightarrow> bool \<Rightarrow> token list \<Rightarrow> sexpr \<Rightarrow> bool" where
  "accepts nxt q ts e \<longleftrightarrow> (\<forall>p l. unquoting p = q \<longrightarrow> 0 \<le> qq_depth p \<longrightarrow> front nxt p ts l \<longrightarrow>
     (\<exists>n p'. parse_datum nxt n p = Some (Inr e, p') \<and> lexer p' = l))"

lemma acceptsD:
  assumes "accepts nxt q ts e" "datum q ts e" "unquoting p = q" "0 \<le> qq_depth p" "front nxt p ts l"
  obtains n p' where "parse_datum nxt n p = Some (Inr e, p')" "lexer p' = l" "lookahead p' = None"
    "qq_depth p' = qq_depth p" "unquoting p' = q"
proof -
  obtain n p' where r: "parse_datum nxt n p = Some (Inr e, p')" "lexer p' = l"
    using assms(1,3-5) unfolding accepts_def by blast
  with parse_sound_all [of nxt n] assms(4) obtain ts' where "consumed nxt p ts' p'" by blast
  then show ?thesis using r assms(3) by (intro that [of n p']) (auto simp: consumed_def unquoting_def)
qed

definition accepts_items :: "'l lexer \<Rightarrow> bool \<Rightarrow> token list \<Rightarrow> sexpr list \<Rightarrow> bool" where
  "accepts_items nxt q ts es \<longleftrightarrow> (\<forall>p us l. unquoting p = q \<longrightarrow> 0 \<le> qq_depth p \<longrightarrow> front nxt p (ts @ us) l \<longrightarrow>
     (\<exists>p'. front nxt p' us l \<and> unquoting p' = q \<and> 0 \<le> qq_depth p' \<and> runs_through nxt p es p'))"

lemma accepts_more:
  assumes "accepts nxt q ts e" "datum q ts e" "accepts_items nxt q us es"
  shows "accepts_items nxt q (ts @ us) (e # es)"
proof (unfold accepts_items_def, intro allI impI)
  fix p vs l
  assume q: "unquoting p = q" "0 \<le> qq_depth p" and f: "front nxt p ((ts @ us) @ vs) l"
  obtain t ts' where ts: "ts = t # ts'" using datum_first [OF assms(2)] by (cases ts) auto
  from front_split [of nxt p ts "us @ vs" l] f ts obtain l1 where l1: "front nxt p ts l1" "feeds nxt l1 (us @ vs) l" by auto
  from front_peek [OF l1(1) [unfolded ts]] obtain p1 where p1: "peek nxt p = (Inr t, p1)" "front nxt p1 ts l1"
    "qq_depth p1 = qq_depth p" "unquoting p1 = q" using ts q by (auto simp: unquoting_def)
  from acceptsD [OF assms(1,2) p1(4) _ p1(2)] p1(3) q(2) obtain n p2 where
    n: "parse_datum nxt n p1 = Some (Inr e, p2)" "lexer p2 = l1" "lookahead p2 = None" "qq_depth p2 = qq_depth p" "unquoting p2 = q"
    by auto
  have "front nxt p2 (us @ vs) l" using n(2,3) l1(2) by (simp add: front_def)
  with assms(3) n(4,5) q(2) obtain p' where p': "front nxt p' vs l" "unquoting p' = q" "0 \<le> qq_depth p'" "runs_through nxt p2 es p'"
    unfolding accepts_items_def by metis
  have hd: "peek nxt p = (Inr (hd ts), p1)" using p1(1) ts by simp
  have "\<exists>m. parse_list nxt m close op acc None p = Some r"
    if c: "close \<in> {RParen, RBracket}" and r: "parse_list nxt k close op (acc @ e # es) None p' = Some r" for close op acc r k
  proof -
    have "parse_list nxt k close op ((acc @ [e]) @ es) None p' = Some r" using r by simp
    then obtain m where m: "parse_list nxt m close op (acc @ [e]) None p2 = Some r" using p'(4) c unfolding runs_through_def by blast
    have "parse_list nxt (Suc (max n m)) close op acc None p = Some r"
      by (rule parse_list_item [OF l1(1) assms(2) _ parse_list_le [OF m] c])
        (use hd n(1) parse_datum_le [OF n(1), of "max n m"] in auto)
    then show ?thesis by blast
  qed
  moreover have "\<exists>m. parse_vector nxt m op acc p = Some r"
    if r: "parse_vector nxt k op (acc @ e # es) p' = Some r" for op acc r k
  proof -
    have "parse_vector nxt k op ((acc @ [e]) @ es) p' = Some r" using r by simp
    then obtain m where m: "parse_vector nxt m op (acc @ [e]) p2 = Some r" using p'(4) unfolding runs_through_def by blast
    have "parse_vector nxt (Suc (max n m)) op acc p = Some r"
      by (rule parse_vector_item [OF l1(1) assms(2) _ parse_vector_le [OF m]])
        (use hd n(1) parse_datum_le [OF n(1), of "max n m"] in auto)
    then show ?thesis by blast
  qed
  ultimately have "runs_through nxt p (e # es) p'" unfolding runs_through_def by blast
  with p' show "\<exists>p'. front nxt p' vs l \<and> unquoting p' = q \<and> 0 \<le> qq_depth p' \<and> runs_through nxt p (e # es) p'" by blast
qed


lemma parse_list_dot:
  assumes "front nxt p (d # us @ [b]) l" "tk_kind d = Dot" "es \<noteq> []" "accepts nxt q us e" "datum q us e"
    "unquoting p = q" "0 \<le> qq_depth p" "close \<in> {RParen, RBracket}" "tk_kind b = close"
  shows "\<exists>n p'. parse_list nxt n close op es None p = Some (Inr (List_sx (merge_spans op (tk_span b)) es (Some e)), p') \<and> lexer p' = l"
proof -
  from front_peek [OF assms(1)] obtain p1 where p1: "peek nxt p = (Inr d, p1)" "lookahead p1 = Some d"
    "qq_depth p1 = qq_depth p" "qq_strict p1 = qq_strict p" "feeds nxt (lexer p1) (us @ [b]) l" by blast
  let ?p = "p1\<lparr> lookahead := None \<rparr>"
  obtain l1 where l1: "front nxt ?p us l1" "feeds nxt l1 [b] l" using p1(5) by (auto simp: feeds_append front_def)
  have u: "unquoting ?p = q" "0 \<le> qq_depth ?p" using p1(3,4) assms(6,7) by (simp_all add: unquoting_def)
  from acceptsD [OF assms(4,5) u l1(1)] obtain n p2 where
    n: "parse_datum nxt n ?p = Some (Inr e, p2)" "lexer p2 = l1" "lookahead p2 = None" by blast
  have "front nxt p2 [b] l" using n(2,3) l1(2) by (simp add: front_def)
  from parse_list_close [OF this assms(9), of op es "Some e"] obtain p' where
    c: "parse_list nxt (Suc 0) close op es (Some e) p2 = Some (Inr (List_sx (merge_spans op (tk_span b)) es (Some e)), p')" "lexer p' = l" by blast
  have "parse_list nxt (Suc (Suc n)) close op es None p = Some (Inr (List_sx (merge_spans op (tk_span b)) es (Some e)), p')"
    using p1(1,2) assms(2,3,8) parse_datum_le [OF n(1), of "Suc n"] parse_list_le [OF c(1), of "Suc n"]
    by (subst parse_list.simps) (auto simp del: parse_datum.simps parse_list.simps simp: pbind_def pstep_def advance_peeked)
  with c(2) show ?thesis by blast
qed

lemma parse_complete:
  "datum q ts e \<Longrightarrow> accepts nxt q ts e"
  "items q ts es \<Longrightarrow> accepts_items nxt q ts es"
proof (induction q ts e and q ts es rule: datum_items.inducts)
  case (atom t e q)
  show ?case
  proof (unfold accepts_def, intro allI impI)
    fix p l
    assume f: "front nxt p [t] l"
    from front_peek [OF f] obtain p1 where p1: "peek nxt p = (Inr t, p1)" "lookahead p1 = Some t" "lexer p1 = l" by auto
    then have "parse_datum nxt (Suc 0) p = Some (Inr e, p1\<lparr> lookahead := None \<rparr>)"
      using atom by (auto simp: pbind_def pstep_def advance_peeked is_atom_def quote_of_def split: token_kind.splits)
    then show "\<exists>n p'. parse_datum nxt n p = Some (Inr e, p') \<and> lexer p' = l"
      using p1(3) by (intro exI [of _ "Suc 0"] exI [of _ "p1\<lparr> lookahead := None \<rparr>"]) simp
  qed
next
  case (proper a b q ts es)
  show ?case
  proof (unfold accepts_def, intro allI impI)
    fix p l
    assume q: "unquoting p = q" "0 \<le> qq_depth p" and f: "front nxt p (a # ts @ [b]) l"
    from front_peek [OF f] obtain p1 where p1: "peek nxt p = (Inr a, p1)" "lookahead p1 = Some a"
      "qq_depth p1 = qq_depth p" "qq_strict p1 = qq_strict p" "feeds nxt (lexer p1) (ts @ [b]) l" by blast
    let ?p = "p1\<lparr> lookahead := None \<rparr>" and ?e = "List_sx (merge_spans (tk_span a) (tk_span b)) es None"
    have "front nxt ?p (ts @ [b]) l" "unquoting ?p = q" "0 \<le> qq_depth ?p"
      using p1(3-5) q by (simp_all add: front_def unquoting_def)
    with proper.IH obtain p2 where p2: "front nxt p2 [b] l" "runs_through nxt ?p es p2" unfolding accepts_items_def by metis
    from parse_list_close [OF p2(1) refl, of "tk_span a" es None] obtain p' where
      c: "parse_list nxt (Suc 0) (tk_kind b) (tk_span a) es None p2 = Some (Inr ?e, p')" "lexer p' = l" by blast
    have k: "tk_kind b \<in> {RParen, RBracket}" using proper.hyps(1) by (auto simp: brackets_def)
    have "parse_list nxt (Suc 0) (tk_kind b) (tk_span a) ([] @ es) None p2 = Some (Inr ?e, p')" using c(1) by simp
    then obtain m where "parse_list nxt m (tk_kind b) (tk_span a) [] None ?p = Some (Inr ?e, p')"
      using p2(2) k unfolding runs_through_def by blast
    then have "parse_datum nxt (Suc m) p = Some (Inr ?e, p')"
      using p1(1,2) proper.hyps(1) by (auto simp: pbind_def pstep_def advance_peeked brackets_def)
    with c(2) show "\<exists>n p'. parse_datum nxt n p = Some (Inr ?e, p') \<and> lexer p' = l" by blast
  qed
next
  case (dotted a b q ts es d us e)
  show ?case
  proof (unfold accepts_def, intro allI impI)
    fix p l
    assume q: "unquoting p = q" "0 \<le> qq_depth p" and f: "front nxt p (a # ts @ d # us @ [b]) l"
    from front_peek [OF f] obtain p1 where p1: "peek nxt p = (Inr a, p1)" "lookahead p1 = Some a"
      "qq_depth p1 = qq_depth p" "qq_strict p1 = qq_strict p" "feeds nxt (lexer p1) (ts @ d # us @ [b]) l" by blast
    let ?p = "p1\<lparr> lookahead := None \<rparr>" and ?e = "List_sx (merge_spans (tk_span a) (tk_span b)) es (Some e)"
    have "front nxt ?p (ts @ d # us @ [b]) l" "unquoting ?p = q" "0 \<le> qq_depth ?p"
      using p1(3-5) q by (simp_all add: front_def unquoting_def)
    with dotted.IH(1) obtain p2 where p2: "front nxt p2 (d # us @ [b]) l" "unquoting p2 = q" "0 \<le> qq_depth p2" "runs_through nxt ?p es p2"
      unfolding accepts_items_def by metis
    have k: "tk_kind b \<in> {RParen, RBracket}" using dotted.hyps(1) by (auto simp: brackets_def)
    from parse_list_dot [OF p2(1) dotted.hyps(4,3) dotted.IH(2) dotted.hyps(5) p2(2,3) k refl, of "tk_span a"] obtain n p' where
      c: "parse_list nxt n (tk_kind b) (tk_span a) es None p2 = Some (Inr ?e, p')" "lexer p' = l" by blast
    have "parse_list nxt n (tk_kind b) (tk_span a) ([] @ es) None p2 = Some (Inr ?e, p')" using c(1) by simp
    then obtain m where "parse_list nxt m (tk_kind b) (tk_span a) [] None ?p = Some (Inr ?e, p')"
      using p2(4) k unfolding runs_through_def by blast
    then have "parse_datum nxt (Suc m) p = Some (Inr ?e, p')"
      using p1(1,2) dotted.hyps(1) by (auto simp: pbind_def pstep_def advance_peeked brackets_def)
    with c(2) show "\<exists>n p'. parse_datum nxt n p = Some (Inr ?e, p') \<and> lexer p' = l" by blast
  qed
next
  case (vector a b q ts es)
  show ?case
  proof (unfold accepts_def, intro allI impI)
    fix p l
    assume q: "unquoting p = q" "0 \<le> qq_depth p" and f: "front nxt p (a # ts @ [b]) l"
    from front_peek [OF f] obtain p1 where p1: "peek nxt p = (Inr a, p1)" "lookahead p1 = Some a"
      "qq_depth p1 = qq_depth p" "qq_strict p1 = qq_strict p" "feeds nxt (lexer p1) (ts @ [b]) l" by blast
    let ?p = "p1\<lparr> lookahead := None \<rparr>" and ?e = "Vector_sx (merge_spans (tk_span a) (tk_span b)) es"
    have "front nxt ?p (ts @ [b]) l" "unquoting ?p = q" "0 \<le> qq_depth ?p"
      using p1(3-5) q by (simp_all add: front_def unquoting_def)
    with vector.IH obtain p2 where p2: "front nxt p2 [b] l" "runs_through nxt ?p es p2" unfolding accepts_items_def by metis
    from parse_vector_close [OF p2(1) vector.hyps(2), of "tk_span a" es] obtain p' where
      c: "parse_vector nxt (Suc 0) (tk_span a) es p2 = Some (Inr ?e, p')" "lexer p' = l" by blast
    have "parse_vector nxt (Suc 0) (tk_span a) ([] @ es) p2 = Some (Inr ?e, p')" using c(1) by simp
    then obtain m where "parse_vector nxt m (tk_span a) [] ?p = Some (Inr ?e, p')"
      using p2(2) unfolding runs_through_def by blast
    then have "parse_datum nxt (Suc m) p = Some (Inr ?e, p')"
      using p1(1,2) vector.hyps(1) by (auto simp: pbind_def pstep_def advance_peeked)
    with c(2) show "\<exists>n p'. parse_datum nxt n p = Some (Inr ?e, p') \<and> lexer p' = l" by blast
  qed
next
  case (bytes a b ts bs q)
  show ?case
  proof (unfold accepts_def, intro allI impI)
    fix p l
    assume f: "front nxt p (a # ts @ [b]) l"
    from front_peek [OF f] obtain p1 where p1: "peek nxt p = (Inr a, p1)" "lookahead p1 = Some a"
      "feeds nxt (lexer p1) (ts @ [b]) l" by blast
    let ?p = "p1\<lparr> lookahead := None \<rparr>" and ?e = "ByteVector_sx (merge_spans (tk_span a) (tk_span b)) bs"
    have "front nxt ?p (ts @ [b]) l" using p1(3) by (simp add: front_def)
    from byte_vector_complete [OF bytes.hyps(3) this bytes.hyps(2), of "tk_span a" "[]"] obtain n p' where
      n: "parse_byte_vector nxt n (tk_span a) [] ?p = Some (Inr ?e, p')" "lexer p' = l" by auto
    then have "parse_datum nxt (Suc n) p = Some (Inr ?e, p')"
      using p1(1,2) bytes.hyps(1) by (auto simp: pbind_def pstep_def advance_peeked)
    with n(2) show "\<exists>n p'. parse_datum nxt n p = Some (Inr ?e, p') \<and> lexer p' = l" by blast
  qed
next
  case (quoted t k q ts e)
  show ?case
  proof (unfold accepts_def, intro allI impI)
    fix p l
    assume q: "unquoting p = q" "0 \<le> qq_depth p" and f: "front nxt p (t # ts) l"
    from front_peek [OF f] obtain p1 where p1: "peek nxt p = (Inr t, p1)" "lookahead p1 = Some t"
      "qq_depth p1 = qq_depth p" "qq_strict p1 = qq_strict p" "feeds nxt (lexer p1) ts l" by blast
    let ?p = "p1\<lparr> lookahead := None \<rparr>" and ?e = "ReaderForm_sx (merge_spans (tk_span t) (sx_span e)) k e"
    let ?c = "count_qq k 1 ?p"
    have f: "front nxt ?c ts l" "0 \<le> qq_depth ?c"
      using p1(3-5) q by (simp add: front_def, auto simp: count_qq_def)
    have u: "unquoting ?c = (q \<or> k = Quasiquote_form)"
      using p1(3-5) q by (auto simp: unquoting_def count_qq_def)
    from acceptsD [OF quoted.IH quoted.hyps(3) u f(2,1)] obtain n p2 where
      n: "parse_datum nxt n ?c = Some (Inr e, p2)" "lexer p2 = l" by blast
    have allowed: "\<not> (qq_strict ?p \<and> (k = Unquote_form \<or> k = Unquote_splicing_form) \<and> qq_depth ?p = 0)"
      using quoted.hyps(2) q p1(3,4) by (auto simp: unquoting_def)
    have ab: "parse_abbreviation nxt (Suc n) t ?p = Some (Inr ?e, count_qq k (- 1) p2)"
      using quoted.hyps(1) allowed n(1) by (auto simp: pbind_def)
    have "parse_datum nxt (Suc (Suc n)) p = Some (Inr ?e, count_qq k (- 1) p2)"
      using p1(1,2) quoted.hyps(1) ab
      by (subst parse_datum.simps) (auto simp: pbind_def pstep_def advance_peeked quote_of_def simp del: parse_abbreviation.simps split: token_kind.splits)
    with n(2) show "\<exists>n p'. parse_datum nxt n p = Some (Inr ?e, p') \<and> lexer p' = l" by (metis count_qq_frame(2))
  qed
next
  case (none q)
  show ?case by (auto simp: accepts_items_def runs_through_def)
next
  case (more q ts e us es)
  show ?case by (rule accepts_more [OF more.IH(1) more.hyps(1) more.IH(2)])
qed


section \<open>Whole texts\<close>

inductive_cases items_nilE: "items q ts []"
inductive_cases items_consE: "items q ts (e # es)"

lemma parse_toplevel_sound:
  "parse_toplevel nxt n out p = Some (Inr r, p') \<Longrightarrow> 0 \<le> qq_depth p \<Longrightarrow> lookahead p = None \<Longrightarrow>
     \<exists>ts es l t l'. feeds nxt (lexer p) ts l \<and> nxt l = (Inr t, l') \<and> tk_kind t = EOF \<and>
       items (unquoting p) ts es \<and> r = out @ map recognise es"
proof (induction n arbitrary: out p)
  case (Suc n)
  obtain t p1 where pk: "peek nxt p = (Inr t, p1)" using Suc.prems(1) by (auto simp: pbind_ok)
  have l1: "nxt (lexer p) = (Inr t, lexer p1)" "p1 = p\<lparr> lexer := lexer p1, lookahead := Some t \<rparr>"
    using pk Suc.prems(3) by (auto simp: peek_def split: prod.splits sum.splits)
  show ?case
  proof (cases "tk_kind t = EOF")
    case True
    with Suc.prems(1) pk have "r = out @ map recognise []" by (auto simp: pbind_ok preturn_def)
    moreover have "feeds nxt (lexer p) [] (lexer p)" by simp
    ultimately show ?thesis using l1(1) True none by blast
  next
    case False
    obtain d p2 where d: "parse_datum nxt n p1 = Some (Inr d, p2)" "parse_toplevel nxt n (out @ [recognise d]) p2 = Some (Inr r, p')"
      using Suc.prems(1) pk False by (auto simp: pbind_ok preturn_def split: if_splits)
    have q1: "0 \<le> qq_depth p1" "unquoting p1 = unquoting p" using peek_cases [OF pk] Suc.prems(2) by (simp_all add: unquoting_def)
    obtain ts where ts: "consumed nxt p1 ts p2" "datum (unquoting p) ts d"
      by (rule parse_datum_sound [OF d(1) q1(1)]) (use q1(2) in simp)
    have c: "consumed nxt p ts p2" by (rule consumed_peek [OF pk ts(1)])
    have p2: "0 \<le> qq_depth p2" "lookahead p2 = None" "unquoting p2 = unquoting p" "feeds nxt (lexer p) ts (lexer p2)"
      using c Suc.prems(2,3) by (auto simp: consumed_def unquoting_def front_def)
    from Suc.IH [OF d(2) p2(1,2)] p2(3) obtain us es l t' l' where r: "feeds nxt (lexer p2) us l" "nxt l = (Inr t', l')" "tk_kind t' = EOF"
      "items (unquoting p) us es" "r = (out @ [recognise d]) @ map recognise es" by auto
    have "feeds nxt (lexer p) (ts @ us) l" using p2(4) r(1) by (auto simp: feeds_append)
    moreover have "r = out @ map recognise (d # es)" using r(5) by simp
    ultimately show ?thesis using r(2,3) more [OF ts(2) r(4)] by blast
  qed
qed simp

lemma parse_toplevel_complete:
  "items q ts es \<Longrightarrow> feeds nxt (lexer p) ts l \<Longrightarrow> nxt l = (Inr t, l') \<Longrightarrow> tk_kind t = EOF \<Longrightarrow> lookahead p = None \<Longrightarrow>
   unquoting p = q \<Longrightarrow> 0 \<le> qq_depth p \<Longrightarrow> \<exists>n p'. parse_toplevel nxt n out p = Some (Inr (out @ map recognise es), p')"
proof (induction es arbitrary: ts p out)
  case Nil
  then have "ts = []" by (auto elim: items_nilE)
  with Nil have "parse_toplevel nxt (Suc 0) out p = Some (Inr (out @ map recognise []), p\<lparr> lexer := l', lookahead := Some t \<rparr>)"
    by (auto simp: pbind_def pstep_def preturn_def peek_def)
  then show ?case by blast
next
  case (Cons e es)
  from Cons.prems(1) obtain ts1 ts2 where s: "ts = ts1 @ ts2" "datum q ts1 e" "items q ts2 es" by (auto elim: items_consE)
  obtain x xs where x: "ts1 = x # xs" using datum_first [OF s(2)] by (cases ts1) auto
  obtain l1 where l1: "feeds nxt (lexer p) ts1 l1" "feeds nxt l1 ts2 l" using Cons.prems(2) s(1) by (auto simp: feeds_append)
  have "front nxt p (x # xs) l1" using l1(1) Cons.prems(5) x by (simp add: front_def)
  from front_peek [OF this] obtain p1 where p1: "peek nxt p = (Inr x, p1)" "front nxt p1 (x # xs) l1"
    "qq_depth p1 = qq_depth p" "qq_strict p1 = qq_strict p" "tk_kind x \<noteq> EOF" by blast
  have u: "unquoting p1 = q" "0 \<le> qq_depth p1" using p1(3,4) Cons.prems(6,7) by (simp_all add: unquoting_def)
  from acceptsD [OF parse_complete(1) [OF s(2)] s(2) u p1(2) [folded x]] obtain n p2 where
    n: "parse_datum nxt n p1 = Some (Inr e, p2)" "lexer p2 = l1" "lookahead p2 = None" "qq_depth p2 = qq_depth p1" "unquoting p2 = q" by blast
  from Cons.IH [OF s(3) _ Cons.prems(3,4) n(3,5), of "out @ [recognise e]"] n l1(2) u(2) obtain m p' where
    m: "parse_toplevel nxt m (out @ [recognise e]) p2 = Some (Inr (out @ map recognise (e # es)), p')" by auto
  have "parse_toplevel nxt (Suc (max n m)) out p = Some (Inr (out @ map recognise (e # es)), p')"
    using p1(1,5) parse_datum_le [OF n(1), of "max n m"] parse_toplevel_le [OF m, of "max n m"]
    by (auto simp: pbind_def pstep_def)
  then show ?case by blast
qed

end
