(* ===== verification/Reader.thy ===== *)
theory Reader
  imports Parser
begin

text \<open>
  The reader: the parser on the lexer, as the session driver runs them on a source text. The lexer
  provides the tokens that the parser asks for; what the parser's interface proves holds of it.
\<close>

interpretation reader: token_source lex_next left_over
proof
  show "left_over l' \<le> left_over l" if "lex_next l = (r, l')" for l r l'
    using moved_left token_result_moved lex_next_result that by metis
  show "left_over l' < left_over l" if "lex_next l = (Inr t, l')" "tk_kind t \<noteq> EOF" for l t l'
    using token_result_left lex_next_result that by metis
qed

definition read_text :: "u32 \<Rightarrow> string \<Rightarrow> bool \<Rightarrow> (reader_error + sexpr list) \<times> lexer_state parser" where
  "read_text f s strict = the (parse_toplevel lex_next (2 * length s + 2) [] (new_parser (new_lexer f s) strict))"

text \<open>C38: Reading returns on every text: with fuel twice the length of the text the parser delivers
  its data or an error, and more fuel changes nothing.\<close>

theorem read_terminates:
  "parse_toplevel lex_next (2 * length s + 2 + k) [] (new_parser (new_lexer f s) strict) = Some (read_text f s strict)"
proof -
  let ?p = "new_parser (new_lexer f s) strict"
  have "reader.ahead ?p = length s"
    by (simp add: reader.ahead_def new_parser_def new_lexer_def left_over_def)
  moreover have "0 \<le> qq_depth ?p" by (simp add: new_parser_def)
  ultimately obtain r where "parse_toplevel lex_next (2 * length s + 2) [] ?p = Some r"
    using reader.parse_toplevel_enough [of ?p "2 * length s + 2" "[]"] by auto
  from this parse_toplevel_le [OF this, of "2 * length s + 2 + k"] show ?thesis
    by (simp only: read_text_def le_add1 option.sel)
qed

text \<open>C39: Reading accepts exactly the texts whose tokens, up to the end of the text, spell a sequence
  of data of the grammar, and returns these data, with the module forms recognised.\<close>

theorem read_exact:
  "fst (read_text f s strict) = Inr out \<longleftrightarrow>
     (\<exists>ts es l t l'. feeds lex_next (new_lexer f s) ts l \<and> lex_next l = (Inr t, l') \<and> tk_kind t = EOF \<and>
        items (\<not> strict) ts es \<and> out = map recognise es)"
proof -
  let ?p = "new_parser (new_lexer f s) strict"
  have p: "0 \<le> qq_depth ?p" "lookahead ?p = None" "lexer ?p = new_lexer f s" "unquoting ?p \<longleftrightarrow> \<not> strict"
    by (simp_all add: new_parser_def unquoting_def)
  have run: "parse_toplevel lex_next (2 * length s + 2 + k) [] ?p = Some (read_text f s strict)" for k
    by (rule read_terminates)
  show ?thesis
  proof
    assume "fst (read_text f s strict) = Inr out"
    with run [of 0] have "parse_toplevel lex_next (2 * length s + 2) [] ?p = Some (Inr out, snd (read_text f s strict))"
      by (metis add_0_right prod.collapse)
    from parse_toplevel_sound [OF this p(1,2)] p show "\<exists>ts es l t l'. feeds lex_next (new_lexer f s) ts l \<and>
        lex_next l = (Inr t, l') \<and> tk_kind t = EOF \<and> items (\<not> strict) ts es \<and> out = map recognise es" by auto
  next
    assume "\<exists>ts es l t l'. feeds lex_next (new_lexer f s) ts l \<and> lex_next l = (Inr t, l') \<and> tk_kind t = EOF \<and>
        items (\<not> strict) ts es \<and> out = map recognise es"
    then obtain ts es l t l' where h: "feeds lex_next (lexer ?p) ts l" "lex_next l = (Inr t, l')" "tk_kind t = EOF"
      "items (\<not> strict) ts es" "out = map recognise es" by (auto simp: p)
    from parse_toplevel_complete [OF h(4,1-3) p(2,4,1), of "[]"] obtain n p' where
      n: "parse_toplevel lex_next n [] ?p = Some (Inr out, p')" using h(5) by auto
    have "n \<le> 2 * length s + 2 + n" by simp
    from parse_toplevel_le [OF n this] run [of n] have "read_text f s strict = (Inr out, p')" by simp
    then show "fst (read_text f s strict) = Inr out" by simp
  qed
qed

section \<open>Well-formed data\<close>

definition inside :: "span \<Rightarrow> span \<Rightarrow> bool" where
  "inside a b \<longleftrightarrow> file_id a = file_id b \<and> offset (span_start b) \<le> offset (span_start a) \<and> offset (span_end a) \<le> offset (span_end b)"

text \<open>
  What every consumer of data may rely on: spans run forwards and nest, only a list with elements
  has a tail, an unquotation stands where it is allowed, and module forms stand outermost.
\<close>

fun wf_sx :: "bool \<Rightarrow> sexpr \<Rightarrow> bool" where
  "wf_sx q (List_sx sp es t) \<longleftrightarrow> span_valid sp \<and> (\<forall>e \<in> set es. wf_sx q e \<and> inside (sx_span e) sp) \<and>
     (case t of None \<Rightarrow> True | Some e \<Rightarrow> es \<noteq> [] \<and> wf_sx q e \<and> inside (sx_span e) sp)"
| "wf_sx q (Vector_sx sp es) \<longleftrightarrow> span_valid sp \<and> (\<forall>e \<in> set es. wf_sx q e \<and> inside (sx_span e) sp)"
| "wf_sx q (ReaderForm_sx sp k e) \<longleftrightarrow> span_valid sp \<and> (k = Unquote_form \<or> k = Unquote_splicing_form \<longrightarrow> q) \<and>
     wf_sx (q \<or> k = Quasiquote_form) e \<and> inside (sx_span e) sp"
| "wf_sx q (ModuleForm_sx sp n ex body) \<longleftrightarrow> False"
| "wf_sx q e \<longleftrightarrow> span_valid (sx_span e)"

definition wf_top :: "bool \<Rightarrow> sexpr \<Rightarrow> bool" where
  "wf_top q e = (case e of ModuleForm_sx sp n ex body \<Rightarrow> span_valid sp \<and> (\<forall>e \<in> set body. wf_sx q e \<and> inside (sx_span e) sp)
     | _ \<Rightarrow> wf_sx q e)"

text \<open>Tokens in order, from one position to another.\<close>

fun tiled :: "u32 \<Rightarrow> u64 \<Rightarrow> token list \<Rightarrow> u64 \<Rightarrow> bool" where
  "tiled f a [] b \<longleftrightarrow> a \<le> b"
| "tiled f a (t # ts) b \<longleftrightarrow> file_id (tk_span t) = f \<and> a \<le> offset (span_start (tk_span t)) \<and> span_valid (tk_span t) \<and>
     tiled f (offset (span_end (tk_span t))) ts b"

definition fits :: "u32 \<Rightarrow> u64 \<Rightarrow> span \<Rightarrow> u64 \<Rightarrow> bool" where
  "fits f a sp b \<longleftrightarrow> file_id sp = f \<and> span_valid sp \<and> a \<le> offset (span_start sp) \<and> offset (span_end sp) \<le> b"

lemma tiled_le: "tiled f a ts b \<Longrightarrow> a \<le> b"
  by (induction f a ts b rule: tiled.induct) (auto simp: span_valid_def)

lemma tiled_weaken: "tiled f a ts b \<Longrightarrow> c \<le> a \<Longrightarrow> tiled f c ts b"
  by (cases ts) auto

lemma tiled_append: "tiled f a (ts @ us) b \<longleftrightarrow> (\<exists>c. tiled f a ts c \<and> tiled f c us b)"
proof (induction ts arbitrary: a)
  case Nil
  then show ?case using tiled_weaken by (auto intro: exI [of _ a])
qed auto

lemma fits_weaken: "fits f a sp b \<Longrightarrow> a' \<le> a \<Longrightarrow> b \<le> b' \<Longrightarrow> fits f a' sp b'"
  by (auto simp: fits_def)

text \<open>The span from an opening to a closing token holds what lies between them.\<close>

lemma enclose:
  assumes "tiled f a (x # ts @ [y]) b"
  obtains c d where "tiled f c ts d" "fits f a (merge_spans (tk_span x) (tk_span y)) b"
    "\<forall>sp. fits f c sp d \<longrightarrow> inside sp (merge_spans (tk_span x) (tk_span y))"
proof -
  from assms obtain d where d: "file_id (tk_span x) = f" "a \<le> offset (span_start (tk_span x))" "span_valid (tk_span x)"
    "tiled f (offset (span_end (tk_span x))) ts d" "file_id (tk_span y) = f" "d \<le> offset (span_start (tk_span y))" "span_valid (tk_span y)"
    "offset (span_end (tk_span y)) \<le> b"
    by (auto simp: tiled_append)
  have "offset (span_end (tk_span x)) \<le> d" using d(4) by (rule tiled_le)
  with d show ?thesis
    by (intro that [OF d(4)]) (auto simp: fits_def inside_def merge_spans_def span_valid_def)
qed

lemma grammar_wf:
  "datum q ts e \<Longrightarrow> (\<forall>f a b. tiled f a ts b \<longrightarrow> wf_sx q e \<and> fits f a (sx_span e) b)"
  "items q ts es \<Longrightarrow> (\<forall>f a b. tiled f a ts b \<longrightarrow> (\<forall>e \<in> set es. wf_sx q e \<and> fits f a (sx_span e) b))"
proof (induction q ts e and q ts es rule: datum_items.inducts)
  case (atom t e q)
  have "sx_span e = tk_span t" "\<And>q. wf_sx q e = span_valid (tk_span t)"
    using atom by (auto simp: parse_atom_def is_atom_def Let_def split: token_kind.splits option.splits if_splits)
  then show ?case by (auto simp: fits_def)
next
  case (proper a b q ts es)
  show ?case
  proof (intro allI impI)
    fix f x y
    assume "tiled f x (a # ts @ [b]) y"
    then obtain c d where e: "tiled f c ts d" "fits f x (merge_spans (tk_span a) (tk_span b)) y"
      "\<forall>sp. fits f c sp d \<longrightarrow> inside sp (merge_spans (tk_span a) (tk_span b))" by (rule enclose)
    then show "wf_sx q (List_sx (merge_spans (tk_span a) (tk_span b)) es None) \<and>
        fits f x (sx_span (List_sx (merge_spans (tk_span a) (tk_span b)) es None)) y"
      using proper.IH by (auto simp: fits_def)
  qed
next
  case (dotted a b q ts es d us e)
  show ?case
  proof (intro allI impI)
    fix f x y
    assume "tiled f x (a # ts @ d # us @ [b]) y"
    then have "tiled f x (a # (ts @ d # us) @ [b]) y" by simp
    then obtain c z where e: "tiled f c (ts @ d # us) z" "fits f x (merge_spans (tk_span a) (tk_span b)) y"
      "\<forall>sp. fits f c sp z \<longrightarrow> inside sp (merge_spans (tk_span a) (tk_span b))" by (rule enclose)
    from e(1) obtain w where w: "tiled f c ts w" "w \<le> offset (span_start (tk_span d))" "span_valid (tk_span d)"
      "tiled f (offset (span_end (tk_span d))) us z" by (auto simp: tiled_append)
    have "offset (span_end (tk_span d)) \<le> z" "c \<le> w" using w(1,4) by (auto dest: tiled_le)
    then have le: "w \<le> z" "c \<le> offset (span_end (tk_span d))" using w(2,3) by (auto simp: span_valid_def)
    have "wf_sx q i \<and> inside (sx_span i) (merge_spans (tk_span a) (tk_span b))" if "i \<in> set es" for i
      using dotted.IH(1) w(1) that e(3) fits_weaken [OF _ order_refl le(1)] by blast
    moreover have "wf_sx q e \<and> inside (sx_span e) (merge_spans (tk_span a) (tk_span b))"
      using dotted.IH(2) w(4) e(3) fits_weaken [OF _ le(2) order_refl] by blast
    ultimately show "wf_sx q (List_sx (merge_spans (tk_span a) (tk_span b)) es (Some e)) \<and>
        fits f x (sx_span (List_sx (merge_spans (tk_span a) (tk_span b)) es (Some e))) y"
      using e(2) dotted.hyps(3) by (auto simp: fits_def)
  qed
next
  case (vector a b q ts es)
  show ?case
  proof (intro allI impI)
    fix f x y
    assume "tiled f x (a # ts @ [b]) y"
    then obtain c d where e: "tiled f c ts d" "fits f x (merge_spans (tk_span a) (tk_span b)) y"
      "\<forall>sp. fits f c sp d \<longrightarrow> inside sp (merge_spans (tk_span a) (tk_span b))" by (rule enclose)
    then show "wf_sx q (Vector_sx (merge_spans (tk_span a) (tk_span b)) es) \<and>
        fits f x (sx_span (Vector_sx (merge_spans (tk_span a) (tk_span b)) es)) y"
      using vector.IH by (auto simp: fits_def)
  qed
next
  case (bytes a b ts bs q)
  show ?case
  proof (intro allI impI)
    fix f x y
    assume "tiled f x (a # ts @ [b]) y"
    then have "fits f x (merge_spans (tk_span a) (tk_span b)) y" by (rule enclose)
    then show "wf_sx q (ByteVector_sx (merge_spans (tk_span a) (tk_span b)) bs) \<and>
        fits f x (sx_span (ByteVector_sx (merge_spans (tk_span a) (tk_span b)) bs)) y"
      by (simp add: fits_def)
  qed
next
  case (quoted t k q ts e)
  show ?case
  proof (intro allI impI)
    fix f x y
    assume t: "tiled f x (t # ts) y"
    then have "wf_sx (q \<or> k = Quasiquote_form) e" "fits f (offset (span_end (tk_span t))) (sx_span e) y"
      using quoted.IH by auto
    then show "wf_sx q (ReaderForm_sx (merge_spans (tk_span t) (sx_span e)) k e) \<and>
        fits f x (sx_span (ReaderForm_sx (merge_spans (tk_span t) (sx_span e)) k e)) y"
      using t quoted.hyps(2) by (auto simp: fits_def inside_def merge_spans_def span_valid_def)
  qed
next
  case (none q)
  then show ?case by simp
next
  case (more q ts e us es)
  show ?case
  proof (intro allI impI ballI)
    fix f a b x
    assume "tiled f a (ts @ us) b" and x: "x \<in> set (e # es)"
    then obtain c where c: "tiled f a ts c" "tiled f c us b" by (auto simp: tiled_append)
    have "a \<le> c" "c \<le> b" using c tiled_le by auto
    then show "wf_sx q x \<and> fits f a (sx_span x) b"
      using more.IH c x fits_weaken by (auto, (meson order_refl)+)
  qed
qed


lemma feeds_tiled:
  "feeds lex_next l ts l' \<Longrightarrow> placed l \<Longrightarrow> length (source l) < 2 ^ 64 \<Longrightarrow>
     tiled (lex_file l) (of_nat (pos l)) ts (of_nat (pos l')) \<and> placed l' \<and> source l' = source l \<and> lex_file l' = lex_file l"
proof (induction ts arbitrary: l)
  case (Cons t ts)
  obtain l1 where l1: "lex_next l = (Inr t, l1)" "tk_kind t \<noteq> EOF" "feeds lex_next l1 ts l'"
    using Cons.prems(1) by (cases "lex_next l") auto
  have r: "token_result l (Inr t, l1)" using lex_next_result [of l] l1(1) by simp
  then obtain l0 where m: "moved l l1" "moved l l0" and sp: "tk_span t = make_span l1 (here l0) (here l1)" "pos l0 < pos l1"
    using l1(2) by (auto simp: token_result_def)
  have p: "placed l1" "placed l0" "source l1 = source l" "source l0 = source l" "lex_file l1 = lex_file l" "pos l \<le> pos l0"
    using m Cons.prems(2) by (auto simp: moved_def)
  have b: "pos l1 \<le> length (source l)" using p(1,3) by (simp add: placed_def)
  have le: "(of_nat (pos l) :: u64) \<le> of_nat (pos l0)" "(of_nat (pos l0) :: u64) \<le> of_nat (pos l1)"
    using p(6) sp(2) b Cons.prems(3) by (auto simp: word_le_nat_alt unsigned_of_nat take_bit_nat_eq_self)
  have "tiled (lex_file l1) (of_nat (pos l1)) ts (of_nat (pos l')) \<and> placed l' \<and> source l' = source l1 \<and> lex_file l' = lex_file l1"
    using Cons.IH [OF l1(3) p(1)] p(3) Cons.prems(3) by simp
  then show ?case using p le by (simp add: sp make_span_def here_def span_valid_def)
qed simp

lemma inside_trans: "inside a b \<Longrightarrow> inside b c \<Longrightarrow> inside a c"
  by (auto simp: inside_def)

lemma module_form_wf:
  assumes "wf_sx q e" "inside (sx_span e) sp" "\<forall>x \<in> set b. wf_sx q x \<and> inside (sx_span x) sp"
  shows "\<forall>x \<in> set (snd (module_form e (ex, b))). wf_sx q x \<and> inside (sx_span x) sp"
proof (cases "\<exists>s h es t. e = List_sx s (h # es) t")
  case True
  then obtain s h es t where e: "e = List_sx s (h # es) t" by blast
  with assms show ?thesis
    by (auto simp: module_form_def as_list_def split: option.split intro: inside_trans)
next
  case False
  then show ?thesis using assms by (cases e) (auto simp: module_form_def as_list_def split: list.split)
qed

lemma module_body_wf:
  "(\<forall>e \<in> set es. wf_sx q e \<and> inside (sx_span e) sp) \<Longrightarrow> (\<forall>x \<in> set (snd acc). wf_sx q x \<and> inside (sx_span x) sp) \<Longrightarrow>
     \<forall>x \<in> set (snd (fold module_form es acc)). wf_sx q x \<and> inside (sx_span x) sp"
proof (induction es arbitrary: acc)
  case (Cons e es)
  have "\<forall>x \<in> set (snd (module_form e acc)). wf_sx q x \<and> inside (sx_span x) sp"
    using module_form_wf [of q e sp "snd acc" "fst acc"] Cons.prems by simp
  from Cons.IH [OF _ this] Cons.prems(1) show ?case by simp
qed simp

lemma recognise_wf: "wf_sx q d \<Longrightarrow> wf_top q (recognise d) \<and> sx_span (recognise d) = sx_span d"
proof -
  assume w: "wf_sx q d"
  then have t: "wf_top q d" by (cases d) (auto simp: wf_top_def)
  show ?thesis
  proof (cases "recognise d = d")
    case False
    then obtain sp es n ex body where d: "d = List_sx sp es None" and m: "recognise d = ModuleForm_sx sp n ex body"
      and b: "fold module_form (drop 2 es) ([], []) = (ex, body)"
      by (auto simp: recognise_def try_parse_module_def Let_def split: option.splits if_splits prod.splits)
    have "\<forall>e \<in> set (drop 2 es). wf_sx q e \<and> inside (sx_span e) sp" using w d by (auto dest: in_set_dropD)
    from module_body_wf [OF this, of "([], [])"] show ?thesis using w d m b by (simp add: wf_top_def)
  qed (use t in simp)
qed

text \<open>C40: Everything that reading returns is well formed: the spans run forwards, lie in the text and
  nest like the data; only lists with elements have tails; in strict mode every unquotation is inside
  a quasiquotation; module forms occur only outermost.\<close>

theorem read_well_formed:
  assumes "length s < 2 ^ 64" "fst (read_text f s strict) = Inr out" "e \<in> set out"
  shows "wf_top (\<not> strict) e \<and> fits f 0 (sx_span e) (of_nat (length s))"
proof -
  from read_exact [THEN iffD1, OF assms(2)] obtain ts es l where
    h: "feeds lex_next (new_lexer f s) ts l" "items (\<not> strict) ts es" "out = map recognise es" by blast
  have n: "placed (new_lexer f s)" "source (new_lexer f s) = s" "pos (new_lexer f s) = 0" "lex_file (new_lexer f s) = f"
    by (simp_all add: new_lexer_def placed_def newlines_def)
  from feeds_tiled [OF h(1)] n assms(1) have t: "tiled f 0 ts (of_nat (pos l))" "placed l" "source l = s" by auto
  have "(of_nat (pos l) :: u64) \<le> of_nat (length s)"
    using t(2,3) assms(1) by (auto simp: placed_def word_le_nat_alt unsigned_of_nat take_bit_nat_eq_self)
  moreover obtain d where d: "d \<in> set es" "e = recognise d" using assms(3) h(3) by auto
  moreover have "wf_sx (\<not> strict) d" "fits f 0 (sx_span d) (of_nat (pos l))"
    using grammar_wf(2) [OF h(2)] t(1) d(1) by blast+
  ultimately show ?thesis using recognise_wf [of "\<not> strict" d] fits_weaken [OF _ order_refl] by fastforce
qed

definition sample_text :: string where
  "sample_text = ''`(a . ,b)''"

lemma sample_read: "\<exists>e. fst (read_text 1 sample_text True) = Inr [e] \<and> sx_span e =
    \<lparr> file_id = 1, span_start = \<lparr> offset = 0, line = 1, column = 1 \<rparr>, span_end = \<lparr> offset = 9, line = 1, column = 10 \<rparr> \<rparr>"
proof -
  have "map_sum (\<lambda>_. ()) (map sx_span) (fst (read_text 1 sample_text True)) = Inr
    [\<lparr> file_id = 1, span_start = \<lparr> offset = 0, line = 1, column = 1 \<rparr>, span_end = \<lparr> offset = 9, line = 1, column = 10 \<rparr> \<rparr>]"
    by code_simp
  then show ?thesis by (cases "fst (read_text 1 sample_text True)") auto
qed

theorem read_well_formed_witness:
  "\<exists>e. fst (read_text 1 sample_text True) = Inr [e] \<and> wf_top False e \<and> fits 1 0 (sx_span e) 9"
proof -
  from sample_read obtain e where e: "fst (read_text 1 sample_text True) = Inr [e]" by blast
  have "length sample_text < 2 ^ 64" by (simp add: sample_text_def)
  from read_well_formed [OF this e, of e] e show ?thesis by (simp add: sample_text_def)
qed

end
