(* ===== verification/CoreIR.thy ===== *)
theory CoreIR
  imports SExpr
begin

text \<open>
  The core intermediate representation, \<^verbatim>\<open>eta/core/src/eta/semantics/core_ir.h\<close>, the generic
  visitor of \<^verbatim>\<open>ir_visitor.h\<close>, the tail marker of \<^verbatim>\<open>semantic_analyzer.cpp\<close> and the module record of
  \<^verbatim>\<open>semantic_analyzer.h\<close>. The nodes of an arena form a tree, since every parent has its own
  children; an in-place change of a node is a new node. The span and the tail flag of \<^verbatim>\<open>Node\<close>
  are the first argument of every constructor.
\<close>

section \<open>Nodes\<close>

type_synonym binding_id = u32

datatype address = No_address | Local u16 | Upval u16 | Global u32

record arity_info =
  ar_required :: u16
  ar_optional :: u16
  ar_rest :: bool

datatype literal = Void_lit | Bool_lit bool | Char_lit u32 | String_lit string | Int_lit i64 | Double_lit u64

datatype primitive_kind = PCons | PCar | PCdr | PAdd | PSub | PMul | PDiv | PEq

record lambda_info =
  lam_params :: "binding_id list"
  rest_param :: "binding_id option"
  lam_locals :: "binding_id list"
  lam_upvals :: "binding_id list"
  upval_sources :: "address list"
  lam_arity :: arity_info
  lam_stack_size :: u32

record node_info =
  n_span :: span
  n_tail :: bool

datatype node =
    Var_n node_info address
  | Const_n node_info literal
  | Quote_n node_info "sexpr option"
  | If_n node_info "node" "node" "node"
  | Begin_n node_info "node list"
  | Set_n node_info address "node"
  | Lambda_n node_info lambda_info "node"
  | Call_n node_info "node" "node list"
  | PrimitiveCall_n node_info primitive_kind "node list"
  | DynamicWind_n node_info "node" "node" "node"
  | Values_n node_info "node list"
  | CallWithValues_n node_info "node" "node"
  | CallCC_n node_info "node"
  | Apply_n node_info "node" "node list"
  | Raise_n node_info string "node"
  | Guard_n node_info string "node"
  | MakeLogicVar_n node_info
  | Unify_n node_info "node" "node"
  | DerefLogicVar_n node_info "node"
  | TrailMark_n node_info
  | UnwindTrail_n node_info "node"
  | CopyTerm_n node_info "node"

fun info_of :: "node \<Rightarrow> node_info" where
  "info_of (Var_n nt _) = nt"
| "info_of (Const_n nt _) = nt"
| "info_of (Quote_n nt _) = nt"
| "info_of (If_n nt _ _ _) = nt"
| "info_of (Begin_n nt _) = nt"
| "info_of (Set_n nt _ _) = nt"
| "info_of (Lambda_n nt _ _) = nt"
| "info_of (Call_n nt _ _) = nt"
| "info_of (PrimitiveCall_n nt _ _) = nt"
| "info_of (DynamicWind_n nt _ _ _) = nt"
| "info_of (Values_n nt _) = nt"
| "info_of (CallWithValues_n nt _ _) = nt"
| "info_of (CallCC_n nt _) = nt"
| "info_of (Apply_n nt _ _) = nt"
| "info_of (Raise_n nt _ _) = nt"
| "info_of (Guard_n nt _ _) = nt"
| "info_of (MakeLogicVar_n nt) = nt"
| "info_of (Unify_n nt _ _) = nt"
| "info_of (DerefLogicVar_n nt _) = nt"
| "info_of (TrailMark_n nt) = nt"
| "info_of (UnwindTrail_n nt _) = nt"
| "info_of (CopyTerm_n nt _) = nt"

text \<open>A node made by \<^verbatim>\<open>emplace\<close> has the given span and is not in tail position.\<close>

definition new_info :: "span \<Rightarrow> node_info" where
  "new_info s = \<lparr> n_span = s, n_tail = False \<rparr>"

section \<open>The visitor\<close>

text \<open>
  \<^verbatim>\<open>IRVisitor::visit\<close>. The flag is the context; \<open>pre\<close> is what \<^verbatim>\<open>pre_visit\<close> does to the flags of
  a node before its children are visited, \<open>post\<close> is \<^verbatim>\<open>post_visit\<close>, applied to the node with its
  visited children. The children of a quote and of \<^verbatim>\<open>CopyTerm\<close> are not visited.
\<close>

fun visit :: "(node_info \<Rightarrow> bool \<Rightarrow> node_info) \<Rightarrow> (node \<Rightarrow> bool \<Rightarrow> node) \<Rightarrow> bool \<Rightarrow> node \<Rightarrow> node"
  and visit_body :: "(node_info \<Rightarrow> bool \<Rightarrow> node_info) \<Rightarrow> (node \<Rightarrow> bool \<Rightarrow> node) \<Rightarrow> bool \<Rightarrow> node list \<Rightarrow> node list" where
  "visit pre post ctx (If_n nt a b c) =
     post (If_n (pre nt ctx) (visit pre post False a) (visit pre post ctx b) (visit pre post ctx c)) ctx"
| "visit pre post ctx (Begin_n nt es) = post (Begin_n (pre nt ctx) (visit_body pre post ctx es)) ctx"
| "visit pre post ctx (Lambda_n nt l b) = post (Lambda_n (pre nt ctx) l (visit pre post True b)) ctx"
| "visit pre post ctx (Call_n nt f as) =
     post (Call_n (pre nt ctx) (visit pre post False f) (map (visit pre post False) as)) ctx"
| "visit pre post ctx (PrimitiveCall_n nt k as) =
     post (PrimitiveCall_n (pre nt ctx) k (map (visit pre post False) as)) ctx"
| "visit pre post ctx (Set_n nt a v) = post (Set_n (pre nt ctx) a (visit pre post False v)) ctx"
| "visit pre post ctx (DynamicWind_n nt a b c) =
     post (DynamicWind_n (pre nt ctx) (visit pre post False a) (visit pre post False b) (visit pre post False c)) ctx"
| "visit pre post ctx (Values_n nt es) = post (Values_n (pre nt ctx) (map (visit pre post False) es)) ctx"
| "visit pre post ctx (CallWithValues_n nt p c) =
     post (CallWithValues_n (pre nt ctx) (visit pre post False p) (visit pre post False c)) ctx"
| "visit pre post ctx (CallCC_n nt c) = post (CallCC_n (pre nt ctx) (visit pre post False c)) ctx"
| "visit pre post ctx (Apply_n nt f as) =
     post (Apply_n (pre nt ctx) (visit pre post False f) (map (visit pre post False) as)) ctx"
| "visit pre post ctx (Raise_n nt tg v) = post (Raise_n (pre nt ctx) tg (visit pre post False v)) ctx"
| "visit pre post ctx (Guard_n nt tg b) = post (Guard_n (pre nt ctx) tg (visit pre post ctx b)) ctx"
| "visit pre post ctx (Unify_n nt a b) =
     post (Unify_n (pre nt ctx) (visit pre post False a) (visit pre post False b)) ctx"
| "visit pre post ctx (DerefLogicVar_n nt v) = post (DerefLogicVar_n (pre nt ctx) (visit pre post False v)) ctx"
| "visit pre post ctx (UnwindTrail_n nt m) = post (UnwindTrail_n (pre nt ctx) (visit pre post False m)) ctx"
| "visit pre post ctx (Var_n nt a) = post (Var_n (pre nt ctx) a) ctx"
| "visit pre post ctx (Const_n nt l) = post (Const_n (pre nt ctx) l) ctx"
| "visit pre post ctx (Quote_n nt d) = post (Quote_n (pre nt ctx) d) ctx"
| "visit pre post ctx (MakeLogicVar_n nt) = post (MakeLogicVar_n (pre nt ctx)) ctx"
| "visit pre post ctx (TrailMark_n nt) = post (TrailMark_n (pre nt ctx)) ctx"
| "visit pre post ctx (CopyTerm_n nt t) = post (CopyTerm_n (pre nt ctx) t) ctx"
| "visit_body pre post ctx [] = []"
| "visit_body pre post ctx [e] = [visit pre post ctx e]"
| "visit_body pre post ctx (e # e' # es) = visit pre post False e # visit_body pre post ctx (e' # es)"

text \<open>The visitors without a \<^verbatim>\<open>pre_visit\<close> of their own leave the flags alone.\<close>

definition keep_info :: "node_info \<Rightarrow> bool \<Rightarrow> node_info" where
  "keep_info nt ctx = nt"

text \<open>\<^verbatim>\<open>TailMarker\<close>\<close>

definition mark_tail :: "bool \<Rightarrow> node \<Rightarrow> node" where
  "mark_tail ctx n = visit (\<lambda>nt c. nt\<lparr> n_tail := c \<rparr>) (\<lambda>n c. n) ctx n"

section \<open>Modules\<close>

datatype binding_kind = Param_binding | Local_binding | Global_binding | Import_binding

record binding =
  b_kind :: binding_kind
  b_name :: string
  mutable_flag :: bool
  b_slot :: u16
  def_span :: span
  b_origin :: "import_origin option"

record module_semantics =
  sem_name :: string
  toplevel_inits :: "node list"
  sem_exports :: "(string \<times> binding_id) list"
  bindings :: "binding list"
  sem_stack_size :: u32
  total_globals :: u32
  main_func_slot :: "u32 option"

text \<open>
  An optimization pass changes the top-level forms of a module; a pipeline runs its passes in
  order (\<^verbatim>\<open>optimization_pipeline.h\<close>).
\<close>

type_synonym pass = "module_semantics \<Rightarrow> module_semantics"

definition run_visitor :: "(node \<Rightarrow> bool \<Rightarrow> node) \<Rightarrow> pass" where
  "run_visitor post m = m\<lparr> toplevel_inits := map (visit keep_info post False) (toplevel_inits m) \<rparr>"

definition run_pipeline :: "pass list \<Rightarrow> module_semantics \<Rightarrow> module_semantics" where
  "run_pipeline ps m = fold (\<lambda>p m. p m) ps m"

definition run_all :: "pass list \<Rightarrow> module_semantics list \<Rightarrow> module_semantics list" where
  "run_all ps ms = map (run_pipeline ps) ms"

section \<open>Properties of the visitor\<close>

lemma visit_body_map: "visit_body pre post ctx es = map (visit pre post False) (butlast es) @ (if es = [] then [] else [visit pre post ctx (last es)])"
  by (induction es rule: induct_list012) auto

lemma length_visit_body [simp]: "length (visit_body pre post ctx es) = length es"
  by (induction es rule: induct_list012) auto

end
