(* ===== verification/Analyzer.thy ===== *)
theory Analyzer
  imports CoreIR ModuleLinker
begin

text \<open>
  The semantic analyzer, \<^verbatim>\<open>eta/core/src/eta/semantics/semantic_analyzer.{h,cpp}\<close>: one definition per
  handler. The scopes form a list, innermost first, whose last element is the top level; the
  captures of a lambda under construction are in its scope, where \<^verbatim>\<open>lookup\<close> extends them through
  the lambda's node. A step returns an error or a result with the state after it; an error ends the
  analysis and its state is dropped. Nodes are those that \<^verbatim>\<open>emplace\<close> makes.
\<close>

section \<open>State\<close>

datatype sem_error_kind = UndefinedName | DuplicateDefinition | NonFunctionCall | InvalidFormShape
  | ImmutableAssignment | SetOnImported | InvalidLetrecInit | ExportOfUnknownBinding

record sem_error =
  se_kind :: sem_error_kind
  se_span :: span
  se_message :: string

definition sem_err :: "sem_error_kind \<Rightarrow> span \<Rightarrow> string \<Rightarrow> sem_error" where
  "sem_err k s m = \<lparr> se_kind = k, se_span = s, se_message = m \<rparr>"

record captures =
  cp_upvals :: "binding_id list"
  cp_sources :: "address list"

record scope =
  sc_table :: "string \<rightharpoonup> binding_id"
  sc_boundary :: bool
  sc_lambda :: "captures option"
  sc_next_slot :: u16

record analysis =
  an_scopes :: "scope list"
  an_bindings :: "binding list"
  next_binding_id :: u32
  next_global :: u32

type_synonym 'a sem = "analysis \<Rightarrow> sem_error + 'a \<times> analysis"

definition sem_ret :: "'a \<Rightarrow> 'a sem" where
  "sem_ret x st = Inr (x, st)"

definition sem_fail :: "sem_error_kind \<Rightarrow> span \<Rightarrow> string \<Rightarrow> 'a sem" where
  "sem_fail k s m st = Inl (sem_err k s m)"

definition sem_bind :: "'a sem \<Rightarrow> ('a \<Rightarrow> 'b sem) \<Rightarrow> 'b sem" where
  "sem_bind m f st = (case m st of Inl e \<Rightarrow> Inl e | Inr (x, st') \<Rightarrow> f x st')"

section \<open>Bindings\<close>

text \<open>
  \<^verbatim>\<open>add_binding\<close>: a parameter gets the next slot of the frame it belongs to, which is that of the
  nearest lambda scope, or of the top level; a global gets the next slot of the shared counter, cut
  to 16 bits.
\<close>

definition frame_index :: "scope list \<Rightarrow> nat" where
  "frame_index ss = min (length (takeWhile (\<lambda>s. \<not> sc_boundary s) ss)) (length ss - 1)"

definition bind_name :: "string \<Rightarrow> binding_id \<Rightarrow> scope list \<Rightarrow> scope list" where
  "bind_name name i ss = ss[0 := (ss ! 0)\<lparr> sc_table := (sc_table (ss ! 0))(name \<mapsto> i) \<rparr>]"

definition take_slot :: "scope list \<Rightarrow> u16 \<times> scope list" where
  "take_slot ss = (let k = frame_index ss; s = ss ! k in
     (sc_next_slot s, ss[k := s\<lparr> sc_next_slot := sc_next_slot s + 1 \<rparr>]))"

definition add_binding :: "string \<Rightarrow> binding_kind \<Rightarrow> span \<Rightarrow> bool \<Rightarrow> binding_id sem" where
  "add_binding name k sp mut st =
     (let i = next_binding_id st;
          ss = bind_name name i (an_scopes st);
          (slot, ss', g) =
            (if k = Param_binding \<or> k = Local_binding then (case take_slot ss of (slot, ss') \<Rightarrow> (slot, ss', next_global st))
             else (ucast (next_global st), ss, next_global st + 1))
      in Inr (i, st\<lparr> an_scopes := ss', next_binding_id := i + 1, next_global := g,
           an_bindings := an_bindings st @
             [\<lparr> b_kind = k, b_name = name, mutable_flag = mut, b_slot = slot, def_span = sp, b_origin = None \<rparr>] \<rparr>))"

text \<open>Imports from a module of the interactive session stay assignable.\<close>

definition add_import_at_slot :: "string \<Rightarrow> import_origin \<Rightarrow> span \<Rightarrow> u32 \<Rightarrow> binding_id sem" where
  "add_import_at_slot name orig sp g st =
     (let i = next_binding_id st
      in Inr (i, st\<lparr> an_scopes := bind_name name i (an_scopes st), next_binding_id := i + 1,
           an_bindings := an_bindings st @
             [\<lparr> b_kind = Import_binding, b_name = name, mutable_flag = (take 7 (from_module orig) = ''__repl_''),
                b_slot = ucast g, def_span = sp, b_origin = Some orig \<rparr>] \<rparr>))"

definition add_import :: "string \<Rightarrow> import_origin \<Rightarrow> span \<Rightarrow> binding_id sem" where
  "add_import name orig sp st =
     add_import_at_slot name orig sp (next_global st) (st\<lparr> next_global := next_global st + 1 \<rparr>)"

section \<open>Lookup\<close>

definition is_toplevel_kind :: "binding_kind \<Rightarrow> bool" where
  "is_toplevel_kind k \<longleftrightarrow> k = Global_binding \<or> k = Import_binding"

definition lookup_toplevel :: "string \<Rightarrow> analysis \<Rightarrow> (address \<times> binding_id) option" where
  "lookup_toplevel base st =
     (case sc_table (last (an_scopes st)) base of
        None \<Rightarrow> None
      | Some i \<Rightarrow>
        (let b = an_bindings st ! unat i in
         if is_toplevel_kind (b_kind b) then Some (Global (ucast (b_slot b)), i) else None))"

text \<open>The position of a binding among the captures of a lambda, which are extended when it is new.\<close>

definition capture :: "binding_id \<Rightarrow> address \<Rightarrow> captures \<Rightarrow> u16 \<times> captures" where
  "capture i a c =
     (case filter (\<lambda>k. cp_upvals c ! k = i) [0..<length (cp_upvals c)] of
        k # _ \<Rightarrow> (of_nat k, c)
      | [] \<Rightarrow> (of_nat (length (cp_upvals c)),
          c\<lparr> cp_upvals := cp_upvals c @ [i], cp_sources := cp_sources c @ [a] \<rparr>))"

text \<open>The scopes that a reference crosses: the outermost lambda captures first.\<close>

fun capture_path :: "binding_id \<Rightarrow> address \<Rightarrow> scope list \<Rightarrow> address \<times> scope list" where
  "capture_path i a [] = (a, [])"
| "capture_path i a (s # ss) =
     (let (a', ss') = capture_path i a ss in
      case (if sc_boundary s then sc_lambda s else None) of
        None \<Rightarrow> (a', s # ss')
      | Some c \<Rightarrow> (let (k, c') = capture i a' c in (Upval k, s\<lparr> sc_lambda := Some c' \<rparr> # ss')))"

text \<open>The number of scopes inside the innermost one that has the name.\<close>

definition find_scope :: "string \<Rightarrow> scope list \<Rightarrow> nat option" where
  "find_scope name ss =
     (case filter (\<lambda>k. sc_table (ss ! k) name \<noteq> None) [0..<length ss] of [] \<Rightarrow> None | k # _ \<Rightarrow> Some k)"

text \<open>A reference that a macro captured at its definition is \<open>base.def:token\<close>.\<close>

definition find_marker :: "string \<Rightarrow> nat option" where
  "find_marker name =
     (case filter (\<lambda>i. take 5 (drop i name) = ''.def:'') [0..<length name] of [] \<Rightarrow> None | i # _ \<Rightarrow> Some i)"

definition lookup_name :: "string \<Rightarrow> span \<Rightarrow> (address \<times> binding_id) sem" where
  "lookup_name name sp st =
     (case find_scope name (an_scopes st) of
        Some k \<Rightarrow>
          (let i = the (sc_table (an_scopes st ! k) name);
               b = an_bindings st ! unat i in
           if is_toplevel_kind (b_kind b) then Inr ((Global (ucast (b_slot b)), i), st)
           else if \<exists>s \<in> set (take k (an_scopes st)). sc_boundary s
           then (let (a, ss) = capture_path i (Local (b_slot b)) (take k (an_scopes st))
                 in Inr ((a, i), st\<lparr> an_scopes := ss @ drop k (an_scopes st) \<rparr>))
           else Inr ((Local (b_slot b), i), st))
      | None \<Rightarrow>
          (let undefined = Inl (sem_err UndefinedName sp (''Undefined symbol: '' @ name)) in
           case find_marker name of
             None \<Rightarrow> undefined
           | Some m \<Rightarrow>
             (case lookup_toplevel (take m name) st of
                None \<Rightarrow> undefined | Some r \<Rightarrow> Inr (r, st))))"

section \<open>Constants and formals\<close>

definition make_const :: "sexpr \<Rightarrow> node option" where
  "make_const e = map_option (Const_n (new_info (sx_span e)))
     (case e of
        Nil_sx _ \<Rightarrow> Some Void_lit
      | Bool_sx _ b \<Rightarrow> Some (Bool_lit b)
      | Char_sx _ c \<Rightarrow> Some (Char_lit c)
      | String_sx _ s \<Rightarrow> Some (String_lit s)
      | Number_sx _ n \<Rightarrow> Some (case n of Int_num i \<Rightarrow> Int_lit i | Dbl_num d \<Rightarrow> Double_lit d)
      | List_sx _ es _ \<Rightarrow> if es = [] then Some Void_lit else None
      | _ \<Rightarrow> None)"

definition new_lambda :: lambda_info where
  "new_lambda = \<lparr> lam_params = [], rest_param = None, lam_locals = [], lam_upvals = [], upval_sources = [],
     lam_arity = \<lparr> ar_required = 0, ar_optional = 0, ar_rest = False \<rparr>, lam_stack_size = 0 \<rparr>"

definition add_param :: "string \<Rightarrow> span \<Rightarrow> lambda_info \<Rightarrow> lambda_info sem" where
  "add_param name sp l = sem_bind (add_binding name Param_binding sp True) (\<lambda>i. sem_ret
     (l\<lparr> lam_params := lam_params l @ [i],
         lam_arity := (lam_arity l)\<lparr> ar_required := ar_required (lam_arity l) + 1 \<rparr> \<rparr>))"

definition add_rest :: "string \<Rightarrow> span \<Rightarrow> lambda_info \<Rightarrow> lambda_info sem" where
  "add_rest name sp l = sem_bind (add_binding name Param_binding sp True) (\<lambda>i. sem_ret
     (l\<lparr> rest_param := Some i, lam_arity := (lam_arity l)\<lparr> ar_rest := True \<rparr> \<rparr>))"

fun add_params :: "sexpr list \<Rightarrow> lambda_info \<Rightarrow> lambda_info sem" where
  "add_params [] l = sem_ret l"
| "add_params (e # es) l =
     (case as_symbol e of
        Some (sp, n) \<Rightarrow> sem_bind (add_param n sp l) (add_params es)
      | None \<Rightarrow> sem_fail InvalidFormShape (sx_span e) ''lambda formal must be symbol'')"

definition parse_formals :: "sexpr \<Rightarrow> lambda_info \<Rightarrow> lambda_info sem" where
  "parse_formals e l =
     (case e of
        Symbol_sx sp n \<Rightarrow> add_rest n sp l
      | Nil_sx _ \<Rightarrow> sem_ret (l\<lparr> lam_arity := (lam_arity l)\<lparr> ar_required := 0 \<rparr> \<rparr>)
      | List_sx _ es t \<Rightarrow> sem_bind (add_params es l) (\<lambda>l.
          case t of
            None \<Rightarrow> sem_ret l
          | Some r \<Rightarrow>
            (case as_symbol r of
               Some (sp, n) \<Rightarrow> add_rest n sp l
             | None \<Rightarrow> sem_fail InvalidFormShape (sx_span r) ''lambda rest formal must be symbol''))
      | _ \<Rightarrow> sem_fail InvalidFormShape (sx_span e) ''invalid lambda formals'')"

definition wrap_body :: "node list \<Rightarrow> span \<Rightarrow> node" where
  "wrap_body es sp = (case es of
       [] \<Rightarrow> Const_n (new_info sp) Void_lit
     | [e] \<Rightarrow> e
     | _ \<Rightarrow> Begin_n (new_info sp) es)"


section \<open>Special forms\<close>

type_synonym analyzer = "sexpr \<Rightarrow> node sem"

fun analyze_each :: "analyzer \<Rightarrow> sexpr list \<Rightarrow> node list sem" where
  "analyze_each ev [] = sem_ret []"
| "analyze_each ev (e # es) = sem_bind (ev e) (\<lambda>n. sem_bind (analyze_each ev es) (\<lambda>ns. sem_ret (n # ns)))"

text \<open>The handlers get the span and the elements of the form, its head included.\<close>

type_synonym handler = "analyzer \<Rightarrow> span \<Rightarrow> sexpr list \<Rightarrow> node sem"

definition handle_if :: handler where
  "handle_if ev sp es =
     (if length es \<noteq> 4 then sem_fail InvalidFormShape sp ''if requires 3 args''
      else sem_bind (analyze_each ev (drop 1 es)) (\<lambda>ns. sem_ret (If_n (new_info sp) (ns ! 0) (ns ! 1) (ns ! 2))))"

definition handle_begin :: handler where
  "handle_begin ev sp es = sem_bind (analyze_each ev (drop 1 es)) (\<lambda>ns. sem_ret (Begin_n (new_info sp) ns))"

definition handle_set :: handler where
  "handle_set ev sp es =
     (if length es \<noteq> 3 then sem_fail InvalidFormShape sp ''set! requires 2 args''
      else (case as_symbol (es ! 1) of
          None \<Rightarrow> sem_fail InvalidFormShape (sx_span (es ! 1)) ''set! target must be a symbol''
        | Some (tsp, name) \<Rightarrow> sem_bind (lookup_name name tsp) (\<lambda>(a, i) st.
            let b = an_bindings st ! unat i in
            if \<not> mutable_flag b
            then sem_fail (if b_kind b = Import_binding then SetOnImported else ImmutableAssignment) tsp
              (''Cannot assign to immutable '' @ (if b_kind b = Import_binding then ''import'' else ''variable'') @ '': '' @ name) st
            else sem_bind (analyze_each ev [es ! 2]) (\<lambda>ns. sem_ret (Set_n (new_info sp) a (ns ! 0))) st)))"

definition lambda_scope :: scope where
  "lambda_scope = \<lparr> sc_table = Map.empty, sc_boundary = True,
     sc_lambda = Some \<lparr> cp_upvals = [], cp_sources = [] \<rparr>, sc_next_slot = 0 \<rparr>"

text \<open>The lambda is complete when its scope is left: its captures and its frame size.\<close>

definition close_lambda :: "span \<Rightarrow> lambda_info \<Rightarrow> node list \<Rightarrow> node sem" where
  "close_lambda sp l body st =
     (let s = hd (an_scopes st);
          (us, ss) = (case sc_lambda s of Some c \<Rightarrow> (cp_upvals c, cp_sources c) | None \<Rightarrow> ([], []))
      in Inr (Lambda_n (new_info sp)
            (l\<lparr> lam_upvals := us, upval_sources := ss, lam_stack_size := ucast (sc_next_slot s) + 32 \<rparr>) (wrap_body body sp),
          st\<lparr> an_scopes := tl (an_scopes st) \<rparr>))"

definition handle_lambda :: handler where
  "handle_lambda ev sp es =
     (if length es < 3 then sem_fail InvalidFormShape sp ''lambda requires formals and body''
      else (\<lambda>st. sem_bind (parse_formals (es ! 1) new_lambda)
        (\<lambda>l. sem_bind (analyze_each ev (drop 2 es)) (close_lambda sp l))
        (st\<lparr> an_scopes := lambda_scope # an_scopes st \<rparr>)))"

definition handle_quote :: handler where
  "handle_quote ev sp es =
     (if length es \<noteq> 2 then sem_fail InvalidFormShape sp ''quote requires 1 arg''
      else sem_ret (Quote_n (new_info sp) (Some (deep_copy (es ! 1)))))"

definition analyze_n_args :: "analyzer \<Rightarrow> nat \<Rightarrow> string \<Rightarrow> span \<Rightarrow> sexpr list \<Rightarrow> node list sem" where
  "analyze_n_args ev n form_name sp es =
     (if length es \<noteq> n + 1
      then sem_fail InvalidFormShape sp (form_name @ '' requires '' @ to_decimal (of_nat n) @ '' arg(s)'')
      else analyze_each ev (drop 1 es))"

definition handle_dynamic_wind :: handler where
  "handle_dynamic_wind ev sp es = sem_bind (analyze_n_args ev 3 ''dynamic-wind'' sp es)
     (\<lambda>ns. sem_ret (DynamicWind_n (new_info sp) (ns ! 0) (ns ! 1) (ns ! 2)))"

definition handle_values :: handler where
  "handle_values ev sp es = sem_bind (analyze_each ev (drop 1 es)) (\<lambda>ns. sem_ret (Values_n (new_info sp) ns))"

definition handle_call_with_values :: handler where
  "handle_call_with_values ev sp es = sem_bind (analyze_n_args ev 2 ''call-with-values'' sp es)
     (\<lambda>ns. sem_ret (CallWithValues_n (new_info sp) (ns ! 0) (ns ! 1)))"

definition handle_call_cc :: handler where
  "handle_call_cc ev sp es = sem_bind (analyze_n_args ev 1 ''call/cc'' sp es)
     (\<lambda>ns. sem_ret (CallCC_n (new_info sp) (ns ! 0)))"

definition handle_apply :: handler where
  "handle_apply ev sp es =
     (if length es < 3 then sem_fail InvalidFormShape sp ''apply requires at least 2 arguments''
      else sem_bind (analyze_each ev (drop 1 es)) (\<lambda>ns. sem_ret (Apply_n (new_info sp) (hd ns) (tl ns))))"

definition extract_quoted_symbol :: "sexpr \<Rightarrow> string" where
  "extract_quoted_symbol e = (case e of
       List_sx _ [q, s] _ \<Rightarrow>
         (case (as_symbol q, as_symbol s) of
            (Some (_, qn), Some (_, n)) \<Rightarrow> if qn = ''quote'' then n else ''''
          | _ \<Rightarrow> '''')
     | _ \<Rightarrow> '''')"

text \<open>Raise and catch: an optional quoted tag, then one expression.\<close>

definition tagged_form :: "string \<Rightarrow> (string \<Rightarrow> node \<Rightarrow> node) \<Rightarrow> handler" where
  "tagged_form form_name mk ev sp es =
     (if length es < 2 \<or> length es > 3
      then sem_fail InvalidFormShape sp (form_name @ '' requires 1 or 2 arguments'')
      else
        (let tg = (if length es = 3 then extract_quoted_symbol (es ! 1) else '''') in
         if length es = 3 \<and> tg = ''''
         then sem_fail InvalidFormShape (sx_span (es ! 1)) (form_name @ '': first arg must be a quoted symbol '' @ CHR 0x27 # ''tag'')
         else sem_bind (analyze_each ev [es ! (length es - 1)]) (\<lambda>ns. sem_ret (mk tg (ns ! 0)))))"

definition handle_raise :: handler where
  "handle_raise ev sp es = tagged_form ''raise'' (Raise_n (new_info sp)) ev sp es"

definition handle_guard :: handler where
  "handle_guard ev sp es = tagged_form ''catch'' (Guard_n (new_info sp)) ev sp es"

definition handle_logic_var :: handler where
  "handle_logic_var ev sp es = sem_ret (MakeLogicVar_n (new_info sp))"

definition handle_unify :: handler where
  "handle_unify ev sp es =
     (if length es \<noteq> 3 then sem_fail InvalidFormShape sp ''unify requires 2 arguments''
      else sem_bind (analyze_each ev (drop 1 es)) (\<lambda>ns. sem_ret (Unify_n (new_info sp) (ns ! 0) (ns ! 1))))"

definition unary_form :: "string \<Rightarrow> (node_info \<Rightarrow> node \<Rightarrow> node) \<Rightarrow> handler" where
  "unary_form form_name mk ev sp es =
     (if length es \<noteq> 2 then sem_fail InvalidFormShape sp (form_name @ '' requires 1 argument'')
      else sem_bind (analyze_each ev (drop 1 es)) (\<lambda>ns. sem_ret (mk (new_info sp) (ns ! 0))))"

definition handle_trail_mark :: handler where
  "handle_trail_mark ev sp es = sem_ret (TrailMark_n (new_info sp))"

definition get_form_handlers :: "(string \<times> handler) list" where
  "get_form_handlers = [
     (''if'', handle_if), (''begin'', handle_begin), (''set!'', handle_set), (''lambda'', handle_lambda),
     (''quote'', handle_quote), (''dynamic-wind'', handle_dynamic_wind), (''values'', handle_values),
     (''call-with-values'', handle_call_with_values), (''call/cc'', handle_call_cc),
     (''call-with-current-continuation'', handle_call_cc), (''apply'', handle_apply),
     (''raise'', handle_raise), (''catch'', handle_guard), (''logic-var'', handle_logic_var),
     (''unify'', handle_unify), (''deref-lvar'', unary_form ''deref-lvar'' DerefLogicVar_n),
     (''trail-mark'', handle_trail_mark), (''unwind-trail'', unary_form ''unwind-trail'' UnwindTrail_n),
     (''copy-term'', unary_form ''copy-term'' CopyTerm_n)]"

section \<open>Applications\<close>

text \<open>The symbols of a quoted datum, each once, in order; vectors are not searched.\<close>

fun collect_symbol_names :: "sexpr \<Rightarrow> string list \<Rightarrow> string list" where
  "collect_symbol_names (Symbol_sx _ n) names = (if n = '''' \<or> n \<in> set names then names else names @ [n])"
| "collect_symbol_names (List_sx _ es t) names =
     (let names' = fold collect_symbol_names es names in
      case t of None \<Rightarrow> names' | Some e \<Rightarrow> collect_symbol_names e names')"
| "collect_symbol_names (ReaderForm_sx _ _ e) names = collect_symbol_names e names"
| "collect_symbol_names _ names = names"

definition quoted_datum :: "sexpr \<Rightarrow> sexpr option" where
  "quoted_datum e = (case e of
       List_sx _ [q, d] None \<Rightarrow> if is_symbol_named q ''quote'' then Some d else None
     | ReaderForm_sx _ k d \<Rightarrow> if k = Quote_form then Some d else None
     | _ \<Rightarrow> None)"

text \<open>The variables that the datum of an \<^verbatim>\<open>eval\<close> names are captured, where they are bound.\<close>

definition capture_eval_quoted_lexicals :: "span \<Rightarrow> sexpr list \<Rightarrow> analysis \<Rightarrow> analysis" where
  "capture_eval_quoted_lexicals sp es st =
     (if length es \<noteq> 2 then st
      else (case quoted_datum (es ! 1) of
          None \<Rightarrow> st
        | Some d \<Rightarrow> fold (\<lambda>n st. case lookup_name n sp st of Inl _ \<Rightarrow> st | Inr (_, st') \<Rightarrow> st')
            (collect_symbol_names d []) st))"

definition analyze_call :: handler where
  "analyze_call ev sp es = sem_bind (analyze_each ev es) (\<lambda>ns. sem_ret (Call_n (new_info sp) (hd ns) (tl ns)))"

definition analyze_list :: handler where
  "analyze_list ev sp es st =
     (if es = [] then Inr (Const_n (new_info sp) Void_lit, st)
      else (case as_symbol (es ! 0) of
          Some (_, name) \<Rightarrow>
            (case map_of get_form_handlers name of
               Some h \<Rightarrow> h ev sp es st
             | None \<Rightarrow> analyze_call ev sp es (if name = ''eval'' then capture_eval_quoted_lexicals sp es st else st))
        | None \<Rightarrow> analyze_call ev sp es st))"

lemma analyze_each_cong:
  "(\<And>e st. e \<in> set es \<Longrightarrow> ev e st = ev' e st) \<Longrightarrow> analyze_each ev es st = analyze_each ev' es st"
proof (induction es arbitrary: st)
  case (Cons e es)
  have "analyze_each ev es st' = analyze_each ev' es st'" for st' by (rule Cons.IH) (use Cons.prems in auto)
  then show ?case using Cons.prems by (auto simp: sem_bind_def split: sum.splits)
qed simp

lemma bind_each_cong:
  "(\<And>e st. e \<in> set es \<Longrightarrow> ev e st = ev' e st) \<Longrightarrow> sem_bind (analyze_each ev es) f st = sem_bind (analyze_each ev' es) f st"
  using analyze_each_cong [of es ev ev' st] by (simp add: sem_bind_def)


text \<open>A handler looks at its analyzer only on the elements of the form.\<close>

definition local_handler :: "handler \<Rightarrow> bool" where
  "local_handler h \<longleftrightarrow> (\<forall>ev ev' sp es st. (\<forall>e \<in> set es. ev e = ev' e) \<longrightarrow> h ev sp es st = h ev' sp es st)"

lemma bind_cong_fun: "(\<And>st. m st = m' st) \<Longrightarrow> (\<And>x st. f x st = f' x st) \<Longrightarrow> sem_bind m f st = sem_bind m' f' st"
  by (simp add: sem_bind_def split: sum.splits)

lemma each_local:
  "\<forall>e \<in> set es. ev e = ev' e \<Longrightarrow> set fs \<subseteq> set es \<Longrightarrow> analyze_each ev fs = analyze_each ev' fs"
  by (rule ext, rule analyze_each_cong) auto

lemma nth_sub: "i < length es \<Longrightarrow> set [es ! i] \<subseteq> set es"
  by simp

lemma tagged_local: "local_handler (tagged_form name mk)"
  unfolding local_handler_def tagged_form_def using each_local [of _ _ _ "[_ ! _]"] nth_sub
  by (auto simp: Let_def)

lemma handlers_local: "(name, h) \<in> set get_form_handlers \<Longrightarrow> local_handler h"
proof -
  have drop: "\<forall>e \<in> set es. ev e = ev' e \<Longrightarrow> analyze_each ev (drop k es) = analyze_each ev' (drop k es)" for ev ev' es k
    by (rule each_local) (auto dest: in_set_dropD)
  have set: "local_handler handle_set"
    unfolding local_handler_def
  proof (intro allI impI)
    fix ev ev' :: analyzer and sp es st assume h: "\<forall>e \<in> set es. ev e = ev' e"
    show "handle_set ev sp es st = handle_set ev' sp es st"
    proof (cases "length es = 3")
      case True
      then have "analyze_each ev [es ! 2] = analyze_each ev' [es ! 2]" by (intro each_local [OF h]) simp
      then show ?thesis by (simp only: handle_set_def)
    qed (simp add: handle_set_def)
  qed
  have lam: "local_handler handle_lambda"
    unfolding local_handler_def handle_lambda_def using drop [of _ _ _ 2] by auto metis
  have loc: "local_handler h" if "\<And>ev ev' sp es st. analyze_each ev (drop 1 es) = analyze_each ev' (drop 1 es) \<Longrightarrow> h ev sp es st = h ev' sp es st" for h
    unfolding local_handler_def using that drop by blast
  have u: "local_handler (unary_form nm mk)" for nm mk
    by (rule loc) (simp add: unary_form_def)
  have "local_handler handle_if" "local_handler handle_begin" "local_handler handle_quote" "local_handler handle_values"
      "local_handler handle_apply" "local_handler handle_logic_var" "local_handler handle_unify" "local_handler handle_trail_mark"
    by (rule loc, simp add: handle_if_def handle_begin_def handle_quote_def handle_values_def
        handle_apply_def handle_logic_var_def handle_unify_def handle_trail_mark_def)+
  moreover have "local_handler handle_dynamic_wind" "local_handler handle_call_with_values" "local_handler handle_call_cc"
    by (rule loc, simp add: handle_dynamic_wind_def handle_call_with_values_def handle_call_cc_def analyze_n_args_def)+
  moreover have "local_handler handle_raise" "local_handler handle_guard"
    using tagged_local by (simp_all add: local_handler_def handle_raise_def handle_guard_def)
  moreover assume "(name, h) \<in> set get_form_handlers"
  ultimately show ?thesis using set lam u by (auto simp: get_form_handlers_def)
qed

lemma analyze_list_cong [fundef_cong]:
  assumes "sp = sp'" "es = es'" "st = st'" "\<And>e st. e \<in> set es' \<Longrightarrow> ev e st = ev' e st"
  shows "analyze_list ev sp es st = analyze_list ev' sp' es' st'"
proof -
  have h: "\<forall>e \<in> set es. ev e = ev' e" using assms(2,4) by blast
  have "analyze_each ev es = analyze_each ev' es" by (rule each_local [OF h]) simp
  then have c: "analyze_call ev sp es = analyze_call ev' sp es" by (simp add: analyze_call_def)
  have "k ev sp es st = k ev' sp es st" if "map_of get_form_handlers name = Some k" for name k
    using handlers_local [OF map_of_SomeD [OF that]] h by (simp add: local_handler_def)
  then show ?thesis using c unfolding assms(1-3) [symmetric]
    by (auto simp: analyze_list_def split: option.splits)
qed

fun analyze :: "sexpr \<Rightarrow> node sem" where
  "analyze e st =
     (case e of
        Symbol_sx sp n \<Rightarrow> (case lookup_name n sp st of
            Inl x \<Rightarrow> Inl x
          | Inr ((a, _), st') \<Rightarrow> Inr (Var_n (new_info sp) a, st'))
      | List_sx sp es t \<Rightarrow> (case make_const e of Some n \<Rightarrow> Inr (n, st) | None \<Rightarrow> analyze_list analyze sp es st)
      | _ \<Rightarrow> (case make_const e of
            Some n \<Rightarrow> Inr (n, st)
          | None \<Rightarrow> sem_fail InvalidFormShape (sx_span e) ''Unsupported expression type'' st))"

declare analyze.simps [simp del]

section \<open>Modules\<close>

text \<open>
  \<^verbatim>\<open>analyze_all\<close>. The slots of the exports of the modules done so far are a map from module and
  name; the resolver of slots that the runtime knows is a parameter that may be absent.
\<close>

type_synonym slot_resolver = "string \<Rightarrow> string \<Rightarrow> u32 option"

record module_analysis =
  ma_out :: "module_semantics list"
  ma_next_global :: u32
  ma_exports :: "string \<rightharpoonup> string \<rightharpoonup> u32"

definition toplevel_scope :: scope where
  "toplevel_scope = \<lparr> sc_table = Map.empty, sc_boundary = False, sc_lambda = None, sc_next_slot = 0 \<rparr>"

fun sem_each :: "('a \<Rightarrow> unit sem) \<Rightarrow> 'a list \<Rightarrow> unit sem" where
  "sem_each f [] = sem_ret ()"
| "sem_each f (x # xs) = sem_bind (f x) (\<lambda>_. sem_each f xs)"

text \<open>The builtins get the slots from 0 on, whatever the shared counter is.\<close>

definition seed_builtins :: "string list \<Rightarrow> unit sem" where
  "seed_builtins names st =
     sem_bind (sem_each (\<lambda>n. sem_bind (add_binding n Global_binding default_span False) (\<lambda>_. sem_ret ())) names)
       (\<lambda>_ st'. Inr ((), st'\<lparr> next_global := next_global st \<rparr>)) (st\<lparr> next_global := 0 \<rparr>)"

definition wire_import :: "slot_resolver option \<Rightarrow> (string \<rightharpoonup> string \<rightharpoonup> u32) \<Rightarrow> string \<times> import_origin \<Rightarrow> unit sem" where
  "wire_import ext exps imp =
     (case imp of (ln, orig) \<Rightarrow>
        let runtime = (case ext of Some f \<Rightarrow> f (from_module orig) (remote_name orig) | None \<Rightarrow> None);
            known = (case exps (from_module orig) of Some m \<Rightarrow> m (remote_name orig) | None \<Rightarrow> None)
        in sem_bind
          (case runtime of
             Some g \<Rightarrow> add_import_at_slot ln orig (origin_where orig) g
           | None \<Rightarrow> (case known of
                 Some g \<Rightarrow> add_import_at_slot ln orig (origin_where orig) g
               | None \<Rightarrow> add_import ln orig (origin_where orig))) (\<lambda>_. sem_ret ()))"

definition declare_global :: "module_table \<Rightarrow> span \<Rightarrow> string \<Rightarrow> unit sem" where
  "declare_global mt sp n = sem_bind
     (add_binding n Global_binding (case map_of (define_spans mt) n of Some s \<Rightarrow> s | None \<Rightarrow> sp) True) (\<lambda>_. sem_ret ())"

text \<open>A top-level form: \<open>None\<close> where it is an import or export clause.\<close>

definition analyze_toplevel :: "sexpr \<Rightarrow> node option sem" where
  "analyze_toplevel bf =
     (let other = sem_bind (analyze bf) (\<lambda>n. sem_ret (Some n)) in
      case as_list bf of
        Some (sp, h # args, _) \<Rightarrow>
          (case as_symbol h of
             Some (_, name) \<Rightarrow>
               (if name = ''export'' \<or> name = ''import'' then sem_ret None
                else if name = ''define'' \<and> length args = 2
                then (case as_symbol (args ! 0) of
                    Some (vsp, v) \<Rightarrow> sem_bind (analyze (args ! 1)) (\<lambda>n. sem_bind (lookup_name v vsp) (\<lambda>(a, _).
                      sem_ret (Some (Set_n (new_info sp) a n))))
                  | None \<Rightarrow> other)
                else other)
           | None \<Rightarrow> other)
      | _ \<Rightarrow> other)"

fun analyze_forms :: "sexpr list \<Rightarrow> node list sem" where
  "analyze_forms [] = sem_ret []"
| "analyze_forms (e # es) = sem_bind (analyze_toplevel e) (\<lambda>n. sem_bind (analyze_forms es) (\<lambda>ns.
     sem_ret ((case n of Some x \<Rightarrow> [x] | None \<Rightarrow> []) @ ns)))"

fun collect_exports :: "(string \<rightharpoonup> binding_id) \<Rightarrow> span \<Rightarrow> string list \<Rightarrow> (string \<times> binding_id) list \<Rightarrow>
    sem_error + (string \<times> binding_id) list" where
  "collect_exports tab sp [] acc = Inr acc"
| "collect_exports tab sp (x # xs) acc = (case tab x of
       None \<Rightarrow> Inl (sem_err ExportOfUnknownBinding sp ''unknown export'')
     | Some i \<Rightarrow> collect_exports tab sp xs (emplace_new x i acc))"

definition main_slot :: "(string \<rightharpoonup> binding_id) \<Rightarrow> binding list \<Rightarrow> u32 option" where
  "main_slot tab bs = (case tab ''main'' of
       Some i \<Rightarrow> if b_kind (bs ! unat i) = Global_binding then Some (ucast (b_slot (bs ! unat i))) else None
     | None \<Rightarrow> None)"

definition analyze_module :: "string list \<Rightarrow> slot_resolver option \<Rightarrow> span \<Rightarrow> module_table \<Rightarrow> sexpr list \<Rightarrow> string \<Rightarrow>
    module_analysis \<Rightarrow> sem_error + module_analysis" where
  "analyze_module builtins ext sp mt body name ma =
     (let st0 = \<lparr> an_scopes = [toplevel_scope], an_bindings = [], next_binding_id = 0, next_global = ma_next_global ma \<rparr>
      in case sem_bind (seed_builtins builtins) (\<lambda>_.
           sem_bind (sem_each (wire_import ext (ma_exports ma)) (import_origins mt)) (\<lambda>_.
           sem_bind (sem_each (declare_global mt sp) (defined mt)) (\<lambda>_. analyze_forms body))) st0 of
        Inl e \<Rightarrow> Inl e
      | Inr (inits, st) \<Rightarrow>
        (let top = last (an_scopes st); bs = an_bindings st in
         case collect_exports (sc_table top) sp (exports mt) [] of
           Inl e \<Rightarrow> Inl e
         | Inr exps \<Rightarrow> Inr
            \<lparr> ma_out = ma_out ma @ [\<lparr> sem_name = name, toplevel_inits = map (mark_tail False) inits, sem_exports = exps,
                bindings = bs, sem_stack_size = ucast (sc_next_slot top) + 32, total_globals = 0,
                main_func_slot = main_slot (sc_table top) bs \<rparr>],
              ma_next_global = next_global st,
              ma_exports = (if exps = [] then ma_exports ma else (ma_exports ma)(name \<mapsto>
                (case ma_exports ma name of Some m \<Rightarrow> m | None \<Rightarrow> Map.empty)
                  ++ map_of (map (\<lambda>(x, i). (x, ucast (b_slot (bs ! unat i)))) exps))) \<rparr>))"

text \<open>The modules among the forms: a list that starts with the symbol \<open>module\<close> and a name.\<close>

definition module_form :: "sexpr \<Rightarrow> (string \<times> sexpr list) option" where
  "module_form f = (case as_list f of
       Some (_, h # n # body, _) \<Rightarrow>
         (case (as_symbol h, as_symbol n) of
            (Some (_, hn), Some (_, name)) \<Rightarrow> if hn = ''module'' then Some (name, body) else None
          | _ \<Rightarrow> None)
     | _ \<Rightarrow> None)"

fun analyze_modules :: "linker \<Rightarrow> string list \<Rightarrow> slot_resolver option \<Rightarrow> sexpr list \<Rightarrow> module_analysis \<Rightarrow> sem_error + module_analysis" where
  "analyze_modules lk builtins ext [] ma = Inr ma"
| "analyze_modules lk builtins ext (f # fs) ma =
     (case module_form f of
        None \<Rightarrow> analyze_modules lk builtins ext fs ma
      | Some (name, body) \<Rightarrow>
        (case get_module lk name of
           None \<Rightarrow> Inl (sem_err InvalidFormShape (sx_span f) ''module not linked'')
         | Some mt \<Rightarrow>
           (if mt_state mt \<noteq> Linked then Inl (sem_err InvalidFormShape (sx_span f) ''module not linked'')
            else (case analyze_module builtins ext (sx_span f) mt body name ma of
                Inl e \<Rightarrow> Inl e
              | Inr ma' \<Rightarrow> analyze_modules lk builtins ext fs ma'))))"

definition analyze_all :: "sexpr list \<Rightarrow> linker \<Rightarrow> string list \<Rightarrow> slot_resolver option \<Rightarrow> sem_error + module_semantics list" where
  "analyze_all forms lk builtins ext =
     (case analyze_modules lk builtins ext forms
         \<lparr> ma_out = [], ma_next_global = of_nat (length builtins), ma_exports = Map.empty \<rparr> of
        Inl e \<Rightarrow> Inl e
      | Inr ma \<Rightarrow> Inr (map (\<lambda>m. m\<lparr> total_globals := ma_next_global ma \<rparr>) (ma_out ma)))"

end
