(* ===== verification/AnalyzerFacts.thy ===== *)
theory AnalyzerFacts
  imports Analyzer "HOL-Library.Sublist"
begin

text \<open>
  The analyzer resolves names lexically and converts closures correctly: what an address refers_to
  (\<open>refers_to\<close>), that every step keeps the scopes well formed (\<open>analysis_ok\<close>) and only adds to the
  captures and bindings (\<open>ext_state\<close>), and that every address of the nodes it returns refers to a binding
  that is visible there (\<open>scoped\<close>).
\<close>

section \<open>What an address refers_to\<close>

text \<open>
  A context has one entry per enclosing lambda, innermost first: the parameters of its frame and
  the bindings that its closure holds.
\<close>

type_synonym closure_context = "(binding_id set \<times> binding_id list) list"

definition refers_to :: "binding list \<Rightarrow> closure_context \<Rightarrow> address \<Rightarrow> binding_id \<Rightarrow> bool" where
  "refers_to bs \<Gamma> a i \<longleftrightarrow> unat i < length bs \<and>
     (case a of
        Local s \<Rightarrow> (case \<Gamma> of (own, _) # _ \<Rightarrow> i \<in> own \<and> b_slot (bs ! unat i) = s | [] \<Rightarrow> False)
      | Upval k \<Rightarrow> (case \<Gamma> of (_, us) # _ \<Rightarrow> unat k < length us \<and> us ! unat k = i | [] \<Rightarrow> False)
      | Global g \<Rightarrow> is_toplevel_kind (b_kind (bs ! unat i)) \<and> g = ucast (b_slot (bs ! unat i))
      | No_address \<Rightarrow> False)"

definition scope_captures :: "scope \<Rightarrow> binding_id list" where
  "scope_captures s = (case sc_lambda s of Some c \<Rightarrow> cp_upvals c | None \<Rightarrow> [])"

definition scope_context :: "scope list \<Rightarrow> closure_context" where
  "scope_context ss = map (\<lambda>s. (ran (sc_table s), scope_captures s)) (butlast ss)"

text \<open>The captures of every lambda under construction are distinct and denote, outside it, what they should.\<close>

fun captures_ok :: "binding list \<Rightarrow> scope list \<Rightarrow> bool" where
  "captures_ok bs [] = True"
| "captures_ok bs (s # ss) \<longleftrightarrow>
     (case sc_lambda s of
        Some c \<Rightarrow> distinct (cp_upvals c) \<and> list_all2 (refers_to bs (scope_context ss)) (cp_sources c) (cp_upvals c)
      | None \<Rightarrow> True)
     \<and> captures_ok bs ss"

definition param_ok :: "binding list \<Rightarrow> u16 \<Rightarrow> binding_id \<Rightarrow> bool" where
  "param_ok bs n i \<longleftrightarrow> unat i < length bs \<and> b_kind (bs ! unat i) = Param_binding \<and> b_slot (bs ! unat i) < n"

definition lambda_scope_ok :: "binding list \<Rightarrow> scope \<Rightarrow> bool" where
  "lambda_scope_ok bs s \<longleftrightarrow> sc_boundary s \<and> sc_lambda s \<noteq> None \<and> unat (sc_next_slot s) \<le> length bs
     \<and> (\<forall>i \<in> ran (sc_table s). param_ok bs (sc_next_slot s) i)"

definition toplevel_scope_ok :: "binding list \<Rightarrow> scope \<Rightarrow> bool" where
  "toplevel_scope_ok bs s \<longleftrightarrow> \<not> sc_boundary s \<and> sc_lambda s = None \<and>
     (\<forall>i \<in> ran (sc_table s). unat i < length bs \<and> is_toplevel_kind (b_kind (bs ! unat i)))"

definition names_ok :: "binding list \<Rightarrow> scope \<Rightarrow> bool" where
  "names_ok bs s \<longleftrightarrow> (\<forall>n i. sc_table s n = Some i \<longrightarrow> b_name (bs ! unat i) = n)"

definition analysis_ok :: "analysis \<Rightarrow> bool" where
  "analysis_ok st \<longleftrightarrow> an_scopes st \<noteq> [] \<and> toplevel_scope_ok (an_bindings st) (last (an_scopes st))
     \<and> list_all (lambda_scope_ok (an_bindings st)) (butlast (an_scopes st))
     \<and> list_all (names_ok (an_bindings st)) (an_scopes st)
     \<and> captures_ok (an_bindings st) (an_scopes st)
     \<and> next_binding_id st = of_nat (length (an_bindings st))"

text \<open>Slots and captures have 16 bits.\<close>

definition in_range :: "analysis \<Rightarrow> bool" where
  "in_range st \<longleftrightarrow> length (an_bindings st) < 65536"

section \<open>Steps only add\<close>

definition ext_scope :: "scope \<Rightarrow> scope \<Rightarrow> bool" where
  "ext_scope s s' \<longleftrightarrow> sc_table s' = sc_table s \<and> sc_boundary s' = sc_boundary s \<and> sc_next_slot s' = sc_next_slot s
     \<and> rel_option (\<lambda>c c'. prefix (cp_upvals c) (cp_upvals c') \<and> prefix (cp_sources c) (cp_sources c')) (sc_lambda s) (sc_lambda s')"

lemma ext_scope_refl [simp]: "ext_scope s s"
  by (simp add: ext_scope_def option.rel_refl)

lemma ext_scope_trans: "ext_scope a b \<Longrightarrow> ext_scope b c \<Longrightarrow> ext_scope a c"
  by (cases "sc_lambda a"; cases "sc_lambda b"; cases "sc_lambda c")
     (auto simp: ext_scope_def intro: prefix_order.trans)

lemma ext_scopes_refl [simp]: "list_all2 ext_scope ss ss"
  by (simp add: list_all2_refl)

definition ext_state :: "analysis \<Rightarrow> analysis \<Rightarrow> bool" where
  "ext_state a b \<longleftrightarrow> prefix (an_bindings a) (an_bindings b) \<and> list_all2 ext_scope (an_scopes a) (an_scopes b)"

lemma ext_state_refl [simp]: "ext_state a a"
  by (simp add: ext_state_def)

lemma ext_state_trans: "ext_state a b \<Longrightarrow> ext_state b c \<Longrightarrow> ext_state a c"
  unfolding ext_state_def using ext_scope_trans by (auto intro: prefix_order.trans elim: list_all2_trans [rotated])

lemma ext_state_nonempty: "ext_state a b \<Longrightarrow> an_scopes a \<noteq> [] \<Longrightarrow> an_scopes b \<noteq> []"
  by (auto simp: ext_state_def)

lemma in_range_before: "ext_state a b \<Longrightarrow> in_range b \<Longrightarrow> in_range a"
  using prefix_length_le by (fastforce simp: ext_state_def in_range_def)

lemma capture_ext: "capture i a c = (k, c') \<Longrightarrow> prefix (cp_upvals c) (cp_upvals c') \<and> prefix (cp_sources c) (cp_sources c')"
  by (auto simp: capture_def split: list.splits)

lemma capture_path_ext: "capture_path i a ss = (a', ss') \<Longrightarrow> list_all2 ext_scope ss ss'"
proof (induction ss arbitrary: a' ss')
  case (Cons s ss)
  have "ext_scope s (s\<lparr> sc_lambda := Some c' \<rparr>)" if "capture i x c = (k, c')" "sc_lambda s = Some c" for x c k c'
    using that by (simp add: ext_scope_def capture_ext)
  with Cons show ?case by (auto split: prod.splits option.splits if_splits)
qed auto

lemma lookup_ext_state: "lookup_name n sp st = Inr (x, st') \<Longrightarrow> ext_state st st'"
proof -
  assume h: "lookup_name n sp st = Inr (x, st')"
  have "list_all2 ext_scope (an_scopes st) (ss @ drop k (an_scopes st))" if "capture_path i a (take k (an_scopes st)) = (a', ss)" for i a a' k ss
    using list_all2_appendI [OF capture_path_ext [OF that] ext_scopes_refl [of "drop k (an_scopes st)"]] by simp
  then show ?thesis using h by (auto simp: lookup_name_def Let_def ext_state_def split: option.splits if_splits prod.splits)
qed

section \<open>Contexts grow\<close>

definition ctx_ext :: "closure_context \<Rightarrow> closure_context \<Rightarrow> bool" where
  "ctx_ext = list_all2 (\<lambda>(o1, u1) (o2, u2). o1 \<subseteq> o2 \<and> prefix u1 u2)"

lemma ctx_ext_refl [simp]: "ctx_ext \<Gamma> \<Gamma>"
  by (auto simp: ctx_ext_def intro: list_all2_refl)

lemma ctx_ext_cons: "ctx_ext ((o1, u1) # \<Gamma>) ((o2, u2) # \<Delta>) \<longleftrightarrow> o1 \<subseteq> o2 \<and> prefix u1 u2 \<and> ctx_ext \<Gamma> \<Delta>"
  by (simp add: ctx_ext_def)

lemma prefix_nth: "prefix xs ys \<Longrightarrow> i < length xs \<Longrightarrow> ys ! i = xs ! i \<and> i < length ys"
  by (auto simp: prefix_def nth_append)

lemma refers_to_mono: "refers_to bs \<Gamma> a i \<Longrightarrow> prefix bs bs' \<Longrightarrow> ctx_ext \<Gamma> \<Delta> \<Longrightarrow> refers_to bs' \<Delta> a i"
  by (cases a; cases \<Gamma>; cases \<Delta>)
     (auto simp: refers_to_def ctx_ext_def prefix_nth split: address.splits list.splits)

lemma scope_captures_ext: "ext_scope s s' \<Longrightarrow> prefix (scope_captures s) (scope_captures s')"
  by (cases "sc_lambda s"; cases "sc_lambda s'") (auto simp: ext_scope_def scope_captures_def)

lemma list_all2_butlast: "list_all2 P xs ys \<Longrightarrow> list_all2 P (butlast xs) (butlast ys)"
  by (simp add: butlast_conv_take list_all2_lengthD list_all2_takeI)

lemma scope_context_ext: "list_all2 ext_scope ss ss' \<Longrightarrow> ctx_ext (scope_context ss) (scope_context ss')"
  unfolding scope_context_def ctx_ext_def list_all2_map1 list_all2_map2
  by (rule list_all2_mono [OF list_all2_butlast [of ext_scope]]) (auto simp: scope_captures_ext, simp add: ext_scope_def)

lemma ext_state_context: "ext_state a b \<Longrightarrow> ctx_ext (scope_context (an_scopes a)) (scope_context (an_scopes b))"
  by (simp add: ext_state_def scope_context_ext)

lemma scope_context_cons:
  "ss \<noteq> [] \<Longrightarrow> scope_context (s # ss) = (ran (sc_table s), scope_captures s) # scope_context ss"
  by (simp add: scope_context_def)

section \<open>Capturing\<close>

lemma captured_bound:
  assumes "list_all2 (refers_to bs \<Gamma>) ss us" "distinct us"
  shows "length us \<le> length bs"
proof -
  have "unat i < length bs" if "i \<in> set us" for i
    using that assms(1) by (auto simp: list_all2_conv_all_nth refers_to_def in_set_conv_nth)
  then have "unat ` set us \<subseteq> {..<length bs}" by auto
  then have "card (unat ` set us) \<le> length bs" using card_mono [of "{..<length bs}"] by fastforce
  then show ?thesis using assms(2) distinct_card by (metis card_image inj_on_def word_unat_eq_iff)
qed

lemma capture_index:
  assumes "capture i a c = (k, c')" "length (cp_upvals c) < 65536"
  shows "unat k < length (cp_upvals c') \<and> cp_upvals c' ! unat k = i"
proof (cases "filter (\<lambda>k. cp_upvals c ! k = i) [0..<length (cp_upvals c)]")
  case Nil
  then show ?thesis using assms by (auto simp: capture_def unat_of_nat nth_append)
next
  case (Cons j js)
  then have "j \<in> set (filter (\<lambda>k. cp_upvals c ! k = i) [0..<length (cp_upvals c)])" by simp
  then have j: "j < length (cp_upvals c)" "cp_upvals c ! j = i" by auto
  then have "unat (of_nat j :: u16) = j" using assms(2) by (simp add: unat_of_nat)
  then show ?thesis using assms Cons j by (auto simp: capture_def)
qed

lemma capture_new: "capture i a c = (k, c') \<Longrightarrow>
    c' = c \<or> i \<notin> set (cp_upvals c) \<and> cp_upvals c' = cp_upvals c @ [i] \<and> cp_sources c' = cp_sources c @ [a]"
  by (auto simp: capture_def filter_empty_conv in_set_conv_nth split: list.splits)

lemma captures_ok_mono: "captures_ok bs ss \<Longrightarrow> prefix bs bs' \<Longrightarrow> captures_ok bs' ss"
  by (induction ss) (auto split: option.splits elim!: list_all2_mono intro: refers_to_mono [OF _ _ ctx_ext_refl])

lemma ext_scopes_append: "list_all2 ext_scope ps ps' \<Longrightarrow> list_all2 ext_scope (ps @ rs) (ps' @ rs)"
  by (intro list_all2_appendI) auto

lemma capture_path_ok:
  assumes "capture_path i a ps = (a', ps')" "captures_ok bs (ps @ rs)" "refers_to bs (scope_context rs) a i" "rs \<noteq> []"
    and "list_all (lambda_scope_ok bs) ps" "length bs < 65536"
  shows "captures_ok bs (ps' @ rs) \<and> refers_to bs (scope_context (ps' @ rs)) a' i"
  using assms
proof (induction ps arbitrary: a' ps')
  case (Cons s ps)
  obtain b qs where q: "capture_path i a ps = (b, qs)" by fastforce
  obtain c where c: "sc_lambda s = Some c" "sc_boundary s" using Cons.prems(5) by (auto simp: lambda_scope_ok_def)
  obtain k c' where k: "capture i b c = (k, c')" by fastforce
  have ih: "captures_ok bs (qs @ rs)" "refers_to bs (scope_context (qs @ rs)) b i"
    using Cons.IH [OF q] Cons.prems by auto
  have r: "ps' = s\<lparr> sc_lambda := Some c' \<rparr> # qs" "a' = Upval k" using Cons.prems(1) q c k by auto
  have e: "ctx_ext (scope_context (ps @ rs)) (scope_context (qs @ rs))"
    by (intro scope_context_ext ext_scopes_append capture_path_ext [OF q])
  have d: "distinct (cp_upvals c)" "list_all2 (refers_to bs (scope_context (ps @ rs))) (cp_sources c) (cp_upvals c)"
    using Cons.prems(2) c by auto
  have l: "length (cp_upvals c) < 65536" using captured_bound [OF d(2,1)] Cons.prems(6) by simp
  have "list_all2 (refers_to bs (scope_context (qs @ rs))) (cp_sources c) (cp_upvals c)"
    by (rule list_all2_mono [OF d(2)]) (auto intro: refers_to_mono [OF _ _ e])
  then have "distinct (cp_upvals c') \<and> list_all2 (refers_to bs (scope_context (qs @ rs))) (cp_sources c') (cp_upvals c')"
    using d(1) ih(2) capture_new [OF k] by (auto intro: list_all2_appendI)
  moreover have "unat i < length bs" using ih(2) by (simp add: refers_to_def)
  ultimately show ?case using ih(1) capture_index [OF k l] Cons.prems(4) unfolding r
    by (simp add: scope_context_cons refers_to_def scope_captures_def)
qed simp

section \<open>Lookup\<close>

lemma analysis_ok_scopes:
  assumes "analysis_ok st" "k < length (an_scopes st)"
  shows "an_scopes st ! k \<in> set (butlast (an_scopes st)) \<and> lambda_scope_ok (an_bindings st) (an_scopes st ! k)
    \<or> k = length (an_scopes st) - 1 \<and> toplevel_scope_ok (an_bindings st) (an_scopes st ! k)"
proof (cases "k = length (an_scopes st) - 1")
  case True
  then show ?thesis using assms by (auto simp: analysis_ok_def last_conv_nth)
next
  case False
  then have "k < length (butlast (an_scopes st))" using assms(2) by simp
  then have "an_scopes st ! k \<in> set (butlast (an_scopes st))" by (metis nth_butlast nth_mem)
  then show ?thesis using assms(1) by (auto simp: analysis_ok_def list_all_iff)
qed

lemma find_scope_Some:
  "find_scope n ss = Some k \<Longrightarrow> k < length ss \<and> (\<exists>i. sc_table (ss ! k) n = Some i) \<and> (\<forall>j < k. sc_table (ss ! j) n = None)"
proof -
  assume "find_scope n ss = Some k"
  then obtain js where f: "filter (\<lambda>k. sc_table (ss ! k) n \<noteq> None) [0..<length ss] = k # js"
    by (auto simp: find_scope_def split: list.splits)
  then obtain us vs where u: "[0..<length ss] = us @ k # vs" "\<forall>j \<in> set us. sc_table (ss ! j) n = None" "sc_table (ss ! k) n \<noteq> None"
    by (auto simp: filter_eq_Cons_iff)
  have "length [0..<length ss] = length (us @ k # vs)" "[0..<length ss] ! length us = (us @ k # vs) ! length us"
    using u(1) by simp_all
  then have k: "k = length us" "length us < length ss" by (simp_all del: upt_Suc)
  have "take (length us) [0..<length ss] = us" using u(1) by simp
  then have "us = [0..<k]" using k by (simp add: take_upt)
  moreover have "k < length ss" using k by simp
  ultimately show ?thesis using u(2,3) by auto
qed

lemma find_scopeI:
  assumes "k < length ss" "sc_table (ss ! k) n \<noteq> None" "\<forall>j < k. sc_table (ss ! j) n = None"
  shows "find_scope n ss = Some k"
proof -
  have "[0..<length ss] = [0..<k] @ k # [Suc k..<length ss]"
    using assms(1) by (metis less_imp_le_nat upt_add_eq_append upt_conv_Cons le_add_diff_inverse add_0 zero_le)
  moreover have "filter (\<lambda>k. sc_table (ss ! k) n \<noteq> None) [0..<k] = []" using assms(3) by (simp add: filter_empty_conv)
  ultimately show ?thesis using assms(2) by (simp add: find_scope_def)
qed

lemma context_refers:
  assumes ok: "analysis_ok st" and k: "k < length (an_scopes st)" and t: "sc_table (an_scopes st ! k) n = Some i"
    and p: "\<not> is_toplevel_kind (b_kind (an_bindings st ! unat i))"
  shows "lambda_scope_ok (an_bindings st) (an_scopes st ! k) \<and> k < length (an_scopes st) - 1
    \<and> refers_to (an_bindings st) (scope_context (drop k (an_scopes st))) (Local (b_slot (an_bindings st ! unat i))) i"
proof -
  have r: "i \<in> ran (sc_table (an_scopes st ! k))" using t by (rule ranI)
  have l: "lambda_scope_ok (an_bindings st) (an_scopes st ! k)" using analysis_ok_scopes [OF ok k] r p
    by (auto simp: toplevel_scope_ok_def)
  have e: "k < length (an_scopes st) - 1" using l ok k
    by (cases "k = length (an_scopes st) - 1") (auto simp: analysis_ok_def toplevel_scope_ok_def lambda_scope_ok_def last_conv_nth)
  have "drop k (an_scopes st) = an_scopes st ! k # drop (Suc k) (an_scopes st)" "drop (Suc k) (an_scopes st) \<noteq> []"
    using e k by (auto simp: Cons_nth_drop_Suc)
  then show ?thesis using l e r by (auto simp: refers_to_def scope_context_cons lambda_scope_ok_def param_ok_def)
qed

lemma analysis_ok_ext:
  assumes "analysis_ok st" "list_all2 ext_scope (an_scopes st) ss" "captures_ok (an_bindings st) ss"
  shows "analysis_ok (st\<lparr> an_scopes := ss \<rparr>)"
proof -
  have nn: "an_scopes st \<noteq> []" "ss \<noteq> []" using assms(1,2) by (auto simp: analysis_ok_def)
  have l: "ext_scope (last (an_scopes st)) (last ss)" using assms(2) nn
    by (metis last_conv_nth list_all2_lengthD list_all2_nthD diff_less length_greater_0_conv zero_less_one)
  have b: "list_all2 ext_scope (butlast (an_scopes st)) (butlast ss)" by (rule list_all2_butlast [OF assms(2)])
  have all: "list_all Q ys" if "list_all2 ext_scope xs ys" "list_all P xs" "\<And>x y. P x \<Longrightarrow> ext_scope x y \<Longrightarrow> Q y" for P Q xs ys
    using that by (induction rule: list_all2_induct) auto
  have "toplevel_scope_ok (an_bindings st) (last ss)" using assms(1) l
    by (auto simp: analysis_ok_def toplevel_scope_ok_def ext_scope_def)
  moreover have "list_all (lambda_scope_ok (an_bindings st)) (butlast ss)"
    by (rule all [OF b, of "lambda_scope_ok (an_bindings st)"])
       (use assms(1) in \<open>auto simp: analysis_ok_def lambda_scope_ok_def ext_scope_def option_rel_Some1\<close>)
  moreover have "list_all (names_ok (an_bindings st)) ss"
    by (rule all [OF assms(2), of "names_ok (an_bindings st)"])
       (use assms(1) in \<open>auto simp: analysis_ok_def names_ok_def ext_scope_def\<close>)
  ultimately show ?thesis using assms(1,3) nn by (simp add: analysis_ok_def)
qed

lemma last_scope_nth: "an_scopes st \<noteq> [] \<Longrightarrow> last (an_scopes st) = an_scopes st ! (length (an_scopes st) - 1)"
  by (rule last_conv_nth)

lemma toplevel_refers:
  assumes "analysis_ok st" "k < length (an_scopes st)" "sc_table (an_scopes st ! k) n = Some i"
    "is_toplevel_kind (b_kind (an_bindings st ! unat i))"
  shows "refers_to (an_bindings st) \<Gamma> (Global (ucast (b_slot (an_bindings st ! unat i)))) i"
proof -
  have "i \<in> ran (sc_table (an_scopes st ! k))" using assms(3) by (rule ranI)
  then have "unat i < length (an_bindings st)" using analysis_ok_scopes [OF assms(1,2)]
    by (auto simp: lambda_scope_ok_def param_ok_def toplevel_scope_ok_def)
  then show ?thesis using assms(4) by (simp add: refers_to_def)
qed

lemma lookup_toplevel_Some: "lookup_toplevel n st = Some (a, i) \<Longrightarrow>
    sc_table (last (an_scopes st)) n = Some i \<and> is_toplevel_kind (b_kind (an_bindings st ! unat i))
    \<and> a = Global (ucast (b_slot (an_bindings st ! unat i)))"
  by (auto simp: lookup_toplevel_def Let_def split: option.splits if_splits)

lemma lookup_ok:
  assumes ok: "analysis_ok st" and r: "in_range st" and h: "lookup_name n sp st = Inr ((a, i), st')"
  shows "analysis_ok st' \<and> refers_to (an_bindings st') (scope_context (an_scopes st')) a i"
proof (cases "find_scope n (an_scopes st)")
  case None
  note h' = h [unfolded lookup_name_def Let_def None option.case]
  obtain m where f: "find_marker n = Some m" using h' by (cases "find_marker n") simp_all
  have m: "lookup_toplevel (take m n) st = Some (a, i)" "st' = st"
    using h' by (cases "lookup_toplevel (take m n) st"; simp add: f)+
  then have t: "sc_table (last (an_scopes st)) (take m n) = Some i" "is_toplevel_kind (b_kind (an_bindings st ! unat i))"
      "a = Global (ucast (b_slot (an_bindings st ! unat i)))"
    by (auto dest: lookup_toplevel_Some)
  have n: "an_scopes st \<noteq> []" using ok by (simp add: analysis_ok_def)
  show ?thesis using toplevel_refers [OF ok _ t(1) [unfolded last_conv_nth [OF n]] t(2)] n t(3) m(2) ok by simp
next
  case (Some k)
  obtain j where k: "k < length (an_scopes st)" "sc_table (an_scopes st ! k) n = Some j" using find_scope_Some [OF Some] by auto
  show ?thesis
  proof (cases "is_toplevel_kind (b_kind (an_bindings st ! unat j))")
    case True
    then show ?thesis using toplevel_refers [OF ok k True] h Some k ok by (auto simp: lookup_name_def Let_def)
  next
    case False
    note c = context_refers [OF ok k False]
    let ?ps = "take k (an_scopes st)" and ?rs = "drop k (an_scopes st)"
    have ps: "list_all (lambda_scope_ok (an_bindings st)) ?ps"
    proof -
      have "list_all (lambda_scope_ok (an_bindings st)) (butlast (an_scopes st))"
        using ok by (simp add: analysis_ok_def)
      then have "list_all (lambda_scope_ok (an_bindings st)) (take k (butlast (an_scopes st)))"
        unfolding list_all_iff by (blast dest: in_set_takeD)
      moreover have "k < length (an_scopes st)" using k by simp
      ultimately show ?thesis by (simp only: take_butlast)
    qed
    show ?thesis
    proof (cases "\<exists>s \<in> set ?ps. sc_boundary s")
      case True
      obtain b ss where p: "capture_path j (Local (b_slot (an_bindings st ! unat j))) ?ps = (b, ss)" by fastforce
      have "captures_ok (an_bindings st) (?ps @ ?rs)" using ok by (simp add: analysis_ok_def)
      then have q: "captures_ok (an_bindings st) (ss @ ?rs)" "refers_to (an_bindings st) (scope_context (ss @ ?rs)) b j"
        using capture_path_ok [OF p _ _ _ ps] c k r by (auto simp: in_range_def)
      moreover have "list_all2 ext_scope (an_scopes st) (ss @ ?rs)"
        using ext_scopes_append [OF capture_path_ext [OF p], of ?rs] by simp
      ultimately show ?thesis using h Some k False True p analysis_ok_ext [OF ok]
        by (auto simp: lookup_name_def Let_def)
    next
      case nb: False
      then have "?ps = []" using ps by (cases ?ps) (auto simp: lambda_scope_ok_def)
      then have "k = 0" using k by auto
      then show ?thesis using h Some k False nb ok c by (auto simp: lookup_name_def Let_def)
    qed
  qed
qed

section \<open>Steps\<close>

text \<open>
  Every address of a node refers to a binding of its context. The captures of a lambda denote,
  outside it, the bindings its closure holds, and its frame has a slot for each of its formals.
\<close>

definition formals_of :: "lambda_info \<Rightarrow> binding_id set" where
  "formals_of l = set (lam_params l) \<union> set_option (rest_param l)"

definition lambda_scoped :: "binding list \<Rightarrow> closure_context \<Rightarrow> lambda_info \<Rightarrow> bool" where
  "lambda_scoped bs \<Gamma> l \<longleftrightarrow> distinct (lam_upvals l) \<and> list_all2 (refers_to bs \<Gamma>) (upval_sources l) (lam_upvals l)
     \<and> (\<forall>i \<in> formals_of l. unat i < length bs \<and> b_kind (bs ! unat i) = Param_binding
          \<and> ucast (b_slot (bs ! unat i)) < lam_stack_size l)"

fun scoped :: "binding list \<Rightarrow> closure_context \<Rightarrow> node \<Rightarrow> bool" where
  "scoped bs \<Gamma> (Var_n _ a) = (\<exists>i. refers_to bs \<Gamma> a i)"
| "scoped bs \<Gamma> (If_n _ a b c) = (scoped bs \<Gamma> a \<and> scoped bs \<Gamma> b \<and> scoped bs \<Gamma> c)"
| "scoped bs \<Gamma> (Begin_n _ es) = list_all (scoped bs \<Gamma>) es"
| "scoped bs \<Gamma> (Set_n _ a v) = ((\<exists>i. refers_to bs \<Gamma> a i) \<and> scoped bs \<Gamma> v)"
| "scoped bs \<Gamma> (Lambda_n _ l b) = (lambda_scoped bs \<Gamma> l \<and> scoped bs ((formals_of l, lam_upvals l) # \<Gamma>) b)"
| "scoped bs \<Gamma> (Call_n _ f args) = (scoped bs \<Gamma> f \<and> list_all (scoped bs \<Gamma>) args)"
| "scoped bs \<Gamma> (PrimitiveCall_n _ k args) = list_all (scoped bs \<Gamma>) args"
| "scoped bs \<Gamma> (DynamicWind_n _ a b c) = (scoped bs \<Gamma> a \<and> scoped bs \<Gamma> b \<and> scoped bs \<Gamma> c)"
| "scoped bs \<Gamma> (Values_n _ es) = list_all (scoped bs \<Gamma>) es"
| "scoped bs \<Gamma> (CallWithValues_n _ p c) = (scoped bs \<Gamma> p \<and> scoped bs \<Gamma> c)"
| "scoped bs \<Gamma> (CallCC_n _ c) = scoped bs \<Gamma> c"
| "scoped bs \<Gamma> (Apply_n _ f args) = (scoped bs \<Gamma> f \<and> list_all (scoped bs \<Gamma>) args)"
| "scoped bs \<Gamma> (Raise_n _ tg v) = scoped bs \<Gamma> v"
| "scoped bs \<Gamma> (Guard_n _ tg b) = scoped bs \<Gamma> b"
| "scoped bs \<Gamma> (Unify_n _ a b) = (scoped bs \<Gamma> a \<and> scoped bs \<Gamma> b)"
| "scoped bs \<Gamma> (DerefLogicVar_n _ v) = scoped bs \<Gamma> v"
| "scoped bs \<Gamma> (UnwindTrail_n _ m) = scoped bs \<Gamma> m"
| "scoped bs \<Gamma> (CopyTerm_n _ t) = scoped bs \<Gamma> t"
| "scoped bs \<Gamma> (Const_n _ l) = True"
| "scoped bs \<Gamma> (Quote_n _ d) = True"
| "scoped bs \<Gamma> (MakeLogicVar_n _) = True"
| "scoped bs \<Gamma> (TrailMark_n _) = True"

lemma lambda_scoped_mono: "lambda_scoped bs \<Gamma> l \<Longrightarrow> prefix bs bs' \<Longrightarrow> ctx_ext \<Gamma> \<Delta> \<Longrightarrow> lambda_scoped bs' \<Delta> l"
  by (auto simp: lambda_scoped_def prefix_nth elim!: list_all2_mono intro: refers_to_mono order.strict_trans2 dest: prefix_length_le)

lemma scoped_mono: "scoped bs \<Gamma> n \<Longrightarrow> prefix bs bs' \<Longrightarrow> ctx_ext \<Gamma> \<Delta> \<Longrightarrow> scoped bs' \<Delta> n"
proof (induction bs \<Gamma> n arbitrary: \<Delta> rule: scoped.induct)
  case (5 bs \<Gamma> nt l b)
  have "ctx_ext ((formals_of l, lam_upvals l) # \<Gamma>) ((formals_of l, lam_upvals l) # \<Delta>)" using 5(4) by (simp add: ctx_ext_cons)
  then show ?case using 5 lambda_scoped_mono by auto
qed (auto simp: list_all_iff intro: refers_to_mono)

text \<open>
  What a step guarantees: it only adds to the state, it keeps a state well formed as long as the
  bindings fit, and its result satisfies \<open>P\<close> over the bindings and the context after it.
\<close>

type_synonym 'a outcome_spec = "'a \<Rightarrow> binding list \<Rightarrow> closure_context \<Rightarrow> bool"

definition sem_ok :: "'a sem \<Rightarrow> 'a outcome_spec \<Rightarrow> bool" where
  "sem_ok m P \<longleftrightarrow> (\<forall>st x st'. m st = Inr (x, st') \<longrightarrow> ext_state st st' \<and>
     (analysis_ok st \<longrightarrow> in_range st' \<longrightarrow> analysis_ok st' \<and> P x (an_bindings st') (scope_context (an_scopes st'))))"

definition stable :: "'a outcome_spec \<Rightarrow> bool" where
  "stable P \<longleftrightarrow> (\<forall>x bs \<Gamma> bs' \<Delta>. P x bs \<Gamma> \<longrightarrow> prefix bs bs' \<longrightarrow> ctx_ext \<Gamma> \<Delta> \<longrightarrow> P x bs' \<Delta>)"

abbreviation scoped_node :: "node outcome_spec" where
  "scoped_node n bs \<Gamma> \<equiv> scoped bs \<Gamma> n"

abbreviation scoped_nodes :: "nat \<Rightarrow> node list outcome_spec" where
  "scoped_nodes k ns bs \<Gamma> \<equiv> list_all (scoped bs \<Gamma>) ns \<and> length ns = k"

lemma stable_node: "stable scoped_node"
  by (auto simp: stable_def intro: scoped_mono)

lemma stable_nodes: "stable (scoped_nodes k)"
  by (auto simp: stable_def list_all_iff intro: scoped_mono)

lemma stable_address: "stable (\<lambda>(a, i) bs \<Gamma>. refers_to bs \<Gamma> a i)"
  by (auto simp: stable_def intro: refers_to_mono)

lemma sem_okI:
  assumes "\<And>st x st'. m st = Inr (x, st') \<Longrightarrow> ext_state st st'"
    and "\<And>st x st'. m st = Inr (x, st') \<Longrightarrow> analysis_ok st \<Longrightarrow> in_range st' \<Longrightarrow>
      analysis_ok st' \<and> P x (an_bindings st') (scope_context (an_scopes st'))"
  shows "sem_ok m P"
  using assms by (auto simp: sem_ok_def)

lemma sem_okD: "sem_ok m P \<Longrightarrow> m st = Inr (x, st') \<Longrightarrow> ext_state st st' \<and>
    (analysis_ok st \<longrightarrow> in_range st' \<longrightarrow> analysis_ok st' \<and> P x (an_bindings st') (scope_context (an_scopes st')))"
  by (auto simp: sem_ok_def)

lemma sem_ok_ret: "(\<And>bs \<Gamma>. P x bs \<Gamma>) \<Longrightarrow> sem_ok (sem_ret x) P"
  by (auto simp: sem_ok_def sem_ret_def)

lemma sem_ok_fail: "sem_ok (sem_fail k sp s) P"
  by (simp add: sem_ok_def sem_fail_def)

lemma sem_bind_Inr: "sem_bind m f st = Inr (y, st') \<longleftrightarrow> (\<exists>x st1. m st = Inr (x, st1) \<and> f x st1 = Inr (y, st'))"
  by (auto simp: sem_bind_def split: sum.splits)

lemma sem_ok_bind:
  assumes m: "sem_ok m P" and s: "stable P" and f: "\<And>x. sem_ok (f x) (\<lambda>y bs \<Gamma>. P x bs \<Gamma> \<longrightarrow> Q y bs \<Gamma>)"
  shows "sem_ok (sem_bind m f) Q"
proof (rule sem_okI)
  fix st y st' assume h: "sem_bind m f st = Inr (y, st')"
  then obtain x st1 where x: "m st = Inr (x, st1)" "f x st1 = Inr (y, st')" by (auto simp: sem_bind_Inr)
  have e: "ext_state st st1" "ext_state st1 st'" using sem_okD [OF m x(1)] sem_okD [OF f x(2)] by blast+
  then show "ext_state st st'" by (rule ext_state_trans)
  assume "analysis_ok st" "in_range st'"
  then have a: "analysis_ok st1" "P x (an_bindings st1) (scope_context (an_scopes st1))"
    using sem_okD [OF m x(1)] in_range_before [OF e(2)] by blast+
  have "P x (an_bindings st') (scope_context (an_scopes st'))"
    using s a(2) e(2) ext_state_context [OF e(2)] unfolding stable_def ext_state_def by blast
  then show "analysis_ok st' \<and> Q y (an_bindings st') (scope_context (an_scopes st'))"
    using sem_okD [OF f x(2)] a(1) \<open>in_range st'\<close> by blast
qed

lemma sem_ok_lookup: "sem_ok (lookup_name n sp) (\<lambda>(a, i) bs \<Gamma>. refers_to bs \<Gamma> a i)"
proof (rule sem_okI)
  fix st x st' assume h: "lookup_name n sp st = Inr (x, st')"
  then show e: "ext_state st st'" by (rule lookup_ext_state)
  assume "analysis_ok st" "in_range st'"
  then show "analysis_ok st' \<and> (case x of (a, i) \<Rightarrow> \<lambda>bs \<Gamma>. refers_to bs \<Gamma> a i) (an_bindings st') (scope_context (an_scopes st'))"
    using lookup_ok [OF _ in_range_before [OF e], of n sp] h by (cases x) auto
qed

lemma sem_ok_each: "(\<And>e. e \<in> set es \<Longrightarrow> sem_ok (ev e) scoped_node) \<Longrightarrow> sem_ok (analyze_each ev es) (scoped_nodes (length es))"
proof (induction es)
  case (Cons e es)
  have "sem_ok (ev e) scoped_node" "sem_ok (analyze_each ev es) (scoped_nodes (length es))" using Cons by simp_all
  then show ?case
    by (auto intro!: sem_ok_bind [OF _ stable_node] sem_ok_bind [OF _ stable_nodes] sem_ok_ret)
qed (auto intro: sem_ok_ret)

section \<open>Formals\<close>

lemma param_ok_mono: "param_ok bs n i \<Longrightarrow> prefix bs bs' \<Longrightarrow> n \<le> n' \<Longrightarrow> param_ok bs' n' i"
  by (auto simp: param_ok_def prefix_nth)

lemma lambda_scope_ok_mono: "lambda_scope_ok bs s \<Longrightarrow> prefix bs bs' \<Longrightarrow> lambda_scope_ok bs' s"
  by (auto simp: lambda_scope_ok_def intro: param_ok_mono dest: prefix_length_le)

lemma toplevel_scope_ok_mono: "toplevel_scope_ok bs s \<Longrightarrow> prefix bs bs' \<Longrightarrow> toplevel_scope_ok bs' s"
  by (auto simp: toplevel_scope_ok_def prefix_nth)

lemma names_ok_mono: "names_ok bs s \<Longrightarrow> \<forall>i \<in> ran (sc_table s). unat i < length bs \<Longrightarrow> prefix bs bs' \<Longrightarrow> names_ok bs' s"
  by (auto simp: names_ok_def prefix_nth ranI)

lemma visible_bound:
  assumes "analysis_ok st" "s \<in> set (an_scopes st)" shows "\<forall>i \<in> ran (sc_table s). unat i < length (an_bindings st)"
proof -
  obtain k where k: "k < length (an_scopes st)" "s = an_scopes st ! k" using assms(2) by (metis in_set_conv_nth)
  then show ?thesis using analysis_ok_scopes [OF assms(1) k(1)]
    by (auto simp: lambda_scope_ok_def param_ok_def toplevel_scope_ok_def)
qed

lemma scopes_names_mono:
  "analysis_ok st \<Longrightarrow> prefix (an_bindings st) bs' \<Longrightarrow> list_all (names_ok bs') (an_scopes st)"
  unfolding list_all_iff analysis_ok_def [of st] using names_ok_mono visible_bound [of st]
  by (metis analysis_ok_def list_all_iff)

lemma unat_Suc16: "unat (x :: u16) < 65535 \<Longrightarrow> unat (x + 1) = unat x + 1"
  by (simp add: unat_word_ariths)

definition formals_inv :: "analysis \<Rightarrow> lambda_info \<Rightarrow> analysis \<Rightarrow> bool" where
  "formals_inv st0 l st \<longleftrightarrow> (\<exists>s. an_scopes st = s # an_scopes st0 \<and> sc_boundary s
     \<and> sc_lambda s = Some \<lparr> cp_upvals = [], cp_sources = [] \<rparr> \<and> prefix (an_bindings st0) (an_bindings st)
     \<and> (analysis_ok st0 \<longrightarrow> in_range st \<longrightarrow> analysis_ok st \<and> ran (sc_table s) \<subseteq> formals_of l
         \<and> (\<forall>i \<in> formals_of l. param_ok (an_bindings st) (sc_next_slot s) i)))"

lemma formals_inv_init: "formals_inv st new_lambda (st\<lparr> an_scopes := lambda_scope # an_scopes st \<rparr>)"
  by (auto simp: formals_inv_def lambda_scope_def formals_of_def new_lambda_def analysis_ok_def lambda_scope_ok_def names_ok_def)

lemma add_formal_ok:
  assumes ok: "analysis_ok st" and s: "an_scopes st = s # ss" "ss \<noteq> []" "sc_boundary s"
    and h: "add_binding n Param_binding sp mut st = Inr (i, st')" and r: "in_range st'"
  shows "analysis_ok st' \<and> (\<exists>s'. an_scopes st' = s' # ss \<and> ran (sc_table s') \<subseteq> insert i (ran (sc_table s))
    \<and> param_ok (an_bindings st') (sc_next_slot s') i \<and> sc_next_slot s \<le> sc_next_slot s')"
proof -
  let ?i = "next_binding_id st"
  let ?b = "\<lparr> b_kind = Param_binding, b_name = n, mutable_flag = mut, b_slot = sc_next_slot s, def_span = sp, b_origin = None \<rparr>"
  let ?bs = "an_bindings st @ [?b]"
  let ?s = "s\<lparr> sc_table := (sc_table s)(n \<mapsto> ?i), sc_next_slot := sc_next_slot s + 1 \<rparr>"
  have st': "i = ?i" "an_scopes st' = ?s # ss" "an_bindings st' = ?bs" "next_binding_id st' = ?i + 1"
    using h s by (auto simp: add_binding_def bind_name_def take_slot_def frame_index_def Let_def)
  have p: "prefix (an_bindings st) ?bs" by simp
  have l: "length (an_bindings st) < 65535" using r st' by (simp add: in_range_def)
  have ui: "unat ?i = length (an_bindings st)" using ok l by (simp add: analysis_ok_def unat_of_nat)
  have ls: "lambda_scope_ok (an_bindings st) s" using ok s by (simp add: analysis_ok_def)
  then have n: "unat (sc_next_slot s + 1) = unat (sc_next_slot s) + 1" using l by (intro unat_Suc16) (simp add: lambda_scope_ok_def)
  then have lt: "sc_next_slot s < sc_next_slot s + 1" by (simp add: word_less_nat_alt)
  have pi: "param_ok ?bs (sc_next_slot s + 1) ?i" using ui lt by (simp add: param_ok_def)
  have ran: "ran (sc_table ?s) \<subseteq> insert ?i (ran (sc_table s))" by (auto simp: ran_def)
  have "\<forall>j \<in> ran (sc_table s). param_ok ?bs (sc_next_slot s + 1) j"
    using ls lt by (auto simp: lambda_scope_ok_def intro: param_ok_mono)
  then have "lambda_scope_ok ?bs ?s" using ls n pi ran by (auto simp: lambda_scope_ok_def)
  moreover have "names_ok ?bs s" using scopes_names_mono [OF ok p] s by simp
  then have "names_ok ?bs ?s" using ui by (simp add: names_ok_def)
  moreover have "captures_ok ?bs (?s # ss)" using captures_ok_mono [of "an_bindings st" "s # ss" ?bs] ok s
    by (simp add: analysis_ok_def)
  moreover have "toplevel_scope_ok ?bs (last ss)" "list_all (lambda_scope_ok ?bs) (butlast ss)" "list_all (names_ok ?bs) ss"
    using ok s scopes_names_mono [OF ok p] toplevel_scope_ok_mono [OF _ p] lambda_scope_ok_mono [OF _ p]
    by (auto simp: analysis_ok_def list_all_iff)
  moreover have "next_binding_id st' = of_nat (length ?bs)" using ok st' by (simp add: analysis_ok_def)
  ultimately have "analysis_ok st'" using st' s(2) by (simp add: analysis_ok_def)
  then show ?thesis using st' pi ran lt by auto
qed

lemma formals_inv_add:
  assumes i: "formals_inv st0 l st" and h: "add_binding n Param_binding sp mut st = Inr (i, st')"
    and l: "formals_of l' = insert i (formals_of l)"
  shows "formals_inv st0 l' st'"
proof -
  obtain s where s: "an_scopes st = s # an_scopes st0" "sc_boundary s" "sc_lambda s = Some \<lparr> cp_upvals = [], cp_sources = [] \<rparr>"
    "prefix (an_bindings st0) (an_bindings st)"
    "analysis_ok st0 \<Longrightarrow> in_range st \<Longrightarrow> analysis_ok st \<and> ran (sc_table s) \<subseteq> formals_of l
      \<and> (\<forall>i \<in> formals_of l. param_ok (an_bindings st) (sc_next_slot s) i)"
    using i by (auto simp: formals_inv_def)
  have p: "prefix (an_bindings st) (an_bindings st')" using h by (auto simp: add_binding_def Let_def split: prod.splits)
  obtain s' where s': "an_scopes st' = s' # an_scopes st0" "sc_boundary s'" "sc_lambda s' = Some \<lparr> cp_upvals = [], cp_sources = [] \<rparr>"
    using h s(1-3) by (auto simp: add_binding_def bind_name_def take_slot_def frame_index_def Let_def)
  have "analysis_ok st' \<and> ran (sc_table s') \<subseteq> formals_of l' \<and> (\<forall>i \<in> formals_of l'. param_ok (an_bindings st') (sc_next_slot s') i)"
    if a: "analysis_ok st0" "in_range st'"
  proof -
    have r: "in_range st" using a(2) prefix_length_le [OF p] by (simp add: in_range_def)
    note b = s(5) [OF a(1) r]
    have "an_scopes st0 \<noteq> []" using a(1) by (simp add: analysis_ok_def)
    with add_formal_ok [OF _ s(1) _ s(2) h a(2)] b s'(1) l show ?thesis by (auto intro: param_ok_mono [OF _ p])
  qed
  then show ?thesis using s' s(4) p unfolding formals_inv_def by (auto intro: prefix_order.trans)
qed

lemma add_params_inv: "add_params es l st = Inr (l', st') \<Longrightarrow> formals_inv st0 l st \<Longrightarrow> formals_inv st0 l' st'"
proof (induction es arbitrary: l st)
  case (Cons e es)
  then obtain sp n where e: "as_symbol e = Some (sp, n)" by (auto simp: sem_fail_def split: option.splits)
  obtain l1 st1 where m: "add_param n sp l st = Inr (l1, st1)" "add_params es l1 st1 = Inr (l', st')"
    using Cons.prems(1) e by (auto simp: sem_bind_Inr)
  have "formals_inv st0 l1 st1" using m(1) Cons.prems(2)
    by (auto simp: add_param_def sem_bind_Inr sem_ret_def formals_of_def intro: formals_inv_add)
  then show ?case using Cons.IH m(2) by blast
qed (simp add: sem_ret_def)

lemma add_rest_inv: "add_rest n sp l st = Inr (l', st') \<Longrightarrow> rest_param l = None \<Longrightarrow> formals_inv st0 l st \<Longrightarrow> formals_inv st0 l' st'"
  by (auto simp: add_rest_def sem_bind_Inr sem_ret_def formals_of_def intro: formals_inv_add)

lemma add_params_rest: "add_params es l st = Inr (l', st') \<Longrightarrow> rest_param l' = rest_param l"
  by (induction es arbitrary: l st) (auto simp: sem_bind_Inr sem_ret_def sem_fail_def add_param_def split: option.splits)

lemma parse_formals_inv:
  assumes "parse_formals e l st = Inr (l', st')" "formals_inv st0 l st" "rest_param l = None"
  shows "formals_inv st0 l' st'"
proof (cases e)
  case (Nil_sx sp)
  have "formals_of (l\<lparr> lam_arity := x \<rparr>) = formals_of l" for x by (simp add: formals_of_def)
  then show ?thesis using assms Nil_sx by (auto simp: parse_formals_def sem_ret_def formals_inv_def)
next
  case (List_sx sp es t)
  obtain l1 st1 where m: "add_params es l st = Inr (l1, st1)" using assms List_sx by (auto simp: parse_formals_def sem_bind_Inr)
  then show ?thesis using assms List_sx add_params_inv [OF m assms(2)] add_params_rest [OF m] add_rest_inv
    by (auto simp: parse_formals_def sem_bind_Inr sem_ret_def sem_fail_def split: option.splits)
qed (use assms add_rest_inv in \<open>auto simp: parse_formals_def sem_fail_def\<close>)

section \<open>Forms\<close>

text \<open>A lambda is closed over the bindings its body refers to.\<close>

lemma close_lambda_eq:
  assumes "an_scopes st = s # ss" "sc_lambda s = Some c"
  shows "close_lambda sp l body st = Inr (Lambda_n (new_info sp)
      (l\<lparr> lam_upvals := cp_upvals c, upval_sources := cp_sources c, lam_stack_size := ucast (sc_next_slot s) + 32 \<rparr>)
      (wrap_body body sp), st\<lparr> an_scopes := ss \<rparr>)"
  using assms by (simp add: close_lambda_def Let_def)

lemma slot_wide: "unat (ucast (i :: u16) :: u32) = unat i"
  by transfer (simp add: take_bit_take_bit min_def)

lemma frame_slot_bound: "x < (n :: u16) \<Longrightarrow> ucast x < (ucast n + 32 :: u32)"
proof -
  assume "x < n"
  then have x: "unat x < unat n" by (simp add: word_less_nat_alt)
  have "unat n < 65536" using unsigned_less [of n] by simp
  then have "unat (ucast n + 32 :: u32) = unat n + 32" by (simp add: unat_word_ariths slot_wide)
  then show ?thesis using x by (simp add: word_less_nat_alt slot_wide)
qed

lemma wrap_body_scoped: "list_all (scoped bs \<Gamma>) ns \<Longrightarrow> scoped bs \<Gamma> (wrap_body ns sp)"
  by (auto simp: wrap_body_def split: list.splits)

lemma analysis_ok_pop:
  assumes "analysis_ok st" "an_scopes st = s # ss" "ss \<noteq> []" shows "analysis_ok (st\<lparr> an_scopes := ss \<rparr>)"
  using assms by (simp add: analysis_ok_def)

lemma lambda_ok_closed:
  assumes ok: "analysis_ok st" and s: "an_scopes st = s # ss" "ss \<noteq> []" "sc_lambda s = Some c"
    and f: "ran (sc_table s) \<subseteq> formals_of l" "\<forall>i \<in> formals_of l. param_ok (an_bindings st) (sc_next_slot s) i"
    and b: "list_all (scoped (an_bindings st) (scope_context (an_scopes st))) ns"
  shows "scoped (an_bindings st) (scope_context ss) (Lambda_n nt
      (l\<lparr> lam_upvals := cp_upvals c, upval_sources := cp_sources c, lam_stack_size := ucast (sc_next_slot s) + 32 \<rparr>)
      (wrap_body ns sp))" (is "scoped ?bs ?\<Gamma> (Lambda_n nt ?l ?b)")
proof -
  have fo: "formals_of ?l = formals_of l" by (simp add: formals_of_def)
  have "distinct (cp_upvals c) \<and> list_all2 (refers_to ?bs ?\<Gamma>) (cp_sources c) (cp_upvals c)"
    using ok s by (simp add: analysis_ok_def)
  then have "lambda_scoped ?bs ?\<Gamma> ?l" using f(2) fo by (auto simp: lambda_scoped_def param_ok_def frame_slot_bound)
  moreover have "ctx_ext (scope_context (an_scopes st)) ((formals_of ?l, lam_upvals ?l) # ?\<Gamma>)"
    using s f(1) fo by (simp add: scope_context_cons ctx_ext_cons scope_captures_def)
  then have "scoped ?bs ((formals_of ?l, lam_upvals ?l) # ?\<Gamma>) ?b"
    using scoped_mono [OF wrap_body_scoped [OF b]] by simp
  ultimately show ?thesis by simp
qed

lemma sem_ok_lambda:
  assumes ev: "\<And>e. e \<in> set es \<Longrightarrow> sem_ok (ev e) scoped_node" shows "sem_ok (handle_lambda ev sp es) scoped_node"
proof (cases "length es < 3")
  case False
  have body: "sem_ok (analyze_each ev (drop 2 es)) (scoped_nodes (length (drop 2 es)))"
    using ev by (intro sem_ok_each) (auto dest: in_set_dropD)
  have *: "ext_state st st' \<and> (analysis_ok st \<longrightarrow> in_range st' \<longrightarrow> analysis_ok st' \<and> scoped (an_bindings st') (scope_context (an_scopes st')) n)"
    if h: "handle_lambda ev sp es st = Inr (n, st')" for st n st'
  proof -
    obtain l st2 ns st3 where p: "parse_formals (es ! 1) new_lambda (st\<lparr> an_scopes := lambda_scope # an_scopes st \<rparr>) = Inr (l, st2)"
      and m: "analyze_each ev (drop 2 es) st2 = Inr (ns, st3)" and c: "close_lambda sp l ns st3 = Inr (n, st')"
      using h False by (auto simp: handle_lambda_def sem_bind_Inr)
    have "formals_inv st l st2" by (rule parse_formals_inv [OF p formals_inv_init]) (simp add: new_lambda_def)
    then obtain s where s: "an_scopes st2 = s # an_scopes st" "sc_lambda s \<noteq> None" "prefix (an_bindings st) (an_bindings st2)"
      and f: "analysis_ok st \<Longrightarrow> in_range st2 \<Longrightarrow> analysis_ok st2 \<and> ran (sc_table s) \<subseteq> formals_of l
        \<and> (\<forall>i \<in> formals_of l. param_ok (an_bindings st2) (sc_next_slot s) i)"
      by (auto simp: formals_inv_def)
    have e: "ext_state st2 st3" using sem_okD [OF body m] by blast
    then obtain s' ss' where s': "an_scopes st3 = s' # ss'" "ext_scope s s'" "list_all2 ext_scope (an_scopes st) ss'"
      using s(1) by (auto simp: ext_state_def list_all2_Cons1)
    obtain k where k: "sc_lambda s' = Some k" using s' s(2) by (auto simp: ext_scope_def option_rel_Some1)
    note cl = c [unfolded close_lambda_eq [OF s'(1) k]]
    have st': "an_bindings st' = an_bindings st3" "an_scopes st' = ss'" using cl by auto
    have x: "ext_state st st'" using s(3) e s'(3) st' unfolding ext_state_def by (metis prefix_order.trans)
    moreover have "analysis_ok st' \<and> scoped (an_bindings st') (scope_context (an_scopes st')) n"
      if a: "analysis_ok st" "in_range st'"
    proof -
      have r: "in_range st3" "in_range st2" using a(2) st' in_range_before [OF e] by (simp_all add: in_range_def)
      note f2 = f [OF a(1) r(2)]
      have g: "analysis_ok st3" "list_all (scoped (an_bindings st3) (scope_context (an_scopes st3))) ns"
        using sem_okD [OF body m] f2 r(1) by blast+
      have nn: "ss' \<noteq> []" using a(1) s'(3) by (auto simp: analysis_ok_def)
      have t: "ran (sc_table s') \<subseteq> formals_of l" "\<forall>i \<in> formals_of l. param_ok (an_bindings st3) (sc_next_slot s') i"
        using f2 s'(2) e by (auto simp: ext_scope_def ext_state_def intro: param_ok_mono)
      show ?thesis using lambda_ok_closed [OF g(1) s'(1) nn k t g(2)] analysis_ok_pop [OF g(1) s'(1) nn] cl by auto
    qed
    ultimately show ?thesis by blast
  qed
  then show ?thesis by (intro sem_okI) blast+
qed (simp add: handle_lambda_def sem_ok_fail)

lemma sem_ok_set:
  assumes ev: "\<And>e. e \<in> set es \<Longrightarrow> sem_ok (ev e) scoped_node" shows "sem_ok (handle_set ev sp es) scoped_node"
proof (cases "length es = 3 \<and> as_symbol (es ! 1) \<noteq> None")
  case True
  then obtain tsp name where t: "as_symbol (es ! 1) = Some (tsp, name)" by auto
  let ?check = "\<lambda>(a, i) st. let b = an_bindings st ! unat i in
            if \<not> mutable_flag b
            then sem_fail (if b_kind b = Import_binding then SetOnImported else ImmutableAssignment) tsp
              (''Cannot assign to immutable '' @ (if b_kind b = Import_binding then ''import'' else ''variable'') @ '': '' @ name) st
            else sem_bind (analyze_each ev [es ! 2]) (\<lambda>ns. sem_ret (Set_n (new_info sp) a (ns ! 0))) st"
  have "sem_ok (analyze_each ev [es ! 2]) (scoped_nodes (length [es ! 2]))" using True ev by (intro sem_ok_each) auto
  then have v: "sem_ok (sem_bind (analyze_each ev [es ! 2]) (\<lambda>ns. sem_ret (Set_n (new_info sp) a (ns ! 0))))
      (\<lambda>y bs \<Gamma>. refers_to bs \<Gamma> a i \<longrightarrow> scoped bs \<Gamma> y)" for a i
    by (rule sem_ok_bind [OF _ stable_nodes]) (auto intro!: sem_ok_ret simp: list_all_length)
  have "sem_ok (?check (a, i)) (\<lambda>y bs \<Gamma>. refers_to bs \<Gamma> a i \<longrightarrow> scoped bs \<Gamma> y)" for a i
    unfolding prod.case Let_def sem_ok_def using v [of a i, unfolded sem_ok_def] by (simp add: sem_fail_def del: analyze_each.simps)
  then have "sem_ok (sem_bind (lookup_name name tsp) ?check) scoped_node"
    by (intro sem_ok_bind [OF sem_ok_lookup stable_address]) auto
  then show ?thesis unfolding handle_set_def t option.case prod.case using True by (simp only: if_not_P simp_thms)
qed (auto simp: handle_set_def sem_ok_fail split: option.splits)

lemma sem_ok_form:
  assumes ev: "\<And>e. e \<in> set es \<Longrightarrow> sem_ok (ev e) scoped_node" and fs: "set fs \<subseteq> set es"
    and mk: "\<And>ns bs \<Gamma>. list_all (scoped bs \<Gamma>) ns \<Longrightarrow> length ns = length fs \<Longrightarrow> scoped bs \<Gamma> (mk ns)"
  shows "sem_ok (sem_bind (analyze_each ev fs) (\<lambda>ns. sem_ret (mk ns))) scoped_node"
  using ev fs mk by (intro sem_ok_bind [OF sem_ok_each stable_nodes] sem_ok_ret) auto

lemma sem_ok_tagged:
  assumes "\<And>e. e \<in> set es \<Longrightarrow> sem_ok (ev e) scoped_node" "\<And>tg n bs \<Gamma>. scoped bs \<Gamma> n \<Longrightarrow> scoped bs \<Gamma> (mk tg n)"
  shows "sem_ok (tagged_form nm mk ev sp es) scoped_node"
proof -
  have "set [es ! (length es - 1)] \<subseteq> set es" if "es \<noteq> []" using that by simp
  then have "sem_ok (sem_bind (analyze_each ev [es ! (length es - 1)]) (\<lambda>ns. sem_ret (mk tg (ns ! 0)))) scoped_node" if "es \<noteq> []" for tg
    using that assms by (intro sem_ok_form) (auto simp: list_all_length)
  moreover have "es \<noteq> []" if "\<not> (length es < 2 \<or> length es > 3)" using that by auto
  ultimately show ?thesis unfolding tagged_form_def Let_def
    by (cases "length es < 2 \<or> length es > 3") (auto simp: sem_ok_fail simp del: analyze_each.simps)
qed

lemma sem_ok_args:
  assumes "\<And>e. e \<in> set es \<Longrightarrow> sem_ok (ev e) scoped_node"
    and "\<And>ns bs \<Gamma>. list_all (scoped bs \<Gamma>) ns \<Longrightarrow> length ns = length es - 1 \<Longrightarrow> scoped bs \<Gamma> (mk ns)"
  shows "sem_ok (sem_bind (analyze_each ev (drop (Suc 0) es)) (\<lambda>ns. sem_ret (mk ns))) scoped_node"
  by (rule sem_ok_form [where ev = ev and es = es, OF assms(1)]) (auto dest: in_set_dropD intro!: assms(2))

lemma sem_ok_n_args:
  assumes "\<And>e. e \<in> set es \<Longrightarrow> sem_ok (ev e) scoped_node"
    and "\<And>ns bs \<Gamma>. list_all (scoped bs \<Gamma>) ns \<Longrightarrow> length ns = k \<Longrightarrow> scoped bs \<Gamma> (mk ns)"
  shows "sem_ok (sem_bind (analyze_n_args ev k nm sp es) (\<lambda>ns. sem_ret (mk ns))) scoped_node"
proof (cases "length es = k + 1")
  case True
  then show ?thesis using sem_ok_args [where ev = ev and es = es and mk = mk, OF assms(1)] assms(2) by (simp add: analyze_n_args_def)
next
  case False
  then show ?thesis by (simp add: analyze_n_args_def sem_ok_def sem_bind_def sem_fail_def)
qed

lemma sem_ok_unary:
  "(\<And>e. e \<in> set es \<Longrightarrow> sem_ok (ev e) scoped_node) \<Longrightarrow> (\<And>n bs \<Gamma>. scoped bs \<Gamma> n \<Longrightarrow> scoped bs \<Gamma> (mk (new_info sp) n)) \<Longrightarrow>
    sem_ok (unary_form nm mk ev sp es) scoped_node"
  unfolding unary_form_def by (auto simp: sem_ok_fail list_all_length intro!: sem_ok_args)

lemma sem_ok_handler:
  assumes h: "(name, h) \<in> set get_form_handlers" and ev: "\<And>e. e \<in> set es \<Longrightarrow> sem_ok (ev e) scoped_node"
  shows "sem_ok (h ev sp es) scoped_node"
proof -
  have "sem_ok (handle_apply ev sp es) scoped_node"
  proof (cases "length es < 3")
    case False
    then have "scoped bs \<Gamma> (Apply_n (new_info sp) (hd ns) (tl ns))" if "list_all (scoped bs \<Gamma>) ns" "length ns = length es - 1" for ns bs \<Gamma>
      using that by (cases ns) auto
    then show ?thesis using False by (auto simp: handle_apply_def intro!: sem_ok_args ev)
  qed (simp add: handle_apply_def sem_ok_fail)
  moreover have "sem_ok (handle_if ev sp es) scoped_node" "sem_ok (handle_begin ev sp es) scoped_node"
      "sem_ok (handle_values ev sp es) scoped_node" "sem_ok (handle_unify ev sp es) scoped_node"
    unfolding handle_if_def handle_begin_def handle_values_def handle_unify_def
    by (auto simp: sem_ok_fail list_all_length intro!: sem_ok_args ev)
  moreover have "sem_ok (handle_quote ev sp es) scoped_node" "sem_ok (handle_logic_var ev sp es) scoped_node"
      "sem_ok (handle_trail_mark ev sp es) scoped_node"
    unfolding handle_quote_def handle_logic_var_def handle_trail_mark_def by (auto simp: sem_ok_fail intro!: sem_ok_ret)
  moreover have "sem_ok (handle_dynamic_wind ev sp es) scoped_node" "sem_ok (handle_call_with_values ev sp es) scoped_node"
      "sem_ok (handle_call_cc ev sp es) scoped_node"
    unfolding handle_dynamic_wind_def handle_call_with_values_def handle_call_cc_def
    by (auto simp: list_all_length intro!: sem_ok_n_args ev)
  moreover have "sem_ok (handle_raise ev sp es) scoped_node" "sem_ok (handle_guard ev sp es) scoped_node"
    unfolding handle_raise_def handle_guard_def by (auto intro!: sem_ok_tagged ev)
  moreover note sem_ok_set [where ev = ev and es = es and sp = sp, OF ev]
    sem_ok_lambda [where ev = ev and es = es and sp = sp, OF ev]
    sem_ok_unary [where ev = ev and es = es and sp = sp, OF ev]
  ultimately show ?thesis using h by (auto simp: get_form_handlers_def)
qed

lemma eval_captures:
  "ext_state st (capture_eval_quoted_lexicals sp es st) \<and>
    (analysis_ok st \<longrightarrow> in_range (capture_eval_quoted_lexicals sp es st) \<longrightarrow> analysis_ok (capture_eval_quoted_lexicals sp es st))"
proof -
  let ?f = "\<lambda>n st. case lookup_name n sp st of Inl _ \<Rightarrow> st | Inr (_, st') \<Rightarrow> st'"
  have step: "ext_state st (?f n st) \<and> (analysis_ok st \<longrightarrow> in_range (?f n st) \<longrightarrow> analysis_ok (?f n st))" for n st
    using sem_okD [OF sem_ok_lookup, of n sp st] by (auto split: sum.splits)
  have "ext_state st (fold ?f ns st) \<and> (analysis_ok st \<longrightarrow> in_range (fold ?f ns st) \<longrightarrow> analysis_ok (fold ?f ns st))" for ns
  proof (induction ns arbitrary: st)
    case (Cons n ns)
    have t: "ext_state (?f n st) (fold ?f ns (?f n st))"
      "analysis_ok (?f n st) \<longrightarrow> in_range (fold ?f ns (?f n st)) \<longrightarrow> analysis_ok (fold ?f ns (?f n st))"
      using Cons.IH [of "?f n st"] by blast+
    show ?case unfolding fold_simps o_apply
      using step [of st n] t in_range_before [OF t(1)] ext_state_trans [OF _ t(1)] by blast
  qed simp
  then show ?thesis by (simp add: capture_eval_quoted_lexicals_def split: option.splits)
qed

lemma sem_ok_call:
  assumes "\<And>e. e \<in> set es \<Longrightarrow> sem_ok (ev e) scoped_node" "es \<noteq> []"
  shows "sem_ok (analyze_call ev sp es) scoped_node"
  unfolding analyze_call_def
proof (rule sem_ok_form [where ev = ev and es = es, OF assms(1)])
  fix ns bs \<Gamma> assume "list_all (scoped bs \<Gamma>) ns" "length ns = length es"
  then show "scoped bs \<Gamma> (Call_n (new_info sp) (hd ns) (tl ns))" using assms(2) by (cases ns) auto
qed simp_all

lemma sem_ok_list:
  assumes ev: "\<And>e. e \<in> set es \<Longrightarrow> sem_ok (ev e) scoped_node" shows "sem_ok (analyze_list ev sp es) scoped_node"
proof (rule sem_okI)
  fix st n st' assume h: "analyze_list ev sp es st = Inr (n, st')"
  have "\<exists>st1. ext_state st st1 \<and> (analysis_ok st \<longrightarrow> in_range st1 \<longrightarrow> analysis_ok st1) \<and>
    (\<exists>m. m st1 = Inr (n, st') \<and> sem_ok m scoped_node)"
  proof (cases "es = []")
    case True
    then have "sem_ret (Const_n (new_info sp) Void_lit) st = Inr (n, st')" using h by (simp add: analyze_list_def sem_ret_def)
    moreover have "sem_ok (sem_ret (Const_n (new_info sp) Void_lit)) scoped_node" by (rule sem_ok_ret) simp
    ultimately show ?thesis by (meson ext_state_refl)
  next
    case False
    have call: "sem_ok (analyze_call ev sp es) scoped_node" by (rule sem_ok_call [OF ev False])
    show ?thesis
    proof (cases "as_symbol (es ! 0)")
      case None
      then have "analyze_call ev sp es st = Inr (n, st')" using h False by (simp add: analyze_list_def)
      then show ?thesis using call by (meson ext_state_refl)
    next
      case (Some x)
      show ?thesis
      proof (cases "map_of get_form_handlers (snd x)")
        case None
        then have "analyze_call ev sp es (if snd x = ''eval'' then capture_eval_quoted_lexicals sp es st else st) = Inr (n, st')"
          using h Some False by (cases x) (simp add: analyze_list_def split del: if_split)
        then obtain st1 where st1: "st1 = st \<or> st1 = capture_eval_quoted_lexicals sp es st" "analyze_call ev sp es st1 = Inr (n, st')"
          by (cases "snd x = ''eval''") auto
        have "ext_state st st1 \<and> (analysis_ok st \<longrightarrow> in_range st1 \<longrightarrow> analysis_ok st1)"
          using st1(1) eval_captures [of st sp es] ext_state_refl by blast
        then show ?thesis using call st1(2) by blast
      next
        case k: (Some k)
        then have "k ev sp es st = Inr (n, st')" using h Some False by (simp add: analyze_list_def split: prod.splits)
        then show ?thesis using sem_ok_handler [where ev = ev and es = es and sp = sp, OF map_of_SomeD [OF k] ev] by (meson ext_state_refl)
      qed
    qed
  qed
  then obtain st1 m where s: "ext_state st st1" "analysis_ok st \<Longrightarrow> in_range st1 \<Longrightarrow> analysis_ok st1"
    and m: "m st1 = Inr (n, st')" "sem_ok m scoped_node" by blast
  note d = sem_okD [OF m(2,1)]
  show "ext_state st st'" using s(1) d ext_state_trans by blast
  show "analysis_ok st' \<and> scoped (an_bindings st') (scope_context (an_scopes st')) n" if "analysis_ok st" "in_range st'"
    using s(2) d that in_range_before by blast
qed

lemma make_const_scoped: "make_const e = Some n \<Longrightarrow> scoped bs \<Gamma> n"
  by (auto simp: make_const_def)

lemma size_elem: "e \<in> set es \<Longrightarrow> size e < size (List_sx sp es t)"
  by (induction es) auto

lemma sem_ok_analyze: "sem_ok (analyze e) scoped_node"
proof (induction e rule: measure_induct_rule [where f = size])
  case (less e)
  show ?case
  proof (cases "(\<exists>sp n. e = Symbol_sx sp n) \<or> (\<exists>sp es t. e = List_sx sp es t)")
    case True
    then consider sp n where "e = Symbol_sx sp n" | sp es t where "e = List_sx sp es t" by blast
    then show ?thesis
    proof cases
      case 1
      show ?thesis unfolding sem_ok_def 1 analyze.simps [of "Symbol_sx sp n"] sexpr.case
        using sem_ok_lookup [of n sp, unfolded sem_ok_def] by (fastforce split: sum.splits)
    next
      case 2
      have "sem_ok (analyze_list analyze sp es) scoped_node" by (rule sem_ok_list) (use less 2 size_elem in blast)
      then show ?thesis unfolding sem_ok_def 2 analyze.simps [of "List_sx sp es t"] sexpr.case
        by (auto split: option.splits intro: make_const_scoped)
    qed
  next
    case False
    then have "analyze e st = (case make_const e of Some n \<Rightarrow> Inr (n, st)
          | None \<Rightarrow> sem_fail InvalidFormShape (sx_span e) ''Unsupported expression type'' st)" for st
      by (cases e) (auto simp: analyze.simps)
    then show ?thesis by (auto simp: sem_ok_def sem_fail_def split: option.splits intro: make_const_scoped)
  qed
qed

section \<open>Modules\<close>

text \<open>A step at the top level only adds bindings and keeps the state well formed.\<close>

definition top_ok :: "'a sem \<Rightarrow> bool" where
  "top_ok m \<longleftrightarrow> (\<forall>st x st'. m st = Inr (x, st') \<longrightarrow> length (an_scopes st) = 1 \<longrightarrow>
     length (an_scopes st') = 1 \<and> prefix (an_bindings st) (an_bindings st')
     \<and> (analysis_ok st \<longrightarrow> in_range st' \<longrightarrow> analysis_ok st'))"

lemma top_okD: "top_ok m \<Longrightarrow> m st = Inr (x, st') \<Longrightarrow> length (an_scopes st) = 1 \<Longrightarrow>
    length (an_scopes st') = 1 \<and> prefix (an_bindings st) (an_bindings st') \<and> (analysis_ok st \<longrightarrow> in_range st' \<longrightarrow> analysis_ok st')"
  by (auto simp: top_ok_def)

lemma in_range_prefix: "prefix (an_bindings a) (an_bindings b) \<Longrightarrow> in_range b \<Longrightarrow> in_range a"
  by (auto simp: in_range_def dest: prefix_length_le)

lemma top_ok_bind: "top_ok m \<Longrightarrow> (\<And>x. top_ok (f x)) \<Longrightarrow> top_ok (sem_bind m f)"
  unfolding top_ok_def sem_bind_Inr by (metis in_range_prefix prefix_order.trans)

lemma top_ok_ret: "top_ok (sem_ret x)"
  by (simp add: top_ok_def sem_ret_def)

lemma top_ok_each: "(\<And>x. x \<in> set xs \<Longrightarrow> top_ok (f x)) \<Longrightarrow> top_ok (sem_each f xs)"
  by (induction xs) (auto intro: top_ok_ret top_ok_bind)

lemma top_ok_globals: "top_ok m \<Longrightarrow> m (st\<lparr> next_global := g \<rparr>) = Inr (x, st') \<Longrightarrow> length (an_scopes st) = 1 \<Longrightarrow>
    length (an_scopes st') = 1 \<and> prefix (an_bindings st) (an_bindings st')
    \<and> (analysis_ok st \<longrightarrow> in_range st' \<longrightarrow> analysis_ok (st'\<lparr> next_global := h \<rparr>))"
  using top_okD [of m "st\<lparr> next_global := g \<rparr>" x st'] by (simp add: analysis_ok_def)

lemma top_binding:
  assumes ok: "analysis_ok st" and s: "an_scopes st = [s]" and k: "is_toplevel_kind (b_kind b)" "b_name b = n"
    and st': "an_scopes st' = bind_name n (next_binding_id st) [s]" "an_bindings st' = an_bindings st @ [b]"
      "next_binding_id st' = next_binding_id st + 1" and r: "in_range st'"
  shows "analysis_ok st'"
proof -
  have p: "prefix (an_bindings st) (an_bindings st @ [b])" by simp
  have ui: "unat (next_binding_id st) = length (an_bindings st)" using ok r st'(2)
    by (simp add: analysis_ok_def in_range_def unat_of_nat)
  have "toplevel_scope_ok (an_bindings st @ [b]) s" using ok s toplevel_scope_ok_mono [OF _ p] by (simp add: analysis_ok_def)
  then have "toplevel_scope_ok (an_bindings st @ [b]) (s\<lparr> sc_table := (sc_table s)(n \<mapsto> next_binding_id st) \<rparr>)"
    using ui k by (auto simp: toplevel_scope_ok_def ran_def)
  moreover have "names_ok (an_bindings st @ [b]) s" using scopes_names_mono [OF ok p] s by simp
  then have "names_ok (an_bindings st @ [b]) (s\<lparr> sc_table := (sc_table s)(n \<mapsto> next_binding_id st) \<rparr>)"
    using ui k by (simp add: names_ok_def)
  moreover have "sc_lambda s = None" using ok s by (simp add: analysis_ok_def toplevel_scope_ok_def)
  ultimately show ?thesis using st' ok by (simp add: analysis_ok_def bind_name_def)
qed

lemma top_ok_add:
  assumes "\<And>st x st'. m st = Inr (x, st') \<Longrightarrow> \<exists>b. is_toplevel_kind (b_kind b) \<and> b_name b = n
    \<and> an_scopes st' = bind_name n (next_binding_id st) (an_scopes st) \<and> an_bindings st' = an_bindings st @ [b]
    \<and> next_binding_id st' = next_binding_id st + 1"
  shows "top_ok m"
  unfolding top_ok_def
proof (intro allI impI)
  fix st x st' assume h: "m st = Inr (x, st')" and l: "length (an_scopes st) = 1"
  obtain s where s: "an_scopes st = [s]" using l by (auto simp: length_Suc_conv)
  from assms [OF h] obtain b where b: "is_toplevel_kind (b_kind b)" "b_name b = n"
    "an_scopes st' = bind_name n (next_binding_id st) [s]" "an_bindings st' = an_bindings st @ [b]"
    "next_binding_id st' = next_binding_id st + 1" using s by auto
  then show "length (an_scopes st') = 1 \<and> prefix (an_bindings st) (an_bindings st') \<and> (analysis_ok st \<longrightarrow> in_range st' \<longrightarrow> analysis_ok st')"
    using top_binding [OF _ s b] by (simp add: bind_name_def)
qed

lemma top_ok_global: "top_ok (add_binding n Global_binding sp mut)"
  by (rule top_ok_add [of _ n]) (auto simp: add_binding_def Let_def is_toplevel_kind_def)

lemma top_ok_import_at: "top_ok (add_import_at_slot n orig sp g)"
  by (rule top_ok_add [of _ n]) (auto simp: add_import_at_slot_def Let_def is_toplevel_kind_def)

lemma top_ok_import: "top_ok (add_import n orig sp)"
  by (rule top_ok_add [of _ n]) (auto simp: add_import_def add_import_at_slot_def Let_def is_toplevel_kind_def)

lemma top_ok_wire: "top_ok (wire_import ext exps imp)"
  unfolding wire_import_def Let_def
  by (auto split: prod.splits option.splits intro!: top_ok_bind top_ok_ret top_ok_import top_ok_import_at)

lemma top_ok_declare: "top_ok (declare_global mt sp n)"
  unfolding declare_global_def by (intro top_ok_bind top_ok_ret top_ok_global)

lemma top_ok_seed: "top_ok (seed_builtins names)"
  unfolding top_ok_def
proof (intro allI impI)
  fix st x st' assume h: "seed_builtins names st = Inr (x, st')" and l: "length (an_scopes st) = 1"
  have t: "top_ok (sem_each (\<lambda>n. sem_bind (add_binding n Global_binding default_span False) (\<lambda>_. sem_ret ())) names)"
    by (intro top_ok_each top_ok_bind top_ok_ret top_ok_global)
  from h obtain y st1 where m: "sem_each (\<lambda>n. sem_bind (add_binding n Global_binding default_span False) (\<lambda>_. sem_ret ())) names
      (st\<lparr> next_global := 0 \<rparr>) = Inr (y, st1)" "st' = st1\<lparr> next_global := next_global st \<rparr>"
    by (auto simp: seed_builtins_def sem_bind_Inr)
  show "length (an_scopes st') = 1 \<and> prefix (an_bindings st) (an_bindings st') \<and> (analysis_ok st \<longrightarrow> in_range st' \<longrightarrow> analysis_ok st')"
    using top_ok_globals [OF t m(1) l] m(2) by (simp add: in_range_def)
qed

definition scoped_option :: "node option outcome_spec" where
  "scoped_option r bs \<Gamma> \<longleftrightarrow> (case r of Some n \<Rightarrow> scoped bs \<Gamma> n | None \<Rightarrow> True)"

lemma stable_option: "stable scoped_option"
  by (auto simp: stable_def scoped_option_def split: option.splits intro: scoped_mono)

lemma sem_ok_toplevel: "sem_ok (analyze_toplevel e) scoped_option"
proof -
  have other: "sem_ok (sem_bind (analyze e) (\<lambda>n. sem_ret (Some n))) scoped_option" for e
    by (rule sem_ok_bind [OF sem_ok_analyze stable_node]) (auto simp: scoped_option_def intro!: sem_ok_ret)
  have set: "sem_ok (sem_bind (analyze e) (\<lambda>n. sem_bind (lookup_name v vsp) (\<lambda>(a, _). sem_ret (Some (Set_n (new_info sp) a n)))))
      scoped_option" for e v vsp sp
    by (rule sem_ok_bind [OF sem_ok_analyze stable_node], rule sem_ok_bind [OF sem_ok_lookup stable_address])
       (auto simp: scoped_option_def intro!: sem_ok_ret split: prod.splits)
  show ?thesis unfolding analyze_toplevel_def Let_def
    by (auto split: option.splits list.splits simp: scoped_option_def [of None] simp del: One_nat_def intro!: other set sem_ok_ret)
qed

lemma sem_ok_forms: "sem_ok (analyze_forms es) (\<lambda>ns bs \<Gamma>. list_all (scoped bs \<Gamma>) ns)"
proof (induction es)
  case (Cons e es)
  have s: "stable (\<lambda>ns bs \<Gamma>. list_all (scoped bs \<Gamma>) ns)" by (auto simp: stable_def list_all_iff intro: scoped_mono)
  show ?case unfolding analyze_forms.simps
    by (rule sem_ok_bind [OF sem_ok_toplevel stable_option], rule sem_ok_bind [OF Cons s])
       (auto simp: scoped_option_def intro!: sem_ok_ret split: option.splits)
qed (auto intro: sem_ok_ret)

lemma scoped_visit:
  assumes post: "\<And>\<Gamma> n c. scoped bs \<Gamma> n \<Longrightarrow> scoped bs \<Gamma> (post n c)"
  shows "scoped bs \<Gamma> n \<Longrightarrow> scoped bs \<Gamma> (visit pre post ctx n)"
  by (induction n arbitrary: \<Gamma> ctx)
     (auto intro!: post simp: list_all_iff visit_body_map, metis in_set_butlastD)

lemma mark_tail_scoped: "scoped bs \<Gamma> n \<Longrightarrow> scoped bs \<Gamma> (mark_tail ctx n)"
  unfolding mark_tail_def by (rule scoped_visit)

text \<open>What the analysis of a module promises the stages after it.\<close>

definition module_scoped :: "module_semantics \<Rightarrow> bool" where
  "module_scoped m \<longleftrightarrow> list_all (scoped (bindings m) []) (toplevel_inits m)
     \<and> (\<forall>(x, i) \<in> set (sem_exports m). unat i < length (bindings m)
          \<and> b_name (bindings m ! unat i) = x \<and> is_toplevel_kind (b_kind (bindings m ! unat i)))"

lemma collect_exports_from: "collect_exports tab sp xs acc = Inr exps \<Longrightarrow> (x, i) \<in> set exps \<Longrightarrow> (x, i) \<in> set acc \<or> tab x = Some i"
proof (induction xs arbitrary: acc)
  case (Cons y ys)
  then obtain k where k: "tab y = Some k" by (auto split: option.splits)
  then have "(x, i) \<in> set (emplace_new y k acc) \<or> tab x = Some i" using Cons by simp
  then show ?case using k by (auto simp: emplace_new_def split: if_splits)
qed simp

lemma analyze_module_scoped:
  assumes h: "analyze_module builtins ext sp mt body name ma = Inr ma'"
  shows "\<exists>m. ma_out ma' = ma_out ma @ [m] \<and> (length (bindings m) < 65536 \<longrightarrow> module_scoped m)"
proof -
  let ?st0 = "\<lparr> an_scopes = [toplevel_scope], an_bindings = [], next_binding_id = 0, next_global = ma_next_global ma \<rparr>"
  let ?top = "sem_bind (seed_builtins builtins) (\<lambda>_.
           sem_bind (sem_each (wire_import ext (ma_exports ma)) (import_origins mt)) (\<lambda>_.
           sem_bind (sem_each (declare_global mt sp) (defined mt)) (\<lambda>_. analyze_forms body))) ?st0"
  obtain inits st where r: "?top = Inr (inits, st)" using h by (auto simp: analyze_module_def Let_def split: sum.splits)
  let ?globals = "sem_bind (seed_builtins builtins) (\<lambda>_.
           sem_bind (sem_each (wire_import ext (ma_exports ma)) (import_origins mt)) (\<lambda>_. sem_each (declare_global mt sp) (defined mt)))"
  have "top_ok ?globals" by (intro top_ok_bind top_ok_seed top_ok_each top_ok_wire top_ok_declare)
  moreover obtain x st1 where g: "?globals ?st0 = Inr (x, st1)" and f: "analyze_forms body st1 = Inr (inits, st)"
    using r unfolding sem_bind_Inr by blast
  ultimately have t: "length (an_scopes st1) = 1" "analysis_ok ?st0 \<longrightarrow> in_range st1 \<longrightarrow> analysis_ok st1"
    using top_okD [of ?globals ?st0 x st1] by simp_all
  have ok0: "analysis_ok ?st0" by (simp add: analysis_ok_def toplevel_scope_def toplevel_scope_ok_def names_ok_def)
  note fo = sem_okD [OF sem_ok_forms f]
  have l: "length (an_scopes st) = 1" using fo t(1) list_all2_lengthD unfolding ext_state_def by fastforce
  obtain s where s: "an_scopes st = [s]" using l by (auto simp: length_Suc_conv)
  obtain exps where e: "collect_exports (sc_table s) sp (exports mt) [] = Inr exps"
    using h r s by (auto simp: analyze_module_def Let_def split: sum.splits)
  let ?m = "\<lparr> sem_name = name, toplevel_inits = map (mark_tail False) inits, sem_exports = exps,
                bindings = an_bindings st, sem_stack_size = ucast (sc_next_slot s) + 32, total_globals = 0,
                main_func_slot = main_slot (sc_table s) (an_bindings st) \<rparr>"
  have m: "ma_out ma' = ma_out ma @ [?m]" using h r s e by (auto simp: analyze_module_def Let_def)
  have "module_scoped ?m" if "length (an_bindings st) < 65536"
  proof -
    have i: "in_range st" "in_range st1" using that fo in_range_before by (auto simp: in_range_def)
    then have ok: "analysis_ok st" "list_all (scoped (an_bindings st) []) inits"
      using fo t(2) ok0 s by (simp_all add: scope_context_def)
    have "list_all (scoped (an_bindings st) []) (map (mark_tail False) inits)"
      using ok(2) by (auto simp: list_all_iff intro: mark_tail_scoped)
    moreover have "unat j < length (an_bindings st) \<and> b_name (an_bindings st ! unat j) = n \<and> is_toplevel_kind (b_kind (an_bindings st ! unat j))"
      if "(n, j) \<in> set exps" for n j
    proof -
      have "sc_table s n = Some j" using collect_exports_from [OF e that] by simp
      then show ?thesis using ok(1) s by (auto simp: analysis_ok_def toplevel_scope_ok_def names_ok_def ranI)
    qed
    ultimately show ?thesis by (auto simp: module_scoped_def)
  qed
  then show ?thesis using m by auto
qed

lemma analyze_modules_scoped:
  "analyze_modules lk builtins ext fs ma = Inr ma' \<Longrightarrow> m \<in> set (ma_out ma') \<Longrightarrow> length (bindings m) < 65536 \<Longrightarrow>
    m \<in> set (ma_out ma) \<or> module_scoped m"
proof (induction fs arbitrary: ma)
  case (Cons f fs)
  show ?case
  proof (cases "module_form f")
    case None
    then show ?thesis using Cons by simp
  next
    case (Some nb)
    then obtain mt ma1 where a: "analyze_module builtins ext (sx_span f) mt (snd nb) (fst nb) ma = Inr ma1"
      "analyze_modules lk builtins ext fs ma1 = Inr ma'"
      using Cons.prems(1) by (auto split: prod.splits option.splits if_splits sum.splits)
    obtain m1 where "ma_out ma1 = ma_out ma @ [m1]" "length (bindings m1) < 65536 \<longrightarrow> module_scoped m1"
      using analyze_module_scoped [OF a(1)] by blast
    then show ?thesis using Cons.IH [OF a(2) Cons.prems(2,3)] Cons.prems(3) by auto
  qed
qed simp

lemma module_scoped_if_analyzed:
  assumes "analyze_all forms lk builtins ext = Inr ms" "m \<in> set ms" "length (bindings m) < 65536"
  shows "module_scoped m"
proof -
  obtain ma where ma: "analyze_modules lk builtins ext forms
      \<lparr> ma_out = [], ma_next_global = of_nat (length builtins), ma_exports = Map.empty \<rparr> = Inr ma"
      "ms = map (\<lambda>m. m\<lparr> total_globals := ma_next_global ma \<rparr>) (ma_out ma)"
    using assms(1) by (auto simp: analyze_all_def split: sum.splits)
  then obtain m' where m': "m' \<in> set (ma_out ma)" "m = m'\<lparr> total_globals := ma_next_global ma \<rparr>"
    using assms(2) by auto
  have "module_scoped m'" using analyze_modules_scoped [OF ma(1) m'(1)] assms(3) m'(2) by simp
  then show ?thesis using m'(2) by (simp add: module_scoped_def)
qed

text \<open>C3: Every module that the analyzer accepts is closed: each address in its code refers to a binding
  of the lambda frame, closure or global table around it, the captures of a lambda are distinct and
  denote outside the lambda the bindings that its closure holds inside, the frame has a slot for each
  formal, and an exported name refers to a global or imported binding of that name. Needed: a module
  has fewer than 2^16 bindings, the range of a slot.\<close>

theorem analyze_all_scoped:
  assumes "analyze_all forms lk builtins ext = Inr ms" "m \<in> set ms" "length (bindings m) < 65536"
  shows "module_scoped m"
  using assms by (rule module_scoped_if_analyzed)

text \<open>A module whose inner lambda captures the variable that it assigns.\<close>

definition doubler_forms :: "sexpr list" where
  "doubler_forms = [li [sy ''module'', sy ''m'',
     li [sy ''define'', sy ''doubler'', li [sy ''lambda'', li [sy ''x''],
       li [sy ''lambda'', li [], li [sy ''set!'', sy ''x'', li [sy ''+'', sy ''x'', sy ''x'']], sy ''x'']]],
     li [sy ''export'', sy ''doubler'']]]"

definition doubler_linker :: linker where
  "doubler_linker = new_linker\<lparr> modules := [(''m'', (new_module_table ''m'')\<lparr> defined := [''doubler''],
     exports := [''doubler''], mt_state := Linked \<rparr>)] \<rparr>"

definition doubler_modules :: "module_semantics list" where
  "doubler_modules = (case analyze_all doubler_forms doubler_linker [''+''] None of Inr ms \<Rightarrow> ms | Inl _ \<Rightarrow> [])"

lemma doubler_analyzed:
  "is_ok (analyze_all doubler_forms doubler_linker [''+''] None)"
  "map (\<lambda>m. length (bindings m)) doubler_modules = [3]"
  by code_simp+

lemma doubler_modules_analyzed: "analyze_all doubler_forms doubler_linker [''+''] None = Inr doubler_modules"
  using doubler_analyzed(1) by (auto simp: doubler_modules_def is_ok_iff)

theorem analyze_all_scoped_witness:
  "analyze_all doubler_forms doubler_linker [''+''] None = Inr doubler_modules
   \<and> length doubler_modules = 1 \<and> list_all module_scoped doubler_modules"
proof -
  note a = doubler_modules_analyzed
  obtain m where m: "doubler_modules = [m]" "length (bindings m) = 3"
    using doubler_analyzed(2) by (cases doubler_modules) auto
  have "m \<in> set doubler_modules" unfolding m(1) by simp
  then have "module_scoped m" by (rule analyze_all_scoped [OF a]) (simp add: m(2))
  then have "list_all module_scoped doubler_modules" "length doubler_modules = 1" unfolding m(1) by simp_all
  with a show ?thesis by simp
qed

text \<open>C4: In a well-formed analysis, a name that some enclosing scope binds is resolved to the innermost
  binding of that name: the lookup returns its id, an address that refers to it from the innermost
  lambda outwards through the captures that the lookup adds, and a state that is well formed and has
  the same bindings and tables.\<close>

theorem lookup_resolves:
  assumes "analysis_ok st" "in_range st" "k < length (an_scopes st)"
    and "sc_table (an_scopes st ! k) n = Some i" "\<forall>j < k. sc_table (an_scopes st ! j) n = None"
  shows "\<exists>a st'. lookup_name n sp st = Inr ((a, i), st') \<and> refers_to (an_bindings st') (scope_context (an_scopes st')) a i
    \<and> b_name (an_bindings st' ! unat i) = n \<and> an_bindings st' = an_bindings st
    \<and> map sc_table (an_scopes st') = map sc_table (an_scopes st) \<and> analysis_ok st'"
proof -
  have f: "find_scope n (an_scopes st) = Some k" by (rule find_scopeI) (use assms in auto)
  have "\<exists>a st'. lookup_name n sp st = Inr ((a, i), st') \<and> an_bindings st' = an_bindings st"
    using f assms(4) by (simp add: lookup_name_def Let_def split: prod.splits)
  then obtain a st' where l: "lookup_name n sp st = Inr ((a, i), st')" "an_bindings st' = an_bindings st" by blast
  have e: "list_all2 ext_scope (an_scopes st) (an_scopes st')" using lookup_ext_state [OF l(1)] by (simp add: ext_state_def)
  then have "map sc_table (an_scopes st') = map sc_table (an_scopes st)"
    by (induction rule: list_all2_induct) (auto simp: ext_scope_def)
  moreover have "b_name (an_bindings st ! unat i) = n"
    using assms(1,3,4) by (simp add: analysis_ok_def list_all_length names_ok_def)
  ultimately show ?thesis using l lookup_ok [OF assms(1,2) l(1)] by auto
qed

text \<open>Two lambdas inside the top level; the outer one binds \<open>x\<close>.\<close>

definition nested_state :: analysis where
  "nested_state = \<lparr> an_scopes = [lambda_scope, lambda_scope\<lparr> sc_table := [''x'' \<mapsto> 1], sc_next_slot := 1 \<rparr>,
       toplevel_scope\<lparr> sc_table := [''x'' \<mapsto> 0] \<rparr>],
     an_bindings = [\<lparr> b_kind = Global_binding, b_name = ''x'', mutable_flag = True, b_slot = 0, def_span = default_span, b_origin = None \<rparr>,
       \<lparr> b_kind = Param_binding, b_name = ''x'', mutable_flag = True, b_slot = 0, def_span = default_span, b_origin = None \<rparr>],
     next_binding_id = 2, next_global = 1 \<rparr>"

theorem lookup_resolves_witness:
  "\<exists>st'. lookup_name ''x'' default_span nested_state = Inr ((Upval 0, 1), st')
    \<and> refers_to (an_bindings st') (scope_context (an_scopes st')) (Upval 0) 1"
proof -
  have ok: "analysis_ok nested_state" "in_range nested_state"
    by (auto simp: nested_state_def analysis_ok_def in_range_def toplevel_scope_ok_def lambda_scope_ok_def param_ok_def
        names_ok_def lambda_scope_def toplevel_scope_def is_toplevel_kind_def ran_def split: if_splits)
  have "\<exists>a st'. lookup_name ''x'' default_span nested_state = Inr ((a, 1), st') \<and>
      refers_to (an_bindings st') (scope_context (an_scopes st')) a 1"
    using lookup_resolves [OF ok, of 1 "''x''" 1 default_span] by (auto simp: nested_state_def lambda_scope_def)
  moreover have "map_sum id fst (lookup_name ''x'' default_span nested_state) = Inr (Upval 0, 1)" by code_simp
  ultimately show ?thesis by auto
qed

end
