(* ===== verification/Emitter.thy ===== *)
theory Emitter
  imports CoreIR Serializer
begin

text \<open>
  The bytecode emitter, \<^verbatim>\<open>eta/core/src/eta/semantics/emitter.{h,cpp}\<close>: one definition per
  \<^verbatim>\<open>emit_*\<close> method. The state is the function under construction (\<^verbatim>\<open>Context\<close>) together with the
  emitter's members and the heap and intern table it allocates constants in; \<open>None\<close> stands for the
  exception that \<^verbatim>\<open>std::expected::value\<close> throws when a literal has no value. The entry of
  \<^verbatim>\<open>pending_self_upval_slots_\<close> for a lambda is read by the very next \<^verbatim>\<open>emit_lambda\<close>, so that one
  list of slots stands for the map.
\<close>

section \<open>State\<close>

record emit_env =
  ee_sem :: module_semantics
  ee_alloc :: alloc_env
  ee_fixnum_size :: nat
  ee_bytes_size :: nat

record active_lambda =
  entry_pc :: u32
  param_slots :: "u16 list"
  self_upval_slots :: "u16 list"
  al_has_rest :: bool

record emit_state =
  es_func :: bytecode_function
  string_cache :: "string \<rightharpoonup> u32"
  es_heap :: heap
  es_interns :: intern_table
  es_registry :: registry
  lambda_count :: u32
  active_lambdas :: "active_lambda list"
  pending_self :: "u16 list"

section \<open>Instructions and constants\<close>

definition mk_instr :: "opcode \<Rightarrow> u32 \<Rightarrow> instruction" where
  "mk_instr op a = \<lparr> opcode = op, arg = a \<rparr>"

definition emit_instr :: "opcode \<Rightarrow> u32 \<Rightarrow> span \<Rightarrow> emit_state \<Rightarrow> emit_state" where
  "emit_instr op a sp st = st\<lparr> es_func := (es_func st)
     \<lparr> fn_code := fn_code (es_func st) @ [mk_instr op a], source_map := source_map (es_func st) @ [sp] \<rparr> \<rparr>"

definition patch_arg :: "nat \<Rightarrow> u32 \<Rightarrow> emit_state \<Rightarrow> emit_state" where
  "patch_arg i a st = st\<lparr> es_func := (es_func st)
     \<lparr> fn_code := (fn_code (es_func st))[i := (fn_code (es_func st) ! i)\<lparr> arg := a \<rparr>] \<rparr> \<rparr>"

definition code_size :: "emit_state \<Rightarrow> nat" where
  "code_size st = length (fn_code (es_func st))"

definition add_const :: "lispval \<Rightarrow> emit_state \<Rightarrow> u32 \<times> emit_state" where
  "add_const v st = (of_nat (length (constants (es_func st))),
     st\<lparr> es_func := (es_func st)\<lparr> constants := constants (es_func st) @ [v] \<rparr> \<rparr>)"

definition emit_load_const :: "lispval \<Rightarrow> span \<Rightarrow> emit_state \<Rightarrow> u32 \<times> emit_state" where
  "emit_load_const v sp st = (let (i, st1) = add_const v st in (i, emit_instr LoadConst_op i sp st1))"

definition emit_address_load :: "address \<Rightarrow> span \<Rightarrow> emit_state \<Rightarrow> emit_state" where
  "emit_address_load a sp st = (case a of
       Local s \<Rightarrow> emit_instr LoadLocal_op (ucast s) sp st
     | Upval s \<Rightarrow> emit_instr LoadUpval_op (ucast s) sp st
     | Global g \<Rightarrow> emit_instr LoadGlobal_op g sp st
     | No_address \<Rightarrow> st)"

definition emit_address_store :: "address \<Rightarrow> span \<Rightarrow> emit_state \<Rightarrow> emit_state" where
  "emit_address_store a sp st = (case a of
       Local s \<Rightarrow> emit_instr StoreLocal_op (ucast s) sp st
     | Upval s \<Rightarrow> emit_instr StoreUpval_op (ucast s) sp st
     | Global g \<Rightarrow> emit_instr StoreGlobal_op g sp st
     | No_address \<Rightarrow> st)"

section \<open>Literals\<close>

definition em_alloc :: "(heap \<Rightarrow> (heap_error + object_id) \<times> heap) \<Rightarrow> emit_state \<Rightarrow> lispval option \<times> emit_state" where
  "em_alloc f st = (case f (es_heap st) of
       (Inr i, h') \<Rightarrow> (Some (box HeapObject_tag i), st\<lparr> es_heap := h' \<rparr>)
     | (Inl _, h') \<Rightarrow> (None, st\<lparr> es_heap := h' \<rparr>))"

definition em_intern :: "tag \<Rightarrow> string \<Rightarrow> emit_state \<Rightarrow> lispval option \<times> emit_state" where
  "em_intern tg s st = (case intern s (es_interns st) of
       (Inr i, t') \<Rightarrow> (Some (box tg i), st\<lparr> es_interns := t' \<rparr>)
     | (Inl _, t') \<Rightarrow> (None, st\<lparr> es_interns := t' \<rparr>))"

definition ok_of :: "'e + 'a \<Rightarrow> 'a option" where
  "ok_of r = (case r of Inl _ \<Rightarrow> None | Inr x \<Rightarrow> Some x)"

text \<open>\<^verbatim>\<open>make_fixnum\<close>: an integer that does not fit the payload is an object.\<close>

definition em_fixnum :: "emit_env \<Rightarrow> i64 \<Rightarrow> emit_state \<Rightarrow> lispval option \<times> emit_state" where
  "em_fixnum env i st = (case encode_i64 i of
       Inr v \<Rightarrow> (Some v, st)
     | Inl _ \<Rightarrow> em_alloc (allocate (env_gc (ee_alloc env)) (env_mem (ee_alloc env)) (ee_fixnum_size env) (Fixnum_obj i)) st)"

definition literal_value :: "emit_env \<Rightarrow> literal \<Rightarrow> emit_state \<Rightarrow> lispval option \<times> emit_state" where
  "literal_value env l st = (case l of
       Void_lit \<Rightarrow> (Some Nil_val, st)
     | Bool_lit b \<Rightarrow> (Some (if b then True_val else False_val), st)
     | Char_lit c \<Rightarrow> (ok_of (encode_char32 c), st)
     | String_lit s \<Rightarrow> em_intern String_tag s st
     | Int_lit i \<Rightarrow> em_fixnum env i st
     | Double_lit d \<Rightarrow> (ok_of (encode_double d), st))"

definition cache_string :: "literal \<Rightarrow> u32 \<Rightarrow> emit_state \<Rightarrow> emit_state" where
  "cache_string l i st = (case l of
       String_lit s \<Rightarrow> st\<lparr> string_cache := (string_cache st)(s \<mapsto> i) \<rparr> | _ \<Rightarrow> st)"

definition cached_string :: "literal \<Rightarrow> emit_state \<Rightarrow> u32 option" where
  "cached_string l st = (case l of String_lit s \<Rightarrow> string_cache st s | _ \<Rightarrow> None)"

definition emit_const :: "emit_env \<Rightarrow> literal \<Rightarrow> span \<Rightarrow> emit_state \<Rightarrow> emit_state option" where
  "emit_const env l sp st =
     (case cached_string l st of
        Some i \<Rightarrow> Some (emit_instr LoadConst_op i sp st)
      | None \<Rightarrow>
        (case literal_value env l st of
           (None, _) \<Rightarrow> None
         | (Some v, st1) \<Rightarrow> (let (i, st2) = emit_load_const v sp st1 in Some (cache_string l i st2))))"

section \<open>Quoted data\<close>

text \<open>
  \<^verbatim>\<open>datum_to_lispval\<close>. The result is \<open>None\<close> when it throws, \<open>Some None\<close> when it returns an error;
  the root frame of an aggregate is closed on every way out.
\<close>

type_synonym emit_datum = "emit_state \<Rightarrow> lispval option option \<times> emit_state"

definition dt_value :: "lispval \<Rightarrow> emit_datum" where
  "dt_value v st = (Some (Some v), st)"

definition dt_of :: "(emit_state \<Rightarrow> lispval option \<times> emit_state) \<Rightarrow> emit_datum" where
  "dt_of f st = (case f st of (r, st') \<Rightarrow> (Some r, st'))"

definition dt_bind :: "emit_datum \<Rightarrow> (lispval \<Rightarrow> emit_datum) \<Rightarrow> emit_datum" where
  "dt_bind m f st = (case m st of
       (Some (Some v), st') \<Rightarrow> f v st'
     | (r, st') \<Rightarrow> (r, st'))"

definition dt_root :: "lispval \<Rightarrow> emit_datum \<Rightarrow> emit_datum" where
  "dt_root v m st = m (st\<lparr> es_heap := push_root v (es_heap st) \<rparr>)"

definition dt_frame :: "emit_datum \<Rightarrow> emit_datum" where
  "dt_frame m st =
     (let k = make_root_frame (es_heap st) in
      case m st of (r, st') \<Rightarrow> (r, st'\<lparr> es_heap := close_root_frame k (es_heap st') \<rparr>))"

fun dt_list :: "emit_env \<Rightarrow> (sexpr \<Rightarrow> emit_datum) \<Rightarrow> sexpr list \<Rightarrow> lispval \<Rightarrow> emit_datum" where
  "dt_list env f [] v = dt_value v"
| "dt_list env f (e # es) v =
     dt_bind (f e) (\<lambda>x. dt_root x (dt_bind (dt_of (em_alloc (make_cons (ee_alloc env) x v)))
       (\<lambda>c. dt_root c (dt_list env f es c))))"

fun dt_elems :: "(sexpr \<Rightarrow> emit_datum) \<Rightarrow> sexpr list \<Rightarrow> lispval list \<Rightarrow> emit_state \<Rightarrow>
    lispval list option option \<times> emit_state" where
  "dt_elems f [] vs st = (Some (Some vs), st)"
| "dt_elems f (e # es) vs st =
     (case f e st of
        (Some (Some x), st1) \<Rightarrow> dt_elems f es (vs @ [x]) (st1\<lparr> es_heap := push_root x (es_heap st1) \<rparr>)
      | (Some None, st1) \<Rightarrow> (Some None, st1)
      | (None, st1) \<Rightarrow> (None, st1))"

lemma dt_list_cong [fundef_cong]:
  "\<lbrakk> env = env'; es = es'; v = v'; st = st'; \<And>e st. e \<in> set es' \<Longrightarrow> f e st = g e st \<rbrakk> \<Longrightarrow>
   dt_list env f es v st = dt_list env' g es' v' st'"
proof (induction es arbitrary: es' v v' st st' env env')
  case (Cons e es)
  then have "f e st = g e st" for st by auto
  moreover have "dt_list env f es v st = dt_list env g es v st" for v st
    by (rule Cons.IH [OF refl refl refl refl]) (use Cons.prems in auto)
  ultimately show ?case using Cons.prems(1-4)
    by (auto simp: dt_bind_def dt_root_def split: prod.splits option.splits)
qed simp

lemma dt_elems_cong [fundef_cong]:
  "\<lbrakk> es = es'; vs = vs'; st = st'; \<And>e st. e \<in> set es' \<Longrightarrow> f e st = g e st \<rbrakk> \<Longrightarrow>
   dt_elems f es vs st = dt_elems g es' vs' st'"
proof (induction es arbitrary: es' vs vs' st st')
  case (Cons e es)
  then have "f e st = g e st" for st by auto
  moreover have "dt_elems f es vs st = dt_elems g es vs st" for vs st
    by (rule Cons.IH [OF refl refl refl]) (use Cons.prems in auto)
  ultimately show ?case using Cons.prems(1-3) by (auto split: prod.splits option.splits)
qed simp

fun datum_value :: "emit_env \<Rightarrow> sexpr \<Rightarrow> emit_state \<Rightarrow> lispval option option \<times> emit_state" where
  "datum_value env (Nil_sx _) st = dt_value Nil_val st"
| "datum_value env (Bool_sx _ b) st = dt_value (if b then True_val else False_val) st"
| "datum_value env (Char_sx _ c) st = (map_option Some (ok_of (encode_char32 c)), st)"
| "datum_value env (String_sx _ s) st = dt_of (em_intern String_tag s) st"
| "datum_value env (Symbol_sx _ s) st = dt_of (em_intern Symbol_tag s) st"
| "datum_value env (Number_sx _ n) st = (case n of
       Int_num i \<Rightarrow> dt_of (em_fixnum env i) st
     | Dbl_num d \<Rightarrow> (Some (ok_of (encode_double d)), st))"
| "datum_value env (List_sx _ es t) st =
     dt_frame (\<lambda>st. dt_bind (\<lambda>st. case t of None \<Rightarrow> dt_value Nil_val st | Some e \<Rightarrow> datum_value env e st)
       (\<lambda>v st. (case t of None \<Rightarrow> dt_list env (datum_value env) (rev es) v st
          | Some _ \<Rightarrow> dt_list env (datum_value env) (rev es) v (st\<lparr> es_heap := push_root v (es_heap st) \<rparr>))) st) st"
| "datum_value env (Vector_sx _ es) st =
     dt_frame (\<lambda>st. case dt_elems (datum_value env) es [] st of
         (Some (Some vs), st1) \<Rightarrow> dt_of (em_alloc (make_vector (ee_alloc env) vs)) st1
       | (Some None, st1) \<Rightarrow> (Some None, st1)
       | (None, st1) \<Rightarrow> (None, st1)) st"
| "datum_value env (ByteVector_sx _ bs) st =
     dt_of (em_alloc (allocate (env_gc (ee_alloc env)) (env_mem (ee_alloc env)) (ee_bytes_size env) (ByteVector_obj bs))) st"
| "datum_value env (ReaderForm_sx _ k e) st =
     (if k = Quote_form then
        dt_frame (\<lambda>st. dt_bind (dt_of (em_intern Symbol_tag ''quote'')) (\<lambda>sym st.
          dt_bind (datum_value env e) (\<lambda>x. dt_root x
            (dt_bind (dt_of (em_alloc (make_cons (ee_alloc env) x Nil_val))) (\<lambda>inner. dt_root inner
              (dt_of (em_alloc (make_cons (ee_alloc env) sym inner)))))) st) st) st
      else dt_value Nil_val st)"
| "datum_value env (ModuleForm_sx _ _ _ _) st = dt_value Nil_val st"

definition emit_quote :: "emit_env \<Rightarrow> sexpr option \<Rightarrow> span \<Rightarrow> emit_state \<Rightarrow> emit_state option" where
  "emit_quote env d sp st =
     (case d of None \<Rightarrow> Some (snd (emit_load_const Nil_val sp st))
      | Some e \<Rightarrow>
        (case datum_value env e st of
           (None, _) \<Rightarrow> None
         | (Some r, st1) \<Rightarrow> Some (snd (emit_load_const (case r of Some v \<Rightarrow> v | None \<Rightarrow> Nil_val) sp st1))))"

section \<open>Calls, closures and assignments\<close>

definition opcode_for_primitive :: "primitive_kind \<Rightarrow> opcode" where
  "opcode_for_primitive k = (case k of PCons \<Rightarrow> Cons_op | PCar \<Rightarrow> Car_op | PCdr \<Rightarrow> Cdr_op | PAdd \<Rightarrow> Add_op
     | PSub \<Rightarrow> Sub_op | PMul \<Rightarrow> Mul_op | PDiv \<Rightarrow> Div_op | PEq \<Rightarrow> Eq_op)"

text \<open>The lambda a call jumps back to, when it is a self call that \<^verbatim>\<open>try_emit_self_tail_jump\<close> takes.\<close>

definition self_tail_target :: "node \<Rightarrow> node list \<Rightarrow> emit_state \<Rightarrow> active_lambda option" where
  "self_tail_target callee args st =
     (if active_lambdas st = [] \<or> length args \<noteq> 1 then None
      else let al = last (active_lambdas st) in
        if al_has_rest al \<or> length args \<noteq> length (param_slots al) then None
        else (case callee of
            Var_n _ (Upval s) \<Rightarrow> if s \<in> set (self_upval_slots al) then Some al else None
          | _ \<Rightarrow> None))"

definition store_params :: "u16 list \<Rightarrow> span \<Rightarrow> emit_state \<Rightarrow> emit_state" where
  "store_params slots sp st = fold (\<lambda>s. emit_instr StoreLocal_op (ucast s) sp) (rev slots) st"

definition emit_back_jump :: "u32 \<Rightarrow> span \<Rightarrow> emit_state \<Rightarrow> emit_state" where
  "emit_back_jump entry sp st =
     emit_instr Jump_op (word_of_int (int (unat entry) - int (code_size st + 1))) sp st"

text \<open>The captures of a lambda that are the variable it is assigned to.\<close>

definition captures_of :: "u16 \<Rightarrow> lambda_info \<Rightarrow> nat list" where
  "captures_of slot l = filter (\<lambda>i. upval_sources l ! i = Local slot) [0..<length (upval_sources l)]"

definition announce_self :: "address \<Rightarrow> node \<Rightarrow> emit_state \<Rightarrow> emit_state" where
  "announce_self target v st =
     (case (v, target) of
        (Lambda_n _ l _, Local slot) \<Rightarrow>
          (if captures_of slot l = [] then st else st\<lparr> pending_self := map of_nat (captures_of slot l) \<rparr>)
      | _ \<Rightarrow> st)"

definition emit_self_patch :: "u16 \<Rightarrow> span \<Rightarrow> nat \<Rightarrow> emit_state \<Rightarrow> emit_state" where
  "emit_self_patch slot sp i st =
     emit_instr PatchClosureUpval_op (of_nat i) sp
       (emit_instr LoadLocal_op (ucast slot) sp (emit_instr LoadLocal_op (ucast slot) sp st))"

definition patch_self :: "address \<Rightarrow> node \<Rightarrow> span \<Rightarrow> emit_state \<Rightarrow> emit_state" where
  "patch_self target v sp st =
     (case (v, target) of
        (Lambda_n _ l _, Local slot) \<Rightarrow> fold (emit_self_patch slot sp) (captures_of slot l) st
      | _ \<Rightarrow> st)"

text \<open>
  The closures of a \<^verbatim>\<open>letrec\<close>: the leading assignments of lambdas to local variables, and the
  patches of the earlier closures that captured a later variable.
\<close>

fun letrec_inits :: "node list \<Rightarrow> (u16 \<times> lambda_info) list" where
  "letrec_inits (Set_n _ (Local slot) (Lambda_n _ l _) # es) = (slot, l) # letrec_inits es"
| "letrec_inits _ = []"

definition emit_cross_patch :: "u16 \<Rightarrow> u16 \<Rightarrow> span \<Rightarrow> nat \<Rightarrow> emit_state \<Rightarrow> emit_state" where
  "emit_cross_patch earlier later sp i st =
     emit_instr PatchClosureUpval_op (of_nat i) sp
       (emit_instr LoadLocal_op (ucast later) sp (emit_instr LoadLocal_op (ucast earlier) sp st))"

definition cross_patches :: "(u16 \<times> lambda_info) list \<Rightarrow> (u16 \<times> u16 \<times> nat) list" where
  "cross_patches inits =
     concat (map (\<lambda>later. concat (map (\<lambda>earlier.
         map (\<lambda>i. (fst (inits ! earlier), fst (inits ! later), i))
           (captures_of (fst (inits ! later)) (snd (inits ! earlier))))
       [0..<later])) [1..<length inits])"

definition patch_letrec :: "(u16 \<times> lambda_info) list \<Rightarrow> span \<Rightarrow> emit_state \<Rightarrow> emit_state" where
  "patch_letrec inits sp st = fold (\<lambda>(e, l, i). emit_cross_patch e l sp i) (cross_patches inits) st"

section \<open>Functions\<close>

text \<open>\<^verbatim>\<open>record_local\<close>: the first name recorded for a slot is kept.\<close>

definition record_local :: "binding list \<Rightarrow> binding_id \<Rightarrow> string list \<Rightarrow> string list" where
  "record_local bs i names =
     (if unat i \<ge> length bs then names
      else let b = bs ! unat i; slot = unat (b_slot b) in
        if b_kind b \<noteq> Param_binding \<and> b_kind b \<noteq> Local_binding then names
        else let names' = (if slot \<ge> length names then names @ replicate (slot + 1 - length names) '''' else names)
          in if names' ! slot = '''' then names'[slot := b_name b] else names')"

definition local_names_of :: "binding list \<Rightarrow> lambda_info \<Rightarrow> string list" where
  "local_names_of bs l =
     fold (record_local bs)
       (lam_params l @ (case rest_param l of None \<Rightarrow> [] | Some r \<Rightarrow> [r]) @ lam_locals l) []"

definition upval_names_of :: "binding list \<Rightarrow> lambda_info \<Rightarrow> string list" where
  "upval_names_of bs l = map (\<lambda>u. if unat u < length bs then b_name (bs ! unat u) else '''') (lam_upvals l)"

definition new_function :: "emit_env \<Rightarrow> lambda_info \<Rightarrow> string \<Rightarrow> bytecode_function" where
  "new_function env l name = empty_function\<lparr>
     fn_name := name,
     fn_arity := ucast (ar_required (lam_arity l)),
     has_rest := ar_rest (lam_arity l),
     stack_size := lam_stack_size l,
     local_names := local_names_of (bindings (ee_sem env)) l,
     upval_names := upval_names_of (bindings (ee_sem env)) l \<rparr>"

text \<open>\<^verbatim>\<open>emit_lambda\<close> up to the body: a fresh context, and the lambda becomes the active one.\<close>

definition active_of :: "emit_env \<Rightarrow> lambda_info \<Rightarrow> u16 list \<Rightarrow> active_lambda" where
  "active_of env l selfs =
     (let bs = bindings (ee_sem env) in
      \<lparr> entry_pc = 0,
        param_slots = map (\<lambda>p. b_slot (bs ! unat p)) (filter (\<lambda>p. unat p < length bs) (lam_params l)),
        self_upval_slots = selfs,
        al_has_rest = ar_rest (lam_arity l) \<rparr>)"

definition enter_lambda :: "emit_env \<Rightarrow> lambda_info \<Rightarrow> emit_state \<Rightarrow> emit_state" where
  "enter_lambda env l st = st\<lparr>
     es_func := new_function env l (fn_name (es_func st) @ ''_lambda'' @ to_decimal (lambda_count st)),
     string_cache := Map.empty,
     lambda_count := lambda_count st + 1,
     active_lambdas := active_lambdas st @ [active_of env l (pending_self st)],
     pending_self := [] \<rparr>"

text \<open>
  \<^verbatim>\<open>emit_lambda\<close> after the body, and the closure that \<^verbatim>\<open>emit_lambda_node\<close> makes of the function:
  \<open>st\<close> is the state before, \<open>st1\<close> the one after the body.
\<close>

definition leave_lambda :: "span \<Rightarrow> emit_state \<Rightarrow> emit_state \<Rightarrow> u32 \<times> emit_state" where
  "leave_lambda sp st st1 =
     (let st2 = emit_instr Return_op 0 sp (st1\<lparr> active_lambdas := butlast (active_lambdas st1) \<rparr>);
          (i, reg) = registry_add (es_func st2) (es_registry st2)
      in (of_nat i, st2\<lparr> es_registry := reg, es_func := es_func st, string_cache := string_cache st \<rparr>))"

definition emit_closure :: "lambda_info \<Rightarrow> span \<Rightarrow> u32 \<Rightarrow> emit_state \<Rightarrow> emit_state" where
  "emit_closure l sp fidx st =
     (let (k, st1) = add_const (encode_func_index fidx) st;
          st2 = fold (\<lambda>a. emit_address_load a sp) (upval_sources l) st1
      in emit_instr MakeClosure_op (push_bit 16 k OR of_nat (length (upval_sources l))) sp st2)"

definition tag_value :: "string \<Rightarrow> emit_state \<Rightarrow> lispval \<times> emit_state" where
  "tag_value name st =
     (if name = '''' then (Nil_val, st)
      else (case em_intern Symbol_tag name st of (r, st') \<Rightarrow> (case r of Some v \<Rightarrow> v | None \<Rightarrow> Nil_val, st')))"

definition close_guard :: "u32 \<Rightarrow> nat \<Rightarrow> emit_state \<Rightarrow> emit_state" where
  "close_guard tag_idx setup st =
     (let offset = of_nat (code_size st) - (of_nat setup + 1) :: u32
      in patch_arg setup (push_bit 16 tag_idx OR (offset AND 0xFFFF)) st)"

section \<open>Nodes\<close>

text \<open>
  \<^verbatim>\<open>emit_node\<close>; \<open>emit_all\<close> is the loop over a list of arguments, and \<open>emit_body\<close> the loop of
  \<^verbatim>\<open>emit_begin\<close> from its \<open>i\<close>-th expression on.
\<close>

fun emit_node :: "emit_env \<Rightarrow> node \<Rightarrow> emit_state \<Rightarrow> emit_state option"
  and emit_all :: "emit_env \<Rightarrow> node list \<Rightarrow> emit_state \<Rightarrow> emit_state option"
  and emit_body :: "emit_env \<Rightarrow> span \<Rightarrow> (u16 \<times> lambda_info) list \<Rightarrow> nat \<Rightarrow> node list \<Rightarrow> emit_state \<Rightarrow> emit_state option" where
  "emit_node env (Const_n nt l) st = emit_const env l (n_span nt) st"
| "emit_node env (Var_n nt a) st = Some (emit_address_load a (n_span nt) st)"
| "emit_node env (Quote_n nt d) st = emit_quote env d (n_span nt) st"
| "emit_node env (Call_n nt f args) st =
     (case (if n_tail nt then self_tail_target f args st else None) of
        Some al \<Rightarrow> map_option (\<lambda>st1. emit_back_jump (entry_pc al) (n_span nt) (store_params (param_slots al) (n_span nt) st1))
          (emit_all env args st)
      | None \<Rightarrow>
        Option.bind (emit_all env args st) (\<lambda>st1. Option.bind (emit_node env f st1) (\<lambda>st2.
          Some (emit_instr (if n_tail nt then TailCall_op else Call_op) (of_nat (length args)) (n_span nt) st2))))"
| "emit_node env (PrimitiveCall_n nt k args) st =
     map_option (emit_instr (opcode_for_primitive k) 0 (n_span nt)) (emit_all env args st)"
| "emit_node env (If_n nt t c a) st =
     Option.bind (emit_node env t st) (\<lambda>st1.
       Option.bind (emit_node env c (emit_instr JumpIfFalse_op 0 (n_span nt) st1)) (\<lambda>st2.
         let st3 = emit_instr Jump_op 0 (n_span nt) st2;
             st4 = patch_arg (code_size st1) (of_nat (code_size st3 - code_size st1 - 1)) st3
         in map_option (\<lambda>st5. patch_arg (code_size st2) (of_nat (code_size st5 - code_size st2 - 1)) st5)
              (emit_node env a st4)))"
| "emit_node env (Begin_n nt es) st = emit_body env (n_span nt) (letrec_inits es) 0 es st"
| "emit_node env (Lambda_n nt l b) st =
     map_option (\<lambda>st1. let (i, st2) = leave_lambda (n_span nt) st st1 in emit_closure l (n_span nt) i st2)
       (emit_node env b (enter_lambda env l st))"
| "emit_node env (Set_n nt a v) st =
     map_option (\<lambda>st1. snd (emit_load_const Nil_val (n_span nt)
         (patch_self a v (n_span nt) (emit_address_store a (n_span nt) st1))))
       (emit_node env v (announce_self a v st))"
| "emit_node env (Values_n nt es) st =
     map_option (emit_instr Values_op (of_nat (length es)) (n_span nt)) (emit_all env es st)"
| "emit_node env (CallWithValues_n nt p c) st =
     Option.bind (emit_node env p st) (\<lambda>st1. map_option (emit_instr CallWithValues_op 0 (n_span nt)) (emit_node env c st1))"
| "emit_node env (DynamicWind_n nt b1 b2 b3) st =
     Option.bind (emit_node env b1 st) (\<lambda>st1. Option.bind (emit_node env b2 st1) (\<lambda>st2.
       map_option (emit_instr DynamicWind_op 0 (n_span nt)) (emit_node env b3 st2)))"
| "emit_node env (CallCC_n nt c) st = map_option (emit_instr CallCC_op 0 (n_span nt)) (emit_node env c st)"
| "emit_node env (Apply_n nt f args) st =
     Option.bind (emit_all env args st) (\<lambda>st1. Option.bind (emit_node env f st1) (\<lambda>st2.
       Some (emit_instr (if n_tail nt then TailApply_op else Apply_op) (of_nat (length args)) (n_span nt) st2)))"
| "emit_node env (Raise_n nt tg v) st =
     (let (t, st1) = tag_value tg st; st2 = snd (emit_load_const t (n_span nt) st1)
      in map_option (emit_instr Throw_op 0 (n_span nt)) (emit_node env v st2))"
| "emit_node env (Guard_n nt tg b) st =
     (let (t, st1) = tag_value tg st; (k, st2) = add_const t st1; setup = code_size st2
      in map_option (\<lambda>st3. close_guard k setup (emit_instr PopCatch_op 0 (n_span nt) st3))
           (emit_node env b (emit_instr SetupCatch_op 0 (n_span nt) st2)))"
| "emit_node env (MakeLogicVar_n nt) st = Some (emit_instr MakeLogicVar_op 0 (n_span nt) st)"
| "emit_node env (Unify_n nt a b) st =
     Option.bind (emit_node env a st) (\<lambda>st1. map_option (emit_instr Unify_op 0 (n_span nt)) (emit_node env b st1))"
| "emit_node env (DerefLogicVar_n nt v) st = map_option (emit_instr DerefLogicVar_op 0 (n_span nt)) (emit_node env v st)"
| "emit_node env (TrailMark_n nt) st = Some (emit_instr TrailMark_op 0 (n_span nt) st)"
| "emit_node env (UnwindTrail_n nt m) st = map_option (emit_instr UnwindTrail_op 0 (n_span nt)) (emit_node env m st)"
| "emit_node env (CopyTerm_n nt t) st = map_option (emit_instr CopyTerm_op 0 (n_span nt)) (emit_node env t st)"
| "emit_all env [] st = Some st"
| "emit_all env (e # es) st = Option.bind (emit_node env e st) (emit_all env es)"
| "emit_body env sp inits i [] st = Some st"
| "emit_body env sp inits i (e # es) st =
     Option.bind (emit_node env e st) (\<lambda>st1.
       let st2 = (if es = [] then st1 else emit_instr Pop_op 0 (n_span (info_of e)) st1);
           st3 = (if length inits > 1 \<and> i + 1 = length inits then patch_letrec inits sp st2 else st2)
       in emit_body env sp inits (i + 1) es st3)"

section \<open>Modules\<close>

fun emit_toplevel :: "emit_env \<Rightarrow> node list \<Rightarrow> emit_state \<Rightarrow> emit_state option" where
  "emit_toplevel env [] st = Some st"
| "emit_toplevel env (n # ns) st =
     Option.bind (emit_node env n st) (\<lambda>st1. emit_toplevel env ns (emit_instr Pop_op 0 (n_span (info_of n)) st1))"

definition init_state :: "emit_env \<Rightarrow> heap \<Rightarrow> intern_table \<Rightarrow> registry \<Rightarrow> emit_state" where
  "init_state env h t reg =
     \<lparr> es_func = empty_function\<lparr> fn_name := sem_name (ee_sem env) @ ''_init'', stack_size := sem_stack_size (ee_sem env) \<rparr>,
       string_cache = Map.empty, es_heap = h, es_interns = t, es_registry = reg, lambda_count = 0,
       active_lambdas = [], pending_self = [] \<rparr>"

definition emit_module :: "emit_env \<Rightarrow> heap \<Rightarrow> intern_table \<Rightarrow> registry \<Rightarrow> (nat \<times> emit_state) option" where
  "emit_module env h t reg =
     map_option (\<lambda>st1.
         let st2 = snd (emit_load_const Nil_val default_span st1);
             st3 = emit_instr Return_op 0 default_span st2;
             (i, reg') = registry_add (es_func st3) (es_registry st3)
         in (i, st3\<lparr> es_registry := reg' \<rparr>))
       (emit_toplevel env (toplevel_inits (ee_sem env)) (init_state env h t reg))"

end
