(* ===== verification/EmitterFacts.thy ===== *)
theory EmitterFacts
  imports Emitter "HOL-Library.Sublist"
begin

text \<open>
  Facts about the emitter: what emitting a node may change in the state (\<open>appends\<close>), and the
  structural properties of the functions of a module (\<open>closed_function\<close>): they pass the verifier
  of the bytecode loader, every jump leads to one of their instructions, the last instruction is a
  return and every instruction has its source span.
\<close>

section \<open>Emission only appends\<close>

definition header :: "bytecode_function \<Rightarrow> bytecode_function" where
  "header f = f\<lparr> fn_code := [], source_map := [], constants := [] \<rparr>"

text \<open>
  The code and the constants of the current function, the registry and the intern table only grow;
  the rest of the function and the enclosing lambdas are as before; spans grow with the code.
\<close>

definition appends :: "emit_state \<Rightarrow> emit_state \<Rightarrow> bool" where
  "appends a b \<longleftrightarrow>
     prefix (fn_code (es_func a)) (fn_code (es_func b))
     \<and> prefix (constants (es_func a)) (constants (es_func b))
     \<and> prefix (es_registry a) (es_registry b)
     \<and> header (es_func b) = header (es_func a)
     \<and> active_lambdas b = active_lambdas a
     \<and> str_to_id (es_interns a) \<subseteq>\<^sub>m str_to_id (es_interns b)
     \<and> length (source_map (es_func b)) + length (fn_code (es_func a))
        = length (source_map (es_func a)) + length (fn_code (es_func b))"

named_theorems append_intros

lemma appends_refl [simp, intro, append_intros]: "appends a a"
  by (simp add: appends_def)

lemma appends_trans [trans]: "appends a b \<Longrightarrow> appends b c \<Longrightarrow> appends a c"
  unfolding appends_def by (auto intro: prefix_order.trans map_le_trans)

lemma appends_size: "appends a b \<Longrightarrow> code_size a \<le> code_size b"
  by (simp add: appends_def code_size_def prefix_length_le)

lemma header_simps [simp]:
  "header (f\<lparr> fn_code := c \<rparr>) = header f" "header (f\<lparr> source_map := m \<rparr>) = header f"
  "header (f\<lparr> constants := k \<rparr>) = header f"
  by (simp_all add: header_def)

lemma code_size_simps [simp]:
  "code_size (emit_instr op x sp st) = Suc (code_size st)" "code_size (patch_arg i x st) = code_size st"
  "code_size (snd (add_const v st)) = code_size st"
  by (simp_all add: code_size_def emit_instr_def patch_arg_def add_const_def)

lemma appends_emit_instr: "appends a b \<Longrightarrow> appends a (emit_instr op x sp b)"
  by (auto simp: appends_def emit_instr_def prefix_def)

lemma appends_add_const: "appends a b \<Longrightarrow> appends a (snd (add_const v b))"
  by (auto simp: appends_def add_const_def prefix_def)

lemma appends_load_const: "appends a b \<Longrightarrow> appends a (snd (emit_load_const v sp b))"
  by (simp add: emit_load_const_def add_const_def Let_def)
    (intro appends_emit_instr appends_add_const [of _ _ v, unfolded add_const_def, simplified], assumption)

lemma appends_patch: "appends a b \<Longrightarrow> code_size a \<le> i \<Longrightarrow> appends a (patch_arg i x b)"
  by (auto simp: appends_def patch_arg_def code_size_def prefix_def list_update_append)

lemma appends_address_load: "appends a b \<Longrightarrow> appends a (emit_address_load ad sp b)"
  by (cases ad) (simp_all add: emit_address_load_def appends_emit_instr)

lemma appends_address_store: "appends a b \<Longrightarrow> appends a (emit_address_store ad sp b)"
  by (cases ad) (simp_all add: emit_address_store_def appends_emit_instr)

lemma appends_fold: "appends a b \<Longrightarrow> (\<And>x c. x \<in> set xs \<Longrightarrow> appends a c \<Longrightarrow> appends a (f x c)) \<Longrightarrow> appends a (fold f xs b)"
  by (induction xs arbitrary: b) auto

lemma intern_map_le: "str_to_id t \<subseteq>\<^sub>m str_to_id (snd (intern s t))"
  by (auto simp: intern_def Let_def map_le_def split: option.splits)

definition same_code :: "emit_state \<Rightarrow> emit_state \<Rightarrow> bool" where
  "same_code a b \<longleftrightarrow> es_func b = es_func a \<and> es_registry b = es_registry a \<and> active_lambdas b = active_lambdas a
     \<and> string_cache b = string_cache a \<and> str_to_id (es_interns a) \<subseteq>\<^sub>m str_to_id (es_interns b)"

lemma same_code_refl [simp, intro]: "same_code a a"
  by (simp add: same_code_def)

lemma same_code_trans [trans]: "same_code a b \<Longrightarrow> same_code b c \<Longrightarrow> same_code a c"
  by (auto simp: same_code_def intro: map_le_trans)

lemma same_code_appends: "same_code a b \<Longrightarrow> appends c a \<Longrightarrow> appends c b"
  by (auto simp: same_code_def appends_def intro: map_le_trans)

lemma same_code_heap [simp]: "same_code a (b\<lparr> es_heap := h \<rparr>) = same_code a b"
  by (simp add: same_code_def)

lemma same_code_heap_left [simp]: "same_code (b\<lparr> es_heap := h \<rparr>) a = same_code b a"
  by (simp add: same_code_def)

lemma same_code_alloc: "same_code st (snd (em_alloc f st))"
  by (auto simp: em_alloc_def split: prod.splits sum.splits)

lemma same_code_intern: "same_code st (snd (em_intern tg s st))"
  using intern_map_le [of "es_interns st" s]
  by (auto simp: em_intern_def same_code_def split: prod.splits sum.splits)

lemma same_code_fixnum: "same_code st (snd (em_fixnum env i st))"
  by (simp add: em_fixnum_def same_code_alloc split: sum.splits)

lemma same_code_literal: "same_code st (snd (literal_value env l st))"
  by (cases l) (simp_all add: literal_value_def same_code_intern same_code_fixnum)

lemma same_code_tag: "same_code st (snd (tag_value name st))"
  using same_code_intern [of st Symbol_tag name] by (auto simp: tag_value_def split: prod.splits)

subsection \<open>Quoted data\<close>

lemma same_code_bind:
  "\<lbrakk> same_code a (snd (m a)); \<And>v s. same_code s (snd (f v s)) \<rbrakk> \<Longrightarrow> same_code a (snd (dt_bind m f a))"
  by (auto simp: dt_bind_def split: prod.splits option.splits intro: same_code_trans)

lemma same_code_root: "(\<And>s. same_code s (snd (m s))) \<Longrightarrow> same_code a (snd (dt_root v m a))"
  by (metis dt_root_def same_code_heap_left)

lemma same_code_frame: "same_code a (snd (m a)) \<Longrightarrow> same_code a (snd (dt_frame m a))"
  by (auto simp: dt_frame_def Let_def split: prod.splits)

lemma same_code_of: "same_code a (snd (f a)) \<Longrightarrow> same_code a (snd (dt_of f a))"
  by (auto simp: dt_of_def split: prod.splits)

lemma same_code_value: "same_code a (snd (dt_value v a))"
  by (simp add: dt_value_def)

lemmas datum_intros = same_code_bind same_code_root same_code_frame same_code_of same_code_value same_code_alloc
  same_code_intern same_code_fixnum

lemma same_code_dt_list:
  "(\<And>e s. e \<in> set es \<Longrightarrow> same_code s (snd (f e s))) \<Longrightarrow> same_code st (snd (dt_list env f es v st))"
  by (induction es arbitrary: v st) (auto intro!: datum_intros)

lemma same_code_dt_elems:
  "(\<And>e s. e \<in> set es \<Longrightarrow> same_code s (snd (f e s))) \<Longrightarrow> same_code st (snd (dt_elems f es vs st))"
proof (induction es arbitrary: vs st)
  case (Cons e es)
  have h: "same_code st (snd (f e st))" using Cons.prems by simp
  show ?case
  proof (cases "f e st")
    case (Pair r s1)
    have "same_code s1 (snd (dt_elems f es ws (s1\<lparr> es_heap := k \<rparr>)))" for ws k
      using Cons.IH [where vs = ws and st = "s1\<lparr> es_heap := k \<rparr>"] Cons.prems by simp
    then show ?thesis using h Pair by (auto split: option.splits intro: same_code_trans)
  qed
qed simp

lemma same_code_datum: "same_code st (snd (datum_value env e st))"
proof (induction env e st rule: datum_value.induct)
  case (7 env x es t st)
  have l: "same_code s (snd (dt_list env (datum_value env) (rev es) v s))" for v s
    by (rule same_code_dt_list) (use 7 in \<open>cases t; auto\<close>)
  have l': "same_code s (snd (dt_list env (datum_value env) (rev es) v (s\<lparr> es_heap := h \<rparr>)))" for v s h
    using l [of "s\<lparr> es_heap := h \<rparr>" v] by simp
  show ?case by (cases t) (use l l' 7 in \<open>auto intro!: datum_intros\<close>)
next
  case (8 env x es st)
  have l: "same_code s (snd (dt_elems (datum_value env) es [] s))" for s
    by (rule same_code_dt_elems) (use 8 in simp)
  show ?case using l
    by (auto intro!: same_code_frame split: prod.splits option.splits) (metis datum_intros same_code_trans snd_conv)+
qed (auto intro!: datum_intros split: number.splits sum.splits)


section \<open>Nodes\<close>

lemma appends_tag: "appends a b \<Longrightarrow> appends a (snd (tag_value name b))"
  using same_code_appends same_code_tag by blast

lemma appends_emit_const: "emit_const env l sp st = Some st' \<Longrightarrow> appends st st'"
proof -
  assume e: "emit_const env l sp st = Some st'"
  have c: "appends st (cache_string l i s)" if "appends st s" for i s
    using that by (cases l) (auto simp: cache_string_def appends_def)
  have l: "appends st (snd (literal_value env l st))" using same_code_appends [OF same_code_literal] by blast
  show ?thesis
    using e l by (auto simp: emit_const_def Let_def split: option.splits prod.splits
        intro!: c appends_emit_instr) (metis appends_load_const snd_conv)
qed

lemma appends_emit_quote: "emit_quote env d sp st = Some st' \<Longrightarrow> appends st st'"
proof -
  assume e: "emit_quote env d sp st = Some st'"
  have "appends st (snd (datum_value env x st))" for x using same_code_appends [OF same_code_datum] by blast
  then show ?thesis
    using e by (auto simp: emit_quote_def split: option.splits prod.splits intro!: appends_load_const)
      (metis snd_conv)+
qed

lemma appends_store_params: "appends a b \<Longrightarrow> appends a (store_params ps sp b)"
  by (simp add: store_params_def appends_fold appends_emit_instr)

lemma appends_back_jump: "appends a b \<Longrightarrow> appends a (emit_back_jump e sp b)"
  by (simp add: emit_back_jump_def appends_emit_instr)

lemma appends_patch_self: "appends a b \<Longrightarrow> appends a (patch_self ad v sp b)"
  by (auto simp: patch_self_def emit_self_patch_def split: node.splits address.splits
      intro!: appends_fold appends_emit_instr)

lemma appends_patch_letrec: "appends a b \<Longrightarrow> appends a (patch_letrec is sp b)"
  by (auto simp: patch_letrec_def emit_cross_patch_def intro!: appends_fold appends_emit_instr)

lemma appends_close_guard: "appends a b \<Longrightarrow> code_size a \<le> i \<Longrightarrow> appends a (close_guard k i b)"
  by (simp add: close_guard_def Let_def appends_patch)

lemma appends_closure: "appends a b \<Longrightarrow> appends a (emit_closure l sp i b)"
  by (auto simp: emit_closure_def Let_def split: prod.splits
      intro!: appends_emit_instr appends_fold appends_address_load) (metis appends_add_const snd_conv)

lemma appends_lambda:
  assumes "appends (enter_lambda env l st) st1"
  shows "appends st (snd (leave_lambda sp st st1))"
  using assms
  by (auto simp: appends_def enter_lambda_def leave_lambda_def registry_add_def Let_def emit_instr_def
      intro: prefix_order.trans)

lemma appends_announce: "appends (announce_self a v st) st' \<Longrightarrow> appends st st'"
  by (auto simp: announce_self_def appends_def split: node.splits address.splits if_splits)

lemmas append_rules = appends_emit_instr appends_load_const appends_patch appends_address_load appends_address_store
  appends_store_params appends_back_jump appends_patch_self appends_patch_letrec appends_close_guard appends_closure

lemma appends_If:
  assumes "appends st st1" "appends (emit_instr JumpIfFalse_op 0 sp st1) st2"
    and "appends (patch_arg (code_size st1) x (emit_instr Jump_op 0 sp st2)) st5"
  shows "appends st (patch_arg (code_size st2) y st5)"
proof -
  have 2: "appends st st2" using assms(1,2) appends_emit_instr appends_trans by blast
  have "appends st (patch_arg (code_size st1) x (emit_instr Jump_op 0 sp st2))"
    by (intro appends_patch appends_emit_instr 2 appends_size assms)
  then show ?thesis using assms(3) appends_size [OF 2] by (blast intro: appends_patch appends_trans)
qed

lemma appends_emit:
  "emit_node env e st = Some st' \<Longrightarrow> appends st st'"
  "emit_all env es st = Some st' \<Longrightarrow> appends st st'"
  "emit_body env sp inits i es st = Some st' \<Longrightarrow> appends st st'"
proof (induction env e st and env es st and env sp inits i es st
    arbitrary: st' and st' and st' rule: emit_node_emit_all_emit_body.induct)
  case (1 env nt l st) then show ?case by (simp add: appends_emit_const)
next
  case (2 env nt a st) then show ?case by (auto simp: appends_address_load)
next
  case (3 env nt d st) then show ?case by (simp add: appends_emit_quote)
next
  case (4 env nt f args st)
  show ?case
  proof (cases "if n_tail nt then self_tail_target f args st else None")
    case None
    then show ?thesis using 4
      by (auto split: option.splits bind_splits simp: bind_eq_Some_conv intro!: appends_emit_instr intro: appends_trans)
  next
    case (Some al)
    then show ?thesis using 4 by (auto intro!: appends_back_jump appends_store_params)
  qed
next
  case (6 env nt t c a st)
  then obtain st1 st2 st5 where s: "emit_node env t st = Some st1"
      "emit_node env c (emit_instr JumpIfFalse_op 0 (n_span nt) st1) = Some st2"
      "emit_node env a (patch_arg (code_size st1) (of_nat (code_size (emit_instr Jump_op 0 (n_span nt) st2) - code_size st1 - 1))
          (emit_instr Jump_op 0 (n_span nt) st2)) = Some st5"
      "st' = patch_arg (code_size st2) (of_nat (code_size st5 - code_size st2 - 1)) st5"
    by (auto simp: bind_eq_Some_conv Let_def)
  show ?case unfolding s(4)
    by (rule appends_If [OF 6(1) 6(2) 6(3)]) (use s in auto)
next
  case (8 env nt l b st)
  then obtain st1 where "emit_node env b (enter_lambda env l st) = Some st1"
      "st' = (let (i, st2) = leave_lambda (n_span nt) st st1 in emit_closure l (n_span nt) i st2)"
    by auto
  then show ?case using appends_lambda [OF 8(1)] by (auto split: prod.splits intro!: appends_closure) (metis snd_conv)
next
  case (9 env nt a v st)
  then show ?case by (auto intro!: append_rules dest: appends_announce)
next
  case (12 env nt b1 b2 b3 st)
  then show ?case
    by (auto simp: bind_eq_Some_conv intro!: appends_emit_instr) (meson appends_trans)
next
  case (15 env nt tg v st)
  then show ?case
    by (auto split: prod.splits intro!: appends_emit_instr)
       (metis appends_load_const appends_tag appends_refl appends_trans snd_conv)
next
  case (16 env nt tg b st)
  obtain t st1 where t: "tag_value tg st = (t, st1)" by fastforce
  obtain k st2 where k: "add_const t st1 = (k, st2)" by fastforce
  have g: "appends st st2" using appends_add_const [OF appends_tag [OF appends_refl], of st t tg] t k by (metis snd_conv)
  obtain st3 where b: "emit_node env b (emit_instr SetupCatch_op 0 (n_span nt) st2) = Some st3"
      "st' = close_guard k (code_size st2) (emit_instr PopCatch_op 0 (n_span nt) st3)"
    using 16(2) t k by (auto simp: Let_def)
  have "appends (emit_instr SetupCatch_op 0 (n_span nt) st2) st3"
    by (rule 16(1)) (use t k b in auto)
  then show ?case unfolding b(2)
    by (intro appends_close_guard appends_emit_instr appends_size g) (blast intro: g appends_trans appends_emit_instr appends_refl)
next
  case (26 env sp inits i e es st)
  then obtain st1 where 1: "emit_node env e st = Some st1" by (auto simp: bind_eq_Some_conv)
  let ?a = "if es = [] then st1 else emit_instr Pop_op 0 (n_span (info_of e)) st1"
  let ?b = "if length inits > 1 \<and> i + 1 = length inits then patch_letrec inits sp ?a else ?a"
  have 2: "emit_body env sp inits (i + 1) es ?b = Some st'" using 26(3) 1 by (simp add: Let_def)
  have g1: "appends st st1" by (rule 26(1) [OF 1])
  have g2: "appends ?b st'" by (rule 26(2) [OF 1 refl refl]) (use 2 in simp)
  have "appends st ?b" using g1 by (simp add: append_rules)
  then show ?case using g2 by (rule appends_trans)
qed (auto simp: bind_eq_Some_conv intro!: appends_emit_instr intro: appends_trans)


section \<open>Emitted functions are structurally sound\<close>

text \<open>
  While a function is being emitted a jump may lead to the instruction that comes next
  (\<open>jump_ok\<close>); in the finished function it leads to an instruction of the function (\<open>jump_inside\<close>),
  since the loop of the machine leaves a function without a return when it runs past its end.
\<close>

definition jump_ok :: "nat \<Rightarrow> nat \<Rightarrow> nat \<Rightarrow> instruction \<Rightarrow> bool" where
  "jump_ok nconsts len i ins = (case opcode ins of
       Jump_op \<Rightarrow> 0 \<le> int i + 1 + sint (arg ins) \<and> int i + 1 + sint (arg ins) \<le> int len
     | JumpIfFalse_op \<Rightarrow> i + 1 + unat (arg ins) \<le> len
     | SetupCatch_op \<Rightarrow> i + 1 + unat (arg ins AND 0xFFFF) \<le> len \<and> unat (drop_bit 16 (arg ins)) < nconsts
     | _ \<Rightarrow> True)"

definition jump_inside :: "nat \<Rightarrow> nat \<Rightarrow> nat \<Rightarrow> instruction \<Rightarrow> bool" where
  "jump_inside nconsts len i ins = (case opcode ins of
       Jump_op \<Rightarrow> 0 \<le> int i + 1 + sint (arg ins) \<and> int i + 1 + sint (arg ins) < int len
     | JumpIfFalse_op \<Rightarrow> i + 1 + unat (arg ins) < len
     | SetupCatch_op \<Rightarrow> i + 1 + unat (arg ins AND 0xFFFF) < len \<and> unat (drop_bit 16 (arg ins)) < nconsts
     | _ \<Rightarrow> True)"

lemma jump_ok_inside: "jump_ok n len i ins \<Longrightarrow> len < len' \<Longrightarrow> jump_inside n len' i ins"
  by (auto simp: jump_ok_def jump_inside_def split: opcode.splits)

definition sound_code :: "bytecode_function \<Rightarrow> bool" where
  "sound_code f \<longleftrightarrow> verify_function f
     \<and> (\<forall>i < length (fn_code f). jump_ok (length (constants f)) (length (fn_code f)) i (fn_code f ! i))"

definition closed_function :: "bytecode_function \<Rightarrow> bool" where
  "closed_function f \<longleftrightarrow> verify_function f
     \<and> (\<forall>i < length (fn_code f). jump_inside (length (constants f)) (length (fn_code f)) i (fn_code f ! i))
     \<and> fn_code f \<noteq> [] \<and> opcode (last (fn_code f)) = Return_op
     \<and> length (source_map f) = length (fn_code f)"

text \<open>The slots that the analyzer gives to local variables fit the frame of their function.\<close>

definition address_ok :: "u32 \<Rightarrow> address \<Rightarrow> bool" where
  "address_ok n a = (case a of Local s \<Rightarrow> ucast s < n | _ \<Rightarrow> True)"

definition lambda_ok :: "binding list \<Rightarrow> u32 \<Rightarrow> lambda_info \<Rightarrow> bool" where
  "lambda_ok bs n l \<longleftrightarrow> list_all (address_ok n) (upval_sources l) \<and> length (upval_sources l) < 65536
     \<and> list_all (\<lambda>p. unat p < length bs \<longrightarrow> ucast (b_slot (bs ! unat p)) < lam_stack_size l) (lam_params l)"

fun slots_ok :: "binding list \<Rightarrow> u32 \<Rightarrow> node \<Rightarrow> bool" where
  "slots_ok bs n (Var_n _ a) = address_ok n a"
| "slots_ok bs n (If_n _ a b c) = (slots_ok bs n a \<and> slots_ok bs n b \<and> slots_ok bs n c)"
| "slots_ok bs n (Begin_n _ es) = list_all (slots_ok bs n) es"
| "slots_ok bs n (Set_n _ a v) = (address_ok n a \<and> slots_ok bs n v)"
| "slots_ok bs n (Lambda_n _ l b) = (lambda_ok bs n l \<and> slots_ok bs (lam_stack_size l) b)"
| "slots_ok bs n (Call_n _ f args) = (slots_ok bs n f \<and> list_all (slots_ok bs n) args)"
| "slots_ok bs n (PrimitiveCall_n _ k args) = list_all (slots_ok bs n) args"
| "slots_ok bs n (DynamicWind_n _ a b c) = (slots_ok bs n a \<and> slots_ok bs n b \<and> slots_ok bs n c)"
| "slots_ok bs n (Values_n _ es) = list_all (slots_ok bs n) es"
| "slots_ok bs n (CallWithValues_n _ p c) = (slots_ok bs n p \<and> slots_ok bs n c)"
| "slots_ok bs n (CallCC_n _ c) = slots_ok bs n c"
| "slots_ok bs n (Apply_n _ f args) = (slots_ok bs n f \<and> list_all (slots_ok bs n) args)"
| "slots_ok bs n (Raise_n _ tg v) = slots_ok bs n v"
| "slots_ok bs n (Guard_n _ tg b) = slots_ok bs n b"
| "slots_ok bs n (Unify_n _ a b) = (slots_ok bs n a \<and> slots_ok bs n b)"
| "slots_ok bs n (DerefLogicVar_n _ v) = slots_ok bs n v"
| "slots_ok bs n (UnwindTrail_n _ m) = slots_ok bs n m"
| "slots_ok bs n (CopyTerm_n _ t) = slots_ok bs n t"
| "slots_ok bs n (Const_n _ l) = True"
| "slots_ok bs n (Quote_n _ d) = True"
| "slots_ok bs n (MakeLogicVar_n _) = True"
| "slots_ok bs n (TrailMark_n _) = True"

abbreviation frame_size :: "emit_state \<Rightarrow> u32" where
  "frame_size st \<equiv> stack_size (es_func st)"

abbreviation nconsts :: "emit_state \<Rightarrow> nat" where
  "nconsts st \<equiv> length (constants (es_func st))"

text \<open>What holds of the state between two nodes; \<open>k\<close> functions were in the registry at the start.\<close>

definition emit_inv :: "nat \<Rightarrow> emit_state \<Rightarrow> bool" where
  "emit_inv k st \<longleftrightarrow> sound_code (es_func st)
     \<and> length (source_map (es_func st)) = code_size st
     \<and> k \<le> length (es_registry st) \<and> list_all closed_function (drop k (es_registry st))
     \<and> (\<forall>s i. string_cache st s = Some i \<longrightarrow> unat i < nconsts st)
     \<and> list_all (\<lambda>al. entry_pc al = 0) (active_lambdas st)
     \<and> (active_lambdas st \<noteq> [] \<longrightarrow> list_all (\<lambda>s. ucast s < frame_size st) (param_slots (last (active_lambdas st))))"

definition small :: "nat \<Rightarrow> emit_state \<Rightarrow> bool" where
  "small k st \<longleftrightarrow> code_size st \<le> 2 ^ 31 \<and> list_all (\<lambda>f. length (fn_code f) \<le> 2 ^ 31) (drop k (es_registry st))"

lemma small_before: "appends a b \<Longrightarrow> small k b \<Longrightarrow> small k a"
  using appends_size [of a b] by (auto simp: small_def appends_def prefix_def)

lemma jump_ok_mono: "jump_ok n len i ins \<Longrightarrow> n \<le> n' \<Longrightarrow> len \<le> len' \<Longrightarrow> jump_ok n' len' i ins"
  by (auto simp: jump_ok_def split: opcode.splits)

lemma verify_mono: "verify_instruction n s ins \<Longrightarrow> n \<le> n' \<Longrightarrow> verify_instruction n' s ins"
  by (auto simp: verify_instruction_iff instruction_ok_def)

lemma inv_instr:
  assumes "emit_inv k st" "verify_instruction (nconsts st) (frame_size st) (mk_instr op a)"
    and "jump_ok (nconsts st) (Suc (code_size st)) (code_size st) (mk_instr op a)"
  shows "emit_inv k (emit_instr op a sp st)"
  using assms jump_ok_mono [of "nconsts st" "code_size st" _ _ "nconsts st" "Suc (code_size st)"]
  by (auto simp: emit_inv_def sound_code_def verify_function_def emit_instr_def code_size_def nth_append less_Suc_eq
      simp del: not_less)

text \<open>The instructions that neither the verifier nor the jump condition looks into.\<close>

definition simple_op :: "opcode \<Rightarrow> bool" where
  "simple_op op \<longleftrightarrow> op \<in> set named_ops
     - {LoadConst_op, LoadLocal_op, StoreLocal_op, MakeClosure_op, Jump_op, JumpIfFalse_op, SetupCatch_op}"

lemma inv_simple: "emit_inv k st \<Longrightarrow> simple_op op \<Longrightarrow> emit_inv k (emit_instr op a sp st)"
  by (rule inv_instr)
     (auto simp: simple_op_def verify_instruction_iff instruction_ok_def mk_instr_def jump_ok_def split: opcode.splits)

lemma simple_ops [simp]:
  "simple_op Return_op" "simple_op Pop_op" "simple_op Call_op" "simple_op TailCall_op" "simple_op Values_op"
  "simple_op CallWithValues_op" "simple_op DynamicWind_op" "simple_op CallCC_op" "simple_op Apply_op"
  "simple_op TailApply_op" "simple_op Throw_op" "simple_op PopCatch_op" "simple_op MakeLogicVar_op"
  "simple_op Unify_op" "simple_op DerefLogicVar_op" "simple_op TrailMark_op" "simple_op UnwindTrail_op"
  "simple_op CopyTerm_op" "simple_op PatchClosureUpval_op" "simple_op LoadUpval_op" "simple_op StoreUpval_op"
  "simple_op LoadGlobal_op" "simple_op StoreGlobal_op" "simple_op (opcode_for_primitive pk)"
  by (simp_all add: simple_op_def named_ops_def opcode_for_primitive_def split: primitive_kind.splits)

lemma inv_local:
  "emit_inv k st \<Longrightarrow> op \<in> {LoadLocal_op, StoreLocal_op} \<Longrightarrow> a < frame_size st \<Longrightarrow> emit_inv k (emit_instr op a sp st)"
  by (rule inv_instr)
     (auto simp: verify_instruction_iff instruction_ok_def mk_instr_def jump_ok_def named_ops_def word_less_nat_alt)

lemma inv_add_const: "emit_inv k st \<Longrightarrow> emit_inv k (snd (add_const v st))"
  by (auto simp: emit_inv_def sound_code_def verify_function_def add_const_def code_size_def list_all_iff
      intro: verify_mono jump_ok_mono less_SucI)

lemma unat_of_nat_le: "unat (of_nat n :: 'a::len word) \<le> n"
  by (simp add: unat_of_nat take_bit_nat_less_eq_self)

lemma inv_load_const: "emit_inv k st \<Longrightarrow> emit_inv k (snd (emit_load_const v sp st))"
proof -
  assume i: "emit_inv k st"
  have "unat (of_nat (nconsts st) :: u32) < Suc (nconsts st)" using unat_of_nat_le le_imp_less_Suc by blast
  then show ?thesis
    using inv_add_const [OF i, of v]
    by (auto simp: emit_load_const_def add_const_def Let_def verify_instruction_iff instruction_ok_def mk_instr_def
        jump_ok_def named_ops_def intro!: inv_instr)
qed

lemma inv_address_load: "emit_inv k st \<Longrightarrow> address_ok (frame_size st) a \<Longrightarrow> emit_inv k (emit_address_load a sp st)"
  by (cases a) (simp_all add: emit_address_load_def inv_simple inv_local address_ok_def)

lemma inv_address_store: "emit_inv k st \<Longrightarrow> address_ok (frame_size st) a \<Longrightarrow> emit_inv k (emit_address_store a sp st)"
  by (cases a) (simp_all add: emit_address_store_def inv_simple inv_local address_ok_def)

lemma frame_size_appends: "appends a b \<Longrightarrow> frame_size b = frame_size a"
  by (simp add: appends_def header_def) (metis bytecode_function.select_convs(6) bytecode_function.surjective bytecode_function.update_convs(1,2,3))

lemma frame_size_instr [simp]: "frame_size (emit_instr op a sp st) = frame_size st"
  by (simp add: emit_instr_def)

lemma inv_fold:
  "emit_inv k st \<Longrightarrow> (\<And>x s. x \<in> set xs \<Longrightarrow> emit_inv k s \<Longrightarrow> frame_size s = frame_size st
      \<Longrightarrow> emit_inv k (f x s) \<and> frame_size (f x s) = frame_size s)
   \<Longrightarrow> emit_inv k (fold f xs st) \<and> frame_size (fold f xs st) = frame_size st"
  by (induction xs arbitrary: st) auto

lemma inv_same_code: "same_code a b \<Longrightarrow> emit_inv k a \<Longrightarrow> emit_inv k b"
  by (simp add: same_code_def emit_inv_def code_size_def)

lemma inv_patch:
  assumes "emit_inv k st" "i < code_size st"
    and "jump_ok (nconsts st) (code_size st) i ((fn_code (es_func st) ! i)\<lparr> arg := a \<rparr>)"
    and "opcode (fn_code (es_func st) ! i) \<in> {Jump_op, JumpIfFalse_op, SetupCatch_op}"
  shows "emit_inv k (patch_arg i a st)"
proof -
  have "verify_instruction (nconsts st) (frame_size st) ((fn_code (es_func st) ! i)\<lparr> arg := a \<rparr>)"
    using assms by (auto simp: emit_inv_def sound_code_def verify_function_def verify_instruction_iff
        instruction_ok_def list_all_length code_size_def)
  then show ?thesis
    using assms by (auto simp: emit_inv_def sound_code_def verify_function_def patch_arg_def code_size_def
        nth_list_update list_all_length)
qed


text \<open>The return that ends a function closes it: it is a target for the jumps to the end.\<close>

lemma closed_return:
  assumes "emit_inv k st"
  shows "closed_function (es_func (emit_instr Return_op a sp st))"
proof -
  let ?f = "es_func (emit_instr Return_op a sp st)"
  have i: "emit_inv k (emit_instr Return_op a sp st)" by (rule inv_simple [OF assms]) simp
  have "jump_inside (length (constants ?f)) (length (fn_code ?f)) i (fn_code ?f ! i)" if "i < length (fn_code ?f)" for i
  proof (cases "i < code_size st")
    case True
    then have "jump_ok (nconsts st) (code_size st) i (fn_code (es_func st) ! i)"
      using assms by (simp add: emit_inv_def sound_code_def code_size_def)
    then show ?thesis using True jump_ok_inside by (simp add: emit_instr_def code_size_def nth_append)
  next
    case False
    then have "i = code_size st" using that by (simp add: emit_instr_def code_size_def)
    then show ?thesis by (simp add: emit_instr_def code_size_def mk_instr_def jump_inside_def)
  qed
  then show ?thesis using i
    by (auto simp: emit_inv_def sound_code_def closed_function_def code_size_def emit_instr_def mk_instr_def)
qed


subsection \<open>Jumps, closures and functions\<close>

lemma pack_hi: "unat x < 65536 \<Longrightarrow> drop_bit 16 (push_bit 16 c OR x) = (c AND mask 16 :: u32)"
proof -
  assume "unat x < 65536"
  then have "drop_bit 16 x = 0"
    by (simp add: word_unat_eq_iff unat_div drop_bit_eq_div)
  then show ?thesis by (intro bit_word_eqI) (auto simp: bit_simps dest: bit_imp_le_length)
qed

lemma unat_and_le: "unat (a AND b) \<le> unat (a :: 'a::len word)"
  by (metis word_and_le1 and.commute word_le_nat_alt)

lemma unat_pack_le: "unat (drop_bit 16 (push_bit 16 c) :: u32) \<le> unat c"
  using pack_hi [of 0 c] by (simp add: unat_and_le)

lemma pack_lo: "(push_bit 16 c OR x) AND 0xFFFF = x AND (0xFFFF :: u32)"
proof -
  have m: "(0xFFFF :: u32) = mask 16" by (simp add: mask_eq_exp_minus_1)
  show ?thesis unfolding m by (rule bit_word_eqI) (auto simp: bit_simps)
qed

lemma low_half_small: "unat (x AND 0xFFFF :: u32) < 65536"
proof -
  have "unat (x AND 0xFFFF) \<le> unat (0xFFFF :: u32)" by (metis unat_and_le and.commute)
  then show ?thesis by simp
qed

lemma sint_of_small: "n < 2 ^ 31 \<Longrightarrow> sint (of_nat n :: u32) = int n"
  by (simp add: signed_of_nat signed_take_bit_int_eq_self)

lemma instr_placed:
  assumes "appends (emit_instr op a sp st) st'"
  shows "fn_code (es_func st') ! code_size st = mk_instr op a" "code_size st < code_size st'"
  using assms appends_size [OF assms] by (auto simp: appends_def emit_instr_def code_size_def prefix_def)

lemma inv_If:
  assumes i: "emit_inv k st1" "emit_inv k (emit_instr JumpIfFalse_op 0 sp st1) \<Longrightarrow> emit_inv k st2"
    and g: "appends (emit_instr JumpIfFalse_op 0 sp st1) st2"
    and st4: "st4 = patch_arg (code_size st1) (of_nat (Suc (code_size st2) - code_size st1 - 1)) (emit_instr Jump_op 0 sp st2)"
    and e: "emit_inv k st4 \<Longrightarrow> emit_inv k st5" "appends st4 st5" "code_size st5 \<le> 2 ^ 31"
  shows "emit_inv k (patch_arg (code_size st2) (of_nat (code_size st5 - code_size st2 - 1)) st5)"
proof -
  have "emit_inv k (emit_instr JumpIfFalse_op 0 sp st1)"
    by (rule inv_instr [OF i(1)]) (simp_all add: verify_instruction_iff instruction_ok_def mk_instr_def jump_ok_def named_ops_def)
  then have 2: "emit_inv k st2" by (rule i(2))
  have 3: "emit_inv k (emit_instr Jump_op 0 sp st2)"
    by (rule inv_instr [OF 2]) (simp_all add: verify_instruction_iff instruction_ok_def mk_instr_def jump_ok_def named_ops_def)
  have g3: "appends (emit_instr JumpIfFalse_op 0 sp st1) (emit_instr Jump_op 0 sp st2)" by (rule appends_emit_instr [OF g])
  have le: "code_size st1 < code_size st2" using appends_size [OF g] by simp
  have "unat (of_nat (Suc (code_size st2) - code_size st1 - 1) :: u32) \<le> Suc (code_size st2) - code_size st1 - 1"
    by (rule unat_of_nat_le)
  then have 4: "emit_inv k st4" unfolding st4
    by (intro inv_patch [OF 3]) (use instr_placed [OF g3] le in \<open>auto simp: mk_instr_def jump_ok_def\<close>)
  have 5: "emit_inv k st5" by (rule e(1) [OF 4])
  have p: "fn_code (es_func st4) ! code_size st2 = mk_instr Jump_op 0"
    using le by (simp add: st4 patch_arg_def emit_instr_def code_size_def nth_append)
  have s: "code_size st2 < code_size st5" using appends_size [OF e(2)] by (simp add: st4)
  have p5: "fn_code (es_func st5) ! code_size st2 = mk_instr Jump_op 0"
    using e(2) p le by (auto simp: appends_def prefix_def nth_append code_size_def st4 patch_arg_def emit_instr_def)
  have "sint (of_nat (code_size st5 - code_size st2 - 1) :: u32) = int (code_size st5 - code_size st2 - 1)"
    using e(3) s by (intro sint_of_small) simp
  then show ?thesis
    by (intro inv_patch [OF 5]) (use p5 s in \<open>auto simp: mk_instr_def jump_ok_def\<close>)
qed


lemma inv_close_guard:
  assumes i: "emit_inv k st" and t: "setup < code_size st" "unat c < nconsts st"
    and o: "opcode (fn_code (es_func st) ! setup) = SetupCatch_op"
  shows "emit_inv k (close_guard c setup st)"
proof -
  let ?off = "of_nat (code_size st) - (of_nat setup + 1) :: u32"
  have "?off = of_nat (code_size st - setup - 1)" using t(1) by (simp add: of_nat_diff)
  then have "unat ?off \<le> code_size st - setup - 1" using unat_of_nat_le by metis
  then have lo: "unat (?off AND 0xFFFF) \<le> code_size st - setup - 1" using unat_and_le le_trans by blast
  have hi: "drop_bit 16 (push_bit 16 c OR (?off AND 0xFFFF)) = c AND mask 16"
    by (rule pack_hi [OF low_half_small])
  have "unat (drop_bit 16 (push_bit 16 c)) \<le> unat c" by (rule unat_pack_le)
  then show ?thesis unfolding close_guard_def Let_def
    by (intro inv_patch [OF i t(1)])
       (use o t lo in \<open>simp_all add: jump_ok_def hi pack_lo\<close>)
qed

lemma inv_closure:
  assumes i: "emit_inv k st" and l: "lambda_ok bs (frame_size st) l"
  shows "emit_inv k (emit_closure l sp f st)"
proof -
  obtain c st1 where a: "add_const (encode_func_index f) st = (c, st1)" by fastforce
  have 1: "emit_inv k st1" "frame_size st1 = frame_size st"
    using inv_add_const [OF i, of "encode_func_index f"] a by (auto simp: add_const_def)
  have c: "unat c < nconsts st1"
    using a unat_of_nat_le [of "nconsts st", where 'a = 32] by (auto simp: add_const_def less_Suc_eq_le)
  let ?st2 = "fold (\<lambda>a. emit_address_load a sp) (upval_sources l) st1"
  have fs: "frame_size (emit_address_load a sp s) = frame_size s" for a s
    by (cases a) (simp_all add: emit_address_load_def)
  have "emit_inv k ?st2 \<and> frame_size ?st2 = frame_size st1"
    by (rule inv_fold [OF 1(1)]) (use l 1(2) in \<open>auto simp: lambda_ok_def list_all_iff fs intro!: inv_address_load\<close>)
  then have 2: "emit_inv k ?st2" "frame_size ?st2 = frame_size st1" by auto
  have "appends st1 ?st2" by (intro appends_fold appends_address_load) auto
  then have "nconsts st1 \<le> nconsts ?st2" by (simp add: appends_def prefix_length_le)
  moreover have "unat (of_nat (length (upval_sources l)) :: u32) < 65536"
    using l unat_of_nat_le [of "length (upval_sources l)", where 'a = 32] by (simp add: lambda_ok_def)
  moreover have "unat (c AND mask 16) \<le> unat c" by (rule unat_and_le)
  ultimately have "unat (drop_bit 16 (push_bit 16 c OR of_nat (length (upval_sources l)))) < nconsts ?st2"
    using c by (subst pack_hi) auto
  then show ?thesis
    by (auto simp: emit_closure_def a Let_def verify_instruction_iff instruction_ok_def mk_instr_def named_ops_def
        jump_ok_def intro!: inv_instr [OF 2(1)])
qed

lemma inv_enter: "emit_inv k st \<Longrightarrow> lambda_ok (bindings (ee_sem env)) n l \<Longrightarrow> emit_inv k (enter_lambda env l st)"
  by (auto simp: emit_inv_def enter_lambda_def new_function_def sound_code_def verify_function_def code_size_def
      active_of_def Let_def lambda_ok_def list_all_iff empty_function_def)

lemma inv_leave:
  assumes i: "emit_inv k st" "emit_inv k st1" and g: "appends (enter_lambda env l st) st1"
  shows "emit_inv k (snd (leave_lambda sp st st1))"
proof -
  have a: "active_lambdas st1 = active_lambdas st @ [active_of env l (pending_self st)]"
    using g by (simp add: appends_def enter_lambda_def)
  have "closed_function (es_func (emit_instr Return_op 0 sp st1))" by (rule closed_return [OF i(2)])
  then show ?thesis
    using i a by (auto simp: emit_inv_def leave_lambda_def registry_add_def Let_def emit_instr_def code_size_def)
qed

lemma inv_store_params:
  "emit_inv k st \<Longrightarrow> list_all (\<lambda>s. ucast s < frame_size st) ps
   \<Longrightarrow> emit_inv k (store_params ps sp st) \<and> frame_size (store_params ps sp st) = frame_size st"
  unfolding store_params_def by (rule inv_fold) (auto simp: list_all_iff intro!: inv_local)

lemma inv_back_jump: "emit_inv k st \<Longrightarrow> code_size st < 2 ^ 31 \<Longrightarrow> emit_inv k (emit_back_jump 0 sp st)"
proof -
  assume i: "emit_inv k st" and s: "code_size st < 2 ^ 31"
  have "sint (word_of_int (- int (Suc (code_size st))) :: u32) = - int (Suc (code_size st))"
    using s by (simp only: signed_of_int) (simp add: signed_take_bit_int_eq_self)
  then show ?thesis using i unfolding emit_back_jump_def
    by (intro inv_instr) (auto simp: verify_instruction_iff instruction_ok_def mk_instr_def jump_ok_def named_ops_def)
qed

lemma inv_patches:
  "emit_inv k st \<Longrightarrow> (\<And>e l i. (e, l, i) \<in> set ps \<Longrightarrow> ucast e < frame_size st \<and> ucast l < frame_size st)
   \<Longrightarrow> emit_inv k (fold (\<lambda>(e, l, i). emit_cross_patch e l sp i) ps st)"
proof -
  assume i: "emit_inv k st" and p: "\<And>e l i. (e, l, i) \<in> set ps \<Longrightarrow> ucast e < frame_size st \<and> ucast l < frame_size st"
  have one: "emit_inv k (emit_cross_patch e l sp j s) \<and> frame_size (emit_cross_patch e l sp j s) = frame_size s"
    if "emit_inv k s" "ucast e < frame_size s" "ucast l < frame_size s" for e l j s
    using that unfolding emit_cross_patch_def by (auto intro!: inv_simple [of _ _ PatchClosureUpval_op] inv_local)
  show ?thesis
    by (rule conjunct1 [OF inv_fold [OF i]]) (use one p in \<open>fastforce\<close>)
qed


lemma inv_patch_self:
  assumes i: "emit_inv k st" and a: "address_ok (frame_size st) ad"
  shows "emit_inv k (patch_self ad v sp st)"
proof -
  have one: "emit_inv k (emit_self_patch slot sp j s) \<and> frame_size (emit_self_patch slot sp j s) = frame_size s"
    if "emit_inv k s" "ucast slot < frame_size s" for slot j s
    using that unfolding emit_self_patch_def by (auto intro!: inv_simple [of _ _ PatchClosureUpval_op] inv_local)
  have "emit_inv k (fold (emit_self_patch slot sp) js st)" if "ucast slot < frame_size st" for slot js
    by (rule conjunct1 [OF inv_fold [OF i]]) (use one that in fastforce)
  then show ?thesis using i a by (auto simp: patch_self_def address_ok_def split: node.splits address.splits)
qed

lemma letrec_inits_slots:
  "list_all (slots_ok bs n) es \<Longrightarrow> x \<in> set (letrec_inits es) \<Longrightarrow> ucast (fst x) < n"
  by (induction es rule: letrec_inits.induct) (auto simp: address_ok_def)

lemma cross_patches_slots:
  "(e, l, i) \<in> set (cross_patches is) \<Longrightarrow> e \<in> fst ` set is \<and> l \<in> fst ` set is"
  by (auto simp: cross_patches_def)

lemma inv_patch_letrec:
  "emit_inv k st \<Longrightarrow> (\<And>x. x \<in> set is \<Longrightarrow> ucast (fst x) < frame_size st) \<Longrightarrow> emit_inv k (patch_letrec is sp st)"
  unfolding patch_letrec_def by (rule inv_patches) (auto dest!: cross_patches_slots)

lemma inv_emit_const: "emit_const env l sp st = Some st' \<Longrightarrow> emit_inv k st \<Longrightarrow> emit_inv k st'"
proof -
  assume e: "emit_const env l sp st = Some st'" and i: "emit_inv k st"
  show ?thesis
  proof (cases "cached_string l st")
    case (Some j)
    then have "unat j < nconsts st" using i by (auto simp: cached_string_def emit_inv_def split: literal.splits)
    then show ?thesis using e i Some
      by (auto simp: emit_const_def verify_instruction_iff instruction_ok_def mk_instr_def named_ops_def jump_ok_def
          intro!: inv_instr)
  next
    case None
    then obtain v st1 where v: "literal_value env l st = (Some v, st1)"
        "st' = (let (i, st2) = emit_load_const v sp st1 in cache_string l i st2)"
      using e by (auto simp: emit_const_def split: prod.splits option.splits)
    have 1: "emit_inv k st1" using inv_same_code [OF same_code_literal i, of env l] v(1) by simp
    obtain j st2 where l: "emit_load_const v sp st1 = (j, st2)" by fastforce
    have 2: "emit_inv k st2" using inv_load_const [OF 1, of v sp] l by simp
    have "unat j < nconsts st2"
      using l unat_of_nat_le [of "nconsts st1", where 'a = 32]
      by (auto simp: emit_load_const_def add_const_def Let_def emit_instr_def less_Suc_eq_le)
    then show ?thesis using 2 v(2) l
      by (cases l) (auto simp: cache_string_def emit_inv_def code_size_def split: literal.splits)
  qed
qed

lemma inv_emit_quote: "emit_quote env d sp st = Some st' \<Longrightarrow> emit_inv k st \<Longrightarrow> emit_inv k st'"
  by (auto simp: emit_quote_def split: option.splits prod.splits intro!: inv_load_const)
     (metis inv_same_code same_code_datum snd_conv)+

lemma inv_tag: "emit_inv k st \<Longrightarrow> emit_inv k (snd (tag_value name st))"
  using inv_same_code same_code_tag by blast

lemma inv_announce [simp]: "emit_inv k (announce_self a v st) = emit_inv k st"
  by (auto simp: announce_self_def emit_inv_def code_size_def split: node.splits address.splits)

lemma frame_size_announce [simp]: "frame_size (announce_self a v st) = frame_size st"
  by (auto simp: announce_self_def split: node.splits address.splits)

lemma frame_size_enter [simp]: "frame_size (enter_lambda env l st) = lam_stack_size l"
  by (simp add: enter_lambda_def new_function_def)

lemma frame_size_store [simp]: "frame_size (emit_address_store a sp st) = frame_size st"
  by (cases a) (simp_all add: emit_address_store_def)

lemma self_tail_target_last:
  "self_tail_target f args st = Some al \<Longrightarrow> active_lambdas st \<noteq> [] \<and> al = last (active_lambdas st)"
  by (auto simp: self_tail_target_def Let_def split: if_splits node.splits address.splits)

lemma inv_self_jump:
  assumes i: "emit_inv k st1" and g: "appends st st1" and t: "self_tail_target f args st = Some al"
    and s: "small k (emit_back_jump (entry_pc al) sp (store_params (param_slots al) sp st1))"
  shows "emit_inv k (emit_back_jump (entry_pc al) sp (store_params (param_slots al) sp st1))"
proof -
  have al: "active_lambdas st1 \<noteq> []" "al = last (active_lambdas st1)"
    using self_tail_target_last [OF t] g by (auto simp: appends_def)
  then have "entry_pc al = 0" "list_all (\<lambda>s. ucast s < frame_size st1) (param_slots al)"
    using i by (auto simp: emit_inv_def list_all_iff)
  moreover from this have "emit_inv k (store_params (param_slots al) sp st1)" using inv_store_params [OF i] by blast
  moreover have "code_size (store_params (param_slots al) sp st1) < 2 ^ 31"
    using s by (simp add: small_def emit_back_jump_def)
  ultimately show ?thesis by (simp only: inv_back_jump)
qed


subsection \<open>Every node keeps the invariant\<close>

lemma small_instr: "small k (emit_instr op a sp st) \<Longrightarrow> small k st"
  by (erule small_before [rotated]) (simp add: appends_emit_instr)

lemma inv_emit:
  "emit_node env e st = Some st' \<Longrightarrow> emit_inv k st \<Longrightarrow> small k st' \<Longrightarrow>
     slots_ok (bindings (ee_sem env)) (frame_size st) e \<Longrightarrow> emit_inv k st'"
  "emit_all env es st = Some st' \<Longrightarrow> emit_inv k st \<Longrightarrow> small k st' \<Longrightarrow>
     list_all (slots_ok (bindings (ee_sem env)) (frame_size st)) es \<Longrightarrow> emit_inv k st'"
  "emit_body env sp inits i es st = Some st' \<Longrightarrow> emit_inv k st \<Longrightarrow> small k st' \<Longrightarrow>
     list_all (slots_ok (bindings (ee_sem env)) (frame_size st)) es \<Longrightarrow>
     (\<And>x. x \<in> set inits \<Longrightarrow> ucast (fst x) < frame_size st) \<Longrightarrow> emit_inv k st'"
proof (induction env e st and env es st and env sp inits i es st
    arbitrary: st' and st' and st' rule: emit_node_emit_all_emit_body.induct)
  case (1 env nt l st) then show ?case by (simp add: inv_emit_const)
next
  case (2 env nt a st) then show ?case by (auto simp: inv_address_load)
next
  case (3 env nt d st) then show ?case by (simp add: inv_emit_quote)
next
  case (4 env nt f args st)
  show ?case
  proof (cases "if n_tail nt then self_tail_target f args st else None")
    case None
    then obtain st1 st2 where s: "emit_node env f st1 = Some st2" "emit_all env args st = Some st1"
        "st' = emit_instr (if n_tail nt then TailCall_op else Call_op) (of_nat (length args)) (n_span nt) st2"
      using 4(4) by (auto simp: bind_eq_Some_conv)
    have g: "appends st st1" "appends st1 st2" using s appends_emit by blast+
    have m: "small k st2" "small k st1" using s 4(6) small_instr small_before [OF g(2)] by blast+
    have "emit_inv k st1" using 4(1) [OF None s(2) 4(5) m(2)] 4(7) by simp
    then have "emit_inv k st2" using 4(2) [OF None s(2) s(1) _ m(1)] 4(7) frame_size_appends [OF g(1)] by simp
    then show ?thesis unfolding s(3) by (intro inv_simple) auto
  next
    case (Some al)
    then obtain st1 where s: "emit_all env args st = Some st1"
        "st' = emit_back_jump (entry_pc al) (n_span nt) (store_params (param_slots al) (n_span nt) st1)"
      using 4(4) by auto
    have t: "self_tail_target f args st = Some al" using Some by (simp split: if_splits)
    have g: "appends st st1" using s appends_emit by blast
    have "small k st1"
      by (rule small_before [OF _ 4(6)]) (simp add: s(2) appends_back_jump appends_store_params)
    then have "emit_inv k st1" using 4(3) [OF Some s(1) 4(5)] 4(7) by simp
    then show ?thesis using inv_self_jump [OF _ g t] 4(6) unfolding s(2) by blast
  qed
next
  case (5 env nt pk args st)
  then show ?case by (auto intro!: inv_simple dest: small_instr)
next
  case (6 env nt t c a st)
  then obtain st1 st2 st5 where s: "emit_node env t st = Some st1"
      "emit_node env c (emit_instr JumpIfFalse_op 0 (n_span nt) st1) = Some st2"
      "emit_node env a (patch_arg (code_size st1) (of_nat (code_size (emit_instr Jump_op 0 (n_span nt) st2) - code_size st1 - 1))
          (emit_instr Jump_op 0 (n_span nt) st2)) = Some st5"
      "st' = patch_arg (code_size st2) (of_nat (code_size st5 - code_size st2 - 1)) st5"
    by (auto simp: bind_eq_Some_conv Let_def)
  define st4 where "st4 = patch_arg (code_size st1) (of_nat (Suc (code_size st2) - code_size st1 - 1))
      (emit_instr Jump_op 0 (n_span nt) st2)"
  note s3 = s(3) [simplified, folded st4_def [simplified]]
  have g1: "appends st st1" and g2: "appends (emit_instr JumpIfFalse_op 0 (n_span nt) st1) st2" and g5: "appends st4 st5"
    using s s3 appends_emit by (auto simp: st4_def)
  have g12: "appends st1 st2" using g2 appends_emit_instr appends_trans appends_refl by blast
  have g24: "appends st1 st4" using g12 appends_size [OF g12] unfolding st4_def
    by (intro appends_patch appends_emit_instr) auto
  have m5: "small k st5" using 6(6) by (auto simp: s(4) small_def patch_arg_def code_size_def)
  have m4: "small k st4" by (rule small_before [OF g5 m5])
  have m2: "small k st2" using m4 by (auto simp: st4_def small_def patch_arg_def code_size_def emit_instr_def)
  have m1: "small k st1" by (rule small_before [OF g12 m2])
  have fz: "frame_size st1 = frame_size st" "frame_size st4 = frame_size st"
    using frame_size_appends g1 g24 appends_trans by metis+
  have 1: "emit_inv k st1" using 6(1) [OF s(1) 6(5) m1] 6(7) by simp
  have 2: "emit_inv k st2" if "emit_inv k (emit_instr JumpIfFalse_op 0 (n_span nt) st1)"
    using 6(2) [OF s(1) s(2) that m2] 6(7) fz by simp
  have 5: "emit_inv k st5" if "emit_inv k st4"
    using 6(3) [OF s(1,2) refl _ s(3)] that m5 6(7) fz(2) by (simp add: st4_def)
  show ?case unfolding s(4)
    by (rule inv_If [OF 1 2 g2 st4_def 5 g5]) (use m5 in \<open>simp_all add: small_def\<close>)
next
  case (7 env nt es st)
  show ?case
    by (rule 7(1)) (use 7 letrec_inits_slots in \<open>auto\<close>)
next
  case (8 env nt l b st)
  then obtain st1 where s: "emit_node env b (enter_lambda env l st) = Some st1"
      "st' = (let (i, st2) = leave_lambda (n_span nt) st st1 in emit_closure l (n_span nt) i st2)"
    by auto
  obtain i st2 where v: "leave_lambda (n_span nt) st st1 = (i, st2)" by fastforce
  have l: "lambda_ok (bindings (ee_sem env)) (frame_size st) l" using 8(5) by simp
  have g: "appends (enter_lambda env l st) st1" using s appends_emit by blast
  have m2: "small k st2" by (rule small_before [OF _ 8(4)]) (simp add: s(2) v appends_closure)
  have "k \<le> length (es_registry st)" using 8(3) by (simp add: emit_inv_def)
  then have "k \<le> length (es_registry st1)" using g prefix_length_le by (fastforce simp: appends_def enter_lambda_def)
  then have m1: "small k st1" using v m2
    by (auto simp: small_def leave_lambda_def registry_add_def Let_def emit_instr_def code_size_def)
  have 1: "emit_inv k st1" using 8(1) [OF s(1) inv_enter [OF 8(3) l] m1] 8(5) by simp
  have 2: "emit_inv k st2" using inv_leave [OF 8(3) 1 g, of "n_span nt"] v by simp
  have "frame_size st2 = frame_size st" using v by (auto simp: leave_lambda_def Let_def registry_add_def)
  then show ?case using inv_closure [OF 2] l by (simp add: s(2) v)
next
  case (9 env nt a v st)
  then obtain st1 where s: "emit_node env v (announce_self a v st) = Some st1"
      "st' = snd (emit_load_const Nil_val (n_span nt) (patch_self a v (n_span nt) (emit_address_store a (n_span nt) st1)))"
    by auto
  have g: "appends st st1" using s appends_emit appends_announce by blast
  have m: "small k st1"
    by (rule small_before [OF _ 9(4)]) (simp add: s(2) append_rules)
  have ad: "address_ok (frame_size st1) a" using 9(5) frame_size_appends [OF g] by simp
  have "emit_inv k st1" using 9(1) [OF s(1) _ m] 9(3,5) by simp
  then have "emit_inv k (emit_address_store a (n_span nt) st1)" using ad by (rule inv_address_store)
  then show ?case unfolding s(2) using ad by (intro inv_load_const inv_patch_self) simp_all
next
  case (11 env nt p c st)
  then obtain st1 st2 where s: "emit_node env p st = Some st1" "emit_node env c st1 = Some st2"
      "st' = emit_instr CallWithValues_op 0 (n_span nt) st2"
    by (auto simp: bind_eq_Some_conv)
  have g: "appends st st1" "appends st1 st2" using s appends_emit by blast+
  have m: "small k st2" "small k st1" using s 11(5) small_instr small_before [OF g(2)] by blast+
  have "emit_inv k st1" using 11(1) [OF s(1) 11(4) m(2)] 11(6) by simp
  then have "emit_inv k st2" using 11(2) [OF s(1) s(2) _ m(1)] 11(6) frame_size_appends [OF g(1)] by simp
  then show ?case unfolding s(3) by (intro inv_simple) auto
next
  case (12 env nt b1 b2 b3 st)
  then obtain st1 st2 st3 where s: "emit_node env b1 st = Some st1" "emit_node env b2 st1 = Some st2"
      "emit_node env b3 st2 = Some st3" "st' = emit_instr DynamicWind_op 0 (n_span nt) st3"
    by (auto simp: bind_eq_Some_conv)
  have g: "appends st st1" "appends st1 st2" "appends st2 st3" using s appends_emit by blast+
  have m: "small k st3" "small k st2" "small k st1"
    using s 12(6) small_instr small_before [OF g(3)] small_before [OF g(2)] by blast+
  have fz: "frame_size st1 = frame_size st" "frame_size st2 = frame_size st"
    using frame_size_appends g appends_trans by metis+
  have "emit_inv k st1" using 12(1) [OF s(1) 12(5) m(3)] 12(7) by simp
  then have "emit_inv k st2" using 12(2) [OF s(1) s(2) _ m(2)] 12(7) fz by simp
  then have "emit_inv k st3" using 12(3) [OF s(1) s(2) s(3) _ m(1)] 12(7) fz by simp
  then show ?case unfolding s(4) by (intro inv_simple) auto
next
  case (14 env nt f args st)
  then obtain st1 st2 where s: "emit_node env f st1 = Some st2" "emit_all env args st = Some st1"
      "st' = emit_instr (if n_tail nt then TailApply_op else Apply_op) (of_nat (length args)) (n_span nt) st2"
    by (auto simp: bind_eq_Some_conv)
  have g: "appends st st1" "appends st1 st2" using s appends_emit by blast+
  have m: "small k st2" "small k st1" using s 14(5) small_instr small_before [OF g(2)] by blast+
  have "emit_inv k st1" using 14(1) [OF s(2) 14(4) m(2)] 14(6) by simp
  then have "emit_inv k st2" using 14(2) [OF s(2) s(1) _ m(1)] 14(6) frame_size_appends [OF g(1)] by simp
  then show ?case unfolding s(3) by (intro inv_simple) auto
next
  case (15 env nt tg v st)
  obtain t st1 where t: "tag_value tg st = (t, st1)" by fastforce
  define st2 where "st2 = snd (emit_load_const t (n_span nt) st1)"
  obtain st3 where s: "emit_node env v st2 = Some st3" "st' = emit_instr Throw_op 0 (n_span nt) st3"
    using 15(2) t by (auto simp: Let_def st2_def)
  have 2: "emit_inv k st2" unfolding st2_def using inv_tag [OF 15(3), of tg] t by (auto intro: inv_load_const)
  have "appends st st2" unfolding st2_def using appends_tag [OF appends_refl, of st tg] t by (auto intro: appends_load_const)
  then have "frame_size st2 = frame_size st" by (rule frame_size_appends)
  then have "emit_inv k st3" using 15(1) [OF t [symmetric] refl st2_def _ 2] s 15(4,5) small_instr by (auto simp: st2_def)
  then show ?case unfolding s(2) by (intro inv_simple) auto
next
  case (16 env nt tg b st)
  obtain t st1 where t: "tag_value tg st = (t, st1)" by fastforce
  obtain c st2 where c: "add_const t st1 = (c, st2)" by fastforce
  let ?s = "emit_instr SetupCatch_op 0 (n_span nt) st2"
  obtain st3 where s: "emit_node env b ?s = Some st3"
      "st' = close_guard c (code_size st2) (emit_instr PopCatch_op 0 (n_span nt) st3)"
    using 16(2) t c by (auto simp: Let_def)
  have 1: "emit_inv k st1" using inv_tag [OF 16(3), of tg] t by simp
  have 2: "emit_inv k st2" using inv_add_const [OF 1, of t] c by simp
  have cn: "unat c < nconsts st2"
    using c unat_of_nat_le [of "nconsts st1", where 'a = 32] by (auto simp: add_const_def less_Suc_eq_le)
  then have 3: "emit_inv k ?s"
    by (intro inv_instr [OF 2]) (auto simp: verify_instruction_iff instruction_ok_def mk_instr_def jump_ok_def named_ops_def)
  have g: "appends st st2" using appends_add_const [OF appends_tag [OF appends_refl], of st t tg] t c by (metis snd_conv)
  have g3: "appends ?s st3" using s appends_emit by blast
  have m: "small k st3" using 16(4) s(2)
    by (auto simp: small_def close_guard_def Let_def patch_arg_def emit_instr_def code_size_def)
  have "emit_inv k st3" using 16(1) [OF t [symmetric] refl c [symmetric] refl refl s(1) 3 m] 16(5) frame_size_appends [OF g]
    by simp
  then have "emit_inv k (emit_instr PopCatch_op 0 (n_span nt) st3)" by (intro inv_simple) auto
  moreover have g4: "appends ?s (emit_instr PopCatch_op 0 (n_span nt) st3)" by (rule appends_emit_instr [OF g3])
  moreover have "nconsts st2 \<le> nconsts st3" using g3 by (simp add: appends_def emit_instr_def prefix_length_le)
  ultimately show ?case unfolding s(2)
    by (intro inv_close_guard) (use cn instr_placed [OF g4] in \<open>auto simp: mk_instr_def emit_instr_def\<close>)
next
  case (18 env nt p c st)
  then obtain st1 st2 where s: "emit_node env p st = Some st1" "emit_node env c st1 = Some st2"
      "st' = emit_instr Unify_op 0 (n_span nt) st2"
    by (auto simp: bind_eq_Some_conv)
  have g: "appends st st1" "appends st1 st2" using s appends_emit by blast+
  have m: "small k st2" "small k st1" using s 18(5) small_instr small_before [OF g(2)] by blast+
  have "emit_inv k st1" using 18(1) [OF s(1) 18(4) m(2)] 18(6) by simp
  then have "emit_inv k st2" using 18(2) [OF s(1) s(2) _ m(1)] 18(6) frame_size_appends [OF g(1)] by simp
  then show ?case unfolding s(3) by (intro inv_simple) auto
next
  case (24 env e es st)
  then obtain st1 where s: "emit_node env e st = Some st1" "emit_all env es st1 = Some st'"
    by (auto simp: bind_eq_Some_conv)
  have g: "appends st st1" "appends st1 st'" using s appends_emit by blast+
  have m: "small k st1" by (rule small_before [OF g(2) 24(5)])
  have "emit_inv k st1" using 24(1) [OF s(1) 24(4) m] 24(6) by simp
  then show ?case using 24(2) [OF s(1) s(2) _ 24(5)] 24(6) frame_size_appends [OF g(1)] by simp
next
  case (26 env sp inits i e es st)
  then obtain st1 where 1: "emit_node env e st = Some st1" by (auto simp: bind_eq_Some_conv)
  let ?a = "if es = [] then st1 else emit_instr Pop_op 0 (n_span (info_of e)) st1"
  let ?b = "if length inits > 1 \<and> i + 1 = length inits then patch_letrec inits sp ?a else ?a"
  have 2: "emit_body env sp inits (i + 1) es ?b = Some st'" using 26(3) 1 by (simp add: Let_def)
  have g: "appends st st1" "appends ?b st'" using 1 2 appends_emit by blast+
  have gb: "appends st1 ?b" by (simp add: append_rules)
  have m: "small k st1" by (rule small_before [OF appends_trans [OF gb g(2)] 26(5)])
  have fz: "frame_size st1 = frame_size st" "frame_size ?b = frame_size st"
    by (rule frame_size_appends, fact) (rule frame_size_appends [OF appends_trans [OF g(1) gb]])
  have "emit_inv k st1" using 26(1) [OF 1 26(4) m] 26(6) by simp
  then have "emit_inv k ?a" by (simp add: inv_simple)
  then have "emit_inv k ?b" using 26(7) fz by (auto intro: inv_patch_letrec)
  then show ?case using 26(2) [OF 1 refl refl, of st'] 2 26(5,6,7) fz by simp
qed (auto intro!: inv_simple dest: small_instr)


section \<open>Modules\<close>

lemma inv_toplevel:
  "emit_toplevel env ns st = Some st' \<Longrightarrow> appends st st' \<and>
     (emit_inv k st \<longrightarrow> small k st' \<longrightarrow> list_all (slots_ok (bindings (ee_sem env)) (frame_size st)) ns \<longrightarrow> emit_inv k st')"
proof (induction ns arbitrary: st)
  case (Cons n ns)
  then obtain st1 where s: "emit_node env n st = Some st1"
      "emit_toplevel env ns (emit_instr Pop_op 0 (n_span (info_of n)) st1) = Some st'"
    by (auto simp: bind_eq_Some_conv)
  have g: "appends st st1" using s appends_emit by blast
  have i: "appends (emit_instr Pop_op 0 (n_span (info_of n)) st1) st' \<and>
     (emit_inv k (emit_instr Pop_op 0 (n_span (info_of n)) st1) \<longrightarrow> small k st' \<longrightarrow>
        list_all (slots_ok (bindings (ee_sem env)) (frame_size st1)) ns \<longrightarrow> emit_inv k st')"
    using Cons.IH [OF s(2)] by simp
  then have g': "appends st1 st'" using appends_emit_instr [OF appends_refl] appends_trans by blast
  show ?case
  proof (intro conjI impI)
    show "appends st st'" using g g' by (rule appends_trans)
    assume a: "emit_inv k st" "small k st'" "list_all (slots_ok (bindings (ee_sem env)) (frame_size st)) (n # ns)"
    have "emit_inv k st1" using inv_emit(1) [OF s(1) a(1) small_before [OF g' a(2)]] a(3) by simp
    then show "emit_inv k st'" using i a(2,3) frame_size_appends [OF g] by (simp add: inv_simple)
  qed
qed simp

lemma emitted_module_closed:
  assumes "emit_module env h t reg = Some (i, st)"
    and "list_all (slots_ok (bindings (ee_sem env)) (sem_stack_size (ee_sem env))) (toplevel_inits (ee_sem env))"
    and "list_all (\<lambda>f. length (fn_code f) \<le> 2 ^ 31) (drop (length reg) (es_registry st))"
  shows "\<exists>fs. es_registry st = reg @ fs \<and> list_all closed_function fs \<and> fs \<noteq> [] \<and> i + 1 = length (es_registry st)"
proof -
  let ?i = "init_state env h t reg"
  obtain st1 where s: "emit_toplevel env (toplevel_inits (ee_sem env)) ?i = Some st1"
      "es_registry st = es_registry st1 @ [es_func (emit_instr Return_op 0 default_span (snd (emit_load_const Nil_val default_span st1)))]"
      "i = length (es_registry st1)"
    using assms(1) by (auto simp: emit_module_def Let_def registry_add_def emit_instr_def emit_load_const_def add_const_def)
  have i0: "emit_inv (length reg) ?i"
    by (simp add: emit_inv_def init_state_def sound_code_def verify_function_def code_size_def empty_function_def)
  have fz: "frame_size ?i = sem_stack_size (ee_sem env)" by (simp add: init_state_def)
  have g: "appends ?i st1" using inv_toplevel [OF s(1)] by blast
  then obtain gs where r: "es_registry st1 = reg @ gs" by (auto simp: appends_def init_state_def prefix_def)
  have sm: "small (length reg) st1"
    using assms(3) s(2) r
    by (auto simp: small_def code_size_def emit_instr_def emit_load_const_def add_const_def)
  have 1: "emit_inv (length reg) st1" using inv_toplevel [OF s(1)] i0 sm assms(2) fz by metis
  let ?f = "emit_instr Return_op 0 default_span (snd (emit_load_const Nil_val default_span st1))"
  have "closed_function (es_func ?f)" by (rule closed_return [OF inv_load_const [OF 1]])
  then show ?thesis using 1 s r by (auto simp: emit_inv_def)
qed


text \<open>A module with a recursive function: the factorial.\<close>

definition local_0 :: node where "local_0 = Var_n (new_info default_span) (Local 0)"

definition int_node :: "i64 \<Rightarrow> node" where "int_node i = Const_n (new_info default_span) (Int_lit i)"

definition factorial_lambda :: lambda_info where
  "factorial_lambda = \<lparr> lam_params = [0], rest_param = None, lam_locals = [], lam_upvals = [], upval_sources = [],
     lam_arity = \<lparr> ar_required = 1, ar_optional = 0, ar_rest = False \<rparr>, lam_stack_size = 8 \<rparr>"

definition factorial_body :: node where
  "factorial_body =
     If_n (new_info default_span) (PrimitiveCall_n (new_info default_span) PEq [local_0, int_node 0]) (int_node 1)
       (PrimitiveCall_n (new_info default_span) PMul
         [local_0, Call_n (new_info default_span) (Var_n (new_info default_span) (Global 0))
            [PrimitiveCall_n (new_info default_span) PSub [local_0, int_node 1]]])"

definition factorial_forms :: "node list" where
  "factorial_forms =
     [Set_n (new_info default_span) (Global 0) (Lambda_n (new_info default_span) factorial_lambda factorial_body),
      Set_n (new_info default_span) (Global 1)
        (Call_n (new_info default_span) (Var_n (new_info default_span) (Global 0)) [int_node 3])]"

definition factorial_env :: emit_env where
  "factorial_env =
     \<lparr> ee_sem = \<lparr> sem_name = ''m'', toplevel_inits = factorial_forms, sem_exports = [],
          bindings = [\<lparr> b_kind = Param_binding, b_name = ''n'', mutable_flag = True, b_slot = 0, def_span = default_span, b_origin = None \<rparr>],
          sem_stack_size = 8, total_globals = 2, main_func_slot = None \<rparr>,
       ee_alloc = sample_env, ee_fixnum_size = 8, ee_bytes_size = 24 \<rparr>"

lemmas factorial_defs = local_0_def int_node_def factorial_lambda_def factorial_body_def factorial_forms_def
  factorial_env_def new_info_def

lemmas emitter_defs = emit_const_def cached_string_def literal_value_def em_fixnum_def emit_load_const_def
  add_const_def emit_instr_def mk_instr_def cache_string_def emit_address_load_def emit_address_store_def
  self_tail_target_def patch_arg_def code_size_def enter_lambda_def new_function_def leave_lambda_def registry_add_def
  emit_closure_def announce_self_def patch_self_def empty_function_def opcode_for_primitive_def init_state_def
  encode_i64_def FIXNUM_MIN_def FIXNUM_MAX_def local_names_of_def record_local_def upval_names_of_def active_of_def

definition factorial_image :: emit_state where
  "factorial_image = snd (the (emit_module factorial_env sample_start empty_intern []))"

lemma factorial_emitted:
  "emit_module factorial_env sample_start empty_intern [] = Some (1, factorial_image)"
  "length (es_registry factorial_image) = 2"
  "list_all (\<lambda>f. length (fn_code f) \<le> 2 ^ 31) (es_registry factorial_image)"
  unfolding factorial_image_def by (simp_all add: emit_module_def factorial_defs emitter_defs)


end
