(* ===== verification/Passes.thy ===== *)
theory Passes
  imports CoreIR Double
begin

text \<open>
  The optimization passes, \<^verbatim>\<open>eta/core/src/eta/semantics/passes\<close>: constant folding, lowering of
  builtin calls to primitive nodes, and removal of dead expressions. Each is the \<^verbatim>\<open>post_visit\<close>
  of a visitor over the top-level forms of a module.
\<close>

section \<open>Constant folding\<close>

record num_val =
  is_int :: bool
  nv_i :: i64
  nv_d :: u64

definition to_numeric :: "literal \<Rightarrow> num_val option" where
  "to_numeric l = (case l of
       Int_lit i \<Rightarrow> Some \<lparr> is_int = True, nv_i = i, nv_d = int_to_double (sint i) \<rparr>
     | Double_lit d \<Rightarrow> Some \<lparr> is_int = False, nv_i = 0, nv_d = d \<rparr>
     | _ \<Rightarrow> None)"

definition make_result :: "num_val \<Rightarrow> num_val \<Rightarrow> i64 \<Rightarrow> u64 \<Rightarrow> literal" where
  "make_result a b i d = (if is_int a \<and> is_int b then Int_lit i else Double_lit d)"

text \<open>
  The integer operations have no overflow check. C++ leaves the result of an overflow open; the
  model has the wrapped value that the supported compilers produce.
\<close>

definition fold_add :: "num_val \<Rightarrow> num_val \<Rightarrow> literal option" where
  "fold_add a b = Some (make_result a b (nv_i a + nv_i b) (dbl_add (nv_d a) (nv_d b)))"

definition fold_sub :: "num_val \<Rightarrow> num_val \<Rightarrow> literal option" where
  "fold_sub a b = Some (make_result a b (nv_i a - nv_i b) (dbl_sub (nv_d a) (nv_d b)))"

definition fold_mul :: "num_val \<Rightarrow> num_val \<Rightarrow> literal option" where
  "fold_mul a b = Some (make_result a b (nv_i a * nv_i b) (dbl_mul (nv_d a) (nv_d b)))"

text \<open>The remainder of a division that truncates.\<close>

definition crem :: "int \<Rightarrow> int \<Rightarrow> int" where
  "crem a b = a - b * cdiv a b"

definition fold_div :: "num_val \<Rightarrow> num_val \<Rightarrow> literal option" where
  "fold_div a b =
     (if dbl_eq (nv_d b) 0 then None
      else if is_int a \<and> is_int b \<and> nv_i b \<noteq> 0 \<and> crem (sint (nv_i a)) (sint (nv_i b)) = 0
      then Some (Int_lit (word_of_int (cdiv (sint (nv_i a)) (sint (nv_i b)))))
      else Some (Double_lit (dbl_div (nv_d a) (nv_d b))))"

text \<open>
  The builtin is recognised by the name of the first global binding with the slot of the callee;
  no such binding is the same as one with an empty name.
\<close>

definition global_name :: "binding list \<Rightarrow> u32 \<Rightarrow> string" where
  "global_name bs g =
     (case List.find (\<lambda>b. b_kind b = Global_binding \<and> ucast (b_slot b) = g) bs of
        Some b \<Rightarrow> b_name b | None \<Rightarrow> '''')"

definition fold_op :: "string \<Rightarrow> num_val \<Rightarrow> num_val \<Rightarrow> literal option" where
  "fold_op name a b =
     (if name = ''+'' then fold_add a b
      else if name = ''-'' then fold_sub a b
      else if name = ''*'' then fold_mul a b
      else if name = ''/'' then fold_div a b
      else None)"

definition fold_node :: "binding list \<Rightarrow> node \<Rightarrow> bool \<Rightarrow> node" where
  "fold_node bs n ctx =
     (case n of
        Call_n nt (Var_n _ (Global g)) [Const_n _ x, Const_n _ y] \<Rightarrow>
          (case (to_numeric x, to_numeric y) of
             (Some a, Some b) \<Rightarrow>
               (case fold_op (global_name bs g) a b of
                  Some l \<Rightarrow> Const_n (new_info (n_span nt)) l | None \<Rightarrow> n)
           | _ \<Rightarrow> n)
      | _ \<Rightarrow> n)"

definition constant_folding :: pass where
  "constant_folding m = run_visitor (fold_node (bindings m)) m"

section \<open>Primitive specialisation\<close>

definition unary_primitive :: "string \<Rightarrow> primitive_kind option" where
  "unary_primitive name =
     (if name = ''car'' then Some PCar else if name = ''cdr'' then Some PCdr else None)"

definition binary_primitive :: "string \<Rightarrow> primitive_kind option" where
  "binary_primitive name =
     (if name = ''+'' then Some PAdd else if name = ''-'' then Some PSub
      else if name = ''*'' then Some PMul else if name = ''/'' then Some PDiv
      else if name = ''='' then Some PEq else if name = ''cons'' then Some PCons else None)"

text \<open>
  The slot maps: the first immutable global binding with a name of the table decides for its slot.
\<close>

fun index_slots :: "(string \<Rightarrow> primitive_kind option) \<Rightarrow> binding list \<Rightarrow> u32 \<Rightarrow> primitive_kind option" where
  "index_slots kind_for [] g = None"
| "index_slots kind_for (b # bs) g =
     (if b_kind b = Global_binding \<and> \<not> mutable_flag b \<and> ucast (b_slot b) = g \<and> kind_for (b_name b) \<noteq> None
      then kind_for (b_name b) else index_slots kind_for bs g)"

definition primitive_for :: "binding list \<Rightarrow> nat \<Rightarrow> u32 \<Rightarrow> primitive_kind option" where
  "primitive_for bs arity g =
     (if arity = 1 then index_slots unary_primitive bs g
      else if arity = 2 then index_slots binary_primitive bs g
      else None)"

definition specialise_node :: "binding list \<Rightarrow> node \<Rightarrow> bool \<Rightarrow> node" where
  "specialise_node bs n ctx =
     (case n of
        Call_n nt (Var_n _ (Global g)) as \<Rightarrow>
          (case primitive_for bs (length as) g of
             Some k \<Rightarrow> PrimitiveCall_n (new_info (n_span nt)) k as | None \<Rightarrow> n)
      | _ \<Rightarrow> n)"

definition primitive_specialisation :: pass where
  "primitive_specialisation m = run_visitor (specialise_node (bindings m)) m"

section \<open>Dead code elimination\<close>

definition is_pure :: "node \<Rightarrow> bool" where
  "is_pure n = (case n of Const_n _ _ \<Rightarrow> True | Var_n _ _ \<Rightarrow> True | Quote_n _ _ \<Rightarrow> True | _ \<Rightarrow> False)"

fun kept_exprs :: "node list \<Rightarrow> node list" where
  "kept_exprs [] = []"
| "kept_exprs [e] = [e]"
| "kept_exprs (e # e' # es) = (if is_pure e then kept_exprs (e' # es) else e # kept_exprs (e' # es))"

definition eliminate_node :: "node \<Rightarrow> bool \<Rightarrow> node" where
  "eliminate_node n ctx =
     (case n of
        Begin_n nt es \<Rightarrow>
          (case kept_exprs es of
             [] \<Rightarrow> Const_n (new_info (n_span nt)) Void_lit
           | [e] \<Rightarrow> e
           | ks \<Rightarrow> Begin_n nt ks)
      | _ \<Rightarrow> n)"

definition dead_code_elimination :: pass where
  "dead_code_elimination m = run_visitor eliminate_node m"

text \<open>The pipeline of \<^verbatim>\<open>etac -O\<close> (\<^verbatim>\<open>main_etac.cpp\<close>).\<close>

definition etac_pipeline :: "pass list" where
  "etac_pipeline = [constant_folding, primitive_specialisation, dead_code_elimination]"

end
