(* ===== verification/Pipeline.thy ===== *)
theory Pipeline
  imports AnalyzerFacts EmitterFacts Passes
begin

text \<open>
  The stages after the reader together: the analyzer makes closed modules, the optimization passes
  keep them closed, and the emitter turns a closed module into functions that the bytecode loader's
  verifier accepts (\<^verbatim>\<open>compile_files\<close> of \<^verbatim>\<open>main_etac.cpp\<close>: analyze, optimise, emit).
\<close>

section \<open>Passes keep modules closed\<close>

lemma fold_node_cases: "fold_node bs n ctx = n \<or> (\<exists>nt l. fold_node bs n ctx = Const_n nt l)"
  unfolding fold_node_def by (auto split: node.split address.split list.split option.split)

lemma specialise_node_cases:
  "specialise_node bs n ctx = n \<or> (\<exists>nt f as nt' k. n = Call_n nt f as \<and> specialise_node bs n ctx = PrimitiveCall_n nt' k as)"
  unfolding specialise_node_def by (auto split: node.split address.split option.split)

lemma kept_exprs_subset: "set (kept_exprs es) \<subseteq> set es"
  by (induction es rule: kept_exprs.induct) auto

lemma eliminate_scoped: "scoped bs \<Gamma> n \<Longrightarrow> scoped bs \<Gamma> (eliminate_node n ctx)"
proof (cases n)
  case (Begin_n nt es)
  moreover assume "scoped bs \<Gamma> n"
  ultimately have "list_all (scoped bs \<Gamma>) (kept_exprs es)" using kept_exprs_subset [of es] by (auto simp: list_all_iff)
  then show ?thesis using Begin_n by (auto simp: eliminate_node_def split: list.split)
qed (simp_all add: eliminate_node_def)

lemma run_visitor_scoped:
  assumes "\<And>\<Gamma> n c. scoped (bindings m) \<Gamma> n \<Longrightarrow> scoped (bindings m) \<Gamma> (post n c)" "module_scoped m"
  shows "module_scoped (run_visitor post m)"
  using assms(2) scoped_visit [of "bindings m" post, OF assms(1)] by (auto simp: module_scoped_def run_visitor_def list_all_iff)

lemma pass_scoped: "p \<in> set etac_pipeline \<Longrightarrow> module_scoped m \<Longrightarrow> module_scoped (p m)"
proof -
  assume m: "module_scoped m"
  have "module_scoped (constant_folding m)" unfolding constant_folding_def
  proof (rule run_visitor_scoped [OF _ m])
    show "scoped bs \<Gamma> (fold_node bs n c)" if "scoped bs \<Gamma> n" for bs \<Gamma> n c
      using fold_node_cases [of bs n c] that by auto
  qed
  moreover have "module_scoped (primitive_specialisation m)" unfolding primitive_specialisation_def
  proof (rule run_visitor_scoped [OF _ m])
    show "scoped bs \<Gamma> (specialise_node bs n c)" if "scoped bs \<Gamma> n" for bs \<Gamma> n c
      using specialise_node_cases [of bs n c] that by auto
  qed
  moreover have "module_scoped (dead_code_elimination m)" unfolding dead_code_elimination_def
    by (rule run_visitor_scoped [OF eliminate_scoped m])
  moreover assume "p \<in> set etac_pipeline"
  ultimately show ?thesis by (auto simp: etac_pipeline_def)
qed

lemma pass_frame: "p \<in> set etac_pipeline \<Longrightarrow> bindings (p m) = bindings m \<and> sem_stack_size (p m) = sem_stack_size m"
  by (auto simp: etac_pipeline_def constant_folding_def primitive_specialisation_def dead_code_elimination_def run_visitor_def)

lemma run_pipeline_scoped:
  "set ps \<subseteq> set etac_pipeline \<Longrightarrow> module_scoped m \<Longrightarrow>
    module_scoped (run_pipeline ps m) \<and> bindings (run_pipeline ps m) = bindings m"
  by (induction ps arbitrary: m) (auto simp: run_pipeline_def pass_scoped pass_frame)

section \<open>Closed modules fit their frames\<close>

definition frame_fits :: "binding list \<Rightarrow> u32 \<Rightarrow> closure_context \<Rightarrow> bool" where
  "frame_fits bs n \<Gamma> \<longleftrightarrow> (case \<Gamma> of (own, _) # _ \<Rightarrow> \<forall>i \<in> own. ucast (b_slot (bs ! unat i)) < n | [] \<Rightarrow> True)"

lemma refers_to_fits: "refers_to bs \<Gamma> a i \<Longrightarrow> frame_fits bs n \<Gamma> \<Longrightarrow> address_ok n a"
  by (auto simp: refers_to_def frame_fits_def address_ok_def split: address.splits list.splits)

lemma lambda_scoped_ok:
  assumes "lambda_scoped bs \<Gamma> l" "frame_fits bs n \<Gamma>" "length bs < 65536"
  shows "lambda_ok bs n l"
proof -
  have "list_all2 (refers_to bs \<Gamma>) (upval_sources l) (lam_upvals l)" "distinct (lam_upvals l)"
    using assms(1) by (simp_all add: lambda_scoped_def)
  then have "length (upval_sources l) < 65536" "list_all (address_ok n) (upval_sources l)"
    using captured_bound assms(2,3) list_all2_lengthD
    by (fastforce, auto simp: list_all2_conv_all_nth list_all_length intro: refers_to_fits)
  then show ?thesis using assms(1) by (auto simp: lambda_ok_def lambda_scoped_def formals_of_def list_all_iff)
qed

lemma scoped_slots_ok: "scoped bs \<Gamma> e \<Longrightarrow> frame_fits bs n \<Gamma> \<Longrightarrow> length bs < 65536 \<Longrightarrow> slots_ok bs n e"
proof (induction bs \<Gamma> e arbitrary: n rule: scoped.induct)
  case (5 bs \<Gamma> nt l b)
  have "frame_fits bs (lam_stack_size l) ((formals_of l, lam_upvals l) # \<Gamma>)"
    using 5(2) by (simp add: frame_fits_def lambda_scoped_def)
  then show ?case using 5 lambda_scoped_ok by auto
qed (auto simp: list_all_iff intro: refers_to_fits)

text \<open>C2: Whatever program the analyzer accepts, the functions that the emitter makes of its modules,
  optimised by any of the compiler's passes in any order or not at all, pass the bytecode verifier,
  have instructions of their own as the targets of all their jumps and handlers, and end with a
  return: control never runs off their end. Needed: a module has fewer than 2^16 bindings
  and no function exceeds 2^31 instructions.\<close>

theorem analyzed_code_closed:
  assumes "analyze_all forms lk builtins ext = Inr ms" "m \<in> set ms" "length (bindings m) < 65536"
    and "set ps \<subseteq> set etac_pipeline" "emit_module (env\<lparr> ee_sem := run_pipeline ps m \<rparr>) h t reg = Some (i, st)"
    and "list_all (\<lambda>f. length (fn_code f) \<le> 2 ^ 31) (drop (length reg) (es_registry st))"
  shows "\<exists>fs. es_registry st = reg @ fs \<and> list_all closed_function fs \<and> fs \<noteq> [] \<and> i + 1 = length (es_registry st)"
proof -
  have "module_scoped m" by (rule module_scoped_if_analyzed [OF assms(1-3)])
  then have s: "module_scoped (run_pipeline ps m)" "bindings (run_pipeline ps m) = bindings m"
    using run_pipeline_scoped [OF assms(4)] by blast+
  then have "list_all (slots_ok (bindings m) (sem_stack_size (run_pipeline ps m))) (toplevel_inits (run_pipeline ps m))"
    using assms(3) by (auto simp: module_scoped_def list_all_iff frame_fits_def intro: scoped_slots_ok)
  then show ?thesis using emitted_module_closed [OF assms(5) _ assms(6)] s(2) by simp
qed

text \<open>The module with a captured and assigned variable, optimised and compiled.\<close>

definition doubler_compiled :: "(nat \<times> emit_state) option" where
  "doubler_compiled = emit_module (factorial_env\<lparr> ee_sem := run_pipeline etac_pipeline (hd doubler_modules) \<rparr>)
     sample_start empty_intern []"

lemma doubler_sizes:
  "(case doubler_compiled of Some (i, st) \<Rightarrow> map (\<lambda>f. length (fn_code f)) (es_registry st) | None \<Rightarrow> []) = [8, 3, 6]"
  by code_simp

theorem analyzed_code_closed_witness:
  "\<exists>i st. doubler_compiled = Some (i, st) \<and> length (es_registry st) = 3 \<and> list_all closed_function (es_registry st)"
proof -
  have "\<exists>i st. x = Some (i, st) \<and> map (\<lambda>f. length (fn_code f)) (es_registry st) = [8, 3, 6]"
    if "(case x of Some (i, st) \<Rightarrow> map (\<lambda>f. length (fn_code f)) (es_registry st) | None \<Rightarrow> []) = [8, 3, 6]"
    for x :: "(nat \<times> emit_state) option" using that by (cases x) auto
  from this [OF doubler_sizes] obtain i st
    where st: "doubler_compiled = Some (i, st)" "map (\<lambda>f. length (fn_code f)) (es_registry st) = [8, 3, 6]"
    by (elim exE conjE)
  obtain m where m: "doubler_modules = [m]" "length (bindings m) = 3"
    using doubler_analyzed(2) by (cases doubler_modules) auto
  have "list_all (\<lambda>f. length (fn_code f) \<le> 2 ^ 31) (drop (length ([] :: bytecode_function list)) (es_registry st))"
    using st(2) by (auto simp: map_eq_Cons_conv)
  then have "\<exists>fs. es_registry st = [] @ fs \<and> list_all closed_function fs \<and> fs \<noteq> [] \<and> i + 1 = length (es_registry st)"
    using analyzed_code_closed [OF doubler_modules_analyzed _ _ subset_refl, of "hd doubler_modules" factorial_env
        sample_start empty_intern "[]" i st] st(1) [unfolded doubler_compiled_def]
    unfolding m(1) by (simp add: m(2))
  moreover have "length (es_registry st) = 3" using arg_cong [OF st(2), of length] by simp
  ultimately show ?thesis using st(1) by auto
qed

end
