(* ===== verification/Tape.thy ===== *)
theory Tape
  imports Double
begin

text \<open>
  The tape of reverse-mode differentiation, \<^verbatim>\<open>eta/core/src/eta/runtime/types/tape.h\<close>, and the
  packed references into it, \<^verbatim>\<open>tape_ref.h\<close>. Doubles are bit patterns. The functions of the C
  mathematics library, which are only required to be approximations, are a parameter.
\<close>

section \<open>References\<close>

record tape_parts =
  tp_tape :: u32
  tp_generation :: u32
  tp_node :: u32

definition NODE_INDEX_MASK :: u64 where "NODE_INDEX_MASK = push_bit 24 1 - 1"
definition GENERATION_MASK :: u64 where "GENERATION_MASK = push_bit 10 1 - 1"
definition TAPE_ID_MASK :: u64 where "TAPE_ID_MASK = push_bit 13 1 - 1"
definition MAX_NODE_INDEX :: u32 where "MAX_NODE_INDEX = ucast NODE_INDEX_MASK"
definition MAX_GENERATION :: u32 where "MAX_GENERATION = ucast GENERATION_MASK"

definition normalize_generation :: "u32 \<Rightarrow> u32" where
  "normalize_generation g =
     (if g = 0 then 1 else if g > MAX_GENERATION then g mod MAX_GENERATION + 1 else g)"

definition next_generation :: "u32 \<Rightarrow> u32" where
  "next_generation g = (let c = normalize_generation g in if c \<ge> MAX_GENERATION then 1 else c + 1)"

definition encode_tape_payload :: "u32 \<Rightarrow> u32 \<Rightarrow> u32 \<Rightarrow> u64" where
  "encode_tape_payload t g n =
     push_bit 34 (ucast t AND TAPE_ID_MASK)
     OR push_bit 24 (ucast (normalize_generation g) AND GENERATION_MASK)
     OR (ucast n AND NODE_INDEX_MASK)"

definition decode_tape_payload :: "u64 \<Rightarrow> tape_parts" where
  "decode_tape_payload p =
     \<lparr> tp_tape = ucast (drop_bit 34 p AND TAPE_ID_MASK),
       tp_generation = normalize_generation (ucast (drop_bit 24 p AND GENERATION_MASK)),
       tp_node = ucast (p AND NODE_INDEX_MASK) \<rparr>"

definition is_tape_ref :: "lispval \<Rightarrow> bool" where
  "is_tape_ref v \<longleftrightarrow> is_boxed v \<and> tag v = TapeRef_tag"

definition make_tape_ref :: "u32 \<Rightarrow> u32 \<Rightarrow> u32 \<Rightarrow> lispval" where
  "make_tape_ref t g n = box TapeRef_tag (encode_tape_payload t g n)"

definition decode_tape_ref :: "lispval \<Rightarrow> tape_parts" where
  "decode_tape_ref v = decode_tape_payload (payload v)"

section \<open>The tape\<close>

datatype tape_op = TConst | TVar | TAdd | TSub | TMul | TDiv | TAbs | TMin | TMax | TExp | TLog | TSqrt
  | TSin | TCos | TTan | TAsin | TAcos | TAtan | TPow

record tape_entry =
  t_op :: tape_op
  t_left :: u32
  t_right :: u32
  primal :: u64
  adjoint :: u64

record tape =
  tape_id :: u32
  generation :: u32
  entries :: "tape_entry list"

definition tape_push :: "tape_entry \<Rightarrow> tape \<Rightarrow> u32 \<times> tape" where
  "tape_push e t = (of_nat (length (entries t)), t\<lparr> entries := entries t @ [e] \<rparr>)"

definition clear_and_bump_generation :: "tape \<Rightarrow> tape" where
  "clear_and_bump_generation t = t\<lparr> entries := [], generation := next_generation (generation t) \<rparr>"

definition mk_entry :: "tape_op \<Rightarrow> u32 \<Rightarrow> u32 \<Rightarrow> u64 \<Rightarrow> tape_entry" where
  "mk_entry op l r v = \<lparr> t_op = op, t_left = l, t_right = r, primal = v, adjoint = 0 \<rparr>"

definition push_var :: "u64 \<Rightarrow> tape \<Rightarrow> u32 \<times> tape" where
  "push_var v t = tape_push (mk_entry TVar 0 0 v) t"

definition push_const :: "u64 \<Rightarrow> tape \<Rightarrow> u32 \<times> tape" where
  "push_const v t = tape_push (mk_entry TConst 0 0 v) t"

section \<open>The reverse sweep\<close>

record libm =
  m_sin :: "u64 \<Rightarrow> u64"
  m_cos :: "u64 \<Rightarrow> u64"
  m_sqrt :: "u64 \<Rightarrow> u64"
  m_log :: "u64 \<Rightarrow> u64"
  m_floor :: "u64 \<Rightarrow> u64"
  m_pow :: "u64 \<Rightarrow> u64 \<Rightarrow> u64"

definition dbl_one :: u64 where "dbl_one = 0x3FF0000000000000"
definition dbl_two :: u64 where "dbl_two = 0x4000000000000000"

definition add_adjoint :: "nat \<Rightarrow> u64 \<Rightarrow> tape_entry list \<Rightarrow> tape_entry list" where
  "add_adjoint i d es = es[i := (es ! i)\<lparr> adjoint := dbl_add (adjoint (es ! i)) d \<rparr>]"

definition sub_adjoint :: "nat \<Rightarrow> u64 \<Rightarrow> tape_entry list \<Rightarrow> tape_entry list" where
  "sub_adjoint i d es = es[i := (es ! i)\<lparr> adjoint := dbl_sub (adjoint (es ! i)) d \<rparr>]"

definition pow_derivatives :: "libm \<Rightarrow> u64 \<Rightarrow> u64 \<Rightarrow> u64 \<Rightarrow> u64 \<times> u64" where
  "pow_derivatives m a b z =
     (if dbl_less 0 a then (dbl_mul b (m_pow m a (dbl_sub b dbl_one)), dbl_mul z (m_log m a))
      else if dbl_eq a 0 then ((if dbl_eq b dbl_one then dbl_one else 0), 0)
      else if \<not> is_nan_bits b \<and> \<not> dbl_is_inf b \<and> dbl_eq (m_floor m b) b
        then (dbl_mul b (m_pow m a (dbl_sub b dbl_one)), 0)
      else (0, 0))"

text \<open>
  One turn of the sweep: what the adjoint of an entry adds to the adjoints of its operands. An
  entry with an operand out of range adds nothing.
\<close>

definition propagate_unary :: "libm \<Rightarrow> tape_op \<Rightarrow> u64 \<Rightarrow> u64 \<Rightarrow> u64 \<Rightarrow> nat \<Rightarrow> tape_entry list \<Rightarrow> tape_entry list" where
  "propagate_unary m op adj z x l es =
     (case op of
        TAbs \<Rightarrow> if dbl_less 0 x then add_adjoint l adj es
                else if dbl_less x 0 then sub_adjoint l adj es else es
      | TExp \<Rightarrow> add_adjoint l (dbl_mul adj z) es
      | TLog \<Rightarrow> add_adjoint l (dbl_div adj x) es
      | TSqrt \<Rightarrow> add_adjoint l (dbl_div adj (dbl_mul dbl_two z)) es
      | TSin \<Rightarrow> add_adjoint l (dbl_mul adj (m_cos m x)) es
      | TCos \<Rightarrow> sub_adjoint l (dbl_mul adj (m_sin m x)) es
      | TTan \<Rightarrow> let c = m_cos m x in add_adjoint l (dbl_div adj (dbl_mul c c)) es
      | TAsin \<Rightarrow> add_adjoint l (dbl_div adj (m_sqrt m (dbl_sub dbl_one (dbl_mul x x)))) es
      | TAcos \<Rightarrow> sub_adjoint l (dbl_div adj (m_sqrt m (dbl_sub dbl_one (dbl_mul x x)))) es
      | TAtan \<Rightarrow> add_adjoint l (dbl_div adj (dbl_add dbl_one (dbl_mul x x))) es
      | _ \<Rightarrow> es)"

definition propagate_binary :: "libm \<Rightarrow> tape_op \<Rightarrow> u64 \<Rightarrow> u64 \<Rightarrow> u64 \<Rightarrow> u64 \<Rightarrow> nat \<Rightarrow> nat \<Rightarrow> tape_entry list \<Rightarrow> tape_entry list" where
  "propagate_binary m op adj z a b l r es =
     (case op of
        TAdd \<Rightarrow> add_adjoint r adj (add_adjoint l adj es)
      | TSub \<Rightarrow> sub_adjoint r adj (add_adjoint l adj es)
      | TMul \<Rightarrow> add_adjoint r (dbl_mul adj a) (add_adjoint l (dbl_mul adj b) es)
      | TDiv \<Rightarrow> sub_adjoint r (dbl_div (dbl_mul adj a) (dbl_mul b b)) (add_adjoint l (dbl_div adj b) es)
      | TMin \<Rightarrow> if dbl_less a b then add_adjoint l adj es
                else if dbl_less b a then add_adjoint r adj es else es
      | TMax \<Rightarrow> if dbl_less b a then add_adjoint l adj es
                else if dbl_less a b then add_adjoint r adj es else es
      | TPow \<Rightarrow> (let (da, db) = pow_derivatives m a b z
                 in add_adjoint r (dbl_mul adj db) (add_adjoint l (dbl_mul adj da) es))
      | _ \<Rightarrow> es)"

definition is_unary :: "tape_op \<Rightarrow> bool" where
  "is_unary op \<longleftrightarrow> op \<in> {TAbs, TExp, TLog, TSqrt, TSin, TCos, TTan, TAsin, TAcos, TAtan}"

definition propagate :: "libm \<Rightarrow> nat \<Rightarrow> tape_entry list \<Rightarrow> tape_entry list" where
  "propagate m i es =
     (let e = es ! i; adj = adjoint e; l = unat (t_left e); r = unat (t_right e); n = length es in
      if dbl_eq adj 0 \<or> t_op e = TConst \<or> t_op e = TVar then es
      else if l \<ge> n then es
      else if is_unary (t_op e) then propagate_unary m (t_op e) adj (primal e) (primal (es ! l)) l es
      else if r \<ge> n then es
      else propagate_binary m (t_op e) adj (primal e) (primal (es ! l)) (primal (es ! r)) l r es)"

text \<open>The loop counts down; \<open>sweep m n\<close> visits the entries \<open>n - 1, \<dots>, 0\<close>.\<close>

fun sweep :: "libm \<Rightarrow> nat \<Rightarrow> tape_entry list \<Rightarrow> tape_entry list" where
  "sweep m 0 es = es"
| "sweep m (Suc i) es = sweep m i (propagate m i es)"

definition seed_adjoints :: "nat \<Rightarrow> tape_entry list \<Rightarrow> tape_entry list" where
  "seed_adjoints out es =
     (let zs = map (\<lambda>e. e\<lparr> adjoint := 0 \<rparr>) es in zs[out := (zs ! out)\<lparr> adjoint := dbl_one \<rparr>])"

definition backward :: "libm \<Rightarrow> u32 \<Rightarrow> tape \<Rightarrow> tape" where
  "backward m out t =
     (if unat out \<ge> length (entries t) then t
      else t\<lparr> entries := sweep m (Suc (unat out)) (seed_adjoints (unat out) (entries t)) \<rparr>)"

end
