(* ===== verification/Machine.thy ===== *)
theory Machine
  imports Bytecode Interning Unify Tape
begin

text \<open>
  The state of the virtual machine, \<^verbatim>\<open>eta/core/src/eta/runtime/vm/vm.h\<close>, its objects, its
  arithmetic and its error values (\<^verbatim>\<open>vm.cpp\<close>, \<^verbatim>\<open>factory.h\<close>, \<^verbatim>\<open>error.h\<close>, \<^verbatim>\<open>ad_error.h\<close>).

  A pointer to a function is its index in the registry, or more generally a value of the type
  parameter \<open>'f\<close>. The heap is the map from ids to objects; an allocation takes the id that
  \<open>fresh\<close> gives for the ids handed out before, or fails with its error, and collection, which
  removes unreachable objects only, does not show. An object that does not hold code is a
  \<open>Plain\<close> heap object, on which the logic operations of \<^verbatim>\<open>Unify\<close> work.
\<close>

section \<open>Errors\<close>

datatype error_code = NotImplemented | InternalError | StackOverflow | StackUnderflow | FrameOverflow
  | InvalidInstruction | InvalidArity | TypeError | UndefinedGlobal | UserError | UserThrow | SandboxViolation

datatype field_value = Int_field i64 | Double_field u64 | String_field string

datatype runtime_error =
    NaNBox_error nanbox_error
  | Heap_error heap_error
  | Intern_error intern_error
  | VM_error error_code (err_message: string) (tag_override: string) (err_fields: "(string \<times> field_value) list")

abbreviation vm_error :: "error_code \<Rightarrow> string \<Rightarrow> runtime_error" where
  "vm_error c m \<equiv> VM_error c m '''' []"

abbreviation type_error :: "string \<Rightarrow> runtime_error" where
  "type_error m \<equiv> vm_error TypeError m"

definition non_local_transfer :: runtime_error where
  "non_local_transfer = vm_error InternalError ''__eta.non_local_transfer__''"

definition is_non_local_transfer :: "runtime_error \<Rightarrow> bool" where
  "is_non_local_transfer e = (case e of
       VM_error c m _ _ \<Rightarrow> c = InternalError \<and> m = ''__eta.non_local_transfer__'' | _ \<Rightarrow> False)"

definition nanbox_error_string :: "nanbox_error \<Rightarrow> string" where
  "nanbox_error_string e = (case e of InvalidTag \<Rightarrow> ''NaNBoxError::InvalidTag'' | OutOfRange \<Rightarrow> ''NaNBoxError::OutOfRange'')"

definition heap_error_string :: "heap_error \<Rightarrow> string" where
  "heap_error_string e = (case e of
       HeapObjectIdExhausted \<Rightarrow> ''HeapError::HeapExhausted''
     | FailedToAllocateMemory \<Rightarrow> ''HeapError::FailedToAllocateMemory''
     | FailedToDeallocateMemory \<Rightarrow> ''HeapError::FailedToDeallocateMemory''
     | ObjectIdNotFound \<Rightarrow> ''HeapError::ObjectIdNotFound''
     | NullPtrReference \<Rightarrow> ''HeapError::NullPtrReference''
     | SoftHeapLimitExceeded \<Rightarrow> ''HeapError::SoftHeapLimitExceeded''
     | UnexpectedObjectKind \<Rightarrow> ''HeapError::UnexpectedObjectKind''
     | GCInProgress \<Rightarrow> ''HeapError::GCInProgress'')"

definition intern_error_string :: "intern_error \<Rightarrow> string" where
  "intern_error_string e = (case e of
       MissingId \<Rightarrow> ''InternTableError::MissingId''
     | MissingString \<Rightarrow> ''InternTableError::MissingString''
     | IdOutOfRange \<Rightarrow> ''InternTableError::IdOutOfRange'')"

definition runtime_error_tag_name :: "runtime_error \<Rightarrow> string" where
  "runtime_error_tag_name e = (case e of
       VM_error c m over fs \<Rightarrow>
         if over \<noteq> '''' then over
         else (case c of
             TypeError \<Rightarrow> ''runtime.type-error''
           | InvalidArity \<Rightarrow> ''runtime.invalid-arity''
           | UserError \<Rightarrow> ''runtime.user-error''
           | UndefinedGlobal \<Rightarrow> ''runtime.undefined-global''
           | SandboxViolation \<Rightarrow> ''runtime.sandbox-violation''
           | _ \<Rightarrow> ''runtime.internal-error'')
     | NaNBox_error _ \<Rightarrow> ''runtime.nanbox-error''
     | Heap_error _ \<Rightarrow> ''runtime.heap-error''
     | Intern_error _ \<Rightarrow> ''runtime.intern-error'')"

definition runtime_error_message :: "runtime_error \<Rightarrow> string" where
  "runtime_error_message e = (case e of
       VM_error c m over fs \<Rightarrow> m
     | NaNBox_error x \<Rightarrow> ''nanbox error: '' @ nanbox_error_string x
     | Heap_error x \<Rightarrow> ''heap error: '' @ heap_error_string x
     | Intern_error x \<Rightarrow> ''intern error: '' @ intern_error_string x)"

definition of_logic_error :: "rt_error \<Rightarrow> runtime_error" where
  "of_logic_error e = (case e of Type_error m \<Rightarrow> type_error m | User_error m \<Rightarrow> vm_error UserError m)"

section \<open>Objects and frames\<close>

datatype frame_kind = Normal_frame | CallWithValuesConsumer | DynamicWindBody | DynamicWindAfter
  | DynamicWindCleanup | ExceptionUnwind | Sentinel | ContinuationJump

datatype 'f frame = Frame (fr_func: "'f option") (fr_pc: u32) (fr_fp: u32) (fr_closure: lispval)
  (fr_kind: frame_kind) (fr_extra: lispval)

datatype 'f vobj =
    Plain heap_obj
  | Closure 'f "lispval list" lispval
  | Continuation "lispval list" "'f frame list" "wind_frame list"
  | Primitive nat (prim_arity: u32) (prim_has_rest: bool)
  | Tape_v tape

text \<open>What running code can see and change beside the execution state itself.\<close>

record 'f world =
  globals :: "lispval list"
  vheap :: "object_id \<rightharpoonup> 'f vobj"
  used_ids :: "object_id list"
  logic :: logic_vm
  interns :: intern_table

text \<open>\<^verbatim>\<open>try_get_as\<close> at the kinds of objects the machine looks at.\<close>

definition object_at :: "'f world \<Rightarrow> lispval \<Rightarrow> 'f vobj option" where
  "object_at w v = (if is_heap_ref v then vheap w (payload v) else None)"

definition as_pair :: "'f world \<Rightarrow> lispval \<Rightarrow> (lispval \<times> lispval) option" where
  "as_pair w v = (case object_at w v of Some (Plain (Cons_obj a d)) \<Rightarrow> Some (a, d) | _ \<Rightarrow> None)"

definition as_closure :: "'f world \<Rightarrow> lispval \<Rightarrow> ('f \<times> lispval list \<times> lispval) option" where
  "as_closure w v = (case object_at w v of Some (Closure f us p) \<Rightarrow> Some (f, us, p) | _ \<Rightarrow> None)"

definition as_values :: "'f world \<Rightarrow> lispval \<Rightarrow> lispval list option" where
  "as_values w v = (case object_at w v of Some (Plain (MultipleValues_obj vs)) \<Rightarrow> Some vs | _ \<Rightarrow> None)"

definition as_elements :: "'f world \<Rightarrow> lispval \<Rightarrow> lispval list option" where
  "as_elements w v = (case object_at w v of Some (Plain (Vector_obj vs)) \<Rightarrow> Some vs | _ \<Rightarrow> None)"

definition as_tape :: "'f world \<Rightarrow> lispval \<Rightarrow> tape option" where
  "as_tape w v = (case object_at w v of Some (Tape_v t) \<Rightarrow> Some t | _ \<Rightarrow> None)"

definition write_object :: "lispval \<Rightarrow> 'f vobj \<Rightarrow> 'f world \<Rightarrow> 'f world" where
  "write_object v ob w = w\<lparr> vheap := (vheap w)(payload v \<mapsto> ob) \<rparr>"

type_synonym fresh = "object_id list \<Rightarrow> heap_error + object_id"

definition new_object :: "fresh \<Rightarrow> 'f vobj \<Rightarrow> 'f world \<Rightarrow> (runtime_error + lispval) \<times> 'f world" where
  "new_object fresh ob w =
     (case fresh (used_ids w) of
        Inl e \<Rightarrow> (Inl (Heap_error e), w)
      | Inr i \<Rightarrow> (Inr (box HeapObject_tag i),
          w\<lparr> vheap := (vheap w)(i \<mapsto> ob), used_ids := used_ids w @ [i] \<rparr>))"

definition new_fixnum :: "fresh \<Rightarrow> i64 \<Rightarrow> 'f world \<Rightarrow> (runtime_error + lispval) \<times> 'f world" where
  "new_fixnum fresh i w = (case encode_i64 i of
       Inr v \<Rightarrow> (Inr v, w)
     | Inl _ \<Rightarrow> new_object fresh (Plain (Fixnum_obj i)) w)"

definition new_flonum :: "u64 \<Rightarrow> runtime_error + lispval" where
  "new_flonum d = map_sum NaNBox_error id (encode_double d)"

definition new_interned :: "tag \<Rightarrow> string \<Rightarrow> 'f world \<Rightarrow> (runtime_error + lispval) \<times> 'f world" where
  "new_interned tg s w = (case intern s (interns w) of
       (Inr i, t) \<Rightarrow> (Inr (box tg i), w\<lparr> interns := t \<rparr>)
     | (Inl e, t) \<Rightarrow> (Inl (Intern_error e), w\<lparr> interns := t \<rparr>))"

text \<open>The plain objects as the store of the logic operations, and what they leave in it.\<close>

definition plain_objects :: "(object_id \<rightharpoonup> 'f vobj) \<Rightarrow> object_id \<rightharpoonup> heap_obj" where
  "plain_objects h i = (case h i of Some (Plain ob) \<Rightarrow> Some ob | _ \<Rightarrow> None)"

definition logic_view :: "'f world \<Rightarrow> logic_vm" where
  "logic_view w = (logic w)\<lparr> lstore := plain_objects (vheap w) \<rparr>"

definition put_logic :: "logic_vm \<Rightarrow> 'f world \<Rightarrow> 'f world" where
  "put_logic l w = w\<lparr> logic := l,
     vheap := (\<lambda>i. case vheap w i of
        Some (Plain ob) \<Rightarrow> map_option Plain (lstore l i)
      | None \<Rightarrow> map_option Plain (lstore l i)
      | other \<Rightarrow> other) \<rparr>"

section \<open>Numbers\<close>

definition number_of :: "'f world \<Rightarrow> lispval \<Rightarrow> numeric_value" where
  "number_of w v = classify_numeric (logic_view w) v"

definition values_eqv :: "'f world \<Rightarrow> lispval \<Rightarrow> lispval \<Rightarrow> bool" where
  "values_eqv w a b =
     (if a = b then True
      else if \<not> is_boxed a \<or> \<not> is_boxed b then False
      else if tag a = String_tag then False
      else if tag a = HeapObject_tag \<and> tag b = HeapObject_tag then
        (case (number_of w a, number_of w b) of (Num_fixnum i, Num_fixnum j) \<Rightarrow> i = j | _ \<Rightarrow> False)
      else False)"

datatype arith_op = Add_arith | Sub_arith | Mul_arith | Div_arith

definition apply_double :: "arith_op \<Rightarrow> u64 \<Rightarrow> u64 \<Rightarrow> runtime_error + u64" where
  "apply_double op a b = (case op of
       Add_arith \<Rightarrow> Inr (dbl_add a b)
     | Sub_arith \<Rightarrow> Inr (dbl_sub a b)
     | Mul_arith \<Rightarrow> Inr (dbl_mul a b)
     | Div_arith \<Rightarrow> if dbl_eq b 0 then Inl (type_error ''Division by zero'') else Inr (dbl_div a b))"

definition int_op :: "arith_op \<Rightarrow> i64 \<Rightarrow> i64 \<Rightarrow> i64 option" where
  "int_op op a b = (case op of
       Add_arith \<Rightarrow> add_overflow a b | Sub_arith \<Rightarrow> sub_overflow a b | Mul_arith \<Rightarrow> mul_overflow a b
     | Div_arith \<Rightarrow> None)"

text \<open>
  The quotient of the least integer and \<open>-1\<close> is undefined behaviour in C++ (the remainder that the
  code takes first traps on common machines): where this holds the operations below have no result.
\<close>

definition quotient_undefined :: "arith_op \<Rightarrow> numeric_value \<Rightarrow> numeric_value \<Rightarrow> bool" where
  "quotient_undefined op x y =
     (case (x, y) of (Num_fixnum a, Num_fixnum b) \<Rightarrow> op = Div_arith \<and> sint a = INT64_MIN \<and> sint b = - 1 | _ \<Rightarrow> False)"

text \<open>The number that an operation gives on two numbers, unless the quotient is undefined.\<close>

definition arith :: "arith_op \<Rightarrow> numeric_value \<Rightarrow> numeric_value \<Rightarrow> runtime_error + numeric_value" where
  "arith op x y =
     (case (x, y) of
        (Num_invalid, _) \<Rightarrow> Inl (type_error ''Expected a number'')
      | (_, Num_invalid) \<Rightarrow> Inl (type_error ''Expected a number'')
      | (Num_fixnum a, Num_fixnum b) \<Rightarrow>
        (if op = Div_arith then
           (if b = 0 then Inl (type_error ''Division by zero'')
            else if sint a - sint b * cdiv (sint a) (sint b) \<noteq> 0
            then Inr (Num_flonum (dbl_div (int_to_double (sint a)) (int_to_double (sint b))))
            else Inr (Num_fixnum (word_of_int (cdiv (sint a) (sint b)))))
         else (case int_op op a b of
            Some r \<Rightarrow> Inr (Num_fixnum r)
          | None \<Rightarrow> map_sum id Num_flonum (apply_double op (int_to_double (sint a)) (int_to_double (sint b)))))
      | _ \<Rightarrow> map_sum id Num_flonum (apply_double op (as_double x) (as_double y)))"

definition box_number :: "fresh \<Rightarrow> numeric_value \<Rightarrow> 'f world \<Rightarrow> (runtime_error + lispval) \<times> 'f world" where
  "box_number fresh n w = (case n of
       Num_fixnum i \<Rightarrow> new_fixnum fresh i w
     | Num_flonum d \<Rightarrow> (new_flonum d, w)
     | Num_invalid \<Rightarrow> (Inl (type_error ''Expected a number''), w))"

definition number_arith :: "fresh \<Rightarrow> arith_op \<Rightarrow> lispval \<Rightarrow> lispval \<Rightarrow> 'f world \<Rightarrow> (runtime_error + lispval) \<times> 'f world" where
  "number_arith fresh op a b w =
     (case arith op (number_of w a) (number_of w b) of
        Inl e \<Rightarrow> (Inl e, w) | Inr n \<Rightarrow> box_number fresh n w)"

end
