(* ===== verification/Interpreter.thy ===== *)
theory Interpreter
  imports Machine
begin

text \<open>
  The interpreter of \<^verbatim>\<open>eta/core/src/eta/runtime/vm/vm.cpp\<close>: calls and returns, continuations,
  dynamic winds, exceptions, every opcode of \<^verbatim>\<open>run_loop\<close>, \<^verbatim>\<open>execute\<close> and \<^verbatim>\<open>call_value\<close>.

  A step gives \<open>None\<close> when it does not return or when C++ leaves its behaviour undefined, and
  otherwise a result, \<open>Inl\<close> the error it stops with, and the state it leaves. The fuel of the
  environment bounds the nesting of the calls that one instruction makes itself (the thunks of
  dynamic winds) and the walks through lists and terms. Running a builtin is the parameter
  \<open>run_primitive\<close>. The attached debugger, the interrupt flag, finalizers and the temporary roots
  of the collector have no part in the model.
\<close>

section \<open>State\<close>

record catch_frame =
  cf_tag :: lispval
  cf_func :: nat
  cf_handler_pc :: u32
  cf_fp :: u32
  cf_closure :: lispval
  cf_frame_count :: nat
  cf_stack_top :: u32
  cf_wind_count :: nat
  cf_tape_count :: nat

record transfer =
  tr_catch :: catch_frame
  tr_payload :: lispval

record vm =
  wd :: "nat world"
  stack :: "lispval list"
  frames :: "nat frame list"
  winding :: "wind_frame list"
  catches :: "catch_frame list"
  pending_transfer :: "transfer option"
  unwind_thunks :: "lispval list"
  unwind_index :: nat
  cur_func :: "nat option"
  pc :: u32
  fp :: u32
  cur_closure :: lispval
  active_tapes :: "lispval list"
  sandbox_mode :: bool

type_synonym 'a run = "vm \<Rightarrow> ((runtime_error + 'a) \<times> vm) option"

record vm_env =
  code_table :: registry
  fresh_id :: fresh
  run_primitive :: "nat \<Rightarrow> lispval list \<Rightarrow> lispval run"
  logic_call :: run_proc
  fuel :: nat

definition ret :: "'a \<Rightarrow> 'a run" where
  "ret x s = Some (Inr x, s)"

definition throw :: "runtime_error \<Rightarrow> 'a run" where
  "throw e s = Some (Inl e, s)"

definition bind_run :: "'a run \<Rightarrow> ('a \<Rightarrow> 'b run) \<Rightarrow> 'b run" where
  "bind_run m f s = (case m s of
       None \<Rightarrow> None
     | Some (Inl e, s') \<Rightarrow> Some (Inl e, s')
     | Some (Inr x, s') \<Rightarrow> f x s')"

definition in_world :: "(nat world \<Rightarrow> (runtime_error + 'a) \<times> nat world) \<Rightarrow> 'a run" where
  "in_world m s = (case m (wd s) of (r, w) \<Rightarrow> Some (r, s\<lparr> wd := w \<rparr>))"

definition modify :: "(vm \<Rightarrow> vm) \<Rightarrow> unit run" where
  "modify f s = Some (Inr (), f s)"

definition resize :: "nat \<Rightarrow> 'a \<Rightarrow> 'a list \<Rightarrow> 'a list" where
  "resize n x xs = take n xs @ replicate (n - length xs) x"

definition push :: "lispval \<Rightarrow> vm \<Rightarrow> vm" where
  "push v s = s\<lparr> stack := stack s @ [v] \<rparr>"

definition pop :: "vm \<Rightarrow> lispval \<times> vm" where
  "pop s = (if stack s = [] then (Nil_val, s) else (last (stack s), s\<lparr> stack := butlast (stack s) \<rparr>))"

definition pop_run :: "lispval run" where
  "pop_run s = (case pop s of (v, s') \<Rightarrow> Some (Inr v, s'))"

definition func_of :: "vm_env \<Rightarrow> nat \<Rightarrow> bytecode_function" where
  "func_of env f = code_table env ! f"

definition needed_slots :: "vm_env \<Rightarrow> nat \<Rightarrow> u32 \<Rightarrow> u32" where
  "needed_slots env f argc = max (stack_size (func_of env f)) argc"

definition setup_frame :: "vm_env \<Rightarrow> nat \<Rightarrow> lispval \<Rightarrow> u32 \<Rightarrow> frame_kind \<Rightarrow> lispval \<Rightarrow> vm \<Rightarrow> vm" where
  "setup_frame env f cl argc k extra s =
     (let fp' = of_nat (length (stack s)) - argc in
      s\<lparr> frames := frames s @ [Frame (cur_func s) (pc s) (fp s) (cur_closure s) k extra],
         cur_func := Some f, cur_closure := cl, fp := fp', pc := 0,
         stack := resize (unat (fp' + needed_slots env f argc)) Nil_val (stack s) \<rparr>)"

definition restore_frame :: "nat frame \<Rightarrow> vm \<Rightarrow> vm" where
  "restore_frame fr s = s\<lparr> cur_func := fr_func fr, pc := fr_pc fr, fp := fr_fp fr, cur_closure := fr_closure fr \<rparr>"

text \<open>The elements that \<^verbatim>\<open>resize\<close> adds when it grows one of the other stacks.\<close>

definition no_frame :: "nat frame" where
  "no_frame = Frame None 0 0 0 Normal_frame 0"

definition no_wind :: wind_frame where
  "no_wind = \<lparr> wind_before = 0, wind_body = 0, wind_after = 0 \<rparr>"

section \<open>Lists and rest arguments\<close>

definition new_pair :: "fresh \<Rightarrow> lispval \<Rightarrow> lispval \<Rightarrow> 'f world \<Rightarrow> (runtime_error + lispval) \<times> 'f world" where
  "new_pair fresh a d = new_object fresh (Plain (Cons_obj a d))"

fun list_payload :: "fresh \<Rightarrow> lispval list \<Rightarrow> 'f world \<Rightarrow> (runtime_error + lispval) \<times> 'f world" where
  "list_payload fresh [] w = (Inr Nil_val, w)"
| "list_payload fresh (x # xs) w = (case list_payload fresh xs w of
       (Inl e, w') \<Rightarrow> (Inl e, w')
     | (Inr t, w') \<Rightarrow> new_pair fresh x t w')"

text \<open>\<^verbatim>\<open>pack_rest_args\<close>: the arguments from \<open>required\<close> on become a list in the slot \<open>required\<close>.\<close>

definition pack_rest_args :: "vm_env \<Rightarrow> u32 \<Rightarrow> u32 \<Rightarrow> unit run" where
  "pack_rest_args env argc required s =
     (let base = unat (fp s); n = unat argc; r = unat required in
      if base + max n (r + 1) > length (stack s) then None
      else case list_payload (fresh_id env) (take (n - r) (drop (base + r) (stack s))) (wd s) of
        (Inl e, w) \<Rightarrow> Some (Inl e, s\<lparr> wd := w \<rparr>)
      | (Inr l, w) \<Rightarrow> Some (Inr (), s\<lparr> wd := w, stack := (stack s)[base + r := l] \<rparr>))"

text \<open>\<^verbatim>\<open>unpack_to_stack\<close>\<close>

definition unpack_to_stack :: "lispval \<Rightarrow> vm \<Rightarrow> vm" where
  "unpack_to_stack v s = (case as_values (wd s) v of
       Some vs \<Rightarrow> s\<lparr> stack := stack s @ vs \<rparr> | None \<Rightarrow> push v s)"

section \<open>The payload of a runtime error\<close>

definition world_bind :: "('f world \<Rightarrow> ('e + 'a) \<times> 'f world) \<Rightarrow> ('a \<Rightarrow> 'f world \<Rightarrow> ('e + 'b) \<times> 'f world) \<Rightarrow>
    'f world \<Rightarrow> ('e + 'b) \<times> 'f world" where
  "world_bind m f w = (case m w of (Inl e, w') \<Rightarrow> (Inl e, w') | (Inr x, w') \<Rightarrow> f x w')"

fun world_map :: "('a \<Rightarrow> 'f world \<Rightarrow> ('e + 'b) \<times> 'f world) \<Rightarrow> 'a list \<Rightarrow> 'f world \<Rightarrow> ('e + 'b list) \<times> 'f world" where
  "world_map f [] w = (Inr [], w)"
| "world_map f (x # xs) w =
     world_bind (f x) (\<lambda>y. world_bind (world_map f xs) (\<lambda>ys w. (Inr (y # ys), w))) w"

definition call_pc :: "u32 \<Rightarrow> nat" where
  "call_pc p = unat (if p > 0 then p - 1 else 0)"

text \<open>\<^verbatim>\<open>get_frames\<close>: the functions and call sites of the active frames, innermost first.\<close>

definition get_frames :: "vm_env \<Rightarrow> vm \<Rightarrow> (string \<times> span) list" where
  "get_frames env s =
     (let here = (case cur_func s of None \<Rightarrow> []
          | Some f \<Rightarrow> [(fn_name (func_of env f), span_at (func_of env f) (call_pc (pc s)))]);
          saved = takeWhile (\<lambda>fr. fr_kind fr \<noteq> Sentinel) (rev (frames s))
      in here @ concat (map (\<lambda>fr. case fr_func fr of None \<Rightarrow> []
           | Some f \<Rightarrow> [(fn_name (func_of env f), span_at (func_of env f) (call_pc (fr_pc fr)))]) saved))"

definition capture_stack_trace :: "vm_env \<Rightarrow> span \<Rightarrow> vm \<Rightarrow> (string \<times> span) list" where
  "capture_stack_trace env sp s = (case get_frames env s of [] \<Rightarrow> [] | (n, _) # fs \<Rightarrow> (n, sp) # fs)"

definition span_payload :: "fresh \<Rightarrow> lispval \<Rightarrow> span \<Rightarrow> 'f world \<Rightarrow> (runtime_error + lispval) \<times> 'f world" where
  "span_payload fresh ssym sp =
     world_bind (world_map (\<lambda>x. new_fixnum fresh (ucast x))
         [file_id sp, line (span_start sp), column (span_start sp), line (span_end sp), column (span_end sp)])
       (\<lambda>xs. list_payload fresh (ssym # xs))"

definition field_payload :: "fresh \<Rightarrow> string \<times> field_value \<Rightarrow> 'f world \<Rightarrow> (runtime_error + lispval) \<times> 'f world" where
  "field_payload fresh kv =
     world_bind (new_interned Symbol_tag (fst kv)) (\<lambda>k.
       world_bind (case snd kv of
           Int_field i \<Rightarrow> new_fixnum fresh i
         | Double_field d \<Rightarrow> (\<lambda>w. (new_flonum d, w))
         | String_field s \<Rightarrow> new_interned String_tag s)
         (\<lambda>v. list_payload fresh [k, v]))"

definition fields_of :: "runtime_error \<Rightarrow> (string \<times> field_value) list" where
  "fields_of e = (case e of VM_error _ _ _ fs \<Rightarrow> fs | _ \<Rightarrow> [])"

definition error_payload :: "fresh \<Rightarrow> runtime_error \<Rightarrow> lispval \<Rightarrow> span \<Rightarrow> (string \<times> span) list \<Rightarrow>
    'f world \<Rightarrow> (runtime_error + lispval) \<times> 'f world" where
  "error_payload fresh err tg sp trace =
     world_bind (new_interned Symbol_tag ''runtime-error'') (\<lambda>runtime_sym.
     world_bind (new_interned Symbol_tag ''span'') (\<lambda>span_sym.
     world_bind (new_interned Symbol_tag ''frame'') (\<lambda>frame_sym.
     world_bind (new_interned String_tag (runtime_error_message err)) (\<lambda>msg.
     world_bind (span_payload fresh span_sym sp) (\<lambda>span_val.
     world_bind (world_map (\<lambda>(n, fsp). world_bind (new_interned String_tag n) (\<lambda>fname.
         world_bind (span_payload fresh span_sym fsp) (\<lambda>fspan. list_payload fresh [frame_sym, fname, fspan]))) trace) (\<lambda>rows.
     world_bind (list_payload fresh rows) (\<lambda>stack_trace.
     if fields_of err = [] then list_payload fresh [runtime_sym, tg, msg, span_val, stack_trace]
     else world_bind (world_map (field_payload fresh) (fields_of err)) (\<lambda>frows.
       world_bind (list_payload fresh frows) (\<lambda>field_rows.
         list_payload fresh [runtime_sym, tg, msg, span_val, stack_trace, field_rows])))))))))"

section \<open>Calls\<close>

datatype dispatch = Continue | SetupFrame nat lispval | TailReuse nat lispval | NonLocalTransfer

definition arity_message :: "string \<Rightarrow> string \<Rightarrow> u32 \<Rightarrow> string \<Rightarrow> u32 \<Rightarrow> string" where
  "arity_message pre mid n post got = pre @ mid @ to_decimal n @ post @ to_decimal got"

definition arity_ok :: "bool \<Rightarrow> u32 \<Rightarrow> u32 \<Rightarrow> bool" where
  "arity_ok rest arity argc \<longleftrightarrow> (if rest then argc \<ge> arity else argc = arity)"

definition closure_arity_error :: "bool \<Rightarrow> u32 \<Rightarrow> u32 \<Rightarrow> runtime_error" where
  "closure_arity_error rest arity argc = vm_error InvalidArity
     (arity_message ''Wrong number of arguments: expected '' (if rest then ''at least '' else '''') arity '', got '' argc)"

definition primitive_arity_error :: "bool \<Rightarrow> u32 \<Rightarrow> u32 \<Rightarrow> runtime_error" where
  "primitive_arity_error rest arity argc = vm_error InvalidArity
     (arity_message ''Primitive expects '' (if rest then ''at least '' else '''') arity '' argument(s), got '' argc)"

text \<open>The longest common prefix of two winding stacks, by their outer thunks.\<close>

fun common_winds :: "wind_frame list \<Rightarrow> wind_frame list \<Rightarrow> nat" where
  "common_winds (x # xs) (y # ys) =
     (if wind_before x = wind_before y \<and> wind_after x = wind_after y then Suc (common_winds xs ys) else 0)"
| "common_winds _ _ = 0"

text \<open>The frames up to and with the innermost sentinel, when there is one.\<close>

definition sentinel_prefix :: "nat frame list \<Rightarrow> nat frame list option" where
  "sentinel_prefix fs =
     (let rest = dropWhile (\<lambda>f. fr_kind f \<noteq> Sentinel) (rev fs) in if rest = [] then None else Some (rev rest))"

text \<open>The state of a continuation replaces the current one, and the value is delivered to it.\<close>

definition enter_continuation :: "lispval list \<Rightarrow> nat frame list \<Rightarrow> wind_frame list \<Rightarrow> lispval \<Rightarrow> vm \<Rightarrow> vm" where
  "enter_continuation st fs ws v s =
     (let fs' = (case sentinel_prefix (frames s) of Some p \<Rightarrow> p @ fs | None \<Rightarrow> fs);
          s1 = s\<lparr> stack := st, frames := fs', winding := ws \<rparr>
      in if fs' = [] then (push v s1)\<lparr> cur_func := None \<rparr>
         else push v (restore_frame (last fs') (s1\<lparr> frames := butlast fs' \<rparr>)))"

section \<open>Exceptions\<close>

definition runtime_catch_matches :: "nat world \<Rightarrow> lispval \<Rightarrow> lispval \<Rightarrow> lispval \<Rightarrow> bool" where
  "runtime_catch_matches w t specific super \<longleftrightarrow>
     t = Nil_val \<or> values_eqv w t specific \<or> values_eqv w t super"

definition find_catch :: "(catch_frame \<Rightarrow> bool) \<Rightarrow> catch_frame list \<Rightarrow> nat option" where
  "find_catch P cs =
     (case filter (\<lambda>i. P (cs ! i)) (rev [0..<length cs]) of [] \<Rightarrow> None | i # _ \<Rightarrow> Some i)"

definition clear_transfer :: "vm \<Rightarrow> vm" where
  "clear_transfer s = s\<lparr> pending_transfer := None, unwind_thunks := [], unwind_index := 0 \<rparr>"

text \<open>Control passes to the handler: the stacks are cut back and the payload is pushed.\<close>

definition enter_handler :: "catch_frame \<Rightarrow> lispval \<Rightarrow> vm \<Rightarrow> vm" where
  "enter_handler cf v s = s\<lparr>
     frames := resize (cf_frame_count cf) no_frame (frames s),
     winding := resize (cf_wind_count cf) no_wind (winding s),
     active_tapes := resize (cf_tape_count cf) 0 (active_tapes s),
     stack := resize (unat (cf_stack_top cf)) 0 (stack s) @ [v],
     cur_func := Some (cf_func cf), fp := cf_fp cf, cur_closure := cf_closure cf, pc := cf_handler_pc cf \<rparr>"

definition start_unwind :: "catch_frame \<Rightarrow> lispval \<Rightarrow> vm \<Rightarrow> vm" where
  "start_unwind cf v s = s\<lparr>
     pending_transfer := Some \<lparr> tr_catch = cf, tr_payload = v \<rparr>,
     unwind_thunks := map wind_after (rev (drop (cf_wind_count cf) (winding s))),
     unwind_index := 0 \<rparr>"

definition next_thunk_vector :: "lispval \<Rightarrow> lispval list \<Rightarrow> i64 \<Rightarrow> vm \<Rightarrow> vm" where
  "next_thunk_vector v els i s =
     s\<lparr> wd := write_object v (Plain (Vector_obj (els[2 := (case encode_i64 i of Inr x \<Rightarrow> x | Inl _ \<Rightarrow> 0)]))) (wd s) \<rparr>"

section \<open>Dispatch, return and unwinding\<close>

definition begin_transfer :: "(unit run) \<Rightarrow> catch_frame \<Rightarrow> lispval \<Rightarrow> nat \<Rightarrow> unit run" where
  "begin_transfer resume cf v i s =
     (let s1 = s\<lparr> catches := take i (catches s) \<rparr> in
      if length (winding s1) \<le> cf_wind_count cf then Some (Inr (), enter_handler cf v s1)
      else resume (start_unwind cf v s1))"

definition route_error :: "vm_env \<Rightarrow> unit run \<Rightarrow> runtime_error \<Rightarrow> span \<Rightarrow> unit run" where
  "route_error env resume err sp s =
     (case new_interned Symbol_tag (runtime_error_tag_name err) (wd s) of
        (Inl _, w) \<Rightarrow> Some (Inl err, s\<lparr> wd := w \<rparr>)
      | (Inr specific, w) \<Rightarrow>
        (case new_interned Symbol_tag ''runtime.error'' w of
           (Inl _, w') \<Rightarrow> Some (Inl err, s\<lparr> wd := w' \<rparr>)
         | (Inr super, w') \<Rightarrow>
           (let s1 = s\<lparr> wd := w' \<rparr> in
            case find_catch (\<lambda>cf. runtime_catch_matches w' (cf_tag cf) specific super) (catches s1) of
              None \<Rightarrow> Some (Inl err, s1)
            | Some i \<Rightarrow>
              (case error_payload (fresh_id env) err specific sp (capture_stack_trace env sp s1) w' of
                 (Inl _, w'') \<Rightarrow> Some (Inl err, s1\<lparr> wd := w'' \<rparr>)
               | (Inr pl, w'') \<Rightarrow>
                 begin_transfer resume (catches s1 ! i) pl i (s1\<lparr> wd := w'' \<rparr>)))))"

definition do_throw :: "vm_env \<Rightarrow> unit run \<Rightarrow> lispval \<Rightarrow> lispval \<Rightarrow> unit run" where
  "do_throw env resume tg v s =
     (case find_catch (\<lambda>cf. cf_tag cf = Nil_val \<or> values_eqv (wd s) (cf_tag cf) tg) (catches s) of
        Some i \<Rightarrow> begin_transfer resume (catches s ! i) v i s
      | None \<Rightarrow>
        (let name = (if is_boxed tg \<and> tag tg = Symbol_tag
             then (case get_string (payload tg) (interns (wd s)) of Inr n \<Rightarrow> n | Inl _ \<Rightarrow> ''unknown-tag'')
             else ''unknown-tag'')
         in Some (Inl (vm_error UserThrow (''Unhandled raise: '' @ name)), s)))"

text \<open>
  \<open>dispatch_callee\<close>, \<open>handle_return\<close> and \<open>resume_transfer\<close> call each other through the thunks
  of dynamic winds; the first argument after the environment is the fuel.
\<close>

fun dispatch_callee :: "vm_env \<Rightarrow> nat \<Rightarrow> lispval \<Rightarrow> u32 \<Rightarrow> bool \<Rightarrow> span \<Rightarrow> dispatch run"
  and handle_return :: "vm_env \<Rightarrow> nat \<Rightarrow> lispval \<Rightarrow> unit run"
  and resume_transfer :: "vm_env \<Rightarrow> nat \<Rightarrow> unit run" where
  "dispatch_callee env 0 callee argc is_tail sp = (\<lambda>s. None)"
| "dispatch_callee env (Suc n) callee argc is_tail sp = (\<lambda>s.
     let route = (\<lambda>err. bind_run (route_error env (resume_transfer env n) err sp) (\<lambda>_. ret NonLocalTransfer)) in
     if \<not> is_boxed callee then route (type_error ''Callee is not boxed'') s
     else case object_at (wd s) callee of
       Some (Closure f us p) \<Rightarrow>
         (let fn = func_of env f in
          if \<not> arity_ok (has_rest fn) (fn_arity fn) argc
          then route (closure_arity_error (has_rest fn) (fn_arity fn) argc) s
          else ret (if is_tail then TailReuse f callee else SetupFrame f callee) s)
     | Some (Continuation cst cfs cws) \<Rightarrow>
         (if argc \<noteq> 1 then route (vm_error InvalidArity ''Continuation expects 1 argument'') s
          else (case pop s of (v, s1) \<Rightarrow>
            let common = common_winds (winding s1) cws in
            if common = length (winding s1) \<and> common = length cws
            then Some (Inr Continue, enter_continuation cst cfs cws v s1)
            else
              (let thunks = map wind_after (rev (drop common (winding s1))) @ map wind_before (drop common cws) in
               bind_run (in_world (new_object (fresh_id env)
                   (Plain (Vector_obj ([callee, v, (case encode_i64 1 of Inr x \<Rightarrow> x | Inl _ \<Rightarrow> 0)] @ thunks))))) (\<lambda>state_vec.
               bind_run (dispatch_callee env n (hd thunks) 0 False default_span) (\<lambda>d.
               case d of
                 SetupFrame f cl \<Rightarrow>
                   bind_run (modify (setup_frame env f cl 0 ContinuationJump state_vec)) (\<lambda>_. ret Continue)
               | NonLocalTransfer \<Rightarrow> ret NonLocalTransfer
               | _ \<Rightarrow>
                   bind_run (modify (\<lambda>s. s\<lparr> frames := frames s @
                       [Frame (cur_func s) (pc s) (fp s) (cur_closure s) ContinuationJump state_vec] \<rparr>)) (\<lambda>_.
                   bind_run (handle_return env n Nil_val) (\<lambda>_. ret Continue)))) s1)))
     | Some (Primitive p ar rest) \<Rightarrow>
         (if \<not> arity_ok rest ar argc then route (primitive_arity_error rest ar argc) s
          else if length (stack s) < unat argc
          then throw (vm_error InvalidInstruction ''Primitive call stack underflow'') s
          else (let args_start = length (stack s) - unat argc in
            case run_primitive env p (drop args_start (stack s)) s of
              None \<Rightarrow> None
            | Some (r, s1) \<Rightarrow>
              (let s2 = s1\<lparr> stack := resize args_start 0 (stack s1) \<rparr> in
               case r of
                 Inr v \<Rightarrow> Some (Inr Continue, push v s2)
               | Inl e \<Rightarrow> if is_non_local_transfer e then Some (Inr NonLocalTransfer, s2) else route e s2)))
     | _ \<Rightarrow> route (type_error ''Callee is not a function'') s)"
| "handle_return env 0 v = (\<lambda>s. None)"
| "handle_return env (Suc n) v = (\<lambda>s.
     if frames s = [] then
       Some (Inr (), (push v (s\<lparr> stack := resize (unat (fp s)) 0 (stack s) \<rparr>))\<lparr> cur_func := None \<rparr>)
     else let fr = last (frames s); s0 = s\<lparr> frames := butlast (frames s) \<rparr> in
       if fr_kind fr = Sentinel then
         Some (Inr (), (push v (s0\<lparr> stack := resize (unat (fp s)) 0 (stack s) \<rparr>))\<lparr> cur_func := None, pc := 0 \<rparr>)
       else let s1 = restore_frame fr (s0\<lparr> stack := resize (unat (fp s)) 0 (stack s) \<rparr>) in
         (case fr_kind fr of
           Sentinel \<Rightarrow> None
         | ContinuationJump \<Rightarrow>
           (case as_elements (wd s1) (fr_extra fr) of
              None \<Rightarrow> throw (type_error ''Invalid jump state'') s1
            | Some els \<Rightarrow>
              (if length els < 3 then None else
               case decode_i64 (els ! 2) of Inl _ \<Rightarrow> None | Inr next \<Rightarrow>
               if unat next < length els - 3 then
                 bind_run (dispatch_callee env n (els ! (3 + unat next)) 0 False default_span) (\<lambda>d.
                 case d of
                   SetupFrame f cl \<Rightarrow> modify (setup_frame env f cl 0 ContinuationJump (fr_extra fr))
                 | NonLocalTransfer \<Rightarrow> ret ()
                 | _ \<Rightarrow> bind_run (modify (\<lambda>s. s\<lparr> frames := frames s @ [fr] \<rparr>)) (\<lambda>_. handle_return env n Nil_val))
                 (next_thunk_vector (fr_extra fr) els (next + 1) s1)
               else (case object_at (wd s1) (els ! 0) of
                   Some (Continuation cst cfs cws) \<Rightarrow> Some (Inr (), enter_continuation cst cfs cws (els ! 1) s1)
                 | _ \<Rightarrow> throw (type_error ''Invalid target continuation'') s1)))
         | ExceptionUnwind \<Rightarrow> resume_transfer env n s1
         | CallWithValuesConsumer \<Rightarrow>
           (let s2 = unpack_to_stack v s1; argc = of_nat (length (stack s2) - length (stack s1)) in
            bind_run (dispatch_callee env n (fr_extra fr) argc False default_span) (\<lambda>d.
              case d of SetupFrame f cl \<Rightarrow> modify (setup_frame env f cl argc Normal_frame 0) | _ \<Rightarrow> ret ()) s2)
         | DynamicWindBody \<Rightarrow>
           (if winding s1 = [] then throw (vm_error InternalError ''Winding stack empty'') s1
            else let w = last (winding s1) in
              bind_run (dispatch_callee env n (wind_body w) 0 False default_span) (\<lambda>d.
              case d of
                SetupFrame f cl \<Rightarrow> modify (setup_frame env f cl 0 DynamicWindAfter (wind_after w))
              | NonLocalTransfer \<Rightarrow> ret ()
              | _ \<Rightarrow> bind_run pop_run (\<lambda>res.
                  bind_run (dispatch_callee env n (wind_after w) 0 False default_span) (\<lambda>d.
                  case d of
                    SetupFrame f cl \<Rightarrow> modify (setup_frame env f cl 0 DynamicWindCleanup res)
                  | NonLocalTransfer \<Rightarrow> ret ()
                  | _ \<Rightarrow> bind_run pop_run (\<lambda>_. modify (\<lambda>s. (push res s)\<lparr> winding := butlast (winding s) \<rparr>))))) s1)
         | DynamicWindAfter \<Rightarrow>
           (if winding s1 = [] then throw (vm_error InternalError ''Winding stack empty'') s1
            else
              bind_run (dispatch_callee env n (fr_extra fr) 0 False default_span) (\<lambda>d.
              case d of
                SetupFrame f cl \<Rightarrow> modify (setup_frame env f cl 0 DynamicWindCleanup v)
              | NonLocalTransfer \<Rightarrow> ret ()
              | _ \<Rightarrow> modify (\<lambda>s. push v (s\<lparr> winding := butlast (winding s) \<rparr>))) s1)
         | DynamicWindCleanup \<Rightarrow>
           (if winding s1 = [] then throw (vm_error InternalError ''Winding stack empty'') s1
            else Some (Inr (), push (fr_extra fr) (s1\<lparr> winding := butlast (winding s1) \<rparr>)))
         | Normal_frame \<Rightarrow> Some (Inr (), push v s1)))"
| "resume_transfer env 0 = (\<lambda>s. None)"
| "resume_transfer env (Suc n) = (\<lambda>s.
     case pending_transfer s of
       None \<Rightarrow> throw (vm_error InternalError ''missing pending exception transfer'') s
     | Some tr \<Rightarrow>
       (if unwind_index s < length (unwind_thunks s) then
          (case dispatch_callee env n (unwind_thunks s ! unwind_index s) 0 False default_span
             (s\<lparr> unwind_index := unwind_index s + 1 \<rparr>) of
             None \<Rightarrow> None
           | Some (Inl e, s1) \<Rightarrow> Some (Inl e, clear_transfer s1)
           | Some (Inr d, s1) \<Rightarrow>
             (case d of
                SetupFrame f cl \<Rightarrow> Some (Inr (), setup_frame env f cl 0 ExceptionUnwind 0 s1)
              | NonLocalTransfer \<Rightarrow> Some (Inr (), clear_transfer s1)
              | _ \<Rightarrow> resume_transfer env n (snd (pop s1))))
        else Some (Inr (), enter_handler (tr_catch tr) (tr_payload tr) (clear_transfer s))))"

declare dispatch_callee.simps [simp del] handle_return.simps [simp del] resume_transfer.simps [simp del]

section \<open>Copying terms\<close>

text \<open>
  \<^verbatim>\<open>copy_term\<close>: a fresh variable for every unbound one, the same for the same. The memo is the
  third part of the result.
\<close>

type_synonym 'f copy = "(object_id \<rightharpoonup> lispval) \<Rightarrow> 'f world \<Rightarrow> ((runtime_error + lispval) \<times> (object_id \<rightharpoonup> lispval) \<times> 'f world) option"

definition copy_alloc :: "fresh \<Rightarrow> heap_obj \<Rightarrow> 'f copy" where
  "copy_alloc fresh ob m w = (case new_object fresh (Plain ob) w of (r, w') \<Rightarrow> Some (r, m, w'))"

fun copy_list :: "(lispval \<Rightarrow> 'f copy) \<Rightarrow> lispval list \<Rightarrow> lispval list \<Rightarrow> (lispval list \<Rightarrow> 'f copy) \<Rightarrow> 'f copy" where
  "copy_list f [] ys k m w = k ys m w"
| "copy_list f (x # xs) ys k m w = (case f x m w of
       None \<Rightarrow> None
     | Some (Inl e, m', w') \<Rightarrow> Some (Inl e, m', w')
     | Some (Inr y, m', w') \<Rightarrow> copy_list f xs (ys @ [y]) k m' w')"

fun copy_walk :: "fresh \<Rightarrow> nat \<Rightarrow> lispval \<Rightarrow> 'f copy" where
  "copy_walk fresh 0 v = (\<lambda>m w. None)"
| "copy_walk fresh (Suc n) v = (\<lambda>m w.
     case deref n (logic_view w) v of None \<Rightarrow> None | Some x \<Rightarrow>
     (case object_at w x of
        Some (Plain ob) \<Rightarrow>
          (case ob of
             LogicVar_obj None _ _ \<Rightarrow>
               (case m (payload x) of
                  Some y \<Rightarrow> Some (Inr y, m, w)
                | None \<Rightarrow> (case new_object fresh (Plain (LogicVar_obj None '''' [])) w of
                    (Inl e, w') \<Rightarrow> Some (Inl e, m, w')
                  | (Inr y, w') \<Rightarrow> Some (Inr y, m(payload x \<mapsto> y), w')))
           | LogicVar_obj (Some b) _ _ \<Rightarrow> copy_walk fresh n b m w
           | Cons_obj a d \<Rightarrow> copy_list (copy_walk fresh n) [a, d] []
               (\<lambda>ys. copy_alloc fresh (Cons_obj (ys ! 0) (ys ! 1))) m w
           | Vector_obj es \<Rightarrow> copy_list (copy_walk fresh n) es [] (\<lambda>ys. copy_alloc fresh (Vector_obj ys)) m w
           | CompoundTerm_obj f as \<Rightarrow> copy_list (copy_walk fresh n) as [] (\<lambda>ys. copy_alloc fresh (CompoundTerm_obj f ys)) m w
           | _ \<Rightarrow> Some (Inr x, m, w))
      | _ \<Rightarrow> Some (Inr x, m, w)))"

definition copy_term :: "fresh \<Rightarrow> nat \<Rightarrow> lispval \<Rightarrow> 'f world \<Rightarrow> ((runtime_error + lispval) \<times> 'f world) option" where
  "copy_term fresh n v w = map_option (\<lambda>(r, m, w'). (r, w')) (copy_walk fresh n v Map.empty w)"

section \<open>Opcodes\<close>

abbreviation invalid :: "string \<Rightarrow> runtime_error" where
  "invalid m \<equiv> vm_error InvalidInstruction m"

definition push_run :: "lispval \<Rightarrow> unit run" where
  "push_run v = modify (push v)"

definition op_load_const :: "vm_env \<Rightarrow> u32 \<Rightarrow> unit run" where
  "op_load_const env a s =
     (let cs = (case cur_func s of Some f \<Rightarrow> constants (func_of env f) | None \<Rightarrow> []) in
      if unat a < length cs then Some (Inr (), push (cs ! unat a) s)
      else throw (invalid ''Constant index out of bounds'') s)"

definition op_load_local :: "u32 \<Rightarrow> unit run" where
  "op_load_local a s =
     (if unat (fp s + a) \<ge> length (stack s) then throw (invalid ''LoadLocal: slot out of range'') s
      else Some (Inr (), push (stack s ! unat (fp s + a)) s))"

definition op_store_local :: "u32 \<Rightarrow> unit run" where
  "op_store_local a s =
     (if unat (fp s + a) \<ge> length (stack s) then throw (invalid ''StoreLocal: slot out of range'') s
      else case pop s of (v, s1) \<Rightarrow>
        if unat (fp s + a) \<ge> length (stack s1) then None
        else Some (Inr (), s1\<lparr> stack := (stack s1)[unat (fp s + a) := v] \<rparr>))"

definition op_load_upval :: "u32 \<Rightarrow> unit run" where
  "op_load_upval a s = (case as_closure (wd s) (cur_closure s) of
       None \<Rightarrow> throw (type_error ''LoadUpval outside of a closure'') s
     | Some (f, us, p) \<Rightarrow>
       if unat a \<ge> length us then throw (invalid ''LoadUpval: index out of range'') s
       else Some (Inr (), push (us ! unat a) s))"

definition op_store_upval :: "u32 \<Rightarrow> unit run" where
  "op_store_upval a s = (case as_closure (wd s) (cur_closure s) of
       None \<Rightarrow> throw (type_error ''StoreUpval outside of a closure'') s
     | Some (f, us, p) \<Rightarrow>
       if unat a \<ge> length us then throw (invalid ''StoreUpval: index out of range'') s
       else if sandbox_mode s then throw (vm_error SandboxViolation ''StoreUpval blocked: sandbox is read-only'') s
       else case pop s of (v, s1) \<Rightarrow>
         Some (Inr (), s1\<lparr> wd := write_object (cur_closure s) (Closure f (us[unat a := v]) p) (wd s1) \<rparr>))"

definition op_load_global :: "u32 \<Rightarrow> unit run" where
  "op_load_global a s =
     (if unat a < length (globals (wd s)) then Some (Inr (), push (globals (wd s) ! unat a) s)
      else throw (vm_error UndefinedGlobal ''Global index out of range'') s)"

definition op_store_global :: "u32 \<Rightarrow> unit run" where
  "op_store_global a s =
     (if sandbox_mode s then throw (vm_error SandboxViolation ''StoreGlobal blocked: sandbox is read-only'') s
      else let gs = globals (wd s);
             gs' = (if unat a \<ge> length gs then resize (unat (a + 1)) Nil_val gs else gs)
        in case pop s of (v, s1) \<Rightarrow> Some (Inr (), s1\<lparr> wd := (wd s1)\<lparr> globals := gs'[unat a := v] \<rparr> \<rparr>))"

definition op_dup :: "unit run" where
  "op_dup s = (if stack s = [] then None else Some (Inr (), push (last (stack s)) s))"

definition op_jump :: "vm_env \<Rightarrow> u32 \<Rightarrow> unit run" where
  "op_jump env a s =
     (let rel = sint a; target = int (unat (pc s)) + rel in
      if target < 0 \<or> target > 4294967295 then throw (invalid ''Jump: target out of range'') s
      else let s1 = (if rel < 0 \<and> target = 0 then
               (case cur_func s of None \<Rightarrow> s | Some f \<Rightarrow>
                 s\<lparr> stack := resize (unat (fp s + needed_slots env f (fn_arity (func_of env f)))) Nil_val (stack s) \<rparr>)
             else s)
        in Some (Inr (), s1\<lparr> pc := word_of_int target \<rparr>))"

definition op_jump_if_false :: "u32 \<Rightarrow> unit run" where
  "op_jump_if_false a s = (case pop s of (v, s1) \<Rightarrow>
     Some (Inr (), if v = False_val then s1\<lparr> pc := pc s1 + a \<rparr> else s1))"

fun pop_many :: "nat \<Rightarrow> vm \<Rightarrow> lispval list \<times> vm" where
  "pop_many 0 s = ([], s)"
| "pop_many (Suc n) s = (case pop s of (v, s1) \<Rightarrow> case pop_many n s1 of (vs, s2) \<Rightarrow> (vs @ [v], s2))"

definition op_values :: "vm_env \<Rightarrow> u32 \<Rightarrow> unit run" where
  "op_values env a s =
     (if a = 1 then Some (Inr (), s)
      else case pop_many (unat a) s of (vs, s1) \<Rightarrow>
        bind_run (in_world (new_object (fresh_id env) (Plain (MultipleValues_obj vs)))) push_run s1)"

definition op_make_closure :: "vm_env \<Rightarrow> u32 \<Rightarrow> unit run" where
  "op_make_closure env a s =
     (let cs = (case cur_func s of Some f \<Rightarrow> constants (func_of env f) | None \<Rightarrow> []);
          k = unat (drop_bit 16 a); n = unat (a AND 0xFFFF) in
      if k \<ge> length cs then throw (invalid ''MakeClosure: constant index out of range'') s
      else if is_func_index (cs ! k) then
        (let f = unat (decode_func_index (cs ! k)) in
         if f \<ge> length (code_table env) then throw (invalid ''Invalid function index'') s
         else case pop_many n s of (us, s1) \<Rightarrow>
           bind_run (in_world (new_object (fresh_id env) (Closure f us (cur_closure s1)))) push_run s1)
      else throw (invalid ''Expected function index (FUNC_INDEX_TAG missing)'') s)"

definition op_patch_closure_upval :: "u32 \<Rightarrow> unit run" where
  "op_patch_closure_upval a s =
     (case pop s of (v, s1) \<Rightarrow> case pop s1 of (cl, s2) \<Rightarrow>
      if sandbox_mode s then throw (vm_error SandboxViolation ''PatchClosureUpval blocked: sandbox is read-only'') s2
      else (case as_closure (wd s2) cl of
          Some (f, us, p) \<Rightarrow>
            if unat a < length us
            then Some (Inr (), s2\<lparr> wd := write_object cl (Closure f (us[unat a := v]) p) (wd s2) \<rparr>)
            else Some (Inr (), s2)
        | None \<Rightarrow> Some (Inr (), s2)))"

definition op_cons :: "vm_env \<Rightarrow> unit run" where
  "op_cons env s = (case pop s of (d, s1) \<Rightarrow> case pop s1 of (a, s2) \<Rightarrow>
     bind_run (in_world (new_pair (fresh_id env) a d)) push_run s2)"

definition op_car :: "unit run" where
  "op_car s = (case pop s of (v, s1) \<Rightarrow> case as_pair (wd s1) v of
       None \<Rightarrow> throw (type_error ''Not a pair'') s1 | Some (a, d) \<Rightarrow> Some (Inr (), push a s1))"

definition op_cdr :: "unit run" where
  "op_cdr s = (case pop s of (v, s1) \<Rightarrow> case as_pair (wd s1) v of
       None \<Rightarrow> throw (type_error ''Not a pair'') s1 | Some (a, d) \<Rightarrow> Some (Inr (), push d s1))"

definition op_eq :: "unit run" where
  "op_eq s = (case pop s of (b, s1) \<Rightarrow> case pop s1 of (a, s2) \<Rightarrow>
     Some (Inr (), push (if values_eqv (wd s2) a b then True_val else False_val) s2))"

section \<open>Arithmetic\<close>

definition active_tape :: "vm \<Rightarrow> lispval" where
  "active_tape s = (if active_tapes s = [] then Nil_val else last (active_tapes s))"

definition arith_name :: "arith_op \<Rightarrow> string" where
  "arith_name op = (case op of Add_arith \<Rightarrow> ''+'' | Sub_arith \<Rightarrow> ''-'' | Mul_arith \<Rightarrow> ''*'' | Div_arith \<Rightarrow> ''/'')"

definition arith_tape_op :: "arith_op \<Rightarrow> tape_op" where
  "arith_tape_op op = (case op of Add_arith \<Rightarrow> TAdd | Sub_arith \<Rightarrow> TSub | Mul_arith \<Rightarrow> TMul | Div_arith \<Rightarrow> TDiv)"

definition no_active_tape :: runtime_error where
  "no_active_tape = VM_error UserError ''tape arithmetic: no active tape'' '':ad/no-active-tape''
     [(''op'', String_field ''binary-arithmetic'')]"

definition stale_ref :: "string \<Rightarrow> arith_op \<Rightarrow> string \<Rightarrow> tape \<Rightarrow> tape_parts \<Rightarrow> runtime_error" where
  "stale_ref m op side t r = VM_error UserError m '':ad/stale-ref''
     [(''op'', String_field (arith_name op)), (''side'', String_field side),
      (''tape-id'', Int_field (ucast (tape_id t))), (''expected-gen'', Int_field (ucast (generation t))),
      (''actual-gen'', Int_field (ucast (tp_generation r))), (''node-index'', Int_field (ucast (tp_node r)))]"

definition mixed_tape :: "arith_op \<Rightarrow> string \<Rightarrow> tape \<Rightarrow> tape_parts \<Rightarrow> runtime_error" where
  "mixed_tape op side t r = VM_error UserError ''tape arithmetic: reference belongs to a different tape'' '':ad/mixed-tape''
     [(''op'', String_field (arith_name op)), (''side'', String_field side),
      (''expected-tape-id'', Int_field (ucast (tape_id t))), (''actual-tape-id'', Int_field (ucast (tp_tape r))),
      (''generation'', Int_field (ucast (tp_generation r))), (''node-index'', Int_field (ucast (tp_node r)))]"

definition node_index_overflow :: runtime_error where
  "node_index_overflow = vm_error InternalError ''tape arithmetic: tape node index exceeds TapeRef capacity''"

definition resolve_operand :: "'f world \<Rightarrow> arith_op \<Rightarrow> string \<Rightarrow> lispval \<Rightarrow> tape \<Rightarrow> (runtime_error + u32) \<times> tape" where
  "resolve_operand w op side v t =
     (if is_tape_ref v then
        (let r = decode_tape_ref v in
         (if tp_tape r \<noteq> tape_id t then Inl (mixed_tape op side t r)
          else if tp_generation r \<noteq> generation t then Inl (stale_ref ''tape arithmetic: stale TapeRef generation'' op side t r)
          else if unat (tp_node r) \<ge> length (entries t) then Inl (stale_ref ''tape arithmetic: TapeRef index out of range'' op side t r)
          else Inr (tp_node r), t))
      else if number_of w v = Num_invalid then (Inl (type_error ''tape arithmetic: operand is not a number''), t)
      else case push_const (as_double (number_of w v)) t of (i, t1) \<Rightarrow>
        (if i > MAX_NODE_INDEX then Inl node_index_overflow else Inr i, t1))"

text \<open>The tape operation: the reference to the new entry, and the tape.\<close>

definition tape_arith :: "'f world \<Rightarrow> arith_op \<Rightarrow> lispval \<Rightarrow> lispval \<Rightarrow> tape \<Rightarrow> (runtime_error + lispval) \<times> tape" where
  "tape_arith w op a b t =
     (case resolve_operand w op ''lhs'' a t of
        (Inl e, t1) \<Rightarrow> (Inl e, t1)
      | (Inr ia, t1) \<Rightarrow>
        (case resolve_operand w op ''rhs'' b t1 of
           (Inl e, t2) \<Rightarrow> (Inl e, t2)
         | (Inr ib, t2) \<Rightarrow>
           (case apply_double op (primal (entries t2 ! unat ia)) (primal (entries t2 ! unat ib)) of
              Inl e \<Rightarrow> (Inl e, t2)
            | Inr r \<Rightarrow>
              (case tape_push (mk_entry (arith_tape_op op) ia ib r) t2 of (i, t3) \<Rightarrow>
                 (if i > MAX_NODE_INDEX then Inl node_index_overflow
                  else Inr (make_tape_ref (tape_id t3) (generation t3) i), t3)))))"

definition do_binary_arithmetic :: "vm_env \<Rightarrow> arith_op \<Rightarrow> unit run" where
  "do_binary_arithmetic env op s =
     (case pop s of (b, s1) \<Rightarrow> case pop s1 of (a, s2) \<Rightarrow>
      if is_tape_ref a \<or> is_tape_ref b then
        (case as_tape (wd s2) (active_tape s2) of
           None \<Rightarrow> throw no_active_tape s2
         | Some t \<Rightarrow>
           (case tape_arith (wd s2) op a b t of (r, t') \<Rightarrow>
            let s3 = s2\<lparr> wd := write_object (active_tape s2) (Tape_v t') (wd s2) \<rparr> in
            case r of Inl e \<Rightarrow> throw e s3 | Inr v \<Rightarrow> Some (Inr (), push v s3)))
      else if quotient_undefined op (number_of (wd s2) a) (number_of (wd s2) b) then None
      else bind_run (in_world (number_arith (fresh_id env) op a b)) push_run s2)"

section \<open>Calls and returns\<close>

definition enter_closure :: "vm_env \<Rightarrow> nat \<Rightarrow> lispval \<Rightarrow> u32 \<Rightarrow> unit run" where
  "enter_closure env f cl argc =
     bind_run (modify (setup_frame env f cl argc Normal_frame 0)) (\<lambda>_.
       if has_rest (func_of env f) then pack_rest_args env argc (fn_arity (func_of env f)) else ret ())"

definition reuse_frame :: "vm_env \<Rightarrow> nat \<Rightarrow> lispval \<Rightarrow> u32 \<Rightarrow> unit run" where
  "reuse_frame env f cl argc s =
     (let n = unat argc; base = unat (fp s); args_start = length (stack s) - n in
      if n > length (stack s) \<or> base + n > length (stack s) then None
      else let moved = fold (\<lambda>i st. st[base + i := st ! (args_start + i)]) [0..<n] (stack s);
             s1 = s\<lparr> cur_func := Some f, cur_closure := cl, pc := 0,
               stack := resize (unat (fp s + needed_slots env f argc)) Nil_val moved \<rparr>
        in if has_rest (func_of env f) then pack_rest_args env argc (fn_arity (func_of env f)) s1
           else Some (Inr (), s1))"

definition op_call :: "vm_env \<Rightarrow> u32 \<Rightarrow> span \<Rightarrow> unit run" where
  "op_call env argc sp =
     bind_run pop_run (\<lambda>callee. bind_run (dispatch_callee env (fuel env) callee argc False sp) (\<lambda>d.
       case d of SetupFrame f cl \<Rightarrow> enter_closure env f cl argc | _ \<Rightarrow> ret ()))"

definition op_return :: "vm_env \<Rightarrow> unit run" where
  "op_return env = bind_run pop_run (handle_return env (fuel env))"

definition op_tail_call :: "vm_env \<Rightarrow> u32 \<Rightarrow> span \<Rightarrow> unit run" where
  "op_tail_call env argc sp =
     bind_run pop_run (\<lambda>callee. bind_run (dispatch_callee env (fuel env) callee argc True sp) (\<lambda>d.
       case d of TailReuse f cl \<Rightarrow> reuse_frame env f cl argc
       | Continue \<Rightarrow> op_return env
       | _ \<Rightarrow> ret ()))"

fun list_items :: "nat \<Rightarrow> 'f world \<Rightarrow> lispval \<Rightarrow> (runtime_error + lispval list) option" where
  "list_items 0 w v = None"
| "list_items (Suc n) w v =
     (if v = Nil_val then Some (Inr [])
      else case as_pair w v of
        None \<Rightarrow> Some (Inl (type_error ''apply: last argument must be a proper list''))
      | Some (a, d) \<Rightarrow> map_option (map_sum id (Cons a)) (list_items n w d))"

definition op_apply :: "vm_env \<Rightarrow> bool \<Rightarrow> u32 \<Rightarrow> span \<Rightarrow> unit run" where
  "op_apply env is_tail a sp =
     bind_run pop_run (\<lambda>f s.
       let n = unat a; len = length (stack s) in
       if n = 0 \<or> n > len then None
       else let args = drop (len - n) (stack s); s1 = s\<lparr> stack := take (len - n) (stack s) \<rparr> in
         case list_items (fuel env) (wd s1) (last args) of
           None \<Rightarrow> None
         | Some (Inl e) \<Rightarrow> throw e s1
         | Some (Inr xs) \<Rightarrow>
           (let all = butlast args @ xs; argc = of_nat (length all) in
            bind_run (dispatch_callee env (fuel env) f argc is_tail sp) (\<lambda>d.
              case d of
                SetupFrame g cl \<Rightarrow> enter_closure env g cl argc
              | TailReuse g cl \<Rightarrow> reuse_frame env g cl argc
              | Continue \<Rightarrow> if is_tail then op_return env else ret ()
              | NonLocalTransfer \<Rightarrow> ret ()) (s1\<lparr> stack := stack s1 @ all \<rparr>)))"

definition op_call_cc :: "vm_env \<Rightarrow> span \<Rightarrow> unit run" where
  "op_call_cc env sp =
     bind_run pop_run (\<lambda>consumer s.
       bind_run (in_world (new_object (fresh_id env) (Continuation (stack s)
           (frames s @ [Frame (cur_func s) (pc s) (fp s) (cur_closure s) Normal_frame 0]) (winding s)))) (\<lambda>k.
       bind_run (push_run k) (\<lambda>_.
       bind_run (dispatch_callee env (fuel env) consumer 1 False sp) (\<lambda>d.
         case d of SetupFrame f cl \<Rightarrow> modify (setup_frame env f cl 1 Normal_frame 0) | _ \<Rightarrow> ret ()))) s)"

definition op_call_with_values :: "vm_env \<Rightarrow> span \<Rightarrow> unit run" where
  "op_call_with_values env sp =
     bind_run pop_run (\<lambda>consumer. bind_run pop_run (\<lambda>producer.
     bind_run (dispatch_callee env (fuel env) producer 0 False sp) (\<lambda>d.
       case d of
         SetupFrame f cl \<Rightarrow> modify (setup_frame env f cl 0 CallWithValuesConsumer consumer)
       | NonLocalTransfer \<Rightarrow> ret ()
       | _ \<Rightarrow> (\<lambda>s. case pop s of (v, s1) \<Rightarrow>
           let s2 = unpack_to_stack v s1; argc = of_nat (length (stack s2)) - of_nat (length (stack s)) in
           bind_run (dispatch_callee env (fuel env) consumer argc False sp) (\<lambda>d.
             case d of SetupFrame f cl \<Rightarrow> modify (setup_frame env f cl argc Normal_frame 0) | _ \<Rightarrow> ret ()) s2))))"

definition op_dynamic_wind :: "vm_env \<Rightarrow> span \<Rightarrow> unit run" where
  "op_dynamic_wind env sp =
     bind_run pop_run (\<lambda>aft. bind_run pop_run (\<lambda>bdy. bind_run pop_run (\<lambda>bef.
     bind_run (modify (\<lambda>s. s\<lparr> winding := winding s @ [\<lparr> wind_before = bef, wind_body = bdy, wind_after = aft \<rparr>] \<rparr>)) (\<lambda>_.
     bind_run (dispatch_callee env (fuel env) bef 0 False sp) (\<lambda>d.
       case d of
         SetupFrame f cl \<Rightarrow> modify (setup_frame env f cl 0 DynamicWindBody 0)
       | NonLocalTransfer \<Rightarrow> ret ()
       | _ \<Rightarrow> bind_run (dispatch_callee env (fuel env) bdy 0 False sp) (\<lambda>d.
           case d of
             SetupFrame f cl \<Rightarrow> modify (setup_frame env f cl 0 DynamicWindAfter aft)
           | NonLocalTransfer \<Rightarrow> ret ()
           | _ \<Rightarrow> bind_run pop_run (\<lambda>res. bind_run (dispatch_callee env (fuel env) aft 0 False sp) (\<lambda>d.
               case d of
                 SetupFrame f cl \<Rightarrow> modify (setup_frame env f cl 0 DynamicWindCleanup res)
               | NonLocalTransfer \<Rightarrow> ret ()
               | _ \<Rightarrow> bind_run pop_run (\<lambda>_. modify (\<lambda>s. push res (s\<lparr> winding := butlast (winding s) \<rparr>)))))))))))"

section \<open>Catching and throwing\<close>

definition op_setup_catch :: "vm_env \<Rightarrow> u32 \<Rightarrow> unit run" where
  "op_setup_catch env a s =
     (case cur_func s of None \<Rightarrow> None
      | Some f \<Rightarrow>
        (let k = unat (drop_bit 16 a); cs = constants (func_of env f) in
         Some (Inr (), s\<lparr> catches := catches s @
           [\<lparr> cf_tag = (if k < length cs then cs ! k else Nil_val), cf_func = f,
              cf_handler_pc = pc s + (a AND 0xFFFF), cf_fp = fp s, cf_closure = cur_closure s,
              cf_frame_count = length (frames s), cf_stack_top = of_nat (length (stack s)),
              cf_wind_count = length (winding s), cf_tape_count = length (active_tapes s) \<rparr>] \<rparr>)))"

definition op_pop_catch :: "unit run" where
  "op_pop_catch = modify (\<lambda>s. s\<lparr> catches := butlast (catches s) \<rparr>)"

definition op_throw :: "vm_env \<Rightarrow> unit run" where
  "op_throw env = bind_run pop_run (\<lambda>v. bind_run pop_run (\<lambda>tg.
     do_throw env (resume_transfer env (fuel env)) tg v))"

section \<open>Logic opcodes\<close>

definition op_make_logic_var :: "vm_env \<Rightarrow> unit run" where
  "op_make_logic_var env =
     bind_run (in_world (new_object (fresh_id env) (Plain (LogicVar_obj None '''' [])))) push_run"

definition op_unify_run :: "vm_env \<Rightarrow> unit run" where
  "op_unify_run env s =
     (case op_unify (logic_call env) (fuel env) (stack s) (logic_view (wd s)) of
        None \<Rightarrow> None
      | Some (r, l) \<Rightarrow>
        (let s1 = (snd (pop (snd (pop s))))\<lparr> wd := put_logic l (wd s) \<rparr> in
         case r of Inl e \<Rightarrow> Some (Inl (of_logic_error e), s1)
         | Inr st \<Rightarrow> Some (Inr (), s1\<lparr> stack := st \<rparr>)))"

definition op_deref_run :: "vm_env \<Rightarrow> unit run" where
  "op_deref_run env s =
     (case op_deref (fuel env) (stack s) (logic_view (wd s)) of
        None \<Rightarrow> None | Some st \<Rightarrow> Some (Inr (), s\<lparr> stack := st \<rparr>))"

definition op_trail_mark_run :: "unit run" where
  "op_trail_mark_run s =
     (case op_trail_mark (stack s) (logic_view (wd s)) of
        Inl e \<Rightarrow> Some (Inl (of_logic_error e), s) | Inr st \<Rightarrow> Some (Inr (), s\<lparr> stack := st \<rparr>))"

definition op_unwind_trail_run :: "unit run" where
  "op_unwind_trail_run s =
     (case op_unwind_trail (stack s) (logic_view (wd s)) of (r, l) \<Rightarrow>
      let s1 = (snd (pop s))\<lparr> wd := put_logic l (wd s) \<rparr> in
      case r of Inl e \<Rightarrow> Some (Inl (of_logic_error e), s1)
      | Inr st \<Rightarrow> Some (Inr (), s1\<lparr> stack := st \<rparr>))"

definition op_copy_term :: "vm_env \<Rightarrow> unit run" where
  "op_copy_term env =
     bind_run pop_run (\<lambda>v s. case copy_term (fresh_id env) (fuel env) v (wd s) of
        None \<Rightarrow> None
      | Some (Inl e, w) \<Rightarrow> Some (Inl e, s\<lparr> wd := w \<rparr>)
      | Some (Inr x, w) \<Rightarrow> Some (Inr (), push x (s\<lparr> wd := w \<rparr>)))"

section \<open>The loop\<close>

definition exec_instr :: "vm_env \<Rightarrow> instruction \<Rightarrow> span \<Rightarrow> unit run" where
  "exec_instr env i sp =
     (let a = arg i in
      case opcode i of
        Nop_op \<Rightarrow> ret ()
      | LoadConst_op \<Rightarrow> op_load_const env a
      | LoadLocal_op \<Rightarrow> op_load_local a
      | StoreLocal_op \<Rightarrow> op_store_local a
      | LoadUpval_op \<Rightarrow> op_load_upval a
      | StoreUpval_op \<Rightarrow> op_store_upval a
      | LoadGlobal_op \<Rightarrow> op_load_global a
      | StoreGlobal_op \<Rightarrow> op_store_global a
      | Pop_op \<Rightarrow> modify (\<lambda>s. snd (pop s))
      | Dup_op \<Rightarrow> op_dup
      | Jump_op \<Rightarrow> op_jump env a
      | JumpIfFalse_op \<Rightarrow> op_jump_if_false a
      | Call_op \<Rightarrow> op_call env a sp
      | TailCall_op \<Rightarrow> op_tail_call env a sp
      | Return_op \<Rightarrow> op_return env
      | MakeClosure_op \<Rightarrow> op_make_closure env a
      | Cons_op \<Rightarrow> op_cons env
      | Car_op \<Rightarrow> op_car
      | Cdr_op \<Rightarrow> op_cdr
      | Add_op \<Rightarrow> do_binary_arithmetic env Add_arith
      | Sub_op \<Rightarrow> do_binary_arithmetic env Sub_arith
      | Mul_op \<Rightarrow> do_binary_arithmetic env Mul_arith
      | Div_op \<Rightarrow> do_binary_arithmetic env Div_arith
      | Eq_op \<Rightarrow> op_eq
      | Values_op \<Rightarrow> op_values env a
      | CallWithValues_op \<Rightarrow> op_call_with_values env sp
      | DynamicWind_op \<Rightarrow> op_dynamic_wind env sp
      | CallCC_op \<Rightarrow> op_call_cc env sp
      | PatchClosureUpval_op \<Rightarrow> op_patch_closure_upval a
      | Apply_op \<Rightarrow> op_apply env False a sp
      | TailApply_op \<Rightarrow> op_apply env True a sp
      | SetupCatch_op \<Rightarrow> op_setup_catch env a
      | PopCatch_op \<Rightarrow> op_pop_catch
      | Throw_op \<Rightarrow> op_throw env
      | MakeLogicVar_op \<Rightarrow> op_make_logic_var env
      | Unify_op \<Rightarrow> op_unify_run env
      | DerefLogicVar_op \<Rightarrow> op_deref_run env
      | TrailMark_op \<Rightarrow> op_trail_mark_run
      | UnwindTrail_op \<Rightarrow> op_unwind_trail_run
      | CopyTerm_op \<Rightarrow> op_copy_term env
      | other \<Rightarrow> throw (vm_error NotImplemented (''OpCode not implemented: '' @ op_to_string other)))"

definition running :: "vm_env \<Rightarrow> vm \<Rightarrow> bool" where
  "running env s = (case cur_func s of None \<Rightarrow> False | Some f \<Rightarrow> unat (pc s) < length (fn_code (func_of env f)))"

definition step :: "vm_env \<Rightarrow> unit run" where
  "step env s =
     (case cur_func s of None \<Rightarrow> Some (Inr (), s)
      | Some f \<Rightarrow>
        (let fn = func_of env f; i = unat (pc s) in
         exec_instr env (fn_code fn ! i) (span_at fn i) (s\<lparr> pc := pc s + 1 \<rparr>)))"

fun run_loop :: "vm_env \<Rightarrow> nat \<Rightarrow> unit run" where
  "run_loop env 0 = (\<lambda>s. if running env s then None else Some (Inr (), s))"
| "run_loop env (Suc n) = (\<lambda>s. if running env s then bind_run (step env) (\<lambda>_. run_loop env n) s else Some (Inr (), s))"

section \<open>Entry points\<close>

definition start_main :: "vm_env \<Rightarrow> nat \<Rightarrow> vm \<Rightarrow> vm" where
  "start_main env f s =
     (clear_transfer s)\<lparr> frames := frames s @ [Frame None 0 0 Nil_val Sentinel 0],
       cur_func := Some f, pc := 0, fp := 0, cur_closure := 0,
       stack := resize (unat (stack_size (func_of env f))) Nil_val (stack s) \<rparr>"

definition execute :: "vm_env \<Rightarrow> nat \<Rightarrow> nat \<Rightarrow> lispval run" where
  "execute env n f s = bind_run (run_loop env n) (\<lambda>_. pop_run) (start_main env f s)"

definition call_arity_error :: "bool \<Rightarrow> u32 \<Rightarrow> u32 \<Rightarrow> runtime_error" where
  "call_arity_error rest arity argc = vm_error InvalidArity
     (arity_message ''call_value: expected '' (if rest then ''at least '' else '''') arity '' argument(s), got '' argc)"

text \<open>
  \<^verbatim>\<open>call_value\<close>: a nested run on top of the stack, after which the caller's state is put back.
  \<open>restore_caller\<close> is its \<^verbatim>\<open>restore\<close>.
\<close>

definition restore_caller :: "vm \<Rightarrow> vm \<Rightarrow> vm" where
  "restore_caller s0 s = s\<lparr> stack := resize (length (stack s0)) 0 (stack s),
     frames := resize (length (frames s0)) no_frame (frames s),
     cur_func := cur_func s0, pc := pc s0, fp := fp s0, cur_closure := cur_closure s0 \<rparr>"

definition call_value :: "vm_env \<Rightarrow> nat \<Rightarrow> lispval \<Rightarrow> lispval list \<Rightarrow> lispval run" where
  "call_value env n proc args s =
     (let argc = of_nat (length args) in
      case object_at (wd s) proc of
        Some (Primitive p ar rest) \<Rightarrow>
          (if \<not> arity_ok rest ar argc then throw (call_arity_error rest ar argc) s
           else run_primitive env p args s)
      | Some (Closure f us par) \<Rightarrow>
          (let fn = func_of env f in
           if \<not> arity_ok (has_rest fn) (fn_arity fn) argc
           then throw (call_arity_error (has_rest fn) (fn_arity fn) argc) s
           else
             (let s1 = setup_frame env f proc argc Normal_frame 0
                  (s\<lparr> cur_func := None, pc := 0, fp := of_nat (length (stack s)), cur_closure := Nil_val,
                      stack := stack s @ args \<rparr>)
              in case (if has_rest fn then pack_rest_args env argc (fn_arity fn) s1 else Some (Inr (), s1)) of
                None \<Rightarrow> None
              | Some (Inl e, s2) \<Rightarrow> Some (Inl e, restore_caller s s2)
              | Some (Inr _, s2) \<Rightarrow>
                (case run_loop env n s2 of
                   None \<Rightarrow> None
                 | Some (Inl e, s3) \<Rightarrow> Some (Inl e, restore_caller s s3)
                 | Some (Inr _, s3) \<Rightarrow>
                   (if cur_func s \<noteq> None \<and> (cur_func s3 \<noteq> None \<or> length (frames s3) \<noteq> length (frames s))
                    then Some (Inl non_local_transfer, s3)
                    else case pop s3 of (v, s4) \<Rightarrow>
                      Some (Inr v, s4\<lparr> stack := resize (length (stack s)) 0 (stack s4),
                        cur_func := cur_func s, pc := pc s, fp := fp s, cur_closure := cur_closure s \<rparr>)))))
      | _ \<Rightarrow> throw (type_error ''call_value: argument is not a procedure'') s)"

text \<open>\<^verbatim>\<open>ExecutionScope\<close>: a nested execution starts from an empty execution state.\<close>

definition save_execution_state :: "vm \<Rightarrow> vm \<times> vm" where
  "save_execution_state s =
     (s, (clear_transfer s)\<lparr> stack := [], frames := [], winding := [], catches := [],
        cur_func := None, pc := 0, fp := 0, cur_closure := Nil_val \<rparr>)"

definition restore_execution_state :: "vm \<Rightarrow> vm \<Rightarrow> vm" where
  "restore_execution_state saved s =
     s\<lparr> stack := stack saved, frames := frames saved, winding := winding saved, catches := catches saved,
        pending_transfer := pending_transfer saved, unwind_thunks := unwind_thunks saved,
        unwind_index := unwind_index saved, cur_func := cur_func saved, pc := pc saved, fp := fp saved,
        cur_closure := cur_closure saved \<rparr>"

end
