(* ===== verification/Semantics.thy ===== *)
theory Semantics
  imports Interpreter Emitter
begin

text \<open>
  A reference semantics of the core language, independent of the bytecode: a big-step evaluator of
  \<^verbatim>\<open>CoreIR\<close> nodes over the objects of the machine. A closure holds its lambda instead of a
  function pointer. There is no operand stack, no frame and no catch stack: a call is a recursive
  evaluation, and a raise is an outcome that a guard turns into a value. A local variable that has
  not been assigned has no value. The evaluator covers constants, variables, conditionals,
  sequences, assignments with the knots of \<^verbatim>\<open>letrec\<close>, lambdas, calls of closures, primitive calls,
  raise and catch; on everything else, on a read of an unassigned variable, and where the machine
  would build an error payload (a call of something else, or with the wrong number of arguments),
  it gives \<open>None\<close>, as it does when the fuel runs out. Two choices of the implementation are part of it:
  the error of a primitive operation is a \<open>Fault\<close>, which no guard catches, and a closure holds copies
  of the captured values. One part is shared with the emitter: which captures a \<^verbatim>\<open>letrec\<close> ties comes from
  the emitter's own lists (\<open>letrec_inits\<close>, \<open>cross_patches\<close>, \<open>captures_of\<close>), characterised at the end.
\<close>

section \<open>Outcomes and environments\<close>

datatype outcome = Val lispval | Raised lispval lispval | Fault runtime_error

text \<open>The code of a closure: its lambda, its body, and the captures that are the closure itself.\<close>

datatype lam = Lam lambda_info node "u16 list"

type_synonym store = "lam world"

type_synonym slots = "lispval option list"

type_synonym evaluation = "(outcome \<times> slots \<times> store) option"

definition finish :: "(runtime_error + lispval) \<times> store \<Rightarrow> slots \<Rightarrow> evaluation" where
  "finish r ls = (case r of (Inr v, w) \<Rightarrow> Some (Val v, ls, w) | (Inl e, w) \<Rightarrow> Some (Fault e, ls, w))"

definition andThen :: "evaluation \<Rightarrow> (lispval \<Rightarrow> slots \<Rightarrow> store \<Rightarrow> evaluation) \<Rightarrow> evaluation" where
  "andThen m f = (case m of
       Some (Val v, ls, w) \<Rightarrow> f v ls w
     | Some (Raised t x, ls, w) \<Rightarrow> Some (Raised t x, ls, w)
     | Some (Fault e, ls, w) \<Rightarrow> Some (Fault e, ls, w)
     | None \<Rightarrow> None)"

section \<open>Literals, variables and assignments\<close>

definition literal_val :: "intern_table \<Rightarrow> literal \<Rightarrow> lispval option" where
  "literal_val t l = (case l of
       Void_lit \<Rightarrow> Some Nil_val
     | Bool_lit b \<Rightarrow> Some (if b then True_val else False_val)
     | Char_lit c \<Rightarrow> ok_of (encode_char32 c)
     | String_lit s \<Rightarrow> map_option (box String_tag) (str_to_id t s)
     | Int_lit i \<Rightarrow> ok_of (encode_i64 i)
     | Double_lit d \<Rightarrow> ok_of (encode_double d))"

definition tag_val :: "intern_table \<Rightarrow> string \<Rightarrow> lispval option" where
  "tag_val t name = (if name = '''' then Some Nil_val else map_option (box Symbol_tag) (str_to_id t name))"

definition slot_value :: "slots \<Rightarrow> nat \<Rightarrow> lispval option" where
  "slot_value ls i = (if i < length ls then ls ! i else None)"

definition read_address :: "lispval \<Rightarrow> address \<Rightarrow> slots \<Rightarrow> store \<Rightarrow> (runtime_error + lispval) option" where
  "read_address cl a ls w = (case a of
       Local i \<Rightarrow> map_option Inr (slot_value ls (unat i))
     | Upval i \<Rightarrow> (case as_closure w cl of
           Some (f, us, p) \<Rightarrow> if unat i < length us then Some (Inr (us ! unat i)) else None
         | None \<Rightarrow> None)
     | Global g \<Rightarrow> Some (if unat g < length (globals w) then Inr (globals w ! unat g)
         else Inl (vm_error UndefinedGlobal ''Global index out of range''))
     | No_address \<Rightarrow> None)"

definition write_address :: "lispval \<Rightarrow> address \<Rightarrow> lispval \<Rightarrow> slots \<Rightarrow> store \<Rightarrow> (slots \<times> store) option" where
  "write_address cl a v ls w = (case a of
       Local i \<Rightarrow> if unat i < length ls then Some (ls[unat i := Some v], w) else None
     | Upval i \<Rightarrow> (case as_closure w cl of
           Some (f, us, p) \<Rightarrow>
             if unat i < length us then Some (ls, write_object cl (Closure f (us[unat i := v]) p) w) else None
         | None \<Rightarrow> None)
     | Global g \<Rightarrow>
         if unat g < 4294967295
         then Some (ls, w\<lparr> globals := (globals w @ replicate (unat g + 1 - length (globals w)) Nil_val)[unat g := v] \<rparr>)
         else None
     | No_address \<Rightarrow> None)"

fun read_addresses :: "lispval \<Rightarrow> address list \<Rightarrow> slots \<Rightarrow> store \<Rightarrow> (runtime_error + lispval list) option" where
  "read_addresses cl [] ls w = Some (Inr [])"
| "read_addresses cl (a # as) ls w = (case read_address cl a ls w of
       None \<Rightarrow> None
     | Some (Inl e) \<Rightarrow> Some (Inl e)
     | Some (Inr v) \<Rightarrow> (case read_addresses cl as ls w of
         None \<Rightarrow> None
       | Some (Inl e) \<Rightarrow> Some (Inl e)
       | Some (Inr vs) \<Rightarrow> Some (Inr (v # vs))))"

text \<open>Tying a knot: the capture \<open>i\<close> of the closure in one local variable becomes the value of another.\<close>

definition tie :: "slots \<Rightarrow> nat \<Rightarrow> nat \<Rightarrow> nat \<Rightarrow> store \<Rightarrow> store option" where
  "tie ls e l i w =
     (case (slot_value ls e, slot_value ls l) of
        (Some c, Some v) \<Rightarrow>
          (case as_closure w c of
             Some (f, us, p) \<Rightarrow> Some (if i < length us then write_object c (Closure f (us[i := v]) p) w else w)
           | None \<Rightarrow> Some w)
      | _ \<Rightarrow> None)"

fun ties :: "slots \<Rightarrow> (u16 \<times> u16 \<times> nat) list \<Rightarrow> store \<Rightarrow> store option" where
  "ties ls [] w = Some w"
| "ties ls ((e, l, i) # ks) w = Option.bind (tie ls (unat e) (unat l) i w) (ties ls ks)"

definition self_ties :: "address \<Rightarrow> node \<Rightarrow> (u16 \<times> u16 \<times> nat) list" where
  "self_ties a v = (case (v, a) of
       (Lambda_n _ l _, Local s) \<Rightarrow> map (\<lambda>i. (s, s, i)) (captures_of s l) | _ \<Rightarrow> [])"

definition selfs_of :: "address \<Rightarrow> node \<Rightarrow> u16 list" where
  "selfs_of a v = (case (v, a) of (Lambda_n _ l _, Local s) \<Rightarrow> map of_nat (captures_of s l) | _ \<Rightarrow> [])"

section \<open>Primitive operations\<close>

definition arith_val :: "fresh \<Rightarrow> arith_op \<Rightarrow> lispval \<Rightarrow> lispval \<Rightarrow> store \<Rightarrow> ((runtime_error + lispval) \<times> store) option" where
  "arith_val fr op a b w =
     (if is_tape_ref a \<or> is_tape_ref b \<or> quotient_undefined op (number_of w a) (number_of w b) then None
      else Some (number_arith fr op a b w))"

definition primitive_op :: "fresh \<Rightarrow> primitive_kind \<Rightarrow> lispval list \<Rightarrow> store \<Rightarrow> ((runtime_error + lispval) \<times> store) option" where
  "primitive_op fr k vs w = (case vs of
       [a] \<Rightarrow>
         (if k = PCar then
            Some (case as_pair w a of Some (x, y) \<Rightarrow> (Inr x, w) | None \<Rightarrow> (Inl (type_error ''Not a pair''), w))
          else if k = PCdr then
            Some (case as_pair w a of Some (x, y) \<Rightarrow> (Inr y, w) | None \<Rightarrow> (Inl (type_error ''Not a pair''), w))
          else None)
     | [a, b] \<Rightarrow>
         (case k of
            PCons \<Rightarrow> Some (new_object fr (Plain (Cons_obj a b)) w)
          | PEq \<Rightarrow> Some (Inr (if values_eqv w a b then True_val else False_val), w)
          | PAdd \<Rightarrow> arith_val fr Add_arith a b w
          | PSub \<Rightarrow> arith_val fr Sub_arith a b w
          | PMul \<Rightarrow> arith_val fr Mul_arith a b w
          | PDiv \<Rightarrow> arith_val fr Div_arith a b w
          | _ \<Rightarrow> None)
     | _ \<Rightarrow> None)"

section \<open>Calls\<close>

text \<open>
  The variables of a call: the arguments, with a list of the others in the place of a rest
  parameter, and unassigned locals.
\<close>

definition accepts_args :: "lambda_info \<Rightarrow> nat \<Rightarrow> bool" where
  "accepts_args l n \<longleftrightarrow>
     (if ar_rest (lam_arity l) then unat (ar_required (lam_arity l)) \<le> n else n = unat (ar_required (lam_arity l)))"

definition frame_slots :: "lambda_info \<Rightarrow> lispval list \<Rightarrow> slots" where
  "frame_slots l vs = map Some vs @ replicate (unat (lam_stack_size l) - length vs) None"

definition bind_params :: "fresh \<Rightarrow> lambda_info \<Rightarrow> lispval list \<Rightarrow> store \<Rightarrow> ((runtime_error + slots) \<times> store) option" where
  "bind_params fr l vs w =
     (let r = unat (ar_required (lam_arity l)); ls = frame_slots l vs in
      if \<not> ar_rest (lam_arity l) then Some (Inr ls, w)
      else if length ls \<le> r then None
      else (case list_payload fr (drop r vs) w of
          (Inl e, w') \<Rightarrow> Some (Inl e, w') | (Inr x, w') \<Rightarrow> Some (Inr (ls[r := Some x]), w')))"

text \<open>
  A tail call that the emitter makes a jump: one argument, to a capture that is the closure itself.
  When an assignment has made the capture something else, the jump is wrong and there is no outcome.
\<close>

definition self_call :: "lam option \<Rightarrow> bool \<Rightarrow> node \<Rightarrow> nat \<Rightarrow> bool" where
  "self_call cur is_tail f nargs \<longleftrightarrow> is_tail \<and> nargs = 1 \<and>
     (case f of
        Var_n _ a \<Rightarrow>
          (case a of
             Upval s \<Rightarrow>
               (case cur of
                  Some (Lam l b selfs) \<Rightarrow>
                    \<not> ar_rest (lam_arity l) \<and> length (lam_params l) = 1 \<and> s \<in> set selfs
                | None \<Rightarrow> False)
           | _ \<Rightarrow> False)
      | _ \<Rightarrow> False)"

section \<open>The evaluator\<close>

text \<open>
  \<open>eval fr t n cl cur selfs e ls w\<close>: the outcome of \<open>e\<close> in the closure \<open>cl\<close>, whose code is \<open>cur\<close>,
  with the local variables \<open>ls\<close>, the variables after it, and the store after it. \<open>t\<close> is the intern
  table that literals and tags are looked up in. \<open>selfs\<close> are the captures of \<open>e\<close>, when it is
  a lambda, that will be the closure itself. The loops over arguments and bodies and the call take
  the evaluator of the smaller fuel as an argument.
\<close>

type_synonym evaluator = "lispval \<Rightarrow> lam option \<Rightarrow> u16 list \<Rightarrow> node \<Rightarrow> slots \<Rightarrow> store \<Rightarrow> evaluation"

fun eval_args :: "evaluator \<Rightarrow> lispval \<Rightarrow> lam option \<Rightarrow> node list \<Rightarrow> slots \<Rightarrow> store \<Rightarrow> ((outcome + lispval list) \<times> slots \<times> store) option" where
  "eval_args ev cl cur [] ls w = Some (Inr [], ls, w)"
| "eval_args ev cl cur (e # es) ls w = (case ev cl cur [] e ls w of
       None \<Rightarrow> None
     | Some (r, ls', w') \<Rightarrow>
       (case r of
          Val v \<Rightarrow> (case eval_args ev cl cur es ls' w' of
              None \<Rightarrow> None
            | Some (q, ls'', w'') \<Rightarrow> Some (map_sum id (Cons v) q, ls'', w''))
        | _ \<Rightarrow> Some (Inl r, ls', w')))"

definition with_args :: "((outcome + lispval list) \<times> slots \<times> store) option \<Rightarrow>
    (lispval list \<Rightarrow> slots \<Rightarrow> store \<Rightarrow> evaluation) \<Rightarrow> evaluation" where
  "with_args m f = (case m of
       Some (Inr vs, ls, w) \<Rightarrow> f vs ls w
     | Some (Inl r, ls, w) \<Rightarrow> Some (r, ls, w)
     | None \<Rightarrow> None)"

fun eval_body :: "evaluator \<Rightarrow> lispval \<Rightarrow> lam option \<Rightarrow> (u16 \<times> lambda_info) list \<Rightarrow> nat \<Rightarrow> node list \<Rightarrow> slots \<Rightarrow> store \<Rightarrow> evaluation" where
  "eval_body ev cl cur inits i [] ls w = None"
| "eval_body ev cl cur inits i (e # es) ls w = andThen (ev cl cur [] e ls w) (\<lambda>v ls w.
     case (if length inits > 1 \<and> i + 1 = length inits then ties ls (cross_patches inits) w else Some w) of
       None \<Rightarrow> None
     | Some w' \<Rightarrow> if es = [] then Some (Val v, ls, w') else eval_body ev cl cur inits (i + 1) es ls w')"

definition apply_closure :: "fresh \<Rightarrow> evaluator \<Rightarrow> lispval \<Rightarrow> lispval list \<Rightarrow> slots \<Rightarrow> store \<Rightarrow> evaluation" where
  "apply_closure fr ev g vs ls w =
     (case as_closure w g of
        Some (Lam l b selfs, us, p) \<Rightarrow>
          (if \<not> accepts_args l (length vs) then None
           else (case bind_params fr l vs w of
               None \<Rightarrow> None
             | Some (Inl e, w') \<Rightarrow> Some (Fault e, ls, w')
             | Some (Inr ls', w') \<Rightarrow> map_option (\<lambda>(r, _, w''). (r, ls, w'')) (ev g (Some (Lam l b selfs)) [] b ls' w')))
      | None \<Rightarrow> None)"

definition catch_raise :: "lispval \<Rightarrow> evaluation \<Rightarrow> evaluation" where
  "catch_raise t m = (case m of
       Some (Raised u x, ls, w) \<Rightarrow>
         if t = Nil_val \<or> values_eqv w t u then Some (Val x, ls, w) else Some (Raised u x, ls, w)
     | Some (Val v, ls, w) \<Rightarrow> Some (Val v, ls, w)
     | Some (Fault e, ls, w) \<Rightarrow> Some (Fault e, ls, w)
     | None \<Rightarrow> None)"

definition eval_step :: "fresh \<Rightarrow> intern_table \<Rightarrow> evaluator \<Rightarrow> evaluator" where
  "eval_step fr t ev cl cur selfs e ls w = (case e of
       Const_n _ l \<Rightarrow> map_option (\<lambda>v. (Val v, ls, w)) (literal_val t l)
     | Var_n _ a \<Rightarrow> Option.bind (read_address cl a ls w) (\<lambda>r. finish (r, w) ls)
     | If_n _ b c a \<Rightarrow> andThen (ev cl cur [] b ls w)
         (\<lambda>v ls w. if v = False_val then ev cl cur [] a ls w else ev cl cur [] c ls w)
     | Begin_n _ es \<Rightarrow> eval_body ev cl cur (letrec_inits es) 0 es ls w
     | Set_n _ a v \<Rightarrow> andThen (ev cl cur (selfs_of a v) v ls w) (\<lambda>x ls w.
         Option.bind (write_address cl a x ls w) (\<lambda>(ls', w').
           Option.bind (ties ls' (self_ties a v) w') (\<lambda>w''. Some (Val Nil_val, ls', w''))))
     | Lambda_n _ l b \<Rightarrow> Option.bind (read_addresses cl (upval_sources l) ls w) (\<lambda>r.
         case r of
           Inl x \<Rightarrow> Some (Fault x, ls, w)
         | Inr us \<Rightarrow> finish (new_object fr (Closure (Lam l b selfs) us cl) w) ls)
     | Call_n nt f args \<Rightarrow> with_args (eval_args ev cl cur args ls w) (\<lambda>vs ls w.
         andThen (ev cl cur [] f ls w) (\<lambda>g ls w.
           if self_call cur (n_tail nt) f (length args) \<and> (g \<noteq> cl \<or> map_option fst (as_closure w g) \<noteq> cur) then None
           else apply_closure fr ev g vs ls w))
     | PrimitiveCall_n _ k args \<Rightarrow> with_args (eval_args ev cl cur args ls w) (\<lambda>vs ls w.
         Option.bind (primitive_op fr k vs w) (\<lambda>r. finish r ls))
     | Raise_n _ tg v \<Rightarrow> Option.bind (tag_val t tg) (\<lambda>u.
         andThen (ev cl cur [] v ls w) (\<lambda>x ls w. Some (Raised u x, ls, w)))
     | Guard_n _ tg b \<Rightarrow> Option.bind (tag_val t tg) (\<lambda>u. catch_raise u (ev cl cur [] b ls w))
     | _ \<Rightarrow> None)"

primrec eval :: "fresh \<Rightarrow> intern_table \<Rightarrow> nat \<Rightarrow> evaluator" where
  "eval fr t 0 = (\<lambda>cl cur selfs e ls w. None)"
| "eval fr t (Suc n) = eval_step fr t (eval fr t n)"

text \<open>The top-level forms of a module, in order, and the module: its variables have no values yet.\<close>

fun eval_forms :: "evaluator \<Rightarrow> node list \<Rightarrow> slots \<Rightarrow> store \<Rightarrow> evaluation" where
  "eval_forms ev [] ls w = Some (Val Nil_val, ls, w)"
| "eval_forms ev (e # es) ls w = andThen (ev 0 None [] e ls w) (\<lambda>_ ls w. eval_forms ev es ls w)"

definition eval_module :: "fresh \<Rightarrow> intern_table \<Rightarrow> nat \<Rightarrow> module_semantics \<Rightarrow> store \<Rightarrow> evaluation" where
  "eval_module fr t n m w = eval_forms (eval fr t n) (toplevel_inits m) (replicate (unat (sem_stack_size m)) None) w"

section \<open>What the reference semantics settles\<close>

text \<open>
  Where the documents and the implementation disagree the evaluator follows the implementation. The
  error of a primitive operation passes every catch, with a tag or without one: the instructions of
  primitive operations return their error from the loop of the machine, and only the errors of calls go
  through \<^verbatim>\<open>do_runtime_error\<close>.
\<close>

lemma catch_lets_faults_pass:
  assumes "ev cl cur [] b ls w = Some (Fault e, ls', w')" "tag_val t tg = Some u"
  shows "eval_step fr t ev cl cur selfs (Guard_n nt tg b) ls w = Some (Fault e, ls', w')"
  using assms by (simp add: eval_step_def catch_raise_def)

lemma catch_car_of_number:
  assumes "tag_val t tg = Some u"
  shows "eval fr t (Suc (Suc (Suc n))) cl cur selfs (Guard_n nt tg (PrimitiveCall_n pt PCar [Const_n ct (Int_lit 42)])) ls w
    = Some (Fault (type_error ''Not a pair''), ls, w)"
proof -
  have "encode_i64 42 = Inr (box Fixnum_tag 42)"
    by (simp add: encode_i64_def FIXNUM_MIN_def FIXNUM_MAX_def)
  moreover have "as_pair w (box Fixnum_tag 42) = None" by (simp add: as_pair_def object_at_def is_heap_ref_def)
  ultimately have "eval fr t (Suc (Suc n)) cl cur [] (PrimitiveCall_n pt PCar [Const_n ct (Int_lit 42)]) ls w
      = Some (Fault (type_error ''Not a pair''), ls, w)"
    by (simp add: eval_step_def with_args_def literal_val_def ok_of_def primitive_op_def finish_def)
  then show ?thesis using assms by (simp add: eval_step_def catch_raise_def)
qed

text \<open>
  A closure holds copies of what it captured: calling one never changes the local variables of the
  caller, whatever it assigns.
\<close>

lemma call_keeps_locals:
  "apply_closure fr ev g vs ls w = Some (r, ls', w') \<Longrightarrow> ls' = ls"
  by (auto simp: apply_closure_def split: option.splits prod.splits lam.splits sum.splits if_splits)

text \<open>
  The knots of \<^verbatim>\<open>letrec\<close> are ties of exactly these captures: a capture of an earlier lambda whose
  source is the variable of a later one, and a capture of a lambda whose source is its own variable.
\<close>

lemma self_captures: "i \<in> set (captures_of s l) \<longleftrightarrow> i < length (upval_sources l) \<and> upval_sources l ! i = Local s"
  by (auto simp: captures_of_def)

lemma cross_ties:
  "(e, s, i) \<in> set (cross_patches inits) \<longleftrightarrow>
     (\<exists>x y. x < y \<and> y < length inits \<and> e = fst (inits ! x) \<and> s = fst (inits ! y)
        \<and> i < length (upval_sources (snd (inits ! x))) \<and> upval_sources (snd (inits ! x)) ! i = Local s)"
proof -
  have "(e, s, i) \<in> set (cross_patches inits) \<longleftrightarrow> (\<exists>y \<in> {1..<length inits}. \<exists>x \<in> {0..<y}.
      e = fst (inits ! x) \<and> s = fst (inits ! y) \<and> i \<in> set (captures_of (fst (inits ! y)) (snd (inits ! x))))"
    by (auto simp: cross_patches_def)
  then show ?thesis unfolding self_captures by fastforce
qed

end
