(* ===== verification/WorldRel.thy ===== *)
theory WorldRel
  imports Semantics
begin

text \<open>
  Two worlds whose closures differ only in how they name their code: a function index in the
  machine, a lambda in the reference semantics. Everything that does not look at the code of a
  closure behaves the same in both.
\<close>

definition wrel :: "('f \<Rightarrow> 'g \<Rightarrow> bool) \<Rightarrow> 'f world \<Rightarrow> 'g world \<Rightarrow> bool" where
  "wrel R w w' \<longleftrightarrow> globals w = globals w' \<and> used_ids w = used_ids w' \<and> logic w = logic w' \<and> interns w = interns w'
     \<and> (\<forall>i. rel_option (rel_vobj R) (vheap w i) (vheap w' i))"

abbreviation same_result :: "('f \<Rightarrow> 'g \<Rightarrow> bool) \<Rightarrow> 'a \<times> 'f world \<Rightarrow> 'a \<times> 'g world \<Rightarrow> bool" where
  "same_result R \<equiv> rel_prod (=) (wrel R)"

lemma rel_vobj_simps:
  "rel_vobj R (Plain a) b \<longleftrightarrow> b = Plain a"
  "rel_vobj R b' (Plain a) \<longleftrightarrow> b' = Plain a"
  "rel_vobj R (Closure f us p) b \<longleftrightarrow> (\<exists>k. b = Closure k us p \<and> R f k)"
  "rel_vobj R b' (Closure k us p) \<longleftrightarrow> (\<exists>f. b' = Closure f us p \<and> R f k)"
  by (cases b; cases b'; auto)+

lemma wrel_object: "wrel R w w' \<Longrightarrow> rel_option (rel_vobj R) (object_at w v) (object_at w' v)"
  by (simp add: wrel_def object_at_def)

lemma wrel_globals: "wrel R w w' \<Longrightarrow> globals w = globals w'"
  by (simp add: wrel_def)

lemma wrel_as_pair: "wrel R w w' \<Longrightarrow> as_pair w v = as_pair w' v"
  using wrel_object [of R w w' v]
  by (auto simp: as_pair_def rel_option_iff rel_vobj_simps split: option.splits vobj.splits heap_obj.splits)

lemma wrel_closure:
  "wrel R w w' \<Longrightarrow> as_closure w' v = Some (k, us, p) \<Longrightarrow> \<exists>f. as_closure w v = Some (f, us, p) \<and> R f k
     \<and> object_at w v = Some (Closure f us p)"
  using wrel_object [of R w w' v]
  by (auto simp: as_closure_def rel_option_iff rel_vobj_simps split: option.splits vobj.splits)

lemma wrel_no_closure: "wrel R w w' \<Longrightarrow> as_closure w' v = None \<Longrightarrow> as_closure w v = None"
  using wrel_object [of R w w' v]
  by (auto simp: as_closure_def rel_option_iff rel_vobj_simps split: option.splits vobj.splits)

lemma wrel_plain: "wrel R w w' \<Longrightarrow> plain_objects (vheap w) = plain_objects (vheap w')"
proof
  fix i assume "wrel R w w'"
  then have "rel_option (rel_vobj R) (vheap w i) (vheap w' i)" by (simp add: wrel_def)
  then show "plain_objects (vheap w) i = plain_objects (vheap w') i"
    by (auto simp: plain_objects_def rel_option_iff rel_vobj_simps split: option.splits vobj.splits)
qed

lemma wrel_view: "wrel R w w' \<Longrightarrow> logic_view w = logic_view w'"
  by (simp add: logic_view_def wrel_plain) (simp add: wrel_def)

lemma wrel_number: "wrel R w w' \<Longrightarrow> number_of w v = number_of w' v"
  by (simp add: number_of_def wrel_view)

lemma wrel_eqv: "wrel R w w' \<Longrightarrow> values_eqv w a b = values_eqv w' a b"
  by (simp add: values_eqv_def wrel_number cong: option.case_cong)

lemma wrel_new_object:
  "wrel R w w' \<Longrightarrow> rel_vobj R a b \<Longrightarrow> same_result R (new_object fr a w) (new_object fr b w')"
  by (auto simp: new_object_def wrel_def split: sum.splits)

lemma wrel_write:
  "wrel R w w' \<Longrightarrow> rel_vobj R a b \<Longrightarrow> wrel R (write_object v a w) (write_object v b w')"
  by (auto simp: write_object_def wrel_def)

lemma wrel_set_globals: "wrel R w w' \<Longrightarrow> wrel R (w\<lparr> globals := g \<rparr>) (w'\<lparr> globals := g \<rparr>)"
  by (simp add: wrel_def)

lemma wrel_box: "wrel R w w' \<Longrightarrow> same_result R (box_number fr n w) (box_number fr n w')"
  by (auto simp: box_number_def new_fixnum_def rel_vobj_simps split: numeric_value.splits sum.splits intro!: wrel_new_object)

lemma wrel_arith: "wrel R w w' \<Longrightarrow> same_result R (number_arith fr op a b w) (number_arith fr op a b w')"
  using wrel_box by (auto simp: number_arith_def wrel_number split: sum.splits)

lemma wrel_list: "wrel R w w' \<Longrightarrow> same_result R (list_payload fr xs w) (list_payload fr xs w')"
proof (induction xs arbitrary: w w')
  case (Cons x xs)
  have i: "same_result R (list_payload fr xs w) (list_payload fr xs w')" by (rule Cons.IH [OF Cons.prems])
  obtain r w1 where a: "list_payload fr xs w = (r, w1)" by fastforce
  obtain w2 where b: "list_payload fr xs w' = (r, w2)" "wrel R w1 w2" using i a by (cases "list_payload fr xs w'") auto
  show ?case using a b by (auto simp: new_pair_def rel_vobj_simps split: sum.splits intro!: wrel_new_object)
qed simp

lemma same_resultE:
  assumes "same_result R m (r, w')"
  obtains w where "m = (r, w)" "wrel R w w'"
  using assms by (cases m) auto

lemma same_resultE':
  assumes "same_result R m (r, w')"
  shows "\<exists>w. m = (r, w) \<and> wrel R w w'"
  using assms by (cases m) auto

end
