(* ===== verification/CodeLayout.thy ===== *)
theory CodeLayout
  imports EmitterFacts WorldRel
begin

text \<open>
  Where the code of a node lies: the constants that the string cache points to, the part of a
  finished function that a node was emitted into (\<open>fits\<close>), and the functions that are the code of a
  lambda (\<open>compiled\<close>).
\<close>

section \<open>The string cache\<close>

definition cache_ok :: "emit_state \<Rightarrow> bool" where
  "cache_ok st \<longleftrightarrow> (\<forall>s i. string_cache st s = Some i \<longrightarrow> unat i < nconsts st \<and>
     (\<exists>d. str_to_id (es_interns st) s = Some d \<and> constants (es_func st) ! unat i = box String_tag d))"

lemma cache_ok_appends: "cache_ok a \<Longrightarrow> appends a b \<Longrightarrow> string_cache b = string_cache a \<Longrightarrow> cache_ok b"
  unfolding cache_ok_def appends_def prefix_def map_le_def
  by (metis domI length_append nth_append trans_less_add1)

lemma cache_simps [simp]:
  "string_cache (emit_instr op a sp st) = string_cache st" "string_cache (patch_arg i x st) = string_cache st"
  "string_cache (snd (add_const v st)) = string_cache st" "string_cache (snd (emit_load_const v sp st)) = string_cache st"
  "pending_self (emit_instr op a sp st) = pending_self st" "pending_self (patch_arg i x st) = pending_self st"
  "pending_self (snd (add_const v st)) = pending_self st" "pending_self (snd (emit_load_const v sp st)) = pending_self st"
  "string_cache (announce_self ad nd st) = string_cache st"
  by (simp_all add: emit_instr_def patch_arg_def add_const_def emit_load_const_def Let_def announce_self_def
      split: node.splits address.splits)

text \<open>What the steps between two nodes leave alone.\<close>

definition tidy :: "emit_state \<Rightarrow> emit_state \<Rightarrow> bool" where
  "tidy a b \<longleftrightarrow> appends a b \<and> string_cache b = string_cache a \<and> pending_self b = pending_self a"

lemma tidy_refl [simp, intro]: "tidy a a"
  by (simp add: tidy_def)

lemma tidy_trans [trans]: "tidy a b \<Longrightarrow> tidy b c \<Longrightarrow> tidy a c"
  using appends_trans by (fastforce simp: tidy_def)

lemma tidy_instr: "tidy a b \<Longrightarrow> tidy a (emit_instr op x sp b)"
  by (simp add: tidy_def appends_emit_instr)

lemma tidy_load_const: "tidy a b \<Longrightarrow> tidy a (snd (emit_load_const v sp b))"
  by (simp add: tidy_def appends_load_const)

lemma tidy_add_const: "tidy a b \<Longrightarrow> tidy a (snd (add_const v b))"
  by (simp add: tidy_def appends_add_const)

lemma tidy_patch: "tidy a b \<Longrightarrow> code_size a \<le> i \<Longrightarrow> tidy a (patch_arg i x b)"
  by (simp add: tidy_def appends_patch)

lemma tidy_fold: "tidy a b \<Longrightarrow> (\<And>x c. x \<in> set xs \<Longrightarrow> tidy a c \<Longrightarrow> tidy a (f x c)) \<Longrightarrow> tidy a (fold f xs b)"
  by (induction xs arbitrary: b) auto

lemma tidy_address_load: "tidy a b \<Longrightarrow> tidy a (emit_address_load ad sp b)"
  by (cases ad) (simp_all add: emit_address_load_def tidy_instr)

lemma tidy_address_store: "tidy a b \<Longrightarrow> tidy a (emit_address_store ad sp b)"
  by (cases ad) (simp_all add: emit_address_store_def tidy_instr)

lemma tidy_store_params: "tidy a b \<Longrightarrow> tidy a (store_params ps sp b)"
  by (simp add: store_params_def tidy_fold tidy_instr)

lemma tidy_back_jump: "tidy a b \<Longrightarrow> tidy a (emit_back_jump e sp b)"
  by (simp add: emit_back_jump_def tidy_instr)

lemma tidy_patch_self: "tidy a b \<Longrightarrow> tidy a (patch_self ad v sp b)"
  by (auto simp: patch_self_def emit_self_patch_def split: node.splits address.splits intro!: tidy_fold tidy_instr)

lemma tidy_patch_letrec: "tidy a b \<Longrightarrow> tidy a (patch_letrec is sp b)"
  by (auto simp: patch_letrec_def emit_cross_patch_def intro!: tidy_fold tidy_instr)

lemma tidy_close_guard: "tidy a b \<Longrightarrow> code_size a \<le> i \<Longrightarrow> tidy a (close_guard k i b)"
  by (simp add: close_guard_def Let_def tidy_patch)

lemma tidy_closure: "tidy a b \<Longrightarrow> tidy a (emit_closure l sp i b)"
proof -
  assume "tidy a b"
  then have "tidy a (snd (add_const (encode_func_index i) b))" by (rule tidy_add_const)
  then show ?thesis by (auto simp: emit_closure_def Let_def split: prod.splits intro!: tidy_instr tidy_fold tidy_address_load)
qed

lemma intern_pending: "em_intern tg s st = (r, st') \<Longrightarrow> pending_self st' = pending_self st"
  by (auto simp: em_intern_def split: prod.splits sum.splits)

lemma alloc_pending: "em_alloc g st = (r, st') \<Longrightarrow> pending_self st' = pending_self st"
  by (auto simp: em_alloc_def split: prod.splits sum.splits)

lemma tidy_tag: "tidy a b \<Longrightarrow> tidy a (snd (tag_value name b))"
proof -
  assume t: "tidy a b"
  have "pending_self (snd (tag_value name b)) = pending_self b"
    by (auto simp: tag_value_def dest: intern_pending split: prod.splits)
  then show ?thesis using t same_code_tag [of b name] same_code_appends [OF same_code_tag [of b name]]
    by (auto simp: tidy_def same_code_def)
qed

lemmas tidy_rules = tidy_instr tidy_load_const tidy_add_const tidy_patch tidy_address_load tidy_address_store
  tidy_store_params tidy_back_jump tidy_patch_self tidy_patch_letrec tidy_close_guard tidy_closure tidy_tag

lemma cache_ok_tidy: "cache_ok a \<Longrightarrow> tidy a b \<Longrightarrow> cache_ok b"
  using cache_ok_appends by (auto simp: tidy_def)

lemma literal_pending: "literal_value env l st = (r, st') \<Longrightarrow> pending_self st' = pending_self st"
  by (cases l) (auto simp: literal_value_def em_fixnum_def dest: intern_pending alloc_pending split: sum.splits)

lemma unat_of_small: "n < 2 ^ 32 \<Longrightarrow> unat (of_nat n :: u32) = n"
  by (simp add: unat_of_nat take_bit_nat_eq_self)

lemma cache_emit_const:
  assumes "emit_const env l sp st = Some st'" "cache_ok st" "nconsts st' \<le> 65536"
  shows "cache_ok st' \<and> pending_self st' = pending_self st"
proof (cases "cached_string l st")
  case (Some i)
  then show ?thesis using assms by (auto simp: emit_const_def intro: cache_ok_tidy [OF _ tidy_instr [OF tidy_refl]])
next
  case None
  then obtain v st1 where v: "literal_value env l st = (Some v, st1)"
      "st' = (let (i, st2) = emit_load_const v sp st1 in cache_string l i st2)"
    using assms(1) by (auto simp: emit_const_def split: prod.splits option.splits)
  have sc: "same_code st st1" using same_code_literal [of st env l] v(1) by simp
  have 1: "cache_ok st1" using cache_ok_appends [OF assms(2) same_code_appends [OF sc appends_refl]] sc
    by (simp add: same_code_def)
  have p: "pending_self st1 = pending_self st" using literal_pending [OF v(1)] .
  let ?i = "of_nat (nconsts st1) :: u32" and ?st2 = "snd (emit_load_const v sp st1)"
  have st': "st' = cache_string l ?i ?st2"
    using v(2) by (auto simp: emit_load_const_def add_const_def Let_def)
  have 2: "cache_ok ?st2" by (rule cache_ok_tidy [OF 1 tidy_load_const [OF tidy_refl]])
  have n: "nconsts ?st2 = Suc (nconsts st1)" "constants (es_func ?st2) ! nconsts st1 = v"
      "es_interns ?st2 = es_interns st1"
    by (simp_all add: emit_load_const_def add_const_def Let_def emit_instr_def)
  have "nconsts st' = Suc (nconsts st1)" unfolding st' using n by (simp add: cache_string_def split: literal.splits)
  then have u: "unat ?i = nconsts st1" using assms(3) by (intro unat_of_small) simp
  have d: "\<exists>d. str_to_id (es_interns st1) s = Some d \<and> v = box String_tag d" if "l = String_lit s" for s
    using v(1) that
    by (auto simp: literal_value_def em_intern_def intern_def Let_def split: prod.splits option.splits sum.splits if_splits)
  show ?thesis
  proof
    show "cache_ok st'" using 2 n u d unfolding st'
      by (cases l) (auto simp: cache_ok_def cache_string_def)
    show "pending_self st' = pending_self st" unfolding st' using p by (cases l) (simp_all add: cache_string_def)
  qed
qed

section \<open>The nodes that the reference semantics covers\<close>

text \<open>
  \<open>core_node E T M t e\<close>: \<open>e\<close> is one of the nodes that the evaluator handles; tail calls occur only where
  \<open>t\<close> allows it, which is at the end of the body of a lambda and never in a catch body; sequences are
  not empty; the parameters have the first slots of the frame; the tags of raise and catch forms
  are in the table \<open>T\<close>; and \<open>M\<close> bounds the sizes of frames and argument lists.
\<close>

definition core_tag :: "intern_table \<Rightarrow> string \<Rightarrow> bool" where
  "core_tag T tg \<longleftrightarrow> tg = '''' \<or> str_to_id T tg \<noteq> None"

definition core_lambda :: "emit_env \<Rightarrow> nat \<Rightarrow> lambda_info \<Rightarrow> bool" where
  "core_lambda E M l \<longleftrightarrow> length (upval_sources l) < 65536 \<and> length (upval_sources l) < M \<and> unat (lam_stack_size l) < M
     \<and> param_slots (active_of E l []) = map of_nat [0..<length (lam_params l)]
     \<and> length (lam_params l) = unat (ar_required (lam_arity l))"

fun core_node :: "emit_env \<Rightarrow> intern_table \<Rightarrow> nat \<Rightarrow> bool \<Rightarrow> node \<Rightarrow> bool"
  and core_body :: "emit_env \<Rightarrow> intern_table \<Rightarrow> nat \<Rightarrow> bool \<Rightarrow> node list \<Rightarrow> bool" where
  "core_node E T M t (Const_n _ l) = True"
| "core_node E T M t (Var_n _ a) = True"
| "core_node E T M t (If_n _ a b c) = (core_node E T M False a \<and> core_node E T M t b \<and> core_node E T M t c)"
| "core_node E T M t (Begin_n _ es) = core_body E T M t es"
| "core_node E T M t (Set_n _ a v) = core_node E T M False v"
| "core_node E T M t (Lambda_n _ l b) = (core_lambda E M l \<and> core_node E T M True b)"
| "core_node E T M t (Call_n nt f args) = ((n_tail nt \<longrightarrow> t) \<and> length args + 1 < M
     \<and> core_node E T M False f \<and> list_all (core_node E T M False) args)"
| "core_node E T M t (PrimitiveCall_n _ k args) = (length args < M \<and> list_all (core_node E T M False) args)"
| "core_node E T M t (Raise_n _ tg v) = (1 < M \<and> core_tag T tg \<and> core_node E T M False v)"
| "core_node E T M t (Guard_n _ tg b) = (core_tag T tg \<and> core_node E T M False b)"
| "core_node E T M t e = False"
| "core_body E T M t [] = False"
| "core_body E T M t [e] = core_node E T M t e"
| "core_body E T M t (e # e' # es) = (core_node E T M False e \<and> core_body E T M t (e' # es))"

lemma tidy_lambda:
  assumes "appends (enter_lambda env l st) st1" "pending_self st1 = []"
  shows "appends st (snd (leave_lambda sp st st1))" "string_cache (snd (leave_lambda sp st st1)) = string_cache st"
    "pending_self (snd (leave_lambda sp st st1)) = []"
  using appends_lambda [OF assms(1)] assms(2) by (auto simp: leave_lambda_def Let_def registry_add_def split: prod.splits)

lemma cache_ok_enter [simp]: "cache_ok (enter_lambda env l st)"
  by (simp add: cache_ok_def enter_lambda_def)

lemma pending_enter [simp]: "pending_self (enter_lambda env l st) = []"
  by (simp add: enter_lambda_def)


lemma core_body_all: "core_body E T M t es \<Longrightarrow> list_all (\<lambda>e. \<exists>t. core_node E T M t e) es"
  by (induction es rule: induct_list012) auto

fun is_lambda :: "node \<Rightarrow> bool" where
  "is_lambda (Lambda_n _ _ _) = True"
| "is_lambda _ = False"

lemma announce_pending:
  "pending_self st = [] \<Longrightarrow> pending_self (announce_self a v st) = selfs_of a v"
  "\<not> is_lambda v \<Longrightarrow> announce_self a v st = st" "\<not> is_lambda v \<Longrightarrow> selfs_of a v = []"
  by (auto simp: announce_self_def selfs_of_def split: node.splits address.splits)

definition neat :: "emit_state \<Rightarrow> emit_state \<Rightarrow> bool" where
  "neat a b \<longleftrightarrow> appends a b \<and> pending_self b = [] \<and> (cache_ok a \<longrightarrow> nconsts b \<le> 65536 \<longrightarrow> cache_ok b)"

lemma appends_nconsts: "appends a b \<Longrightarrow> nconsts a \<le> nconsts b"
  by (simp add: appends_def prefix_length_le)

lemma neat_trans: "neat a b \<Longrightarrow> neat b c \<Longrightarrow> neat a c"
  using appends_nconsts appends_trans by (fastforce simp: neat_def)

lemma neat_tidy: "neat a b \<Longrightarrow> tidy b c \<Longrightarrow> neat a c"
  using cache_ok_tidy [of b c] appends_trans [of a b c] appends_nconsts [of b c] by (auto simp: neat_def tidy_def)

lemma tidy_neat: "tidy a b \<Longrightarrow> neat b c \<Longrightarrow> neat a c"
  using cache_ok_tidy [of a b] appends_trans [of a b c] by (auto simp: neat_def tidy_def)

lemma tidy_is_neat: "tidy a b \<Longrightarrow> pending_self a = [] \<Longrightarrow> neat a b"
  using cache_ok_tidy [of a b] by (auto simp: neat_def tidy_def)

lemma neat_instr: "neat a b \<Longrightarrow> neat a (emit_instr op x sp b)"
  by (rule neat_tidy) (auto intro: tidy_instr)

lemma neat_instr_left: "neat (emit_instr op x sp a) b \<Longrightarrow> neat a b"
  by (rule tidy_neat) (auto intro: tidy_instr)

lemma neat_patch: "neat a b \<Longrightarrow> code_size a \<le> i \<Longrightarrow> neat a (patch_arg i x b)"
  using appends_patch [of a b i x] by (auto simp: neat_def cache_ok_def patch_arg_def)

lemma neat_size: "neat a b \<Longrightarrow> code_size a \<le> code_size b"
  by (auto simp: neat_def dest: appends_size)

lemma tidy_pending: "tidy a b \<Longrightarrow> pending_self b = pending_self a"
  by (simp add: tidy_def)

lemma neat_announced: "neat (announce_self a v st) st' \<Longrightarrow> neat st st'"
  using appends_announce [of a v st st']
  by (auto simp: neat_def cache_ok_def announce_self_def split: node.splits address.splits)

lemma neat_pending: "neat a b \<Longrightarrow> pending_self b = []"
  by (simp add: neat_def)

lemma neat_const:
  "emit_const E l sp st = Some st' \<Longrightarrow> pending_self st = [] \<Longrightarrow> neat st st'"
proof -
  assume e: "emit_const E l sp st = Some st'" and p: "pending_self st = []"
  have "pending_self st' = []" using e p
    by (auto simp: emit_const_def emit_load_const_def add_const_def Let_def emit_instr_def cache_string_def
        dest!: literal_pending split: option.splits prod.splits literal.splits)
  then show ?thesis using cache_emit_const [OF e] appends_emit_const [OF e] by (auto simp: neat_def)
qed

lemma neat_emit:
  "emit_node E e st = Some st' \<Longrightarrow> core_node E T M t e \<Longrightarrow> pending_self st = [] \<or> is_lambda e \<Longrightarrow> neat st st'"
  "emit_all E es st = Some st' \<Longrightarrow> list_all (\<lambda>e. \<exists>t. core_node E T M t e) es \<Longrightarrow> pending_self st = [] \<Longrightarrow> neat st st'"
  "emit_body E sp inits i es st = Some st' \<Longrightarrow> list_all (\<lambda>e. \<exists>t. core_node E T M t e) es \<Longrightarrow> pending_self st = []
     \<Longrightarrow> neat st st'"
proof (induction E e st and E es st and E sp inits i es st
    arbitrary: st' t and st' and st' rule: emit_node_emit_all_emit_body.induct)
  case (1 env nt l st) then show ?case by (simp add: neat_const)
next
  case (2 env nt a st) then show ?case by (auto intro!: tidy_is_neat tidy_address_load)
next
  case (4 env nt f args st)
  have c: "core_node env T M False f" "list_all (\<lambda>e. \<exists>t. core_node env T M t e) args" using 4(5) by (auto simp: list_all_iff)
  have p: "pending_self st = []" using 4(6) by simp
  show ?case
  proof (cases "if n_tail nt then self_tail_target f args st else None")
    case None
    then obtain st1 st2 where s: "emit_node env f st1 = Some st2" "emit_all env args st = Some st1"
        "st' = emit_instr (if n_tail nt then TailCall_op else Call_op) (of_nat (length args)) (n_span nt) st2"
      using 4(4) by (auto simp: bind_eq_Some_conv)
    have 1: "neat st st1" by (rule 4(1) [OF None s(2) c(2) p])
    have "neat st1 st2" by (rule 4(2) [OF None s(2) s(1) c(1)]) (simp add: neat_pending [OF 1])
    then show ?thesis unfolding s(3) using 1 neat_instr neat_trans by blast
  next
    case (Some al)
    then obtain st1 where s: "emit_all env args st = Some st1"
        "st' = emit_back_jump (entry_pc al) (n_span nt) (store_params (param_slots al) (n_span nt) st1)"
      using 4(4) by auto
    show ?thesis unfolding s(2) by (rule neat_tidy [OF 4(3) [OF Some s(1) c(2) p]]) (intro tidy_rules tidy_refl)
  qed
next
  case (5 env nt pk args st)
  have "list_all (\<lambda>e. \<exists>t. core_node env T M t e) args" using 5(3) by (auto simp: list_all_iff)
  then show ?case using 5 by (auto intro!: neat_instr)
next
  case (6 env nt t0 c a st)
  then obtain st1 st2 st5 where s: "emit_node env t0 st = Some st1"
      "emit_node env c (emit_instr JumpIfFalse_op 0 (n_span nt) st1) = Some st2"
      "emit_node env a (patch_arg (code_size st1) (of_nat (code_size (emit_instr Jump_op 0 (n_span nt) st2) - code_size st1 - 1))
          (emit_instr Jump_op 0 (n_span nt) st2)) = Some st5"
      "st' = patch_arg (code_size st2) (of_nat (code_size st5 - code_size st2 - 1)) st5"
    by (auto simp: bind_eq_Some_conv Let_def)
  have c: "core_node env T M False t0" "core_node env T M t c" "core_node env T M t a" using 6(5) by auto
  have p: "pending_self st = []" using 6(6) by simp
  have 1: "neat st st1" using 6(1) [OF s(1) c(1)] p by simp
  have 2: "neat (emit_instr JumpIfFalse_op 0 (n_span nt) st1) st2"
    using 6(2) [OF s(1,2) c(2)] neat_pending [OF 1] by simp
  have 3: "neat (patch_arg (code_size st1) (of_nat (code_size (emit_instr Jump_op 0 (n_span nt) st2) - code_size st1 - 1))
          (emit_instr Jump_op 0 (n_span nt) st2)) st5"
    using 6(3) [OF s(1,2) refl refl s(3) c(3)] neat_pending [OF 2] by simp
  have 12: "neat st st2" using 1 neat_instr_left [OF 2] by (rule neat_trans)
  have "neat st (patch_arg (code_size st1) (of_nat (code_size (emit_instr Jump_op 0 (n_span nt) st2) - code_size st1 - 1))
          (emit_instr Jump_op 0 (n_span nt) st2))"
    by (intro neat_patch neat_instr 12 neat_size [OF 1])
  then have "neat st st5" using 3 by (rule neat_trans)
  then show ?case unfolding s(4) using neat_size [OF 12] by (rule neat_patch)
next
  case (7 env nt es st)
  have "list_all (\<lambda>e. \<exists>t. core_node env T M t e) es" using 7(3) core_body_all by simp
  then show ?case using 7 by auto
next
  case (8 env nt l b st)
  then obtain st1 where s: "emit_node env b (enter_lambda env l st) = Some st1"
      "st' = (let (i, st2) = leave_lambda (n_span nt) st st1 in emit_closure l (n_span nt) i st2)"
    by auto
  obtain i st2 where v: "leave_lambda (n_span nt) st st1 = (i, st2)" by fastforce
  have b: "neat (enter_lambda env l st) st1" using 8(1) [OF s(1), of True] 8(3) by simp
  have g: "appends (enter_lambda env l st) st1" using b by (simp add: neat_def)
  note tl = tidy_lambda [OF g neat_pending [OF b], of "n_span nt", unfolded v snd_conv]
  have "neat st st2" using tl cache_ok_appends [of st st2] by (auto simp: neat_def)
  then show ?case unfolding s(2) v by (simp add: neat_tidy [OF _ tidy_closure [OF tidy_refl]])
next
  case (9 env nt a v st)
  then obtain st1 where s: "emit_node env v (announce_self a v st) = Some st1"
      "st' = snd (emit_load_const Nil_val (n_span nt) (patch_self a v (n_span nt) (emit_address_store a (n_span nt) st1)))"
    by auto
  have "pending_self (announce_self a v st) = [] \<or> is_lambda v" using 9(4) announce_pending(2) by (cases "is_lambda v") auto
  then have "neat (announce_self a v st) st1" using 9(1) [OF s(1), of False] 9(3) by simp
  then have "neat st st1" by (rule neat_announced)
  then show ?case unfolding s(2) by (rule neat_tidy) (intro tidy_rules tidy_refl)
next
  case (15 env nt tg v st)
  obtain u st1 where t: "tag_value tg st = (u, st1)" by fastforce
  define st2 where "st2 = snd (emit_load_const u (n_span nt) st1)"
  obtain st3 where s: "emit_node env v st2 = Some st3" "st' = emit_instr Throw_op 0 (n_span nt) st3"
    using 15(2) t by (auto simp: Let_def st2_def)
  have td: "tidy st st2" unfolding st2_def using tidy_tag [OF tidy_refl, of st tg] t by (auto intro: tidy_load_const)
  have "neat st2 st3" using 15(1) [OF t [symmetric] refl st2_def _, of st3 False] s 15(3,4) tidy_pending [OF td]
    by (simp add: st2_def)
  then show ?case unfolding s(2) by (intro neat_instr) (rule tidy_neat [OF td])
next
  case (16 env nt tg b st)
  obtain u st1 where t: "tag_value tg st = (u, st1)" by fastforce
  obtain c st2 where c: "add_const u st1 = (c, st2)" by fastforce
  let ?s = "emit_instr SetupCatch_op 0 (n_span nt) st2"
  obtain st3 where s: "emit_node env b ?s = Some st3"
      "st' = close_guard c (code_size st2) (emit_instr PopCatch_op 0 (n_span nt) st3)"
    using 16(2) t c by (auto simp: Let_def)
  have td: "tidy st st2" using tidy_add_const [OF tidy_tag [OF tidy_refl, of st tg], of u] t c by simp
  then have "tidy st ?s" by (rule tidy_instr)
  moreover have "neat ?s st3"
    using 16(1) [OF t [symmetric] refl c [symmetric] refl refl s(1), of False] 16(3,4) tidy_pending [OF td] by simp
  ultimately have "neat st st3" by (rule tidy_neat)
  then show ?case unfolding s(2) close_guard_def Let_def
    by (intro neat_patch neat_instr) (use td appends_size in \<open>auto simp: tidy_def\<close>)
next
  case (23 env st) then show ?case by (simp add: tidy_is_neat)
next
  case (24 env e es st)
  then obtain st1 t where s: "emit_node env e st = Some st1" "emit_all env es st1 = Some st'" "core_node env T M t e"
    by (auto simp: bind_eq_Some_conv)
  have 1: "neat st st1" using 24(1) [OF s(1) s(3)] 24(5) by simp
  then show ?case using 24(2) [OF s(1,2)] 24(4) neat_pending neat_trans by auto
next
  case (25 env sp inits i st) then show ?case by (simp add: tidy_is_neat)
next
  case (26 env sp inits i e es st)
  then obtain st1 t where 1: "emit_node env e st = Some st1" "core_node env T M t e" by (auto simp: bind_eq_Some_conv)
  let ?a = "if es = [] then st1 else emit_instr Pop_op 0 (n_span (info_of e)) st1"
  let ?b = "if length inits > 1 \<and> i + 1 = length inits then patch_letrec inits sp ?a else ?a"
  have 2: "emit_body env sp inits (i + 1) es ?b = Some st'" using 26(3) 1 by (simp add: Let_def)
  have "neat st st1" using 26(1) [OF 1] 26(5) by simp
  moreover have "tidy st1 ?b" by (simp add: tidy_rules)
  ultimately have b: "neat st ?b" by (rule neat_tidy)
  have "neat ?b st'" using 26(2) [OF 1(1) refl refl, of st'] 2 26(4) neat_pending [OF b] by simp
  with b show ?case by (rule neat_trans)
qed (auto)


section \<open>Code in a finished function\<close>

text \<open>
  \<open>fits env f t st st'\<close>: what was emitted between \<open>st\<close> and \<open>st'\<close> is in the function \<open>f\<close> of the table,
  with its constants; the functions and names of \<open>st'\<close> are in the code table and in the table \<open>t\<close>.
\<close>

definition within :: "emit_state \<Rightarrow> emit_state \<Rightarrow> emit_state \<Rightarrow> bool" where
  "within a b c \<longleftrightarrow> (\<forall>i. code_size a \<le> i \<and> i < code_size b \<longrightarrow> i < code_size c \<and> fn_code (es_func b) ! i = fn_code (es_func c) ! i)
     \<and> prefix (constants (es_func b)) (constants (es_func c)) \<and> prefix (es_registry b) (es_registry c)
     \<and> str_to_id (es_interns b) \<subseteq>\<^sub>m str_to_id (es_interns c)"

definition fits :: "vm_env \<Rightarrow> nat \<Rightarrow> intern_table \<Rightarrow> emit_state \<Rightarrow> emit_state \<Rightarrow> bool" where
  "fits env f t a b \<longleftrightarrow> f < length (code_table env)
     \<and> (\<forall>i. code_size a \<le> i \<and> i < code_size b \<longrightarrow> i < length (fn_code (func_of env f)) \<and> fn_code (es_func b) ! i = fn_code (func_of env f) ! i)
     \<and> prefix (constants (es_func b)) (constants (func_of env f)) \<and> prefix (es_registry b) (code_table env)
     \<and> str_to_id (es_interns b) \<subseteq>\<^sub>m str_to_id t"

lemma fits_within: "fits env f t a c \<Longrightarrow> within a' b c \<Longrightarrow> code_size a \<le> code_size a' \<Longrightarrow> fits env f t a' b"
  unfolding fits_def within_def by (auto intro: prefix_order.trans map_le_trans)

lemma within_appends: "appends b c \<Longrightarrow> within a b c"
  by (auto simp: within_def appends_def code_size_def prefix_def nth_append)

lemma within_patch: "within a b c \<Longrightarrow> code_size b \<le> i \<or> i < code_size a \<Longrightarrow> within a b (patch_arg i x c)"
  by (auto simp: within_def code_size_def patch_arg_def nth_list_update)

lemma within_patch_left: "within a (patch_arg i x b) c \<Longrightarrow> i < code_size a \<Longrightarrow> within a b c"
  by (auto simp: within_def code_size_def patch_arg_def nth_list_update)

lemma within_trans: "within a b c \<Longrightarrow> within a c d \<Longrightarrow> within a b d"
  unfolding within_def by (auto intro: prefix_order.trans map_le_trans)

lemma within_later: "within a b c \<Longrightarrow> code_size a \<le> code_size a' \<Longrightarrow> within a' b c"
  by (auto simp: within_def)

lemma fits_split:
  "fits env f t a c \<Longrightarrow> appends a b \<Longrightarrow> appends b c \<Longrightarrow> fits env f t a b \<and> fits env f t b c"
  by (meson appends_size fits_within le_refl within_appends appends_refl)

lemma fits_instr:
  "fits env f t a (emit_instr op x sp b) \<Longrightarrow> appends a b \<Longrightarrow>
     fits env f t a b \<and> fn_code (func_of env f) ! code_size b = mk_instr op x
       \<and> code_size b < length (fn_code (func_of env f))"
  using fits_split [of env f t a "emit_instr op x sp b" b] appends_emit_instr [OF appends_refl [of b], of op x sp]
    appends_size [of a b]
  by (auto simp: fits_def emit_instr_def code_size_def)

text \<open>The function \<open>f\<close> is the code of a lambda.\<close>

definition small_table :: "vm_env \<Rightarrow> bool" where
  "small_table env \<longleftrightarrow> length (code_table env) < 2 ^ 32 \<and> 0 < fuel env
     \<and> (\<forall>g \<in> set (code_table env). length (fn_code g) < 65536 \<and> length (constants g) \<le> 65536)"

definition compiled :: "emit_env \<Rightarrow> vm_env \<Rightarrow> intern_table \<Rightarrow> intern_table \<Rightarrow> nat \<Rightarrow> nat \<Rightarrow> lam \<Rightarrow> bool" where
  "compiled E env T t M f c \<longleftrightarrow> (case c of Lam l b selfs \<Rightarrow>
     core_lambda E M l \<and> core_node E T M True b \<and> f < length (code_table env)
     \<and> fn_arity (func_of env f) = ucast (ar_required (lam_arity l)) \<and> has_rest (func_of env f) = ar_rest (lam_arity l)
     \<and> stack_size (func_of env f) = lam_stack_size l
     \<and> (\<exists>st st1. emit_node E b st = Some st1 \<and> code_size st = 0 \<and> cache_ok st \<and> pending_self st = []
          \<and> active_lambdas st \<noteq> [] \<and> last (active_lambdas st) = active_of E l selfs
          \<and> str_to_id T \<subseteq>\<^sub>m str_to_id (es_interns st)
          \<and> fits env f t st st1 \<and> code_size st1 < length (fn_code (func_of env f))
          \<and> opcode (fn_code (func_of env f) ! code_size st1) = Return_op))"

text \<open>What the emitter knows of the lambda that is being compiled agrees with the evaluator.\<close>

definition cur_ok :: "emit_env \<Rightarrow> nat \<Rightarrow> lam option \<Rightarrow> emit_state \<Rightarrow> bool" where
  "cur_ok E M cur st \<longleftrightarrow> (case cur of
       None \<Rightarrow> active_lambdas st = []
     | Some (Lam l b selfs) \<Rightarrow> active_lambdas st \<noteq> [] \<and> last (active_lambdas st) = active_of E l selfs \<and> core_lambda E M l)"

lemma cur_ok_appends: "cur_ok E M cur a \<Longrightarrow> appends a b \<Longrightarrow> cur_ok E M cur b"
  by (auto simp: cur_ok_def appends_def split: option.splits lam.splits)

lemma self_tail_target_iff:
  assumes "cur_ok E M cur st"
  shows "(if n_tail nt then self_tail_target f args st else None)
     = (if self_call cur (n_tail nt) f (length args) then Some (last (active_lambdas st)) else None)"
  using assms
  by (auto simp: self_tail_target_def self_call_def cur_ok_def Let_def active_of_def core_lambda_def
      split: node.splits address.splits option.splits lam.splits dest!: arg_cong [of _ _ length])

end
