(* ===== verification/Running.thy ===== *)
theory Running
  imports CodeLayout
begin

text \<open>
  Runs of the machine inside one frame: sequences of steps, the state of a frame between two nodes,
  and what it means that the code of a node does what the evaluator says.
\<close>

section \<open>Steps\<close>

definition one :: "vm_env \<Rightarrow> vm \<Rightarrow> vm \<Rightarrow> bool" where
  "one env s s' \<longleftrightarrow> running env s \<and> step env s = Some (Inr (), s')"

abbreviation steps :: "vm_env \<Rightarrow> vm \<Rightarrow> vm \<Rightarrow> bool" where
  "steps env \<equiv> (one env)\<^sup>*\<^sup>*"

lemma run_loop_steps:
  "steps env s s' \<Longrightarrow> \<exists>m. \<forall>k. run_loop env (m + k) s = run_loop env k s'"
proof (induction rule: converse_rtranclp_induct)
  case base then show ?case by (intro exI [of _ 0]) simp
next
  case (step a b)
  then obtain m where "\<forall>k. run_loop env (m + k) b = run_loop env k s'" by blast
  then have "\<forall>k. run_loop env (Suc m + k) a = run_loop env k s'"
    using step(1) by (simp add: one_def bind_run_def)
  then show ?case by blast
qed

lemma run_loop_done: "\<not> running env s \<Longrightarrow> run_loop env k s = Some (Inr (), s)"
  by (cases k) simp_all

section \<open>Frames\<close>

text \<open>
  The frame of the function \<open>f\<close> and closure \<open>cl\<close> lies above \<open>base\<close>; \<open>ms\<close> are its local variables and
  \<open>tmp\<close> the operands above them.
\<close>

definition in_frame :: "nat \<Rightarrow> lispval \<Rightarrow> lispval list \<Rightarrow> lispval list \<Rightarrow> lispval list \<Rightarrow> nat \<Rightarrow> vm \<Rightarrow> bool" where
  "in_frame f cl base ms tmp p s \<longleftrightarrow> stack s = base @ ms @ tmp \<and> cur_func s = Some f \<and> cur_closure s = cl
     \<and> unat (fp s) = length base \<and> pc s = of_nat p"

definition moved :: "vm \<Rightarrow> lispval list \<Rightarrow> nat \<Rightarrow> nat world \<Rightarrow> vm" where
  "moved s k p w = s\<lparr> stack := k, pc := of_nat p, wd := w \<rparr>"

lemma moved_simps [simp]:
  "stack (moved s k p w) = k" "pc (moved s k p w) = of_nat p" "wd (moved s k p w) = w"
  "frames (moved s k p w) = frames s" "winding (moved s k p w) = winding s" "catches (moved s k p w) = catches s"
  "pending_transfer (moved s k p w) = pending_transfer s" "unwind_thunks (moved s k p w) = unwind_thunks s"
  "unwind_index (moved s k p w) = unwind_index s" "cur_func (moved s k p w) = cur_func s" "fp (moved s k p w) = fp s"
  "cur_closure (moved s k p w) = cur_closure s" "active_tapes (moved s k p w) = active_tapes s"
  "sandbox_mode (moved s k p w) = sandbox_mode s" "moved (moved s k p w) k' p' w' = moved s k' p' w'"
  by (simp_all add: moved_def)

lemma in_frame_moved [simp]:
  "in_frame f cl base ms tmp p s \<Longrightarrow> in_frame f cl base ms' tmp' p' (moved s (base @ ms' @ tmp') p' w)"
  by (simp add: in_frame_def)

lemma moved_same: "in_frame f cl base ms tmp p s \<Longrightarrow> moved s (base @ ms @ tmp) p (wd s) = s"
  by (simp add: in_frame_def moved_def)

text \<open>The local variables of the evaluator that have a value are those of the frame.\<close>

definition agree :: "slots \<Rightarrow> lispval list \<Rightarrow> bool" where
  "agree = list_all2 (\<lambda>x m. x = None \<or> x = Some m)"

lemma agree_length: "agree ls ms \<Longrightarrow> length ls = length ms"
  by (simp add: agree_def list_all2_lengthD)

lemma agree_slot: "agree ls ms \<Longrightarrow> slot_value ls i = Some v \<Longrightarrow> i < length ms \<and> ms ! i = v"
  by (fastforce simp: agree_def slot_value_def list_all2_conv_all_nth split: if_splits)

lemma agree_update: "agree ls ms \<Longrightarrow> agree (ls[i := Some v]) (ms[i := v])"
  by (simp add: agree_def list_all2_update_cong)

section \<open>One instruction\<close>

lemma step_instr:
  assumes "in_frame f cl base ms tmp p s" "small_table env" "f < length (code_table env)"
    and "p < length (fn_code (func_of env f))" "fn_code (func_of env f) ! p = mk_instr op a"
  shows "running env s"
    "step env s = exec_instr env (mk_instr op a) (span_at (func_of env f) p) (moved s (base @ ms @ tmp) (Suc p) (wd s))"
proof -
  have "length (fn_code (func_of env f)) < 65536" using assms(2,3) by (simp add: small_table_def func_of_def)
  then have u: "unat (of_nat p :: u32) = p" using assms(4) by (intro unat_of_small) simp
  have m: "s\<lparr> pc := of_nat p + 1 \<rparr> = moved s (base @ ms @ tmp) (Suc p) (wd s)"
    using assms(1) by (simp add: in_frame_def moved_def add.commute)
  show "running env s" using assms u by (simp add: running_def in_frame_def)
  have "step env s = exec_instr env (mk_instr op a) (span_at (func_of env f) p) (s\<lparr> pc := of_nat p + 1 \<rparr>)"
    using assms u by (simp add: step_def Let_def in_frame_def)
  then show "step env s = exec_instr env (mk_instr op a) (span_at (func_of env f) p) (moved s (base @ ms @ tmp) (Suc p) (wd s))"
    unfolding m .
qed

lemma one_instr:
  assumes "in_frame f cl base ms tmp p s" "small_table env" "f < length (code_table env)"
    and "p < length (fn_code (func_of env f))" "fn_code (func_of env f) ! p = mk_instr op a"
    and "exec_instr env (mk_instr op a) (span_at (func_of env f) p) (moved s (base @ ms @ tmp) (Suc p) (wd s)) = Some (Inr (), s')"
  shows "one env s s'"
  using step_instr [OF assms(1-5)] assms(6) by (simp add: one_def)

section \<open>What the code of a node does\<close>

text \<open>\<open>do_throw\<close> with the catch frames given; the raise has left further ones above them.\<close>

definition raise_to :: "vm_env \<Rightarrow> catch_frame list \<Rightarrow> lispval \<Rightarrow> lispval \<Rightarrow> unit run" where
  "raise_to env cs t x s =
     (case find_catch (\<lambda>cf. cf_tag cf = Nil_val \<or> values_eqv (wd s) (cf_tag cf) t) cs of
        Some i \<Rightarrow> begin_transfer (resume_transfer env (fuel env)) (cs ! i) x i s
      | None \<Rightarrow>
        (let name = (if is_boxed t \<and> tag t = Symbol_tag
             then (case get_string (payload t) (interns (wd s)) of Inr n \<Rightarrow> n | Inl _ \<Rightarrow> ''unknown-tag'')
             else ''unknown-tag'')
         in Some (Inl (vm_error UserThrow (''Unhandled raise: '' @ name)), s)))"

lemma do_throw_raise: "do_throw env (resume_transfer env (fuel env)) t x s = raise_to env (catches s) t x s"
  by (simp add: do_throw_def raise_to_def)

text \<open>
  A raise: after some steps the machine is about to throw with \<open>keep\<close> at the bottom of its stack, at
  least the frames of \<open>s\<close>, and nothing else of the execution state changed.
\<close>

definition raised_at :: "vm_env \<Rightarrow> (nat \<Rightarrow> lam \<Rightarrow> bool) \<Rightarrow> lispval list \<Rightarrow> vm \<Rightarrow> lispval \<Rightarrow> lispval \<Rightarrow> store \<Rightarrow> bool" where
  "raised_at env R keep s t x w' \<longleftrightarrow> (\<exists>s1 extra fs more w1 a b c d. steps env s s1 \<and> running env s1 \<and> wrel R w1 w' \<and>
     step env s1 = raise_to env (catches s) t x (s\<lparr> stack := keep @ extra, frames := frames s @ fs,
       catches := catches s @ more, wd := w1, cur_func := a, pc := b, fp := c, cur_closure := d \<rparr>))"

definition faulted :: "vm_env \<Rightarrow> (nat \<Rightarrow> lam \<Rightarrow> bool) \<Rightarrow> vm \<Rightarrow> runtime_error \<Rightarrow> store \<Rightarrow> bool" where
  "faulted env R s e w' \<longleftrightarrow> (\<exists>s1 s2. steps env s s1 \<and> running env s1 \<and> step env s1 = Some (Inl e, s2) \<and> wrel R (wd s2) w')"

text \<open>
  The node ends at \<open>p\<close> in its own frame, with its value on top of the operands; or, in tail position,
  with a return from the frame.
\<close>

definition outcome_ok :: "vm_env \<Rightarrow> (nat \<Rightarrow> lam \<Rightarrow> bool) \<Rightarrow> lispval list \<Rightarrow> lispval list \<Rightarrow> vm \<Rightarrow> nat \<Rightarrow> outcome \<Rightarrow> slots \<Rightarrow> store \<Rightarrow> bool" where
  "outcome_ok env R base tmp s p r ls' w' \<longleftrightarrow> (case r of
       Val v \<Rightarrow> \<exists>ms' w1. agree ls' ms' \<and> wrel R w1 w' \<and> steps env s (moved s (base @ ms' @ tmp @ [v]) p w1)
     | Raised t x \<Rightarrow> \<exists>ms'. agree ls' ms' \<and> raised_at env R (base @ ms' @ tmp) s t x w'
     | Fault e \<Rightarrow> faulted env R s e w')"

definition returned :: "vm \<Rightarrow> lispval list \<Rightarrow> lispval \<Rightarrow> nat world \<Rightarrow> vm" where
  "returned s base v w = (let fr = last (frames s) in
     s\<lparr> frames := butlast (frames s), stack := base @ [v], cur_func := fr_func fr, pc := fr_pc fr, fp := fr_fp fr,
        cur_closure := fr_closure fr, wd := w \<rparr>)"

definition return_ok :: "vm_env \<Rightarrow> (nat \<Rightarrow> lam \<Rightarrow> bool) \<Rightarrow> lispval list \<Rightarrow> vm \<Rightarrow> outcome \<Rightarrow> store \<Rightarrow> bool" where
  "return_ok env R base s r w' \<longleftrightarrow> (case r of
       Val v \<Rightarrow> \<exists>w1. wrel R w1 w' \<and> steps env s (returned s base v w1)
     | Raised t x \<Rightarrow> raised_at env R base s t x w'
     | Fault e \<Rightarrow> faulted env R s e w')"

definition node_ok :: "vm_env \<Rightarrow> (nat \<Rightarrow> lam \<Rightarrow> bool) \<Rightarrow> bool \<Rightarrow> lispval list \<Rightarrow> lispval list \<Rightarrow> vm \<Rightarrow> nat \<Rightarrow> outcome \<Rightarrow> slots \<Rightarrow> store \<Rightarrow> bool" where
  "node_ok env R t base tmp s p r ls' w' \<longleftrightarrow> outcome_ok env R base tmp s p r ls' w' \<or> (t \<and> return_ok env R base s r w')"

lemma raised_at_before:
  "steps env s (moved s k p w) \<Longrightarrow> raised_at env R keep (moved s k p w) t x w' \<Longrightarrow> raised_at env R keep s t x w'"
  unfolding raised_at_def moved_def
  by (elim exE conjE, intro exI conjI, erule (1) rtranclp_trans, assumption, assumption, simp)

lemma raised_at_keep: "raised_at env R (keep @ mr) s t x w' \<Longrightarrow> raised_at env R keep s t x w'"
  unfolding raised_at_def by (metis append.assoc)

lemma faulted_before: "steps env s s' \<Longrightarrow> faulted env R s' e w' \<Longrightarrow> faulted env R s e w'"
  unfolding faulted_def by (meson rtranclp_trans)

lemma returned_moved: "returned (moved s k p w) base v w1 = returned s base v w1"
  by (simp add: returned_def moved_def Let_def)

lemma outcome_before:
  "steps env s (moved s k p w) \<Longrightarrow> outcome_ok env R base tmp (moved s k p w) p' r ls' w' \<Longrightarrow>
   outcome_ok env R base tmp s p' r ls' w'"
  by (cases r) (auto simp: outcome_ok_def intro: raised_at_before faulted_before rtranclp_trans)

lemma return_before:
  "steps env s (moved s k p w) \<Longrightarrow> return_ok env R base (moved s k p w) r w' \<Longrightarrow> return_ok env R base s r w'"
  by (cases r) (auto simp: return_ok_def returned_moved intro: raised_at_before faulted_before rtranclp_trans)

lemma node_before:
  "steps env s (moved s k p w) \<Longrightarrow> node_ok env R t base tmp (moved s k p w) p' r ls' w' \<Longrightarrow>
   node_ok env R t base tmp s p' r ls' w'"
  by (auto simp: node_ok_def intro: outcome_before return_before)

lemma outcome_node: "outcome_ok env R base tmp s p r ls' w' \<Longrightarrow> node_ok env R t base tmp s p r ls' w'"
  by (simp add: node_ok_def)

text \<open>An outcome that is no value is that of the enclosing node, whatever operands it has pushed.\<close>

lemma outcome_abrupt:
  "outcome_ok env R base (tmp @ mr) s p r ls' w' \<Longrightarrow> (\<And>v. r \<noteq> Val v) \<Longrightarrow> outcome_ok env R base tmp s p' r ls' w'"
proof -
  have "raised_at env R (base @ ms' @ tmp) s t x w'" if "raised_at env R (base @ ms' @ tmp @ mr) s t x w'" for ms' t x
    using that raised_at_keep [of env R "base @ ms' @ tmp" mr] by simp
  then show "outcome_ok env R base (tmp @ mr) s p r ls' w' \<Longrightarrow> (\<And>v. r \<noteq> Val v) \<Longrightarrow> outcome_ok env R base tmp s p' r ls' w'"
    by (cases r) (auto simp: outcome_ok_def)
qed

lemma outcome_abrupt_here:
  "outcome_ok env R base tmp s p r ls' w' \<Longrightarrow> (\<And>v. r \<noteq> Val v) \<Longrightarrow> outcome_ok env R base tmp s p' r ls' w'"
  by (cases r) (auto simp: outcome_ok_def)

end
