(* ===== verification/Instructions.thy ===== *)
theory Instructions
  imports Running
begin

text \<open>
  The effect of each instruction that the core nodes use, on the state of a frame, and the nodes
  that are single instructions or short sequences of them: constants, variables, assignments, the
  captures of a closure and the patches that tie its knots.
\<close>

section \<open>Operands\<close>

lemma push_moved [simp]: "push v (moved s k p w) = moved s (k @ [v]) p w"
  by (simp add: push_def moved_def)

lemma pop_moved [simp]: "k \<noteq> [] \<Longrightarrow> pop (moved s k p w) = (last k, moved s (butlast k) p w)"
  by (simp add: pop_def moved_def)

lemma moved_update [simp]:
  "(moved s k p w)\<lparr> stack := k' \<rparr> = moved s k' p w" "(moved s k p w)\<lparr> wd := w' \<rparr> = moved s k p w'"
  by (simp_all add: moved_def)

lemma map_le_some: "m \<subseteq>\<^sub>m n \<Longrightarrow> m x = Some y \<Longrightarrow> n x = Some y"
  by (metis domI map_le_def)

lemma pop_many_moved:
  "pop_many (length vs) (moved s (k @ vs) p w) = (vs, moved s k p w)"
proof (induction vs rule: rev_induct)
  case (snoc v vs) then show ?case by (simp add: butlast_append)
qed simp

section \<open>Reading\<close>

text \<open>The state of a frame that stands for the local variables \<open>ls\<close> and the store \<open>w\<close>.\<close>

definition frame_ok :: "(nat \<Rightarrow> lam \<Rightarrow> bool) \<Rightarrow> nat \<Rightarrow> lispval \<Rightarrow> lispval list \<Rightarrow> lispval list \<Rightarrow> lispval list \<Rightarrow> nat \<Rightarrow> vm \<Rightarrow> slots \<Rightarrow> store \<Rightarrow> bool" where
  "frame_ok R f cl base ms tmp p s ls w \<longleftrightarrow> in_frame f cl base ms tmp p s \<and> agree ls ms \<and> wrel R (wd s) w
     \<and> \<not> sandbox_mode s \<and> length (base @ ms @ tmp) + 1 < 2 ^ 32"

lemma frame_ok_moved:
  "frame_ok R f cl base ms tmp p s ls w \<Longrightarrow> agree ls' ms' \<Longrightarrow> wrel R w1 w' \<Longrightarrow> length (base @ ms' @ tmp') + 1 < 2 ^ 32 \<Longrightarrow>
   frame_ok R f cl base ms' tmp' p' (moved s (base @ ms' @ tmp') p' w1) ls' w'"
  by (auto simp: frame_ok_def intro: in_frame_moved)

lemma frame_ok_in: "frame_ok R f cl base ms tmp p s ls w \<Longrightarrow> in_frame f cl base ms tmp p s"
  by (simp add: frame_ok_def)

text \<open>An instruction that only pushes a value.\<close>

lemma push_instr:
  assumes "frame_ok R f cl base ms tmp p s ls w" "small_table env" "f < length (code_table env)"
    and "p < length (fn_code (func_of env f))" "fn_code (func_of env f) ! p = mk_instr op a"
    and "exec_instr env (mk_instr op a) (span_at (func_of env f) p) (moved s (base @ ms @ tmp) (Suc p) (wd s))
      = Some (Inr (), moved s (base @ ms @ tmp @ [v]) (Suc p) (wd s))"
  shows "outcome_ok env R base tmp s (Suc p) (Val v) ls w"
  using one_instr [OF frame_ok_in [OF assms(1)] assms(2-6)] assms(1)
  by (auto simp: outcome_ok_def frame_ok_def)

lemma fault_instr:
  assumes "frame_ok R f cl base ms tmp p s ls w" "small_table env" "f < length (code_table env)"
    and "p < length (fn_code (func_of env f))" "fn_code (func_of env f) ! p = mk_instr op a"
    and "exec_instr env (mk_instr op a) (span_at (func_of env f) p) (moved s (base @ ms @ tmp) (Suc p) (wd s))
      = Some (Inl e, s2)" "wrel R (wd s2) w'"
  shows "faulted env R s e w'"
  using step_instr [OF frame_ok_in [OF assms(1)] assms(2-5)] assms(6,7) by (auto simp: faulted_def)

lemma unat_widen [simp]: "unat (ucast (i :: u16) :: u32) = unat i"
proof -
  have "unat i < 2 ^ 16" using unsigned_less [of i] by simp
  then have "unat i < 2 ^ 32" by simp
  then show ?thesis by (simp add: unsigned_ucast_eq take_bit_nat_eq_self)
qed

lemma slot_index:
  assumes "frame_ok R f cl base ms tmp p s ls w" "unat i < length ms"
  shows "unat (fp s + ucast (i :: u16)) = length base + unat i"
proof -
  have "unat (fp s) = length base" "length base + unat i < 2 ^ 32"
    using assms by (auto simp: frame_ok_def in_frame_def)
  then show ?thesis by (simp add: unat_word_ariths)
qed

lemma load_address:
  assumes "frame_ok R f cl base ms tmp (code_size st) s ls w" "small_table env"
    and "fits env f t st (emit_address_load a sp st)" "read_address cl a ls w = Some r"
  shows "outcome_ok env R base tmp s (code_size (emit_address_load a sp st)) (case r of Inr v \<Rightarrow> Val v | Inl e \<Rightarrow> Fault e) ls w"
proof -
  have f: "f < length (code_table env)" using assms(3) by (simp add: fits_def)
  have w: "wrel R (wd s) w" and c: "cur_closure s = cl" using assms(1) by (auto simp: frame_ok_def in_frame_def)
  show ?thesis
  proof (cases a)
    case (Local i)
    note fi = fits_instr [of env f t st LoadLocal_op "ucast i" sp st, OF _ appends_refl]
    obtain v where v: "r = Inr v" "unat i < length ms" "ms ! unat i = v"
      using assms(1,4) Local agree_slot by (fastforce simp: read_address_def frame_ok_def)
    show ?thesis unfolding v(1) using assms(3) Local v slot_index [OF assms(1) v(2)]
      by (auto simp: emit_address_load_def exec_instr_def mk_instr_def op_load_local_def nth_append
          intro!: push_instr [OF assms(1,2) f] dest!: fi)
  next
    case (Upval i)
    note fi = fits_instr [of env f t st LoadUpval_op "ucast i" sp st, OF _ appends_refl]
    obtain k us p v where v: "as_closure w cl = Some (k, us, p)" "r = Inr (us ! unat i)" "unat i < length us"
      using assms(4) Upval by (auto simp: read_address_def split: option.splits if_splits)
    obtain g where g: "as_closure (wd s) cl = Some (g, us, p)" using wrel_closure [OF w v(1)] by blast
    show ?thesis unfolding v(2) using assms(3) Upval v(3) g c
      by (auto simp: emit_address_load_def exec_instr_def mk_instr_def op_load_upval_def
          intro!: push_instr [OF assms(1,2) f] dest!: fi)
  next
    case (Global g)
    note fi = fits_instr [of env f t st LoadGlobal_op g sp st, OF _ appends_refl]
    note gl = wrel_globals [OF w]
    show ?thesis
    proof (cases "unat g < length (globals w)")
      case True
      then show ?thesis using assms(3,4) Global gl
        by (auto simp: emit_address_load_def exec_instr_def mk_instr_def op_load_global_def read_address_def
            intro!: push_instr [OF assms(1,2) f] dest!: fi)
    next
      case False
      then show ?thesis using assms(3,4) Global gl w
        by (auto simp: emit_address_load_def exec_instr_def mk_instr_def op_load_global_def read_address_def throw_def
            outcome_ok_def intro!: fault_instr [OF assms(1,2) f] dest!: fi)
    qed
  next
    case No_address
    then show ?thesis using assms(4) by (simp add: read_address_def)
  qed
qed

section \<open>Constants\<close>

lemma table_consts:
  "small_table env \<Longrightarrow> f < length (code_table env) \<Longrightarrow> length (constants (func_of env f)) \<le> 65536"
  by (simp add: small_table_def func_of_def)

lemma fits_nconsts: "fits env f t a b \<Longrightarrow> small_table env \<Longrightarrow> nconsts b \<le> 65536"
  using table_consts [of env f] prefix_length_le by (fastforce simp: fits_def)

lemma fits_const:
  "fits env f t a b \<Longrightarrow> i < nconsts b \<Longrightarrow> i < length (constants (func_of env f)) \<and> constants (func_of env f) ! i = constants (es_func b) ! i"
  by (auto simp: fits_def prefix_def nth_append)

lemma const_instr:
  assumes "frame_ok R f cl base ms tmp (code_size st) s ls w" "small_table env"
    and "fits env f t st (emit_instr LoadConst_op i sp b)" "code_size b = code_size st" "appends st b"
    and "unat i < nconsts b" "constants (es_func b) ! unat i = v"
  shows "outcome_ok env R base tmp s (code_size (emit_instr LoadConst_op i sp b)) (Val v) ls w"
proof -
  have f: "f < length (code_table env)" and c: "cur_func s = Some f" using assms(1,3) by (auto simp: fits_def frame_ok_def in_frame_def)
  have k: "unat i < length (constants (func_of env f)) \<and> constants (func_of env f) ! unat i = v"
    using fits_const [OF assms(3), of "unat i"] assms(6,7) by (simp add: emit_instr_def)
  show ?thesis using fits_instr [OF assms(3,5)] k c assms(4)
    by (auto simp: exec_instr_def mk_instr_def op_load_const_def intro!: push_instr [OF assms(1,2) f])
qed

lemma load_const:
  assumes "frame_ok R f cl base ms tmp (code_size st) s ls w" "small_table env"
    and "fits env f t st (snd (emit_load_const v sp st))"
  shows "outcome_ok env R base tmp s (code_size (snd (emit_load_const v sp st))) (Val v) ls w"
proof -
  let ?b = "snd (add_const v st)" and ?i = "of_nat (nconsts st) :: u32"
  have e: "snd (emit_load_const v sp st) = emit_instr LoadConst_op ?i sp ?b"
    by (simp add: emit_load_const_def add_const_def Let_def)
  have n: "nconsts ?b = Suc (nconsts st)" "constants (es_func ?b) ! nconsts st = v" by (simp_all add: add_const_def)
  have "nconsts ?b \<le> 65536" using fits_nconsts [OF assms(3,2)] by (simp add: e emit_instr_def)
  then have "unat ?i = nconsts st" using n by (intro unat_of_small) simp
  then show ?thesis using const_instr [OF assms(1,2) assms(3) [unfolded e]] n appends_add_const [OF appends_refl]
    by (simp add: e)
qed

lemma literal_constant:
  assumes "literal_value E l st = (Some v, st1)" "literal_val t l = Some x" "str_to_id (es_interns st1) \<subseteq>\<^sub>m str_to_id t"
  shows "v = x"
proof (cases l)
  case (String_lit s)
  then obtain d where "str_to_id (es_interns st1) s = Some d" "v = box String_tag d"
    using assms(1) by (auto simp: literal_value_def em_intern_def intern_def Let_def split: prod.splits option.splits sum.splits if_splits)
  then show ?thesis using assms(2) map_le_some [OF assms(3)] String_lit by (auto simp: literal_val_def)
qed (use assms in \<open>auto simp: literal_value_def literal_val_def em_fixnum_def ok_of_def split: sum.splits\<close>)

lemma sim_const:
  assumes "frame_ok R f cl base ms tmp (code_size st) s ls w" "small_table env"
    and "emit_const E l sp st = Some st'" "fits env f t st st'" "cache_ok st" "literal_val t l = Some v"
  shows "outcome_ok env R base tmp s (code_size st') (Val v) ls w"
proof (cases "cached_string l st")
  case (Some i)
  then obtain x where l: "l = String_lit x" "string_cache st x = Some i" by (cases l) (auto simp: cached_string_def)
  then obtain d where i: "unat i < nconsts st" "str_to_id (es_interns st) x = Some d" "constants (es_func st) ! unat i = box String_tag d"
    using assms(5) by (auto simp: cache_ok_def)
  have st': "st' = emit_instr LoadConst_op i sp st" using assms(3) Some by (simp add: emit_const_def)
  have le: "str_to_id (es_interns st) \<subseteq>\<^sub>m str_to_id t" using assms(4) by (simp add: st' fits_def emit_instr_def)
  have "str_to_id t x = Some d" by (rule map_le_some [where m = "str_to_id (es_interns st)"]) (fact le, fact i(2))
  then have "v = box String_tag d" using assms(6) l by (simp add: literal_val_def)
  then show ?thesis using const_instr [OF assms(1,2) assms(4) [unfolded st'] refl appends_refl i(1,3)] by (simp add: st')
next
  case None
  then obtain x st1 where v: "literal_value E l st = (Some x, st1)"
      "st' = (let (i, st2) = emit_load_const x sp st1 in cache_string l i st2)"
    using assms(3) by (auto simp: emit_const_def split: prod.splits option.splits)
  let ?st2 = "snd (emit_load_const x sp st1)"
  have same: "es_func st' = es_func ?st2 \<and> es_registry st' = es_registry ?st2 \<and> es_interns st' = es_interns ?st2"
    using v(2) by (cases l) (auto simp: cache_string_def split: prod.splits)
  have sc: "es_func st1 = es_func st" "es_registry st1 = es_registry st" using same_code_literal [of st E l] v(1) by (auto simp: same_code_def)
  have f2: "fits env f t st1 ?st2" using assms(4) same sc by (simp add: fits_def code_size_def)
  have "v = x"
    by (rule literal_constant [OF v(1) assms(6), symmetric]) (use f2 in \<open>simp add: fits_def emit_load_const_def add_const_def Let_def emit_instr_def\<close>)
  moreover have "frame_ok R f cl base ms tmp (code_size st1) s ls w" using assms(1) sc by (simp add: code_size_def)
  ultimately show ?thesis using load_const [OF _ assms(2) f2] same by (simp add: code_size_def)
qed

section \<open>Writing\<close>

lemma store_address:
  assumes "frame_ok R f cl base ms (tmp @ [v]) (code_size st) s ls w" "small_table env"
    and "fits env f t st (emit_address_store a sp st)" "write_address cl a v ls w = Some (ls', w')"
  shows "\<exists>ms' w1. agree ls' ms' \<and> length ms' = length ms \<and> wrel R w1 w'
     \<and> one env s (moved s (base @ ms' @ tmp) (code_size (emit_address_store a sp st)) w1)"
proof -
  have f: "f < length (code_table env)" using assms(3) by (simp add: fits_def)
  have w: "wrel R (wd s) w" and c: "cur_closure s = cl" "\<not> sandbox_mode s" and ag: "agree ls ms"
    using assms(1) by (auto simp: frame_ok_def in_frame_def)
  note oi = one_instr [OF frame_ok_in [OF assms(1)] assms(2) f]
  show ?thesis
  proof (cases a)
    case (Local i)
    note fi = fits_instr [of env f t st StoreLocal_op "ucast i" sp st, OF _ appends_refl]
    have v: "unat i < length ms" "ls' = ls[unat i := Some v]" "w' = w"
      using assms(4) Local agree_length [OF ag] by (auto simp: write_address_def split: if_splits)
    have "one env s (moved s (base @ ms[unat i := v] @ tmp) (Suc (code_size st)) (wd s))"
      using assms(3) Local v slot_index [OF assms(1) v(1)]
      by (auto simp: emit_address_store_def exec_instr_def mk_instr_def op_store_local_def butlast_append
          list_update_append dest!: fi intro!: oi)
    then show ?thesis using Local v w agree_update [OF ag]
      by (intro exI [of _ "ms[unat i := v]"] exI [of _ "wd s"]) (simp add: emit_address_store_def)
  next
    case (Upval i)
    note fi = fits_instr [of env f t st StoreUpval_op "ucast i" sp st, OF _ appends_refl]
    obtain k us p where v: "as_closure w cl = Some (k, us, p)" "unat i < length us" "ls' = ls"
        "w' = write_object cl (Closure k (us[unat i := v]) p) w"
      using assms(4) Upval by (auto simp: write_address_def split: option.splits if_splits)
    obtain g where g: "as_closure (wd s) cl = Some (g, us, p)" "R g k" using wrel_closure [OF w v(1)] by blast
    let ?w1 = "write_object cl (Closure g (us[unat i := v]) p) (wd s)"
    have "one env s (moved s (base @ ms @ tmp) (Suc (code_size st)) ?w1)"
      using assms(3) Upval v g c
      by (auto simp: emit_address_store_def exec_instr_def mk_instr_def op_store_upval_def butlast_append
          dest!: fi intro!: oi)
    moreover have "wrel R ?w1 w'" unfolding v(4) using w g(2) by (intro wrel_write) (auto simp: rel_vobj_simps)
    ultimately show ?thesis using Upval v(3) ag by (auto simp: emit_address_store_def)
  next
    case (Global g)
    note fi = fits_instr [of env f t st StoreGlobal_op g sp st, OF _ appends_refl]
    let ?gs = "(globals w @ replicate (unat g + 1 - length (globals w)) Nil_val)[unat g := v]"
    have v: "unat g < 4294967295" "ls' = ls" "w' = w\<lparr> globals := ?gs \<rparr>"
      using assms(4) Global by (auto simp: write_address_def split: if_splits)
    have gl: "globals (wd s) = globals w" by (rule wrel_globals [OF w])
    have "unat (g + 1) = unat g + 1" using v(1) by (simp add: unat_word_ariths)
    then have gs: "(if unat g \<ge> length (globals w) then resize (unat (g + 1)) Nil_val (globals w) else globals w)[unat g := v] = ?gs"
      by (auto simp: resize_def)
    have "one env s (moved s (base @ ms @ tmp) (Suc (code_size st)) ((wd s)\<lparr> globals := ?gs \<rparr>))"
      using assms(3) Global v gl gs c
      by (auto simp: emit_address_store_def exec_instr_def mk_instr_def op_store_global_def butlast_append Let_def
          dest!: fi intro!: oi)
    moreover have "wrel R ((wd s)\<lparr> globals := ?gs \<rparr>) w'" unfolding v(3) by (rule wrel_set_globals [OF w])
    ultimately show ?thesis using Global v(2) ag by (auto simp: emit_address_store_def)
  next
    case No_address
    then show ?thesis using assms(4) by (simp add: write_address_def)
  qed
qed

section \<open>Several values\<close>

text \<open>The outcome of a list of nodes: their values above the operands, or the outcome that cut it short.\<close>

definition values_ok :: "vm_env \<Rightarrow> (nat \<Rightarrow> lam \<Rightarrow> bool) \<Rightarrow> lispval list \<Rightarrow> lispval list \<Rightarrow> vm \<Rightarrow> nat \<Rightarrow>
    outcome + lispval list \<Rightarrow> slots \<Rightarrow> store \<Rightarrow> bool" where
  "values_ok env R base tmp s p q ls' w' \<longleftrightarrow> (case q of
       Inr vs \<Rightarrow> \<exists>ms' w1. agree ls' ms' \<and> wrel R w1 w' \<and> steps env s (moved s (base @ ms' @ tmp @ vs) p w1)
     | Inl r \<Rightarrow> (\<forall>v. r \<noteq> Val v) \<and> outcome_ok env R base tmp s 0 r ls' w')"

lemma values_nil:
  "in_frame f cl base ms tmp p s \<Longrightarrow> agree ls ms \<Longrightarrow> wrel R (wd s) w \<Longrightarrow> values_ok env R base tmp s p (Inr []) ls w"
  unfolding values_ok_def by (simp, intro exI conjI, assumption, assumption) (simp add: moved_same)

lemma values_cons:
  assumes "outcome_ok env R base tmp s p (Val v) ls1 w1"
    and "\<And>ms1 x1. agree ls1 ms1 \<Longrightarrow> wrel R x1 w1 \<Longrightarrow>
      values_ok env R base (tmp @ [v]) (moved s (base @ ms1 @ tmp @ [v]) p x1) p' q ls' w'"
  shows "values_ok env R base tmp s p' (map_sum id (Cons v) q) ls' w'"
proof -
  obtain ms1 x1 where 1: "agree ls1 ms1" "wrel R x1 w1" "steps env s (moved s (base @ ms1 @ tmp @ [v]) p x1)"
    using assms(1) by (auto simp: outcome_ok_def)
  note 2 = assms(2) [OF 1(1,2)]
  show ?thesis
  proof (cases q)
    case (Inl r)
    then have "outcome_ok env R base (tmp @ [v]) s 0 r ls' w'" "\<forall>x. r \<noteq> Val x"
      using 2 outcome_before [OF 1(3)] by (auto simp: values_ok_def)
    then show ?thesis using Inl outcome_abrupt by (fastforce simp: values_ok_def)
  next
    case (Inr vs)
    then show ?thesis using 2 rtranclp_trans [OF 1(3)] by (fastforce simp: values_ok_def)
  qed
qed

lemma values_abrupt: "outcome_ok env R base tmp s p r ls' w' \<Longrightarrow> (\<And>v. r \<noteq> Val v) \<Longrightarrow> values_ok env R base tmp s p' (Inl r) ls' w'"
  using outcome_abrupt_here by (fastforce simp: values_ok_def)

lemma load_addresses:
  assumes "frame_ok R f cl base ms tmp (code_size st) s ls w" "small_table env"
    and "fits env f t st (fold (\<lambda>a. emit_address_load a sp) as st)"
    and "read_addresses cl as ls w = Some r" "length (base @ ms @ tmp) + length as + 1 < 2 ^ 32"
  shows "values_ok env R base tmp s (code_size (fold (\<lambda>a. emit_address_load a sp) as st)) (map_sum Fault id r) ls w"
  using assms
proof (induction as arbitrary: st s tmp ms r)
  case Nil
  then show ?case by (auto simp: frame_ok_def intro: values_nil)
next
  case (Cons a as)
  let ?st1 = "emit_address_load a sp st" and ?st2 = "fold (\<lambda>a. emit_address_load a sp) (a # as) st"
  have g: "appends st ?st1" "appends ?st1 ?st2" by (auto intro: appends_address_load appends_fold)
  have fs: "fits env f t st ?st1" "fits env f t ?st1 ?st2" using fits_split [OF Cons.prems(3) g] by auto
  obtain q where q: "read_address cl a ls w = Some q" using Cons.prems(4) by (auto split: option.splits)
  have o: "outcome_ok env R base tmp s (code_size ?st1) (case q of Inr v \<Rightarrow> Val v | Inl e \<Rightarrow> Fault e) ls w"
    by (rule load_address [OF Cons.prems(1,2) fs(1) q])
  show ?case
  proof (cases q)
    case (Inl e)
    then have "r = Inl e" using Cons.prems(4) q by simp
    then show ?thesis using o Inl by (auto intro: values_abrupt)
  next
    case (Inr v)
    obtain r' where r': "read_addresses cl as ls w = Some r'" "r = map_sum id (Cons v) r'"
      using Cons.prems(4) q Inr by (auto split: option.splits sum.splits)
    have "values_ok env R base (tmp @ [v]) (moved s (base @ ms1 @ tmp @ [v]) (code_size ?st1) x1) (code_size ?st2) (map_sum Fault id r') ls w"
      if "agree ls ms1" "wrel R x1 w" for ms1 x1
    proof -
      have l: "length ms1 = length ms" using agree_length [OF that(1)] agree_length [of ls ms] Cons.prems(1) by (simp add: frame_ok_def)
      have "frame_ok R f cl base ms1 (tmp @ [v]) (code_size ?st1) (moved s (base @ ms1 @ tmp @ [v]) (code_size ?st1) x1) ls w"
        using frame_ok_moved [OF Cons.prems(1) that, of "tmp @ [v]"] Cons.prems(5) l by simp
      then show ?thesis using Cons.IH [OF _ Cons.prems(2) _ r'(1)] fs(2) Cons.prems(5) l by fastforce
    qed
    then have "values_ok env R base tmp s (code_size ?st2) (map_sum id (Cons v) (map_sum Fault id r')) ls w"
      using o Inr by (intro values_cons) auto
    moreover have "map_sum id (Cons v) (map_sum Fault id r') = map_sum Fault id r" unfolding r'(2) by (cases r') auto
    ultimately show ?thesis by (simp only:)
  qed
qed

section \<open>Closures\<close>

lemma small_mask: "unat (k :: u32) < 65536 \<Longrightarrow> k AND mask 16 = k"
  by (simp add: word_unat_eq_iff take_bit_eq_mask [symmetric] unsigned_take_bit_eq take_bit_nat_eq_self)

lemma decode_index: "i < 2 ^ 32 \<Longrightarrow> unat (decode_func_index (encode_func_index (of_nat i))) = i"
  by (simp add: unat_of_small)

lemma read_addresses_length: "read_addresses cl as ls w = Some (Inr us) \<Longrightarrow> length us = length as"
  by (induction as arbitrary: us) (auto split: option.splits sum.splits)

lemma make_closure:
  assumes "frame_ok R f cl base ms tmp (code_size st) s ls w" "small_table env"
    and "fits env f t st (emit_closure l sp (of_nat i) st)" "i < length (code_table env)" "R i c"
    and "read_addresses cl (upval_sources l) ls w = Some (Inr us)" "length (upval_sources l) < 65536"
    and "length (base @ ms @ tmp) + length (upval_sources l) + 1 < 2 ^ 32"
    and "new_object (fresh_id env) (Closure c us cl) w = (q, w')"
  shows "outcome_ok env R base tmp s (code_size (emit_closure l sp (of_nat i) st)) (case q of Inr v \<Rightarrow> Val v | Inl e \<Rightarrow> Fault e) ls w'"
proof -
  let ?st1 = "snd (add_const (encode_func_index (of_nat i)) st)" and ?k = "of_nat (nconsts st) :: u32"
  let ?st2 = "fold (\<lambda>a. emit_address_load a sp) (upval_sources l) ?st1"
  let ?n = "length (upval_sources l)"
  let ?a = "push_bit 16 ?k OR of_nat ?n :: u32"
  have f: "f < length (code_table env)" using assms(3) by (simp add: fits_def)
  have e: "emit_closure l sp (of_nat i) st = emit_instr MakeClosure_op ?a sp ?st2"
    by (simp add: emit_closure_def add_const_def Let_def)
  have g: "appends ?st1 ?st2" by (intro appends_fold appends_address_load) auto
  have n1: "nconsts ?st1 = Suc (nconsts st)" "constants (es_func ?st1) ! nconsts st = encode_func_index (of_nat i)"
    by (simp_all add: add_const_def)
  have ft: "fits env f t ?st1 (emit_instr MakeClosure_op ?a sp ?st2)" using assms(3) by (simp add: e fits_def)
  note fi = fits_instr [OF ft g]
  have "nconsts ?st2 \<le> 65536" using fits_nconsts [OF assms(3,2)] by (simp add: e emit_instr_def)
  then have k: "nconsts st < 65536" using appends_nconsts [OF g] n1 by simp
  then have uk: "unat ?k = nconsts st" by (intro unat_of_small) simp
  have un: "unat (of_nat ?n :: u32) = ?n" using assms(7) by (intro unat_of_small) simp
  have hi: "unat (drop_bit 16 ?a) = nconsts st" using pack_hi [of "of_nat ?n" ?k] un uk k assms(7) by (simp add: small_mask)
  have "unat (of_nat ?n AND 0xFFFF :: u32) = ?n" using small_mask [of "of_nat ?n"] un assms(7) by (simp add: mask_eq_exp_minus_1)
  then have lo: "unat (?a AND 0xFFFF) = ?n" by (simp only: pack_lo)
  have c: "nconsts st < length (constants (func_of env f)) \<and> constants (func_of env f) ! nconsts st = encode_func_index (of_nat i)"
  proof -
    have "nconsts st < nconsts ?st2" using appends_nconsts [OF g] n1 by simp
    moreover have "constants (es_func ?st2) ! nconsts st = encode_func_index (of_nat i)"
      using g n1 by (auto simp: appends_def prefix_def nth_append)
    ultimately show ?thesis using fits_const [OF assms(3), of "nconsts st"] by (simp add: e emit_instr_def)
  qed
  have i32: "i < 2 ^ 32" using assms(2,4) by (simp add: small_table_def)
  have lu: "length us = ?n" by (rule read_addresses_length [OF assms(6)])
  have "frame_ok R f cl base ms tmp (code_size ?st1) s ls w" using assms(1) by simp
  then have "values_ok env R base tmp s (code_size ?st2) (Inr us) ls w"
    using load_addresses [where st = ?st1 and sp = sp, OF _ assms(2) _ assms(6)] fi assms(8) by fastforce
  then obtain ms1 x1 where 1: "agree ls ms1" "wrel R x1 w" "steps env s (moved s (base @ ms1 @ tmp @ us) (code_size ?st2) x1)"
    by (auto simp: values_ok_def)
  have inf: "in_frame f cl base ms1 (tmp @ us) (code_size ?st2) (moved s (base @ ms1 @ tmp @ us) (code_size ?st2) x1)"
    using in_frame_moved [OF frame_ok_in [OF assms(1)], of ms1 "tmp @ us"] by simp
  have "same_result R (new_object (fresh_id env) (Closure i us cl) x1) (q, w')"
    using wrel_new_object [OF 1(2), of "Closure i us cl" "Closure c us cl" "fresh_id env"] assms(5,9) by (simp add: rel_vobj_simps)
  then obtain x2 where x2: "new_object (fresh_id env) (Closure i us cl) x1 = (q, x2)" "wrel R x2 w'" by (rule same_resultE)
  have pm: "pop_many ?n (moved s (base @ ms1 @ tmp @ us) p x) = (us, moved s (base @ ms1 @ tmp) p x)" for p x
    using pop_many_moved [of us s "base @ ms1 @ tmp"] lu by simp
  have cf: "cur_func s = Some f" "cur_closure s = cl" using assms(1) by (auto simp: frame_ok_def in_frame_def)
  have ex: "exec_instr env (mk_instr MakeClosure_op ?a) sp' (moved s (base @ ms1 @ tmp @ us) p x1)
      = (case q of Inl e \<Rightarrow> Some (Inl e, moved s (base @ ms1 @ tmp) p x2) | Inr v \<Rightarrow> Some (Inr (), moved s (base @ ms1 @ tmp @ [v]) p x2))" for sp' p
    using c hi lo cf decode_index [OF i32] assms(4) x2(1) pm
    by (auto simp: exec_instr_def mk_instr_def op_make_closure_def Let_def bind_run_def in_world_def push_run_def modify_def
        split: sum.splits)
  show ?thesis
  proof (cases q)
    case (Inl x)
    have "faulted env R (moved s (base @ ms1 @ tmp @ us) (code_size ?st2) x1) x w'"
      using step_instr [OF inf assms(2) f, of MakeClosure_op ?a] fi ex Inl x2(2) by (auto simp: faulted_def)
    then show ?thesis using faulted_before [OF 1(3)] Inl by (simp add: outcome_ok_def)
  next
    case (Inr v)
    have "one env (moved s (base @ ms1 @ tmp @ us) (code_size ?st2) x1) (moved s (base @ ms1 @ tmp @ [v]) (Suc (code_size ?st2)) x2)"
      using one_instr [OF inf assms(2) f, of MakeClosure_op ?a] fi ex Inr by simp
    then show ?thesis using 1 x2(2) Inr unfolding outcome_ok_def e by (auto intro: rtranclp.rtrancl_into_rtrancl)
  qed
qed

section \<open>Tying knots\<close>

lemma patch_one:
  assumes "frame_ok R f cl base ms tmp (code_size st) s ls w" "small_table env" "length (base @ ms @ tmp) + 3 < 2 ^ 32"
    and "fits env f t st (emit_cross_patch e l sp i st)" "tie ls (unat e) (unat l) i w = Some w'" "i < 65536"
  shows "\<exists>x1. wrel R x1 w' \<and> steps env s (moved s (base @ ms @ tmp) (code_size (emit_cross_patch e l sp i st)) x1)"
proof -
  have f: "f < length (code_table env)" using assms(4) by (simp add: fits_def)
  have ag: "agree ls ms" and w: "wrel R (wd s) w" and sb: "\<not> sandbox_mode s" using assms(1) by (auto simp: frame_ok_def)
  let ?st1 = "emit_instr LoadLocal_op (ucast e) sp st" and ?p = "code_size st"
  let ?st2 = "emit_instr LoadLocal_op (ucast l) sp ?st1"
  have g: "appends st ?st1" "appends st ?st2" by (intro appends_emit_instr appends_refl)+
  note f3 = fits_instr [OF assms(4) [unfolded emit_cross_patch_def] g(2)]
  note f2 = fits_instr [OF conjunct1 [OF f3] g(1)]
  note f1 = fits_instr [OF conjunct1 [OF f2] appends_refl]
  obtain c v where cv: "slot_value ls (unat e) = Some c" "slot_value ls (unat l) = Some v"
    using assms(5) by (auto simp: tie_def split: option.splits)
  have sl: "unat e < length ms" "ms ! unat e = c" "unat l < length ms" "ms ! unat l = v"
    using agree_slot [OF ag cv(1)] agree_slot [OF ag cv(2)] by auto
  let ?s1 = "moved s (base @ ms @ tmp @ [c]) (Suc ?p) (wd s)"
  let ?s2 = "moved s (base @ ms @ tmp @ [c, v]) (Suc (Suc ?p)) (wd s)"
  have 1: "one env s ?s1"
    using one_instr [OF frame_ok_in [OF assms(1)] assms(2) f, of LoadLocal_op "ucast e" ?s1] f1 sl slot_index [OF assms(1) sl(1)]
    by (auto simp: exec_instr_def mk_instr_def op_load_local_def nth_append)
  have k1: "frame_ok R f cl base ms (tmp @ [c]) (Suc ?p) ?s1 ls w"
    using frame_ok_moved [OF assms(1) ag w, of "tmp @ [c]"] assms(3) by simp
  have 2: "one env ?s1 ?s2"
    using one_instr [OF frame_ok_in [OF k1] assms(2) f, of LoadLocal_op "ucast l" ?s2] f2 sl slot_index [OF k1 sl(3)]
    by (auto simp: exec_instr_def mk_instr_def op_load_local_def nth_append)
  have k2: "in_frame f cl base ms (tmp @ [c, v]) (Suc (Suc ?p)) ?s2"
    using in_frame_moved [OF frame_ok_in [OF assms(1)], of ms "tmp @ [c, v]"] by simp
  have ui: "unat (of_nat i :: u32) = i" using assms(6) by (intro unat_of_small) simp
  have "\<exists>x1. wrel R x1 w' \<and> one env ?s2 (moved s (base @ ms @ tmp) (Suc (Suc (Suc ?p))) x1)"
  proof (cases "as_closure w c")
    case None
    then have "as_closure (wd s) c = None" "w' = w" using wrel_no_closure [OF w] assms(5) cv by (auto simp: tie_def)
    then show ?thesis
      using one_instr [OF k2 assms(2) f, of PatchClosureUpval_op "of_nat i" "moved s (base @ ms @ tmp) (Suc (Suc (Suc ?p))) (wd s)"] f3 w sb
      by (auto simp: exec_instr_def mk_instr_def op_patch_closure_upval_def butlast_append)
  next
    case (Some y)
    then obtain k us p where y: "as_closure w c = Some (k, us, p)" by (cases y) auto
    obtain g where g: "as_closure (wd s) c = Some (g, us, p)" "R g k" using wrel_closure [OF w y] by blast
    let ?x = "if i < length us then write_object c (Closure g (us[i := v]) p) (wd s) else wd s"
    have "w' = (if i < length us then write_object c (Closure k (us[i := v]) p) w else w)" using assms(5) cv y by (simp add: tie_def)
    then have "wrel R ?x w'" using w wrel_write [OF w, of "Closure g (us[i := v]) p" "Closure k (us[i := v]) p"] g(2)
      by (simp add: rel_vobj_simps)
    moreover have "one env ?s2 (moved s (base @ ms @ tmp) (Suc (Suc (Suc ?p))) ?x)"
      using one_instr [OF k2 assms(2) f, of PatchClosureUpval_op "of_nat i" "moved s (base @ ms @ tmp) (Suc (Suc (Suc ?p))) ?x"] f3 sb g(1) ui
      by (auto simp: exec_instr_def mk_instr_def op_patch_closure_upval_def butlast_append)
    ultimately show ?thesis by blast
  qed
  then obtain x1 where "wrel R x1 w'" "one env ?s2 (moved s (base @ ms @ tmp) (Suc (Suc (Suc ?p))) x1)" by blast
  with 1 2 show ?thesis
    by (auto simp: emit_cross_patch_def intro!: exI [of _ x1] intro: converse_rtranclp_into_rtranclp)
qed

lemma patch_all:
  assumes "frame_ok R f cl base ms tmp (code_size st) s ls w" "small_table env" "length (base @ ms @ tmp) + 3 < 2 ^ 32"
    and "fits env f t st (fold (\<lambda>(e, l, i). emit_cross_patch e l sp i) ps st)" "ties ls ps w = Some w'"
    and "\<forall>(e, l, i) \<in> set ps. i < 65536"
  shows "\<exists>x1. wrel R x1 w' \<and> steps env s (moved s (base @ ms @ tmp) (code_size (fold (\<lambda>(e, l, i). emit_cross_patch e l sp i) ps st)) x1)"
  using assms
proof (induction ps arbitrary: st s w)
  case Nil
  then have "wrel R (wd s) w'" "s = moved s (base @ ms @ tmp) (code_size st) (wd s)"
    by (auto simp: frame_ok_def moved_same)
  then show ?case by (metis Nil_is_map_conv fold_simps(1) rtranclp.rtrancl_refl)
next
  case (Cons x ps)
  obtain e l i where x: "x = (e, l, i)" by (cases x)
  let ?st1 = "emit_cross_patch e l sp i st" and ?st2 = "fold (\<lambda>(e, l, i). emit_cross_patch e l sp i) (x # ps) st"
  have g1: "appends st ?st1" by (simp add: emit_cross_patch_def appends_emit_instr)
  have "appends ?st1 (fold (\<lambda>(e, l, i). emit_cross_patch e l sp i) ps ?st1)"
    by (intro appends_fold appends_refl) (auto simp: emit_cross_patch_def appends_emit_instr)
  then have g2: "appends ?st1 ?st2" by (simp add: x)
  have fs: "fits env f t st ?st1" "fits env f t ?st1 ?st2" using fits_split [OF Cons.prems(4) g1 g2] by auto
  obtain w1 where w1: "tie ls (unat e) (unat l) i w = Some w1" "ties ls ps w1 = Some w'"
    using Cons.prems(5) x by (auto simp: bind_eq_Some_conv)
  obtain x1 where 1: "wrel R x1 w1" "steps env s (moved s (base @ ms @ tmp) (code_size ?st1) x1)"
    using patch_one [OF Cons.prems(1-3) fs(1) w1(1)] Cons.prems(6) x by auto
  have ag: "agree ls ms" using Cons.prems(1) by (simp add: frame_ok_def)
  have "frame_ok R f cl base ms tmp (code_size ?st1) (moved s (base @ ms @ tmp) (code_size ?st1) x1) ls w1"
    using frame_ok_moved [OF Cons.prems(1) ag 1(1), of tmp] Cons.prems(3) by simp
  then obtain x2 where "wrel R x2 w'" "steps env (moved s (base @ ms @ tmp) (code_size ?st1) x1) (moved s (base @ ms @ tmp) (code_size ?st2) x2)"
    using Cons.IH [OF _ Cons.prems(2,3) _ w1(2)] fs(2) Cons.prems(6) x by fastforce
  then show ?case using rtranclp_trans [OF 1(2)] by blast
qed

section \<open>Branches\<close>

lemma branch_instr:
  assumes "frame_ok R f cl base ms (tmp @ [v]) p s ls w" "small_table env" "f < length (code_table env)"
    and "p < length (fn_code (func_of env f))" "fn_code (func_of env f) ! p = mk_instr JumpIfFalse_op a"
  shows "one env s (moved s (base @ ms @ tmp) (if v = False_val then Suc p + unat a else Suc p) (wd s))"
proof -
  have "pc (moved s k (Suc p) x) + a = of_nat (Suc p + unat a)" for k x by simp
  then have "(moved s k (Suc p) x)\<lparr> pc := pc (moved s k (Suc p) x) + a \<rparr> = moved s k (Suc p + unat a) x" for k x
    by (simp add: moved_def)
  then show ?thesis
    by (intro one_instr [OF frame_ok_in [OF assms(1)] assms(2-5)])
       (auto simp: exec_instr_def mk_instr_def op_jump_if_false_def butlast_append)
qed

lemma jump_instr:
  assumes "frame_ok R f cl base ms tmp p s ls w" "small_table env" "f < length (code_table env)"
    and "p < length (fn_code (func_of env f))" "fn_code (func_of env f) ! p = mk_instr Jump_op (of_nat d)" "d < 65536"
  shows "one env s (moved s (base @ ms @ tmp) (Suc p + d) (wd s))"
proof -
  have "length (fn_code (func_of env f)) < 65536" using assms(2,3) by (simp add: small_table_def func_of_def)
  then have u: "unat (of_nat (Suc p) :: u32) = Suc p" using assms(4) by (intro unat_of_small) simp
  have d: "sint (of_nat d :: u32) = int d" using assms(6) by (intro sint_of_small) simp
  have t: "int (Suc p) + int d \<le> 4294967295" using assms(4,6) \<open>length (fn_code (func_of env f)) < 65536\<close> by simp
  have "op_jump env (of_nat d) (moved s k (Suc p) x) = Some (Inr (), moved s k (Suc p + d) x)" for k x
    using u d t by (simp add: op_jump_def Let_def moved_def)
  then show ?thesis
    by (intro one_instr [OF frame_ok_in [OF assms(1)] assms(2-5)]) (simp add: exec_instr_def mk_instr_def)
qed

section \<open>Primitive calls\<close>

lemma push_result:
  assumes "same_result R m (q, w')" "in_frame f cl base ms tmp' p s" "small_table env" "f < length (code_table env)"
    and "p < length (fn_code (func_of env f))" "fn_code (func_of env f) ! p = mk_instr op a" "agree ls ms"
    and "exec_instr env (mk_instr op a) (span_at (func_of env f) p) (moved s (base @ ms @ tmp') (Suc p) (wd s))
      = (case m of (Inl e, x) \<Rightarrow> Some (Inl e, moved s (base @ ms @ tmp) (Suc p) x)
           | (Inr v, x) \<Rightarrow> Some (Inr (), moved s (base @ ms @ tmp @ [v]) (Suc p) x))"
  shows "outcome_ok env R base tmp s (Suc p) (case q of Inr v \<Rightarrow> Val v | Inl e \<Rightarrow> Fault e) ls w'"
proof -
  obtain x where x: "m = (q, x)" "wrel R x w'" using assms(1) by (rule same_resultE)
  show ?thesis
  proof (cases q)
    case (Inl e)
    then show ?thesis using step_instr [OF assms(2-6)] assms(8) x by (auto simp: outcome_ok_def faulted_def)
  next
    case (Inr v)
    then have "one env s (moved s (base @ ms @ tmp @ [v]) (Suc p) x)" using one_instr [OF assms(2-6)] assms(8) x by simp
    then show ?thesis using Inr x(2) assms(7) by (auto simp: outcome_ok_def)
  qed
qed

lemma prim_instr:
  assumes "frame_ok R f cl base ms (tmp @ vs) p s ls w" "small_table env" "f < length (code_table env)"
    and "p < length (fn_code (func_of env f))" "fn_code (func_of env f) ! p = mk_instr (opcode_for_primitive k) 0"
    and "primitive_op (fresh_id env) k vs w = Some (q, w')"
  shows "outcome_ok env R base tmp s (Suc p) (case q of Inr v \<Rightarrow> Val v | Inl e \<Rightarrow> Fault e) ls w'"
proof -
  have w: "wrel R (wd s) w" and ag: "agree ls ms" using assms(1) by (auto simp: frame_ok_def)
  note pr = push_result [OF _ frame_ok_in [OF assms(1)] assms(2-5) ag]
  consider (one) a where "vs = [a]" | (two) a b where "vs = [a, b]"
    using assms(6) by (auto simp: primitive_op_def split: list.splits)
  then show ?thesis
  proof cases
    case one
    let ?r = "\<lambda>m x y. (case as_pair m a of Some (x', y') \<Rightarrow> (Inr (if k = PCar then x' else y'), m) | None \<Rightarrow> (Inl (type_error ''Not a pair''), m))"
    have k: "k = PCar \<or> k = PCdr" "(q, w') = ?r w 0 0"
      using assms(6) one by (auto simp: primitive_op_def split: if_splits option.splits)
    have "same_result R (?r (wd s) 0 0) (q, w')" unfolding k(2) using w wrel_as_pair [OF w, of a] by (auto split: option.splits)
    then show ?thesis using k(1) one
      by (intro pr) (auto simp: exec_instr_def mk_instr_def opcode_for_primitive_def op_car_def op_cdr_def throw_def butlast_append
          split: option.splits)
  next
    case two
    have bn: "bind_run (in_world m) push_run (moved s j p' x)
        = (case m x of (Inl e, x') \<Rightarrow> Some (Inl e, moved s j p' x') | (Inr v, x') \<Rightarrow> Some (Inr (), moved s (j @ [v]) p' x'))" for m j p' x
      by (auto simp: bind_run_def in_world_def push_run_def modify_def split: prod.splits sum.splits)
    have ar: "exec_instr env (mk_instr (opcode_for_primitive k) 0) sp (moved s (base @ ms @ tmp @ vs) p' (wd s))
        = (case number_arith (fresh_id env) op a b (wd s) of (Inl e, x) \<Rightarrow> Some (Inl e, moved s (base @ ms @ tmp) p' x)
           | (Inr v, x) \<Rightarrow> Some (Inr (), moved s (base @ ms @ tmp @ [v]) p' x))"
      if "\<not> is_tape_ref a" "\<not> is_tape_ref b" "\<not> quotient_undefined op (number_of (wd s) a) (number_of (wd s) b)" "(k, op) \<in> {(PAdd, Add_arith), (PSub, Sub_arith), (PMul, Mul_arith), (PDiv, Div_arith)}" for op sp p'
      using that two
      by (auto simp: exec_instr_def mk_instr_def opcode_for_primitive_def do_binary_arithmetic_def butlast_append bn
          split: prod.splits sum.splits)
    have arith: ?thesis if "arith_val (fresh_id env) op a b w = Some (q, w')"
        "(k, op) \<in> {(PAdd, Add_arith), (PSub, Sub_arith), (PMul, Mul_arith), (PDiv, Div_arith)}" for op
    proof -
      have nt: "\<not> is_tape_ref a" "\<not> is_tape_ref b" "\<not> quotient_undefined op (number_of (wd s) a) (number_of (wd s) b)"
        "number_arith (fresh_id env) op a b w = (q, w')"
        using that(1) by (auto simp: arith_val_def wrel_number [OF w] split: if_splits)
      have "same_result R (number_arith (fresh_id env) op a b (wd s)) (q, w')" using wrel_arith [OF w, of "fresh_id env" op a b] nt(4) by simp
      then show ?thesis using ar [OF nt(1-3) that(2)] by (intro pr) simp_all
    qed
    show ?thesis
    proof (cases k)
      case PCons
      then have "new_object (fresh_id env) (Plain (Cons_obj a b)) w = (q, w')" using assms(6) two by (simp add: primitive_op_def)
      then have "same_result R (new_object (fresh_id env) (Plain (Cons_obj a b)) (wd s)) (q, w')"
        using wrel_new_object [OF w, of "Plain (Cons_obj a b)" "Plain (Cons_obj a b)" "fresh_id env"] by (simp add: rel_vobj_simps)
      then show ?thesis using PCons two
        by (intro pr) (auto simp: exec_instr_def mk_instr_def opcode_for_primitive_def op_cons_def new_pair_def butlast_append bn
            split: prod.splits sum.splits)
    next
      case PEq
      then have "q = Inr (if values_eqv w a b then True_val else False_val)" "w' = w"
        using assms(6) two by (auto simp: primitive_op_def)
      then have sr: "same_result R (Inr (if values_eqv (wd s) a b then True_val else False_val), wd s) (q, w')"
        using w wrel_eqv [OF w] by simp
      show ?thesis using PEq two
        by (intro pr [OF sr]) (auto simp: exec_instr_def mk_instr_def opcode_for_primitive_def op_eq_def butlast_append)
    qed (use assms(6) two arith in \<open>auto simp: primitive_op_def\<close>)
  qed
qed

end
