(* ===== verification/Simulation.thy ===== *)
theory Simulation
  imports Instructions
begin

text \<open>
  The code of a core node simulates its evaluation: by induction on the fuel of the evaluator, every
  outcome of a node is reached by the machine running the code that the emitter made of it.
\<close>

section \<open>The induction hypothesis\<close>

text \<open>The emitter's state before a node, and the frame in tail position.\<close>

definition prepared :: "emit_env \<Rightarrow> intern_table \<Rightarrow> nat \<Rightarrow> lam option \<Rightarrow> emit_state \<Rightarrow> bool" where
  "prepared E T M cur st \<longleftrightarrow> cache_ok st \<and> cur_ok E M cur st \<and> str_to_id T \<subseteq>\<^sub>m str_to_id (es_interns st)"

definition tail_ok :: "(nat \<Rightarrow> lam \<Rightarrow> bool) \<Rightarrow> lam option \<Rightarrow> nat \<Rightarrow> nat \<Rightarrow> vm \<Rightarrow> bool" where
  "tail_ok R cur f len s \<longleftrightarrow> frames s \<noteq> [] \<and> fr_kind (last (frames s)) = Normal_frame
     \<and> (\<exists>l b selfs. cur = Some (Lam l b selfs) \<and> R f (Lam l b selfs) \<and> unat (ar_required (lam_arity l)) \<le> len)"

definition sim :: "emit_env \<Rightarrow> vm_env \<Rightarrow> intern_table \<Rightarrow> intern_table \<Rightarrow> nat \<Rightarrow> nat \<Rightarrow> bool" where
  "sim E env T tb M n \<longleftrightarrow> (\<forall>e st st' selfs cl cur f base ms tmp s ls w r ls' w' t.
     eval (fresh_id env) tb n cl cur selfs e ls w = Some (r, ls', w') \<longrightarrow> emit_node E e st = Some st'
     \<longrightarrow> core_node E T M t e \<longrightarrow> selfs = [] \<or> is_lambda e \<longrightarrow> pending_self st = selfs
     \<longrightarrow> prepared E T M cur st \<longrightarrow> fits env f tb st st'
     \<longrightarrow> frame_ok (compiled E env T tb M) f cl base ms tmp (code_size st) s ls w
     \<longrightarrow> length (base @ ms @ tmp) + Suc n * M < 2 ^ 32
     \<longrightarrow> (t \<longrightarrow> tail_ok (compiled E env T tb M) cur f (length ms) s)
     \<longrightarrow> node_ok env (compiled E env T tb M) t base tmp s (code_size st') r ls' w')"

lemma simD:
  assumes "sim E env T tb M n" "eval (fresh_id env) tb n cl cur selfs e ls w = Some (r, ls', w')" "emit_node E e st = Some st'"
    "core_node E T M t e" "selfs = [] \<or> is_lambda e" "pending_self st = selfs" "prepared E T M cur st" "fits env f tb st st'"
    "frame_ok (compiled E env T tb M) f cl base ms tmp (code_size st) s ls w"
    "length (base @ ms @ tmp) + Suc n * M < 2 ^ 32" "t \<Longrightarrow> tail_ok (compiled E env T tb M) cur f (length ms) s"
  shows "node_ok env (compiled E env T tb M) t base tmp s (code_size st') r ls' w'"
  using assms unfolding sim_def by blast

lemma sim_value:
  assumes "sim E env T tb M n" "eval (fresh_id env) tb n cl cur selfs e ls w = Some (r, ls', w')" "emit_node E e st = Some st'"
    "core_node E T M False e" "selfs = [] \<or> is_lambda e" "pending_self st = selfs" "prepared E T M cur st" "fits env f tb st st'"
    "frame_ok (compiled E env T tb M) f cl base ms tmp (code_size st) s ls w"
    "length (base @ ms @ tmp) + Suc n * M < 2 ^ 32"
  shows "outcome_ok env (compiled E env T tb M) base tmp s (code_size st') r ls' w'"
  using simD [OF assms] by (simp add: node_ok_def)

lemma prepared_tidy: "prepared E T M cur a \<Longrightarrow> tidy a b \<Longrightarrow> prepared E T M cur b"
  using cache_ok_tidy cur_ok_appends by (fastforce simp: prepared_def tidy_def appends_def intro: map_le_trans)

lemma prepared_neat: "prepared E T M cur a \<Longrightarrow> neat a b \<Longrightarrow> nconsts b \<le> 65536 \<Longrightarrow> prepared E T M cur b"
  using cur_ok_appends by (fastforce simp: prepared_def neat_def appends_def intro: map_le_trans)

lemma prepared_same:
  assumes "active_lambdas b = active_lambdas a" "string_cache b = string_cache a" "es_interns b = es_interns a"
    "constants (es_func b) = constants (es_func a)"
  shows "prepared E T M cur b = prepared E T M cur a"
  using assms unfolding prepared_def cache_ok_def cur_ok_def by (simp cong: option.case_cong lam.case_cong)

lemma prepared_patch [simp]: "prepared E T M cur (patch_arg i x st) = prepared E T M cur st"
  by (rule prepared_same) (simp_all add: patch_arg_def)

lemma prepared_instr [simp]: "prepared E T M cur (emit_instr op x sp st) = prepared E T M cur st"
  by (rule prepared_same) (simp_all add: emit_instr_def)

lemma prepared_announce [simp]: "prepared E T M cur (announce_self a v st) = prepared E T M cur st"
  by (rule prepared_same) (auto simp: announce_self_def split: node.splits address.splits)

lemma next_node:
  assumes "emit_node E e st = Some st1" "core_node E T M t e" "pending_self st = [] \<or> is_lambda e"
    and "prepared E T M cur st" "fits env f tb st st'" "appends st1 st'" "small_table env"
  shows "fits env f tb st st1" "fits env f tb st1 st'" "prepared E T M cur st1" "pending_self st1 = []" "appends st st1"
proof -
  have n: "neat st st1" by (rule neat_emit(1) [OF assms(1,2,3)])
  then show g: "appends st st1" and "pending_self st1 = []" by (auto simp: neat_def)
  show f: "fits env f tb st st1" "fits env f tb st1 st'" using fits_split [OF assms(5) g assms(6)] by auto
  show "prepared E T M cur st1" by (rule prepared_neat [OF assms(4) n fits_nconsts [OF f(1) assms(7)]])
qed

section \<open>The evaluator keeps the number of local variables\<close>

lemma finish_length: "finish q ls = Some (r, ls', w') \<Longrightarrow> ls' = ls"
  by (auto simp: finish_def split: prod.splits sum.splits)

lemma andThen_cases:
  assumes "andThen m g = Some (r, ls', w')"
  obtains v ls1 w1 where "m = Some (Val v, ls1, w1)" "g v ls1 w1 = Some (r, ls', w')"
    | "m = Some (r, ls', w')" "\<And>v. r \<noteq> Val v"
  using assms by (auto simp: andThen_def split: option.splits outcome.splits)

lemma with_args_cases:
  assumes "with_args m g = Some (r, ls', w')"
  obtains vs ls1 w1 where "m = Some (Inr vs, ls1, w1)" "g vs ls1 w1 = Some (r, ls', w')"
    | "m = Some (Inl r, ls', w')"
  using assms by (auto simp: with_args_def split: option.splits sum.splits)

definition keeps_length :: "evaluator \<Rightarrow> bool" where
  "keeps_length ev \<longleftrightarrow> (\<forall>cl cur selfs e ls w r ls' w'. ev cl cur selfs e ls w = Some (r, ls', w') \<longrightarrow> length ls' = length ls)"

lemma keeps_lengthD: "keeps_length ev \<Longrightarrow> ev cl cur selfs e ls w = Some (r, ls', w') \<Longrightarrow> length ls' = length ls"
  unfolding keeps_length_def by blast

lemma eval_args_length:
  "keeps_length ev \<Longrightarrow> eval_args ev cl cur es ls w = Some (q, ls', w') \<Longrightarrow>
     length ls' = length ls \<and> (\<forall>vs. q = Inr vs \<longrightarrow> length vs = length es)"
proof (induction es arbitrary: ls w q)
  case (Cons e es)
  obtain r ls1 w1 where e: "ev cl cur [] e ls w = Some (r, ls1, w1)" using Cons.prems(2) by (auto split: option.splits)
  have l: "length ls1 = length ls" by (rule keeps_lengthD [OF Cons.prems(1) e])
  show ?case
  proof (cases r)
    case (Val v)
    then obtain q' where q': "eval_args ev cl cur es ls1 w1 = Some (q', ls', w')" "q = map_sum id (Cons v) q'"
      using Cons.prems(2) e by (auto split: option.splits)
    then show ?thesis using Cons.IH [OF Cons.prems(1) q'(1)] l by (cases q') auto
  qed (use Cons.prems(2) e l in auto)
qed simp

lemma eval_body_length:
  "keeps_length ev \<Longrightarrow> eval_body ev cl cur inits i es ls w = Some (r, ls', w') \<Longrightarrow> length ls' = length ls"
proof (induction es arbitrary: i ls w)
  case (Cons e es)
  from Cons.prems(2) show ?case unfolding eval_body.simps
    by (cases rule: andThen_cases)
       (use Cons.IH Cons.prems(1) keeps_lengthD in \<open>fastforce split: option.splits if_splits\<close>)+
qed simp

lemma catch_raise_cases:
  assumes "catch_raise u m = Some (r, ls', w')"
  obtains q where "m = Some (q, ls', w')" "r = q \<and> (\<forall>t x. q = Raised t x \<longrightarrow> u \<noteq> Nil_val \<and> \<not> values_eqv w' u t)"
    | t x where "m = Some (Raised t x, ls', w')" "r = Val x" "u = Nil_val \<or> values_eqv w' u t"
  using assms by (cases m) (auto simp: catch_raise_def split: outcome.splits if_splits)

lemma apply_length: "apply_closure fr ev g vs ls w = Some (r, ls', w') \<Longrightarrow> ls' = ls"
  by (auto simp: apply_closure_def split: option.splits prod.splits lam.splits if_splits sum.splits)

lemma eval_length: "keeps_length (eval fr tb n)"
proof (induction n)
  case (Suc n)
  note k = keeps_lengthD [OF Suc]
  have "length ls' = length ls" if ev: "eval_step fr tb (eval fr tb n) cl cur selfs e ls w = Some (r, ls', w')"
    for cl cur selfs e ls w r ls' w'
  proof (cases e)
    case (If_n x a b c)
    from ev [unfolded eval_step_def If_n node.case] show ?thesis
      by (cases rule: andThen_cases) (auto dest!: k split: if_splits)
  next
    case (Begin_n x es)
    then show ?thesis using ev eval_body_length [OF Suc] by (simp add: eval_step_def)
  next
    case (Set_n x a v)
    from ev [unfolded eval_step_def Set_n node.case] show ?thesis
      by (cases rule: andThen_cases)
         (auto dest!: k simp: bind_eq_Some_conv write_address_def split: address.splits option.splits if_splits)
  next
    case (Call_n x f args)
    from ev [unfolded eval_step_def Call_n node.case] show ?thesis
    proof (cases rule: with_args_cases)
      case (1 vs ls1 w1)
      have l: "length ls1 = length ls" using eval_args_length [OF Suc 1(1)] by simp
      from 1(2) show ?thesis
        by (cases rule: andThen_cases) (use l in \<open>auto dest!: k apply_length split: if_splits\<close>)
    next
      case 2 then show ?thesis using eval_args_length [OF Suc] by simp
    qed
  next
    case (PrimitiveCall_n x pk args)
    from ev [unfolded eval_step_def PrimitiveCall_n node.case] show ?thesis
    proof (cases rule: with_args_cases)
      case (1 vs ls1 w1)
      then show ?thesis using eval_args_length [OF Suc 1(1)] by (auto simp: bind_eq_Some_conv dest!: finish_length)
    next
      case 2 then show ?thesis using eval_args_length [OF Suc] by simp
    qed
  next
    case (Raise_n x tg v)
    then obtain u where "andThen (eval fr tb n cl cur [] v ls w) (\<lambda>x ls w. Some (Raised u x, ls, w)) = Some (r, ls', w')"
      using ev by (auto simp: eval_step_def bind_eq_Some_conv)
    then show ?thesis by (cases rule: andThen_cases) (auto dest!: k)
  next
    case (Guard_n x tg b)
    then obtain u where "catch_raise u (eval fr tb n cl cur [] b ls w) = Some (r, ls', w')"
      using ev by (auto simp: eval_step_def bind_eq_Some_conv)
    then show ?thesis by (cases rule: catch_raise_cases) (auto dest!: k)
  next
    case (Lambda_n x l b)
    then obtain q where "(case q of Inl x \<Rightarrow> Some (Fault x, ls, w)
        | Inr us \<Rightarrow> finish (new_object fr (Closure (Lam l b selfs) us cl) w) ls) = Some (r, ls', w')"
      using ev by (auto simp: eval_step_def bind_eq_Some_conv)
    then show ?thesis by (cases q) (auto dest!: finish_length)
  qed (use ev in \<open>auto simp: eval_step_def bind_eq_Some_conv dest!: finish_length split: sum.splits\<close>)
  then show ?case by (simp add: keeps_length_def)
qed (simp add: keeps_length_def)

lemma outcome_frame:
  assumes "outcome_ok env R base tmp s p (Val v) ls' w'" "frame_ok R f cl base ms tmp p0 s ls w"
    and "length ls' = length ls" "length (base @ ms @ tmp) + 2 < 2 ^ 32"
  obtains ms1 x1 where "steps env s (moved s (base @ ms1 @ tmp @ [v]) p x1)" "length ms1 = length ms"
    "frame_ok R f cl base ms1 (tmp @ [v]) p (moved s (base @ ms1 @ tmp @ [v]) p x1) ls' w'" "agree ls' ms1" "wrel R x1 w'"
proof -
  obtain ms1 x1 where 1: "agree ls' ms1" "wrel R x1 w'" "steps env s (moved s (base @ ms1 @ tmp @ [v]) p x1)"
    using assms(1) by (auto simp: outcome_ok_def)
  have l: "length ms1 = length ms"
    using agree_length [OF 1(1)] agree_length [of ls ms] assms(2,3) by (simp add: frame_ok_def)
  show ?thesis
    by (rule that [OF 1(3) l _ 1(1,2)]) (use frame_ok_moved [OF assms(2) 1(1,2), of "tmp @ [v]"] assms(4) l in simp)
qed

section \<open>Arguments\<close>

lemma sim_args:
  assumes "sim E env T tb M n" "small_table env" "0 < M"
    and "eval_args (eval (fresh_id env) tb n) cl cur es ls w = Some (q, ls', w')" "emit_all E es st = Some st'"
    and "list_all (core_node E T M False) es" "pending_self st = []" "prepared E T M cur st" "fits env f tb st st'"
    and "frame_ok (compiled E env T tb M) f cl base ms tmp (code_size st) s ls w"
    and "length (base @ ms @ tmp) + length es + Suc n * M < 2 ^ 32"
  shows "values_ok env (compiled E env T tb M) base tmp s (code_size st') q ls' w'
    \<and> prepared E T M cur st' \<and> pending_self st' = [] \<and> appends st st'"
  using assms
proof (induction es arbitrary: st s ls w tmp ms q)
  case Nil
  then show ?case by (auto simp: frame_ok_def intro: values_nil)
next
  case (Cons e es)
  let ?R = "compiled E env T tb M" and ?ev = "eval (fresh_id env) tb n"
  obtain st1 where st1: "emit_node E e st = Some st1" "emit_all E es st1 = Some st'"
    using Cons.prems(5) by (auto simp: bind_eq_Some_conv)
  have ce: "core_node E T M False e" "list_all (core_node E T M False) es" using Cons.prems(6) by auto
  have g: "appends st1 st'" using appends_emit(2) st1(2) by blast
  note nx = next_node [OF st1(1) ce(1) _ Cons.prems(8,9) g Cons.prems(2), simplified Cons.prems(7), simplified]
  have rest: "neat st1 st'" using neat_emit(2) [OF st1(2)] ce(2) nx(4) by (auto simp: list_all_iff)
  have st': "prepared E T M cur st' \<and> pending_self st' = [] \<and> appends st st'"
    using prepared_neat [OF nx(3) rest fits_nconsts [OF Cons.prems(9,2)]] neat_pending [OF rest] appends_trans [OF nx(5) g] by blast
  obtain r ls1 w1 where e: "?ev cl cur [] e ls w = Some (r, ls1, w1)" using Cons.prems(4) by (auto split: option.splits)
  have room: "length (base @ ms @ tmp) + Suc n * M < 2 ^ 32" using Cons.prems(11) by simp
  have o: "outcome_ok env ?R base tmp s (code_size st1) r ls1 w1"
    by (rule sim_value [OF Cons.prems(1) e st1(1) ce(1) _ Cons.prems(7,8) nx(1) Cons.prems(10) room]) simp
  have l1: "length ls1 = length ls" by (rule keeps_lengthD [OF eval_length e])
  show ?case
  proof (cases "\<exists>v. r = Val v")
    case True
    then obtain v where v: "r = Val v" by blast
    obtain q' where q': "eval_args ?ev cl cur es ls1 w1 = Some (q', ls', w')" "q = map_sum id (Cons v) q'"
      using Cons.prems(4) e v by (auto split: option.splits)
    have "values_ok env ?R base (tmp @ [v]) (moved s (base @ ms1 @ tmp @ [v]) (code_size st1) x1) (code_size st') q' ls' w'"
      if a: "agree ls1 ms1" "wrel ?R x1 w1" for ms1 x1
    proof -
      have l: "length ms1 = length ms"
        using agree_length [OF a(1)] agree_length [of ls ms] Cons.prems(10) l1 by (simp add: frame_ok_def)
      have M: "1 \<le> Suc n * M" using Cons.prems(3) by simp
      have "frame_ok ?R f cl base ms1 (tmp @ [v]) (code_size st1) (moved s (base @ ms1 @ tmp @ [v]) (code_size st1) x1) ls1 w1"
        by (rule frame_ok_moved [OF Cons.prems(10) a, of "tmp @ [v]"]) (use Cons.prems(11) l M in \<open>simp only: length_append list.size\<close>)
      then show ?thesis
        using Cons.IH [OF Cons.prems(1-3) q'(1) st1(2) ce(2) nx(4,3,2), of ms1 "tmp @ [v]"] Cons.prems(11) l by simp
    qed
    then show ?thesis using o v q'(2) st' by (auto intro!: values_cons)
  next
    case False
    then have "q = Inl r" "ls' = ls1" "w' = w1" using Cons.prems(4) e by (auto split: outcome.splits)
    then show ?thesis using values_abrupt [OF o] False st' by auto
  qed
qed

lemma values_frame:
  assumes "values_ok env R base tmp s p (Inr vs) ls' w'" "frame_ok R f cl base ms tmp p0 s ls w"
    and "length ls' = length ls" "length (base @ ms @ tmp) + length vs + 1 < 2 ^ 32"
  obtains ms1 x1 where "steps env s (moved s (base @ ms1 @ tmp @ vs) p x1)" "length ms1 = length ms"
    "frame_ok R f cl base ms1 (tmp @ vs) p (moved s (base @ ms1 @ tmp @ vs) p x1) ls' w'" "agree ls' ms1" "wrel R x1 w'"
proof -
  obtain ms1 x1 where 1: "agree ls' ms1" "wrel R x1 w'" "steps env s (moved s (base @ ms1 @ tmp @ vs) p x1)"
    using assms(1) by (auto simp: values_ok_def)
  have l: "length ms1 = length ms"
    using agree_length [OF 1(1)] agree_length [of ls ms] assms(2,3) by (simp add: frame_ok_def)
  show ?thesis
    by (rule that [OF 1(3) l _ 1(1,2)]) (use frame_ok_moved [OF assms(2) 1(1,2), of "tmp @ vs"] assms(4) l in simp)
qed

end
