(* ===== verification/Calls.thy ===== *)
theory Calls
  imports Simulation
begin

text \<open>
  Calls: the frame that a call makes or reuses holds the variables that the evaluator binds, the
  code of the closure's body runs in it to its return, and a self call that the emitter turned into
  a jump does the same.
\<close>

section \<open>The state at the entry of a function\<close>

definition entered :: "vm \<Rightarrow> nat frame list \<Rightarrow> nat \<Rightarrow> lispval \<Rightarrow> lispval list \<Rightarrow> lispval list \<Rightarrow> nat world \<Rightarrow> vm" where
  "entered s fs f g base ms w = s\<lparr> frames := frames s @ fs, cur_func := Some f, cur_closure := g,
     fp := of_nat (length base), pc := 0, stack := base @ ms, wd := w \<rparr>"

lemma entered_simps [simp]:
  "stack (entered s fs f g base ms w) = base @ ms" "pc (entered s fs f g base ms w) = 0" "wd (entered s fs f g base ms w) = w"
  "frames (entered s fs f g base ms w) = frames s @ fs" "cur_func (entered s fs f g base ms w) = Some f"
  "fp (entered s fs f g base ms w) = of_nat (length base)" "cur_closure (entered s fs f g base ms w) = g"
  "sandbox_mode (entered s fs f g base ms w) = sandbox_mode s" "catches (entered s fs f g base ms w) = catches s"
  "entered (moved s k p w') fs f g base ms w = entered s fs f g base ms w"
  by (simp_all add: entered_def moved_def)

lemma raised_entered:
  "steps env s (entered s fs f g base ms w) \<Longrightarrow> raised_at env R keep (entered s fs f g base ms w) t x w' \<Longrightarrow>
   raised_at env R keep s t x w'"
proof -
  assume st: "steps env s (entered s fs f g base ms w)" and r: "raised_at env R keep (entered s fs f g base ms w) t x w'"
  let ?e = "entered s fs f g base ms w"
  obtain s1 extra gs mr w1 a b c d where 1: "steps env ?e s1" "running env s1" "wrel R w1 w'"
      "step env s1 = raise_to env (catches ?e) t x (?e\<lparr> stack := keep @ extra, frames := frames ?e @ gs,
         catches := catches ?e @ mr, wd := w1, cur_func := a, pc := b, fp := c, cur_closure := d \<rparr>)"
    using r unfolding raised_at_def by blast
  have "?e\<lparr> stack := keep @ extra, frames := frames ?e @ gs, catches := catches ?e @ mr, wd := w1, cur_func := a, pc := b,
      fp := c, cur_closure := d \<rparr> = s\<lparr> stack := keep @ extra, frames := frames s @ (fs @ gs), catches := catches s @ mr,
      wd := w1, cur_func := a, pc := b, fp := c, cur_closure := d \<rparr>"
    by (simp add: entered_def)
  then show ?thesis using 1 rtranclp_trans [OF st 1(1)] unfolding raised_at_def by (metis entered_simps(9))
qed

lemma return_entered:
  "steps env s (entered s [] f g base ms w) \<Longrightarrow> return_ok env R base (entered s [] f g base ms w) r w' \<Longrightarrow>
   return_ok env R base s r w'"
proof -
  assume st: "steps env s (entered s [] f g base ms w)" and r: "return_ok env R base (entered s [] f g base ms w) r w'"
  have "returned (entered s [] f g base ms w) base v w1 = returned s base v w1" for v w1
    by (simp add: returned_def entered_def Let_def)
  then show ?thesis using r st
    by (cases r) (auto simp: return_ok_def intro: raised_entered faulted_before rtranclp_trans)
qed

lemma call_entered:
  assumes "steps env s (entered s [Frame (Some f0) (of_nat p) (fp s) cl Normal_frame 0] f g base ms w)"
    and "return_ok env R base (entered s [Frame (Some f0) (of_nat p) (fp s) cl Normal_frame 0] f g base ms w) r w'"
    and "base = base0 @ ms0 @ tmp0" "agree ls ms0" "cur_func s = Some f0" "cur_closure s = cl"
  shows "outcome_ok env R base0 tmp0 s p r ls w'"
proof -
  let ?e = "entered s [Frame (Some f0) (of_nat p) (fp s) cl Normal_frame 0] f g base ms w"
  have "returned ?e base v w1 = moved s (base0 @ ms0 @ tmp0 @ [v]) p w1" for v w1
    using assms(3,5,6) by (simp add: returned_def entered_def moved_def Let_def)
  then show ?thesis using assms
    by (cases r) (auto simp: return_ok_def outcome_ok_def intro: raised_entered faulted_before rtranclp_trans)
qed

section \<open>Running a body\<close>

lemma handle_return_normal:
  assumes "frames s \<noteq> []" "fr_kind (last (frames s)) = Normal_frame" "stack s = base @ k" "unat (fp s) = length base" "0 < m"
  shows "handle_return env m v s = Some (Inr (), returned s base v (wd s))"
proof -
  obtain j where "m = Suc j" using assms(5) by (cases m) auto
  moreover have "resize (length base) 0 (base @ k) = base" by (simp add: resize_def)
  ultimately show ?thesis using assms
    by (simp add: handle_return.simps(2) Let_def returned_def restore_frame_def push_def)
qed

lemma run_body:
  assumes "sim E env T tb M n" "small_table env" "compiled E env T tb M f (Lam l b selfs)"
    and "eval (fresh_id env) tb n g (Some (Lam l b selfs)) [] b ls w = Some (r, ls', w')"
    and "frame_ok (compiled E env T tb M) f g base ms [] 0 s ls w"
    and "frames s \<noteq> []" "fr_kind (last (frames s)) = Normal_frame" "unat (ar_required (lam_arity l)) \<le> length ms"
    and "length (base @ ms) + Suc n * M < 2 ^ 32"
  shows "return_ok env (compiled E env T tb M) base s r w'"
proof -
  let ?R = "compiled E env T tb M"
  obtain st st1 where c: "core_lambda E M l" "core_node E T M True b" "f < length (code_table env)"
      "emit_node E b st = Some st1" "code_size st = 0" "cache_ok st" "pending_self st = []"
      "active_lambdas st \<noteq> []" "last (active_lambdas st) = active_of E l selfs"
      "str_to_id T \<subseteq>\<^sub>m str_to_id (es_interns st)" "fits env f tb st st1"
      "code_size st1 < length (fn_code (func_of env f))" "opcode (fn_code (func_of env f) ! code_size st1) = Return_op"
    using assms(3) unfolding compiled_def by auto
  have p: "prepared E T M (Some (Lam l b selfs)) st" using c by (simp add: prepared_def cur_ok_def)
  have t: "tail_ok ?R (Some (Lam l b selfs)) f (length ms) s" using assms(3,6,7,8) by (auto simp: tail_ok_def)
  have "node_ok env ?R True base [] s (code_size st1) r ls' w'"
    by (rule simD [OF assms(1) assms(4) c(4) c(2) _ c(7) p c(11) _ _ t]) (use assms(5,9) c(5) in auto)
  then consider "return_ok env ?R base s r w'" | "outcome_ok env ?R base [] s (code_size st1) r ls' w'"
    by (auto simp: node_ok_def)
  then show ?thesis
  proof cases
    case 2
    show ?thesis
    proof (cases r)
      case (Val v)
      then obtain ms1 w1 where 1: "agree ls' ms1" "wrel ?R w1 w'" "steps env s (moved s (base @ ms1 @ [v]) (code_size st1) w1)"
        using 2 by (auto simp: outcome_ok_def)
      obtain a where a: "fn_code (func_of env f) ! code_size st1 = mk_instr Return_op a"
        using c(13) by (cases "fn_code (func_of env f) ! code_size st1") (auto simp: mk_instr_def)
      let ?s1 = "moved s (base @ ms1 @ [v]) (code_size st1) w1"
      have i: "in_frame f g base ms1 [v] (code_size st1) ?s1"
        using in_frame_moved [OF frame_ok_in [OF assms(5)], of ms1 "[v]"] by simp
      have fp: "unat (fp s) = length base" using assms(5) by (simp add: frame_ok_def in_frame_def)
      have fl: "0 < fuel env" using assms(2) by (simp add: small_table_def)
      have "one env ?s1 (returned s base v w1)"
        using one_instr [OF i assms(2) c(3) c(12) a, of "returned s base v w1"]
          handle_return_normal [of "moved s (base @ ms1) p w1" base ms1 "fuel env" env v for p] assms(6,7) fp fl
        by (simp add: exec_instr_def mk_instr_def op_return_def bind_run_def pop_run_def butlast_append returned_moved)
      then show ?thesis using 1 Val by (auto simp: return_ok_def intro: rtranclp.rtrancl_into_rtrancl)
    next
      case (Raised t x)
      then show ?thesis using 2 raised_at_keep by (auto simp: outcome_ok_def return_ok_def)
    next
      case (Fault e)
      then show ?thesis using 2 by (simp add: outcome_ok_def return_ok_def)
    qed
  qed
qed

section \<open>Binding the arguments\<close>

text \<open>The slots of a frame with \<open>n\<close> arguments, of a function whose frame has \<open>k\<close> slots.\<close>

lemma bind_slots:
  assumes "wrel R (wd s) w" "bind_params (fresh_id env) l vs w = Some (q, w')"
    and "stack s = base @ vs @ fill" "unat (fp s) = length base" "length fill = unat (lam_stack_size l) - length vs"
    and "has_rest (func_of env f) = ar_rest (lam_arity l)" "fn_arity (func_of env f) = ucast (ar_required (lam_arity l))"
    and "accepts_args l (length vs)" "length vs < 2 ^ 32"
  defines "act \<equiv> (if has_rest (func_of env f) then pack_rest_args env (of_nat (length vs)) (fn_arity (func_of env f)) s else Some (Inr (), s))"
  shows "case q of
      Inl e \<Rightarrow> \<exists>s2. act = Some (Inl e, s2) \<and> wrel R (wd s2) w'
    | Inr ls \<Rightarrow> \<exists>ms w1. agree ls ms \<and> wrel R w1 w' \<and> length ms = max (unat (lam_stack_size l)) (length vs)
        \<and> unat (ar_required (lam_arity l)) \<le> length ms \<and> act = Some (Inr (), s\<lparr> stack := base @ ms, wd := w1 \<rparr>)"
proof -
  let ?r = "unat (ar_required (lam_arity l))"
  have ag: "agree (frame_slots l vs) (vs @ fill)"
    using assms(5) by (auto simp: agree_def frame_slots_def list_all2_conv_all_nth nth_append)
  have len: "length (vs @ fill) = max (unat (lam_stack_size l)) (length vs)" "length (frame_slots l vs) = max (unat (lam_stack_size l)) (length vs)"
    using assms(5) by (auto simp: frame_slots_def)
  have r: "?r \<le> length vs" using assms(8) by (auto simp: accepts_args_def split: if_splits)
  have un: "unat (of_nat (length vs) :: u32) = length vs" using assms(9) by (rule unat_of_small)
  show ?thesis
  proof (cases "ar_rest (lam_arity l)")
    case False
    then have "q = Inr (frame_slots l vs)" "w' = w" using assms(2) by (auto simp: bind_params_def Let_def)
    then show ?thesis using False assms(1,3,6) ag len r
      by (auto simp: act_def intro!: exI [of _ "vs @ fill"] exI [of _ "wd s"])
  next
    case True
    obtain x where x: "list_payload (fresh_id env) (drop ?r vs) w = (x, w')" "?r < length (frame_slots l vs)"
        "q = map_sum id (\<lambda>y. (frame_slots l vs)[?r := Some y]) x"
      using assms(2) True by (auto simp: bind_params_def Let_def not_le split: if_splits prod.splits sum.splits)
    have "same_result R (list_payload (fresh_id env) (drop ?r vs) (wd s)) (x, w')"
      using wrel_list [OF assms(1), of "fresh_id env" "drop ?r vs"] x(1) by simp
    then obtain w1 where w1: "list_payload (fresh_id env) (drop ?r vs) (wd s) = (x, w1)" "wrel R w1 w'" by (rule same_resultE)
    have tk: "take (length vs - ?r) (drop (length base + ?r) (stack s)) = drop ?r vs" using assms(3) r by simp
    have bd: "\<not> length base + max (length vs) (?r + 1) > length (stack s)" using assms(3) x(2) len r by simp
    have act: "act = (case x of Inl e \<Rightarrow> Some (Inl e, s\<lparr> wd := w1 \<rparr>)
        | Inr y \<Rightarrow> Some (Inr (), s\<lparr> wd := w1, stack := (stack s)[length base + ?r := y] \<rparr>))"
      using assms(4,6,7) True un tk bd w1(1) by (simp add: act_def pack_rest_args_def Let_def)
    show ?thesis
    proof (cases x)
      case (Inl e) then show ?thesis using act w1(2) x(3) by auto
    next
      case (Inr y)
      have "(stack s)[length base + ?r := y] = base @ (vs @ fill)[?r := y]" using assms(3) by (simp add: list_update_append)
      then have "act = Some (Inr (), s\<lparr> stack := base @ (vs @ fill)[?r := y], wd := w1 \<rparr>)" using act Inr by simp
      then show ?thesis using Inr w1(2) x(3) agree_update [OF ag, of ?r y] len r
        by (auto intro!: exI [of _ "(vs @ fill)[?r := y]"] exI [of _ w1])
    qed
  qed
qed

lemma arity_matches:
  "fn_arity g = ucast (ar_required (lam_arity l)) \<Longrightarrow> has_rest g = ar_rest (lam_arity l) \<Longrightarrow> accepts_args l m \<Longrightarrow> m < 2 ^ 32 \<Longrightarrow>
   arity_ok (has_rest g) (fn_arity g) (of_nat m)"
  by (auto simp: arity_ok_def accepts_args_def word_le_nat_alt word_unat_eq_iff unat_of_small)

lemma compiled_shape:
  "compiled E env T tb M f (Lam l b selfs) \<Longrightarrow> core_lambda E M l \<and> f < length (code_table env)
     \<and> fn_arity (func_of env f) = ucast (ar_required (lam_arity l)) \<and> has_rest (func_of env f) = ar_rest (lam_arity l)
     \<and> stack_size (func_of env f) = lam_stack_size l"
  by (simp add: compiled_def)

lemma needed_nat:
  assumes "compiled E env T tb M f (Lam l b selfs)" "n < 2 ^ 32"
  shows "unat (needed_slots env f (of_nat n)) = max (unat (lam_stack_size l)) n"
proof -
  have "unat (max a c) = max (unat a) (unat c)" for a c :: u32 by (simp add: max_def word_le_nat_alt)
  then show ?thesis using compiled_shape [OF assms(1)] assms(2) by (simp add: needed_slots_def unat_of_small)
qed

text \<open>A new frame.\<close>

lemma setup_frame_entered:
  assumes "stack s = base @ vs" "compiled E env T tb M f (Lam l b selfs)" "length vs < 2 ^ 32"
    and "length base + max (unat (lam_stack_size l)) (length vs) < 2 ^ 32"
  shows "setup_frame env f g (of_nat (length vs)) Normal_frame 0 s
    = entered s [Frame (cur_func s) (pc s) (fp s) (cur_closure s) Normal_frame 0] f g base
        (vs @ replicate (unat (lam_stack_size l) - length vs) Nil_val) (wd s)"
proof -
  have fp: "(of_nat (length (stack s)) - of_nat (length vs) :: u32) = of_nat (length base)" using assms(1) by simp
  have nd: "needed_slots env f (of_nat (length vs)) = of_nat (max (unat (lam_stack_size l)) (length vs))"
    using needed_nat [OF assms(2,3)] by (metis of_nat_unat ucast_id)
  have "unat (of_nat (length base) + needed_slots env f (of_nat (length vs)) :: u32) = length base + max (unat (lam_stack_size l)) (length vs)"
    unfolding nd of_nat_add [symmetric] by (rule unat_of_small [OF assms(4)])
  moreover have "resize (length base + max (unat (lam_stack_size l)) (length vs)) Nil_val (base @ vs)
      = base @ vs @ replicate (unat (lam_stack_size l) - length vs) Nil_val"
    by (auto simp: resize_def max_def)
  ultimately show ?thesis using assms(1) fp by (simp add: setup_frame_def Let_def entered_def)
qed

text \<open>The frame of the caller: the arguments move down to its first slots.\<close>

lemma fold_move:
  "b \<le> a \<Longrightarrow> a + n \<le> length st \<Longrightarrow>
   fold (\<lambda>i st. st[b + i := st ! (a + i)]) [0..<n] st = take b st @ take n (drop a st) @ drop (b + n) st"
proof (induction n)
  case (Suc n)
  let ?m = "take b st @ take n (drop a st) @ drop (b + n) st"
  have f: "fold (\<lambda>i st. st[b + i := st ! (a + i)]) [0..<n] st = ?m" using Suc by simp
  have l: "length (take b st) = b" "length (take n (drop a st)) = n" "b + n < length st" using Suc.prems by auto
  have "\<not> a + n - b < n" using Suc.prems by simp
  then have "?m ! (a + n) = st ! (a + n)" using l Suc.prems by (simp add: nth_append add.commute)
  then have "fold (\<lambda>i st. st[b + i := st ! (a + i)]) [0..<Suc n] st = ?m[b + n := st ! (a + n)]" using f by simp
  also have "\<dots> = take b st @ take n (drop a st) @ (drop (b + n) st)[0 := st ! (a + n)]"
    using l by (simp add: list_update_append)
  also have "(drop (b + n) st)[0 := st ! (a + n)] = st ! (a + n) # drop (b + Suc n) st"
    using l(3) by (metis Cons_nth_drop_Suc add_Suc_right list_update_code(2))
  also have "take n (drop a st) @ st ! (a + n) # drop (b + Suc n) st = take (Suc n) (drop a st) @ drop (b + Suc n) st"
    using Suc.prems by (simp add: take_Suc_conv_app_nth)
  finally show ?case .
qed simp

lemma reuse_entered:
  assumes "stack s = base @ old @ vs" "compiled E env T tb M f (Lam l b selfs)" "length vs < 2 ^ 32" "unat (fp s) = length base"
    and "length base + max (unat (lam_stack_size l)) (length vs) < 2 ^ 32"
  obtains fill where "length fill = unat (lam_stack_size l) - length vs"
    "reuse_frame env f g (of_nat (length vs)) s =
      (let s1 = entered s [] f g base (vs @ fill) (wd s) in
       if has_rest (func_of env f) then pack_rest_args env (of_nat (length vs)) (fn_arity (func_of env f)) s1 else Some (Inr (), s1))"
proof -
  let ?n = "length vs" and ?k = "max (unat (lam_stack_size l)) (length vs)"
  have un: "unat (of_nat ?n :: u32) = ?n" using assms(3) by (rule unat_of_small)
  have fp: "fp s = of_nat (length base)" using assms(4) by (metis of_nat_unat ucast_id)
  have nd: "needed_slots env f (of_nat ?n) = of_nat ?k" using needed_nat [OF assms(2,3)] by (metis of_nat_unat ucast_id)
  have nk: "unat (fp s + needed_slots env f (of_nat ?n)) = length base + ?k"
    unfolding fp nd of_nat_add [symmetric] by (rule unat_of_small [OF assms(5)])
  have mv: "fold (\<lambda>i st. st[length base + i := st ! (length base + length old + i)]) [0..<?n] (stack s)
      = base @ vs @ drop ?n (old @ vs)"
    using fold_move [of "length base" "length base + length old" ?n "stack s"] assms(1) by (simp add: add.commute)
  define fill where "fill = take (?k - ?n) (drop ?n (old @ vs)) @ replicate (?k - ?n - length (drop ?n (old @ vs))) Nil_val"
  have rs: "resize (length base + ?k) Nil_val (base @ vs @ drop ?n (old @ vs)) = base @ vs @ fill"
    by (simp add: resize_def fill_def)
  have "length (take m xs @ replicate (m - length xs) y) = m" for m y and xs :: "lispval list" by simp
  then have "length fill = ?k - ?n" by (simp only: fill_def)
  then have lf: "length fill = unat (lam_stack_size l) - ?n" by (simp add: max_def split: if_splits)
  have en: "entered s [] f g base (vs @ fill) (wd s) = s\<lparr> cur_func := Some f, cur_closure := g, pc := 0, stack := base @ vs @ fill \<rparr>"
    using fp by (cases s) (simp add: entered_def)
  show ?thesis
    by (rule that [OF lf])
       (use un mv rs nk assms(1,4) in \<open>simp add: reuse_frame_def Let_def en\<close>)
qed

section \<open>Calls of closures\<close>

lemma dispatch_closure:
  assumes "object_at (wd s) g = Some (Closure f us p)" "arity_ok (has_rest (func_of env f)) (fn_arity (func_of env f)) argc" "0 < m"
  shows "dispatch_callee env m g argc is_tail sp s = Some (Inr (if is_tail then TailReuse f g else SetupFrame f g), s)"
proof -
  have b: "is_boxed g" using assms(1) by (auto simp: object_at_def is_heap_ref_def split: if_splits)
  obtain k where "m = Suc k" using assms(3) by (cases m) auto
  then show ?thesis using b assms by (simp add: dispatch_callee.simps(2) Let_def ret_def)
qed

lemma apply_closureD:
  assumes "apply_closure fr ev g vs ls w = Some (r, ls', w')"
  obtains l b selfs us p q w1 where "as_closure w g = Some (Lam l b selfs, us, p)" "accepts_args l (length vs)"
    "bind_params fr l vs w = Some (q, w1)" "ls' = ls"
    "case q of Inl e \<Rightarrow> r = Fault e \<and> w' = w1 | Inr ls1 \<Rightarrow> \<exists>ls2. ev g (Some (Lam l b selfs)) [] b ls1 w1 = Some (r, ls2, w')"
  using assms by (auto simp: apply_closure_def split: option.splits prod.splits lam.splits if_splits sum.splits)

text \<open>What is common to calls and tail calls: the body runs in the frame that was made.\<close>

lemma run_entered:
  assumes "sim E env T tb M n" "small_table env" "compiled E env T tb M f (Lam l b selfs)"
    and "eval (fresh_id env) tb n g (Some (Lam l b selfs)) [] b ls w = Some (r, ls', w')"
    and "agree ls ms" "wrel (compiled E env T tb M) x w" "\<not> sandbox_mode s"
    and "frames s @ fs \<noteq> []" "fr_kind (last (frames s @ fs)) = Normal_frame" "unat (ar_required (lam_arity l)) \<le> length ms"
    and "length (base @ ms) + Suc n * M < 2 ^ 32" "0 < M"
  shows "return_ok env (compiled E env T tb M) base (entered s fs f g base ms x) r w'"
proof -
  have M: "M \<le> Suc n * M" by simp
  have b: "length base < 2 ^ 32" using assms(11) by simp
  have k: "frame_ok (compiled E env T tb M) f g base ms [] 0 (entered s fs f g base ms x) ls w"
    unfolding frame_ok_def in_frame_def using assms(5-7,11,12) M unat_of_small [OF b] by simp
  show ?thesis
    by (rule run_body [OF assms(1-4) k]) (use assms(8-11) in simp_all)
qed

lemma sim_call:
  assumes "sim E env T tb M n" "small_table env" "0 < M" "f < length (code_table env)"
    and "frame_ok (compiled E env T tb M) f cl base ms (tmp @ vs @ [g]) p s ls w"
    and "p < length (fn_code (func_of env f))" "fn_code (func_of env f) ! p = mk_instr Call_op (of_nat (length vs))"
    and "apply_closure (fresh_id env) (eval (fresh_id env) tb n) g vs ls w = Some (r, ls', w')"
    and "length (base @ ms @ tmp) + M + Suc n * M < 2 ^ 32" "length vs < M"
  shows "outcome_ok env (compiled E env T tb M) base tmp s (Suc p) r ls' w'"
proof -
  let ?R = "compiled E env T tb M" and ?base = "base @ ms @ tmp"
  let ?fs = "[Frame (Some f) (of_nat (Suc p)) (fp s) cl Normal_frame 0]"
  have w: "wrel ?R (wd s) w" and ag: "agree ls ms" and sb: "\<not> sandbox_mode s" and cf: "cur_func s = Some f" "cur_closure s = cl"
    using assms(5) by (auto simp: frame_ok_def in_frame_def)
  obtain l b selfs us pr q w1 where c: "as_closure w g = Some (Lam l b selfs, us, pr)" "accepts_args l (length vs)"
      "bind_params (fresh_id env) l vs w = Some (q, w1)" "ls' = ls"
      "case q of Inl e \<Rightarrow> r = Fault e \<and> w' = w1
         | Inr ls1 \<Rightarrow> \<exists>ls2. eval (fresh_id env) tb n g (Some (Lam l b selfs)) [] b ls1 w1 = Some (r, ls2, w')"
    using apply_closureD [OF assms(8)] by blast
  obtain f' where o: "object_at (wd s) g = Some (Closure f' us pr)" and cm: "?R f' (Lam l b selfs)"
    using wrel_closure [OF w c(1)] by blast
  have cs: "core_lambda E M l" "fn_arity (func_of env f') = ucast (ar_required (lam_arity l))"
      "has_rest (func_of env f') = ar_rest (lam_arity l)"
    using compiled_shape [OF cm] by auto
  have vl: "length vs < 2 ^ 32" using assms(9,10) by simp
  have ss: "max (unat (lam_stack_size l)) (length vs) < M" using cs(1) assms(10) by (simp add: core_lambda_def)
  have ar: "arity_ok (has_rest (func_of env f')) (fn_arity (func_of env f')) (of_nat (length vs))"
    by (rule arity_matches [OF cs(2,3) c(2) vl])
  have fl: "0 < fuel env" using assms(2) by (simp add: small_table_def)
  let ?s0 = "moved s (?base @ vs) (Suc p) (wd s)"
  let ?fill = "replicate (unat (lam_stack_size l) - length vs) Nil_val"
  let ?s1 = "entered ?s0 ?fs f' g ?base (vs @ ?fill) (wd s)"
  have rm: "length ?base + max (unat (lam_stack_size l)) (length vs) < 2 ^ 32" using ss assms(9) by linarith
  have ent: "setup_frame env f' g (of_nat (length vs)) Normal_frame 0 ?s0 = ?s1"
    using setup_frame_entered [of ?s0 ?base vs E env T tb M f' l b selfs g, OF _ cm vl rm] cf by simp
  have ub: "unat (of_nat (length ?base) :: u32) = length ?base" using assms(9) by (intro unat_of_small) simp
  note bs = bind_slots [of ?R ?s1 w env l vs q w1 ?base ?fill f', OF _ c(3) _ _ _ cs(3,2) c(2) vl, simplified]
  let ?act = "if has_rest (func_of env f') then pack_rest_args env (of_nat (length vs)) (fn_arity (func_of env f')) ?s1 else Some (Inr (), ?s1)"
  have ex: "exec_instr env (mk_instr Call_op (of_nat (length vs))) sp (moved s (base @ ms @ tmp @ vs @ [g]) (Suc p) (wd s)) = ?act" for sp
    using dispatch_closure [of ?s0 g f' us pr env "of_nat (length vs)" "fuel env" False sp] o ar fl ent
    by (simp add: exec_instr_def mk_instr_def op_call_def bind_run_def pop_run_def butlast_append Let_def enter_closure_def modify_def ret_def)
  note inf = frame_ok_in [OF assms(5)]
  show ?thesis
  proof (cases q)
    case (Inl e)
    then obtain s2 where "?act = Some (Inl e, s2)" "wrel ?R (wd s2) w1" using bs w ub cs(3) by auto
    then have "faulted env ?R s e w1" using fault_instr [OF assms(5,2,4,6,7)] ex by simp
    then show ?thesis using c(5) Inl by (simp add: outcome_ok_def)
  next
    case (Inr ls1)
    then obtain ms1 x1 where m: "agree ls1 ms1" "wrel ?R x1 w1" "length ms1 = max (unat (lam_stack_size l)) (length vs)"
        "unat (ar_required (lam_arity l)) \<le> length ms1" "?act = Some (Inr (), ?s1\<lparr> stack := ?base @ ms1, wd := x1 \<rparr>)"
      using bs w ub cs(3) by auto
    have "?s1\<lparr> stack := ?base @ ms1, wd := x1 \<rparr> = entered s ?fs f' g ?base ms1 x1" by (simp add: entered_def moved_def)
    then have st: "steps env s (entered s ?fs f' g ?base ms1 x1)"
      using one_instr [OF inf assms(2,4,6,7), of "entered s ?fs f' g ?base ms1 x1"] ex m(5) by auto
    obtain ls2 where ev: "eval (fresh_id env) tb n g (Some (Lam l b selfs)) [] b ls1 w1 = Some (r, ls2, w')" using c(5) Inr by auto
    have room: "length (?base @ ms1) + Suc n * M < 2 ^ 32" using m(3) ss assms(9) unfolding length_append [of ?base] by linarith
    have "return_ok env ?R ?base (entered s ?fs f' g ?base ms1 x1) r w'"
      by (rule run_entered [OF assms(1,2) cm ev m(1,2) sb _ _ m(4) room assms(3)]) simp_all
    then show ?thesis unfolding c(4) using call_entered [OF st _ refl ag cf] by simp
  qed
qed

lemma sim_tail_call:
  assumes "sim E env T tb M n" "small_table env" "0 < M" "f < length (code_table env)"
    and "frame_ok (compiled E env T tb M) f cl base ms (tmp @ vs @ [g]) p s ls w"
    and "p < length (fn_code (func_of env f))" "fn_code (func_of env f) ! p = mk_instr TailCall_op (of_nat (length vs))"
    and "apply_closure (fresh_id env) (eval (fresh_id env) tb n) g vs ls w = Some (r, ls', w')"
    and "length (base @ ms @ tmp) + M + Suc n * M < 2 ^ 32" "length vs < M"
    and "frames s \<noteq> []" "fr_kind (last (frames s)) = Normal_frame"
  shows "return_ok env (compiled E env T tb M) base s r w'"
proof -
  let ?R = "compiled E env T tb M"
  have w: "wrel ?R (wd s) w" and sb: "\<not> sandbox_mode s" and fp: "unat (fp s) = length base"
    using assms(5) by (auto simp: frame_ok_def in_frame_def)
  obtain l b selfs us pr q w1 where c: "as_closure w g = Some (Lam l b selfs, us, pr)" "accepts_args l (length vs)"
      "bind_params (fresh_id env) l vs w = Some (q, w1)" "ls' = ls"
      "case q of Inl e \<Rightarrow> r = Fault e \<and> w' = w1
         | Inr ls1 \<Rightarrow> \<exists>ls2. eval (fresh_id env) tb n g (Some (Lam l b selfs)) [] b ls1 w1 = Some (r, ls2, w')"
    using apply_closureD [OF assms(8)] by blast
  obtain f' where o: "object_at (wd s) g = Some (Closure f' us pr)" and cm: "?R f' (Lam l b selfs)"
    using wrel_closure [OF w c(1)] by blast
  have cs: "core_lambda E M l" "fn_arity (func_of env f') = ucast (ar_required (lam_arity l))"
      "has_rest (func_of env f') = ar_rest (lam_arity l)"
    using compiled_shape [OF cm] by auto
  have vl: "length vs < 2 ^ 32" using assms(9,10) by simp
  have ss: "max (unat (lam_stack_size l)) (length vs) < M" using cs(1) assms(10) by (simp add: core_lambda_def)
  have ar: "arity_ok (has_rest (func_of env f')) (fn_arity (func_of env f')) (of_nat (length vs))"
    by (rule arity_matches [OF cs(2,3) c(2) vl])
  have fl: "0 < fuel env" using assms(2) by (simp add: small_table_def)
  let ?s0 = "moved s (base @ (ms @ tmp) @ vs) (Suc p) (wd s)"
  have "length base \<le> length (base @ ms @ tmp)" by simp
  then have rm: "length base + max (unat (lam_stack_size l)) (length vs) < 2 ^ 32" using ss assms(9) by linarith
  have s0: "stack ?s0 = base @ (ms @ tmp) @ vs" "unat (fp ?s0) = length base" using fp by simp_all
  obtain fill where fill: "length fill = unat (lam_stack_size l) - length vs"
      "reuse_frame env f' g (of_nat (length vs)) ?s0 = (let s1 = entered ?s0 [] f' g base (vs @ fill) (wd ?s0) in
         if has_rest (func_of env f') then pack_rest_args env (of_nat (length vs)) (fn_arity (func_of env f')) s1 else Some (Inr (), s1))"
    using reuse_entered [OF s0(1) cm vl s0(2) rm] by blast
  let ?s1 = "entered ?s0 [] f' g base (vs @ fill) (wd s)"
  have ub: "unat (of_nat (length base) :: u32) = length base" using assms(9) by (intro unat_of_small) simp
  note bs = bind_slots [of ?R ?s1 w env l vs q w1 base fill f', OF _ c(3) _ _ fill(1) cs(3,2) c(2) vl, simplified]
  let ?act = "if has_rest (func_of env f') then pack_rest_args env (of_nat (length vs)) (fn_arity (func_of env f')) ?s1 else Some (Inr (), ?s1)"
  have ex: "exec_instr env (mk_instr TailCall_op (of_nat (length vs))) sp (moved s (base @ ms @ tmp @ vs @ [g]) (Suc p) (wd s)) = ?act" for sp
    using dispatch_closure [of ?s0 g f' us pr env "of_nat (length vs)" "fuel env" True sp] o ar fl fill(2)
    by (simp add: exec_instr_def mk_instr_def op_tail_call_def bind_run_def pop_run_def butlast_append Let_def)
  note inf = frame_ok_in [OF assms(5)]
  show ?thesis
  proof (cases q)
    case (Inl e)
    then obtain s2 where "?act = Some (Inl e, s2)" "wrel ?R (wd s2) w1" using bs w ub cs(3) by auto
    then have "faulted env ?R s e w1" using fault_instr [OF assms(5,2,4,6,7)] ex by simp
    then show ?thesis using c(5) Inl by (simp add: return_ok_def)
  next
    case (Inr ls1)
    then obtain ms1 x1 where m: "agree ls1 ms1" "wrel ?R x1 w1" "length ms1 = max (unat (lam_stack_size l)) (length vs)"
        "unat (ar_required (lam_arity l)) \<le> length ms1" "?act = Some (Inr (), ?s1\<lparr> stack := base @ ms1, wd := x1 \<rparr>)"
      using bs w ub cs(3) by auto
    have "?s1\<lparr> stack := base @ ms1, wd := x1 \<rparr> = entered s [] f' g base ms1 x1" by (simp add: entered_def moved_def)
    then have st: "steps env s (entered s [] f' g base ms1 x1)"
      using one_instr [OF inf assms(2,4,6,7), of "entered s [] f' g base ms1 x1"] ex m(5) by auto
    obtain ls2 where ev: "eval (fresh_id env) tb n g (Some (Lam l b selfs)) [] b ls1 w1 = Some (r, ls2, w')" using c(5) Inr by auto
    have "length base \<le> length (base @ ms @ tmp)" by simp
    then have room: "length (base @ ms1) + Suc n * M < 2 ^ 32" using m(3) ss assms(9) unfolding length_append [of base ms1] by linarith
    have "return_ok env ?R base (entered s [] f' g base ms1 x1) r w'"
      by (rule run_entered [OF assms(1,2) cm ev m(1,2) sb _ _ m(4) room assms(3)]) (use assms(11,12) in simp_all)
    then show ?thesis by (rule return_entered [OF st])
  qed
qed


section \<open>Self calls\<close>

lemma sim_self_jump:
  assumes "sim E env T tb M n" "small_table env" "0 < M" "f < length (code_table env)"
    and "frame_ok (compiled E env T tb M) f cl base ms (tmp @ [v]) p s ls w"
    and "Suc p < length (fn_code (func_of env f))" "fn_code (func_of env f) ! p = mk_instr StoreLocal_op 0"
    and "fn_code (func_of env f) ! Suc p = mk_instr Jump_op (word_of_int (- int (Suc (Suc p))))"
    and "compiled E env T tb M f (Lam l b selfs)" "\<not> ar_rest (lam_arity l)" "unat (ar_required (lam_arity l)) = 1"
    and "1 \<le> length ms" "eval (fresh_id env) tb n cl (Some (Lam l b selfs)) [] b (frame_slots l [v]) w = Some (r, ls', w')"
    and "length (base @ ms @ tmp) + M + Suc n * M < 2 ^ 32" "frames s \<noteq> []" "fr_kind (last (frames s)) = Normal_frame" "1 < M"
  shows "return_ok env (compiled E env T tb M) base s r w'"
proof -
  let ?R = "compiled E env T tb M" and ?k = "max (unat (lam_stack_size l)) 1"
  have w: "wrel ?R (wd s) w" and sb: "\<not> sandbox_mode s" and fp: "unat (fp s) = length base" and cf: "cur_func s = Some f" "cur_closure s = cl"
    using assms(5) by (auto simp: frame_ok_def in_frame_def)
  have cs: "core_lambda E M l" "fn_arity (func_of env f) = ucast (ar_required (lam_arity l))" using compiled_shape [OF assms(9)] by auto
  have pl: "p < length (fn_code (func_of env f))" using assms(6) by simp
  have "length (fn_code (func_of env f)) < 65536" using assms(2,4) by (simp add: small_table_def func_of_def)
  then have p16: "Suc (Suc p) < 2 ^ 31" using assms(6) by simp
  have ms: "ms \<noteq> []" "0 < length ms" using assms(12) by auto
  let ?s1 = "moved s (base @ ms[0 := v] @ tmp) (Suc p) (wd s)"
  have 1: "one env s ?s1"
    using one_instr [OF frame_ok_in [OF assms(5)] assms(2,4) pl assms(7), of ?s1] fp ms
    by (auto simp: exec_instr_def mk_instr_def op_store_local_def butlast_append list_update_append)
  have i1: "in_frame f cl base (ms[0 := v]) tmp (Suc p) ?s1"
    using in_frame_moved [OF frame_ok_in [OF assms(5)], of "ms[0 := v]" tmp] by simp
  define ms1 where "ms1 = resize ?k Nil_val (ms[0 := v] @ tmp)"
  have l1: "length ms1 = ?k" by (simp add: ms1_def resize_def)
  have "ms1 ! 0 = v" using assms(12) by (cases ms) (auto simp: ms1_def resize_def nth_append)
  then have ag: "agree (frame_slots l [v]) ms1"
    using l1 by (auto simp: agree_def frame_slots_def list_all2_conv_all_nth nth_Cons split: nat.splits)
  have fp': "fp s = of_nat (length base)" using fp by (metis of_nat_unat ucast_id)
  have ar1: "fn_arity (func_of env f) = of_nat 1" using cs(2) assms(11) by (simp add: word_unat_eq_iff)
  have nd: "needed_slots env f (fn_arity (func_of env f)) = of_nat ?k"
    using needed_nat [OF assms(9), of 1] by (metis ar1 of_nat_unat ucast_id one_less_numeral_iff power_one_right numeral_less_iff one_less_power zero_less_numeral semiring_norm(76))
  have "length base \<le> length (base @ ms @ tmp)" "?k < M" using cs(1) assms(17) by (simp_all add: core_lambda_def)
  then have rm: "length base + ?k < 2 ^ 32" "length (base @ ms1) + Suc n * M < 2 ^ 32"
    using assms(14) l1 unfolding length_append [of base ms1] by linarith+
  have nk: "unat (fp s + needed_slots env f (fn_arity (func_of env f))) = length base + ?k"
    unfolding fp' nd of_nat_add [symmetric] by (rule unat_of_small [OF rm(1)])
  have si: "sint (word_of_int (- int (Suc (Suc p))) :: u32) = - int (Suc (Suc p))"
    using p16 by (simp only: signed_of_int) (simp add: signed_take_bit_int_eq_self)
  have up: "unat (of_nat (Suc (Suc p)) :: u32) = Suc (Suc p)" using p16 by (intro unat_of_small) simp
  let ?e = "entered s [] f cl base ms1 (wd s)"
  have rs: "resize (length base + ?k) Nil_val (base @ ms[0 := v] @ tmp) = base @ ms1"
    by (simp add: resize_def ms1_def)
  have "op_jump env (word_of_int (- int (Suc (Suc p)))) (moved s (base @ ms[0 := v] @ tmp) (Suc (Suc p)) (wd s)) = Some (Inr (), ?e)"
    using si up cf nk rs fp' by (cases s) (simp add: op_jump_def Let_def entered_def moved_def)
  then have 2: "one env ?s1 ?e"
    using one_instr [OF i1 assms(2,4,6,8), of ?e] by (simp add: exec_instr_def mk_instr_def)
  have st: "steps env s ?e" using 1 2 by (meson converse_rtranclp_into_rtranclp r_into_rtranclp)
  have "return_ok env ?R base ?e r w'"
    by (rule run_entered [OF assms(1,2,9,13) ag w sb _ _ _ rm(2) assms(3)]) (use assms(11,15,16) l1 in simp_all)
  then show ?thesis by (rule return_entered [OF st])
qed

end
