(* ===== verification/Compile.thy ===== *)
theory Compile
  imports Calls
begin

text \<open>
  The step of the simulation, one lemma per node: when the code of every node simulates its
  evaluation with fuel \<open>n\<close> (\<open>sim\<close>), the code of this one simulates it with fuel \<open>Suc n\<close>.
\<close>

section \<open>A node in its frame\<close>

definition at_node :: "emit_env \<Rightarrow> vm_env \<Rightarrow> intern_table \<Rightarrow> intern_table \<Rightarrow> nat \<Rightarrow> nat \<Rightarrow> lam option \<Rightarrow> bool \<Rightarrow>
    emit_state \<Rightarrow> emit_state \<Rightarrow> nat \<Rightarrow> lispval \<Rightarrow> lispval list \<Rightarrow> lispval list \<Rightarrow> lispval list \<Rightarrow> vm \<Rightarrow> slots \<Rightarrow> store \<Rightarrow> bool" where
  "at_node E env T tb M n cur t a b f cl base ms tmp s ls w \<longleftrightarrow>
     small_table env \<and> 4 \<le> M \<and> prepared E T M cur a \<and> fits env f tb a b
     \<and> frame_ok (compiled E env T tb M) f cl base ms tmp (code_size a) s ls w
     \<and> length (base @ ms @ tmp) + Suc n * M < 2 ^ 32
     \<and> (t \<longrightarrow> tail_ok (compiled E env T tb M) cur f (length ms) s)"

lemma at_nodeD:
  assumes "at_node E env T tb M n cur t a b f cl base ms tmp s ls w"
  shows "small_table env" "4 \<le> M" "prepared E T M cur a" "fits env f tb a b" "f < length (code_table env)"
    "frame_ok (compiled E env T tb M) f cl base ms tmp (code_size a) s ls w"
    "length (base @ ms @ tmp) + Suc n * M < 2 ^ 32" "t \<Longrightarrow> tail_ok (compiled E env T tb M) cur f (length ms) s"
    "agree ls ms" "wrel (compiled E env T tb M) (wd s) w"
  using assms by (auto simp: at_node_def fits_def frame_ok_def)

lemma sim_node:
  assumes "sim E env T tb M n" "at_node E env T tb M n cur t st st' f cl base ms tmp s ls w"
    and "eval (fresh_id env) tb n cl cur selfs e ls w = Some (r, ls', w')" "emit_node E e st = Some st'"
    and "core_node E T M t e" "selfs = [] \<or> is_lambda e" "pending_self st = selfs"
  shows "node_ok env (compiled E env T tb M) t base tmp s (code_size st') r ls' w'"
  using simD [OF assms(1,3-7)] assms(2) unfolding at_node_def by blast

lemma sim_outcome:
  assumes "sim E env T tb M n" "at_node E env T tb M n cur False st st' f cl base ms tmp s ls w"
    and "eval (fresh_id env) tb n cl cur selfs e ls w = Some (r, ls', w')" "emit_node E e st = Some st'"
    and "core_node E T M False e" "selfs = [] \<or> is_lambda e" "pending_self st = selfs"
  shows "outcome_ok env (compiled E env T tb M) base tmp s (code_size st') r ls' w'"
  using sim_node [OF assms] by (simp add: node_ok_def)

lemma tail_ok_moved [simp]: "tail_ok R cur f k (moved s j p w) = tail_ok R cur f k s"
  by (simp add: tail_ok_def)

text \<open>To another place of the same frame, with fewer than \<open>M\<close> more operands.\<close>

lemma at_node_move:
  assumes "at_node E env T tb M (Suc n) cur t a b f cl base ms tmp s ls w"
    and "fits env f tb a' b'" "prepared E T M cur a'" "agree ls1 ms1" "wrel (compiled E env T tb M) x1 w1"
    and "length ms1 = length ms" "length tmp' \<le> length tmp + M" "t' \<Longrightarrow> t"
  shows "at_node E env T tb M n cur t' a' b' f cl base ms1 tmp' (moved s (base @ ms1 @ tmp') (code_size a') x1) ls1 w1"
proof -
  note d = at_nodeD [OF assms(1)]
  have r: "length (base @ ms1 @ tmp') + Suc n * M < 2 ^ 32" using d(7) assms(6,7) by simp
  have M: "4 \<le> Suc n * M" using d(2) by simp
  have "length (base @ ms1 @ tmp') + 1 < 2 ^ 32" using r M by linarith
  then have "frame_ok (compiled E env T tb M) f cl base ms1 tmp' (code_size a') (moved s (base @ ms1 @ tmp') (code_size a') x1) ls1 w1"
    by (rule frame_ok_moved [OF d(6) assms(4,5)])
  then show ?thesis using d(1,2,8) assms(2,3,6,8) r by (simp add: at_node_def)
qed

lemma at_node_here:
  assumes "at_node E env T tb M (Suc n) cur t a b f cl base ms tmp s ls w"
    and "fits env f tb a' b'" "prepared E T M cur a'" "code_size a' = code_size a" "t' \<Longrightarrow> t"
  shows "at_node E env T tb M n cur t' a' b' f cl base ms tmp s ls w"
proof -
  note d = at_nodeD [OF assms(1)]
  show ?thesis
    using at_node_move [OF assms(1-3) d(9,10), of tmp t'] assms(4,5) moved_same [OF frame_ok_in [OF d(6)]] by simp
qed

lemma agree_keeps: "agree ls1 ms1 \<Longrightarrow> length ls1 = length ls \<Longrightarrow> agree ls ms \<Longrightarrow> length ms1 = length ms"
  using agree_length by metis

text \<open>An instruction of the emitted code.\<close>

lemma fits_at:
  "fits env f tb a b \<Longrightarrow> code_size a \<le> i \<Longrightarrow> i < code_size b \<Longrightarrow>
     i < length (fn_code (func_of env f)) \<and> fn_code (func_of env f) ! i = fn_code (es_func b) ! i"
  by (simp add: fits_def)

lemma code_of_table: "small_table env \<Longrightarrow> f < length (code_table env) \<Longrightarrow> length (fn_code (func_of env f)) < 65536"
  by (simp add: small_table_def func_of_def)

lemma fits_code_size: "fits env f tb a b \<Longrightarrow> small_table env \<Longrightarrow> code_size a < code_size b \<Longrightarrow> code_size b < 65536"
proof -
  assume f: "fits env f tb a b" "small_table env" "code_size a < code_size b"
  have "code_size b - 1 < length (fn_code (func_of env f))" using fits_at [OF f(1), of "code_size b - 1"] f(3) by auto
  moreover have "length (fn_code (func_of env f)) < 65536" using code_of_table f by (auto simp: fits_def)
  ultimately show "code_size b < 65536" using f(3) by linarith
qed


section \<open>Leaves\<close>

lemma value_outcome:
  "outcome_ok env R base tmp s p (case q of Inr v \<Rightarrow> Val v | Inl e \<Rightarrow> Fault e) ls w' \<Longrightarrow> finish (q, w') ls = Some (r, ls', w'') \<Longrightarrow>
   outcome_ok env R base tmp s p r ls' w''"
  by (cases q) (auto simp: finish_def)

lemma step_const:
  assumes "at_node E env T tb M (Suc n) cur t st st' f cl base ms tmp s ls w"
    and "eval (fresh_id env) tb (Suc n) cl cur selfs (Const_n nt l) ls w = Some (r, ls', w')" "emit_node E (Const_n nt l) st = Some st'"
  shows "outcome_ok env (compiled E env T tb M) base tmp s (code_size st') r ls' w'"
proof -
  note d = at_nodeD [OF assms(1)]
  obtain v where v: "literal_val tb l = Some v" "r = Val v" "ls' = ls" "w' = w" using assms(2) by (auto simp: eval_step_def)
  have "cache_ok st" using d(3) by (simp add: prepared_def)
  then show ?thesis using sim_const [OF d(6,1) _ d(4) _ v(1)] assms(3) v by simp
qed

lemma step_var:
  assumes "at_node E env T tb M (Suc n) cur t st st' f cl base ms tmp s ls w"
    and "eval (fresh_id env) tb (Suc n) cl cur selfs (Var_n nt a) ls w = Some (r, ls', w')" "emit_node E (Var_n nt a) st = Some st'"
  shows "outcome_ok env (compiled E env T tb M) base tmp s (code_size st') r ls' w'"
proof -
  note d = at_nodeD [OF assms(1)]
  obtain q where q: "read_address cl a ls w = Some q" "finish (q, w) ls = Some (r, ls', w')"
    using assms(2) by (auto simp: eval_step_def bind_eq_Some_conv)
  have st': "st' = emit_address_load a (n_span nt) st" using assms(3) by simp
  show ?thesis using value_outcome [OF load_address [OF d(6,1) d(4) [unfolded st'] q(1)] q(2)] by (simp add: st')
qed

section \<open>Conditionals\<close>

text \<open>The two jumps of a conditional, around the code of the branches.\<close>

lemma if_layout:
  assumes "appends st st1" "appends (emit_instr JumpIfFalse_op 0 sp st1) st2"
    and "st4 = patch_arg (code_size st1) (of_nat d) (emit_instr Jump_op 0 sp st2)" "appends st4 st5"
    and "st' = patch_arg (code_size st2) (of_nat e) st5" "fits env f tb st st'"
  shows "fits env f tb st st1" "fits env f tb (emit_instr JumpIfFalse_op 0 sp st1) st2" "fits env f tb st4 st5"
    "fn_code (func_of env f) ! code_size st1 = mk_instr JumpIfFalse_op (of_nat d)" "code_size st1 < length (fn_code (func_of env f))"
    "fn_code (func_of env f) ! code_size st2 = mk_instr Jump_op (of_nat e)" "code_size st2 < length (fn_code (func_of env f))"
    "code_size st \<le> code_size st1" "code_size st1 < code_size st2" "code_size st2 < code_size st5"
proof -
  let ?j = "emit_instr JumpIfFalse_op 0 sp st1" and ?k = "emit_instr Jump_op 0 sp st2"
  show z: "code_size st \<le> code_size st1" "code_size st1 < code_size st2" "code_size st2 < code_size st5"
    using appends_size [OF assms(1)] appends_size [OF assms(2)] appends_size [OF assms(4)] by (auto simp: assms(3))
  have jk: "appends ?j ?k" "appends st1 ?j" "appends st1 ?k"
    using assms(2) by (auto intro: appends_emit_instr appends_trans)
  have up: "within a b ?k \<Longrightarrow> code_size b \<le> code_size st1 \<or> code_size st1 < code_size a \<Longrightarrow>
      code_size b \<le> code_size st2 \<or> code_size st2 < code_size a \<Longrightarrow> code_size a \<le> code_size st2 \<Longrightarrow> within a b st'" for a b
  proof -
    assume h: "within a b ?k" "code_size b \<le> code_size st1 \<or> code_size st1 < code_size a"
      "code_size b \<le> code_size st2 \<or> code_size st2 < code_size a" "code_size a \<le> code_size st2"
    have "within a b st4" unfolding assms(3) by (rule within_patch [OF h(1,2)])
    then have "within a b st5" using within_appends [OF assms(4)] by (rule within_trans)
    then show "within a b st'" unfolding assms(5) using h(3) by (rule within_patch)
  qed
  show "fits env f tb st st1"
    using up [OF within_appends [OF jk(3)], of st] z by (auto intro: fits_within [OF assms(6)])
  show "fits env f tb ?j st2"
    using up [OF within_appends [OF appends_emit_instr [OF appends_refl]], of ?j] z by (auto intro: fits_within [OF assms(6)])
  have "within st4 st5 st'" unfolding assms(5) by (rule within_patch [OF within_appends [OF appends_refl]]) (simp add: assms(3))
  then show "fits env f tb st4 st5" using z by (auto intro: fits_within [OF assms(6)] simp: assms(3))
  have c4: "fn_code (es_func st4) ! code_size st1 = mk_instr JumpIfFalse_op (of_nat d)"
    "fn_code (es_func st4) ! code_size st2 = mk_instr Jump_op 0" "code_size st4 = Suc (code_size st2)"
    using instr_placed [OF jk(1)] z by (auto simp: assms(3) patch_arg_def mk_instr_def code_size_def emit_instr_def)
  have c5: "fn_code (es_func st5) ! i = fn_code (es_func st4) ! i" if "i < code_size st4" for i
    using assms(4) that by (auto simp: appends_def prefix_def nth_append code_size_def)
  have sz: "code_size st' = code_size st5" by (simp add: assms(5))
  have "fn_code (es_func st') ! code_size st1 = mk_instr JumpIfFalse_op (of_nat d)"
    "fn_code (es_func st') ! code_size st2 = mk_instr Jump_op (of_nat e)"
    using c5 [of "code_size st1"] c5 [of "code_size st2"] c4 z
    by (auto simp: assms(5) patch_arg_def mk_instr_def code_size_def)
  then show "fn_code (func_of env f) ! code_size st1 = mk_instr JumpIfFalse_op (of_nat d)" "code_size st1 < length (fn_code (func_of env f))"
    "fn_code (func_of env f) ! code_size st2 = mk_instr Jump_op (of_nat e)" "code_size st2 < length (fn_code (func_of env f))"
    using fits_at [OF assms(6), of "code_size st1"] fits_at [OF assms(6), of "code_size st2"] z sz by auto
qed

text \<open>A node that ends with a value may be followed by other code of the same node.\<close>

lemma node_continue:
  assumes "node_ok env R t base tmp s p r ls' w'"
    and "\<And>ms1 x1 v. r = Val v \<Longrightarrow> agree ls' ms1 \<Longrightarrow> wrel R x1 w' \<Longrightarrow> steps env s (moved s (base @ ms1 @ tmp @ [v]) p x1) \<Longrightarrow>
      one env (moved s (base @ ms1 @ tmp @ [v]) p x1) (moved s (base @ ms1 @ tmp @ [v]) p' x1)"
  shows "node_ok env R t base tmp s p' r ls' w'"
proof (cases "outcome_ok env R base tmp s p r ls' w'")
  case True
  have "outcome_ok env R base tmp s p' r ls' w'"
  proof (cases "\<exists>v. r = Val v")
    case val: True
    then obtain v ms1 x1 where 1: "r = Val v" "agree ls' ms1" "wrel R x1 w'" "steps env s (moved s (base @ ms1 @ tmp @ [v]) p x1)"
      using True by (auto simp: outcome_ok_def)
    have "steps env s (moved s (base @ ms1 @ tmp @ [v]) p' x1)" using 1(4) assms(2) [OF 1] by (rule rtranclp.rtrancl_into_rtrancl)
    then show ?thesis using 1 by (auto simp: outcome_ok_def)
  qed (use outcome_abrupt_here [OF True] in blast)
  then show ?thesis by (rule outcome_node)
next
  case False
  then show ?thesis using assms(1) by (simp add: node_ok_def)
qed

lemma step_if:
  assumes "sim E env T tb M n" "at_node E env T tb M (Suc n) cur t st st' f cl base ms tmp s ls w"
    and "eval (fresh_id env) tb (Suc n) cl cur selfs (If_n nt b c a) ls w = Some (r, ls', w')"
    and "emit_node E (If_n nt b c a) st = Some st'" "core_node E T M t (If_n nt b c a)" "pending_self st = []"
  shows "node_ok env (compiled E env T tb M) t base tmp s (code_size st') r ls' w'"
proof -
  let ?R = "compiled E env T tb M" and ?ev = "eval (fresh_id env) tb n cl cur []"
  note d = at_nodeD [OF assms(2)]
  obtain st1 st2 st4 st5 where e: "emit_node E b st = Some st1" "emit_node E c (emit_instr JumpIfFalse_op 0 (n_span nt) st1) = Some st2"
      "st4 = patch_arg (code_size st1) (of_nat (code_size st2 - code_size st1)) (emit_instr Jump_op 0 (n_span nt) st2)"
      "emit_node E a st4 = Some st5" "st' = patch_arg (code_size st2) (of_nat (code_size st5 - code_size st2 - 1)) st5"
    using assms(4) by (auto simp: bind_eq_Some_conv Let_def)
  let ?j = "emit_instr JumpIfFalse_op 0 (n_span nt) st1" and ?d = "code_size st2 - code_size st1" and ?e = "code_size st5 - code_size st2 - 1"
  have cn: "core_node E T M False b" "core_node E T M t c" "core_node E T M t a" using assms(5) by auto
  note lay = if_layout [OF appends_emit(1) [OF e(1)] appends_emit(1) [OF e(2)] e(3) appends_emit(1) [OF e(4)] e(5) d(4)]
  have n1: "neat st st1" using neat_emit(1) [OF e(1) cn(1)] assms(6) by simp
  have p1: "prepared E T M cur st1" by (rule prepared_neat [OF d(3) n1 fits_nconsts [OF lay(1) d(1)]])
  have n2: "neat ?j st2" using neat_emit(1) [OF e(2) cn(2)] neat_pending [OF n1] by simp
  have p2: "prepared E T M cur st2" by (rule prepared_neat [OF _ n2 fits_nconsts [OF lay(2) d(1)]]) (simp add: p1)
  have p4: "prepared E T M cur st4" "pending_self st4 = []" using p2 neat_pending [OF n2] by (simp_all add: e(3))
  have sz: "code_size st4 = Suc (code_size st2)" "code_size st' = code_size st5" "code_size ?j = Suc (code_size st1)"
    by (simp_all add: e(3,5))
  have small: "code_size st5 < 65536" using fits_code_size [OF d(4,1)] lay(8-10) by (simp add: sz)
  from assms(3) have "andThen (?ev b ls w) (\<lambda>v ls w. if v = False_val then ?ev a ls w else ?ev c ls w) = Some (r, ls', w')"
    by (simp add: eval_step_def)
  then show ?thesis
  proof (cases rule: andThen_cases)
    case (1 v ls1 w1)
    have o: "outcome_ok env ?R base tmp s (code_size st1) (Val v) ls1 w1"
      by (rule sim_outcome [OF assms(1) at_node_here [OF assms(2) lay(1) d(3)] 1(1) e(1) cn(1)]) (use assms(6) in simp_all)
    have l1: "length ls1 = length ls" by (rule keeps_lengthD [OF eval_length 1(1)])
    obtain ms1 x1 where f1: "steps env s (moved s (base @ ms1 @ tmp @ [v]) (code_size st1) x1)" "length ms1 = length ms"
        "frame_ok ?R f cl base ms1 (tmp @ [v]) (code_size st1) (moved s (base @ ms1 @ tmp @ [v]) (code_size st1) x1) ls1 w1"
        "agree ls1 ms1" "wrel ?R x1 w1"
      using d(2,7) by (auto intro: outcome_frame [OF o d(6) l1])
    let ?s2 = "\<lambda>p. moved s (base @ ms1 @ tmp) p x1"
    have ud: "unat (of_nat ?d :: u32) = ?d" using small lay(9,10) by (intro unat_of_small) simp
    have br: "steps env s (?s2 (if v = False_val then code_size st4 else Suc (code_size st1)))"
      using rtranclp.rtrancl_into_rtrancl [OF f1(1) branch_instr [OF f1(3) d(1,5) lay(5,4), simplified ud, simplified]] lay(9)
      by (simp add: sz split: if_splits)
    show ?thesis
    proof (cases "v = False_val")
      case True
      have "at_node E env T tb M n cur t st4 st5 f cl base ms1 tmp (?s2 (code_size st4)) ls1 w1"
        by (rule at_node_move [OF assms(2) lay(3) p4(1) f1(4,5,2)]) simp_all
      then have "node_ok env ?R t base tmp (?s2 (code_size st4)) (code_size st5) r ls' w'"
        by (rule sim_node [OF assms(1) _ _ e(4) cn(3)]) (use 1(2) True p4(2) in simp_all)
      then show ?thesis using br True by (simp add: sz node_before)
    next
      case False
      have an: "at_node E env T tb M n cur t ?j st2 f cl base ms1 tmp (?s2 (code_size ?j)) ls1 w1"
        by (rule at_node_move [OF assms(2) lay(2) _ f1(4,5,2)]) (simp_all add: p1)
      have ev: "?ev c ls1 w1 = Some (r, ls', w')" using 1(2) False by simp
      have k: "node_ok env ?R t base tmp (?s2 (code_size ?j)) (code_size st2) r ls' w'"
        by (rule sim_node [OF assms(1) an ev e(2) cn(2)]) (simp_all add: neat_pending [OF n1])
      have l2: "length ls' = length ls1" by (rule keeps_lengthD [OF eval_length ev])
      have "node_ok env ?R t base tmp (?s2 (code_size ?j)) (code_size st5) r ls' w'"
      proof (rule node_continue [OF k])
        fix ms2 x2 u assume h: "agree ls' ms2" "wrel ?R x2 w'"
        have lm: "length ms2 = length ms" using agree_keeps [OF h(1) _ d(9)] l1 l2 by simp
        have "frame_ok ?R f cl base ms2 (tmp @ [u]) (code_size st2) (moved s (base @ ms2 @ tmp @ [u]) (code_size st2) x2) ls' w'"
          by (rule frame_ok_moved [OF d(6) h]) (use d(2,7) lm in simp)
        from jump_instr [OF this d(1,5) lay(7,6)] small lay(10)
        show "one env (moved (?s2 (code_size ?j)) (base @ ms2 @ tmp @ [u]) (code_size st2) x2)
            (moved (?s2 (code_size ?j)) (base @ ms2 @ tmp @ [u]) (code_size st5) x2)"
          by simp
      qed
      then show ?thesis using br False by (simp add: sz node_before)
    qed
  next
    case 2
    have "outcome_ok env ?R base tmp s (code_size st1) r ls' w'"
      by (rule sim_outcome [OF assms(1) at_node_here [OF assms(2) lay(1) d(3)] 2(1) e(1) cn(1)]) (use assms(6) in simp_all)
    then show ?thesis using outcome_abrupt_here 2(2) by (blast intro: outcome_node)
  qed
qed

section \<open>Arguments, primitive calls and raises\<close>

lemma args_outcome:
  assumes "sim E env T tb M n" "at_node E env T tb M (Suc n) cur t st st' f cl base ms tmp s ls w" "fits env f tb st st1"
    and "eval_args (eval (fresh_id env) tb n) cl cur es ls w = Some (q, ls1, w1)" "emit_all E es st = Some st1"
    and "list_all (core_node E T M False) es" "pending_self st = []" "length es < M"
  shows "values_ok env (compiled E env T tb M) base tmp s (code_size st1) q ls1 w1"
    "prepared E T M cur st1" "pending_self st1 = []" "appends st st1"
proof -
  note d = at_nodeD [OF assms(2)]
  have "0 < M" "length (base @ ms @ tmp) + length es + Suc n * M < 2 ^ 32" using d(2,7) assms(8) by auto
  then show "values_ok env (compiled E env T tb M) base tmp s (code_size st1) q ls1 w1"
    "prepared E T M cur st1" "pending_self st1 = []" "appends st st1"
    using sim_args [OF assms(1) d(1) _ assms(4-7) d(3) assms(3) d(6)] by auto
qed

text \<open>The arguments are on the stack, and the frame is as before otherwise.\<close>

lemma args_frame:
  assumes "sim E env T tb M n" "at_node E env T tb M (Suc n) cur t st st' f cl base ms tmp s ls w" "fits env f tb st st1"
    and "eval_args (eval (fresh_id env) tb n) cl cur es ls w = Some (Inr vs, ls1, w1)" "emit_all E es st = Some st1"
    and "list_all (core_node E T M False) es" "pending_self st = []" "length es < M"
  obtains ms1 x1 where "steps env s (moved s (base @ ms1 @ tmp @ vs) (code_size st1) x1)" "length ms1 = length ms"
    "frame_ok (compiled E env T tb M) f cl base ms1 (tmp @ vs) (code_size st1) (moved s (base @ ms1 @ tmp @ vs) (code_size st1) x1) ls1 w1"
    "agree ls1 ms1" "wrel (compiled E env T tb M) x1 w1" "length vs = length es" "length ls1 = length ls"
proof -
  note d = at_nodeD [OF assms(2)]
  have l: "length ls1 = length ls" "length vs = length es" using eval_args_length [OF eval_length assms(4)] by auto
  have "length (base @ ms @ tmp) + length vs + 1 < 2 ^ 32" using d(2,7) l assms(8) by simp
  then show ?thesis
    by (rule values_frame [OF args_outcome(1) [OF assms] d(6) l(1)]) (use that l in blast)
qed

lemma values_cut:
  "values_ok env R base tmp s p (Inl r) ls' w' \<Longrightarrow> outcome_ok env R base tmp s p' r ls' w'"
  using outcome_abrupt_here by (fastforce simp: values_ok_def)

lemma step_primitive:
  assumes "sim E env T tb M n" "at_node E env T tb M (Suc n) cur t st st' f cl base ms tmp s ls w"
    and "eval (fresh_id env) tb (Suc n) cl cur selfs (PrimitiveCall_n nt k args) ls w = Some (r, ls', w')"
    and "emit_node E (PrimitiveCall_n nt k args) st = Some st'" "core_node E T M t (PrimitiveCall_n nt k args)" "pending_self st = []"
  shows "outcome_ok env (compiled E env T tb M) base tmp s (code_size st') r ls' w'"
proof -
  note d = at_nodeD [OF assms(2)]
  obtain st1 where e: "emit_all E args st = Some st1" "st' = emit_instr (opcode_for_primitive k) 0 (n_span nt) st1"
    using assms(4) by auto
  note fi = fits_instr [OF d(4) [unfolded e(2)] appends_emit(2) [OF e(1)]]
  have cn: "list_all (core_node E T M False) args" "length args < M" using assms(5) by auto
  note ar = args_outcome [OF assms(1,2) conjunct1 [OF fi] _ e(1) cn(1) assms(6) cn(2)]
    and af = args_frame [OF assms(1,2) conjunct1 [OF fi] _ e(1) cn(1) assms(6) cn(2)]
  from assms(3) have "with_args (eval_args (eval (fresh_id env) tb n) cl cur args ls w) (\<lambda>vs ls w.
      Option.bind (primitive_op (fresh_id env) k vs w) (\<lambda>r. finish r ls)) = Some (r, ls', w')"
    by (simp add: eval_step_def)
  then show ?thesis
  proof (cases rule: with_args_cases)
    case (1 vs ls1 w1)
    obtain q w2 where q: "primitive_op (fresh_id env) k vs w1 = Some (q, w2)" "finish (q, w2) ls1 = Some (r, ls', w')"
      using 1(2) by (auto simp: bind_eq_Some_conv)
    show ?thesis
    proof (rule af [OF 1(1)])
      fix ms1 x1 assume h: "steps env s (moved s (base @ ms1 @ tmp @ vs) (code_size st1) x1)"
        "frame_ok (compiled E env T tb M) f cl base ms1 (tmp @ vs) (code_size st1) (moved s (base @ ms1 @ tmp @ vs) (code_size st1) x1) ls1 w1"
      from prim_instr [OF h(2) d(1,5) _ _ q(1)] fi
      have "outcome_ok env (compiled E env T tb M) base tmp (moved s (base @ ms1 @ tmp @ vs) (code_size st1) x1) (code_size st')
          (case q of Inr v \<Rightarrow> Val v | Inl e \<Rightarrow> Fault e) ls1 w2"
        by (simp add: e(2))
      then show ?thesis using value_outcome [OF _ q(2)] outcome_before [OF h(1)] by blast
    qed
  next
    case 2
    then show ?thesis using values_cut [OF ar(1)] by blast
  qed
qed


text \<open>The tags of raises and catches are in the intern table already.\<close>

lemma tag_hit:
  assumes "prepared E T M cur st" "core_tag T tg" "str_to_id (es_interns st) \<subseteq>\<^sub>m str_to_id tb" "tag_val tb tg = Some u"
  shows "tag_value tg st = (u, st)"
proof (cases "tg = ''''")
  case False
  then obtain i where i: "str_to_id T tg = Some i" using assms(2) by (auto simp: core_tag_def)
  have m: "str_to_id T \<subseteq>\<^sub>m str_to_id (es_interns st)" using assms(1) by (simp add: prepared_def)
  have "str_to_id (es_interns st) tg = Some i" by (rule map_le_some [where m = "str_to_id T"]) (fact m, fact i)
  moreover from this have "str_to_id tb tg = Some i" by (rule map_le_some [OF assms(3)])
  ultimately show ?thesis using False assms(4) intern_hit by (auto simp: tag_value_def em_intern_def tag_val_def)
qed (use assms(4) in \<open>simp add: tag_value_def tag_val_def\<close>)

lemma fits_interns: "fits env f tb a b \<Longrightarrow> appends st b \<Longrightarrow> str_to_id (es_interns st) \<subseteq>\<^sub>m str_to_id tb"
  by (auto simp: fits_def appends_def intro: map_le_trans)

lemma step_raise:
  assumes "sim E env T tb M n" "at_node E env T tb M (Suc n) cur t st st' f cl base ms tmp s ls w"
    and "eval (fresh_id env) tb (Suc n) cl cur selfs (Raise_n nt tg v) ls w = Some (r, ls', w')"
    and "emit_node E (Raise_n nt tg v) st = Some st'" "core_node E T M t (Raise_n nt tg v)" "pending_self st = []"
  shows "outcome_ok env (compiled E env T tb M) base tmp s (code_size st') r ls' w'"
proof -
  let ?R = "compiled E env T tb M" and ?ev = "eval (fresh_id env) tb n cl cur []"
  note d = at_nodeD [OF assms(2)]
  have cn: "core_tag T tg" "core_node E T M False v" using assms(5) by auto
  obtain u where u: "tag_val tb tg = Some u" "andThen (?ev v ls w) (\<lambda>x ls w. Some (Raised u x, ls, w)) = Some (r, ls', w')"
    using assms(3) by (auto simp: eval_step_def bind_eq_Some_conv)
  have tg: "tag_value tg st = (u, st)"
    by (rule tag_hit [OF d(3) cn(1) fits_interns [OF d(4) appends_emit(1) [OF assms(4)]] u(1)])
  define st2 where "st2 = snd (emit_load_const u (n_span nt) st)"
  obtain st3 where e: "emit_node E v st2 = Some st3" "st' = emit_instr Throw_op 0 (n_span nt) st3"
    using assms(4) tg by (auto simp: Let_def st2_def)
  have td: "tidy st st2" by (simp add: st2_def tidy_load_const)
  have g: "appends st st2" "appends st2 st3" using td appends_emit(1) [OF e(1)] by (auto simp: tidy_def)
  note fi = fits_instr [OF d(4) [unfolded e(2)] appends_trans [OF g]]
  note fs = fits_split [OF conjunct1 [OF fi] g]
  have p2: "prepared E T M cur st2" by (rule prepared_tidy [OF d(3) td])
  have o: "outcome_ok env ?R base tmp s (code_size st2) (Val u) ls w"
    using load_const [OF d(6,1), of tb u "n_span nt"] fs by (simp add: st2_def)
  obtain ms1 x1 where f1: "steps env s (moved s (base @ ms1 @ tmp @ [u]) (code_size st2) x1)" "length ms1 = length ms"
      "agree ls ms1" "wrel ?R x1 w"
    using d(2,7) by (auto intro: outcome_frame [OF o d(6) refl])
  let ?s1 = "moved s (base @ ms1 @ tmp @ [u]) (code_size st2) x1"
  have an: "at_node E env T tb M n cur False st2 st3 f cl base ms1 (tmp @ [u]) ?s1 ls w"
    using at_node_move [OF assms(2) conjunct2 [OF fs] p2 f1(3,4,2), of "tmp @ [u]" False] d(2) by simp
  note so = sim_outcome [OF assms(1) an _ e(1) cn(2), of "[]", simplified, OF _ tidy_pending [OF td, unfolded assms(6)]]
  from u(2) show ?thesis
  proof (cases rule: andThen_cases)
    case (1 x ls1 w1)
    have l: "length ls1 = length ls" by (rule keeps_lengthD [OF eval_length 1(1)])
    obtain ms2 x2 where f2: "agree ls1 ms2" "wrel ?R x2 w1" "steps env ?s1 (moved s (base @ ms2 @ tmp @ [u, x]) (code_size st3) x2)"
      using so [OF 1(1)] by (auto simp: outcome_ok_def)
    let ?s2 = "moved s (base @ ms2 @ tmp @ [u, x]) (code_size st3) x2"
    have inf: "in_frame f cl base ms2 (tmp @ [u, x]) (code_size st3) ?s2"
      using in_frame_moved [OF frame_ok_in [OF d(6)], of ms2 "tmp @ [u, x]"] by simp
    have eq: "moved s (base @ ms2 @ tmp) (Suc (code_size st3)) x2 = s\<lparr> stack := (base @ ms2 @ tmp) @ [], frames := frames s @ [],
        catches := catches s @ [], wd := x2, cur_func := cur_func s, pc := of_nat (Suc (code_size st3)), fp := fp s, cur_closure := cur_closure s \<rparr>"
      by (cases s) (simp add: moved_def)
    have "step env ?s2 = raise_to env (catches s) u x (moved s (base @ ms2 @ tmp) (Suc (code_size st3)) x2)"
      using step_instr(2) [OF inf d(1,5)] fi
      by (simp add: exec_instr_def mk_instr_def op_throw_def bind_run_def pop_run_def butlast_append do_throw_raise)
    moreover have "running env ?s2" using step_instr(1) [OF inf d(1,5)] fi by simp
    moreover have "steps env s ?s2" using f1(1) f2(3) by (rule rtranclp_trans)
    ultimately have "raised_at env ?R (base @ ms2 @ tmp) s u x w1" using f2(2) unfolding raised_at_def eq by blast
    then show ?thesis using 1(2) f2(1) by (auto simp: outcome_ok_def)
  next
    case 2
    have "outcome_ok env ?R base tmp ?s1 (code_size st') r ls' w'" by (rule outcome_abrupt [OF so [OF 2(1)] 2(2)])
    then show ?thesis by (rule outcome_before [OF f1(1)])
  qed
qed


section \<open>Catches\<close>

definition caught :: "catch_frame \<Rightarrow> vm \<Rightarrow> vm" where
  "caught cf s = s\<lparr> catches := catches s @ [cf] \<rparr>"

lemma caught_simps [simp]:
  "stack (caught cf s) = stack s" "pc (caught cf s) = pc s" "wd (caught cf s) = wd s" "frames (caught cf s) = frames s"
  "winding (caught cf s) = winding s" "catches (caught cf s) = catches s @ [cf]" "cur_func (caught cf s) = cur_func s"
  "fp (caught cf s) = fp s" "cur_closure (caught cf s) = cur_closure s" "sandbox_mode (caught cf s) = sandbox_mode s"
  "moved (caught cf s) k p w = caught cf (moved s k p w)"
  by (simp_all add: caught_def moved_def)

lemma frame_ok_caught [simp]:
  "frame_ok R f cl base ms tmp p (caught cf s) ls w = frame_ok R f cl base ms tmp p s ls w"
  by (simp add: frame_ok_def in_frame_def)

lemma find_catch_last:
  "find_catch P (cs @ [c]) = (if P c then Some (length cs) else find_catch P cs)"
proof -
  have "filter (\<lambda>i. P ((cs @ [c]) ! i)) (rev [0..<length cs]) = filter (\<lambda>i. P (cs ! i)) (rev [0..<length cs])"
    by (rule filter_cong) (simp_all add: nth_append)
  then show ?thesis by (simp add: find_catch_def)
qed

lemma find_catch_bound: "find_catch P cs = Some i \<Longrightarrow> i < length cs"
proof -
  assume "find_catch P cs = Some i"
  then obtain js where "filter (\<lambda>i. P (cs ! i)) (rev [0..<length cs]) = i # js"
    by (auto simp: find_catch_def split: list.splits)
  then have "i \<in> set (filter (\<lambda>i. P (cs ! i)) (rev [0..<length cs]))" by (metis list.set_intros(1))
  then show "i < length cs" by simp
qed

lemma raise_past:
  assumes "\<not> (cf_tag c = Nil_val \<or> values_eqv (wd s) (cf_tag c) t)"
  shows "raise_to env (cs @ [c]) t x s = raise_to env cs t x s"
  using assms find_catch_bound [of _ cs]
  by (simp add: raise_to_def find_catch_last nth_append cong: option.case_cong)

lemma raise_here:
  assumes "cf_tag c = Nil_val \<or> values_eqv (wd s) (cf_tag c) t" "length (winding s) \<le> cf_wind_count c"
  shows "raise_to env (cs @ [c]) t x s = Some (Inr (), enter_handler c x (s\<lparr> catches := take (length cs) (catches s) \<rparr>))"
  using assms by (simp add: raise_to_def find_catch_last begin_transfer_def)

text \<open>The catch frame that a \<^verbatim>\<open>SetupCatch\<close> in this frame pushes.\<close>

definition catch_of :: "nat \<Rightarrow> lispval \<Rightarrow> u32 \<Rightarrow> vm \<Rightarrow> catch_frame" where
  "catch_of f u h s = \<lparr> cf_tag = u, cf_func = f, cf_handler_pc = h, cf_fp = fp s, cf_closure = cur_closure s,
     cf_frame_count = length (frames s), cf_stack_top = of_nat (length (stack s)),
     cf_wind_count = length (winding s), cf_tape_count = length (active_tapes s) \<rparr>"

lemma catch_of_simps [simp]:
  "cf_tag (catch_of f u h s) = u" "cf_wind_count (catch_of f u h s) = length (winding s)"
  by (simp_all add: catch_of_def)

lemma resize_append: "length xs = k \<Longrightarrow> resize k y (xs @ ys) = xs"
  by (simp add: resize_def)

lemma handler_entered:
  assumes "cur_func s = Some f" "length keep = length (stack s)" "length (stack s) < 2 ^ 32"
  shows "enter_handler (catch_of f u (of_nat h) s) x
     (s\<lparr> stack := keep @ extra, frames := frames s @ fs, catches := catches s, wd := w1, cur_func := a, pc := b, fp := c, cur_closure := d \<rparr>)
   = moved s (keep @ [x]) h w1"
proof -
  have "unat (of_nat (length (stack s)) :: u32) = length (stack s)" by (rule unat_of_small [OF assms(3)])
  moreover have "resize (length keep) 0 (keep @ extra) = keep" "resize (length (frames s)) no_frame (frames s @ fs) = frames s"
    "resize (length (winding s)) no_wind (winding s) = winding s" "resize (length (active_tapes s)) 0 (active_tapes s) = active_tapes s"
    by (simp_all add: resize_def)
  ultimately show ?thesis using assms(1,2) by (cases s) (simp add: enter_handler_def catch_of_def moved_def)
qed

lemma raised_caught:
  assumes "raised_at env R keep (caught c s) t x w'" "steps env s0 (caught c s)" "s = moved s0 k p w"
    and "c = catch_of f u (of_nat h) s" "cur_func s = Some f" "length keep = length (stack s)" "length (stack s) < 2 ^ 32"
  shows "if u = Nil_val \<or> values_eqv w' u t then \<exists>w1. wrel R w1 w' \<and> steps env s0 (moved s0 (keep @ [x]) h w1)
     else raised_at env R keep s0 t x w'"
proof -
  obtain s1 extra fs mr w1 a b cc d where 1: "steps env (caught c s) s1" "running env s1" "wrel R w1 w'"
      "step env s1 = raise_to env (catches s @ [c]) t x (s\<lparr> stack := keep @ extra, frames := frames s @ fs,
         catches := catches s @ (c # mr), wd := w1, cur_func := a, pc := b, fp := cc, cur_closure := d \<rparr>)"
    using assms(1) unfolding raised_at_def by (force simp: caught_def)
  let ?s2 = "s\<lparr> stack := keep @ extra, frames := frames s @ fs, catches := catches s @ (c # mr), wd := w1, cur_func := a, pc := b,
      fp := cc, cur_closure := d \<rparr>"
  have st: "steps env s0 s1" using assms(2) 1(1) by (rule rtranclp_trans)
  have eqv: "values_eqv (wd ?s2) u t = values_eqv w' u t" using wrel_eqv [OF 1(3)] by simp
  show ?thesis
  proof (cases "u = Nil_val \<or> values_eqv w' u t")
    case True
    have "step env s1 = Some (Inr (), enter_handler c x (?s2\<lparr> catches := take (length (catches s)) (catches ?s2) \<rparr>))"
      unfolding 1(4) by (rule raise_here) (use True eqv assms(4) in simp_all)
    also have "?s2\<lparr> catches := take (length (catches s)) (catches ?s2) \<rparr> = s\<lparr> stack := keep @ extra, frames := frames s @ fs,
        catches := catches s, wd := w1, cur_func := a, pc := b, fp := cc, cur_closure := d \<rparr>"
      by simp
    also have "enter_handler c x \<dots> = moved s (keep @ [x]) h w1"
      unfolding assms(4) by (rule handler_entered [OF assms(5-7)])
    finally have "one env s1 (moved s0 (keep @ [x]) h w1)" using 1(2) assms(3) by (simp add: one_def)
    then show ?thesis using True 1(3) st by (auto intro: rtranclp.rtrancl_into_rtrancl)
  next
    case False
    have "step env s1 = raise_to env (catches s) t x ?s2"
      unfolding 1(4) by (rule raise_past) (use False eqv assms(4) in simp)
    also have "\<dots> = raise_to env (catches s0) t x (s0\<lparr> stack := keep @ extra, frames := frames s0 @ fs, catches := catches s0 @ (c # mr),
        wd := w1, cur_func := a, pc := b, fp := cc, cur_closure := d \<rparr>)"
      unfolding assms(3) by (simp add: moved_def)
    finally show ?thesis using False st 1(2,3) unfolding raised_at_def by (auto intro!: exI)
  qed
qed

text \<open>The code of a catch: the tag is a constant, and the operand of \<^verbatim>\<open>SetupCatch\<close> reaches past \<^verbatim>\<open>PopCatch\<close>.\<close>

lemma guard_layout:
  assumes "appends st st2" "code_size st2 = su" "appends (emit_instr SetupCatch_op 0 sp st2) st3"
    and "st' = close_guard (of_nat k) su (emit_instr PopCatch_op 0 sp st3)" "fits env f tb st st'" "small_table env" "k < 65536"
  defines "a \<equiv> push_bit 16 (of_nat k) OR (of_nat (code_size st3 - su) AND 0xFFFF) :: u32"
  shows "fits env f tb (emit_instr SetupCatch_op 0 sp st2) st3" "code_size st' = Suc (code_size st3)"
    "fn_code (func_of env f) ! su = mk_instr SetupCatch_op a" "su < length (fn_code (func_of env f))"
    "fn_code (func_of env f) ! code_size st3 = mk_instr PopCatch_op 0" "code_size st3 < length (fn_code (func_of env f))"
    "unat (drop_bit 16 a) = k" "of_nat (Suc su) + (a AND 0xFFFF) = (of_nat (Suc (code_size st3)) - of_nat (Suc 0) + 1 :: u32)"
    "su < code_size st3"
proof -
  let ?j = "emit_instr SetupCatch_op 0 sp st2" and ?k = "emit_instr PopCatch_op 0 sp st3"
  show z: "su < code_size st3" using appends_size [OF assms(3)] assms(2) by simp
  have z0: "code_size st \<le> su" using appends_size [OF assms(1)] assms(2) by simp
  have off: "of_nat (code_size ?k) - (of_nat su + 1) = (of_nat (code_size st3 - su) :: u32)"
    using z by (simp add: of_nat_diff)
  have st': "st' = patch_arg su a ?k" unfolding assms(4) close_guard_def Let_def off a_def ..
  show sz: "code_size st' = Suc (code_size st3)" by (simp add: st')
  have "within ?j st3 ?k" by (rule within_appends) (simp add: appends_emit_instr)
  then have "within ?j st3 st'" unfolding st' using assms(2) by (auto intro: within_patch)
  then show "fits env f tb ?j st3" using z0 assms(2) by (auto intro: fits_within [OF assms(5)])
  have c: "fn_code (es_func st') ! su = mk_instr SetupCatch_op a" "fn_code (es_func st') ! code_size st3 = mk_instr PopCatch_op 0"
    using instr_placed [OF assms(3)] assms(2) z
    by (auto simp: st' patch_arg_def mk_instr_def code_size_def emit_instr_def nth_append)
  then show "fn_code (func_of env f) ! su = mk_instr SetupCatch_op a" "su < length (fn_code (func_of env f))"
    "fn_code (func_of env f) ! code_size st3 = mk_instr PopCatch_op 0" "code_size st3 < length (fn_code (func_of env f))"
    using fits_at [OF assms(5), of su] fits_at [OF assms(5), of "code_size st3"] z z0 sz by auto
  have small: "code_size st3 < 65536" using fits_code_size [OF assms(5,6)] z z0 sz by simp
  have ud: "unat (of_nat (code_size st3 - su) :: u32) = code_size st3 - su" using small by (intro unat_of_small) simp
  have uk: "unat (of_nat k :: u32) = k" using assms(7) by (intro unat_of_small) simp
  have am: "of_nat (code_size st3 - su) AND 0xFFFF = (of_nat (code_size st3 - su) :: u32)"
    using small_mask [of "of_nat (code_size st3 - su)"] ud small by (simp add: mask_eq_exp_minus_1)
  show "unat (drop_bit 16 a) = k"
    using pack_hi [of "of_nat (code_size st3 - su)" "of_nat k"] small_mask [of "of_nat k"] ud uk small assms(7)
    by (simp add: a_def am)
  have "a AND 0xFFFF = of_nat (code_size st3 - su)" unfolding a_def am pack_lo by (rule refl)
  then show "of_nat (Suc su) + (a AND 0xFFFF) = (of_nat (Suc (code_size st3)) - of_nat (Suc 0) + 1 :: u32)"
    using z by (simp add: of_nat_diff)
qed

lemma step_guard:
  assumes "sim E env T tb M n" "at_node E env T tb M (Suc n) cur t st st' f cl base ms tmp s ls w"
    and "eval (fresh_id env) tb (Suc n) cl cur selfs (Guard_n nt tg b) ls w = Some (r, ls', w')"
    and "emit_node E (Guard_n nt tg b) st = Some st'" "core_node E T M t (Guard_n nt tg b)" "pending_self st = []"
  shows "outcome_ok env (compiled E env T tb M) base tmp s (code_size st') r ls' w'"
proof -
  let ?R = "compiled E env T tb M" and ?ev = "eval (fresh_id env) tb n cl cur []"
  note d = at_nodeD [OF assms(2)]
  have cn: "core_tag T tg" "core_node E T M False b" using assms(5) by auto
  obtain u where u: "tag_val tb tg = Some u" "catch_raise u (?ev b ls w) = Some (r, ls', w')"
    using assms(3) by (auto simp: eval_step_def bind_eq_Some_conv)
  have tg: "tag_value tg st = (u, st)"
    by (rule tag_hit [OF d(3) cn(1) fits_interns [OF d(4) appends_emit(1) [OF assms(4)]] u(1)])
  define st2 where "st2 = snd (add_const u st)"
  let ?j = "emit_instr SetupCatch_op 0 (n_span nt) st2" and ?k = "nconsts st"
  have st2: "code_size st2 = code_size st" "nconsts st2 = Suc ?k" "constants (es_func st2) ! ?k = u"
    by (simp_all add: st2_def add_const_def code_size_def)
  obtain st3 where e: "emit_node E b ?j = Some st3"
      "st' = close_guard (of_nat ?k) (code_size st) (emit_instr PopCatch_op 0 (n_span nt) st3)"
    using assms(4) tg by (auto simp: Let_def st2_def add_const_def code_size_def)
  have td: "tidy st st2" "tidy st ?j" by (simp_all add: st2_def tidy_add_const tidy_instr)
  have g: "appends st st2" "appends ?j st3" using td appends_emit(1) [OF e(1)] by (auto simp: tidy_def)
  have gj: "nconsts ?j \<le> nconsts st3" by (rule appends_nconsts [OF g(2)])
  have same: "constants (es_func st') = constants (es_func st3)" by (simp add: e(2) close_guard_def Let_def patch_arg_def emit_instr_def)
  have "nconsts st' \<le> 65536" by (rule fits_nconsts [OF d(4,1)])
  then have k: "?k < 65536" using gj st2(2) same by (simp add: emit_instr_def)
  let ?a = "push_bit 16 (of_nat ?k) OR (of_nat (code_size st3 - code_size st) AND 0xFFFF) :: u32"
  note lay = guard_layout [OF g(1) st2(1) g(2) e(2) d(4,1) k]
  let ?h = "Suc (code_size st3)" and ?s0 = "moved s (base @ ms @ tmp) (Suc (code_size st)) (wd s)"
  define cf where "cf = catch_of f u (of_nat ?h) ?s0"
  have kc: "?k < length (constants (func_of env f)) \<and> constants (func_of env f) ! ?k = u"
  proof -
    have "?k < nconsts st'" "constants (es_func st') ! ?k = u"
      using gj st2 same g(2) by (auto simp: emit_instr_def appends_def prefix_def nth_append)
    then show ?thesis using fits_const [OF d(4)] by simp
  qed
  have cs: "cur_func s = Some f" using d(6) by (simp add: frame_ok_def in_frame_def)
  have "exec_instr env (mk_instr SetupCatch_op ?a) sp ?s0 = Some (Inr (), caught cf ?s0)" for sp
    using kc lay(7,8) cs
    by (simp add: exec_instr_def mk_instr_def op_setup_catch_def Let_def caught_def cf_def catch_of_def)
  then have 1: "one env s (caught cf ?s0)" by (rule one_instr [OF frame_ok_in [OF d(6)] d(1,5) lay(4,3)])
  have p2: "prepared E T M cur ?j" by (rule prepared_tidy [OF d(3) td(2)])
  have "at_node E env T tb M n cur False ?j st3 f cl base ms tmp ?s0 ls w"
    using at_node_move [OF assms(2) lay(1) p2 d(9,10) refl, of tmp False] st2(1) by simp
  then have an: "at_node E env T tb M n cur False ?j st3 f cl base ms tmp (caught cf ?s0) ls w"
    by (simp add: at_node_def)
  have so: "outcome_ok env ?R base tmp (caught cf ?s0) (code_size st3) q ls1 w1" if "?ev b ls w = Some (q, ls1, w1)" for q ls1 w1
    by (rule sim_outcome [OF assms(1) an that e(1) cn(2)]) (use tidy_pending [OF td(2)] assms(6) in simp_all)
  have sc: "steps env s (caught cf ?s0)" using 1 by blast
  have ml: "agree ls1 ms1 \<Longrightarrow> ?ev b ls w = Some (q, ls1, w1) \<Longrightarrow> length ms1 = length ms" for q ls1 w1 ms1
    using agree_keeps [OF _ keeps_lengthD [OF eval_length] d(9)] by blast
  have sl: "length (stack ?s0) < 2 ^ 32" using d(7) by simp
  have rc: "if u = Nil_val \<or> values_eqv w' u tg1 then \<exists>x1. wrel ?R x1 w' \<and> steps env s (moved s (base @ ms1 @ tmp @ [x]) ?h x1)
      else raised_at env ?R (base @ ms1 @ tmp) s tg1 x w'"
    if "raised_at env ?R (base @ ms1 @ tmp) (caught cf ?s0) tg1 x w'" "length ms1 = length ms" for ms1 tg1 x
    using raised_caught [OF that(1) sc refl cf_def _ _ sl] cs that(2) by (simp only: append.assoc moved_simps length_append simp_thms True_implies_equals)
  from u(2) show ?thesis
  proof (cases rule: catch_raise_cases)
    case (1 q)
    show ?thesis
    proof (cases q)
      case (Val v)
      obtain ms1 x1 where v: "agree ls' ms1" "wrel ?R x1 w'" "steps env (caught cf ?s0) (caught cf (moved s (base @ ms1 @ tmp @ [v]) (code_size st3) x1))"
        using so [OF 1(1)] Val by (auto simp: outcome_ok_def)
      let ?s1 = "moved s (base @ ms1 @ tmp @ [v]) (code_size st3) x1"
      have "in_frame f cl base ms1 (tmp @ [v]) (code_size st3) (caught cf ?s1)"
        using in_frame_moved [OF frame_ok_in [OF d(6)], of ms1 "tmp @ [v]"] by (simp add: in_frame_def)
      from one_instr [OF this d(1,5) lay(6,5), of "moved s (base @ ms1 @ tmp @ [v]) ?h x1"]
      have "one env (caught cf ?s1) (moved s (base @ ms1 @ tmp @ [v]) ?h x1)"
        by (simp add: exec_instr_def mk_instr_def op_pop_catch_def modify_def caught_def moved_def)
      then have "steps env s (moved s (base @ ms1 @ tmp @ [v]) ?h x1)"
        using rtranclp_trans [OF sc v(3)] by (auto intro: rtranclp.rtrancl_into_rtrancl)
      then show ?thesis using 1(2) Val v(1,2) lay(2) by (auto simp: outcome_ok_def)
    next
      case (Raised tg1 x)
      then obtain ms1 where v: "agree ls' ms1" "raised_at env ?R (base @ ms1 @ tmp) (caught cf ?s0) tg1 x w'"
        using so [OF 1(1)] by (auto simp: outcome_ok_def)
      have "raised_at env ?R (base @ ms1 @ tmp) s tg1 x w'"
        using rc [OF v(2) ml [OF v(1) 1(1)]] 1(2) Raised by auto
      then show ?thesis using 1(2) Raised v(1) by (auto simp: outcome_ok_def)
    next
      case (Fault x)
      then show ?thesis using so [OF 1(1)] 1(2) faulted_before [OF sc] by (simp add: outcome_ok_def)
    qed
  next
    case (2 tg1 x)
    obtain ms1 where v: "agree ls' ms1" "raised_at env ?R (base @ ms1 @ tmp) (caught cf ?s0) tg1 x w'"
      using so [OF 2(1)] by (auto simp: outcome_ok_def)
    obtain x1 where "wrel ?R x1 w'" "steps env s (moved s (base @ ms1 @ tmp @ [x]) ?h x1)"
      using rc [OF v(2) ml [OF v(1) 2(1)]] 2(3) by auto
    then show ?thesis using 2(2) v(1) lay(2) by (auto simp: outcome_ok_def)
  qed
qed


section \<open>Lambdas\<close>

text \<open>The function that a lambda leaves in the registry is its code.\<close>

lemma lambda_compiled:
  assumes "emit_node E b (enter_lambda E l st) = Some st1" "core_lambda E M l" "core_node E T M True b"
    and "str_to_id T \<subseteq>\<^sub>m str_to_id (es_interns st)" "leave_lambda sp st st1 = (i, st2)"
    and "prefix (es_registry st2) (code_table env)" "str_to_id (es_interns st2) \<subseteq>\<^sub>m str_to_id tb"
  shows "compiled E env T tb M (length (es_registry st1)) (Lam l b (pending_self st))"
    "length (es_registry st1) < length (code_table env)" "i = of_nat (length (es_registry st1))"
proof -
  let ?a = "enter_lambda E l st" and ?i = "length (es_registry st1)"
  let ?f = "es_func (emit_instr Return_op 0 sp (st1\<lparr> active_lambdas := butlast (active_lambdas st1) \<rparr>))"
  have g: "appends ?a st1" by (rule appends_emit(1) [OF assms(1)])
  have lv: "i = of_nat ?i" "es_registry st2 = es_registry st1 @ [?f]" "es_interns st2 = es_interns st1"
    using assms(5) by (auto simp: leave_lambda_def registry_add_def Let_def emit_instr_def)
  then show "i = of_nat ?i" by simp
  have "?i < length (code_table env)" using prefix_length_le [OF assms(6)] lv(2) by simp
  then show k: "?i < length (code_table env)" .
  have fn: "func_of env ?i = ?f" using assms(6) lv(2) by (auto simp: func_of_def prefix_def nth_append)
  have f: "fn_code ?f = fn_code (es_func st1) @ [mk_instr Return_op 0]" "constants ?f = constants (es_func st1)" "header ?f = header (es_func st1)"
    by (simp_all add: emit_instr_def header_def)
  have "header (es_func st1) = header (es_func ?a)" using g by (simp add: appends_def)
  then have "header ?f = header (new_function E l (fn_name (es_func st) @ ''_lambda'' @ to_decimal (lambda_count st)))"
    by (simp add: f(3) enter_lambda_def)
  from arg_cong [OF this, of fn_arity] arg_cong [OF this, of has_rest] arg_cong [OF this, of stack_size]
  have h: "fn_arity ?f = ucast (ar_required (lam_arity l))" "has_rest ?f = ar_rest (lam_arity l)" "stack_size ?f = lam_stack_size l"
    by (simp_all add: header_def new_function_def empty_function_def)
  have ft: "fits env ?i tb ?a st1"
  proof -
    have "prefix (es_registry st1) (es_registry st2)" by (simp add: lv(2))
    then have "prefix (es_registry st1) (code_table env)" using assms(6) by (rule prefix_order.trans)
    then show ?thesis using k assms(7) lv(3) f(1,2) by (auto simp: fits_def fn code_size_def nth_append)
  qed
  have a: "code_size ?a = 0" "active_lambdas ?a = active_lambdas st @ [active_of E l (pending_self st)]" "es_interns ?a = es_interns st"
    by (simp_all add: enter_lambda_def code_size_def new_function_def empty_function_def)
  have "code_size st1 < length (fn_code ?f)" "opcode (fn_code ?f ! code_size st1) = Return_op"
    unfolding f(1) by (simp_all add: code_size_def mk_instr_def)
  then show "compiled E env T tb M ?i (Lam l b (pending_self st))"
    unfolding compiled_def lam.case using assms(1-4) k ft a h
    by (intro conjI exI [of _ ?a] exI [of _ st1]) (simp_all add: fn)
qed

lemma step_lambda:
  assumes "at_node E env T tb M (Suc n) cur t st st' f cl base ms tmp s ls w"
    and "eval (fresh_id env) tb (Suc n) cl cur selfs (Lambda_n nt l b) ls w = Some (r, ls', w')"
    and "emit_node E (Lambda_n nt l b) st = Some st'" "core_node E T M t (Lambda_n nt l b)" "pending_self st = selfs"
  shows "outcome_ok env (compiled E env T tb M) base tmp s (code_size st') r ls' w'"
proof -
  let ?R = "compiled E env T tb M"
  note d = at_nodeD [OF assms(1)]
  have cn: "core_lambda E M l" "core_node E T M True b" "length (upval_sources l) < 65536" "length (upval_sources l) < M"
    using assms(4) by (auto simp: core_lambda_def)
  obtain st1 where e1: "emit_node E b (enter_lambda E l st) = Some st1" using assms(3) by auto
  obtain i st2 where e2: "leave_lambda (n_span nt) st st1 = (i, st2)" by fastforce
  have "st' = emit_closure l (n_span nt) i st2" using assms(3) e1 e2 by simp
  note e = e1 e2 this
  have g: "appends st st2" "appends st2 st'"
    using appends_lambda [OF appends_emit(1) [OF e(1)], of "n_span nt"] e(2) by (auto simp: e(3) appends_closure)
  have sz: "code_size st2 = code_size st"
    using e(2) by (auto simp: leave_lambda_def registry_add_def Let_def code_size_def)
  note ft = conjunct2 [OF fits_split [OF d(4) g]]
  have rg: "prefix (es_registry st2) (code_table env)" "str_to_id (es_interns st2) \<subseteq>\<^sub>m str_to_id tb"
    using ft g(2) by (auto simp: fits_def appends_def intro: prefix_order.trans map_le_trans)
  have tt: "str_to_id T \<subseteq>\<^sub>m str_to_id (es_interns st)" using d(3) by (simp add: prepared_def)
  note lc = lambda_compiled [OF e(1) cn(1,2) tt e(2) rg]
  have ok: "frame_ok ?R f cl base ms tmp (code_size st2) s ls w" using d(6) sz by simp
  have room: "length (base @ ms @ tmp) + length (upval_sources l) + 1 < 2 ^ 32" using d(2,7) cn(4) by simp
  obtain q where q: "read_addresses cl (upval_sources l) ls w = Some q"
      "(case q of Inl x \<Rightarrow> Some (Fault x, ls, w) | Inr us \<Rightarrow> finish (new_object (fresh_id env) (Closure (Lam l b selfs) us cl) w) ls)
        = Some (r, ls', w')"
    using assms(2) by (auto simp: eval_step_def bind_eq_Some_conv)
  show ?thesis
  proof (cases q)
    case (Inl x)
    let ?st1 = "snd (add_const (encode_func_index i) st2)"
    let ?st3 = "fold (\<lambda>a. emit_address_load a (n_span nt)) (upval_sources l) ?st1"
    have st': "st' = emit_instr MakeClosure_op (push_bit 16 (of_nat (nconsts st2)) OR of_nat (length (upval_sources l))) (n_span nt) ?st3"
      by (simp add: e(3) emit_closure_def add_const_def Let_def)
    have g3: "appends ?st1 ?st3" by (intro appends_fold appends_address_load) auto
    have "fits env f tb ?st1 st'" using ft by (simp add: fits_def)
    then have "fits env f tb ?st1 ?st3" using fits_instr [OF _ g3] unfolding st' by blast
    then have "values_ok env ?R base tmp s (code_size ?st3) (map_sum Fault id q) ls w"
      using load_addresses [of ?R f cl base ms tmp ?st1 s ls w env tb "n_span nt"] ok d(1) q(1) room by simp
    then show ?thesis using Inl q(2) by (auto intro: values_cut)
  next
    case (Inr us)
    obtain q1 w1 where q1: "new_object (fresh_id env) (Closure (Lam l b selfs) us cl) w = (q1, w1)" by fastforce
    have "outcome_ok env ?R base tmp s (code_size st') (case q1 of Inr v \<Rightarrow> Val v | Inl e \<Rightarrow> Fault e) ls w1"
      using make_closure [OF ok d(1) _ lc(2) _ _ cn(3) room q1] ft lc(1,3) q(1) Inr assms(5) by (simp add: e(3))
    then show ?thesis using value_outcome q(2) Inr q1 by (metis sum.case(2))
  qed
qed

section \<open>Assignments\<close>

lemma self_patch_cross: "emit_self_patch e sp = emit_cross_patch e e sp"
  by (intro ext) (simp add: emit_self_patch_def emit_cross_patch_def)

lemma patch_self_ties: "patch_self a v sp st = fold (\<lambda>(e, l, i). emit_cross_patch e l sp i) (self_ties a v) st"
  by (auto simp: patch_self_def self_ties_def self_patch_cross fold_map comp_def split: node.splits address.splits)

lemma captures_bound: "i \<in> set (captures_of s l) \<Longrightarrow> i < length (upval_sources l)"
  by (auto simp: captures_of_def)

lemma self_ties_bound: "core_node E T M t v \<Longrightarrow> \<forall>(e, l, i) \<in> set (self_ties a v). i < 65536"
  by (auto simp: self_ties_def core_lambda_def split: node.splits address.splits dest!: captures_bound)

lemma step_set:
  assumes "sim E env T tb M n" "at_node E env T tb M (Suc n) cur t st st' f cl base ms tmp s ls w"
    and "eval (fresh_id env) tb (Suc n) cl cur selfs (Set_n nt a v) ls w = Some (r, ls', w')"
    and "emit_node E (Set_n nt a v) st = Some st'" "core_node E T M t (Set_n nt a v)" "pending_self st = []"
  shows "outcome_ok env (compiled E env T tb M) base tmp s (code_size st') r ls' w'"
proof -
  let ?R = "compiled E env T tb M" and ?ev = "eval (fresh_id env) tb n cl cur (selfs_of a v)"
  note d = at_nodeD [OF assms(2)]
  let ?st0 = "announce_self a v st"
  obtain st1 where e: "emit_node E v ?st0 = Some st1" using assms(4) by auto
  define st2 where "st2 = emit_address_store a (n_span nt) st1"
  define st3 where "st3 = patch_self a v (n_span nt) st2"
  have st': "st' = snd (emit_load_const Nil_val (n_span nt) st3)" using assms(4) e by (simp add: st2_def st3_def)
  have cv: "core_node E T M False v" using assms(5) by simp
  have g: "appends st st1" "appends st1 st2" "appends st2 st3" "appends st3 st'"
    using appends_announce [OF appends_emit(1) [OF e]] by (auto simp: st2_def st3_def st' intro: append_rules)
  have g': "appends st2 st'" "appends st1 st'" using g appends_trans by blast+
  note f1 = fits_split [OF d(4) g(1) g'(2)]
  note f2 = fits_split [OF conjunct2 [OF f1] g(2) g'(1)]
  note f3 = fits_split [OF conjunct2 [OF f2] g(3,4)]
  have sz: "code_size ?st0 = code_size st" by (auto simp: announce_self_def code_size_def split: node.splits address.splits)
  have f0: "fits env f tb ?st0 st1" using conjunct1 [OF f1] sz by (simp add: fits_def)
  have an: "at_node E env T tb M n cur False ?st0 st1 f cl base ms tmp s ls w"
    by (rule at_node_here [OF assms(2) f0 _ sz]) (simp_all add: d(3))
  have sel: "pending_self ?st0 = selfs_of a v" "selfs_of a v = [] \<or> is_lambda v"
    using announce_pending(1) [OF assms(6)] announce_pending(3) by blast+
  note so = sim_outcome [OF assms(1) an _ e cv sel(2,1)]
  from assms(3) have "andThen (?ev v ls w) (\<lambda>x ls w. Option.bind (write_address cl a x ls w) (\<lambda>(ls', w').
      Option.bind (ties ls' (self_ties a v) w') (\<lambda>w''. Some (Val Nil_val, ls', w'')))) = Some (r, ls', w')"
    by (simp add: eval_step_def)
  then show ?thesis
  proof (cases rule: andThen_cases)
    case (1 x ls1 w1)
    obtain w2 where w2: "write_address cl a x ls1 w1 = Some (ls', w2)" "ties ls' (self_ties a v) w2 = Some w'" "r = Val Nil_val"
      using 1(2) by (auto simp: bind_eq_Some_conv)
    have l1: "length ls1 = length ls" by (rule keeps_lengthD [OF eval_length 1(1)])
    obtain ms1 x1 where v1: "steps env s (moved s (base @ ms1 @ tmp @ [x]) (code_size st1) x1)" "length ms1 = length ms"
        "frame_ok ?R f cl base ms1 (tmp @ [x]) (code_size st1) (moved s (base @ ms1 @ tmp @ [x]) (code_size st1) x1) ls1 w1"
      using d(2,7) by (auto intro: outcome_frame [OF so [OF 1(1)] d(6) l1])
    obtain ms2 x2 where v2: "agree ls' ms2" "length ms2 = length ms1" "wrel ?R x2 w2"
        "one env (moved s (base @ ms1 @ tmp @ [x]) (code_size st1) x1) (moved s (base @ ms2 @ tmp) (code_size st2) x2)"
      using store_address [OF v1(3) d(1) conjunct1 [OF f2, unfolded st2_def] w2(1)] by (auto simp: st2_def)
    let ?s2 = "moved s (base @ ms2 @ tmp) (code_size st2) x2"
    have room: "length (base @ ms2 @ tmp) + 3 < 2 ^ 32" using d(2,7) v1(2) v2(2) by simp
    have k2: "frame_ok ?R f cl base ms2 tmp (code_size st2) ?s2 ls' w2"
      by (rule frame_ok_moved [OF d(6) v2(1,3)]) (use room in simp)
    obtain x3 where v3: "wrel ?R x3 w'" "steps env ?s2 (moved s (base @ ms2 @ tmp) (code_size st3) x3)"
      using patch_all [OF k2 d(1) room _ w2(2) self_ties_bound [OF cv]] conjunct1 [OF f3]
      by (auto simp: st3_def patch_self_ties)
    let ?s3 = "moved s (base @ ms2 @ tmp) (code_size st3) x3"
    have k3: "frame_ok ?R f cl base ms2 tmp (code_size st3) ?s3 ls' w'"
      by (rule frame_ok_moved [OF d(6) v2(1) v3(1)]) (use room in simp)
    have "outcome_ok env ?R base tmp ?s3 (code_size st') (Val Nil_val) ls' w'"
      using load_const [OF k3 d(1) conjunct2 [OF f3, unfolded st']] by (simp add: st')
    moreover have "steps env s ?s3" using v1(1) v2(4) v3(2) by (meson rtranclp.rtrancl_into_rtrancl rtranclp_trans)
    ultimately show ?thesis unfolding w2(3) by (rule outcome_before [rotated])
  next
    case 2
    then show ?thesis using outcome_abrupt_here [OF so] by blast
  qed
qed


section \<open>Sequences\<close>

lemma at_node_stay:
  assumes "at_node E env T tb M n cur t a b f cl base ms tmp s ls w"
    and "fits env f tb a' b'" "prepared E T M cur a'" "agree ls1 ms1" "wrel (compiled E env T tb M) x1 w1" "length ms1 = length ms"
  shows "at_node E env T tb M n cur t a' b' f cl base ms1 tmp (moved s (base @ ms1 @ tmp) (code_size a') x1) ls1 w1"
proof -
  note d = at_nodeD [OF assms(1)]
  have M: "4 \<le> Suc n * M" using d(2) by simp
  have "length (base @ ms1 @ tmp) + 1 < 2 ^ 32" using d(7) M assms(6) by simp
  then have "frame_ok (compiled E env T tb M) f cl base ms1 tmp (code_size a') (moved s (base @ ms1 @ tmp) (code_size a') x1) ls1 w1"
    by (rule frame_ok_moved [OF d(6) assms(4,5)])
  then show ?thesis using d(1,2,7,8) assms(2,3,6) by (simp add: at_node_def)
qed

lemma pop_instr:
  assumes "frame_ok R f cl base ms (tmp @ [v]) p s ls w" "small_table env" "f < length (code_table env)"
    and "p < length (fn_code (func_of env f))" "fn_code (func_of env f) ! p = mk_instr Pop_op 0"
  shows "one env s (moved s (base @ ms @ tmp) (Suc p) (wd s))"
  by (rule one_instr [OF frame_ok_in [OF assms(1)] assms(2-5)])
     (simp add: exec_instr_def mk_instr_def modify_def butlast_append)

text \<open>The patches of a \<^verbatim>\<open>letrec\<close> come after its last initialiser.\<close>

definition knots :: "(u16 \<times> lambda_info) list \<Rightarrow> nat \<Rightarrow> (u16 \<times> u16 \<times> nat) list" where
  "knots inits i = (if length inits > 1 \<and> i + 1 = length inits then cross_patches inits else [])"

lemma knots_ties:
  "(if length inits > 1 \<and> i + 1 = length inits then ties ls (cross_patches inits) w else Some w) = ties ls (knots inits i) w"
  by (simp add: knots_def)

lemma knots_patch:
  "(if length inits > 1 \<and> i + 1 = length inits then patch_letrec inits sp st else st)
     = fold (\<lambda>(e, l, j). emit_cross_patch e l sp j) (knots inits i) st"
  by (simp add: knots_def patch_letrec_def)

lemma tidy_knots: "tidy a b \<Longrightarrow> tidy a (fold (\<lambda>(e, l, j). emit_cross_patch e l sp j) ps b)"
  by (rule tidy_fold) (auto simp: emit_cross_patch_def intro!: tidy_instr)

text \<open>The expression before the patches is an assignment, so it is not in tail position.\<close>

lemma knots_not_tail:
  assumes "i < length inits \<longrightarrow> drop i inits = letrec_inits (e # es)" "knots inits i \<noteq> []" "core_node E T M t e"
  shows "core_node E T M False e"
proof -
  have "letrec_inits (e # es) \<noteq> []" using assms(1,2) by (auto simp: knots_def split: if_splits)
  then show ?thesis using assms(3)
    by (cases "(e # es)" rule: letrec_inits.cases) auto
qed

lemma next_inits:
  "i < length inits \<longrightarrow> drop i inits = letrec_inits (e # es) \<Longrightarrow> Suc i < length inits \<longrightarrow> drop (Suc i) inits = letrec_inits es"
proof
  assume h: "i < length inits \<longrightarrow> drop i inits = letrec_inits (e # es)" "Suc i < length inits"
  then have "drop (Suc i) inits = tl (letrec_inits (e # es))" by (metis Suc_lessD drop_Suc tl_drop)
  moreover have "letrec_inits (e # es) \<noteq> []" using h by (metis Suc_lessD drop_eq_Nil not_less)
  ultimately show "drop (Suc i) inits = letrec_inits es" by (cases "(e # es)" rule: letrec_inits.cases) auto
qed

lemma step_body:
  assumes "sim E env T tb M n" "at_node E env T tb M (Suc n) cur t st st' f cl base ms tmp s ls w"
    and "eval_body (eval (fresh_id env) tb n) cl cur inits i es ls w = Some (r, ls', w')"
    and "emit_body E sp inits i es st = Some st'" "core_body E T M t es" "pending_self st = []"
    and "\<forall>(e, l, j) \<in> set (cross_patches inits). j < 65536" "i < length inits \<longrightarrow> drop i inits = letrec_inits es"
  shows "node_ok env (compiled E env T tb M) t base tmp s (code_size st') r ls' w'"
  using assms
proof (induction es arbitrary: i st s ms ls w)
  case (Cons e es)
  let ?R = "compiled E env T tb M" and ?ev = "eval (fresh_id env) tb n cl cur []"
  note d = at_nodeD [OF Cons.prems(2)]
  obtain st1 where e: "emit_node E e st = Some st1" using Cons.prems(4) by (auto simp: bind_eq_Some_conv)
  define st2 where "st2 = (if es = [] then st1 else emit_instr Pop_op 0 (n_span (info_of e)) st1)"
  define st3 where "st3 = fold (\<lambda>(e, l, j). emit_cross_patch e l sp j) (knots inits i) st2"
  have rest: "emit_body E sp inits (Suc i) es st3 = Some st'"
    using Cons.prems(4) e unfolding st3_def knots_patch [of inits i sp st2, symmetric]
    by (simp only: emit_body.simps bind.simps Let_def st2_def add_0_right add_Suc_right One_nat_def)
  obtain t1 where ce: "core_node E T M t1 e" "t1 \<longrightarrow> es = [] \<and> t" "es = [] \<longrightarrow> t1 = t"
    using Cons.prems(5) by (cases es) auto
  have td: "tidy st1 st2" "tidy st2 st3" by (simp_all add: st2_def st3_def tidy_instr tidy_knots)
  have g: "appends st st1" "appends st1 st2" "appends st2 st3" "appends st3 st'"
    using appends_emit(1) [OF e] td appends_emit(3) [OF rest] by (auto simp: tidy_def)
  have g': "appends st2 st'" "appends st1 st'" using g appends_trans by blast+
  note f1 = fits_split [OF d(4) g(1) g'(2)]
  note f2 = fits_split [OF conjunct2 [OF f1] g(2) g'(1)]
  note f3 = fits_split [OF conjunct2 [OF f2] g(3,4)]
  have n1: "neat st st1" using neat_emit(1) [OF e ce(1)] Cons.prems(6) by simp
  have p1: "prepared E T M cur st1" by (rule prepared_neat [OF d(3) n1 fits_nconsts [OF conjunct1 [OF f1] d(1)]])
  have p3: "prepared E T M cur st3" "pending_self st3 = []"
    using prepared_tidy [OF prepared_tidy [OF p1 td(1)] td(2)] td neat_pending [OF n1] by (auto simp: tidy_def)
  have an: "at_node E env T tb M n cur t1 st st1 f cl base ms tmp s ls w"
    by (rule at_node_here [OF Cons.prems(2) conjunct1 [OF f1] d(3) refl]) (use ce(2) in blast)
  have kb: "\<forall>(e, l, j) \<in> set (knots inits i). j < 65536" using Cons.prems(7) by (simp add: knots_def)
  from Cons.prems(3) have "andThen (?ev e ls w) (\<lambda>v ls w. case ties ls (knots inits i) w of None \<Rightarrow> None
      | Some w' \<Rightarrow> if es = [] then Some (Val v, ls, w') else eval_body (eval (fresh_id env) tb n) cl cur inits (i + 1) es ls w')
    = Some (r, ls', w')"
    by (simp only: eval_body.simps knots_ties)
  then show ?case
  proof (cases rule: andThen_cases)
    case (1 v ls1 w1)
    have l1: "length ls1 = length ls" by (rule keeps_lengthD [OF eval_length 1(1)])
    obtain w2 where w2: "ties ls1 (knots inits i) w1 = Some w2" using 1(2) by (auto split: option.splits)
    have "node_ok env ?R t base tmp s (code_size st') r ls' w'" if "knots inits i = []" "es = []"
    proof -
      have "st' = st1" using rest that by (simp add: st3_def st2_def)
      moreover have "r = Val v" "ls' = ls1" "w' = w1" using 1(2) that w2 by auto
      ultimately show ?thesis using sim_node [OF Cons.prems(1) an 1(1) e ce(1)] Cons.prems(6) ce(3) that(2) by simp
    qed
    moreover have "node_ok env ?R t base tmp s (code_size st') r ls' w'" if "knots inits i \<noteq> [] \<or> es \<noteq> []"
    proof -
      have cf: "core_node E T M False e" using that knots_not_tail [OF Cons.prems(8) _ ce(1)] ce(1,2) by (cases t1) auto
      have an': "at_node E env T tb M n cur False st st1 f cl base ms tmp s ls w" using an by (simp add: at_node_def)
      have o: "outcome_ok env ?R base tmp s (code_size st1) (Val v) ls1 w1"
        by (rule sim_outcome [OF Cons.prems(1) an' 1(1) e cf]) (simp_all add: Cons.prems(6))
      obtain ms1 x1 where v1: "steps env s (moved s (base @ ms1 @ tmp @ [v]) (code_size st1) x1)" "length ms1 = length ms"
          "frame_ok ?R f cl base ms1 (tmp @ [v]) (code_size st1) (moved s (base @ ms1 @ tmp @ [v]) (code_size st1) x1) ls1 w1"
          "agree ls1 ms1" "wrel ?R x1 w1"
        using d(2,7) by (auto intro: outcome_frame [OF o d(6) l1])
      define tmp1 where "tmp1 = (if es = [] then tmp @ [v] else tmp)"
      let ?s2 = "moved s (base @ ms1 @ tmp1) (code_size st2) x1"
      have s2: "steps env s ?s2"
      proof (cases "es = []")
        case True
        then show ?thesis using v1(1) by (simp add: tmp1_def st2_def)
      next
        case False
        then have st2: "st2 = emit_instr Pop_op 0 (n_span (info_of e)) st1" by (simp add: st2_def)
        note fi = fits_instr [OF conjunct1 [OF f2, unfolded st2] appends_refl]
        show ?thesis using pop_instr [OF v1(3) d(1,5)] fi v1(1) False
          by (auto simp: st2 tmp1_def intro: rtranclp.rtrancl_into_rtrancl)
      qed
      have room: "length (base @ ms1 @ tmp1) + 3 < 2 ^ 32" using d(2,7) v1(2) by (simp add: tmp1_def)
      have k2: "frame_ok ?R f cl base ms1 tmp1 (code_size st2) ?s2 ls1 w1"
        by (rule frame_ok_moved [OF d(6) v1(4,5)]) (use room in simp)
      obtain x2 where x2: "wrel ?R x2 w2" "steps env ?s2 (moved s (base @ ms1 @ tmp1) (code_size st3) x2)"
        using patch_all [OF k2 d(1) room _ w2 kb] conjunct1 [OF f3] by (auto simp: st3_def)
      have s3: "steps env s (moved s (base @ ms1 @ tmp1) (code_size st3) x2)" using s2 x2(2) by (rule rtranclp_trans)
      show ?thesis
      proof (cases "es = []")
        case True
        then have "st' = st3" "r = Val v" "ls' = ls1" "w' = w2" using rest 1(2) w2 by auto
        then show ?thesis using s3 True v1(4) x2(1) by (auto simp: tmp1_def outcome_ok_def node_ok_def)
      next
        case False
        have an3: "at_node E env T tb M (Suc n) cur t st3 st' f cl base ms1 tmp (moved s (base @ ms1 @ tmp) (code_size st3) x2) ls1 w2"
          by (rule at_node_stay [OF Cons.prems(2) conjunct2 [OF f3] p3(1) v1(4) x2(1) v1(2)])
        have ev: "eval_body (eval (fresh_id env) tb n) cl cur inits (Suc i) es ls1 w2 = Some (r, ls', w')"
          using 1(2) w2 False by simp
        have cb: "core_body E T M t es" using Cons.prems(5) False by (cases es) auto
        have "node_ok env ?R t base tmp (moved s (base @ ms1 @ tmp) (code_size st3) x2) (code_size st') r ls' w'"
          by (rule Cons.IH [OF Cons.prems(1) an3 ev rest cb p3(2) Cons.prems(7) next_inits [OF Cons.prems(8)]])
        then show ?thesis using s3 False by (simp add: tmp1_def node_before)
      qed
    qed
    ultimately show ?thesis by blast
  next
    case 2
    have "node_ok env ?R t1 base tmp s (code_size st1) r ls' w'"
      by (rule sim_node [OF Cons.prems(1) an 2(1) e ce(1)]) (simp_all add: Cons.prems(6))
    then show ?thesis using outcome_abrupt_here 2(2) ce(2) unfolding node_ok_def by blast
  qed
qed simp

lemma letrec_bound: "core_body E T M t es \<Longrightarrow> (s, l) \<in> set (letrec_inits es) \<Longrightarrow> length (upval_sources l) < 65536"
proof (induction es rule: letrec_inits.induct)
  case (1 nt slot nt' l' b es)
  then show ?case by (cases es) (auto simp: core_lambda_def)
qed auto

lemma cross_bound:
  assumes "core_body E T M t es"
  shows "\<forall>(e, l, j) \<in> set (cross_patches (letrec_inits es)). j < 65536"
proof -
  have "j < 65536" if "x < length (letrec_inits es)" "j \<in> set (captures_of q (snd (letrec_inits es ! x)))" for x q j
  proof -
    have "(fst (letrec_inits es ! x), snd (letrec_inits es ! x)) \<in> set (letrec_inits es)" using that(1) by simp
    then show ?thesis using letrec_bound [OF assms] captures_bound [OF that(2)] by (meson order_less_trans)
  qed
  then show ?thesis unfolding cross_patches_def by clarsimp (meson order_less_trans)
qed


section \<open>Calls\<close>

lemma eval_variable:
  "eval fr tb n cl cur selfs (Var_n nt (Upval i)) ls w = Some (r, ls', w') \<Longrightarrow> \<exists>v. r = Val v \<and> ls' = ls \<and> w' = w"
  by (cases n) (auto simp: eval_step_def read_address_def finish_def bind_eq_Some_conv split: option.splits if_splits)

lemma step_self_call:
  assumes "sim E env T tb M n" "at_node E env T tb M (Suc n) cur t st st' f cl base ms tmp s ls w"
    and "with_args (eval_args (eval (fresh_id env) tb n) cl cur args ls w) (\<lambda>vs ls w.
         andThen (eval (fresh_id env) tb n cl cur [] g ls w) (\<lambda>g' ls w.
           if g' \<noteq> cl \<or> map_option fst (as_closure w g') \<noteq> cur then None
           else apply_closure (fresh_id env) (eval (fresh_id env) tb n) g' vs ls w)) = Some (r, ls', w')"
    and "emit_all E args st = Some st1" "self_call cur True g (length args)" "t"
    and "st' = emit_back_jump (entry_pc (last (active_lambdas st))) sp (store_params (param_slots (last (active_lambdas st))) sp st1)"
    and "list_all (core_node E T M False) args" "pending_self st = []"
  shows "node_ok env (compiled E env T tb M) t base tmp s (code_size st') r ls' w'"
proof -
  let ?R = "compiled E env T tb M" and ?ev = "eval (fresh_id env) tb n"
  note d = at_nodeD [OF assms(2)]
  obtain q i l b selfs where sc: "g = Var_n q (Upval i)" "cur = Some (Lam l b selfs)" "\<not> ar_rest (lam_arity l)"
      "length (lam_params l) = 1" "length args = 1"
    using assms(5) by (auto simp: self_call_def split: node.splits address.splits option.splits lam.splits)
  have tk: "frames s \<noteq> []" "fr_kind (last (frames s)) = Normal_frame" "?R f (Lam l b selfs)" "unat (ar_required (lam_arity l)) \<le> length ms"
    using d(8) [OF assms(6)] sc(2) by (auto simp: tail_ok_def)
  have al: "last (active_lambdas st) = active_of E l selfs" "core_lambda E M l"
    using d(3) sc(2) by (auto simp: prepared_def cur_ok_def)
  have ps: "param_slots (active_of E l selfs) = [0]" "entry_pc (active_of E l selfs) = 0"
    using al(2) sc(4) by (auto simp: core_lambda_def active_of_def Let_def)
  have req: "unat (ar_required (lam_arity l)) = 1" using al(2) sc(4) by (simp add: core_lambda_def)
  let ?st2 = "emit_instr StoreLocal_op 0 sp st1" and ?j = "word_of_int (- int (Suc (Suc (code_size st1)))) :: u32"
  have st': "st' = emit_instr Jump_op ?j sp ?st2"
    using assms(7) by (simp add: al(1) ps emit_back_jump_def store_params_def)
  have g: "appends st st1" "appends st ?st2" using appends_emit(2) [OF assms(4)] by (auto intro: appends_emit_instr)
  note f2 = fits_instr [OF d(4) [unfolded st'] g(2)]
  note f1 = fits_instr [OF conjunct1 [OF f2] g(1)]
  have am: "length args < M" using sc(5) d(2) by simp
  from assms(3) show ?thesis
  proof (cases rule: with_args_cases)
    case (1 vs ls1 w1)
    have lv: "length vs = 1" using eval_args_length [OF eval_length 1(1)] sc(5) by simp
    then obtain v where vs: "vs = [v]" by (cases vs) auto
    obtain g' where g': "?ev cl cur [] g ls1 w1 = Some (Val g', ls1, w1)" "g' = cl" "map_option fst (as_closure w1 cl) = cur"
        "apply_closure (fresh_id env) ?ev cl vs ls1 w1 = Some (r, ls', w')"
      using 1(2) unfolding sc(1)
      by (cases rule: andThen_cases) (auto dest: eval_variable split: if_splits)
    obtain us p where cl: "as_closure w1 cl = Some (Lam l b selfs, us, p)" using g'(3) sc(2) by auto
    obtain ls2 where ev: "?ev cl (Some (Lam l b selfs)) [] b (frame_slots l [v]) w1 = Some (r, ls2, w')"
      using g'(4) cl sc(3) by (auto simp: apply_closure_def vs bind_params_def Let_def split: if_splits)
    obtain ms1 x1 where v1: "steps env s (moved s (base @ ms1 @ tmp @ vs) (code_size st1) x1)" "length ms1 = length ms"
        "frame_ok ?R f cl base ms1 (tmp @ vs) (code_size st1) (moved s (base @ ms1 @ tmp @ vs) (code_size st1) x1) ls1 w1"
      by (rule args_frame [OF assms(1,2) conjunct1 [OF f1] 1(1) assms(4,8,9) am])
    have "return_ok env ?R base (moved s (base @ ms1 @ tmp @ [v]) (code_size st1) x1) r w'"
      by (rule sim_self_jump [OF assms(1) d(1) _ d(5) v1(3) [unfolded vs] _ _ _ tk(3) sc(3) req _ ev])
         (use f1 f2 d(2,7) tk v1(2) req in simp_all)
    then show ?thesis using return_before [OF v1(1)] assms(6) by (simp add: node_ok_def vs)
  next
    case 2
    have "values_ok env ?R base tmp s (code_size st1) (Inl r) ls' w'"
      by (rule args_outcome(1) [OF assms(1,2) conjunct1 [OF f1] 2 assms(4,8,9) am])
    then show ?thesis by (intro outcome_node values_cut)
  qed
qed

lemma step_call:
  assumes "sim E env T tb M n" "at_node E env T tb M (Suc n) cur t st st' f cl base ms tmp s ls w"
    and "eval (fresh_id env) tb (Suc n) cl cur selfs (Call_n nt g args) ls w = Some (r, ls', w')"
    and "emit_node E (Call_n nt g args) st = Some st'" "core_node E T M t (Call_n nt g args)" "pending_self st = []"
  shows "node_ok env (compiled E env T tb M) t base tmp s (code_size st') r ls' w'"
proof -
  let ?R = "compiled E env T tb M" and ?ev = "eval (fresh_id env) tb n"
  note d = at_nodeD [OF assms(2)]
  have cn: "core_node E T M False g" "list_all (core_node E T M False) args" "length args + 1 < M" "n_tail nt \<longrightarrow> t"
    using assms(5) by auto
  have am: "length args < M" using cn(3) by simp
  have ev: "with_args (eval_args ?ev cl cur args ls w) (\<lambda>vs ls w. andThen (?ev cl cur [] g ls w) (\<lambda>g' ls w.
      if self_call cur (n_tail nt) g (length args) \<and> (g' \<noteq> cl \<or> map_option fst (as_closure w g') \<noteq> cur) then None
      else apply_closure (fresh_id env) ?ev g' vs ls w)) = Some (r, ls', w')"
    using assms(3) by (simp add: eval_step_def)
  have "cur_ok E M cur st" using d(3) by (simp add: prepared_def)
  note target = self_tail_target_iff [OF this, of nt g args]
  show ?thesis
  proof (cases "self_call cur (n_tail nt) g (length args)")
    case True
    then have nt: "n_tail nt" by (simp add: self_call_def)
    obtain st1 where e: "emit_all E args st = Some st1"
        "st' = emit_back_jump (entry_pc (last (active_lambdas st))) (n_span nt) (store_params (param_slots (last (active_lambdas st))) (n_span nt) st1)"
      using assms(4) target True by (auto simp: nt)
    show ?thesis
      by (rule step_self_call [OF assms(1,2) _ e(1) _ _ e(2) cn(2) assms(6)]) (use ev True nt cn(4) in simp_all)
  next
    case False
    let ?op = "if n_tail nt then TailCall_op else Call_op"
    obtain st1 st2 where e: "emit_all E args st = Some st1" "emit_node E g st1 = Some st2"
        "st' = emit_instr ?op (of_nat (length args)) (n_span nt) st2"
      using assms(4) target False by (auto simp: bind_eq_Some_conv)
    have g: "appends st st1" "appends st1 st2" using appends_emit e by blast+
    note fi = fits_instr [OF d(4) [unfolded e(3)] appends_trans [OF g]]
    note fs = fits_split [OF conjunct1 [OF fi] g]
    note ar = args_outcome [OF assms(1,2) conjunct1 [OF fs] _ e(1) cn(2) assms(6) am]
      and af = args_frame [OF assms(1,2) conjunct1 [OF fs] _ e(1) cn(2) assms(6) am]
    from ev show ?thesis
    proof (cases rule: with_args_cases)
      case (1 vs ls1 w1)
      obtain ms1 x1 where v1: "steps env s (moved s (base @ ms1 @ tmp @ vs) (code_size st1) x1)" "length ms1 = length ms"
          "frame_ok ?R f cl base ms1 (tmp @ vs) (code_size st1) (moved s (base @ ms1 @ tmp @ vs) (code_size st1) x1) ls1 w1"
          "agree ls1 ms1" "wrel ?R x1 w1" "length vs = length args" "length ls1 = length ls"
        by (rule af [OF 1(1)])
      let ?s1 = "moved s (base @ ms1 @ tmp @ vs) (code_size st1) x1"
      have an: "at_node E env T tb M n cur False st1 st2 f cl base ms1 (tmp @ vs) ?s1 ls1 w1"
        using at_node_move [OF assms(2) conjunct2 [OF fs] ar(2) [OF 1(1)] v1(4,5,2), of "tmp @ vs" False] v1(6) am by simp
      note so = sim_outcome [OF assms(1) an _ e(2) cn(1), of "[]", simplified, OF _ ar(3) [OF 1(1)]]
      from 1(2) show ?thesis
      proof (cases rule: andThen_cases)
        case (1 g' ls2 w2)
        have ap: "apply_closure (fresh_id env) ?ev g' vs ls2 w2 = Some (r, ls', w')" using 1(2) False by auto
        have l2: "length ls2 = length ls1" by (rule keeps_lengthD [OF eval_length 1(1)])
        have "length (base @ ms1 @ tmp @ vs) + 2 < 2 ^ 32" using d(2,7) v1(2,6) cn(3) by simp
        then obtain ms2 x2 where v2: "steps env ?s1 (moved ?s1 (base @ ms2 @ (tmp @ vs) @ [g']) (code_size st2) x2)" "length ms2 = length ms1"
            "frame_ok ?R f cl base ms2 ((tmp @ vs) @ [g']) (code_size st2) (moved ?s1 (base @ ms2 @ (tmp @ vs) @ [g']) (code_size st2) x2) ls2 w2"
          by (rule outcome_frame [OF so [OF 1(1)] v1(3) l2]) blast
        let ?s2 = "moved s (base @ ms2 @ tmp @ vs @ [g']) (code_size st2) x2"
        have k2: "frame_ok ?R f cl base ms2 (tmp @ vs @ [g']) (code_size st2) ?s2 ls2 w2" using v2(3) by simp
        have s2: "steps env s ?s2" using rtranclp_trans [OF v1(1) v2(1)] by simp
        have room: "length (base @ ms2 @ tmp) + M + Suc n * M < 2 ^ 32" using d(7) v1(2) v2(2) by simp
        have vm: "length vs < M" "0 < M" using v1(6) am by auto
        show ?thesis
        proof (cases "n_tail nt")
          case True
          then have tk: "t" "frames s \<noteq> []" "fr_kind (last (frames s)) = Normal_frame" using d(8) cn(4) by (auto simp: tail_ok_def)
          have "return_ok env ?R base ?s2 r w'"
            by (rule sim_tail_call [OF assms(1) d(1) vm(2) d(5) k2 _ _ ap room vm(1)]) (use fi True v1(6) tk in simp_all)
          then show ?thesis using return_before [OF s2] tk(1) by (simp add: node_ok_def)
        next
          case False
          have "outcome_ok env ?R base tmp ?s2 (Suc (code_size st2)) r ls' w'"
            by (rule sim_call [OF assms(1) d(1) vm(2) d(5) k2 _ _ ap room vm(1)]) (use fi False v1(6) in simp_all)
          then show ?thesis using outcome_before [OF s2] by (simp add: e(3) outcome_node)
        qed
      next
        case 2
        have "outcome_ok env ?R base tmp ?s1 (code_size st') r ls' w'" by (rule outcome_abrupt [OF so [OF 2(1)] 2(2)])
        then show ?thesis by (intro outcome_node) (rule outcome_before [OF v1(1)])
      qed
    next
      case 2
      then show ?thesis by (intro outcome_node values_cut [OF ar(1)])
    qed
  qed
qed

section \<open>The simulation\<close>

lemma sim_step:
  assumes "sim E env T tb M n" "small_table env" "4 \<le> M"
  shows "sim E env T tb M (Suc n)"
  unfolding sim_def
proof (intro allI impI)
  fix e st st' selfs cl cur f base ms tmp s ls w r ls' w' t
  assume ev: "eval (fresh_id env) tb (Suc n) cl cur selfs e ls w = Some (r, ls', w')" and em: "emit_node E e st = Some st'"
    and cn: "core_node E T M t e" and se: "selfs = [] \<or> is_lambda e" and pd: "pending_self st = selfs"
    and h: "prepared E T M cur st" "fits env f tb st st'"
      "frame_ok (compiled E env T tb M) f cl base ms tmp (code_size st) s ls w" "length (base @ ms @ tmp) + Suc (Suc n) * M < 2 ^ 32"
      "t \<longrightarrow> tail_ok (compiled E env T tb M) cur f (length ms) s"
  have an: "at_node E env T tb M (Suc n) cur t st st' f cl base ms tmp s ls w" using h assms(2,3) by (simp add: at_node_def)
  show "node_ok env (compiled E env T tb M) t base tmp s (code_size st') r ls' w'"
  proof (cases e)
    case (Const_n nt l)
    then show ?thesis using step_const [OF an] ev em by (auto intro: outcome_node)
  next
    case (Var_n nt a)
    then show ?thesis using step_var [OF an] ev em by (auto intro: outcome_node)
  next
    case (If_n nt a b c)
    then show ?thesis using step_if [OF assms(1) an] ev em cn se pd by auto
  next
    case (Begin_n nt es)
    then have b: "core_body E T M t es" "emit_body E (n_span nt) (letrec_inits es) 0 es st = Some st'" "pending_self st = []"
      "eval_body (eval (fresh_id env) tb n) cl cur (letrec_inits es) 0 es ls w = Some (r, ls', w')"
      using ev em cn se pd by (auto simp: eval_step_def)
    show ?thesis by (rule step_body [OF assms(1) an b(4,2,1,3) cross_bound [OF b(1)]]) simp
  next
    case (Set_n nt a v)
    then show ?thesis using step_set [OF assms(1) an] ev em cn se pd by (auto intro: outcome_node)
  next
    case (Lambda_n nt l b)
    then show ?thesis using step_lambda [OF an] ev em cn pd by (auto intro: outcome_node)
  next
    case (Call_n nt g args)
    then show ?thesis using step_call [OF assms(1) an] ev em cn se pd by auto
  next
    case (PrimitiveCall_n nt k args)
    then show ?thesis using step_primitive [OF assms(1) an] ev em cn se pd by (auto intro: outcome_node)
  next
    case (Raise_n nt tg v)
    then show ?thesis using step_raise [OF assms(1) an] ev em cn se pd by (auto intro: outcome_node)
  next
    case (Guard_n nt tg b)
    then show ?thesis using step_guard [OF assms(1) an] ev em cn se pd by (auto intro: outcome_node)
  qed (use cn in auto)
qed

lemma sim_all:
  assumes "small_table env" "4 \<le> M"
  shows "sim E env T tb M n"
proof (induction n)
  case 0
  show ?case by (simp add: sim_def)
next
  case (Suc n)
  then show ?case by (rule sim_step [OF _ assms])
qed

end
