(* ===== verification/Correctness.thy ===== *)
theory Correctness
  imports Compile
begin

text \<open>
  The correctness of the emitter and the virtual machine together: running the code of a module
  gives what the reference semantics gives for its top-level forms.
\<close>

section \<open>Top-level forms\<close>

definition forms_ok :: "vm_env \<Rightarrow> (nat \<Rightarrow> lam \<Rightarrow> bool) \<Rightarrow> vm \<Rightarrow> nat \<Rightarrow> outcome \<Rightarrow> slots \<Rightarrow> store \<Rightarrow> bool" where
  "forms_ok env R s p r ls' w' \<longleftrightarrow> (case r of
       Val v \<Rightarrow> v = Nil_val \<and> (\<exists>ms' x'. agree ls' ms' \<and> wrel R x' w' \<and> steps env s (moved s ms' p x'))
     | Raised t x \<Rightarrow> \<exists>keep. raised_at env R keep s t x w'
     | Fault e \<Rightarrow> faulted env R s e w')"

lemma forms_before:
  "steps env s (moved s k p w) \<Longrightarrow> forms_ok env R (moved s k p w) p' r ls' w' \<Longrightarrow> forms_ok env R s p' r ls' w'"
  by (cases r) (auto simp: forms_ok_def intro: raised_at_before faulted_before rtranclp_trans)

lemma appends_toplevel: "emit_toplevel E es st = Some st' \<Longrightarrow> appends st st'"
proof (induction es arbitrary: st)
  case (Cons e es)
  then obtain st1 where "emit_node E e st = Some st1" "emit_toplevel E es (emit_instr Pop_op 0 (n_span (info_of e)) st1) = Some st'"
    by (auto simp: bind_eq_Some_conv)
  then show ?case using Cons.IH appends_emit(1) by (meson appends_emit_instr appends_trans)
qed simp

lemma sim_forms:
  assumes "at_node E env T tb M n None False st st' f 0 [] ms [] s ls w"
    and "eval_forms (eval (fresh_id env) tb n) es ls w = Some (r, ls', w')" "emit_toplevel E es st = Some st'"
    and "list_all (core_node E T M False) es" "pending_self st = []"
  shows "forms_ok env (compiled E env T tb M) s (code_size st') r ls' w'"
  using assms
proof (induction es arbitrary: st s ms ls w)
  case Nil
  note d = at_nodeD [OF Nil.prems(1)]
  have "moved s ms (code_size st) (wd s) = s" using moved_same [OF frame_ok_in [OF d(6)]] by simp
  then have "\<exists>ms' x'. agree ls ms' \<and> wrel (compiled E env T tb M) x' w \<and> steps env s (moved s ms' (code_size st) x')"
    using d(9,10) by (metis rtranclp.rtrancl_refl)
  then show ?case using Nil.prems(2,3) by (cases r) (simp_all add: forms_ok_def)
next
  case (Cons e es)
  let ?R = "compiled E env T tb M"
  note d = at_nodeD [OF Cons.prems(1)]
  obtain st1 where e: "emit_node E e st = Some st1" using Cons.prems(3) by (auto simp: bind_eq_Some_conv)
  let ?st2 = "emit_instr Pop_op 0 (n_span (info_of e)) st1"
  have rest: "emit_toplevel E es ?st2 = Some st'" using Cons.prems(3) e by simp
  have cn: "core_node E T M False e" "list_all (core_node E T M False) es" using Cons.prems(4) by auto
  have n1: "neat st st1" using neat_emit(1) [OF e cn(1)] Cons.prems(5) by simp
  have p2: "pending_self ?st2 = []" using neat_pending [OF n1] by simp
  have g: "appends st st1" "appends st1 ?st2" "appends ?st2 st'"
    using appends_emit(1) [OF e] appends_toplevel [OF rest] by (auto intro: appends_emit_instr)
  have gg: "appends st1 st'" "appends st ?st2" using g appends_trans by blast+
  note f1 = fits_split [OF d(4) g(1) gg(1)]
  note f2 = fits_split [OF conjunct2 [OF f1] g(2,3)]
  note fi = fits_instr [OF conjunct1 [OF f2] appends_refl]
  have p1: "prepared E T M None st1" by (rule prepared_neat [OF d(3) n1 fits_nconsts [OF conjunct1 [OF f1] d(1)]])
  have an: "at_node E env T tb M n None False st st1 f 0 [] ms [] s ls w"
    using Cons.prems(1) conjunct1 [OF f1] by (simp add: at_node_def)
  have o: "outcome_ok env ?R [] [] s (code_size st1) q ls1 w1" if "eval (fresh_id env) tb n 0 None [] e ls w = Some (q, ls1, w1)" for q ls1 w1
    by (rule sim_outcome [OF sim_all [OF d(1,2)] an that e cn(1)]) (simp_all add: Cons.prems(5))
  from Cons.prems(2) have "andThen (eval (fresh_id env) tb n 0 None [] e ls w) (\<lambda>_ ls w. eval_forms (eval (fresh_id env) tb n) es ls w)
      = Some (r, ls', w')"
    by simp
  then show ?case
  proof (cases rule: andThen_cases)
    case (1 v ls1 w1)
    have l1: "length ls1 = length ls" by (rule keeps_lengthD [OF eval_length 1(1)])
    obtain ms1 x1 where v1: "steps env s (moved s (ms1 @ [v]) (code_size st1) x1)" "length ms1 = length ms"
        "frame_ok ?R f 0 [] ms1 [v] (code_size st1) (moved s (ms1 @ [v]) (code_size st1) x1) ls1 w1"
        "agree ls1 ms1" "wrel ?R x1 w1"
      using d(2,7) outcome_frame [OF o [OF 1(1)] d(6) l1] by auto
    have "one env (moved s (ms1 @ [v]) (code_size st1) x1) (moved s ms1 (code_size ?st2) x1)"
      using pop_instr [of ?R f 0 "[]" ms1 "[]" v "code_size st1" "moved s (ms1 @ [v]) (code_size st1) x1" ls1 w1 env] v1(3) d(1,5) fi by simp
    then have s2: "steps env s (moved s ms1 (code_size ?st2) x1)" using v1(1) by (rule rtranclp.rtrancl_into_rtrancl [rotated])
    have "at_node E env T tb M n None False ?st2 st' f 0 [] ms1 [] (moved s ms1 (code_size ?st2) x1) ls1 w1"
      using at_node_stay [OF Cons.prems(1) conjunct2 [OF f2] _ v1(4,5,2)] p1 by simp
    then have "forms_ok env ?R (moved s ms1 (code_size ?st2) x1) (code_size st') r ls' w'"
      by (rule Cons.IH [OF _ 1(2) rest cn(2) p2])
    then show ?thesis by (rule forms_before [OF s2])
  next
    case 2
    then show ?thesis using o [OF 2(1)] by (cases r) (auto simp: outcome_ok_def forms_ok_def)
  qed
qed


lemma eval_forms_length:
  "eval_forms (eval fr tb n) es ls w = Some (r, ls', w') \<Longrightarrow> length ls' = length ls"
proof (induction es arbitrary: ls w)
  case (Cons e es)
  from Cons.prems have "andThen (eval fr tb n 0 None [] e ls w) (\<lambda>_ ls w. eval_forms (eval fr tb n) es ls w) = Some (r, ls', w')" by simp
  then show ?case
    by (cases rule: andThen_cases) (use Cons.IH keeps_lengthD [OF eval_length] in fastforce)+
qed simp

section \<open>Modules\<close>

text \<open>What the machine answers for an outcome of the module: a raise that nothing catches is an error.\<close>

definition answer :: "outcome \<Rightarrow> intern_table \<Rightarrow> runtime_error + lispval" where
  "answer r tab = (case r of
       Val v \<Rightarrow> Inr v
     | Raised t x \<Rightarrow> Inl (vm_error UserThrow (''Unhandled raise: '' @
         (if is_boxed t \<and> tag t = Symbol_tag
          then (case get_string (payload t) tab of Inr n \<Rightarrow> n | Inl _ \<Rightarrow> ''unknown-tag'') else ''unknown-tag'')))
     | Fault e \<Rightarrow> Inl e)"

lemma run_fails:
  assumes "steps env s s1" "running env s1" "step env s1 = Some (Inl e, s2)"
  shows "\<exists>m. \<forall>k. run_loop env (m + k) s = Some (Inl e, s2)"
proof -
  obtain m where m: "\<And>k. run_loop env (m + k) s = run_loop env k s1" using run_loop_steps [OF assms(1)] by blast
  have "run_loop env (Suc m + k) s = Some (Inl e, s2)" for k
    using m [of "Suc k"] assms(2,3) by (simp add: bind_run_def)
  then show ?thesis by blast
qed

lemma run_ends:
  assumes "steps env s s1" "\<not> running env s1"
  shows "\<exists>m. \<forall>k. run_loop env (m + k) s = Some (Inr (), s1)"
  using run_loop_steps [OF assms(1)] run_loop_done [OF assms(2)] by metis

text \<open>The top-level frame returns to the caller of \<^verbatim>\<open>execute\<close>.\<close>

lemma return_main:
  assumes "frames s \<noteq> []" "fr_kind (last (frames s)) = Sentinel" "unat (fp s) = 0" "0 < m"
  shows "\<exists>s'. handle_return env m v s = Some (Inr (), s') \<and> cur_func s' = None \<and> stack s' = [v] \<and> wd s' = wd s"
proof -
  obtain j where "m = Suc j" using assms(4) by (cases m) auto
  then show ?thesis using assms by (simp add: handle_return.simps(2) Let_def push_def resize_def)
qed

lemma forms_run:
  assumes "forms_ok env R s p r ls' w'" "catches s = []"
    and "\<And>ms x. steps env s (moved s ms p x) \<Longrightarrow> wrel R x w' \<Longrightarrow> agree ls' ms \<Longrightarrow> 
      \<exists>s1. steps env s s1 \<and> \<not> running env s1 \<and> stack s1 = [Nil_val] \<and> wrel R (wd s1) w'"
  shows "\<exists>m s1. wrel R (wd s1) w' \<and> (\<forall>k. bind_run (run_loop env (m + k)) (\<lambda>_. pop_run) s = Some (answer r (interns w'), s1))"
proof (cases r)
  case (Val v)
  then obtain s1 where 1: "steps env s s1" "\<not> running env s1" "stack s1 = [Nil_val]" "wrel R (wd s1) w'" "v = Nil_val"
    using assms(1,3) by (auto simp: forms_ok_def)
  obtain m where m: "\<And>k. run_loop env (m + k) s = Some (Inr (), s1)" using run_ends [OF 1(1,2)] by blast
  have "bind_run (run_loop env (m + k)) (\<lambda>_. pop_run) s = Some (answer r (interns w'), s1\<lparr> stack := [] \<rparr>)" for k
    unfolding bind_run_def using m 1(3,5) Val by (simp add: pop_run_def pop_def answer_def)
  then show ?thesis using 1(4) by (intro exI [of _ m] exI [of _ "s1\<lparr> stack := [] \<rparr>"]) simp
next
  case (Raised t x)
  then obtain keep s1 extra fs mr w1 a b c d where 1: "steps env s s1" "running env s1" "wrel R w1 w'"
      "step env s1 = raise_to env (catches s) t x (s\<lparr> stack := keep @ extra, frames := frames s @ fs,
       catches := catches s @ mr, wd := w1, cur_func := a, pc := b, fp := c, cur_closure := d \<rparr>)" (is "_ = raise_to _ _ _ _ ?s2")
    using assms(1) unfolding forms_ok_def raised_at_def by auto
  have i: "interns w1 = interns w'" using 1(3) by (simp add: wrel_def)
  obtain e where e: "answer r (interns w') = Inl e" "step env s1 = Some (Inl e, ?s2)"
    using 1(4) Raised i by (simp add: answer_def raise_to_def assms(2) find_catch_def Let_def)
  obtain m where m: "\<And>k. run_loop env (m + k) s = Some (Inl e, ?s2)" using run_fails [OF 1(1,2) e(2)] by blast
  show ?thesis using m 1(3) e(1) by (intro exI [of _ m] exI [of _ ?s2]) (simp add: bind_run_def)
next
  case (Fault e)
  then obtain s1 s2 where 1: "steps env s s1" "running env s1" "step env s1 = Some (Inl e, s2)" "wrel R (wd s2) w'"
    using assms(1) by (auto simp: forms_ok_def faulted_def)
  obtain m where m: "\<And>k. run_loop env (m + k) s = Some (Inl e, s2)" using run_fails [OF 1(1-3)] by blast
  show ?thesis using m 1(4) Fault by (intro exI [of _ m] exI [of _ s2]) (simp add: bind_run_def answer_def)
qed

text \<open>The function of a module: its forms, and the return of nil.\<close>

lemma module_layout:
  assumes "emit_module E h T reg = Some (i, st)" "prefix (es_registry st) (code_table env)" "small_table env"
    and "str_to_id (es_interns st) \<subseteq>\<^sub>m str_to_id tb"
  obtains st1 where "emit_toplevel E (toplevel_inits (ee_sem E)) (init_state E h T reg) = Some st1"
    "fits env i tb (init_state E h T reg) (emit_instr Return_op 0 default_span (snd (emit_load_const Nil_val default_span st1)))"
    "stack_size (func_of env i) = sem_stack_size (ee_sem E)"
proof -
  let ?s0 = "init_state E h T reg"
  obtain st1 where st1: "emit_toplevel E (toplevel_inits (ee_sem E)) ?s0 = Some st1" using assms(1) by (auto simp: emit_module_def)
  let ?st3 = "emit_instr Return_op 0 default_span (snd (emit_load_const Nil_val default_span st1))"
  have st: "i = length (es_registry ?st3)" "es_registry st = es_registry ?st3 @ [es_func ?st3]" "es_interns st = es_interns ?st3"
    using assms(1) st1 by (auto simp: emit_module_def registry_add_def Let_def)
  have i: "i < length (code_table env)" using prefix_length_le [OF assms(2)] st by simp
  have fn: "func_of env i = es_func ?st3" using assms(2) st(1,2) by (auto simp: func_of_def prefix_def nth_append)
  have "prefix (es_registry ?st3) (es_registry st)" by (simp add: st(2))
  then have "prefix (es_registry ?st3) (code_table env)" using assms(2) by (rule prefix_order.trans)
  then have ft: "fits env i tb ?s0 ?st3" using i fn assms(4) st(3) by (auto simp: fits_def code_size_def)
  have "appends ?s0 ?st3" using appends_toplevel [OF st1] by (intro appends_emit_instr appends_load_const)
  then have "header (es_func ?st3) = header (es_func ?s0)" by (simp add: appends_def)
  from arg_cong [OF this, of stack_size] have "stack_size (func_of env i) = sem_stack_size (ee_sem E)"
    by (simp add: fn header_def init_state_def empty_function_def)
  then show ?thesis using that st1 ft by blast
qed

text \<open>After the forms the code of a module returns nil to \<^verbatim>\<open>execute\<close>.\<close>

lemma module_returns:
  fixes st1 :: emit_state
  defines "st2 \<equiv> snd (emit_load_const Nil_val default_span st1)"
  assumes k0: "frame_ok R i 0 [] ms [] p v0 ls w" and env: "small_table env" "i < length (code_table env)"
    and ft: "fits env i tb st0 (emit_instr Return_op 0 default_span st2)" and g: "appends st0 st1" "appends st1 st2"
    and h: "steps env v0 (moved v0 ms1 (code_size st1) x1)" "wrel R x1 w'" "agree ls' ms1" and l: "length ms1 + 2 < 2 ^ 32"
    and v0: "frames v0 \<noteq> []" "fr_kind (last (frames v0)) = Sentinel" "fp v0 = 0"
  shows "\<exists>s1. steps env v0 s1 \<and> \<not> running env s1 \<and> stack s1 = [Nil_val] \<and> wrel R (wd s1) w'"
proof -
  note fi = fits_instr [OF ft appends_trans [OF g]]
  note fs = fits_split [OF conjunct1 [OF fi] g]
  let ?v1 = "moved v0 ms1 (code_size st1) x1"
  have k1: "frame_ok R i 0 [] ms1 [] (code_size st1) ?v1 ls' w'"
    using frame_ok_moved [OF k0 h(3,2), of "[]"] l by simp
  obtain ms2 x2 where 2: "wrel R x2 w'" "steps env ?v1 (moved ?v1 ([] @ ms2 @ [] @ [Nil_val]) (code_size st2) x2)"
    using load_const [OF k1 env(1) conjunct2 [OF fs, unfolded st2_def]] by (auto simp: outcome_ok_def st2_def)
  let ?v2 = "moved v0 (ms2 @ [Nil_val]) (code_size st2) x2"
  have in2: "in_frame i 0 [] ms2 [Nil_val] (code_size st2) ?v2"
    using in_frame_moved [OF frame_ok_in [OF k0], of ms2 "[Nil_val]"] by simp
  have "0 < fuel env" using env(1) by (simp add: small_table_def)
  then obtain v3 where 3: "handle_return env (fuel env) Nil_val (moved v0 ms2 (Suc (code_size st2)) x2) = Some (Inr (), v3)"
      "cur_func v3 = None" "stack v3 = [Nil_val]" "wd v3 = x2"
    using return_main [of "moved v0 ms2 (Suc (code_size st2)) x2" "fuel env" env Nil_val] v0 by auto
  have "one env ?v2 v3"
    by (rule one_instr [OF in2 env(1,2) conjunct2 [OF conjunct2 [OF fi]] conjunct1 [OF conjunct2 [OF fi]]])
       (use 3(1) in \<open>simp add: exec_instr_def mk_instr_def op_return_def bind_run_def pop_run_def\<close>)
  then have "steps env v0 v3" using rtranclp_trans [OF h(1)] 2(2) by (auto intro: rtranclp.rtrancl_into_rtrancl)
  then show ?thesis using 2(1) 3 by (auto simp: running_def)
qed

text \<open>C1: running the code that the emitter makes of a module gives the outcome of the reference
  semantics: for every large enough number of steps, \<^verbatim>\<open>execute\<close> returns nil when the forms have
  values, the error of an uncaught raise with the name of its tag, or the runtime error of the form
  that failed, and leaves the globals, the intern table and the heap that the forms leave, up to the
  code of closures. The forms are core forms (constants, variables, conditionals, non-empty
  sequences, assignments, lambdas, calls, self tail calls, primitive calls, raise and catch).
  The semantics is the one the emitter and the machine implement, and on two points it is not that of
  the guide. The error of a primitive call (\<^verbatim>\<open>car\<close> of a number, a failed arithmetic operation) is not
  catchable: it ends the module whatever catches surround it. A closure captures values, not
  bindings: an assignment in it to a captured variable is not seen outside.\<close>

theorem module_correct:
  assumes "emit_module E h T reg = Some (i, st)" "prefix (es_registry st) (code_table env)" "small_table env"
    and "str_to_id (es_interns st) \<subseteq>\<^sub>m str_to_id tb" "4 \<le> M"
    and "list_all (core_node E T M False) (toplevel_inits (ee_sem E))"
    and "unat (sem_stack_size (ee_sem E)) + Suc n * M < 2 ^ 32"
    and "wrel (compiled E env T tb M) (wd s) w" "\<not> sandbox_mode s" "catches s = []"
    and "eval_module (fresh_id env) tb n (ee_sem E) w = Some (r, ls', w')"
  shows "\<exists>m s'. wrel (compiled E env T tb M) (wd s') w'
    \<and> (\<forall>k. execute env (m + k) i s = Some (answer r (interns w'), s'))"
proof -
  let ?R = "compiled E env T tb M" and ?s0 = "init_state E h T reg" and ?k = "unat (sem_stack_size (ee_sem E))"
  obtain st1 where st1: "emit_toplevel E (toplevel_inits (ee_sem E)) ?s0 = Some st1"
      "fits env i tb ?s0 (emit_instr Return_op 0 default_span (snd (emit_load_const Nil_val default_span st1)))"
      "stack_size (func_of env i) = sem_stack_size (ee_sem E)"
    by (rule module_layout [OF assms(1-4)])
  let ?st2 = "snd (emit_load_const Nil_val default_span st1)"
  have g: "appends ?s0 st1" "appends st1 ?st2" using appends_toplevel [OF st1(1)] by (auto intro: append_rules)
  note fi = fits_instr [OF st1(2) appends_trans [OF g]]
  note fs = fits_split [OF conjunct1 [OF fi] g]
  define v0 where "v0 = start_main env i s"
  define ms where "ms = resize ?k Nil_val (stack s)"
  have v0: "stack v0 = ms" "cur_func v0 = Some i" "pc v0 = 0" "fp v0 = 0" "cur_closure v0 = 0" "wd v0 = wd s"
    "\<not> sandbox_mode v0" "catches v0 = []" "frames v0 \<noteq> []" "fr_kind (last (frames v0)) = Sentinel"
    using st1(3) assms(9,10) by (simp_all add: v0_def start_main_def clear_transfer_def ms_def)
  have lm: "length ms = ?k" by (simp add: ms_def resize_def)
  have ag: "agree (replicate ?k None) ms" using lm by (simp add: agree_def list_all2_conv_all_nth)
  have z: "code_size ?s0 = 0" "pending_self ?s0 = []" by (simp_all add: init_state_def code_size_def empty_function_def)
  have pr: "prepared E T M None ?s0"
    by (simp add: prepared_def cache_ok_def cur_ok_def init_state_def)
  have "length ms + 1 < 2 ^ 32" using assms(5,7) lm by simp
  then have an: "at_node E env T tb M n None False ?s0 st1 i 0 [] ms [] v0 (replicate ?k None) w"
    using assms(3,5,7,8) pr conjunct1 [OF fs] v0 ag lm z by (simp add: at_node_def frame_ok_def in_frame_def)
  have ev: "eval_forms (eval (fresh_id env) tb n) (toplevel_inits (ee_sem E)) (replicate ?k None) w = Some (r, ls', w')"
    using assms(11) by (simp add: eval_module_def)
  then have fo: "forms_ok env ?R v0 (code_size st1) r ls' w'"
    by (rule sim_forms [OF an _ st1(1) assms(6) z(2)])
  have "\<exists>m s1. wrel ?R (wd s1) w' \<and> (\<forall>k. bind_run (run_loop env (m + k)) (\<lambda>_. pop_run) v0 = Some (answer r (interns w'), s1))"
  proof (rule forms_run [OF fo v0(8)])
    fix ms1 x1 assume h: "steps env v0 (moved v0 ms1 (code_size st1) x1)" "wrel ?R x1 w'" "agree ls' ms1"
    have "length ls' = ?k" using eval_forms_length [OF ev] by simp
    then have "length ms1 + 2 < 2 ^ 32" using agree_length [OF h(3)] assms(5,7) by simp
    then show "\<exists>s1. steps env v0 s1 \<and> \<not> running env s1 \<and> stack s1 = [Nil_val] \<and> wrel ?R (wd s1) w'"
      using module_returns [OF at_nodeD(6) [OF an] assms(3) at_nodeD(5) [OF an] st1(2) g h] v0 by simp
  qed
  then show ?thesis by (auto simp: execute_def v0_def)
qed

section \<open>An instance\<close>

text \<open>The factorial module, on an empty machine whose allocator numbers the objects in order.\<close>

definition fresh_count :: fresh where "fresh_count used = Inr (of_nat (length used))"

definition blank_world :: "'f world" where
  "blank_world = \<lparr> globals = [], vheap = Map.empty, used_ids = [], logic = logic_vm0, interns = empty_intern \<rparr>"

definition blank_store :: store where "blank_store = blank_world"

definition blank_vm :: vm where
  "blank_vm = \<lparr> wd = blank_world, stack = [], frames = [], winding = [], catches = [], pending_transfer = None,
     unwind_thunks = [], unwind_index = 0, cur_func = None, pc = 0, fp = 0, cur_closure = Nil_val, active_tapes = [],
     sandbox_mode = False \<rparr>"

definition factorial_vm :: vm_env where
  "factorial_vm = \<lparr> code_table = es_registry factorial_image, fresh_id = fresh_count,
     run_primitive = (\<lambda>_ _. throw (type_error ''primitive'')), logic_call = (\<lambda>_ _ _. None), fuel = 1 \<rparr>"

lemma eval_numeral [simp]: "eval fr t (numeral k) = eval_step fr t (eval fr t (pred_numeral k))"
  by (simp add: numeral_eq_Suc)

lemma small_fixnums:
  "number_of w (box Fixnum_tag 0) = Num_fixnum 0" "number_of w (box Fixnum_tag 1) = Num_fixnum 1"
  "number_of w (box Fixnum_tag 2) = Num_fixnum 2" "number_of w (box Fixnum_tag 3) = Num_fixnum 3"
  by (simp_all add: number_of_def classify_numeric_def visit_value_def sign_extend_fixnum_def PAYLOAD_MASK_def FIXNUM_SIGN_BIT_def)

lemma small_values:
  "\<not> is_tape_ref (box Fixnum_tag x)" "True_val \<noteq> False_val"
  "box Fixnum_tag 3 \<noteq> box Fixnum_tag 0" "box Fixnum_tag 2 \<noteq> box Fixnum_tag 0" "box Fixnum_tag 1 \<noteq> box Fixnum_tag 0"
  "is_heap_ref (box HeapObject_tag 0)" "payload (box HeapObject_tag 0) = 0"
  by (simp_all add: is_tape_ref_def True_val_def False_val_def is_heap_ref_def box_inject PAYLOAD_MASK_def)

lemma small_arith:
  "arith Sub_arith (Num_fixnum 3) (Num_fixnum 1) = Inr (Num_fixnum 2)" "arith Sub_arith (Num_fixnum 2) (Num_fixnum 1) = Inr (Num_fixnum 1)"
  "arith Sub_arith (Num_fixnum 1) (Num_fixnum 1) = Inr (Num_fixnum 0)" "arith Mul_arith (Num_fixnum 1) (Num_fixnum 1) = Inr (Num_fixnum 1)"
  "arith Mul_arith (Num_fixnum 2) (Num_fixnum 1) = Inr (Num_fixnum 2)" "arith Mul_arith (Num_fixnum 3) (Num_fixnum 2) = Inr (Num_fixnum 6)"
  by (simp_all add: arith_def int_op_def sub_overflow_def mul_overflow_def INT64_MIN_def INT64_MAX_def cdiv_def)

lemma small_eqv:
  "values_eqv w (box Fixnum_tag 0) (box Fixnum_tag 0)" "\<not> values_eqv w (box Fixnum_tag 1) (box Fixnum_tag 0)"
  "\<not> values_eqv w (box Fixnum_tag 2) (box Fixnum_tag 0)" "\<not> values_eqv w (box Fixnum_tag 3) (box Fixnum_tag 0)"
  using small_values by (simp_all add: values_eqv_def)

lemma factorial_value:
  "map_option (\<lambda>(r, ls, w). (r, globals w)) (eval_module fresh_count tb 20 (ee_sem factorial_env) blank_store)
    = Some (Val Nil_val, [box HeapObject_tag 0, box Fixnum_tag 6])"
  by (simp add: eval_module_def factorial_defs eval_step_def blank_store_def blank_world_def andThen_def finish_def
      new_object_def fresh_count_def apply_closure_def with_args_def write_address_def read_address_def literal_val_def
      ok_of_def self_ties_def selfs_of_def accepts_args_def bind_params_def frame_slots_def self_call_def slot_value_def
      primitive_op_def as_closure_def object_at_def arith_val_def number_arith_def quotient_undefined_def box_number_def encode_i64_def
      FIXNUM_MIN_def FIXNUM_MAX_def new_fixnum_def small_eqv small_arith small_values small_fixnums)

lemma factorial_small: "small_table factorial_vm"
proof -
  have "list_all (\<lambda>g. length (fn_code g) < 65536 \<and> length (constants g) \<le> 65536) (es_registry factorial_image)"
    unfolding factorial_image_def by (simp add: emit_module_def factorial_defs emitter_defs)
  then show ?thesis using factorial_emitted(2) by (simp add: small_table_def factorial_vm_def list_all_iff)
qed

lemma factorial_core: "list_all (core_node factorial_env empty_intern 16 False) (toplevel_inits (ee_sem factorial_env))"
  by (simp add: factorial_defs core_lambda_def active_of_def)

theorem module_correct_witness:
  "\<exists>m s'. execute factorial_vm m 1 blank_vm = Some (Inr Nil_val, s')
     \<and> globals (wd s') = [box HeapObject_tag 0, box Fixnum_tag 6]"
proof -
  let ?R = "compiled factorial_env factorial_vm empty_intern (es_interns factorial_image) 16"
  obtain ls w where e: "eval_module fresh_count (es_interns factorial_image) 20 (ee_sem factorial_env) blank_store = Some (Val Nil_val, ls, w)"
      "globals w = [box HeapObject_tag 0, box Fixnum_tag 6]"
    using factorial_value [of "es_interns factorial_image"] by auto
  have w: "wrel ?R (wd blank_vm) blank_store" by (simp add: blank_vm_def blank_store_def blank_world_def wrel_def)
  have "\<exists>m s'. wrel ?R (wd s') w \<and> (\<forall>k. execute factorial_vm (m + k) 1 blank_vm = Some (answer (Val Nil_val) (interns w), s'))"
    by (rule module_correct [OF factorial_emitted(1) _ factorial_small _ _ factorial_core _ w])
       (use e(1) in \<open>simp_all add: factorial_vm_def blank_vm_def factorial_defs\<close>)
  then show ?thesis using e(2) wrel_globals by (fastforce simp: answer_def)
qed

end
