(* ===== verification/Spec2Isabelle.thy ===== *)
theory Spec2Isabelle
  imports MarkSweep FactTable Serializer Unify ModuleLinker Reader Pipeline Correctness
begin

text \<open>
  A verification development for the Eta language: its reader, module linker, semantic analyzer,
  optimization passes, bytecode compiler, bytecode files, virtual machine, logic engine and runtime
  memory, as they are under \<^verbatim>\<open>src/eta/core/src/eta\<close>. Paths below are relative to that directory.

  \<^bold>\<open>The program.\<close> A source text becomes tokens, then S-expressions (\<^verbatim>\<open>reader/\<close>). The linker resolves
  the imports of the modules among them. After macro expansion the semantic analyzer turns a module
  into a tree of core nodes with resolved addresses, the passes rewrite the tree, and the emitter
  makes one bytecode function per lambda and one for the module (\<^verbatim>\<open>semantics/\<close>). The functions run on
  a stack machine (\<^verbatim>\<open>runtime/vm/\<close>) or go through a bytecode file. Values are NaN-boxed words; objects
  live in a sharded heap with a pool for pairs, swept by a mark-sweep collector (\<^verbatim>\<open>runtime/memory/\<close>).
  Logic variables, their domains and constraints are undone through a trail.

  \<^bold>\<open>Theories, in the order of the data flow.\<close>
  \<^item> \<open>Prelude\<close>: integer types, results, little-endian bytes, lists, maps and words.
  \<^item> \<open>Source\<close>, \<open>Tokens\<close>, \<open>Lexer\<close>: \<^verbatim>\<open>reader/lexer.{h,cpp}\<close>, \<^verbatim>\<open>numeric.h\<close>, \<^verbatim>\<open>unicode.h\<close>. The state is the record
    \<open>lexer_state\<close>; one definition per scanning routine. Termination, and the spans of tokens.
  \<^item> \<open>SExpr\<close>, \<open>Parser\<close>, \<open>Reader\<close>: \<^verbatim>\<open>reader/parser.{h,cpp}\<close>, \<^verbatim>\<open>sexpr_utils.h\<close>. The parser is written over an
    arbitrary lexer and \<open>Reader\<close> composes the two. Reading returns on every text, accepts exactly a
    grammar of data, and returns well-formed data.
  \<^item> \<open>ModuleLinker\<close>: \<^verbatim>\<open>reader/module_linker.{h,cpp}\<close>. What a module sees after linking, where it comes from,
    and that a circular import is reported exactly when there is one. Exports are checked against what
    is visible for source text only; a compiled module has exports and nothing visible.
  \<^item> \<open>CoreIR\<close>: \<^verbatim>\<open>semantics/core_ir.h\<close>, \<^verbatim>\<open>ir_visitor.h\<close>, \<^verbatim>\<open>optimization_pipeline.h\<close>, the tail marker and the module record.
  \<^item> \<open>Analyzer\<close>, \<open>AnalyzerFacts\<close>: \<^verbatim>\<open>semantics/semantic_analyzer.{h,cpp}\<close>. The scopes are a list, innermost
    first; the captures of a lambda under construction are in its scope. Lookup finds the innermost
    binding, and every module that is accepted is closed (\<open>module_scoped\<close>).
  \<^item> \<open>Passes\<close>, \<open>Emitter\<close>, \<open>EmitterFacts\<close>: \<^verbatim>\<open>semantics/passes/\<close>, \<^verbatim>\<open>emitter.{h,cpp}\<close>. The emitted functions pass the
    verifier of the bytecode loader, all their jumps and handlers have targets inside, and they end
    with a return (\<open>closed_function\<close>).
  \<^item> \<open>Pipeline\<close>: analysis, optimisation and emission composed.
  \<^item> \<open>Machine\<close>, \<open>Interpreter\<close>: \<^verbatim>\<open>runtime/vm/vm.{h,cpp}\<close>, \<^verbatim>\<open>runtime/error.h\<close>. The state of the machine, and
    one definition per opcode, call, return and transfer.
  \<^item> \<open>Semantics\<close>: a big-step evaluator of core nodes that does not mention bytecode, the abstract
    specification of compilation. It takes the side of the code where the guide differs: errors of primitive
    operations are not catchable, and closures copy what they capture. Which captures a \<^verbatim>\<open>letrec\<close> ties it
    takes from the emitter's lists, characterised by \<open>self_captures\<close> and \<open>cross_ties\<close>.
  \<^item> \<open>WorldRel\<close>, \<open>CodeLayout\<close>, \<open>Running\<close>, \<open>Instructions\<close>, \<open>Simulation\<close>, \<open>Calls\<close>, \<open>Compile\<close>, \<open>Correctness\<close>: the
    simulation of the evaluator by the machine: the relation of the two worlds, where the code of a
    node lies, runs of the machine, one lemma per instruction, the statement for one node
    (\<open>sim\<close>), calls, one lemma per node, and the theorem for a module.
  \<^item> \<open>Bytecode\<close>, \<open>Serializer\<close>: \<^verbatim>\<open>runtime/vm/bytecode.h\<close>, \<^verbatim>\<open>bytecode_serializer.{h,cpp}\<close>. Round trip of files,
    what a file that loads guarantees, refusal of truncated files, relocation of function indices.
  \<^item> \<open>NanBox\<close>, \<open>Interning\<close>, \<open>Double\<close>: \<^verbatim>\<open>runtime/nanbox.h\<close>, \<^verbatim>\<open>runtime/memory/intern_table.{h,cpp}\<close>, and IEEE
    754 arithmetic on bit patterns. \<open>Interning\<close> also has the concurrent table as a step relation,
    with its invariant by rule induction over all interleavings.
  \<^item> \<open>HeapObject\<close>, \<open>ObjectStore\<close>, \<open>ConsPool\<close>, \<open>Heap\<close>, \<open>MarkSweep\<close>: \<^verbatim>\<open>runtime/memory/\<close>. \<open>ObjectStore\<close> is the
    locale of what the collector needs of a store; the pool and the heap interpret it. A collection
    keeps exactly the \<open>survivors\<close>, defined on the heap before it, and delivers finalizers once.
  \<^item> \<open>Domain\<close>, \<open>FactTable\<close>, \<open>Trail\<close>, \<open>Unify\<close>: \<^verbatim>\<open>runtime/clp/domain.h\<close>, \<^verbatim>\<open>types/fact_table.h\<close>, the trail and unification of
    \<^verbatim>\<open>vm.cpp\<close>. Propagation loses no solution, fact tables refine relations, backtracking restores
    the state, unification is sound, restores on failure and returns. Hooks and propagators are
    arguments: for soundness they only constrain further (\<open>call_narrows\<close>), for termination they
    settle (\<open>call_settles\<close>): they may bind, narrow and enqueue, but enqueue more only as a rank falls.
  \<^item> \<open>Tape\<close>: \<^verbatim>\<open>runtime/types/tape.h\<close>, \<^verbatim>\<open>tape_ref.h\<close>, the tape of reverse-mode differentiation.

  \<^bold>\<open>How code is rendered.\<close> A struct is a record, an enum or variant a datatype, a machine integer a
  word of its width, a hash map a partial map or, where its order shows, a list in an arbitrary
  order. A routine that may fail returns a sum with its error. A routine with side effects takes and
  returns its state. Code outside the repository is an argument: the C mathematics library, the text
  that describes the build, host primitives, the iteration order of unordered containers, the
  allocator's next id.

  \<^bold>\<open>Fuel and bounds.\<close> The routines whose recursion is bounded by data outside their arguments take fuel
  and return \<open>None\<close> without it; each use is covered by a theorem that a bound is enough.
  \<^item> The lexer needs \<open>3 * left + 2\<close> for \<open>left\<close> characters: each character is passed at most three times by
    the mutual calls for comments. The parser needs \<open>2 * length + 2\<close>: each token opens at most two calls.
  \<^item> Constants of a bytecode file nest at most as deep as there are bytes left.
  \<^item> Unification with the occurs check needs fuel in the size of the terms; more fuel changes nothing.
  \<^item> The evaluator takes a depth \<open>n\<close> of nested calls; \<open>module_correct\<close> asks that \<open>n + 1\<close> frames of at most
    \<open>M\<close> slots fit the 32-bit stack index, and gives a number of steps after which the machine has
    returned. The machine's own \<open>fuel\<close> bounds the calls that one instruction chains.
  \<^item> Operands of jumps have 32 bits and those of handlers 16: functions below 2^31 instructions for the
    structural theorem, below 65536 for the simulation.
  \<^item> Slots of variables have 16 bits: \<open>analyze_all_scoped\<close> asks for fewer than 65536 bindings in a module.

  \<^bold>\<open>Undefined behaviour.\<close> A step of the interpreter gives \<open>None\<close> where C++ leaves the result undefined, such
  as the quotient of the least 64-bit integer and -1, and so does the evaluator; the integers of
  \<open>Domain\<close> are unbounded, its results those of the code as long as nothing overflows there.

  \<^bold>\<open>Not modelled.\<close> The macro expander: the analyzer starts at its output, so reading and analysis are
  not composed. Host procedures other than those of the logic, constraint and tape families, which
  are arguments of the interpreter, and with them ports, processes, regular expressions, CSV, JSON,
  statistics, tensors and messaging, which are calls of libraries and of the operating system. The
  floating-point solvers for linear and quadratic constraints and the matching of all-different,
  of which the trail models what they store. The driver, the package manager, the
  command line tools, the editor and notebook servers. In the interpreter, sandbox limits and the debugger.
  \<open>module_correct\<close> covers the core forms; continuations, dynamic-wind and multiple
  values are modelled in \<open>Interpreter\<close> but are outside the evaluator.
\<close>

end
